(* ===== verification/LxPrelude.thy ===== *)
theory LxPrelude
  imports Complex_Main "HOL-Library.Multiset" "HOL-Library.Char_ord" "HOL-Library.List_Lexorder"
begin

text \<open>
  What every component of the development shares: the result type of a Python function that
  may raise, Python's index and string conventions, floor arithmetic, the narrowing casts of
  NumPy's integer arrays, walks of an interval by consecutive blocks, and the collections the
  component proofs use.

  A function that raises is modelled as \<open>error + 'a\<close>: \<open>Inl\<close> is the exception (each component has
  a datatype with one constructor per \<open>raise\<close> of its source; the prose of the message is not
  kept, the numbers it quotes are), \<open>Inr\<close> the returned value.
\<close>

named_theorems bound_rules "bounds on extents, carriers and indices"

named_theorems walk_rules "facts on walks of an interval by consecutive blocks"

type_synonym ('e, 'a) result = "'e + 'a"

definition andthen :: "('e, 'a) result \<Rightarrow> ('a \<Rightarrow> ('e, 'b) result) \<Rightarrow> ('e, 'b) result" where
  "andthen r f = (case r of Inl e \<Rightarrow> Inl e | Inr a \<Rightarrow> f a)"

lemma andthen_simps [simp]:
  "andthen (Inl e) f = Inl e"
  "andthen (Inr a) f = f a"
  by (simp_all add: andthen_def)

lemma andthen_eq_Inr [simp]:
  "andthen r f = Inr b \<longleftrightarrow> (\<exists>a. r = Inr a \<and> f a = Inr b)"
  by (cases r) simp_all

lemma andthen_eq_Inl:
  "andthen r f = Inl e \<longleftrightarrow> r = Inl e \<or> (\<exists>a. r = Inr a \<and> f a = Inl e)"
  by (cases r) auto

text \<open>Evaluate a fallible function on each element, stopping at the first exception, as a
  generator expression inside \<open>tuple(...)\<close> does.\<close>

fun mapE :: "('a \<Rightarrow> ('e, 'b) result) \<Rightarrow> 'a list \<Rightarrow> ('e, 'b list) result" where
  "mapE f [] = Inr []"
| "mapE f (x # xs) = andthen (f x) (\<lambda>y. andthen (mapE f xs) (\<lambda>ys. Inr (y # ys)))"

lemma mapE_Inr_iff: "mapE f xs = Inr ys \<longleftrightarrow> list_all2 (\<lambda>x y. f x = Inr y) xs ys"
  by (induction xs arbitrary: ys) (auto simp: list_all2_Cons1)

lemma mapE_nth: "mapE f xs = Inr ys \<Longrightarrow> length ys = length xs \<and> (\<forall>i<length xs. f (xs ! i) = Inr (ys ! i))"
  unfolding mapE_Inr_iff by (simp add: list_all2_conv_all_nth)

lemma mapE_refused: "mapE f xs = Inl e \<Longrightarrow> \<exists>x\<in>set xs. f x = Inl e"
  by (induction xs) (auto simp: andthen_eq_Inl)

lemma mapE_total: "\<forall>x\<in>set xs. f x = Inr (g x) \<Longrightarrow> mapE f xs = Inr (map g xs)"
  by (induction xs) auto

text \<open>Python's sequence index: negative positions count from the end.\<close>

definition py_index :: "'a list \<Rightarrow> int \<Rightarrow> 'a option" where
  "py_index xs i =
     (let n = int (length xs); j = (if i < 0 then n + i else i)
      in if 0 \<le> j \<and> j < n then Some (xs ! nat j) else None)"

lemma py_index_nonneg: "0 \<le> i \<Longrightarrow> i < int (length xs) \<Longrightarrow> py_index xs i = Some (xs ! nat i)"
  by (simp add: py_index_def)

text \<open>Whitespace of \<open>str.strip\<close> / \<open>str.split\<close> (code points below 256), and ASCII lower case.\<close>

definition py_isspace :: "char \<Rightarrow> bool" where
  "py_isspace c \<longleftrightarrow> (of_char c :: nat) \<in> {9, 10, 11, 12, 13, 28, 29, 30, 31, 32, 133, 160}"

definition py_strip :: "string \<Rightarrow> string" where
  "py_strip s = rev (dropWhile py_isspace (rev (dropWhile py_isspace s)))"

definition ascii_lower :: "char \<Rightarrow> char" where
  "ascii_lower c =
     (let n = (of_char c :: nat) in if 65 \<le> n \<and> n \<le> 90 then char_of (n + 32) else c)"

definition py_lower :: "string \<Rightarrow> string" where
  "py_lower s = map ascii_lower s"

subsection \<open>Floor division\<close>

text \<open>Python's \<open>//\<close> and \<open>%\<close> on ints are HOL's \<open>div\<close> and \<open>mod\<close>. \<open>-(-a // b)\<close> is the ceiling.\<close>

definition ceil_div :: "int \<Rightarrow> int \<Rightarrow> int" where
  "ceil_div a b = - ((- a) div b)"

lemma ceil_div_alt: "0 < b \<Longrightarrow> ceil_div a b = (a + b - 1) div b"
proof -
  assume b: "0 < b"
  let ?q = "a div b" and ?r = "a mod b"
  have a: "a = b * ?q + ?r" and r: "0 \<le> ?r" "?r < b" using b by simp_all
  show ?thesis
  proof (cases "?r = 0")
    case True
    have "(- a) div b = - ?q"
      using True b a by (metis dvd_eq_mod_eq_0 dvd_neg_div)
    moreover have "(a + b - 1) div b = ?q"
    proof -
      have "(b * ?q + (b - 1)) div b = ?q + (b - 1) div b" using b by simp
      moreover have "(b - 1) div b = 0" using b by simp
      ultimately show ?thesis using a True by (simp add: algebra_simps)
    qed
    ultimately show ?thesis by (simp add: ceil_div_def)
  next
    case False
    have "(- a) div b = - ?q - 1"
      using False b by (simp add: div_minus_minus zdiv_zminus1_eq_if)
    moreover have "(a + b - 1) div b = ?q + 1"
    proof -
      have "(b * (?q + 1) + (?r - 1)) div b = (?q + 1) + (?r - 1) div b" using b by simp
      moreover have "(?r - 1) div b = 0" using False r by simp
      moreover have "b * (?q + 1) + (?r - 1) = a + b - 1" using a by (simp add: algebra_simps)
      ultimately show ?thesis by simp
    qed
    ultimately show ?thesis by (simp add: ceil_div_def)
  qed
qed

lemma ceil_div_upper: "0 < b \<Longrightarrow> a \<le> ceil_div a b * b"
proof -
  assume b: "0 < b"
  have "0 \<le> (- a) mod b" using b by simp
  moreover have "(- a) div b * b + (- a) mod b = - a" by (rule div_mult_mod_eq)
  ultimately show ?thesis unfolding ceil_div_def minus_mult_left [symmetric] by linarith
qed

lemma ceil_div_lower: "0 < b \<Longrightarrow> ceil_div a b * b < a + b"
proof -
  assume b: "0 < b"
  have "(- a) mod b < b" using b by simp
  moreover have "(- a) div b * b + (- a) mod b = - a" by (rule div_mult_mod_eq)
  ultimately show ?thesis unfolding ceil_div_def minus_mult_left [symmetric] by linarith
qed

lemma ceil_div_le: "0 < b \<Longrightarrow> ceil_div a b \<le> c \<longleftrightarrow> a \<le> c * b"
proof
  assume b: "0 < b" and "ceil_div a b \<le> c"
  then have "ceil_div a b * b \<le> c * b" by (simp add: mult_right_mono)
  then show "a \<le> c * b" using ceil_div_upper [OF b, of a] by linarith
next
  assume b: "0 < b" and ac: "a \<le> c * b"
  have "ceil_div a b * b < (c + 1) * b"
    using ceil_div_lower [OF b, of a] ac by (simp add: algebra_simps)
  then show "ceil_div a b \<le> c" using b by (simp add: mult_less_cancel_right)
qed

lemma ceil_div_pos: "0 < b \<Longrightarrow> 0 < a \<Longrightarrow> 0 < ceil_div a b"
  by (meson ceil_div_le linorder_not_le mult_nonpos_nonneg order_less_imp_le order_le_less_trans)

lemma ceil_div_nonneg: "0 < b \<Longrightarrow> 0 \<le> a \<Longrightarrow> 0 \<le> ceil_div a b"
  using ceil_div_pos [of b a] by (cases "a = 0") (simp_all add: ceil_div_def)

subsection \<open>Ranges\<close>

text \<open>\<open>range(a, b, s)\<close> for a positive step.\<close>

function py_range :: "int \<Rightarrow> int \<Rightarrow> int \<Rightarrow> int list" where
  "py_range a b s = (if s \<le> 0 \<or> b \<le> a then [] else a # py_range (a + s) b s)"
  by pat_completeness auto
termination by (relation "measure (\<lambda>(a, b, s). nat (b - a))") auto

declare py_range.simps [simp del]

lemma py_range_ge: "x \<in> set (py_range a b s) \<Longrightarrow> a \<le> x \<and> x < b"
proof (induction a b s rule: py_range.induct)
  case (1 a b s)
  then show ?case by (subst (asm) (2) py_range.simps) (fastforce split: if_splits)
qed

subsection \<open>Floats\<close>

text \<open>
  A float where its special values matter: a finite one is the real it denotes (rounding is not
  modelled), the others are themselves. Comparisons with a NaN are false; \<open>np.max\<close> propagates it.
\<close>

datatype xfloat = Num real | PosInf | NegInf | NaN

fun xf_finite :: "xfloat \<Rightarrow> bool" where
  "xf_finite (Num _) = True"
| "xf_finite _ = False"

fun xf_less :: "xfloat \<Rightarrow> xfloat \<Rightarrow> bool" where
  "xf_less NaN _ = False"
| "xf_less _ NaN = False"
| "xf_less (Num a) (Num b) = (a < b)"
| "xf_less NegInf y = (y \<noteq> NegInf)"
| "xf_less (Num _) y = (y = PosInf)"
| "xf_less PosInf _ = False"

definition xf_le :: "xfloat \<Rightarrow> xfloat \<Rightarrow> bool" where
  "xf_le a b \<longleftrightarrow> xf_less a b \<or> (a = b \<and> a \<noteq> NaN)"

fun np_max2 :: "xfloat \<Rightarrow> xfloat \<Rightarrow> xfloat" where
  "np_max2 a b = (if a = NaN \<or> b = NaN then NaN else if xf_less a b then b else a)"

definition np_max :: "xfloat list \<Rightarrow> xfloat" where
  "np_max xs = fold np_max2 (tl xs) (hd xs)"

lemma xf_finite_iff: "xf_finite x \<longleftrightarrow> (\<exists>r. x = Num r)"
  by (cases x) simp_all

lemma np_max2_Num [simp]: "np_max2 (Num a) (Num b) = Num (max a b)"
  by (simp add: max_def)

lemma np_max_Num:
  "xs \<noteq> [] \<Longrightarrow> np_max (map Num xs) = Num (Max (set xs))"
proof -
  have fold: "fold np_max2 (map Num ys) (Num a) = Num (Max (insert a (set ys)))" for ys a
  proof (induction ys arbitrary: a)
    case (Cons y ys)
    have "Max (insert (max y a) (set ys)) = Max (insert a (insert y (set ys)))"
      by (cases "ys = []") (simp_all add: ac_simps)
    then show ?case using Cons.IH [of "max y a"] by (simp only: list.map fold.simps o_apply np_max2_Num list.set)
  qed simp
  assume "xs \<noteq> []"
  then obtain x ys where "xs = x # ys" by (cases xs) auto
  then show ?thesis using fold [of ys x] by (simp only: np_max_def list.map list.sel list.set)
qed

subsection \<open>Bit matrices\<close>

text \<open>A two-dimensional boolean array, its entries, and marking the columns of one row.\<close>

definition bm_zero :: "int \<Rightarrow> int \<Rightarrow> bool list list" where
  "bm_zero n m = replicate (nat n) (replicate (nat m) False)"

definition bm_get :: "bool list list \<Rightarrow> int \<Rightarrow> int \<Rightarrow> bool" where
  "bm_get b q c = b ! nat q ! nat c"

definition bm_mark :: "bool list list \<Rightarrow> int \<Rightarrow> int list \<Rightarrow> bool list list" where
  "bm_mark b q cs = b[nat q := fold (\<lambda>c row. row[nat c := True]) cs (b ! nat q)]"

definition bm_all :: "bool list list \<Rightarrow> bool" where
  "bm_all b = list_all (\<lambda>r. list_all (\<lambda>x. x) r) b"

definition bm_count :: "bool list list \<Rightarrow> nat" where
  "bm_count b = sum_list (map (\<lambda>r. length (filter (\<lambda>x. x) r)) b)"

definition bm_wf :: "int \<Rightarrow> int \<Rightarrow> bool list list \<Rightarrow> bool" where
  "bm_wf n m b \<longleftrightarrow> length b = nat n \<and> list_all (\<lambda>r. length r = nat m) b"

lemma bm_wf_zero [simp]: "bm_wf n m (bm_zero n m)"
  by (simp add: bm_wf_def bm_zero_def list_all_iff)

lemma bm_get_zero [simp]: "0 \<le> q \<Longrightarrow> q < n \<Longrightarrow> 0 \<le> c \<Longrightarrow> c < m \<Longrightarrow> \<not> bm_get (bm_zero n m) q c"
  by (simp add: bm_get_def bm_zero_def)

lemma mark_row_length [simp]: "length (fold (\<lambda>c row. row[nat c := True]) cs row) = length row"
  by (induction cs arbitrary: row) auto

lemma mark_row_nth:
  "k < length row \<Longrightarrow> fold (\<lambda>c row. row[nat c := True]) cs row ! k \<longleftrightarrow> row ! k \<or> k \<in> nat ` set cs"
proof (induction cs arbitrary: row)
  case (Cons a cs)
  then show ?case by (cases "nat a = k") auto
qed simp

lemma bm_wf_mark [simp]: "bm_wf n m b \<Longrightarrow> 0 \<le> q \<Longrightarrow> q < n \<Longrightarrow> bm_wf n m (bm_mark b q cs)"
  by (auto simp: bm_wf_def bm_mark_def list_all_length nth_list_update)

lemma bm_get_mark:
  assumes "bm_wf n m b" "0 \<le> q" "q < n" "0 \<le> p" "p < n" "0 \<le> c" "c < m" "\<forall>x\<in>set cs. 0 \<le> x"
  shows "bm_get (bm_mark b q cs) p c \<longleftrightarrow> bm_get b p c \<or> (p = q \<and> c \<in> set cs)"
proof -
  have len: "nat q < length b" "nat p < length b" "length (b ! nat p) = nat m" "length (b ! nat q) = nat m"
    using assms by (auto simp: bm_wf_def list_all_length)
  have in_iff: "nat c \<in> nat ` set cs \<longleftrightarrow> c \<in> set cs"
    using assms(6,8) by (auto simp: nat_eq_iff2 image_iff)
  show ?thesis
  proof (cases "p = q")
    case True
    then show ?thesis
      using len assms(6,7) mark_row_nth [of "nat c" "b ! nat q" cs] in_iff
      by (simp add: bm_get_def bm_mark_def)
  next
    case False
    then have "nat p \<noteq> nat q" using assms by (simp add: nat_eq_iff2)
    then show ?thesis using False by (simp add: bm_get_def bm_mark_def)
  qed
qed

lemma bm_all_iff:
  assumes "bm_wf n m b"
  shows "bm_all b \<longleftrightarrow> (\<forall>q c. 0 \<le> q \<and> q < n \<and> 0 \<le> c \<and> c < m \<longrightarrow> bm_get b q c)"
proof
  assume "bm_all b"
  then show "\<forall>q c. 0 \<le> q \<and> q < n \<and> 0 \<le> c \<and> c < m \<longrightarrow> bm_get b q c"
    using assms by (auto simp: bm_all_def bm_wf_def bm_get_def list_all_length)
next
  assume r: "\<forall>q c. 0 \<le> q \<and> q < n \<and> 0 \<le> c \<and> c < m \<longrightarrow> bm_get b q c"
  show "bm_all b"
    unfolding bm_all_def list_all_length
  proof (intro allI impI)
    fix i j assume i: "i < length b" and j: "j < length (b ! i)"
    then have "int i < n" "int j < m" using assms by (auto simp: bm_wf_def list_all_length)
    then show "b ! i ! j" using r [rule_format, of "int i" "int j"] by (simp add: bm_get_def)
  qed
qed

lemma bm_eqI:
  assumes "bm_wf n m a" "bm_wf n m b"
    and "\<And>q c. 0 \<le> q \<Longrightarrow> q < n \<Longrightarrow> 0 \<le> c \<Longrightarrow> c < m \<Longrightarrow> bm_get a q c = bm_get b q c"
  shows "a = b"
proof (rule nth_equalityI)
  show "length a = length b" using assms by (simp add: bm_wf_def)
  fix i assume i: "i < length a"
  show "a ! i = b ! i"
  proof (rule nth_equalityI)
    show "length (a ! i) = length (b ! i)" using assms i by (auto simp: bm_wf_def list_all_length)
    fix j assume j: "j < length (a ! i)"
    then have "int i < n" "int j < m" using assms i by (auto simp: bm_wf_def list_all_length)
    then show "a ! i ! j = b ! i ! j" using assms(3) [of "int i" "int j"] by (simp add: bm_get_def)
  qed
qed

subsection \<open>NumPy narrowing\<close>

text \<open>\<open>astype(np.int32)\<close> keeps the low 32 bits, read as two's complement.\<close>

definition to_i32 :: "int \<Rightarrow> int" where
  "to_i32 x = (x + 2 ^ 31) mod 2 ^ 32 - 2 ^ 31"

lemma to_i32_id: "- (2 ^ 31) \<le> x \<Longrightarrow> x < 2 ^ 31 \<Longrightarrow> to_i32 x = x"
  by (simp add: to_i32_def)

subsection \<open>Walks\<close>

text \<open>\<open>walk a b bs\<close>: the blocks \<open>bs\<close> are nonempty, consecutive, start at \<open>a\<close> and end at \<open>b\<close>.\<close>

fun walk :: "int \<Rightarrow> int \<Rightarrow> (int \<times> int) list \<Rightarrow> bool" where
  "walk a b [] \<longleftrightarrow> a = b"
| "walk a b ((lo, hi) # bs) \<longleftrightarrow> lo = a \<and> lo < hi \<and> walk hi b bs"

lemma walk_le [walk_rules]: "walk a b bs \<Longrightarrow> a \<le> b"
  by (induction a b bs rule: walk.induct) auto

lemma walk_block [walk_rules]: "walk a b bs \<Longrightarrow> (lo, hi) \<in> set bs \<Longrightarrow> a \<le> lo \<and> lo < hi \<and> hi \<le> b"
proof (induction a b bs rule: walk.induct)
  case (2 a b l h bs)
  then show ?case using walk_le [of h b bs] by (auto; fastforce)
qed simp

lemma walk_cover [walk_rules]:
  "walk a b bs \<Longrightarrow> a \<le> x \<Longrightarrow> x < b \<Longrightarrow> \<exists>(lo, hi)\<in>set bs. lo \<le> x \<and> x < hi"
proof (induction a b bs rule: walk.induct)
  case (1 a b)
  then show ?case by simp
next
  case (2 a b lo hi bs)
  then show ?case by (cases "x < hi") auto
qed

lemma walk_unique [walk_rules]:
  "walk a b bs \<Longrightarrow> (lo, hi) \<in> set bs \<Longrightarrow> (lo', hi') \<in> set bs \<Longrightarrow>
   lo \<le> x \<Longrightarrow> x < hi \<Longrightarrow> lo' \<le> x \<Longrightarrow> x < hi' \<Longrightarrow> lo = lo' \<and> hi = hi'"
proof (induction a b bs rule: walk.induct)
  case (1 a b)
  then show ?case by simp
next
  case (2 a b l h bs)
  have tail: "h \<le> p" if "(p, q) \<in> set bs" for p q
    using walk_block [of h b bs p q] 2(2) that by simp
  show ?case using 2 tail by (auto; force)
qed

lemma walk_sum [walk_rules]: "walk a b bs \<Longrightarrow> (\<Sum>(lo, hi)\<leftarrow>bs. hi - lo) = b - a"
  by (induction a b bs rule: walk.induct) auto

lemma walk_distinct [walk_rules]: "walk a b bs \<Longrightarrow> distinct bs"
proof (induction a b bs rule: walk.induct)
  case (2 a b lo hi bs)
  then have "(lo, hi) \<notin> set bs" using walk_block [of hi b bs lo hi] by auto
  with 2 show ?case by simp
qed simp

lemma walk_append: "walk a b bs \<Longrightarrow> walk b c cs \<Longrightarrow> walk a c (bs @ cs)"
  by (induction a b bs rule: walk.induct) auto

text \<open>
  A walk planner: a function that splits \<open>[0, n)\<close> into consecutive blocks of bounded width.
  Whoever streams over the blocks needs exactly this: each index is visited in one block and
  no block is wider than the tile it was planned for.
\<close>

locale block_walk =
  fixes plan :: "int \<Rightarrow> (int \<times> int) list"
    and width :: "int \<Rightarrow> int"
    and legal :: "int \<Rightarrow> bool"
  assumes plan_walk: "legal n \<Longrightarrow> walk 0 n (plan n)"
    and plan_width: "legal n \<Longrightarrow> (lo, hi) \<in> set (plan n) \<Longrightarrow> hi - lo \<le> width n"
begin

lemma visited_once:
  "legal n \<Longrightarrow> 0 \<le> x \<Longrightarrow> x < n \<Longrightarrow> \<exists>!blk. blk \<in> set (plan n) \<and> fst blk \<le> x \<and> x < snd blk"
proof -
  assume n: "legal n" and x: "0 \<le> x" "x < n"
  from walk_cover [OF plan_walk [OF n] x] obtain lo hi
    where lh: "(lo, hi) \<in> set (plan n)" "lo \<le> x" "x < hi" by auto
  show ?thesis
  proof (rule ex1I [of _ "(lo, hi)"])
    show "(lo, hi) \<in> set (plan n) \<and> fst (lo, hi) \<le> x \<and> x < snd (lo, hi)" using lh by simp
  next
    fix blk assume "blk \<in> set (plan n) \<and> fst blk \<le> x \<and> x < snd blk"
    then show "blk = (lo, hi)"
      using walk_unique [OF plan_walk [OF n], of "fst blk" "snd blk" lo hi x] lh
      by (cases blk) auto
  qed
qed

lemma in_bounds: "legal n \<Longrightarrow> (lo, hi) \<in> set (plan n) \<Longrightarrow> 0 \<le> lo \<and> lo < hi \<and> hi \<le> n \<and> hi - lo \<le> width n"
  using walk_block [OF plan_walk] plan_width by blast

lemma total_work: "legal n \<Longrightarrow> (\<Sum>(lo, hi)\<leftarrow>plan n. hi - lo) = n"
  using walk_sum [OF plan_walk] by simp

lemma count_bound: "legal n \<Longrightarrow> n \<le> int (length (plan n)) * width n"
proof -
  assume n: "legal n"
  have "(\<Sum>(lo, hi)\<leftarrow>bs. hi - lo) \<le> int (length bs) * w"
    if "\<forall>(lo, hi)\<in>set bs. hi - lo \<le> w" for bs :: "(int \<times> int) list" and w
    using that by (induction bs) (auto simp: algebra_simps)
  from this [of "plan n" "width n"] plan_width [OF n] total_work [OF n] show ?thesis by auto
qed

end

end
