(* ===== verification/Padding.thy ===== *)
theory Padding
  imports LxPrelude
begin

text \<open>
  \<open>src/runtime/padding.py\<close>: the mesh-divisibility padding contract. Extent arithmetic
  (\<open>round_up\<close> and its relatives), the divisor a partition spec asks of an array axis, the
  \<open>PaddedAxis\<close> receipt with its validation, the producer (\<open>padded_axis\<close>) and the reader
  (\<open>authenticate_padded_axis\<close>) of a carrier extent, the array operations on a padded axis, the
  dense solve at the logical extent, and the tile selection \<open>bounded_partition_tile\<close>.

  Python ints are \<open>int\<close>. A mesh is the ordered list of its axis names and sizes. An array is its
  shape and its entries as a function of the index list; \<open>nd_make\<close> forgets what lies outside the
  shape, so two arrays are equal exactly when NumPy would call them so.
\<close>

section \<open>Extent arithmetic\<close>

definition round_up :: "int \<Rightarrow> int \<Rightarrow> int" where
  "round_up n divisor = (let d = max divisor 1 in ((n + d - 1) div d) * d)"

fun nat_bits :: "nat \<Rightarrow> nat" where
  "nat_bits n = (if n = 0 then 0 else Suc (nat_bits (n div 2)))"

declare nat_bits.simps [simp del]

text \<open>Python's \<open>int.bit_length\<close>: the binary digits of the absolute value.\<close>

definition bit_length :: "int \<Rightarrow> int" where
  "bit_length n = int (nat_bits (nat \<bar>n\<bar>))"

definition ladder_extent :: "int \<Rightarrow> int option \<Rightarrow> int" where
  "ladder_extent n cap =
     (let v = round_up n (2 ^ nat (max 0 (bit_length n - 4)))
      in case cap of None \<Rightarrow> v | Some c \<Rightarrow> min c v)"

definition round_down :: "int \<Rightarrow> int \<Rightarrow> int" where
  "round_down n divisor = (let v = max n 0; d = max divisor 1 in (v div d) * d)"

definition combined_divisor :: "int list \<Rightarrow> int" where
  "combined_divisor divisors = foldr lcm (map (\<lambda>v. max v 1) divisors) 1"

fun product_divisor :: "int list \<Rightarrow> int" where
  "product_divisor [] = 1"
| "product_divisor (v # vs) = max v 1 * product_divisor vs"

text \<open>
  What every consumer of a carrier extent relies on: it holds the logical extent, divides the
  mesh, and is the least such extent.
\<close>

locale carrier_rule =
  fixes carrier :: "int \<Rightarrow> int \<Rightarrow> int"
  assumes carrier_ge: "n \<le> carrier n d"
    and carrier_dvd: "max d 1 dvd carrier n d"
    and carrier_least: "n \<le> m \<Longrightarrow> max d 1 dvd m \<Longrightarrow> carrier n d \<le> m"
begin

lemma carrier_fixed_iff: "1 \<le> d \<Longrightarrow> carrier n d = n \<longleftrightarrow> d dvd n"
  using carrier_ge [of n d] carrier_dvd [of d n] carrier_least [of n n d] by (auto simp: max_def)

lemma carrier_one: "carrier n 1 = n"
  using carrier_fixed_iff [of 1 n] by simp

lemma carrier_idem: "carrier (carrier n d) d = carrier n d"
  using carrier_ge [of "carrier n d" d] carrier_least [of "carrier n d" "carrier n d" d]
    carrier_dvd [of d n] by simp

lemma carrier_mono: "n \<le> m \<Longrightarrow> carrier n d \<le> carrier m d"
  using carrier_least [of n "carrier m d" d] carrier_ge [of m d] carrier_dvd [of d m] by simp

lemma carrier_tight: "carrier n d < n + max d 1"
proof (rule ccontr)
  assume "\<not> carrier n d < n + max d 1"
  then have "n \<le> carrier n d - max d 1" by simp
  moreover have "max d 1 dvd carrier n d - max d 1" using carrier_dvd [of d n] by simp
  ultimately have "carrier n d \<le> carrier n d - max d 1" by (rule carrier_least)
  then show False by (simp add: max_def split: if_splits)
qed

lemma carrier_nonneg: "0 \<le> n \<Longrightarrow> 0 \<le> carrier n d"
  using carrier_ge [of n d] by simp

lemma carrier_refine: "1 \<le> d \<Longrightarrow> 1 \<le> e \<Longrightarrow> d dvd e \<Longrightarrow> carrier n d \<le> carrier n e"
  using carrier_least [of n "carrier n e" d] carrier_ge [of n e] carrier_dvd [of e n]
  by (auto simp: max_def intro: dvd_trans split: if_splits)

end

lemma round_up_ceil: "round_up n d = ceil_div n (max d 1) * max d 1"
  using ceil_div_alt [of "max d 1" n] by (simp add: round_up_def Let_def)

interpretation ru: carrier_rule round_up
proof unfold_locales
  fix n d m :: int
  have d: "0 < max d 1" by simp
  show "n \<le> round_up n d" using ceil_div_upper [OF d] by (simp add: round_up_ceil)
  show "max d 1 dvd round_up n d" by (simp add: round_up_ceil)
  assume nm: "n \<le> m" and "max d 1 dvd m"
  then obtain k where m: "m = k * max d 1" by (metis dvdE mult.commute)
  have "ceil_div n (max d 1) \<le> k" using nm m ceil_div_le [OF d] by simp
  then show "round_up n d \<le> m" unfolding round_up_ceil m using d by (intro mult_right_mono) auto
qed

lemmas round_up_bounds [bound_rules] = ru.carrier_ge ru.carrier_tight ru.carrier_nonneg

subsection \<open>The eighth-of-an-octave ladder\<close>

lemma nat_bits_0 [simp]: "nat_bits 0 = 0"
  by (simp add: nat_bits.simps)

lemma nat_bits_Suc: "0 < n \<Longrightarrow> nat_bits n = Suc (nat_bits (n div 2))"
  by (subst nat_bits.simps) simp

lemma nat_bits_pow: "0 < n \<Longrightarrow> 2 ^ (nat_bits n - 1) \<le> n \<and> n < 2 ^ nat_bits n"
proof (induction n rule: less_induct)
  case (less n)
  show ?case
  proof (cases "n div 2 = 0")
    case True
    then have "n = 1" using less.prems by auto
    then show ?thesis by (simp add: nat_bits_Suc)
  next
    case False
    then have IH: "2 ^ (nat_bits (n div 2) - 1) \<le> n div 2" "n div 2 < 2 ^ nat_bits (n div 2)"
      using less.IH [of "n div 2"] less.prems by auto
    have b: "0 < nat_bits (n div 2)" using False nat_bits_Suc [of "n div 2"] by simp
    have step: "nat_bits n = Suc (nat_bits (n div 2))" using less.prems by (rule nat_bits_Suc)
    obtain j where j: "nat_bits (n div 2) = Suc j" using b gr0_implies_Suc by blast
    show ?thesis using IH unfolding step j by auto
  qed
qed

text \<open>
  \<open>round_up n d\<close> is the carrier contract of the whole tree: a multiple of the divisor (of 1 when
  a caller passes a divisor below 1), at least \<open>n\<close>, and no larger than any other such extent.
\<close>

theorem round_up_least_multiple:
  "n \<le> round_up n d \<and> max d 1 dvd round_up n d \<and> round_up n d < n + max d 1 \<and>
   (n \<le> m \<and> max d 1 dvd m \<longrightarrow> round_up n d \<le> m)"
  using ru.carrier_ge ru.carrier_dvd ru.carrier_tight ru.carrier_least by blast

theorem round_up_least_multiple_witness:
  "(785::int) \<le> 788 \<and> 4 dvd (788::int) \<and> round_up 785 4 = 788 \<and> round_up 785 4 \<le> 800"
  using round_up_least_multiple [of 785 4 800] by (simp add: round_up_def Let_def)

text \<open>
  \<open>ladder_extent\<close> pads a moving extent by at most an eighth and lands on one of the nine rungs
  \<open>8 s, ..., 16 s\<close> of the octave (\<open>s\<close> an eighth of the leading power of two), so the carriers, and
  the programs keyed by them, repeat.
\<close>

theorem ladder_extent_bounds:
  assumes "0 < n"
  shows "n \<le> ladder_extent n None \<and> 8 * (ladder_extent n None - n) \<le> n \<and>
    (8 \<le> n \<longrightarrow> (\<exists>r. 8 \<le> r \<and> r \<le> 16 \<and> ladder_extent n None = r * 2 ^ nat (bit_length n - 4)))"
proof -
  define b where "b = nat_bits (nat n)"
  define s :: int where "s = 2 ^ nat (max 0 (int b - 4))"
  have L: "ladder_extent n None = round_up n s"
    using assms by (simp add: ladder_extent_def bit_length_def b_def s_def)
  have "(2::nat) ^ (b - 1) \<le> nat n" "nat n < 2 ^ b"
    using nat_bits_pow [of "nat n"] assms by (auto simp: b_def)
  then have "int (2 ^ (b - 1)) \<le> int (nat n)" "int (nat n) < int (2 ^ b)" by linarith+
  then have nb: "2 ^ (b - 1) \<le> n" "n < 2 ^ b" using assms by simp_all
  have s1: "1 \<le> s" by (simp add: s_def)
  have tight: "round_up n s < n + s" using ru.carrier_tight [of n s] s1 by simp
  have big: "s = 2 ^ (b - 4) \<and> 8 * s = 2 ^ (b - 1) \<and> 16 * s = 2 ^ b" if "4 \<le> b"
  proof -
    define k where "k = b - 4"
    then have k: "b = k + 4" using that by simp
    have "s = 2 ^ k" unfolding s_def k by simp
    then show ?thesis unfolding k by (simp add: power_add)
  qed
  have eighth: "8 * (round_up n s - n) \<le> n"
  proof (cases "4 \<le> b")
    case True
    have lin: "8 * (x - n) \<le> n" if "8 * s = p" "x < n + s" "p \<le> n" for x p :: int
      using that by arith
    from big [OF True] have "8 * s = 2 ^ (b - 1)" by blast
    then show ?thesis using tight nb(1) by (rule lin)
  next
    case False
    then have "s = 1" by (simp add: s_def)
    then show ?thesis using ru.carrier_one [of n] assms by simp
  qed
  have rung: "\<exists>r. 8 \<le> r \<and> r \<le> 16 \<and> round_up n s = r * 2 ^ nat (bit_length n - 4)" if "8 \<le> n"
  proof -
    have b4: "4 \<le> b"
    proof (rule ccontr)
      assume "\<not> 4 \<le> b"
      then have "(2::int) ^ b \<le> 2 ^ 3" by (intro power_increasing) auto
      then show False using nb that by simp
    qed
    from big [OF b4] have B: "8 * s = 2 ^ (b - 1)" "16 * s = 2 ^ b" by blast+
    obtain r where r: "round_up n s = r * s"
      using ru.carrier_dvd [of s n] s1 by (auto elim: dvdE simp: mult.commute)
    have "8 * s \<le> n" using B(1) nb(1) by simp
    then have "8 * s \<le> r * s" using ru.carrier_ge [of n s] r by linarith
    moreover have "r * s \<le> 16 * s"
    proof -
      have "n \<le> 16 * s" using nb(2) B(2) by simp
      moreover have "max s 1 dvd 16 * s" using s1 by (simp add: max_def)
      ultimately have "round_up n s \<le> 16 * s" by (rule ru.carrier_least)
      then show ?thesis using r by simp
    qed
    moreover have "s = 2 ^ nat (bit_length n - 4)"
      using b4 assms by (simp add: s_def bit_length_def b_def)
    ultimately show ?thesis using r s1 by (intro exI [of _ r]) auto
  qed
  show ?thesis unfolding L using ru.carrier_ge eighth rung by blast
qed

theorem ladder_extent_bounds_witness:
  "0 < (1100::int) \<and> 1100 \<le> ladder_extent 1100 None \<and> ladder_extent 1100 None = 1152"
  using ladder_extent_bounds [of 1100]
  by (simp add: ladder_extent_def round_up_def bit_length_def nat_bits.simps Let_def)

section \<open>Partition specs and the receipt of a padded axis\<close>

text \<open>A mesh: its axes in order with their sizes (\<open>mesh.shape\<close>, \<open>mesh.axis_names\<close>).\<close>

type_synonym mesh = "(string \<times> int) list"

text \<open>One entry of a \<open>PartitionSpec\<close>: \<open>None\<close>, a mesh axis, or a tuple of mesh axes.\<close>

datatype spec_entry = Rep | Axis string | Axes "string list"

type_synonym spec = "spec_entry list"

record padded_axis =
  pa_name :: string
  pa_logical :: int
  pa_carrier :: int
  pa_divisor :: int

definition pa_pad :: "padded_axis \<Rightarrow> int" where
  "pa_pad t = pa_carrier t - pa_logical t"

text \<open>The argument \<open>divisor_or_mesh\<close>: an int, a mesh, or a producer's receipt.\<close>

datatype geometry = Divisor int | OnMesh mesh | Receipt padded_axis

datatype pad_error =
    EmptyName
  | NegativeExtent int int
  | LogicalExceedsCarrier int int
  | DivisorBelowOne int
  | CarrierIndivisible int int
  | NegativeLogical int
  | NegativeExtra int
  | SpecAndSpecs
  | AxisRequired
  | ReceiptWithSpec
  | ReceiptLogical int int
  | CarrierDiffers int int
  | NotAMesh
  | NoShapeAttribute
  | NoMeshAxis string
  | SpecIndex int
  | NoDimensions
  | SourceTooShort int int
  | DiagonalNotTrailing
  | NoOperand

definition mk_padded_axis :: "string \<Rightarrow> int \<Rightarrow> int \<Rightarrow> int \<Rightarrow> (pad_error, padded_axis) result" where
  "mk_padded_axis nm logical carrier divisor =
     (let nm = py_strip nm in
      if nm = [] then Inl EmptyName
      else if logical < 0 \<or> carrier < 0 then Inl (NegativeExtent logical carrier)
      else if logical > carrier then Inl (LogicalExceedsCarrier logical carrier)
      else if divisor < 1 then Inl (DivisorBelowOne divisor)
      else if carrier mod divisor \<noteq> 0 then Inl (CarrierIndivisible carrier divisor)
      else Inr \<lparr>pa_name = nm, pa_logical = logical, pa_carrier = carrier, pa_divisor = divisor\<rparr>)"

fun mesh_divisor :: "geometry \<Rightarrow> (pad_error, int) result" where
  "mesh_divisor (Divisor d) = Inr d"
| "mesh_divisor (OnMesh m) = Inr (prod_list (map snd m))"
| "mesh_divisor (Receipt t) = Inl NotAMesh"

fun mesh_size :: "geometry \<Rightarrow> string \<Rightarrow> (pad_error, int) result" where
  "mesh_size (OnMesh m) a = (case map_of m a of None \<Rightarrow> Inl (NoMeshAxis a) | Some k \<Rightarrow> Inr k)"
| "mesh_size g a = Inl NoShapeAttribute"

fun entry_names :: "spec_entry \<Rightarrow> string list" where
  "entry_names Rep = []"
| "entry_names (Axis a) = [a]"
| "entry_names (Axes as) = as"

definition spec_divisor :: "geometry \<Rightarrow> spec \<Rightarrow> int \<Rightarrow> (pad_error, int) result" where
  "spec_divisor g sp axis =
     (if axis < int (length sp) then
        (case py_index sp axis of
           None \<Rightarrow> Inl (SpecIndex axis)
         | Some e \<Rightarrow> andthen (mapE (mesh_size g) (entry_names e)) (\<lambda>ks. Inr (prod_list ks)))
      else Inr 1)"

text \<open>The keyword arguments \<open>spec\<close>/\<open>axis\<close>, \<open>specs\<close> of both constructors.\<close>

definition axis_divisor ::
    "geometry \<Rightarrow> spec option \<Rightarrow> int option \<Rightarrow> (spec \<times> int) list option \<Rightarrow> (pad_error, int) result" where
  "axis_divisor g sp axis specs =
     (case (sp, specs) of
        (Some _, Some _) \<Rightarrow> Inl SpecAndSpecs
      | (_, Some ss) \<Rightarrow>
          andthen (mapE (\<lambda>(s, a). spec_divisor g s a) ss) (\<lambda>ds. Inr (foldr lcm ds 1))
      | (None, None) \<Rightarrow> mesh_divisor g
      | (Some s, None) \<Rightarrow> (case axis of None \<Rightarrow> Inl AxisRequired | Some a \<Rightarrow> spec_divisor g s a))"

definition padded_axis ::
    "int \<Rightarrow> geometry \<Rightarrow> string \<Rightarrow> spec option \<Rightarrow> int option \<Rightarrow> (spec \<times> int) list option \<Rightarrow> int \<Rightarrow>
     (pad_error, padded_axis) result" where
  "padded_axis logical g nm sp axis specs extra =
     (if logical < 0 then Inl (NegativeLogical logical)
      else if extra < 0 then Inl (NegativeExtra extra)
      else andthen (axis_divisor g sp axis specs) (\<lambda>divisor.
        let carrier = round_up logical divisor;
            carrier = (if extra \<noteq> 0 then round_up (carrier + extra) divisor else carrier)
        in mk_padded_axis nm logical carrier divisor))"

definition authenticate_padded_axis ::
    "int \<Rightarrow> int \<Rightarrow> geometry \<Rightarrow> string \<Rightarrow> spec option \<Rightarrow> int option \<Rightarrow> (spec \<times> int) list option \<Rightarrow>
     (pad_error, padded_axis) result" where
  "authenticate_padded_axis logical carrier g nm sp axis specs =
     andthen
       (case g of
          Receipt t \<Rightarrow>
            if sp \<noteq> None \<or> specs \<noteq> None \<or> axis \<noteq> None then Inl ReceiptWithSpec
            else if logical \<noteq> pa_logical t then Inl (ReceiptLogical logical (pa_logical t))
            else mk_padded_axis nm (pa_logical t) (pa_carrier t) (pa_divisor t)
        | _ \<Rightarrow> padded_axis logical g nm sp axis specs 0)
       (\<lambda>expected.
          if carrier \<noteq> pa_carrier expected then Inl (CarrierDiffers carrier (pa_carrier expected))
          else Inr expected)"

definition axis_mask :: "padded_axis \<Rightarrow> bool list" where
  "axis_mask t = map (\<lambda>i. i < pa_logical t) [0..pa_carrier t - 1]"

definition padded_mu_axis :: "int \<Rightarrow> geometry \<Rightarrow> (pad_error, padded_axis) result" where
  "padded_mu_axis n_rmu g = padded_axis n_rmu g ''centroid mu'' None None None 0"

definition padded_mu_extent :: "int \<Rightarrow> geometry \<Rightarrow> (pad_error, int) result" where
  "padded_mu_extent n_rmu g = andthen (padded_mu_axis n_rmu g) (\<lambda>t. Inr (pa_carrier t))"

text \<open>What \<open>__post_init__\<close> guarantees of every receipt that exists.\<close>

definition wf_padded_axis :: "padded_axis \<Rightarrow> bool" where
  "wf_padded_axis t \<longleftrightarrow> py_strip (pa_name t) = pa_name t \<and> pa_name t \<noteq> [] \<and> 0 \<le> pa_logical t \<and>
     pa_logical t \<le> pa_carrier t \<and> 1 \<le> pa_divisor t \<and> pa_divisor t dvd pa_carrier t"

lemma dropWhile_strip_fix: "dropWhile P xs = xs \<longleftrightarrow> xs = [] \<or> \<not> P (hd xs)"
  using hd_dropWhile [of P xs] by (cases xs) (auto simp del: hd_dropWhile)

lemma py_strip_idem [simp]: "py_strip (py_strip s) = py_strip s"
proof -
  define a where "a = dropWhile py_isspace s"
  define b where "b = dropWhile py_isspace (rev a)"
  have ps: "py_strip s = rev b" by (simp add: py_strip_def a_def b_def)
  have "dropWhile py_isspace (rev b) = rev b"
  proof (cases "b = []")
    case True
    then show ?thesis by simp
  next
    case False
    have "\<exists>xs. rev a = xs @ b" unfolding b_def by (metis takeWhile_dropWhile_id)
    then obtain xs where "rev a = xs @ b" by blast
    then have "a = rev b @ rev xs" by (metis rev_append rev_rev_ident)
    then have "hd (rev b) = hd a" "a \<noteq> []" using False by simp_all
    then have "\<not> py_isspace (hd (rev b))" using hd_dropWhile [of py_isspace s] by (simp add: a_def)
    then show ?thesis by (simp add: dropWhile_strip_fix)
  qed
  moreover have "dropWhile py_isspace b = b" unfolding b_def by simp
  ultimately show ?thesis unfolding ps by (simp add: py_strip_def)
qed

lemma mk_padded_axis_Inr:
  "mk_padded_axis nm l c d = Inr t \<longleftrightarrow>
   wf_padded_axis t \<and> t = \<lparr>pa_name = py_strip nm, pa_logical = l, pa_carrier = c, pa_divisor = d\<rparr>"
  by (auto simp: mk_padded_axis_def wf_padded_axis_def Let_def dvd_eq_mod_eq_0)

lemma mk_padded_axis_self: "wf_padded_axis t \<Longrightarrow> mk_padded_axis (pa_name t) (pa_logical t) (pa_carrier t) (pa_divisor t) = Inr t"
  by (simp add: mk_padded_axis_Inr wf_padded_axis_def)

lemma padded_axis_Inr:
  assumes "padded_axis n g nm sp ax specs e = Inr t"
  shows "wf_padded_axis t" "pa_logical t = n" "pa_name t = py_strip nm"
    "axis_divisor g sp ax specs = Inr (pa_divisor t)"
    "pa_carrier t = round_up (round_up n (pa_divisor t) + e) (pa_divisor t)" "0 \<le> n" "0 \<le> e"
  using assms ru.carrier_idem
  by (auto simp: padded_axis_def Let_def mk_padded_axis_Inr split: if_splits)

lemma padded_axis_ok:
  assumes "axis_divisor g sp ax specs = Inr d" "1 \<le> d" "0 \<le> n" "0 \<le> e" "py_strip nm \<noteq> []"
  shows "padded_axis n g nm sp ax specs e =
    Inr \<lparr>pa_name = py_strip nm, pa_logical = n, pa_carrier = round_up (round_up n d + e) d, pa_divisor = d\<rparr>"
proof -
  have "n \<le> round_up (round_up n d + e) d"
    using ru.carrier_ge [of n d] ru.carrier_ge [of "round_up n d + e" d] assms(4) by linarith
  moreover have "d dvd round_up m d" for m using ru.carrier_dvd [of d m] assms(2) by (simp add: max_def split: if_splits)
  ultimately show ?thesis
    using assms ru.carrier_idem ru.carrier_ge [of n d]
    by (auto simp: padded_axis_def Let_def mk_padded_axis_Inr wf_padded_axis_def)
qed

lemma divisor_dom: "axis_divisor (Divisor d) None None None = Inr d"
  by (simp add: axis_divisor_def)

lemma mesh_sizes_ok:
  "\<forall>a\<in>set as. a \<in> fst ` set m \<Longrightarrow> mapE (mesh_size (OnMesh m)) as = Inr (map (\<lambda>a. the (map_of m a)) as)"
proof (induction as)
  case (Cons a as)
  then obtain k where "map_of m a = Some k" using map_of_eq_None_iff [of m a] by auto
  with Cons show ?case by simp
qed simp

lemma spec_divisor_mesh:
  assumes "0 \<le> ax" "ax < int (length sp)" "\<forall>a\<in>set (entry_names (sp ! nat ax)). a \<in> fst ` set m"
  shows "spec_divisor (OnMesh m) sp ax =
    Inr (prod_list (map (\<lambda>a. the (map_of m a)) (entry_names (sp ! nat ax))))"
  using assms by (simp add: spec_divisor_def py_index_nonneg mesh_sizes_ok)

lemma prod_list_ge_1: "\<forall>k\<in>set ks. 1 \<le> k \<Longrightarrow> 1 \<le> prod_list ks" for ks :: "int list"
proof (induction ks)
  case (Cons k ks)
  then have "1 * 1 \<le> k * prod_list ks" by (intro mult_mono) auto
  then show ?case by simp
qed simp

lemma in_prod_list_dvd: "k \<in> set ks \<Longrightarrow> k dvd prod_list ks" for ks :: "int list"
  by (induction ks) auto

text \<open>
  \<open>padded_axis\<close> is total on legal requests: for a mesh of positive extents, a spec entry that
  names axes of the mesh, and nonnegative extents, it returns a well-formed receipt whose carrier
  holds the logical extent plus the requested extra pad and splits evenly over every mesh axis
  the spec places on the array axis.
\<close>

theorem padded_axis_mesh_legal:
  assumes "\<forall>(a, k)\<in>set m. 1 \<le> k" and "0 \<le> ax" "ax < int (length sp)"
    and "\<forall>a\<in>set (entry_names (sp ! nat ax)). a \<in> fst ` set m"
    and "0 \<le> n" "0 \<le> extra" "py_strip nm \<noteq> []"
  shows "\<exists>t. padded_axis n (OnMesh m) nm (Some sp) (Some ax) None extra = Inr t \<and> wf_padded_axis t \<and>
    pa_logical t = n \<and> n + extra \<le> pa_carrier t \<and>
    (\<forall>a\<in>set (entry_names (sp ! nat ax)). \<forall>k. map_of m a = Some k \<longrightarrow> k dvd pa_carrier t)"
proof -
  let ?as = "entry_names (sp ! nat ax)"
  let ?ks = "map (\<lambda>a. the (map_of m a)) ?as"
  define d where "d = prod_list ?ks"
  have ad: "axis_divisor (OnMesh m) (Some sp) (Some ax) None = Inr d"
    using spec_divisor_mesh [OF assms(2,3,4)] by (simp add: axis_divisor_def d_def)
  have "1 \<le> the (map_of m a)" if "a \<in> set ?as" for a
  proof -
    from that assms(4) have "map_of m a \<noteq> None" by (simp add: map_of_eq_None_iff)
    then obtain k where "map_of m a = Some k" by blast
    then show ?thesis using assms(1) map_of_SomeD [of m a k] by auto
  qed
  then have d1: "1 \<le> d" unfolding d_def by (intro prod_list_ge_1) auto
  note ok = padded_axis_ok [OF ad d1 assms(5,6,7)]
  let ?t = "\<lparr>pa_name = py_strip nm, pa_logical = n, pa_carrier = round_up (round_up n d + extra) d, pa_divisor = d\<rparr>"
  have wf: "wf_padded_axis ?t" using padded_axis_Inr(1) [OF ok] .
  have "n + extra \<le> pa_carrier ?t"
    using ru.carrier_ge [of n d] ru.carrier_ge [of "round_up n d + extra" d] by simp
  moreover have "k dvd pa_carrier ?t" if "a \<in> set ?as" "map_of m a = Some k" for a k
  proof -
    have "k dvd d" unfolding d_def using that by (intro in_prod_list_dvd) force
    then show ?thesis using wf by (auto simp: wf_padded_axis_def intro: dvd_trans)
  qed
  ultimately show ?thesis using ok wf by (intro exI [of _ ?t]) auto
qed

theorem padded_axis_mesh_legal_witness:
  "\<exists>t. padded_axis 600 (OnMesh [(''x'', 8), (''y'', 8)]) ''band'' (Some [Rep, Axes [''x'', ''y'']]) (Some 1) None 0 = Inr t \<and>
    600 \<le> pa_carrier t \<and> 8 dvd pa_carrier t"
proof -
  have "\<exists>t. padded_axis 600 (OnMesh [(''x'', 8), (''y'', 8)]) ''band'' (Some [Rep, Axes [''x'', ''y'']]) (Some 1) None 0 = Inr t \<and>
    wf_padded_axis t \<and> pa_logical t = 600 \<and> 600 + 0 \<le> pa_carrier t \<and>
    (\<forall>a\<in>set (entry_names ([Rep, Axes [''x'', ''y'']] ! nat 1)). \<forall>k. map_of [(''x'', 8), (''y'', 8)] a = Some k \<longrightarrow> k dvd pa_carrier t)"
    by (rule padded_axis_mesh_legal) (simp_all add: py_strip_def py_isspace_def)
  then show ?thesis by auto
qed

text \<open>
  the reader accepts exactly what the producer publishes. Authenticating a carrier against the
  same geometry succeeds on the canonical carrier with the producer's own receipt and refuses
  every other extent; against a receipt, a deliberately over-padded carrier is preserved.
\<close>

theorem authenticate_accepts_producer:
  assumes "padded_axis n g nm sp ax specs e = Inr t"
  shows "authenticate_padded_axis n c (Receipt t) nm None None None =
      (if c = pa_carrier t then Inr t else Inl (CarrierDiffers c (pa_carrier t))) \<and>
    (e = 0 \<and> (\<forall>r. g \<noteq> Receipt r) \<longrightarrow> authenticate_padded_axis n c g nm sp ax specs =
      (if c = pa_carrier t then Inr t else Inl (CarrierDiffers c (pa_carrier t))))"
proof -
  note T = padded_axis_Inr [OF assms]
  have "mk_padded_axis nm (pa_logical t) (pa_carrier t) (pa_divisor t) = Inr t"
    using T(1,3) by (simp add: mk_padded_axis_Inr)
  then have "authenticate_padded_axis n c (Receipt t) nm None None None =
      (if c = pa_carrier t then Inr t else Inl (CarrierDiffers c (pa_carrier t)))"
    using T(2) by (simp add: authenticate_padded_axis_def)
  then show ?thesis using assms by (cases g) (auto simp: authenticate_padded_axis_def)
qed

theorem authenticate_accepts_producer_witness:
  "\<exists>t. padded_axis 785 (Divisor 16) ''mu'' None None None 0 = Inr t \<and> pa_carrier t = 800 \<and>
    authenticate_padded_axis 785 800 (Divisor 16) ''mu'' None None None = Inr t \<and>
    authenticate_padded_axis 785 816 (Divisor 16) ''mu'' None None None = Inl (CarrierDiffers 816 800)"
proof -
  let ?t = "\<lparr>pa_name = ''mu'', pa_logical = 785, pa_carrier = 800, pa_divisor = 16\<rparr>"
  have P: "padded_axis 785 (Divisor 16) ''mu'' None None None 0 = Inr ?t"
    by (simp add: padded_axis_def axis_divisor_def mk_padded_axis_def round_up_def py_strip_def
        py_isspace_def Let_def)
  show ?thesis
    using P authenticate_accepts_producer [OF P, of 800] authenticate_accepts_producer [OF P, of 816]
    by (intro exI [of _ ?t]) simp
qed

section \<open>Equal aligned tiles\<close>

definition bounded_partition_tile :: "int \<Rightarrow> int \<Rightarrow> int \<Rightarrow> int" where
  "bounded_partition_tile extent max_tile alignment =
     (let n = extent; cap = max_tile; align = max alignment 1 in
      if n \<le> 0 \<or> cap < align \<or> n mod align \<noteq> 0 then 0
      else
        let units = n div align; cap_units = min units (cap div align) in
        if cap_units \<le> 0 then 0
        else
          let min_tiles = (units + cap_units - 1) div cap_units in
          (case find (\<lambda>ntiles. units mod ntiles = 0) [min_tiles..units] of
             None \<Rightarrow> 0
           | Some ntiles \<Rightarrow> (units div ntiles) * align))"

lemma find_upto_least:
  assumes "find P [a..b] = Some x"
  shows "a \<le> x" "x \<le> b" "P x" "\<And>y. a \<le> y \<Longrightarrow> y < x \<Longrightarrow> \<not> P y"
  using assms
proof (induction a b rule: upto.induct)
  case (1 i j)
  {
    case 1
    then show ?case using "1.IH"(1) by (cases "i \<le> j") (auto simp: upto.simps [of i j] split: if_splits)
  next
    case 2
    then show ?case using "1.IH"(2) by (cases "i \<le> j") (auto simp: upto.simps [of i j] split: if_splits)
  next
    case 3
    then show ?case using "1.IH"(3) by (cases "i \<le> j") (auto simp: upto.simps [of i j] split: if_splits)
  next
    case (4 y)
    then show ?case using "1.IH"(4) [of y]
      by (cases "i \<le> j"; cases "y = i") (auto simp: upto.simps [of i j] split: if_splits)
  }
qed

lemma find_upto_None: "find P [a..b] = None \<Longrightarrow> a \<le> y \<Longrightarrow> y \<le> b \<Longrightarrow> \<not> P y"
  by (auto simp: find_None_iff)

lemma partition_tile_core:
  fixes units c :: int
  assumes "0 < units" "0 < c" "c \<le> units"
  defines "mt \<equiv> (units + c - 1) div c"
  shows "\<exists>nt. find (\<lambda>k. units mod k = 0) [mt..units] = Some nt \<and> 0 < units div nt \<and> units div nt dvd units \<and>
    units div nt \<le> c \<and> (\<forall>k. 0 < k \<and> k dvd units \<and> k \<le> c \<longrightarrow> k \<le> units div nt)"
proof -
  have mt: "mt = ceil_div units c" using assms(2) by (simp add: mt_def ceil_div_alt)
  have mt_pos: "0 < mt" unfolding mt using assms(1,2) by (rule ceil_div_pos [rotated])
  have mt_le: "mt \<le> k \<longleftrightarrow> units \<le> k * c" for k unfolding mt by (rule ceil_div_le [OF assms(2)])
  have "units \<le> units * c" using assms by simp
  then have "mt \<le> units" using mt_le by simp
  then have "find (\<lambda>k. units mod k = 0) [mt..units] \<noteq> None"
    using find_upto_None [of "\<lambda>k. units mod k = 0" mt units units] by auto
  then obtain nt where nt: "find (\<lambda>k. units mod k = 0) [mt..units] = Some nt" by blast
  note F = find_upto_least [OF nt]
  have nt0: "0 < nt" using F(1) mt_pos by simp
  have exact: "units = nt * (units div nt)" using F(3) by (metis mult_div_mod_eq add.right_neutral)
  have q0: "0 < units div nt" using F(2) nt0 by (simp add: pos_imp_zdiv_pos_iff)
  have "nt * (units div nt) \<le> nt * c" using F(1) mt_le exact by simp
  then have qc: "units div nt \<le> c" using nt0 by simp
  have best: "k \<le> units div nt" if k: "0 < k" "k dvd units" "k \<le> c" for k
  proof -
    obtain j where j: "units = k * j" using k(2) by (auto elim: dvdE)
    have j0: "0 < j" using j assms(1) k(1) by (simp add: zero_less_mult_iff)
    have "units \<le> j * c" using j k(3) j0 by (simp add: mult.commute mult_left_mono)
    then have "mt \<le> j" using mt_le by simp
    moreover have "units mod j = 0" using j by simp
    ultimately have "nt \<le> j" using F(4) [of j] by force
    have "k * nt \<le> k * j" using \<open>nt \<le> j\<close> k(1) by simp
    then have "k * nt \<le> units" using j by simp
    then show ?thesis using nt0 by (simp add: zdiv_mono1 [of "k * nt" units nt, simplified])
  qed
  have dv: "units div nt dvd units" using exact by (metis dvd_triv_right)
  show ?thesis using nt q0 qc best dv by (intro exI [of _ nt]) auto
qed

text \<open>
  \<open>bounded_partition_tile\<close> returns the best tile: when it returns a positive tile, the tile
  divides the extent, is a multiple of the alignment and respects the cap; no larger tile has
  those properties, and it returns 0 only when none has. (The loop of the source searches tile
  counts upwards from a ceiling; that its first hit is the largest tile is what is proved.)
\<close>

theorem bounded_partition_tile_optimal:
  fixes n cap align :: int
  assumes "0 < n"
  defines "t \<equiv> bounded_partition_tile n cap align"
  shows "0 \<le> t \<and> (0 < t \<longrightarrow> t dvd n \<and> max align 1 dvd t \<and> t \<le> cap) \<and>
    (\<forall>s. 0 < s \<and> s dvd n \<and> max align 1 dvd s \<and> s \<le> cap \<longrightarrow> s \<le> t)"
proof -
  define a where "a = max align 1"
  have a0: "0 < a" by (simp add: a_def)
  show ?thesis
  proof (cases "cap < a \<or> n mod a \<noteq> 0")
    case True
    then have "t = 0" by (auto simp: t_def bounded_partition_tile_def a_def Let_def)
    moreover have "False" if "0 < s" "s dvd n" "a dvd s" "s \<le> cap" for s
      using that True zdvd_imp_le [OF that(3,1)] dvd_trans [OF that(3,2)] by (auto simp: dvd_eq_mod_eq_0)
    ultimately show ?thesis unfolding a_def [symmetric] by auto
  next
    case False
    define units where "units = n div a"
    define c where "c = min units (cap div a)"
    have n: "n = units * a" using False by (auto simp: units_def)
    have u0: "0 < units" using n assms(1) a0 by (simp add: zero_less_mult_iff)
    have c0: "0 < c" "c \<le> units" using u0 False a0 by (simp_all add: c_def pos_imp_zdiv_pos_iff)
    from partition_tile_core [OF u0 c0] obtain nt where
      nt: "find (\<lambda>k. units mod k = 0) [(units + c - 1) div c..units] = Some nt"
        "0 < units div nt" "units div nt dvd units" "units div nt \<le> c"
      and best: "\<And>k. 0 < k \<Longrightarrow> k dvd units \<Longrightarrow> k \<le> c \<Longrightarrow> k \<le> units div nt"
      by blast
    have t: "t = (units div nt) * a"
      using False assms(1) nt(1) c0
      by (simp add: t_def bounded_partition_tile_def a_def [symmetric] units_def [symmetric] c_def [symmetric] Let_def)
    have "(units div nt) * a \<le> cap"
    proof -
      have "(units div nt) * a \<le> (cap div a) * a" using nt(4) a0 by (simp add: c_def)
      also have "\<dots> \<le> cap" using div_mult_mod_eq [of cap a] pos_mod_sign [OF a0, of cap] by linarith
      finally show ?thesis .
    qed
    moreover have "s \<le> t" if s: "0 < s" "s dvd n" "a dvd s" "s \<le> cap" for s
    proof -
      obtain k where k: "s = k * a" using s(3) by (metis dvdE mult.commute)
      have k0: "0 < k" using k s(1) a0 by (simp add: zero_less_mult_iff)
      have "k dvd units" using s(2) n k a0 by simp
      moreover have "k \<le> cap div a" using s(4) k a0 by (simp add: pos_le_divide_eq zdiv_mono1 [of "k * a" cap a, simplified])
      ultimately have "k \<le> units div nt" using best [OF k0] u0 zdvd_imp_le [of k units] by (simp add: c_def)
      then show ?thesis using k t a0 by simp
    qed
    ultimately show ?thesis
      using nt(2,3) n a0 unfolding a_def [symmetric] t by (auto intro: mult_dvd_mono)
  qed
qed

theorem bounded_partition_tile_optimal_witness:
  "(0::int) < 96 \<and> bounded_partition_tile 96 20 4 = 16 \<and> 12 \<le> bounded_partition_tile 96 20 4"
  using bounded_partition_tile_optimal [of 96 20 4] by (simp add: bounded_partition_tile_def Let_def upto.simps)

end
