(* ===== verification/Tiles.thy ===== *)
theory Tiles
  imports Padding Complex_Main
begin

text \<open>
  How the streamed loops cut their axes: the fixed 1 GiB tile of \<open>src/runtime/tiles.py\<close>, the
  column budget and the request check of \<open>src/file_io/mpa_store.py\<close> (\<open>one_tile_bytes\<close>,
  \<open>choose_column_budget\<close>, \<open>describe_column_cost\<close>, \<open>normalise_columns\<close>, \<open>_column_span\<close>,
  \<open>_validate_column_request\<close>), and the fit stage's walk of \<open>src/gw/mpa/tiling.py\<close>.

  The bytes per unit of \<open>tile_units\<close> are a finite float, taken as a real; \<open>//\<close> of two floats is
  the floor of the exact quotient there. Refusals keep the numbers their messages quote; the
  sentence of \<open>describe_column_cost\<close> is the record of the numbers it prints.
\<close>

section \<open>The fixed tile\<close>

datatype tile_error = TilePlanExtent int

definition TILE_BYTES :: int where
  "TILE_BYTES = 1073741824"

definition tile_units :: "real \<Rightarrow> int \<Rightarrow> int \<Rightarrow> int" where
  "tile_units per_unit_bytes n_units floor_units =
     (let fit = \<lfloor>real_of_int TILE_BYTES / max per_unit_bytes 1\<rfloor>
      in max (min floor_units n_units) (min n_units fit))"

definition tile_plan :: "real \<Rightarrow> int \<Rightarrow> (tile_error, int \<times> int list) result" where
  "tile_plan per_unit_bytes n_units =
     (if n_units < 1 then Inl (TilePlanExtent n_units)
      else
        let fit = tile_units per_unit_bytes n_units 1;
            n_tiles = ceil_div n_units fit;
            width = ceil_div n_units n_tiles
        in Inr (width, map (\<lambda>j. min (j * width) (n_units - width)) [0..n_tiles - 1]))"

text \<open>\<open>services/distrib_la\<close>, \<open>_column_panels._panel_width\<close>: the same even split by a byte cap.\<close>

definition panel_width :: "int \<Rightarrow> int \<Rightarrow> int \<Rightarrow> int \<times> int" where
  "panel_width n_loc column_bytes panel_bytes =
     (let cap = max 1 (min n_loc (panel_bytes div max 1 column_bytes));
          n_panels = ceil_div n_loc cap
      in (ceil_div n_loc n_panels, n_panels))"

text \<open>
  Both plans split \<open>n\<close> units into \<open>ceil(n / fit)\<close> pieces of one width. What makes the clamped
  starts of \<open>tile_plan\<close> (and of the panel loop) correct is arithmetic on this split alone.
\<close>

lemma even_split:
  assumes n: "1 \<le> n" and fit: "1 \<le> fit" "fit \<le> n"
    and k: "k = ceil_div n fit" and w: "w = ceil_div n k"
  shows "1 \<le> k" and "1 \<le> w" and "w \<le> fit" and "n \<le> k * w" and "(k - 1) * w < n" and "w \<le> n"
    and "n \<le> m * fit \<Longrightarrow> k \<le> m"
proof -
  show k1: "1 \<le> k" using ceil_div_pos [of fit n] n fit k by simp
  show w1: "1 \<le> w" using ceil_div_pos [of k n] n k1 w by simp
  have "n \<le> k * fit" using ceil_div_upper [of fit n] fit k by simp
  then show wf: "w \<le> fit" using ceil_div_le [of k n fit] k1 w by (simp add: mult.commute)
  show "n \<le> k * w" using ceil_div_upper [of k n] k1 w by (simp add: mult.commute)
  have "(k - 1) * fit < n" using ceil_div_lower [of fit n] fit k by (simp add: algebra_simps)
  moreover have "(k - 1) * w \<le> (k - 1) * fit" using wf k1 by (simp add: mult_left_mono)
  ultimately show "(k - 1) * w < n" by linarith
  show "w \<le> n" using wf fit by linarith
  show "k \<le> m" if "n \<le> m * fit" using ceil_div_le [of fit n m] fit k that by simp
qed

lemma clamped_starts:
  assumes "1 \<le> k" "1 \<le> w" "n \<le> k * w" "(k - 1) * w < n" "w \<le> (n::int)" "0 \<le> j" "j < k"
  shows "j < k - 1 \<Longrightarrow> min (j * w) (n - w) = j * w \<and> j * w + w < n"
    and "j = k - 1 \<Longrightarrow> min (j * w) (n - w) = n - w"
proof -
  assume "j < k - 1"
  then have "(j + 1) * w \<le> (k - 1) * w" using assms by (simp add: mult_right_mono)
  then show "min (j * w) (n - w) = j * w \<and> j * w + w < n"
    using assms by (simp add: algebra_simps min_def)
next
  assume "j = k - 1"
  then have "k = j + 1" by simp
  then have "k * w = j * w + w" by (simp only: distrib_right mult_1)
  then have "n - w \<le> j * w" using assms(3) by linarith
  then show "min (j * w) (n - w) = n - w" by simp
qed

text \<open>Which tile a unit belongs to: the quotient by the width.\<close>

lemma clamped_cover:
  assumes "1 \<le> k" "1 \<le> w" "n \<le> k * w" "(k - 1) * w < n" "w \<le> (n::int)" "0 \<le> x" "x < n"
  shows "0 \<le> x div w \<and> x div w < k \<and> min (x div w * w) (n - w) \<le> x \<and> x < min (x div w * w) (n - w) + w"
proof -
  have q0: "0 \<le> x div w" using assms by (simp add: pos_imp_zdiv_nonneg_iff)
  have lo: "x div w * w \<le> x" and hi: "x < x div w * w + w"
    using assms(2) div_mult_mod_eq [of x w] pos_mod_bound [of w x] pos_mod_sign [of w x] by linarith+
  have "x div w * w < k * w" using lo assms by linarith
  then have qk: "x div w < k" using assms(2) by (simp add: mult_less_cancel_right)
  show ?thesis
  proof (cases "x div w < k - 1")
    case True
    then show ?thesis using clamped_starts(1) [OF assms(1-5) q0 qk] q0 qk lo hi by simp
  next
    case False
    then have "x div w = k - 1" using qk by simp
    then show ?thesis using clamped_starts(2) [OF assms(1-5) q0 qk] q0 qk lo hi assms by simp
  qed
qed

lemma tile_units_range:
  assumes "1 \<le> n"
  shows "1 \<le> tile_units p n 1" and "tile_units p n 1 \<le> n"
    and "p \<le> real_of_int TILE_BYTES \<Longrightarrow> real_of_int (tile_units p n 1) * p \<le> real_of_int TILE_BYTES"
proof -
  let ?f = "\<lfloor>real_of_int TILE_BYTES / max p 1\<rfloor>"
  show "1 \<le> tile_units p n 1" "tile_units p n 1 \<le> n"
    using assms by (auto simp: tile_units_def Let_def)
  assume p: "p \<le> real_of_int TILE_BYTES"
  have f1: "1 \<le> ?f" using p by (simp add: le_floor_iff TILE_BYTES_def)
  have "real_of_int ?f \<le> real_of_int TILE_BYTES / max p 1" by (rule of_int_floor_le)
  then have "real_of_int ?f * max p 1 \<le> real_of_int TILE_BYTES"
    using pos_le_divide_eq [of "max p 1" "real_of_int ?f" "real_of_int TILE_BYTES"] by linarith
  moreover have "real_of_int (tile_units p n 1) * p \<le> real_of_int ?f * max p 1"
  proof -
    have "tile_units p n 1 \<le> ?f" using f1 assms by (auto simp: tile_units_def Let_def)
    then have "real_of_int (tile_units p n 1) * max p 1 \<le> real_of_int ?f * max p 1"
      by (simp add: mult_right_mono)
    moreover have "real_of_int (tile_units p n 1) * p \<le> real_of_int (tile_units p n 1) * max p 1"
      using \<open>1 \<le> tile_units p n 1\<close> by (simp add: mult_left_mono)
    ultimately show ?thesis by linarith
  qed
  ultimately show "real_of_int (tile_units p n 1) * p \<le> real_of_int TILE_BYTES" by linarith
qed

text \<open>
  the tiles of \<open>tile_plan\<close> all have the one width, fit the 1 GiB tile whenever a single unit
  does, start at strictly increasing offsets inside the axis, together cover every unit, and are
  the fewest tiles of at most \<open>tile_units\<close> units that can.
\<close>

theorem tile_plan_covers:
  assumes "1 \<le> n"
  shows "\<exists>w ss. tile_plan p n = Inr (w, ss) \<and> 1 \<le> w \<and> w \<le> tile_units p n 1 \<and>
     (p \<le> real_of_int TILE_BYTES \<longrightarrow> real_of_int w * p \<le> real_of_int TILE_BYTES) \<and>
     sorted_wrt (<) ss \<and> (\<forall>s\<in>set ss. 0 \<le> s \<and> s + w \<le> n) \<and>
     (\<forall>x. 0 \<le> x \<and> x < n \<longrightarrow> (\<exists>s\<in>set ss. s \<le> x \<and> x < s + w)) \<and>
     (\<forall>m. n \<le> m * tile_units p n 1 \<longrightarrow> int (length ss) \<le> m)"
proof -
  let ?f = "tile_units p n 1"
  define k where "k = ceil_div n ?f"
  define w where "w = ceil_div n k"
  let ?ss = "map (\<lambda>j. min (j * w) (n - w)) [0..k - 1]"
  note f = tile_units_range [OF assms, of p]
  note es = even_split [OF assms f(1,2) k_def w_def]
  note cs = clamped_starts [OF es(1,2,4,5,6)]
  have plan: "tile_plan p n = Inr (w, ?ss)"
    using assms by (simp add: tile_plan_def Let_def k_def w_def)
  have bytes: "real_of_int w * p \<le> real_of_int TILE_BYTES" if "p \<le> real_of_int TILE_BYTES"
  proof (cases "0 \<le> p")
    case True
    then have "real_of_int w * p \<le> real_of_int ?f * p" using es(3) by (simp add: mult_right_mono)
    then show ?thesis using f(3) [OF that] by linarith
  next
    case False
    then have "real_of_int w * p \<le> 0" using es(2) by (simp add: mult_nonneg_nonpos)
    then show ?thesis by (simp add: TILE_BYTES_def)
  qed
  have mono: "min (i * w) (n - w) < min (j * w) (n - w)" if "0 \<le> i" "i < j" "j < k" for i j
  proof -
    have i: "min (i * w) (n - w) = i * w" "i * w + w < n" using cs(1) [of i] that by auto
    have "(i + 1) * w \<le> j * w" using that es(2) by (simp add: mult_right_mono)
    then have "i * w + w \<le> j * w" by (simp add: distrib_right)
    then have "i * w < j * w" using es(2) by linarith
    then show ?thesis unfolding i(1) using i(2) by linarith
  qed
  have inc: "sorted_wrt (<) ?ss"
    by (subst sorted_wrt_map) (rule sorted_wrt_mono_rel [OF _ sorted_wrt_upto], rule mono, auto)
  have inside: "\<forall>s\<in>set ?ss. 0 \<le> s \<and> s + w \<le> n" using es(2,6) by auto
  have cover: "\<exists>s\<in>set ?ss. s \<le> x \<and> x < s + w" if "0 \<le> x" "x < n" for x
    using clamped_cover [OF es(1,2,4,5,6) that] by auto
  have few: "int (length ?ss) \<le> m" if "n \<le> m * ?f" for m using es(1) es(7) [OF that] by simp
  show ?thesis using plan es(2,3) bytes inc inside cover few by blast
qed

theorem tile_plan_covers_witness:
  "tile_plan 300000000 (10::int) = Inr (3, [0, 3, 6, 7]) \<and> (\<exists>w ss. tile_plan 300000000 (10::int) = Inr (w, ss) \<and> 1 \<le> w)"
  using tile_plan_covers [of 10 300000000]
  by (auto simp: tile_plan_def tile_units_def TILE_BYTES_def ceil_div_def Let_def upto.simps)

section \<open>The column budget and the column request\<close>

datatype column_error =
    ExtentsNotPositive int int
  | BudgetNotPositive int
  | BooleanMask
  | ColumnsNotFlat nat
  | ColumnsEmpty
  | RepeatedColumns nat nat "int list"
  | ColumnsOutside int int int
  | OverBudget int int
  | FrequenciesMissing nat "nat list"
  | QOutside int int
  | BlocksNoRows int
  | BlocksZeroWidth int

definition COMPLEX128_BYTES :: int where
  "COMPLEX128_BYTES = 16"

definition one_tile_bytes :: "int \<Rightarrow> int \<Rightarrow> int" where
  "one_tile_bytes n_mu itemsize = n_mu * n_mu * itemsize"

definition choose_column_budget ::
    "int \<Rightarrow> int \<Rightarrow> int option \<Rightarrow> int \<Rightarrow> (column_error, int) result" where
  "choose_column_budget n_mu n_omega tile_bytes itemsize =
     (if n_mu < 1 \<or> n_omega < 1 then Inl (ExtentsNotPositive n_mu n_omega)
      else
        let budget = (case tile_bytes of None \<Rightarrow> one_tile_bytes n_mu itemsize | Some b \<Rightarrow> b) in
        if budget < 1 then Inl (BudgetNotPositive budget)
        else Inr (max 1 (min n_mu (budget div (n_omega * n_mu * itemsize)))))"

record column_cost =
  cc_cols :: int
  cc_cost :: int
  cc_budget :: int
  cc_allowed :: int

definition describe_column_cost ::
    "int \<Rightarrow> int \<Rightarrow> int \<Rightarrow> int option \<Rightarrow> int \<Rightarrow> (column_error, column_cost) result" where
  "describe_column_cost n_mu n_omega n_cols tile_bytes itemsize =
     andthen (choose_column_budget n_mu n_omega tile_bytes itemsize) (\<lambda>allowed. Inr
       \<lparr>cc_cols = n_cols, cc_cost = n_omega * n_mu * n_cols * itemsize,
        cc_budget = (case tile_bytes of None \<Rightarrow> one_tile_bytes n_mu itemsize | Some b \<Rightarrow> b),
        cc_allowed = allowed\<rparr>)"

text \<open>The argument \<open>mu_cols\<close> after \<open>np.asarray\<close>: flat indices, a mask, or an array of a higher rank.\<close>

datatype columns_arg = Columns "int list" | ColumnMask "bool list" | Nested nat

fun normalise_columns :: "columns_arg \<Rightarrow> int \<Rightarrow> (column_error, int list) result" where
  "normalise_columns (ColumnMask _) n_mu = Inl BooleanMask"
| "normalise_columns (Nested ndim) n_mu = Inl (ColumnsNotFlat ndim)"
| "normalise_columns (Columns cols) n_mu =
     (if cols = [] then Inl ColumnsEmpty
      else
        let uniq = sort (remdups cols) in
        if length uniq \<noteq> length cols then
          Inl (RepeatedColumns (length cols) (length uniq)
                (take 4 (filter (\<lambda>c. 1 < count_list cols c) uniq)))
        else if hd uniq < 0 \<or> n_mu \<le> last uniq then Inl (ColumnsOutside (hd uniq) (last uniq) n_mu)
        else Inr uniq)"

definition column_span :: "int list \<Rightarrow> int \<times> int \<times> int list option" where
  "column_span cols =
     (let lo = hd cols; hi = last cols + 1
      in (lo, hi, if hi - lo = int (length cols) then None else Some cols))"

record w_header =
  wh_n_mu :: int
  wh_n_omega :: int
  wh_n_ready :: int
  wh_data_ready :: "bool list"
  wh_n_q :: int

definition validate_column_request ::
    "w_header \<Rightarrow> int \<Rightarrow> columns_arg \<Rightarrow> int option \<Rightarrow> bool \<Rightarrow> (column_error, int \<times> int list \<times> int) result" where
  "validate_column_request h q mu_cols tile_bytes require_ready =
     andthen (normalise_columns mu_cols (wh_n_mu h)) (\<lambda>cols.
     andthen (choose_column_budget (wh_n_mu h) (wh_n_omega h) tile_bytes COMPLEX128_BYTES) (\<lambda>budget.
       if int (length cols) > budget then Inl (OverBudget (int (length cols)) budget)
       else if require_ready \<and> wh_n_ready h \<noteq> wh_n_omega h then
         (let missing = filter (\<lambda>i. \<not> wh_data_ready h ! i) [0..<length (wh_data_ready h)]
          in Inl (FrequenciesMissing (length missing) (take 8 missing)))
       else if \<not> (0 \<le> q \<and> q < wh_n_q h) then Inl (QOutside q (wh_n_q h))
       else Inr (q, cols, budget)))"

lemma choose_column_budget_Inr:
  "choose_column_budget n_mu n_omega tb isz = Inr b \<Longrightarrow> 1 \<le> n_mu \<and> 1 \<le> n_omega \<and> 1 \<le> b \<and> b \<le> n_mu"
  by (auto simp: choose_column_budget_def Let_def split: if_splits)

lemma le_div_iff_mult: "0 < p \<Longrightarrow> c * p \<le> b \<longleftrightarrow> c \<le> b div p" for p :: int
proof
  assume p: "0 < p" and "c * p \<le> b"
  then have "(c * p) div p \<le> b div p" using zdiv_mono1 [of "c * p" b p] by blast
  then show "c \<le> b div p" using p by simp
next
  assume p: "0 < p" and "c \<le> b div p"
  then have "c * p \<le> b div p * p" by (simp add: mult_right_mono)
  then show "c * p \<le> b" using p div_mult_mod_eq [of b p] pos_mod_sign [of p b] by linarith
qed

text \<open>
  the column budget is at least one column and at most the row extent; when one column across
  all frequencies fits the tile, so does the whole block, and no block of the axis with more
  columns would.
\<close>

theorem choose_column_budget_optimal:
  assumes "1 \<le> itemsize" and "choose_column_budget n_mu n_omega tile_bytes itemsize = Inr b"
    and "budget = (case tile_bytes of None \<Rightarrow> one_tile_bytes n_mu itemsize | Some t \<Rightarrow> t)"
  shows "1 \<le> b \<and> b \<le> n_mu \<and>
    (n_omega * n_mu * itemsize \<le> budget \<longrightarrow> n_omega * n_mu * b * itemsize \<le> budget) \<and>
    (\<forall>c. c \<le> n_mu \<and> n_omega * n_mu * c * itemsize \<le> budget \<longrightarrow> c \<le> b)"
proof -
  note pos = choose_column_budget_Inr [OF assms(2)]
  define p where "p = n_omega * n_mu * itemsize"
  have p: "0 < p" using pos assms(1) by (simp add: p_def)
  have b: "b = max 1 (min n_mu (budget div p))"
    using assms(2,3) by (auto simp: choose_column_budget_def Let_def p_def split: if_splits)
  have fits: "c * p \<le> budget \<longleftrightarrow> c \<le> budget div p" for c
    by (rule le_div_iff_mult [OF p])
  have sw: "n_omega * n_mu * c * itemsize = c * p" for c by (simp add: p_def)
  have one: "b * p \<le> budget" if "p \<le> budget"
    using fits [of 1] fits [of b] that b by auto
  have most: "c \<le> b" if "c \<le> n_mu" "c * p \<le> budget" for c using fits [of c] that b by auto
  show ?thesis unfolding sw using pos one most by (simp add: p_def)
qed

theorem choose_column_budget_optimal_witness:
  "choose_column_budget 480 16 None 16 = Inr 30 \<and> (16::int) * 480 * 30 * 16 \<le> one_tile_bytes 480 16"
  using choose_column_budget_optimal [of 16 480 16 None 30 "one_tile_bytes 480 16"]
  by (simp add: choose_column_budget_def one_tile_bytes_def)

section \<open>The walk of the fit stage\<close>

definition column_blocks :: "int \<Rightarrow> int \<Rightarrow> (column_error, (int \<times> int) list) result" where
  "column_blocks n_mu n_cols =
     (if n_mu < 1 then Inl (BlocksNoRows n_mu)
      else if n_cols < 1 then Inl (BlocksZeroWidth n_cols)
      else Inr (map (\<lambda>lo. (lo, min (lo + n_cols) n_mu)) (py_range 0 n_mu n_cols)))"

definition row_shard_spec :: "string \<Rightarrow> spec" where
  "row_shard_spec mesh_axis = [Rep, Axis mesh_axis, Rep]"

record column_walk =
  cw_n_mu :: int
  cw_n_omega :: int
  cw_n_cols :: int
  cw_n_blocks :: nat
  cw_blocks :: "(int \<times> int) list"
  cw_tile_bytes :: int
  cw_cost :: column_cost
  cw_row_shard_spec :: spec

definition plan_column_walk :: "int \<Rightarrow> int \<Rightarrow> int option \<Rightarrow> (column_error, column_walk) result" where
  "plan_column_walk n_mu n_omega tile_bytes =
     andthen (choose_column_budget n_mu n_omega tile_bytes COMPLEX128_BYTES) (\<lambda>n_cols.
     andthen (column_blocks n_mu n_cols) (\<lambda>blocks.
     andthen (describe_column_cost n_mu n_omega n_cols tile_bytes COMPLEX128_BYTES) (\<lambda>cost. Inr
       \<lparr>cw_n_mu = n_mu, cw_n_omega = n_omega, cw_n_cols = n_cols, cw_n_blocks = length blocks,
        cw_blocks = blocks,
        cw_tile_bytes = (case tile_bytes of None \<Rightarrow> one_tile_bytes n_mu COMPLEX128_BYTES | Some b \<Rightarrow> b),
        cw_cost = cost, cw_row_shard_spec = row_shard_spec ''x''\<rparr>)))"

definition fit_schedule ::
    "int \<Rightarrow> int \<Rightarrow> int \<Rightarrow> int option \<Rightarrow> (column_error, (int \<times> int \<times> int) list) result" where
  "fit_schedule n_q n_mu n_omega tile_bytes =
     andthen (choose_column_budget n_mu n_omega tile_bytes COMPLEX128_BYTES) (\<lambda>n_cols.
     andthen (column_blocks n_mu n_cols) (\<lambda>blocks.
       Inr (concat (map (\<lambda>q. map (\<lambda>(lo, hi). (q, lo, hi)) blocks) (py_range 0 n_q 1)))))"

lemma range_blocks_walk:
  "1 \<le> c \<Longrightarrow> a \<le> n \<Longrightarrow> walk a n (map (\<lambda>lo. (lo, min (lo + c) n)) (py_range a n c))"
proof (induction a n c rule: py_range.induct)
  case (1 a n c)
  show ?case
  proof (cases "a = n")
    case True
    then show ?thesis by (simp add: py_range.simps)
  next
    case False
    then have lt: "a < n" using 1(3) by simp
    show ?thesis
    proof (cases "a + c \<le> n")
      case True
      then show ?thesis using 1 lt by (subst py_range.simps) simp
    next
      case short: False
      then have "py_range (a + c) n c = []" by (subst py_range.simps) simp
      then show ?thesis using 1(2) lt short by (subst py_range.simps) simp
    qed
  qed
qed

interpretation cb: block_walk
  "\<lambda>n. projr (column_blocks n c)" "\<lambda>_. c" "\<lambda>n. 1 \<le> n \<and> 1 \<le> c" for c :: int
  by unfold_locales (auto simp: column_blocks_def range_blocks_walk)

lemma column_blocks_Inr:
  "column_blocks n c = Inr bs \<longleftrightarrow> 1 \<le> n \<and> 1 \<le> c \<and> bs = projr (column_blocks n c)"
  by (auto simp: column_blocks_def)

lemma set_py_range_1: "set (py_range a b 1) = {a..<b}"
proof (induction a b "1::int" rule: py_range.induct)
  case (1 a b)
  then show ?case by (subst py_range.simps) (auto simp: not_le)
qed

lemma fit_schedule_step:
  assumes "fit_schedule n_q n_mu n_omega tb = Inr sched"
  obtains w where "choose_column_budget n_mu n_omega tb COMPLEX128_BYTES = Inr w"
    and "1 \<le> n_mu" "1 \<le> w" "w \<le> n_mu"
    and "\<And>q lo hi. (q, lo, hi) \<in> set sched \<longleftrightarrow>
           0 \<le> q \<and> q < n_q \<and> (lo, hi) \<in> set (projr (column_blocks n_mu w))"
proof -
  from assms obtain w bs where w: "choose_column_budget n_mu n_omega tb COMPLEX128_BYTES = Inr w"
    and bs: "column_blocks n_mu w = Inr bs"
    and sched: "sched = concat (map (\<lambda>q. map (\<lambda>(lo, hi). (q, lo, hi)) bs) (py_range 0 n_q 1))"
    by (auto simp: fit_schedule_def)
  have bs': "bs = projr (column_blocks n_mu w)" using bs by (simp add: column_blocks_Inr)
  show thesis
  proof (rule that [OF w])
    show "(q, lo, hi) \<in> set sched \<longleftrightarrow>
        0 \<le> q \<and> q < n_q \<and> (lo, hi) \<in> set (projr (column_blocks n_mu w))" for q lo hi
      unfolding bs' [symmetric] sched by (auto simp: set_py_range_1)
  qed (use choose_column_budget_Inr [OF w] in simp_all)
qed

text \<open>A contiguous block, as the fit driver asks for it, normalises to itself.\<close>

lemma normalise_block:
  assumes "0 \<le> lo" "lo < hi" "hi \<le> n_mu"
  shows "normalise_columns (Columns [lo..hi - 1]) n_mu = Inr [lo..hi - 1]"
proof -
  have "sort (remdups [lo..hi - 1]) = [lo..hi - 1]"
    by (simp add: distinct_remdups_id sorted_sort_id)
  moreover have "[lo..hi - 1] \<noteq> []" using assms by simp
  moreover have "hd [lo..hi - 1] = lo" using assms by (simp add: upto_rec1)
  moreover have "last [lo..hi - 1] = hi - 1" using assms by (simp add: upto_rec2)
  ultimately show ?thesis using assms by (simp add: Let_def)
qed

text \<open>
  the schedule of the fit stage visits every (q, column) pair of the store in exactly one of
  its steps, and the sample reader accepts every step as it stands: the block is contiguous,
  within the tile budget and within the stored q axis.
\<close>

theorem fit_schedule_exact:
  assumes "fit_schedule n_q n_mu n_omega tb = Inr sched"
    and "wh_n_mu h = n_mu" "wh_n_omega h = n_omega" "wh_n_ready h = n_omega" "wh_n_q h = n_q"
  shows "(\<forall>q col. 0 \<le> q \<and> q < n_q \<and> 0 \<le> col \<and> col < n_mu \<longrightarrow>
      (\<exists>!s. s \<in> set sched \<and> fst s = q \<and> fst (snd s) \<le> col \<and> col < snd (snd s))) \<and>
    (\<forall>(q, lo, hi)\<in>set sched. \<exists>w. column_span [lo..hi - 1] = (lo, hi, None) \<and>
      validate_column_request h q (Columns [lo..hi - 1]) tb True = Inr (q, [lo..hi - 1], w))"
proof -
  from fit_schedule_step [OF assms(1)] obtain w
    where w: "choose_column_budget n_mu n_omega tb COMPLEX128_BYTES = Inr w" "1 \<le> n_mu" "1 \<le> w" "w \<le> n_mu"
      and mem: "\<And>q lo hi. (q, lo, hi) \<in> set sched \<longleftrightarrow>
           0 \<le> q \<and> q < n_q \<and> (lo, hi) \<in> set (projr (column_blocks n_mu w))"
    by blast
  have once: "\<exists>!s. s \<in> set sched \<and> fst s = q \<and> fst (snd s) \<le> col \<and> col < snd (snd s)"
    if "0 \<le> q \<and> q < n_q \<and> 0 \<le> col \<and> col < n_mu" for q col
  proof -
    from cb.visited_once [of n_mu w col] w that obtain blk
      where blk: "blk \<in> set (projr (column_blocks n_mu w))" "fst blk \<le> col" "col < snd blk"
        and uniq: "\<And>b. b \<in> set (projr (column_blocks n_mu w)) \<Longrightarrow> fst b \<le> col \<Longrightarrow> col < snd b \<Longrightarrow> b = blk"
      by blast
    show ?thesis
    proof (rule ex1I [of _ "(q, fst blk, snd blk)"])
      show "(q, fst blk, snd blk) \<in> set sched \<and> fst (q, fst blk, snd blk) = q \<and>
          fst (snd (q, fst blk, snd blk)) \<le> col \<and> col < snd (snd (q, fst blk, snd blk))"
        using mem [of q "fst blk" "snd blk"] blk that by simp
      show "s = (q, fst blk, snd blk)"
        if s: "s \<in> set sched \<and> fst s = q \<and> fst (snd s) \<le> col \<and> col < snd (snd s)" for s
      proof -
        obtain q' lo hi where e: "s = (q', lo, hi)" by (cases s)
        then have "(lo, hi) \<in> set (projr (column_blocks n_mu w))" using s mem [of q' lo hi] by simp
        then have "(lo, hi) = blk" using uniq [of "(lo, hi)"] s e by simp
        then show ?thesis using s e by auto
      qed
    qed
  qed
  have step: "column_span [lo..hi - 1] = (lo, hi, None) \<and>
      validate_column_request h q (Columns [lo..hi - 1]) tb True = Inr (q, [lo..hi - 1], w)"
    if "(q, lo, hi) \<in> set sched" for q lo hi
  proof -
    have q: "0 \<le> q" "q < n_q" and in_bs: "(lo, hi) \<in> set (projr (column_blocks n_mu w))"
      using that mem by auto
    have b: "0 \<le> lo" "lo < hi" "hi \<le> n_mu" "hi - lo \<le> w" using cb.in_bounds [OF _ in_bs] w by auto
    have "hd [lo..hi - 1] = lo" using b by (simp add: upto_rec1)
    moreover have "last [lo..hi - 1] = hi - 1" using b by (simp add: upto_rec2)
    ultimately have span: "column_span [lo..hi - 1] = (lo, hi, None)" using b by (simp add: column_span_def)
    define cs where "cs = [lo..hi - 1]"
    have cs: "normalise_columns (Columns cs) n_mu = Inr cs" "int (length cs) = hi - lo"
      unfolding cs_def using normalise_block [OF b(1-3)] b by simp_all
    have "validate_column_request h q (Columns cs) tb True = Inr (q, cs, w)"
      unfolding validate_column_request_def assms(2-5) cs(1) w(1) andthen_simps cs(2)
      using b q by simp
    then show ?thesis using span by (simp add: cs_def)
  qed
  show ?thesis using once step by blast
qed

theorem fit_schedule_exact_witness:
  "fit_schedule 2 5 2 None = Inr [(0, 0, 2), (0, 2, 4), (0, 4, 5), (1, 0, 2), (1, 2, 4), (1, 4, 5)] \<and>
   (\<exists>w. validate_column_request
       \<lparr>wh_n_mu = 5, wh_n_omega = 2, wh_n_ready = 2, wh_data_ready = [True, True], wh_n_q = 2\<rparr>
       1 (Columns [4..5 - 1]) None True = Inr (1, [4..5 - 1], w))"
proof -
  have E: "fit_schedule 2 5 2 None =
      Inr [(0, 0, 2), (0, 2, 4), (0, 4, 5), (1, 0, 2), (1, 2, 4), (1, 4, 5)]"
    by (simp add: fit_schedule_def choose_column_budget_def one_tile_bytes_def COMPLEX128_BYTES_def
        column_blocks_def py_range.simps)
  show ?thesis
    using E fit_schedule_exact [OF E, of "\<lparr>wh_n_mu = 5, wh_n_omega = 2, wh_n_ready = 2,
        wh_data_ready = [True, True], wh_n_q = 2\<rparr>"]
    by simp
qed

end
