(* ===== verification/FitStore.thy ===== *)
theory FitStore
  imports Tiles
begin

text \<open>
  The staged pole-fit store of \<open>src/file_io/mpa_store.py\<close> and its readers in
  \<open>src/file_io/restart_bundle.py\<close>: allocation, the completion ledger, the write session
  (\<open>FitWriter\<close>), the ledger commit, certification and finalization, the I/O receipt, and the two
  validations (a finalized store for its consumer, a partial store for a restart).

  A store is the record of what the file holds: the ledger group, the root attributes, the scalar
  head, the receipt, the shapes and dtypes of the datasets, and the pole payload per (q, column).
  HDF5 and the collective transport are not modelled: a transfer or a close either lands, or fails
  and leaves the payload in any state at all (\<open>io_outcome\<close>). The barriers order the ranks of one
  collective call, so one call is one step here. Identity hashes, units and provenance are strings.
  The stamped, comma-joined \<open>diagnostic_keys\<close> are the list they split into.
\<close>

section \<open>The store and its ledger\<close>

type_synonym fit_block = "int \<times> int \<times> int"

datatype fit_error =
    FitColumns column_error
  | NoLedger
  | BadFormatVersion int
  | OrderedSchema bool bool
  | ExtentsPositive
  | UnsupportedUnit "string option"
  | AllocateMode
  | WriterNeedsMesh
  | WriterNeedsAppend
  | WriterFinalized
  | WriterNoKeys
  | WriterKeys "string list"
  | WriteAfterClose
  | WriteQOutside int int
  | WriteNotContiguous
  | AlreadyFitted int "int list"
  | DiagnosticsNotFinite
  | OddPresence bool
  | BlockLayout
  | BlockRank nat
  | BlockShapes
  | OddShape
  | BlockIncompatible "int list"
  | DiagKeys "string list"
  | DiagShape string "int list"
  | DiagLayout string
  | IoFailed
  | CertificationRefused "string list" "string list"
  | AlreadyFinalized string
  | Unfitted nat nat "(nat \<times> (int \<times> int) list) list"
  | NoHead
  | HeadNotReady
  | HeadHashDiffers
  | NotFinalized nat nat
  | PayloadMissing string
  | PayloadShape string "int list"
  | PayloadDtype string string
  | NotComplete
  | NoDiagramStamp
  | DiagramMismatch string string
  | UnknownIdentityField string
  | IdentityMismatch string
  | NotCertified "string list"
  | InvalidCertification string
  | CertificationFailed string
  | ResumeIncompatible "string list"
  | DoneShape
  | MetricLength string
  | MetricNotFinite string
  | ScheduleDuplicates
  | ScheduleRange fit_block
  | ScheduleOverlap fit_block
  | ScheduleIncomplete
  | JournalOutside fit_block
  | JournalRepeats fit_block
  | JournalOverlap fit_block
  | DoneNotUnion
  | ReceiptNegative
  | ReceiptSeconds
  | ReceiptOpensCloses
  | ReceiptPolicy
  | ReceiptEpochs int
  | ReceiptReads int int
  | ReceiptCensus int int
  | ReceiptOrdered
  | ReceiptAfterComplete
  | ReceiptIncomplete

datatype cert_val = CertNum xfloat | CertText string

record fit_led =
  fl_done :: "bool list list"
  fl_journal :: "fit_block list"
  fl_cond :: "xfloat list"
  fl_berr :: "xfloat list"
  fl_keys :: "string list option"

record fit_identity =
  id_unit :: "string option"
  id_grid :: "string option"
  id_table :: "string option"
  id_centroid :: "string option"
  id_prov :: "(string \<times> string) list"
  id_occ :: "(string \<times> string) list option"

record fit_head =
  hd_ready :: bool
  hd_grid_hash :: "string option"

record fit_receipt =
  rc_ordered :: bool
  rc_walked :: int
  rc_skipped :: int
  rc_checkpoint_blocks :: int
  rc_epochs_planned :: int
  rc_epochs_committed :: int
  rc_opens :: int
  rc_closes :: int
  rc_reads :: int
  rc_seconds :: "xfloat list"

record 'v fit_store =
  fs_led :: "fit_led option"
  fs_version :: int
  fs_n_p :: int
  fs_n_q :: int
  fs_n_mu :: int
  fs_ordered :: bool
  fs_complete :: bool
  fs_utc :: string
  fs_identity :: fit_identity
  fs_cert :: "(string \<times> cert_val) list"
  fs_maxima :: "(xfloat \<times> xfloat \<times> nat) option"
  fs_head :: "fit_head option"
  fs_receipt :: "(bool \<times> fit_receipt) option"
  fs_datasets :: "(string \<times> int list \<times> string) list"
  fs_payload :: "int \<times> int \<Rightarrow> 'v option"

definition MPA_FIT_FORMAT_VERSION :: int where
  "MPA_FIT_FORMAT_VERSION = 1"

definition FIT_ENERGY_UNITS :: "(string \<times> real) list" where
  "FIT_ENERGY_UNITS = [(''Ry'', 1), (''Ha'', 2)]"

definition PERSISTED_DIAGNOSTICS :: "string list" where
  "PERSISTED_DIAGNOSTICS = [''condition'']"

definition FIT_IO_CHECKPOINT_BLOCKS :: int where
  "FIT_IO_CHECKPOINT_BLOCKS = 32"

definition open_fit :: "'v fit_store \<Rightarrow> (fit_error, fit_led) result" where
  "open_fit s = (case fs_led s of None \<Rightarrow> Inl NoLedger
     | Some led \<Rightarrow> if fs_version s \<noteq> MPA_FIT_FORMAT_VERSION then Inl (BadFormatVersion (fs_version s))
                   else Inr led)"

text \<open>The dict \<open>fit_completion_ledger\<close> returns.\<close>

record fit_ledger =
  lg_version :: int
  lg_n_p :: int
  lg_n_q :: int
  lg_n_mu :: int
  lg_identity :: fit_identity
  lg_ordered :: bool
  lg_complete :: bool
  lg_done :: "bool list list"
  lg_n_done :: nat
  lg_n_total :: nat
  lg_journal :: "fit_block list"
  lg_keys :: "string list option"
  lg_utc :: string
  lg_cert :: "(string \<times> cert_val) list"
  lg_cond :: "xfloat list"
  lg_berr :: "xfloat list"
  lg_cond_max :: "xfloat option"
  lg_berr_max :: "xfloat option"

definition max_opt :: "xfloat list \<Rightarrow> xfloat option" where
  "max_opt xs = (if xs = [] then None else Some (np_max xs))"

definition has_dataset :: "'v fit_store \<Rightarrow> string \<Rightarrow> bool" where
  "has_dataset s nm = (map_of (fs_datasets s) nm \<noteq> None)"

definition fit_completion_ledger :: "'v fit_store \<Rightarrow> (fit_error, fit_ledger) result" where
  "fit_completion_ledger s = andthen (open_fit s) (\<lambda>led.
     if has_dataset s ''B_odd_p'' \<noteq> fs_ordered s
     then Inl (OrderedSchema (fs_ordered s) (has_dataset s ''B_odd_p''))
     else Inr \<lparr>lg_version = fs_version s, lg_n_p = fs_n_p s, lg_n_q = fs_n_q s, lg_n_mu = fs_n_mu s,
       lg_identity = fs_identity s, lg_ordered = fs_ordered s, lg_complete = fs_complete s,
       lg_done = fl_done led, lg_n_done = bm_count (fl_done led),
       lg_n_total = sum_list (map length (fl_done led)), lg_journal = fl_journal led,
       lg_keys = fl_keys led, lg_utc = fs_utc s, lg_cert = fs_cert s,
       lg_cond = fl_cond led, lg_berr = fl_berr led,
       lg_cond_max = max_opt (fl_cond led), lg_berr_max = max_opt (fl_berr led)\<rparr>)"

text \<open>\<open>_initialise_fit_metadata\<close> on a fresh inode, and the collective allocation around it.\<close>

definition initialise_fit_metadata ::
    "int \<Rightarrow> int \<Rightarrow> int \<Rightarrow> fit_identity \<Rightarrow> string list option \<Rightarrow> bool \<Rightarrow>
     (string \<times> int list \<times> string) list \<Rightarrow> 'v fit_store" where
  "initialise_fit_metadata n_q n_mu n_p ident keys ordered datasets =
     \<lparr>fs_led = Some \<lparr>fl_done = bm_zero n_q n_mu, fl_journal = [], fl_cond = [], fl_berr = [],
                      fl_keys = map_option sort keys\<rparr>,
      fs_version = MPA_FIT_FORMAT_VERSION, fs_n_p = n_p, fs_n_q = n_q, fs_n_mu = n_mu,
      fs_ordered = ordered, fs_complete = False, fs_utc = [], fs_identity = ident, fs_cert = [],
      fs_maxima = None, fs_head = None, fs_receipt = None, fs_datasets = datasets,
      fs_payload = (\<lambda>_. None)\<rparr>"

definition allocate_fit_store ::
    "int \<Rightarrow> int \<Rightarrow> int \<Rightarrow> fit_identity \<Rightarrow> bool \<Rightarrow> string \<Rightarrow> (fit_error, 'v fit_store) result" where
  "allocate_fit_store n_q n_mu n_p ident ordered mode =
     (if min n_q (min n_mu n_p) < 1 then Inl ExtentsPositive
      else if id_unit ident \<noteq> None \<and> the (id_unit ident) \<notin> fst ` set FIT_ENERGY_UNITS
      then Inl (UnsupportedUnit (id_unit ident))
      else if mode \<noteq> ''w'' then Inl AllocateMode
      else
        let pole = ([n_p, n_q, n_mu, n_mu], ''complex128'');
            ds = [(''Omega_p'', pole), (''B_p'', pole)] @ (if ordered then [(''B_odd_p'', pole)] else []) @
                 map (\<lambda>k. (''fit_'' @ k, [n_q, n_mu, n_mu], ''float64'')) PERSISTED_DIAGNOSTICS
        in Inr (initialise_fit_metadata n_q n_mu n_p ident (Some PERSISTED_DIAGNOSTICS) ordered ds))"

section \<open>The write session\<close>

type_synonym fit_record = "int \<times> int list \<times> int \<times> int \<times> xfloat \<times> xfloat"

definition rec_block :: "fit_record \<Rightarrow> fit_block" where
  "rec_block r = (case r of (q, cols, lo, hi, c, b) \<Rightarrow> (q, lo, hi))"

fun commit_done :: "bool list list \<Rightarrow> fit_record list \<Rightarrow> bool list list" where
  "commit_done d [] = d"
| "commit_done d ((q, cols, lo, hi, c, b) # rs) = commit_done (bm_mark d q cols) rs"

definition commit_fit_blocks :: "fit_led \<Rightarrow> fit_record list \<Rightarrow> fit_led" where
  "commit_fit_blocks led records =
     (if records = [] then led
      else led\<lparr>fl_done := commit_done (fl_done led) records,
               fl_journal := fl_journal led @ map rec_block records,
               fl_cond := fl_cond led @ map (\<lambda>(q, cols, lo, hi, c, b). c) records,
               fl_berr := fl_berr led @ map (\<lambda>(q, cols, lo, hi, c, b). b) records\<rparr>)"

text \<open>An array handed to the writer: its shape and whether it lies on the required sharding.\<close>

record arr =
  ar_shape :: "int list"
  ar_layout :: bool

record 'v block_arg =
  ba_q :: int
  ba_cols :: columns_arg
  ba_omega :: arr
  ba_b :: arr
  ba_odd :: "arr option"
  ba_diag :: "(string \<times> arr) list"
  ba_data :: "nat \<Rightarrow> 'v"
  ba_cond :: xfloat
  ba_berr :: xfloat
  ba_finite :: bool

record fit_writer =
  fw_ledger :: fit_ledger
  fw_keys :: "string list"
  fw_ordered :: bool
  fw_pending :: "fit_record list"
  fw_open :: bool

datatype 'v io_outcome = Landed | Broken "int \<times> int \<Rightarrow> 'v option"

definition open_fit_writer :: "bool \<Rightarrow> string \<Rightarrow> 'v fit_store \<Rightarrow> (fit_error, fit_writer) result" where
  "open_fit_writer has_mesh mode s =
     (if \<not> has_mesh then Inl WriterNeedsMesh
      else if mode \<noteq> ''a'' then Inl WriterNeedsAppend
      else andthen (fit_completion_ledger s) (\<lambda>lg.
        if lg_complete lg then Inl WriterFinalized
        else (case lg_keys lg of
            None \<Rightarrow> Inl WriterNoKeys
          | Some ks \<Rightarrow> if ks \<noteq> PERSISTED_DIAGNOSTICS then Inl (WriterKeys ks)
              else Inr \<lparr>fw_ledger = lg, fw_keys = ks, fw_ordered = lg_ordered lg, fw_pending = [],
                         fw_open = True\<rparr>)))"

fun diag_fault :: "int \<Rightarrow> int \<Rightarrow> (string \<times> arr) list \<Rightarrow> fit_error option" where
  "diag_fault rows width [] = None"
| "diag_fault rows width ((k, a) # ds) =
     (if ar_shape a \<noteq> [1, rows, width] then Some (DiagShape k (ar_shape a))
      else if \<not> ar_layout a then Some (DiagLayout k)
      else diag_fault rows width ds)"

text \<open>The checks of \<open>write_block\<close> from the layouts to the diagnostics, in the order of the source.\<close>

definition block_fault :: "fit_writer \<Rightarrow> 'v block_arg \<Rightarrow> int list \<Rightarrow> fit_error option" where
  "block_fault w a cols =
     (let lg = fw_ledger w;
          arrays = [ba_omega a, ba_b a] @ (case ba_odd a of None \<Rightarrow> [] | Some d \<Rightarrow> [d])
      in if fw_ordered w \<noteq> (ba_odd a \<noteq> None) then Some (OddPresence (fw_ordered w))
         else if \<not> list_all ar_layout arrays then Some BlockLayout
         else (case ar_shape (ba_omega a) of
             [n_p, one, n_rows, width] \<Rightarrow>
               if ar_shape (ba_b a) \<noteq> ar_shape (ba_omega a) \<or> one \<noteq> 1 then Some BlockShapes
               else if (case ba_odd a of None \<Rightarrow> False | Some d \<Rightarrow> ar_shape d \<noteq> ar_shape (ba_omega a))
               then Some OddShape
               else if n_p \<noteq> lg_n_p lg \<or> n_rows < lg_n_mu lg \<or> width < int (length cols)
               then Some (BlockIncompatible (ar_shape (ba_omega a)))
               else if sort (map fst (ba_diag a)) \<noteq> fw_keys w
               then Some (DiagKeys (sort (map fst (ba_diag a))))
               else diag_fault n_rows width (ba_diag a)
           | sh \<Rightarrow> Some (BlockRank (length sh))))"

definition land_block :: "(int \<times> int \<Rightarrow> 'v option) \<Rightarrow> int \<Rightarrow> int list \<Rightarrow> (nat \<Rightarrow> 'v) \<Rightarrow> int \<times> int \<Rightarrow> 'v option" where
  "land_block pl q cols data = (\<lambda>(p, c). if p = q \<and> c \<in> set cols then Some (data (nat (c - hd cols))) else pl (p, c))"

definition write_block ::
    "'v block_arg \<Rightarrow> 'v io_outcome \<Rightarrow> fit_writer \<times> 'v fit_store \<Rightarrow>
     (fit_error, fit_ledger) result \<times> fit_writer \<times> 'v fit_store" where
  "write_block a io ws =
     (case ws of (w, s) \<Rightarrow>
      if \<not> fw_open w then (Inl WriteAfterClose, w, s)
      else
        let lg = fw_ledger w in
        if \<not> (0 \<le> ba_q a \<and> ba_q a < lg_n_q lg) then (Inl (WriteQOutside (ba_q a) (lg_n_q lg)), w, s)
        else case normalise_columns (ba_cols a) (lg_n_mu lg) of
          Inl e \<Rightarrow> (Inl (FitColumns e), w, s)
        | Inr cols \<Rightarrow>
          (case column_span cols of (lo, hi, sel) \<Rightarrow>
           if sel \<noteq> None then (Inl WriteNotContiguous, w, s)
           else
             let already = filter (bm_get (lg_done lg) (ba_q a)) cols in
             if already \<noteq> [] then (Inl (AlreadyFitted (ba_q a) (take 8 already)), w, s)
             else if \<not> ba_finite a then (Inl DiagnosticsNotFinite, w, s)
             else case block_fault w a cols of
               Some e \<Rightarrow> (Inl e, w, s)
             | None \<Rightarrow>
               (case io of
                  Broken pl \<Rightarrow> (Inl IoFailed, w, s\<lparr>fs_payload := pl\<rparr>)
                | Landed \<Rightarrow>
                  let d = bm_mark (lg_done lg) (ba_q a) cols;
                      cs = lg_cond lg @ [ba_cond a]; bs = lg_berr lg @ [ba_berr a];
                      lg' = lg\<lparr>lg_done := d, lg_n_done := bm_count d,
                               lg_journal := lg_journal lg @ [(ba_q a, lo, hi)],
                               lg_cond := cs, lg_cond_max := Some (np_max cs),
                               lg_berr := bs, lg_berr_max := Some (np_max bs)\<rparr>
                  in (Inr lg',
                      w\<lparr>fw_ledger := lg',
                        fw_pending := fw_pending w @ [(ba_q a, cols, lo, hi, ba_cond a, ba_berr a)]\<rparr>,
                      s\<lparr>fs_payload := land_block (fs_payload s) (ba_q a) cols (ba_data a)\<rparr>))))"

definition refresh_ledger ::
    "fit_writer \<Rightarrow> 'v fit_store \<Rightarrow> (fit_error, fit_ledger) result \<times> fit_writer \<times> 'v fit_store" where
  "refresh_ledger w s = (case fit_completion_ledger s of
      Inl e \<Rightarrow> (Inl e, w, s) | Inr lg \<Rightarrow> (Inr lg, w\<lparr>fw_ledger := lg\<rparr>, s))"

definition close_fit_writer ::
    "bool \<Rightarrow> 'v io_outcome \<Rightarrow> fit_writer \<times> 'v fit_store \<Rightarrow>
     (fit_error, fit_ledger) result \<times> fit_writer \<times> 'v fit_store" where
  "close_fit_writer commit io ws =
     (case ws of (w, s) \<Rightarrow>
      if \<not> fw_open w then (Inr (fw_ledger w), w, s)
      else
        let w' = w\<lparr>fw_open := False, fw_pending := []\<rparr> in
        (case io of
           Broken pl \<Rightarrow> (Inl IoFailed, w', s\<lparr>fs_payload := pl\<rparr>)
         | Landed \<Rightarrow>
           if \<not> commit then refresh_ledger w' s
           else if fw_pending w = [] then refresh_ledger w' s
           else (case open_fit s of
               Inl e \<Rightarrow> (Inl e, w', s)
             | Inr led \<Rightarrow> refresh_ledger w' (s\<lparr>fs_led := Some (commit_fit_blocks led (fw_pending w))\<rparr>))))"

text \<open>The one-block spelling: open, write, close; an exception closes without a commit.\<close>

definition write_fit_block ::
    "bool \<Rightarrow> 'v block_arg \<Rightarrow> 'v io_outcome \<Rightarrow> 'v io_outcome \<Rightarrow> 'v fit_store \<Rightarrow>
     (fit_error, fit_ledger) result \<times> 'v fit_store" where
  "write_fit_block has_mesh a io_write io_close s =
     (case open_fit_writer has_mesh ''a'' s of
        Inl e \<Rightarrow> (Inl e, s)
      | Inr w \<Rightarrow> (case write_block a io_write (w, s) of
            (Inl e, ws) \<Rightarrow> (case close_fit_writer False io_close ws of
                (Inl e', _, s') \<Rightarrow> (Inl e', s') | (Inr _, _, s') \<Rightarrow> (Inl e, s'))
          | (Inr _, ws) \<Rightarrow> (case close_fit_writer True io_close ws of (r, _, s') \<Rightarrow> (r, s'))))"

section \<open>Certification, finalization and the consumer's validation\<close>

definition CERTIFICATION_METRICS :: "string list" where
  "CERTIFICATION_METRICS = [''condition'', ''backward_error'']"

fun cert_usable :: "cert_val \<Rightarrow> bool" where
  "cert_usable (CertNum v) = (xf_finite v \<and> xf_less (Num 0) v)"
| "cert_usable (CertText _) = False"

definition require_certification :: "(string \<times> cert_val) list option \<Rightarrow> fit_error option" where
  "require_certification certification =
     (let cert = (case certification of None \<Rightarrow> [] | Some c \<Rightarrow> c);
          names = map (\<lambda>k. k @ ''_max_allowed'') CERTIFICATION_METRICS;
          missing = filter (\<lambda>n. map_of cert n = None) names;
          bad = filter (\<lambda>n. case map_of cert n of None \<Rightarrow> False | Some v \<Rightarrow> \<not> cert_usable v) names
      in if missing = [] \<and> bad = [] then None else Some (CertificationRefused missing bad))"

text \<open>\<open>_ranges\<close>: the maximal runs of consecutive indices, before they are printed.\<close>

definition run_cuts :: "int list \<Rightarrow> nat list" where
  "run_cuts idx = filter (\<lambda>i. idx ! Suc i - idx ! i \<noteq> 1) [0..<length idx - 1]"

definition ranges :: "int list \<Rightarrow> (int \<times> int) list" where
  "ranges idx =
     (if idx = [] then []
      else
        let cuts = run_cuts idx; starts = 0 # map Suc cuts; stops = cuts @ [length idx - 1]
        in map (\<lambda>(a, b). (idx ! a, idx ! b)) (zip starts stops))"

definition missing_columns :: "bool list \<Rightarrow> int list" where
  "missing_columns row = map int (filter (\<lambda>j. \<not> row ! j) [0..<length row])"

definition fit_gaps :: "bool list list \<Rightarrow> (nat \<times> (int \<times> int) list) list" where
  "fit_gaps d = map (\<lambda>q. (q, ranges (missing_columns (d ! q))))
     (filter (\<lambda>q. missing_columns (d ! q) \<noteq> []) [0..<length d])"

definition head_fault :: "'v fit_store \<Rightarrow> fit_error option" where
  "head_fault s = (case fs_head s of
      None \<Rightarrow> Some NoHead
    | Some h \<Rightarrow> if \<not> hd_ready h then Some HeadNotReady
                else if hd_grid_hash h \<noteq> id_grid (fs_identity s) then Some HeadHashDiffers
                else None)"

definition max_or_zero :: "xfloat list \<Rightarrow> xfloat" where
  "max_or_zero xs = (if xs = [] then Num 0 else np_max xs)"

definition finalize_fit_store ::
    "(string \<times> cert_val) list option \<Rightarrow> bool \<Rightarrow> string \<Rightarrow> 'v fit_store \<Rightarrow>
     (fit_error, fit_ledger) result \<times> 'v fit_store" where
  "finalize_fit_store certification require_head now s =
     (case require_certification certification of
        Some e \<Rightarrow> (Inl e, s)
      | None \<Rightarrow> (case open_fit s of
          Inl e \<Rightarrow> (Inl e, s)
        | Inr led \<Rightarrow>
          if fs_complete s then (Inl (AlreadyFinalized (fs_utc s)), s)
          else if \<not> bm_all (fl_done led) then
            (let total = sum_list (map length (fl_done led))
             in (Inl (Unfitted (total - bm_count (fl_done led)) total (take 6 (fit_gaps (fl_done led)))), s))
          else (case (if require_head then head_fault s else None) of
              Some e \<Rightarrow> (Inl e, s)
            | None \<Rightarrow>
              let cert = (case certification of None \<Rightarrow> [] | Some c \<Rightarrow> c);
                  s' = s\<lparr>fs_complete := True, fs_utc := now,
                         fs_maxima := Some (max_or_zero (fl_cond led), max_or_zero (fl_berr led),
                                            length (fl_journal led)),
                         fs_cert := cert @ filter (\<lambda>kv. fst kv \<notin> fst ` set cert) (fs_cert s)\<rparr>
              in (fit_completion_ledger s', s'))))"

definition refuse_unfinalized :: "fit_ledger \<Rightarrow> bool \<Rightarrow> (fit_error, unit) result" where
  "refuse_unfinalized lg allow_partial =
     (if lg_complete lg \<or> allow_partial then Inr () else Inl (NotFinalized (lg_n_done lg) (lg_n_total lg)))"

fun check_dataset :: "(string \<times> int list \<times> string) list \<Rightarrow> (string \<times> int list \<times> string) list \<Rightarrow>
    (fit_error, unit) result" where
  "check_dataset ds [] = Inr ()"
| "check_dataset ds ((nm, sh, ty) # want) =
     (case map_of ds nm of
        None \<Rightarrow> Inl (PayloadMissing nm)
      | Some (sh', ty') \<Rightarrow>
          if sh' \<noteq> sh then Inl (PayloadShape nm sh')
          else if ty' \<noteq> ty then Inl (PayloadDtype nm ty')
          else check_dataset ds want)"

definition validate_pole_payload_metadata :: "'v fit_store \<Rightarrow> fit_ledger \<Rightarrow> (fit_error, unit) result" where
  "validate_pole_payload_metadata s lg =
     (let pole = ([lg_n_p lg, lg_n_q lg, lg_n_mu lg, lg_n_mu lg], ''complex128'');
          diag = ([lg_n_q lg, lg_n_mu lg, lg_n_mu lg], ''float64'')
      in check_dataset (fs_datasets s)
           ([(''Omega_p'', pole), (''B_p'', pole)] @ (if lg_ordered lg then [(''B_odd_p'', pole)] else []) @
            map (\<lambda>k. (''fit_'' @ k, diag)) PERSISTED_DIAGNOSTICS))"

definition MPA_IDENTITY_PROVENANCE_KEYS :: "string list" where
  "MPA_IDENTITY_PROVENANCE_KEYS = [''wfn_fingerprint_scheme'', ''wfn_fingerprint'',
     ''charge_zeta_identity_scheme'', ''charge_zeta_identity'']"

definition identity_field :: "fit_ledger \<Rightarrow> string \<Rightarrow> (fit_error, string option) result" where
  "identity_field lg k =
     (if k \<in> set MPA_IDENTITY_PROVENANCE_KEYS then Inr (map_of (id_prov (lg_identity lg)) k)
      else if k = ''w_grid_hash'' then Inr (id_grid (lg_identity lg))
      else if k = ''w_table_hash'' then Inr (id_table (lg_identity lg))
      else if k = ''w_centroid_hash'' then Inr (id_centroid (lg_identity lg))
      else Inl (UnknownIdentityField k))"

definition check_identity :: "fit_ledger \<Rightarrow> (string \<times> string) list \<Rightarrow> (fit_error, unit list) result" where
  "check_identity lg want = mapE (\<lambda>(k, v). andthen (identity_field lg k)
     (\<lambda>got. if got \<noteq> Some v then Inl (IdentityMismatch k) else Inr ())) want"

definition check_metric :: "fit_ledger \<Rightarrow> string \<Rightarrow> xfloat option \<Rightarrow> (fit_error, unit) result" where
  "check_metric lg k got =
     (case map_of (lg_cert lg) (k @ ''_max_allowed'') of
        Some (CertNum v) \<Rightarrow>
          if \<not> xf_finite v \<or> xf_le v (Num 0) then Inl (InvalidCertification k)
          else (case got of None \<Rightarrow> Inl (CertificationFailed k)
                | Some g \<Rightarrow> if xf_less v g then Inl (CertificationFailed k) else Inr ())
      | _ \<Rightarrow> Inl (InvalidCertification k))"

definition validate_fit_store ::
    "'v fit_store \<Rightarrow> (string \<times> string) list \<Rightarrow> string option \<Rightarrow> (fit_error, fit_ledger) result" where
  "validate_fit_store s expected_identity diagrams =
     andthen (fit_completion_ledger s) (\<lambda>lg.
     andthen (case diagrams of None \<Rightarrow> Inr ()
              | Some want \<Rightarrow> (case map_of (id_prov (lg_identity lg)) ''screening_diagrams'' of
                    None \<Rightarrow> Inl NoDiagramStamp
                  | Some got \<Rightarrow> if got \<noteq> want then Inl (DiagramMismatch got want) else Inr ())) (\<lambda>_.
     if \<not> lg_complete lg then Inl NotComplete
     else if (case id_unit (lg_identity lg) of None \<Rightarrow> True | Some u \<Rightarrow> u \<notin> fst ` set FIT_ENERGY_UNITS)
     then Inl (UnsupportedUnit (id_unit (lg_identity lg)))
     else
     andthen (validate_pole_payload_metadata s lg) (\<lambda>_.
     andthen (check_identity lg expected_identity) (\<lambda>_.
       let missing = filter (\<lambda>n. map_of (lg_cert lg) n = None)
             (map (\<lambda>k. k @ ''_max_allowed'') CERTIFICATION_METRICS)
       in if missing \<noteq> [] then Inl (NotCertified missing)
          else andthen (check_metric lg ''condition'' (lg_cond_max lg)) (\<lambda>_.
               andthen (check_metric lg ''backward_error'' (lg_berr_max lg)) (\<lambda>_. Inr lg))))))"

text \<open>\<open>refuse_finalized_fit_replacement\<close> on a path that exists: what it returns or refuses.\<close>

definition refuse_finalized_fit_replacement :: "'v fit_store \<Rightarrow> bool \<Rightarrow> (fit_error, bool) result" where
  "refuse_finalized_fit_replacement s overwrite_completed =
     (case validate_fit_store s [] None of
        Inl _ \<Rightarrow> Inr False
      | Inr _ \<Rightarrow> if \<not> overwrite_completed then Inl (AlreadyFinalized (fs_utc s)) else Inr True)"

section \<open>The restart's validation\<close>

definition block_any :: "bool list list \<Rightarrow> fit_block \<Rightarrow> bool" where
  "block_any d b = (case b of (q, lo, hi) \<Rightarrow> list_ex (bm_get d q) [lo..hi - 1])"

definition block_all :: "bool list list \<Rightarrow> fit_block \<Rightarrow> bool" where
  "block_all d b = (case b of (q, lo, hi) \<Rightarrow> list_all (bm_get d q) [lo..hi - 1])"

definition mark_block :: "bool list list \<Rightarrow> fit_block \<Rightarrow> bool list list" where
  "mark_block d b = (case b of (q, lo, hi) \<Rightarrow> bm_mark d q [lo..hi - 1])"

fun schedule_scan :: "int \<Rightarrow> int \<Rightarrow> bool list list \<Rightarrow> fit_block list \<Rightarrow> (fit_error, bool list list) result" where
  "schedule_scan n_q n_mu u [] = Inr u"
| "schedule_scan n_q n_mu u ((q, lo, hi) # bs) =
     (if \<not> (0 \<le> q \<and> q < n_q \<and> 0 \<le> lo \<and> lo < hi \<and> hi \<le> n_mu) then Inl (ScheduleRange (q, lo, hi))
      else if block_any u (q, lo, hi) then Inl (ScheduleOverlap (q, lo, hi))
      else schedule_scan n_q n_mu (mark_block u (q, lo, hi)) bs)"

fun journal_scan :: "fit_block list \<Rightarrow> fit_block set \<Rightarrow> bool list list \<Rightarrow> fit_block list \<Rightarrow>
    (fit_error, bool list list) result" where
  "journal_scan sched seen u [] = Inr u"
| "journal_scan sched seen u (b # bs) =
     (if b \<notin> set sched then Inl (JournalOutside b)
      else if b \<in> seen then Inl (JournalRepeats b)
      else if block_any u b then Inl (JournalOverlap b)
      else journal_scan sched (insert b seen) (mark_block u b) bs)"

definition identity_faults ::
    "fit_ledger \<Rightarrow> int \<Rightarrow> int \<Rightarrow> int \<Rightarrow> fit_identity \<Rightarrow> bool \<Rightarrow> string list" where
  "identity_faults lg n_q n_mu n_p ident ordered =
     (if lg_version lg = MPA_FIT_FORMAT_VERSION then [] else [''format_version'']) @
     (if lg_n_q lg = n_q then [] else [''n_q'']) @
     (if lg_n_mu lg = n_mu then [] else [''n_mu'']) @
     (if lg_n_p lg = n_p then [] else [''n_p'']) @
     (if id_unit (lg_identity lg) = id_unit ident then [] else [''energy_unit'']) @
     (if id_grid (lg_identity lg) = id_grid ident then [] else [''w_grid_hash'']) @
     (if id_table (lg_identity lg) = id_table ident then [] else [''w_table_hash'']) @
     (if id_centroid (lg_identity lg) = id_centroid ident then [] else [''w_centroid_hash'']) @
     (if lg_ordered lg = ordered then [] else [''ordered_residues'']) @
     (if lg_keys lg = Some PERSISTED_DIAGNOSTICS then [] else [''diagnostic_keys'']) @
     (if set (id_prov (lg_identity lg)) = set (id_prov ident) then [] else [''provenance'']) @
     (if id_occ (lg_identity lg) = id_occ ident then [] else [''occupation''])"

text \<open>\<open>allowed\<close> is a set; its order does not matter to the scan of a schedule without duplicates,
  which is taken in schedule order.\<close>

definition validate_fit_store_for_resume ::
    "'v fit_store \<Rightarrow> int \<Rightarrow> int \<Rightarrow> int \<Rightarrow> fit_identity \<Rightarrow> bool \<Rightarrow> fit_block list \<Rightarrow>
     (fit_error, fit_ledger) result" where
  "validate_fit_store_for_resume s n_q n_mu n_p ident ordered sched =
     andthen (fit_completion_ledger s) (\<lambda>lg.
       let faults = identity_faults lg n_q n_mu n_p ident ordered in
       if faults \<noteq> [] then Inl (ResumeIncompatible faults)
       else
       andthen (validate_pole_payload_metadata s lg) (\<lambda>_.
         if \<not> bm_wf n_q n_mu (lg_done lg) then Inl DoneShape
         else if length (lg_cond lg) \<noteq> length (lg_journal lg) then Inl (MetricLength ''condition'')
         else if \<not> list_all xf_finite (lg_cond lg) then Inl (MetricNotFinite ''condition'')
         else if length (lg_berr lg) \<noteq> length (lg_journal lg) then Inl (MetricLength ''backward_error'')
         else if \<not> list_all xf_finite (lg_berr lg) then Inl (MetricNotFinite ''backward_error'')
         else if \<not> distinct sched then Inl ScheduleDuplicates
         else
         andthen (schedule_scan n_q n_mu (bm_zero n_q n_mu) sched) (\<lambda>cover.
           if \<not> bm_all cover then Inl ScheduleIncomplete
           else
           andthen (journal_scan sched {} (bm_zero n_q n_mu) (lg_journal lg)) (\<lambda>union.
             if lg_done lg \<noteq> union then Inl DoneNotUnion else Inr lg))))"

section \<open>The I/O receipt\<close>

definition normalise_fit_io_receipt :: "fit_receipt \<Rightarrow> (fit_error, fit_receipt) result" where
  "normalise_fit_io_receipt r =
     (let counts = [rc_walked r, rc_skipped r, rc_checkpoint_blocks r, rc_epochs_planned r,
                    rc_epochs_committed r, rc_opens r, rc_closes r, rc_reads r];
          epochs = (rc_walked r + FIT_IO_CHECKPOINT_BLOCKS - 1) div FIT_IO_CHECKPOINT_BLOCKS;
          reads = rc_walked r * (if rc_ordered r then 2 else 1)
      in if list_ex (\<lambda>v. v < 0) counts then Inl ReceiptNegative
         else if list_ex (\<lambda>v. \<not> xf_finite v \<or> xf_less v (Num 0)) (rc_seconds r) then Inl ReceiptSeconds
         else if rc_opens r \<noteq> rc_closes r then Inl ReceiptOpensCloses
         else if rc_checkpoint_blocks r \<noteq> FIT_IO_CHECKPOINT_BLOCKS then Inl ReceiptPolicy
         else if rc_epochs_planned r \<noteq> epochs \<or> rc_epochs_committed r \<noteq> epochs \<or> rc_opens r \<noteq> epochs
         then Inl (ReceiptEpochs epochs)
         else if rc_reads r \<noteq> reads then Inl (ReceiptReads (rc_reads r) reads)
         else Inr r)"

definition receipt_against_ledger :: "'v fit_store \<Rightarrow> fit_receipt \<Rightarrow> (fit_error, unit) result" where
  "receipt_against_ledger s r = andthen (open_fit s) (\<lambda>led.
     if rc_walked r + rc_skipped r \<noteq> int (length (fl_journal led))
     then Inl (ReceiptCensus (rc_walked r + rc_skipped r) (int (length (fl_journal led))))
     else if rc_ordered r \<noteq> fs_ordered s then Inl ReceiptOrdered
     else Inr ())"

definition read_fit_io_receipt :: "'v fit_store \<Rightarrow> (fit_error, fit_receipt option) result" where
  "read_fit_io_receipt s = (case fs_receipt s of
      None \<Rightarrow> Inr None
    | Some (ready, r) \<Rightarrow>
        if \<not> ready then Inl ReceiptIncomplete
        else andthen (normalise_fit_io_receipt r) (\<lambda>n.
             andthen (receipt_against_ledger s n) (\<lambda>_. Inr (Some n))))"

definition write_fit_io_receipt ::
    "fit_receipt \<Rightarrow> 'v fit_store \<Rightarrow> (fit_error, fit_receipt option) result \<times> 'v fit_store" where
  "write_fit_io_receipt report s =
     (case normalise_fit_io_receipt report of
        Inl e \<Rightarrow> (Inl e, s)
      | Inr normal \<Rightarrow> (case open_fit s of
          Inl e \<Rightarrow> (Inl e, s)
        | Inr led \<Rightarrow>
          if fs_complete s then (Inl ReceiptAfterComplete, s)
          else if \<not> bm_all (fl_done led) then (Inl ReceiptIncomplete, s)
          else (case receipt_against_ledger s normal of
              Inl e \<Rightarrow> (Inl e, s)
            | Inr _ \<Rightarrow>
              if (case fs_receipt s of Some (ready, _) \<Rightarrow> ready | None \<Rightarrow> False)
              then (read_fit_io_receipt s, s)
              else let s' = s\<lparr>fs_receipt := Some (True, normal)\<rparr> in (read_fit_io_receipt s', s'))))"

section \<open>The gap report\<close>

lemma run_cuts_Cons:
  "run_cuts (x # y # zs) = (if y - x \<noteq> 1 then [0] else []) @ map Suc (run_cuts (y # zs))"
proof -
  have "[0..<length (x # y # zs) - 1] = 0 # map Suc [0..<length (y # zs) - 1]"
    by (simp add: upt_conv_Cons map_Suc_upt del: upt_Suc)
  then show ?thesis unfolding run_cuts_def by (simp add: filter_map o_def del: upt_Suc)
qed

lemma ranges_single: "ranges [x] = [(x, x)]"
  by (simp add: ranges_def run_cuts_def)

lemma ranges_Cons:
  "ranges (x # y # zs) =
     (if y - x = 1 then (x, snd (hd (ranges (y # zs)))) # tl (ranges (y # zs)) else (x, x) # ranges (y # zs))"
proof -
  let ?c = "run_cuts (y # zs)" and ?L = "length zs"
  have shift: "map (\<lambda>(a, b). ((x # y # zs) ! a, (x # y # zs) ! b)) (zip (map Suc as) (map Suc bs)) =
      map (\<lambda>(a, b). ((y # zs) ! a, (y # zs) ! b)) (zip as bs)" for as bs
    by (simp add: zip_map_map split_def)
  have r: "ranges (y # zs) = map (\<lambda>(a, b). ((y # zs) ! a, (y # zs) ! b)) (zip (0 # map Suc ?c) (?c @ [?L]))"
    by (simp add: ranges_def Let_def)
  show ?thesis
  proof (cases "y - x = 1")
    case False
    then have "ranges (x # y # zs) = map (\<lambda>(a, b). ((x # y # zs) ! a, (x # y # zs) ! b))
        (zip (0 # map Suc (0 # map Suc ?c)) (0 # map Suc (?c @ [?L])))"
      by (simp add: ranges_def run_cuts_Cons)
    also have "\<dots> = (x, x) # ranges (y # zs)" unfolding r
      using shift [of "0 # map Suc ?c" "?c @ [?L]"] by simp
    finally show ?thesis using False by simp
  next
    case True
    then have "ranges (x # y # zs) = map (\<lambda>(a, b). ((x # y # zs) ! a, (x # y # zs) ! b))
        (zip (0 # map Suc (map Suc ?c)) (map Suc (?c @ [?L])))"
      by (simp add: ranges_def run_cuts_Cons)
    also have "\<dots> = (x, snd (hd (ranges (y # zs)))) # tl (ranges (y # zs))"
    proof (cases ?c)
      case Nil
      then show ?thesis unfolding r by simp
    next
      case (Cons k ks)
      then show ?thesis unfolding r
        using shift [of "map Suc ?c" "ks @ [?L]"] by (simp add: Cons)
    qed
    finally show ?thesis using True by simp
  qed
qed

lemma ranges_expand:
  "concat (map (\<lambda>(a, b). [a..b]) (ranges idx)) = idx \<and> (idx \<noteq> [] \<longrightarrow> ranges idx \<noteq> [] \<and> fst (hd (ranges idx)) = hd idx \<and>
     fst (hd (ranges idx)) \<le> snd (hd (ranges idx)))"
proof (induction idx rule: induct_list012)
  case (3 x y zs)
  from 3(2) obtain b rs where r: "ranges (y # zs) = (y, b) # rs" "y \<le> b"
    by (cases "ranges (y # zs)") auto
  show ?case
  proof (cases "y - x = 1")
    case True
    then have "y = x + 1" by simp
    then have "[x..b] = x # [y..b]" using r(2) by (simp add: upto_rec1 [of x b])
    then show ?thesis using 3(2) r True by (simp add: ranges_Cons)
  next
    case False
    then show ?thesis using 3(2) by (simp add: ranges_Cons)
  qed
qed (simp_all add: ranges_single, simp add: ranges_def)

lemma ranges_apart:
  "sorted_wrt (<) idx \<Longrightarrow> sorted_wrt (\<lambda>p p'. snd p + 1 < fst p') (ranges idx) \<and>
     (\<forall>p\<in>set (ranges idx). hd idx \<le> fst p)"
proof (induction idx rule: induct_list012)
  case (3 x y zs)
  have IH: "sorted_wrt (\<lambda>p p'. snd p + 1 < fst p') (ranges (y # zs))" "\<forall>p\<in>set (ranges (y # zs)). y \<le> fst p"
    using 3 by auto
  have xy: "x < y" using 3(3) by simp
  obtain b rs where r: "ranges (y # zs) = (y, b) # rs"
    using ranges_expand [of "y # zs"] by (cases "ranges (y # zs)") auto
  show ?case
  proof (cases "y - x = 1")
    case True
    then show ?thesis using IH xy by (auto simp: ranges_Cons r)
  next
    case False
    then have "x + 1 < y" using xy by simp
    then show ?thesis using IH False by (fastforce simp: ranges_Cons)
  qed
qed (simp_all add: ranges_single, simp add: ranges_def)

lemma missing_sorted: "sorted_wrt (<) (missing_columns row)"
  by (simp add: missing_columns_def sorted_wrt_map sorted_wrt_filter flip: strict_sorted_iff)

text \<open>
  the gaps a refused finalization names are exact. Row by row, in order, the printed ranges
  expand to precisely the missing columns, rows without a gap are not named, and the ranges of a
  row are maximal: two of them are never adjacent.
\<close>

theorem fit_gaps_exact:
  "map (\<lambda>(q, rs). (q, concat (map (\<lambda>(a, b). [a..b]) rs))) (fit_gaps d) =
     filter (\<lambda>(q, cs). cs \<noteq> []) (map (\<lambda>q. (q, missing_columns (d ! q))) [0..<length d]) \<and>
   list_all (\<lambda>(q, rs). sorted_wrt (\<lambda>p p'. snd p + 1 < fst p') rs) (fit_gaps d)"
  using ranges_expand ranges_apart [OF missing_sorted]
  by (simp add: fit_gaps_def filter_map o_def list_all_iff)

end
