(* ===== verification/FitLedger.thy ===== *)
theory FitLedger
  imports FitStore
begin

text \<open>
  The invariant of the completion ledger and what the write session and the restart's validation
  do to it. A ledger is good for a schedule when its bitmap is exactly the union of its journal,
  the journal lists scheduled ranges without repetition, and every journalled block has a finite
  diagnostic. \<open>FitWriter\<close> keeps this for the committed ledger whatever fails in between, and it is
  exactly what \<open>validate_fit_store_for_resume\<close> checks, so a crashed run can always be resumed.
\<close>

section \<open>Schedules\<close>

definition covers :: "fit_block list \<Rightarrow> int \<Rightarrow> int \<Rightarrow> bool" where
  "covers bs q c \<longleftrightarrow> (\<exists>lo hi. (q, lo, hi) \<in> set bs \<and> lo \<le> c \<and> c < hi)"

definition block_in :: "int \<Rightarrow> int \<Rightarrow> fit_block \<Rightarrow> bool" where
  "block_in n_q n_mu b \<longleftrightarrow> (case b of (q, lo, hi) \<Rightarrow> 0 \<le> q \<and> q < n_q \<and> 0 \<le> lo \<and> lo < hi \<and> hi \<le> n_mu)"

definition apart :: "fit_block \<Rightarrow> fit_block \<Rightarrow> bool" where
  "apart a b \<longleftrightarrow> (case (a, b) of ((q, lo, hi), (q', lo', hi')) \<Rightarrow>
     \<forall>c. \<not> (q = q' \<and> lo \<le> c \<and> c < hi \<and> lo' \<le> c \<and> c < hi'))"

definition sched_ok :: "int \<Rightarrow> int \<Rightarrow> fit_block list \<Rightarrow> bool" where
  "sched_ok n_q n_mu sched \<longleftrightarrow> distinct sched \<and> (\<forall>b\<in>set sched. block_in n_q n_mu b) \<and>
     (\<forall>a\<in>set sched. \<forall>b\<in>set sched. a \<noteq> b \<longrightarrow> apart a b) \<and>
     (\<forall>q c. 0 \<le> q \<and> q < n_q \<and> 0 \<le> c \<and> c < n_mu \<longrightarrow> covers sched q c)"

lemma covers_Nil [simp]: "\<not> covers [] q c"
  by (simp add: covers_def)

lemma covers_Cons [simp]: "covers ((p, lo, hi) # bs) q c \<longleftrightarrow> (p = q \<and> lo \<le> c \<and> c < hi) \<or> covers bs q c"
  by (auto simp: covers_def)

lemma covers_append [simp]: "covers (as @ bs) q c \<longleftrightarrow> covers as q c \<or> covers bs q c"
  by (auto simp: covers_def)

lemma covers_subset: "covers as q c \<Longrightarrow> set as \<subseteq> set bs \<Longrightarrow> covers bs q c"
  by (auto simp: covers_def)

lemma mark_block_wf: "bm_wf n m u \<Longrightarrow> block_in n m b \<Longrightarrow> bm_wf n m (mark_block u b)"
  by (auto simp: mark_block_def block_in_def split: prod.splits)

lemma mark_block_get:
  assumes "bm_wf n m u" "block_in n m (p, lo, hi)" "0 \<le> q" "q < n" "0 \<le> c" "c < m"
  shows "bm_get (mark_block u (p, lo, hi)) q c \<longleftrightarrow> bm_get u q c \<or> (p = q \<and> lo \<le> c \<and> c < hi)"
  using assms bm_get_mark [of n m u p q c "[lo..hi - 1]"] by (auto simp: mark_block_def block_in_def)

lemma block_any_iff: "block_any u (q, lo, hi) \<longleftrightarrow> (\<exists>c. lo \<le> c \<and> c < hi \<and> bm_get u q c)"
  by (auto simp: block_any_def list_ex_iff)

text \<open>Where a scan of disjoint blocks ends: the union it accumulates.\<close>

lemma schedule_scan_Inr:
  assumes "bm_wf n m u"
  shows "schedule_scan n m u bs = Inr u' \<Longrightarrow>
     (\<forall>b\<in>set bs. block_in n m b) \<and> bm_wf n m u' \<and>
     (\<forall>b\<in>set bs. \<not> block_any u b) \<and> sorted_wrt apart bs \<and>
     (\<forall>q c. 0 \<le> q \<and> q < n \<and> 0 \<le> c \<and> c < m \<longrightarrow> bm_get u' q c \<longleftrightarrow> bm_get u q c \<or> covers bs q c)"
  using assms
proof (induction n m u bs rule: schedule_scan.induct)
  case (1 n m u)
  then show ?case by simp
next
  case (2 n m u q lo hi bs)
  let ?u = "mark_block u (q, lo, hi)"
  have b: "block_in n m (q, lo, hi)" and nu: "\<not> block_any u (q, lo, hi)"
    and rec: "schedule_scan n m ?u bs = Inr u'"
    using "2.prems"(1) by (auto simp: block_in_def split: if_splits)
  have wf: "bm_wf n m ?u" using mark_block_wf "2.prems"(2) b by blast
  from "2.IH" [OF _ _ rec wf] b nu have IH:
    "\<forall>b\<in>set bs. block_in n m b" "bm_wf n m u'" "\<forall>b\<in>set bs. \<not> block_any ?u b" "sorted_wrt apart bs"
    "\<And>p c. 0 \<le> p \<Longrightarrow> p < n \<Longrightarrow> 0 \<le> c \<Longrightarrow> c < m \<Longrightarrow> bm_get u' p c \<longleftrightarrow> bm_get ?u p c \<or> covers bs p c"
    by (auto simp: block_in_def)
  have get: "bm_get ?u p c \<longleftrightarrow> bm_get u p c \<or> (q = p \<and> lo \<le> c \<and> c < hi)"
    if "0 \<le> p" "p < n" "0 \<le> c" "c < m" for p c
    using mark_block_get [OF "2.prems"(2) b] that by blast
  have rest: "\<not> block_any u x \<and> apart (q, lo, hi) x" if x: "x \<in> set bs" for x
  proof -
    obtain p l h where e: "x = (p, l, h)" by (cases x)
    have xin: "block_in n m (p, l, h)" and none: "\<not> block_any ?u (p, l, h)" using IH(1,3) x e by auto
    have "\<not> bm_get u p c \<and> \<not> (q = p \<and> lo \<le> c \<and> c < hi)" if "l \<le> c" "c < h" for c
      using none xin that get [of p c] by (auto simp: block_any_iff block_in_def)
    then show ?thesis by (auto simp: e block_any_iff apart_def)
  qed
  show ?case using b nu IH(1,2,4,5) rest get by auto
qed

lemma schedule_scan_ok:
  "bm_wf n m u \<Longrightarrow> \<forall>b\<in>set bs. block_in n m b \<Longrightarrow> \<forall>b\<in>set bs. \<not> block_any u b \<Longrightarrow>
   sorted_wrt apart bs \<Longrightarrow> \<exists>u'. schedule_scan n m u bs = Inr u'"
proof (induction n m u bs rule: schedule_scan.induct)
  case (1 n m u)
  then show ?case by simp
next
  case (2 n m u q lo hi bs)
  let ?u = "mark_block u (q, lo, hi)"
  have b: "block_in n m (q, lo, hi)" using "2.prems"(2) by simp
  have none: "\<not> block_any ?u x" if x: "x \<in> set bs" for x
  proof -
    obtain p l h where e: "x = (p, l, h)" by (cases x)
    have xin: "block_in n m (p, l, h)" and nu: "\<not> block_any u (p, l, h)" and ap: "apart (q, lo, hi) (p, l, h)"
      using "2.prems" x e by auto
    have "\<not> bm_get ?u p c" if "l \<le> c" "c < h" for c
      using nu ap xin that mark_block_get [OF "2.prems"(1) b, of p c]
      by (auto simp: block_any_iff apart_def block_in_def)
    then show ?thesis by (auto simp: e block_any_iff)
  qed
  from "2.IH" [of] none "2.prems" mark_block_wf [OF "2.prems"(1) b] b
  show ?case by (auto simp: block_in_def)
qed

lemma sched_ok_scan: "sched_ok n m sched \<longleftrightarrow>
    distinct sched \<and> (\<exists>u. schedule_scan n m (bm_zero n m) sched = Inr u \<and> bm_all u)"
proof
  assume ok: "sched_ok n m sched"
  have none: "\<forall>b\<in>set sched. \<not> block_any (bm_zero n m) b"
    using ok by (auto simp: sched_ok_def block_in_def block_any_iff; fastforce)
  have sorted: "sorted_wrt apart sched" using ok
  proof -
    have "distinct bs \<Longrightarrow> (\<forall>a\<in>set bs. \<forall>b\<in>set bs. a \<noteq> b \<longrightarrow> apart a b) \<Longrightarrow> sorted_wrt apart bs" for bs
      by (induction bs) auto
    then show ?thesis using ok by (simp add: sched_ok_def)
  qed
  from schedule_scan_ok [OF bm_wf_zero _ none sorted] ok obtain u
    where u: "schedule_scan n m (bm_zero n m) sched = Inr u" by (auto simp: sched_ok_def)
  note r = schedule_scan_Inr [OF bm_wf_zero u]
  have "bm_all u" using r ok bm_all_iff [of n m u] by (auto simp: sched_ok_def)
  then show "distinct sched \<and> (\<exists>u. schedule_scan n m (bm_zero n m) sched = Inr u \<and> bm_all u)"
    using u ok by (auto simp: sched_ok_def)
next
  assume "distinct sched \<and> (\<exists>u. schedule_scan n m (bm_zero n m) sched = Inr u \<and> bm_all u)"
  then obtain u where d: "distinct sched" and u: "schedule_scan n m (bm_zero n m) sched = Inr u" and all: "bm_all u"
    by blast
  note r = schedule_scan_Inr [OF bm_wf_zero u]
  have sym: "apart a b \<Longrightarrow> apart b a" for a b by (auto simp: apart_def split: prod.splits)
  have pw: "sorted_wrt apart bs \<Longrightarrow> a \<in> set bs \<Longrightarrow> b \<in> set bs \<Longrightarrow> a \<noteq> b \<Longrightarrow> apart a b" for a b bs
    by (induction bs) (auto intro: sym)
  have cov: "covers sched q c" if "0 \<le> q" "q < n" "0 \<le> c" "c < m" for q c
    using r that all bm_all_iff [of n m u] bm_get_zero [of q n c m] by blast
  show "sched_ok n m sched" unfolding sched_ok_def using d r pw [of sched] cov by blast
qed

lemma sched_ok_apart: "sched_ok n m sched \<Longrightarrow> a \<in> set sched \<Longrightarrow> b \<in> set sched \<Longrightarrow> a \<noteq> b \<Longrightarrow> apart a b"
  by (simp add: sched_ok_def)

lemma sched_ok_in: "sched_ok n m sched \<Longrightarrow> b \<in> set sched \<Longrightarrow> block_in n m b"
  by (simp add: sched_ok_def)

text \<open>The schedule of the fit stage is such a schedule.\<close>

lemma fit_schedule_ok:
  assumes "fit_schedule n_q n_mu n_omega tb = Inr sched"
  shows "sched_ok n_q n_mu sched"
proof -
  from assms obtain w bs where w: "choose_column_budget n_mu n_omega tb COMPLEX128_BYTES = Inr w"
    and bs: "column_blocks n_mu w = Inr bs"
    and sched: "sched = concat (map (\<lambda>q. map (\<lambda>(lo, hi). (q, lo, hi)) bs) (py_range 0 n_q 1))"
    by (auto simp: fit_schedule_def)
  have pos: "1 \<le> n_mu \<and> 1 \<le> w" using bs by (simp add: column_blocks_Inr)
  have "bs = projr (column_blocks n_mu w)" using bs by simp
  then have walk: "walk 0 n_mu bs" using cb.plan_walk [OF pos] by simp
  have mem: "(q, lo, hi) \<in> set sched \<longleftrightarrow> 0 \<le> q \<and> q < n_q \<and> (lo, hi) \<in> set bs" for q lo hi
    by (auto simp: sched set_py_range_1)
  have py_distinct: "distinct (py_range a b 1)" for a b
  proof (induction a b "1::int" rule: py_range.induct)
    case (1 a b)
    then show ?case by (subst py_range.simps) (auto simp: not_le set_py_range_1)
  qed
  have "distinct (concat (map (\<lambda>q. map (\<lambda>(lo, hi). (q, lo, hi)) bs) qs))" if "distinct qs" for qs :: "int list"
    using that walk_distinct [OF walk]
    by (induction qs) (auto simp: distinct_map inj_on_def)
  then have d: "distinct sched" using py_distinct by (simp add: sched)
  have inb: "block_in n_q n_mu b" if "b \<in> set sched" for b
  proof -
    obtain q lo hi where e: "b = (q, lo, hi)" by (cases b)
    then have "0 \<le> q \<and> q < n_q \<and> (lo, hi) \<in> set bs" using that mem [of q lo hi] by simp
    then show ?thesis using walk_block [OF walk, of lo hi] by (simp add: e block_in_def)
  qed
  have ap: "apart a b" if "a \<in> set sched" "b \<in> set sched" "a \<noteq> b" for a b
  proof -
    obtain q lo hi p l h where e: "a = (q, lo, hi)" "b = (p, l, h)" by (cases a, cases b) auto
    have "(lo, hi) \<in> set bs" "(l, h) \<in> set bs" using that mem e by auto
    then have "\<not> (q = p \<and> lo \<le> c \<and> c < hi \<and> l \<le> c \<and> c < h)" for c
      using walk_unique [OF walk, of lo hi l h c] that(3) e by auto
    then show ?thesis unfolding apart_def e by simp
  qed
  have cov: "covers sched q c" if qc: "0 \<le> q" "q < n_q" "0 \<le> c" "c < n_mu" for q c
  proof -
    from walk_cover [OF walk qc(3,4)] obtain lo hi where "(lo, hi) \<in> set bs" "lo \<le> c" "c < hi" by blast
    then show ?thesis using mem [of q lo hi] qc(1,2) unfolding covers_def by blast
  qed
  show ?thesis unfolding sched_ok_def using d inb ap cov by simp
qed

section \<open>Good ledgers\<close>

definition led_ok :: "int \<Rightarrow> int \<Rightarrow> fit_block list \<Rightarrow> fit_led \<Rightarrow> bool" where
  "led_ok n_q n_mu sched led \<longleftrightarrow>
     bm_wf n_q n_mu (fl_done led) \<and> distinct (fl_journal led) \<and> set (fl_journal led) \<subseteq> set sched \<and>
     length (fl_cond led) = length (fl_journal led) \<and> list_all xf_finite (fl_cond led) \<and>
     length (fl_berr led) = length (fl_journal led) \<and> list_all xf_finite (fl_berr led) \<and>
     (\<forall>q c. 0 \<le> q \<and> q < n_q \<and> 0 \<le> c \<and> c < n_mu \<longrightarrow>
        (bm_get (fl_done led) q c \<longleftrightarrow> covers (fl_journal led) q c))"

lemma journal_scan_Inr:
  assumes ok: "sched_ok n m sched"
  shows "bm_wf n m u \<Longrightarrow> journal_scan sched seen u bs = Inr u' \<Longrightarrow>
     set bs \<subseteq> set sched \<and> distinct bs \<and> set bs \<inter> seen = {} \<and> bm_wf n m u' \<and>
     (\<forall>q c. 0 \<le> q \<and> q < n \<and> 0 \<le> c \<and> c < m \<longrightarrow> (bm_get u' q c \<longleftrightarrow> bm_get u q c \<or> covers bs q c))"
proof (induction bs arbitrary: seen u)
  case (Cons b bs)
  obtain p lo hi where e: "b = (p, lo, hi)" by (cases b)
  have b: "b \<in> set sched" "b \<notin> seen"
    and rec: "journal_scan sched (insert b seen) (mark_block u b) bs = Inr u'"
    using Cons.prems(2) by (auto split: if_splits)
  note bin = sched_ok_in [OF ok b(1)]
  note IH = Cons.IH [OF mark_block_wf [OF Cons.prems(1) bin] rec]
  show ?case using IH b mark_block_get [OF Cons.prems(1) bin [unfolded e]] by (auto simp: e)
qed simp

lemma journal_scan_ok:
  assumes ok: "sched_ok n m sched"
  shows "bm_wf n m u \<Longrightarrow> set bs \<subseteq> set sched \<Longrightarrow> distinct bs \<Longrightarrow> set bs \<inter> seen = {} \<Longrightarrow>
     \<forall>b\<in>set bs. \<not> block_any u b \<Longrightarrow> \<exists>u'. journal_scan sched seen u bs = Inr u'"
proof (induction bs arbitrary: seen u)
  case (Cons b bs)
  obtain p lo hi where e: "b = (p, lo, hi)" by (cases b)
  have bin: "block_in n m b" using Cons.prems(2) sched_ok_in [OF ok] by simp
  have "\<not> block_any (mark_block u b) x" if x: "x \<in> set bs" for x
  proof -
    obtain q l h where ex: "x = (q, l, h)" by (cases x)
    have xin: "block_in n m x" using sched_ok_in [OF ok, of x] Cons.prems(2) x by auto
    have ap: "apart b x" using sched_ok_apart [OF ok, of b x] Cons.prems(2,3) x by auto
    have "\<not> bm_get (mark_block u b) q c" if "l \<le> c" "c < h" for c
      using mark_block_get [OF Cons.prems(1) bin [unfolded e], of q c] that ap xin Cons.prems(5) x
      by (auto simp: e ex apart_def block_in_def block_any_iff)
    then show ?thesis by (auto simp: ex block_any_iff)
  qed
  then show ?case
    using Cons.IH [OF mark_block_wf [OF Cons.prems(1) bin], of "insert b seen"] Cons.prems by auto
qed simp

lemma bm_zero_get_False: "block_in n m b \<Longrightarrow> \<not> block_any (bm_zero n m) b"
  by (cases b) (auto simp: block_any_iff block_in_def)

lemma journal_scan_iff:
  assumes ok: "sched_ok n m sched" and wf: "bm_wf n m d"
  shows "journal_scan sched {} (bm_zero n m) js = Inr d \<longleftrightarrow>
     set js \<subseteq> set sched \<and> distinct js \<and>
     (\<forall>q c. 0 \<le> q \<and> q < n \<and> 0 \<le> c \<and> c < m \<longrightarrow> (bm_get d q c \<longleftrightarrow> covers js q c))"
    (is "?scan = Inr d \<longleftrightarrow> ?good")
proof
  assume "?scan = Inr d"
  from journal_scan_Inr [OF ok bm_wf_zero this] show ?good using bm_get_zero [of _ n _ m] by auto
next
  assume good: ?good
  have "\<forall>b\<in>set js. \<not> block_any (bm_zero n m) b"
    using good sched_ok_in [OF ok] bm_zero_get_False by blast
  then obtain u where u: "?scan = Inr u"
    using journal_scan_ok [OF ok bm_wf_zero, of js "{}"] good by auto
  note r = journal_scan_Inr [OF ok bm_wf_zero u]
  have "u = d"
    by (rule bm_eqI [of n m]) (use r wf good bm_get_zero [of _ n _ m] in auto)
  then show "?scan = Inr d" using u by simp
qed

text \<open>The static half of the restart's validation: everything but the ledger's dynamics.\<close>

definition store_matches ::
    "'v fit_store \<Rightarrow> int \<Rightarrow> int \<Rightarrow> int \<Rightarrow> fit_identity \<Rightarrow> bool \<Rightarrow> bool" where
  "store_matches s n_q n_mu n_p ident ordered \<longleftrightarrow>
     (\<exists>lg. fit_completion_ledger s = Inr lg \<and> identity_faults lg n_q n_mu n_p ident ordered = [] \<and>
           validate_pole_payload_metadata s lg = Inr ())"

lemma ledger_Inr:
  "fit_completion_ledger s = Inr lg \<Longrightarrow> \<exists>led. fs_led s = Some led \<and> open_fit s = Inr led \<and>
     lg_done lg = fl_done led \<and> lg_journal lg = fl_journal led \<and> lg_cond lg = fl_cond led \<and>
     lg_berr lg = fl_berr led \<and> lg_keys lg = fl_keys led \<and> lg_complete lg = fs_complete s \<and>
     lg_n_q lg = fs_n_q s \<and> lg_n_mu lg = fs_n_mu s \<and> lg_n_p lg = fs_n_p s \<and> lg_ordered lg = fs_ordered s \<and>
     lg_cond_max lg = max_opt (fl_cond led) \<and> lg_berr_max lg = max_opt (fl_berr led) \<and>
     lg_cert lg = fs_cert s \<and> lg_identity lg = fs_identity s \<and> lg_utc lg = fs_utc s \<and>
     lg_n_done lg = bm_count (fl_done led)"
  by (auto simp: fit_completion_ledger_def open_fit_def split: option.splits if_splits)

lemma resume_iff:
  assumes ok: "sched_ok n_q n_mu sched"
  shows "(\<exists>lg. validate_fit_store_for_resume s n_q n_mu n_p ident ordered sched = Inr lg) \<longleftrightarrow>
     store_matches s n_q n_mu n_p ident ordered \<and> (\<exists>led. fs_led s = Some led \<and> led_ok n_q n_mu sched led)"
    (is "?L \<longleftrightarrow> ?R")
proof
  assume ?L
  then obtain lg where v: "validate_fit_store_for_resume s n_q n_mu n_p ident ordered sched = Inr lg" by blast
  then obtain l where l: "fit_completion_ledger s = Inr l" by (auto simp: validate_fit_store_for_resume_def)
  from ledger_Inr [OF l] obtain led where led: "fs_led s = Some led" "lg_done l = fl_done led"
    "lg_journal l = fl_journal led" "lg_cond l = fl_cond led" "lg_berr l = fl_berr led" by blast
  have parts: "identity_faults l n_q n_mu n_p ident ordered = []" "validate_pole_payload_metadata s l = Inr ()"
    "bm_wf n_q n_mu (fl_done led)" "length (fl_cond led) = length (fl_journal led)"
    "list_all xf_finite (fl_cond led)" "length (fl_berr led) = length (fl_journal led)"
    "list_all xf_finite (fl_berr led)"
    "journal_scan sched {} (bm_zero n_q n_mu) (fl_journal led) = Inr (fl_done led)"
    using v l led by (auto simp: validate_fit_store_for_resume_def Let_def split: if_splits)
  then show ?R
    using l led(1) journal_scan_iff [OF ok parts(3)] by (auto simp: store_matches_def led_ok_def)
next
  assume ?R
  then obtain lg led where l: "fit_completion_ledger s = Inr lg"
    and st: "identity_faults lg n_q n_mu n_p ident ordered = []" "validate_pole_payload_metadata s lg = Inr ()"
    and led: "fs_led s = Some led" "led_ok n_q n_mu sched led" by (auto simp: store_matches_def)
  have f: "lg_done lg = fl_done led" "lg_journal lg = fl_journal led" "lg_cond lg = fl_cond led"
    "lg_berr lg = fl_berr led" using ledger_Inr [OF l] led(1) by auto
  have "journal_scan sched {} (bm_zero n_q n_mu) (fl_journal led) = Inr (fl_done led)"
    using journal_scan_iff [OF ok, of "fl_done led" "fl_journal led"] led(2) by (simp add: led_ok_def)
  then have "validate_fit_store_for_resume s n_q n_mu n_p ident ordered sched = Inr lg"
    using l st led(2) f ok sched_ok_scan [of n_q n_mu sched]
    by (auto simp: validate_fit_store_for_resume_def led_ok_def)
  then show ?L by blast
qed

section \<open>The write session keeps the ledger good\<close>

lemma contiguous_upto:
  assumes "sorted xs" "distinct xs" "xs \<noteq> []" "last xs + 1 - hd xs = int (length xs)"
  shows "xs = [hd xs..last xs]"
proof -
  have "set xs \<subseteq> {hd xs..last xs}"
  proof
    fix x assume "x \<in> set xs"
    then obtain i where i: "i < length xs" "x = xs ! i" by (auto simp: in_set_conv_nth)
    have "xs ! 0 \<le> xs ! i" using assms(1) i by (simp add: sorted_nth_mono)
    moreover have "xs ! i \<le> xs ! (length xs - 1)" using assms(1) i by (intro sorted_nth_mono) auto
    ultimately show "x \<in> {hd xs..last xs}" using i assms(3) by (simp add: hd_conv_nth last_conv_nth)
  qed
  moreover have "card (set xs) = card {hd xs..last xs}"
    using assms by (simp add: distinct_card algebra_simps)
  ultimately have "set xs = {hd xs..last xs}" by (simp add: card_subset_eq)
  then show ?thesis using assms by (intro sorted_distinct_set_unique) auto
qed

lemma normalise_columns_Inr:
  assumes "normalise_columns a n_mu = Inr cols"
  shows "sorted cols \<and> distinct cols \<and> cols \<noteq> [] \<and> 0 \<le> hd cols \<and> last cols < n_mu"
proof -
  obtain cs where a: "a = Columns cs" using assms by (cases a) auto
  have "cols = sort (remdups cs)" "cs \<noteq> []" "0 \<le> hd cols" "last cols < n_mu"
    using assms by (auto simp: a Let_def split: if_splits)
  moreover have "sort (remdups cs) \<noteq> []"
    using calculation(2) by (metis set_empty set_remdups set_sort)
  ultimately show ?thesis by simp
qed

lemma contiguous_block:
  assumes "normalise_columns a n_mu = Inr cols" "column_span cols = (lo, hi, None)"
  shows "cols = [lo..hi - 1] \<and> 0 \<le> lo \<and> lo < hi \<and> hi \<le> n_mu"
proof -
  note n = normalise_columns_Inr [OF assms(1)]
  have e: "lo = hd cols" "hi = last cols + 1" "last cols + 1 - hd cols = int (length cols)"
    using assms(2) by (auto simp: column_span_def Let_def split: if_splits)
  have "0 < length cols" using n by simp
  then have "hd cols < last cols + 1" using e(3) by linarith
  then show ?thesis using contiguous_upto [of cols] n e by simp
qed

lemma commit_done_snoc: "commit_done d (rs @ [(q, cols, lo, hi, c, b)]) = bm_mark (commit_done d rs) q cols"
  by (induction d rs rule: commit_done.induct) auto

lemma commit_fields:
  "fl_done (commit_fit_blocks led rs) = commit_done (fl_done led) rs"
  "fl_journal (commit_fit_blocks led rs) = fl_journal led @ map rec_block rs"
  "fl_cond (commit_fit_blocks led rs) = fl_cond led @ map (\<lambda>(q, cols, lo, hi, c, b). c) rs"
  "fl_berr (commit_fit_blocks led rs) = fl_berr led @ map (\<lambda>(q, cols, lo, hi, c, b). b) rs"
  "fl_keys (commit_fit_blocks led rs) = fl_keys led"
  by (simp_all add: commit_fit_blocks_def)

lemma led_ok_add:
  assumes "led_ok n_q n_mu sched led" "(q, lo, hi) \<in> set sched" "block_in n_q n_mu (q, lo, hi)"
    and "\<forall>c. lo \<le> c \<and> c < hi \<longrightarrow> \<not> bm_get (fl_done led) q c" "xf_finite x" "xf_finite y"
    and "fl_done led' = bm_mark (fl_done led) q [lo..hi - 1]" "fl_journal led' = fl_journal led @ [(q, lo, hi)]"
    and "fl_cond led' = fl_cond led @ [x]" "fl_berr led' = fl_berr led @ [y]"
  shows "led_ok n_q n_mu sched led'"
proof -
  have fresh: "(q, lo, hi) \<notin> set (fl_journal led)"
  proof
    assume "(q, lo, hi) \<in> set (fl_journal led)"
    moreover have "lo < hi" using assms(3) by (simp add: block_in_def)
    ultimately have "covers (fl_journal led) q lo" by (auto simp: covers_def)
    then have "bm_get (fl_done led) q lo" using assms(1,3) by (auto simp: led_ok_def block_in_def)
    then show False using assms(4) \<open>lo < hi\<close> by auto
  qed
  have get: "bm_get (fl_done led') p c \<longleftrightarrow> covers (fl_journal led') p c"
    if "0 \<le> p" "p < n_q" "0 \<le> c" "c < n_mu" for p c
    using bm_get_mark [of n_q n_mu "fl_done led" q p c "[lo..hi - 1]"] that assms(1,3,7,8)
    by (auto simp: led_ok_def block_in_def)
  show ?thesis
    unfolding led_ok_def
    using assms(1-3,5-) fresh get by (auto simp: led_ok_def block_in_def)
qed

text \<open>The two ways \<open>write_block\<close> can come back.\<close>

lemma write_block_Inl:
  "write_block a io (w, s) = (Inl e, ws') \<Longrightarrow> \<exists>pl. ws' = (w, s\<lparr>fs_payload := pl\<rparr>)"
proof -
  have id: "s\<lparr>fs_payload := fs_payload s\<rparr> = s" by simp
  assume "write_block a io (w, s) = (Inl e, ws')"
  then have "ws' = (w, s) \<or> (\<exists>pl. ws' = (w, s\<lparr>fs_payload := pl\<rparr>))"
    unfolding write_block_def Let_def
    by (auto split: if_splits sum.splits option.splits io_outcome.splits prod.splits)
  then show ?thesis using id by metis
qed

lemma write_block_Inr:
  assumes "write_block a io (w, s) = (Inr lg', w', s')"
  obtains lo hi where "fw_open w" "0 \<le> ba_q a" "ba_q a < lg_n_q (fw_ledger w)"
    and "normalise_columns (ba_cols a) (lg_n_mu (fw_ledger w)) = Inr [lo..hi - 1]"
    and "0 \<le> lo" "lo < hi" "hi \<le> lg_n_mu (fw_ledger w)"
    and "\<forall>c. lo \<le> c \<and> c < hi \<longrightarrow> \<not> bm_get (lg_done (fw_ledger w)) (ba_q a) c"
    and "ba_finite a" "io = Landed" "lg' = fw_ledger w'"
    and "lg_done lg' = bm_mark (lg_done (fw_ledger w)) (ba_q a) [lo..hi - 1]"
    and "lg_journal lg' = lg_journal (fw_ledger w) @ [(ba_q a, lo, hi)]"
    and "lg_cond lg' = lg_cond (fw_ledger w) @ [ba_cond a]" "lg_berr lg' = lg_berr (fw_ledger w) @ [ba_berr a]"
    and "lg_n_q lg' = lg_n_q (fw_ledger w)" "lg_n_mu lg' = lg_n_mu (fw_ledger w)" "lg_n_p lg' = lg_n_p (fw_ledger w)"
    and "fw_open w'" "fw_ordered w' = fw_ordered w" "fw_keys w' = fw_keys w"
    and "fw_pending w' = fw_pending w @ [(ba_q a, [lo..hi - 1], lo, hi, ba_cond a, ba_berr a)]"
    and "s' = s\<lparr>fs_payload := land_block (fs_payload s) (ba_q a) [lo..hi - 1] (ba_data a)\<rparr>"
proof -
  let ?lg = "fw_ledger w"
  have op: "fw_open w" and q: "0 \<le> ba_q a" "ba_q a < lg_n_q ?lg"
    using assms by (auto simp: write_block_def Let_def split: if_splits)
  obtain cols where cols: "normalise_columns (ba_cols a) (lg_n_mu ?lg) = Inr cols"
    using assms op q by (auto simp: write_block_def Let_def split: sum.splits)
  obtain lo hi sel where span: "column_span cols = (lo, hi, sel)" by (cases "column_span cols")
  have sel: "sel = None" using assms op q cols span by (auto simp: write_block_def Let_def split: if_splits)
  note blk = contiguous_block [OF cols span [unfolded sel]]
  let ?cs = "[lo..hi - 1]"
  have cols': "normalise_columns (ba_cols a) (lg_n_mu ?lg) = Inr ?cs" using cols blk by simp
  have span': "column_span ?cs = (lo, hi, None)" using span sel blk by simp
  have fresh: "filter (bm_get (lg_done ?lg) (ba_q a)) ?cs = []" and fin: "ba_finite a"
    and bf: "block_fault w a ?cs = None"
    using assms op q cols' span' by (auto simp: write_block_def Let_def split: if_splits option.splits)
  have io: "io = Landed"
    using assms op q cols' span' fresh fin bf by (cases io) (auto simp: write_block_def Let_def)
  have "write_block a io (w, s) =
    (let d = bm_mark (lg_done ?lg) (ba_q a) ?cs; cs = lg_cond ?lg @ [ba_cond a]; bs = lg_berr ?lg @ [ba_berr a];
         l = ?lg\<lparr>lg_done := d, lg_n_done := bm_count d, lg_journal := lg_journal ?lg @ [(ba_q a, lo, hi)],
                 lg_cond := cs, lg_cond_max := Some (np_max cs), lg_berr := bs, lg_berr_max := Some (np_max bs)\<rparr>
     in (Inr l, w\<lparr>fw_ledger := l, fw_pending := fw_pending w @ [(ba_q a, ?cs, lo, hi, ba_cond a, ba_berr a)]\<rparr>,
         s\<lparr>fs_payload := land_block (fs_payload s) (ba_q a) ?cs (ba_data a)\<rparr>))"
    using op q cols' span' fresh fin bf io unfolding write_block_def by (simp add: Let_def)
  note res = this [unfolded assms, unfolded Let_def]
  show thesis
    by (rule that [of lo hi]) (use op q cols' blk fresh fin io res in \<open>auto simp: Let_def filter_empty_conv\<close>)
qed

definition writer_ok :: "int \<Rightarrow> int \<Rightarrow> fit_block list \<Rightarrow> fit_writer \<Rightarrow> 'v fit_store \<Rightarrow> bool" where
  "writer_ok n_q n_mu sched w s \<longleftrightarrow> fw_open w \<and> lg_n_q (fw_ledger w) = n_q \<and> lg_n_mu (fw_ledger w) = n_mu \<and>
     (\<exists>led. fs_led s = Some led \<and> led_ok n_q n_mu sched led \<and>
        (let l = commit_fit_blocks led (fw_pending w); lg = fw_ledger w in
         led_ok n_q n_mu sched l \<and> lg_done lg = fl_done l \<and> lg_journal lg = fl_journal l \<and>
         lg_cond lg = fl_cond l \<and> lg_berr lg = fl_berr l))"

text \<open>What a session may change in the store: the payload, and the ledger by a commit.\<close>

definition same_static :: "'v fit_store \<Rightarrow> 'v fit_store \<Rightarrow> bool" where
  "same_static s s' \<longleftrightarrow> (\<exists>l pl. s' = s\<lparr>fs_led := l, fs_payload := pl\<rparr>) \<and>
     map_option fl_keys (fs_led s') = map_option fl_keys (fs_led s)"

lemma same_static_refl [simp]: "same_static s s"
  unfolding same_static_def by (rule conjI, rule exI [of _ "fs_led s"], rule exI [of _ "fs_payload s"]) simp_all

lemma same_static_payload [simp]: "same_static s (s\<lparr>fs_payload := pl\<rparr>)"
  unfolding same_static_def by (rule conjI, rule exI [of _ "fs_led s"], rule exI [of _ pl]) simp_all

lemma same_static_trans: "same_static a b \<Longrightarrow> same_static b c \<Longrightarrow> same_static a c"
  unfolding same_static_def by force

lemma same_static_fields:
  "same_static s s' \<Longrightarrow> fs_version s' = fs_version s \<and> fs_n_p s' = fs_n_p s \<and> fs_n_q s' = fs_n_q s \<and>
     fs_n_mu s' = fs_n_mu s \<and> fs_ordered s' = fs_ordered s \<and> fs_complete s' = fs_complete s \<and>
     fs_identity s' = fs_identity s \<and> fs_cert s' = fs_cert s \<and> fs_datasets s' = fs_datasets s \<and>
     fs_head s' = fs_head s \<and> fs_receipt s' = fs_receipt s \<and> fs_utc s' = fs_utc s"
  by (auto simp: same_static_def)

lemma same_static_ledger:
  assumes "same_static s s'" "fit_completion_ledger s = Inr lg"
  shows "\<exists>lg'. fit_completion_ledger s' = Inr lg' \<and> lg_keys lg' = lg_keys lg \<and> lg_ordered lg' = lg_ordered lg"
proof -
  from ledger_Inr [OF assms(2)] obtain led where led: "fs_led s = Some led" by blast
  then obtain led' where led': "fs_led s' = Some led'" "fl_keys led' = fl_keys led"
    using assms(1) by (cases "fs_led s'") (auto simp: same_static_def)
  show ?thesis
    using assms(2) led led' same_static_fields [OF assms(1)]
    by (auto simp: fit_completion_ledger_def open_fit_def has_dataset_def split: if_splits)
qed

lemma same_static_matches:
  assumes "same_static s s'" "store_matches s n_q n_mu n_p ident ordered"
  shows "store_matches s' n_q n_mu n_p ident ordered"
proof -
  from assms(2) obtain lg where lg: "fit_completion_ledger s = Inr lg"
    and r: "identity_faults lg n_q n_mu n_p ident ordered = []" "validate_pole_payload_metadata s lg = Inr ()"
    by (auto simp: store_matches_def)
  from same_static_ledger [OF assms(1) lg] obtain lg' where lg': "fit_completion_ledger s' = Inr lg'"
    "lg_keys lg' = lg_keys lg" by blast
  have eq: "lg_version lg' = lg_version lg" "lg_n_p lg' = lg_n_p lg" "lg_n_q lg' = lg_n_q lg"
    "lg_n_mu lg' = lg_n_mu lg" "lg_identity lg' = lg_identity lg" "lg_ordered lg' = lg_ordered lg"
    using lg lg'(1) same_static_fields [OF assms(1)]
    by (auto simp: fit_completion_ledger_def split: if_splits)
  have "identity_faults lg' n_q n_mu n_p ident ordered = []" using r(1) eq lg'(2) by (simp add: identity_faults_def)
  moreover have "validate_pole_payload_metadata s' lg' = Inr ()"
    using r(2) eq same_static_fields [OF assms(1)] by (simp add: validate_pole_payload_metadata_def)
  ultimately show ?thesis using lg'(1) by (auto simp: store_matches_def)
qed

lemma open_fit_writer_ok:
  assumes "open_fit_writer True ''a'' s = Inr w" "fs_led s = Some led" "led_ok n_q n_mu sched led"
    and "fs_n_q s = n_q" "fs_n_mu s = n_mu"
  shows "writer_ok n_q n_mu sched w s \<and> fw_pending w = [] \<and> fw_ordered w = fs_ordered s \<and>
    fw_keys w = PERSISTED_DIAGNOSTICS \<and> lg_n_p (fw_ledger w) = fs_n_p s"
proof -
  from assms(1) obtain lg where lg: "fit_completion_ledger s = Inr lg"
    and w: "w = \<lparr>fw_ledger = lg, fw_keys = PERSISTED_DIAGNOSTICS, fw_ordered = lg_ordered lg, fw_pending = [], fw_open = True\<rparr>"
    by (auto simp: open_fit_writer_def split: if_splits option.splits)
  show ?thesis
    using assms(2-) w ledger_Inr [OF lg] by (auto simp: writer_ok_def commit_fit_blocks_def)
qed

lemma writer_ok_payload: "writer_ok n m sched w s \<Longrightarrow> writer_ok n m sched w (s\<lparr>fs_payload := pl\<rparr>)"
  by (simp add: writer_ok_def)

definition arg_scheduled :: "int \<Rightarrow> fit_block list \<Rightarrow> 'v block_arg \<Rightarrow> bool" where
  "arg_scheduled n_mu sched a \<longleftrightarrow> (\<forall>cols. normalise_columns (ba_cols a) n_mu = Inr cols \<longrightarrow>
      (ba_q a, hd cols, last cols + 1) \<in> set sched) \<and>
     (ba_finite a \<longrightarrow> xf_finite (ba_cond a) \<and> xf_finite (ba_berr a))"

lemma write_block_ok:
  assumes w: "writer_ok n_q n_mu sched w s" and sched: "sched_ok n_q n_mu sched"
    and a: "arg_scheduled n_mu sched a" and run: "write_block a io (w, s) = (r, w', s')"
  shows "writer_ok n_q n_mu sched w' s' \<and> fs_led s' = fs_led s \<and> same_static s s'"
proof (cases r)
  case (Inl e)
  then show ?thesis using write_block_Inl [OF run [unfolded Inl]] writer_ok_payload [OF w] by auto
next
  case (Inr lg')
  from write_block_Inr [OF run [unfolded Inr]] obtain lo hi where
    b: "0 \<le> ba_q a" "ba_q a < lg_n_q (fw_ledger w)"
       "normalise_columns (ba_cols a) (lg_n_mu (fw_ledger w)) = Inr [lo..hi - 1]"
       "0 \<le> lo" "lo < hi" "hi \<le> lg_n_mu (fw_ledger w)"
       "\<forall>c. lo \<le> c \<and> c < hi \<longrightarrow> \<not> bm_get (lg_done (fw_ledger w)) (ba_q a) c" "ba_finite a"
    and l: "lg' = fw_ledger w'" "lg_done lg' = bm_mark (lg_done (fw_ledger w)) (ba_q a) [lo..hi - 1]"
       "lg_journal lg' = lg_journal (fw_ledger w) @ [(ba_q a, lo, hi)]"
       "lg_cond lg' = lg_cond (fw_ledger w) @ [ba_cond a]" "lg_berr lg' = lg_berr (fw_ledger w) @ [ba_berr a]"
       "lg_n_q lg' = lg_n_q (fw_ledger w)" "lg_n_mu lg' = lg_n_mu (fw_ledger w)"
    and op: "fw_open w'"
    and p: "fw_pending w' = fw_pending w @ [(ba_q a, [lo..hi - 1], lo, hi, ba_cond a, ba_berr a)]"
    and s': "s' = s\<lparr>fs_payload := land_block (fs_payload s) (ba_q a) [lo..hi - 1] (ba_data a)\<rparr>" .
  from w obtain led where led: "fs_led s = Some led" "led_ok n_q n_mu sched led"
    and n: "lg_n_q (fw_ledger w) = n_q" "lg_n_mu (fw_ledger w) = n_mu"
    and c: "led_ok n_q n_mu sched (commit_fit_blocks led (fw_pending w))"
      "lg_done (fw_ledger w) = fl_done (commit_fit_blocks led (fw_pending w))"
      "lg_journal (fw_ledger w) = fl_journal (commit_fit_blocks led (fw_pending w))"
      "lg_cond (fw_ledger w) = fl_cond (commit_fit_blocks led (fw_pending w))"
      "lg_berr (fw_ledger w) = fl_berr (commit_fit_blocks led (fw_pending w))"
    by (auto simp: writer_ok_def Let_def)
  let ?new = "commit_fit_blocks led (fw_pending w')"
  have "hd [lo..hi - 1] = lo" using b(5) by (simp add: upto_rec1)
  moreover have "last [lo..hi - 1] = hi - 1" using b(5) by (simp add: upto_rec2)
  ultimately have mem: "(ba_q a, lo, hi) \<in> set sched" using a b(3) n by (auto simp: arg_scheduled_def)
  have fin: "xf_finite (ba_cond a)" "xf_finite (ba_berr a)" using a b(8) by (auto simp: arg_scheduled_def)
  have new: "fl_done ?new = bm_mark (fl_done (commit_fit_blocks led (fw_pending w))) (ba_q a) [lo..hi - 1]"
    "fl_journal ?new = fl_journal (commit_fit_blocks led (fw_pending w)) @ [(ba_q a, lo, hi)]"
    "fl_cond ?new = fl_cond (commit_fit_blocks led (fw_pending w)) @ [ba_cond a]"
    "fl_berr ?new = fl_berr (commit_fit_blocks led (fw_pending w)) @ [ba_berr a]"
    by (simp_all add: commit_fields p commit_done_snoc rec_block_def)
  have "led_ok n_q n_mu sched ?new"
    using led_ok_add [OF c(1) mem sched_ok_in [OF sched mem] _ fin new] b(7) c(2) by simp
  then show ?thesis using led n c l new op s' by (simp add: writer_ok_def Let_def)
qed

lemma close_fit_writer_ok:
  assumes w: "writer_ok n_q n_mu sched w s" and run: "close_fit_writer commit io (w, s) = (r, w', s')"
  shows "same_static s s' \<and> (\<exists>led'. fs_led s' = Some led' \<and> led_ok n_q n_mu sched led') \<and>
     (\<not> commit \<or> io \<noteq> Landed \<longrightarrow> fs_led s' = fs_led s) \<and>
     (commit \<and> (\<exists>lg. r = Inr lg) \<longrightarrow>
        fs_led s' = map_option (\<lambda>led. commit_fit_blocks led (fw_pending w)) (fs_led s)) \<and>
     (io = Landed \<longrightarrow> fs_payload s' = fs_payload s)"
proof -
  from w obtain led where led: "fs_led s = Some led" "led_ok n_q n_mu sched led"
    "led_ok n_q n_mu sched (commit_fit_blocks led (fw_pending w))" and op: "fw_open w"
    by (auto simp: writer_ok_def Let_def)
  have st: "same_static s (s\<lparr>fs_led := Some (commit_fit_blocks led (fw_pending w))\<rparr>)"
    unfolding same_static_def using led(1) commit_fields(5)
    by (intro conjI exI [of _ "Some (commit_fit_blocks led (fw_pending w))"] exI [of _ "fs_payload s"]) simp_all
  show ?thesis
    using run led op st
    by (auto simp: close_fit_writer_def refresh_ledger_def Let_def open_fit_def commit_fit_blocks_def
        split: if_splits io_outcome.splits sum.splits)
qed

end
