(* ===== verification/FitDriver.thy ===== *)
theory FitDriver
  imports FitLedger
begin

text \<open>
  The fit stage of \<open>src/gw/mpa/fit_driver.py\<close>: the identities a fit inherits from its samples
  (\<open>_bind_sample_artifact_identities\<close>), one block (\<open>fit_one_block\<close> with the live reader and
  writer of an epoch), and \<open>run_fit_driver\<close>: resume or allocate, walk the pending blocks in epochs
  of 32, commit each epoch, finalize or leave the receipt.

  The pole fit itself, the transport and the clock are parameters: \<open>kernel\<close> gives the arrays of a
  block or raises, \<open>io_write\<close>/\<open>io_close\<close> and the reader's flags say which calls fail, so one
  environment is one possible run, crashes included. Timings are given with the environment.
\<close>

section \<open>Sample identities\<close>

datatype driver_error =
    DriverFit fit_error
  | DriverColumns column_error
  | RcondRange
  | GridMismatch
  | NegativeMismatch
  | IdentityPartial "string list"
  | IdentityDiffers
  | IdentityInjected
  | IdentityDisagrees "string list"
  | PartialIncompatible
  | PartlyCommitted fit_block
  | ReaderOpenFailed
  | ReaderCloseFailed
  | ReaderNotContiguous
  | ReaderWidth int int int
  | SamplesWrong nat
  | FrequenciesWrong int
  | KernelRaised
  | UnfinishedColumns

definition sample_identity ::
    "(string \<times> string) list \<Rightarrow> string list \<Rightarrow> (driver_error, (string \<times> string) list option) result" where
  "sample_identity prov keys =
     (let present = filter (\<lambda>k. map_of prov k \<noteq> None) keys in
      if present = [] then Inr None
      else if length present \<noteq> length keys then Inl (IdentityPartial present)
      else Inr (Some (map (\<lambda>k. (k, the (map_of prov k))) keys)))"

definition bind_group ::
    "(string \<times> string) list \<Rightarrow> (string \<times> string) list option \<Rightarrow> string list \<Rightarrow> (string \<times> string) list \<Rightarrow>
     (driver_error, (string \<times> string) list) result" where
  "bind_group pos neg keys bound =
     andthen (sample_identity pos keys) (\<lambda>positive.
     andthen (case neg of None \<Rightarrow> Inr None | Some n \<Rightarrow> sample_identity n keys) (\<lambda>negative.
       if neg \<noteq> None \<and> negative \<noteq> positive then Inl IdentityDiffers
       else
         let caller = filter (\<lambda>k. map_of bound k \<noteq> None) keys in
         (case positive of
            None \<Rightarrow> if caller \<noteq> [] then Inl IdentityInjected else Inr bound
          | Some p \<Rightarrow>
              let bad = filter (\<lambda>k. map_of bound k \<noteq> map_of p k) caller in
              if bad \<noteq> [] then Inl (IdentityDisagrees bad)
              else Inr (filter (\<lambda>kv. fst kv \<notin> fst ` set p) bound @ p))))"

definition WFN_KEYS :: "string list" where
  "WFN_KEYS = [''wfn_fingerprint_scheme'', ''wfn_fingerprint'']"

definition ZETA_KEYS :: "string list" where
  "ZETA_KEYS = [''charge_zeta_identity_scheme'', ''charge_zeta_identity'']"

definition bind_sample_identities ::
    "(string \<times> string) list \<Rightarrow> (string \<times> string) list option \<Rightarrow> (string \<times> string) list \<Rightarrow>
     (driver_error, (string \<times> string) list) result" where
  "bind_sample_identities pos neg provenance =
     andthen (bind_group pos neg WFN_KEYS provenance) (bind_group pos neg ZETA_KEYS)"

section \<open>One block\<close>

record sample_src =
  sp_header :: w_header
  sp_omega :: "complex list"
  sp_ident :: fit_identity

text \<open>
  One run. \<open>en_kernel q cols\<close> is what the fit program hands the writer for a block (\<open>None\<close> when
  it raises); its q and columns are those of the call. \<open>en_io_write\<close>, \<open>en_io_close\<close> are the fate
  of the transfers of a block and of the close of an epoch.
\<close>

record 'v fit_env =
  en_src :: sample_src
  en_neg :: "sample_src option"
  en_z :: "complex list"
  en_n_p :: int
  en_tile_bytes :: "int option"
  en_kernel :: "fit_block \<Rightarrow> 'v block_arg option"
  en_io_write :: "fit_block \<Rightarrow> 'v io_outcome"
  en_io_close :: "nat \<Rightarrow> 'v io_outcome"
  en_reader_opens :: "nat \<Rightarrow> bool"
  en_reader_closes :: "nat \<Rightarrow> bool"

record block_stats =
  bs_n_cols :: int
  bs_n_elements :: int
  bs_bytes_read :: int
  bs_reads :: int

text \<open>\<open>WColumnReader.read\<close> on a live handle: the checks before the transfer.\<close>

definition reader_read ::
    "w_header \<Rightarrow> int \<Rightarrow> columns_arg \<Rightarrow> int \<Rightarrow> int option \<Rightarrow> (driver_error, int list) result" where
  "reader_read h q mu_cols n_cols_buffer tile_bytes =
     (case validate_column_request h q mu_cols tile_bytes True of
        Inl e \<Rightarrow> Inl (DriverColumns e)
      | Inr (iq, cols, budget) \<Rightarrow>
          (case column_span cols of (lo, hi, sel) \<Rightarrow>
             if sel \<noteq> None then Inl ReaderNotContiguous
             else if n_cols_buffer < int (length cols) \<or> budget < n_cols_buffer
             then Inl (ReaderWidth n_cols_buffer (int (length cols)) budget)
             else Inr cols))"

definition fit_one_block ::
    "'v fit_env \<Rightarrow> int \<Rightarrow> fit_block \<Rightarrow> fit_writer \<times> 'v fit_store \<Rightarrow>
     (driver_error, block_stats \<times> fit_ledger) result \<times> fit_writer \<times> 'v fit_store" where
  "fit_one_block env n_cols_buffer b ws =
     (case b of (q, lo, hi) \<Rightarrow>
      let h = sp_header (en_src env); ordered = en_neg env \<noteq> None; n = en_n_p env;
          mu_cols = Columns [lo..hi - 1] in
      case normalise_columns mu_cols (wh_n_mu h) of
        Inl e \<Rightarrow> (Inl (DriverColumns e), ws)
      | Inr cols \<Rightarrow>
        (case andthen (reader_read h q (Columns cols) n_cols_buffer (en_tile_bytes env)) (\<lambda>_.
               case en_neg env of None \<Rightarrow> Inr []
               | Some neg \<Rightarrow> reader_read (sp_header neg) q (Columns cols) n_cols_buffer (en_tile_bytes env)) of
           Inl e \<Rightarrow> (Inl e, ws)
         | Inr _ \<Rightarrow>
           if int (length (en_z env)) \<noteq> 2 * n then (Inl (SamplesWrong (length (en_z env))), ws)
           else if wh_n_omega h \<noteq> 2 * n then (Inl (FrequenciesWrong (wh_n_omega h)), ws)
           else (case en_kernel env b of
               None \<Rightarrow> (Inl KernelRaised, ws)
             | Some out \<Rightarrow>
               (case write_block (out\<lparr>ba_q := q, ba_cols := Columns cols\<rparr>) (en_io_write env b) ws of
                  (Inl e, ws') \<Rightarrow> (Inl (DriverFit e), ws')
                | (Inr lg, ws') \<Rightarrow>
                  (let n_cols = int (length cols); parts = (if ordered then 2 else 1) in
                   (Inr (\<lparr>bs_n_cols = n_cols, bs_n_elements = wh_n_mu h * n_cols,
                          bs_bytes_read = parts * wh_n_omega h * wh_n_mu h * n_cols * COMPLEX128_BYTES,
                          bs_reads = parts\<rparr>, lg), ws'))))))"

section \<open>The driver\<close>

record cost_report =
  cr_walked :: int
  cr_skipped :: int
  cr_epochs_planned :: int
  cr_epochs_committed :: int
  cr_opens :: int
  cr_closes :: int
  cr_reads :: int
  cr_columns :: int
  cr_elements :: int
  cr_bytes :: int
  cr_peak :: int
  cr_dispatches :: int
  cr_solves :: int

definition add_block :: "block_stats \<Rightarrow> cost_report \<Rightarrow> cost_report" where
  "add_block st r = r\<lparr>cr_walked := cr_walked r + 1, cr_reads := cr_reads r + bs_reads st,
     cr_columns := cr_columns r + bs_n_cols st, cr_elements := cr_elements r + bs_n_elements st,
     cr_bytes := cr_bytes r + bs_bytes_read st, cr_peak := max (cr_peak r) (bs_bytes_read st),
     cr_dispatches := cr_dispatches r + 1, cr_solves := cr_solves r + bs_n_elements st\<rparr>"

fun run_blocks ::
    "'v fit_env \<Rightarrow> int \<Rightarrow> cost_report \<Rightarrow> fit_writer \<times> 'v fit_store \<Rightarrow> fit_block list \<Rightarrow>
     (driver_error, cost_report) result \<times> fit_writer \<times> 'v fit_store" where
  "run_blocks env n_cols rep ws [] = (Inr rep, ws)"
| "run_blocks env n_cols rep ws (b # bs) =
     (case fit_one_block env n_cols b ws of
        (Inl e, ws') \<Rightarrow> (Inl e, ws')
      | (Inr (st, _), ws') \<Rightarrow> run_blocks env n_cols (add_block st rep) ws' bs)"

text \<open>The exceptional exit of an epoch: the source closes first, then the writer, without a commit.\<close>

definition abort_epoch ::
    "'v fit_env \<Rightarrow> nat \<Rightarrow> driver_error \<Rightarrow> fit_writer \<times> 'v fit_store \<Rightarrow>
     (driver_error, cost_report) result \<times> 'v fit_store" where
  "abort_epoch env k e ws = (case close_fit_writer False (en_io_close env k) ws of
      (Inl e', _, s') \<Rightarrow> (Inl (DriverFit e'), s')
    | (Inr _, _, s') \<Rightarrow> (Inl e, s'))"

definition run_epoch ::
    "'v fit_env \<Rightarrow> int \<Rightarrow> nat \<Rightarrow> fit_block list \<Rightarrow> cost_report \<Rightarrow> 'v fit_store \<Rightarrow>
     (driver_error, cost_report) result \<times> 'v fit_store" where
  "run_epoch env n_cols k epoch rep s =
     (case open_fit_writer True ''a'' s of
        Inl e \<Rightarrow> (Inl (DriverFit e), s)
      | Inr w \<Rightarrow>
        if \<not> en_reader_opens env k then abort_epoch env k ReaderOpenFailed (w, s)
        else (case run_blocks env n_cols (rep\<lparr>cr_opens := cr_opens rep + 1\<rparr>) (w, s) epoch of
            (Inl e, ws) \<Rightarrow> abort_epoch env k (if en_reader_closes env k then e else ReaderCloseFailed) ws
          | (Inr rep', ws) \<Rightarrow>
            if \<not> en_reader_closes env k then abort_epoch env k ReaderCloseFailed ws
            else (case close_fit_writer True (en_io_close env k) ws of
                (Inl e, _, s') \<Rightarrow> (Inl (DriverFit e), s')
              | (Inr _, _, s') \<Rightarrow>
                (Inr (rep'\<lparr>cr_closes := cr_closes rep' + 1, cr_epochs_committed := cr_epochs_committed rep' + 1\<rparr>), s'))))"

fun run_epochs ::
    "'v fit_env \<Rightarrow> int \<Rightarrow> nat \<Rightarrow> fit_block list list \<Rightarrow> cost_report \<Rightarrow> 'v fit_store \<Rightarrow>
     (driver_error, cost_report) result \<times> 'v fit_store" where
  "run_epochs env n_cols k [] rep s = (Inr rep, s)"
| "run_epochs env n_cols k (e # es) rep s =
     (case run_epoch env n_cols k e rep s of
        (Inl x, s') \<Rightarrow> (Inl x, s')
      | (Inr rep', s') \<Rightarrow> run_epochs env n_cols (Suc k) es rep' s')"

text \<open>Consecutive slices of at most \<open>k\<close>: \<open>xs[i : i + k] for i in range(0, len(xs), k)\<close>.\<close>

fun chunks :: "nat \<Rightarrow> 'a list \<Rightarrow> 'a list list" where
  "chunks k xs = (if xs = [] \<or> k = 0 then [] else take k xs # chunks k (drop k xs))"

declare chunks.simps [simp del]

text \<open>The pending blocks of a schedule; a block that is only partly done is refused.\<close>

fun pending_blocks :: "bool list list \<Rightarrow> fit_block list \<Rightarrow> (driver_error, int \<times> fit_block list) result" where
  "pending_blocks d [] = Inr (0, [])"
| "pending_blocks d (b # bs) =
     (if block_all d b then andthen (pending_blocks d bs) (\<lambda>(k, ps). Inr (k + 1, ps))
      else if block_any d b then Inl (PartlyCommitted b)
      else andthen (pending_blocks d bs) (\<lambda>(k, ps). Inr (k, b # ps)))"

definition fit_certification :: "real \<Rightarrow> (string \<times> cert_val) list" where
  "fit_certification rcond = [(''condition_max_allowed'', CertNum (Num (1 / rcond))),
     (''backward_error_max_allowed'', CertNum (Num (1 / 2 ^ 26)))]"

definition report_receipt :: "bool \<Rightarrow> cost_report \<Rightarrow> xfloat list \<Rightarrow> fit_receipt" where
  "report_receipt ordered r secs = \<lparr>rc_ordered = ordered, rc_walked = cr_walked r, rc_skipped = cr_skipped r,
     rc_checkpoint_blocks = FIT_IO_CHECKPOINT_BLOCKS, rc_epochs_planned = cr_epochs_planned r,
     rc_epochs_committed = cr_epochs_committed r, rc_opens = cr_opens r, rc_closes = cr_closes r,
     rc_reads = cr_reads r, rc_seconds = secs\<rparr>"

text \<open>The walk proper: from a store that matches, to the ledger it leaves.\<close>

definition walk_store ::
    "'v fit_env \<Rightarrow> int \<Rightarrow> fit_block list \<Rightarrow> fit_ledger \<Rightarrow> 'v fit_store \<Rightarrow>
     (driver_error, cost_report) result \<times> 'v fit_store" where
  "walk_store env n_cols sched lg s =
     (case pending_blocks (lg_done lg) sched of
        Inl e \<Rightarrow> (Inl e, s)
      | Inr (skipped, pending) \<Rightarrow>
        (let epochs = chunks (nat FIT_IO_CHECKPOINT_BLOCKS) pending
         in run_epochs env n_cols 0 epochs
              \<lparr>cr_walked = 0, cr_skipped = skipped, cr_epochs_planned = int (length epochs),
               cr_epochs_committed = 0, cr_opens = 0, cr_closes = 0, cr_reads = 0, cr_columns = 0,
               cr_elements = 0, cr_bytes = 0, cr_peak = 0, cr_dispatches = 0, cr_solves = 0\<rparr> s))"

definition finish_fit ::
    "bool \<Rightarrow> real \<Rightarrow> string \<Rightarrow> xfloat list \<Rightarrow> bool \<Rightarrow> cost_report \<Rightarrow> 'v fit_store \<Rightarrow>
     (driver_error, fit_ledger \<times> cost_report) result \<times> 'v fit_store" where
  "finish_fit ordered rcond now secs finalize rep s =
     (case fit_completion_ledger s of
        Inl e \<Rightarrow> (Inl (DriverFit e), s)
      | Inr lg \<Rightarrow>
        if \<not> bm_all (lg_done lg) then (Inl UnfinishedColumns, s)
        else if finalize then
          (case finalize_fit_store (Some (fit_certification rcond)) False now s of
             (Inl e, s') \<Rightarrow> (Inl (DriverFit e), s')
           | (Inr _, s') \<Rightarrow> (case fit_completion_ledger s' of
                Inl e \<Rightarrow> (Inl (DriverFit e), s') | Inr lg' \<Rightarrow> (Inr (lg', rep), s')))
        else
          (case write_fit_io_receipt (report_receipt ordered rep secs) s of
             (Inl e, s') \<Rightarrow> (Inl (DriverFit e), s')
           | (Inr _, s') \<Rightarrow> (Inr (lg, rep), s')))"

definition negative_ok :: "sample_src \<Rightarrow> sample_src \<Rightarrow> complex list \<Rightarrow> bool" where
  "negative_ok pos neg z \<longleftrightarrow>
     wh_n_mu (sp_header neg) = wh_n_mu (sp_header pos) \<and> wh_n_omega (sp_header neg) = wh_n_omega (sp_header pos) \<and>
     wh_n_q (sp_header neg) = wh_n_q (sp_header pos) \<and>
     id_unit (sp_ident neg) = id_unit (sp_ident pos) \<and> id_table (sp_ident neg) = id_table (sp_ident pos) \<and>
     id_centroid (sp_ident neg) = id_centroid (sp_ident pos) \<and> sp_omega neg = map uminus z"

definition fit_identity_of ::
    "sample_src \<Rightarrow> (string \<times> string) list \<Rightarrow> (string \<times> string) list option \<Rightarrow> fit_identity" where
  "fit_identity_of src prov occ = (sp_ident src)\<lparr>id_prov := prov, id_occ := occ\<rparr>"

text \<open>Resume the store at the destination, or allocate; an incompatible one is replaced only on request.\<close>

definition start_store ::
    "bool \<Rightarrow> int \<Rightarrow> int \<Rightarrow> int \<Rightarrow> fit_identity \<Rightarrow> bool \<Rightarrow> fit_block list \<Rightarrow> 'v fit_store option \<Rightarrow>
     (driver_error, fit_ledger \<times> 'v fit_store) result" where
  "start_store overwrite n_q n_mu n_p ident ordered sched dest =
     (let resumed = (case dest of None \<Rightarrow> None
            | Some s \<Rightarrow> (case validate_fit_store_for_resume s n_q n_mu n_p ident ordered sched of
                  Inl _ \<Rightarrow> None
                | Inr lg \<Rightarrow> if lg_complete lg then None else Some (lg, s)))
      in case resumed of
           Some x \<Rightarrow> Inr x
         | None \<Rightarrow>
             if dest \<noteq> None \<and> \<not> overwrite then Inl PartialIncompatible
             else (case allocate_fit_store n_q n_mu n_p ident ordered ''w'' of
                 Inl e \<Rightarrow> Inl (DriverFit e)
               | Inr s \<Rightarrow> (case fit_completion_ledger s of Inl e \<Rightarrow> Inl (DriverFit e) | Inr lg \<Rightarrow> Inr (lg, s))))"

definition walk_and_finish ::
    "'v fit_env \<Rightarrow> int \<Rightarrow> fit_block list \<Rightarrow> real \<Rightarrow> bool \<Rightarrow> string \<Rightarrow> xfloat list \<Rightarrow> fit_ledger \<times> 'v fit_store \<Rightarrow>
     (driver_error, fit_ledger \<times> cost_report) result \<times> 'v fit_store" where
  "walk_and_finish env n_cols sched rcond finalize now secs start =
     (case start of (lg, s) \<Rightarrow>
      (case walk_store env n_cols sched lg s of
         (Inl e, s') \<Rightarrow> (Inl e, s')
       | (Inr rep, s') \<Rightarrow> finish_fit (en_neg env \<noteq> None) rcond now secs finalize rep s'))"

text \<open>
  \<open>run_fit_driver\<close>. \<open>dest\<close> is the store at the destination path, if one exists. \<open>solver_prov\<close> are the
  solver stamps added to the bound provenance; an incompatible store is replaced only on request.
\<close>

definition run_fit_driver ::
    "'v fit_env \<Rightarrow> real \<Rightarrow> (string \<times> string) list \<Rightarrow> (string \<times> string) list \<Rightarrow>
     (string \<times> string) list option \<Rightarrow> bool \<Rightarrow> bool \<Rightarrow> string \<Rightarrow> xfloat list \<Rightarrow> 'v fit_store option \<Rightarrow>
     (driver_error, fit_ledger \<times> cost_report) result \<times> 'v fit_store option" where
  "run_fit_driver env rcond provenance solver_prov occ overwrite finalize now secs dest =
     (let src = en_src env; h = sp_header src; ordered = en_neg env \<noteq> None; z = en_z env;
          n_om = wh_n_omega h * (if ordered then 2 else 1) in
      if \<not> (0 < rcond \<and> rcond < 1) then (Inl RcondRange, dest)
      else if z \<noteq> sp_omega src then (Inl GridMismatch, dest)
      else if (case en_neg env of None \<Rightarrow> False | Some neg \<Rightarrow> \<not> negative_ok src neg z) then (Inl NegativeMismatch, dest)
      else case plan_column_walk (wh_n_mu h) n_om (en_tile_bytes env) of
        Inl e \<Rightarrow> (Inl (DriverColumns e), dest)
      | Inr plan \<Rightarrow>
        (case bind_sample_identities (id_prov (sp_ident src))
               (map_option (\<lambda>g. id_prov (sp_ident g)) (en_neg env)) provenance of
          Inl e \<Rightarrow> (Inl e, dest)
        | Inr bound \<Rightarrow>
          (case fit_schedule (wh_n_q h) (wh_n_mu h) n_om (en_tile_bytes env) of
            Inl e \<Rightarrow> (Inl (DriverColumns e), dest)
          | Inr sched \<Rightarrow>
            (let ident = fit_identity_of src
                   (filter (\<lambda>kv. fst kv \<notin> fst ` set solver_prov) bound @ solver_prov) occ
             in case start_store overwrite (wh_n_q h) (wh_n_mu h) (en_n_p env) ident ordered sched dest of
                  Inl e \<Rightarrow> (Inl e, dest)
                | Inr start \<Rightarrow>
                  (case walk_and_finish env (cw_n_cols plan) sched rcond finalize now secs start of
                     (r, s') \<Rightarrow> (r, Some s'))))))"

section \<open>Any run leaves a resumable store\<close>

lemma concat_chunks: "0 < k \<Longrightarrow> concat (chunks k xs) = xs"
proof (induction k xs rule: chunks.induct)
  case (1 k xs)
  then show ?case by (subst chunks.simps) (cases "xs = []", simp_all)
qed

lemma length_chunks: "0 < k \<Longrightarrow> int (length (chunks k xs)) = (int (length xs) + int k - 1) div int k"
proof (induction k xs rule: chunks.induct)
  case (1 k xs)
  show ?case
  proof (cases "xs = []")
    case True
    then show ?thesis using 1(2) by (subst chunks.simps) simp
  next
    case False
    let ?n = "int (length xs)"
    have IH: "int (length (chunks k (drop k xs))) = (int (length (drop k xs)) + int k - 1) div int k"
      using 1 False by simp
    have eq: "int (length (chunks k xs)) = 1 + int (length (chunks k (drop k xs)))"
      using False 1(2) by (subst chunks.simps) simp
    show ?thesis
    proof (cases "length xs \<le> k")
      case True
      have "(?n + int k - 1) div int k = 1 + (?n - 1) div int k"
        using 1(2) div_add_self2 [of "int k" "?n - 1"] by (simp add: algebra_simps)
      moreover have "(?n - 1) div int k = 0" using True False 1(2) by (simp add: div_pos_pos_trivial)
      moreover have "chunks k (drop k xs) = []" using True by (subst chunks.simps) simp
      ultimately show ?thesis using eq by simp
    next
      case big: False
      have "int (length (drop k xs)) + int k - 1 = ?n - 1" using big by simp
      moreover have "(?n + int k - 1) div int k = 1 + (?n - 1) div int k"
        using 1(2) div_add_self2 [of "int k" "?n - 1"] by (simp add: algebra_simps)
      ultimately show ?thesis using IH eq by simp
    qed
  qed
qed

definition kernel_finite :: "'v fit_env \<Rightarrow> fit_block list \<Rightarrow> bool" where
  "kernel_finite env sched \<longleftrightarrow> (\<forall>b\<in>set sched. \<forall>out. en_kernel env b = Some out \<and> ba_finite out \<longrightarrow>
      xf_finite (ba_cond out) \<and> xf_finite (ba_berr out))"

definition store_ok :: "int \<Rightarrow> int \<Rightarrow> fit_block list \<Rightarrow> 'v fit_store \<Rightarrow> bool" where
  "store_ok n_q n_mu sched s \<longleftrightarrow> fs_n_q s = n_q \<and> fs_n_mu s = n_mu \<and>
     (\<exists>led. fs_led s = Some led \<and> led_ok n_q n_mu sched led)"

text \<open>The committed journal only grows, at its end.\<close>

definition journal_grows :: "'v fit_store \<Rightarrow> 'v fit_store \<Rightarrow> bool" where
  "journal_grows s s' \<longleftrightarrow> (\<exists>led led' new. fs_led s = Some led \<and> fs_led s' = Some led' \<and>
      fl_journal led' = fl_journal led @ new)"

lemma journal_grows_trans: "journal_grows a b \<Longrightarrow> journal_grows b c \<Longrightarrow> journal_grows a c"
  by (auto simp: journal_grows_def)

lemma fit_one_block_ok:
  assumes w: "writer_ok n_q n_mu sched w s" and ok: "sched_ok n_q n_mu sched" and b: "b \<in> set sched"
    and k: "kernel_finite env sched" and run: "fit_one_block env n_cols b (w, s) = (r, w', s')"
    and h: "wh_n_mu (sp_header (en_src env)) = n_mu"
  shows "writer_ok n_q n_mu sched w' s' \<and> fs_led s' = fs_led s \<and> same_static s s'"
proof -
  obtain q lo hi where e: "b = (q, lo, hi)" by (cases b)
  have bin: "0 \<le> lo" "lo < hi" "hi \<le> n_mu" using sched_ok_in [OF ok b] by (auto simp: e block_in_def)
  note nb = normalise_block [OF bin]
  have "hd [lo..hi - 1] = lo" using bin by (simp add: upto_rec1)
  moreover have "last [lo..hi - 1] = hi - 1" using bin by (simp add: upto_rec2)
  ultimately have arg: "arg_scheduled n_mu sched (out\<lparr>ba_q := q, ba_cols := Columns [lo..hi - 1]\<rparr>)"
    if "en_kernel env b = Some out" for out
    using that b k nb by (auto simp: arg_scheduled_def kernel_finite_def e)
  have "(w', s') = (w, s) \<or> (\<exists>out r'. en_kernel env b = Some out \<and>
     write_block (out\<lparr>ba_q := q, ba_cols := Columns [lo..hi - 1]\<rparr>) (en_io_write env b) (w, s) = (r', w', s'))"
    using run unfolding fit_one_block_def e Let_def h prod.case nb sum.case
    by (auto split: if_splits sum.splits option.splits prod.splits)
  then show ?thesis using write_block_ok [OF w ok arg] w by auto
qed

lemma run_blocks_ok:
  assumes ok: "sched_ok n_q n_mu sched" and k: "kernel_finite env sched"
    and h: "wh_n_mu (sp_header (en_src env)) = n_mu"
  shows "writer_ok n_q n_mu sched w s \<Longrightarrow> set bs \<subseteq> set sched \<Longrightarrow>
     run_blocks env n_cols rep (w, s) bs = (r, w', s') \<Longrightarrow>
     writer_ok n_q n_mu sched w' s' \<and> fs_led s' = fs_led s \<and> same_static s s'"
proof (induction bs arbitrary: rep w s)
  case (Cons b bs)
  obtain x w1 s1 where step: "fit_one_block env n_cols b (w, s) = (x, w1, s1)"
    by (metis prod.exhaust)
  have b: "b \<in> set sched" using Cons.prems(2) by simp
  note one = fit_one_block_ok [OF Cons.prems(1) ok b k step h]
  show ?case
  proof (cases x)
    case (Inl e)
    then show ?thesis using Cons.prems(3) step one by simp
  next
    case (Inr y)
    then obtain st lg where "x = Inr (st, lg)" by (cases y) auto
    then have "run_blocks env n_cols (add_block st rep) (w1, s1) bs = (r, w', s')"
      using Cons.prems(3) step by simp
    from Cons.IH [OF _ _ this] one Cons.prems(2) show ?thesis using same_static_trans by auto
  qed
qed simp

lemma close_store:
  assumes w: "writer_ok n_q n_mu sched w s" and run: "close_fit_writer commit io (w, s) = (r, w', s')"
    and n: "fs_n_q s = n_q" "fs_n_mu s = n_mu"
  shows "store_ok n_q n_mu sched s' \<and> same_static s s' \<and> journal_grows s s'"
proof -
  note c = close_fit_writer_ok [OF w run]
  from w obtain led where led: "fs_led s = Some led" and op: "fw_open w" by (auto simp: writer_ok_def)
  have "fs_led s' = fs_led s \<or> fs_led s' = Some (commit_fit_blocks led (fw_pending w))"
    using run led op
    by (auto simp: close_fit_writer_def refresh_ledger_def Let_def open_fit_def
        split: if_splits io_outcome.splits sum.splits)
  then have "journal_grows s s'" using led by (auto simp: journal_grows_def commit_fields)
  then show ?thesis using c same_static_fields [of s s'] n by (auto simp: store_ok_def)
qed

lemma run_epoch_ok:
  assumes ok: "sched_ok n_q n_mu sched" and k: "kernel_finite env sched"
    and h: "wh_n_mu (sp_header (en_src env)) = n_mu"
    and st: "store_ok n_q n_mu sched s" and sub: "set epoch \<subseteq> set sched"
    and run: "run_epoch env n_cols i epoch rep s = (r, s')"
  shows "store_ok n_q n_mu sched s' \<and> same_static s s' \<and> journal_grows s s'"
proof (cases "open_fit_writer True ''a'' s")
  case (Inl e)
  then have "s' = s" using run by (simp add: run_epoch_def)
  then show ?thesis using st by (auto simp: store_ok_def journal_grows_def)
next
  case (Inr w)
  from st obtain led where led: "fs_led s = Some led" "led_ok n_q n_mu sched led"
    and n: "fs_n_q s = n_q" "fs_n_mu s = n_mu" by (auto simp: store_ok_def)
  have w: "writer_ok n_q n_mu sched w s" using open_fit_writer_ok [OF Inr led n] by blast
  have fin: "store_ok n_q n_mu sched s' \<and> same_static s s' \<and> journal_grows s s'"
    if "writer_ok n_q n_mu sched w1 s1" "fs_led s1 = fs_led s" "same_static s s1"
      "close_fit_writer cm (en_io_close env i) (w1, s1) = (x, w2, s')" for w1 s1 cm x w2
  proof -
    have n1: "fs_n_q s1 = n_q" "fs_n_mu s1 = n_mu" using same_static_fields [OF that(3)] n by auto
    from close_store [OF that(1,4) n1] show ?thesis
      using same_static_trans [OF that(3)] that(2) by (auto simp: journal_grows_def)
  qed
  obtain x w1 s1 where blocks: "run_blocks env n_cols (rep\<lparr>cr_opens := cr_opens rep + 1\<rparr>) (w, s) epoch = (x, w1, s1)"
    by (metis prod.exhaust)
  note rb = run_blocks_ok [OF ok k h w sub blocks]
  have "(\<exists>cm x w2. close_fit_writer cm (en_io_close env i) (w, s) = (x, w2, s')) \<or>
     (\<exists>cm x w2. close_fit_writer cm (en_io_close env i) (w1, s1) = (x, w2, s'))"
    using run Inr blocks
    by (auto simp: run_epoch_def abort_epoch_def split: if_splits sum.splits prod.splits; blast)
  then show ?thesis using fin [OF w refl same_static_refl] fin [of w1 s1] rb by blast
qed

lemma run_epochs_ok:
  assumes ok: "sched_ok n_q n_mu sched" and k: "kernel_finite env sched"
    and h: "wh_n_mu (sp_header (en_src env)) = n_mu"
  shows "store_ok n_q n_mu sched s \<Longrightarrow> set (concat es) \<subseteq> set sched \<Longrightarrow>
     run_epochs env n_cols i es rep s = (r, s') \<Longrightarrow>
     store_ok n_q n_mu sched s' \<and> same_static s s' \<and> journal_grows s s'"
proof (induction es arbitrary: i rep s)
  case Nil
  then show ?case by (auto simp: store_ok_def journal_grows_def)
next
  case (Cons e es)
  obtain x s1 where step: "run_epoch env n_cols i e rep s = (x, s1)" by (metis prod.exhaust)
  have sub: "set e \<subseteq> set sched" using Cons.prems(2) by simp
  note one = run_epoch_ok [OF ok k h Cons.prems(1) sub step]
  show ?case
  proof (cases x)
    case (Inl y)
    then show ?thesis using Cons.prems(3) step one by simp
  next
    case (Inr rep')
    then have "run_epochs env n_cols (Suc i) es rep' s1 = (r, s')" using Cons.prems(3) step by simp
    from Cons.IH [OF _ _ this] one Cons.prems(2) show ?thesis
      using same_static_trans journal_grows_trans by auto
  qed
qed

lemma pending_subset: "pending_blocks d bs = Inr (k, ps) \<Longrightarrow> set ps \<subseteq> set bs"
  by (induction d bs arbitrary: k ps rule: pending_blocks.induct) (auto split: if_splits)

lemma matches_extents: "store_matches s n_q n_mu n_p ident ordered \<Longrightarrow>
    fs_n_q s = n_q \<and> fs_n_mu s = n_mu \<and> fs_n_p s = n_p \<and> fs_ordered s = ordered"
  using ledger_Inr [of s] by (auto simp: store_matches_def identity_faults_def split: if_splits)

lemma matches_stamps:
  assumes "store_matches s n_q n_mu n_p ident ordered"
  shows "store_matches (s\<lparr>fs_receipt := x\<rparr>) n_q n_mu n_p ident ordered"
    and "store_matches (s\<lparr>fs_complete := c, fs_utc := u, fs_maxima := m, fs_cert := ct\<rparr>) n_q n_mu n_p ident ordered"
proof -
  from assms obtain lg where lg: "fit_completion_ledger s = Inr lg"
    "identity_faults lg n_q n_mu n_p ident ordered = []" "validate_pole_payload_metadata s lg = Inr ()"
    by (auto simp: store_matches_def)
  have 1: "fit_completion_ledger (s\<lparr>fs_receipt := x\<rparr>) = Inr lg"
    using lg(1) by (simp add: fit_completion_ledger_def open_fit_def has_dataset_def split: option.splits if_splits)
  show "store_matches (s\<lparr>fs_receipt := x\<rparr>) n_q n_mu n_p ident ordered"
    using 1 lg by (auto simp: store_matches_def validate_pole_payload_metadata_def)
  have 2: "fit_completion_ledger (s\<lparr>fs_complete := c, fs_utc := u, fs_maxima := m, fs_cert := ct\<rparr>) =
      Inr (lg\<lparr>lg_complete := c, lg_utc := u, lg_cert := ct\<rparr>)"
    using lg(1) by (auto simp: fit_completion_ledger_def open_fit_def has_dataset_def split: option.splits if_splits)
  show "store_matches (s\<lparr>fs_complete := c, fs_utc := u, fs_maxima := m, fs_cert := ct\<rparr>) n_q n_mu n_p ident ordered"
  proof -
    let ?s = "s\<lparr>fs_complete := c, fs_utc := u, fs_maxima := m, fs_cert := ct\<rparr>"
    let ?lg = "lg\<lparr>lg_complete := c, lg_utc := u, lg_cert := ct\<rparr>"
    have "identity_faults ?lg n_q n_mu n_p ident ordered = identity_faults lg n_q n_mu n_p ident ordered"
      by (simp add: identity_faults_def)
    moreover have "validate_pole_payload_metadata ?s ?lg = validate_pole_payload_metadata s lg"
      by (simp add: validate_pole_payload_metadata_def)
    ultimately show ?thesis unfolding store_matches_def using 2 lg(2,3) by metis
  qed
qed

lemma finalize_keeps:
  assumes "finalize_fit_store cert rh now s = (r, s')"
  shows "s' = s \<or> (\<exists>c u m ct. s' = s\<lparr>fs_complete := c, fs_utc := u, fs_maxima := m, fs_cert := ct\<rparr>)"
proof -
  have "s' = s \<or> (\<exists>u m ct. s' = s\<lparr>fs_complete := True, fs_utc := u, fs_maxima := m, fs_cert := ct\<rparr>)"
    using assms unfolding finalize_fit_store_def Let_def
    by (cases "require_certification cert"; cases "open_fit s";
        cases "if rh then head_fault s else None") (auto split: if_splits)
  then show ?thesis by blast
qed

lemma receipt_keeps:
  "write_fit_io_receipt rep s = (r, s') \<Longrightarrow> s' = s \<or> (\<exists>x. s' = s\<lparr>fs_receipt := x\<rparr>)"
  by (auto simp: write_fit_io_receipt_def Let_def split: sum.splits if_splits)

lemma finish_keeps:
  assumes "finish_fit ordered rcond now secs fin rep s = (r, s')"
  shows "s' = s \<or> (\<exists>x. s' = s\<lparr>fs_receipt := x\<rparr>) \<or>
    (\<exists>c u m ct. s' = s\<lparr>fs_complete := c, fs_utc := u, fs_maxima := m, fs_cert := ct\<rparr>)"
proof -
  obtain rf sf where f: "finalize_fit_store (Some (fit_certification rcond)) False now s = (rf, sf)"
    by (metis prod.exhaust)
  obtain rr sr where g: "write_fit_io_receipt (report_receipt ordered rep secs) s = (rr, sr)"
    by (metis prod.exhaust)
  have "s' = s \<or> s' = sf \<or> s' = sr"
    using assms f g by (auto simp: finish_fit_def split: sum.splits if_splits)
  then show ?thesis using finalize_keeps [OF f] receipt_keeps [OF g] by blast
qed

lemma allocate_ok:
  assumes "allocate_fit_store n_q n_mu n_p ident ordered ''w'' = Inr s"
  shows "store_matches s n_q n_mu n_p ident ordered \<and> store_ok n_q n_mu sched s \<and> \<not> fs_complete s \<and>
    fs_led s = Some \<lparr>fl_done = bm_zero n_q n_mu, fl_journal = [], fl_cond = [], fl_berr = [],
                    fl_keys = Some PERSISTED_DIAGNOSTICS\<rparr> \<and> fs_receipt s = None"
proof -
  let ?pole = "([n_p, n_q, n_mu, n_mu], ''complex128'')"
  have s: "s = initialise_fit_metadata n_q n_mu n_p ident (Some PERSISTED_DIAGNOSTICS) ordered
      ([(''Omega_p'', ?pole), (''B_p'', ?pole)] @ (if ordered then [(''B_odd_p'', ?pole)] else []) @
       map (\<lambda>k. (''fit_'' @ k, [n_q, n_mu, n_mu], ''float64'')) PERSISTED_DIAGNOSTICS)"
    using assms by (auto simp: allocate_fit_store_def Let_def split: if_splits)
  have sort: "sort PERSISTED_DIAGNOSTICS = PERSISTED_DIAGNOSTICS" by (simp add: PERSISTED_DIAGNOSTICS_def)
  have odd: "has_dataset s ''B_odd_p'' = ordered"
    by (simp add: s has_dataset_def initialise_fit_metadata_def PERSISTED_DIAGNOSTICS_def)
  have lg: "\<exists>lg. fit_completion_ledger s = Inr lg \<and> identity_faults lg n_q n_mu n_p ident ordered = [] \<and>
      validate_pole_payload_metadata s lg = Inr ()"
    using odd sort
    by (cases ordered; simp add: fit_completion_ledger_def open_fit_def;
        simp add: s Let_def initialise_fit_metadata_def identity_faults_def validate_pole_payload_metadata_def
          PERSISTED_DIAGNOSTICS_def MPA_FIT_FORMAT_VERSION_def)
  show ?thesis
    using lg sort by (simp add: store_matches_def store_ok_def s initialise_fit_metadata_def led_ok_def)
qed

definition run_contract ::
    "'v fit_env \<Rightarrow> (string \<times> string) list \<Rightarrow> (string \<times> string) list \<Rightarrow> (string \<times> string) list option \<Rightarrow>
     (fit_block list \<times> fit_identity) option" where
  "run_contract env provenance solver_prov occ =
     (let src = en_src env; h = sp_header src in
      case bind_sample_identities (id_prov (sp_ident src))
             (map_option (\<lambda>g. id_prov (sp_ident g)) (en_neg env)) provenance of
        Inl _ \<Rightarrow> None
      | Inr bound \<Rightarrow>
        (case fit_schedule (wh_n_q h) (wh_n_mu h) (wh_n_omega h * (if en_neg env \<noteq> None then 2 else 1))
                (en_tile_bytes env) of
           Inl _ \<Rightarrow> None
         | Inr sched \<Rightarrow> Some (sched, fit_identity_of src
             (filter (\<lambda>kv. fst kv \<notin> fst ` set solver_prov) bound @ solver_prov) occ)))"

text \<open>A store the next run of the same environment accepts as its own partial fit.\<close>

definition resumable ::
    "'v fit_env \<Rightarrow> (string \<times> string) list \<Rightarrow> (string \<times> string) list \<Rightarrow> (string \<times> string) list option \<Rightarrow>
     'v fit_store \<Rightarrow> bool" where
  "resumable env provenance solver_prov occ s =
     (case run_contract env provenance solver_prov occ of
        None \<Rightarrow> False
      | Some (sched, ident) \<Rightarrow>
        (case validate_fit_store_for_resume s (wh_n_q (sp_header (en_src env))) (wh_n_mu (sp_header (en_src env)))
                (en_n_p env) ident (en_neg env \<noteq> None) sched of
           Inl _ \<Rightarrow> False | Inr _ \<Rightarrow> True))"

lemma run_contract_sched:
  "run_contract env provenance solver_prov occ = Some (sched, ident) \<Longrightarrow>
   sched_ok (wh_n_q (sp_header (en_src env))) (wh_n_mu (sp_header (en_src env))) sched"
  using fit_schedule_ok by (auto simp: run_contract_def Let_def split: sum.splits)

lemma resumable_iff:
  assumes "run_contract env provenance solver_prov occ = Some (sched, ident)"
    and "n_q = wh_n_q (sp_header (en_src env))" "n_mu = wh_n_mu (sp_header (en_src env))"
  shows "resumable env provenance solver_prov occ s \<longleftrightarrow>
     store_matches s n_q n_mu (en_n_p env) ident (en_neg env \<noteq> None) \<and> store_ok n_q n_mu sched s"
proof -
  have sched: "sched_ok n_q n_mu sched" using run_contract_sched [OF assms(1)] assms(2,3) by simp
  have "resumable env provenance solver_prov occ s \<longleftrightarrow>
      (\<exists>lg. validate_fit_store_for_resume s n_q n_mu (en_n_p env) ident (en_neg env \<noteq> None) sched = Inr lg)"
    using assms by (auto simp: resumable_def split: sum.splits)
  then show ?thesis
    using resume_iff [OF sched, of s "en_n_p env" ident "en_neg env \<noteq> None"]
      matches_extents [of s n_q n_mu "en_n_p env" ident "en_neg env \<noteq> None"]
    by (auto simp: store_ok_def)
qed

lemma walk_store_ok:
  assumes "sched_ok n_q n_mu sched" "kernel_finite env sched" "wh_n_mu (sp_header (en_src env)) = n_mu"
    and st: "store_ok n_q n_mu sched s" and run: "walk_store env n_cols sched lg s = (r, s')"
  shows "store_ok n_q n_mu sched s' \<and> same_static s s' \<and> journal_grows s s'"
proof (cases "pending_blocks (lg_done lg) sched")
  case (Inl e)
  then show ?thesis using run st by (auto simp: walk_store_def store_ok_def journal_grows_def)
next
  case (Inr kp)
  obtain k ps where kp: "kp = (k, ps)" by (cases kp)
  have "set (concat (chunks (nat FIT_IO_CHECKPOINT_BLOCKS) ps)) \<subseteq> set sched"
    using pending_subset [OF Inr [unfolded kp]] by (simp add: concat_chunks FIT_IO_CHECKPOINT_BLOCKS_def)
  then show ?thesis
    using run_epochs_ok [OF assms(1-3) st] run unfolding walk_store_def Inr kp sum.case prod.case Let_def by blast
qed

text \<open>The driver seen as its three stages: what it starts from, the walk, the finish.\<close>

lemma start_store_cases:
  assumes "start_store overwrite n_q n_mu n_p ident ordered sched dest = Inr (lg, s)"
  shows "fit_completion_ledger s = Inr lg \<and>
    ((dest = Some s \<and> \<not> fs_complete s \<and>
      validate_fit_store_for_resume s n_q n_mu n_p ident ordered sched = Inr lg) \<or>
     ((dest = None \<or> overwrite) \<and>
      (\<forall>s0 l. dest = Some s0 \<longrightarrow> validate_fit_store_for_resume s0 n_q n_mu n_p ident ordered sched = Inr l \<longrightarrow>
          fs_complete s0) \<and>
      allocate_fit_store n_q n_mu n_p ident ordered ''w'' = Inr s))"
proof -
  have vl: "fit_completion_ledger s0 = Inr l \<and> lg_complete l = fs_complete s0"
    if "validate_fit_store_for_resume s0 n_q n_mu n_p ident ordered sched = Inr l" for s0 :: "'a fit_store" and l
    using that ledger_Inr [of s0 l] by (auto simp: validate_fit_store_for_resume_def Let_def split: if_splits)
  show ?thesis
  proof (cases dest)
    case None
    then show ?thesis using assms by (auto simp: start_store_def split: sum.splits)
  next
    case (Some s0)
    then show ?thesis
      using assms vl [of s0] by (auto simp: start_store_def split: sum.splits if_splits)
  qed
qed

lemma run_fit_driver_stages:
  assumes run: "run_fit_driver env rcond prov solver_prov occ overwrite fin now secs dest = (r, dest')"
    and c: "run_contract env prov solver_prov occ = Some (sched, ident)"
  shows "dest' = dest \<and> (\<exists>e. r = Inl e) \<or> (\<exists>start plan s'.
     start_store overwrite (wh_n_q (sp_header (en_src env))) (wh_n_mu (sp_header (en_src env))) (en_n_p env) ident
       (en_neg env \<noteq> None) sched dest = Inr start \<and>
     plan_column_walk (wh_n_mu (sp_header (en_src env)))
       (wh_n_omega (sp_header (en_src env)) * (if en_neg env \<noteq> None then 2 else 1)) (en_tile_bytes env) = Inr plan \<and>
     walk_and_finish env (cw_n_cols plan) sched rcond fin now secs start = (r, s') \<and> dest' = Some s')"
  using run c unfolding run_fit_driver_def run_contract_def Let_def
  by (auto split: if_split_asm sum.split_asm prod.split_asm option.split_asm)


section \<open>A run without faults completes the store\<close>

definition good_block :: "'v fit_env \<Rightarrow> fit_block \<Rightarrow> 'v block_arg \<Rightarrow> bool" where
  "good_block env b out \<longleftrightarrow>
     ba_finite out \<and> xf_finite (ba_cond out) \<and> xf_finite (ba_berr out) \<and>
     (ba_odd out \<noteq> None) = (en_neg env \<noteq> None) \<and>
     (case ar_shape (ba_omega out) of
        [n_p, one, rows, width] \<Rightarrow>
          n_p = en_n_p env \<and> one = 1 \<and> wh_n_mu (sp_header (en_src env)) \<le> rows \<and>
          snd (snd b) - fst (snd b) \<le> width \<and> ar_layout (ba_omega out) \<and>
          ba_b out = ba_omega out \<and> (\<forall>d\<in>set_option (ba_odd out). d = ba_omega out) \<and>
          map fst (ba_diag out) = PERSISTED_DIAGNOSTICS \<and>
          list_all (\<lambda>(k, a). ar_shape a = [1, rows, width] \<and> ar_layout a) (ba_diag out)
      | _ \<Rightarrow> False)"

definition calm :: "'v fit_env \<Rightarrow> fit_block list \<Rightarrow> bool" where
  "calm env sched \<longleftrightarrow>
     (\<forall>b\<in>set sched. (case en_kernel env b of None \<Rightarrow> False | Some out \<Rightarrow> good_block env b out) \<and>
        en_io_write env b = Landed) \<and>
     (\<forall>k. en_io_close env k = Landed \<and> en_reader_opens env k \<and> en_reader_closes env k)"

text \<open>The samples are complete and are the ones the grid was evaluated on.\<close>

definition samples_ready :: "sample_src \<Rightarrow> int \<Rightarrow> bool" where
  "samples_ready src n_p \<longleftrightarrow> wh_n_ready (sp_header src) = wh_n_omega (sp_header src) \<and>
     wh_n_omega (sp_header src) = 2 * n_p \<and> int (length (sp_omega src)) = 2 * n_p \<and> 1 \<le> n_p"

definition env_ready :: "'v fit_env \<Rightarrow> bool" where
  "env_ready env \<longleftrightarrow> samples_ready (en_src env) (en_n_p env) \<and> en_z env = sp_omega (en_src env) \<and>
     1 \<le> wh_n_q (sp_header (en_src env)) \<and>
     (\<exists>u. id_unit (sp_ident (en_src env)) = Some u \<and> u \<in> fst ` set FIT_ENERGY_UNITS) \<and>
     (\<forall>neg\<in>set_option (en_neg env). negative_ok (en_src env) neg (en_z env) \<and>
        wh_n_ready (sp_header neg) = wh_n_omega (sp_header neg))"

definition land_all :: "'v fit_env \<Rightarrow> fit_block list \<Rightarrow> (int \<times> int \<Rightarrow> 'v option) \<Rightarrow> int \<times> int \<Rightarrow> 'v option" where
  "land_all env bs pl = fold (\<lambda>(q, lo, hi) p. land_block p q [lo..hi - 1] (ba_data (the (en_kernel env (q, lo, hi))))) bs pl"

lemma diag_fault_None:
  "list_all (\<lambda>(k, a). ar_shape a = [1, rows, width] \<and> ar_layout a) ds \<Longrightarrow> diag_fault rows width ds = None"
  by (induction rows width ds rule: diag_fault.induct) auto

lemma good_block_no_fault:
  assumes g: "good_block env (q, lo, hi) out" and lt: "lo < hi"
    and w: "fw_ordered w = (en_neg env \<noteq> None)" "fw_keys w = PERSISTED_DIAGNOSTICS"
      "lg_n_p (fw_ledger w) = en_n_p env" "lg_n_mu (fw_ledger w) = wh_n_mu (sp_header (en_src env))"
  shows "block_fault w (out\<lparr>ba_q := q, ba_cols := cs\<rparr>) [lo..hi - 1] = None"
proof -
  from g obtain n_p rows width where sh: "ar_shape (ba_omega out) = [n_p, 1, rows, width]"
    and f: "n_p = en_n_p env" "wh_n_mu (sp_header (en_src env)) \<le> rows" "hi - lo \<le> width"
      "ar_layout (ba_omega out)" "ba_b out = ba_omega out" "\<forall>d\<in>set_option (ba_odd out). d = ba_omega out"
      "map fst (ba_diag out) = PERSISTED_DIAGNOSTICS"
      "list_all (\<lambda>(k, a). ar_shape a = [1, rows, width] \<and> ar_layout a) (ba_diag out)"
    and odd: "(ba_odd out \<noteq> None) = (en_neg env \<noteq> None)"
    by (auto simp: good_block_def split: list.splits)
  have sort: "sort PERSISTED_DIAGNOSTICS = PERSISTED_DIAGNOSTICS" by (simp add: PERSISTED_DIAGNOSTICS_def)
  show ?thesis
    using sh f odd w lt sort diag_fault_None [OF f(8)]
    by (cases "ba_odd out") (simp_all add: block_fault_def Let_def)
qed

text \<open>The reader accepts every scheduled block, at the buffer width of the plan.\<close>

lemma reader_read_ok:
  assumes plan: "choose_column_budget n_mu n_om tb COMPLEX128_BYTES = Inr w"
    and le: "wh_n_omega h \<le> n_om" "1 \<le> wh_n_omega h"
    and h: "wh_n_mu h = n_mu" "wh_n_ready h = wh_n_omega h"
    and b: "0 \<le> q" "q < wh_n_q h" "0 \<le> lo" "lo < hi" "hi \<le> n_mu" "hi - lo \<le> w"
  shows "reader_read h q (Columns [lo..hi - 1]) w tb = Inr [lo..hi - 1]"
proof -
  have pos: "1 \<le> n_mu" "1 \<le> n_om" using choose_column_budget_Inr [OF plan] by auto
  define bud where "bud = (case tb of None \<Rightarrow> one_tile_bytes n_mu COMPLEX128_BYTES | Some t \<Rightarrow> t)"
  have w: "w = max 1 (min n_mu (bud div (n_om * n_mu * COMPLEX128_BYTES)))" and bud: "1 \<le> bud"
    using plan by (auto simp: choose_column_budget_def bud_def Let_def split: if_splits)
  define v where "v = max 1 (min n_mu (bud div (wh_n_omega h * n_mu * COMPLEX128_BYTES)))"
  have v: "choose_column_budget n_mu (wh_n_omega h) tb COMPLEX128_BYTES = Inr v"
    using pos le bud by (auto simp: choose_column_budget_def bud_def v_def Let_def)
  have "wh_n_omega h * n_mu * COMPLEX128_BYTES \<le> n_om * n_mu * COMPLEX128_BYTES"
    using le pos by (simp add: COMPLEX128_BYTES_def mult_right_mono)
  moreover have "0 < wh_n_omega h * n_mu * COMPLEX128_BYTES" using le pos by (simp add: COMPLEX128_BYTES_def)
  ultimately have "bud div (n_om * n_mu * COMPLEX128_BYTES) \<le> bud div (wh_n_omega h * n_mu * COMPLEX128_BYTES)"
    using bud by (intro zdiv_mono2) auto
  then have wv: "w \<le> v" unfolding w v_def by (simp add: max_def min_def)
  define cs where "cs = [lo..hi - 1]"
  have cs: "normalise_columns (Columns cs) n_mu = Inr cs" "int (length cs) = hi - lo"
    unfolding cs_def using normalise_block [OF b(3-5)] b by simp_all
  have "hd cs = lo" unfolding cs_def using b by (simp add: upto_rec1)
  moreover have "last cs = hi - 1" unfolding cs_def using b by (simp add: upto_rec2)
  ultimately have span: "column_span cs = (lo, hi, None)" using cs(2) by (simp add: column_span_def)
  have "validate_column_request h q (Columns cs) tb True = Inr (q, cs, v)"
    unfolding validate_column_request_def h cs(1) v andthen_simps cs(2) using b wv by simp
  then have "reader_read h q (Columns cs) w tb = Inr cs"
    unfolding reader_read_def using span cs(2) b wv by simp
  then show ?thesis by (simp add: cs_def)
qed

lemma normalise_again:
  "0 \<le> lo \<Longrightarrow> lo < hi \<Longrightarrow> hi \<le> n_mu \<Longrightarrow> normalise_columns (Columns [lo..hi - 1]) n_mu = Inr [lo..hi - 1] \<and>
   column_span [lo..hi - 1] = (lo, hi, None)"
proof -
  assume b: "0 \<le> lo" "lo < hi" "hi \<le> n_mu"
  have "hd [lo..hi - 1] = lo" using b by (simp add: upto_rec1)
  moreover have "last [lo..hi - 1] = hi - 1" using b by (simp add: upto_rec2)
  ultimately show ?thesis using normalise_block [OF b] b by (simp add: column_span_def)
qed

definition parts :: "'v fit_env \<Rightarrow> int" where
  "parts env = (if en_neg env \<noteq> None then 2 else 1)"

definition quiet :: "'v fit_env \<Rightarrow> fit_block list \<Rightarrow> int \<Rightarrow> bool" where
  "quiet env sched n_cols \<longleftrightarrow> env_ready env \<and> calm env sched \<and>
     sched_ok (wh_n_q (sp_header (en_src env))) (wh_n_mu (sp_header (en_src env))) sched \<and>
     choose_column_budget (wh_n_mu (sp_header (en_src env))) (wh_n_omega (sp_header (en_src env)) * parts env)
       (en_tile_bytes env) COMPLEX128_BYTES = Inr n_cols \<and>
     (\<forall>b\<in>set sched. snd (snd b) - fst (snd b) \<le> n_cols)"

definition writer_set :: "'v fit_env \<Rightarrow> fit_writer \<Rightarrow> bool" where
  "writer_set env w \<longleftrightarrow> fw_ordered w = (en_neg env \<noteq> None) \<and> fw_keys w = PERSISTED_DIAGNOSTICS \<and>
     lg_n_p (fw_ledger w) = en_n_p env"

definition kernel_data :: "'v fit_env \<Rightarrow> fit_block \<Rightarrow> nat \<Rightarrow> 'v" where
  "kernel_data env b = ba_data (the (en_kernel env b))"

lemma journal_not_covering:
  assumes "sched_ok n m sched" "set js \<subseteq> set sched" "(q, lo, hi) \<in> set sched" "(q, lo, hi) \<notin> set js"
    and "lo \<le> c" "c < hi"
  shows "\<not> covers js q c"
proof
  assume "covers js q c"
  then obtain l h where j: "(q, l, h) \<in> set js" "l \<le> c" "c < h" by (auto simp: covers_def)
  then have "apart (q, lo, hi) (q, l, h)" using sched_ok_apart [OF assms(1,3), of "(q, l, h)"] assms(2,4) by auto
  then show False using j assms(5,6) by (auto simp: apart_def)
qed

lemma quiet_read:
  assumes qt: "quiet env sched n_cols" and b: "(q, lo, hi) \<in> set sched"
  shows "reader_read (sp_header (en_src env)) q (Columns [lo..hi - 1]) n_cols (en_tile_bytes env) = Inr [lo..hi - 1]"
    and "en_neg env = Some neg \<Longrightarrow>
      reader_read (sp_header neg) q (Columns [lo..hi - 1]) n_cols (en_tile_bytes env) = Inr [lo..hi - 1]"
proof -
  let ?h = "sp_header (en_src env)"
  have bin: "0 \<le> q" "q < wh_n_q ?h" "0 \<le> lo" "lo < hi" "hi \<le> wh_n_mu ?h" "hi - lo \<le> n_cols"
    using qt b sched_ok_in [of "wh_n_q ?h" "wh_n_mu ?h" sched "(q, lo, hi)"] by (auto simp: quiet_def block_in_def)
  have plan: "choose_column_budget (wh_n_mu ?h) (wh_n_omega ?h * parts env) (en_tile_bytes env) COMPLEX128_BYTES = Inr n_cols"
    using qt by (simp add: quiet_def)
  have om: "1 \<le> wh_n_omega ?h" "wh_n_omega ?h \<le> wh_n_omega ?h * parts env"
    using qt by (auto simp: quiet_def env_ready_def samples_ready_def parts_def)
  have ready: "wh_n_ready ?h = wh_n_omega ?h" using qt by (auto simp: quiet_def env_ready_def samples_ready_def)
  show "reader_read ?h q (Columns [lo..hi - 1]) n_cols (en_tile_bytes env) = Inr [lo..hi - 1]"
    by (rule reader_read_ok [OF plan om(2,1) refl ready bin])
  assume neg: "en_neg env = Some neg"
  then have n: "wh_n_mu (sp_header neg) = wh_n_mu ?h" "wh_n_omega (sp_header neg) = wh_n_omega ?h"
    "wh_n_q (sp_header neg) = wh_n_q ?h" "wh_n_ready (sp_header neg) = wh_n_omega (sp_header neg)"
    using qt by (auto simp: quiet_def env_ready_def negative_ok_def)
  show "reader_read (sp_header neg) q (Columns [lo..hi - 1]) n_cols (en_tile_bytes env) = Inr [lo..hi - 1]"
    by (rule reader_read_ok [OF plan]) (use om bin n in auto)
qed

lemma fit_one_block_good:
  assumes qt: "quiet env sched n_cols" and b: "(q, lo, hi) \<in> set sched"
    and w: "writer_ok (wh_n_q (sp_header (en_src env))) (wh_n_mu (sp_header (en_src env))) sched w s"
    and ws: "writer_set env w" and fresh: "(q, lo, hi) \<notin> set (lg_journal (fw_ledger w))"
  shows "\<exists>st lg w' c e. fit_one_block env n_cols (q, lo, hi) (w, s) = (Inr (st, lg), w',
        s\<lparr>fs_payload := land_block (fs_payload s) q [lo..hi - 1] (kernel_data env (q, lo, hi))\<rparr>) \<and>
      bs_reads st = parts env \<and> writer_set env w' \<and>
      lg_journal (fw_ledger w') = lg_journal (fw_ledger w) @ [(q, lo, hi)] \<and>
      fw_pending w' = fw_pending w @ [(q, [lo..hi - 1], lo, hi, c, e)]"
proof -
  let ?h = "sp_header (en_src env)" and ?cs = "[lo..hi - 1]"
  have sched: "sched_ok (wh_n_q ?h) (wh_n_mu ?h) sched" using qt by (simp add: quiet_def)
  have bin: "0 \<le> q" "q < wh_n_q ?h" "0 \<le> lo" "lo < hi" "hi \<le> wh_n_mu ?h"
    using sched_ok_in [OF sched b] by (auto simp: block_in_def)
  note nb = normalise_again [OF bin(3-5)]
  from qt b obtain out where out: "en_kernel env (q, lo, hi) = Some out" "good_block env (q, lo, hi) out"
    and io: "en_io_write env (q, lo, hi) = Landed"
    by (fastforce simp: quiet_def calm_def split: option.splits)
  let ?a = "out\<lparr>ba_q := q, ba_cols := Columns ?cs\<rparr>"
  from w obtain led where c: "fw_open w" "lg_n_q (fw_ledger w) = wh_n_q ?h" "lg_n_mu (fw_ledger w) = wh_n_mu ?h"
      "led_ok (wh_n_q ?h) (wh_n_mu ?h) sched (commit_fit_blocks led (fw_pending w))"
      "lg_done (fw_ledger w) = fl_done (commit_fit_blocks led (fw_pending w))"
      "lg_journal (fw_ledger w) = fl_journal (commit_fit_blocks led (fw_pending w))"
    by (auto simp: writer_ok_def Let_def)
  have none: "\<not> bm_get (lg_done (fw_ledger w)) q x" if "lo \<le> x" "x < hi" for x
    using c(4-6) bin that journal_not_covering [OF sched _ b fresh that] by (auto simp: led_ok_def)
  have already: "filter (bm_get (lg_done (fw_ledger w)) q) ?cs = []" using none by (auto simp: filter_empty_conv)
  have bf: "block_fault w ?a ?cs = None"
    using good_block_no_fault [OF out(2) bin(4)] ws c(3) by (simp add: writer_set_def)
  have fin: "ba_finite out" using out(2) by (simp add: good_block_def)
  have "\<exists>lg w'. write_block ?a Landed (w, s) = (Inr lg, w',
      s\<lparr>fs_payload := land_block (fs_payload s) q ?cs (ba_data out)\<rparr>) \<and>
      fw_pending w' = fw_pending w @ [(q, ?cs, lo, hi, ba_cond out, ba_berr out)] \<and>
      lg_journal (fw_ledger w') = lg_journal (fw_ledger w) @ [(q, lo, hi)] \<and> writer_set env w'"
    using c(1-3) bin(1,2) nb already bf fin ws by (simp add: write_block_def writer_set_def Let_def)
  then obtain lg w' where wr: "write_block ?a Landed (w, s) = (Inr lg, w',
      s\<lparr>fs_payload := land_block (fs_payload s) q ?cs (ba_data out)\<rparr>)"
    and w': "fw_pending w' = fw_pending w @ [(q, ?cs, lo, hi, ba_cond out, ba_berr out)]"
      "lg_journal (fw_ledger w') = lg_journal (fw_ledger w) @ [(q, lo, hi)]" "writer_set env w'"
    by blast
  have z: "int (length (en_z env)) = 2 * en_n_p env" "wh_n_omega ?h = 2 * en_n_p env"
    using qt by (auto simp: quiet_def env_ready_def samples_ready_def)
  have read: "andthen (reader_read ?h q (Columns ?cs) n_cols (en_tile_bytes env)) (\<lambda>_.
       case en_neg env of None \<Rightarrow> Inr []
       | Some neg \<Rightarrow> reader_read (sp_header neg) q (Columns ?cs) n_cols (en_tile_bytes env)) =
     Inr (case en_neg env of None \<Rightarrow> [] | Some _ \<Rightarrow> ?cs)"
    using quiet_read [OF qt b] by (cases "en_neg env") auto
  have "fit_one_block env n_cols (q, lo, hi) (w, s) =
    (Inr (\<lparr>bs_n_cols = int (length ?cs), bs_n_elements = wh_n_mu ?h * int (length ?cs),
          bs_bytes_read = parts env * wh_n_omega ?h * wh_n_mu ?h * int (length ?cs) * COMPLEX128_BYTES,
          bs_reads = parts env\<rparr>, lg), w', s\<lparr>fs_payload := land_block (fs_payload s) q ?cs (ba_data out)\<rparr>)"
    unfolding fit_one_block_def prod.case Let_def conjunct1 [OF nb] sum.case read parts_def
    using z out io wr by simp
  then show ?thesis using w' out(1) by (auto simp: kernel_data_def)
qed

lemma run_blocks_good:
  assumes qt: "quiet env sched n_cols"
  shows "writer_ok (wh_n_q (sp_header (en_src env))) (wh_n_mu (sp_header (en_src env))) sched w s \<Longrightarrow>
     writer_set env w \<Longrightarrow> set bs \<subseteq> set sched \<Longrightarrow> distinct bs \<Longrightarrow> set bs \<inter> set (lg_journal (fw_ledger w)) = {} \<Longrightarrow>
     \<exists>rep' w' rs. run_blocks env n_cols rep (w, s) bs = (Inr rep', w', s\<lparr>fs_payload := land_all env bs (fs_payload s)\<rparr>) \<and>
       cr_walked rep' = cr_walked rep + int (length bs) \<and> cr_reads rep' = cr_reads rep + int (length bs) * parts env \<and>
       cr_skipped rep' = cr_skipped rep \<and> cr_epochs_planned rep' = cr_epochs_planned rep \<and>
       cr_epochs_committed rep' = cr_epochs_committed rep \<and> cr_opens rep' = cr_opens rep \<and> cr_closes rep' = cr_closes rep \<and>
       fw_pending w' = fw_pending w @ rs \<and> map rec_block rs = bs"
proof (induction bs arbitrary: rep w s)
  case Nil
  then show ?case by (auto simp: land_all_def)
next
  case (Cons b bs)
  obtain q lo hi where e: "b = (q, lo, hi)" by (cases b)
  have b: "(q, lo, hi) \<in> set sched" "(q, lo, hi) \<notin> set (lg_journal (fw_ledger w))" using Cons.prems e by auto
  let ?pl = "land_block (fs_payload s) q [lo..hi - 1] (kernel_data env b)"
  from fit_one_block_good [OF qt b(1) Cons.prems(1,2) b(2)] obtain st lg w1 c x where
    one: "fit_one_block env n_cols b (w, s) = (Inr (st, lg), w1, s\<lparr>fs_payload := ?pl\<rparr>)"
    and f: "bs_reads st = parts env" "writer_set env w1"
      "lg_journal (fw_ledger w1) = lg_journal (fw_ledger w) @ [b]"
      "fw_pending w1 = fw_pending w @ [(q, [lo..hi - 1], lo, hi, c, x)]"
    unfolding e by blast
  have kf: "kernel_finite env sched"
    using qt by (fastforce simp: quiet_def calm_def kernel_finite_def good_block_def split: option.splits)
  have w1: "writer_ok (wh_n_q (sp_header (en_src env))) (wh_n_mu (sp_header (en_src env))) sched w1 (s\<lparr>fs_payload := ?pl\<rparr>)"
    using fit_one_block_ok [OF Cons.prems(1) _ _ kf one refl] qt b e by (simp add: quiet_def)
  have "set bs \<inter> set (lg_journal (fw_ledger w1)) = {}" using Cons.prems f(3) by auto
  from Cons.IH [OF w1 f(2) _ _ this, of "add_block st rep"] Cons.prems obtain rep' w' rs where
    IH: "run_blocks env n_cols (add_block st rep) (w1, s\<lparr>fs_payload := ?pl\<rparr>) bs =
        (Inr rep', w', s\<lparr>fs_payload := land_all env bs ?pl\<rparr>)"
      "cr_walked rep' = cr_walked rep + 1 + int (length bs)"
      "cr_reads rep' = cr_reads rep + parts env + int (length bs) * parts env"
      "cr_skipped rep' = cr_skipped rep" "cr_epochs_planned rep' = cr_epochs_planned rep"
      "cr_epochs_committed rep' = cr_epochs_committed rep" "cr_opens rep' = cr_opens rep" "cr_closes rep' = cr_closes rep"
      "fw_pending w' = fw_pending w1 @ rs" "map rec_block rs = bs"
    using f(1) by (auto simp: add_block_def)
  have land: "land_all env (b # bs) (fs_payload s) = land_all env bs ?pl"
    by (simp add: land_all_def e kernel_data_def)
  have rb: "rec_block (q, [lo..hi - 1], lo, hi, c, x) = b" by (simp add: rec_block_def e)
  show ?case
    by (rule exI [of _ rep'], rule exI [of _ w'], rule exI [of _ "(q, [lo..hi - 1], lo, hi, c, x) # rs"])
       (use one IH f(4) land rb in \<open>simp add: algebra_simps\<close>)
qed

definition ready_store :: "'v fit_env \<Rightarrow> fit_identity \<Rightarrow> fit_block list \<Rightarrow> 'v fit_store \<Rightarrow> bool" where
  "ready_store env ident sched s \<longleftrightarrow> \<not> fs_complete s \<and>
     store_matches s (wh_n_q (sp_header (en_src env))) (wh_n_mu (sp_header (en_src env))) (en_n_p env) ident (en_neg env \<noteq> None) \<and>
     store_ok (wh_n_q (sp_header (en_src env))) (wh_n_mu (sp_header (en_src env))) sched s"

definition store_journal :: "'v fit_store \<Rightarrow> fit_block list" where
  "store_journal s = (case fs_led s of None \<Rightarrow> [] | Some led \<Rightarrow> fl_journal led)"

lemma ready_opens:
  assumes "ready_store env ident sched s"
  obtains w where "open_fit_writer True ''a'' s = Inr w" "writer_set env w" "fw_pending w = []"
    "writer_ok (wh_n_q (sp_header (en_src env))) (wh_n_mu (sp_header (en_src env))) sched w s"
    "lg_journal (fw_ledger w) = store_journal s"
proof -
  let ?h = "sp_header (en_src env)"
  from assms obtain lg where lg: "fit_completion_ledger s = Inr lg"
    and f: "identity_faults lg (wh_n_q ?h) (wh_n_mu ?h) (en_n_p env) ident (en_neg env \<noteq> None) = []"
    and nc: "\<not> fs_complete s" and st: "store_ok (wh_n_q ?h) (wh_n_mu ?h) sched s"
    and m: "store_matches s (wh_n_q ?h) (wh_n_mu ?h) (en_n_p env) ident (en_neg env \<noteq> None)"
    by (auto simp: ready_store_def store_matches_def)
  have keys: "lg_keys lg = Some PERSISTED_DIAGNOSTICS" using f by (auto simp: identity_faults_def split: if_splits)
  have nlc: "\<not> lg_complete lg" using ledger_Inr [OF lg] nc by auto
  obtain w where w: "open_fit_writer True ''a'' s = Inr w" and fl: "fw_ledger w = lg"
    using lg keys nlc by (simp add: open_fit_writer_def)
  from st obtain led where led: "fs_led s = Some led" "led_ok (wh_n_q ?h) (wh_n_mu ?h) sched led"
    "fs_n_q s = wh_n_q ?h" "fs_n_mu s = wh_n_mu ?h" by (auto simp: store_ok_def)
  note o = open_fit_writer_ok [OF w led]
  have "lg_journal lg = store_journal s" using ledger_Inr [OF lg] led(1) by (auto simp: store_journal_def)
  then show thesis using that [OF w] o matches_extents [OF m] fl by (auto simp: writer_set_def)
qed

lemma run_epoch_good:
  assumes qt: "quiet env sched n_cols" and rs: "ready_store env ident sched s"
    and e: "set epoch \<subseteq> set sched" "distinct epoch" "set epoch \<inter> set (store_journal s) = {}"
  shows "\<exists>rep' s'. run_epoch env n_cols k epoch rep s = (Inr rep', s') \<and> ready_store env ident sched s' \<and>
     same_static s s' \<and> store_journal s' = store_journal s @ epoch \<and> fs_payload s' = land_all env epoch (fs_payload s) \<and>
     cr_walked rep' = cr_walked rep + int (length epoch) \<and> cr_reads rep' = cr_reads rep + int (length epoch) * parts env \<and>
     cr_skipped rep' = cr_skipped rep \<and> cr_epochs_planned rep' = cr_epochs_planned rep \<and>
     cr_epochs_committed rep' = cr_epochs_committed rep + 1 \<and> cr_opens rep' = cr_opens rep + 1 \<and>
     cr_closes rep' = cr_closes rep + 1"
proof -
  let ?h = "sp_header (en_src env)"
  from ready_opens [OF rs] obtain w where w: "open_fit_writer True ''a'' s = Inr w" "writer_set env w"
    "fw_pending w = []" "writer_ok (wh_n_q ?h) (wh_n_mu ?h) sched w s" "lg_journal (fw_ledger w) = store_journal s" .
  let ?s1 = "s\<lparr>fs_payload := land_all env epoch (fs_payload s)\<rparr>"
  from run_blocks_good [OF qt w(4,2) e(1,2), of "rep\<lparr>cr_opens := cr_opens rep + 1\<rparr>"] e(3) w(5)
  obtain rep1 w1 ps where rb: "run_blocks env n_cols (rep\<lparr>cr_opens := cr_opens rep + 1\<rparr>) (w, s) epoch = (Inr rep1, w1, ?s1)"
    and cnt: "cr_walked rep1 = cr_walked rep + int (length epoch)"
      "cr_reads rep1 = cr_reads rep + int (length epoch) * parts env" "cr_skipped rep1 = cr_skipped rep"
      "cr_epochs_planned rep1 = cr_epochs_planned rep" "cr_epochs_committed rep1 = cr_epochs_committed rep"
      "cr_opens rep1 = cr_opens rep + 1" "cr_closes rep1 = cr_closes rep"
    and ps: "fw_pending w1 = fw_pending w @ ps" "map rec_block ps = epoch"
    by auto
  have kf: "kernel_finite env sched"
    using qt by (fastforce simp: quiet_def calm_def kernel_finite_def good_block_def split: option.splits)
  have sched: "sched_ok (wh_n_q ?h) (wh_n_mu ?h) sched" using qt by (simp add: quiet_def)
  note w1 = run_blocks_ok [OF sched kf refl w(4) e(1) rb]
  from w1 obtain led where led: "fs_led s = Some led" and op: "fw_open w1" by (auto simp: writer_ok_def)
  let ?s2 = "?s1\<lparr>fs_led := Some (commit_fit_blocks led (fw_pending w1))\<rparr>"
  have st2: "same_static s ?s2"
    unfolding same_static_def using led commit_fields(5)
    by (intro conjI exI [of _ "Some (commit_fit_blocks led (fw_pending w1))"] exI [of _ "land_all env epoch (fs_payload s)"]) simp_all
  from rs obtain lg where lg: "fit_completion_ledger s = Inr lg" by (auto simp: ready_store_def store_matches_def)
  from same_static_ledger [OF st2 lg] obtain lg2 where lg2: "fit_completion_ledger ?s2 = Inr lg2" by blast
  have "open_fit s = Inr led" using ledger_Inr [OF lg] led by auto
  then have open1: "open_fit ?s1 = Inr led" by (simp add: open_fit_def led split: if_splits)
  have same: "?s2 = ?s1" if "fw_pending w1 = []" using that led by (simp add: commit_fit_blocks_def)
  have close: "\<exists>w2. close_fit_writer True Landed (w1, ?s1) = (Inr lg2, w2, ?s2)"
    using op open1 lg2 same by (cases "fw_pending w1 = []") (auto simp: close_fit_writer_def refresh_ledger_def Let_def)
  have cl: "en_io_close env k = Landed" "en_reader_opens env k" "en_reader_closes env k"
    using qt by (auto simp: quiet_def calm_def)
  let ?rep = "rep1\<lparr>cr_closes := cr_closes rep1 + 1, cr_epochs_committed := cr_epochs_committed rep1 + 1\<rparr>"
  have run: "run_epoch env n_cols k epoch rep s = (Inr ?rep, ?s2)"
    using w(1) rb close cl by (auto simp: run_epoch_def)
  have ok2: "store_ok (wh_n_q ?h) (wh_n_mu ?h) sched ?s2"
    using run_epoch_ok [OF sched kf refl _ e(1) run] rs by (simp add: ready_store_def)
  have "ready_store env ident sched ?s2"
    using rs ok2 same_static_matches [OF st2] by (simp add: ready_store_def)
  moreover have "store_journal ?s2 = store_journal s @ epoch"
    using led ps w(3) by (simp add: store_journal_def commit_fields)
  ultimately show ?thesis using run st2 cnt by auto
qed

lemma land_all_append: "land_all env (as @ bs) pl = land_all env bs (land_all env as pl)"
  by (simp add: land_all_def)

lemma run_epochs_good:
  assumes qt: "quiet env sched n_cols"
  shows "ready_store env ident sched s \<Longrightarrow> set (concat es) \<subseteq> set sched \<Longrightarrow> distinct (concat es) \<Longrightarrow>
     set (concat es) \<inter> set (store_journal s) = {} \<Longrightarrow>
     \<exists>rep' s'. run_epochs env n_cols k es rep s = (Inr rep', s') \<and> ready_store env ident sched s' \<and>
     same_static s s' \<and> store_journal s' = store_journal s @ concat es \<and>
     fs_payload s' = land_all env (concat es) (fs_payload s) \<and>
     cr_walked rep' = cr_walked rep + int (length (concat es)) \<and>
     cr_reads rep' = cr_reads rep + int (length (concat es)) * parts env \<and>
     cr_skipped rep' = cr_skipped rep \<and> cr_epochs_planned rep' = cr_epochs_planned rep \<and>
     cr_epochs_committed rep' = cr_epochs_committed rep + int (length es) \<and>
     cr_opens rep' = cr_opens rep + int (length es) \<and> cr_closes rep' = cr_closes rep + int (length es)"
proof (induction es arbitrary: k rep s)
  case Nil
  then show ?case by (auto simp: land_all_def)
next
  case (Cons e es)
  have e: "set e \<subseteq> set sched" "distinct e" "set e \<inter> set (store_journal s) = {}" using Cons.prems by auto
  from run_epoch_good [OF qt Cons.prems(1) e, of k rep] obtain rep1 s1 where
    one: "run_epoch env n_cols k e rep s = (Inr rep1, s1)" "ready_store env ident sched s1" "same_static s s1"
      "store_journal s1 = store_journal s @ e" "fs_payload s1 = land_all env e (fs_payload s)"
      "cr_walked rep1 = cr_walked rep + int (length e)" "cr_reads rep1 = cr_reads rep + int (length e) * parts env"
      "cr_skipped rep1 = cr_skipped rep" "cr_epochs_planned rep1 = cr_epochs_planned rep"
      "cr_epochs_committed rep1 = cr_epochs_committed rep + 1" "cr_opens rep1 = cr_opens rep + 1"
      "cr_closes rep1 = cr_closes rep + 1" by blast
  have sub: "set (concat es) \<subseteq> set sched" "distinct (concat es)" "set (concat es) \<inter> set (store_journal s1) = {}"
    using Cons.prems one(4) by auto
  from Cons.IH [OF one(2) sub, of "Suc k" rep1] obtain rep2 s2 where
    two: "run_epochs env n_cols (Suc k) es rep1 s1 = (Inr rep2, s2)" "ready_store env ident sched s2" "same_static s1 s2"
      "store_journal s2 = store_journal s1 @ concat es" "fs_payload s2 = land_all env (concat es) (fs_payload s1)"
      "cr_walked rep2 = cr_walked rep1 + int (length (concat es))"
      "cr_reads rep2 = cr_reads rep1 + int (length (concat es)) * parts env"
      "cr_skipped rep2 = cr_skipped rep1" "cr_epochs_planned rep2 = cr_epochs_planned rep1"
      "cr_epochs_committed rep2 = cr_epochs_committed rep1 + int (length es)"
      "cr_opens rep2 = cr_opens rep1 + int (length es)" "cr_closes rep2 = cr_closes rep1 + int (length es)" by blast
  show ?case
    by (rule exI [of _ rep2], rule exI [of _ s2])
       (use one two same_static_trans [OF one(3) two(3)] in \<open>simp add: land_all_append algebra_simps\<close>)
qed

lemma block_done_iff:
  assumes ok: "sched_ok n m sched" and led: "led_ok n m sched led" and b: "b \<in> set sched"
  shows "block_all (fl_done led) b \<longleftrightarrow> b \<in> set (fl_journal led)"
    and "block_any (fl_done led) b \<longleftrightarrow> b \<in> set (fl_journal led)"
proof -
  obtain q lo hi where e: "b = (q, lo, hi)" by (cases b)
  have bin: "0 \<le> q" "q < n" "0 \<le> lo" "lo < hi" "hi \<le> m" using sched_ok_in [OF ok b] by (auto simp: e block_in_def)
  have sub: "set (fl_journal led) \<subseteq> set sched" using led by (simp add: led_ok_def)
  have get: "bm_get (fl_done led) q c \<longleftrightarrow> b \<in> set (fl_journal led)" if "lo \<le> c" "c < hi" for c
  proof -
    have "bm_get (fl_done led) q c \<longleftrightarrow> covers (fl_journal led) q c"
      using led bin that by (auto simp: led_ok_def)
    also have "\<dots> \<longleftrightarrow> b \<in> set (fl_journal led)"
      using journal_not_covering [OF ok sub b [unfolded e] _ that] that by (auto simp: covers_def e)
    finally show ?thesis .
  qed
  show "block_any (fl_done led) b \<longleftrightarrow> b \<in> set (fl_journal led)"
    using get bin(4) by (auto simp: e block_any_iff)
  show "block_all (fl_done led) b \<longleftrightarrow> b \<in> set (fl_journal led)"
    using get [of lo] get bin(4) by (auto simp: e block_all_def list_all_iff)
qed

lemma pending_blocks_eq:
  assumes ok: "sched_ok n m sched" and led: "led_ok n m sched led"
  shows "set bs \<subseteq> set sched \<Longrightarrow> pending_blocks (fl_done led) bs =
     Inr (int (length (filter (\<lambda>b. b \<in> set (fl_journal led)) bs)), filter (\<lambda>b. b \<notin> set (fl_journal led)) bs)"
  by (induction bs) (use block_done_iff [OF ok led] in auto)

lemma journal_count:
  assumes "distinct js" "set js \<subseteq> set sched" "distinct sched"
  shows "length (filter (\<lambda>b. b \<in> set js) sched) = length js"
proof -
  have "set (filter (\<lambda>b. b \<in> set js) sched) = set js" using assms by auto
  then show ?thesis using assms by (metis distinct_card distinct_filter)
qed

lemma land_all_get:
  assumes ok: "sched_ok n m sched"
  shows "set bs \<subseteq> set sched \<Longrightarrow> distinct bs \<Longrightarrow>
     ((q, lo, hi) \<in> set bs \<longrightarrow> (\<forall>c. lo \<le> c \<and> c < hi \<longrightarrow>
        land_all env bs pl (q, c) = Some (kernel_data env (q, lo, hi) (nat (c - lo))))) \<and>
     (\<forall>c. \<not> covers bs q c \<longrightarrow> land_all env bs pl (q, c) = pl (q, c))"
proof (induction bs arbitrary: pl)
  case Nil
  then show ?case by (simp add: land_all_def)
next
  case (Cons b bs)
  obtain p l h where e: "b = (p, l, h)" by (cases b)
  have bin: "l < h" using Cons.prems sched_ok_in [OF ok, of b] by (auto simp: e block_in_def)
  have hd: "hd [l..h - 1] = l" using bin by (simp add: upto_rec1)
  let ?pl = "land_block pl p [l..h - 1] (kernel_data env b)"
  have step: "land_all env (b # bs) pl = land_all env bs ?pl" by (simp add: land_all_def e kernel_data_def)
  have here: "?pl (p, c) = Some (kernel_data env b (nat (c - l)))" if "l \<le> c" "c < h" for c
    using that hd by (simp add: land_block_def)
  have there: "?pl (q, c) = pl (q, c)" if "\<not> (p = q \<and> l \<le> c \<and> c < h)" for c
    using that by (auto simp: land_block_def)
  have sub: "set bs \<subseteq> set sched" "distinct bs" using Cons.prems by auto
  note IH = Cons.IH [OF sub, of ?pl]
  have nb: "\<not> covers bs p c" if "l \<le> c" "c < h" for c
    using journal_not_covering [OF ok sub(1), of p l h c] Cons.prems that by (auto simp: e)
  show ?case
  proof (intro conjI impI allI)
    fix c assume m: "(q, lo, hi) \<in> set (b # bs)" and c: "lo \<le> c \<and> c < hi"
    show "land_all env (b # bs) pl (q, c) = Some (kernel_data env (q, lo, hi) (nat (c - lo)))"
    proof (cases "(q, lo, hi) = b")
      case True
      then show ?thesis unfolding step using here [of c] nb [of c] c IH by (auto simp: e)
    next
      case False
      then show ?thesis unfolding step using m c IH by auto
    qed
  next
    fix c assume "\<not> covers (b # bs) q c"
    then show "land_all env (b # bs) pl (q, c) = pl (q, c)"
      unfolding step using IH there [of c] by (auto simp: e)
  qed
qed

definition dest_journal :: "'v fit_store option \<Rightarrow> fit_block list" where
  "dest_journal dest = (case dest of None \<Rightarrow> [] | Some s \<Rightarrow> store_journal s)"

lemma contract_quiet:
  assumes c: "run_contract env prov solver_prov occ = Some (sched, ident)" and r: "env_ready env" and calm: "calm env sched"
  shows "\<exists>plan. plan_column_walk (wh_n_mu (sp_header (en_src env))) (wh_n_omega (sp_header (en_src env)) * parts env)
       (en_tile_bytes env) = Inr plan \<and> quiet env sched (cw_n_cols plan)"
proof -
  let ?h = "sp_header (en_src env)" and ?tb = "en_tile_bytes env"
  let ?om = "wh_n_omega ?h * parts env"
  have fs: "fit_schedule (wh_n_q ?h) (wh_n_mu ?h) ?om ?tb = Inr sched"
    using c by (auto simp: run_contract_def parts_def Let_def split: sum.splits)
  from fit_schedule_step [OF fs] obtain w where w: "choose_column_budget (wh_n_mu ?h) ?om ?tb COMPLEX128_BYTES = Inr w"
    "1 \<le> wh_n_mu ?h" "1 \<le> w" "w \<le> wh_n_mu ?h"
    and mem: "\<And>q lo hi. (q, lo, hi) \<in> set sched \<longleftrightarrow>
       0 \<le> q \<and> q < wh_n_q ?h \<and> (lo, hi) \<in> set (projr (column_blocks (wh_n_mu ?h) w))"
    by blast
  have widths: "\<forall>b\<in>set sched. snd (snd b) - fst (snd b) \<le> w"
  proof
    fix b assume "b \<in> set sched"
    then have "(fst (snd b), snd (snd b)) \<in> set (projr (column_blocks (wh_n_mu ?h) w))"
      using mem [of "fst b" "fst (snd b)" "snd (snd b)"] by simp
    then show "snd (snd b) - fst (snd b) \<le> w" using cb.in_bounds w by blast
  qed
  have "\<exists>plan. plan_column_walk (wh_n_mu ?h) ?om ?tb = Inr plan \<and> cw_n_cols plan = w"
    using w by (simp add: plan_column_walk_def column_blocks_def describe_column_cost_def)
  then show ?thesis
    using w(1) widths r calm fit_schedule_ok [OF fs] by (auto simp: quiet_def)
qed

lemma start_ready:
  assumes c: "run_contract env prov solver_prov occ = Some (sched, ident)" and r: "env_ready env"
    and d: "dest = None \<or> (\<exists>s. dest = Some s \<and> resumable env prov solver_prov occ s \<and> \<not> fs_complete s \<and> fs_receipt s = None)"
    and sched: "sched \<noteq> []"
  shows "\<exists>lg s. start_store overwrite (wh_n_q (sp_header (en_src env))) (wh_n_mu (sp_header (en_src env))) (en_n_p env)
      ident (en_neg env \<noteq> None) sched dest = Inr (lg, s) \<and> fit_completion_ledger s = Inr lg \<and>
      ready_store env ident sched s \<and> store_journal s = dest_journal dest \<and> fs_receipt s = None"
proof -
  let ?h = "sp_header (en_src env)"
  note resum = resumable_iff [OF c refl refl]
  show ?thesis
  proof (cases dest)
    case None
    have pos: "1 \<le> wh_n_q ?h" "1 \<le> en_n_p env" using r by (auto simp: env_ready_def samples_ready_def)
    have "1 \<le> wh_n_mu ?h"
      using sched run_contract_sched [OF c] by (cases sched) (auto simp: sched_ok_def block_in_def)
    moreover have "id_unit ident = id_unit (sp_ident (en_src env))"
      using c by (auto simp: run_contract_def Let_def fit_identity_of_def split: sum.splits)
    moreover obtain u where "id_unit (sp_ident (en_src env)) = Some u" "u \<in> fst ` set FIT_ENERGY_UNITS"
      using r by (auto simp: env_ready_def)
    ultimately have "\<exists>s :: 'a fit_store. allocate_fit_store (wh_n_q ?h) (wh_n_mu ?h) (en_n_p env) ident
        (en_neg env \<noteq> None) ''w'' = Inr s"
      using pos by (simp add: allocate_fit_store_def Let_def)
    then obtain s :: "'a fit_store" where
      s: "allocate_fit_store (wh_n_q ?h) (wh_n_mu ?h) (en_n_p env) ident (en_neg env \<noteq> None) ''w'' = Inr s"
      by blast
    note a = allocate_ok [OF s, of sched]
    then obtain lg where lg: "fit_completion_ledger s = Inr lg" by (auto simp: store_matches_def)
    show ?thesis
      using s lg a None by (auto simp: start_store_def ready_store_def store_journal_def dest_journal_def)
  next
    case (Some s)
    then have s: "resumable env prov solver_prov occ s" "\<not> fs_complete s" "fs_receipt s = None" using d by auto
    obtain lg where v: "validate_fit_store_for_resume s (wh_n_q ?h) (wh_n_mu ?h) (en_n_p env) ident (en_neg env \<noteq> None) sched = Inr lg"
      using s(1) c by (auto simp: resumable_def split: sum.splits)
    then have lg: "fit_completion_ledger s = Inr lg"
      by (auto simp: validate_fit_store_for_resume_def Let_def split: if_splits)
    have "\<not> lg_complete lg" using ledger_Inr [OF lg] s(2) by auto
    then show ?thesis
      using v lg s resum [of s] Some by (auto simp: start_store_def ready_store_def dest_journal_def)
  qed
qed

text \<open>What a fault-free run leaves: the core of the three properties below.\<close>

lemma walk_core:
  assumes c: "run_contract env prov solver_prov occ = Some (sched, ident)" and qt: "quiet env sched n_cols"
    and rs: "ready_store env ident sched s" and lg: "fit_completion_ledger s = Inr lg"
  shows "\<exists>rep s'. walk_store env n_cols sched lg s = (Inr rep, s') \<and> ready_store env ident sched s' \<and> same_static s s' \<and>
     store_journal s' = store_journal s @ filter (\<lambda>b. b \<notin> set (store_journal s)) sched \<and>
     fs_payload s' = land_all env (filter (\<lambda>b. b \<notin> set (store_journal s)) sched) (fs_payload s) \<and>
     cr_skipped rep = int (length (store_journal s)) \<and>
     cr_walked rep = int (length (filter (\<lambda>b. b \<notin> set (store_journal s)) sched)) \<and>
     cr_reads rep = cr_walked rep * parts env \<and> cr_opens rep = cr_epochs_planned rep \<and>
     cr_closes rep = cr_epochs_planned rep \<and> cr_epochs_committed rep = cr_epochs_planned rep \<and>
     cr_epochs_planned rep = (cr_walked rep + FIT_IO_CHECKPOINT_BLOCKS - 1) div FIT_IO_CHECKPOINT_BLOCKS"
proof -
  let ?h = "sp_header (en_src env)"
  let ?p = "filter (\<lambda>b. b \<notin> set (store_journal s)) sched"
  have ok: "sched_ok (wh_n_q ?h) (wh_n_mu ?h) sched" using qt by (simp add: quiet_def)
  from rs obtain led where led: "fs_led s = Some led" "led_ok (wh_n_q ?h) (wh_n_mu ?h) sched led"
    by (auto simp: ready_store_def store_ok_def)
  have js: "store_journal s = fl_journal led" using led by (simp add: store_journal_def)
  have dn: "lg_done lg = fl_done led" using ledger_Inr [OF lg] led by auto
  have "length (filter (\<lambda>b. b \<in> set (fl_journal led)) sched) = length (fl_journal led)"
    using journal_count [of "fl_journal led" sched] led(2) ok by (simp add: led_ok_def sched_ok_def)
  then have pend: "pending_blocks (lg_done lg) sched = Inr (int (length (store_journal s)), ?p)"
    using pending_blocks_eq [OF ok led(2) order.refl] by (simp add: dn js)
  let ?es = "chunks (nat FIT_IO_CHECKPOINT_BLOCKS) ?p"
  have cc: "concat ?es = ?p" by (simp add: concat_chunks FIT_IO_CHECKPOINT_BLOCKS_def)
  have len: "int (length ?es) = (int (length ?p) + FIT_IO_CHECKPOINT_BLOCKS - 1) div FIT_IO_CHECKPOINT_BLOCKS"
    using length_chunks [of "nat FIT_IO_CHECKPOINT_BLOCKS" ?p] by (simp add: FIT_IO_CHECKPOINT_BLOCKS_def)
  have dist: "distinct ?p" using ok by (simp add: sched_ok_def)
  let ?rep0 = "\<lparr>cr_walked = 0, cr_skipped = int (length (store_journal s)), cr_epochs_planned = int (length ?es),
               cr_epochs_committed = 0, cr_opens = 0, cr_closes = 0, cr_reads = 0, cr_columns = 0,
               cr_elements = 0, cr_bytes = 0, cr_peak = 0, cr_dispatches = 0, cr_solves = 0\<rparr>"
  have "set (concat ?es) \<subseteq> set sched" "distinct (concat ?es)" "set (concat ?es) \<inter> set (store_journal s) = {}"
    unfolding cc using dist by auto
  from run_epochs_good [OF qt rs this, of 0 ?rep0] obtain rep s' where
    r: "run_epochs env n_cols 0 ?es ?rep0 s = (Inr rep, s')" "ready_store env ident sched s'" "same_static s s'"
      "store_journal s' = store_journal s @ ?p" "fs_payload s' = land_all env ?p (fs_payload s)"
      "cr_walked rep = int (length ?p)" "cr_reads rep = int (length ?p) * parts env"
      "cr_skipped rep = int (length (store_journal s))" "cr_epochs_planned rep = int (length ?es)"
      "cr_epochs_committed rep = int (length ?es)" "cr_opens rep = int (length ?es)" "cr_closes rep = int (length ?es)"
    unfolding cc by (simp only: cost_report.select_convs add_0) blast
  have "walk_store env n_cols sched lg s = (Inr rep, s')"
    unfolding walk_store_def pend sum.case prod.case Let_def using r(1) .
  then show ?thesis using r len by auto
qed

lemma full_journal_done:
  assumes ok: "sched_ok n m sched" and led: "led_ok n m sched led" and full: "set (fl_journal led) = set sched"
  shows "bm_all (fl_done led)"
proof -
  have "covers (fl_journal led) q c" if "0 \<le> q" "q < n" "0 \<le> c" "c < m" for q c
    using ok that full covers_subset [of sched q c "fl_journal led"] by (auto simp: sched_ok_def)
  then show ?thesis using led bm_all_iff [of n m "fl_done led"] by (auto simp: led_ok_def)
qed

definition secs_ok :: "xfloat list \<Rightarrow> bool" where
  "secs_ok secs \<longleftrightarrow> list_all (\<lambda>x. xf_finite x \<and> \<not> xf_less x (Num 0)) secs"

lemma receipt_written:
  assumes "fit_completion_ledger s = Inr lg" "\<not> fs_complete s" "bm_all (lg_done lg)" "fs_receipt s = None"
    and "secs_ok secs" "ordered = fs_ordered s" "0 \<le> cr_walked rep" "0 \<le> cr_skipped rep"
    and "cr_walked rep + cr_skipped rep = int (length (lg_journal lg))"
    and "cr_reads rep = cr_walked rep * (if ordered then 2 else 1)" "cr_opens rep = cr_epochs_planned rep"
    and "cr_closes rep = cr_epochs_planned rep" "cr_epochs_committed rep = cr_epochs_planned rep"
    and "cr_epochs_planned rep = (cr_walked rep + FIT_IO_CHECKPOINT_BLOCKS - 1) div FIT_IO_CHECKPOINT_BLOCKS"
  shows "finish_fit ordered rcond now secs False rep s =
    (Inr (lg, rep), s\<lparr>fs_receipt := Some (True, report_receipt ordered rep secs)\<rparr>)"
proof -
  let ?r = "report_receipt ordered rep secs"
  from ledger_Inr [OF assms(1)] obtain led where led: "open_fit s = Inr led" "lg_done lg = fl_done led"
    "lg_journal lg = fl_journal led" by blast
  have "0 \<le> (cr_walked rep + FIT_IO_CHECKPOINT_BLOCKS - 1) div FIT_IO_CHECKPOINT_BLOCKS"
    using assms(7) by (simp add: FIT_IO_CHECKPOINT_BLOCKS_def)
  then have norm: "normalise_fit_io_receipt ?r = Inr ?r"
    using assms by (auto simp: normalise_fit_io_receipt_def report_receipt_def secs_ok_def list_all_iff list_ex_iff
        FIT_IO_CHECKPOINT_BLOCKS_def Let_def)
  have against: "receipt_against_ledger s ?r = Inr ()"
    using led assms by (simp add: receipt_against_ledger_def report_receipt_def)
  let ?s = "s\<lparr>fs_receipt := Some (True, ?r)\<rparr>"
  have "open_fit ?s = Inr led" using led(1) by (simp add: open_fit_def split: option.splits if_splits)
  then have "receipt_against_ledger ?s ?r = Inr ()"
    using led assms by (simp add: receipt_against_ledger_def report_receipt_def)
  then have "read_fit_io_receipt ?s = Inr (Some ?r)" using norm by (simp add: read_fit_io_receipt_def)
  then have "write_fit_io_receipt ?r s = (Inr (Some ?r), ?s)"
    using norm led(1,2) assms against by (simp add: write_fit_io_receipt_def Let_def)
  then show ?thesis using assms(1,3) by (simp add: finish_fit_def)
qed

text \<open>A destination a run may start from: nothing, or a resumable partial fit without a receipt.\<close>

definition fresh_or_partial ::
    "'v fit_env \<Rightarrow> (string \<times> string) list \<Rightarrow> (string \<times> string) list \<Rightarrow> (string \<times> string) list option \<Rightarrow>
     'v fit_store option \<Rightarrow> bool" where
  "fresh_or_partial env prov solver_prov occ dest \<longleftrightarrow> (case dest of None \<Rightarrow> True
     | Some s \<Rightarrow> resumable env prov solver_prov occ s \<and> \<not> fs_complete s \<and> fs_receipt s = None)"

lemma run_core:
  assumes c: "run_contract env prov solver_prov occ = Some (sched, ident)" and r: "env_ready env" and calm: "calm env sched"
    and rc: "0 < rcond" "rcond < 1" and d: "fresh_or_partial env prov solver_prov occ dest"
  shows "\<exists>rep s1 lg1. fit_completion_ledger s1 = Inr lg1 \<and> ready_store env ident sched s1 \<and> fs_receipt s1 = None \<and>
    bm_all (lg_done lg1) \<and> lg_journal lg1 = dest_journal dest @ filter (\<lambda>b. b \<notin> set (dest_journal dest)) sched \<and>
    set (lg_journal lg1) = set sched \<and> sched \<noteq> [] \<and>
    (\<forall>q lo hi c. (q, lo, hi) \<in> set sched \<and> (q, lo, hi) \<notin> set (dest_journal dest) \<and> lo \<le> c \<and> c < hi \<longrightarrow>
       fs_payload s1 (q, c) = Some (kernel_data env (q, lo, hi) (nat (c - lo)))) \<and>
    cr_walked rep + cr_skipped rep = int (length (lg_journal lg1)) \<and> int (length (lg_journal lg1)) = int (length sched) \<and>
    0 \<le> cr_walked rep \<and> 0 \<le> cr_skipped rep \<and> cr_reads rep = cr_walked rep * parts env \<and>
    cr_opens rep = cr_epochs_planned rep \<and> cr_closes rep = cr_epochs_planned rep \<and>
    cr_epochs_committed rep = cr_epochs_planned rep \<and>
    cr_epochs_planned rep = (cr_walked rep + FIT_IO_CHECKPOINT_BLOCKS - 1) div FIT_IO_CHECKPOINT_BLOCKS \<and>
    (\<forall>fin. run_fit_driver env rcond prov solver_prov occ overwrite fin now secs dest =
       (let (res, s') = finish_fit (en_neg env \<noteq> None) rcond now secs fin rep s1 in (res, Some s')))"
proof -
  let ?h = "sp_header (en_src env)"
  have ok: "sched_ok (wh_n_q ?h) (wh_n_mu ?h) sched" by (rule run_contract_sched [OF c])
  from contract_quiet [OF c r calm] obtain plan where
    plan: "plan_column_walk (wh_n_mu ?h) (wh_n_omega ?h * parts env) (en_tile_bytes env) = Inr plan"
    and qt: "quiet env sched (cw_n_cols plan)" by blast
  have "1 \<le> wh_n_mu ?h" using plan choose_column_budget_Inr by (auto simp: plan_column_walk_def)
  moreover have "1 \<le> wh_n_q ?h" using r by (simp add: env_ready_def)
  ultimately have "covers sched 0 0" using ok by (simp add: sched_ok_def)
  then have ne: "sched \<noteq> []" by auto
  from start_ready [OF c r _ ne, of dest overwrite] d obtain lg s where
    st: "start_store overwrite (wh_n_q ?h) (wh_n_mu ?h) (en_n_p env) ident (en_neg env \<noteq> None) sched dest = Inr (lg, s)"
      "fit_completion_ledger s = Inr lg" "ready_store env ident sched s" "store_journal s = dest_journal dest" "fs_receipt s = None"
    by (auto simp: fresh_or_partial_def split: option.splits)
  let ?J = "dest_journal dest"
  let ?p = "filter (\<lambda>b. b \<notin> set ?J) sched"
  from walk_core [OF c qt st(3,2), unfolded st(4)] obtain rep s1 where
    w: "walk_store env (cw_n_cols plan) sched lg s = (Inr rep, s1)" "ready_store env ident sched s1" "same_static s s1"
      "store_journal s1 = ?J @ ?p" "fs_payload s1 = land_all env ?p (fs_payload s)"
      "cr_skipped rep = int (length ?J)" "cr_walked rep = int (length ?p)" "cr_reads rep = cr_walked rep * parts env"
      "cr_opens rep = cr_epochs_planned rep" "cr_closes rep = cr_epochs_planned rep"
      "cr_epochs_committed rep = cr_epochs_planned rep"
      "cr_epochs_planned rep = (cr_walked rep + FIT_IO_CHECKPOINT_BLOCKS - 1) div FIT_IO_CHECKPOINT_BLOCKS"
    by blast
  from w(2) obtain lg1 where lg1: "fit_completion_ledger s1 = Inr lg1" by (auto simp: ready_store_def store_matches_def)
  from w(2) obtain led1 where led1: "fs_led s1 = Some led1" "led_ok (wh_n_q ?h) (wh_n_mu ?h) sched led1"
    by (auto simp: ready_store_def store_ok_def)
  have l1: "lg_done lg1 = fl_done led1" "lg_journal lg1 = fl_journal led1" "fl_journal led1 = ?J @ ?p"
    using ledger_Inr [OF lg1] led1(1) w(4) by (auto simp: store_journal_def)
  have sub: "set ?J \<subseteq> set sched" using led1(2) l1(3) by (auto simp: led_ok_def)
  have full: "set (fl_journal led1) = set sched" using sub l1(3) by auto
  have len: "int (length (fl_journal led1)) = int (length sched)"
    using full led1(2) ok by (metis distinct_card led_ok_def sched_ok_def)
  have pay: "fs_payload s1 (q, c) = Some (kernel_data env (q, lo, hi) (nat (c - lo)))"
    if "(q, lo, hi) \<in> set sched" "(q, lo, hi) \<notin> set ?J" "lo \<le> c" "c < hi" for q lo hi c
  proof -
    have "set ?p \<subseteq> set sched" "distinct ?p" using ok by (auto simp: sched_ok_def)
    from land_all_get [OF ok this, of q lo hi env "fs_payload s"] that show ?thesis by (simp add: w(5))
  qed
  have contract: "\<exists>bound. bind_sample_identities (id_prov (sp_ident (en_src env)))
        (map_option (\<lambda>g. id_prov (sp_ident g)) (en_neg env)) prov = Inr bound \<and>
       ident = fit_identity_of (en_src env) (filter (\<lambda>kv. fst kv \<notin> fst ` set solver_prov) bound @ solver_prov) occ \<and>
       fit_schedule (wh_n_q ?h) (wh_n_mu ?h) (wh_n_omega ?h * parts env) (en_tile_bytes env) = Inr sched"
    using c by (auto simp: run_contract_def parts_def Let_def split: sum.splits)
  have neg: "\<not> (case en_neg env of None \<Rightarrow> False | Some neg \<Rightarrow> \<not> negative_ok (en_src env) neg (en_z env))"
    and z: "en_z env = sp_omega (en_src env)"
    using r by (auto simp: env_ready_def split: option.splits)
  have run: "run_fit_driver env rcond prov solver_prov occ overwrite fin now secs dest =
       (let (res, s') = finish_fit (en_neg env \<noteq> None) rcond now secs fin rep s1 in (res, Some s'))" for fin
  proof -
    from contract obtain bound where b: "bind_sample_identities (id_prov (sp_ident (en_src env)))
        (map_option (\<lambda>g. id_prov (sp_ident g)) (en_neg env)) prov = Inr bound"
      and i: "ident = fit_identity_of (en_src env) (filter (\<lambda>kv. fst kv \<notin> fst ` set solver_prov) bound @ solver_prov) occ"
      and f: "fit_schedule (wh_n_q ?h) (wh_n_mu ?h) (wh_n_omega ?h * parts env) (en_tile_bytes env) = Inr sched" by blast
    have wf: "walk_and_finish env (cw_n_cols plan) sched rcond fin now secs (lg, s) =
        finish_fit (en_neg env \<noteq> None) rcond now secs fin rep s1"
      by (simp only: walk_and_finish_def prod.case w(1) sum.case)
    show ?thesis
      unfolding run_fit_driver_def Let_def
      using rc z neg plan b f st(1) wf unfolding parts_def i by (simp split: prod.split)
  qed
  have rcpt: "fs_receipt s1 = None" using st(5) same_static_fields [OF w(3)] by simp
  have done1: "bm_all (lg_done lg1)" using full_journal_done [OF ok led1(2) full] by (simp add: l1(1))
  have jl: "lg_journal lg1 = ?J @ ?p" using l1 by simp
  have js: "set (lg_journal lg1) = set sched" using full l1(2) by simp
  have cnt: "cr_walked rep + cr_skipped rep = int (length (lg_journal lg1))" unfolding jl w(6,7) by simp
  have pos: "0 \<le> cr_walked rep" "0 \<le> cr_skipped rep" using w(6,7) by auto
  have jlen: "int (length (lg_journal lg1)) = int (length sched)" using len l1(2) by simp
  have payall: "\<forall>q lo hi c. (q, lo, hi) \<in> set sched \<and> (q, lo, hi) \<notin> set ?J \<and> lo \<le> c \<and> c < hi \<longrightarrow>
       fs_payload s1 (q, c) = Some (kernel_data env (q, lo, hi) (nat (c - lo)))" using pay by blast
  have runall: "\<forall>fin. run_fit_driver env rcond prov solver_prov occ overwrite fin now secs dest =
       (let (res, s') = finish_fit (en_neg env \<noteq> None) rcond now secs fin rep s1 in (res, Some s'))"
    using run by blast
  show ?thesis
    by (intro exI [of _ rep] exI [of _ s1] exI [of _ lg1] conjI)
       (fact lg1 w(2) rcpt done1 jl js ne payall cnt jlen pos w runall)+
qed

section \<open>A small run, for the witnesses\<close>

text \<open>One q, two rows, two frequencies, one pole: two column blocks of one column each. The fate of
  the transfer of the second block is a parameter.\<close>

definition small_src :: sample_src where
  "small_src = \<lparr>sp_header = \<lparr>wh_n_mu = 2, wh_n_omega = 2, wh_n_ready = 2, wh_data_ready = [True, True], wh_n_q = 1\<rparr>,
     sp_omega = [1, 2],
     sp_ident = \<lparr>id_unit = Some ''Ry'', id_grid = Some ''g'', id_table = None, id_centroid = None, id_prov = [], id_occ = None\<rparr>\<rparr>"

definition small_arg :: "nat block_arg" where
  "small_arg = \<lparr>ba_q = 0, ba_cols = Columns [], ba_omega = \<lparr>ar_shape = [1, 1, 2, 1], ar_layout = True\<rparr>,
     ba_b = \<lparr>ar_shape = [1, 1, 2, 1], ar_layout = True\<rparr>, ba_odd = None,
     ba_diag = [(''condition'', \<lparr>ar_shape = [1, 2, 1], ar_layout = True\<rparr>)], ba_data = (\<lambda>j. j + 7),
     ba_cond = Num 3, ba_berr = Num 0, ba_finite = True\<rparr>"

definition small_env :: "nat io_outcome \<Rightarrow> nat fit_env" where
  "small_env io = \<lparr>en_src = small_src, en_neg = None, en_z = [1, 2], en_n_p = 1, en_tile_bytes = None,
     en_kernel = (\<lambda>_. Some small_arg), en_io_write = (\<lambda>b. if b = (0, 1, 2) then io else Landed),
     en_io_close = (\<lambda>_. Landed), en_reader_opens = (\<lambda>_. True), en_reader_closes = (\<lambda>_. True)\<rparr>"

lemma small_contract:
  "run_contract (small_env io) [] [] None = Some ([(0, 0, 1), (0, 1, 2)], sp_ident small_src)"
  by (simp add: run_contract_def small_env_def small_src_def bind_sample_identities_def bind_group_def sample_identity_def
      WFN_KEYS_def ZETA_KEYS_def fit_schedule_def choose_column_budget_def one_tile_bytes_def COMPLEX128_BYTES_def
      column_blocks_def py_range.simps fit_identity_of_def)

lemma small_ready: "env_ready (small_env io)"
  by (simp add: env_ready_def samples_ready_def small_env_def small_src_def FIT_ENERGY_UNITS_def)

lemma small_finite: "kernel_finite (small_env io) sched"
  by (simp add: kernel_finite_def small_env_def small_arg_def)

lemma small_calm: "calm (small_env Landed) [(0, 0, 1), (0, 1, 2)]"
  by (simp add: calm_def small_env_def small_src_def good_block_def small_arg_def PERSISTED_DIAGNOSTICS_def)


text \<open>
  C2: a fault-free run of the body stage completes the store. From nothing, or from any partial fit
  of the same contract, it fits exactly the blocks the journal lacks, in schedule order and each
  once, ends with every (q, column) done and the payload of every new block landed at its place,
  and leaves a ready I/O receipt whose census is that of the run; no guard of the receipt refuses.
\<close>

theorem fit_run_completes:
  assumes "run_contract env prov solver_prov occ = Some (sched, ident)" "env_ready env" "calm env sched"
    and "0 < rcond" "rcond < 1" "fresh_or_partial env prov solver_prov occ dest" "secs_ok secs"
  shows "\<exists>lg rep s'. run_fit_driver env rcond prov solver_prov occ overwrite False now secs dest = (Inr (lg, rep), Some s') \<and>
    bm_all (lg_done lg) \<and>
    store_journal s' = dest_journal dest @ filter (\<lambda>b. b \<notin> set (dest_journal dest)) sched \<and>
    set (store_journal s') = set sched \<and> cr_walked rep + cr_skipped rep = int (length sched) \<and>
    (\<forall>q lo hi c. (q, lo, hi) \<in> set sched \<and> (q, lo, hi) \<notin> set (dest_journal dest) \<and> lo \<le> c \<and> c < hi \<longrightarrow>
       fs_payload s' (q, c) = Some (kernel_data env (q, lo, hi) (nat (c - lo)))) \<and>
    fs_receipt s' = Some (True, report_receipt (en_neg env \<noteq> None) rep secs)"
proof -
  from run_core [OF assms(1-6), of overwrite now secs] obtain rep s1 lg1 where
    lg1: "fit_completion_ledger s1 = Inr lg1" and rs: "ready_store env ident sched s1" and rcpt: "fs_receipt s1 = None"
    and all: "bm_all (lg_done lg1)"
    and j: "lg_journal lg1 = dest_journal dest @ filter (\<lambda>b. b \<notin> set (dest_journal dest)) sched"
      "set (lg_journal lg1) = set sched"
    and pay: "\<forall>q lo hi c. (q, lo, hi) \<in> set sched \<and> (q, lo, hi) \<notin> set (dest_journal dest) \<and> lo \<le> c \<and> c < hi \<longrightarrow>
       fs_payload s1 (q, c) = Some (kernel_data env (q, lo, hi) (nat (c - lo)))"
    and cnt: "cr_walked rep + cr_skipped rep = int (length (lg_journal lg1))"
      "int (length (lg_journal lg1)) = int (length sched)" "0 \<le> cr_walked rep" "0 \<le> cr_skipped rep"
      "cr_reads rep = cr_walked rep * parts env" "cr_opens rep = cr_epochs_planned rep"
      "cr_closes rep = cr_epochs_planned rep" "cr_epochs_committed rep = cr_epochs_planned rep"
      "cr_epochs_planned rep = (cr_walked rep + FIT_IO_CHECKPOINT_BLOCKS - 1) div FIT_IO_CHECKPOINT_BLOCKS"
    and run: "\<forall>fin. run_fit_driver env rcond prov solver_prov occ overwrite fin now secs dest =
       (let (res, s') = finish_fit (en_neg env \<noteq> None) rcond now secs fin rep s1 in (res, Some s'))"
    by blast
  have "\<not> fs_complete s1" using rs by (simp add: ready_store_def)
  moreover have "(en_neg env \<noteq> None) = fs_ordered s1"
    using matches_extents [of s1 _ _ _ ident "en_neg env \<noteq> None"] rs unfolding ready_store_def by blast
  ultimately have fin: "finish_fit (en_neg env \<noteq> None) rcond now secs False rep s1 =
      (Inr (lg1, rep), s1\<lparr>fs_receipt := Some (True, report_receipt (en_neg env \<noteq> None) rep secs)\<rparr>)"
    using receipt_written [OF lg1 _ all rcpt assms(7)] cnt by (simp add: parts_def)
  let ?s = "s1\<lparr>fs_receipt := Some (True, report_receipt (en_neg env \<noteq> None) rep secs)\<rparr>"
  have "run_fit_driver env rcond prov solver_prov occ overwrite False now secs dest = (Inr (lg1, rep), Some ?s)"
    using run [rule_format, of False] unfolding fin by simp
  moreover have "store_journal ?s = lg_journal lg1"
    using ledger_Inr [OF lg1] by (auto simp: store_journal_def)
  ultimately show ?thesis
    by (intro exI [of _ lg1] exI [of _ rep] exI [of _ ?s] conjI) (use all j pay cnt(1,2) in simp_all)
qed

theorem fit_run_completes_witness:
  "\<exists>lg rep s'. run_fit_driver (small_env Landed) (1/10) [] [] None False False ''t'' [Num 0] None = (Inr (lg, rep), Some s') \<and>
     store_journal s' = [(0, 0, 1), (0, 1, 2)] \<and> fs_payload s' (0, 1) = Some 7 \<and> cr_walked rep + cr_skipped rep = 2"
proof -
  have f: "fresh_or_partial (small_env Landed) [] [] None None" by (simp add: fresh_or_partial_def)
  have t: "secs_ok [Num 0]" by (simp add: secs_ok_def)
  have d: "kernel_data (small_env Landed) b 0 = 7" for b by (simp add: kernel_data_def small_env_def small_arg_def)
  from fit_run_completes [OF small_contract small_ready small_calm _ _ f t, of "1/10" False "''t''"] obtain lg rep s' where
    r: "run_fit_driver (small_env Landed) (1/10) [] [] None False False ''t'' [Num 0] None = (Inr (lg, rep), Some s')"
    and j: "store_journal s' = dest_journal (None :: nat fit_store option) @
        filter (\<lambda>b. b \<notin> set (dest_journal (None :: nat fit_store option))) [(0, 0, 1), (0, 1, 2)]"
    and c: "cr_walked rep + cr_skipped rep = int (length [(0, 0, 1), (0, 1, 2) :: fit_block])"
    and p: "\<forall>q lo hi c. (q, lo, hi) \<in> set [(0, 0, 1), (0, 1, 2)] \<and>
        (q, lo, hi) \<notin> set (dest_journal (None :: nat fit_store option)) \<and> lo \<le> c \<and> c < hi \<longrightarrow>
        fs_payload s' (q, c) = Some (kernel_data (small_env Landed) (q, lo, hi) (nat (c - lo)))"
    by fastforce
  have "fs_payload s' (0, 1) = Some 7" using p [rule_format, of 0 1 2 1] d by (simp add: dest_journal_def)
  then show ?thesis using r j c by (simp add: dest_journal_def)
qed

text \<open>
  C3: the finalizing run. It stamps the store complete, once; and the finalized store passes the
  consumer's validation exactly when the observed maxima respect the certification the run
  stamped, \<open>1 / rcond\<close> for the condition number and \<open>2 ^ -26\<close> for the backward error.
\<close>

theorem fit_run_finalizes:
  assumes "run_contract env prov solver_prov occ = Some (sched, ident)" "env_ready env" "calm env sched"
    and "0 < rcond" "rcond < 1" "fresh_or_partial env prov solver_prov occ dest"
  shows "\<exists>lg rep s' x y. run_fit_driver env rcond prov solver_prov occ overwrite True now secs dest = (Inr (lg, rep), Some s') \<and>
    fs_complete s' \<and> fs_utc s' = now \<and> lg_cond_max lg = Some x \<and> lg_berr_max lg = Some y \<and>
    ((\<exists>lg'. validate_fit_store s' [] None = Inr lg') \<longleftrightarrow>
       \<not> xf_less (Num (1 / rcond)) x \<and> \<not> xf_less (Num (1 / 2 ^ 26)) y)"
proof -
  from run_core [OF assms(1-6), of overwrite now secs] obtain rep s1 lg1 where
    lg1: "fit_completion_ledger s1 = Inr lg1" and rs: "ready_store env ident sched s1"
    and all: "bm_all (lg_done lg1)" and js: "set (lg_journal lg1) = set sched" and ne: "sched \<noteq> []"
    and run: "\<forall>fin. run_fit_driver env rcond prov solver_prov occ overwrite fin now secs dest =
       (let (res, s') = finish_fit (en_neg env \<noteq> None) rcond now secs fin rep s1 in (res, Some s'))"
    by blast
  from ledger_Inr [OF lg1] obtain led where led: "open_fit s1 = Inr led" "fs_led s1 = Some led"
    "lg_done lg1 = fl_done led" "lg_journal lg1 = fl_journal led" by blast
  have nc: "\<not> fs_complete s1" using rs by (simp add: ready_store_def)
  from rs have ledok: "length (fl_cond led) = length (fl_journal led)" "length (fl_berr led) = length (fl_journal led)"
    using led(2) by (auto simp: ready_store_def store_ok_def led_ok_def)
  have jne: "fl_journal led \<noteq> []" using js ne led(4) by auto
  let ?cert = "fit_certification rcond"
  let ?s = "s1\<lparr>fs_complete := True, fs_utc := now,
       fs_maxima := Some (max_or_zero (fl_cond led), max_or_zero (fl_berr led), length (fl_journal led)),
       fs_cert := ?cert @ filter (\<lambda>kv. fst kv \<notin> fst ` set ?cert) (fs_cert s1)\<rparr>"
  have req: "require_certification (Some ?cert) = None"
    using assms(4) by (simp add: require_certification_def fit_certification_def CERTIFICATION_METRICS_def)
  have lg2: "fit_completion_ledger ?s = Inr (lg1\<lparr>lg_complete := True, lg_utc := now, lg_cert := fs_cert ?s\<rparr>)"
    using lg1 led(2) by (auto simp: fit_completion_ledger_def open_fit_def has_dataset_def split: if_splits)
  let ?lg = "lg1\<lparr>lg_complete := True, lg_utc := now, lg_cert := fs_cert ?s\<rparr>"
  have finz: "finalize_fit_store (Some ?cert) False now s1 = (Inr ?lg, ?s)"
    using req led(1,3) nc all lg2 by (simp add: finalize_fit_store_def Let_def)
  have fin: "finish_fit (en_neg env \<noteq> None) rcond now secs True rep s1 = (Inr (?lg, rep), ?s)"
    using lg1 all finz lg2 by (simp add: finish_fit_def)
  have r: "run_fit_driver env rcond prov solver_prov occ overwrite True now secs dest = (Inr (?lg, rep), Some ?s)"
    using run [rule_format, of True] unfolding fin by simp
  obtain x y where xy: "lg_cond_max lg1 = Some x" "lg_berr_max lg1 = Some y"
  proof
    have "fl_cond led \<noteq> []" "fl_berr led \<noteq> []" using ledok jne by auto
    then show "lg_cond_max lg1 = Some (np_max (fl_cond led))" "lg_berr_max lg1 = Some (np_max (fl_berr led))"
      using ledger_Inr [OF lg1] led(2) by (auto simp: max_opt_def)
  qed
  from rs obtain l where l: "fit_completion_ledger s1 = Inr l" "validate_pole_payload_metadata s1 l = Inr ()"
    "identity_faults l (wh_n_q (sp_header (en_src env))) (wh_n_mu (sp_header (en_src env))) (en_n_p env) ident (en_neg env \<noteq> None) = []"
    by (auto simp: ready_store_def store_matches_def)
  have "id_unit ident = id_unit (sp_ident (en_src env))"
    using assms(1) by (auto simp: run_contract_def Let_def fit_identity_of_def split: sum.splits)
  then obtain u where unit: "id_unit (lg_identity ?lg) = Some u" "u \<in> fst ` set FIT_ENERGY_UNITS"
    using l(1,3) lg1 assms(2) by (auto simp: env_ready_def identity_faults_def split: if_splits)
  have meta: "validate_pole_payload_metadata ?s ?lg = Inr ()"
    using l(1,2) lg1 by (simp add: validate_pole_payload_metadata_def)
  have cert: "map_of (lg_cert ?lg) ''condition_max_allowed'' = Some (CertNum (Num (1 / rcond)))"
    "map_of (lg_cert ?lg) ''backward_error_max_allowed'' = Some (CertNum (Num (1 / 2 ^ 26)))"
    by (simp_all add: fit_certification_def)
  have pos: "\<not> xf_le (Num (1 / rcond)) (Num 0)" "\<not> xf_le (Num (1 / 2 ^ 26)) (Num 0)"
    using assms(4) by (simp_all add: xf_le_def)
  have miss: "filter (\<lambda>n. map_of (lg_cert ?lg) n = None) (map (\<lambda>k. k @ ''_max_allowed'') CERTIFICATION_METRICS) = []"
    by (simp add: fit_certification_def CERTIFICATION_METRICS_def)
  have comp: "lg_complete ?lg" "lg_cond_max ?lg = Some x" "lg_berr_max ?lg = Some y" using xy by simp_all
  have val: "validate_fit_store sf [] None = andthen (check_metric lf ''condition'' (Some x))
      (\<lambda>_. andthen (check_metric lf ''backward_error'' (Some y)) (\<lambda>_. Inr lf))"
    if "sf = ?s" "lf = ?lg" for sf lf
    using lg2 [folded that] unit [folded that] meta [folded that] miss [folded that] comp [folded that]
    by (simp add: validate_fit_store_def check_identity_def)
  have "(\<exists>lg'. validate_fit_store ?s [] None = Inr lg') \<longleftrightarrow>
       \<not> xf_less (Num (1 / rcond)) x \<and> \<not> xf_less (Num (1 / 2 ^ 26)) y"
    unfolding val [OF refl refl] using cert pos by (auto simp: check_metric_def split: if_splits)
  then show ?thesis
    by (intro exI [of _ ?lg] exI [of _ rep] exI [of _ ?s] exI [of _ x] exI [of _ y] conjI) (use r xy in simp_all)
qed

theorem fit_run_finalizes_witness:
  "\<exists>lg rep s'. run_fit_driver (small_env Landed) (1/10) [] [] None False True ''t'' [] None = (Inr (lg, rep), Some s') \<and>
     fs_complete s' \<and> fs_utc s' = ''t''"
proof -
  have f: "fresh_or_partial (small_env Landed) [] [] None None" by (simp add: fresh_or_partial_def)
  show ?thesis
    using fit_run_finalizes [OF small_contract small_ready small_calm _ _ f, of "1/10" False "''t''" "[]"] by auto
qed


section \<open>Write once\<close>

lemma complete_not_resumed:
  assumes "fs_complete s"
  shows "start_store False n_q n_mu n_p ident ordered sched (Some s) = Inl PartialIncompatible"
proof -
  have "lg_complete lg" if "validate_fit_store_for_resume s n_q n_mu n_p ident ordered sched = Inr lg" for lg
    using that assms ledger_Inr [of s lg]
    by (auto simp: validate_fit_store_for_resume_def Let_def split: if_splits)
  then show ?thesis by (auto simp: start_store_def split: sum.splits)
qed



end
