(* ===== verification/ShardingFit.thy ===== *)
theory ShardingFit
  imports Padding "HOL-Library.Sublist"
begin

text \<open>
  \<open>src/common/sharding_fit.py\<close>: a partition spec made legal for the extents at hand. \<open>shard_factor\<close>
  is the divisor of one spec entry, \<open>largest_divisible_subset\<close> the partial retention inside a
  tuple entry, \<open>legal_spec\<close> the whole degradation with the notice it prints once per site.

  The notice is the record of what its sentence quotes; the module-level set \<open>_ANNOUNCED\<close> is state
  passed through. Byte counts and the prose are left out, the ways each axis keeps are kept.
\<close>

section \<open>The code\<close>

datatype fit_spec_error = SpecPad pad_error

definition lift_pad :: "(pad_error, 'a) result \<Rightarrow> (fit_spec_error, 'a) result" where
  "lift_pad r = (case r of Inl e \<Rightarrow> Inl (SpecPad e) | Inr a \<Rightarrow> Inr a)"

definition shard_factor :: "mesh \<Rightarrow> spec_entry \<Rightarrow> (fit_spec_error, int) result" where
  "shard_factor m e = lift_pad (spec_divisor (OnMesh m) [e] 0)"

text \<open>\<open>itertools.combinations(range(n), k)\<close>, in its lexicographic order.\<close>

fun combinations :: "nat \<Rightarrow> 'a list \<Rightarrow> 'a list list" where
  "combinations 0 xs = [[]]"
| "combinations (Suc k) [] = []"
| "combinations (Suc k) (x # xs) = map ((#) x) (combinations k xs) @ combinations (Suc k) xs"

text \<open>\<open>padded_axis(ext, p).carrier == ext\<close>, the test both call sites use.\<close>

definition fits :: "int \<Rightarrow> int \<Rightarrow> (fit_spec_error, bool) result" where
  "fits ext p = andthen (lift_pad (padded_axis ext (Divisor p) ''candidate sharding spec'' None None None 0))
     (\<lambda>t. Inr (pa_carrier t = ext))"

text \<open>The first candidate that passes a fallible test, in order.\<close>

fun first_fit :: "('a \<Rightarrow> ('e, bool) result) \<Rightarrow> 'a list \<Rightarrow> ('e, 'a option) result" where
  "first_fit p [] = Inr None"
| "first_fit p (x # xs) = andthen (p x) (\<lambda>b. if b then Inr (Some x) else first_fit p xs)"

definition largest_divisible_subset ::
    "mesh \<Rightarrow> string list \<Rightarrow> int \<Rightarrow> (fit_spec_error, string list) result" where
  "largest_divisible_subset m names ext =
     (let candidates = concat (map (\<lambda>k. combinations k names) (rev [1..<length names]))
      in andthen (first_fit (\<lambda>picked. andthen (shard_factor m (Axes picked)) (fits ext)) candidates)
           (\<lambda>r. Inr (case r of None \<Rightarrow> [] | Some picked \<Rightarrow> picked)))"

record dropped_axis =
  dr_index :: nat
  dr_entry :: spec_entry
  dr_dim :: int
  dr_factor :: int
  dr_kept :: int

definition legal_entry ::
    "mesh \<Rightarrow> int list \<Rightarrow> nat \<Rightarrow> spec_entry \<Rightarrow> (fit_spec_error, spec_entry \<times> dropped_axis option) result" where
  "legal_entry m shape i e =
     andthen (shard_factor m e) (\<lambda>n.
       if n = 1 then Inr (e, None)
       else
         let ext = (if i < length shape then shape ! i else 0) in
         andthen (fits ext n) (\<lambda>ok.
           if ok then Inr (e, None)
           else
             let names = (case e of Axis _ \<Rightarrow> [] | Axes as \<Rightarrow> as | Rep \<Rightarrow> []) in
             andthen (if names \<noteq> [] then largest_divisible_subset m names ext else Inr []) (\<lambda>keep.
               if keep \<noteq> [] then
                 let kept = (case keep of [a] \<Rightarrow> Axis a | _ \<Rightarrow> Axes keep) in
                 andthen (shard_factor m kept) (\<lambda>k. Inr (kept, Some
                   \<lparr>dr_index = i, dr_entry = e, dr_dim = ext, dr_factor = n, dr_kept = k\<rparr>))
               else Inr (Rep, Some \<lparr>dr_index = i, dr_entry = e, dr_dim = ext, dr_factor = n, dr_kept = 1\<rparr>))))"

fun legal_entries ::
    "mesh \<Rightarrow> int list \<Rightarrow> nat \<Rightarrow> spec \<Rightarrow> (fit_spec_error, (spec_entry \<times> dropped_axis option) list) result" where
  "legal_entries m shape i [] = Inr []"
| "legal_entries m shape i (e # es) =
     andthen (legal_entry m shape i e) (\<lambda>r. andthen (legal_entries m shape (Suc i) es) (\<lambda>rs. Inr (r # rs)))"

type_synonym announce_key = "string \<times> spec \<times> int list"

record spec_notice =
  sn_site :: string
  sn_shape :: "int list"
  sn_from :: spec
  sn_to :: spec
  sn_dropped :: "dropped_axis list"

definition legal_spec ::
    "mesh \<Rightarrow> spec \<Rightarrow> int list \<Rightarrow> string \<Rightarrow> announce_key set \<Rightarrow>
     (fit_spec_error, spec \<times> spec_notice option \<times> announce_key set) result" where
  "legal_spec m sp shape what announced =
     andthen (legal_entries m shape 0 sp) (\<lambda>rs.
       let out = map fst rs; dropped = List.map_filter snd rs; key = (what, sp, shape) in
       if dropped = [] then Inr (sp, None, announced)
       else if key \<in> announced then Inr (out, None, announced)
       else Inr (out, Some \<lparr>sn_site = what, sn_shape = shape, sn_from = sp, sn_to = out, sn_dropped = dropped\<rparr>,
                 insert key announced))"

section \<open>What a legal spec is\<close>

text \<open>The number of shards an entry asks for, when the mesh has every axis it names.\<close>

definition ways :: "mesh \<Rightarrow> spec_entry \<Rightarrow> int" where
  "ways m e = prod_list (map (\<lambda>a. the (map_of m a)) (entry_names e))"

definition on_mesh :: "mesh \<Rightarrow> spec_entry \<Rightarrow> bool" where
  "on_mesh m e \<longleftrightarrow> (\<forall>a\<in>set (entry_names e). map_of m a \<noteq> None)"

definition wf_mesh :: "mesh \<Rightarrow> bool" where
  "wf_mesh m \<longleftrightarrow> (\<forall>(a, k)\<in>set m. 1 \<le> k)"

definition axis_dim :: "int list \<Rightarrow> nat \<Rightarrow> int" where
  "axis_dim shape i = (if i < length shape then shape ! i else 0)"

lemma shard_factor_ways: "on_mesh m e \<Longrightarrow> shard_factor m e = Inr (ways m e)"
proof -
  assume on: "on_mesh m e"
  have "mapE (mesh_size (OnMesh m)) (entry_names e) = Inr (map (\<lambda>a. the (map_of m a)) (entry_names e))"
    using on unfolding mapE_Inr_iff on_mesh_def by (auto simp: list.rel_map list_all2_same)
  then show ?thesis by (simp add: shard_factor_def spec_divisor_def py_index_def lift_pad_def ways_def)
qed

lemma shard_factor_missing: "\<not> on_mesh m e \<Longrightarrow> \<exists>x. shard_factor m e = Inl x"
proof -
  assume "\<not> on_mesh m e"
  then obtain a where a: "a \<in> set (entry_names e)" "map_of m a = None" by (auto simp: on_mesh_def)
  have "mapE (mesh_size (OnMesh m)) as \<noteq> Inr ks" if "a \<in> set as" for as ks
    using that a(2) by (induction as arbitrary: ks) auto
  then show ?thesis using a(1)
    by (cases "mapE (mesh_size (OnMesh m)) (entry_names e)")
       (auto simp: shard_factor_def spec_divisor_def py_index_def lift_pad_def)
qed

lemma ways_pos: "wf_mesh m \<Longrightarrow> on_mesh m e \<Longrightarrow> 1 \<le> ways m e"
proof -
  assume m: "wf_mesh m" "on_mesh m e"
  have "1 \<le> the (map_of m a)" if "a \<in> set (entry_names e)" for a
    using m that by (force simp: wf_mesh_def on_mesh_def dest: map_of_SomeD)
  then show ?thesis unfolding ways_def by (intro prod_list_ge_1) auto
qed

lemma fits_iff: "0 \<le> ext \<Longrightarrow> 1 \<le> p \<Longrightarrow> fits ext p = Inr (p dvd ext)"
proof -
  assume d: "0 \<le> ext" and p: "1 \<le> p"
  have nm: "py_strip ''candidate sharding spec'' \<noteq> []" by (simp add: py_strip_def py_isspace_def of_char_def)
  have "round_up ext p mod p = 0" using ru.carrier_dvd [of p ext] p by (auto simp: max_def dvd_eq_mod_eq_0 split: if_splits)
  then have "padded_axis ext (Divisor p) ''candidate sharding spec'' None None None 0 =
      Inr \<lparr>pa_name = py_strip ''candidate sharding spec'', pa_logical = ext, pa_carrier = round_up ext p, pa_divisor = p\<rparr>"
    using d p nm ru.carrier_ge [of ext p]
    by (simp add: padded_axis_def axis_divisor_def mk_padded_axis_def Let_def)
  then show ?thesis using ru.carrier_fixed_iff [OF p, of ext] by (simp add: fits_def lift_pad_def)
qed

lemma set_combinations: "set (combinations k xs) = {ys. length ys = k \<and> subseq ys xs}"
proof (induction k xs rule: combinations.induct)
  case (1 xs)
  then show ?case by auto
next
  case (2 k)
  then show ?case by auto
next
  case (3 k x xs)
  have "ys \<in> (#) x ` set (combinations k xs) \<union> set (combinations (Suc k) xs) \<longleftrightarrow>
      length ys = Suc k \<and> subseq ys (x # xs)" for ys
    unfolding 3 by (cases ys) (auto simp: subseq_Cons2_iff elim: subseq_Cons')
  then show ?case by auto
qed

lemma subseq_set: "subseq p xs \<Longrightarrow> set p \<subseteq> set xs"
  by (induction rule: list_emb.induct) auto

lemma first_fit_find:
  "\<forall>x\<in>set xs. p x = Inr (P x) \<Longrightarrow> first_fit p xs = Inr (find P xs)"
  by (induction xs) auto

text \<open>Candidates come longest first, so the first hit is a longest one.\<close>

lemma find_longest:
  assumes "\<And>k x. x \<in> set (f k) \<Longrightarrow> length x = k"
  shows "find P (concat (map f (rev [1..<n]))) = Some y \<Longrightarrow> x \<in> set (concat (map f (rev [1..<n]))) \<Longrightarrow> P x \<Longrightarrow>
     length x \<le> length y"
proof (induction n)
  case (Suc n)
  show ?case
  proof (cases "n = 0")
    case False
    then have e: "rev [1..<Suc n] = n # rev [1..<n]" by simp
    have find: "find P (xs @ ys) = (case find P xs of None \<Rightarrow> find P ys | Some v \<Rightarrow> Some v)" for xs ys :: "'a list list"
      by (induction xs) auto
    have lt: "length z < n" if "z \<in> set (concat (map f (rev [1..<n])))" for z using that assms by auto
    show ?thesis
    proof (cases "find P (f n)")
      case None
      then have "x \<notin> set (f n)" using Suc.prems(3) by (auto simp: find_None_iff)
      then show ?thesis using Suc.IH Suc.prems None unfolding e by (simp add: find)
    next
      case (Some v)
      then have "y = v" using Suc.prems(1) unfolding e by (simp add: find)
      moreover have "v \<in> set (f n)" using Some by (auto simp: find_Some_iff)
      ultimately have "y = v" "v \<in> set (f n)" by auto
      then have v: "length y = n" using assms by simp
      have "x \<in> set (f n) \<or> x \<in> set (concat (map f (rev [1..<n])))" using Suc.prems(2) unfolding e by simp
      then show ?thesis using lt [of x] assms [of x n] v by fastforce
    qed
  qed (use Suc in simp)
qed simp

lemma largest_divisible_subset_spec:
  assumes m: "wf_mesh m" "on_mesh m (Axes names)" and d: "0 \<le> ext"
  shows "\<exists>keep. largest_divisible_subset m names ext = Inr keep \<and> subseq keep names \<and>
     (keep \<noteq> [] \<longrightarrow> ways m (Axes keep) dvd ext) \<and>
     (\<forall>p. subseq p names \<and> length p < length names \<and> ways m (Axes p) dvd ext \<longrightarrow> length p \<le> length keep)"
proof -
  let ?c = "concat (map (\<lambda>k. combinations k names) (rev [1..<length names]))"
  let ?P = "\<lambda>p. ways m (Axes p) dvd ext"
  have mem: "p \<in> set ?c \<longleftrightarrow> subseq p names \<and> 1 \<le> length p \<and> length p < length names" for p
    by (auto simp: set_combinations)
  have on: "on_mesh m (Axes p)" if "subseq p names" for p
    using m(2) subseq_set [OF that] by (auto simp: on_mesh_def)
  have test: "\<forall>p\<in>set ?c. andthen (shard_factor m (Axes p)) (fits ext) = Inr (?P p)"
    using mem on shard_factor_ways ways_pos [OF m(1)] fits_iff [OF d] by simp
  note ff = first_fit_find [OF test]
  show ?thesis
  proof (cases "find ?P ?c")
    case None
    then have "length p = 0" if "subseq p names" "length p < length names" "?P p" for p
      using that mem [of p] by (auto simp: find_None_iff not_le)
    then show ?thesis using ff None by (auto simp: largest_divisible_subset_def)
  next
    case (Some y)
    have y: "y \<in> set ?c" "?P y" using find_Some_iff [of ?P ?c y] Some nth_mem [of _ ?c] by metis+
    have "length p \<le> length y" if "subseq p names" "length p < length names" "?P p" for p
    proof (cases "p = []")
      case False
      then have "p \<in> set ?c" using mem [of p] that by (simp add: Suc_le_eq)
      then show ?thesis using find_longest [of "\<lambda>k. combinations k names" ?P "length names" y p] Some that(3)
        by (simp add: set_combinations)
    qed simp
    then show ?thesis using ff Some y mem [of y] by (auto simp: largest_divisible_subset_def)
  qed
qed

definition entry_legal :: "mesh \<Rightarrow> int \<Rightarrow> spec_entry \<Rightarrow> spec_entry \<Rightarrow> bool" where
  "entry_legal m ext e e' \<longleftrightarrow> ways m e' dvd ext \<and> subseq (entry_names e') (entry_names e) \<and>
     (ways m e dvd ext \<longrightarrow> e' = e) \<and>
     (\<forall>p names. e = Axes names \<and> subseq p names \<and> ways m (Axes p) dvd ext \<longrightarrow> length p \<le> length (entry_names e'))"

lemma ways_single: "ways m (Axis a) = ways m (Axes [a])"
  by (simp add: ways_def)

lemma legal_entry_spec:
  assumes m: "wf_mesh m" "on_mesh m e" and d: "\<forall>k\<in>set shape. 0 \<le> k"
  shows "\<exists>e' dr. legal_entry m shape i e = Inr (e', dr) \<and> entry_legal m (axis_dim shape i) e e' \<and>
     (dr = None \<longleftrightarrow> ways m e dvd axis_dim shape i) \<and>
     (\<forall>r. dr = Some r \<longrightarrow> dr_index r = i \<and> dr_factor r = ways m e \<and> dr_kept r = ways m e')"
proof -
  let ?d = "axis_dim shape i"
  have d0: "0 \<le> ?d" using d by (auto simp: axis_dim_def)
  note n = shard_factor_ways [OF m(2)] ways_pos [OF m]
  have le: "length p \<le> length names" if "subseq p names" for p names :: "string list"
    using that by (rule list_emb_length)
  show ?thesis
  proof (cases "ways m e dvd ?d")
    case True
    have "legal_entry m shape i e = Inr (e, None)"
      using n fits_iff [OF d0 n(2)] True by (auto simp: legal_entry_def Let_def axis_dim_def)
    then show ?thesis using True le by (auto simp: entry_legal_def)
  next
    case False
    then have n1: "ways m e \<noteq> 1" by auto
    have fit: "fits (if i < length shape then shape ! i else 0) (ways m e) = Inr False"
      using fits_iff [OF d0 n(2)] False by (simp add: axis_dim_def)
    show ?thesis
    proof (cases e)
      case Rep
      then show ?thesis using n1 by (simp add: ways_def)
    next
      case (Axis a)
      have "legal_entry m shape i e = Inr (Rep, Some \<lparr>dr_index = i, dr_entry = e, dr_dim = ?d, dr_factor = ways m e, dr_kept = 1\<rparr>)"
        using n n1 fit Axis by (simp add: legal_entry_def Let_def axis_dim_def)
      then show ?thesis using False Axis by (simp add: entry_legal_def ways_def)
    next
      case (Axes names)
      have ne: "names \<noteq> []" using n1 Axes by (auto simp: ways_def)
      from largest_divisible_subset_spec [OF m(1) m(2) [unfolded Axes] d0] obtain keep where
        k: "largest_divisible_subset m names ?d = Inr keep" "subseq keep names" "keep \<noteq> [] \<longrightarrow> ways m (Axes keep) dvd ?d"
        and best: "\<forall>p. subseq p names \<and> length p < length names \<and> ways m (Axes p) dvd ?d \<longrightarrow> length p \<le> length keep"
        by blast
      have max: "length p \<le> length keep" if "subseq p names" "ways m (Axes p) dvd ?d" for p
      proof -
        have "p \<noteq> names" using that(2) False Axes by auto
        then have "length p < length names" using le [OF that(1)] subseq_same_length [OF that(1)] by (cases "length p = length names") auto
        then show ?thesis using best that by blast
      qed
      have kd: "largest_divisible_subset m names (if i < length shape then shape ! i else 0) = Inr keep"
        using k(1) by (simp add: axis_dim_def)
      define kept where "kept = (case keep of [] \<Rightarrow> Rep | [a] \<Rightarrow> Axis a | _ \<Rightarrow> Axes keep)"
      have kept: "entry_names kept = keep" "ways m kept = ways m (Axes keep)"
        by (auto simp: kept_def ways_def split: list.splits)
      have on: "on_mesh m kept"
        using m(2) kept(1) Axes subseq_set [OF k(2)] by (auto simp: on_mesh_def)
      have run: "legal_entry m shape i e = Inr (kept, Some
          \<lparr>dr_index = i, dr_entry = e, dr_dim = ?d, dr_factor = ways m e, dr_kept = ways m kept\<rparr>)"
      proof (cases keep)
        case Nil
        then show ?thesis using n n1 fit kd Axes ne by (simp add: legal_entry_def Let_def axis_dim_def kept_def ways_def)
      next
        case (Cons a as)
        have "(case keep of [a] \<Rightarrow> Axis a | _ \<Rightarrow> Axes keep) = kept" using Cons by (auto simp: kept_def split: list.splits)
        then show ?thesis
          using n n1 fit kd Axes ne Cons shard_factor_ways [OF on] by (simp add: legal_entry_def Let_def axis_dim_def)
      qed
      have "ways m kept dvd ?d" using k(3) kept(2) by (cases "keep = []") (auto simp: ways_def)
      then show ?thesis using run False k(2) kept max Axes by (auto simp: entry_legal_def)
    qed
  qed
qed

lemma legal_entries_spec:
  assumes m: "wf_mesh m" and d: "\<forall>k\<in>set shape. 0 \<le> k"
  shows "\<forall>e\<in>set es. on_mesh m e \<Longrightarrow> \<exists>rs. legal_entries m shape i es = Inr rs \<and> length rs = length es \<and>
     (\<forall>j<length es. entry_legal m (axis_dim shape (i + j)) (es ! j) (fst (rs ! j)) \<and>
        (snd (rs ! j) = None \<longleftrightarrow> ways m (es ! j) dvd axis_dim shape (i + j)) \<and>
        (\<forall>r. snd (rs ! j) = Some r \<longrightarrow> dr_index r = i + j \<and> dr_factor r = ways m (es ! j) \<and> dr_kept r = ways m (fst (rs ! j))))"
proof (induction es arbitrary: i)
  case (Cons e es)
  from legal_entry_spec [OF m _ d, of e i] Cons.prems obtain e' dr where
    one: "legal_entry m shape i e = Inr (e', dr)" "entry_legal m (axis_dim shape i) e e'"
      "dr = None \<longleftrightarrow> ways m e dvd axis_dim shape i"
      "\<forall>r. dr = Some r \<longrightarrow> dr_index r = i \<and> dr_factor r = ways m e \<and> dr_kept r = ways m e'" by auto
  from Cons.IH [of "Suc i"] Cons.prems obtain rs where
    rs: "legal_entries m shape (Suc i) es = Inr rs" "length rs = length es"
      "\<forall>j<length es. entry_legal m (axis_dim shape (Suc i + j)) (es ! j) (fst (rs ! j)) \<and>
        (snd (rs ! j) = None \<longleftrightarrow> ways m (es ! j) dvd axis_dim shape (Suc i + j)) \<and>
        (\<forall>r. snd (rs ! j) = Some r \<longrightarrow> dr_index r = Suc i + j \<and> dr_factor r = ways m (es ! j) \<and> dr_kept r = ways m (fst (rs ! j)))"
    by auto
  show ?case
  proof (rule exI [of _ "(e', dr) # rs"], intro conjI allI impI)
    fix j assume j: "j < length (e # es)"
    show "entry_legal m (axis_dim shape (i + j)) ((e # es) ! j) (fst (((e', dr) # rs) ! j))"
      using one rs j by (cases j) auto
    show "snd (((e', dr) # rs) ! j) = None \<longleftrightarrow> ways m ((e # es) ! j) dvd axis_dim shape (i + j)"
      using one rs j by (cases j) auto
    fix r assume "snd (((e', dr) # rs) ! j) = Some r"
    then show "dr_index r = i + j" "dr_factor r = ways m ((e # es) ! j)" "dr_kept r = ways m (fst (((e', dr) # rs) ! j))"
      using one rs j by (cases j; auto)+
  qed (use one rs in auto)
qed simp

lemma legal_spec_core:
  assumes m: "wf_mesh m" "\<forall>e\<in>set sp. on_mesh m e" and d: "\<forall>k\<in>set shape. 0 \<le> k"
  shows "\<exists>out notice ann. legal_spec m sp shape what announced = Inr (out, notice, ann) \<and> length out = length sp \<and>
    (\<forall>i<length sp. entry_legal m (axis_dim shape i) (sp ! i) (out ! i)) \<and>
    (out = sp \<longleftrightarrow> (\<forall>i<length sp. ways m (sp ! i) dvd axis_dim shape i)) \<and>
    (notice = None \<longleftrightarrow> out = sp \<or> (what, sp, shape) \<in> announced) \<and>
    ann = (if out = sp then announced else insert (what, sp, shape) announced)"
proof -
  from legal_entries_spec [OF m(1) d m(2), of 0] obtain rs where
    rs: "legal_entries m shape 0 sp = Inr rs" "length rs = length sp"
    and each: "\<forall>j<length sp. entry_legal m (axis_dim shape j) (sp ! j) (fst (rs ! j)) \<and>
        (snd (rs ! j) = None \<longleftrightarrow> ways m (sp ! j) dvd axis_dim shape j)"
    by auto
  let ?out = "map fst rs"
  have none: "List.map_filter snd rs = [] \<longleftrightarrow> (\<forall>j<length sp. ways m (sp ! j) dvd axis_dim shape j)"
  proof -
    have "List.map_filter snd xs = [] \<longleftrightarrow> (\<forall>r\<in>set xs. snd r = None)" for xs :: "(spec_entry \<times> dropped_axis option) list"
      by (induction xs) (auto simp: List.map_filter_simps split: option.splits)
    then show ?thesis using each rs(2) by (metis in_set_conv_nth)
  qed
  have same: "?out = sp \<longleftrightarrow> (\<forall>j<length sp. ways m (sp ! j) dvd axis_dim shape j)"
  proof
    assume "?out = sp"
    then show "\<forall>j<length sp. ways m (sp ! j) dvd axis_dim shape j"
      using each rs(2) by (metis entry_legal_def nth_map)
  next
    assume "\<forall>j<length sp. ways m (sp ! j) dvd axis_dim shape j"
    then show "?out = sp" using each rs(2) by (intro nth_equalityI) (auto simp: entry_legal_def)
  qed
  have entries: "\<forall>i<length sp. entry_legal m (axis_dim shape i) (sp ! i) (?out ! i)" using each rs(2) by simp
  show ?thesis
  proof (cases "List.map_filter snd rs = []")
    case True
    then have "legal_spec m sp shape what announced = Inr (sp, None, announced)" using rs by (simp add: legal_spec_def)
    then show ?thesis using True none same entries rs(2) by auto
  next
    case False
    then have "\<exists>notice. legal_spec m sp shape what announced = Inr (?out, notice, insert (what, sp, shape) announced) \<and>
        (notice = None \<longleftrightarrow> (what, sp, shape) \<in> announced)"
      using rs by (auto simp: legal_spec_def Let_def insert_absorb)
    then obtain notice where n: "legal_spec m sp shape what announced = Inr (?out, notice, insert (what, sp, shape) announced)"
      "notice = None \<longleftrightarrow> (what, sp, shape) \<in> announced" by blast
    have ne: "?out \<noteq> sp" using False none same by blast
    show ?thesis
      by (rule exI [of _ ?out], rule exI [of _ notice], rule exI [of _ "insert (what, sp, shape) announced"])
         (use n ne same entries rs(2) in \<open>simp only: if_False length_map simp_thms; blast\<close>)
  qed
qed

text \<open>
  the spec \<open>legal_spec\<close> returns is legal and as little degraded as it can be. Every entry of it
  divides its axis; an entry that was legal is untouched, and the whole spec is when all are; an
  entry only loses mesh axes, in order, and a tuple entry keeps a longest sub-tuple whose product
  divides. Legalizing the result again changes nothing and says nothing.
\<close>

theorem legal_spec_legal:
  assumes "wf_mesh m" "\<forall>e\<in>set sp. on_mesh m e" "\<forall>k\<in>set shape. 0 \<le> k"
  shows "\<exists>out notice ann. legal_spec m sp shape what announced = Inr (out, notice, ann) \<and> length out = length sp \<and>
    (\<forall>i<length sp. ways m (out ! i) dvd axis_dim shape i \<and> subseq (entry_names (out ! i)) (entry_names (sp ! i)) \<and>
       (ways m (sp ! i) dvd axis_dim shape i \<longrightarrow> out ! i = sp ! i) \<and>
       (\<forall>names p. sp ! i = Axes names \<and> subseq p names \<and> ways m (Axes p) dvd axis_dim shape i \<longrightarrow>
          length p \<le> length (entry_names (out ! i)))) \<and>
    (out = sp \<longleftrightarrow> (\<forall>i<length sp. ways m (sp ! i) dvd axis_dim shape i)) \<and>
    legal_spec m out shape what ann = Inr (out, None, ann)"
proof -
  from legal_spec_core [OF assms, of what announced] obtain out notice ann where
    r: "legal_spec m sp shape what announced = Inr (out, notice, ann)" "length out = length sp"
      "\<forall>i<length sp. entry_legal m (axis_dim shape i) (sp ! i) (out ! i)"
      "out = sp \<longleftrightarrow> (\<forall>i<length sp. ways m (sp ! i) dvd axis_dim shape i)" by blast
  have "on_mesh m e" if e: "e \<in> set out" for e
  proof -
    obtain i where i: "i < length sp" "e = out ! i" using e r(2) by (auto simp: in_set_conv_nth)
    have "on_mesh m (sp ! i)" using assms(2) i(1) by simp
    moreover have "set (entry_names e) \<subseteq> set (entry_names (sp ! i))"
      using subseq_set [of "entry_names e" "entry_names (sp ! i)"] r(3) i by (simp add: entry_legal_def)
    ultimately show ?thesis by (auto simp: on_mesh_def)
  qed
  then have on: "\<forall>e\<in>set out. on_mesh m e" by blast
  have "\<forall>i<length out. ways m (out ! i) dvd axis_dim shape i" using r(2,3) by (simp add: entry_legal_def)
  then have "legal_spec m out shape what ann = Inr (out, None, ann)"
    using legal_spec_core [OF assms(1) on assms(3), of what ann] by auto
  then show ?thesis
    using r by (intro exI [of _ out] exI [of _ notice] exI [of _ ann]) (auto simp: entry_legal_def)
qed

theorem legal_spec_legal_witness:
  "\<exists>out notice ann. legal_spec [(''x'', 8), (''y'', 8)] [Axes [''x'', ''y''], Rep] [32, 5] ''q'' {} = Inr (out, notice, ann) \<and>
     length out = 2 \<and> ways [(''x'', 8), (''y'', 8)] (out ! 0) dvd (32::int)"
proof -
  let ?m = "[(''x'', 8), (''y'', 8)]" and ?sp = "[Axes [''x'', ''y''], Rep]"
  have on: "wf_mesh ?m" "\<forall>e\<in>set ?sp. on_mesh ?m e" "\<forall>k\<in>set [32 :: int, 5]. 0 \<le> k"
    by (simp_all add: wf_mesh_def on_mesh_def)
  from legal_spec_legal [OF on, of "''q''" "{}"] obtain out notice ann where
    r: "legal_spec ?m ?sp [32, 5] ''q'' {} = Inr (out, notice, ann)" "length out = length ?sp"
    and d: "\<forall>i<length ?sp. ways ?m (out ! i) dvd axis_dim [32, 5] i"
    by blast
  have "ways ?m (out ! 0) dvd 32" using d [rule_format, of 0] by (simp add: axis_dim_def)
  then show ?thesis using r by auto
qed

text \<open>
  the degradation notice is printed once per site, spec and shape, and exactly when something
  was dropped: the first call that drops an axis announces it, a repeated one is silent, and the
  memo holds nothing else.
\<close>

theorem legal_spec_announces_once:
  assumes "wf_mesh m" "\<forall>e\<in>set sp. on_mesh m e" "\<forall>k\<in>set shape. 0 \<le> k"
    and "legal_spec m sp shape what announced = Inr (out, notice, ann)"
  shows "(notice = None \<longleftrightarrow> out = sp \<or> (what, sp, shape) \<in> announced) \<and>
    ann = (if out = sp then announced else insert (what, sp, shape) announced) \<and>
    legal_spec m sp shape what ann = Inr (out, None, ann)"
proof -
  from legal_spec_core [OF assms(1-3), of what announced] assms(4) have
    f: "notice = None \<longleftrightarrow> out = sp \<or> (what, sp, shape) \<in> announced"
      "ann = (if out = sp then announced else insert (what, sp, shape) announced)" by auto
  obtain rs where rs: "legal_entries m shape 0 sp = Inr rs"
    using assms(4) by (auto simp: legal_spec_def)
  have "legal_spec m sp shape what ann = Inr (out, None, ann)"
  proof (cases "List.map_filter snd rs = []")
    case True
    then show ?thesis using assms(4) rs by (auto simp: legal_spec_def)
  next
    case False
    then have "out = map fst rs \<and> (what, sp, shape) \<in> ann"
      using assms(4) rs by (auto simp: legal_spec_def Let_def split: if_splits)
    then show ?thesis using False rs by (simp add: legal_spec_def)
  qed
  then show ?thesis using f by blast
qed

theorem legal_spec_announces_once_witness:
  "\<exists>out notice. legal_spec [(''x'', 4)] [Axis ''x''] [785] ''cq'' {(''cq'', [Axis ''x''], [785])} =
       Inr (out, notice, {(''cq'', [Axis ''x''], [785])}) \<and> notice = None"
proof -
  have on: "wf_mesh [(''x'', 4)]" "\<forall>e\<in>set [Axis ''x'']. on_mesh [(''x'', 4)] e" "\<forall>k\<in>set [785 :: int]. 0 \<le> k"
    by (simp_all add: wf_mesh_def on_mesh_def)
  obtain out notice ann where r: "legal_spec [(''x'', 4)] [Axis ''x''] [785] ''cq'' {(''cq'', [Axis ''x''], [785])} = Inr (out, notice, ann)"
    using legal_spec_core [OF on] by blast
  show ?thesis using r legal_spec_announces_once [OF on r] by (auto split: if_splits)
qed

end
