(* ===== verification/NumPyOps.thy ===== *)
theory NumPyOps
  imports LxPrelude "HOL-Library.Product_Lexorder"
begin

text \<open>
  The NumPy and \<open>heapq\<close> operations that the host-side layout code is written in, on lists:
  \<open>np.unique\<close> with its two index arrays, stable \<open>argsort\<close>, fancy assignment, \<open>bincount\<close>,
  \<open>cumsum\<close>, \<open>split\<close>, slice assignment, \<open>reshape\<close> to rows, and the binary heap as the list of its
  items. An index array has type \<open>nat list\<close>; arrays of values are \<open>int list\<close>.
\<close>

section \<open>Index arrays\<close>

definition first_index :: "'a \<Rightarrow> 'a list \<Rightarrow> nat" where
  "first_index x xs = length (takeWhile (\<lambda>y. y \<noteq> x) xs)"

text \<open>\<open>np.unique(xs, return_index=True, return_inverse=True)\<close>.\<close>

definition np_unique :: "'a::linorder list \<Rightarrow> 'a list \<times> nat list \<times> nat list" where
  "np_unique xs =
     (let u = sort (remdups xs) in (u, map (\<lambda>x. first_index x xs) u, map (\<lambda>x. first_index x u) xs))"

text \<open>\<open>np.argsort(xs, kind="stable")\<close>.\<close>

definition np_argsort :: "'a::linorder list \<Rightarrow> nat list" where
  "np_argsort xs = sort_key (\<lambda>i. xs ! i) [0..<length xs]"

text \<open>\<open>base[idx] = vals\<close> and \<open>xs[idx]\<close>.\<close>

definition np_put :: "nat list \<Rightarrow> 'a list \<Rightarrow> 'a list \<Rightarrow> 'a list" where
  "np_put idx vals base = fold (\<lambda>(i, v) a. a[i := v]) (zip idx vals) base"

definition np_take :: "'a list \<Rightarrow> nat list \<Rightarrow> 'a list" where
  "np_take xs idx = map (\<lambda>i. xs ! i) idx"

text \<open>\<open>np.flatnonzero\<close> of a boolean array.\<close>

definition np_flatnonzero :: "bool list \<Rightarrow> nat list" where
  "np_flatnonzero bs = filter (\<lambda>i. bs ! i) [0..<length bs]"

text \<open>\<open>np.bincount(xs, minlength=m)\<close> of nonnegative values.\<close>

definition np_bincount :: "int list \<Rightarrow> int \<Rightarrow> int list" where
  "np_bincount xs m = map (\<lambda>k. int (count_list xs k)) [0..max (m - 1) (fold max xs (- 1))]"

fun np_cumsum_from :: "int \<Rightarrow> int list \<Rightarrow> int list" where
  "np_cumsum_from a [] = []"
| "np_cumsum_from a (x # xs) = (a + x) # np_cumsum_from (a + x) xs"

definition np_cumsum :: "int list \<Rightarrow> int list" where
  "np_cumsum xs = np_cumsum_from 0 xs"

text \<open>\<open>np.split(xs, stops)\<close> at increasing positions.\<close>

fun np_split_from :: "nat \<Rightarrow> 'a list \<Rightarrow> nat list \<Rightarrow> 'a list list" where
  "np_split_from p xs [] = [drop p xs]"
| "np_split_from p xs (s # ss) = take (s - p) (drop p xs) # np_split_from s xs ss"

definition np_split :: "'a list \<Rightarrow> nat list \<Rightarrow> 'a list list" where
  "np_split xs stops = np_split_from 0 xs stops"

text \<open>\<open>xs[a:a + len(rows)] = rows\<close>.\<close>

definition np_set_slice :: "nat \<Rightarrow> 'a list \<Rightarrow> 'a list \<Rightarrow> 'a list" where
  "np_set_slice a rows xs = take a xs @ rows @ drop (a + length rows) xs"

text \<open>\<open>xs.reshape(r, c)\<close>, row by row.\<close>

definition np_rows :: "nat \<Rightarrow> nat \<Rightarrow> 'a list \<Rightarrow> 'a list list" where
  "np_rows r c xs = map (\<lambda>i. take c (drop (i * c) xs)) [0..<r]"

section \<open>Facts\<close>

lemma first_index_lt: "x \<in> set xs \<Longrightarrow> first_index x xs < length xs"
  unfolding first_index_def by (induction xs) auto

lemma first_index_nth: "x \<in> set xs \<Longrightarrow> xs ! first_index x xs = x"
  unfolding first_index_def by (induction xs) auto

lemma first_index_le: "i < length xs \<Longrightarrow> first_index (xs ! i) xs \<le> i"
  unfolding first_index_def
proof (induction xs arbitrary: i)
  case (Cons a xs)
  then show ?case by (cases i) auto
qed simp

lemma first_index_inj: "x \<in> set xs \<Longrightarrow> y \<in> set xs \<Longrightarrow> first_index x xs = first_index y xs \<Longrightarrow> x = y"
  by (metis first_index_nth)

lemma first_index_distinct: "distinct xs \<Longrightarrow> i < length xs \<Longrightarrow> first_index (xs ! i) xs = i"
  by (metis first_index_lt first_index_nth nth_eq_iff_index_eq nth_mem)

lemma first_index_map: "inj_on f (insert x (set xs)) \<Longrightarrow> first_index (f x) (map f xs) = first_index x xs"
  unfolding first_index_def by (induction xs) (auto simp: inj_on_def)

lemma np_put_length [simp]: "length (np_put idx vals base) = length base"
proof -
  have "length (fold (\<lambda>(i, v) a. a[i := v]) ps base) = length base" for ps
    by (induction ps arbitrary: base) auto
  then show ?thesis by (simp add: np_put_def)
qed

lemma np_put_other: "j \<notin> set idx \<Longrightarrow> np_put idx vals base ! j = base ! j"
  unfolding np_put_def
proof (induction idx arbitrary: vals base)
  case (Cons i idx)
  then show ?case by (cases vals) auto
qed simp

lemma np_put_nth:
  "distinct idx \<Longrightarrow> k < length idx \<Longrightarrow> k < length vals \<Longrightarrow> idx ! k < length base \<Longrightarrow> np_put idx vals base ! (idx ! k) = vals ! k"
proof (induction idx arbitrary: vals base k)
  case (Cons i idx)
  from Cons.prems obtain v vs where v: "vals = v # vs" by (cases vals) auto
  have step: "np_put (i # idx) vals base = np_put idx vs (base[i := v])" by (simp add: np_put_def v)
  show ?case
  proof (cases k)
    case 0
    have "np_put idx vs (base[i := v]) ! i = v"
      using Cons.prems 0 np_put_other [of i idx vs "base[i := v]"] by simp
    then show ?thesis unfolding step using v 0 by simp
  next
    case (Suc k')
    have "np_put idx vs (base[i := v]) ! (idx ! k') = vs ! k'"
      using Cons.prems Suc v Cons.IH [of k' vs "base[i := v]"] by simp
    then show ?thesis unfolding step using v Suc by simp
  qed
qed simp

lemma np_argsort_mset: "mset (np_argsort xs) = mset [0..<length xs]"
  by (simp add: np_argsort_def)

lemma np_argsort_perm [simp]:
  "distinct (np_argsort xs)" "set (np_argsort xs) = {0..<length xs}" "length (np_argsort xs) = length xs"
  by (simp_all add: np_argsort_def)

lemma np_argsort_sorted: "sorted (map (\<lambda>i. xs ! i) (np_argsort xs))"
  by (simp add: np_argsort_def)

lemma fold_max_ge: "fold max xs (a :: int) \<ge> a"
proof (induction xs arbitrary: a)
  case (Cons x xs)
  then show ?case by (metis fold_simps(2) max.bounded_iff)
qed simp

lemma fold_max_le: "(\<forall>x\<in>set xs. x \<le> (b :: int)) \<Longrightarrow> a \<le> b \<Longrightarrow> fold max xs a \<le> b"
  by (induction xs arbitrary: a) auto

lemma fold_max_mem: "x \<in> set xs \<Longrightarrow> x \<le> fold max xs (a :: int)"
proof (induction xs arbitrary: a)
  case (Cons y xs)
  then show ?case using fold_max_ge [of "max y a" xs] by auto
qed simp

lemma np_bincount_range:
  assumes "\<forall>x\<in>set xs. x < m"
  shows "np_bincount xs m = map (\<lambda>k. int (count_list xs k)) [0..m - 1]"
proof (cases "1 \<le> m")
  case True
  have "fold max xs (- 1) \<le> m - 1" using assms True by (intro fold_max_le) auto
  then show ?thesis unfolding np_bincount_def by (simp only: max_absorb1)
next
  case False
  have "fold max xs (- 1) \<le> - 1"  using assms False by (intro fold_max_le) auto
  then have "max (m - 1) (fold max xs (- 1)) < 0" using False by simp
  then show ?thesis using False by (simp add: np_bincount_def)
qed

lemma upto_nth_eq: "[0..int n - 1] = map int [0..<n]"
  by (induction n) (simp_all add: upto_rec2)

lemma np_bincount_nat:
  assumes "\<forall>x\<in>set xs. x < int m"
  shows "np_bincount xs (int m) = map (\<lambda>k. int (count_list xs (int k))) [0..<m]"
  by (simp add: np_bincount_range [OF assms] upto_nth_eq)

lemma np_cumsum_split:
  "np_split_from p (replicate p u @ concat pieces) (map nat (butlast (np_cumsum_from (int p) (map (\<lambda>x. int (length x)) pieces)))) = pieces"
  if "pieces \<noteq> []" for p :: nat and u :: 'a
  using that
proof (induction pieces arbitrary: p)
  case (Cons x xs)
  show ?case
  proof (cases xs)
    case Nil
    then show ?thesis by simp
  next
    case (Cons y ys)
    have ne: "np_cumsum_from (int p + int (length x)) (map (\<lambda>x. int (length x)) xs) \<noteq> []"
      by (simp add: Cons)
    have drops: "np_split_from (p + length x) (replicate p u @ x @ zs) ss = np_split_from (p + length x) (replicate (p + length x) u @ zs) ss"
      if "\<forall>s\<in>set ss. p + length x \<le> s" for zs ss
    proof -
      have "np_split_from q (as @ zs) ss = np_split_from q (bs @ zs) ss"
        if "length as = length bs" "\<forall>s\<in>set ss. length as \<le> s" "length as \<le> q" for q ss and as bs :: "'a list"
        using that by (induction ss arbitrary: q) (auto simp: drop_append)
      from this [of "replicate p u @ x" "replicate (p + length x) u" ss "p + length x"] that show ?thesis by simp
    qed
    have mono: "\<forall>s\<in>set (np_cumsum_from a (map (\<lambda>x. int (length x)) zs)). a \<le> s" for a and zs :: "'a list list"
      by (induction zs arbitrary: a) fastforce+
    have IH: "np_split_from (p + length x) (replicate (p + length x) u @ concat xs)
        (map nat (butlast (np_cumsum_from (int (p + length x)) (map (\<lambda>x. int (length x)) xs)))) = xs"
      using Cons.IH [of "p + length x"] Cons by blast
    have ge: "\<forall>s\<in>set (map nat (butlast (np_cumsum_from (int (p + length x)) (map (\<lambda>x. int (length x)) xs)))). p + length x \<le> s"
      using mono [of "int (p + length x)" xs] by (fastforce dest: in_set_butlastD)
    have "nat (int p + int (length x)) = p + length x" by simp
    then show ?thesis using ne IH drops [OF ge, of "concat xs"] by simp
  qed
qed simp

lemma np_split_pieces:
  assumes "pieces \<noteq> []"
  shows "np_split (concat pieces) (map nat (butlast (np_cumsum (map (\<lambda>x. int (length x)) pieces)))) = pieces"
  using np_cumsum_split [OF assms, of 0] by (simp add: np_split_def np_cumsum_def)

text \<open>Rows sorted stably by a key with values below \<open>m\<close> are the key classes in order.\<close>

lemma sort_key_classes:
  assumes "\<forall>x\<in>set xs. f x < (m :: nat)"
  shows "sort_key f xs = concat (map (\<lambda>k. filter (\<lambda>x. f x = k) xs) [0..<m])"
proof (rule properties_for_sort_key)
  show "mset (concat (map (\<lambda>k. filter (\<lambda>x. f x = k) xs) [0..<m])) = mset xs"
  proof -
    have "(\<Sum>k\<leftarrow>[0..<m]. mset (filter (\<lambda>x. f x = k) xs)) = filter_mset (\<lambda>x. f x < m) (mset xs)" for m
    proof (induction m)
      case (Suc m)
      have "filter_mset (\<lambda>x. f x < Suc m) M = filter_mset (\<lambda>x. f x < m) M + filter_mset (\<lambda>x. f x = m) M" for M
        by (induction M) (auto simp: less_Suc_eq)
      then show ?case using Suc by simp
    qed simp
    moreover have "filter_mset (\<lambda>x. f x < m) (mset xs) = mset xs"
      using assms by (simp add: filter_mset_eq_conv)
    moreover have "mset (concat yss) = sum_list (map mset yss)" for yss :: "'a list list"
      by (induction yss) auto
    ultimately show ?thesis by (simp add: comp_def)
  qed
  show "filter (\<lambda>x. f k = f x) (concat (map (\<lambda>k. filter (\<lambda>x. f x = k) xs) [0..<m])) = filter (\<lambda>x. f k = f x) xs"
    if "k \<in> set (concat (map (\<lambda>k. filter (\<lambda>x. f x = k) xs) [0..<m]))" for k
  proof -
    have km: "f k < m" using that by auto
    have "filter (\<lambda>x. c = f x) (concat (map (\<lambda>k. filter (\<lambda>x. f x = k) xs) ks)) = (if c \<in> set ks then filter (\<lambda>x. c = f x) xs else [])"
      if "distinct ks" for ks c
      using that
    proof (induction ks)
      case (Cons k ks)
      have "filter (\<lambda>x. c = f x) (filter (\<lambda>x. f x = k) xs) = (if c = k then filter (\<lambda>x. c = f x) xs else [])"
        by (auto simp: filter_empty_conv intro!: filter_cong)
      then show ?case using Cons by auto
    qed simp
    then show ?thesis using km by simp
  qed
  show "sorted (map f (concat (map (\<lambda>k. filter (\<lambda>x. f x = k) xs) [0..<m])))"
  proof -
    have "sorted (map f (concat (map (\<lambda>k. filter (\<lambda>x. f x = k) xs) [0..<m])))" for m
    proof (induction m)
      case (Suc m)
      have "map f (filter (\<lambda>x. f x = m) xs) = replicate (length (filter (\<lambda>x. f x = m) xs)) m"
        by (induction xs) auto
      then show ?case using Suc by (auto simp: sorted_append)
    qed simp
    then show ?thesis .
  qed
qed

lemma np_rows_concat:
  assumes "\<forall>x\<in>set xss. length x = c"
  shows "np_rows (length xss) c (concat xss) = xss"
  using assms
proof (induction xss)
  case (Cons x xss)
  have "np_rows (length (x # xss)) c (concat (x # xss)) =
      take c (x @ concat xss) # map (\<lambda>i. take c (drop (Suc i * c) (x @ concat xss))) [0..<length xss]"
    by (simp add: np_rows_def upt_conv_Cons map_Suc_upt [symmetric] comp_def del: map_Suc_upt upt_Suc)
  also have "\<dots> = x # np_rows (length xss) c (concat xss)"
    using Cons.prems by (simp add: np_rows_def)
  finally show ?case using Cons by simp
qed (simp add: np_rows_def)

section \<open>A heap of pairs\<close>

text \<open>
  \<open>heapq\<close>: what a client relies on is the multiset of items, that \<open>heappop\<close> takes out a least one,
  and that \<open>heappush\<close> adds one.
\<close>

locale least_heap =
  fixes items :: "'h \<Rightarrow> 'x::linorder multiset"
    and pop :: "'h \<Rightarrow> 'x \<times> 'h"
    and push :: "'x \<Rightarrow> 'h \<Rightarrow> 'h"
  assumes pop_items: "items h \<noteq> {#} \<Longrightarrow> items h = add_mset (fst (pop h)) (items (snd (pop h)))"
    and pop_least: "x \<in># items h \<Longrightarrow> fst (pop h) \<le> x"
    and push_items: "items (push x h) = add_mset x (items h)"
begin

lemma pop_mem: "items h \<noteq> {#} \<Longrightarrow> fst (pop h) \<in># items h"
  using pop_items [of h] by (metis union_single_eq_member)

lemma replace_items:
  "items h = add_mset x M \<Longrightarrow> fst (pop h) = x \<Longrightarrow> items (push y (snd (pop h))) = add_mset y M"
  using pop_items [of h] push_items by (metis add_mset_add_single add_mset_not_empty add_right_cancel)

lemma replace_size: "items h \<noteq> {#} \<Longrightarrow> size (items (push y (snd (pop h)))) = size (items h)"
  using arg_cong [OF pop_items, of h size] push_items by simp

end

definition heappop :: "'a::linorder list \<Rightarrow> 'a \<times> 'a list" where
  "heappop h = (let x = min_list h in (x, remove1 x h))"

definition heappush :: "'a::linorder \<Rightarrow> 'a list \<Rightarrow> 'a list" where
  "heappush x h = x # h"

interpretation hq: least_heap mset heappop heappush
proof unfold_locales
  fix h :: "'a list" and x :: 'a
  show "mset h \<noteq> {#} \<Longrightarrow> mset h = add_mset (fst (heappop h)) (mset (snd (heappop h)))"
    by (simp add: heappop_def Let_def min_list_Min)
  show "x \<in># mset h \<Longrightarrow> fst (heappop h) \<le> x"
    by (cases "h = []") (auto simp: heappop_def Let_def min_list_Min)
  show "mset (heappush x h) = add_mset x (mset h)" by (simp add: heappush_def)
qed

end
