(* ===== verification/GroupedLayout.thy ===== *)
theory GroupedLayout
  imports NumPyOps Padding
begin

text \<open>
  \<open>src/common/grouped_layout.py\<close>: the packing of labelled rows into equal shards, every group whole
  on one shard. \<open>dense_labels\<close>, \<open>group_members\<close>, \<open>lpt_pack\<close> and \<open>place_shards\<close> are the stages of
  \<open>build_grouped_shard_layout\<close>, in its order; \<open>validate_grouped_shard_layout\<close> is the whole
  invariant check every layout passes before it is returned.

  A layout is immutable NumPy data: index arrays are \<open>int list\<close> (a pad is \<open>-1\<close>). The dtype, schema
  and writeable checks of the validator concern Python objects and are carried by the types here;
  the shape checks are kept. The int32 arrays hold labels, sizes and shard ids, all at most the row
  count: their dtype is exact below \<open>2 ^ 31\<close> rows, which the model takes for granted.
\<close>

section \<open>The code\<close>

record grouped_layout =
  gl_n_logical :: int
  gl_n_groups :: int
  gl_n_shards :: int
  gl_shard_size :: int
  gl_n_padded :: int
  gl_packed_to_canonical :: "int list"
  gl_canonical_to_packed :: "int list"
  gl_canonical_group_id :: "int list"
  gl_packed_group_id :: "int list"
  gl_active_mask :: "bool list"
  gl_group_owner :: "int list"
  gl_group_start :: "int list"
  gl_group_size :: "int list"
  gl_shard_load :: "int list"

datatype layout_error =
    EmptyGroupId
  | ShardsBelowOne int
  | MultipleBelowOne int
  | LayoutPad pad_error
  | CursorLoad nat
  | NonpositiveExtent
  | ShardGeometry
  | ArrayShape string
  | ActiveMask
  | PadSentinel
  | EmptyGroup
  | RowsNotPermutation
  | InverseMap
  | PackedInverse
  | GroupRange
  | FirstAppearance
  | GroupIdsDisagree
  | PadGroupSentinel
  | GroupSizes
  | GroupNotLocal int
  | OwnerInterval int
  | ShardLoads
  | PadsNotSuffix
  | AxisExtent int int
  | AxisScalar
  | MapShape int
  | MapNotInt64
  | MapRange
  | MapNotPermutation nat
  | MapCrossesShard nat int int int
  | NotSquareMesh "int list"
  | NotCompleteMesh int int

text \<open>Labels renumbered by first canonical appearance, and the number of groups.\<close>

definition dense_labels :: "int list \<Rightarrow> nat list \<times> nat" where
  "dense_labels labels =
     (let (uniq, first, inverse) = np_unique labels;
          old_in_first_order = np_argsort first;
          m = length old_in_first_order;
          dense_of_old = np_put old_in_first_order [0..<m] (replicate m 0)
      in (np_take dense_of_old inverse, m))"

definition group_sizes :: "nat list \<Rightarrow> nat \<Rightarrow> int list" where
  "group_sizes dense n_groups = np_bincount (map int dense) (int n_groups)"

definition group_members :: "nat list \<Rightarrow> nat \<Rightarrow> nat list list" where
  "group_members dense n_groups =
     (let stable_rows = np_argsort dense;
          stops = np_cumsum (group_sizes dense n_groups)
      in np_split stable_rows (map nat (butlast stops)))"

text \<open>Longest-processing-time packing: the state of its loop, one iteration, the loop.\<close>

record lpt_state =
  lpt_groups :: "nat list list"
  lpt_owner :: "nat list"
  lpt_loads :: "int list"
  lpt_heap :: "(int \<times> nat) list"

definition packing_order :: "int list \<Rightarrow> nat list" where
  "packing_order sizes = sort_key (\<lambda>g. (- (sizes ! g), g)) [0..<length sizes]"

definition lpt_init :: "nat \<Rightarrow> nat \<Rightarrow> lpt_state" where
  "lpt_init nshard n_groups =
     \<lparr>lpt_groups = replicate nshard [], lpt_owner = replicate n_groups 0,
      lpt_loads = replicate nshard 0, lpt_heap = map (\<lambda>shard. (0, shard)) [0..<nshard]\<rparr>"

definition lpt_step :: "int list \<Rightarrow> nat \<Rightarrow> lpt_state \<Rightarrow> lpt_state" where
  "lpt_step sizes g st =
     (let (least, h) = heappop (lpt_heap st);
          (load, owner) = least;
          load' = load + sizes ! g
      in \<lparr>lpt_groups = (lpt_groups st)[owner := lpt_groups st ! owner @ [g]],
          lpt_owner = (lpt_owner st)[g := owner],
          lpt_loads = (lpt_loads st)[owner := load'],
          lpt_heap = heappush (load', owner) h\<rparr>)"

definition lpt_pack :: "int list \<Rightarrow> nat \<Rightarrow> lpt_state" where
  "lpt_pack sizes nshard = fold (lpt_step sizes) (packing_order sizes) (lpt_init nshard (length sizes))"

text \<open>Writing the rows of the groups of a shard at the cursor, shard by shard.\<close>

record place_state =
  pl_rows :: "int list"
  pl_group :: "int list"
  pl_start :: "int list"
  pl_cursor :: int

definition place_group :: "nat list list \<Rightarrow> nat \<Rightarrow> place_state \<Rightarrow> place_state" where
  "place_group members g st =
     (let rows = members ! g; cursor = pl_cursor st; stop = cursor + int (length rows)
      in \<lparr>pl_rows = np_set_slice (nat cursor) (map int rows) (pl_rows st),
          pl_group = np_set_slice (nat cursor) (replicate (length rows) (int g)) (pl_group st),
          pl_start = (pl_start st)[g := cursor],
          pl_cursor = stop\<rparr>)"

fun place_shards ::
    "nat list list \<Rightarrow> int \<Rightarrow> int list \<Rightarrow> nat \<Rightarrow> nat list list \<Rightarrow> place_state \<Rightarrow> (layout_error, place_state) result" where
  "place_shards members shard_size loads owner [] st = Inr st"
| "place_shards members shard_size loads owner (groups # rest) st =
     (let st' = fold (place_group members) groups (st\<lparr>pl_cursor := int owner * shard_size\<rparr>)
      in if pl_cursor st' \<noteq> int owner * shard_size + loads ! owner then Inl (CursorLoad owner)
         else place_shards members shard_size loads (Suc owner) rest st')"

text \<open>The checks of \<open>validate_grouped_shard_layout\<close>, in order.\<close>

definition expect_shape :: "string \<Rightarrow> int \<Rightarrow> 'a list \<Rightarrow> (layout_error, unit) result" where
  "expect_shape nm n xs = (if int (length xs) \<noteq> n then Inl (ArrayShape nm) else Inr ())"

definition layout_shapes :: "grouped_layout \<Rightarrow> (layout_error, unit) result" where
  "layout_shapes l =
     andthen (expect_shape ''packed_to_canonical'' (gl_n_padded l) (gl_packed_to_canonical l)) (\<lambda>_.
     andthen (expect_shape ''canonical_to_packed'' (gl_n_logical l) (gl_canonical_to_packed l)) (\<lambda>_.
     andthen (expect_shape ''canonical_group_id'' (gl_n_logical l) (gl_canonical_group_id l)) (\<lambda>_.
     andthen (expect_shape ''packed_group_id'' (gl_n_padded l) (gl_packed_group_id l)) (\<lambda>_.
     andthen (expect_shape ''active_mask'' (gl_n_padded l) (gl_active_mask l)) (\<lambda>_.
     andthen (expect_shape ''group_owner'' (gl_n_groups l) (gl_group_owner l)) (\<lambda>_.
     andthen (expect_shape ''group_start'' (gl_n_groups l) (gl_group_start l)) (\<lambda>_.
     andthen (expect_shape ''group_size'' (gl_n_groups l) (gl_group_size l)) (\<lambda>_.
             expect_shape ''shard_load'' (gl_n_shards l) (gl_shard_load l)))))))))"

definition masked :: "bool list \<Rightarrow> 'a list \<Rightarrow> 'a list" where
  "masked bs xs = map snd (filter fst (zip bs xs))"

text \<open>\<open>first = full(n_groups, n); minimum.at(first, canonical_group, arange(n))\<close>.\<close>

definition first_rows :: "int \<Rightarrow> int \<Rightarrow> int list \<Rightarrow> int list" where
  "first_rows n_groups n ids =
     fold (\<lambda>(i, g) a. a[nat g := min (a ! nat g) i]) (zip [0..n - 1] ids) (replicate (nat n_groups) n)"

definition group_check :: "grouped_layout \<Rightarrow> int \<Rightarrow> (layout_error, unit) result" where
  "group_check l g =
     (let start = gl_group_start l ! nat g; stop = start + gl_group_size l ! nat g; s = gl_shard_size l
      in if start < 0 \<or> gl_n_padded l < stop \<or> start div s \<noteq> (stop - 1) div s then Inl (GroupNotLocal g)
         else if gl_group_owner l ! nat g \<noteq> start div s \<or>
              \<not> list_all (\<lambda>x. x = g) (take (nat (stop - start)) (drop (nat start) (gl_packed_group_id l)))
         then Inl (OwnerInterval g)
         else Inr ())"

definition validate_grouped_shard_layout :: "grouped_layout \<Rightarrow> (layout_error, grouped_layout) result" where
  "validate_grouped_shard_layout l =
     (let n = gl_n_logical l; G = gl_n_groups l; nsh = gl_n_shards l; s = gl_shard_size l; N = gl_n_padded l;
          packed = gl_packed_to_canonical l; inverse = gl_canonical_to_packed l; active = gl_active_mask l;
          canonical_group = gl_canonical_group_id l; packed_group = gl_packed_group_id l;
          active_rows = masked active packed; first = first_rows G n canonical_group in
      if min (min n G) (min nsh s) < 1 then Inl NonpositiveExtent
      else if N \<noteq> nsh * s \<or> N < n then Inl ShardGeometry
      else andthen (layout_shapes l) (\<lambda>_.
        if active \<noteq> map (\<lambda>x. 0 \<le> x) packed then Inl ActiveMask
        else if \<not> list_all (\<lambda>x. x = - 1) (masked (map Not active) packed) then Inl PadSentinel
        else if \<exists>x\<in>set (gl_group_size l). x \<le> 0 then Inl EmptyGroup
        else if int (length active_rows) \<noteq> n \<or> (\<exists>x\<in>set active_rows. x < 0) \<or> (\<exists>x\<in>set active_rows. n \<le> x) \<or>
             \<not> list_all (\<lambda>c. c = 1) (np_bincount active_rows n) then Inl RowsNotPermutation
        else if (\<exists>x\<in>set inverse. x < 0) \<or> (\<exists>x\<in>set inverse. N \<le> x) \<or>
             np_take packed (map nat inverse) \<noteq> [0..n - 1] then Inl InverseMap
        else if np_take inverse (map nat active_rows) \<noteq> map int (np_flatnonzero active) then Inl PackedInverse
        else if (\<exists>x\<in>set canonical_group. x < 0) \<or> (\<exists>x\<in>set canonical_group. G \<le> x) then Inl GroupRange
        else if first ! 0 \<noteq> 0 \<or> \<not> sorted_wrt (<) first then Inl FirstAppearance
        else if masked active packed_group \<noteq> np_take canonical_group (map nat active_rows) then Inl GroupIdsDisagree
        else if \<not> list_all (\<lambda>x. x = G) (masked (map Not active) packed_group) then Inl PadGroupSentinel
        else if gl_group_size l \<noteq> np_bincount canonical_group G then Inl GroupSizes
        else andthen (mapE (group_check l) [0..G - 1]) (\<lambda>_.
          if gl_shard_load l \<noteq> map (\<lambda>r. int (length (filter (\<lambda>x. x) r))) (np_rows (nat nsh) (nat s) active)
          then Inl ShardLoads
          else if np_rows (nat nsh) (nat s) active \<noteq>
              map (\<lambda>load. map (\<lambda>i. i < load) [0..s - 1]) (gl_shard_load l) then Inl PadsNotSuffix
          else Inr l)))"

definition lift_layout_pad :: "(pad_error, 'a) result \<Rightarrow> (layout_error, 'a) result" where
  "lift_layout_pad r = (case r of Inl e \<Rightarrow> Inl (LayoutPad e) | Inr a \<Rightarrow> Inr a)"

definition build_grouped_shard_layout :: "int list \<Rightarrow> int \<Rightarrow> int \<Rightarrow> (layout_error, grouped_layout) result" where
  "build_grouped_shard_layout labels n_shards multiple =
     (if labels = [] then Inl EmptyGroupId
      else if n_shards < 1 then Inl (ShardsBelowOne n_shards)
      else
        let (dense, n_groups) = dense_labels labels;
            nshard = nat n_shards;
            sizes = group_sizes dense n_groups;
            members = group_members dense n_groups;
            lpt = lpt_pack sizes nshard in
        if multiple < 1 then Inl (MultipleBelowOne multiple)
        else andthen (lift_layout_pad (padded_axis (fold max (lpt_loads lpt) 0) (Divisor multiple)
               ''grouped shard rows'' None None None 0)) (\<lambda>tag.
          let shard_size = pa_carrier tag;
              n_padded = n_shards * shard_size in
          andthen (place_shards members shard_size (lpt_loads lpt) 0 (lpt_groups lpt)
              \<lparr>pl_rows = replicate (nat n_padded) (- 1), pl_group = replicate (nat n_padded) (int n_groups),
               pl_start = replicate n_groups 0, pl_cursor = 0\<rparr>) (\<lambda>placed.
            let packed = pl_rows placed;
                active = map (\<lambda>x. 0 \<le> x) packed in
            validate_grouped_shard_layout
              \<lparr>gl_n_logical = int (length labels), gl_n_groups = int n_groups, gl_n_shards = n_shards,
               gl_shard_size = shard_size, gl_n_padded = n_padded,
               gl_packed_to_canonical = packed,
               gl_canonical_to_packed =
                 np_put (map nat (masked active packed)) (map int (np_flatnonzero active)) (replicate (length labels) 0),
               gl_canonical_group_id = map int dense,
               gl_packed_group_id = pl_group placed,
               gl_active_mask = active,
               gl_group_owner = map int (lpt_owner lpt),
               gl_group_start = pl_start placed,
               gl_group_size = sizes,
               gl_shard_load = lpt_loads lpt\<rparr>)))"



end
