(* ===== verification/GroupedPacking.thy ===== *)
theory GroupedPacking
  imports GroupedLayout
begin

text \<open>
  What the first stages of the layout builder compute: the dense labels are the positions in the
  order of first appearance, the members of a group are its rows in canonical order, and the
  packing loop keeps its shard lists, owners, loads and heap consistent. Two load bounds follow:
  the greedy one and the three-halves approximation of the best assignment.
\<close>

section \<open>Labels in the order they first appear\<close>

text \<open>The labels in the order of their first canonical row: what the dense numbering enumerates.\<close>

definition appearance :: "'a list \<Rightarrow> 'a list" where
  "appearance xs = rev (remdups (rev xs))"

lemma appearance_set [simp]: "set (appearance xs) = set xs" and appearance_distinct [simp]: "distinct (appearance xs)"
  by (simp_all add: appearance_def)

lemma appearance_Nil [simp]: "appearance xs = [] \<longleftrightarrow> xs = []"
  by (simp add: appearance_def)

lemma appearance_map: "inj_on f (set xs) \<Longrightarrow> appearance (map f xs) = map f (appearance xs)"
  by (induction xs rule: rev_induct) (auto simp: appearance_def inj_on_def)

lemma first_index_append: "first_index a (xs @ ys) = (if a \<in> set xs then first_index a xs else length xs + first_index a ys)"
  unfolding first_index_def by (induction xs) auto

lemma appearance_sorted: "sorted_wrt (\<lambda>a b. first_index a xs < first_index b xs) (appearance xs)"
proof (induction xs rule: rev_induct)
  case (snoc x xs)
  have eq: "first_index a (xs @ [x]) = first_index a xs" if "a \<in> set xs" for a
    using that by (simp add: first_index_append)
  have "sorted_wrt (\<lambda>a b. first_index a (xs @ [x]) < first_index b (xs @ [x])) (appearance xs)"
    using snoc by (rule sorted_wrt_mono_rel [rotated]) (simp add: eq)
  moreover have "first_index a (xs @ [x]) < first_index x (xs @ [x])" if "a \<in> set xs" "x \<notin> set xs" for a
    using that by (simp add: first_index_append first_index_lt trans_less_add1)
  ultimately show ?case by (auto simp: appearance_def sorted_wrt_append)
qed (simp add: appearance_def)

lemma strictly_sorted_unique:
  assumes "sorted_wrt (\<lambda>a b. f a < (f b :: nat)) xs" "sorted_wrt (\<lambda>a b. f a < f b) ys" "set xs = set ys"
  shows "xs = ys"
proof -
  have inj: "inj_on f (set zs)" if "sorted_wrt (\<lambda>a b. f a < f b) zs" for zs
    using that by (induction zs) (auto simp: inj_on_insert)
  have "map f ys = map f xs"
    using assms by (intro strict_sorted_equal) (auto simp: sorted_wrt_map)
  then show ?thesis
    using inj [OF assms(1)] assms(3) map_inj_on [of f xs ys] by simp
qed

lemma dense_labels_eq:
  "dense_labels labels = (map (\<lambda>x. first_index x (appearance labels)) labels, length (appearance labels))"
proof -
  define u where "u = sort (remdups labels)"
  define fi where "fi = map (\<lambda>x. first_index x labels) u"
  define ord where "ord = np_argsort fi"
  have u: "distinct u" "set u = set labels" by (simp_all add: u_def)
  have ord: "distinct ord" "set ord = {0..<length u}" "length ord = length u" by (simp_all add: ord_def fi_def)
  have "sorted (map (\<lambda>i. fi ! i) ord)" unfolding ord_def by (rule np_argsort_sorted)
  moreover have "distinct (map (\<lambda>i. fi ! i) ord)"
    using u ord by (auto simp: distinct_map inj_on_def fi_def first_index_inj nth_eq_iff_index_eq dest!: first_index_inj [rotated 2])
  ultimately have "sorted_wrt (<) (map (\<lambda>i. fi ! i) ord)" by (simp add: strict_sorted_iff)
  then have "sorted_wrt (\<lambda>i j. fi ! i < fi ! j) ord" by (simp add: sorted_wrt_map)
  then have "sorted_wrt (\<lambda>i j. first_index (u ! i) labels < first_index (u ! j) labels) ord"
    by (rule sorted_wrt_mono_rel [rotated]) (use ord in \<open>simp add: fi_def\<close>)
  then have "sorted_wrt (\<lambda>a b. first_index a labels < first_index b labels) (map ((!) u) ord)" by (simp add: sorted_wrt_map)
  moreover have "set (map ((!) u) ord) = set (appearance labels)"
    using u ord nth_image [of "length u" u] by simp
  ultimately have app: "map ((!) u) ord = appearance labels" by (intro strictly_sorted_unique [OF _ appearance_sorted])
  have val: "np_put ord [0..<length ord] (replicate (length ord) 0) ! first_index x u = first_index x (appearance labels)"
    if x: "x \<in> set labels" for x
  proof -
    define k where "k = first_index x (appearance labels)"
    have k: "k < length ord" "appearance labels ! k = x"
      using first_index_lt [of x "appearance labels"] first_index_nth [of x "appearance labels"] x arg_cong [OF app, of length] by (simp_all add: k_def)
    then have "u ! (ord ! k) = x" using app by (metis nth_map)
    moreover have "ord ! k < length u" using k ord nth_mem by fastforce
    ultimately have "first_index x u = ord ! k" using u(1) first_index_distinct by metis
    then show ?thesis using np_put_nth [OF ord(1), of k "[0..<length ord]" "replicate (length ord) 0"] k ord \<open>ord ! k < length u\<close>
      by (simp add: k_def)
  qed
  have len: "length ord = length (appearance labels)" using arg_cong [OF app, of length] by simp
  have "dense_labels labels = (np_take (np_put ord [0..<length ord] (replicate (length ord) 0)) (map (\<lambda>x. first_index x u) labels), length ord)"
    by (simp add: dense_labels_def np_unique_def u_def fi_def ord_def Let_def)
  also have "\<dots> = (map (\<lambda>x. first_index x (appearance labels)) labels, length (appearance labels))"
    using val len by (simp add: np_take_def)
  finally show ?thesis .
qed

section \<open>Groups and their members\<close>

lemma group_sizes_eq:
  "\<forall>x\<in>set dense. x < G \<Longrightarrow> group_sizes dense G = map (\<lambda>g. int (length (filter (\<lambda>i. dense ! i = g) [0..<length dense]))) [0..<G]"
proof -
  assume "\<forall>x\<in>set dense. x < G"
  then have "group_sizes dense G = map (\<lambda>k. int (count_list (map int dense) (int k))) [0..<G]"
    by (simp add: group_sizes_def np_bincount_nat)
  moreover have "count_list (map int dense) (int k) = length (filter (\<lambda>i. dense ! i = k) [0..<length dense])" for k
  proof -
    have "count_list (map int dense) (int k) = length (filter (\<lambda>x. x = k) dense)"
      by (induction dense) auto
    also have "dense = map ((!) dense) [0..<length dense]" by (simp add: map_nth)
    then have "length (filter (\<lambda>x. x = k) dense) = length (filter (\<lambda>x. x = k) (map ((!) dense) [0..<length dense]))" by simp
    finally show ?thesis by (simp add: filter_map comp_def)
  qed
  ultimately show ?thesis by simp
qed

lemma group_members_eq:
  assumes "\<forall>x\<in>set dense. x < G" "0 < G"
  shows "group_members dense G = map (\<lambda>g. filter (\<lambda>i. dense ! i = g) [0..<length dense]) [0..<G]"
proof -
  let ?pieces = "map (\<lambda>g. filter (\<lambda>i. dense ! i = g) [0..<length dense]) [0..<G]"
  have "np_argsort dense = concat ?pieces"
    unfolding np_argsort_def using assms(1) by (intro sort_key_classes) auto
  moreover have "group_sizes dense G = map (\<lambda>x. int (length x)) ?pieces"
    using group_sizes_eq [OF assms(1)] by (simp add: comp_def)
  ultimately show ?thesis
    using np_split_pieces [of ?pieces] assms(2) by (simp add: group_members_def Let_def)
qed

section \<open>Longest-processing-time packing\<close>

lemma packing_order_perm [simp]:
  "mset (packing_order sizes) = mset [0..<length sizes]" "distinct (packing_order sizes)" "set (packing_order sizes) = {0..<length sizes}"
  by (simp_all add: packing_order_def)

lemma packing_order_sorted: "sorted_wrt (\<lambda>g h. sizes ! h \<le> sizes ! g) (packing_order sizes)"
proof -
  have "sorted (map (\<lambda>g. (- (sizes ! g), g)) (packing_order sizes))" by (simp add: packing_order_def)
  then show ?thesis unfolding sorted_wrt_map by (rule sorted_wrt_mono_rel [rotated]) (auto simp: less_eq_prod_def)
qed

text \<open>What the loop keeps: shard contents, owners, loads and the heap describe one assignment.\<close>

definition lpt_inv :: "int list \<Rightarrow> nat \<Rightarrow> nat list \<Rightarrow> lpt_state \<Rightarrow> bool" where
  "lpt_inv sizes nsh ready st \<longleftrightarrow>
     length (lpt_groups st) = nsh \<and> length (lpt_loads st) = nsh \<and> length (lpt_owner st) = length sizes \<and>
     mset (lpt_heap st) = mset (map (\<lambda>s. (lpt_loads st ! s, s)) [0..<nsh]) \<and>
     (\<forall>s<nsh. lpt_loads st ! s = (\<Sum>g\<leftarrow>lpt_groups st ! s. sizes ! g) \<and> (\<forall>g\<in>set (lpt_groups st ! s). lpt_owner st ! g = s)) \<and>
     mset (concat (lpt_groups st)) = mset ready"

lemma lpt_init_inv: "lpt_inv sizes nsh [] (lpt_init nsh (length sizes))"
proof -
  have m: "map (Pair (0 :: int)) [0..<nsh] = map (\<lambda>s. (replicate nsh 0 ! s, s)) [0..<nsh]" by simp
  have "concat (replicate nsh []) = []" by (induction nsh) auto
  then show ?thesis by (simp add: lpt_inv_def lpt_init_def m del: mset_map)
qed

lemma mset_concat_update:
  "s < length xss \<Longrightarrow> mset (concat (xss[s := xss ! s @ [g]])) = add_mset g (mset (concat xss))"
proof (induction xss arbitrary: s)
  case (Cons x xss)
  then show ?case by (cases s) auto
qed simp

lemma mset_map_update:
  "s < n \<Longrightarrow> mset (map (\<lambda>i. (f(s := v)) i) [0..<n]) = add_mset v (mset (map f [0..<n]) - {#f s#})"
proof -
  assume s: "s < n"
  then have split: "[0..<n] = [0..<s] @ s # [Suc s..<n]" using upt_add_eq_append [of 0 s "n - s"] by (simp add: upt_conv_Cons)
  have "map (\<lambda>i. (f(s := v)) i) [0..<n] = map f [0..<s] @ v # map f [Suc s..<n]" unfolding split by simp
  moreover have "map f [0..<n] = map f [0..<s] @ f s # map f [Suc s..<n]" unfolding split by simp
  ultimately show ?thesis by (simp only: mset_append mset.simps) simp
qed

text \<open>One iteration: some shard \<open>s\<close> of least load takes the group.\<close>

lemma lpt_step_spec:
  assumes "lpt_inv sizes nsh ready st" "0 < nsh"
  shows "\<exists>s<nsh. (\<forall>t<nsh. lpt_loads st ! s \<le> lpt_loads st ! t) \<and>
     lpt_groups (lpt_step sizes g st) = (lpt_groups st)[s := lpt_groups st ! s @ [g]] \<and>
     lpt_loads (lpt_step sizes g st) = (lpt_loads st)[s := lpt_loads st ! s + sizes ! g] \<and>
     lpt_owner (lpt_step sizes g st) = (lpt_owner st)[g := s] \<and>
     lpt_heap (lpt_step sizes g st) = heappush (lpt_loads st ! s + sizes ! g, s) (snd (heappop (lpt_heap st))) \<and>
     fst (heappop (lpt_heap st)) = (lpt_loads st ! s, s)"
proof -
  have items: "mset (lpt_heap st) = mset (map (\<lambda>s. (lpt_loads st ! s, s)) [0..<nsh])" using assms(1) by (simp add: lpt_inv_def)
  have "(lpt_loads st ! 0, 0) \<in># mset (lpt_heap st)" unfolding items using assms(2) by simp
  then have "mset (lpt_heap st) \<noteq> {#}" by auto
  then have "fst (heappop (lpt_heap st)) \<in># mset (map (\<lambda>s. (lpt_loads st ! s, s)) [0..<nsh])"
    using hq.pop_mem [of "lpt_heap st"] items by simp
  then obtain s where s: "s < nsh" "fst (heappop (lpt_heap st)) = (lpt_loads st ! s, s)" by auto
  have least: "lpt_loads st ! s \<le> lpt_loads st ! t" if "t < nsh" for t
  proof -
    have "(lpt_loads st ! t, t) \<in># mset (lpt_heap st)" using that items by auto
    from hq.pop_least [OF this] show ?thesis using s(2) by (auto simp: less_eq_prod_def)
  qed
  obtain h where h: "heappop (lpt_heap st) = ((lpt_loads st ! s, s), h)" using s(2) by (cases "heappop (lpt_heap st)") auto
  show ?thesis using s least h by (intro exI [of _ s]) (auto simp: lpt_step_def Let_def)
qed

lemma lpt_step_inv:
  assumes "lpt_inv sizes nsh ready st" "0 < nsh" "g < length sizes" "g \<notin> set ready"
  shows "lpt_inv sizes nsh (ready @ [g]) (lpt_step sizes g st)"
proof -
  from lpt_step_spec [OF assms(1,2), of g] obtain s where
    s: "s < nsh" and r: "lpt_groups (lpt_step sizes g st) = (lpt_groups st)[s := lpt_groups st ! s @ [g]]"
      "lpt_loads (lpt_step sizes g st) = (lpt_loads st)[s := lpt_loads st ! s + sizes ! g]"
      "lpt_owner (lpt_step sizes g st) = (lpt_owner st)[g := s]"
      "lpt_heap (lpt_step sizes g st) = heappush (lpt_loads st ! s + sizes ! g, s) (snd (heappop (lpt_heap st)))"
      "fst (heappop (lpt_heap st)) = (lpt_loads st ! s, s)" by blast
  note inv = assms(1) [unfolded lpt_inv_def]
  let ?f = "\<lambda>t. (lpt_loads st ! t, t)" and ?v = "(lpt_loads st ! s + sizes ! g, s)"
  have "mset (lpt_heap st) = mset (map ?f [0..<nsh])" using inv by simp
  moreover have "?f s \<in># mset (map ?f [0..<nsh])" using s by simp
  ultimately have "mset (lpt_heap (lpt_step sizes g st)) = add_mset ?v (mset (map ?f [0..<nsh]) - {#?f s#})"
    using r(4,5) hq.replace_items [of "lpt_heap st" "?f s" "mset (map ?f [0..<nsh]) - {#?f s#}" ?v] by simp
  also have "\<dots> = mset (map (\<lambda>t. (?f(s := ?v)) t) [0..<nsh])" using mset_map_update [OF s, of ?f ?v] by simp
  also have "map (\<lambda>t. (?f(s := ?v)) t) [0..<nsh] = map (\<lambda>t. (lpt_loads (lpt_step sizes g st) ! t, t)) [0..<nsh]"
    using inv s by (auto simp: r(2) nth_list_update)
  finally have heap: "mset (lpt_heap (lpt_step sizes g st)) = mset (map (\<lambda>t. (lpt_loads (lpt_step sizes g st) ! t, t)) [0..<nsh])" .
  have new: "g \<notin> set (lpt_groups st ! t)" if "t < nsh" for t
  proof
    assume "g \<in> set (lpt_groups st ! t)"
    then have "g \<in> set (concat (lpt_groups st))" using that inv by auto
    then show False using inv assms(4) by (metis set_mset_mset)
  qed
  show ?thesis
    unfolding lpt_inv_def
  proof (intro conjI allI impI ballI)
    fix t assume t: "t < nsh"
    show "lpt_loads (lpt_step sizes g st) ! t = (\<Sum>g\<leftarrow>lpt_groups (lpt_step sizes g st) ! t. sizes ! g)"
      using inv t s by (cases "t = s") (auto simp: r(1,2))
    fix k assume "k \<in> set (lpt_groups (lpt_step sizes g st) ! t)"
    then show "lpt_owner (lpt_step sizes g st) ! k = t"
      using inv t s new assms(3) by (cases "t = s"; cases "k = g") (auto simp: r(1,3))
  qed (use inv s heap in \<open>auto simp: r(1,2,3) mset_concat_update\<close>)
qed

lemma lpt_fold:
  assumes "0 < nsh" "distinct gs" "set gs \<subseteq> {0..<length sizes}"
    and step: "\<And>ready st g s. lpt_inv sizes nsh ready st \<Longrightarrow> P ready st \<Longrightarrow> g \<notin> set ready \<Longrightarrow> g < length sizes \<Longrightarrow>
      (\<exists>rest. gs = ready @ g # rest) \<Longrightarrow> s < nsh \<Longrightarrow> (\<forall>t<nsh. lpt_loads st ! s \<le> lpt_loads st ! t) \<Longrightarrow>
      lpt_groups (lpt_step sizes g st) = (lpt_groups st)[s := lpt_groups st ! s @ [g]] \<Longrightarrow>
      lpt_loads (lpt_step sizes g st) = (lpt_loads st)[s := lpt_loads st ! s + sizes ! g] \<Longrightarrow> P (ready @ [g]) (lpt_step sizes g st)"
    and init: "P [] (lpt_init nsh (length sizes))"
  shows "lpt_inv sizes nsh gs (fold (lpt_step sizes) gs (lpt_init nsh (length sizes))) \<and>
    P gs (fold (lpt_step sizes) gs (lpt_init nsh (length sizes)))"
proof -
  have "\<exists>rest. gs = ready @ rest \<Longrightarrow> lpt_inv sizes nsh ready (fold (lpt_step sizes) ready (lpt_init nsh (length sizes))) \<and>
    P ready (fold (lpt_step sizes) ready (lpt_init nsh (length sizes)))" for ready
  proof (induction ready rule: rev_induct)
    case Nil
    then show ?case using lpt_init_inv init by simp
  next
    case (snoc g ready)
    let ?st = "fold (lpt_step sizes) ready (lpt_init nsh (length sizes))"
    obtain rest where rest: "gs = ready @ g # rest" using snoc.prems by auto
    then have g: "g \<notin> set ready" "g < length sizes" using assms(2,3) by auto
    have IH: "lpt_inv sizes nsh ready ?st" "P ready ?st" using snoc.IH rest by auto
    from lpt_step_spec [OF IH(1) assms(1), of g] obtain s where s: "s < nsh" "\<forall>t<nsh. lpt_loads ?st ! s \<le> lpt_loads ?st ! t"
      "lpt_groups (lpt_step sizes g ?st) = (lpt_groups ?st)[s := lpt_groups ?st ! s @ [g]]"
      "lpt_loads (lpt_step sizes g ?st) = (lpt_loads ?st)[s := lpt_loads ?st ! s + sizes ! g]" by blast
    then have "P (ready @ [g]) (lpt_step sizes g ?st)" using step [OF IH g _ s] rest by blast
    then show ?case using lpt_step_inv [OF IH(1) assms(1) g(2,1)] by simp
  qed
  then show ?thesis by simp
qed

lemma lpt_pack_inv: "0 < nsh \<Longrightarrow> lpt_inv sizes nsh (packing_order sizes) (lpt_pack sizes nsh)"
  using lpt_fold [of nsh "packing_order sizes" sizes "\<lambda>_ _. True"] by (simp add: lpt_pack_def)

lemma sum_list_update_int: "s < length xs \<Longrightarrow> sum_list (xs[s := v]) = sum_list xs - xs ! s + (v :: int)"
proof (induction xs arbitrary: s)
  case (Cons x xs)
  then show ?case by (cases s) auto
qed simp

lemma lpt_loads_sum:
  assumes "lpt_inv sizes nsh ready st"
  shows "sum_list (lpt_loads st) = (\<Sum>g\<leftarrow>ready. sizes ! g)"
proof -
  have "lpt_loads st = map (\<lambda>gs. \<Sum>g\<leftarrow>gs. sizes ! g) (lpt_groups st)"
    using assms by (intro nth_equalityI) (auto simp: lpt_inv_def)
  moreover have "sum_list (map (\<lambda>gs. \<Sum>g\<leftarrow>gs. sizes ! g) gss) = (\<Sum>g\<leftarrow>concat gss. sizes ! g)" for gss
    by (induction gss) auto
  moreover have "(\<Sum>g\<leftarrow>concat (lpt_groups st). sizes ! g) = (\<Sum>g\<leftarrow>ready. sizes ! g)"
  proof -
    have "image_mset ((!) sizes) (mset (concat (lpt_groups st))) = image_mset ((!) sizes) (mset ready)"
      using assms by (simp add: lpt_inv_def)
    then show ?thesis by (metis mset_map sum_mset_sum_list)
  qed
  ultimately show ?thesis by simp
qed

lemma packing_total: "(\<Sum>g\<leftarrow>packing_order sizes. sizes ! g) = sum_list sizes"
proof -
  have "image_mset ((!) sizes) (mset (packing_order sizes)) = mset sizes"
    by (simp only: packing_order_perm mset_map [symmetric] map_nth)
  then show ?thesis by (metis mset_map sum_mset_sum_list)
qed

lemma all_less_Suc_shift: "(\<forall>t<Suc n. P t) \<longleftrightarrow> P 0 \<and> (\<forall>t<n. P (Suc t))"
  using less_Suc_eq_0_disj by auto

lemma least_load_average:
  assumes "length loads = nsh" "\<forall>t<nsh. (l :: int) \<le> loads ! t"
  shows "int nsh * l \<le> sum_list loads"
  using assms
proof (induction loads arbitrary: nsh)
  case (Cons x xs)
  then obtain m where m: "nsh = Suc m" by (cases nsh) auto
  have "int m * l \<le> sum_list xs" using Cons.prems m Cons.IH [of m] by (auto simp: all_less_Suc_shift)
  moreover have "l \<le> x" using Cons.prems m by (auto simp: all_less_Suc_shift)
  ultimately show ?case using m by (simp add: algebra_simps)
qed simp

text \<open>The greedy bound: no load exceeds the average by more than \<open>(1 - 1/m)\<close> of the largest group.\<close>

lemma lpt_greedy_bound:
  assumes "0 < nsh" "\<forall>z\<in>set sizes. 0 \<le> z \<and> z \<le> M" "s < nsh" "0 \<le> M"
  shows "int nsh * lpt_loads (lpt_pack sizes nsh) ! s \<le> sum_list sizes + (int nsh - 1) * M"
proof -
  let ?P = "\<lambda>ready st. \<forall>s<nsh. int nsh * lpt_loads st ! s \<le> sum_list (lpt_loads st) + (int nsh - 1) * M"
  have "lpt_inv sizes nsh (packing_order sizes) (lpt_pack sizes nsh) \<and> ?P (packing_order sizes) (lpt_pack sizes nsh)"
    unfolding lpt_pack_def
  proof (rule lpt_fold)
    fix ready st g s
    assume inv: "lpt_inv sizes nsh ready st" and P: "?P ready st" and g: "g < length sizes" and s: "s < nsh"
      "\<forall>t<nsh. lpt_loads st ! s \<le> lpt_loads st ! t" "lpt_loads (lpt_step sizes g st) = (lpt_loads st)[s := lpt_loads st ! s + sizes ! g]"
    have len: "length (lpt_loads st) = nsh" using inv by (simp add: lpt_inv_def)
    have z: "0 \<le> sizes ! g" "sizes ! g \<le> M" using assms(2) g by auto
    have sum: "sum_list (lpt_loads (lpt_step sizes g st)) = sum_list (lpt_loads st) + sizes ! g"
      using s len by (simp add: sum_list_update_int)
    show "?P (ready @ [g]) (lpt_step sizes g st)"
    proof (intro allI impI)
      fix t assume t: "t < nsh"
      show "int nsh * lpt_loads (lpt_step sizes g st) ! t \<le> sum_list (lpt_loads (lpt_step sizes g st)) + (int nsh - 1) * M"
      proof (cases "t = s")
        case False
        then have "lpt_loads (lpt_step sizes g st) ! t = lpt_loads st ! t" using s(3) by simp
        then show ?thesis using P [rule_format, OF t] z(1) unfolding sum by arith
      next
        case True
        have "(int nsh - 1) * sizes ! g \<le> (int nsh - 1) * M" using z assms(1) by (intro mult_left_mono) auto
        moreover have "int nsh * lpt_loads st ! s \<le> sum_list (lpt_loads st)" using least_load_average [OF len s(2)] .
        moreover have "lpt_loads (lpt_step sizes g st) ! t = lpt_loads st ! s + sizes ! g" using True t len s(3) by simp
        ultimately show ?thesis unfolding sum by (simp add: algebra_simps)
      qed
    qed
  next
    have "0 \<le> (int nsh - 1) * M" using assms(1,4) by simp
    moreover have "sum_list (replicate nsh (0 :: int)) = 0" by (induction nsh) auto
    ultimately show "?P [] (lpt_init nsh (length sizes))" by (simp add: lpt_init_def)
  qed (use assms in simp_all)
  then show ?thesis using lpt_loads_sum [of sizes nsh "packing_order sizes" "lpt_pack sizes nsh"] packing_total [of sizes] assms(3) by simp
qed

text \<open>The approximation bound: a load is at most three halves of the largest load of any assignment.\<close>

definition lpt_tight :: "int list \<Rightarrow> nat \<Rightarrow> nat list \<Rightarrow> lpt_state \<Rightarrow> bool" where
  "lpt_tight sizes nsh ready st \<longleftrightarrow> (\<forall>s<nsh. length (lpt_groups st ! s) \<le> 1 \<or>
     (\<exists>g\<in>set ready. \<exists>A. A \<subseteq> set ready \<and> card A = Suc nsh \<and> (\<forall>a\<in>A. sizes ! g \<le> sizes ! a) \<and>
        int nsh * (lpt_loads st ! s - sizes ! g) \<le> sum_list (lpt_loads st)))"

lemma lpt_all_busy:
  assumes "lpt_inv sizes nsh ready st" "\<forall>s<nsh. lpt_groups st ! s \<noteq> []"
  shows "nsh \<le> length ready"
proof -
  have "length gss \<le> length (concat gss)" if "\<forall>gs\<in>set gss. gs \<noteq> []" for gss :: "nat list list"
    using that
  proof (induction gss)
    case (Cons gs gss)
    then show ?case by (cases gs) auto
  qed simp
  moreover have "\<forall>gs\<in>set (lpt_groups st). gs \<noteq> []" using assms by (auto simp: in_set_conv_nth lpt_inv_def)
  moreover have "length (concat (lpt_groups st)) = length ready" using assms(1) by (metis lpt_inv_def size_mset)
  ultimately show ?thesis using assms(1) by (metis lpt_inv_def)
qed

lemma lpt_pack_tight:
  assumes "0 < nsh" "\<forall>z\<in>set sizes. 0 < z"
  shows "lpt_tight sizes nsh (packing_order sizes) (lpt_pack sizes nsh)"
proof -
  have "lpt_inv sizes nsh (packing_order sizes) (lpt_pack sizes nsh) \<and> lpt_tight sizes nsh (packing_order sizes) (lpt_pack sizes nsh)"
    unfolding lpt_pack_def
  proof (rule lpt_fold)
    fix ready st g s
    assume inv: "lpt_inv sizes nsh ready st" and P: "lpt_tight sizes nsh ready st" and g: "g < length sizes" "g \<notin> set ready"
      and split: "\<exists>rest. packing_order sizes = ready @ g # rest" and s: "s < nsh"
      "\<forall>t<nsh. lpt_loads st ! s \<le> lpt_loads st ! t"
      "lpt_groups (lpt_step sizes g st) = (lpt_groups st)[s := lpt_groups st ! s @ [g]]"
      "lpt_loads (lpt_step sizes g st) = (lpt_loads st)[s := lpt_loads st ! s + sizes ! g]"
    have len: "length (lpt_loads st) = nsh" "length (lpt_groups st) = nsh" using inv by (simp_all add: lpt_inv_def)
    have z: "0 < sizes ! g" using assms(2) g by auto
    have sum: "sum_list (lpt_loads (lpt_step sizes g st)) = sum_list (lpt_loads st) + sizes ! g"
      using s len by (simp add: sum_list_update_int)
    have big: "\<forall>a\<in>set ready. sizes ! g \<le> sizes ! a"
      using split packing_order_sorted [of sizes] by (auto simp: sorted_wrt_append)
    show "lpt_tight sizes nsh (ready @ [g]) (lpt_step sizes g st)"
      unfolding lpt_tight_def
    proof (intro allI impI)
      fix t assume t: "t < nsh"
      show "length (lpt_groups (lpt_step sizes g st) ! t) \<le> 1 \<or>
        (\<exists>h\<in>set (ready @ [g]). \<exists>A. A \<subseteq> set (ready @ [g]) \<and> card A = Suc nsh \<and> (\<forall>a\<in>A. sizes ! h \<le> sizes ! a) \<and>
          int nsh * (lpt_loads (lpt_step sizes g st) ! t - sizes ! h) \<le> sum_list (lpt_loads (lpt_step sizes g st)))"
      proof (cases "t = s")
        case False
        then have same: "lpt_groups (lpt_step sizes g st) ! t = lpt_groups st ! t" "lpt_loads (lpt_step sizes g st) ! t = lpt_loads st ! t"
          using s by simp_all
        from P t consider "length (lpt_groups st ! t) \<le> 1" |
          h A where "h \<in> set ready" "A \<subseteq> set ready" "card A = Suc nsh" "\<forall>a\<in>A. sizes ! h \<le> sizes ! a"
            "int nsh * (lpt_loads st ! t - sizes ! h) \<le> sum_list (lpt_loads st)"
          unfolding lpt_tight_def by blast
        then show ?thesis
        proof cases
          case 2
          then have "int nsh * (lpt_loads st ! t - sizes ! h) \<le> sum_list (lpt_loads st) + sizes ! g" using z by linarith
          then show ?thesis using 2 unfolding same sum by (intro disjI2 bexI [of _ h] exI [of _ A]) auto
        qed (simp add: same)
      next
        case True
        show ?thesis
        proof (cases "lpt_groups st ! s = []")
          case True
          then show ?thesis using \<open>t = s\<close> s len by simp
        next
          case False
          have zs: "0 < sizes ! h" if "h \<in> set (lpt_groups st ! u)" "u < nsh" for h u
          proof -
            have "h \<in> set (concat (lpt_groups st))" using that len by auto
            then have "h \<in> set ready" using inv by (metis lpt_inv_def set_mset_mset)
            then have "h \<in> set (packing_order sizes)" using split by (auto simp del: packing_order_perm)
            then have "h < length sizes" by (simp only: packing_order_perm) simp
            then show ?thesis using assms(2) by simp
          qed
          have pos: "0 < (\<Sum>h\<leftarrow>hs. sizes ! h)" if "\<forall>h\<in>set hs. 0 < sizes ! h" "hs \<noteq> []" for hs
            using that by (induction hs) (auto, metis add_pos_pos add.right_neutral list.map_disc_iff sum_list.Nil)
          have "0 < lpt_loads st ! s" using pos [of "lpt_groups st ! s"] zs s(1) False inv by (auto simp: lpt_inv_def)
          then have "lpt_groups st ! u \<noteq> []" if "u < nsh" for u
            using s(2) that inv by (fastforce simp: lpt_inv_def)
          then have "nsh \<le> length ready" using lpt_all_busy [OF inv] by blast
          moreover have dist: "distinct (ready @ [g])" using split packing_order_perm(2) [of sizes] by (auto simp del: packing_order_perm)
          ultimately have "Suc nsh \<le> card (set (ready @ [g]))" by (metis Suc_le_mono distinct_card length_append_singleton)
          then obtain A where A: "A \<subseteq> set (ready @ [g])" "card A = Suc nsh" by (meson obtain_subset_with_card_n)
          have "\<forall>a\<in>A. sizes ! g \<le> sizes ! a" using A(1) big by auto
          moreover have "int nsh * (lpt_loads (lpt_step sizes g st) ! t - sizes ! g) \<le> sum_list (lpt_loads (lpt_step sizes g st))"
          proof -
            have "lpt_loads (lpt_step sizes g st) ! t = lpt_loads st ! s + sizes ! g" using True s(1,4) len by simp
            then show ?thesis using least_load_average [OF len(1) s(2)] z unfolding sum by simp
          qed
          ultimately show ?thesis using A by (intro disjI2 bexI [of _ g] exI [of _ A]) auto
        qed
      qed
    qed
  next
    show "lpt_tight sizes nsh [] (lpt_init nsh (length sizes))" by (simp add: lpt_tight_def lpt_init_def)
  qed (use assms in simp_all)
  then show ?thesis by blast
qed

text \<open>The load an assignment \<open>f\<close> of groups to shards puts on shard \<open>t\<close>.\<close>

definition assigned_load :: "int list \<Rightarrow> (nat \<Rightarrow> nat) \<Rightarrow> nat \<Rightarrow> int" where
  "assigned_load sizes f t = (\<Sum>g | g < length sizes \<and> f g = t. sizes ! g)"

lemma assigned_average:
  assumes "\<forall>g<length sizes. f g < nsh" "\<forall>t<nsh. assigned_load sizes f t \<le> T"
  shows "sum_list sizes \<le> int nsh * T"
proof -
  have "sum_list sizes = (\<Sum>g<length sizes. sizes ! g)"
    by (simp add: sum_list_sum_nth atLeast0LessThan)
  also have "\<dots> = (\<Sum>t<nsh. assigned_load sizes f t)"
    using assms(1) sum.group [of "{..<length sizes}" "{..<nsh}" f "\<lambda>g. sizes ! g"]
    by (subst sum.group [symmetric, of "{..<length sizes}" "{..<nsh}" f]) (auto simp: assigned_load_def)
  also have "\<dots> \<le> (\<Sum>t<nsh. T)" using assms(2) by (intro sum_mono) auto
  finally show ?thesis by simp
qed

lemma assigned_ge:
  assumes "\<forall>z\<in>set sizes. 0 < z" "B \<subseteq> {g. g < length sizes \<and> f g = t}"
  shows "(\<Sum>g\<in>B. sizes ! g) \<le> assigned_load sizes f t"
  unfolding assigned_load_def using assms by (intro sum_mono2) (auto simp: order_less_imp_le)

lemma lpt_three_halves_bound:
  assumes "0 < nsh" "\<forall>z\<in>set sizes. 0 < z" "\<forall>g<length sizes. f g < nsh" "\<forall>t<nsh. assigned_load sizes f t \<le> T" "s < nsh"
  shows "2 * lpt_loads (lpt_pack sizes nsh) ! s \<le> 3 * T"
proof -
  let ?st = "lpt_pack sizes nsh"
  note inv = lpt_pack_inv [OF assms(1), of sizes]
  have one: "sizes ! g \<le> T" if "g < length sizes" for g
    using assigned_ge [OF assms(2), of "{g}" f "f g"] assms(3,4) that by fastforce
  have T0: "0 \<le> T"
    using assigned_ge [OF assms(2), of "{}" f 0] assms(1,4) by fastforce
  have load: "lpt_loads ?st ! s = (\<Sum>g\<leftarrow>lpt_groups ?st ! s. sizes ! g)" using inv assms(5) by (simp add: lpt_inv_def)
  have mem: "g < length sizes" if "g \<in> set (lpt_groups ?st ! s)" for g
  proof -
    have "g \<in> set (concat (lpt_groups ?st))" using that assms(5) inv by (auto simp: lpt_inv_def)
    then have "g \<in> set (packing_order sizes)" using inv by (metis lpt_inv_def set_mset_mset)
    then show ?thesis by simp
  qed
  from lpt_pack_tight [OF assms(1,2)] assms(5) consider "length (lpt_groups ?st ! s) \<le> 1" |
    g A where "g \<in> set (packing_order sizes)" "A \<subseteq> set (packing_order sizes)" "card A = Suc nsh" "\<forall>a\<in>A. sizes ! g \<le> sizes ! a"
      "int nsh * (lpt_loads ?st ! s - sizes ! g) \<le> sum_list (lpt_loads ?st)"
    unfolding lpt_tight_def by blast
  then show ?thesis
  proof cases
    case 1
    then consider "lpt_groups ?st ! s = []" | g where "lpt_groups ?st ! s = [g]"
      by (cases "lpt_groups ?st ! s") auto
    then show ?thesis
    proof cases
      case (2 g)
      then have "lpt_loads ?st ! s \<le> T" using load one mem by simp
      then show ?thesis using T0 by linarith
    qed (use load T0 in simp)
  next
    case 2
    have "\<not> inj_on f A"
    proof
      assume "inj_on f A"
      moreover have "f ` A \<subseteq> {..<nsh}" using 2(2) assms(3) by auto
      ultimately have "card A \<le> card {..<nsh}" by (metis card_inj_on_le finite_lessThan)
      then show False using 2(3) by simp
    qed
    then obtain a b where ab: "a \<in> A" "b \<in> A" "a \<noteq> b" "f a = f b" by (auto simp: inj_on_def)
    have "sizes ! a + sizes ! b \<le> assigned_load sizes f (f a)"
      using assigned_ge [OF assms(2), of "{a, b}" f "f a"] ab subsetD [OF 2(2) ab(1)] subsetD [OF 2(2) ab(2)] by simp
    moreover have "sizes ! g \<le> sizes ! a" "sizes ! g \<le> sizes ! b" using 2(4) ab by blast+
    moreover have "assigned_load sizes f (f a) \<le> T" using assms(3,4) subsetD [OF 2(2) ab(1)] by simp
    ultimately have "2 * sizes ! g \<le> T" by linarith
    moreover have "int nsh * (lpt_loads ?st ! s - sizes ! g) \<le> int nsh * T"
      using 2(5) assigned_average [OF assms(3,4)] lpt_loads_sum [OF inv] packing_total [of sizes] by linarith
    then have "lpt_loads ?st ! s - sizes ! g \<le> T" using assms(1) by simp
    ultimately show ?thesis by linarith
  qed
qed

end
