(* ===== verification/GroupedBuild.thy ===== *)
theory GroupedBuild
  imports GroupedPacking
begin

text \<open>
  The placement loop writes each shard as its groups' rows followed by a tail of pads, and the
  layout assembled from it passes every check of \<open>validate_grouped_shard_layout\<close>. \<open>packed_layout\<close> is
  the layout in closed form; \<open>packing_ok\<close> is what the stages before the placement guarantee.
\<close>

section \<open>Placing the groups\<close>

text \<open>The rows of a shard's groups, and the row and label segments the shard occupies.\<close>

definition shard_rows :: "nat list list \<Rightarrow> nat list \<Rightarrow> nat list" where
  "shard_rows members gs = concat (map (\<lambda>g. members ! g) gs)"

definition shard_labels :: "nat list list \<Rightarrow> nat list \<Rightarrow> nat list" where
  "shard_labels members gs = concat (map (\<lambda>g. replicate (length (members ! g)) g) gs)"

definition segment :: "nat \<Rightarrow> int \<Rightarrow> nat list \<Rightarrow> int list" where
  "segment s v xs = map int xs @ replicate (s - length xs) v"

lemma shard_rows_simps [simp]:
  "shard_rows members [] = []" "shard_rows members (g # gs) = members ! g @ shard_rows members gs"
  "shard_rows members (as @ bs) = shard_rows members as @ shard_rows members bs"
  by (simp_all add: shard_rows_def)

lemma shard_labels_simps [simp]:
  "shard_labels members [] = []" "shard_labels members (g # gs) = replicate (length (members ! g)) g @ shard_labels members gs"
  "shard_labels members (as @ bs) = shard_labels members as @ shard_labels members bs"
  by (simp_all add: shard_labels_def)

lemma shard_labels_length [simp]: "length (shard_labels members gs) = length (shard_rows members gs)"
  by (induction gs) auto

lemma np_set_slice_pad:
  "length rows \<le> k \<Longrightarrow> a = length P \<Longrightarrow> np_set_slice a rows (P @ replicate k v) = P @ rows @ replicate (k - length rows) v"
  by (simp add: np_set_slice_def)

lemma place_fold:
  assumes "pl_rows st = P @ replicate k (- 1)" "pl_group st = Q @ replicate k v" "length Q = length P"
    "pl_cursor st = int (length P)" "length (shard_rows members gs) \<le> k" "distinct gs" "set gs \<subseteq> {..<length (pl_start st)}"
  shows "pl_rows (fold (place_group members) gs st) = P @ map int (shard_rows members gs) @ replicate (k - length (shard_rows members gs)) (- 1) \<and>
    pl_group (fold (place_group members) gs st) = Q @ map int (shard_labels members gs) @ replicate (k - length (shard_rows members gs)) v \<and>
    pl_cursor (fold (place_group members) gs st) = int (length P) + int (length (shard_rows members gs)) \<and>
    length (pl_start (fold (place_group members) gs st)) = length (pl_start st) \<and>
    (\<forall>g. g \<notin> set gs \<longrightarrow> pl_start (fold (place_group members) gs st) ! g = pl_start st ! g) \<and>
    (\<forall>as g bs. gs = as @ g # bs \<longrightarrow> pl_start (fold (place_group members) gs st) ! g = int (length P) + int (length (shard_rows members as)))"
  using assms
proof (induction gs arbitrary: st P Q k)
  case (Cons h gs)
  let ?st = "place_group members h st" and ?r = "members ! h"
  let ?k = "k - length ?r"
  have le: "length ?r \<le> k" using Cons.prems by simp
  have st: "pl_rows ?st = (P @ map int ?r) @ replicate ?k (- 1)"
      "pl_group ?st = (Q @ replicate (length ?r) (int h)) @ replicate ?k v"
      "pl_cursor ?st = int (length (P @ map int ?r))" "pl_start ?st = (pl_start st)[h := int (length P)]"
    using Cons.prems le np_set_slice_pad [of "map int ?r" k "length P" P "- 1"]
      np_set_slice_pad [of "replicate (length ?r) (int h)" k "length Q" Q v]
    by (simp_all add: place_group_def Let_def)
  have IH: "pl_rows (fold (place_group members) gs ?st) = (P @ map int ?r) @ map int (shard_rows members gs) @ replicate (?k - length (shard_rows members gs)) (- 1) \<and>
    pl_group (fold (place_group members) gs ?st) = (Q @ replicate (length ?r) (int h)) @ map int (shard_labels members gs) @ replicate (?k - length (shard_rows members gs)) v \<and>
    pl_cursor (fold (place_group members) gs ?st) = int (length (P @ map int ?r)) + int (length (shard_rows members gs)) \<and>
    length (pl_start (fold (place_group members) gs ?st)) = length (pl_start ?st) \<and>
    (\<forall>g. g \<notin> set gs \<longrightarrow> pl_start (fold (place_group members) gs ?st) ! g = pl_start ?st ! g) \<and>
    (\<forall>as g bs. gs = as @ g # bs \<longrightarrow> pl_start (fold (place_group members) gs ?st) ! g = int (length (P @ map int ?r)) + int (length (shard_rows members as)))"
    by (rule Cons.IH) (use Cons.prems st in auto)
  have starts: "pl_start (fold (place_group members) gs ?st) ! g = int (length P) + int (length (shard_rows members as))"
    if "h # gs = as @ g # bs" for as g bs
  proof (cases as)
    case Nil
    then have "g = h" using that by simp
    then show ?thesis using IH Cons.prems(6,7) st(4) Nil by simp
  next
    case (Cons a as')
    then have "gs = as' @ g # bs" "a = h" using that by auto
    then show ?thesis using IH Cons by simp
  qed
  have run: "fold (place_group members) (h # gs) st = fold (place_group members) gs ?st" by simp
  show ?case
    unfolding run
  proof (intro conjI allI impI)
    fix g assume "g \<notin> set (h # gs)"
    then show "pl_start (fold (place_group members) gs ?st) ! g = pl_start st ! g" using IH st(4) by simp
  next
    fix as g bs assume "h # gs = as @ g # bs"
    then show "pl_start (fold (place_group members) gs ?st) ! g = int (length P) + int (length (shard_rows members as))" by (rule starts)
  qed (use IH st(4) in \<open>simp_all add: diff_diff_add\<close>)
qed simp

lemma segment_length [simp]: "length xs \<le> s \<Longrightarrow> length (segment s v xs) = s"
  by (simp add: segment_def)

lemma concat_segments_length:
  "\<forall>x\<in>set xss. length x \<le> s \<Longrightarrow> length (concat (map (segment s v) xss)) = length xss * s"
  by (induction xss) auto

lemma place_shards_spec:
  assumes "pl_rows st = P @ replicate (length rest * s) (- 1)" "pl_group st = Q @ replicate (length rest * s) v"
    "length P = owner * s" "length Q = owner * s"
    "\<forall>i<length rest. loads ! (owner + i) = int (length (shard_rows members (rest ! i)))"
    "\<forall>gs\<in>set rest. length (shard_rows members gs) \<le> s" "distinct (concat rest)" "set (concat rest) \<subseteq> {..<length (pl_start st)}"
  shows "\<exists>st'. place_shards members (int s) loads owner rest st = Inr st' \<and>
    pl_rows st' = P @ concat (map (\<lambda>gs. segment s (- 1) (shard_rows members gs)) rest) \<and>
    pl_group st' = Q @ concat (map (\<lambda>gs. segment s v (shard_labels members gs)) rest) \<and>
    length (pl_start st') = length (pl_start st) \<and>
    (\<forall>g. g \<notin> set (concat rest) \<longrightarrow> pl_start st' ! g = pl_start st ! g) \<and>
    (\<forall>i as g bs. i < length rest \<longrightarrow> rest ! i = as @ g # bs \<longrightarrow>
       pl_start st' ! g = int ((owner + i) * s) + int (length (shard_rows members as)))"
  using assms
proof (induction rest arbitrary: st P Q owner)
  case (Cons gs rest)
  let ?init = "st\<lparr>pl_cursor := int owner * int s\<rparr>"
  let ?st = "fold (place_group members) gs ?init" and ?n = "length (shard_rows members gs)"
  let ?k = "s + length rest * s"
  have fits: "?n \<le> s" using Cons.prems(6) by simp
  have f: "pl_rows ?st = P @ map int (shard_rows members gs) @ replicate (?k - ?n) (- 1) \<and>
    pl_group ?st = Q @ map int (shard_labels members gs) @ replicate (?k - ?n) v \<and>
    pl_cursor ?st = int (length P) + int ?n \<and>
    length (pl_start ?st) = length (pl_start ?init) \<and>
    (\<forall>g. g \<notin> set gs \<longrightarrow> pl_start ?st ! g = pl_start ?init ! g) \<and>
    (\<forall>as g bs. gs = as @ g # bs \<longrightarrow> pl_start ?st ! g = int (length P) + int (length (shard_rows members as)))"
    by (rule place_fold) (use Cons.prems fits in auto)
  have seg: "replicate (?k - ?n) w = replicate (s - ?n) w @ replicate (length rest * s) w" for w :: int
    using fits by (simp add: replicate_add [symmetric])
  have rows: "pl_rows ?st = (P @ segment s (- 1) (shard_rows members gs)) @ replicate (length rest * s) (- 1)"
    and grp: "pl_group ?st = (Q @ segment s v (shard_labels members gs)) @ replicate (length rest * s) v"
    using f by (simp_all add: seg segment_def)
  have loads: "\<forall>i<length rest. loads ! (Suc owner + i) = int (length (shard_rows members (rest ! i)))"
    using Cons.prems(5) by fastforce
  have IH: "\<exists>st'. place_shards members (int s) loads (Suc owner) rest ?st = Inr st' \<and>
    pl_rows st' = (P @ segment s (- 1) (shard_rows members gs)) @ concat (map (\<lambda>gs. segment s (- 1) (shard_rows members gs)) rest) \<and>
    pl_group st' = (Q @ segment s v (shard_labels members gs)) @ concat (map (\<lambda>gs. segment s v (shard_labels members gs)) rest) \<and>
    length (pl_start st') = length (pl_start ?st) \<and>
    (\<forall>g. g \<notin> set (concat rest) \<longrightarrow> pl_start st' ! g = pl_start ?st ! g) \<and>
    (\<forall>i as g bs. i < length rest \<longrightarrow> rest ! i = as @ g # bs \<longrightarrow>
       pl_start st' ! g = int ((Suc owner + i) * s) + int (length (shard_rows members as)))"
    by (rule Cons.IH [OF rows grp _ _ loads]) (use Cons.prems fits f in auto)
  then obtain st' where st': "place_shards members (int s) loads (Suc owner) rest ?st = Inr st'"
    "pl_rows st' = (P @ segment s (- 1) (shard_rows members gs)) @ concat (map (\<lambda>gs. segment s (- 1) (shard_rows members gs)) rest)"
    "pl_group st' = (Q @ segment s v (shard_labels members gs)) @ concat (map (\<lambda>gs. segment s v (shard_labels members gs)) rest)"
    "length (pl_start st') = length (pl_start ?st)"
    "\<forall>g. g \<notin> set (concat rest) \<longrightarrow> pl_start st' ! g = pl_start ?st ! g"
    "\<forall>i as g bs. i < length rest \<longrightarrow> rest ! i = as @ g # bs \<longrightarrow>
       pl_start st' ! g = int ((Suc owner + i) * s) + int (length (shard_rows members as))" by blast
  have cur: "pl_cursor ?st = int owner * int s + loads ! owner"
    using f Cons.prems(3) Cons.prems(5) [rule_format, of 0] by simp
  have starts: "pl_start st' ! g = int ((owner + i) * s) + int (length (shard_rows members as))"
    if i: "i < length (gs # rest)" and e: "(gs # rest) ! i = as @ g # bs" for i as g bs
  proof (cases i)
    case 0
    then have "g \<in> set gs" using e by auto
    then have "g \<notin> set (concat rest)" using Cons.prems(7) by auto
    then have "pl_start st' ! g = pl_start ?st ! g" using st'(5) by blast
    then show ?thesis using f e 0 Cons.prems(3) by simp
  next
    case (Suc j)
    then show ?thesis using st'(6) i e by fastforce
  qed
  have run: "place_shards members (int s) loads owner (gs # rest) st = Inr st'"
    using cur st'(1) by (simp add: Let_def)
  show ?case
  proof (rule exI [of _ st'], intro conjI allI impI)
    fix i as g bs assume "i < length (gs # rest)" "(gs # rest) ! i = as @ g # bs"
    then show "pl_start st' ! g = int ((owner + i) * s) + int (length (shard_rows members as))" by (rule starts)
  qed (use run st'(2-5) f in auto)
qed simp

section \<open>Masks, rows and segments\<close>

lemma masked_filter: "masked (map P xs) xs = filter P xs"
  unfolding masked_def by (induction xs) auto

lemma masked_append: "length as = length cs \<Longrightarrow> masked (as @ bs) (cs @ ds) = masked as cs @ masked bs ds"
  by (simp add: masked_def)

lemma masked_concat:
  "\<forall>k<length ass. length (ass ! k) = length (css ! k) \<Longrightarrow> length ass = length css \<Longrightarrow>
   masked (concat ass) (concat css) = concat (map2 masked ass css)"
proof (induction ass arbitrary: css)
  case (Cons a ass)
  then obtain c cs where c: "css = c # cs" by (cases css) auto
  have "length a = length c" using Cons.prems(1) c by (metis length_greater_0_conv list.discI nth_Cons_0)
  moreover have "\<forall>k<length ass. length (ass ! k) = length (cs ! k)" using Cons.prems(1) c by (metis Suc_less_eq length_Cons nth_Cons_Suc)
  ultimately show ?case using Cons.IH [of cs] Cons.prems(2) c by (simp add: masked_append)
qed (simp add: masked_def)

lemma masked_take: "length bs = length xs \<Longrightarrow> masked bs xs = np_take xs (np_flatnonzero bs)"
proof -
  assume len: "length bs = length xs"
  then have "zip bs xs = map (\<lambda>i. (bs ! i, xs ! i)) [0..<length xs]" by (intro nth_equalityI) auto
  then show ?thesis using len by (simp add: masked_def np_take_def np_flatnonzero_def filter_map comp_def)
qed

lemma masked_replicate: "masked (replicate k b) (replicate k v) = (if b then replicate k v else [])"
  unfolding masked_def by (induction k) auto

lemma masked_True: "length bs = length xs \<Longrightarrow> \<forall>b\<in>set bs. b \<Longrightarrow> masked bs xs = xs"
  unfolding masked_def by (induction bs xs rule: list_induct2) auto

lemma segment_mask: "length xs \<le> s \<Longrightarrow> map (\<lambda>x. 0 \<le> x) (segment s (- 1) xs) = replicate (length xs) True @ replicate (s - length xs) False"
  by (induction xs) (auto simp: segment_def map_replicate_const [symmetric] comp_def)

lemma segment_masked: "length xs \<le> s \<Longrightarrow> length ys = length xs \<Longrightarrow>
   masked (map (\<lambda>x. 0 \<le> x) (segment s (- 1) xs)) (segment s v ys) = map int ys"
  by (simp add: segment_mask) (simp add: segment_def masked_append masked_replicate masked_True)

lemma segment_unmasked: "length xs \<le> s \<Longrightarrow> length ys = length xs \<Longrightarrow>
   masked (map Not (map (\<lambda>x. 0 \<le> x) (segment s (- 1) xs))) (segment s v ys) = replicate (s - length xs) v"
proof -
  assume a: "length xs \<le> s" "length ys = length xs"
  have "masked (replicate (length xs) False) (map int ys) = []" unfolding masked_def a(2) [symmetric] by (induction ys) auto
  then show ?thesis using a by (simp add: segment_mask) (simp add: segment_def masked_append masked_replicate a)
qed

lemma segment_suffix: "length xs \<le> s \<Longrightarrow> map (\<lambda>x. 0 \<le> x) (segment s (- 1) xs) = map (\<lambda>i. i < int (length xs)) [0..int s - 1]"
proof -
  assume le: "length xs \<le> s"
  have "replicate (length xs) True @ replicate (s - length xs) False = map (\<lambda>i. i < length xs) [0..<s]"
    by (rule nth_equalityI) (use le in \<open>auto simp: nth_append\<close>)
  then show ?thesis using le by (simp add: segment_mask upto_nth_eq)
qed

lemma concat_slice:
  assumes "\<forall>x\<in>set xss. length x = s" "i < length xss" "offset + k \<le> s"
  shows "take k (drop (i * s + offset) (concat xss)) = take k (drop offset (xss ! i))"
  using assms(1,2)
proof (induction xss arbitrary: i)
  case (Cons x xss)
  show ?case
  proof (cases i)
    case 0
    then show ?thesis using Cons.prems assms(3) by simp
  next
    case (Suc j)
    then have "take k (drop (j * s + offset) (concat xss)) = take k (drop offset (xss ! j))" using Cons by simp
    moreover have "drop (i * s + offset) (concat (x # xss)) = drop (j * s + offset) (concat xss)"
      using Suc Cons.prems(1) by (simp add: add.assoc)
    ultimately show ?thesis using Suc by simp
  qed
qed simp

lemma fold_min_nth:
  "k < length base \<Longrightarrow> fold (\<lambda>(i, g) a. a[nat g := min (a ! nat g) i]) ps base ! k =
     fold min (map fst (filter (\<lambda>(i, g). nat g = k) ps)) (base ! k :: int)"
proof (induction ps arbitrary: base)
  case (Cons p ps)
  then show ?case by (cases p) (auto simp: min.commute)
qed simp

lemma fold_min_eq: "x \<in> set xs \<or> x = b \<Longrightarrow> \<forall>y\<in>set xs. x \<le> y \<Longrightarrow> x \<le> b \<Longrightarrow> fold min xs b = (x :: int)"
proof (induction xs arbitrary: b)
  case (Cons y ys)
  have "fold min ys (min y b) = x" by (rule Cons.IH) (use Cons.prems in auto)
  then show ?case by simp
qed simp

lemma first_rows_nth:
  assumes "g < G" "j < length ids" "ids ! j = int g" "\<forall>i<j. ids ! i \<noteq> int g" "\<forall>x\<in>set ids. 0 \<le> x"
  shows "first_rows (int G) (int (length ids)) ids ! g = int j"
proof -
  let ?n = "length ids"
  have base: "fold (\<lambda>(i, g) a. a[nat g := min (a ! nat g) i]) (zip [0..int ?n - 1] ids) (replicate G (int ?n)) ! g =
    fold min (map fst (filter (\<lambda>(i, h). nat h = g) (zip [0..int ?n - 1] ids))) (int ?n)"
    using fold_min_nth [of g "replicate G (int ?n)"] assms(1) by simp
  have mem: "(int i, ids ! i) \<in> set (zip [0..int ?n - 1] ids)" if "i < ?n" for i
    using that by (auto simp: upto_nth_eq set_zip intro!: exI [of _ i])
  have "fold min (map fst (filter (\<lambda>(i, h). nat h = g) (zip [0..int ?n - 1] ids))) (int ?n) = int j"
  proof (rule fold_min_eq)
    show "int j \<in> set (map fst (filter (\<lambda>(i, h). nat h = g) (zip [0..int ?n - 1] ids))) \<or> int j = int ?n"
      using mem [OF assms(2)] assms(3) by force
    show "\<forall>y\<in>set (map fst (filter (\<lambda>(i, h). nat h = g) (zip [0..int ?n - 1] ids))). int j \<le> y"
    proof
      fix y assume "y \<in> set (map fst (filter (\<lambda>(i, h). nat h = g) (zip [0..int ?n - 1] ids)))"
      then obtain i where i: "y = int i" "i < ?n" "nat (ids ! i) = g" by (auto simp: upto_nth_eq set_zip)
      then have "ids ! i = int g" using assms(5) nth_mem by fastforce
      then show "int j \<le> y" using i assms(4) by (metis linorder_not_le of_nat_le_iff)
    qed
  qed (use assms in simp)
  then show ?thesis by (simp add: first_rows_def base)
qed

section \<open>The packed arrays\<close>

text \<open>What the stages before the placement guarantee.\<close>

definition packing_ok :: "nat list \<Rightarrow> nat \<Rightarrow> nat list list \<Rightarrow> nat list list \<Rightarrow> nat \<Rightarrow> bool" where
  "packing_ok dense G members sg s \<longleftrightarrow>
     0 < G \<and> (\<forall>x\<in>set dense. x < G) \<and> (\<forall>g<G. g \<in> set dense) \<and>
     members = map (\<lambda>g. filter (\<lambda>i. dense ! i = g) [0..<length dense]) [0..<G] \<and>
     mset (concat sg) = mset [0..<G] \<and> (\<forall>gs\<in>set sg. length (shard_rows members gs) \<le> s)"

definition packed_rows :: "nat list list \<Rightarrow> nat list list \<Rightarrow> nat \<Rightarrow> int list" where
  "packed_rows members sg s = concat (map (\<lambda>gs. segment s (- 1) (shard_rows members gs)) sg)"

definition packed_labels :: "nat \<Rightarrow> nat list list \<Rightarrow> nat list list \<Rightarrow> nat \<Rightarrow> int list" where
  "packed_labels G members sg s = concat (map (\<lambda>gs. segment s (int G) (shard_labels members gs)) sg)"

lemma packing_rows_mset:
  assumes "packing_ok dense G members sg s"
  shows "mset (concat (map (shard_rows members) sg)) = mset [0..<length dense]"
proof -
  note ok = assms [unfolded packing_ok_def]
  have flat: "concat (map (shard_rows members) sg) = shard_rows members (concat sg)"
    by (induction sg) auto
  have "mset (shard_rows members gs) = (\<Sum>g\<in>#mset gs. mset (members ! g))" for gs
    by (induction gs) auto
  moreover have "mset (concat sg) = mset [0..<G]" using ok by blast
  ultimately have "mset (concat (map (shard_rows members) sg)) = mset (shard_rows members [0..<G])"
    by (simp only: flat)
  also have "shard_rows members [0..<G] = concat (map (\<lambda>g. filter (\<lambda>i. dense ! i = g) [0..<length dense]) [0..<G])"
  proof -
    have "map (\<lambda>g. members ! g) [0..<G] = map (\<lambda>g. filter (\<lambda>i. dense ! i = g) [0..<length dense]) [0..<G]"
      using ok by simp
    then show ?thesis by (simp only: shard_rows_def)
  qed
  also have "concat (map (\<lambda>g. filter (\<lambda>i. dense ! i = g) [0..<length dense]) [0..<G]) = np_argsort dense"
    unfolding np_argsort_def using ok by (intro sort_key_classes [symmetric]) auto
  also have "mset (np_argsort dense) = mset [0..<length dense]" by (rule np_argsort_mset)
  finally show ?thesis .
qed

lemma packing_active:
  assumes "packing_ok dense G members sg s"
  shows "masked (map (\<lambda>x. 0 \<le> x) (packed_rows members sg s)) (packed_rows members sg s) = map int (concat (map (shard_rows members) sg))"
    "masked (map (\<lambda>x. 0 \<le> x) (packed_rows members sg s)) (packed_labels G members sg s) = map int (concat (map (shard_labels members) sg))"
    "masked (map Not (map (\<lambda>x. 0 \<le> x) (packed_rows members sg s))) (packed_labels G members sg s) =
       concat (map (\<lambda>gs. replicate (s - length (shard_rows members gs)) (int G)) sg)"
proof -
  have le: "\<forall>gs\<in>set sg. length (shard_rows members gs) \<le> s" using assms unfolding packing_ok_def by blast
  have len: "length (packed_rows members sg s) = length (packed_labels G members sg s)"
    using le unfolding packed_rows_def packed_labels_def by (induction sg) auto
  show "masked (map (\<lambda>x. 0 \<le> x) (packed_rows members sg s)) (packed_rows members sg s) = map int (concat (map (shard_rows members) sg))"
    using le unfolding packed_rows_def
    by (induction sg) (simp_all add: masked_append segment_masked, simp add: masked_def)
  show "masked (map (\<lambda>x. 0 \<le> x) (packed_rows members sg s)) (packed_labels G members sg s) = map int (concat (map (shard_labels members) sg))"
    using le unfolding packed_rows_def packed_labels_def
    by (induction sg) (simp_all add: masked_append segment_masked, simp add: masked_def)
  show "masked (map Not (map (\<lambda>x. 0 \<le> x) (packed_rows members sg s))) (packed_labels G members sg s) =
       concat (map (\<lambda>gs. replicate (s - length (shard_rows members gs)) (int G)) sg)"
    using le unfolding packed_rows_def packed_labels_def
    by (induction sg) (simp_all add: masked_append segment_unmasked [simplified], simp add: masked_def)
qed

lemma packing_labels:
  assumes "packing_ok dense G members sg s"
  shows "map (\<lambda>i. dense ! i) (concat (map (shard_rows members) sg)) = concat (map (shard_labels members) sg)"
proof -
  note ok = assms [unfolded packing_ok_def]
  have const: "map f xs = replicate (length xs) c" if "\<forall>x\<in>set xs. f x = c" for f :: "nat \<Rightarrow> nat" and xs c
    using that by (induction xs) auto
  have one: "map (\<lambda>i. dense ! i) (members ! g) = replicate (length (members ! g)) g" if "g < G" for g
    by (rule const) (use ok that in auto)
  have "map (\<lambda>i. dense ! i) (shard_rows members gs) = shard_labels members gs" if "\<forall>g\<in>set gs. g < G" for gs
    using that one by (induction gs) auto
  moreover have "\<forall>gs\<in>set sg. \<forall>g\<in>set gs. g < G"
  proof (intro ballI)
    fix gs g assume "gs \<in> set sg" "g \<in> set gs"
    then have "g \<in> set_mset (mset (concat sg))" by auto
    then show "g < G" using ok by simp
  qed
  ultimately show ?thesis by (induction sg) (auto simp del: shard_rows_simps shard_labels_simps)
qed

lemma packing_member:
  assumes "packing_ok dense G members sg s" "g < G"
  shows "\<exists>t as bs. t < length sg \<and> sg ! t = as @ g # bs \<and> members ! g \<noteq> [] \<and>
    length (shard_rows members as) + length (members ! g) \<le> length (shard_rows members (sg ! t)) \<and>
    length (shard_rows members (sg ! t)) \<le> s"
proof -
  note ok = assms(1) [unfolded packing_ok_def]
  have "g \<in># mset (concat sg)" using ok assms(2) by simp
  then obtain gs where gs: "gs \<in> set sg" "g \<in> set gs" by auto
  then obtain t where t: "t < length sg" "g \<in> set (sg ! t)" by (metis in_set_conv_nth)
  then obtain as bs where split: "sg ! t = as @ g # bs" by (meson split_list)
  obtain i where "i < length dense" "dense ! i = g" using ok assms(2) by (metis in_set_conv_nth)
  then have "i \<in> set (members ! g)" using ok assms(2) by simp
  then have "members ! g \<noteq> []" by auto
  moreover have "length (shard_rows members (sg ! t)) \<le> s" using ok t(1) nth_mem by blast
  ultimately show ?thesis using t split by (intro exI [of _ t] exI [of _ as] exI [of _ bs]) auto
qed

definition packed_layout :: "nat list \<Rightarrow> nat \<Rightarrow> nat list list \<Rightarrow> nat list list \<Rightarrow> nat \<Rightarrow> int list \<Rightarrow> int list \<Rightarrow> grouped_layout" where
  "packed_layout dense G members sg s owners starts =
     (let packed = packed_rows members sg s; active = map (\<lambda>x. 0 \<le> x) packed in
      \<lparr>gl_n_logical = int (length dense), gl_n_groups = int G, gl_n_shards = int (length sg),
       gl_shard_size = int s, gl_n_padded = int (length sg) * int s,
       gl_packed_to_canonical = packed,
       gl_canonical_to_packed =
         np_put (map nat (masked active packed)) (map int (np_flatnonzero active)) (replicate (length dense) 0),
       gl_canonical_group_id = map int dense,
       gl_packed_group_id = packed_labels G members sg s,
       gl_active_mask = active,
       gl_group_owner = owners,
       gl_group_start = starts,
       gl_group_size = group_sizes dense G,
       gl_shard_load = map (\<lambda>gs. int (length (shard_rows members gs))) sg\<rparr>)"

text \<open>The inverted map of a placement is a two-sided inverse.\<close>

lemma packed_inverse:
  assumes "packing_ok dense G members sg s"
  defines "packed \<equiv> packed_rows members sg s"
  defines "active \<equiv> map (\<lambda>x. 0 \<le> x) packed"
  defines "inverted \<equiv> np_put (map nat (masked active packed)) (map int (np_flatnonzero active)) (replicate (length dense) (0 :: int))"
  shows "length inverted = length dense"
    "\<forall>i<length dense. 0 \<le> inverted ! i \<and> nat (inverted ! i) < length packed \<and> packed ! nat (inverted ! i) = int i"
    "np_take inverted (map nat (masked active packed)) = map int (np_flatnonzero active)"
proof -
  let ?rows = "concat (map (shard_rows members) sg)"
  let ?js = "np_flatnonzero active"
  have act: "masked active packed = map int ?rows" using packing_active(1) [OF assms(1)] by (simp add: active_def packed_def)
  have perm: "mset ?rows = mset [0..<length dense]" by (rule packing_rows_mset [OF assms(1)])
  then have rows: "distinct ?rows" "set ?rows = {0..<length dense}" "length ?rows = length dense"
    by (metis distinct_upt mset_eq_imp_distinct_iff, metis atLeast_upt lessThan_atLeast0 mset_eq_setD, metis diff_zero length_upt size_mset)
  have taken: "map int ?rows = np_take packed ?js" using act masked_take [of active packed] by (simp add: active_def)
  then have lenj: "length ?js = length ?rows" by (metis length_map np_take_def)
  have js: "j < length packed" if "j \<in> set ?js" for j using that by (auto simp: np_flatnonzero_def active_def)
  have idx: "map nat (masked active packed) = ?rows" by (simp add: act comp_def)
  have put: "inverted ! (?rows ! k) = int (?js ! k)" if "k < length ?rows" for k
    using np_put_nth [OF rows(1) that, of "map int ?js" "replicate (length dense) 0"] that lenj rows nth_mem [OF that]
    by (simp add: inverted_def idx)
  show "length inverted = length dense" by (simp add: inverted_def)
  show "\<forall>i<length dense. 0 \<le> inverted ! i \<and> nat (inverted ! i) < length packed \<and> packed ! nat (inverted ! i) = int i"
  proof (intro allI impI)
    fix i assume "i < length dense"
    then obtain k where k: "k < length ?rows" "?rows ! k = i" using rows(2) by (metis atLeastLessThan_iff in_set_conv_nth le0)
    then have "inverted ! i = int (?js ! k)" using put by blast
    moreover have "packed ! (?js ! k) = int i"
    proof -
      have "map int ?rows ! k = np_take packed ?js ! k" by (simp only: taken)
      then show ?thesis using k lenj by (simp add: np_take_def)
    qed
    moreover have "?js ! k < length packed" using js k lenj by simp
    ultimately show "0 \<le> inverted ! i \<and> nat (inverted ! i) < length packed \<and> packed ! nat (inverted ! i) = int i" by simp
  qed
  show "np_take inverted (map nat (masked active packed)) = map int ?js"
    unfolding idx np_take_def by (rule nth_equalityI) (use put lenj in simp_all)
qed

lemma count_distinct_upt: "mset xs = mset [0..<n] \<Longrightarrow> \<forall>k<n. count_list (map int xs) (int k) = 1"
proof (intro allI impI)
  fix k assume m: "mset xs = mset [0..<n]" and k: "k < n"
  have "count_list (map int xs) (int k) = count (mset xs) k"
    by (induction xs) auto
  also have "\<dots> = 1" unfolding m using k by (simp add: count_mset_set)
  finally show "count_list (map int xs) (int k) = 1" .
qed

lemma packed_layout_groups:
  assumes ok: "packing_ok dense G members sg s"
    and owners: "length owners = G" "\<forall>t<length sg. \<forall>g\<in>set (sg ! t). owners ! g = int t"
    and starts: "length starts = G" "\<forall>t as g bs. t < length sg \<longrightarrow> sg ! t = as @ g # bs \<longrightarrow>
       starts ! g = int (t * s) + int (length (shard_rows members as))"
    and g: "g < G"
  shows "group_check (packed_layout dense G members sg s owners starts) (int g) = Inr ()"
proof -
  let ?l = "packed_layout dense G members sg s owners starts"
  from packing_member [OF ok g] obtain t as bs where
    t: "t < length sg" and split: "sg ! t = as @ g # bs" and ne: "members ! g \<noteq> []"
    and fit: "length (shard_rows members as) + length (members ! g) \<le> length (shard_rows members (sg ! t))"
      "length (shard_rows members (sg ! t)) \<le> s" by blast
  let ?o = "length (shard_rows members as)" and ?k = "length (members ! g)"
  have k: "0 < ?k" "?o + ?k \<le> s" using ne fit by auto
  have start: "gl_group_start ?l ! g = int (t * s + ?o)" using starts(2) t split by (simp add: packed_layout_def Let_def)
  have size: "gl_group_size ?l ! g = int ?k"
  proof -
    have "\<forall>x\<in>set dense. x < G" using ok unfolding packing_ok_def by blast
    moreover have "members = map (\<lambda>g. filter (\<lambda>i. dense ! i = g) [0..<length dense]) [0..<G]" using ok unfolding packing_ok_def by blast
    ultimately show ?thesis using g by (simp add: packed_layout_def Let_def group_sizes_eq)
  qed
  have owner: "gl_group_owner ?l ! g = int t" using owners(2) t split by (simp add: packed_layout_def Let_def)
  have s: "0 < s" using k by linarith
  have d1: "int (t * s + ?o) div int s = int t"
  proof -
    have "?o < s" using k by linarith
    then have "(t * s + ?o) div s = t" using s by simp
    then show ?thesis by (metis zdiv_int)
  qed
  have d2: "(int (t * s + ?o) + int ?k - 1) div int s = int t"
  proof -
    have "int (t * s + ?o) + int ?k - 1 = int (t * s + (?o + ?k - 1))" using k by linarith
    moreover have "?o + ?k - 1 < s" using k by linarith
    then have "(t * s + (?o + ?k - 1)) div s = t" using s by simp
    ultimately show ?thesis by (metis zdiv_int)
  qed
  have padded: "int (t * s + ?o) + int ?k \<le> int (length sg) * int s"
  proof -
    have "t * s + ?o + ?k \<le> t * s + s" using k by simp
    also have "\<dots> \<le> length sg * s" using t by (metis Suc_leI add.commute mult_Suc mult_le_mono1)
    finally show ?thesis by (simp only: of_nat_add [symmetric] of_nat_mult [symmetric] of_nat_le_iff)
  qed
  have slice: "take ?k (drop (t * s + ?o) (packed_labels G members sg s)) = replicate ?k (int g)"
  proof -
    have lens: "\<forall>x\<in>set (map (\<lambda>gs. segment s (int G) (shard_labels members gs)) sg). length x = s"
      using ok unfolding packing_ok_def by auto
    have "take ?k (drop (t * s + ?o) (packed_labels G members sg s)) = take ?k (drop ?o (segment s (int G) (shard_labels members (sg ! t))))"
      unfolding packed_labels_def using concat_slice [OF lens _ k(2), of t] t by simp
    also have "segment s (int G) (shard_labels members (sg ! t)) =
        map int (shard_labels members as) @ replicate ?k (int g) @ map int (shard_labels members bs) @ replicate (s - length (shard_rows members (sg ! t))) (int G)"
      by (simp add: segment_def split)
    finally show ?thesis by simp
  qed
  have "nat (int (t * s + ?o)) = t * s + ?o" by (rule nat_int)
  moreover have "\<not> int t * int s + int ?o < 0" by (simp add: not_less)
  moreover have "gl_shard_size ?l = int s" "gl_n_padded ?l = int (length sg) * int s" "gl_packed_group_id ?l = packed_labels G members sg s"
    by (simp_all add: packed_layout_def Let_def)
  ultimately show ?thesis
    using start size owner d1 d2 padded slice
    by (simp add: group_check_def Let_def list_all_iff)
qed

theorem packed_layout_valid:
  assumes ok: "packing_ok dense G members sg s" and sg: "sg \<noteq> []"
    and owners: "length owners = G" "\<forall>t<length sg. \<forall>g\<in>set (sg ! t). owners ! g = int t"
    and starts: "length starts = G" "\<forall>t as g bs. t < length sg \<longrightarrow> sg ! t = as @ g # bs \<longrightarrow>
       starts ! g = int (t * s) + int (length (shard_rows members as))"
    and first: "\<forall>g<G. fa g < length dense \<and> dense ! fa g = g \<and> (\<forall>i<fa g. dense ! i \<noteq> g)" "fa 0 = 0"
      "\<forall>g h. g < h \<longrightarrow> h < G \<longrightarrow> fa g < fa h"
  shows "validate_grouped_shard_layout (packed_layout dense G members sg s owners starts) =
    Inr (packed_layout dense G members sg s owners starts)"
proof -
  let ?l = "packed_layout dense G members sg s owners starts"
  let ?packed = "packed_rows members sg s"
  let ?active = "map (\<lambda>x. 0 \<le> x) ?packed"
  let ?ar = "masked ?active ?packed" and ?n = "length dense"
  have G: "0 < G" and dense: "\<forall>x\<in>set dense. x < G" and le: "\<forall>gs\<in>set sg. length (shard_rows members gs) \<le> s"
    using ok unfolding packing_ok_def by blast+
  have mem: "members = map (\<lambda>g. filter (\<lambda>i. dense ! i = g) [0..<?n]) [0..<G]" using ok unfolding packing_ok_def by blast
  have n: "0 < ?n" using first(1) G by fastforce
  obtain t as bs where t: "members ! 0 \<noteq> []" "length (shard_rows members as) + length (members ! 0) \<le> length (shard_rows members (sg ! t))"
    "length (shard_rows members (sg ! t)) \<le> s" using packing_member [OF ok G] by blast
  have "0 < length (members ! 0)" using t(1) by simp
  then have s: "0 < s" using t(2,3) by linarith
  have lenp: "length ?packed = length sg * s" "length (packed_labels G members sg s) = length sg * s"
    using le concat_segments_length [of "map (shard_rows members) sg" s "- 1"]
      concat_segments_length [of "map (shard_labels members) sg" s "int G"]
    by (simp_all add: packed_rows_def packed_labels_def comp_def)
  have act: "?ar = map int (concat (map (shard_rows members) sg))" by (rule packing_active(1) [OF ok])
  have perm: "mset (concat (map (shard_rows members) sg)) = mset [0..<?n]" by (rule packing_rows_mset [OF ok])
  have arn: "length ?ar = ?n" using act arg_cong [OF perm, of size] by simp
  have ar_range: "\<forall>x\<in>set ?ar. 0 \<le> x \<and> x < int ?n" using act mset_eq_setD [OF perm] by auto
  have fits: "?n \<le> length ?packed" using arn unfolding masked_def by (metis length_filter_le length_map length_zip min.cobounded2 order_trans)
  have unact: "masked (map Not ?active) ?packed = filter (\<lambda>x. \<not> 0 \<le> x) ?packed"
    using masked_filter [of "\<lambda>x. \<not> 0 \<le> x" ?packed] by (simp add: comp_def)
  have neg: "x = - 1" if "x \<in> set ?packed" "\<not> 0 \<le> x" for x
    using that by (auto simp: packed_rows_def segment_def)
  have sizes: "gl_group_size ?l = map (\<lambda>g. int (length (members ! g))) [0..<G]"
    using dense mem by (simp add: packed_layout_def Let_def group_sizes_eq)
  have sizes0: "\<not> (\<exists>x\<in>set (gl_group_size ?l). x \<le> 0)" using sizes packing_member [OF ok] by fastforce
  have counts: "list_all (\<lambda>c. c = 1) (np_bincount ?ar (int ?n))"
    using np_bincount_nat [of ?ar ?n] ar_range count_distinct_upt [OF perm] by (simp add: act list_all_iff)
  note inv = packed_inverse [OF ok]
  have shapes: "layout_shapes ?l = Inr ()"
    using lenp inv(1) owners(1) starts(1) sizes by (simp add: layout_shapes_def expect_shape_def packed_layout_def Let_def)
  have fr: "first_rows (int G) (int ?n) (map int dense) = map (\<lambda>g. int (fa g)) [0..<G]"
  proof (rule nth_equalityI)
    have "length (fold (\<lambda>(i, g) a. a[nat g := min (a ! nat g) i]) ps base) = length base" for ps and base :: "int list"
      by (induction ps arbitrary: base) auto
    then show len: "length (first_rows (int G) (int ?n) (map int dense)) = length (map (\<lambda>g. int (fa g)) [0..<G])"
      by (simp add: first_rows_def)
    fix g assume "g < length (first_rows (int G) (int ?n) (map int dense))"
    then have g: "g < G" using len by simp
    then show "first_rows (int G) (int ?n) (map int dense) ! g = map (\<lambda>g. int (fa g)) [0..<G] ! g"
      using first_rows_nth [of g G "fa g" "map int dense"] first(1) nth_map [of _ dense int] by fastforce
  qed
  have sorted_fr: "sorted_wrt (<) (map (\<lambda>g. int (fa g)) [0..<G])"
    using first(3) by (auto simp: sorted_wrt_iff_nth_less)
  have labels: "masked ?active (packed_labels G members sg s) = np_take (map int dense) (map nat ?ar)"
  proof -
    have "\<forall>i\<in>set (concat (map (shard_rows members) sg)). i < ?n" using mset_eq_setD [OF perm] by auto
    then have "np_take (map int dense) (map nat ?ar) = map int (map ((!) dense) (concat (map (shard_rows members) sg)))"
      by (auto simp: np_take_def act)
    then show ?thesis using packing_active(2) [OF ok] packing_labels [OF ok] by simp
  qed
  have pads: "list_all (\<lambda>x. x = int G) (masked (map Not ?active) (packed_labels G members sg s))"
    unfolding packing_active(3) [OF ok] by (auto simp: list_all_iff)
  have groups: "\<exists>us. mapE (group_check ?l) [0..int G - 1] = Inr us"
    using packed_layout_groups [OF ok owners starts]
    by (intro exI [of _ "replicate G ()"]) (simp add: mapE_Inr_iff list_all2_conv_all_nth)
  have rows: "np_rows (length sg) s ?active = map (\<lambda>gs. map (\<lambda>i. i < int (length (shard_rows members gs))) [0..int s - 1]) sg"
  proof -
    have "?active = concat (map (\<lambda>gs. map (\<lambda>i. i < int (length (shard_rows members gs))) [0..int s - 1]) sg)"
      using le segment_suffix by (induction sg) (auto simp: packed_rows_def)
    moreover have "\<forall>x\<in>set (map (\<lambda>gs. map (\<lambda>i. i < int (length (shard_rows members gs))) [0..int s - 1]) sg). length x = s" by auto
    ultimately show ?thesis using np_rows_concat [of "map (\<lambda>gs. map (\<lambda>i. i < int (length (shard_rows members gs))) [0..int s - 1]) sg" s]
      by simp
  qed
  have load: "length (filter (\<lambda>x. x) (map (\<lambda>i. i < int k) [0..int s - 1])) = k" if "k \<le> s" for k
  proof -
    have "map (\<lambda>i. i < int k) [0..int s - 1] = replicate k True @ replicate (s - k) False"
      by (rule nth_equalityI) (use that in \<open>auto simp: nth_append upto_nth_eq\<close>)
    then show ?thesis by simp
  qed
  let ?inv = "np_put (map nat ?ar) (map int (np_flatnonzero ?active)) (replicate ?n (0 :: int))"
  have fld: "gl_n_logical ?l = int ?n" "gl_n_groups ?l = int G" "gl_n_shards ?l = int (length sg)" "gl_shard_size ?l = int s"
    "gl_n_padded ?l = int (length sg) * int s" "gl_packed_to_canonical ?l = ?packed" "gl_canonical_to_packed ?l = ?inv"
    "gl_canonical_group_id ?l = map int dense" "gl_packed_group_id ?l = packed_labels G members sg s" "gl_active_mask ?l = ?active"
    "gl_shard_load ?l = map (\<lambda>gs. int (length (shard_rows members gs))) sg"
    by (simp_all add: packed_layout_def Let_def)
  have c1: "(min (min (int ?n) (int G)) (min (int (length sg)) (int s)) < 1) = False" using n G sg s by (simp add: min_less_iff_disj Suc_le_eq)
  have c2: "(int (length sg) * int s < int ?n) = False"
    using fits lenp(1) by (simp add: of_nat_mult [symmetric] del: of_nat_mult)
  have c3: "list_all (\<lambda>x. x = - 1) (masked (map Not ?active) ?packed) = True" unfolding unact using neg by (auto simp: list_all_iff)
  have c4: "(int (length ?ar) \<noteq> int ?n \<or> (\<exists>x\<in>set ?ar. x < 0) \<or> (\<exists>x\<in>set ?ar. int ?n \<le> x) \<or> \<not> list_all (\<lambda>c. c = 1) (np_bincount ?ar (int ?n))) = False"
    using arn ar_range counts by fastforce
  have c5: "((\<exists>x\<in>set ?inv. x < 0) \<or> (\<exists>x\<in>set ?inv. int (length sg) * int s \<le> x) \<or> np_take ?packed (map nat ?inv) \<noteq> [0..int ?n - 1]) = False"
  proof -
    have "\<forall>x\<in>set ?inv. 0 \<le> x \<and> x < int (length sg) * int s"
    proof
      fix x assume "x \<in> set ?inv"
      then obtain i where "i < ?n" "x = ?inv ! i" by (metis inv(1) in_set_conv_nth)
      then have "0 \<le> x" "nat x < length sg * s" using inv(2) lenp(1) by auto
      then show "0 \<le> x \<and> x < int (length sg) * int s" by (simp add: nat_less_iff)
    qed
    moreover have "np_take ?packed (map nat ?inv) = [0..int ?n - 1]"
      by (rule nth_equalityI) (use inv(1,2) in \<open>auto simp: np_take_def upto_nth_eq\<close>)
    ultimately show ?thesis by fastforce
  qed
  have c6: "(np_take ?inv (map nat ?ar) \<noteq> map int (np_flatnonzero ?active)) = False" using inv(3) by simp
  have c7: "((\<exists>x\<in>set (map int dense). x < 0) \<or> (\<exists>x\<in>set (map int dense). int G \<le> x)) = False" using dense by fastforce
  have c8: "(map (\<lambda>g. int (fa g)) [0..<G] ! 0 \<noteq> 0 \<or> \<not> sorted_wrt (<) (map (\<lambda>g. int (fa g)) [0..<G])) = False"
    using sorted_fr first(2) G by simp
  have c9: "(masked ?active (packed_labels G members sg s) \<noteq> np_take (map int dense) (map nat ?ar)) = False" using labels by simp
  have c10: "(gl_group_size ?l \<noteq> np_bincount (map int dense) (int G)) = False"
    by (simp add: packed_layout_def Let_def group_sizes_def)
  have c11: "(map (\<lambda>gs. int (length (shard_rows members gs))) sg \<noteq>
      map (\<lambda>r. int (length (filter (\<lambda>x. x) r))) (np_rows (nat (int (length sg))) (nat (int s)) ?active)) = False"
    using load le by (simp add: rows)
  have c12: "(np_rows (nat (int (length sg))) (nat (int s)) ?active \<noteq>
      map (\<lambda>load. map (\<lambda>i. i < load) [0..int s - 1]) (map (\<lambda>gs. int (length (shard_rows members gs))) sg)) = False"
    by (simp add: rows)
  obtain us where us: "mapE (group_check ?l) [0..int G - 1] = Inr us" using groups by blast
  have c0: "(\<exists>x\<in>set (gl_group_size ?l). x \<le> 0) = False" using sizes0 by simp
  show ?thesis
    unfolding validate_grouped_shard_layout_def Let_def fld fr shapes andthen_simps us
    by (simp only: c0 c1 c2 c3 c4 c5 c6 c7 c8 c9 c10 c11 c12 pads shapes us andthen_simps if_False simp_thms)
qed

section \<open>What the builder returns\<close>

lemma dense_ok:
  assumes "labels \<noteq> []"
  defines "dense \<equiv> fst (dense_labels labels)" and "G \<equiv> snd (dense_labels labels)"
  shows "0 < G" "\<forall>x\<in>set dense. x < G" "\<forall>g<G. g \<in> set dense" "length dense = length labels"
    "\<forall>i<length labels. \<forall>j<length labels. dense ! i = dense ! j \<longleftrightarrow> labels ! i = labels ! j"
    "\<exists>fa. (\<forall>g<G. fa g < length dense \<and> dense ! fa g = g \<and> (\<forall>i<fa g. dense ! i \<noteq> g)) \<and> fa 0 = 0 \<and> (\<forall>g h. g < h \<longrightarrow> h < G \<longrightarrow> fa g < fa h)"
proof -
  let ?app = "appearance labels"
  have eq: "dense = map (\<lambda>x. first_index x ?app) labels" "G = length ?app"
    by (simp_all add: dense_def G_def dense_labels_eq)
  show "0 < G" using assms(1) by (simp add: eq)
  then have G: "0 < G" .
  show "\<forall>x\<in>set dense. x < G" using first_index_lt [of _ ?app] by (auto simp: eq)
  have at: "first_index (?app ! g) labels < length labels" "labels ! first_index (?app ! g) labels = ?app ! g" if "g < G" for g
    using that nth_mem [of g ?app] by (auto simp: eq first_index_lt first_index_nth)
  have val: "dense ! first_index (?app ! g) labels = g" if "g < G" for g
    using that at [OF that] first_index_distinct [of ?app g] by (simp add: eq)
  show "\<forall>g<G. g \<in> set dense"
  proof (intro allI impI)
    fix g assume "g < G"
    then show "g \<in> set dense" using val at nth_mem [of "first_index (?app ! g) labels" dense] by (simp add: eq(1))
  qed
  show "length dense = length labels" by (simp add: eq)
  show same: "\<forall>i<length labels. \<forall>j<length labels. dense ! i = dense ! j \<longleftrightarrow> labels ! i = labels ! j"
    using first_index_inj [of _ ?app] by (auto simp: eq)
  have least: "dense ! i \<noteq> g" if g: "g < G" and i: "i < first_index (?app ! g) labels" for g i
  proof
    assume "dense ! i = g"
    then have "labels ! i = ?app ! g"
      using same val [OF g] at [OF g] i by (metis order_less_trans)
    moreover have "i < length labels" using i at(1) [OF g] by simp
    ultimately show False using first_index_le [of i labels] i by simp
  qed
  have mono: "first_index (?app ! g) labels < first_index (?app ! h) labels" if "g < h" "h < G" for g h
    using appearance_sorted [of labels] that by (simp add: sorted_wrt_iff_nth_less eq)
  have "first_index (?app ! 0) labels = 0"
  proof (rule ccontr)
    assume "first_index (?app ! 0) labels \<noteq> 0"
    then have lt: "0 < first_index (?app ! 0) labels" by simp
    have "dense ! 0 < G" using \<open>\<forall>x\<in>set dense. x < G\<close> assms(1) by (simp add: eq)
    moreover have "dense ! 0 \<noteq> 0" using least [OF G lt] .
    ultimately have "first_index (?app ! 0) labels < first_index (?app ! (dense ! 0)) labels" using mono by simp
    moreover have "?app ! (dense ! 0) = labels ! 0" using assms(1) first_index_nth [of "labels ! 0" ?app] by (simp add: eq)
    ultimately show False using first_index_le [of 0 labels] assms(1) by simp
  qed
  then show "\<exists>fa. (\<forall>g<G. fa g < length dense \<and> dense ! fa g = g \<and> (\<forall>i<fa g. dense ! i \<noteq> g)) \<and> fa 0 = 0 \<and> (\<forall>g h. g < h \<longrightarrow> h < G \<longrightarrow> fa g < fa h)"
    using at val least mono by (intro exI [of _ "\<lambda>g. first_index (?app ! g) labels"]) (simp add: eq(1))
qed

text \<open>The group sizes are those of the members, and positive.\<close>

lemma sizes_members:
  assumes "0 < G" "\<forall>x\<in>set dense. x < G" "\<forall>g<G. g \<in> set dense"
  shows "group_sizes dense G = map (\<lambda>g. int (length (group_members dense G ! g))) [0..<G]" "length (group_sizes dense G) = G"
    "\<forall>z\<in>set (group_sizes dense G). 0 < z"
proof -
  show eq: "group_sizes dense G = map (\<lambda>g. int (length (group_members dense G ! g))) [0..<G]"
    using assms by (simp add: group_sizes_eq group_members_eq)
  then show "length (group_sizes dense G) = G" by simp
  have "0 < length (filter (\<lambda>i. dense ! i = g) [0..<length dense])" if "g < G" for g
    using assms(3) that by (fastforce simp: in_set_conv_nth filter_empty_conv)
  then show "\<forall>z\<in>set (group_sizes dense G). 0 < z" using assms by (auto simp: group_sizes_eq)
qed

lemma lpt_load_rows:
  assumes "lpt_inv (group_sizes dense G) nsh (packing_order (group_sizes dense G)) st" "t < nsh"
    "0 < G" "\<forall>x\<in>set dense. x < G" "\<forall>g<G. g \<in> set dense"
  shows "lpt_loads st ! t = int (length (shard_rows (group_members dense G) (lpt_groups st ! t)))"
proof -
  note sz = sizes_members [OF assms(3-5)]
  have "g < G" if "g \<in> set (lpt_groups st ! t)" for g
  proof -
    have "g \<in> set (concat (lpt_groups st))" using that assms(1,2) by (auto simp: lpt_inv_def)
    then have "g \<in> set (packing_order (group_sizes dense G))" using assms(1) by (metis lpt_inv_def set_mset_mset)
    then show ?thesis by (simp add: sz(2))
  qed
  moreover have "(\<Sum>g\<leftarrow>gs. group_sizes dense G ! g) = int (length (shard_rows (group_members dense G) gs))" if "\<forall>g\<in>set gs. g < G" for gs
    using that sz(1) by (induction gs) auto
  ultimately show ?thesis using assms(1,2) by (simp add: lpt_inv_def)
qed

lemma build_layout_shape:
  assumes "labels \<noteq> []" "1 \<le> n_shards" "1 \<le> multiple"
  defines "dense \<equiv> fst (dense_labels labels)" and "G \<equiv> snd (dense_labels labels)"
  defines "sizes \<equiv> group_sizes dense G" and "members \<equiv> group_members dense G"
  defines "lpt \<equiv> lpt_pack sizes (nat n_shards)"
  defines "s \<equiv> nat (round_up (fold max (lpt_loads lpt) 0) multiple)"
  shows "\<exists>starts. build_grouped_shard_layout labels n_shards multiple =
        Inr (packed_layout dense G members (lpt_groups lpt) s (map int (lpt_owner lpt)) starts)"
    "packing_ok dense G members (lpt_groups lpt) s"
proof -
  note d = dense_ok [OF assms(1), folded dense_def G_def]
  have nsh: "0 < nat n_shards" using assms(2) by simp
  note inv = lpt_pack_inv [OF nsh, of sizes, folded lpt_def]
  note sz = sizes_members [OF d(1-3), folded sizes_def members_def]
  have lens: "length (lpt_groups lpt) = nat n_shards" "length (lpt_loads lpt) = nat n_shards" "length (lpt_owner lpt) = G"
    using inv sz(2) by (simp_all add: lpt_inv_def)
  have load: "lpt_loads lpt ! t = int (length (shard_rows members (lpt_groups lpt ! t)))" if "t < nat n_shards" for t
    using lpt_load_rows [OF inv [unfolded sizes_def] that d(1-3)] by (simp add: members_def)
  have peak: "0 \<le> fold max (lpt_loads lpt) 0" by (rule fold_max_ge)
  have carrier: "fold max (lpt_loads lpt) 0 \<le> int s" using peak ru.carrier_ge ru.carrier_nonneg by (simp add: s_def)
  show ok: "packing_ok dense G members (lpt_groups lpt) s"
    unfolding packing_ok_def
  proof (intro conjI)
    show "members = map (\<lambda>g. filter (\<lambda>i. dense ! i = g) [0..<length dense]) [0..<G]"
      unfolding members_def by (rule group_members_eq) (use d in auto)
    show "mset (concat (lpt_groups lpt)) = mset [0..<G]" using inv by (simp add: lpt_inv_def sz(2))
    show "\<forall>gs\<in>set (lpt_groups lpt). length (shard_rows members gs) \<le> s"
    proof
      fix gs assume "gs \<in> set (lpt_groups lpt)"
      then obtain t where t: "t < nat n_shards" "gs = lpt_groups lpt ! t" using lens(1) by (metis in_set_conv_nth)
      then have "lpt_loads lpt ! t \<le> fold max (lpt_loads lpt) 0" using lens(2) by (intro fold_max_mem) simp
      then show "length (shard_rows members gs) \<le> s" using load [OF t(1)] t(2) carrier by simp
    qed
  qed (use d in auto)
  obtain fa where fa: "\<forall>g<G. fa g < length dense \<and> dense ! fa g = g \<and> (\<forall>i<fa g. dense ! i \<noteq> g)" "fa 0 = 0"
    "\<forall>g h. g < h \<longrightarrow> h < G \<longrightarrow> fa g < fa h" using d(6) by blast
  have "padded_axis (fold max (lpt_loads lpt) 0) (Divisor multiple) ''grouped shard rows'' None None None 0 =
      Inr \<lparr>pa_name = py_strip ''grouped shard rows'', pa_logical = fold max (lpt_loads lpt) 0,
        pa_carrier = round_up (round_up (fold max (lpt_loads lpt) 0) multiple + 0) multiple, pa_divisor = multiple\<rparr>"
    by (rule padded_axis_ok) (use assms(3) peak in \<open>simp_all add: axis_divisor_def py_strip_def py_isspace_def\<close>)
  then obtain tag where tag: "padded_axis (fold max (lpt_loads lpt) 0) (Divisor multiple) ''grouped shard rows'' None None None 0 = Inr tag"
    "pa_carrier tag = int s"
    using ru.carrier_nonneg [OF peak] by (simp add: ru.carrier_idem s_def)
  let ?st = "\<lparr>pl_rows = replicate (nat (n_shards * int s)) (- 1), pl_group = replicate (nat (n_shards * int s)) (int G),
               pl_start = replicate G 0, pl_cursor = 0\<rparr>"
  have N: "nat (n_shards * int s) = nat n_shards * s" using assms(2) by (simp add: nat_mult_distrib)
  have mset: "mset (concat (lpt_groups lpt)) = mset [0..<G]" using ok unfolding packing_ok_def by blast
  have "\<exists>st'. place_shards members (int s) (lpt_loads lpt) 0 (lpt_groups lpt) ?st = Inr st' \<and>
    pl_rows st' = [] @ concat (map (\<lambda>gs. segment s (- 1) (shard_rows members gs)) (lpt_groups lpt)) \<and>
    pl_group st' = [] @ concat (map (\<lambda>gs. segment s (int G) (shard_labels members gs)) (lpt_groups lpt)) \<and>
    length (pl_start st') = length (pl_start ?st) \<and>
    (\<forall>g. g \<notin> set (concat (lpt_groups lpt)) \<longrightarrow> pl_start st' ! g = pl_start ?st ! g) \<and>
    (\<forall>i as g bs. i < length (lpt_groups lpt) \<longrightarrow> lpt_groups lpt ! i = as @ g # bs \<longrightarrow>
       pl_start st' ! g = int ((0 + i) * s) + int (length (shard_rows members as)))"
  proof (rule place_shards_spec)
    show "distinct (concat (lpt_groups lpt))" using mset by (metis distinct_upt mset_eq_imp_distinct_iff)
    show "set (concat (lpt_groups lpt)) \<subseteq> {..<length (pl_start ?st)}" using mset_eq_setD [OF mset] by auto
    show "\<forall>gs\<in>set (lpt_groups lpt). length (shard_rows members gs) \<le> s" using ok unfolding packing_ok_def by blast
  qed (use N lens load in simp_all)
  then obtain placed where placed: "place_shards members (int s) (lpt_loads lpt) 0 (lpt_groups lpt) ?st = Inr placed"
    "pl_rows placed = packed_rows members (lpt_groups lpt) s" "pl_group placed = packed_labels G members (lpt_groups lpt) s"
    "length (pl_start placed) = G"
    "\<forall>i as g bs. i < length (lpt_groups lpt) \<longrightarrow> lpt_groups lpt ! i = as @ g # bs \<longrightarrow>
       pl_start placed ! g = int (i * s) + int (length (shard_rows members as))"
    unfolding packed_rows_def packed_labels_def by fastforce
  have loads: "lpt_loads lpt = map (\<lambda>gs. int (length (shard_rows members gs))) (lpt_groups lpt)"
    by (rule nth_equalityI) (use lens load in simp_all)
  have owners: "\<forall>t<length (lpt_groups lpt). \<forall>g\<in>set (lpt_groups lpt ! t). map int (lpt_owner lpt) ! g = int t"
  proof (intro allI ballI impI)
    fix t g assume t: "t < length (lpt_groups lpt)" and g: "g \<in> set (lpt_groups lpt ! t)"
    have "g \<in> set (concat (lpt_groups lpt))" using t g by auto
    then have "g < G" using mset_eq_setD [OF mset] by auto
    then show "map int (lpt_owner lpt) ! g = int t" using inv t g lens by (simp add: lpt_inv_def)
  qed
  have valid: "validate_grouped_shard_layout (packed_layout dense G members (lpt_groups lpt) s (map int (lpt_owner lpt)) (pl_start placed)) =
      Inr (packed_layout dense G members (lpt_groups lpt) s (map int (lpt_owner lpt)) (pl_start placed))"
    by (rule packed_layout_valid [OF ok _ _ owners placed(4,5) fa]) (use lens nsh in auto)
  have dl: "dense_labels labels = (dense, G)" by (simp add: dense_def G_def)
  have run: "build_grouped_shard_layout labels n_shards multiple =
      validate_grouped_shard_layout (packed_layout dense G members (lpt_groups lpt) s (map int (lpt_owner lpt)) (pl_start placed))"
  proof -
    have count: "int (length (lpt_groups lpt)) = n_shards" using lens(1) assms(2) by simp
    show ?thesis
      unfolding build_grouped_shard_layout_def dl Let_def prod.case sizes_def [symmetric] members_def [symmetric] lpt_def [symmetric]
      using assms(1-3) tag placed(1-3) d(4) loads [symmetric]
      by (simp add: lift_layout_pad_def packed_layout_def Let_def count sizes_def [symmetric])
  qed
  show "\<exists>starts. build_grouped_shard_layout labels n_shards multiple =
        Inr (packed_layout dense G members (lpt_groups lpt) s (map int (lpt_owner lpt)) starts)"
    using run valid by metis
qed

section \<open>Properties of the builder\<close>

lemma validate_returns: "validate_grouped_shard_layout l = Inr l' \<Longrightarrow> l' = l"
  unfolding validate_grouped_shard_layout_def Let_def by (auto split: if_splits)

lemma build_errors:
  "\<not> (labels \<noteq> [] \<and> 1 \<le> n_shards \<and> 1 \<le> multiple) \<Longrightarrow> build_grouped_shard_layout labels n_shards multiple \<noteq> Inr l"
  by (auto simp: build_grouped_shard_layout_def split: prod.splits)

lemma packed_layout_fields:
  "gl_n_logical (packed_layout dense G members sg s owners starts) = int (length dense)"
  "gl_n_groups (packed_layout dense G members sg s owners starts) = int G"
  "gl_n_shards (packed_layout dense G members sg s owners starts) = int (length sg)"
  "gl_shard_size (packed_layout dense G members sg s owners starts) = int s"
  "gl_canonical_group_id (packed_layout dense G members sg s owners starts) = map int dense"
  "gl_group_size (packed_layout dense G members sg s owners starts) = group_sizes dense G"
  "gl_shard_load (packed_layout dense G members sg s owners starts) = map (\<lambda>gs. int (length (shard_rows members gs))) sg"
  by (simp_all add: packed_layout_def Let_def)

text \<open>What a successful build is made of.\<close>

lemma build_parts:
  assumes "build_grouped_shard_layout labels n_shards multiple = Inr l"
  defines "dense \<equiv> fst (dense_labels labels)" and "G \<equiv> snd (dense_labels labels)"
  defines "sizes \<equiv> group_sizes dense G"
  defines "lpt \<equiv> lpt_pack sizes (nat n_shards)"
  shows "labels \<noteq> []" "1 \<le> n_shards" "1 \<le> multiple"
    "gl_n_logical l = int (length labels)" "gl_n_groups l = int G" "gl_n_shards l = n_shards" "gl_group_size l = sizes"
    "gl_canonical_group_id l = map int dense" "gl_shard_load l = lpt_loads lpt" "length (lpt_loads lpt) = nat n_shards"
    "gl_shard_size l = round_up (fold max (lpt_loads lpt) 0) multiple" "validate_grouped_shard_layout l = Inr l"
proof -
  show args: "labels \<noteq> []" "1 \<le> n_shards" "1 \<le> multiple" using assms(1) build_errors by blast+
  note d = dense_ok [OF args(1), folded dense_def G_def]
  have nsh: "0 < nat n_shards" using args(2) by simp
  note inv = lpt_pack_inv [OF nsh, of sizes, folded lpt_def]
  let ?s = "nat (round_up (fold max (lpt_loads lpt) 0) multiple)"
  obtain starts where l: "l = packed_layout dense G (group_members dense G) (lpt_groups lpt) ?s (map int (lpt_owner lpt)) starts"
    using build_layout_shape(1) [OF args] assms(1) unfolding dense_def G_def sizes_def lpt_def by auto
  have lens: "length (lpt_groups lpt) = nat n_shards" using inv by (simp add: lpt_inv_def)
  show len: "length (lpt_loads lpt) = nat n_shards" using inv by (simp add: lpt_inv_def)
  have load: "lpt_loads lpt ! t = int (length (shard_rows (group_members dense G) (lpt_groups lpt ! t)))" if "t < nat n_shards" for t
    using lpt_load_rows [OF inv [unfolded sizes_def] that d(1-3)] .
  have "map (\<lambda>gs. int (length (shard_rows (group_members dense G) gs))) (lpt_groups lpt) = lpt_loads lpt"
    by (rule nth_equalityI) (use lens len load in simp_all)
  then show "gl_shard_load l = lpt_loads lpt" by (simp add: l packed_layout_fields)
  show "gl_n_logical l = int (length labels)" "gl_n_groups l = int G" "gl_n_shards l = n_shards" "gl_group_size l = sizes"
    "gl_canonical_group_id l = map int dense"
    using d(4) lens args(2) by (simp_all add: l packed_layout_fields sizes_def)
  have "0 \<le> round_up (fold max (lpt_loads lpt) 0) multiple" by (intro ru.carrier_nonneg fold_max_ge)
  then show "gl_shard_size l = round_up (fold max (lpt_loads lpt) 0) multiple" by (simp add: l packed_layout_fields)
  obtain l0 where "validate_grouped_shard_layout l0 = Inr l"
    using assms(1) by (auto simp: build_grouped_shard_layout_def Let_def split: prod.splits if_splits)
  then show "validate_grouped_shard_layout l = Inr l" using validate_returns by metis
qed

text \<open>
  C19: the builder is total on nonempty labels, a positive shard count and a positive multiple, and
  refuses everything else. What it returns has passed the whole invariant check and passes it
  again; it has one dense group per distinct label, rows share a group exactly when they share a
  label, and the shard size is a multiple of the one asked for.
\<close>

theorem build_layout_valid:
  "((\<exists>l. build_grouped_shard_layout labels n_shards multiple = Inr l) \<longleftrightarrow> labels \<noteq> [] \<and> 1 \<le> n_shards \<and> 1 \<le> multiple) \<and>
   (build_grouped_shard_layout labels n_shards multiple = Inr l \<longrightarrow>
      validate_grouped_shard_layout l = Inr l \<and> gl_n_logical l = int (length labels) \<and> gl_n_shards l = n_shards \<and>
      gl_n_groups l = int (card (set labels)) \<and> multiple dvd gl_shard_size l \<and>
      (\<forall>i j. i < length labels \<and> j < length labels \<longrightarrow>
         (gl_canonical_group_id l ! i = gl_canonical_group_id l ! j \<longleftrightarrow> labels ! i = labels ! j)))"
proof (intro conjI)
  show "(\<exists>l. build_grouped_shard_layout labels n_shards multiple = Inr l) \<longleftrightarrow> labels \<noteq> [] \<and> 1 \<le> n_shards \<and> 1 \<le> multiple"
    using build_layout_shape(1) build_errors by blast
  show "build_grouped_shard_layout labels n_shards multiple = Inr l \<longrightarrow>
      validate_grouped_shard_layout l = Inr l \<and> gl_n_logical l = int (length labels) \<and> gl_n_shards l = n_shards \<and>
      gl_n_groups l = int (card (set labels)) \<and> multiple dvd gl_shard_size l \<and>
      (\<forall>i j. i < length labels \<and> j < length labels \<longrightarrow>
         (gl_canonical_group_id l ! i = gl_canonical_group_id l ! j \<longleftrightarrow> labels ! i = labels ! j))"
  proof
    assume b: "build_grouped_shard_layout labels n_shards multiple = Inr l"
    note p = build_parts [OF b]
    have "snd (dense_labels labels) = card (set labels)"
      using distinct_card [OF appearance_distinct, of labels] by (simp add: dense_labels_eq)
    moreover have "multiple dvd gl_shard_size l" using ru.carrier_dvd [of multiple] p(3,11) by (simp add: max_def split: if_splits)
    ultimately show "validate_grouped_shard_layout l = Inr l \<and> gl_n_logical l = int (length labels) \<and> gl_n_shards l = n_shards \<and>
      gl_n_groups l = int (card (set labels)) \<and> multiple dvd gl_shard_size l \<and>
      (\<forall>i j. i < length labels \<and> j < length labels \<longrightarrow>
         (gl_canonical_group_id l ! i = gl_canonical_group_id l ! j \<longleftrightarrow> labels ! i = labels ! j))"
      using p(4-8,12) dense_ok(4,5) [OF p(1)] by simp
  qed
qed

theorem build_layout_valid_witness:
  "\<exists>l. build_grouped_shard_layout [7, 3, 3, 9, 7] 2 2 = Inr l \<and> validate_grouped_shard_layout l = Inr l \<and>
     gl_n_groups l = 3 \<and> gl_canonical_group_id l ! 0 = gl_canonical_group_id l ! 4"
proof -
  let ?labels = "[7, 3, 3, 9, 7] :: int list"
  obtain l where l: "build_grouped_shard_layout ?labels 2 2 = Inr l"
    using build_layout_valid [of ?labels 2 2 undefined, THEN conjunct1] by auto
  then have v: "validate_grouped_shard_layout l = Inr l" "gl_n_groups l = int (card (set ?labels))"
    "\<forall>i j. i < length ?labels \<and> j < length ?labels \<longrightarrow>
       (gl_canonical_group_id l ! i = gl_canonical_group_id l ! j \<longleftrightarrow> ?labels ! i = ?labels ! j)"
    using build_layout_valid [of ?labels 2 2 l, THEN conjunct2] by blast+
  have "gl_canonical_group_id l ! 0 = gl_canonical_group_id l ! 4" using v(3) [rule_format, of 0 4] by simp
  moreover have "set ?labels = {3, 7, 9}" by auto
  then have "card (set ?labels) = 3" by simp
  ultimately show ?thesis using l v(1,2) by (intro exI [of _ l]) simp
qed

text \<open>
  C33: the packing is balanced. For any assignment of the groups to the shards, with \<open>T\<close> at least
  its largest load, no shard of the layout holds more than three halves of \<open>T\<close>; no load exceeds the
  average by more than \<open>(1 - 1/m)\<close> of the largest group; and the padded shard is less than one
  multiple longer than three halves of \<open>T\<close>.
\<close>

theorem build_layout_balanced:
  assumes "build_grouped_shard_layout labels n_shards multiple = Inr l"
    and "\<forall>g<length (gl_group_size l). f g < nat n_shards"
    and "\<forall>t<nat n_shards. assigned_load (gl_group_size l) f t \<le> T"
    and "\<forall>z\<in>set (gl_group_size l). z \<le> M"
  shows "(\<forall>load\<in>set (gl_shard_load l). 2 * load \<le> 3 * T \<and>
      n_shards * load \<le> sum_list (gl_group_size l) + (n_shards - 1) * M) \<and>
    2 * gl_shard_size l < 3 * T + 2 * multiple"
proof -
  note p = build_parts [OF assms(1)]
  let ?sizes = "gl_group_size l"
  have nsh: "0 < nat n_shards" using p(2) by simp
  have sz: "\<forall>z\<in>set ?sizes. 0 < z" "?sizes \<noteq> []"
    using sizes_members(2,3) [OF dense_ok(1-3) [OF p(1)]] dense_ok(1) [OF p(1)] unfolding p(7) by (auto simp: length_0_conv [symmetric] simp del: length_0_conv)
  have M: "0 \<le> M" using sz assms(4) by (cases ?sizes) auto
  have loads: "gl_shard_load l = lpt_loads (lpt_pack ?sizes (nat n_shards))" using p(7,9) by simp
  have len: "length (lpt_loads (lpt_pack ?sizes (nat n_shards))) = nat n_shards" using p(7,10) by simp
  have T0: "0 \<le> T" using assigned_ge [OF sz(1), of "{}" f 0] assms(3) nsh by fastforce
  have each: "2 * load \<le> 3 * T \<and> n_shards * load \<le> sum_list ?sizes + (n_shards - 1) * M" if m: "load \<in> set (gl_shard_load l)" for load
  proof -
    obtain t where t: "t < nat n_shards" "load = lpt_loads (lpt_pack ?sizes (nat n_shards)) ! t"
      using m len unfolding loads in_set_conv_nth by auto
    have "int (nat n_shards) * load \<le> sum_list ?sizes + (int (nat n_shards) - 1) * M"
      unfolding t(2) by (rule lpt_greedy_bound [OF nsh _ t(1) M]) (use sz(1) assms(4) in fastforce)
    then show ?thesis using lpt_three_halves_bound [OF nsh sz(1) assms(2,3) t(1)] t(2) p(2) by simp
  qed
  have "2 * fold max (gl_shard_load l) 0 \<le> 3 * T"
  proof -
    have "\<forall>x\<in>set (gl_shard_load l). x \<le> 3 * T div 2" using each by fastforce
    then have "fold max (gl_shard_load l) 0 \<le> 3 * T div 2" using T0 by (intro fold_max_le) auto
    then show ?thesis by linarith
  qed
  moreover have "gl_shard_size l < fold max (gl_shard_load l) 0 + multiple"
    using p(3,9,11) ru.carrier_tight [of "fold max (gl_shard_load l) 0" multiple] by (simp add: max_def)
  ultimately show ?thesis using each by fastforce
qed

theorem build_layout_balanced_witness:
  "\<exists>l. build_grouped_shard_layout [7, 3, 3, 9, 7] 2 1 = Inr l \<and> (\<forall>load\<in>set (gl_shard_load l). 2 * load \<le> 9)"
proof -
  obtain l where l: "build_grouped_shard_layout [7, 3, 3, 9, 7] 2 1 = Inr l"
    using build_layout_shape(1) [of "[7, 3, 3, 9, 7]" 2 1] by auto
  have sizes: "gl_group_size l = [2, 2, 1]"
    using build_parts(7) [OF l] by (simp add: group_sizes_def dense_labels_eq appearance_def first_index_def np_bincount_def upto_rec1)
  have load: "assigned_load [2, 2, 1] (\<lambda>g. if g = 0 then 0 else 1) t \<le> 3" for t
  proof -
    have "{g. g < length [2, 2, 1 :: int] \<and> (if g = 0 then 0 else 1) = t} = (if t = 0 then {0} else if t = 1 then {1, 2} else {})"
      by (auto simp: less_Suc_eq numeral_2_eq_2 numeral_3_eq_3)
    then show ?thesis by (simp add: assigned_load_def)
  qed
  have "(\<forall>load\<in>set (gl_shard_load l). 2 * load \<le> 3 * 3 \<and> 2 * load \<le> sum_list (gl_group_size l) + (2 - 1) * 2) \<and>
      2 * gl_shard_size l < 3 * 3 + 2 * 1"
    by (rule build_layout_balanced [OF l, of "\<lambda>g. if g = 0 then 0 else 1"]) (use load in \<open>simp_all add: sizes\<close>)
  then show ?thesis using l by auto
qed

text \<open>
  the layout depends on the partition and the canonical order only. Renaming the labels by any
  injective map gives the same layout, whatever the names' numerical order.
\<close>

theorem build_layout_relabel:
  assumes "inj_on f (set labels)"
  shows "build_grouped_shard_layout (map f labels) n_shards multiple = build_grouped_shard_layout labels n_shards multiple"
proof -
  have same: "dense_labels (map f labels) = dense_labels labels"
  proof -
    have "first_index (f x) (map f (appearance labels)) = first_index x (appearance labels)" if "x \<in> set labels" for x
      by (rule first_index_map) (use assms that in \<open>simp add: insert_absorb\<close>)
    then show ?thesis using appearance_map [OF assms] by (simp add: dense_labels_eq)
  qed
  show ?thesis unfolding build_grouped_shard_layout_def same length_map map_is_Nil_conv by (rule refl)
qed

theorem build_layout_relabel_witness:
  "inj_on (\<lambda>x. 100 - x) (set [7, 3, 3, 9 :: int]) \<and>
   build_grouped_shard_layout [93, 97, 97, 91] 2 1 = build_grouped_shard_layout [7, 3, 3, 9] 2 1"
proof -
  have inj: "inj_on (\<lambda>x. 100 - x) (set [7, 3, 3, 9 :: int])" by (simp add: inj_on_def)
  have names: "map (\<lambda>x. 100 - x) [7, 3, 3, 9 :: int] = [93, 97, 97, 91]" by simp
  show ?thesis using build_layout_relabel [OF inj, of 2 1] inj unfolding names by blast
qed

end
