(* ===== verification/PaddedArrays.thy ===== *)
theory PaddedArrays
  imports Padding
begin

text \<open>
  The array operations of \<open>src/runtime/padding.py\<close> on a padded axis: the leading slice, the jitted
  pad body, \<open>pad_to_axis\<close>, \<open>pad_square\<close>, \<open>strip_axis\<close>, \<open>authenticate_axis\<close>, \<open>pad_axis\<close> and
  \<open>solve_at_logical\<close>. The solver handed to \<open>solve_at_logical\<close> is a parameter.
\<close>

section \<open>Arrays\<close>

record 'a ndarray =
  nd_shape :: "int list"
  nd_at :: "int list \<Rightarrow> 'a"

fun nd_valid :: "int list \<Rightarrow> int list \<Rightarrow> bool" where
  "nd_valid [] [] \<longleftrightarrow> True"
| "nd_valid (n # ns) (i # is) \<longleftrightarrow> 0 \<le> i \<and> i < n \<and> nd_valid ns is"
| "nd_valid _ _ \<longleftrightarrow> False"

lemma nd_valid_iff:
  "nd_valid sh ix \<longleftrightarrow> length ix = length sh \<and> (\<forall>j<length sh. 0 \<le> ix ! j \<and> ix ! j < sh ! j)"
proof (induction sh ix rule: nd_valid.induct)
  case (2 n ns i "is")
  then show ?case by (auto simp: less_Suc_eq_0_disj nth_Cons split: nat.splits)
qed auto

definition nd_make :: "int list \<Rightarrow> (int list \<Rightarrow> 'a) \<Rightarrow> 'a ndarray" where
  "nd_make sh f = \<lparr>nd_shape = sh, nd_at = (\<lambda>ix. if nd_valid sh ix then f ix else undefined)\<rparr>"

definition nd_dim :: "'a ndarray \<Rightarrow> nat" where
  "nd_dim A = length (nd_shape A)"

lemma nd_make_shape [simp]: "nd_shape (nd_make sh f) = sh"
  by (simp add: nd_make_def)

lemma nd_make_at: "nd_valid sh ix \<Longrightarrow> nd_at (nd_make sh f) ix = f ix"
  by (simp add: nd_make_def)

lemma nd_make_cong: "sh = sh' \<Longrightarrow> (\<And>ix. nd_valid sh ix \<Longrightarrow> f ix = g ix) \<Longrightarrow> nd_make sh f = nd_make sh' g"
  by (auto simp: nd_make_def)

text \<open>An array as NumPy has it: nothing outside the shape.\<close>

definition nd_wf :: "'a ndarray \<Rightarrow> bool" where
  "nd_wf A \<longleftrightarrow> A = nd_make (nd_shape A) (nd_at A)"

lemma nd_wf_make [simp]: "nd_wf (nd_make sh f)"
  by (auto simp: nd_wf_def nd_make_def)

lemma nd_eqI:
  "nd_wf A \<Longrightarrow> nd_wf B \<Longrightarrow> nd_shape A = nd_shape B \<Longrightarrow>
   (\<And>ix. nd_valid (nd_shape A) ix \<Longrightarrow> nd_at A ix = nd_at B ix) \<Longrightarrow> A = B"
  unfolding nd_wf_def by (metis nd_make_cong)

text \<open>\<open>int(axis) % int(A.ndim)\<close>: modulo zero raises.\<close>

definition norm_axis :: "int \<Rightarrow> 'a ndarray \<Rightarrow> (pad_error, nat) result" where
  "norm_axis axis A =
     (if nd_dim A = 0 then Inl NoDimensions else Inr (nat (axis mod int (nd_dim A))))"

lemma norm_axis_lt: "norm_axis axis A = Inr ax \<Longrightarrow> ax < length (nd_shape A)"
  by (auto simp: norm_axis_def nd_dim_def nat_less_iff split: if_splits)

section \<open>Slices and pads\<close>

text \<open>The extent of the Python slice \<open>0:stop\<close> of an axis of extent \<open>n\<close>.\<close>

definition slice_extent :: "int \<Rightarrow> int \<Rightarrow> int" where
  "slice_extent n stop = (if stop < 0 then max 0 (n + stop) else min stop n)"

text \<open>
  NumPy's basic slice; \<open>lax.slice_in_dim\<close> with the same bounds is the same array wherever
  \<open>0 \<le> stop \<le> n\<close>, which every caller of this module has checked.
\<close>

definition jax_slice_axis :: "'a ndarray \<Rightarrow> int \<Rightarrow> nat \<Rightarrow> 'a ndarray" where
  "jax_slice_axis A stop ax =
     nd_make ((nd_shape A)[ax := slice_extent (nd_shape A ! ax) stop]) (nd_at A)"

text \<open>One axis of \<open>_pad_body\<close>: slice or pad to the carrier, then overwrite the masked tail.\<close>

definition pad_one :: "'a \<Rightarrow> int \<Rightarrow> int \<Rightarrow> nat \<Rightarrow> 'a ndarray \<Rightarrow> 'a ndarray" where
  "pad_one fill logical carrier ax A =
     (let source = nd_shape A ! ax;
          B = (if source > carrier then jax_slice_axis A carrier ax
               else if source < carrier then
                 nd_make ((nd_shape A)[ax := carrier])
                   (\<lambda>ix. if ix ! ax < source then nd_at A ix else fill)
               else A)
      in nd_make (nd_shape B) (\<lambda>ix. if ix ! ax < logical then nd_at B ix else fill))"

text \<open>\<open>A.at[..., i, i].set(diag)\<close>: the pad part of the trailing diagonal takes \<open>d\<close>.\<close>

definition set_diagonal :: "'a \<Rightarrow> int \<Rightarrow> nat \<Rightarrow> nat \<Rightarrow> 'a ndarray \<Rightarrow> 'a ndarray" where
  "set_diagonal d logical l r A =
     nd_make (nd_shape A)
       (\<lambda>ix. if ix ! l = ix ! r then (if ix ! l < logical then nd_at A ix else d) else nd_at A ix)"

definition pad_body :: "'a \<Rightarrow> 'a option \<Rightarrow> int \<Rightarrow> int \<Rightarrow> nat list \<Rightarrow> 'a ndarray \<Rightarrow> 'a ndarray" where
  "pad_body fill diagonal logical carrier axes A =
     (let B = fold (pad_one fill logical carrier) axes A
      in case diagonal of None \<Rightarrow> B | Some d \<Rightarrow> set_diagonal d logical (axes ! 0) (axes ! 1) B)"

definition pad_to_axis :: "'a ndarray \<Rightarrow> padded_axis \<Rightarrow> int \<Rightarrow> 'a \<Rightarrow> (pad_error, 'a ndarray) result" where
  "pad_to_axis A tag axis fill =
     andthen (norm_axis axis A) (\<lambda>ax.
       let source = nd_shape A ! ax in
       if source < pa_logical tag then Inl (SourceTooShort source (pa_logical tag))
       else if pa_pad tag = 0 then
         Inr (if source = pa_carrier tag then A else jax_slice_axis A (pa_carrier tag) ax)
       else Inr (pad_body fill None (pa_logical tag) (pa_carrier tag) [ax] A))"

definition pad_square ::
    "'a ndarray \<Rightarrow> padded_axis \<Rightarrow> int \<Rightarrow> int \<Rightarrow> 'a \<Rightarrow> 'a \<Rightarrow> 'a option \<Rightarrow> (pad_error, 'a ndarray) result" where
  "pad_square A tag a0 a1 zero fill pad_diagonal =
     andthen (norm_axis a0 A) (\<lambda>left. andthen (norm_axis a1 A) (\<lambda>right.
       if nd_shape A ! left < pa_logical tag \<or> nd_shape A ! right < pa_logical tag then
         Inl (SourceTooShort (nd_shape A ! left) (pa_logical tag))
       else if pa_pad tag = 0 then
         andthen (pad_to_axis A tag (int left) zero) (\<lambda>B. pad_to_axis B tag (int right) zero)
       else if pad_diagonal \<noteq> None \<and> (int left, int right) \<noteq> (int (nd_dim A) - 2, int (nd_dim A) - 1) then
         Inl DiagonalNotTrailing
       else Inr (pad_body fill pad_diagonal (pa_logical tag) (pa_carrier tag) [left, right] A)))"

definition strip_axis :: "'a ndarray \<Rightarrow> padded_axis \<Rightarrow> int \<Rightarrow> (pad_error, 'a ndarray) result" where
  "strip_axis A tag axis =
     andthen (norm_axis axis A) (\<lambda>ax.
       let source = nd_shape A ! ax in
       if source < pa_logical tag then Inl (SourceTooShort source (pa_logical tag))
       else if source = pa_logical tag then Inr A
       else Inr (jax_slice_axis A (pa_logical tag) ax))"

definition authenticate_axis :: "'a ndarray \<Rightarrow> padded_axis \<Rightarrow> int \<Rightarrow> (pad_error, 'a ndarray) result" where
  "authenticate_axis A tag axis =
     andthen (norm_axis axis A) (\<lambda>ax.
       let observed = nd_shape A ! ax in
       if observed \<noteq> pa_carrier tag then Inl (CarrierDiffers observed (pa_carrier tag)) else Inr A)"

record 'a pad_axis_result =
  par_array :: "'a ndarray"
  par_tag :: padded_axis

definition pad_axis ::
    "'a ndarray \<Rightarrow> geometry \<Rightarrow> int \<Rightarrow> 'a \<Rightarrow> string \<Rightarrow> spec option \<Rightarrow> (pad_error, 'a pad_axis_result) result" where
  "pad_axis A g axis fill nm sp =
     andthen (norm_axis axis A) (\<lambda>ax.
       andthen (padded_axis (nd_shape A ! ax) g nm sp (if sp \<noteq> None then Some (int ax) else None) None 0)
         (\<lambda>tag. andthen (pad_to_axis A tag (int ax) fill)
           (\<lambda>B. Inr \<lparr>par_array = B, par_tag = tag\<rparr>)))"

lemma norm_axis_nat [simp]: "ax < length (nd_shape A) \<Longrightarrow> norm_axis (int ax) A = Inr ax"
  by (auto simp: norm_axis_def nd_dim_def)

section \<open>What the pads do\<close>

lemma nd_valid_update:
  "ax < length sh \<Longrightarrow> nd_valid (sh[ax := c]) ix \<longleftrightarrow>
   length ix = length sh \<and> 0 \<le> ix ! ax \<and> ix ! ax < c \<and> (\<forall>j<length sh. j \<noteq> ax \<longrightarrow> 0 \<le> ix ! j \<and> ix ! j < sh ! j)"
  by (auto simp: nd_valid_iff nth_list_update split: if_splits)

lemma nd_valid_shrink:
  "ax < length sh \<Longrightarrow> nd_valid (sh[ax := c]) ix \<Longrightarrow> ix ! ax < sh ! ax \<Longrightarrow> nd_valid sh ix"
  unfolding nd_valid_iff [of sh] by (simp add: nd_valid_update) metis

lemma neg_mod: "0 < k \<Longrightarrow> k \<le> n \<Longrightarrow> (- k) mod n = n - k" for k n :: int
  using mod_add_self1 [of n "- k"] mod_pos_pos_trivial [of "n - k" n] by simp

lemma update_same: "xs ! i = v \<Longrightarrow> xs[i := v] = xs"
  by auto

lemma pad_one_shape: "ax < length (nd_shape A) \<Longrightarrow> 0 \<le> carrier \<Longrightarrow>
    nd_shape (pad_one fill logical carrier ax A) = (nd_shape A)[ax := carrier]"
  by (auto simp: pad_one_def Let_def jax_slice_axis_def slice_extent_def)

lemma pad_one_at:
  assumes "ax < length (nd_shape A)" "0 \<le> carrier" "logical \<le> nd_shape A ! ax"
    and "nd_valid ((nd_shape A)[ax := carrier]) ix"
  shows "nd_at (pad_one fill logical carrier ax A) ix = (if ix ! ax < logical then nd_at A ix else fill)"
proof -
  have v: "nd_valid (nd_shape A) ix" if "carrier = nd_shape A ! ax" using assms(4) that by simp
  show ?thesis
    using assms v
    by (auto simp: pad_one_def Let_def jax_slice_axis_def slice_extent_def nd_make_at)
qed

lemma pad_one_wf [simp]: "nd_wf (pad_one fill logical carrier ax A)"
  by (simp add: pad_one_def Let_def)

lemma nd_at_slice:
  "nd_valid ((nd_shape A)[ax := slice_extent (nd_shape A ! ax) stop]) ix \<Longrightarrow>
   nd_at (jax_slice_axis A stop ax) ix = nd_at A ix"
  by (simp add: jax_slice_axis_def nd_make_at)

lemma pad_to_axis_spec:
  assumes "wf_padded_axis tag" "pad_to_axis A tag axis fill = Inr B" "norm_axis axis A = Inr ax"
  shows "nd_shape B = (nd_shape A)[ax := pa_carrier tag]"
    and "nd_valid (nd_shape B) ix \<Longrightarrow> nd_at B ix = (if ix ! ax < pa_logical tag then nd_at A ix else fill)"
proof -
  note ax = norm_axis_lt [OF assms(3)]
  have tag: "0 \<le> pa_logical tag" "pa_logical tag \<le> pa_carrier tag" using assms(1) by (auto simp: wf_padded_axis_def)
  have src: "pa_logical tag \<le> nd_shape A ! ax"
    using assms(2,3) by (auto simp: pad_to_axis_def Let_def split: if_splits)
  show sh: "nd_shape B = (nd_shape A)[ax := pa_carrier tag]"
    using assms(2,3) tag src ax pad_one_shape [OF ax]
    by (auto simp: pad_to_axis_def pad_body_def pa_pad_def jax_slice_axis_def slice_extent_def Let_def
        update_same split: if_splits)
  assume v: "nd_valid (nd_shape B) ix"
  have lt: "ix ! ax < pa_carrier tag" using v ax unfolding sh by (simp add: nd_valid_update)
  have v': "nd_valid ((nd_shape A)[ax := pa_carrier tag]) ix" using v sh by simp
  show "nd_at B ix = (if ix ! ax < pa_logical tag then nd_at A ix else fill)"
  proof (cases "pa_pad tag = 0")
    case True
    have "slice_extent (nd_shape A ! ax) (pa_carrier tag) = pa_carrier tag"
      using True src tag by (simp add: slice_extent_def pa_pad_def)
    then show ?thesis
      using True assms(2,3) lt nd_at_slice [of A ax "pa_carrier tag" ix] v'
      by (auto simp: pad_to_axis_def Let_def pa_pad_def split: if_splits)
  next
    case False
    then have "B = pad_one fill (pa_logical tag) (pa_carrier tag) ax A"
      using assms(2,3) by (auto simp: pad_to_axis_def pad_body_def Let_def split: if_splits)
    then show ?thesis using pad_one_at [OF ax _ src v'] tag by simp
  qed
qed

text \<open>
  padding an axis to its receipt and stripping it again returns the leading logical block of the
  input, whatever the width of the carrier it came in; in between, the tagged tail holds exactly
  the fill value and the logical entries are untouched.
\<close>

theorem pad_strip_roundtrip:
  assumes "wf_padded_axis tag" "norm_axis axis A = Inr ax" "pa_logical tag \<le> nd_shape A ! ax" "nd_wf A"
  shows "\<exists>B. pad_to_axis A tag axis fill = Inr B \<and> nd_shape B = (nd_shape A)[ax := pa_carrier tag] \<and>
    (\<forall>ix. nd_valid (nd_shape B) ix \<longrightarrow> nd_at B ix = (if ix ! ax < pa_logical tag then nd_at A ix else fill)) \<and>
    strip_axis B tag axis = strip_axis A tag axis \<and>
    strip_axis A tag axis = Inr (jax_slice_axis A (pa_logical tag) ax)"
proof -
  note ax = norm_axis_lt [OF assms(2)]
  have tag: "0 \<le> pa_logical tag" "pa_logical tag \<le> pa_carrier tag" using assms(1) by (auto simp: wf_padded_axis_def)
  obtain B where B: "pad_to_axis A tag axis fill = Inr B"
    using assms(2,3) by (cases "pa_pad tag = 0") (auto simp: pad_to_axis_def Let_def)
  note P = pad_to_axis_spec [OF assms(1) B assms(2)]
  have nB: "norm_axis axis B = Inr ax" using assms(2) P(1) by (simp add: norm_axis_def nd_dim_def split: if_splits)
  have eB: "nd_shape B ! ax = pa_carrier tag" using P(1) ax by simp
  have whole: "jax_slice_axis A (nd_shape A ! ax) ax = A" if "0 \<le> nd_shape A ! ax"
    using assms(4) that by (simp add: jax_slice_axis_def slice_extent_def nd_wf_def)
  have sA: "strip_axis A tag axis = Inr (jax_slice_axis A (pa_logical tag) ax)"
    using assms(2,3) tag whole by (auto simp: strip_axis_def Let_def)
  have wfB: "nd_wf B"
    using B assms(2,4) by (auto simp: pad_to_axis_def pad_body_def Let_def jax_slice_axis_def split: if_splits)
  have sB: "strip_axis B tag axis = Inr (jax_slice_axis B (pa_logical tag) ax)"
  proof (cases "pa_carrier tag = pa_logical tag")
    case True
    have "jax_slice_axis B (nd_shape B ! ax) ax = nd_make (nd_shape B) (nd_at B)"
      using eB tag by (simp add: jax_slice_axis_def slice_extent_def update_same)
    then have "jax_slice_axis B (nd_shape B ! ax) ax = B" using wfB by (simp add: nd_wf_def)
    then show ?thesis using nB eB True by (simp add: strip_axis_def Let_def)
  next
    case False
    then show ?thesis using nB eB tag by (simp add: strip_axis_def Let_def)
  qed
  have sh: "(nd_shape B)[ax := slice_extent (nd_shape B ! ax) (pa_logical tag)] =
      (nd_shape A)[ax := slice_extent (nd_shape A ! ax) (pa_logical tag)]"
    using P(1) eB tag assms(3) by (simp add: slice_extent_def)
  have "jax_slice_axis B (pa_logical tag) ax = jax_slice_axis A (pa_logical tag) ax"
    unfolding jax_slice_axis_def sh
  proof (rule nd_make_cong [OF refl])
    fix ix assume v: "nd_valid ((nd_shape A)[ax := slice_extent (nd_shape A ! ax) (pa_logical tag)]) ix"
    then have "nd_valid (nd_shape B) ix" "ix ! ax < pa_logical tag"
      using tag assms(3) ax unfolding P(1) by (auto simp: nd_valid_update slice_extent_def)
    then show "nd_at B ix = nd_at A ix" using P(2) by simp
  qed
  then show ?thesis using B P sA sB by (intro exI [of _ B]) auto
qed

theorem pad_strip_roundtrip_witness:
  "\<exists>B. pad_to_axis (nd_make [2, 3] (\<lambda>ix. ix ! 0 * 10 + ix ! 1))
      \<lparr>pa_name = ''b'', pa_logical = 3, pa_carrier = 4, pa_divisor = 4\<rparr> (-1) 0 = Inr B \<and>
    nd_shape B = [2, 4] \<and> nd_at B [1, 2] = 12 \<and> nd_at B [1, 3] = (0::int)"
proof -
  let ?t = "\<lparr>pa_name = ''b'', pa_logical = 3, pa_carrier = 4, pa_divisor = 4\<rparr>"
  let ?A = "nd_make [2, 3] (\<lambda>ix. ix ! 0 * 10 + ix ! 1) :: int ndarray"
  have "wf_padded_axis ?t" by (simp add: wf_padded_axis_def py_strip_def py_isspace_def)
  moreover have "norm_axis (-1) ?A = Inr 1" by (simp add: norm_axis_def nd_dim_def)
  ultimately obtain B where B: "pad_to_axis ?A ?t (-1) 0 = Inr B" "nd_shape B = [2, 4]"
    "\<forall>ix. nd_valid (nd_shape B) ix \<longrightarrow> nd_at B ix = (if ix ! 1 < 3 then nd_at ?A ix else 0)"
    using pad_strip_roundtrip [of ?t "-1" ?A 1 0] by auto
  then show ?thesis by (auto simp: nd_make_def)
qed

text \<open>
  \<open>pad_square\<close> with a pad diagonal embeds the matrix block-diagonally: the logical block is
  unchanged, the pad-only diagonal carries the sentinel and every coupling between a pad row or
  column and anything else is the fill value.
\<close>

theorem pad_square_embeds:
  assumes "wf_padded_axis tag" "pa_pad tag \<noteq> 0" "2 \<le> nd_dim A"
    and "pa_logical tag \<le> nd_shape A ! (nd_dim A - 2)" "pa_logical tag \<le> nd_shape A ! (nd_dim A - 1)"
  shows "\<exists>B. pad_square A tag (-2) (-1) zero fill (Some d) = Inr B \<and>
    nd_shape B = (nd_shape A)[nd_dim A - 2 := pa_carrier tag, nd_dim A - 1 := pa_carrier tag] \<and>
    (\<forall>ix. nd_valid (nd_shape B) ix \<longrightarrow> nd_at B ix =
      (let i = ix ! (nd_dim A - 2); j = ix ! (nd_dim A - 1) in
       if i < pa_logical tag \<and> j < pa_logical tag then nd_at A ix
       else if i = j then d else fill))"
proof -
  let ?l = "nd_dim A - 2" and ?r = "nd_dim A - 1"
  let ?lg = "pa_logical tag" and ?c = "pa_carrier tag"
  have tag: "0 \<le> ?lg" "?lg \<le> ?c" using assms(1) by (auto simp: wf_padded_axis_def)
  have lr: "?l < length (nd_shape A)" "?r < length (nd_shape A)" "?l \<noteq> ?r" using assms(3) by (auto simp: nd_dim_def)
  have pos: "(- 2) mod int (nd_dim A) = int ?l" "(- 1) mod int (nd_dim A) = int ?r"
    using assms(3) neg_mod [of 2 "int (nd_dim A)"] neg_mod [of 1 "int (nd_dim A)"] by (simp_all add: of_nat_diff)
  have na: "norm_axis (-2) A = Inr ?l" "norm_axis (-1) A = Inr ?r"
    using assms(3) by (simp_all only: norm_axis_def pos) auto
  define B1 where "B1 = pad_one fill ?lg ?c ?l A"
  define B2 where "B2 = pad_one fill ?lg ?c ?r B1"
  have sh1: "nd_shape B1 = (nd_shape A)[?l := ?c]" unfolding B1_def using pad_one_shape [OF lr(1)] tag by simp
  have r1: "?r < length (nd_shape B1)" "?lg \<le> nd_shape B1 ! ?r" using sh1 lr assms(5) by simp_all
  have sh2: "nd_shape B2 = (nd_shape A)[?l := ?c, ?r := ?c]" unfolding B2_def using pad_one_shape [OF r1(1)] tag sh1 by simp
  define B where "B = set_diagonal d ?lg ?l ?r B2"
  have ok: "pad_square A tag (-2) (-1) zero fill (Some d) = Inr B"
    using assms(2-5) na by (auto simp: pad_square_def pad_body_def B_def B2_def B1_def)
  have shB: "nd_shape B = (nd_shape A)[?l := ?c, ?r := ?c]" using sh2 by (simp add: B_def set_diagonal_def)
  have at: "nd_at B ix = (let i = ix ! ?l; j = ix ! ?r in
       if i < ?lg \<and> j < ?lg then nd_at A ix else if i = j then d else fill)"
    if v: "nd_valid (nd_shape B) ix" for ix
  proof -
    have v2: "nd_valid ((nd_shape B1)[?r := ?c]) ix" using v shB sh1 by simp
    have e2: "nd_at B2 ix = (if ix ! ?r < ?lg then nd_at B1 ix else fill)"
      unfolding B2_def using pad_one_at [OF r1(1) _ r1(2) v2] tag by simp
    have e1: "nd_at B1 ix = (if ix ! ?l < ?lg then nd_at A ix else fill)" if "ix ! ?r < ?lg"
    proof -
      have "nd_valid (nd_shape B1) ix" using nd_valid_shrink [OF r1(1) v2] that r1(2) by simp
      then have "nd_valid ((nd_shape A)[?l := ?c]) ix" unfolding sh1 .
      then show ?thesis unfolding B1_def using pad_one_at [OF lr(1) _ assms(4)] tag by simp
    qed
    have "nd_at B ix = (if ix ! ?l = ix ! ?r then (if ix ! ?l < ?lg then nd_at B2 ix else d) else nd_at B2 ix)"
      using v shB sh2 by (simp add: B_def set_diagonal_def nd_make_at)
    then show ?thesis using e1 e2 by (simp add: Let_def)
  qed
  show ?thesis using ok shB at by (intro exI [of _ B]) simp
qed

theorem pad_square_embeds_witness:
  "\<exists>B. pad_square (nd_make [1, 1] (\<lambda>_. 7)) \<lparr>pa_name = ''n'', pa_logical = 1, pa_carrier = 2, pa_divisor = 2\<rparr>
      (-2) (-1) 0 0 (Some 9) = Inr B \<and> nd_at B [0, 0] = (7::int) \<and> nd_at B [1, 1] = 9 \<and> nd_at B [0, 1] = 0"
proof -
  let ?t = "\<lparr>pa_name = ''n'', pa_logical = 1, pa_carrier = 2, pa_divisor = 2\<rparr>"
  let ?A = "nd_make [1, 1] (\<lambda>_. 7) :: int ndarray"
  have "wf_padded_axis ?t" by (simp add: wf_padded_axis_def py_strip_def py_isspace_def)
  from pad_square_embeds [OF this, of ?A 0 0 9]
  have "\<exists>B. pad_square ?A ?t (-2) (-1) 0 0 (Some 9) = Inr B \<and> nd_shape B = [2, 2] \<and>
    (\<forall>ix. nd_valid (nd_shape B) ix \<longrightarrow> nd_at B ix = (let i = ix ! 0; j = ix ! 1 in
       if i < 1 \<and> j < 1 then nd_at ?A ix else if i = j then 9 else 0))"
    by (simp add: pa_pad_def nd_dim_def)
  then obtain B where B: "pad_square ?A ?t (-2) (-1) 0 0 (Some 9) = Inr B" "nd_shape B = [2, 2]"
    and at: "\<And>ix. nd_valid (nd_shape B) ix \<Longrightarrow> nd_at B ix = (let i = ix ! 0; j = ix ! 1 in
       if i < 1 \<and> j < 1 then nd_at ?A ix else if i = j then 9 else 0)"
    by blast
  have "nd_at B [0, 0] = 7" "nd_at B [1, 1] = 9" "nd_at B [0, 1] = 0"
    using at [of "[0, 0]"] at [of "[1, 1]"] at [of "[0, 1]"] B(2) by (simp_all add: nd_make_def)
  then show ?thesis using B(1) by blast
qed

section \<open>The dense solve at the logical extent\<close>

definition cut_square :: "int \<Rightarrow> 'a ndarray \<Rightarrow> 'a ndarray" where
  "cut_square n m = jax_slice_axis (jax_slice_axis m n (nd_dim m - 2)) n (nd_dim m - 1)"

definition cut_rows :: "int \<Rightarrow> 'a ndarray \<Rightarrow> 'a ndarray" where
  "cut_rows n m = jax_slice_axis m n (nd_dim m - 2)"

definition zero_embed :: "'a \<Rightarrow> int \<Rightarrow> nat set \<Rightarrow> 'a ndarray \<Rightarrow> 'a ndarray" where
  "zero_embed zero w axes A =
     nd_make (map (\<lambda>j. nd_shape A ! j + (if j \<in> axes then w else 0)) [0..<nd_dim A])
       (\<lambda>ix. if nd_valid (nd_shape A) ix then nd_at A ix else zero)"

definition solve_at_logical ::
    "'a \<Rightarrow> ('a ndarray list \<Rightarrow> 'a ndarray) \<Rightarrow> int \<Rightarrow> 'a ndarray list \<Rightarrow> 'a ndarray option \<Rightarrow> int list \<Rightarrow>
     (pad_error, 'a ndarray) result" where
  "solve_at_logical zero solve_fn n_logical mats rhs pad_axes =
     (case mats of
        [] \<Rightarrow> Inl NoOperand
      | m0 # _ \<Rightarrow>
          if nd_shape m0 = [] then Inl NoOperand
          else
            let n_pad = last (nd_shape m0) in
            if n_logical > n_pad then Inl (LogicalExceedsCarrier n_logical n_pad)
            else
              let args = map (cut_square n_logical) mats @
                         (case rhs of None \<Rightarrow> [] | Some r \<Rightarrow> [cut_rows n_logical r]);
                  out = solve_fn args
              in if n_pad = n_logical then Inr out
                 else andthen (mapE (\<lambda>a. norm_axis a out) pad_axes)
                   (\<lambda>axs. Inr (zero_embed zero (n_pad - n_logical) (set axs) out)))"

text \<open>Two operands with one logical block: same leading axes, same entries below the extent.\<close>

definition same_block :: "int \<Rightarrow> 'a ndarray \<Rightarrow> 'a ndarray \<Rightarrow> bool" where
  "same_block n A B \<longleftrightarrow> cut_square n A = cut_square n B"

lemma zero_embed_at:
  "0 \<le> w \<Longrightarrow> nd_valid (nd_shape A) ix \<Longrightarrow> nd_at (zero_embed zero w axes A) ix = nd_at A ix"
  by (auto simp: zero_embed_def nd_make_def nd_valid_iff nd_dim_def)

text \<open>
  pad-extent invariance. A solve routed through \<open>solve_at_logical\<close> hands the solver operands
  that depend on the logical blocks only, so two paddings of the same problem (different carrier
  extents, different pad contents) give solutions with identical logical entries, and exact
  zeros elsewhere.
\<close>

theorem solve_at_logical_invariant:
  assumes "length mats = length mats'" "\<forall>(A, B)\<in>set (zip mats mats'). same_block n A B"
    and "map_option (cut_rows n) rhs = map_option (cut_rows n) rhs'"
    and "solve_at_logical zero solve n mats rhs axes = Inr X"
    and "solve_at_logical zero solve n mats' rhs' axes = Inr X'"
  shows "\<exists>out. out = solve (map (cut_square n) mats @ (case rhs of None \<Rightarrow> [] | Some r \<Rightarrow> [cut_rows n r])) \<and>
    (\<forall>ix. nd_valid (nd_shape out) ix \<longrightarrow> nd_at X ix = nd_at out ix \<and> nd_at X' ix = nd_at out ix) \<and>
    (\<forall>ix. nd_valid (nd_shape X) ix \<and> \<not> nd_valid (nd_shape out) ix \<longrightarrow> nd_at X ix = zero)"
proof -
  let ?out = "\<lambda>ms r. solve (map (cut_square n) ms @ (case r of None \<Rightarrow> [] | Some r \<Rightarrow> [cut_rows n r]))"
  have "map (cut_square n) mats = map (cut_square n) mats'"
    using assms(1,2) by (induction mats mats' rule: list_induct2) (auto simp: same_block_def)
  moreover have "(case rhs of None \<Rightarrow> [] | Some r \<Rightarrow> [cut_rows n r]) =
      (case rhs' of None \<Rightarrow> [] | Some r \<Rightarrow> [cut_rows n r])"
    using assms(3) by (cases rhs; cases rhs') auto
  ultimately have same: "?out mats rhs = ?out mats' rhs'" by simp
  have shape: "X = ?out mats rhs \<or> (\<exists>w A. 0 \<le> w \<and> X = zero_embed zero w A (?out mats rhs))"
    if "solve_at_logical zero solve n mats rhs axes = Inr X" for mats rhs X
  proof (cases mats)
    case Nil
    then show ?thesis using that by (simp add: solve_at_logical_def)
  next
    case (Cons m0 ms)
    let ?np = "last (nd_shape m0)"
    define out where "out = ?out mats rhs"
    have "\<not> n > ?np" "nd_shape m0 \<noteq> []" using that Cons by (auto simp: solve_at_logical_def Let_def split: if_splits)
    then have eq: "solve_at_logical zero solve n mats rhs axes =
        (if ?np = n then Inr out else andthen (mapE (\<lambda>a. norm_axis a out) axes)
          (\<lambda>axs. Inr (zero_embed zero (?np - n) (set axs) out)))" and np: "0 \<le> ?np - n"
      unfolding out_def Cons by (simp_all add: solve_at_logical_def Let_def)
    have "X = out \<or> (\<exists>A. X = zero_embed zero (?np - n) A out)"
      using that unfolding eq by (auto split: if_splits)
    then show ?thesis using np unfolding out_def by blast
  qed
  have agree: "nd_at X ix = nd_at (?out mats rhs) ix"
    if "solve_at_logical zero solve n mats rhs axes = Inr X" "nd_valid (nd_shape (?out mats rhs)) ix" for mats rhs X ix
    using shape [OF that(1)] that(2) by (elim disjE exE conjE) (simp_all add: zero_embed_at)
  have "nd_at X ix = zero" if "nd_valid (nd_shape X) ix" "\<not> nd_valid (nd_shape (?out mats rhs)) ix" for ix
    using shape [OF assms(4)] that by (auto simp: zero_embed_def nd_make_at)
  then show ?thesis using agree [OF assms(4)] agree [OF assms(5)] same by (intro exI [of _ "?out mats rhs"]) auto
qed

theorem solve_at_logical_invariant_witness:
  "\<exists>X X'. solve_at_logical 0 hd 1 [nd_make [2, 2] (\<lambda>ix. if ix = [0, 0] then 5 else 1)] None [-2, -1] = Inr X \<and>
    solve_at_logical 0 hd 1 [nd_make [3, 3] (\<lambda>ix. if ix = [0, 0] then 5 else 8)] None [-2, -1] = Inr X' \<and>
    nd_at X [0, 0] = (5::int) \<and> nd_at X' [0, 0] = (5::int)"
proof -
  let ?A = "nd_make [2, 2] (\<lambda>ix. if ix = [0, 0] then 5 else 1) :: int ndarray"
  let ?B = "nd_make [3, 3] (\<lambda>ix. if ix = [0, 0] then 5 else 8) :: int ndarray"
  let ?C = "nd_make [1, 1] (\<lambda>ix. 5) :: int ndarray"
  have v: "nd_valid [1, 1] ix \<Longrightarrow> ix = [0, 0]" for ix
    by (auto simp: nd_valid_iff intro!: nth_equalityI) (auto simp: less_Suc_eq)
  have c: "cut_square 1 M = ?C" if "M = ?A \<or> M = ?B" for M
  proof (rule nd_eqI)
    show "nd_wf (cut_square 1 M)" by (simp add: cut_square_def jax_slice_axis_def)
    show "nd_wf ?C" by simp
    show sh: "nd_shape (cut_square 1 M) = nd_shape ?C"
      using that by (auto simp: cut_square_def jax_slice_axis_def slice_extent_def nd_dim_def)
    fix ix assume "nd_valid (nd_shape (cut_square 1 M)) ix"
    then have "ix = [0, 0]" using sh v by simp
    then show "nd_at (cut_square 1 M) ix = nd_at ?C ix"
      using that by (auto simp: cut_square_def jax_slice_axis_def slice_extent_def nd_dim_def nd_make_def)
  qed
  have cA: "cut_square 1 ?A = ?C" and cB: "cut_square 1 ?B = ?C" using c by blast+
  obtain X where X: "solve_at_logical 0 hd 1 [?A] None [-2, -1] = Inr X"
    by (simp add: solve_at_logical_def cA norm_axis_def nd_dim_def)
  obtain X' where X': "solve_at_logical 0 hd 1 [?B] None [-2, -1] = Inr X'"
    by (simp add: solve_at_logical_def cB norm_axis_def nd_dim_def)
  have "nd_at X [0, 0] = 5 \<and> nd_at X' [0, 0] = 5"
    using solve_at_logical_invariant [of "[?A]" "[?B]" 1 None None 0 hd "[-2, -1]" X X'] X X' cA cB
    by (auto simp: same_block_def nd_make_at)
  then show ?thesis using X X' by blast
qed

end
