(* ===== verification/GroupedMaps.thy ===== *)
theory GroupedMaps
  imports GroupedBuild PaddedArrays
begin

text \<open>
  The host maps of a grouped layout (\<open>pack_host\<close>, \<open>unpack_host\<close>, the packed permutation maps) and the
  square-mesh layouts. The maps rest on one interface, \<open>axis_view\<close>: a padded axis whose slots name
  canonical rows, and the inverse. Its laws are discharged for every layout the validator accepts,
  so the properties hold of any authenticated layout, whoever built it.
\<close>

section \<open>The code: host maps of a layout\<close>

definition pack_host :: "grouped_layout \<Rightarrow> 'a ndarray \<Rightarrow> int \<Rightarrow> 'a \<Rightarrow> (layout_error, 'a ndarray) result" where
  "pack_host l A axis fill =
     andthen (lift_layout_pad (norm_axis axis A)) (\<lambda>ax.
       if nd_shape A ! ax \<noteq> gl_n_logical l then Inl (AxisExtent (nd_shape A ! ax) (gl_n_logical l))
       else Inr (nd_make ((nd_shape A)[ax := gl_n_padded l])
         (\<lambda>ix. let c = gl_packed_to_canonical l ! nat (ix ! ax)
               in if 0 \<le> c then nd_at A (ix[ax := c]) else fill)))"

definition unpack_host :: "grouped_layout \<Rightarrow> 'a ndarray \<Rightarrow> int \<Rightarrow> (layout_error, 'a ndarray) result" where
  "unpack_host l A axis =
     andthen (lift_layout_pad (norm_axis axis A)) (\<lambda>ax.
       if nd_shape A ! ax \<noteq> gl_n_padded l then Inl (AxisExtent (nd_shape A ! ax) (gl_n_padded l))
       else Inr (nd_make ((nd_shape A)[ax := int (length (gl_canonical_to_packed l))])
         (\<lambda>ix. nd_at A (ix[ax := gl_canonical_to_packed l ! nat (ix ! ax)]))))"

text \<open>The first element of a list with a property, with its position.\<close>

fun find_index :: "nat \<Rightarrow> ('a \<Rightarrow> bool) \<Rightarrow> 'a list \<Rightarrow> nat option" where
  "find_index k P [] = None"
| "find_index k P (x # xs) = (if P x then Some k else find_index (Suc k) P xs)"

definition packed_row :: "grouped_layout \<Rightarrow> int list \<Rightarrow> int list" where
  "packed_row l row =
     map (\<lambda>j. let c = gl_packed_to_canonical l ! nat j
              in if 0 \<le> c then gl_canonical_to_packed l ! nat (row ! nat c) else j) [0..gl_n_padded l - 1]"

text \<open>\<open>permutations\<close> is a two-dimensional integer array: its second extent and its rows.\<close>

definition pack_permutations_host ::
    "grouped_layout \<Rightarrow> int \<Rightarrow> int list list \<Rightarrow> bool \<Rightarrow> (layout_error, int list list) result" where
  "pack_permutations_host l ncols rows require_local =
     (if ncols \<noteq> gl_n_logical l then Inl (MapShape ncols)
      else if \<exists>row\<in>set rows. \<exists>x\<in>set row. x < - (2 ^ 63) \<or> 2 ^ 63 - 1 < x then Inl MapNotInt64
      else if \<exists>row\<in>set rows. \<exists>x\<in>set row. x < 0 \<or> gl_n_logical l \<le> x then Inl MapRange
      else
        let out = map (packed_row l) rows; s = gl_shard_size l in
        case find_index 0 (\<lambda>row. int (length (remdups row)) \<noteq> gl_n_padded l) out of
          Some i \<Rightarrow> Inl (MapNotPermutation i)
        | None \<Rightarrow>
            (case (if require_local then find_index 0 (\<lambda>row. \<exists>j\<in>set [0..gl_n_padded l - 1]. j div s \<noteq> row ! nat j div s) out else None) of
               Some i \<Rightarrow>
                 (let row = out ! i;
                      j = the (find (\<lambda>j. j div s \<noteq> row ! nat j div s) [0..gl_n_padded l - 1])
                  in Inl (MapCrossesShard i (gl_packed_to_canonical l ! nat j) (j div s) (row ! nat j div s)))
             | None \<Rightarrow> Inr (map (map to_i32) out)))"

definition pack_local_permutations_host ::
    "grouped_layout \<Rightarrow> int \<Rightarrow> int list list \<Rightarrow> (layout_error, int list list) result" where
  "pack_local_permutations_host l ncols rows =
     andthen (pack_permutations_host l ncols rows True) (\<lambda>packed.
       Inr (map (map (\<lambda>x. to_i32 (x mod gl_shard_size l))) packed))"

section \<open>A pair of inverse maps\<close>

text \<open>
  What the maps rest on: an authenticated layout has, for each padded slot, the canonical row in it
  (negative for a pad) and, for each canonical row, its slot, inverse to each other.
\<close>

locale axis_view =
  fixes view :: "'l \<Rightarrow> bool"
    and logical padded :: "'l \<Rightarrow> int"
    and source slot :: "'l \<Rightarrow> int \<Rightarrow> int"
  assumes slot_range: "view l \<Longrightarrow> 0 \<le> i \<Longrightarrow> i < logical l \<Longrightarrow> 0 \<le> slot l i \<and> slot l i < padded l"
    and source_slot: "view l \<Longrightarrow> 0 \<le> i \<Longrightarrow> i < logical l \<Longrightarrow> source l (slot l i) = i"
    and slot_source: "view l \<Longrightarrow> 0 \<le> j \<Longrightarrow> j < padded l \<Longrightarrow> 0 \<le> source l j \<Longrightarrow> source l j < logical l \<and> slot l (source l j) = j"

text \<open>The conjugate of a canonical map, and a canonical array seen through the padded slots.\<close>

definition conjugated :: "(int \<Rightarrow> int) \<Rightarrow> (int \<Rightarrow> int) \<Rightarrow> (int \<Rightarrow> int) \<Rightarrow> int \<Rightarrow> int" where
  "conjugated source slot p j = (if 0 \<le> source j then slot (p (source j)) else j)"

definition seen :: "(int \<Rightarrow> int) \<Rightarrow> 'a \<Rightarrow> (int \<Rightarrow> 'a) \<Rightarrow> int \<Rightarrow> 'a" where
  "seen source fill x j = (if 0 \<le> source j then x (source j) else fill)"

context axis_view begin

lemma slot_inj: "view l \<Longrightarrow> inj_on (slot l) {0..<logical l}"
  by (rule inj_on_inverseI [of _ "source l"]) (use source_slot in auto)

lemma seen_slot: "view l \<Longrightarrow> 0 \<le> i \<Longrightarrow> i < logical l \<Longrightarrow> seen (source l) fill x (slot l i) = x i"
  using source_slot [of l i] by (simp add: seen_def)

lemma conjugated_range:
  assumes "view l" "\<forall>i. 0 \<le> i \<and> i < logical l \<longrightarrow> 0 \<le> p i \<and> p i < logical l" "0 \<le> j" "j < padded l"
  shows "0 \<le> conjugated (source l) (slot l) p j \<and> conjugated (source l) (slot l) p j < padded l"
  using assms slot_source [of l j] slot_range [of l "p (source l j)"] by (auto simp: conjugated_def)

lemma conjugated_seen:
  assumes "view l" "\<forall>i. 0 \<le> i \<and> i < logical l \<longrightarrow> 0 \<le> p i \<and> p i < logical l" "0 \<le> j" "j < padded l"
  shows "seen (source l) fill x (conjugated (source l) (slot l) p j) = seen (source l) fill (\<lambda>i. x (p i)) j"
  using assms slot_source [of l j] source_slot [of l "p (source l j)"]
  by (auto simp: conjugated_def seen_def)

lemma conjugated_comp:
  assumes "view l" "\<forall>i. 0 \<le> i \<and> i < logical l \<longrightarrow> 0 \<le> q i \<and> q i < logical l" "0 \<le> j" "j < padded l"
  shows "conjugated (source l) (slot l) p (conjugated (source l) (slot l) q j) = conjugated (source l) (slot l) (\<lambda>i. p (q i)) j"
  using assms slot_source [of l j] source_slot [of l "q (source l j)"]
  by (auto simp: conjugated_def)

lemma conjugated_inj:
  assumes "view l" "\<forall>i. 0 \<le> i \<and> i < logical l \<longrightarrow> 0 \<le> p i \<and> p i < logical l" "inj_on p {0..<logical l}"
  shows "inj_on (conjugated (source l) (slot l) p) {0..<padded l}"
proof (rule inj_onI)
  fix j k assume jk: "j \<in> {0..<padded l}" "k \<in> {0..<padded l}"
    and eq: "conjugated (source l) (slot l) p j = conjugated (source l) (slot l) p k"
  have src: "(0 \<le> source l (conjugated (source l) (slot l) p i)) = (0 \<le> source l i)" if "i \<in> {0..<padded l}" for i
    using that assms(1,2) slot_source [of l i] source_slot [of l "p (source l i)"] by (auto simp: conjugated_def)
  show "j = k"
  proof (cases "0 \<le> source l j")
    case True
    then have k: "0 \<le> source l k" using src jk eq by metis
    have j1: "source l j < logical l" "slot l (source l j) = j" and k1: "source l k < logical l" "slot l (source l k) = k"
      using slot_source assms(1) jk True k by auto
    have "slot l (p (source l j)) = slot l (p (source l k))" using eq True k by (simp add: conjugated_def)
    moreover have "p (source l j) \<in> {0..<logical l}" "p (source l k) \<in> {0..<logical l}"
      using assms(2) True k j1(1) k1(1) by simp_all
    ultimately have "p (source l j) = p (source l k)" by (rule inj_onD [OF slot_inj [OF assms(1)]])
    moreover have "source l j \<in> {0..<logical l}" "source l k \<in> {0..<logical l}" using True k j1(1) k1(1) by simp_all
    ultimately have "source l j = source l k" by (rule inj_onD [OF assms(3)])
    then show ?thesis using j1(2) k1(2) by metis
  next
    case False
    then have "\<not> 0 \<le> source l k" using src jk eq by metis
    then show ?thesis using eq False by (simp add: conjugated_def)
  qed
qed

lemma conjugated_inj_iff:
  assumes "view l" "\<forall>i. 0 \<le> i \<and> i < logical l \<longrightarrow> 0 \<le> p i \<and> p i < logical l"
  shows "inj_on (conjugated (source l) (slot l) p) {0..<padded l} \<longleftrightarrow> inj_on p {0..<logical l}"
proof
  assume inj: "inj_on (conjugated (source l) (slot l) p) {0..<padded l}"
  show "inj_on p {0..<logical l}"
  proof (rule inj_onI)
    fix a b assume ab: "a \<in> {0..<logical l}" "b \<in> {0..<logical l}" "p a = p b"
    have at: "conjugated (source l) (slot l) p (slot l i) = slot l (p i) \<and> slot l i \<in> {0..<padded l}" if "i \<in> {0..<logical l}" for i
      using that source_slot [OF assms(1), of i] slot_range [OF assms(1), of i] by (simp add: conjugated_def)
    then have "conjugated (source l) (slot l) p (slot l a) = conjugated (source l) (slot l) p (slot l b)"
      "slot l a \<in> {0..<padded l}" "slot l b \<in> {0..<padded l}" using ab by simp_all
    then have "slot l a = slot l b" by (rule inj_onD [OF inj])
    then show "a = b" using ab(1,2) by (rule inj_onD [OF slot_inj [OF assms(1)]])
  qed
qed (use assms conjugated_inj in blast)

end

section \<open>Authenticated layouts\<close>

abbreviation authenticated :: "grouped_layout \<Rightarrow> bool" where
  "authenticated l \<equiv> validate_grouped_shard_layout l = Inr l"

definition slot_row :: "grouped_layout \<Rightarrow> int \<Rightarrow> int" where
  "slot_row l j = gl_packed_to_canonical l ! nat j"

definition row_slot :: "grouped_layout \<Rightarrow> int \<Rightarrow> int" where
  "row_slot l i = gl_canonical_to_packed l ! nat i"

lemma guard_Inr: "(if b then Inl e else r) = Inr x \<longleftrightarrow> \<not> b \<and> r = Inr x"
  by simp

lemma validate_facts:
  assumes "validate_grouped_shard_layout l = Inr l'"
  defines "active \<equiv> gl_active_mask l" and "packed \<equiv> gl_packed_to_canonical l" and "backward \<equiv> gl_canonical_to_packed l"
  shows "1 \<le> gl_n_logical l" "1 \<le> gl_n_groups l" "1 \<le> gl_shard_size l" "1 \<le> gl_n_shards l" "gl_n_padded l = gl_n_shards l * gl_shard_size l"
    "layout_shapes l = Inr ()" "active = map (\<lambda>x. 0 \<le> x) packed" "\<forall>x\<in>set (masked (map Not active) packed). x = - 1"
    "int (length (masked active packed)) = gl_n_logical l" "\<forall>x\<in>set (masked active packed). 0 \<le> x \<and> x < gl_n_logical l"
    "\<forall>x\<in>set backward. 0 \<le> x \<and> x < gl_n_padded l" "np_take packed (map nat backward) = [0..gl_n_logical l - 1]"
    "np_take backward (map nat (masked active packed)) = map int (np_flatnonzero active)"
    "\<forall>x\<in>set (gl_canonical_group_id l). 0 \<le> x \<and> x < gl_n_groups l"
    "masked active (gl_packed_group_id l) = np_take (gl_canonical_group_id l) (map nat (masked active packed))"
    "\<forall>x\<in>set (masked (map Not active) (gl_packed_group_id l)). x = gl_n_groups l"
    "gl_group_size l = np_bincount (gl_canonical_group_id l) (gl_n_groups l)"
    "\<forall>g. 0 \<le> g \<and> g < gl_n_groups l \<longrightarrow> group_check l g = Inr ()"
    "l' = l"
proof -
  from assms(1) have v: "\<not> min (min (gl_n_logical l) (gl_n_groups l)) (min (gl_n_shards l) (gl_shard_size l)) < 1"
    "\<not> (gl_n_padded l \<noteq> gl_n_shards l * gl_shard_size l \<or> gl_n_padded l < gl_n_logical l)" "\<exists>u. layout_shapes l = Inr u"
    "\<not> active \<noteq> map (\<lambda>x. 0 \<le> x) packed" "\<not> \<not> list_all (\<lambda>x. x = - 1) (masked (map Not active) packed)"
    "\<not> (int (length (masked active packed)) \<noteq> gl_n_logical l \<or> (\<exists>x\<in>set (masked active packed). x < 0) \<or>
        (\<exists>x\<in>set (masked active packed). gl_n_logical l \<le> x) \<or> \<not> list_all (\<lambda>c. c = 1) (np_bincount (masked active packed) (gl_n_logical l)))"
    "\<not> ((\<exists>x\<in>set backward. x < 0) \<or> (\<exists>x\<in>set backward. gl_n_padded l \<le> x) \<or> np_take packed (map nat backward) \<noteq> [0..gl_n_logical l - 1])"
    "\<not> np_take backward (map nat (masked active packed)) \<noteq> map int (np_flatnonzero active)"
    "\<not> ((\<exists>x\<in>set (gl_canonical_group_id l). x < 0) \<or> (\<exists>x\<in>set (gl_canonical_group_id l). gl_n_groups l \<le> x))"
    "\<not> masked active (gl_packed_group_id l) \<noteq> np_take (gl_canonical_group_id l) (map nat (masked active packed))"
    "\<not> \<not> list_all (\<lambda>x. x = gl_n_groups l) (masked (map Not active) (gl_packed_group_id l))"
    "\<not> gl_group_size l \<noteq> np_bincount (gl_canonical_group_id l) (gl_n_groups l)"
    "\<exists>us. mapE (group_check l) [0..gl_n_groups l - 1] = Inr us" "Inr l = (Inr l' :: (layout_error, grouped_layout) result)"
    unfolding validate_grouped_shard_layout_def Let_def guard_Inr andthen_eq_Inr active_def packed_def backward_def by blast+
  from v(1) show "1 \<le> gl_n_logical l" "1 \<le> gl_n_groups l" "1 \<le> gl_shard_size l" "1 \<le> gl_n_shards l" by (simp_all add: not_less)
  from v(13) show "\<forall>g. 0 \<le> g \<and> g < gl_n_groups l \<longrightarrow> group_check l g = Inr ()"
    by (auto simp: mapE_Inr_iff list_all2_conv_all_nth) (metis add.commute add.left_neutral diff_add_cancel int_nat_eq nat_less_eq_zless nat_mono_iff nth_upto zero_le_imp_eq_int zle_diff1_eq)
  show "gl_n_padded l = gl_n_shards l * gl_shard_size l" using v(2) by blast
  show "layout_shapes l = Inr ()" using v(3) by auto
  show "active = map (\<lambda>x. 0 \<le> x) packed" using v(4) by blast
  show "\<forall>x\<in>set (masked (map Not active) packed). x = - 1" using v(5) by (simp add: list_all_iff)
  show "int (length (masked active packed)) = gl_n_logical l" using v(6) by blast
  show "\<forall>x\<in>set (masked active packed). 0 \<le> x \<and> x < gl_n_logical l" using v(6) by fastforce
  show "\<forall>x\<in>set backward. 0 \<le> x \<and> x < gl_n_padded l" using v(7) by fastforce
  show "np_take packed (map nat backward) = [0..gl_n_logical l - 1]" using v(7) by blast
  show "np_take backward (map nat (masked active packed)) = map int (np_flatnonzero active)" using v(8) by blast
  show "\<forall>x\<in>set (gl_canonical_group_id l). 0 \<le> x \<and> x < gl_n_groups l" using v(9) by fastforce
  show "masked active (gl_packed_group_id l) = np_take (gl_canonical_group_id l) (map nat (masked active packed))" using v(10) by blast
  show "\<forall>x\<in>set (masked (map Not active) (gl_packed_group_id l)). x = gl_n_groups l" using v(11) by (simp add: list_all_iff)
  show "gl_group_size l = np_bincount (gl_canonical_group_id l) (gl_n_groups l)" using v(12) by blast
  show "l' = l" using v(14) by simp
qed

lemma layout_lengths:
  assumes "validate_grouped_shard_layout l = Inr l'"
  shows "int (length (gl_packed_to_canonical l)) = gl_n_padded l" "int (length (gl_canonical_to_packed l)) = gl_n_logical l"
    "int (length (gl_canonical_group_id l)) = gl_n_logical l" "int (length (gl_packed_group_id l)) = gl_n_padded l"
    "length (gl_active_mask l) = length (gl_packed_to_canonical l)"
  using validate_facts(6,7) [OF assms]
  by (auto simp: layout_shapes_def expect_shape_def split: if_splits)

lemma view_facts:
  assumes "authenticated l"
  shows "0 \<le> i \<Longrightarrow> i < gl_n_logical l \<Longrightarrow> 0 \<le> row_slot l i \<and> row_slot l i < gl_n_padded l \<and> slot_row l (row_slot l i) = i"
    "0 \<le> j \<Longrightarrow> j < gl_n_padded l \<Longrightarrow> 0 \<le> slot_row l j \<Longrightarrow> slot_row l j < gl_n_logical l \<and> row_slot l (slot_row l j) = j"
proof -
  note v = validate_facts [OF assms] and len = layout_lengths [OF assms]
  let ?packed = "gl_packed_to_canonical l" and ?fwd = "gl_canonical_to_packed l"
  {
    assume i: "0 \<le> i" "i < gl_n_logical l"
    then have k: "nat i < length ?fwd" using len by linarith
    then have "row_slot l i \<in> set ?fwd" by (simp add: row_slot_def)
    then have r: "0 \<le> row_slot l i" "row_slot l i < gl_n_padded l" using v(11) by blast+
    have "np_take ?packed (map nat ?fwd) ! nat i = [0..gl_n_logical l - 1] ! nat i" by (simp only: v(12))
    then have "slot_row l (row_slot l i) = i" using k i by (simp add: np_take_def slot_row_def row_slot_def)
    then show "0 \<le> row_slot l i \<and> row_slot l i < gl_n_padded l \<and> slot_row l (row_slot l i) = i" using r by blast
  }
  {
    assume j: "0 \<le> j" "j < gl_n_padded l" "0 \<le> slot_row l j"
    let ?act = "gl_active_mask l"
    have k: "nat j < length ?packed" using j len by linarith
    then have "nat j \<in> set (np_flatnonzero ?act)" using j len v(7) by (auto simp: np_flatnonzero_def slot_row_def)
    then obtain m where m: "m < length (np_flatnonzero ?act)" "np_flatnonzero ?act ! m = nat j" by (metis in_set_conv_nth)
    have act: "masked ?act ?packed = np_take ?packed (np_flatnonzero ?act)" using masked_take len(5) by blast
    have "np_take ?fwd (map nat (masked ?act ?packed)) ! m = map int (np_flatnonzero ?act) ! m" by (simp only: v(13))
    then have "row_slot l (slot_row l j) = j" using m j by (simp add: act np_take_def row_slot_def slot_row_def)
    moreover have "slot_row l j \<in> set (masked ?act ?packed)" unfolding act np_take_def slot_row_def
      using m by (metis image_eqI list.set_map nth_mem)
    ultimately show "slot_row l j < gl_n_logical l \<and> row_slot l (slot_row l j) = j" using v(10) by blast
  }
qed

interpretation gv: axis_view authenticated gl_n_logical gl_n_padded slot_row row_slot
  by unfold_locales (use view_facts in blast)+

section \<open>Packing and unpacking an axis\<close>

lemma valid_update:
  "nd_valid sh ix \<Longrightarrow> ax < length sh \<Longrightarrow> 0 \<le> v \<Longrightarrow> v < n \<Longrightarrow> nd_valid (sh[ax := n]) (ix[ax := v])"
  by (auto simp: nd_valid_iff nth_list_update)

lemma valid_axis: "nd_valid (sh[ax := n]) ix \<Longrightarrow> ax < length sh \<Longrightarrow> 0 \<le> ix ! ax \<and> ix ! ax < n \<and> length ix = length sh"
  by (auto simp: nd_valid_iff)

lemma lift_norm_axis: "lift_layout_pad (norm_axis axis A) = Inr ax \<longleftrightarrow> norm_axis axis A = Inr ax"
  by (simp add: lift_layout_pad_def split: sum.splits)

lemma pack_then_unpack:
  assumes l: "authenticated l" and A: "nd_wf A" "norm_axis axis A = Inr ax" "nd_shape A ! ax = gl_n_logical l"
  shows "\<exists>B. pack_host l A axis fill = Inr B \<and> nd_shape B = (nd_shape A)[ax := gl_n_padded l] \<and> unpack_host l B axis = Inr A"
proof -
  have ax: "ax < length (nd_shape A)" using norm_axis_lt [OF A(2)] .
  let ?B = "nd_make ((nd_shape A)[ax := gl_n_padded l]) (\<lambda>ix. let c = gl_packed_to_canonical l ! nat (ix ! ax) in if 0 \<le> c then nd_at A (ix[ax := c]) else fill)"
  have axB: "norm_axis axis ?B = Inr ax" using A(2) by (auto simp: norm_axis_def nd_dim_def split: if_splits)
  have pack: "pack_host l A axis fill = Inr ?B" using A by (simp add: pack_host_def lift_layout_pad_def)
  have len: "int (length (gl_canonical_to_packed l)) = gl_n_logical l" by (rule layout_lengths(2) [OF l])
  have "unpack_host l ?B axis = Inr (nd_make ((nd_shape ?B)[ax := gl_n_logical l]) (\<lambda>ix. nd_at ?B (ix[ax := gl_canonical_to_packed l ! nat (ix ! ax)])))"
    using axB ax len by (simp add: unpack_host_def lift_layout_pad_def)
  also have "nd_make ((nd_shape ?B)[ax := gl_n_logical l]) (\<lambda>ix. nd_at ?B (ix[ax := gl_canonical_to_packed l ! nat (ix ! ax)])) = A"
  proof (rule nd_eqI [OF nd_wf_make A(1)])
    show sh: "nd_shape (nd_make ((nd_shape ?B)[ax := gl_n_logical l]) (\<lambda>ix. nd_at ?B (ix[ax := gl_canonical_to_packed l ! nat (ix ! ax)]))) = nd_shape A"
      using A(3) by (simp add: list_update_id [symmetric] del: list_update_id) (metis list_update_id)
    fix ix assume "nd_valid (nd_shape (nd_make ((nd_shape ?B)[ax := gl_n_logical l]) (\<lambda>ix. nd_at ?B (ix[ax := gl_canonical_to_packed l ! nat (ix ! ax)])))) ix"
    then have v: "nd_valid ((nd_shape A)[ax := gl_n_logical l]) ix" by simp
    then have i: "0 \<le> ix ! ax" "ix ! ax < gl_n_logical l" "length ix = length (nd_shape A)" using valid_axis ax by blast+
    note slot = view_facts(1) [OF l i(1,2), unfolded row_slot_def slot_row_def]
    have vB: "nd_valid ((nd_shape A)[ax := gl_n_padded l]) (ix[ax := gl_canonical_to_packed l ! nat (ix ! ax)])"
      using valid_update [OF v, of ax "gl_canonical_to_packed l ! nat (ix ! ax)" "gl_n_padded l"] slot ax by simp
    show "nd_at (nd_make ((nd_shape ?B)[ax := gl_n_logical l]) (\<lambda>ix. nd_at ?B (ix[ax := gl_canonical_to_packed l ! nat (ix ! ax)]))) ix = nd_at A ix"
      using v vB slot i ax by (simp add: nd_make_at)
  qed
  finally show ?thesis using pack by (intro exI [of _ ?B]) simp
qed

lemma unpack_then_pack:
  assumes l: "authenticated l" and B: "nd_wf B" "norm_axis axis B = Inr ax" "nd_shape B ! ax = gl_n_padded l"
  shows "\<exists>A. unpack_host l B axis = Inr A \<and> pack_host l A axis fill =
    Inr (nd_make (nd_shape B) (\<lambda>ix. if 0 \<le> gl_packed_to_canonical l ! nat (ix ! ax) then nd_at B ix else fill))"
proof -
  have ax: "ax < length (nd_shape B)" using norm_axis_lt [OF B(2)] .
  have len: "int (length (gl_canonical_to_packed l)) = gl_n_logical l" by (rule layout_lengths(2) [OF l])
  let ?A = "nd_make ((nd_shape B)[ax := gl_n_logical l]) (\<lambda>ix. nd_at B (ix[ax := gl_canonical_to_packed l ! nat (ix ! ax)]))"
  have axA: "norm_axis axis ?A = Inr ax" using B(2) by (auto simp: norm_axis_def nd_dim_def split: if_splits)
  have unpack: "unpack_host l B axis = Inr ?A" using B len by (simp add: unpack_host_def lift_layout_pad_def)
  have "pack_host l ?A axis fill = Inr (nd_make ((nd_shape ?A)[ax := gl_n_padded l])
      (\<lambda>ix. let c = gl_packed_to_canonical l ! nat (ix ! ax) in if 0 \<le> c then nd_at ?A (ix[ax := c]) else fill))"
    using axA ax by (simp add: pack_host_def lift_layout_pad_def)
  also have "nd_make ((nd_shape ?A)[ax := gl_n_padded l])
      (\<lambda>ix. let c = gl_packed_to_canonical l ! nat (ix ! ax) in if 0 \<le> c then nd_at ?A (ix[ax := c]) else fill) =
      nd_make (nd_shape B) (\<lambda>ix. if 0 \<le> gl_packed_to_canonical l ! nat (ix ! ax) then nd_at B ix else fill)"
  proof (rule nd_make_cong)
    show sh: "(nd_shape ?A)[ax := gl_n_padded l] = nd_shape B" using B(3) by simp (metis list_update_id)
    fix ix assume "nd_valid ((nd_shape ?A)[ax := gl_n_padded l]) ix"
    then have v: "nd_valid ((nd_shape B)[ax := gl_n_padded l]) ix" by simp
    then have j: "0 \<le> ix ! ax" "ix ! ax < gl_n_padded l" "length ix = length (nd_shape B)" using valid_axis ax by blast+
    show "(let c = gl_packed_to_canonical l ! nat (ix ! ax) in if 0 \<le> c then nd_at ?A (ix[ax := c]) else fill) =
        (if 0 \<le> gl_packed_to_canonical l ! nat (ix ! ax) then nd_at B ix else fill)"
    proof (cases "0 \<le> gl_packed_to_canonical l ! nat (ix ! ax)")
      case True
      note row = view_facts(2) [OF l j(1,2), unfolded row_slot_def slot_row_def, OF True]
      have vA: "nd_valid ((nd_shape B)[ax := gl_n_logical l]) (ix[ax := gl_packed_to_canonical l ! nat (ix ! ax)])"
        using valid_update [OF v, of ax "gl_packed_to_canonical l ! nat (ix ! ax)" "gl_n_logical l"] row True ax by simp
      then show ?thesis using True row j ax by (simp add: nd_make_at Let_def)
    qed simp
  qed
  finally show ?thesis using unpack by (intro exI [of _ ?A]) simp
qed

section \<open>Packed permutation maps\<close>

lemma find_index_None: "find_index k P xs = None \<longleftrightarrow> (\<forall>x\<in>set xs. \<not> P x)"
  by (induction xs arbitrary: k) auto

lemma packed_row_nth:
  "0 \<le> j \<Longrightarrow> j < gl_n_padded l \<Longrightarrow>
   packed_row l row ! nat j = conjugated (slot_row l) (row_slot l) (\<lambda>i. row ! nat i) j"
  by (simp add: packed_row_def conjugated_def slot_row_def row_slot_def Let_def)

lemma packed_row_length [simp]: "length (packed_row l row) = nat (gl_n_padded l)"
  by (simp add: packed_row_def)

lemma row_in_range:
  "int (length row) = n \<Longrightarrow> (\<forall>x\<in>set row. 0 \<le> x \<and> x < n) \<longleftrightarrow> (\<forall>i. 0 \<le> i \<and> i < n \<longrightarrow> 0 \<le> row ! nat i \<and> row ! nat i < n)"
proof
  assume "int (length row) = n" "\<forall>x\<in>set row. 0 \<le> x \<and> x < n"
  then show "\<forall>i. 0 \<le> i \<and> i < n \<longrightarrow> 0 \<le> row ! nat i \<and> row ! nat i < n" by auto
next
  assume len: "int (length row) = n" and r: "\<forall>i. 0 \<le> i \<and> i < n \<longrightarrow> 0 \<le> row ! nat i \<and> row ! nat i < n"
  show "\<forall>x\<in>set row. 0 \<le> x \<and> x < n"
  proof
    fix x assume "x \<in> set row"
    then obtain k where "k < length row" "row ! k = x" by (auto simp: in_set_conv_nth)
    then show "0 \<le> x \<and> x < n" using r [rule_format, of "int k"] len by simp
  qed
qed

lemma distinct_int_index: "int (length row) = n \<Longrightarrow> distinct row \<longleftrightarrow> inj_on (\<lambda>i. row ! nat i) {0..<n}"
proof -
  assume n: "int (length row) = n"
  have "distinct row \<longleftrightarrow> inj_on ((!) row) {..<length row}"
    by (auto simp: distinct_conv_nth inj_on_def)
  also have "{..<length row} = nat ` {0..<n}"
    using n by (auto simp: image_iff intro!: bexI [of _ "int _"])
  also have "inj_on ((!) row) (nat ` {0..<n}) \<longleftrightarrow> inj_on (\<lambda>i. row ! nat i) {0..<n}"
    by (subst comp_inj_on_iff [symmetric, of nat, unfolded comp_def]) (auto simp: inj_on_def comp_def)
  finally show ?thesis .
qed

lemma packed_row_distinct:
  assumes "authenticated l" "int (length row) = gl_n_logical l" "\<forall>x\<in>set row. 0 \<le> x \<and> x < gl_n_logical l"
  shows "distinct (packed_row l row) \<longleftrightarrow> distinct row"
proof -
  have "1 \<le> gl_n_padded l" using validate_facts(3,4,5) [OF assms(1)] by (simp add: mult_le_cancel_left1 order_trans)
  then have "int (length (packed_row l row)) = gl_n_padded l" by simp
  then have "distinct (packed_row l row) \<longleftrightarrow> inj_on (\<lambda>j. packed_row l row ! nat j) {0..<gl_n_padded l}" by (rule distinct_int_index)
  also have "\<dots> \<longleftrightarrow> inj_on (conjugated (slot_row l) (row_slot l) (\<lambda>i. row ! nat i)) {0..<gl_n_padded l}"
    by (rule inj_on_cong) (simp add: packed_row_nth)
  also have "\<dots> \<longleftrightarrow> inj_on (\<lambda>i. row ! nat i) {0..<gl_n_logical l}"
    using gv.conjugated_inj_iff [OF assms(1), of "\<lambda>i. row ! nat i"] assms(3) row_in_range [OF assms(2)] by blast
  also have "\<dots> \<longleftrightarrow> distinct row" using distinct_int_index [OF assms(2)] by simp
  finally show ?thesis .
qed

lemma packed_row_range:
  assumes "authenticated l" "int (length row) = gl_n_logical l" "\<forall>x\<in>set row. 0 \<le> x \<and> x < gl_n_logical l" "x \<in> set (packed_row l row)"
  shows "0 \<le> x \<and> x < gl_n_padded l"
proof -
  obtain k where k: "k < nat (gl_n_padded l)" "packed_row l row ! k = x" using assms(4) by (auto simp: in_set_conv_nth)
  then have "packed_row l row ! nat (int k) = conjugated (slot_row l) (row_slot l) (\<lambda>i. row ! nat i) (int k)"
    by (intro packed_row_nth) auto
  then show ?thesis
    using gv.conjugated_range [OF assms(1), of "\<lambda>i. row ! nat i" "int k"] k assms(3) row_in_range [OF assms(2)] by auto
qed

text \<open>A packed map crosses no shard exactly when the canonical one keeps every row's shard.\<close>

lemma packed_row_local:
  assumes "authenticated l" "int (length row) = gl_n_logical l" "\<forall>x\<in>set row. 0 \<le> x \<and> x < gl_n_logical l"
  shows "(\<forall>j\<in>set [0..gl_n_padded l - 1]. j div s = packed_row l row ! nat j div s) \<longleftrightarrow>
    (\<forall>i. 0 \<le> i \<and> i < gl_n_logical l \<longrightarrow> row_slot l i div s = row_slot l (row ! nat i) div s)"
proof
  assume loc: "\<forall>j\<in>set [0..gl_n_padded l - 1]. j div s = packed_row l row ! nat j div s"
  show "\<forall>i. 0 \<le> i \<and> i < gl_n_logical l \<longrightarrow> row_slot l i div s = row_slot l (row ! nat i) div s"
  proof (intro allI impI)
    fix i assume i: "0 \<le> i \<and> i < gl_n_logical l"
    then have slot: "0 \<le> row_slot l i" "row_slot l i < gl_n_padded l" "slot_row l (row_slot l i) = i"
      using view_facts(1) [OF assms(1)] by auto
    then have "packed_row l row ! nat (row_slot l i) = row_slot l (row ! nat i)"
      using i by (simp add: packed_row_nth conjugated_def)
    then show "row_slot l i div s = row_slot l (row ! nat i) div s" using loc slot by auto
  qed
next
  assume loc: "\<forall>i. 0 \<le> i \<and> i < gl_n_logical l \<longrightarrow> row_slot l i div s = row_slot l (row ! nat i) div s"
  show "\<forall>j\<in>set [0..gl_n_padded l - 1]. j div s = packed_row l row ! nat j div s"
  proof
    fix j assume "j \<in> set [0..gl_n_padded l - 1]"
    then have j: "0 \<le> j" "j < gl_n_padded l" by auto
    show "j div s = packed_row l row ! nat j div s"
    proof (cases "0 \<le> slot_row l j")
      case True
      then have "slot_row l j < gl_n_logical l" "row_slot l (slot_row l j) = j" using view_facts(2) [OF assms(1)] j by auto
      then show ?thesis using loc [rule_format, of "slot_row l j"] True j by (simp add: packed_row_nth conjugated_def)
    next
      case False
      then show ?thesis using j by (simp add: packed_row_nth conjugated_def)
    qed
  qed
qed

lemma pack_permutations_Inr:
  assumes l: "authenticated l" and small: "gl_n_padded l \<le> 2 ^ 31" and rows: "\<forall>row\<in>set rows. int (length row) = gl_n_logical l"
  shows "pack_permutations_host l (gl_n_logical l) rows require_local = Inr out \<longleftrightarrow>
    (\<forall>row\<in>set rows. (\<forall>x\<in>set row. 0 \<le> x \<and> x < gl_n_logical l) \<and> distinct row \<and>
       (require_local \<longrightarrow> (\<forall>i. 0 \<le> i \<and> i < gl_n_logical l \<longrightarrow>
          row_slot l i div gl_shard_size l = row_slot l (row ! nat i) div gl_shard_size l))) \<and>
    out = map (packed_row l) rows"
proof (cases "\<forall>row\<in>set rows. \<forall>x\<in>set row. 0 \<le> x \<and> x < gl_n_logical l")
  case False
  then have "\<exists>row\<in>set rows. \<exists>x\<in>set row. x < 0 \<or> gl_n_logical l \<le> x" by fastforce
  then show ?thesis using False by (auto simp: pack_permutations_host_def)
next
  case True
  have pos: "1 \<le> gl_n_padded l" "gl_n_logical l \<le> gl_n_padded l"
  proof -
    show "1 \<le> gl_n_padded l" using validate_facts(3,4,5) [OF l] by (simp add: mult_le_cancel_left1 order_trans)
    have "int (length (masked (gl_active_mask l) (gl_packed_to_canonical l))) = gl_n_logical l" using validate_facts(9) [OF l] .
    moreover have "length (masked (gl_active_mask l) (gl_packed_to_canonical l)) \<le> length (gl_packed_to_canonical l)"
      unfolding masked_def by (metis length_filter_le length_map length_zip min.cobounded2 order_trans)
    ultimately show "gl_n_logical l \<le> gl_n_padded l" using layout_lengths(1) [OF l] by linarith
  qed
  have c1: "\<not> (\<exists>row\<in>set rows. \<exists>x\<in>set row. x < - (2 ^ 63) \<or> 2 ^ 63 - 1 < x)" and c2: "\<not> (\<exists>row\<in>set rows. \<exists>x\<in>set row. x < 0 \<or> gl_n_logical l \<le> x)"
    using True pos small by fastforce+
  have card: "int (length (remdups (packed_row l row))) = gl_n_padded l \<longleftrightarrow> distinct row" if "row \<in> set rows" for row
  proof -
    have "int (length (remdups (packed_row l row))) = gl_n_padded l \<longleftrightarrow> distinct (packed_row l row)"
      using pos length_remdups_eq [of "packed_row l row"] by auto
    then show ?thesis using packed_row_distinct [OF l] rows True that by blast
  qed
  have perm: "find_index 0 (\<lambda>row. int (length (remdups row)) \<noteq> gl_n_padded l) (map (packed_row l) rows) = None \<longleftrightarrow> (\<forall>row\<in>set rows. distinct row)"
    using card by (simp add: find_index_None)
  have cross: "find_index 0 (\<lambda>row. \<exists>j\<in>set [0..gl_n_padded l - 1]. j div gl_shard_size l \<noteq> row ! nat j div gl_shard_size l) (map (packed_row l) rows) = None \<longleftrightarrow>
    (\<forall>row\<in>set rows. \<forall>i. 0 \<le> i \<and> i < gl_n_logical l \<longrightarrow> row_slot l i div gl_shard_size l = row_slot l (row ! nat i) div gl_shard_size l)"
    using packed_row_local [OF l] rows True unfolding find_index_None set_map by blast
  have casts: "map (map to_i32) (map (packed_row l) rows) = map (packed_row l) rows"
  proof -
    have "map to_i32 (packed_row l row) = packed_row l row" if row: "row \<in> set rows" for row
    proof (rule map_idI)
      fix x assume "x \<in> set (packed_row l row)"
      then have "0 \<le> x \<and> x < gl_n_padded l" using packed_row_range [OF l] rows True row by blast
      then show "to_i32 x = x" using small by (intro to_i32_id) auto
    qed
    then show ?thesis by simp
  qed
  show ?thesis
    unfolding pack_permutations_host_def Let_def using c1 c2 perm cross casts True
    by (auto split: option.splits if_splits)
qed

section \<open>Groups stay on their shard\<close>

lemma packed_label:
  assumes "authenticated l" "0 \<le> j" "j < gl_n_padded l"
  shows "gl_packed_group_id l ! nat j = (if 0 \<le> slot_row l j then gl_canonical_group_id l ! nat (slot_row l j) else gl_n_groups l)"
proof -
  note v = validate_facts [OF assms(1)] and len = layout_lengths [OF assms(1)]
  let ?act = "gl_active_mask l" and ?packed = "gl_packed_to_canonical l" and ?pg = "gl_packed_group_id l"
  have k: "nat j < length ?packed" "length ?act = length ?pg" "nat j < length ?act" using assms len by linarith+
  have actj: "?act ! nat j \<longleftrightarrow> 0 \<le> slot_row l j" using v(7) k by (simp add: slot_row_def)
  show ?thesis
  proof (cases "0 \<le> slot_row l j")
    case True
    then have "nat j \<in> set (np_flatnonzero ?act)" using k actj by (simp add: np_flatnonzero_def)
    then obtain m where m: "m < length (np_flatnonzero ?act)" "np_flatnonzero ?act ! m = nat j" by (metis in_set_conv_nth)
    have "np_take ?pg (np_flatnonzero ?act) = np_take (gl_canonical_group_id l) (map nat (np_take ?packed (np_flatnonzero ?act)))"
      using v(15) masked_take [OF k(2)] masked_take [OF len(5)] by simp
    then have "np_take ?pg (np_flatnonzero ?act) ! m = np_take (gl_canonical_group_id l) (map nat (np_take ?packed (np_flatnonzero ?act))) ! m"
      by simp
    then show ?thesis using m True by (simp add: np_take_def slot_row_def)
  next
    case False
    have "nat j \<in> set (np_flatnonzero (map Not ?act))" using False k actj by (simp add: np_flatnonzero_def)
    then have "?pg ! nat j \<in> set (np_take ?pg (np_flatnonzero (map Not ?act)))" by (simp add: np_take_def)
    also have "np_take ?pg (np_flatnonzero (map Not ?act)) = masked (map Not ?act) ?pg" using masked_take [of "map Not ?act" ?pg] k(2) by simp
    finally show ?thesis using v(16) False by simp
  qed
qed

lemma group_interval:
  assumes "authenticated l" "0 \<le> i" "i < gl_n_logical l"
  shows "row_slot l i div gl_shard_size l = gl_group_owner l ! nat (gl_canonical_group_id l ! nat i)"
proof -
  note v = validate_facts [OF assms(1)] and len = layout_lengths [OF assms(1)]
  let ?cg = "gl_canonical_group_id l" and ?s = "gl_shard_size l"
  define g where "g = ?cg ! nat i"
  have "nat i < length ?cg" using assms len by linarith
  then have g: "0 \<le> g" "g < gl_n_groups l" using v(14) by (simp_all add: g_def)
  define start where "start = gl_group_start l ! nat g"
  define stop where "stop = start + gl_group_size l ! nat g"
  have "group_check l g = Inr ()" using v(18) g by blast
  then have chk: "0 \<le> start" "stop \<le> gl_n_padded l" "start div ?s = (stop - 1) div ?s" "gl_group_owner l ! nat g = start div ?s"
    "list_all (\<lambda>x. x = g) (take (nat (stop - start)) (drop (nat start) (gl_packed_group_id l)))"
    by (simp_all add: group_check_def Let_def start_def stop_def guard_Inr not_less)
  have size: "gl_group_size l ! nat g = int (count_list ?cg g)"
    using np_bincount_range [of ?cg "gl_n_groups l"] v(14,17) g by simp
  define S where "S = {j. 0 \<le> j \<and> j < gl_n_padded l \<and> gl_packed_group_id l ! nat j = g}"
  define R where "R = {k. 0 \<le> k \<and> k < gl_n_logical l \<and> ?cg ! nat k = g}"
  have finR: "finite R" by (rule finite_subset [of _ "{0..<gl_n_logical l}"]) (auto simp: R_def)
  have "S \<subseteq> row_slot l ` R"
  proof
    fix j assume "j \<in> S"
    then have j: "0 \<le> j" "j < gl_n_padded l" "gl_packed_group_id l ! nat j = g" by (auto simp: S_def)
    then have "0 \<le> slot_row l j" "?cg ! nat (slot_row l j) = g"
      using packed_label [OF assms(1) j(1,2)] g by (auto split: if_splits)
    moreover then have "slot_row l j < gl_n_logical l" "row_slot l (slot_row l j) = j" using view_facts(2) [OF assms(1) j(1,2)] by auto
    ultimately show "j \<in> row_slot l ` R" by (force simp: R_def)
  qed
  then have "card S \<le> card R" using finR by (meson card_image_le card_mono finite_imageI order_trans)
  also have "card R = count_list ?cg g"
  proof -
    have "R = int ` {k. k < length ?cg \<and> ?cg ! k = g}"
    proof (intro set_eqI iffI)
      fix k assume "k \<in> R"
      then have "nat k < length ?cg" "?cg ! nat k = g" "k = int (nat k)" using len by (auto simp: R_def)
      then show "k \<in> int ` {k. k < length ?cg \<and> ?cg ! k = g}" by blast
    qed (use len in \<open>auto simp: R_def\<close>)
    then have "card R = card {k. k < length ?cg \<and> ?cg ! k = g}" by (simp add: card_image)
    also have "\<dots> = length (filter (\<lambda>x. x = g) ?cg)" by (simp add: length_filter_conv_card)
    also have "\<dots> = count_list ?cg g"
    proof -
      have "length (filter (\<lambda>x. x = g) zs) = count_list zs g" for zs by (induction zs) auto
      then show ?thesis .
    qed
    finally show ?thesis .
  qed
  finally have card: "card S \<le> card {start..<stop}" using size by (simp add: stop_def)
  have "{start..<stop} \<subseteq> S"
  proof
    fix j assume j: "j \<in> {start..<stop}"
    have jl: "nat j < length (gl_packed_group_id l)" using j chk(1,2) len by auto
    have "gl_packed_group_id l ! nat j = take (nat (stop - start)) (drop (nat start) (gl_packed_group_id l)) ! nat (j - start)"
    proof -
      have "nat start \<le> nat j" "nat j - nat start < nat stop - nat start" "nat (j - start) = nat j - nat start"
        "nat (stop - start) = nat stop - nat start" using j chk(1) by (auto simp: nat_diff_distrib)
      then show ?thesis using jl by simp
    qed
    also have "\<dots> = g"
    proof -
      have "nat (j - start) < length (take (nat (stop - start)) (drop (nat start) (gl_packed_group_id l)))"
        using j chk(1) jl by auto
      then show ?thesis using chk(5) by (simp add: list_all_length)
    qed
    finally show "j \<in> S" using j chk(1,2) by (simp add: S_def)
  qed
  moreover have "finite S" by (rule finite_subset [of _ "{0..<gl_n_padded l}"]) (auto simp: S_def)
  ultimately have eq: "{start..<stop} = S" using card by (metis card_seteq)
  have slot: "0 \<le> row_slot l i" "row_slot l i < gl_n_padded l" "slot_row l (row_slot l i) = i" using view_facts(1) [OF assms] by auto
  then have "row_slot l i \<in> S" using packed_label [OF assms(1) slot(1,2)] assms(2) by (simp add: S_def g_def)
  then have "start \<le> row_slot l i" "row_slot l i \<le> stop - 1" using eq by auto
  then have "start div ?s \<le> row_slot l i div ?s" "row_slot l i div ?s \<le> (stop - 1) div ?s"
    using v(3) by (auto intro: zdiv_mono1)
  then show ?thesis using chk(3,4) by (simp add: g_def)
qed

section \<open>Square meshes\<close>

record square_layout =
  sq_side :: int
  sq_axis :: grouped_layout

definition square_side :: "int list \<Rightarrow> int option" where
  "square_side shape = (case shape of [a, b] \<Rightarrow> if 1 \<le> a \<and> a = b then Some a else None | _ \<Rightarrow> None)"

definition identity_axis :: "int \<Rightarrow> int \<Rightarrow> int \<Rightarrow> grouped_layout" where
  "identity_axis n side n_pad =
     (let shard_size = n_pad div side;
          packed = np_set_slice 0 [0..n - 1] (replicate (nat n_pad) (- 1));
          owner = map (\<lambda>i. i div shard_size) [0..n - 1]
      in \<lparr>gl_n_logical = n, gl_n_groups = n, gl_n_shards = side, gl_shard_size = shard_size, gl_n_padded = n_pad,
          gl_packed_to_canonical = packed, gl_canonical_to_packed = [0..n - 1], gl_canonical_group_id = [0..n - 1],
          gl_packed_group_id = map (\<lambda>x. if 0 \<le> x then x else n) packed,
          gl_active_mask = map (\<lambda>x. 0 \<le> x) packed, gl_group_owner = owner, gl_group_start = [0..n - 1],
          gl_group_size = replicate (nat n) 1, gl_shard_load = np_bincount owner side\<rparr>)"

definition identity_square_grouped_shard_layout :: "int \<Rightarrow> int \<Rightarrow> int list \<Rightarrow> (layout_error, square_layout) result" where
  "identity_square_grouped_shard_layout n n_pad shape =
     (case square_side shape of
        None \<Rightarrow> Inl (NotSquareMesh shape)
      | Some side \<Rightarrow>
          if n < 1 \<or> n_pad < n \<or> n_pad mod (side * side) \<noteq> 0 then Inl (NotCompleteMesh n n_pad)
          else andthen (validate_grouped_shard_layout (identity_axis n side n_pad)) (\<lambda>l.
            Inr \<lparr>sq_side = side, sq_axis = l\<rparr>))"

definition build_square_grouped_shard_layout :: "int list \<Rightarrow> int list \<Rightarrow> (layout_error, square_layout) result" where
  "build_square_grouped_shard_layout labels shape =
     (case square_side shape of
        None \<Rightarrow> Inl (NotSquareMesh shape)
      | Some side \<Rightarrow> andthen (build_grouped_shard_layout labels side side) (\<lambda>l. Inr \<lparr>sq_side = side, sq_axis = l\<rparr>))"

definition pack_axis_local_permutations_host ::
    "square_layout \<Rightarrow> int \<Rightarrow> int list list \<Rightarrow> (layout_error, int list list) result" where
  "pack_axis_local_permutations_host sq ncols rows =
     andthen (pack_permutations_host (sq_axis sq) ncols rows True) (\<lambda>packed.
       Inr (map (map (\<lambda>x. to_i32 (x mod gl_shard_size (sq_axis sq)))) packed))"

text \<open>The shards of the identity layout.\<close>

definition plain_shards :: "nat \<Rightarrow> nat \<Rightarrow> nat \<Rightarrow> nat list list" where
  "plain_shards n s k = map (\<lambda>t. [t * s..<min n (t * s + s)]) [0..<k]"

lemma plain_shards_concat: "concat (plain_shards n s k) = [0..<min n (k * s)]"
proof (induction k)
  case (Suc k)
  have "[0..<min n (k * s)] @ [k * s..<min n (k * s + s)] = [0..<min n (k * s + s)]"
  proof (cases "k * s \<le> n")
    case True
    then have "k * s \<le> min n (k * s + s)" by simp
    then show ?thesis using True upt_add_eq_append [of 0 "k * s" "min n (k * s + s) - k * s"] by (simp add: min_def)
  qed (simp add: min_def)
  then show ?case using Suc by (simp add: plain_shards_def add.commute)
qed (simp add: plain_shards_def)

lemma plain_segments:
  "concat (map (segment s v) (plain_shards n s k)) = map int [0..<min n (k * s)] @ replicate (k * s - min n (k * s)) v"
proof (induction k)
  case (Suc k)
  let ?last = "[k * s..<min n (k * s + s)]"
  have "map int [0..<min n (k * s)] @ replicate (k * s - min n (k * s)) v @ segment s v ?last =
      map int [0..<min n (k * s + s)] @ replicate (k * s + s - min n (k * s + s)) v"
  proof (cases "k * s \<le> n")
    case True
    then have "[0..<min n (k * s + s)] = [0..<k * s] @ ?last"
      using upt_add_eq_append [of 0 "k * s" "min n (k * s + s) - k * s"] by (simp add: min_def)
    then show ?thesis using True by (simp add: segment_def min_def add.commute)
  next
    case False
    then show ?thesis by (simp add: segment_def replicate_add [symmetric] min_def)
  qed
  then show ?case using Suc by (simp add: plain_shards_def add.commute)
qed (simp add: plain_shards_def)

lemma identity_axis_packed:
  assumes "1 \<le> n" "n \<le> n_pad" "1 \<le> side" "side dvd n_pad"
  defines "members \<equiv> map (\<lambda>g. [g]) [0..<nat n]" and "s \<equiv> nat (n_pad div side)"
  defines "sg \<equiv> plain_shards (nat n) s (nat side)"
  shows "identity_axis n side n_pad = packed_layout [0..<nat n] (nat n) members sg s
      (map (\<lambda>i. i div (n_pad div side)) [0..n - 1]) [0..n - 1]" (is ?eq)
    "packing_ok [0..<nat n] (nat n) members sg s" (is ?ok)
    "\<forall>gs\<in>set sg. shard_rows members gs = gs \<and> shard_labels members gs = gs" (is ?rows)
proof -
  define N where "N = nat n"
  have n: "n = int N" "0 < N" using assms by (simp_all add: N_def)
  have s: "n_pad div side = int s" "n_pad = int (nat side * s)"
    using assms by (simp_all add: s_def pos_imp_zdiv_nonneg_iff)
  have fits: "N \<le> nat side * s" using assms(2) n s(2) by linarith
  have all: "concat sg = [0..<N]" unfolding sg_def plain_shards_concat using fits by (simp add: N_def [symmetric] min_def)
  have "shard_rows members gs = gs \<and> shard_labels members gs = gs" if "\<forall>g\<in>set gs. g < N" for gs
    using that by (induction gs) (auto simp: members_def N_def)
  moreover have "\<forall>gs\<in>set sg. \<forall>g\<in>set gs. g < N"
  proof (intro ballI)
    fix gs g assume "gs \<in> set sg" "g \<in> set gs"
    then have "g \<in> set (concat sg)" by auto
    then show "g < N" by (simp add: all)
  qed
  ultimately show rows: ?rows by blast
  have short: "length gs \<le> s" if "gs \<in> set sg" for gs using that by (auto simp: sg_def plain_shards_def)
  have filt: "filter (\<lambda>i. [0..<N] ! i = g) [0..<N] = [g]" if "g < N" for g
  proof -
    have "filter (\<lambda>i. [0..<N] ! i = g) [0..<N] = filter (\<lambda>i. i = g) [0..<N]" by (rule filter_cong) auto
    also have "\<dots> = [g]" using that by (induction N) auto
    finally show ?thesis .
  qed
  show ok: ?ok
    unfolding packing_ok_def N_def [symmetric] using n(2) all rows short filt by (auto simp: members_def N_def)
  have len: "length sg = nat side" by (simp add: sg_def plain_shards_def)
  have up: "[0..n - 1] = map int [0..<N]" using upto_nth_eq [of N] n(1) by simp
  have packed: "packed_rows members sg s = map int [0..<N] @ replicate (nat side * s - N) (- 1)"
  proof -
    have "packed_rows members sg s = concat (map (segment s (- 1)) sg)"
      unfolding packed_rows_def using rows by (intro arg_cong [of _ _ concat] map_cong) auto
    then show ?thesis unfolding sg_def plain_segments using fits by (simp add: N_def [symmetric] min_def)
  qed
  have labels: "packed_labels N members sg s = map int [0..<N] @ replicate (nat side * s - N) (int N)"
  proof -
    have "packed_labels N members sg s = concat (map (segment s (int N)) sg)"
      unfolding packed_labels_def using rows by (intro arg_cong [of _ _ concat] map_cong) auto
    then show ?thesis unfolding sg_def plain_segments using fits by (simp add: N_def [symmetric] min_def)
  qed
  have packed_np: "np_set_slice 0 [0..n - 1] (replicate (nat n_pad) (- 1)) = packed_rows members sg s"
  proof -
    have "nat n_pad = nat side * s" by (simp only: s(2) nat_int)
    then show ?thesis using up fits by (simp add: np_set_slice_def packed)
  qed
  have unique: "v = int i" if "nat v < length (packed_rows members sg s)" "packed_rows members sg s ! nat v = int i" "0 \<le> v" for v i
    using that unfolding packed by (cases "nat v < N") (simp_all add: nth_append)
  have inv: "np_put (map nat (masked (map (\<lambda>x. 0 \<le> x) (packed_rows members sg s)) (packed_rows members sg s)))
      (map int (np_flatnonzero (map (\<lambda>x. 0 \<le> x) (packed_rows members sg s)))) (replicate N 0) = [0..n - 1]"
    (is "?inv = _")
  proof (rule nth_equalityI)
    show "length ?inv = length [0..n - 1]" using up by simp
    fix i assume "i < length ?inv"
    then have i: "i < N" by simp
    note p = packed_inverse [OF ok [folded N_def]]
    have "nat (?inv ! i) < length (packed_rows members sg s)" "packed_rows members sg s ! nat (?inv ! i) = int i" "0 \<le> ?inv ! i"
      using p(2) i by simp_all
    then have "?inv ! i = int i" by (rule unique)
    then show "?inv ! i = [0..n - 1] ! i" using i n(1) by simp
  qed
  have sizes: "group_sizes [0..<N] N = replicate N 1"
    by (rule nth_equalityI) (use filt in \<open>simp_all add: group_sizes_eq\<close>)
  have loads: "np_bincount (map (\<lambda>i. i div int s) [0..n - 1]) side = map (\<lambda>gs. int (length (shard_rows members gs))) sg"
  proof -
    have s0: "0 < s" using fits n(2) by (cases s) auto
    have small: "i div s < nat side" if "i < N" for i
      using that fits s0 by (metis less_mult_imp_div_less order_less_le_trans)
    have ints: "map (\<lambda>i. i div int s) [0..n - 1] = map int (map (\<lambda>i. i div s) [0..<N])" by (simp add: up zdiv_int)
    have "\<forall>x\<in>set (map int (map (\<lambda>i. i div s) [0..<N])). x < int (nat side)"
    proof
      fix x assume "x \<in> set (map int (map (\<lambda>i. i div s) [0..<N]))"
      then obtain i where "i < N" "x = int (i div s)" by auto
      then show "x < int (nat side)" using small [of i] by (simp only: of_nat_less_iff)
    qed
    then have "np_bincount (map (\<lambda>i. i div int s) [0..n - 1]) (int (nat side)) =
        map (\<lambda>t. int (count_list (map int (map (\<lambda>i. i div s) [0..<N])) (int t))) [0..<nat side]"
      unfolding ints by (rule np_bincount_nat)
    also have "\<dots> = map (\<lambda>t. int (length [t * s..<min N (t * s + s)])) [0..<nat side]"
    proof (rule map_cong [OF refl])
      fix t
      have count: "count_list (map int xs) (int t) = length (filter (\<lambda>x. x = t) xs)" for xs by (induction xs) auto
      have "count_list (map int (map (\<lambda>i. i div s) [0..<N])) (int t) = length (filter (\<lambda>i. i div s = t) [0..<N])"
        unfolding count by (simp add: filter_map comp_def)
      also have "\<dots> = card {i. i < N \<and> i div s = t}"
        by (simp add: distinct_card [symmetric] atLeast0LessThan)
      also have "{i. i < N \<and> i div s = t} = {t * s..<min N (t * s + s)}"
        using s0 by (auto simp: div_nat_eqI less_eq_div_iff_mult_less_eq div_less_iff_less_mult algebra_simps
            intro!: div_nat_eqI) (metis dividend_less_div_times add.commute mult.commute)+
      finally show "int (count_list (map int (map (\<lambda>i. i div s) [0..<N])) (int t)) = int (length [t * s..<min N (t * s + s)])" by simp
    qed
    also have "\<dots> = map (\<lambda>gs. int (length gs)) sg" by (simp add: sg_def plain_shards_def N_def)
    also have "\<dots> = map (\<lambda>gs. int (length (shard_rows members gs))) sg" using rows by (intro map_cong) auto
    finally show ?thesis using assms(3) by simp
  qed
  have NN: "nat n = N" by (simp add: N_def)
  have f1: "int (length [0..<N]) = n" "int N = n" "int (length sg) = side" using n(1) len assms(3) by simp_all
  have f2: "side * int s = n_pad" using s(2) assms(3) by simp
  have f3: "map (\<lambda>x. if 0 \<le> x then x else n) (packed_rows members sg s) = packed_labels N members sg s"
    unfolding packed labels n(1) by (simp add: comp_def)
  have f4: "length [0..<N] = N" by simp
  show ?eq
    unfolding identity_axis_def packed_layout_def Let_def NN packed_np
    unfolding s(1) loads f3 f1 f2 up [symmetric] f4 inv sizes by (rule refl)
qed

lemma identity_axis_valid:
  assumes "1 \<le> n" "n \<le> n_pad" "1 \<le> side" "side dvd n_pad"
  shows "authenticated (identity_axis n side n_pad)"
proof -
  have "0 \<le> n_pad div side" using assms by (simp add: pos_imp_zdiv_nonneg_iff)
  then obtain s where s: "n_pad div side = int s" by (metis nonneg_int_cases)
  let ?members = "map (\<lambda>g. [g]) [0..<nat n]"
  let ?sg = "plain_shards (nat n) s (nat side)"
  note p = identity_axis_packed [OF assms, unfolded s nat_int]
  have up: "[0..n - 1] = map int [0..<nat n]" using upto_nth_eq [of "nat n"] assms(1) by simp
  have lt: "g < nat n \<and> t * s \<le> g \<and> g < t * s + s" if "t < length ?sg" "g \<in> set (?sg ! t)" for t g
    using that by (auto simp: plain_shards_def)
  show ?thesis
    unfolding p(1)
  proof (rule packed_layout_valid [OF p(2), where fa = "\<lambda>g. g"])
    show "\<forall>t<length ?sg. \<forall>g\<in>set (?sg ! t). map (\<lambda>i. i div int s) [0..n - 1] ! g = int t"
    proof (intro allI impI ballI)
      fix t g assume "t < length ?sg" "g \<in> set (?sg ! t)"
      note l = lt [OF this]
      then have "g div s = t" by (intro div_nat_eqI) (auto simp: algebra_simps)
      then have "int g div int s = int t" by (metis zdiv_int)
      then show "map (\<lambda>i. i div int s) [0..n - 1] ! g = int t" unfolding up using l by simp
    qed
    show "\<forall>t as g bs. t < length ?sg \<longrightarrow> ?sg ! t = as @ g # bs \<longrightarrow>
        [0..n - 1] ! g = int (t * s) + int (length (shard_rows ?members as))"
    proof (intro allI impI)
      fix t as g bs assume t: "t < length ?sg" and split: "?sg ! t = as @ g # bs"
      then have g: "g \<in> set (?sg ! t)" by simp
      have "\<forall>x\<in>set as. x < nat n" using lt [OF t] split by auto
      then have "shard_rows ?members as = as" by (induction as) auto
      moreover have "g = t * s + length as"
      proof -
        have "?sg ! t = [t * s..<min (nat n) (t * s + s)]" using t by (simp add: plain_shards_def)
        then have "[t * s..<min (nat n) (t * s + s)] ! length as = g" "length as < length [t * s..<min (nat n) (t * s + s)]"
          using split by (metis nth_append_length, metis length_append length_Cons less_add_Suc1 add_Suc_right)
        then show ?thesis using nth_upt [of "t * s" "length as" "min (nat n) (t * s + s)"] by (simp only: length_upt less_diff_conv add.commute)
      qed
      ultimately show "[0..n - 1] ! g = int (t * s) + int (length (shard_rows ?members as))" unfolding up using lt [OF t g] by simp
    qed
  qed (use assms up in \<open>auto simp: plain_shards_def\<close>)
qed

section \<open>Properties of the maps\<close>

text \<open>
  C34: packing and unpacking an axis are inverse. Unpacking what was packed returns the array;
  packing what was unpacked returns the packed array with its pad slots overwritten by the fill.
\<close>

theorem pack_unpack_host:
  assumes "authenticated l" "nd_wf A" "norm_axis axis A = Inr ax"
  shows "(nd_shape A ! ax = gl_n_logical l \<longrightarrow>
       (\<exists>B. pack_host l A axis fill = Inr B \<and> nd_shape B = (nd_shape A)[ax := gl_n_padded l] \<and> unpack_host l B axis = Inr A)) \<and>
    (nd_shape A ! ax = gl_n_padded l \<longrightarrow>
       (\<exists>B. unpack_host l A axis = Inr B \<and> pack_host l B axis fill =
          Inr (nd_make (nd_shape A) (\<lambda>ix. if 0 \<le> gl_packed_to_canonical l ! nat (ix ! ax) then nd_at A ix else fill))))"
  using pack_then_unpack [OF assms] unpack_then_pack [OF assms] by blast

theorem pack_unpack_host_witness:
  "\<exists>B. pack_host (identity_axis 3 2 4) (nd_make [3, 2] (\<lambda>ix. ix ! 0 + ix ! 1)) 0 (0 :: int) = Inr B \<and> nd_shape B = [4, 2]"
proof -
  have l: "authenticated (identity_axis 3 2 4)" by (rule identity_axis_valid) simp_all
  have f: "gl_n_logical (identity_axis 3 2 4) = 3" "gl_n_padded (identity_axis 3 2 4) = 4" by (simp_all add: identity_axis_def Let_def)
  let ?A = "nd_make [3, 2] (\<lambda>ix. ix ! 0 + ix ! 1 :: int)"
  have A: "nd_wf ?A" "norm_axis 0 ?A = Inr 0" by (simp_all add: norm_axis_def nd_dim_def)
  show ?thesis using pack_unpack_host [OF l A, of 0] by (auto simp: f)
qed

text \<open>
  \<open>pack_permutations_host\<close> accepts exactly the integer maps it should. On rows of the canonical
  length it returns when every row is a permutation of the canonical range and, if locality is
  required, moves no row to another shard; then it returns the packed rows, uncut by the int32 cast.
\<close>

theorem pack_permutations_exact:
  assumes "authenticated l" "gl_n_padded l \<le> 2 ^ 31" "\<forall>row\<in>set rows. int (length row) = gl_n_logical l"
  shows "pack_permutations_host l ncols rows require_local = Inr out \<longleftrightarrow>
    ncols = gl_n_logical l \<and>
    (\<forall>row\<in>set rows. (\<forall>x\<in>set row. 0 \<le> x \<and> x < gl_n_logical l) \<and> distinct row \<and>
       (require_local \<longrightarrow> (\<forall>i. 0 \<le> i \<and> i < gl_n_logical l \<longrightarrow>
          row_slot l i div gl_shard_size l = row_slot l (row ! nat i) div gl_shard_size l))) \<and>
    out = map (packed_row l) rows"
proof (cases "ncols = gl_n_logical l")
  case True
  then show ?thesis using pack_permutations_Inr [OF assms] by simp
qed (simp add: pack_permutations_host_def)

theorem pack_permutations_exact_witness:
  "pack_permutations_host (identity_axis 3 2 4) 3 [[1, 0, 2]] True = Inr (map (packed_row (identity_axis 3 2 4)) [[1, 0, 2]]) \<and>
   pack_permutations_host (identity_axis 3 2 4) 3 [[1, 1, 2]] True \<noteq> Inr []"
proof -
  let ?l = "identity_axis 3 2 4"
  have l: "authenticated ?l" by (rule identity_axis_valid) simp_all
  have f: "gl_n_logical ?l = 3" "gl_n_padded ?l = 4" "gl_shard_size ?l = 2" "gl_canonical_to_packed ?l = [0..2]"
    by (simp_all add: identity_axis_def Let_def)
  have up: "[0..2 :: int] = [0, 1, 2]" by (simp add: upto_rec1)
  have cases: "i = 0 \<or> i = 1 \<or> i = 2" if "0 \<le> i \<and> i < 3" for i :: int using that by arith
  have "\<forall>i. 0 \<le> i \<and> i < 3 \<longrightarrow> row_slot ?l i div 2 = row_slot ?l ([1, 0, 2] ! nat i) div 2"
  proof (intro allI impI)
    fix i :: int assume "0 \<le> i \<and> i < 3"
    from cases [OF this] show "row_slot ?l i div 2 = row_slot ?l ([1, 0, 2] ! nat i) div 2"
      by (elim disjE) (simp_all add: row_slot_def f up)
  qed
  then show ?thesis
    using pack_permutations_exact [OF l, of "[[1, 0, 2]]" 3 True "map (packed_row ?l) [[1, 0, 2]]"]
      pack_permutations_exact [OF l, of "[[1, 1, 2]]" 3 True "[]"] by (simp add: f)
qed

text \<open>
  a packed map is the canonical map seen through the layout. Gathering the packed array through
  it gives the packed array of the gathered one, whatever the pads hold; pads map to themselves; and
  packing the composition of two maps is composing the packed maps.
\<close>

theorem packed_maps_gather:
  assumes "authenticated l"
    and "int (length p) = gl_n_logical l" "\<forall>x\<in>set p. 0 \<le> x \<and> x < gl_n_logical l"
    and "int (length q) = gl_n_logical l" "\<forall>x\<in>set q. 0 \<le> x \<and> x < gl_n_logical l"
    and "0 \<le> j" "j < gl_n_padded l"
  shows "seen (slot_row l) fill x (packed_row l p ! nat j) = seen (slot_row l) fill (\<lambda>i. x (p ! nat i)) j \<and>
    (slot_row l j < 0 \<longrightarrow> packed_row l p ! nat j = j) \<and>
    packed_row l p ! nat (packed_row l q ! nat j) = packed_row l (map (\<lambda>i. p ! nat i) q) ! nat j"
proof (intro conjI impI)
  have p: "\<forall>i. 0 \<le> i \<and> i < gl_n_logical l \<longrightarrow> 0 \<le> p ! nat i \<and> p ! nat i < gl_n_logical l"
    and q: "\<forall>i. 0 \<le> i \<and> i < gl_n_logical l \<longrightarrow> 0 \<le> q ! nat i \<and> q ! nat i < gl_n_logical l"
    using row_in_range [OF assms(2)] row_in_range [OF assms(4)] assms(3,5) by blast+
  show "seen (slot_row l) fill x (packed_row l p ! nat j) = seen (slot_row l) fill (\<lambda>i. x (p ! nat i)) j"
    using gv.conjugated_seen [OF assms(1) p assms(6,7)] by (simp add: packed_row_nth assms(6,7))
  show "packed_row l p ! nat j = j" if "slot_row l j < 0"
    using that by (simp add: packed_row_nth assms(6,7) conjugated_def)
  let ?c = "conjugated (slot_row l) (row_slot l) (\<lambda>i. q ! nat i) j"
  have c: "0 \<le> ?c \<and> ?c < gl_n_padded l" by (rule gv.conjugated_range [OF assms(1) q assms(6,7)])
  have "packed_row l p ! nat (packed_row l q ! nat j) = conjugated (slot_row l) (row_slot l) (\<lambda>i. p ! nat i) ?c"
    using c by (simp add: packed_row_nth assms(6,7))
  also have "\<dots> = conjugated (slot_row l) (row_slot l) (\<lambda>i. p ! nat (q ! nat i)) j"
    by (rule gv.conjugated_comp [OF assms(1) q assms(6,7)])
  also have "\<dots> = packed_row l (map (\<lambda>i. p ! nat i) q) ! nat j"
  proof -
    have "map (\<lambda>i. p ! nat i) q ! nat (slot_row l j) = p ! nat (q ! nat (slot_row l j))" if "0 \<le> slot_row l j"
    proof -
      have "slot_row l j < gl_n_logical l" using view_facts(2) [OF assms(1,6,7) that] by simp
      then have "nat (slot_row l j) < length q" using that assms(4) by linarith
      then show ?thesis by simp
    qed
    then show ?thesis by (simp add: packed_row_nth assms(6,7) conjugated_def)
  qed
  finally show "packed_row l p ! nat (packed_row l q ! nat j) = packed_row l (map (\<lambda>i. p ! nat i) q) ! nat j" .
qed

theorem packed_maps_gather_witness:
  "packed_row (identity_axis 3 2 4) [1, 0, 2] ! nat (packed_row (identity_axis 3 2 4) [2, 1, 0] ! nat 0) =
   packed_row (identity_axis 3 2 4) [2, 0, 1] ! nat 0"
proof -
  have l: "authenticated (identity_axis 3 2 4)" by (rule identity_axis_valid) simp_all
  have f: "gl_n_logical (identity_axis 3 2 4) = 3" "gl_n_padded (identity_axis 3 2 4) = 4" by (simp_all add: identity_axis_def Let_def)
  have "packed_row (identity_axis 3 2 4) [1, 0, 2] ! nat (packed_row (identity_axis 3 2 4) [2, 1, 0] ! nat 0) =
      packed_row (identity_axis 3 2 4) (map (\<lambda>i. [1, 0, 2] ! nat i) [2, 1, 0]) ! nat 0"
    by (rule packed_maps_gather [OF l, THEN conjunct2, THEN conjunct2]) (simp_all add: f)
  then show ?thesis by simp
qed

text \<open>
  a partition closed under the action needs no communication. Maps that permute rows inside
  their groups are accepted under the locality check, and the local gather offsets of
  \<open>pack_local_permutations_host\<close> lie inside the shard and name, on each slot's own shard, the packed
  source row.
\<close>

theorem closed_groups_stay_local:
  assumes "authenticated l" "gl_n_padded l \<le> 2 ^ 31"
    and "\<forall>row\<in>set rows. int (length row) = gl_n_logical l \<and> (\<forall>x\<in>set row. 0 \<le> x \<and> x < gl_n_logical l) \<and> distinct row \<and>
      (\<forall>i. 0 \<le> i \<and> i < gl_n_logical l \<longrightarrow> gl_canonical_group_id l ! nat (row ! nat i) = gl_canonical_group_id l ! nat i)"
  shows "pack_local_permutations_host l (gl_n_logical l) rows =
      Inr (map (\<lambda>row. map (\<lambda>x. x mod gl_shard_size l) (packed_row l row)) rows) \<and>
    (\<forall>row\<in>set rows. \<forall>j. 0 \<le> j \<and> j < gl_n_padded l \<longrightarrow>
       0 \<le> packed_row l row ! nat j mod gl_shard_size l \<and> packed_row l row ! nat j mod gl_shard_size l < gl_shard_size l \<and>
       (j div gl_shard_size l) * gl_shard_size l + packed_row l row ! nat j mod gl_shard_size l = packed_row l row ! nat j)"
proof -
  let ?s = "gl_shard_size l"
  have s: "1 \<le> ?s" by (rule validate_facts(3) [OF assms(1)])
  have s31: "?s \<le> 2 ^ 31"
  proof -
    have "?s \<le> gl_n_shards l * ?s" using validate_facts(3,4) [OF assms(1)] by (simp add: mult_le_cancel_right1)
    then show ?thesis using assms(2) validate_facts(5) [OF assms(1)] by linarith
  qed
  have loc: "row_slot l i div ?s = row_slot l (row ! nat i) div ?s"
    if row: "row \<in> set rows" and i: "0 \<le> i" "i < gl_n_logical l" for row i
  proof -
    have r: "0 \<le> row ! nat i" "row ! nat i < gl_n_logical l"
      using assms(3) row i row_in_range [of row "gl_n_logical l"] by blast+
    show ?thesis using group_interval [OF assms(1) i] group_interval [OF assms(1) r] assms(3) row i by simp
  qed
  have run: "pack_permutations_host l (gl_n_logical l) rows True = Inr (map (packed_row l) rows)"
    using pack_permutations_Inr [OF assms(1,2), of rows True "map (packed_row l) rows"] assms(3) loc by blast
  have cast: "to_i32 (x mod ?s) = x mod ?s" for x
  proof -
    have "0 \<le> x mod ?s" "x mod ?s < ?s" using s by simp_all
    then show ?thesis using s31 by (intro to_i32_id) auto
  qed
  have "j div ?s * ?s + packed_row l row ! nat j mod ?s = packed_row l row ! nat j"
    if row: "row \<in> set rows" and j: "0 \<le> j" "j < gl_n_padded l" for row j
  proof -
    have "\<forall>j\<in>set [0..gl_n_padded l - 1]. j div ?s = packed_row l row ! nat j div ?s"
      using packed_row_local [OF assms(1), of row ?s] assms(3) row loc by blast
    then have "j div ?s = packed_row l row ! nat j div ?s" using j by simp
    then show ?thesis by (simp add: mult.commute)
  qed
  then show ?thesis using run cast s by (simp add: pack_local_permutations_host_def)
qed

theorem closed_groups_stay_local_witness:
  "\<exists>l. build_grouped_shard_layout [5, 8, 5] 2 1 = Inr l \<and> (\<exists>out. pack_local_permutations_host l 3 [[2, 1, 0]] = Inr out)"
proof -
  obtain l where l: "build_grouped_shard_layout [5, 8, 5] 2 1 = Inr l"
    using build_layout_shape(1) [of "[5, 8, 5]" 2 1] by auto
  note p = build_parts [OF l]
  have n: "gl_n_logical l = 3" using p(4) by simp
  have ids: "gl_canonical_group_id l = [0, 1, 0]" using p(8) by (simp add: dense_labels_eq appearance_def first_index_def)
  have sizes: "gl_group_size l = [2, 1]"
    using p(7) by (simp add: group_sizes_def dense_labels_eq appearance_def first_index_def np_bincount_def upto_rec1)
  have small: "gl_n_padded l \<le> 2 ^ 31"
  proof -
    have load: "assigned_load [2, 1] (\<lambda>g. g) t \<le> 2" for t
    proof -
      have "{g. g < length [2, 1 :: int] \<and> g = t} = (if t < 2 then {t} else {})" by auto
      then show ?thesis by (cases t) (auto simp: assigned_load_def less_Suc_eq numeral_2_eq_2)
    qed
    have "fold max (gl_shard_load l) 0 \<le> 3"
    proof (rule fold_max_le)
      show "\<forall>x\<in>set (gl_shard_load l). x \<le> 3"
      proof
        fix x assume "x \<in> set (gl_shard_load l)"
        then obtain t where t: "t < nat 2" "x = lpt_loads (lpt_pack (gl_group_size l) (nat 2)) ! t"
          using p(7,9,10) in_set_conv_nth [of x "gl_shard_load l"] by auto
        have "2 * x \<le> 3 * 2" unfolding t(2)
          by (rule lpt_three_halves_bound [OF _ _ _ _ t(1), of _ "\<lambda>g. g"]) (use load in \<open>simp_all add: sizes\<close>)
        then show "x \<le> 3" by simp
      qed
    qed simp
    then have "gl_shard_size l \<le> 3" using p(9,11) ru.carrier_one by simp
    then show ?thesis using validate_facts(5) [OF p(12)] p(6) by simp
  qed
  have cases: "i = 0 \<or> i = 1 \<or> i = 2" if "0 \<le> i \<and> i < 3" for i :: int using that by arith
  show ?thesis
    using closed_groups_stay_local [OF p(12) small, of "[[2, 1, 0]]"] cases l by (fastforce simp: n ids)
qed

text \<open>
  the two square-mesh constructors. The identity layout of a complete-mesh extent is accepted by
  the validator, packs nothing and keeps every shard; a layout built for a square mesh has one shard
  per side, and its padded extent is a multiple of the number of devices, so it is legal under the
  X, the Y and the flattened sharding.
\<close>

theorem square_layouts_legal:
  assumes "1 \<le> side"
  shows "(1 \<le> n \<and> n \<le> n_pad \<and> side * side dvd n_pad \<longrightarrow>
      identity_square_grouped_shard_layout n n_pad [side, side] = Inr \<lparr>sq_side = side, sq_axis = identity_axis n side n_pad\<rparr> \<and>
      (\<forall>i. 0 \<le> i \<and> i < n \<longrightarrow> row_slot (identity_axis n side n_pad) i = i)) \<and>
    (labels \<noteq> [] \<longrightarrow> (\<exists>sq. build_square_grouped_shard_layout labels [side, side] = Inr sq \<and> sq_side sq = side \<and>
      gl_n_shards (sq_axis sq) = side \<and> side * side dvd gl_n_padded (sq_axis sq) \<and> authenticated (sq_axis sq)))"
proof (intro conjI impI)
  assume n: "1 \<le> n \<and> n \<le> n_pad \<and> side * side dvd n_pad"
  then have "side dvd n_pad" by (meson dvd_mult_left)
  then have v: "authenticated (identity_axis n side n_pad)" using identity_axis_valid n assms by blast
  have "n_pad mod (side * side) = 0" using n by auto
  then show "identity_square_grouped_shard_layout n n_pad [side, side] = Inr \<lparr>sq_side = side, sq_axis = identity_axis n side n_pad\<rparr>"
    using v n assms by (simp add: identity_square_grouped_shard_layout_def square_side_def)
  show "\<forall>i. 0 \<le> i \<and> i < n \<longrightarrow> row_slot (identity_axis n side n_pad) i = i"
    by (auto simp: row_slot_def identity_axis_def Let_def)
next
  assume "labels \<noteq> []"
  then obtain l where l: "build_grouped_shard_layout labels side side = Inr l" using build_layout_shape(1) assms by blast
  note p = build_parts [OF l]
  have "side dvd gl_shard_size l" using ru.carrier_dvd [of side] p(11) assms by (simp add: max_def split: if_splits)
  then have "side * side dvd gl_n_padded l" using validate_facts(5) [OF p(12)] p(6) by (simp add: mult_dvd_mono)
  then show "\<exists>sq. build_square_grouped_shard_layout labels [side, side] = Inr sq \<and> sq_side sq = side \<and>
      gl_n_shards (sq_axis sq) = side \<and> side * side dvd gl_n_padded (sq_axis sq) \<and> authenticated (sq_axis sq)"
    using l p(6,12) assms by (simp add: build_square_grouped_shard_layout_def square_side_def)
qed

theorem square_layouts_legal_witness:
  "\<exists>sq. identity_square_grouped_shard_layout 5 8 [2, 2] = Inr sq \<and> row_slot (sq_axis sq) 3 = 3"
  using square_layouts_legal [of 2 5 8 "[]"] by simp

end
