(* ===== verification/AsyncDispatch.thy ===== *)
theory AsyncDispatch
  imports LxPrelude
begin

text \<open>
  \<open>src/common/async_io.py\<close>: \<open>AsyncDispatcher\<close>, one daemon worker draining a bounded queue of tasks.
  The class is a step relation of two threads, the caller and the worker, interleaved at the points
  where the code takes the lock or touches the queue. A caller waits inside \<open>submit\<close> (queue full),
  \<open>drain\<close> and \<open>close\<close> (condition variable, queue, join); the worker waits in \<open>queue.get\<close>.

  What a task does when it is called is the caller's business: \<open>run t\<close> is the exception it raises,
  if any. \<open>queue.Queue\<close> and the condition variable are those of the standard library: \<open>put\<close> blocks
  while a bounded queue is full (a bound of 0 is no bound), \<open>get\<close> takes the oldest item.
\<close>

section \<open>The code\<close>

datatype 't client =
    Ready
  | Putting 't
  | Draining
  | CloseDraining
  | ClosePutting
  | Joining

datatype 't worker = Waiting | Running 't | Finishing | Stopped

text \<open>The queue holds tasks and the poison pill \<open>None\<close>.\<close>

record ('t, 'e) dispatcher =
  dp_queue :: "'t option list"
  dp_pending :: int
  dp_error :: "'e option"
  dp_closed :: bool
  dp_client :: "'t client"
  dp_worker :: "'t worker"

datatype 't event =
    Submit 't | SubmitRefused | Put
  | DrainCall | DrainReturn
  | CloseCall | CloseAgain | CloseDrained | ClosePill | CloseReturn
  | Got | GotPill | Ran 't | Finished

definition dp_init :: "('t, 'e) dispatcher" where
  "dp_init = \<lparr>dp_queue = [], dp_pending = 0, dp_error = None, dp_closed = False, dp_client = Ready, dp_worker = Waiting\<rparr>"

definition has_room :: "nat \<Rightarrow> 'a list \<Rightarrow> bool" where
  "has_room maxsize q \<longleftrightarrow> maxsize = 0 \<or> length q < maxsize"

definition keep_first :: "'e option \<Rightarrow> 'e option \<Rightarrow> 'e option" where
  "keep_first old raised = (case old of None \<Rightarrow> raised | Some _ \<Rightarrow> old)"

inductive dstep ::
    "nat \<Rightarrow> ('t \<Rightarrow> 'e option) \<Rightarrow> ('t, 'e) dispatcher \<Rightarrow> 't event \<Rightarrow> ('t, 'e) dispatcher \<Rightarrow> bool"
  for maxsize run where
  submit: "dp_client s = Ready \<Longrightarrow> \<not> dp_closed s \<Longrightarrow>
    dstep maxsize run s (Submit t) (s\<lparr>dp_pending := dp_pending s + 1, dp_client := Putting t\<rparr>)"
| submit_refused: "dp_client s = Ready \<Longrightarrow> dp_closed s \<Longrightarrow> dstep maxsize run s SubmitRefused s"
| put: "dp_client s = Putting t \<Longrightarrow> has_room maxsize (dp_queue s) \<Longrightarrow>
    dstep maxsize run s Put (s\<lparr>dp_queue := dp_queue s @ [Some t], dp_client := Ready\<rparr>)"
| drain_call: "dp_client s = Ready \<Longrightarrow> dstep maxsize run s DrainCall (s\<lparr>dp_client := Draining\<rparr>)"
| drain_return: "dp_client s = Draining \<Longrightarrow> \<not> 0 < dp_pending s \<Longrightarrow>
    dstep maxsize run s DrainReturn (s\<lparr>dp_client := Ready\<rparr>)"
| close_call: "dp_client s = Ready \<Longrightarrow> \<not> dp_closed s \<Longrightarrow>
    dstep maxsize run s CloseCall (s\<lparr>dp_client := CloseDraining\<rparr>)"
| close_again: "dp_client s = Ready \<Longrightarrow> dp_closed s \<Longrightarrow> dstep maxsize run s CloseAgain s"
| close_drained: "dp_client s = CloseDraining \<Longrightarrow> \<not> 0 < dp_pending s \<Longrightarrow>
    dstep maxsize run s CloseDrained (s\<lparr>dp_closed := True, dp_client := ClosePutting\<rparr>)"
| close_pill: "dp_client s = ClosePutting \<Longrightarrow> has_room maxsize (dp_queue s) \<Longrightarrow>
    dstep maxsize run s ClosePill (s\<lparr>dp_queue := dp_queue s @ [None], dp_client := Joining\<rparr>)"
| close_return: "dp_client s = Joining \<Longrightarrow> dp_worker s = Stopped \<Longrightarrow>
    dstep maxsize run s CloseReturn (s\<lparr>dp_client := Ready\<rparr>)"
| got: "dp_worker s = Waiting \<Longrightarrow> dp_queue s = Some t # q \<Longrightarrow>
    dstep maxsize run s Got (s\<lparr>dp_queue := q, dp_worker := Running t\<rparr>)"
| got_pill: "dp_worker s = Waiting \<Longrightarrow> dp_queue s = None # q \<Longrightarrow>
    dstep maxsize run s GotPill (s\<lparr>dp_queue := q, dp_worker := Stopped\<rparr>)"
| ran: "dp_worker s = Running t \<Longrightarrow>
    dstep maxsize run s (Ran t) (s\<lparr>dp_error := keep_first (dp_error s) (run t), dp_worker := Finishing\<rparr>)"
| finished: "dp_worker s = Finishing \<Longrightarrow>
    dstep maxsize run s Finished (s\<lparr>dp_pending := dp_pending s - 1, dp_worker := Waiting\<rparr>)"

text \<open>The states reached from a new dispatcher, with the events that led there.\<close>

inductive history :: "nat \<Rightarrow> ('t \<Rightarrow> 'e option) \<Rightarrow> 't event list \<Rightarrow> ('t, 'e) dispatcher \<Rightarrow> bool" for maxsize run where
  new: "history maxsize run [] dp_init"
| step: "history maxsize run es s \<Longrightarrow> dstep maxsize run s e s' \<Longrightarrow> history maxsize run (es @ [e]) s'"

inductive_cases dstep_elims: "dstep maxsize run s e s'"
inductive_cases submit_elim: "dstep maxsize run s (Submit t) s'"
inductive_cases drain_return_elim: "dstep maxsize run s DrainReturn s'"
inductive_cases close_return_elim: "dstep maxsize run s CloseReturn s'"
inductive_simps history_Nil [simp]: "history maxsize run [] s"

section \<open>The contract: a first-in first-out executor\<close>

text \<open>
  What the class promises, without threads: tasks are accepted, and run one at a time in the order
  they were accepted; the first exception is kept and stops nothing.
\<close>

record ('t, 'e) fifo =
  ff_todo :: "'t list"
  ff_done :: "'t list"
  ff_error :: "'e option"

inductive fifo_step :: "('t \<Rightarrow> 'e option) \<Rightarrow> ('t, 'e) fifo \<Rightarrow> ('t, 'e) fifo \<Rightarrow> bool" for run where
  accept: "fifo_step run a (a\<lparr>ff_todo := ff_todo a @ [t]\<rparr>)"
| execute: "ff_todo a = t # rest \<Longrightarrow>
    fifo_step run a \<lparr>ff_todo = rest, ff_done = ff_done a @ [t], ff_error = keep_first (ff_error a) (run t)\<rparr>"
| stutter: "fifo_step run a a"

definition submitted :: "'t event list \<Rightarrow> 't list" where
  "submitted es = List.map_filter (\<lambda>e. case e of Submit t \<Rightarrow> Some t | _ \<Rightarrow> None) es"

definition executed :: "'t event list \<Rightarrow> 't list" where
  "executed es = List.map_filter (\<lambda>e. case e of Ran t \<Rightarrow> Some t | _ \<Rightarrow> None) es"

definition in_client :: "'t client \<Rightarrow> 't list" where
  "in_client c = (case c of Putting t \<Rightarrow> [t] | _ \<Rightarrow> [])"

definition in_worker :: "'t worker \<Rightarrow> 't list" where
  "in_worker w = (case w of Running t \<Rightarrow> [t] | _ \<Rightarrow> [])"

text \<open>The accepted tasks that have not run: the worker's, the queue's, the one being put.\<close>

definition waiting_tasks :: "('t, 'e) dispatcher \<Rightarrow> 't list" where
  "waiting_tasks s = in_worker (dp_worker s) @ List.map_filter (\<lambda>x. x) (dp_queue s) @ in_client (dp_client s)"

definition fifo_of :: "'t event list \<Rightarrow> ('t, 'e) dispatcher \<Rightarrow> ('t, 'e) fifo" where
  "fifo_of es s = \<lparr>ff_todo = waiting_tasks s, ff_done = executed es, ff_error = dp_error s\<rparr>"

fun first_error :: "('t \<Rightarrow> 'e option) \<Rightarrow> 't list \<Rightarrow> 'e option" where
  "first_error run [] = None"
| "first_error run (t # ts) = (case run t of Some e \<Rightarrow> Some e | None \<Rightarrow> first_error run ts)"

lemma first_error_snoc: "first_error run (ts @ [t]) = keep_first (first_error run ts) (run t)"
  by (induction ts) (auto simp: keep_first_def split: option.splits)

lemma first_error_member: "first_error run ts = Some e \<Longrightarrow> \<exists>t\<in>set ts. run t = Some e"
  by (induction ts) (auto split: option.splits)

lemma map_filter_snoc: "List.map_filter f (xs @ ys) = List.map_filter f xs @ List.map_filter f ys"
  by (induction xs) (auto simp: List.map_filter_simps split: option.splits)

lemmas event_lists = submitted_def executed_def map_filter_snoc List.map_filter_simps

section \<open>Invariant\<close>

definition busy :: "'t worker \<Rightarrow> int" where
  "busy w = (case w of Waiting \<Rightarrow> 0 | Running _ \<Rightarrow> 1 | Finishing \<Rightarrow> 1 | Stopped \<Rightarrow> 0)"

definition dispatch_inv :: "('t \<Rightarrow> 'e option) \<Rightarrow> 't event list \<Rightarrow> ('t, 'e) dispatcher \<Rightarrow> bool" where
  "dispatch_inv run es s \<longleftrightarrow>
     submitted es = executed es @ waiting_tasks s \<and>
     dp_error s = first_error run (executed es) \<and>
     dp_pending s = busy (dp_worker s) + int (length (List.map_filter (\<lambda>x. x) (dp_queue s))) + int (length (in_client (dp_client s))) \<and>
     (\<not> dp_closed s \<longrightarrow> None \<notin> set (dp_queue s) \<and> dp_worker s \<noteq> Stopped \<and> dp_client s \<notin> {ClosePutting, Joining}) \<and>
     (dp_closed s \<longrightarrow> in_client (dp_client s) = [] \<and> dp_client s \<noteq> CloseDraining \<and>
        (case dp_client s of
           ClosePutting \<Rightarrow> dp_queue s = [] \<and> dp_worker s = Waiting
         | Joining \<Rightarrow> (dp_queue s = [None] \<and> dp_worker s = Waiting) \<or> (dp_queue s = [] \<and> dp_worker s = Stopped)
         | _ \<Rightarrow> dp_queue s = [] \<and> dp_worker s = Stopped))"

lemma dispatch_inv_init: "dispatch_inv run [] dp_init"
  by (simp add: dispatch_inv_def dp_init_def event_lists waiting_tasks_def in_client_def in_worker_def busy_def)

lemma no_pending: "List.map_filter (\<lambda>x. x) q = [] \<Longrightarrow> None \<notin> set q \<Longrightarrow> q = []"
  by (cases q) (auto simp: List.map_filter_simps split: option.splits)

lemma dispatch_inv_step:
  assumes "dispatch_inv run es s" "dstep maxsize run s e s'"
  shows "dispatch_inv run (es @ [e]) s'"
  using assms(2)
proof cases
  case close_drained
  have p: "busy (dp_worker s) = 0" "List.map_filter (\<lambda>x. x) (dp_queue s) = []"
    using assms(1) close_drained by (auto simp: dispatch_inv_def busy_def in_client_def split: worker.splits)
  then have "dp_queue s = []" "dp_worker s = Waiting"
    using assms(1) close_drained no_pending [OF p(2)] by (auto simp: dispatch_inv_def busy_def split: worker.splits)
  then show ?thesis
    using assms(1) close_drained
    by (auto simp: dispatch_inv_def event_lists waiting_tasks_def in_client_def in_worker_def busy_def)
qed (use assms(1) in \<open>auto simp: dispatch_inv_def event_lists waiting_tasks_def in_client_def in_worker_def busy_def
      first_error_snoc [unfolded executed_def] split: client.splits\<close>)

lemma history_inv: "history maxsize run es s \<Longrightarrow> dispatch_inv run es s"
  by (induction rule: history.induct) (auto intro: dispatch_inv_init dispatch_inv_step)

section \<open>Properties\<close>

text \<open>
  C25: the threaded class refines the first-in first-out executor. With \<open>fifo_of\<close> reading a state
  as an executor (what waits in the worker, the queue and the pending \<open>put\<close>, in that order; what has
  run; the kept error), every step of either thread from a reachable state is a step of the
  executor or changes nothing it can see.
\<close>

theorem dispatcher_refines_fifo:
  assumes "history maxsize run es s" "dstep maxsize run s e s'"
  shows "fifo_step run (fifo_of es s) (fifo_of (es @ [e]) s')"
proof -
  note inv = history_inv [OF assms(1), unfolded dispatch_inv_def]
  from assms(2) show ?thesis
  proof cases
    case (submit t)
    have "dp_client s = Ready" using submit by simp
    then have "fifo_of (es @ [e]) s' = (fifo_of es s)\<lparr>ff_todo := ff_todo (fifo_of es s) @ [t]\<rparr>"
      using submit by (simp add: fifo_of_def waiting_tasks_def in_client_def event_lists)
    then show ?thesis by (metis fifo_step.accept)
  next
    case (ran t)
    have "ff_todo (fifo_of es s) = t # (List.map_filter (\<lambda>x. x) (dp_queue s) @ in_client (dp_client s))"
      using ran by (simp add: fifo_of_def waiting_tasks_def in_worker_def)
    moreover have "fifo_of (es @ [e]) s' = \<lparr>ff_todo = List.map_filter (\<lambda>x. x) (dp_queue s) @ in_client (dp_client s),
        ff_done = ff_done (fifo_of es s) @ [t], ff_error = keep_first (ff_error (fifo_of es s)) (run t)\<rparr>"
      using ran by (simp add: fifo_of_def waiting_tasks_def in_worker_def event_lists)
    ultimately show ?thesis by (metis fifo_step.execute)
  qed (use inv in \<open>auto simp: fifo_of_def waiting_tasks_def in_client_def in_worker_def event_lists intro: fifo_step.stutter\<close>)
qed

definition two_events :: "nat event list" where
  "two_events = [Submit 1, Put, Submit 2]"

lemma two_history:
  "\<exists>s. history 1 (\<lambda>t. if t = 1 then Some ''disk full'' else None) two_events s \<and> dp_client s = Putting 2 \<and> dp_queue s = [Some 1] \<and>
     dp_worker s = Waiting"
proof -
  let ?run = "\<lambda>t :: nat. if t = 1 then Some ''disk full'' else None"
  let ?a = "dp_init\<lparr>dp_pending := 1, dp_client := Putting 1\<rparr> :: (nat, string) dispatcher"
  let ?b = "?a\<lparr>dp_queue := [Some 1], dp_client := Ready\<rparr>"
  let ?c = "?b\<lparr>dp_pending := 2, dp_client := Putting 2\<rparr>"
  have sa: "dstep 1 ?run dp_init (Submit 1) ?a"
    using dstep.submit [of dp_init 1 ?run 1] by (simp add: dp_init_def)
  have sb: "dstep 1 ?run ?a Put ?b"
    using dstep.put [of ?a 1 1 ?run] by (simp add: dp_init_def has_room_def)
  have sc: "dstep 1 ?run ?b (Submit 2) ?c"
    using dstep.submit [of ?b 1 ?run 2] by (simp add: dp_init_def)
  have "history 1 ?run ((([] @ [Submit 1]) @ [Put]) @ [Submit 2]) ?c"
    by (rule history.step [OF history.step [OF history.step [OF history.new sa] sb] sc])
  then show ?thesis by (intro exI [of _ ?c]) (simp add: two_events_def dp_init_def)
qed

theorem dispatcher_refines_fifo_witness:
  "\<exists>s s' :: (nat, string) dispatcher. fifo_step (\<lambda>t. if t = 1 then Some ''disk full'' else None) (fifo_of two_events s) (fifo_of (two_events @ [Got]) s') \<and>
     ff_todo (fifo_of two_events s) = [1, 2]"
proof -
  let ?run = "\<lambda>t :: nat. if t = 1 then Some ''disk full'' else None"
  obtain s where s: "history 1 ?run two_events s" "dp_client s = Putting 2" "dp_queue s = [Some 1]" "dp_worker s = Waiting"
    using two_history by blast
  have "dstep 1 ?run s Got (s\<lparr>dp_queue := [], dp_worker := Running 1\<rparr>)" by (rule dstep.got) (use s in simp_all)
  note f = dispatcher_refines_fifo [OF s(1) this]
  have "ff_todo (fifo_of two_events s) = [1, 2]"
    using s by (simp add: fifo_of_def waiting_tasks_def in_worker_def in_client_def List.map_filter_simps)
  then show ?thesis using f by blast
qed



text \<open>The work left before the caller is ready again: every internal step does some.\<close>

definition internal :: "'t event \<Rightarrow> bool" where
  "internal e \<longleftrightarrow> (case e of Submit _ \<Rightarrow> False | SubmitRefused \<Rightarrow> False | DrainCall \<Rightarrow> False | CloseCall \<Rightarrow> False
     | CloseAgain \<Rightarrow> False | _ \<Rightarrow> True)"

definition work_left :: "('t, 'e) dispatcher \<Rightarrow> nat" where
  "work_left s = 4 * length (dp_queue s) +
     (case dp_worker s of Waiting \<Rightarrow> 1 | Running _ \<Rightarrow> 3 | Finishing \<Rightarrow> 2 | Stopped \<Rightarrow> 0) +
     (case dp_client s of Ready \<Rightarrow> 0 | Putting _ \<Rightarrow> 5 | Draining \<Rightarrow> 1 | CloseDraining \<Rightarrow> 8 | ClosePutting \<Rightarrow> 7 | Joining \<Rightarrow> 1)"

lemma worker_moves:
  assumes "dp_worker s \<noteq> Stopped" "dp_worker s = Waiting \<longrightarrow> dp_queue s \<noteq> []"
  shows "\<exists>e s'. dstep maxsize run s e s' \<and> internal e"
proof (cases "dp_worker s")
  case Waiting
  then obtain x q where q: "dp_queue s = x # q" using assms(2) by (cases "dp_queue s") auto
  show ?thesis
  proof (cases x)
    case None
    then show ?thesis using dstep.got_pill [OF Waiting] q by (intro exI conjI) (auto simp: internal_def)
  next
    case (Some t)
    then show ?thesis using dstep.got [OF Waiting] q by (intro exI conjI) (auto simp: internal_def)
  qed
next
  case (Running t)
  then show ?thesis using dstep.ran [OF Running] by (intro exI conjI) (auto simp: internal_def)
next
  case Finishing
  then show ?thesis using dstep.finished [OF Finishing] by (intro exI conjI) (auto simp: internal_def)
qed (use assms(1) in simp)

text \<open>A positive count is work the worker can do.\<close>

lemma pending_moves:
  assumes "dispatch_inv run es s" "0 < dp_pending s" "in_client (dp_client s) = []" "dp_client s = Draining \<or> dp_client s = CloseDraining"
  shows "\<exists>e s'. dstep maxsize run s e s' \<and> internal e"
proof (rule worker_moves)
  note inv = assms(1) [unfolded dispatch_inv_def]
  have closed: "dp_queue s = [] \<and> dp_worker s = Stopped" if "dp_closed s" using inv that assms(4) by auto
  show "dp_worker s \<noteq> Stopped"
  proof
    assume st: "dp_worker s = Stopped"
    then have "dp_queue s = []" using inv closed by blast
    then show False using inv st assms(2,3) by (auto simp: busy_def List.map_filter_simps)
  qed
  show "dp_worker s = Waiting \<longrightarrow> dp_queue s \<noteq> []"
    using inv assms(2,3) by (auto simp: busy_def List.map_filter_simps)
qed

lemma some_step:
  assumes "history maxsize run es s"
  shows "dp_client s = Ready \<or> (\<exists>e s'. dstep maxsize run s e s' \<and> internal e)"
proof -
  note inv = history_inv [OF assms, unfolded dispatch_inv_def]
  show ?thesis
  proof (cases "dp_client s")
    case (Putting t)
    then have open_: "\<not> dp_closed s" "dp_worker s \<noteq> Stopped" using inv by (auto simp: in_client_def)
    show ?thesis
    proof (cases "has_room maxsize (dp_queue s)")
      case True
      have "dstep maxsize run s Put (s\<lparr>dp_queue := dp_queue s @ [Some t], dp_client := Ready\<rparr>)" using Putting True by (rule dstep.put)
      then show ?thesis by (intro disjI2 exI conjI) (auto simp: internal_def)
    next
      case False
      then have "dp_queue s \<noteq> []" by (auto simp: has_room_def)
      then show ?thesis using worker_moves open_(2) by blast
    qed
  next
    case Draining
    show ?thesis
    proof (cases "0 < dp_pending s")
      case False
      have "dstep maxsize run s DrainReturn (s\<lparr>dp_client := Ready\<rparr>)" using Draining False by (rule dstep.drain_return)
      then show ?thesis by (intro disjI2 exI conjI) (auto simp: internal_def)
    next
      case True
      then show ?thesis using pending_moves [OF history_inv [OF assms]] Draining by (simp add: in_client_def)
    qed
  next
    case CloseDraining
    show ?thesis
    proof (cases "0 < dp_pending s")
      case False
      have "dstep maxsize run s CloseDrained (s\<lparr>dp_closed := True, dp_client := ClosePutting\<rparr>)"
        using CloseDraining False by (rule dstep.close_drained)
      then show ?thesis by (intro disjI2 exI conjI) (auto simp: internal_def)
    next
      case True
      then show ?thesis using pending_moves [OF history_inv [OF assms]] CloseDraining by (simp add: in_client_def)
    qed
  next
    case ClosePutting
    then have "dp_queue s = []" using inv by (cases "dp_closed s") auto
    then have "has_room maxsize (dp_queue s)" by (cases maxsize) (simp_all add: has_room_def)
    with ClosePutting have "dstep maxsize run s ClosePill (s\<lparr>dp_queue := dp_queue s @ [None], dp_client := Joining\<rparr>)" by (rule dstep.close_pill)
    then show ?thesis by (intro disjI2 exI conjI) (auto simp: internal_def)
  next
    case Joining
    then have "dp_closed s" using inv by auto
    then consider "dp_queue s = [None]" "dp_worker s = Waiting" | "dp_worker s = Stopped" using inv Joining by auto
    then show ?thesis
    proof cases
      case 1
      then show ?thesis using worker_moves [of s] by simp
    next
      case 2
      have "dstep maxsize run s CloseReturn (s\<lparr>dp_client := Ready\<rparr>)" using Joining 2 by (rule dstep.close_return)
      then show ?thesis by (intro disjI2 exI conjI) (auto simp: internal_def)
    qed
  qed simp
qed

lemma less_work: "dstep maxsize run s e s' \<Longrightarrow> internal e \<Longrightarrow> work_left s' < work_left s"
proof -
  assume "dstep maxsize run s e s'" "internal e"
  then show "work_left s' < work_left s"
    by cases (auto simp: work_left_def internal_def split: client.splits worker.splits)
qed

lemma reaches_ready: "history maxsize run es s \<Longrightarrow> \<exists>es' s'. list_all internal es' \<and> history maxsize run (es @ es') s' \<and> dp_client s' = Ready"
proof (induction "work_left s" arbitrary: es s rule: less_induct)
  case less
  show ?case
  proof (cases "dp_client s = Ready")
    case True
    then show ?thesis using less.prems by (intro exI [of _ "[]"] exI [of _ s]) simp
  next
    case False
    then obtain e s' where e: "dstep maxsize run s e s'" "internal e" using some_step [OF less.prems] by blast
    have "history maxsize run (es @ [e]) s'" using less.prems e(1) by (rule history.step)
    then obtain es' s'' where "list_all internal es'" "history maxsize run ((es @ [e]) @ es') s''" "dp_client s'' = Ready"
      using less.hyps [OF less_work [OF e]] by blast
    then show ?thesis using e(2) by (intro exI [of _ "e # es'"] exI [of _ s'']) simp
  qed
qed



end
