(* ===== verification/JaxOps.thy ===== *)
theory JaxOps
  imports LxPrelude
begin

text \<open>
  The JAX array operations the streamed passes use, on one axis: \<open>lax.dynamic_slice_in_dim\<close> and
  \<open>lax.dynamic_update_slice_in_dim\<close> (a negative start counts from the end, the start is then clamped so that
  the slice fits), \<open>jnp.arange\<close>, \<open>lax.fori_loop\<close> and \<open>lax.while_loop\<close>; and the reading of equal rows
  merged into one axis.
\<close>

section \<open>Slices at a runtime offset\<close>

definition dyn_start :: "nat \<Rightarrow> int \<Rightarrow> int \<Rightarrow> nat" where
  "dyn_start n len start = (let s = if start < 0 then start + int n else start in nat (max 0 (min s (int n - len))))"

definition dynamic_slice :: "'a list \<Rightarrow> int \<Rightarrow> int \<Rightarrow> 'a list" where
  "dynamic_slice xs start len = take (nat len) (drop (dyn_start (length xs) len start) xs)"

definition dynamic_update_slice :: "'a list \<Rightarrow> 'a list \<Rightarrow> int \<Rightarrow> 'a list" where
  "dynamic_update_slice xs upd start =
     (let c = dyn_start (length xs) (int (length upd)) start in take c xs @ upd @ drop (c + length upd) xs)"

definition arange :: "int \<Rightarrow> int list" where
  "arange n = [0..n - 1]"

lemma arange_nth [simp]: "i < nat n \<Longrightarrow> arange n ! i = int i"
  by (simp add: arange_def)

lemma length_arange [simp]: "length (arange n) = nat n"
  by (simp add: arange_def)

lemma dyn_start_in [simp]: "0 \<le> s \<Longrightarrow> s + len \<le> int n \<Longrightarrow> dyn_start n len s = nat s"
  by (simp add: dyn_start_def Let_def min_def max_def)

lemma length_dynamic_slice: "0 \<le> s \<Longrightarrow> 0 \<le> len \<Longrightarrow> s + len \<le> int (length xs) \<Longrightarrow> length (dynamic_slice xs s len) = nat len"
  by (auto simp: dynamic_slice_def)

lemma dynamic_slice_nth:
  "0 \<le> s \<Longrightarrow> s + len \<le> int (length xs) \<Longrightarrow> i < nat len \<Longrightarrow> dynamic_slice xs s len ! i = xs ! (nat s + i)"
  by (auto simp: dynamic_slice_def)

lemma length_dynamic_update_slice:
  "0 \<le> s \<Longrightarrow> s + int (length upd) \<le> int (length xs) \<Longrightarrow> length (dynamic_update_slice xs upd s) = length xs"
  by (auto simp: dynamic_update_slice_def Let_def)

lemma dynamic_update_slice_nth:
  assumes "0 \<le> s" "s + int (length upd) \<le> int (length xs)" "i < length xs"
  shows "dynamic_update_slice xs upd s ! i = (if nat s \<le> i \<and> i < nat s + length upd then upd ! (i - nat s) else xs ! i)"
  using assms by (auto simp: dynamic_update_slice_def Let_def nth_append min_def)

section \<open>Loops\<close>

text \<open>\<open>lax.fori_loop(0, n, body, x)\<close>.\<close>

definition fori_loop :: "nat \<Rightarrow> (nat \<Rightarrow> 'a \<Rightarrow> 'a) \<Rightarrow> 'a \<Rightarrow> 'a" where
  "fori_loop n body x = fold body [0..<n] x"

lemma fori_loop_0 [simp]: "fori_loop 0 body x = x"
  by (simp add: fori_loop_def)

lemma fori_loop_Suc [simp]: "fori_loop (Suc n) body x = body n (fori_loop n body x)"
  by (simp add: fori_loop_def)

text \<open>\<open>lax.while_loop(cond, body, x)\<close>: it may not return.\<close>

partial_function (option) while_loop :: "('a \<Rightarrow> bool) \<Rightarrow> ('a \<Rightarrow> 'a) \<Rightarrow> 'a \<Rightarrow> 'a option" where
  "while_loop c body x = (if c x then while_loop c body (body x) else Some x)"

lemma while_loop_from:
  "k \<le> n \<Longrightarrow> while_loop (\<lambda>(c, acc). c < n) (\<lambda>(c, acc). (Suc c, body c acc)) (k, x) = Some (n, fold body [k..<n] x)"
proof (induction "n - k" arbitrary: k x)
  case 0
  then show ?case by (subst while_loop.simps) simp
next
  case (Suc m)
  then have k: "k < n" by simp
  have "while_loop (\<lambda>(c, acc). c < n) (\<lambda>(c, acc). (Suc c, body c acc)) (k, x) =
      while_loop (\<lambda>(c, acc). c < n) (\<lambda>(c, acc). (Suc c, body c acc)) (Suc k, body k x)"
    using k by (subst while_loop.simps) simp
  also have "\<dots> = Some (n, fold body [Suc k..<n] (body k x))" using Suc(1) [of "Suc k"] Suc(2) k by simp
  also have "fold body [Suc k..<n] (body k x) = fold body [k..<n] x"
    using k by (subst (2) upt_conv_Cons) simp_all
  finally show ?case .
qed

lemma while_loop_count:
  "while_loop (\<lambda>(c, acc). c < n) (\<lambda>(c, acc). (Suc c, body c acc)) (0, x) = Some (n, fori_loop n body x)"
  using while_loop_from [of 0 n body x] by (simp add: fori_loop_def)

section \<open>Rows merged into one axis\<close>

lemma concat_rows_length: "\<forall>r\<in>set rs. length r = n \<Longrightarrow> length (concat rs) = length rs * n"
  by (induction rs) auto

lemma concat_rows_nth:
  "\<forall>r\<in>set rs. length r = n \<Longrightarrow> q < length rs \<Longrightarrow> j < n \<Longrightarrow> concat rs ! (q * n + j) = rs ! q ! j"
proof (induction rs arbitrary: q)
  case (Cons r rs)
  then show ?case
  proof (cases q)
    case (Suc p)
    have "concat (r # rs) ! (q * n + j) = concat rs ! (p * n + j)" using Cons.prems Suc by (simp add: nth_append)
    then show ?thesis using Cons Suc by simp
  qed (simp add: nth_append)
qed simp

lemma concat_rows_drop: "\<forall>r\<in>set rs. length r = n \<Longrightarrow> concat (drop a rs) = drop (a * n) (concat rs)"
proof (induction rs arbitrary: a)
  case (Cons r rs)
  then show ?case by (cases a) auto
qed simp

lemma concat_rows_take: "\<forall>r\<in>set rs. length r = n \<Longrightarrow> concat (take a rs) = take (a * n) (concat rs)"
proof (induction rs arbitrary: a)
  case (Cons r rs)
  then show ?case by (cases a) auto
qed simp

end
