(* ===== verification/RowWindows.thy ===== *)
theory RowWindows
  imports Tiles NumPyOps JaxOps
begin

text \<open>
  \<open>src/gw/subtile_stream.py\<close>, the planning half: the admissible row cuts (\<open>orbit_cuts\<close>), the equal
  orbit-aligned windows of a scanned pass loop (\<open>plan_windows\<close>), the pass plan, the segment layout
  and the host tables a window reads. The two loops of \<open>plan_windows\<close> advance to a data-dependent
  end and bisect a bound: they are partial functions here, and that they return is a theorem.

  \<open>round(rows / g)\<close> is Python's rounding (ties to even) of the exact quotient. \<open>lsrc\<close> is the
  table of merged sources, one row per k; a negative source is no source.
\<close>

section \<open>The code\<close>

subsection \<open>Admissible cuts\<close>

text \<open>The sources of local row \<open>b\<close> on every k, X shard and spin: \<open>-1\<close>, or the row read.\<close>

definition row_entries :: "int list list \<Rightarrow> nat \<Rightarrow> nat \<Rightarrow> nat \<Rightarrow> nat \<Rightarrow> int list" where
  "row_entries lsrc side ns rows b =
     concat (map (\<lambda>ks. concat (map (\<lambda>t. map (\<lambda>j. let v = ks ! ((t * rows + b) * ns + j) in if 0 \<le> v then v div int ns else - 1)
       [0..<ns]) [0..<side])) lsrc)"

definition orbit_cuts :: "int list list \<Rightarrow> nat \<Rightarrow> nat \<Rightarrow> nat list" where
  "orbit_cuts lsrc side ns =
     (let rows = length (lsrc ! 0) div (side * ns);
          hi = (\<lambda>b. Max (set (row_entries lsrc side ns rows b)));
          lo = (\<lambda>b. Min (set (map (\<lambda>r. if 0 \<le> r then r else int rows) (row_entries lsrc side ns rows b))));
          below = (\<lambda>b. Max (hi ` set [0..<Suc b]));
          above = (\<lambda>b. Min (lo ` set [b..<rows]))
      in filter (\<lambda>b. below (b - 1) < int b \<and> int b \<le> above b) [1..<rows])"

subsection \<open>Windows\<close>

definition py_round_div :: "int \<Rightarrow> int \<Rightarrow> int" where
  "py_round_div a b =
     (let q = a div b; r = a mod b in if 2 * r < b then q else if b < 2 * r then q + 1 else if even q then q else q + 1)"

text \<open>\<open>int(np.bincount(xs).argmax())\<close>: the first of the most frequent values.\<close>

definition most_common :: "int list \<Rightarrow> int" where
  "most_common xs = (let c = np_bincount xs 0 in int (first_index (Max (set c)) c))"

definition np_diff :: "int list \<Rightarrow> int list" where
  "np_diff xs = map2 (\<lambda>a b. b - a) xs (tl xs)"

text \<open>The body of \<open>spans_within\<close>: the last cut within the target, else the next cut at all.\<close>

definition next_end :: "int list \<Rightarrow> int \<Rightarrow> int \<Rightarrow> int" where
  "next_end ends target start =
     (let fit = filter (\<lambda>c. start < c \<and> c \<le> start + target) ends
      in if fit \<noteq> [] then Max (set fit) else Min (set (filter (\<lambda>c. start < c) ends)))"

partial_function (option) span_loop :: "int list \<Rightarrow> int \<Rightarrow> int \<Rightarrow> (int \<times> int) list \<Rightarrow> int \<Rightarrow> (int \<times> int) list option" where
  "span_loop ends L target spans start =
     (if start < L then
        (let e = next_end ends target start
         in span_loop ends L target (spans @ [(start, e - start)]) e)
      else Some spans)"

definition spans_within :: "int list \<Rightarrow> int \<Rightarrow> int \<Rightarrow> (int \<times> int) list option" where
  "spans_within ends L target = span_loop ends L target [] 0"

definition widest :: "(int \<times> int) list \<Rightarrow> int" where
  "widest spans = Max (set (map snd spans))"

partial_function (option) narrow :: "int list \<Rightarrow> int \<Rightarrow> nat \<Rightarrow> int \<Rightarrow> int \<Rightarrow> int option" where
  "narrow ends L passes lo hi =
     (if lo < hi then
        (let mid = (lo + hi) div 2
         in Option.bind (spans_within ends L mid) (\<lambda>trial.
              if length trial \<le> passes \<and> widest trial \<le> mid then narrow ends L passes lo mid
              else narrow ends L passes (mid + 1) hi))
      else Some hi)"

type_synonym window = "int \<times> int \<times> int"

definition window_of :: "int \<Rightarrow> int \<Rightarrow> int \<times> int \<Rightarrow> window" where
  "window_of L R piece = (case piece of (x0, xr) \<Rightarrow> let s = min x0 (L - R) in (s, x0 - s, x0 - s + xr))"

definition plan_windows :: "int \<Rightarrow> real \<Rightarrow> int list \<Rightarrow> (int \<times> window list) option" where
  "plan_windows L row_bytes cuts =
     (let rows = tile_units row_bytes L 1; whole = (L, [(0, 0, L)]) in
      if L \<le> rows then Some whole
      else
        let ends = sort (remdups (L # cuts)) in
        if length ends = 1 then Some whole
        else
          let g = most_common (np_diff (0 # ends)) in
          Option.bind (spans_within ends L (g * max 1 (py_round_div rows g))) (\<lambda>spans.
            if length spans = 1 then Some whole
            else
              Option.bind (narrow ends L (length spans) (ceil_div L (int (length spans))) (widest spans)) (\<lambda>hi.
              Option.bind (spans_within ends L hi) (\<lambda>spans'.
                let R = widest spans' in Some (R, map (window_of L R) spans')))))"

subsection \<open>The plan, its segments and the tables of a window\<close>

record block =
  bk_m0 :: int
  bk_n0 :: int
  bk_extents :: "(int \<times> int \<times> int \<times> int) option"

record pass_plan =
  pp_passes :: "(int \<times> int) list"
  pp_chunk :: int
  pp_rows :: int
  pp_windows :: "window list"
  pp_blocks :: "block list"

definition plan_passes ::
    "int list list \<Rightarrow> nat \<Rightarrow> nat \<Rightarrow> (int \<Rightarrow> real) \<Rightarrow> real \<Rightarrow> int \<Rightarrow> block list \<Rightarrow> pass_plan option" where
  "plan_passes lsrc side ns row_bytes chunk_bytes n_nodes blocks =
     (let local_rows = int (length (lsrc ! 0) div (side * ns));
          chunk = tile_units chunk_bytes n_nodes 1 in
      Option.bind (plan_windows local_rows (row_bytes chunk) (map int (orbit_cuts lsrc side ns))) (\<lambda>(R, win).
        Some \<lparr>pp_passes = map (\<lambda>(s, lo, hi). (s + lo, hi - lo)) win, pp_chunk = chunk, pp_rows = R,
              pp_windows = win, pp_blocks = blocks\<rparr>))"

text \<open>
  \<open>window_load\<close> on one X shard and one k: the sources of the window's slots, moved to the window,
  \<open>-1\<close> outside its live rows, and the phases cut the same way; and the window of a shard's local rows,
  the rows outside \<open>live\<close> replaced by the zero row.
\<close>

definition window_sources :: "int list \<Rightarrow> int \<Rightarrow> int \<Rightarrow> int \<Rightarrow> int \<Rightarrow> int \<Rightarrow> int list" where
  "window_sources lsrc ns s lo hi R =
     (let width = R * ns; rows = dynamic_slice lsrc (s * ns) width;
          live = map (\<lambda>i. lo \<le> i div ns \<and> i div ns < hi) (arange width)
      in map2 (\<lambda>r l. if 0 \<le> r \<and> l then r - s * ns else - 1) rows live)"

definition window_load :: "int list \<Rightarrow> 'p list \<Rightarrow> int \<Rightarrow> int \<Rightarrow> int \<Rightarrow> int \<Rightarrow> int \<Rightarrow> int list \<times> 'p list" where
  "window_load lsrc mph s lo hi R ns = (window_sources lsrc ns s lo hi R, dynamic_slice mph (s * ns) (R * ns))"

definition window_rows :: "'a \<Rightarrow> 'a list \<Rightarrow> int \<Rightarrow> int \<Rightarrow> (int \<times> int) option \<Rightarrow> 'a list" where
  "window_rows z a s R live =
     (let t = dynamic_slice a s R
      in case live of None \<Rightarrow> t
         | Some (lo, hi) \<Rightarrow> map2 (\<lambda>k v. if lo \<le> k \<and> k < hi then v else z) (arange R) t)"

text \<open>The typed load: slot \<open>i\<close> reads its source, a slot with none reads an exact zero.\<close>

definition load_slot :: "'a::zero list \<Rightarrow> int list \<Rightarrow> int \<Rightarrow> 'a" where
  "load_slot xs src i = (if 0 \<le> src ! nat i then xs ! nat (src ! nat i) else 0)"

section \<open>Greedy spans\<close>

text \<open>Cuts as the planner sees them: ascending, positive, the last one the row count.\<close>

definition cuts_ok :: "int list \<Rightarrow> int \<Rightarrow> bool" where
  "cuts_ok ends L \<longleftrightarrow> L \<in> set ends \<and> (\<forall>c\<in>set ends. 0 < c \<and> c \<le> L)"

lemma next_end_facts:
  assumes "cuts_ok ends L" "start < L"
  shows "next_end ends t start \<in> set ends" "start < next_end ends t start" "next_end ends t start \<le> L"
    "next_end ends t start \<le> start + t \<or> (\<forall>c\<in>set ends. start < c \<longrightarrow> next_end ends t start \<le> c)"
    "c \<in> set ends \<Longrightarrow> start < c \<Longrightarrow> c \<le> start + t \<Longrightarrow> c \<le> next_end ends t start \<and> next_end ends t start \<le> start + t"
proof -
  let ?fit = "filter (\<lambda>c. start < c \<and> c \<le> start + t) ends" and ?later = "filter (\<lambda>c. start < c) ends"
  have later: "L \<in> set ?later" using assms by (simp add: cuts_ok_def)
  have e: "next_end ends t start = (if ?fit \<noteq> [] then Max (set ?fit) else Min (set ?later))" by (simp add: next_end_def Let_def)
  have m: "(?fit \<noteq> [] \<and> next_end ends t start \<in> set ?fit \<and> (\<forall>c\<in>set ?fit. c \<le> next_end ends t start)) \<or>
      (?fit = [] \<and> next_end ends t start \<in> set ?later \<and> (\<forall>c\<in>set ?later. next_end ends t start \<le> c))"
  proof (cases "?fit = []")
    case True
    have "set ?later \<noteq> {}" using later by (metis empty_iff)
    then show ?thesis using True Min_in [of "set ?later"] Min_le [of "set ?later"] unfolding e by simp
  next
    case False
    then have "set ?fit \<noteq> {}" by (metis set_empty)
    then show ?thesis using False Max_in [of "set ?fit"] Max_ge [of "set ?fit"] unfolding e by simp
  qed
  show "next_end ends t start \<in> set ends" "start < next_end ends t start" using m by auto
  then show "next_end ends t start \<le> L" using assms(1) by (simp add: cuts_ok_def)
  show "next_end ends t start \<le> start + t \<or> (\<forall>c\<in>set ends. start < c \<longrightarrow> next_end ends t start \<le> c)" using m by auto
  assume c: "c \<in> set ends" "start < c" "c \<le> start + t"
  then have "c \<in> set ?fit" by simp
  then show "c \<le> next_end ends t start \<and> next_end ends t start \<le> start + t" using m by (metis empty_iff list.set(1) mem_Collect_eq set_filter)
qed

function greedy :: "int list \<Rightarrow> int \<Rightarrow> int \<Rightarrow> int \<Rightarrow> (int \<times> int) list" where
  "greedy ends L t start =
     (if cuts_ok ends L \<and> start < L then (start, next_end ends t start - start) # greedy ends L t (next_end ends t start) else [])"
  by pat_completeness auto
termination
  by (relation "measure (\<lambda>(ends, L, t, start). nat (L - start))") (use next_end_facts(2) in fastforce)+

declare greedy.simps [simp del]

lemma span_loop_greedy:
  "cuts_ok ends L \<Longrightarrow> span_loop ends L t acc start = Some (acc @ greedy ends L t start)"
proof (induction ends L t start arbitrary: acc rule: greedy.induct)
  case (1 ends L t start)
  show ?case
  proof (cases "start < L")
    case True
    have "span_loop ends L t acc start = span_loop ends L t (acc @ [(start, next_end ends t start - start)]) (next_end ends t start)"
      using True by (subst span_loop.simps) (simp add: Let_def)
    also have "\<dots> = Some ((acc @ [(start, next_end ends t start - start)]) @ greedy ends L t (next_end ends t start))"
      using 1 True by blast
    also have "(acc @ [(start, next_end ends t start - start)]) @ greedy ends L t (next_end ends t start) = acc @ greedy ends L t start"
      using True "1.prems" by (subst (2) greedy.simps) simp
    finally show ?thesis .
  next
    case False
    then show ?thesis by (subst span_loop.simps, subst greedy.simps) simp
  qed
qed

lemma spans_within_greedy: "cuts_ok ends L \<Longrightarrow> spans_within ends L t = Some (greedy ends L t 0)"
  using span_loop_greedy [of ends L t "[]" 0] by (simp add: spans_within_def)

text \<open>A cut plan: ascending cuts from a start to the row count, no gap wider than \<open>t\<close>.\<close>

fun cut_plan :: "int list \<Rightarrow> int \<Rightarrow> int \<Rightarrow> int \<Rightarrow> int list \<Rightarrow> bool" where
  "cut_plan ends L t start [] \<longleftrightarrow> start = L"
| "cut_plan ends L t start (e # es) \<longleftrightarrow> e \<in> set ends \<and> start < e \<and> e - start \<le> t \<and> cut_plan ends L t e es"

lemma greedy_walk:
  "cuts_ok ends L \<Longrightarrow> start \<le> L \<Longrightarrow>
   walk start L (map (\<lambda>(x, n). (x, x + n)) (greedy ends L t start)) \<and> (\<forall>(x, n)\<in>set (greedy ends L t start). x + n \<in> set ends)"
proof (induction ends L t start rule: greedy.induct)
  case (1 ends L t start)
  show ?case
  proof (cases "start < L")
    case True
    note n = next_end_facts(1-3) [OF "1.prems"(1) True, of t]
    have "walk (next_end ends t start) L (map (\<lambda>(x, n). (x, x + n)) (greedy ends L t (next_end ends t start))) \<and>
        (\<forall>(x, n)\<in>set (greedy ends L t (next_end ends t start)). x + n \<in> set ends)"
      using "1.IH" "1.prems" True n(3) by blast
    then show ?thesis using True "1.prems" n by (subst greedy.simps, subst (2) greedy.simps) simp
  next
    case False
    then show ?thesis using "1.prems" by (subst greedy.simps, subst (2) greedy.simps) simp
  qed
qed

text \<open>Greedy stays ahead: no cut plan with gaps within the target has fewer pieces.\<close>

lemma greedy_ahead:
  "cuts_ok ends L \<Longrightarrow> cut_plan ends L t start' es \<Longrightarrow> start' \<le> start \<Longrightarrow> start \<le> L \<Longrightarrow>
   length (greedy ends L t start) \<le> length es \<and> (\<forall>(x, n)\<in>set (greedy ends L t start). n \<le> t)"
proof (induction es arbitrary: start' start)
  case Nil
  then show ?case by (subst greedy.simps, subst (2) greedy.simps) simp
next
  case (Cons e es)
  show ?case
  proof (cases "start < L")
    case False
    then show ?thesis by (subst greedy.simps, subst (2) greedy.simps) simp
  next
    case True
    show ?thesis
    proof (cases "e \<le> start")
      case True
      then show ?thesis using Cons.IH [of e start] Cons.prems by auto
    next
      case False
      have ahead: "e \<le> next_end ends t start" "next_end ends t start \<le> start + t"
        using next_end_facts(5) [OF Cons.prems(1) True, of e t] Cons.prems(2,3) False by auto
      note n = next_end_facts(1-3) [OF Cons.prems(1) True, of t]
      have "length (greedy ends L t (next_end ends t start)) \<le> length es \<and> (\<forall>(x, n)\<in>set (greedy ends L t (next_end ends t start)). n \<le> t)"
        using Cons.IH [of e "next_end ends t start"] Cons.prems(1,2) ahead(1) n(3) by simp
      then show ?thesis using True Cons.prems(1) ahead(2) by (subst greedy.simps, subst (2) greedy.simps) auto
    qed
  qed
qed

lemma greedy_plan:
  "cuts_ok ends L \<Longrightarrow> start \<le> L \<Longrightarrow> (\<forall>(x, n)\<in>set (greedy ends L t start). n \<le> m) \<Longrightarrow>
   cut_plan ends L m start (map (\<lambda>(x, n). x + n) (greedy ends L t start))"
proof (induction ends L t start rule: greedy.induct)
  case (1 ends L t start)
  show ?case
  proof (cases "start < L")
    case True
    note n = next_end_facts(1-3) [OF "1.prems"(1) True, of t]
    have step: "greedy ends L t start = (start, next_end ends t start - start) # greedy ends L t (next_end ends t start)"
      using True "1.prems" by (subst greedy.simps) simp
    have "cut_plan ends L m (next_end ends t start) (map (\<lambda>(x, n). x + n) (greedy ends L t (next_end ends t start)))"
      using "1.IH" "1.prems" True n(3) step by auto
    then show ?thesis using "1.prems"(3) n step by simp
  next
    case False
    then show ?thesis using "1.prems" by (subst greedy.simps) simp
  qed
qed

definition feasible :: "int list \<Rightarrow> int \<Rightarrow> nat \<Rightarrow> int \<Rightarrow> bool" where
  "feasible ends L passes m \<longleftrightarrow> (\<exists>es. cut_plan ends L m 0 es \<and> length es \<le> passes)"

lemma cut_plan_mono: "cut_plan ends L t start es \<Longrightarrow> t \<le> m \<Longrightarrow> cut_plan ends L m start es"
  by (induction es arbitrary: start) auto

lemma cut_plan_total: "cut_plan ends L t start es \<Longrightarrow> L - start \<le> int (length es) * t"
proof (induction es arbitrary: start)
  case (Cons e es)
  then show ?case by (auto simp: algebra_simps) (smt (verit, best))
qed simp

lemma widest_le: "spans \<noteq> [] \<Longrightarrow> widest spans \<le> m \<longleftrightarrow> (\<forall>(x, n)\<in>set spans. n \<le> m)"
  by (auto simp: widest_def)

lemma widest_mem: "spans \<noteq> [] \<Longrightarrow> \<exists>x. (x, widest spans) \<in> set spans"
proof -
  assume "spans \<noteq> []"
  then have "widest spans \<in> snd ` set spans" unfolding widest_def using Max_in [of "set (map snd spans)"] by simp
  then show ?thesis by (metis imageE prod.collapse)
qed

lemma greedy_nonempty: "cuts_ok ends L \<Longrightarrow> 0 < L \<Longrightarrow> greedy ends L t 0 \<noteq> []"
  by (subst greedy.simps) simp

text \<open>The bisection's test decides feasibility.\<close>

lemma test_feasible:
  assumes "cuts_ok ends L" "0 < L"
  shows "length (greedy ends L m 0) \<le> passes \<and> widest (greedy ends L m 0) \<le> m \<longleftrightarrow> feasible ends L passes m"
proof
  assume t: "length (greedy ends L m 0) \<le> passes \<and> widest (greedy ends L m 0) \<le> m"
  then have "\<forall>(x, n)\<in>set (greedy ends L m 0). n \<le> m" using widest_le greedy_nonempty [OF assms] by blast
  then have "cut_plan ends L m 0 (map (\<lambda>(x, n). x + n) (greedy ends L m 0))" using greedy_plan [OF assms(1)] assms(2) by simp
  then show "feasible ends L passes m" using t unfolding feasible_def by (metis length_map)
next
  assume "feasible ends L passes m"
  then obtain es where es: "cut_plan ends L m 0 es" "length es \<le> passes" by (auto simp: feasible_def)
  have "length (greedy ends L m 0) \<le> length es \<and> (\<forall>(x, n)\<in>set (greedy ends L m 0). n \<le> m)"
    using greedy_ahead [OF assms(1) es(1), of 0] assms(2) by simp
  then show "length (greedy ends L m 0) \<le> passes \<and> widest (greedy ends L m 0) \<le> m"
    using es(2) widest_le [OF greedy_nonempty [OF assms]] by force
qed

lemma narrow_least:
  assumes "cuts_ok ends L" "0 < L" "lo \<le> hi" "feasible ends L passes hi" "\<forall>m<lo. \<not> feasible ends L passes m"
  shows "\<exists>r. narrow ends L passes lo hi = Some r \<and> feasible ends L passes r \<and> (\<forall>m<r. \<not> feasible ends L passes m)"
  using assms(3-5)
proof (induction "nat (hi - lo)" arbitrary: lo hi rule: less_induct)
  case less
  show ?case
  proof (cases "lo < hi")
    case False
    then have "lo = hi" using less.prems by simp
    then show ?thesis using less.prems by (subst narrow.simps) simp
  next
    case True
    let ?mid = "(lo + hi) div 2"
    have mid: "lo \<le> ?mid" "?mid < hi" using True by auto
    have run: "narrow ends L passes lo hi = (if feasible ends L passes ?mid then narrow ends L passes lo ?mid else narrow ends L passes (?mid + 1) hi)"
      using True test_feasible [OF assms(1,2), of ?mid passes]
      by (subst narrow.simps) (simp add: Let_def spans_within_greedy [OF assms(1)])
    show ?thesis
    proof (cases "feasible ends L passes ?mid")
      case True
      then show ?thesis using less.hyps [of ?mid lo] less.prems mid run by simp
    next
      case False
      have mono: "\<not> feasible ends L passes m" if "m < ?mid + 1" for m
        using False that cut_plan_mono [of ends L m 0 _ ?mid] by (auto simp: feasible_def)
      then show ?thesis using less.hyps [of hi "?mid + 1"] less.prems mid run False by simp
    qed
  qed
qed

section \<open>What the planner returns\<close>

definition all_ends :: "int \<Rightarrow> int list \<Rightarrow> int list" where
  "all_ends L cuts = sort (remdups (L # cuts))"

lemma all_ends_ok: "1 \<le> L \<Longrightarrow> \<forall>c\<in>set cuts. 0 < c \<and> c < L \<Longrightarrow> cuts_ok (all_ends L cuts) L"
  by (auto simp: cuts_ok_def all_ends_def)

lemma feasible_lower:
  assumes "0 < L" "0 < passes" "feasible ends L passes m"
  shows "ceil_div L (int passes) \<le> m"
proof -
  obtain es where es: "cut_plan ends L m 0 es" "length es \<le> passes" using assms(3) by (auto simp: feasible_def)
  have tot: "L \<le> int (length es) * m" using cut_plan_total [OF es(1)] by simp
  then have "0 < m" using assms(1) by (metis linorder_not_le mult_nonneg_nonpos of_nat_0_le_iff order.strict_trans2)
  then have "int (length es) * m \<le> m * int passes" using es(2) by (simp add: mult.commute mult_left_mono)
  then show ?thesis using tot assms(2) ceil_div_le [of "int passes" L m] by simp
qed

definition good_spans :: "int list \<Rightarrow> int \<Rightarrow> int \<Rightarrow> (int \<times> int) list \<Rightarrow> bool" where
  "good_spans cuts L R spans \<longleftrightarrow>
     walk 0 L (map (\<lambda>(x, n). (x, x + n)) spans) \<and> (\<forall>(x, n)\<in>set spans. x + n \<in> insert L (set cuts) \<and> n \<le> R) \<and>
     R \<in> snd ` set spans \<and> R \<le> L \<and>
     (\<forall>m es. cut_plan (all_ends L cuts) L m 0 es \<and> length es \<le> length spans \<longrightarrow> R \<le> m)"

lemma good_whole: "1 \<le> L \<Longrightarrow> good_spans cuts L L [(0, L)]"
proof -
  assume L: "1 \<le> L"
  have "L \<le> m" if "cut_plan ends L m 0 es" "length es \<le> 1" for ends m es
    using that L by (cases es; cases "tl es") auto
  then show ?thesis using L by (auto simp: good_spans_def)
qed

lemma good_greedy:
  assumes L: "1 \<le> L" and cuts: "\<forall>c\<in>set cuts. 0 < c \<and> c < L" and n: "0 < passes"
    and r: "feasible (all_ends L cuts) L passes r" "\<forall>m<r. \<not> feasible (all_ends L cuts) L passes m"
  defines "spans \<equiv> greedy (all_ends L cuts) L r 0"
  shows "widest spans = r" "good_spans cuts L r spans"
proof -
  note ok = all_ends_ok [OF L cuts]
  have ne: "spans \<noteq> []" unfolding spans_def by (rule greedy_nonempty [OF ok]) (use L in simp)
  have t: "length spans \<le> passes" "widest spans \<le> r"
    using test_feasible [OF ok, of r passes] r(1) L by (simp_all add: spans_def)
  have each: "\<forall>(x, n)\<in>set spans. n \<le> widest spans" using widest_le [OF ne, of "widest spans"] by simp
  have "feasible (all_ends L cuts) L passes (widest spans)"
    using greedy_plan [OF ok _ each [unfolded spans_def]] L t(1) unfolding feasible_def spans_def by (metis length_map order.trans zero_le_one)
  then show w: "widest spans = r" using r(2) t(2) by (metis order_le_less)
  have walk: "walk 0 L (map (\<lambda>(x, n). (x, x + n)) spans)" "\<forall>(x, n)\<in>set spans. x + n \<in> set (all_ends L cuts)"
    using greedy_walk [OF ok, of 0 r] L by (simp_all add: spans_def)
  obtain x where x: "(x, r) \<in> set spans" using widest_mem [OF ne] w by auto
  then have "(x, x + r) \<in> set (map (\<lambda>(x, n). (x, x + n)) spans)" by force
  then have "r \<le> L" using walk_block [OF walk(1)] by fastforce
  moreover have "r \<in> snd ` set spans" using x by force
  moreover have "set (all_ends L cuts) = insert L (set cuts)" by (auto simp: all_ends_def)
  moreover have "r \<le> m" if "cut_plan (all_ends L cuts) L m 0 es" "length es \<le> length spans" for m es
    using that r(2) t(1) unfolding feasible_def by (metis linorder_not_le order.trans)
  ultimately show "good_spans cuts L r spans" using walk each w unfolding good_spans_def by auto
qed

lemma plan_windows_run:
  assumes L: "1 \<le> L" and cuts: "\<forall>c\<in>set cuts. 0 < c \<and> c < L"
  shows "\<exists>R spans. plan_windows L row_bytes cuts = Some (R, map (window_of L R) spans) \<and> good_spans cuts L R spans"
proof -
  let ?ends = "all_ends L cuts" and ?rows = "tile_units row_bytes L 1"
  note ok = all_ends_ok [OF L cuts]
  have whole: "\<exists>R spans. Some (L, [(0, 0, L)]) = Some (R, map (window_of L R) spans) \<and> good_spans cuts L R spans"
    using good_whole [OF L] by (intro exI [of _ L] exI [of _ "[(0, L)]"]) (simp add: window_of_def)
  show ?thesis
  proof (cases "L \<le> ?rows \<or> length ?ends = 1")
    case True
    have "plan_windows L row_bytes cuts = Some (L, [(0, 0, L)])"
      using True unfolding plan_windows_def Let_def all_ends_def [symmetric] by (cases "L \<le> ?rows") simp_all
    then show ?thesis using whole by simp
  next
    case False
    define t where "t = most_common (np_diff (0 # ?ends)) * max 1 (py_round_div ?rows (most_common (np_diff (0 # ?ends))))"
    let ?spans = "greedy ?ends L t 0"
    have run: "plan_windows L row_bytes cuts = (if length ?spans = 1 then Some (L, [(0, 0, L)])
        else Option.bind (narrow ?ends L (length ?spans) (ceil_div L (int (length ?spans))) (widest ?spans)) (\<lambda>hi.
          Some (widest (greedy ?ends L hi 0), map (window_of L (widest (greedy ?ends L hi 0))) (greedy ?ends L hi 0))))"
      using False unfolding plan_windows_def Let_def all_ends_def [symmetric] t_def by (simp add: spans_within_greedy [OF ok])
    show ?thesis
    proof (cases "length ?spans = 1")
      case True
      then show ?thesis using run whole by simp
    next
      case False
      have ne: "?spans \<noteq> []" by (rule greedy_nonempty [OF ok]) (use L in simp)
      then have n: "0 < length ?spans" by simp
      have each: "\<forall>(x, k)\<in>set ?spans. k \<le> widest ?spans" using widest_le [OF ne, of "widest ?spans"] by simp
      have hi: "feasible ?ends L (length ?spans) (widest ?spans)"
        using greedy_plan [OF ok _ each] L unfolding feasible_def by (metis length_map order_refl order.trans zero_le_one)
      have lo: "\<forall>m<ceil_div L (int (length ?spans)). \<not> feasible ?ends L (length ?spans) m"
        using feasible_lower [OF _ n, of L ?ends] L by (meson less_le_trans linorder_not_le zero_less_one)
      have le: "ceil_div L (int (length ?spans)) \<le> widest ?spans" using feasible_lower [OF _ n hi] L by simp
      from narrow_least [OF ok _ le hi lo] L obtain r where
        r: "narrow ?ends L (length ?spans) (ceil_div L (int (length ?spans))) (widest ?spans) = Some r"
          "feasible ?ends L (length ?spans) r" "\<forall>m<r. \<not> feasible ?ends L (length ?spans) m" by auto
      note g = good_greedy [OF L cuts n r(2,3)]
      show ?thesis
        using run False r(1) g by (intro exI [of _ r] exI [of _ "greedy ?ends L r 0"]) simp
    qed
  qed
qed

lemma window_geometry:
  assumes "good_spans cuts L R spans" "(x0, xr) \<in> set spans" "window_of L R (x0, xr) = (s, lo, hi)"
  shows "0 \<le> s" "s + R \<le> L" "0 \<le> lo" "lo < hi" "hi \<le> R" "s + lo = x0" "s + hi = x0 + xr"
proof -
  have "(x0, x0 + xr) \<in> set (map (\<lambda>(x, n). (x, x + n)) spans)" using assms(2) by force
  moreover have "walk 0 L (map (\<lambda>(x, n). (x, x + n)) spans)" using assms(1) by (simp add: good_spans_def)
  ultimately have b: "0 \<le> x0" "0 < xr" "x0 + xr \<le> L" using walk_block by fastforce+
  have R: "xr \<le> R" "R \<le> L" using assms(1,2) by (auto simp: good_spans_def)
  show "0 \<le> s" "s + R \<le> L" "0 \<le> lo" "lo < hi" "hi \<le> R" "s + lo = x0" "s + hi = x0 + xr"
    using assms(3) b R by (auto simp: window_of_def Let_def min_def split: if_splits)
qed

lemma walk_starts: "walk c L ((x, y) # bs) \<Longrightarrow> (a, b) \<in> set ((x, y) # bs) \<Longrightarrow> a = c \<or> a \<in> snd ` set ((x, y) # bs)"
proof (induction bs arbitrary: c x y)
  case (Cons z bs)
  then show ?case by (cases z) fastforce
qed auto

lemma good_spans_ends:
  assumes "good_spans cuts L R spans" "(x0, xr) \<in> set spans"
  shows "x0 + xr = L \<or> x0 + xr \<in> set cuts" "x0 = 0 \<or> x0 \<in> set cuts"
proof -
  let ?bs = "map (\<lambda>(x, n). (x, x + n)) spans"
  have g: "walk 0 L ?bs" "\<forall>(x, n)\<in>set spans. x + n \<in> insert L (set cuts)" using assms(1) by (auto simp: good_spans_def)
  then show "x0 + xr = L \<or> x0 + xr \<in> set cuts" using assms(2) by blast
  have m: "(x0, x0 + xr) \<in> set ?bs" using assms(2) by force
  then have "x0 = 0 \<or> x0 \<in> snd ` set ?bs" using walk_starts g(1) by (cases ?bs) fastforce+
  moreover have "x0 < L" using walk_block [OF g(1) m] by simp
  moreover have "y \<in> insert L (set cuts)" if "y \<in> snd ` set ?bs" for y using g(2) that by fastforce
  ultimately show "x0 = 0 \<or> x0 \<in> set cuts" by blast
qed

text \<open>The live spans of a window list: \<open>plan_passes\<close> keeps them as \<open>(first row, rows)\<close>.\<close>

definition live_spans :: "window list \<Rightarrow> (int \<times> int) list" where
  "live_spans ws = map (\<lambda>(s, lo, hi). (s + lo, s + hi)) ws"

lemma live_spans_walk: "good_spans cuts L R spans \<Longrightarrow> live_spans (map (window_of L R) spans) = map (\<lambda>(x, n). (x, x + n)) spans"
  by (auto simp: live_spans_def window_of_def Let_def)

text \<open>
  C31: the planner returns, and its windows tile the rows. Whatever the bytes per row, on cuts strictly
  inside the row range both loops end; every window lies inside the rows with its live part inside
  the window; the live parts are consecutive, start at row 0, end at the last row and break only at
  admissible cuts; and some window is full.
\<close>

theorem plan_windows_returns:
  assumes "1 \<le> L" "\<forall>c\<in>set cuts. 0 < c \<and> c < L"
  shows "\<exists>R ws. plan_windows L row_bytes cuts = Some (R, ws) \<and> walk 0 L (live_spans ws) \<and>
    (\<forall>(s, lo, hi)\<in>set ws. 0 \<le> s \<and> s + R \<le> L \<and> 0 \<le> lo \<and> lo < hi \<and> hi \<le> R \<and> s + hi \<in> insert L (set cuts)) \<and>
    (\<exists>(s, lo, hi)\<in>set ws. hi - lo = R)"
proof -
  from plan_windows_run [OF assms, of row_bytes] obtain R spans where
    p: "plan_windows L row_bytes cuts = Some (R, map (window_of L R) spans)" and g: "good_spans cuts L R spans" by blast
  show ?thesis
  proof (rule exI [of _ R], rule exI [of _ "map (window_of L R) spans"], intro conjI ballI)
    show "walk 0 L (live_spans (map (window_of L R) spans))" using g by (simp add: live_spans_walk [OF g] good_spans_def)
    fix w assume "w \<in> set (map (window_of L R) spans)"
    then obtain x0 xr where x: "(x0, xr) \<in> set spans" "w = window_of L R (x0, xr)" by auto
    obtain s lo hi where w: "w = (s, lo, hi)" by (cases w)
    then have at: "window_of L R (x0, xr) = (s, lo, hi)" using x(2) by simp
    have "x0 + xr \<in> insert L (set cuts)" using good_spans_ends(1) [OF g x(1)] by blast
    then show "case w of (s, lo, hi) \<Rightarrow> 0 \<le> s \<and> s + R \<le> L \<and> 0 \<le> lo \<and> lo < hi \<and> hi \<le> R \<and> s + hi \<in> insert L (set cuts)"
      using window_geometry [OF g x(1) at] w by simp
  next
    obtain x0 where x: "(x0, R) \<in> set spans" using g by (auto simp: good_spans_def)
    have "window_of L R (x0, R) \<in> set (map (window_of L R) spans)" using x by force
    moreover obtain s lo hi where w: "window_of L R (x0, R) = (s, lo, hi)" by (cases "window_of L R (x0, R)")
    moreover have "hi - lo = R" using window_geometry(6,7) [OF g x w] by simp
    ultimately show "\<exists>(s, lo, hi)\<in>set (map (window_of L R) spans). hi - lo = R" by (intro bexI [of _ "(s, lo, hi)"]) simp_all
  qed (rule p)
qed

theorem plan_windows_returns_witness:
  "\<exists>R ws. plan_windows 12 300000000 [4, 6, 10] = Some (R, ws) \<and> walk 0 12 (live_spans ws)"
  using plan_windows_returns [of 12 "[4, 6, 10]" 300000000] by auto

text \<open>
  the window is as short as the cuts allow at its pass count. Any plan that cuts the rows at
  admissible cuts into at most as many pieces has a piece at least as long as the window.
\<close>

theorem plan_windows_least:
  assumes "1 \<le> L" "\<forall>c\<in>set cuts. 0 < c \<and> c < L" "plan_windows L row_bytes cuts = Some (R, ws)"
    and "cut_plan (all_ends L cuts) L m 0 es" "length es \<le> length ws"
  shows "R \<le> m"
proof -
  obtain spans where "ws = map (window_of L R) spans" "good_spans cuts L R spans"
    using plan_windows_run [OF assms(1,2), of row_bytes] assms(3) by auto
  then show ?thesis using assms(4,5) unfolding good_spans_def by (metis length_map)
qed

theorem plan_windows_least_witness:
  "\<exists>R ws. plan_windows 12 300000000 [4, 6, 10] = Some (R, ws) \<and> (2 \<le> length ws \<longrightarrow> R \<le> 6)"
proof -
  have cuts: "\<forall>c\<in>set [4, 6, 10]. 0 < c \<and> c < (12 :: int)" by simp
  obtain R ws where p: "plan_windows 12 300000000 [4, 6, 10] = Some (R, ws)"
    using plan_windows_run [OF _ cuts, of 300000000] by auto
  have "cut_plan (all_ends 12 [4, 6, 10]) 12 6 0 [6, 12]" by (simp add: all_ends_def)
  then have "2 \<le> length ws \<longrightarrow> R \<le> 6" using plan_windows_least [OF _ cuts p] by fastforce
  then show ?thesis using p by blast
qed

section \<open>Reading through a window\<close>

lemma row_entries_mem:
  "ks \<in> set lsrc \<Longrightarrow> t < side \<Longrightarrow> j < ns \<Longrightarrow> v = ks ! ((t * rows + b) * ns + j) \<Longrightarrow>
   (if 0 \<le> v then v div int ns else - 1) \<in> set (row_entries lsrc side ns rows b)"
proof -
  assume h: "ks \<in> set lsrc" "t < side" "j < ns" "v = ks ! ((t * rows + b) * ns + j)"
  let ?f = "\<lambda>ks t j. let v = ks ! ((t * rows + b) * ns + j) in if 0 \<le> v then v div int ns else - 1"
  have "?f ks t j \<in> set (map (?f ks t) [0..<ns])" using h(3) by simp
  then have "?f ks t j \<in> set (concat (map (\<lambda>t. map (?f ks t) [0..<ns]) [0..<side]))" using h(2) by auto
  then have "?f ks t j \<in> set (row_entries lsrc side ns rows b)" unfolding row_entries_def using h(1) by fastforce
  then show ?thesis by (simp only: h(4) Let_def)
qed

text \<open>A cut separates the rows: no row on one side reads the other.\<close>

lemma orbit_cuts_separate:
  assumes b: "b \<in> set (orbit_cuts lsrc side ns)" and rows: "rows = length (lsrc ! 0) div (side * ns)"
    and at: "ks \<in> set lsrc" "t < side" "j < ns" "r < rows" "v = ks ! ((t * rows + r) * ns + j)" "0 \<le> v"
  shows "(r < b \<longrightarrow> v div int ns < int b) \<and> (b \<le> r \<longrightarrow> int b \<le> v div int ns)"
proof -
  let ?hi = "\<lambda>b. Max (set (row_entries lsrc side ns rows b))"
  let ?low = "\<lambda>b. set (map (\<lambda>r. if 0 \<le> r then r else int rows) (row_entries lsrc side ns rows b))"
  have cut: "0 < b" "b < rows" "Max (?hi ` set [0..<Suc (b - 1)]) < int b" "int b \<le> Min ((\<lambda>b. Min (?low b)) ` set [b..<rows])"
  proof -
    have "b \<in> set [1..<rows] \<and> Max (?hi ` set [0..<Suc (b - 1)]) < int b \<and> int b \<le> Min ((\<lambda>b. Min (?low b)) ` set [b..<rows])"
      using b unfolding orbit_cuts_def Let_def rows [symmetric] set_filter mem_Collect_eq .
    then show "0 < b" "b < rows" "Max (?hi ` set [0..<Suc (b - 1)]) < int b" "int b \<le> Min ((\<lambda>b. Min (?low b)) ` set [b..<rows])"
      by (simp_all only: set_upt atLeastLessThan_iff) linarith
  qed
  have mem: "v div int ns \<in> set (row_entries lsrc side ns rows r)" using row_entries_mem [OF at(1-3) at(5)] at(6) by simp
  have "0 \<le> v div int ns" using at(3,6) by (simp add: pos_imp_zdiv_nonneg_iff)
  then have low: "v div int ns \<in> ?low r" using mem by force
  show ?thesis
  proof (intro conjI impI)
    assume "r < b"
    have "v div int ns \<le> ?hi r" using mem by simp
    also have "\<dots> \<le> Max (?hi ` set [0..<Suc (b - 1)])" using \<open>r < b\<close> by (intro Max_ge) auto
    finally show "v div int ns < int b" using cut(3) by (rule le_less_trans)
  next
    assume "b \<le> r"
    have "int b \<le> Min ((\<lambda>b. Min (?low b)) ` set [b..<rows])" by (rule cut(4))
    also have "\<dots> \<le> Min (?low r)" using \<open>b \<le> r\<close> at(4) by (intro Min_le) auto
    also have "\<dots> \<le> v div int ns" using low by (intro Min_le) auto
    finally show "int b \<le> v div int ns" .
  qed
qed

lemma orbit_cuts_inside: "b \<in> set (orbit_cuts lsrc side ns) \<Longrightarrow> 0 < b \<and> b < length (lsrc ! 0) div (side * ns)"
  by (auto simp: orbit_cuts_def Let_def)

text \<open>The X shard \<open>t\<close> of one k's table, as \<open>shard_map\<close> hands it to \<open>window_load\<close>.\<close>

definition shard_sources :: "int list \<Rightarrow> nat \<Rightarrow> nat \<Rightarrow> nat \<Rightarrow> int list" where
  "shard_sources ks t rows ns = take (rows * ns) (drop (t * rows * ns) ks)"

lemma shard_sources_nth:
  "i < rows * ns \<Longrightarrow> length ks = side * rows * ns \<Longrightarrow> t < side \<Longrightarrow> shard_sources ks t rows ns ! i = ks ! (t * rows * ns + i)"
proof -
  assume i: "i < rows * ns" and len: "length ks = side * rows * ns" and t: "t < side"
  have "t * rows * ns + rows * ns \<le> side * rows * ns"
    using mult_le_mono1 [of "Suc t" side "rows * ns"] t by (simp add: mult.assoc algebra_simps)
  then have "t * rows * ns \<le> length ks" using len by linarith
  then show ?thesis using i by (simp add: shard_sources_def nth_drop)
qed

lemma div_bounds: "0 < n \<Longrightarrow> (x div n < k \<longleftrightarrow> x < k * n) \<and> (k \<le> x div n \<longleftrightarrow> k * n \<le> x)" for n x k :: int
proof -
  assume n: "0 < n"
  have x: "x = x div n * n + x mod n" "0 \<le> x mod n" "x mod n < n" using n by simp_all
  show ?thesis
  proof (cases "x div n < k")
    case True
    have "(x div n + 1) * n \<le> k * n" using True n by (intro mult_right_mono) simp_all
    then have "x div n * n + n \<le> k * n" by (simp only: distrib_right mult_1)
    then have "x < k * n" using x by linarith
    then show ?thesis using True by simp
  next
    case False
    then have "k * n \<le> x div n * n" using n by (intro mult_right_mono) simp_all
    then have "k * n \<le> x" using x by linarith
    then show ?thesis using False by simp
  qed
qed

lemma in_shard: "t < side \<Longrightarrow> t * rows * ns + rows * ns \<le> side * rows * ns" for t :: nat
  using mult_le_mono1 [of "Suc t" side "rows * ns"] by (simp add: algebra_simps)

lemma in_table: "t < side \<Longrightarrow> j < ns \<Longrightarrow> r < rows \<Longrightarrow> (t * rows + r) * ns + j < side * rows * ns" for t :: nat
proof -
  assume h: "t < side" "j < ns" "r < rows"
  have "t * rows + r < side * rows" using mult_le_mono1 [of "Suc t" side rows] h by simp
  then show ?thesis using mult_le_mono1 [of "Suc (t * rows + r)" "side * rows" ns] h by simp
qed

lemma window_sources_nth:
  assumes "0 \<le> s" "0 \<le> ns" "0 \<le> R" "(s + R) * ns \<le> int (length lsrc)" "0 \<le> i" "i < R * ns"
  shows "window_sources lsrc ns s lo hi R ! nat i =
    (let v = lsrc ! nat (s * ns + i) in if 0 \<le> v \<and> lo \<le> i div ns \<and> i div ns < hi then v - s * ns else - 1)"
proof -
  have b: "0 \<le> s * ns" "s * ns + R * ns \<le> int (length lsrc)" using assms by (simp_all add: algebra_simps)
  have "dynamic_slice lsrc (s * ns) (R * ns) ! nat i = lsrc ! (nat (s * ns) + nat i)"
    using b assms(5,6) by (intro dynamic_slice_nth) simp_all
  moreover have "nat (s * ns) + nat i = nat (s * ns + i)" using b(1) assms(5) by (simp add: nat_add_distrib)
  moreover have "length (dynamic_slice lsrc (s * ns) (R * ns)) = nat (R * ns)"
    using b assms(2,3) by (intro length_dynamic_slice) simp_all
  ultimately show ?thesis using assms(5,6) by (simp add: window_sources_def Let_def)
qed

text \<open>The rows of a window, merged with their spin components.\<close>

lemma window_rows_concat:
  assumes "\<forall>r\<in>set rows. length r = ns" "0 \<le> s" "0 \<le> R" "s + R \<le> int (length rows)"
    and "0 \<le> k" "k < R * int ns"
  shows "concat (window_rows z rows s R None) ! nat k = concat rows ! nat (s * int ns + k)"
proof -
  have "concat (window_rows z rows s R None) = concat (take (nat R) (drop (nat s) rows))"
    using assms(2-4) by (simp add: window_rows_def dynamic_slice_def)
  also have "\<dots> = take (nat R * ns) (concat (drop (nat s) rows))"
    using assms(1) by (intro concat_rows_take) (auto dest: in_set_dropD)
  also have "concat (drop (nat s) rows) = drop (nat s * ns) (concat rows)" by (rule concat_rows_drop [OF assms(1)])
  finally have w: "concat (window_rows z rows s R None) = take (nat R * ns) (drop (nat s * ns) (concat rows))" .
  have "nat k < nat R * ns" using assms(3,5,6) by (simp add: nat_less_iff)
  moreover have "nat s * ns \<le> length (concat rows)"
    using assms(2-4) concat_rows_length [OF assms(1)] by (simp only:) (intro mult_le_mono1; linarith)
  moreover have "nat s * ns + nat k = nat (s * int ns + k)" using assms(2,5) by (simp add: nat_add_distrib nat_mult_distrib)
  ultimately show ?thesis using w by (simp add: nth_drop)
qed

text \<open>What a window of a plan on the orbit cuts is: inside the rows, both ends of its live rows cuts.\<close>

lemma plan_window_ends:
  assumes "plan_passes lsrc side ns row_bytes chunk_bytes n_nodes blocks = Some plan" "n = length (lsrc ! 0) div (side * ns)" "1 \<le> n"
    and "(s, lo, hi) \<in> set (pp_windows plan)"
  shows "0 \<le> s \<and> s + pp_rows plan \<le> int n \<and> 0 \<le> lo \<and> lo < hi \<and> hi \<le> pp_rows plan"
    "s + hi = int n \<or> (\<exists>b\<in>set (orbit_cuts lsrc side ns). s + hi = int b)"
    "s + lo = 0 \<or> (\<exists>b\<in>set (orbit_cuts lsrc side ns). s + lo = int b)"
proof -
  let ?cuts = "map int (orbit_cuts lsrc side ns)" and ?R = "pp_rows plan"
  have L: "1 \<le> int n" and cuts: "\<forall>c\<in>set ?cuts. 0 < c \<and> c < int n" using assms(3) orbit_cuts_inside assms(2) by fastforce+
  obtain spans where win: "pp_windows plan = map (window_of (int n) ?R) spans" and g: "good_spans ?cuts (int n) ?R spans"
    using assms(1) plan_windows_run [OF L cuts, of "row_bytes (tile_units chunk_bytes n_nodes 1)"]
    by (auto simp: plan_passes_def Let_def assms(2) [symmetric])
  obtain x0 xr where x: "(x0, xr) \<in> set spans" "window_of (int n) ?R (x0, xr) = (s, lo, hi)" using assms(4) win by auto
  note geo = window_geometry [OF g x]
  then show "0 \<le> s \<and> s + pp_rows plan \<le> int n \<and> 0 \<le> lo \<and> lo < hi \<and> hi \<le> pp_rows plan" by blast
  show "s + hi = int n \<or> (\<exists>b\<in>set (orbit_cuts lsrc side ns). s + hi = int b)"
    "s + lo = 0 \<or> (\<exists>b\<in>set (orbit_cuts lsrc side ns). s + lo = int b)"
    using good_spans_ends [OF g x(1)] geo by auto
qed

text \<open>Slot \<open>i\<close> of a window is component \<open>i mod ns\<close> of row \<open>s + i div ns\<close>.\<close>

lemma window_slot:
  assumes "0 \<le> s" "1 \<le> ns" "0 \<le> i" "i < R * int ns" "s + R \<le> int n"
  shows "nat (s * int ns + i) = nat (s + i div int ns) * ns + nat (i mod int ns)" "nat (i mod int ns) < ns" "nat (s + i div int ns) < n"
    "0 \<le> i div int ns" "i div int ns < R"
proof -
  have n: "0 < int ns" using assms(2) by simp
  show R: "0 \<le> i div int ns" "i div int ns < R" using assms(3,4) n by (simp_all add: div_bounds)
  have "s * int ns + i = (s + i div int ns) * int ns + i mod int ns" by (simp add: algebra_simps)
  moreover have "int (nat (s + i div int ns)) = s + i div int ns" "int (nat (i mod int ns)) = i mod int ns" using assms(1) R n by simp_all
  ultimately have "s * int ns + i = int (nat (s + i div int ns) * ns + nat (i mod int ns))" by simp
  then show "nat (s * int ns + i) = nat (s + i div int ns) * ns + nat (i mod int ns)" by (simp only: nat_int)
  show "nat (i mod int ns) < ns" using n pos_mod_bound [of "int ns" i] by linarith
  show "nat (s + i div int ns) < n" using assms(1,5) R by linarith
qed

text \<open>No source of a live row leaves the window.\<close>

lemma live_source_inside:
  assumes "plan_passes lsrc side ns row_bytes chunk_bytes n_nodes blocks = Some plan" "n = length (lsrc ! 0) div (side * ns)" "1 \<le> n" "1 \<le> ns"
    and "(s, lo, hi) \<in> set (pp_windows plan)"
    and "ks \<in> set lsrc" "t < side" "j < ns" "lo \<le> r" "r < hi" "v = ks ! ((t * n + nat (s + r)) * ns + j)" "0 \<le> v" "v < int (n * ns)"
  shows "s * int ns \<le> v \<and> v < (s + pp_rows plan) * int ns"
proof -
  let ?n = "int ns"
  note win = plan_window_ends [OF assms(1-3,5)]
  have n: "0 < ?n" and row: "nat (s + r) < n" "int (nat (s + r)) = s + r" using assms(4,9,10) win(1) by auto
  have sep: "(nat (s + r) < b \<longrightarrow> v div ?n < int b) \<and> (b \<le> nat (s + r) \<longrightarrow> int b \<le> v div ?n)" if "b \<in> set (orbit_cuts lsrc side ns)" for b
    using orbit_cuts_separate [OF that assms(2,6-8) row(1) assms(11,12)] .
  have "0 \<le> v div ?n" using assms(12) n by (simp add: pos_imp_zdiv_nonneg_iff)
  moreover have "s + lo \<le> v div ?n" if "b \<in> set (orbit_cuts lsrc side ns)" "s + lo = int b" for b
    using sep [OF that(1)] that(2) row(2) assms(9) by auto
  ultimately have "s + lo \<le> v div ?n" using win(3) by auto
  moreover have "v div ?n < s + hi" if "b \<in> set (orbit_cuts lsrc side ns)" "s + hi = int b" for b
    using sep [OF that(1)] that(2) row(2) assms(10) by auto
  moreover have "v div ?n < int n" using assms(13) n by (simp add: div_bounds)
  ultimately have "s \<le> v div ?n" "v div ?n < s + pp_rows plan" using win by fastforce+
  then show ?thesis using n by (simp add: div_bounds)
qed

text \<open>
  C27: a pass reads through its window what the whole table reads. On every pass of a plan built on
  the orbit cuts of the table, on every k and X shard, a live slot of the window loads exactly the
  element the full table loads for its row, and a slot outside the live rows loads zero (no source
  of a live row leaves the window); every slot of the window keeps its row's phase.
\<close>

theorem window_load_exact:
  assumes "plan_passes lsrc side ns row_bytes chunk_bytes n_nodes blocks = Some plan"
    and "1 \<le> ns" "1 \<le> side" "\<forall>ks\<in>set lsrc. length ks = side * length rows * ns" "rows \<noteq> []" "\<forall>r\<in>set rows. length r = ns"
    and "ks \<in> set lsrc" "t < side" "\<forall>v\<in>set ks. v < int (length rows * ns)" "length mph = length rows * ns"
    and "(s, lo, hi) \<in> set (pp_windows plan)" "0 \<le> i" "i < pp_rows plan * int ns"
    and "window_load (shard_sources ks t (length rows) ns) mph s lo hi (pp_rows plan) (int ns) = (src, phase)"
  shows "load_slot (concat (window_rows z rows s (pp_rows plan) None)) src i =
      (if lo \<le> i div int ns \<and> i div int ns < hi
       then load_slot (concat rows) (shard_sources ks t (length rows) ns) (s * int ns + i) else 0) \<and>
    phase ! nat i = mph ! nat (s * int ns + i)"
proof -
  let ?src = "shard_sources ks t (length rows) ns" and ?R = "pp_rows plan" and ?n = "int ns"
  have "lsrc ! 0 \<in> set lsrc" using assms(7) by (cases lsrc) simp_all
  then have rows: "length rows = length (lsrc ! 0) div (side * ns)" "1 \<le> length rows"
    using assms(2-5) by (simp_all add: mult.commute mult.left_commute Suc_le_eq)
  note geo = plan_window_ends(1) [OF assms(1) rows assms(11)]
  have slot: "nat (s * ?n + i) = nat (s + i div ?n) * ns + nat (i mod ?n)" "nat (i mod ?n) < ns" "nat (s + i div ?n) < length rows"
    using window_slot [OF _ assms(2,12,13), of s "length rows"] geo by simp_all
  have len: "length ?src = length rows * ns"
    using in_shard [OF assms(8), of "length rows" ns] assms(4,7) by (auto simp: shard_sources_def min_def)
  define v where "v = ?src ! nat (s * ?n + i)"
  have "nat (s * ?n + i) < length rows * ns" using slot mult_le_mono1 [of "Suc (nat (s + i div ?n))" "length rows" ns] by simp
  then have v: "v = ks ! ((t * length rows + nat (s + i div ?n)) * ns + nat (i mod ?n))"
    using shard_sources_nth [of _ "length rows" ns ks side t] assms(4,7,8) slot(1) by (simp add: v_def algebra_simps)
  then have vk: "v < int (length rows * ns)" using in_table [OF assms(8) slot(2,3)] assms(4,7,9) by simp
  have fits: "(s + ?R) * ?n \<le> int (length rows) * ?n" using geo by (intro mult_right_mono) simp_all
  have src: "src ! nat i = (if 0 \<le> v \<and> lo \<le> i div ?n \<and> i div ?n < hi then v - s * ?n else - 1)"
    using window_sources_nth [of s ?n ?R ?src i lo hi] assms(12-14) geo fits len
    by (simp add: window_load_def v_def Let_def)
  have b: "0 \<le> s * ?n" "s * ?n + ?R * ?n \<le> int (length mph)" using geo fits assms(10) by (simp_all add: algebra_simps)
  have "phase ! nat i = mph ! (nat (s * ?n) + nat i)"
    using dynamic_slice_nth [OF b, of "nat i"] assms(12-14) by (auto simp: window_load_def)
  also have "nat (s * ?n) + nat i = nat (s * ?n + i)" using b(1) assms(12) by (simp only: nat_add_distrib)
  finally have phase: "phase ! nat i = mph ! nat (s * ?n + i)" .
  show ?thesis
  proof (cases "0 \<le> v \<and> lo \<le> i div ?n \<and> i div ?n < hi")
    case False
    then show ?thesis using src phase by (auto simp: load_slot_def v_def)
  next
    case True
    then have w: "0 \<le> v - s * ?n" "v - s * ?n < ?R * ?n"
      using live_source_inside [OF assms(1) rows assms(2,11,7,8) slot(2) _ _ v _ vk] by (simp_all add: algebra_simps)
    then have "concat (window_rows z rows s ?R None) ! nat (v - s * ?n) = concat rows ! nat v"
      using window_rows_concat [OF assms(6) _ _ _ w] geo by simp
    then show ?thesis using src phase True w by (simp add: load_slot_def v_def)
  qed
qed

text \<open>Four rows in two orbits, one row per tile: two windows of two rows.\<close>

lemma small_plan: "plan_windows 4 600000000 [2] = Some (2, [(0, 0, 2), (2, 0, 2)])"
proof -
  have e: "sort (remdups [4, 2]) = [2, 4 :: int]" "most_common (np_diff [0, 2, 4]) = 2" by code_simp+
  have b: "tile_units 600000000 4 1 = 1" by (simp add: tile_units_def TILE_BYTES_def Let_def floor_eq_iff)
  have w: "spans_within [2, 4] 4 2 = Some [(0, 2), (2, 2)]"
    by (simp add: spans_within_def span_loop.simps next_end_def Let_def)
  have n: "narrow [2, 4] 4 (Suc (Suc 0)) 2 2 = Some 2" by (subst narrow.simps) simp
  show ?thesis
    unfolding plan_windows_def Let_def e b
    by (simp add: e w n py_round_div_def Let_def widest_def ceil_div_def window_of_def)
qed

lemma small_passes:
  "plan_passes [[1, 0, 3, 2]] 1 1 (\<lambda>_. 600000000) 1 8 blocks = Some
     \<lparr>pp_passes = [(0, 2), (2, 2)], pp_chunk = tile_units 1 8 1, pp_rows = 2, pp_windows = [(0, 0, 2), (2, 0, 2)], pp_blocks = blocks\<rparr>"
proof -
  have o: "map int (orbit_cuts [[1, 0, 3, 2]] 1 1) = [2]" by code_simp
  have r: "int (length ([[1, 0, 3, 2 :: int]] ! 0) div (1 * 1)) = 4" by simp
  show ?thesis unfolding plan_passes_def Let_def o r small_plan by simp
qed

theorem window_load_exact_witness:
  "load_slot (concat (window_rows [] [[10], [20], [30], [40 :: int]] 2 2 None)) (fst (window_load (shard_sources [1, 0, 3, 2] 0 4 1) ''abcd'' 2 0 2 2 1)) 0 = 40 \<and>
   snd (window_load (shard_sources [1, 0, 3, 2] 0 4 1) ''abcd'' 2 0 2 2 1) ! 0 = CHR ''c''"
proof -
  obtain src phase where w: "window_load (shard_sources [1, 0, 3, 2] 0 4 1) ''abcd'' 2 0 2 2 1 = (src, phase)"
    by (cases "window_load (shard_sources [1, 0, 3, 2] 0 4 1) ''abcd'' 2 0 2 2 1")
  have n4: "length [[10], [20], [30], [40 :: int]] = 4" by simp
  have "load_slot (concat (window_rows [] [[10], [20], [30], [40 :: int]] 2 2 None)) src 0 =
      load_slot [10, 20, 30, 40] (shard_sources [1, 0, 3, 2] 0 4 1) 2 \<and> phase ! 0 = ''abcd'' ! 2"
    using window_load_exact [OF small_passes [of "[]"], of "[[10], [20], [30], [40 :: int]]" "[1, 0, 3, 2]" 0 "''abcd''" 2 0 2 0 src phase "[]",
        unfolded n4] w
    by simp
  then show ?thesis using w by (simp add: load_slot_def shard_sources_def)
qed

end
