(* ===== verification/StreamPasses.thy ===== *)
theory StreamPasses
  imports RowWindows
begin

text \<open>
  The streamed accumulation: \<open>src/gw/contour_accumulator.py\<close> (one device's in-place block accumulator) and the
  loops of \<open>src/gw/subtile_stream.py\<close> that run it over nodes, chunks, planes and windows
  (\<open>scan_passes\<close>, \<open>segment_blocks\<close>, \<open>stream_passes\<close>).

  Arrays are index functions with their extents; the q axis is a batch axis every operation maps over,
  so one q is written. Complex arithmetic is a parameter: \<open>add\<close> and \<open>mul\<close> are any two functions,
  so that an equation below is an equation of the rounded values, bit for bit.
\<close>

section \<open>The code\<close>

subsection \<open>The block accumulator\<close>

type_synonym 'a cube = "nat \<Rightarrow> nat \<Rightarrow> nat \<Rightarrow> 'a"

datatype accum_error = TermsNotWholeGroups

definition OUT_BLOCK :: nat where
  "OUT_BLOCK = 2"

definition cube_slice :: "nat \<times> nat \<times> nat \<Rightarrow> 'a cube \<Rightarrow> 'a cube" where
  "cube_slice start a = (case start of (s0, s1, s2) \<Rightarrow> \<lambda>i j k. a (s0 + i) (s1 + j) (s2 + k))"

definition cube_update :: "nat \<times> nat \<times> nat \<Rightarrow> nat \<times> nat \<times> nat \<Rightarrow> 'a cube \<Rightarrow> 'a cube \<Rightarrow> 'a cube" where
  "cube_update start shape upd a =
     (case (start, shape) of ((s0, s1, s2), (n0, n1, n2)) \<Rightarrow> \<lambda>i j k.
        if s0 \<le> i \<and> i < s0 + n0 \<and> s1 \<le> j \<and> j < s1 + n1 \<and> s2 \<le> k \<and> k < s2 + n2 then upd (i - s0) (j - s1) (k - s2) else a i j k)"

text \<open>
  \<open>contour_accumulator\<close>'s kernel: one term into every output. \<open>contour_block_accumulate_local\<close>: the
  accumulator of extents \<open>(n_out, M, N)\<close>, the terms \<open>(n_terms, bm, bn)\<close>.
\<close>

definition contour_accumulate :: "('a \<Rightarrow> 'a \<Rightarrow> 'a) \<Rightarrow> ('w \<Rightarrow> 'a \<Rightarrow> 'a) \<Rightarrow> 'a cube \<Rightarrow> (nat \<Rightarrow> nat \<Rightarrow> 'a) \<Rightarrow> (nat \<Rightarrow> 'w) \<Rightarrow> 'a cube" where
  "contour_accumulate add mul acc contribution projection =
     (\<lambda>i j k. add (acc i j k) (mul (projection i) (contribution j k)))"

definition accumulate_blocks ::
    "('a \<Rightarrow> 'a \<Rightarrow> 'a) \<Rightarrow> ('w \<Rightarrow> 'a \<Rightarrow> 'a) \<Rightarrow> nat \<times> nat \<times> nat \<Rightarrow> 'a cube \<Rightarrow> nat \<times> nat \<times> nat \<Rightarrow> 'a cube \<Rightarrow>
     (nat \<Rightarrow> nat \<Rightarrow> 'w) \<Rightarrow> int \<times> int \<Rightarrow> int \<Rightarrow> int \<Rightarrow> nat \<Rightarrow> nat option \<Rightarrow> int option \<Rightarrow> nat option \<Rightarrow> 'a cube" where
  "accumulate_blocks add mul acc_shape accumulator con_shape contribution projection valid m0 n0 sets terms outputs out_block =
     (case (acc_shape, con_shape, valid) of ((n_out, M, N), (n_terms, bm, bn), (vm, vn)) \<Rightarrow>
        let B = min (case out_block of None \<Rightarrow> OUT_BLOCK | Some b \<Rightarrow> b) n_out;
            groups = (case terms of None \<Rightarrow> n_terms div sets | Some t \<Rightarrow> (t + sets - 1) div sets);
            live_out = nat (case outputs of None \<Rightarrow> int n_out | Some u \<Rightarrow> max 0 (min u (int n_out)));
            n_blocks = (live_out + B - 1) div B;
            live = (\<lambda>j k. int j < vm \<and> int k < vn);
            n_groups = n_terms div sets;
            block_step = (\<lambda>b acc.
              let first = b * B;
                  o0 = min first (n_out - B);
                  start = (dyn_start n_out (int B) (int o0), dyn_start M (int bm) m0, dyn_start N (int bn) n0);
                  keep = (\<lambda>i j k. first \<le> o0 + i \<and> o0 + i < live_out \<and> live j k);
                  add_group = (\<lambda>g block.
                    let c = cube_slice (dyn_start n_terms (int sets) (int (g * sets)), 0, 0) contribution;
                        p = (\<lambda>s i. projection (dyn_start n_terms (int sets) (int (g * sets)) + s) (dyn_start n_out (int B) (int o0) + i));
                        new = fold (\<lambda>s new i j k. add (new i j k) (mul (p s i) (c s j k))) [0..<sets] block
                    in (\<lambda>i j k. if keep i j k \<and> g < groups then new i j k else block i j k))
              in cube_update start (B, bm, bn) (fori_loop n_groups add_group (cube_slice start acc)) acc)
        in fori_loop n_blocks block_step accumulator)"

definition contour_block_accumulate_local ::
    "('a \<Rightarrow> 'a \<Rightarrow> 'a) \<Rightarrow> ('w \<Rightarrow> 'a \<Rightarrow> 'a) \<Rightarrow> nat \<times> nat \<times> nat \<Rightarrow> 'a cube \<Rightarrow> nat \<times> nat \<times> nat \<Rightarrow> 'a cube \<Rightarrow>
     nat \<times> nat \<Rightarrow> (nat \<Rightarrow> nat \<Rightarrow> 'w) \<Rightarrow> int \<times> int \<Rightarrow> int \<Rightarrow> int \<Rightarrow> nat \<Rightarrow> nat option \<Rightarrow> int option \<Rightarrow> nat option \<Rightarrow>
     (accum_error, 'a cube) result" where
  "contour_block_accumulate_local add mul acc_shape accumulator con_shape contribution proj_shape projection valid m0 n0 sets terms outputs out_block =
     (if sets < 1 \<or> fst con_shape mod sets \<noteq> 0 \<or> proj_shape \<noteq> (fst con_shape, fst acc_shape) then Inl TermsNotWholeGroups
      else Inr (accumulate_blocks add mul acc_shape accumulator con_shape contribution projection valid m0 n0 sets terms outputs out_block))"

section \<open>What the block accumulator adds\<close>

text \<open>The terms \<open>a, a + 1, \<dots>\<close> of one element, left to right.\<close>

definition add_terms :: "('a \<Rightarrow> 'a \<Rightarrow> 'a) \<Rightarrow> ('w \<Rightarrow> 'a \<Rightarrow> 'a) \<Rightarrow> (nat \<Rightarrow> 'w) \<Rightarrow> (nat \<Rightarrow> 'a) \<Rightarrow> nat list \<Rightarrow> 'a \<Rightarrow> 'a" where
  "add_terms add mul p c ts x = fold (\<lambda>t x. add x (mul (p t) (c t))) ts x"

lemma fold_pointwise:
  "fold (\<lambda>s new i j k. add (new i j k) (mul (p s i) (c s j k))) ss block i j k =
   fold (\<lambda>s x. add x (mul (p s i) (c s j k))) ss (block i j k)"
  by (induction ss arbitrary: block) simp_all

lemma add_terms_shift:
  "fold (\<lambda>s x. add x (mul (p (a + s)) (c (a + s)))) [0..<n] x = add_terms add mul p c [a..<a + n] x"
  by (induction n) (simp_all add: add_terms_def)

lemma add_terms_append: "add_terms add mul p c (ts @ us) x = add_terms add mul p c us (add_terms add mul p c ts x)"
  by (simp add: add_terms_def)

lemma group_loop:
  assumes "0 < sets" "n_groups = n_terms div sets" "n_terms mod sets = 0" "m \<le> n_groups"
  shows "fori_loop m (\<lambda>g block.
      let c = cube_slice (dyn_start n_terms (int sets) (int (g * sets)), 0, 0) contribution;
          p = (\<lambda>s i. projection (dyn_start n_terms (int sets) (int (g * sets)) + s) (off + i));
          new = fold (\<lambda>s new i j k. add (new i j k) (mul (p s i) (c s j k))) [0..<sets] block
      in (\<lambda>i j k. if keep i j k \<and> g < groups then new i j k else block i j k)) block i j k =
    (if keep i j k then add_terms add mul (\<lambda>t. projection t (off + i)) (\<lambda>t. contribution t j k) [0..<min m groups * sets] (block i j k)
     else block i j k)"
  using assms(4)
proof (induction m)
  case 0
  then show ?case by (simp add: add_terms_def)
next
  case (Suc m)
  have n: "n_terms = n_groups * sets" using assms(1-3) by auto
  have "m * sets + sets \<le> n_terms" using mult_le_mono1 [of "Suc m" n_groups sets] Suc.prems n by simp
  then have "dyn_start n_terms (int sets) (int (m * sets)) = m * sets" by (subst dyn_start_in) (simp_all del: of_nat_mult)
  then have at: "dyn_start n_terms (int sets) (int m * int sets) = m * sets" by simp
  have split: "[0..<sets + m * sets] = [0..<m * sets] @ [m * sets..<m * sets + sets]"
    using upt_add_eq_append [of 0 "m * sets" sets] by (simp add: add.commute)
  show ?case
    using Suc by (auto simp: Let_def at cube_slice_def fold_pointwise add_terms_shift [where p = "\<lambda>t. projection t (off + i)" and c = "\<lambda>t. contribution t j k"]
        split add_terms_append [symmetric] min_def less_Suc_eq)
qed

lemma block_loop:
  assumes B: "0 < B" "B \<le> n_out" and fit: "m0 + bm \<le> M" "n0 + bn \<le> N" and u: "u \<le> n_out"
    and inner: "\<And>b blk i j k. inner b blk i j k =
      (if b * B \<le> min (b * B) (n_out - B) + i \<and> min (b * B) (n_out - B) + i < u \<and> live j k
       then f (min (b * B) (n_out - B) + i) j k (blk i j k) else blk i j k)"
    and o: "x < n_out" and m: "m \<le> (u + B - 1) div B"
  shows "fori_loop m (\<lambda>b acc. cube_update (dyn_start n_out (int B) (int (min (b * B) (n_out - B))), dyn_start M (int bm) (int m0), dyn_start N (int bn) (int n0))
      (B, bm, bn) (inner b (cube_slice (dyn_start n_out (int B) (int (min (b * B) (n_out - B))), dyn_start M (int bm) (int m0), dyn_start N (int bn) (int n0)) acc)) acc) A x j k =
    (if x < min (m * B) u \<and> m0 \<le> j \<and> j < m0 + bm \<and> n0 \<le> k \<and> k < n0 + bn \<and> live (j - m0) (k - n0)
     then f x (j - m0) (k - n0) (A x j k) else A x j k)"
  using m
proof (induction m)
  case 0
  then show ?case by simp
next
  case (Suc m)
  have at: "dyn_start n_out (int B) (int (min (b * B) (n_out - B))) = min (b * B) (n_out - B)" for b
    using B by (subst dyn_start_in) auto
  have at': "dyn_start M (int bm) (int m0) = m0" "dyn_start N (int bn) (int n0) = n0" using fit by simp_all
  have "m * B < u" using Suc.prems B(1) by (simp add: less_eq_div_iff_mult_less_eq)
  then have first: "m * B < n_out" using u by simp
  let ?o = "min (m * B) (n_out - B)" and ?in = "m0 \<le> j \<and> j < m0 + bm \<and> n0 \<le> k \<and> k < n0 + bn \<and> live (j - m0) (k - n0)"
  define acc where "acc = fori_loop m (\<lambda>b acc. cube_update (dyn_start n_out (int B) (int (min (b * B) (n_out - B))), dyn_start M (int bm) (int m0), dyn_start N (int bn) (int n0))
      (B, bm, bn) (inner b (cube_slice (dyn_start n_out (int B) (int (min (b * B) (n_out - B))), dyn_start M (int bm) (int m0), dyn_start N (int bn) (int n0)) acc)) acc) A"
  have "cube_update (?o, m0, n0) (B, bm, bn) (inner m (cube_slice (?o, m0, n0) acc)) acc x j k =
      (if m * B \<le> x \<and> ?o \<le> x \<and> x < ?o + B \<and> x < u \<and> ?in then f x (j - m0) (k - n0) (acc x j k) else acc x j k)"
    by (simp add: cube_update_def cube_slice_def inner)
  also have "(m * B \<le> x \<and> ?o \<le> x \<and> x < ?o + B \<and> x < u) = (m * B \<le> x \<and> x < Suc m * B \<and> x < u)"
    using o B by (auto simp: min_def)
  then have "(m * B \<le> x \<and> ?o \<le> x \<and> x < ?o + B \<and> x < u \<and> ?in) = (m * B \<le> x \<and> x < Suc m * B \<and> x < u \<and> ?in)" by blast
  finally have new: "cube_update (?o, m0, n0) (B, bm, bn) (inner m (cube_slice (?o, m0, n0) acc)) acc x j k =
      (if m * B \<le> x \<and> x < Suc m * B \<and> x < u \<and> ?in then f x (j - m0) (k - n0) (acc x j k) else acc x j k)" .
  have old: "acc x j k = (if x < min (m * B) u \<and> ?in then f x (j - m0) (k - n0) (A x j k) else A x j k)"
    using Suc.IH Suc.prems unfolding acc_def by (simp add: le_div_geq)
  have "m * B \<le> x \<or> x < min (m * B) u \<or> u \<le> x" by auto
  then show ?case unfolding fori_loop_Suc at at' using new old unfolding acc_def at at' by auto
qed

definition terms_added :: "nat \<Rightarrow> nat \<Rightarrow> nat option \<Rightarrow> nat" where
  "terms_added n_terms sets terms = (case terms of None \<Rightarrow> n_terms | Some t \<Rightarrow> min (n_terms div sets) ((t + sets - 1) div sets) * sets)"

lemma accumulate_blocks_at:
  assumes sets: "1 \<le> sets" "n_terms mod sets = 0" and ob: "out_block \<noteq> Some 0"
    and fit: "m0 + bm \<le> M" "n0 + bn \<le> N" and x: "x < n_out"
  shows "accumulate_blocks add mul (n_out, M, N) A (n_terms, bm, bn) C W (vm, vn) (int m0) (int n0) sets terms outputs out_block x j k =
    (if (case outputs of None \<Rightarrow> True | Some u \<Rightarrow> int x < u) \<and> m0 \<le> j \<and> j < m0 + bm \<and> n0 \<le> k \<and> k < n0 + bn \<and> int (j - m0) < vm \<and> int (k - n0) < vn
     then add_terms add mul (\<lambda>t. W t x) (\<lambda>t. C t (j - m0) (k - n0)) [0..<terms_added n_terms sets terms] (A x j k)
     else A x j k)"
proof -
  let ?B = "min (case out_block of None \<Rightarrow> OUT_BLOCK | Some b \<Rightarrow> b) n_out"
  let ?groups = "case terms of None \<Rightarrow> n_terms div sets | Some t \<Rightarrow> (t + sets - 1) div sets"
  let ?u = "nat (case outputs of None \<Rightarrow> int n_out | Some u \<Rightarrow> max 0 (min u (int n_out)))"
  have B: "0 < ?B" "?B \<le> n_out" using ob x by (auto simp: OUT_BLOCK_def split: option.splits)
  have u: "?u \<le> n_out" by (auto split: option.splits)
  have s: "0 < sets" using sets(1) by simp
  have start: "dyn_start n_out (int ?B) (int (min (b * ?B) (n_out - ?B))) = min (b * ?B) (n_out - ?B)" for b
    using B by (subst dyn_start_in) auto
  have all: "x < min ((?u + ?B - 1) div ?B * ?B) ?u \<longleftrightarrow> x < ?u"
    using B(1) div_mult_mod_eq [of "?u + ?B - 1" ?B] mod_less_divisor [OF B(1), of "?u + ?B - 1"] by linarith
  have out: "x < ?u \<longleftrightarrow> (case outputs of None \<Rightarrow> True | Some u \<Rightarrow> int x < u)" using x by (auto split: option.splits)
  have n: "min (n_terms div sets) ?groups * sets = terms_added n_terms sets terms"
    using sets by (auto simp: terms_added_def split: option.splits)
  define inner where "inner = (\<lambda>b block. fori_loop (n_terms div sets) (\<lambda>g block.
      let c = cube_slice (dyn_start n_terms (int sets) (int (g * sets)), 0, 0) C;
          p = (\<lambda>s i. W (dyn_start n_terms (int sets) (int (g * sets)) + s) (dyn_start n_out (int ?B) (int (min (b * ?B) (n_out - ?B))) + i));
          new = fold (\<lambda>s new i j k. add (new i j k) (mul (p s i) (c s j k))) [0..<sets] block
      in (\<lambda>i j k. if (b * ?B \<le> min (b * ?B) (n_out - ?B) + i \<and> min (b * ?B) (n_out - ?B) + i < ?u \<and> int j < vm \<and> int k < vn) \<and> g < ?groups
                     then new i j k else block i j k)) block)"
  have inner: "inner b block i j k =
      (if b * ?B \<le> min (b * ?B) (n_out - ?B) + i \<and> min (b * ?B) (n_out - ?B) + i < ?u \<and> (int j < vm \<and> int k < vn)
       then add_terms add mul (\<lambda>t. W t (min (b * ?B) (n_out - ?B) + i)) (\<lambda>t. C t j k) [0..<terms_added n_terms sets terms] (block i j k)
       else block i j k)" for b block i j k
    unfolding inner_def start
    by (subst group_loop [OF s refl sets(2) order_refl]) (simp add: n)
  have "accumulate_blocks add mul (n_out, M, N) A (n_terms, bm, bn) C W (vm, vn) (int m0) (int n0) sets terms outputs out_block =
    fori_loop ((?u + ?B - 1) div ?B) (\<lambda>b acc. cube_update (dyn_start n_out (int ?B) (int (min (b * ?B) (n_out - ?B))), dyn_start M (int bm) (int m0), dyn_start N (int bn) (int n0))
      (?B, bm, bn) (inner b (cube_slice (dyn_start n_out (int ?B) (int (min (b * ?B) (n_out - ?B))), dyn_start M (int bm) (int m0), dyn_start N (int bn) (int n0)) acc)) acc) A"
    unfolding accumulate_blocks_def inner_def Let_def prod.case by (rule refl)
  then have "accumulate_blocks add mul (n_out, M, N) A (n_terms, bm, bn) C W (vm, vn) (int m0) (int n0) sets terms outputs out_block x j k =
    (if x < min ((?u + ?B - 1) div ?B * ?B) ?u \<and> m0 \<le> j \<and> j < m0 + bm \<and> n0 \<le> k \<and> k < n0 + bn \<and> (int (j - m0) < vm \<and> int (k - n0) < vn)
     then add_terms add mul (\<lambda>t. W t x) (\<lambda>t. C t (j - m0) (k - n0)) [0..<terms_added n_terms sets terms] (A x j k)
     else A x j k)"
    using block_loop [where inner = inner and u = ?u and live = "\<lambda>j k. int j < vm \<and> int k < vn" and
        f = "\<lambda>x j k. add_terms add mul (\<lambda>t. W t x) (\<lambda>t. C t j k) [0..<terms_added n_terms sets terms]", OF B fit u inner x order_refl]
    by simp
  then show ?thesis unfolding all out by (simp add: conj_assoc)
qed

text \<open>
  one call adds the call's terms to each live element in order, left to right from the value it
  had: the outputs before \<open>outputs\<close>, the rows and columns of the block that are not padding, the terms of
  the groups before \<open>terms\<close>. Every other element keeps its value: no output block rounds, repeats or
  skips a term, whatever the output block size and wherever the last output block is clamped.
\<close>

theorem block_accumulate_terms:
  assumes "contour_block_accumulate_local add mul (n_out, M, N) A (n_terms, bm, bn) C proj_shape W (vm, vn) (int m0) (int n0) sets terms outputs out_block = Inr A'"
    and "out_block \<noteq> Some 0" "m0 + bm \<le> M" "n0 + bn \<le> N" "x < n_out"
  shows "A' x j k =
    (if (case outputs of None \<Rightarrow> True | Some u \<Rightarrow> int x < u) \<and> m0 \<le> j \<and> j < m0 + bm \<and> n0 \<le> k \<and> k < n0 + bn \<and> int (j - m0) < vm \<and> int (k - n0) < vn
     then add_terms add mul (\<lambda>t. W t x) (\<lambda>t. C t (j - m0) (k - n0)) [0..<terms_added n_terms sets terms] (A x j k)
     else A x j k)"
proof -
  from assms(1) have "1 \<le> sets" "n_terms mod sets = 0"
    "A' = accumulate_blocks add mul (n_out, M, N) A (n_terms, bm, bn) C W (vm, vn) (int m0) (int n0) sets terms outputs out_block"
    by (auto simp: contour_block_accumulate_local_def split: if_splits)
  note h = this
  show ?thesis unfolding h(3) by (rule accumulate_blocks_at [OF h(1,2) assms(2-5)])
qed

theorem block_accumulate_terms_witness:
  "\<exists>A'. contour_block_accumulate_local (+) (*) (3, 4, 4) (\<lambda>_ _ _. 100 :: int) (2, 2, 2) (\<lambda>t j k. int (10 * t + j)) (2, 3) (\<lambda>t x. int (t + x)) (1, 2)
      (int 1) (int 2) 1 None None None = Inr A' \<and> A' 2 1 2 = 130 \<and> A' 2 2 2 = 100"
proof -
  obtain A' where r: "contour_block_accumulate_local (+) (*) (3, 4, 4) (\<lambda>_ _ _. 100 :: int) (2, 2, 2) (\<lambda>t j k. int (10 * t + j)) (2, 3) (\<lambda>t x. int (t + x)) (1, 2)
      (int 1) (int 2) 1 None None None = Inr A'" by (simp add: contour_block_accumulate_local_def)
  have "A' 2 1 2 = 130" "A' 2 2 2 = 100"
    using block_accumulate_terms [OF r, of 2] by (simp_all add: add_terms_def terms_added_def numeral_2_eq_2)
  then show ?thesis using r by blast
qed

text \<open>On a block that is the whole tile: one \<open>contour_accumulator\<close> call per term.\<close>

lemma accumulate_blocks_per_term:
  assumes "1 \<le> sets" "n_terms mod sets = 0" "out_block \<noteq> Some 0" "x < n_out" "j < M" "k < N"
  shows "accumulate_blocks add mul (n_out, M, N) A (n_terms, M, N) C W (int M, int N) 0 0 sets None None out_block x j k =
    fold (\<lambda>t acc. contour_accumulate add mul acc (C t) (W t)) [0..<n_terms] A x j k"
proof -
  have c: "fold (\<lambda>t acc. contour_accumulate add mul acc (C t) (W t)) ts A x j k = add_terms add mul (\<lambda>t. W t x) (\<lambda>t. C t j k) ts (A x j k)" for ts
    by (induction ts arbitrary: A) (simp_all add: add_terms_def contour_accumulate_def)
  show ?thesis
    using accumulate_blocks_at [OF assms(1-3), of 0 M M 0 N N x n_out add mul A C W "int M" "int N" None None j k] assms(4-6)
    unfolding c by (simp add: terms_added_def)
qed

section \<open>The streamed passes: the code\<close>

text \<open>
  What one call streams. \<open>sj_planes\<close> is \<open>prepare\<close> followed by \<open>node_rows\<close> on this rank: the rows of a
  node on a window (\<open>None\<close> for the one whole window), by block, set, window row and column. \<open>sj_rank\<close> is
  the rank's place in the mesh, \<open>sj_cols\<close> the columns of a plane.
\<close>

record ('a, 'w) stream_job =
  sj_add :: "'a \<Rightarrow> 'a \<Rightarrow> 'a"
  sj_mul :: "'w \<Rightarrow> 'a \<Rightarrow> 'a"
  sj_zero :: 'a
  sj_weights :: "nat \<Rightarrow> nat \<Rightarrow> nat \<Rightarrow> 'w"
  sj_sets :: nat
  sj_out :: nat
  sj_cap :: nat
  sj_count :: nat
  sj_planes :: "window option \<Rightarrow> nat \<Rightarrow> nat \<Rightarrow> nat \<Rightarrow> nat \<Rightarrow> nat \<Rightarrow> 'a"
  sj_cols :: nat
  sj_rank :: "nat \<times> nat"

definition scan_passes :: "window list \<Rightarrow> (window \<Rightarrow> 'c \<Rightarrow> 'c option) \<Rightarrow> 'c \<Rightarrow> 'c option" where
  "scan_passes windows step carry = foldl (\<lambda>c w. Option.bind c (step w)) (Some carry) windows"

text \<open>\<open>segment_blocks\<close>: a dict keyed by the column offset keeps its last width.\<close>

definition segment_width :: "block list \<Rightarrow> int \<Rightarrow> int \<Rightarrow> int" where
  "segment_width blocks cols n0 =
     (case bk_extents (last (filter (\<lambda>b. bk_n0 b = n0) blocks)) of None \<Rightarrow> cols | Some (la, wa, lb, wb) \<Rightarrow> wb)"

definition segment_row :: "block list \<Rightarrow> int \<Rightarrow> int \<Rightarrow> int" where
  "segment_row blocks R m0 = int (first_index m0 (sort (remdups (map bk_m0 blocks)))) * R"

definition segment_col :: "block list \<Rightarrow> int \<Rightarrow> int \<Rightarrow> int" where
  "segment_col blocks cols n0 =
     sum_list (map (segment_width blocks cols) (takeWhile (\<lambda>c. c \<noteq> n0) (sort (remdups (map bk_n0 blocks)))))"

type_synonym rect = "int \<times> int \<times> int \<times> int \<times> int \<times> int"

definition segment_blocks :: "pass_plan \<Rightarrow> nat \<Rightarrow> int \<Rightarrow> block list \<times> int \<times> int \<times> rect list" where
  "segment_blocks plan p cols =
     (let (x0, xr) = pp_passes plan ! p; R = pp_rows plan; lo = fst (snd (pp_windows plan ! p)); bs = pp_blocks plan;
          row = segment_row bs R; col = segment_col bs cols;
          blocks = map (\<lambda>b. \<lparr>bk_m0 = row (bk_m0 b), bk_n0 = col (bk_n0 b), bk_extents = bk_extents b\<rparr>) bs;
          rects = map (\<lambda>b. (row (bk_m0 b) + lo, col (bk_n0 b), bk_m0 b + x0, bk_n0 b, xr, segment_width bs cols (bk_n0 b))) bs
      in (blocks, int (length (remdups (map bk_m0 bs))) * R,
          sum_list (map (segment_width bs cols) (sort (remdups (map bk_n0 bs)))), rects))"

text \<open>The weights padded to whole chunks, and the outputs before the last one with a weight.\<close>

definition padded_weights :: "('a, 'w::zero) stream_job \<Rightarrow> nat \<Rightarrow> nat \<Rightarrow> nat \<Rightarrow> 'w" where
  "padded_weights job s x n = (if n < sj_cap job then sj_weights job s x n else 0)"

definition live_outputs :: "('a, 'w::zero) stream_job \<Rightarrow> nat \<Rightarrow> nat" where
  "live_outputs job n_nodes =
     fold max (map (\<lambda>x. if list_ex (\<lambda>s. list_ex (\<lambda>n. padded_weights job s x n \<noteq> 0) [0..<n_nodes]) [0..<sj_sets job] then x + 1 else 0)
       [0..<sj_out job]) 0"

definition clip :: "int \<Rightarrow> int \<Rightarrow> int \<Rightarrow> int" where
  "clip x a b = min (max x a) b"

definition block_add ::
    "('a, 'w::zero) stream_job \<Rightarrow> pass_plan \<Rightarrow> nat \<times> nat \<Rightarrow> window option \<Rightarrow> int \<Rightarrow> 'a cube \<Rightarrow> 'a cube \<Rightarrow> (nat \<Rightarrow> nat \<Rightarrow> 'w) \<Rightarrow>
     block \<Rightarrow> nat \<Rightarrow> nat \<Rightarrow> 'a cube" where
  "block_add job plan shape window s acc rows projection block live_terms live_out =
     (case (shape, sj_rank job) of ((M, N), (ix, iy)) \<Rightarrow>
        let R = pp_rows plan;
            valid = (case bk_extents block of
                None \<Rightarrow> (R, int N)
              | Some (la, wa, lb, wb) \<Rightarrow>
                  let row0 = (case window of None \<Rightarrow> 0 | Some (s, lo, hi) \<Rightarrow> s)
                  in (clip (la - int ix * wa - row0) 0 R, clip (lb - int iy * wb) 0 wb));
            n_terms = sj_sets job * nat (pp_chunk plan)
        in accumulate_blocks (sj_add job) (sj_mul job) (sj_out job, M, N) acc (n_terms, nat R, sj_cols job) rows
             projection valid (bk_m0 block + s) (bk_n0 block) (sj_sets job) (Some live_terms) (Some (int live_out)) None)"

definition chunk_body ::
    "('a, 'w::zero) stream_job \<Rightarrow> pass_plan \<Rightarrow> nat \<times> nat \<Rightarrow> window option \<Rightarrow> int \<Rightarrow> block list \<Rightarrow> nat \<Rightarrow> nat \<Rightarrow> 'a cube \<Rightarrow> 'a cube" where
  "chunk_body job plan shape window s blocks live_out c acc =
     (let chunk = nat (pp_chunk plan); sets = sj_sets job;
          rows = (\<lambda>j b t x y. if c * chunk + j < sj_count job then sj_planes job window (c * chunk + j) b t x y else sj_zero job);
          projection = (\<lambda>t x. padded_weights job (t mod sets) x (c * chunk + t div sets));
          live_terms = sets * min (sj_count job - c * chunk) chunk
      in fold (\<lambda>(b, block) acc. block_add job plan shape window s acc (\<lambda>t. rows (t div sets) b (t mod sets)) projection block live_terms live_out)
           (enumerate 0 blocks) acc)"

definition window_body ::
    "('a, 'w::zero) stream_job \<Rightarrow> pass_plan \<Rightarrow> nat \<times> nat \<Rightarrow> nat \<Rightarrow> window option \<Rightarrow> bool \<Rightarrow> 'a cube \<Rightarrow> 'a cube option" where
  "window_body job plan shape live_out window segment acc =
     (let blocks = (if segment then fst (segment_blocks plan 0 0) else pp_blocks plan);
          s = (case window of None \<Rightarrow> 0 | Some (s, lo, hi) \<Rightarrow> if segment then 0 else s);
          chunk = nat (pp_chunk plan);
          n_chunks = (sj_count job + chunk - 1) div chunk
      in map_option snd (while_loop (\<lambda>(c, acc). c < n_chunks) (\<lambda>(c, acc). (Suc c, chunk_body job plan shape window s blocks live_out c acc)) (0, acc)))"

definition stream_passes ::
    "('a, 'w::zero) stream_job \<Rightarrow> pass_plan \<Rightarrow> nat \<times> nat \<Rightarrow> nat option \<Rightarrow> 'a cube \<Rightarrow> 'a cube option" where
  "stream_passes job plan shape only carry =
     (let chunk = nat (pp_chunk plan);
          live_out = live_outputs job (nat (ceil_div (int (sj_cap job)) (int chunk)) * chunk);
          ws = pp_windows plan
      in case only of
           Some p \<Rightarrow>
             if length ws = 1 then window_body job plan shape live_out None True carry
             else window_body job plan shape live_out (Some (ws ! p)) True carry
         | None \<Rightarrow>
             if length ws = 1 then window_body job plan shape live_out None False carry
             else scan_passes ws (\<lambda>w acc. window_body job plan shape live_out (Some w) False acc) carry)"

section \<open>One window\<close>

text \<open>The rows and columns of a plane that are not padding, from local row \<open>i\<close> of the window.\<close>

definition valid_at :: "('a, 'w) stream_job \<Rightarrow> block \<Rightarrow> int \<Rightarrow> nat \<Rightarrow> nat \<Rightarrow> bool" where
  "valid_at job block row0 i y =
     (case bk_extents block of None \<Rightarrow> True
      | Some (la, wa, lb, wb) \<Rightarrow> int (fst (sj_rank job)) * wa + row0 + int i < la \<and> int (snd (sj_rank job)) * wb + int y < lb \<and> int y < wb)"

definition in_block :: "block \<Rightarrow> int \<Rightarrow> nat \<Rightarrow> nat \<Rightarrow> nat \<Rightarrow> nat \<Rightarrow> bool" where
  "in_block block s rows cols j k \<longleftrightarrow>
     bk_m0 block + s \<le> int j \<and> int j < bk_m0 block + s + int rows \<and> bk_n0 block \<le> int k \<and> int k < bk_n0 block + int cols"

definition block_fits :: "nat \<times> nat \<Rightarrow> block \<Rightarrow> int \<Rightarrow> nat \<Rightarrow> nat \<Rightarrow> bool" where
  "block_fits shape block s rows cols \<longleftrightarrow>
     0 \<le> bk_m0 block + s \<and> bk_m0 block + s + int rows \<le> int (fst shape) \<and> 0 \<le> bk_n0 block \<and> bk_n0 block + int cols \<le> int (snd shape)"

definition window_start :: "window option \<Rightarrow> int" where
  "window_start window = (case window of None \<Rightarrow> 0 | Some (s, lo, hi) \<Rightarrow> s)"

lemma block_add_at:
  assumes job: "1 \<le> sj_sets job" and fits: "block_fits shape block s (nat (pp_rows plan)) (sj_cols job)" and x: "x < sj_out job"
    and live: "live \<le> nat (pp_chunk plan)"
  shows "block_add job plan shape window s acc rows projection block (sj_sets job * live) live_out x j k =
    (if x < live_out \<and> in_block block s (nat (pp_rows plan)) (sj_cols job) j k \<and>
        valid_at job block (window_start window) (nat (int j - bk_m0 block - s)) (nat (int k - bk_n0 block))
     then add_terms (sj_add job) (sj_mul job) (\<lambda>t. projection t x)
       (\<lambda>t. rows t (nat (int j - bk_m0 block - s)) (nat (int k - bk_n0 block))) [0..<live * sj_sets job] (acc x j k)
     else acc x j k)"
proof -
  obtain M N where sh: "shape = (M, N)" by (cases shape)
  obtain ix iy where rk: "sj_rank job = (ix, iy)" by (cases "sj_rank job")
  define m0 where "m0 = nat (bk_m0 block + s)"
  define n0 where "n0 = nat (bk_n0 block)"
  have at: "bk_m0 block + s = int m0" "bk_n0 block = int n0" using fits by (simp_all add: m0_def n0_def block_fits_def)
  have "int (m0 + nat (pp_rows plan)) \<le> int M" "int (n0 + sj_cols job) \<le> int N"
    using fits unfolding of_nat_add at [symmetric] by (simp_all add: block_fits_def sh)
  then have fit: "m0 + nat (pp_rows plan) \<le> M" "n0 + sj_cols job \<le> N" by (simp_all only: of_nat_le_iff)
  have diff: "nat (int j - bk_m0 block - s) = j - m0" "nat (int k - bk_n0 block) = k - n0" using at by simp_all
  have terms: "terms_added (sj_sets job * nat (pp_chunk plan)) (sj_sets job) (Some (sj_sets job * live)) = live * sj_sets job"
  proof -
    have "(sj_sets job * live + sj_sets job - 1) div sj_sets job = live"
      using job by (intro div_nat_eqI) auto
    then show ?thesis using job live by (simp add: terms_added_def)
  qed
  define valid where "valid = (case bk_extents block of None \<Rightarrow> (pp_rows plan, int N) | Some (la, wa, lb, wb) \<Rightarrow>
      (clip (la - int ix * wa - window_start window) 0 (pp_rows plan), clip (lb - int iy * wb) 0 wb))"
  obtain vm vn where v: "valid = (vm, vn)" by (cases valid)
  have inb: "in_block block s (nat (pp_rows plan)) (sj_cols job) j k \<longleftrightarrow> m0 \<le> j \<and> j < m0 + nat (pp_rows plan) \<and> n0 \<le> k \<and> k < n0 + sj_cols job"
    using at by (auto simp: in_block_def)
  have val: "in_block block s (nat (pp_rows plan)) (sj_cols job) j k \<Longrightarrow>
    valid_at job block (window_start window) (j - m0) (k - n0) \<longleftrightarrow> int (j - m0) < vm \<and> int (k - n0) < vn"
    using v fit by (auto simp: valid_at_def inb valid_def clip_def rk split: option.splits)
  have run: "block_add job plan shape window s acc rows projection block (sj_sets job * live) live_out =
    accumulate_blocks (sj_add job) (sj_mul job) (sj_out job, M, N) acc (sj_sets job * nat (pp_chunk plan), nat (pp_rows plan), sj_cols job) rows
      projection (vm, vn) (int m0) (int n0) (sj_sets job) (Some (sj_sets job * live)) (Some (int live_out)) None"
    unfolding block_add_def sh rk prod.case Let_def at v [symmetric] valid_def window_start_def ..
  show ?thesis
    unfolding run diff inb [symmetric]
    by (subst accumulate_blocks_at [OF job _ _ fit x]) (use val in \<open>auto simp: terms inb\<close>)
qed

lemma fold_enumerate_one:
  assumes step: "\<And>i acc. i < length bs \<Longrightarrow> step (i, bs ! i) acc x j k = (if P i then f (acc x j k) else acc x j k)"
    and one: "\<And>i. i < length bs \<Longrightarrow> P i \<longleftrightarrow> i = b"
  shows "fold step (enumerate 0 bs) acc x j k = (if b < length bs then f (acc x j k) else acc x j k)"
proof -
  have "fold step (take n (enumerate 0 bs)) acc x j k = (if b < n then f (acc x j k) else acc x j k)" if "n \<le> length bs" for n
    using that
  proof (induction n)
    case (Suc n)
    have "take (Suc n) (enumerate 0 bs) = take n (enumerate 0 bs) @ [(n, bs ! n)]"
      using Suc.prems by (subst take_Suc_conv_app_nth) (simp_all add: nth_enumerate_eq)
    then show ?case using Suc by (auto simp: step one)
  qed simp
  from this [of "length bs"] show ?thesis by simp
qed

text \<open>The terms of a node list at one element, in node order, each node's sets in order.\<close>

definition node_terms :: "('a, 'w::zero) stream_job \<Rightarrow> (nat \<Rightarrow> nat \<Rightarrow> 'a) \<Rightarrow> nat \<Rightarrow> nat list \<Rightarrow> 'a \<Rightarrow> 'a" where
  "node_terms job plane x ts a = add_terms (sj_add job) (sj_mul job)
     (\<lambda>t. padded_weights job (t mod sj_sets job) x (t div sj_sets job)) (\<lambda>t. plane (t div sj_sets job) (t mod sj_sets job)) ts a"

lemma chunk_terms:
  assumes s: "1 \<le> sj_sets job" and live: "live = min (sj_count job - c * chunk) chunk"
  shows "add_terms (sj_add job) (sj_mul job) (\<lambda>t. padded_weights job (t mod sj_sets job) x (c * chunk + t div sj_sets job))
      (\<lambda>t. (if c * chunk + t div sj_sets job < sj_count job then plane (c * chunk + t div sj_sets job) (t mod sj_sets job) else z))
      [0..<live * sj_sets job] a =
    node_terms job plane x [c * chunk * sj_sets job..<c * chunk * sj_sets job + live * sj_sets job] a"
proof -
  let ?p = "\<lambda>t. padded_weights job (t mod sj_sets job) x (t div sj_sets job)" and ?c = "\<lambda>t. plane (t div sj_sets job) (t mod sj_sets job)"
  have at: "(c * chunk * sj_sets job + t) div sj_sets job = c * chunk + t div sj_sets job" "(c * chunk * sj_sets job + t) mod sj_sets job = t mod sj_sets job" for t
    using s by simp_all
  have "c * chunk + t div sj_sets job < sj_count job" if "t < live * sj_sets job" for t
    using that s live less_mult_imp_div_less [of t live "sj_sets job"] by auto
  then have "add_terms (sj_add job) (sj_mul job) (\<lambda>t. padded_weights job (t mod sj_sets job) x (c * chunk + t div sj_sets job))
      (\<lambda>t. (if c * chunk + t div sj_sets job < sj_count job then plane (c * chunk + t div sj_sets job) (t mod sj_sets job) else z))
      [0..<live * sj_sets job] a =
    fold (\<lambda>t x. sj_add job x (sj_mul job (?p (c * chunk * sj_sets job + t)) (?c (c * chunk * sj_sets job + t)))) [0..<live * sj_sets job] a"
    unfolding add_terms_def by (intro fold_cong) (simp_all add: at)
  also have "\<dots> = node_terms job plane x [c * chunk * sj_sets job..<c * chunk * sj_sets job + live * sj_sets job] a"
    unfolding node_terms_def by (rule add_terms_shift [where p = ?p and c = ?c])
  finally show ?thesis .
qed

definition touches :: "('a, 'w) stream_job \<Rightarrow> pass_plan \<Rightarrow> window option \<Rightarrow> int \<Rightarrow> nat \<Rightarrow> block \<Rightarrow> nat \<Rightarrow> nat \<Rightarrow> nat \<Rightarrow> bool" where
  "touches job plan window s live_out block x j k \<longleftrightarrow>
     x < live_out \<and> in_block block s (nat (pp_rows plan)) (sj_cols job) j k \<and>
     valid_at job block (window_start window) (nat (int j - bk_m0 block - s)) (nat (int k - bk_n0 block))"

lemma chunk_body_at:
  assumes job: "1 \<le> sj_sets job" and fits: "\<forall>block\<in>set blocks. block_fits shape block s (nat (pp_rows plan)) (sj_cols job)" and x: "x < sj_out job"
    and one: "\<And>i. i < length blocks \<Longrightarrow> touches job plan window s live_out (blocks ! i) x j k \<longleftrightarrow> i = b"
  defines "chunk \<equiv> nat (pp_chunk plan)"
  shows "chunk_body job plan shape window s blocks live_out c acc x j k =
    (if b < length blocks
     then node_terms job (\<lambda>n t. sj_planes job window n b t (nat (int j - bk_m0 (blocks ! b) - s)) (nat (int k - bk_n0 (blocks ! b)))) x
       [c * chunk * sj_sets job..<c * chunk * sj_sets job + min (sj_count job - c * chunk) chunk * sj_sets job] (acc x j k)
     else acc x j k)"
proof -
  let ?f = "\<lambda>i. node_terms job (\<lambda>n t. sj_planes job window n i t (nat (int j - bk_m0 (blocks ! i) - s)) (nat (int k - bk_n0 (blocks ! i)))) x
       [c * chunk * sj_sets job..<c * chunk * sj_sets job + min (sj_count job - c * chunk) chunk * sj_sets job]"
  let ?step = "\<lambda>(b, block) acc. block_add job plan shape window s acc
      (\<lambda>t. (\<lambda>j b t x y. if c * chunk + j < sj_count job then sj_planes job window (c * chunk + j) b t x y else sj_zero job) (t div sj_sets job) b (t mod sj_sets job))
      (\<lambda>t x. padded_weights job (t mod sj_sets job) x (c * chunk + t div sj_sets job)) block (sj_sets job * min (sj_count job - c * chunk) chunk) live_out"
  have "?step (i, blocks ! i) acc x j k = (if touches job plan window s live_out (blocks ! i) x j k then ?f b (acc x j k) else acc x j k)"
    if i: "i < length blocks" for i acc
  proof -
    have f: "block_fits shape (blocks ! i) s (nat (pp_rows plan)) (sj_cols job)" using fits i by simp
    have "?step (i, blocks ! i) acc x j k = (if touches job plan window s live_out (blocks ! i) x j k then ?f i (acc x j k) else acc x j k)"
      unfolding prod.case touches_def
      by (subst block_add_at [OF job f x]) (simp_all add: chunk_def [symmetric] chunk_terms [OF job refl, where plane = "\<lambda>n t. sj_planes job window n i t (nat (int j - bk_m0 (blocks ! i) - s)) (nat (int k - bk_n0 (blocks ! i)))"])
    then show ?thesis using one [OF i] by simp
  qed
  from fold_enumerate_one [where step = ?step and P = "\<lambda>i. touches job plan window s live_out (blocks ! i) x j k" and f = "?f b" and bs = blocks, OF this one]
  show ?thesis unfolding chunk_body_def Let_def chunk_def by simp
qed

definition window_result ::
    "('a, 'w::zero) stream_job \<Rightarrow> pass_plan \<Rightarrow> nat \<times> nat \<Rightarrow> nat \<Rightarrow> window option \<Rightarrow> bool \<Rightarrow> 'a cube \<Rightarrow> 'a cube" where
  "window_result job plan shape live_out window segment acc =
     fori_loop ((sj_count job + nat (pp_chunk plan) - 1) div nat (pp_chunk plan))
       (chunk_body job plan shape window (if segment then 0 else window_start window)
         (if segment then fst (segment_blocks plan 0 0) else pp_blocks plan) live_out) acc"

lemma window_body_returns: "window_body job plan shape live_out window segment acc = Some (window_result job plan shape live_out window segment acc)"
proof -
  have "(case window of None \<Rightarrow> 0 | Some (s, lo, hi) \<Rightarrow> if segment then 0 else s) = (if segment then 0 else window_start window)"
    by (auto simp: window_start_def split: option.splits)
  then show ?thesis by (simp add: window_body_def Let_def while_loop_count window_result_def)
qed

lemma min_split: "a \<le> n \<Longrightarrow> min (a + c) n = a + min (n - a) c" for a c n :: nat
  by (auto simp: min_def)

lemma window_result_at:
  assumes job: "1 \<le> sj_sets job" "1 \<le> pp_chunk plan" and x: "x < sj_out job"
    and s: "s = (if segment then 0 else window_start window)" and bs: "blocks = (if segment then fst (segment_blocks plan 0 0) else pp_blocks plan)"
    and fits: "\<forall>block\<in>set blocks. block_fits shape block s (nat (pp_rows plan)) (sj_cols job)"
    and one: "\<And>i. i < length blocks \<Longrightarrow> touches job plan window s live_out (blocks ! i) x j k \<longleftrightarrow> i = b"
  shows "window_result job plan shape live_out window segment acc x j k =
    (if b < length blocks
     then node_terms job (\<lambda>n t. sj_planes job window n b t (nat (int j - bk_m0 (blocks ! b) - s)) (nat (int k - bk_n0 (blocks ! b)))) x
       [0..<sj_count job * sj_sets job] (acc x j k)
     else acc x j k)"
proof -
  let ?chunk = "nat (pp_chunk plan)"
  let ?t = "\<lambda>a b' v. node_terms job (\<lambda>n t. sj_planes job window n b t (nat (int j - bk_m0 (blocks ! b) - s)) (nat (int k - bk_n0 (blocks ! b)))) x [a..<b'] v"
  note step = chunk_body_at [OF job(1) fits x one]
  have loop: "fori_loop m (chunk_body job plan shape window s blocks live_out) acc x j k =
      (if b < length blocks then ?t 0 (min (m * ?chunk) (sj_count job) * sj_sets job) (acc x j k) else acc x j k)" for m
  proof (induction m)
    case 0
    then show ?case by (simp add: node_terms_def add_terms_def)
  next
    case (Suc m)
    show ?case
    proof (cases "m * ?chunk \<le> sj_count job")
      case True
      have "min (Suc m * ?chunk) (sj_count job) = m * ?chunk + min (sj_count job - m * ?chunk) ?chunk"
        using min_split [OF True] by (simp add: add.commute)
      then have "[0..<min (Suc m * ?chunk) (sj_count job) * sj_sets job] =
          [0..<m * ?chunk * sj_sets job] @ [m * ?chunk * sj_sets job..<m * ?chunk * sj_sets job + min (sj_count job - m * ?chunk) ?chunk * sj_sets job]"
        by (simp only: add_mult_distrib upt_add_eq_append [of 0, simplified])
      then show ?thesis using Suc True step by (simp add: node_terms_def add_terms_append min_def)
    next
      case False
      then show ?thesis using Suc step by (simp add: node_terms_def add_terms_def min_def)
    qed
  qed
  have "0 < ?chunk" using job(2) by simp
  then have "sj_count job \<le> (sj_count job + ?chunk - 1) div ?chunk * ?chunk"
    using div_mult_mod_eq [of "sj_count job + ?chunk - 1" ?chunk] mod_less_divisor [of ?chunk "sj_count job + ?chunk - 1"] by linarith
  then show ?thesis unfolding window_result_def s [symmetric] bs [symmetric] by (simp add: loop min_absorb2)
qed

section \<open>Every window\<close>

text \<open>The outputs written do not depend on the padding of the node axis.\<close>

lemma fold_max_bound: "fold max xs (a :: nat) \<le> u \<longleftrightarrow> a \<le> u \<and> (\<forall>x\<in>set xs. x \<le> u)"
  by (induction xs arbitrary: a) auto

lemma live_outputs_le:
  "live_outputs job m \<le> u \<longleftrightarrow>
   (\<forall>x<sj_out job. (\<exists>s<sj_sets job. \<exists>n<m. n < sj_cap job \<and> sj_weights job s x n \<noteq> 0) \<longrightarrow> x < u)"
proof -
  let ?live = "\<lambda>x. list_ex (\<lambda>s. list_ex (\<lambda>n. padded_weights job s x n \<noteq> 0) [0..<m]) [0..<sj_sets job]"
  have "live_outputs job m \<le> u \<longleftrightarrow> (\<forall>x\<in>{0..<sj_out job}. (if ?live x then x + 1 else 0) \<le> u)"
    unfolding live_outputs_def fold_max_bound by (simp only: set_map ball_simps set_upt le0 simp_thms)
  also have "\<dots> \<longleftrightarrow> (\<forall>x<sj_out job. ?live x \<longrightarrow> x < u)" by (auto simp: less_eq_Suc_le)
  moreover have "?live x \<longleftrightarrow> (\<exists>s<sj_sets job. \<exists>n<m. n < sj_cap job \<and> sj_weights job s x n \<noteq> 0)" for x
    by (simp add: list_ex_iff padded_weights_def Bex_def) blast
  ultimately show ?thesis by simp
qed

lemma live_outputs_cap: "sj_cap job \<le> m \<Longrightarrow> live_outputs job m = live_outputs job (sj_cap job)"
proof -
  assume "sj_cap job \<le> m"
  then have "(\<exists>n<m. n < sj_cap job \<and> P n) \<longleftrightarrow> (\<exists>n<sj_cap job. n < sj_cap job \<and> P n)" for P by (meson order_less_le_trans)
  then have "live_outputs job m \<le> u \<longleftrightarrow> live_outputs job (sj_cap job) \<le> u" for u unfolding live_outputs_le by (simp only:)
  then show ?thesis by (metis antisym order_refl)
qed

text \<open>A plan covers \<open>L\<close> rows: what \<open>plan_passes\<close> returns on a table of \<open>L\<close> local rows.\<close>

definition plan_covers :: "pass_plan \<Rightarrow> nat \<Rightarrow> bool" where
  "plan_covers plan L \<longleftrightarrow> 1 \<le> pp_chunk plan \<and> walk 0 (int L) (live_spans (pp_windows plan)) \<and>
     pp_passes plan = map (\<lambda>(s, lo, hi). (s + lo, hi - lo)) (pp_windows plan) \<and>
     (\<forall>(s, lo, hi)\<in>set (pp_windows plan). 0 \<le> s \<and> s + pp_rows plan \<le> int L \<and> 0 \<le> lo \<and> lo < hi \<and> hi \<le> pp_rows plan)"

lemma plan_passes_covers:
  assumes "plan_passes lsrc side ns row_bytes chunk_bytes n_nodes blocks = Some plan" "1 \<le> n_nodes"
    and "L = length (lsrc ! 0) div (side * ns)" "1 \<le> L"
  shows "plan_covers plan L"
proof -
  let ?cuts = "map int (orbit_cuts lsrc side ns)"
  have cuts: "\<forall>c\<in>set ?cuts. 0 < c \<and> c < int L" using orbit_cuts_inside assms(3) by fastforce
  have L: "1 \<le> int L" using assms(4) by simp
  obtain spans where win: "pp_windows plan = map (window_of (int L) (pp_rows plan)) spans" and g: "good_spans ?cuts (int L) (pp_rows plan) spans"
    and rest: "pp_chunk plan = tile_units chunk_bytes n_nodes 1" "pp_passes plan = map (\<lambda>(s, lo, hi). (s + lo, hi - lo)) (pp_windows plan)"
    using assms(1) plan_windows_run [OF L cuts, of "row_bytes (tile_units chunk_bytes n_nodes 1)"]
    by (auto simp: plan_passes_def Let_def assms(3) [symmetric])
  have "case w of (s, lo, hi) \<Rightarrow> 0 \<le> s \<and> s + pp_rows plan \<le> int L \<and> 0 \<le> lo \<and> lo < hi \<and> hi \<le> pp_rows plan"
    if w: "w \<in> set (pp_windows plan)" for w
  proof -
    obtain x0 xr where x: "(x0, xr) \<in> set spans" "w = window_of (int L) (pp_rows plan) (x0, xr)" using w win by auto
    obtain s lo hi where "w = (s, lo, hi)" by (cases w)
    then show ?thesis using window_geometry [OF g x(1), of s lo hi] x(2) by simp
  qed
  moreover have "1 \<le> pp_chunk plan" using rest(1) assms(2) by (simp add: tile_units_def Let_def)
  moreover have "walk 0 (int L) (live_spans (pp_windows plan))" using g win by (simp add: live_spans_walk [OF g] good_spans_def)
  ultimately show ?thesis using rest(2) unfolding plan_covers_def by blast
qed

text \<open>
  The planes of a node on each window: the rows of \<open>full\<close>, the plane on the whole tile, on the live rows
  of the window, exact zeros outside them.
\<close>

definition planes_of :: "('a, 'w) stream_job \<Rightarrow> pass_plan \<Rightarrow> (nat \<Rightarrow> nat \<Rightarrow> nat \<Rightarrow> nat \<Rightarrow> nat \<Rightarrow> 'a) \<Rightarrow> bool" where
  "planes_of job plan full \<longleftrightarrow>
     (if length (pp_windows plan) = 1 then \<forall>n b t y i. int i < pp_rows plan \<longrightarrow> sj_planes job None n b t i y = full n b t i y
      else \<forall>(s, lo, hi)\<in>set (pp_windows plan). \<forall>n b t y i. int i < pp_rows plan \<longrightarrow>
        sj_planes job (Some (s, lo, hi)) n b t i y = (if lo \<le> int i \<and> int i < hi then full n b t (nat s + i) y else sj_zero job))"

definition blocks_apart :: "nat \<Rightarrow> nat \<Rightarrow> block list \<Rightarrow> bool" where
  "blocks_apart L cols blocks \<longleftrightarrow>
     (\<forall>i<length blocks. \<forall>i'<length blocks. \<forall>j k. in_block (blocks ! i) 0 L cols j k \<longrightarrow> in_block (blocks ! i') 0 L cols j k \<longrightarrow> i = i')"

definition blocks_placed :: "nat \<times> nat \<Rightarrow> nat \<Rightarrow> nat \<Rightarrow> block list \<Rightarrow> bool" where
  "blocks_placed shape L cols blocks \<longleftrightarrow> (\<forall>block\<in>set blocks. block_fits shape block 0 L cols) \<and> blocks_apart L cols blocks"

text \<open>The law of the skipped zeros: a weight times the exact zero adds nothing.\<close>

locale exact_zero =
  fixes add :: "'a \<Rightarrow> 'a \<Rightarrow> 'a" and mul :: "'w \<Rightarrow> 'a \<Rightarrow> 'a" and z :: 'a
  assumes add_zero: "add a (mul w z) = a"
begin

lemma add_terms_zero: "(\<And>t. t \<in> set ts \<Longrightarrow> c t = z) \<Longrightarrow> add_terms add mul p c ts a = a"
  by (induction ts arbitrary: a) (simp_all add: add_terms_def add_zero)

end

interpretation complex_terms: exact_zero "(+)" "(*)" "0 :: complex"
  by unfold_locales simp

subsection \<open>The whole tile\<close>

lemma scan_passes_fold: "scan_passes ws (\<lambda>w acc. Some (g w acc)) carry = Some (fold g ws carry)"
  unfolding scan_passes_def by (induction ws arbitrary: carry) simp_all

text \<open>One element under a scan in which a window acts on it exactly when its live span holds the row.\<close>

lemma fold_live:
  assumes "walk a b (live_spans ws)" "\<And>w acc. w \<in> set ws \<Longrightarrow> g w acc x j k = (if (case w of (s, lo, hi) \<Rightarrow> s + lo \<le> r \<and> r < s + hi) then f (acc x j k) else acc x j k)"
  shows "fold g ws acc x j k = (if a \<le> r \<and> r < b then f (acc x j k) else acc x j k)"
  using assms
proof (induction ws arbitrary: a acc)
  case Nil
  then show ?case by (auto simp: live_spans_def)
next
  case (Cons w ws)
  obtain s lo hi where w: "w = (s, lo, hi)" by (cases w)
  have h: "a = s + lo" "s + lo < s + hi" "walk (s + hi) b (live_spans ws)" using Cons.prems(1) by (simp_all add: w live_spans_def)
  have "fold g ws acc' x j k = (if s + hi \<le> r \<and> r < b then f (acc' x j k) else acc' x j k)" for acc'
    using Cons.IH [OF h(3)] Cons.prems(2) by simp
  moreover have "g w acc x j k = (if s + lo \<le> r \<and> r < s + hi then f (acc x j k) else acc x j k)" using Cons.prems(2) [of w acc] by (simp add: w)
  moreover have "s + hi \<le> b" using walk_le [OF h(3)] .
  ultimately show ?case using h(1,2) by auto
qed

lemma in_block_window: "in_block block s R cols j k \<Longrightarrow> 0 \<le> s \<Longrightarrow> s + int R \<le> int L \<Longrightarrow> in_block block 0 L cols j k"
  by (auto simp: in_block_def)

lemma block_fits_window:
  "block_fits shape block 0 L cols \<Longrightarrow> 0 \<le> s \<Longrightarrow> s + R \<le> int L \<Longrightarrow> 0 \<le> R \<Longrightarrow> block_fits shape block s (nat R) cols"
  by (auto simp: block_fits_def)

text \<open>One pass over one element: the element at row \<open>r\<close>, column \<open>y\<close> of block \<open>b\<close>.\<close>

definition element_value ::
    "('a, 'w::zero) stream_job \<Rightarrow> pass_plan \<Rightarrow> (nat \<Rightarrow> nat \<Rightarrow> nat \<Rightarrow> nat \<Rightarrow> nat \<Rightarrow> 'a) \<Rightarrow> nat \<Rightarrow> nat \<Rightarrow> nat \<Rightarrow> nat \<Rightarrow> 'a \<Rightarrow> 'a" where
  "element_value job plan full b x r y a =
     (if x < live_outputs job (sj_cap job) \<and> valid_at job (pp_blocks plan ! b) 0 r y
      then node_terms job (\<lambda>n t. full n b t r y) x [0..<sj_count job * sj_sets job] a else a)"

lemma pass_at:
  assumes job: "1 \<le> sj_sets job" "1 \<le> pp_chunk plan" and z: "\<forall>a w. sj_add job a (sj_mul job w (sj_zero job)) = a"
    and placed: "blocks_placed shape L (sj_cols job) (pp_blocks plan)" and x: "x < sj_out job"
    and s: "0 \<le> window_start window" "window_start window + pp_rows plan \<le> int L" "0 \<le> pp_rows plan"
    and b: "b < length (pp_blocks plan)" and at: "bk_m0 (pp_blocks plan ! b) + int r = int j" "bk_n0 (pp_blocks plan ! b) + int y = int k" "r < L" "y < sj_cols job"
    and plane: "\<And>n t i. int i < pp_rows plan \<Longrightarrow> sj_planes job window n b t i y =
      (if lo \<le> window_start window + int i \<and> window_start window + int i < hi then full n b t (nat (window_start window) + i) y else sj_zero job)"
    and live: "window_start window \<le> lo" "hi \<le> window_start window + pp_rows plan"
  shows "window_result job plan shape (live_outputs job (sj_cap job)) window False acc x j k =
    (if lo \<le> int r \<and> int r < hi then element_value job plan full b x r y (acc x j k) else acc x j k)"
proof -
  let ?s = "window_start window" and ?bs = "pp_blocks plan" and ?u = "live_outputs job (sj_cap job)"
  have fits: "\<forall>block\<in>set ?bs. block_fits shape block ?s (nat (pp_rows plan)) (sj_cols job)"
    using placed block_fits_window [OF _ s] by (auto simp: blocks_placed_def)
  note result = window_result_at [OF job x, of ?s False window ?bs shape, simplified, OF fits]
  have only: "i = b" if i: "i < length ?bs" "touches job plan window ?s ?u (?bs ! i) x j k" for i
  proof -
    have "in_block (?bs ! i) 0 L (sj_cols job) j k" using i(2) in_block_window s by (auto simp: touches_def)
    moreover have "in_block (?bs ! b) 0 L (sj_cols job) j k" using at by (auto simp: in_block_def)
    ultimately show ?thesis using placed i(1) b by (auto simp: blocks_placed_def blocks_apart_def)
  qed
  have diff: "int j - bk_m0 (?bs ! b) - ?s = int r - ?s" "int k - bk_n0 (?bs ! b) = int y" using at by linarith+
  have touch: "touches job plan window ?s ?u (?bs ! b) x j k \<longleftrightarrow>
      x < ?u \<and> ?s \<le> int r \<and> int r < ?s + pp_rows plan \<and> valid_at job (?bs ! b) 0 r y"
    using at s by (auto simp: touches_def in_block_def diff valid_at_def split: option.splits)
  show ?thesis
  proof (cases "touches job plan window ?s ?u (?bs ! b) x j k")
    case False
    have "window_result job plan shape ?u window False acc x j k = acc x j k"
      using result [of ?u j k "length ?bs" acc] only False by fastforce
    moreover have "\<not> (lo \<le> int r \<and> int r < hi \<and> x < ?u \<and> valid_at job (?bs ! b) 0 r y)" using False live touch by auto
    ultimately show ?thesis by (auto simp: element_value_def)
  next
    case True
    define i where "i = nat (int r - ?s)"
    have i: "int i = int r - ?s" "int i < pp_rows plan" "nat ?s + i = r" using True touch s by (auto simp: i_def)
    have w: "window_result job plan shape ?u window False acc x j k =
        node_terms job (\<lambda>n t. sj_planes job window n b t i y) x [0..<sj_count job * sj_sets job] (acc x j k)"
    proof -
      have "touches job plan window ?s ?u (?bs ! i) x j k \<longleftrightarrow> i = b" if "i < length ?bs" for i using only [OF that] True by blast
      from result [OF this, of acc] show ?thesis using b unfolding diff i_def by simp
    qed
    have p: "sj_planes job window n b t i y = (if lo \<le> int r \<and> int r < hi then full n b t r y else sj_zero job)" for n t
      using plane [OF i(2)] i by simp
    show ?thesis
    proof (cases "lo \<le> int r \<and> int r < hi")
      case live: True
      then show ?thesis using w p True touch by (simp add: element_value_def)
    next
      case False
      have "exact_zero (sj_add job) (sj_mul job) (sj_zero job)" using z by (simp add: exact_zero_def)
      then have "node_terms job (\<lambda>n t. sj_planes job window n b t i y) x [0..<sj_count job * sj_sets job] (acc x j k) = acc x j k"
        using False p unfolding node_terms_def by (intro exact_zero.add_terms_zero) auto
      then show ?thesis using w False by auto
    qed
  qed
qed

lemma pass_outside:
  assumes job: "1 \<le> sj_sets job" "1 \<le> pp_chunk plan" and placed: "blocks_placed shape L (sj_cols job) (pp_blocks plan)" and x: "x < sj_out job"
    and s: "0 \<le> window_start window" "window_start window + pp_rows plan \<le> int L" "0 \<le> pp_rows plan"
    and out: "\<forall>block\<in>set (pp_blocks plan). \<not> in_block block 0 L (sj_cols job) j k"
  shows "window_result job plan shape live_out window False acc x j k = acc x j k"
proof -
  let ?s = "window_start window" and ?bs = "pp_blocks plan"
  have fits: "\<forall>block\<in>set ?bs. block_fits shape block ?s (nat (pp_rows plan)) (sj_cols job)"
    using placed block_fits_window [OF _ s] by (auto simp: blocks_placed_def)
  have "touches job plan window ?s live_out (?bs ! i) x j k \<longleftrightarrow> i = length ?bs" if "i < length ?bs" for i
    using that out in_block_window [of "?bs ! i" ?s "nat (pp_rows plan)" "sj_cols job" j k L] s nth_mem [OF that] by (auto simp: touches_def)
  from window_result_at [OF job x, of ?s False window ?bs shape, simplified, OF fits this] show ?thesis by simp
qed

lemma plan_one_window:
  assumes "plan_covers plan L" "length (pp_windows plan) = 1"
  shows "pp_windows plan = [(0, 0, int L)]" "pp_rows plan = int L"
proof -
  obtain s lo hi where w: "pp_windows plan = [(s, lo, hi)]" using assms(2) by (cases "pp_windows plan") auto
  then show "pp_windows plan = [(0, 0, int L)]" "pp_rows plan = int L" using assms(1) by (auto simp: plan_covers_def live_spans_def)
qed

lemma stream_run:
  assumes "plan_covers plan L"
  shows "stream_passes job plan shape None carry = Some (
      if length (pp_windows plan) = 1 then window_result job plan shape (live_outputs job (sj_cap job)) None False carry
      else fold (\<lambda>w. window_result job plan shape (live_outputs job (sj_cap job)) (Some w) False) (pp_windows plan) carry)"
    and "stream_passes job plan shape (Some p) carry = Some (
      window_result job plan shape (live_outputs job (sj_cap job)) (if length (pp_windows plan) = 1 then None else Some (pp_windows plan ! p)) True carry)"
proof -
  let ?chunk = "nat (pp_chunk plan)"
  have chunk: "1 \<le> int ?chunk" using assms by (auto simp: plan_covers_def)
  then have "int (sj_cap job) \<le> ceil_div (int (sj_cap job)) (int ?chunk) * int ?chunk"
    using ceil_div_le [of "int ?chunk" "int (sj_cap job)" "ceil_div (int (sj_cap job)) (int ?chunk)"] by (simp add: mult.commute)
  then have "int (sj_cap job) \<le> int (nat (ceil_div (int (sj_cap job)) (int ?chunk)) * ?chunk)"
    using chunk by (smt (verit) mult_nonneg_nonneg mult_nonpos_nonneg nat_0_le of_nat_0_le_iff of_nat_mult)
  then have live: "live_outputs job (nat (ceil_div (int (sj_cap job)) (int ?chunk)) * ?chunk) = live_outputs job (sj_cap job)"
    by (intro live_outputs_cap) (simp only: of_nat_le_iff)
  have "window_body job plan shape u w seg = (\<lambda>acc. Some (window_result job plan shape u w seg acc))" for u w seg
    by (rule ext) (rule window_body_returns)
  then show "stream_passes job plan shape None carry = Some (
      if length (pp_windows plan) = 1 then window_result job plan shape (live_outputs job (sj_cap job)) None False carry
      else fold (\<lambda>w. window_result job plan shape (live_outputs job (sj_cap job)) (Some w) False) (pp_windows plan) carry)"
    "stream_passes job plan shape (Some p) carry = Some (
      window_result job plan shape (live_outputs job (sj_cap job)) (if length (pp_windows plan) = 1 then None else Some (pp_windows plan ! p)) True carry)"
    using live by (simp_all add: stream_passes_def Let_def scan_passes_fold)
qed

lemma stream_at:
  assumes sets: "1 \<le> sj_sets job" and plan: "plan_covers plan L" and z: "\<forall>a w. sj_add job a (sj_mul job w (sj_zero job)) = a"
    and planes: "planes_of job plan full" and placed: "blocks_placed shape L (sj_cols job) (pp_blocks plan)" and x: "x < sj_out job"
    and run: "stream_passes job plan shape None carry = Some carry'"
  shows "b < length (pp_blocks plan) \<Longrightarrow> bk_m0 (pp_blocks plan ! b) + int r = int j \<Longrightarrow> bk_n0 (pp_blocks plan ! b) + int y = int k \<Longrightarrow> r < L \<Longrightarrow> y < sj_cols job \<Longrightarrow>
      carry' x j k = element_value job plan full b x r y (carry x j k)"
    and "\<forall>block\<in>set (pp_blocks plan). \<not> in_block block 0 L (sj_cols job) j k \<Longrightarrow> carry' x j k = carry x j k"
proof -
  let ?u = "live_outputs job (sj_cap job)" and ?ws = "pp_windows plan"
  have chunk: "1 \<le> pp_chunk plan" and walk: "walk 0 (int L) (live_spans ?ws)"
    and geo: "(s, lo, hi) \<in> set ?ws \<Longrightarrow> 0 \<le> s \<and> s + pp_rows plan \<le> int L \<and> 0 \<le> lo \<and> lo < hi \<and> hi \<le> pp_rows plan" for s lo hi
    using plan by (auto simp: plan_covers_def)
  have result: "carry' = (if length ?ws = 1 then window_result job plan shape ?u None False carry
      else fold (\<lambda>w. window_result job plan shape ?u (Some w) False) ?ws carry)"
    using stream_run(1) [OF plan, of job shape carry] unfolding run option.inject .
  {
    assume b: "b < length (pp_blocks plan)" and at: "bk_m0 (pp_blocks plan ! b) + int r = int j" "bk_n0 (pp_blocks plan ! b) + int y = int k" "r < L" "y < sj_cols job"
    note pass = pass_at [OF sets chunk z placed x _ _ _ b at]
    show "carry' x j k = element_value job plan full b x r y (carry x j k)"
    proof (cases "length ?ws = 1")
      case True
      note one = plan_one_window [OF plan True]
      have "window_result job plan shape ?u None False carry x j k =
          (if 0 \<le> int r \<and> int r < int L then element_value job plan full b x r y (carry x j k) else carry x j k)"
        using planes True one by (intro pass) (auto simp: window_start_def planes_of_def)
      then show ?thesis using result True at(3) by simp
    next
      case False
      have "fold (\<lambda>w. window_result job plan shape ?u (Some w) False) ?ws carry x j k =
          (if 0 \<le> int r \<and> int r < int L then element_value job plan full b x r y (carry x j k) else carry x j k)"
      proof (rule fold_live [OF walk])
        fix w acc assume w: "w \<in> set ?ws"
        obtain s lo hi where e: "w = (s, lo, hi)" by (cases w)
        note g = geo [OF w [unfolded e]]
        have plane: "sj_planes job (Some (s, lo, hi)) n b t i y = (if s + lo \<le> s + int i \<and> s + int i < s + hi then full n b t (nat s + i) y else sj_zero job)"
          if "int i < pp_rows plan" for n t i
          using planes False w that unfolding planes_of_def e by fastforce
        have "window_result job plan shape ?u (Some (s, lo, hi)) False acc x j k =
            (if s + lo \<le> int r \<and> int r < s + hi then element_value job plan full b x r y (acc x j k) else acc x j k)"
          using g plane by (intro pass) (simp_all add: window_start_def)
        then show "window_result job plan shape ?u (Some w) False acc x j k =
            (if (case w of (s, lo, hi) \<Rightarrow> s + lo \<le> int r \<and> int r < s + hi) then element_value job plan full b x r y (acc x j k) else acc x j k)"
          by (simp add: e)
      qed
      then show ?thesis using result False at(3) by simp
    qed
  next
    assume out: "\<forall>block\<in>set (pp_blocks plan). \<not> in_block block 0 L (sj_cols job) j k"
    note pass = pass_outside [OF sets chunk placed x _ _ _ out]
    show "carry' x j k = carry x j k"
    proof (cases "length ?ws = 1")
      case True
      then show ?thesis using result pass [of None] plan_one_window [OF plan True] by (simp add: window_start_def)
    next
      case False
      have "fold (\<lambda>w. window_result job plan shape ?u (Some w) False) ws acc x j k = acc x j k" if "set ws \<subseteq> set ?ws" for ws acc
        using that
      proof (induction ws arbitrary: acc)
        case (Cons w ws)
        obtain s lo hi where e: "w = (s, lo, hi)" by (cases w)
        have "0 \<le> s \<and> s + pp_rows plan \<le> int L \<and> 0 \<le> lo \<and> lo < hi \<and> hi \<le> pp_rows plan" using geo [of s lo hi] Cons.prems e by simp
        then show ?case using Cons pass [of "Some w"] by (simp add: window_start_def e)
      qed simp
      then show ?thesis using result False by simp
    qed
  }
qed

text \<open>Two nodes on four rows, one output: weights 1 and 2, the plane of node \<open>n\<close> is \<open>10 n + r\<close> at row \<open>r\<close>.\<close>

definition small_job :: "(int, int) stream_job" where
  "small_job = \<lparr>sj_add = (+), sj_mul = (*), sj_zero = 0, sj_weights = (\<lambda>s x n. int (n + 1)), sj_sets = 1, sj_out = 1, sj_cap = 2, sj_count = 2,
     sj_planes = (\<lambda>w n b t i y. case w of None \<Rightarrow> int (10 * n + i)
       | Some (s, lo, hi) \<Rightarrow> if lo \<le> int i \<and> int i < hi then int (10 * n + (nat s + i)) else 0),
     sj_cols = 1, sj_rank = (0, 0)\<rparr>"

definition small_plane :: "nat \<Rightarrow> nat \<Rightarrow> nat \<Rightarrow> nat \<Rightarrow> nat \<Rightarrow> int" where
  "small_plane n b t r y = int (10 * n + r)"

definition small_block :: block where
  "small_block = \<lparr>bk_m0 = 0, bk_n0 = 0, bk_extents = None\<rparr>"

lemma small_facts:
  "planes_of small_job \<lparr>pp_passes = ps, pp_chunk = c, pp_rows = 2, pp_windows = [(0, 0, 2), (2, 0, 2)], pp_blocks = bs\<rparr> small_plane"
  "planes_of small_job \<lparr>pp_passes = ps, pp_chunk = c, pp_rows = 4, pp_windows = [(0, 0, 4)], pp_blocks = bs\<rparr> small_plane"
  "blocks_placed (4, 1) 4 1 [small_block]" "live_outputs small_job 2 = 1"
  "length ([[1, 0, 3, 2 :: int]] ! 0) div (1 * 1) = 4"
  by (simp_all add: planes_of_def small_job_def small_plane_def blocks_placed_def blocks_apart_def block_fits_def small_block_def live_outputs_def
      padded_weights_def numeral_2_eq_2)

lemma small_whole:
  "plan_passes [[1, 0, 3, 2]] 1 1 (\<lambda>_. 1) 1 8 blocks = Some
     \<lparr>pp_passes = [(0, 4)], pp_chunk = tile_units 1 8 1, pp_rows = 4, pp_windows = [(0, 0, 4)], pp_blocks = blocks\<rparr>"
proof -
  have r: "int (length ([[1, 0, 3, 2 :: int]] ! 0) div (1 * 1)) = 4" by simp
  have "plan_windows 4 1 cuts = Some (4, [(0, 0, 4)])" for cuts
    unfolding plan_windows_def Let_def by (simp add: tile_units_def TILE_BYTES_def)
  then show ?thesis unfolding plan_passes_def Let_def r by simp
qed

text \<open>
  C5: the streamed passes add what one sweep over the nodes would. On a plan built on the orbit cuts of a
  table, with node planes that are exact zeros outside a window's live rows, the loops return, and an
  element of a block that is not padding has received, on the outputs with a weight, every node's
  terms once, in node order, each node's sets in order, whatever the windows and the chunk; every
  element outside the blocks keeps its value.
\<close>

theorem stream_passes_reference:
  assumes "plan_passes lsrc side ns row_bytes chunk_bytes n_nodes blocks = Some plan" "1 \<le> n_nodes"
    and "L = length (lsrc ! 0) div (side * ns)" "1 \<le> L"
    and "1 \<le> sj_sets job" "\<forall>a w. sj_add job a (sj_mul job w (sj_zero job)) = a" "planes_of job plan full"
    and "blocks_placed shape L (sj_cols job) (pp_blocks plan)"
  shows "\<exists>carry'. stream_passes job plan shape None carry = Some carry' \<and>
    (\<forall>x<sj_out job. \<forall>b<length (pp_blocks plan). \<forall>r<L. \<forall>y<sj_cols job.
       carry' x (nat (bk_m0 (pp_blocks plan ! b) + int r)) (nat (bk_n0 (pp_blocks plan ! b) + int y)) =
       element_value job plan full b x r y (carry x (nat (bk_m0 (pp_blocks plan ! b) + int r)) (nat (bk_n0 (pp_blocks plan ! b) + int y)))) \<and>
    (\<forall>x<sj_out job. \<forall>j k. (\<forall>block\<in>set (pp_blocks plan). \<not> in_block block 0 L (sj_cols job) j k) \<longrightarrow> carry' x j k = carry x j k)"
proof -
  note cov = plan_passes_covers [OF assms(1-4)]
  obtain carry' where run: "stream_passes job plan shape None carry = Some carry'" using stream_run(1) [OF cov] by blast
  note at = stream_at [OF assms(5) cov assms(6-8) _ run]
  have "carry' x (nat (bk_m0 (pp_blocks plan ! b) + int r)) (nat (bk_n0 (pp_blocks plan ! b) + int y)) =
       element_value job plan full b x r y (carry x (nat (bk_m0 (pp_blocks plan ! b) + int r)) (nat (bk_n0 (pp_blocks plan ! b) + int y)))"
    if "x < sj_out job" "b < length (pp_blocks plan)" "r < L" "y < sj_cols job" for x b r y
  proof -
    have "block_fits shape (pp_blocks plan ! b) 0 L (sj_cols job)" using assms(8) nth_mem [OF that(2)] by (auto simp: blocks_placed_def)
    then show ?thesis using that by (intro at(1)) (auto simp: block_fits_def)
  qed
  then show ?thesis using run at(2) by blast
qed

theorem stream_passes_reference_witness:
  "\<exists>plan A. plan_passes [[1, 0, 3, 2]] 1 1 (\<lambda>_. 600000000) 1 8 [small_block] = Some plan \<and>
     stream_passes small_job plan (4, 1) None (\<lambda>_ _ _. 100) = Some A \<and> A 0 3 0 = 100 + 1 * 3 + 2 * 13"
proof -
  note p = small_passes [of "[small_block]"]
  let ?plan = "\<lparr>pp_passes = [(0, 2), (2, 2)], pp_chunk = tile_units 1 8 1, pp_rows = 2,
      pp_windows = [(0, 0, 2), (2, 0, 2)], pp_blocks = [small_block]\<rparr>"
  have z: "\<forall>a w. sj_add small_job a (sj_mul small_job w (sj_zero small_job)) = a" and n: "(1 :: int) \<le> 8" "(1 :: nat) \<le> 4"
    and job: "1 \<le> sj_sets small_job" "sj_cols small_job = 1" "sj_out small_job = 1" by (simp_all add: small_job_def)
  have placed: "blocks_placed (4, 1) 4 (sj_cols small_job) (pp_blocks ?plan)" using small_facts(3) by (simp only: job(2) pass_plan.select_convs)
  obtain A where A: "stream_passes small_job ?plan (4, 1) None (\<lambda>_ _ _. 100) = Some A"
    and at: "\<forall>x<sj_out small_job. \<forall>b<length (pp_blocks ?plan). \<forall>r<4. \<forall>y<sj_cols small_job.
      A x (nat (bk_m0 (pp_blocks ?plan ! b) + int r)) (nat (bk_n0 (pp_blocks ?plan ! b) + int y)) = element_value small_job ?plan small_plane b x r y 100"
    using stream_passes_reference [OF p n(1) small_facts(5) [symmetric] n(2) job(1) z small_facts(1) placed, of "\<lambda>_ _ _. 100"] by blast
  have "A 0 (nat (bk_m0 small_block + int 3)) (nat (bk_n0 small_block + int 0)) = element_value small_job ?plan small_plane 0 0 3 0 100"
    using at [rule_format, of 0 0 3 0] by (simp add: job)
  moreover have "element_value small_job ?plan small_plane 0 0 3 0 100 = 129"
    using small_facts(4) by (simp add: small_block_def element_value_def valid_at_def small_job_def node_terms_def add_terms_def
        padded_weights_def small_plane_def numeral_2_eq_2)
  ultimately have "A 0 3 0 = 129" by (simp add: small_block_def)
  then show ?thesis using p A by (intro exI conjI) (assumption | simp)+
qed

text \<open>
  C4: no result depends on the tile budget. Two plans of one table and one block list, whatever the
  bytes per row, the bytes per node and the planned node count, stream the same node planes to the
  same values, bit for bit.
\<close>

theorem stream_passes_any_plan:
  assumes "plan_passes lsrc side ns row_bytes chunk_bytes n_nodes blocks = Some plan" "1 \<le> n_nodes"
    and "plan_passes lsrc side ns row_bytes' chunk_bytes' n_nodes' blocks = Some plan'" "1 \<le> n_nodes'"
    and "L = length (lsrc ! 0) div (side * ns)" "1 \<le> L"
    and "1 \<le> sj_sets job" "\<forall>a w. sj_add job a (sj_mul job w (sj_zero job)) = a" "planes_of job plan full" "planes_of job plan' full"
    and "blocks_placed shape L (sj_cols job) blocks"
    and "stream_passes job plan shape None carry = Some A" "stream_passes job plan' shape None carry = Some A'" "x < sj_out job"
  shows "A x j k = A' x j k"
proof -
  have bs: "pp_blocks plan = blocks" "pp_blocks plan' = blocks"
    using assms(1,3) by (auto simp: plan_passes_def Let_def bind_eq_Some_conv)
  note cov = plan_passes_covers [OF assms(1,2,5,6)] plan_passes_covers [OF assms(3,4,5,6)]
  have placed: "blocks_placed shape L (sj_cols job) (pp_blocks plan)" "blocks_placed shape L (sj_cols job) (pp_blocks plan')"
    using assms(11) by (simp_all add: bs)
  note at = stream_at [OF assms(7) cov(1) assms(8,9) placed(1) assms(14,12)] and at' = stream_at [OF assms(7) cov(2) assms(8,10) placed(2) assms(14,13)]
  show ?thesis
  proof (cases "\<exists>b<length blocks. in_block (blocks ! b) 0 L (sj_cols job) j k")
    case True
    then obtain b where b: "b < length blocks" "in_block (blocks ! b) 0 L (sj_cols job) j k" by blast
    define r y where "r = nat (int j - bk_m0 (blocks ! b))" and "y = nat (int k - bk_n0 (blocks ! b))"
    have e: "bk_m0 (blocks ! b) + int r = int j" "bk_n0 (blocks ! b) + int y = int k" "r < L" "y < sj_cols job"
      using b(2) by (auto simp: in_block_def r_def y_def)
    have "element_value job plan full b x r y v = element_value job plan' full b x r y v" for v by (simp add: element_value_def bs)
    then show ?thesis using at(1) [of b r j y k] at'(1) [of b r j y k] b(1) e by (simp add: bs)
  next
    case False
    then have "\<forall>block\<in>set blocks. \<not> in_block block 0 L (sj_cols job) j k" by (metis in_set_conv_nth)
    then show ?thesis using at(2) at'(2) by (simp add: bs)
  qed
qed

theorem stream_passes_any_plan_witness:
  "\<exists>plan plan' A A'. plan_passes [[1, 0, 3, 2]] 1 1 (\<lambda>_. 600000000) 1 8 [small_block] = Some plan \<and>
     plan_passes [[1, 0, 3, 2]] 1 1 (\<lambda>_. 1) 1 8 [small_block] = Some plan' \<and> pp_rows plan = 2 \<and> pp_rows plan' = 4 \<and>
     stream_passes small_job plan (4, 1) None (\<lambda>_ _ _. 100) = Some A \<and>
     stream_passes small_job plan' (4, 1) None (\<lambda>_ _ _. 100) = Some A' \<and> A 0 3 0 = A' 0 3 0"
proof -
  note p = small_passes [of "[small_block]"] and p' = small_whole [of "[small_block]"]
  have z: "\<forall>a w. sj_add small_job a (sj_mul small_job w (sj_zero small_job)) = a" by (simp add: small_job_def)
  have L: "(4 :: nat) = length ([[1, 0, 3, 2 :: int]] ! 0) div (1 * 1)" by simp
  have n: "(1 :: int) \<le> 8" "(1 :: nat) \<le> 4" by simp_all
  obtain A where run: "stream_passes small_job \<lparr>pp_passes = [(0, 2), (2, 2)], pp_chunk = tile_units 1 8 1, pp_rows = 2,
      pp_windows = [(0, 0, 2), (2, 0, 2)], pp_blocks = [small_block]\<rparr> (4, 1) None (\<lambda>_ _ _. 100) = Some A"
    using stream_run(1) [OF plan_passes_covers [OF p n(1) L n(2)], of small_job "(4, 1)" "\<lambda>_ _ _. 100"] by blast
  obtain A' where run': "stream_passes small_job \<lparr>pp_passes = [(0, 4)], pp_chunk = tile_units 1 8 1, pp_rows = 4,
      pp_windows = [(0, 0, 4)], pp_blocks = [small_block]\<rparr> (4, 1) None (\<lambda>_ _ _. 100) = Some A'"
    using stream_run(1) [OF plan_passes_covers [OF p' n(1) L n(2)], of small_job "(4, 1)" "\<lambda>_ _ _. 100"] by blast
  have "A 0 3 0 = A' 0 3 0"
    using small_facts(3)
    by (intro stream_passes_any_plan [OF p n(1) p' n(1) L n(2) _ z small_facts(1) small_facts(2) _ run run']) (simp_all add: small_job_def)
  then show ?thesis using p p' run run' by (intro exI conjI) (assumption | simp)+
qed

section \<open>Segments\<close>

lemma band_unique:
  fixes a b j R :: int
  assumes "a * R \<le> j" "j < a * R + R" "b * R \<le> j" "j < b * R + R"
  shows "a = b"
proof -
  have R: "0 < R" using assms by linarith
  have "\<not> a < b" if "j < a * R + R" "b * R \<le> j" for a b
    using that R mult_right_mono [of "a + 1" b R] by (auto simp: distrib_right)
  then show ?thesis using assms by (meson linorder_neqE)
qed

text \<open>Every plane is \<open>cols\<close> wide, and a list without extents has one column offset.\<close>

definition uniform_blocks :: "nat \<Rightarrow> block list \<Rightarrow> bool" where
  "uniform_blocks cols blocks \<longleftrightarrow>
     (\<forall>b\<in>set blocks. case bk_extents b of None \<Rightarrow> True | Some (la, wa, lb, wb) \<Rightarrow> wb = int cols) \<and>
     ((\<forall>b\<in>set blocks. bk_extents b \<noteq> None) \<or> (\<forall>b\<in>set blocks. \<forall>b'\<in>set blocks. bk_n0 b = bk_n0 b'))"

lemma segment_width_uniform:
  assumes "uniform_blocks cols bs" "n0 \<in> set (map bk_n0 bs)"
  shows "segment_width bs (int cols) n0 = int cols"
    and "\<forall>b\<in>set bs. bk_extents b \<noteq> None \<Longrightarrow> segment_width bs c n0 = int cols"
proof -
  let ?b = "last (filter (\<lambda>b. bk_n0 b = n0) bs)"
  have "filter (\<lambda>b. bk_n0 b = n0) bs \<noteq> []" using assms(2) by (auto simp: filter_empty_conv)
  then have b: "?b \<in> set bs" using last_in_set by fastforce
  show "segment_width bs (int cols) n0 = int cols" using assms(1) b by (auto simp: segment_width_def uniform_blocks_def split: option.splits)
  show "segment_width bs c n0 = int cols" if "\<forall>b\<in>set bs. bk_extents b \<noteq> None"
    using assms(1) b that by (auto simp: segment_width_def uniform_blocks_def split: option.splits)
qed

lemma sum_list_const: "(\<And>c. c \<in> set xs \<Longrightarrow> f c = k) \<Longrightarrow> sum_list (map f xs) = int (length xs) * k" for f :: "'a \<Rightarrow> int"
  by (induction xs) (simp_all add: distrib_right)

lemma segment_width_sum:
  "uniform_blocks cols bs \<Longrightarrow> set xs \<subseteq> set (map bk_n0 bs) \<Longrightarrow> sum_list (map (segment_width bs (int cols)) xs) = int (length xs) * int cols"
  by (intro sum_list_const segment_width_uniform(1)) auto

lemma segment_col_uniform:
  assumes "uniform_blocks cols bs" "n0 \<in> set (map bk_n0 bs)"
  shows "segment_col bs (int cols) n0 = int (first_index n0 (sort (remdups (map bk_n0 bs)))) * int cols"
    and "segment_col bs 0 n0 = segment_col bs (int cols) n0"
proof -
  let ?ns = "sort (remdups (map bk_n0 bs))"
  have mem: "set (takeWhile (\<lambda>c. c \<noteq> n0) ?ns) \<subseteq> set (map bk_n0 bs)" by (auto dest: set_takeWhileD)
  show "segment_col bs (int cols) n0 = int (first_index n0 ?ns) * int cols"
    unfolding segment_col_def first_index_def by (rule segment_width_sum [OF assms(1) mem])
  show "segment_col bs 0 n0 = segment_col bs (int cols) n0"
  proof (cases "\<forall>b\<in>set bs. bk_extents b \<noteq> None")
    case True
    have "segment_width bs 0 c = segment_width bs (int cols) c" if "c \<in> set (takeWhile (\<lambda>c. c \<noteq> n0) ?ns)" for c
    proof -
      have c: "c \<in> set (map bk_n0 bs)" using mem that by blast
      show ?thesis using segment_width_uniform(1) [OF assms(1) c] segment_width_uniform(2) [OF assms(1) c True, of 0] by simp
    qed
    then have "map (segment_width bs 0) (takeWhile (\<lambda>c. c \<noteq> n0) ?ns) = map (segment_width bs (int cols)) (takeWhile (\<lambda>c. c \<noteq> n0) ?ns)"
      by (rule map_cong [OF refl])
    then show ?thesis by (simp only: segment_col_def)
  next
    case False
    then have all: "\<forall>b\<in>set bs. \<forall>b'\<in>set bs. bk_n0 b = bk_n0 b'" using assms(1) unfolding uniform_blocks_def by blast
    obtain b where "b \<in> set bs" "n0 = bk_n0 b" using assms(2) by auto
    moreover have "set ?ns = bk_n0 ` set bs" by simp
    ultimately have "\<forall>c\<in>set ?ns. c = n0" using all by (metis imageE)
    then have "takeWhile (\<lambda>c. c \<noteq> n0) ?ns = []" unfolding takeWhile_eq_Nil_iff by (metis hd_in_set)
    then show ?thesis unfolding segment_col_def by (simp only: list.map)
  qed
qed

lemma segment_fits:
  assumes u: "uniform_blocks (sj_cols job) (pp_blocks plan)" and R: "0 \<le> pp_rows plan"
    and seg: "segment_blocks plan p (int (sj_cols job)) = (bs, rows, width, rects)"
  shows "fst (segment_blocks plan 0 0) = bs"
    and "\<forall>block\<in>set bs. block_fits (nat rows, nat width) block 0 (nat (pp_rows plan)) (sj_cols job)"
proof -
  let ?bs = "pp_blocks plan" and ?R = "pp_rows plan" and ?cols = "sj_cols job"
  let ?ms = "sort (remdups (map bk_m0 ?bs))" and ?ns = "sort (remdups (map bk_n0 ?bs))"
  have e: "bs = map (\<lambda>b. \<lparr>bk_m0 = segment_row ?bs ?R (bk_m0 b), bk_n0 = segment_col ?bs (int ?cols) (bk_n0 b), bk_extents = bk_extents b\<rparr>) ?bs"
    "rows = int (length ?ms) * ?R" "width = int (length ?ns) * int ?cols"
    using seg segment_width_sum [OF u, of ?ns] by (auto simp: segment_blocks_def Let_def split: prod.splits)
  show "fst (segment_blocks plan 0 0) = bs"
    unfolding e segment_blocks_def Let_def by (auto simp: segment_col_uniform(2) [OF u] split: prod.splits)
  show "\<forall>block\<in>set bs. block_fits (nat rows, nat width) block 0 (nat ?R) ?cols"
  proof
    fix block assume "block \<in> set bs"
    then obtain b where b: "b \<in> set ?bs" "block = \<lparr>bk_m0 = segment_row ?bs ?R (bk_m0 b), bk_n0 = segment_col ?bs (int ?cols) (bk_n0 b), bk_extents = bk_extents b\<rparr>"
      unfolding e by auto
    have m: "first_index (bk_m0 b) ?ms < length ?ms" and n: "first_index (bk_n0 b) ?ns < length ?ns" using first_index_lt [of _ ?ms] first_index_lt [of _ ?ns] b(1) by simp_all
    have "int (Suc (first_index (bk_m0 b) ?ms)) * ?R \<le> rows" unfolding e by (intro mult_right_mono R) (use m in linarith)
    moreover have "int (Suc (first_index (bk_n0 b) ?ns)) * int ?cols \<le> width" unfolding e by (intro mult_right_mono) (use n in linarith)+
    moreover have "0 \<le> int (first_index (bk_m0 b) ?ms) * ?R" using R by simp
    moreover have "segment_col ?bs (int ?cols) (bk_n0 b) = int (first_index (bk_n0 b) ?ns) * int ?cols"
      using b(1) by (intro segment_col_uniform(1) [OF u]) simp
    ultimately show "block_fits (nat rows, nat width) block 0 (nat ?R) ?cols"
      using R by (simp add: block_fits_def b(2) segment_row_def distrib_right del: remdups.simps)
  qed
qed

lemma segment_apart:
  assumes u: "uniform_blocks (sj_cols job) (pp_blocks plan)" and R: "0 \<le> pp_rows plan" and apart: "blocks_apart L (sj_cols job) (pp_blocks plan)"
    and L: "0 < L" and fits: "\<forall>block\<in>set (pp_blocks plan). block_fits shape block 0 L (sj_cols job)"
    and seg: "segment_blocks plan p (int (sj_cols job)) = (bs, rows, width, rects)"
    and i: "i < length bs" "i' < length bs"
    and at: "in_block (bs ! i) 0 (nat (pp_rows plan)) (sj_cols job) j k" "in_block (bs ! i') 0 (nat (pp_rows plan)) (sj_cols job) j k"
  shows "i = i'"
proof -
  let ?bs = "pp_blocks plan" and ?R = "pp_rows plan" and ?cols = "sj_cols job"
  let ?ms = "sort (remdups (map bk_m0 ?bs))" and ?ns = "sort (remdups (map bk_n0 ?bs))"
  have e: "bs = map (\<lambda>b. \<lparr>bk_m0 = segment_row ?bs ?R (bk_m0 b), bk_n0 = segment_col ?bs (int ?cols) (bk_n0 b), bk_extents = bk_extents b\<rparr>) ?bs"
    using seg by (auto simp: segment_blocks_def Let_def split: prod.splits)
  have len: "i < length ?bs" "i' < length ?bs" using i by (simp_all add: e)
  have col: "segment_col ?bs (int ?cols) (bk_n0 (?bs ! q)) = int (first_index (bk_n0 (?bs ! q)) ?ns) * int ?cols" if "q < length ?bs" for q
    using that by (intro segment_col_uniform(1) [OF u]) simp
  have row_at: "int (first_index (bk_m0 (?bs ! q)) ?ms) * ?R \<le> int j \<and> int j < int (first_index (bk_m0 (?bs ! q)) ?ms) * ?R + ?R"
    and col_at: "int (first_index (bk_n0 (?bs ! q)) ?ns) * int ?cols \<le> int k \<and> int k < int (first_index (bk_n0 (?bs ! q)) ?ns) * int ?cols + int ?cols"
    if "q < length ?bs" "in_block (bs ! q) 0 (nat ?R) ?cols j k" for q
    using that R col [OF that(1)] by (auto simp: e in_block_def segment_row_def)
  have "first_index (bk_m0 (?bs ! i)) ?ms = first_index (bk_m0 (?bs ! i')) ?ms"
    using band_unique row_at [OF len(1) at(1)] row_at [OF len(2) at(2)] by (metis of_nat_eq_iff)
  then have m: "bk_m0 (?bs ! i) = bk_m0 (?bs ! i')" using len by (intro first_index_inj [of _ ?ms]) simp_all
  have "first_index (bk_n0 (?bs ! i)) ?ns = first_index (bk_n0 (?bs ! i')) ?ns"
    using band_unique col_at [OF len(1) at(1)] col_at [OF len(2) at(2)] by (metis of_nat_eq_iff)
  then have n: "bk_n0 (?bs ! i) = bk_n0 (?bs ! i')" using len by (intro first_index_inj [of _ ?ns]) simp_all
  have "0 \<le> bk_m0 (?bs ! i)" "0 \<le> bk_n0 (?bs ! i)" using fits nth_mem [OF len(1)] by (auto simp: block_fits_def)
  moreover have "0 < ?cols" using at(1) by (auto simp: in_block_def)
  ultimately have "in_block (?bs ! i) 0 L ?cols (nat (bk_m0 (?bs ! i))) (nat (bk_n0 (?bs ! i)))" using L by (simp add: in_block_def)
  moreover from this have "in_block (?bs ! i') 0 L ?cols (nat (bk_m0 (?bs ! i))) (nat (bk_n0 (?bs ! i)))" by (simp add: in_block_def m n)
  ultimately show ?thesis using apart len unfolding blocks_apart_def by blast
qed

lemma window_plane:
  assumes plan: "plan_covers plan L" and planes: "planes_of job plan full" and p: "p < length (pp_windows plan)" "pp_windows plan ! p = (s, lo, hi)"
    and i: "int i < pp_rows plan" "lo \<le> int i" "int i < hi"
  defines "window \<equiv> (if length (pp_windows plan) = 1 then None else Some (pp_windows plan ! p))"
  shows "sj_planes job window n b t i y = full n b t (nat s + i) y" "window_start window = s"
proof -
  have one: "s = 0 \<and> lo = 0 \<and> hi = int L" if "length (pp_windows plan) = 1" using plan_one_window [OF plan that] p by auto
  then show "window_start window = s" using p by (auto simp: window_def window_start_def)
  show "sj_planes job window n b t i y = full n b t (nat s + i) y"
  proof (cases "length (pp_windows plan) = 1")
    case True
    then show ?thesis using planes i(1) one [OF True] by (simp add: planes_of_def window_def)
  next
    case False
    have "(s, lo, hi) \<in> set (pp_windows plan)" using nth_mem [OF p(1)] p(2) by simp
    then have "sj_planes job (Some (s, lo, hi)) n b t i y = (if lo \<le> int i \<and> int i < hi then full n b t (nat s + i) y else sj_zero job)"
      using planes False i(1) unfolding planes_of_def by fastforce
    then show ?thesis using False p i by (simp add: window_def)
  qed
qed

text \<open>One pass over one cell of its segment: row \<open>i\<close> of the window, column \<open>y\<close> of block \<open>b\<close>.\<close>

lemma segment_pass_at:
  assumes sets: "1 \<le> sj_sets job" and plan: "plan_covers plan L" and planes: "planes_of job plan full"
    and placed: "blocks_placed shape L (sj_cols job) (pp_blocks plan)" and u: "uniform_blocks (sj_cols job) (pp_blocks plan)"
    and p: "p < length (pp_windows plan)" "pp_windows plan ! p = (s, lo, hi)"
    and seg: "segment_blocks plan p (int (sj_cols job)) = (bs, rows, width, rects)" and x: "x < sj_out job" and b: "b < length (pp_blocks plan)"
    and i: "lo \<le> int i" "int i < hi" and y: "y < sj_cols job" and at: "int j = bk_m0 (bs ! b) + int i" "int k = bk_n0 (bs ! b) + int y"
    and run: "stream_passes job plan (nat rows, nat width) (Some p) segment = Some segment'"
  shows "segment' x j k = element_value job plan full b x (nat s + i) y (segment x j k)"
proof -
  let ?bs = "pp_blocks plan" and ?R = "pp_rows plan" and ?cols = "sj_cols job" and ?u = "live_outputs job (sj_cap job)"
  let ?win = "if length (pp_windows plan) = 1 then None else Some (pp_windows plan ! p)"
  have geo: "0 \<le> s" "s + ?R \<le> int L" "0 \<le> lo" "hi \<le> ?R" and chunk: "1 \<le> pp_chunk plan"
    using plan nth_mem [OF p(1)] p(2) by (auto simp: plan_covers_def)
  have R: "0 \<le> ?R" "int i < ?R" and L: "0 < L" using geo i by linarith+
  have bs: "length bs = length ?bs" "bk_extents (bs ! b) = bk_extents (?bs ! b)"
    using seg b by (auto simp: segment_blocks_def Let_def split: prod.splits)
  note plane = window_plane [OF plan planes p R(2) i] and fits = segment_fits [OF u R(1) seg]
  have inb: "in_block (bs ! b) 0 (nat ?R) ?cols j k" using at y R by (simp add: in_block_def)
  have diff: "nat (int j - bk_m0 (bs ! b) - 0) = i" "nat (int k - bk_n0 (bs ! b)) = y" using at by auto
  have touch: "touches job plan ?win 0 ?u (bs ! b) x j k \<longleftrightarrow> x < ?u \<and> valid_at job (?bs ! b) 0 (nat s + i) y"
    unfolding touches_def plane(2) diff using inb geo(1) by (auto simp: valid_at_def bs(2) split: option.splits)
  have placed': "blocks_apart L ?cols ?bs" "\<forall>block\<in>set ?bs. block_fits shape block 0 L ?cols" using placed by (simp_all add: blocks_placed_def)
  have only: "q = b" if "q < length bs" "touches job plan ?win 0 ?u (bs ! q) x j k" for q
    using segment_apart [OF u R(1) placed'(1) L placed'(2) seg that(1), of b j k] inb that(2) b by (simp add: touches_def bs)
  have "(0 :: int) = (if True then 0 else window_start ?win)" "bs = (if True then fst (segment_blocks plan 0 0) else ?bs)"
    using fits(1) by simp_all
  note result = window_result_at [OF sets chunk x this fits(2), of ?u j k]
  have run': "segment' = window_result job plan (nat rows, nat width) ?u ?win True segment"
    using run unfolding stream_run(2) [OF plan] option.inject by (rule sym)
  show ?thesis
  proof (cases "touches job plan ?win 0 ?u (bs ! b) x j k")
    case True
    have "touches job plan ?win 0 ?u (bs ! q) x j k \<longleftrightarrow> q = b" if "q < length bs" for q using only that True by blast
    from result [OF this, of segment] have "segment' x j k = node_terms job (\<lambda>n t. sj_planes job ?win n b t i y) x [0..<sj_count job * sj_sets job] (segment x j k)"
      unfolding run' diff using b by (simp add: bs)
    then show ?thesis using True touch plane by (simp add: element_value_def)
  next
    case False
    have "touches job plan ?win 0 ?u (bs ! q) x j k \<longleftrightarrow> q = length bs" if "q < length bs" for q using only that False by blast
    from result [OF this, of segment] have "segment' x j k = segment x j k" unfolding run' by simp
    then show ?thesis using False touch by (auto simp: element_value_def)
  qed
qed

text \<open>
  C18: streaming one pass into its segment gives the whole tile's bytes. Where the segment holds the
  tile's values on a rectangle of \<open>segment_blocks\<close>, running the one pass on the segment leaves on that
  rectangle exactly what running every pass on the tile leaves on the place the rectangle goes back to.
\<close>

theorem stream_segment_bytes:
  assumes "plan_passes lsrc side ns row_bytes chunk_bytes n_nodes blocks = Some plan" "1 \<le> n_nodes"
    and "L = length (lsrc ! 0) div (side * ns)" "1 \<le> L"
    and "1 \<le> sj_sets job" "\<forall>a w. sj_add job a (sj_mul job w (sj_zero job)) = a" "planes_of job plan full"
    and "blocks_placed shape L (sj_cols job) (pp_blocks plan)" "uniform_blocks (sj_cols job) (pp_blocks plan)"
    and "stream_passes job plan shape None carry = Some carry'"
    and "p < length (pp_windows plan)" "segment_blocks plan p (int (sj_cols job)) = (bs, rows, width, rects)"
    and "stream_passes job plan (nat rows, nat width) (Some p) segment = Some segment'"
    and "(r0, c0, R0, C0, nr, nc) \<in> set rects" "x < sj_out job" "0 \<le> r" "r < nr" "0 \<le> c" "c < nc"
    and "segment x (nat (r0 + r)) (nat (c0 + c)) = carry x (nat (R0 + r)) (nat (C0 + c))"
  shows "segment' x (nat (r0 + r)) (nat (c0 + c)) = carry' x (nat (R0 + r)) (nat (C0 + c))"
proof -
  let ?bs = "pp_blocks plan" and ?R = "pp_rows plan" and ?cols = "sj_cols job" and ?u = "live_outputs job (sj_cap job)"
  note cov = plan_passes_covers [OF assms(1-4)]
  obtain s lo hi where w: "pp_windows plan ! p = (s, lo, hi)" by (cases "pp_windows plan ! p")
  have geo: "0 \<le> s" "s + ?R \<le> int L" "0 \<le> lo" "lo < hi" "hi \<le> ?R" and pass: "pp_passes plan ! p = (s + lo, hi - lo)"
    using cov nth_mem [OF assms(11)] assms(11) w by (auto simp: plan_covers_def)
  have R: "0 \<le> ?R" using geo by linarith
  have bs: "bs = map (\<lambda>b. \<lparr>bk_m0 = segment_row ?bs ?R (bk_m0 b), bk_n0 = segment_col ?bs (int ?cols) (bk_n0 b), bk_extents = bk_extents b\<rparr>) ?bs"
    and rects: "rects = map (\<lambda>b. (segment_row ?bs ?R (bk_m0 b) + lo, segment_col ?bs (int ?cols) (bk_n0 b), bk_m0 b + (s + lo), bk_n0 b, hi - lo,
        segment_width ?bs (int ?cols) (bk_n0 b))) ?bs"
    using assms(12) by (auto simp: segment_blocks_def Let_def pass w)
  obtain b where b: "b < length ?bs" "(r0, c0, R0, C0, nr, nc) = (segment_row ?bs ?R (bk_m0 (?bs ! b)) + lo, segment_col ?bs (int ?cols) (bk_n0 (?bs ! b)),
      bk_m0 (?bs ! b) + (s + lo), bk_n0 (?bs ! b), hi - lo, segment_width ?bs (int ?cols) (bk_n0 (?bs ! b)))"
    using assms(14) unfolding rects by (auto simp: in_set_conv_nth)
  have nc: "nc = int ?cols" using b segment_width_uniform(1) [OF assms(9)] by simp
  define i where "i = nat (lo + r)"
  have i: "int i = lo + r" "int i < ?R" "int i < hi" using assms(16,17) b(2) geo by (simp_all add: i_def)
  have row: "nat s + i < L" using i geo by linarith
  have seg_b: "bk_m0 (bs ! b) + int i = r0 + r" "bk_n0 (bs ! b) = c0" using b i(1) by (simp_all add: bs)
  have tile_b: "bk_m0 (?bs ! b) + int (nat s + i) = R0 + r" "bk_n0 (?bs ! b) = C0" using b(2) i(1) geo(1) by simp_all
  have fitb: "block_fits shape (?bs ! b) 0 L ?cols" using assms(8) nth_mem [OF b(1)] by (auto simp: blocks_placed_def)
  have fits: "block_fits (nat rows, nat width) (bs ! b) 0 (nat ?R) ?cols" using segment_fits(2) [OF assms(9) R assms(12)] b(1) by (simp add: bs)
  define j k y where "j = nat (r0 + r)" and "k = nat (c0 + c)" and "y = nat c"
  have cells: "int j = r0 + r" "int k = c0 + c" "int y = c" "y < ?cols"
    using seg_b(1,2) fits assms(18,19) nc by (auto simp: j_def k_def y_def block_fits_def)
  have "segment' x j k = element_value job plan full b x (nat s + i) y (segment x j k)"
    using i assms(16) cells seg_b by (intro segment_pass_at [OF assms(5) cov assms(7-9,11) w assms(12,15) b(1) _ _ _ _ _ assms(13)]) simp_all
  moreover have "carry' x (nat (R0 + r)) (nat (C0 + c)) = element_value job plan full b x (nat s + i) y (carry x (nat (R0 + r)) (nat (C0 + c)))"
  proof -
    have "0 \<le> R0 + r" "0 \<le> C0 + c" using tile_b fitb cells(3) of_nat_0_le_iff [of "nat s + i"] of_nat_0_le_iff [of y]
      unfolding block_fits_def by linarith+
    then show ?thesis using tile_b cells(3,4) row by (intro stream_at(1) [OF assms(5) cov assms(6-8,15,10) b(1)]) simp_all
  qed
  ultimately show ?thesis using assms(20) by (simp add: j_def k_def)
qed

theorem stream_segment_bytes_witness:
  "\<exists>plan A S. plan_passes [[1, 0, 3, 2]] 1 1 (\<lambda>_. 600000000) 1 8 [small_block] = Some plan \<and>
     stream_passes small_job plan (4, 1) None (\<lambda>_ _ _. 100) = Some A \<and>
     segment_blocks plan 1 1 = ([small_block], 2, 1, [(0, 0, 2, 0, 2, 1)]) \<and>
     stream_passes small_job plan (2, 1) (Some 1) (\<lambda>_ _ _. 100) = Some S \<and> S 0 1 0 = A 0 3 0"
proof -
  note p = small_passes [of "[small_block]"]
  let ?plan = "\<lparr>pp_passes = [(0, 2), (2, 2)], pp_chunk = tile_units 1 8 1, pp_rows = 2,
      pp_windows = [(0, 0, 2), (2, 0, 2)], pp_blocks = [small_block]\<rparr>"
  have z: "\<forall>a w. sj_add small_job a (sj_mul small_job w (sj_zero small_job)) = a" and n: "(1 :: int) \<le> 8" "(1 :: nat) \<le> 4"
    and job: "1 \<le> sj_sets small_job" "sj_cols small_job = 1" "sj_out small_job = 1" by (simp_all add: small_job_def)
  have placed: "blocks_placed (4, 1) 4 (sj_cols small_job) (pp_blocks ?plan)" using small_facts(3) by (simp only: job(2) pass_plan.select_convs)
  have uniform: "uniform_blocks (sj_cols small_job) (pp_blocks ?plan)" by (simp add: uniform_blocks_def small_block_def)
  have seg: "segment_blocks ?plan 1 1 = ([small_block], 2, 1, [(0, 0, 2, 0, 2, 1)])"
    by (simp add: segment_blocks_def segment_row_def segment_col_def segment_width_def small_block_def first_index_def)
  note cov = plan_passes_covers [OF p n(1) small_facts(5) [symmetric] n(2)]
  obtain A where A: "stream_passes small_job ?plan (4, 1) None (\<lambda>_ _ _. 100) = Some A" using stream_run(1) [OF cov] by blast
  obtain S where S: "stream_passes small_job ?plan (nat 2, nat 1) (Some 1) (\<lambda>_ _ _. 100) = Some S" using stream_run(2) [OF cov] by blast
  have "S 0 (nat (0 + 1)) (nat (0 + 0)) = A 0 (nat (2 + 1)) (nat (0 + 0))"
    by (rule stream_segment_bytes [OF p n(1) small_facts(5) [symmetric] n(2) job(1) z small_facts(1) placed uniform A, of 1 "[small_block]" 2 1
          "[(0, 0, 2, 0, 2, 1)]" "\<lambda>_ _ _. 100" S 0 0 2 0 2 1 0 1 0]) (use S seg job in \<open>simp_all add: job(2)\<close>)
  then have "S 0 1 0 = A 0 3 0" by simp
  then show ?thesis using p A S seg by (intro exI conjI) (assumption | simp)+
qed

end
