(* ===== verification/BandWindow.thy ===== *)
theory BandWindow
  imports NumPyOps
begin

text \<open>
  \<open>src/common/band_degeneracy.py\<close>: band windows whose boundaries cut no degenerate multiplet.

  Energies are finite: a spectrum is the band count with one row of \<open>nb\<close> real numbers per k (a raw
  shape check is carried by the type). Only the comparisons of the gaps matter; the rounding of the
  difference of two energies is not modelled. The outer boundaries are \<open>inf\<close> or \<open>nan\<close> as in the code. An
  exception carries what its message quotes: the list of findings and the counts of its fix line.
\<close>

section \<open>The code\<close>

type_synonym spectrum = "nat \<times> real list list"

datatype finding =
    SplitDegenerate int nat real
  | ValenceCut int nat real int int
  | ConductionCut int nat real int int
  | TopOpen nat

datatype fix_line = SetCounts int int | ChangeInput "(int \<times> int) option"

datatype band_error =
    NoKPoints
  | BadBounds int int nat
  | NoCleanBoundary int int int
  | UnknownMode string
  | BoundaryOutside
  | WindowDegenerate "finding list" fix_line
  | WindowCut "(string \<times> int \<times> nat \<times> real) list"

datatype band_warning = Snapped "finding list" | NotSnapped "finding list" | CutsMultiplet "(string \<times> int \<times> nat \<times> real) list"

definition MODES :: "string list" where
  "MODES = [''strict'', ''snap'', ''off'']"

definition DEFAULT_MODE :: string where
  "DEFAULT_MODE = ''strict''"

definition EV_PER_RY :: real where
  "EV_PER_RY = 13.6056980659"

definition DEGENERACY_TOL_RY :: real where
  "DEGENERACY_TOL_RY = 0.001 / EV_PER_RY"

definition boundary_gaps_at :: "real list list \<Rightarrow> nat \<Rightarrow> real list" where
  "boundary_gaps_at rows b = map (\<lambda>r. \<bar>r ! b - r ! (b - 1)\<bar>) rows"

definition boundary_min_gaps :: "spectrum \<Rightarrow> bool \<Rightarrow> (band_error, xfloat list) result" where
  "boundary_min_gaps e is_full_spectrum =
     (case e of (nb, rows) \<Rightarrow>
        if 2 \<le> nb \<and> rows = [] then Inl NoKPoints
        else
          let outer = (if is_full_spectrum then PosInf else NaN)
          in Inr (map (\<lambda>b. if 1 \<le> b \<and> b < nb then Num (Min (set (boundary_gaps_at rows b))) else outer) [0..<nb + 1]))"

definition tightest_k :: "spectrum \<Rightarrow> int \<Rightarrow> (band_error, nat \<times> real) result" where
  "tightest_k e b =
     andthen (mapE (\<lambda>r. case (py_index r b, py_index r (b - 1)) of (Some u, Some l) \<Rightarrow> Inr \<bar>u - l\<bar> | _ \<Rightarrow> Inl BoundaryOutside) (snd e)) (\<lambda>d.
       if d = [] then Inl NoKPoints
       else let k = first_index (Min (set d)) d in Inr (k, d ! k))"

text \<open>The candidates of \<open>snap_cut_to_clean_boundary\<close> in the order it tries them.\<close>

definition cut_candidates :: "int \<Rightarrow> int \<Rightarrow> int \<Rightarrow> int list" where
  "cut_candidates wanted lo hi = concat (map (\<lambda>delta. [wanted - delta, wanted + delta]) [0..max (wanted - lo) (hi - wanted)])"

definition snap_cut_to_clean_boundary :: "spectrum \<Rightarrow> int \<Rightarrow> real \<Rightarrow> int \<Rightarrow> int option \<Rightarrow> (band_error, int) result" where
  "snap_cut_to_clean_boundary e wanted tol lo hi =
     (let nb = int (fst e); hi = (case hi of None \<Rightarrow> nb | Some h \<Rightarrow> h) in
      if \<not> (0 \<le> lo \<and> lo \<le> hi \<and> hi \<le> nb) then Inl (BadBounds lo hi (fst e))
      else andthen (boundary_min_gaps e False) (\<lambda>gaps.
        let wanted = min (max wanted lo) hi
        in case find (\<lambda>cand. lo \<le> cand \<and> cand \<le> hi \<and> xf_less (Num tol) (gaps ! nat cand)) (cut_candidates wanted lo hi) of
             Some cand \<Rightarrow> Inr cand
           | None \<Rightarrow> Inl (NoCleanBoundary lo hi wanted)))"

text \<open>The two loops of \<open>resolve_band_window\<close>.\<close>

function widen_down :: "xfloat list \<Rightarrow> real \<Rightarrow> int \<Rightarrow> (band_error, int) result" where
  "widen_down gaps tol b =
     (if 0 < b then
        (case py_index gaps b of None \<Rightarrow> Inl BoundaryOutside
         | Some g \<Rightarrow> if xf_le g (Num tol) then widen_down gaps tol (b - 1) else Inr b)
      else Inr b)"
  by pat_completeness auto
termination by (relation "measure (\<lambda>(gaps, tol, b). nat b)") auto

function widen_up :: "xfloat list \<Rightarrow> real \<Rightarrow> int \<Rightarrow> int \<Rightarrow> (band_error, int) result" where
  "widen_up gaps tol nb b =
     (if b < nb then
        (case py_index gaps b of None \<Rightarrow> Inl BoundaryOutside
         | Some g \<Rightarrow> if xf_le g (Num tol) then widen_up gaps tol nb (b + 1) else Inr b)
      else Inr b)"
  by pat_completeness auto
termination by (relation "measure (\<lambda>(gaps, tol, nb, b). nat (nb - b))") auto

declare widen_down.simps [simp del] widen_up.simps [simp del]

definition window_findings ::
    "spectrum \<Rightarrow> real \<Rightarrow> int \<Rightarrow> xfloat list \<Rightarrow> int \<Rightarrow> int \<Rightarrow> int \<Rightarrow> int \<Rightarrow> (band_error, finding list \<times> bool) result" where
  "window_findings e tol n_occ gaps lo hi lo_new hi_new =
     (let nb = int (fst e); at_split = (0 < n_occ \<and> n_occ < nb \<and> xf_le (gaps ! nat n_occ) (Num tol));
          top_open = (hi_new = nb \<and> hi_new \<noteq> hi \<and> 2 \<le> nb \<and> xf_le (gaps ! nat (nb - 1)) (Num tol)) in
      andthen (if at_split then andthen (tightest_k e n_occ) (\<lambda>(k, g). Inr [SplitDegenerate n_occ k g]) else Inr []) (\<lambda>f1.
      andthen (if lo_new \<noteq> lo then andthen (tightest_k e lo) (\<lambda>(k, g). Inr [ValenceCut lo k g lo_new (n_occ - lo_new)]) else Inr []) (\<lambda>f2.
      andthen (if hi_new \<noteq> hi then andthen (tightest_k e hi) (\<lambda>(k, g). Inr [ConductionCut hi k g hi_new (hi_new - n_occ)]) else Inr []) (\<lambda>f3.
        Inr (f1 @ f2 @ f3 @ (if top_open then [TopOpen (fst e)] else []), at_split \<or> top_open)))))"

definition resolve_band_window ::
    "spectrum \<Rightarrow> int \<Rightarrow> int \<Rightarrow> int \<Rightarrow> real \<Rightarrow> string \<Rightarrow> (band_error, (int \<times> int) \<times> band_warning option) result" where
  "resolve_band_window e n_occ n_val n_cond tol mode =
     (if mode \<notin> set MODES then Inl (UnknownMode mode)
      else if mode = ''off'' then Inr ((n_val, n_cond), None)
      else
        andthen (boundary_min_gaps e False) (\<lambda>gaps.
        let lo = n_occ - n_val; hi = n_occ + n_cond in
        andthen (widen_down gaps tol lo) (\<lambda>lo_new.
        andthen (widen_up gaps tol (int (fst e)) hi) (\<lambda>hi_new.
        andthen (window_findings e tol n_occ gaps lo hi lo_new hi_new) (\<lambda>(findings, unrepairable).
          if findings = [] then Inr ((n_val, n_cond), None)
          else
            let new = (n_occ - lo_new, hi_new - n_occ) in
            if mode = ''strict'' then
              Inl (WindowDegenerate findings
                (if \<not> unrepairable then SetCounts (fst new) (snd new) else ChangeInput (if new \<noteq> (n_val, n_cond) then Some new else None)))
            else Inr (new, Some (if new \<noteq> (n_val, n_cond) then Snapped findings else NotSnapped findings)))))))"

definition check_band_window :: "spectrum \<Rightarrow> int \<Rightarrow> int \<Rightarrow> real \<Rightarrow> string \<Rightarrow> (band_error, band_warning option) result" where
  "check_band_window e b_min b_max tol mode =
     (if mode \<notin> set MODES then Inl (UnknownMode mode)
      else if mode = ''off'' then Inr None
      else
        andthen (boundary_min_gaps e False) (\<lambda>gaps.
        andthen (mapE (\<lambda>(b, nm).
            if 0 < b \<and> b < int (fst e) \<and> xf_le (gaps ! nat b) (Num tol)
            then andthen (tightest_k e b) (\<lambda>(k, g). Inr [(nm, b, k, g)]) else Inr [])
          [(b_min, ''lower''), (b_max, ''upper'')]) (\<lambda>parts.
          let bad = concat parts in
          if bad = [] then Inr None
          else if mode = ''strict'' then Inl (WindowCut bad) else Inr (Some (CutsMultiplet bad)))))"

section \<open>Clean boundaries\<close>

text \<open>A spectrum as loaded: k points, rows of the band count.\<close>

definition spectrum_ok :: "spectrum \<Rightarrow> bool" where
  "spectrum_ok e \<longleftrightarrow> snd e \<noteq> [] \<and> (\<forall>r\<in>set (snd e). length r = fst e)"

text \<open>No multiplet is cut: at every k the two bands of the boundary are further apart than \<open>tol\<close>.
  An edge of the spectrum cuts nothing that it can show.\<close>

definition clean :: "spectrum \<Rightarrow> real \<Rightarrow> int \<Rightarrow> bool" where
  "clean e tol b \<longleftrightarrow> b \<le> 0 \<or> int (fst e) \<le> b \<or> (\<forall>r\<in>set (snd e). tol < \<bar>r ! nat b - r ! (nat b - 1)\<bar>)"

definition interior_gaps :: "spectrum \<Rightarrow> xfloat list" where
  "interior_gaps e = map (\<lambda>b. if 1 \<le> b \<and> b < fst e then Num (Min (set (boundary_gaps_at (snd e) b))) else NaN) [0..<fst e + 1]"

lemma gaps_ok: "spectrum_ok e \<Longrightarrow> boundary_min_gaps e False = Inr (interior_gaps e)"
  by (cases e) (auto simp: spectrum_ok_def boundary_min_gaps_def interior_gaps_def Let_def)

lemma interior_gap:
  assumes "spectrum_ok e" "0 \<le> b" "b \<le> int (fst e)"
  shows "py_index (interior_gaps e) b = Some (interior_gaps e ! nat b)"
    "0 < b \<Longrightarrow> b < int (fst e) \<Longrightarrow> xf_le (interior_gaps e ! nat b) (Num tol) \<longleftrightarrow> \<not> clean e tol b"
    "xf_less (Num tol) (interior_gaps e ! nat b) \<longleftrightarrow> 0 < b \<and> b < int (fst e) \<and> clean e tol b"
proof -
  have len: "length (interior_gaps e) = fst e + 1" by (simp add: interior_gaps_def)
  then show "py_index (interior_gaps e) b = Some (interior_gaps e ! nat b)" using assms(2,3) by (simp add: py_index_def Let_def)
  have at: "interior_gaps e ! nat b = (if 0 < b \<and> b < int (fst e) then Num (Min (set (boundary_gaps_at (snd e) (nat b)))) else NaN)"
    using assms(2,3) by (auto simp: interior_gaps_def nth_append)
  have "set (boundary_gaps_at (snd e) (nat b)) \<noteq> {}" using assms(1) by (simp add: spectrum_ok_def boundary_gaps_at_def)
  then have m: "tol < Min (set (boundary_gaps_at (snd e) (nat b))) \<longleftrightarrow> (\<forall>r\<in>set (snd e). tol < \<bar>r ! nat b - r ! (nat b - 1)\<bar>)"
    by (simp add: boundary_gaps_at_def)
  then show "0 < b \<Longrightarrow> b < int (fst e) \<Longrightarrow> xf_le (interior_gaps e ! nat b) (Num tol) \<longleftrightarrow> \<not> clean e tol b"
    using at by (auto simp: clean_def xf_le_def not_less)
  show "xf_less (Num tol) (interior_gaps e ! nat b) \<longleftrightarrow> 0 < b \<and> b < int (fst e) \<and> clean e tol b"
    using at m by (auto simp: clean_def)
qed

section \<open>The nearest clean boundary\<close>

lemma find_outward:
  "0 \<le> a \<Longrightarrow> case find P (concat (map (\<lambda>d. [x - d, x + d]) [a..m])) of
     Some c \<Rightarrow> P c \<and> a \<le> \<bar>c - x\<bar> \<and> \<bar>c - x\<bar> \<le> m \<and>
       (\<forall>c'. P c' \<and> a \<le> \<bar>c' - x\<bar> \<and> \<bar>c' - x\<bar> \<le> m \<longrightarrow> \<bar>c - x\<bar> \<le> \<bar>c' - x\<bar> \<and> (\<bar>c' - x\<bar> = \<bar>c - x\<bar> \<longrightarrow> c \<le> c'))
   | None \<Rightarrow> \<forall>c'. a \<le> \<bar>c' - x\<bar> \<and> \<bar>c' - x\<bar> \<le> m \<longrightarrow> \<not> P c'" for x a m :: int
proof (induction "nat (m - a + 1)" arbitrary: a)
  case 0
  then show ?case by auto
next
  case (Suc n)
  let ?rest = "concat (map (\<lambda>d. [x - d, x + d]) [a + 1..m])"
  have split: "concat (map (\<lambda>d. [x - d, x + d]) [a..m]) = (x - a) # (x + a) # ?rest" using Suc(2) by (simp add: upto_rec1)
  have two: "\<bar>c' - x\<bar> = a \<longleftrightarrow> c' = x - a \<or> c' = x + a" for c' using Suc.prems by arith
  have next_a: "a \<le> \<bar>c' - x\<bar> \<longleftrightarrow> c' = x - a \<or> c' = x + a \<or> a + 1 \<le> \<bar>c' - x\<bar>" for c' using two [of c'] by arith
  have am: "a \<le> m" using Suc(2) by simp
  have n: "n = nat (m - (a + 1) + 1)" using Suc(2) by linarith
  note IH = Suc(1) [OF n]
  show ?case
  proof (cases "P (x - a)")
    case True
    then show ?thesis using Suc.prems am two unfolding split by auto
  next
    case np: False
    show ?thesis
    proof (cases "P (x + a)")
      case True
      then show ?thesis using Suc.prems am np two unfolding split by (auto simp: next_a)
    next
      case False
      then show ?thesis using np Suc(2) Suc.prems IH unfolding split by (auto simp: next_a split: option.splits)
    qed
  qed
qed

definition cut_choice :: "spectrum \<Rightarrow> real \<Rightarrow> int \<Rightarrow> int \<Rightarrow> int \<Rightarrow> bool" where
  "cut_choice e tol lo hi c \<longleftrightarrow> lo \<le> c \<and> c \<le> hi \<and> 0 < c \<and> c < int (fst e) \<and> clean e tol c"

text \<open>
  C35: \<open>snap_cut_to_clean_boundary\<close> returns the clean interior boundary nearest the clamped request, the
  lower of two equally near, and refuses exactly when the bounds are bad or hold no clean interior
  boundary. In particular an endpoint of the search range is returned only when it is clean.
\<close>

theorem snap_cut_nearest:
  fixes wanted :: int
  assumes "spectrum_ok e" "0 \<le> lo" "lo \<le> hi" "hi \<le> int (fst e)"
  defines "x \<equiv> min (max wanted lo) hi"
  shows "case snap_cut_to_clean_boundary e wanted tol lo (Some hi) of
      Inr c \<Rightarrow> cut_choice e tol lo hi c \<and> (\<forall>c'. cut_choice e tol lo hi c' \<longrightarrow> \<bar>c - x\<bar> \<le> \<bar>c' - x\<bar> \<and> (\<bar>c' - x\<bar> = \<bar>c - x\<bar> \<longrightarrow> c \<le> c'))
    | Inl err \<Rightarrow> err = NoCleanBoundary lo hi x \<and> (\<nexists>c. cut_choice e tol lo hi c)"
proof -
  let ?P = "\<lambda>cand. lo \<le> cand \<and> cand \<le> hi \<and> xf_less (Num tol) (interior_gaps e ! nat cand)"
  have P: "?P c \<longleftrightarrow> cut_choice e tol lo hi c" for c
    using interior_gap(3) [OF assms(1), of c tol] assms(2-4) by (auto simp: cut_choice_def)
  have range: "0 \<le> \<bar>c - x\<bar> \<and> \<bar>c - x\<bar> \<le> max (x - lo) (hi - x)" if "cut_choice e tol lo hi c" for c
    using that by (auto simp: cut_choice_def)
  have run: "snap_cut_to_clean_boundary e wanted tol lo (Some hi) =
      (case find ?P (cut_candidates x lo hi) of Some c \<Rightarrow> Inr c | None \<Rightarrow> Inl (NoCleanBoundary lo hi x))"
    using assms(2-4) by (simp add: snap_cut_to_clean_boundary_def Let_def gaps_ok [OF assms(1)] x_def cong: option.case_cong)
  have "find ?P (cut_candidates x lo hi) = find (cut_choice e tol lo hi) (cut_candidates x lo hi)" by (rule arg_cong [where f = "\<lambda>f. find f _"], rule ext, rule P)
  then show ?thesis
    unfolding run cut_candidates_def using find_outward [where a = 0 and P = "cut_choice e tol lo hi" and x = x and m = "max (x - lo) (hi - x)"] range
    by (auto split: option.splits)
qed

theorem snap_cut_nearest_witness:
  "snap_cut_to_clean_boundary (5, [[0, 1, 1, 2, 4], [0, 2, 2, 3, 5 :: real]]) 2 (1/10) 1 (Some 4) = Inr 1"
proof -
  let ?e = "(5, [[0, 1, 1, 2, 4], [0, 2, 2, 3, 5 :: real]])"
  have "spectrum_ok ?e" by (simp add: spectrum_ok_def)
  moreover have "min (max 2 1) 4 = (2 :: int)" by simp
  ultimately have c: "case snap_cut_to_clean_boundary ?e 2 (1/10) 1 (Some 4) of
      Inr c \<Rightarrow> cut_choice ?e (1/10) 1 4 c \<and> (\<forall>c'. cut_choice ?e (1/10) 1 4 c' \<longrightarrow> \<bar>c - 2\<bar> \<le> \<bar>c' - 2\<bar> \<and> (\<bar>c' - 2\<bar> = \<bar>c - 2\<bar> \<longrightarrow> c \<le> c'))
    | Inl err \<Rightarrow> err = NoCleanBoundary 1 4 2 \<and> (\<nexists>c. cut_choice ?e (1/10) 1 4 c)"
    using snap_cut_nearest [where e = ?e and lo = 1 and hi = 4 and tol = "1/10" and wanted = 2] by (simp cong: sum.case_cong)
  have good: "clean ?e (1/10) 1" "clean ?e (1/10) 3" "\<not> clean ?e (1/10) 2" by (simp_all add: clean_def numeral_2_eq_2)
  show ?thesis
  proof (cases "snap_cut_to_clean_boundary ?e 2 (1/10) 1 (Some 4)")
    case (Inl err)
    then have "\<not> cut_choice ?e (1/10) 1 4 1" using c by simp
    then show ?thesis using good by (simp add: cut_choice_def)
  next
    case (Inr n)
    have one: "cut_choice ?e (1/10) 1 4 1" using good by (simp add: cut_choice_def)
    then have "\<bar>n - 2\<bar> \<le> 1" "\<bar>n - 2\<bar> = 1 \<longrightarrow> n \<le> 1" "cut_choice ?e (1/10) 1 4 n" using c Inr by fastforce+
    moreover have "n \<noteq> 2" using \<open>cut_choice ?e (1/10) 1 4 n\<close> good(3) by (auto simp: cut_choice_def)
    ultimately have "n = 1" by arith
    then show ?thesis using Inr by simp
  qed
qed

section \<open>The window resolver\<close>

text \<open>The nearest clean boundary below, and above: what the two loops reach.\<close>

lemma widen_down_spec:
  "spectrum_ok e \<Longrightarrow> b \<le> int (fst e) \<Longrightarrow>
   \<exists>b'. widen_down (interior_gaps e) tol b = Inr b' \<and> b' \<le> b \<and> min b 0 \<le> b' \<and> clean e tol b' \<and> (\<forall>c. b' < c \<and> c \<le> b \<longrightarrow> \<not> clean e tol c)"
proof (induction "nat b" arbitrary: b)
  case 0
  then show ?case by (subst widen_down.simps) (auto simp: clean_def)
next
  case (Suc n)
  then have b: "0 < b" by simp
  note gap = interior_gap [OF Suc.prems(1) order_less_imp_le [OF b] Suc.prems(2)]
  have run: "widen_down (interior_gaps e) tol b =
      (if xf_le (interior_gaps e ! nat b) (Num tol) then widen_down (interior_gaps e) tol (b - 1) else Inr b)"
    using b gap(1) by (subst widen_down.simps) simp
  show ?case
  proof (cases "clean e tol b")
    case True
    have "\<not> xf_le (interior_gaps e ! nat b) (Num tol)"
    proof (cases "b < int (fst e)")
      case False
      then have "interior_gaps e ! nat b = NaN" using Suc.prems(2) by (simp add: interior_gaps_def nth_append)
      then show ?thesis by (simp add: xf_le_def)
    qed (use gap(2) b True in simp)
    then show ?thesis using run True b by auto
  next
    case False
    then have "b < int (fst e)" using b by (auto simp: clean_def)
    then have "widen_down (interior_gaps e) tol b = widen_down (interior_gaps e) tol (b - 1)" using run gap(2) b False by simp
    moreover obtain b' where "widen_down (interior_gaps e) tol (b - 1) = Inr b'" "b' \<le> b - 1" "min (b - 1) 0 \<le> b'" "clean e tol b'"
        "\<forall>c. b' < c \<and> c \<le> b - 1 \<longrightarrow> \<not> clean e tol c"
    proof -
      have "n = nat (b - 1)" using Suc(2) by linarith
      from Suc(1) [OF this] show ?thesis using that Suc.prems by fastforce
    qed
    ultimately show ?thesis using False b by (intro exI [of _ b']) (auto simp: order_le_less)
  qed
qed

lemma widen_up_spec:
  "spectrum_ok e \<Longrightarrow> 0 \<le> b \<Longrightarrow> b \<le> int (fst e) \<Longrightarrow>
   \<exists>b'. widen_up (interior_gaps e) tol (int (fst e)) b = Inr b' \<and> b \<le> b' \<and> b' \<le> int (fst e) \<and> clean e tol b' \<and> (\<forall>c. b \<le> c \<and> c < b' \<longrightarrow> \<not> clean e tol c)"
proof (induction "nat (int (fst e) - b)" arbitrary: b)
  case 0
  then show ?case by (subst widen_up.simps) (auto simp: clean_def)
next
  case (Suc n)
  then have b: "b < int (fst e)" by simp
  note gap = interior_gap [OF Suc.prems]
  have run: "widen_up (interior_gaps e) tol (int (fst e)) b =
      (if xf_le (interior_gaps e ! nat b) (Num tol) then widen_up (interior_gaps e) tol (int (fst e)) (b + 1) else Inr b)"
    using b gap(1) by (subst widen_up.simps) simp
  show ?case
  proof (cases "clean e tol b")
    case True
    have "\<not> xf_le (interior_gaps e ! nat b) (Num tol)"
    proof (cases "0 < b")
      case False
      then have "interior_gaps e ! nat b = NaN" using Suc.prems(2) by (simp add: interior_gaps_def nth_append)
      then show ?thesis by (simp add: xf_le_def)
    qed (use gap(2) b True in simp)
    then show ?thesis using run True b by auto
  next
    case False
    then have "0 < b" using b by (auto simp: clean_def)
    then have "widen_up (interior_gaps e) tol (int (fst e)) b = widen_up (interior_gaps e) tol (int (fst e)) (b + 1)" using run gap(2) b False by simp
    moreover obtain b' where "widen_up (interior_gaps e) tol (int (fst e)) (b + 1) = Inr b'" "b + 1 \<le> b'" "b' \<le> int (fst e)" "clean e tol b'"
        "\<forall>c. b + 1 \<le> c \<and> c < b' \<longrightarrow> \<not> clean e tol c"
    proof -
      have "n = nat (int (fst e) - (b + 1))" using Suc(2) by linarith
      from Suc(1) [OF this] show ?thesis using that Suc.prems b by fastforce
    qed
    moreover have "\<not> clean e tol c" if "b \<le> c" "c < b'" for c using that False \<open>\<forall>c. b + 1 \<le> c \<and> c < b' \<longrightarrow> \<not> clean e tol c\<close> by (cases "c = b") auto
    ultimately show ?thesis using b by (intro exI [of _ b']) auto
  qed
qed

lemma tightest_k_returns:
  assumes "spectrum_ok e" "0 < b" "b < int (fst e)"
  obtains k g where "tightest_k e b = Inr (k, g)"
proof -
  have "mapE (\<lambda>r. case (py_index r b, py_index r (b - 1)) of (Some u, Some l) \<Rightarrow> Inr \<bar>u - l\<bar> | _ \<Rightarrow> Inl BoundaryOutside) rs = Inr (map (\<lambda>r. \<bar>r ! nat b - r ! nat (b - 1)\<bar>) rs)"
    if "\<forall>r\<in>set rs. length r = fst e" for rs
    using that assms(2,3) by (induction rs) (simp_all add: py_index_def Let_def)
  from this [of "snd e"] assms(1) show ?thesis using that unfolding tightest_k_def spectrum_ok_def Let_def by fastforce
qed

definition request_ok :: "spectrum \<Rightarrow> int \<Rightarrow> int \<Rightarrow> int \<Rightarrow> bool" where
  "request_ok e n_occ n_val n_cond \<longleftrightarrow> spectrum_ok e \<and> 0 \<le> n_val \<and> n_val \<le> n_occ \<and> 0 \<le> n_cond \<and> n_occ + n_cond \<le> int (fst e)"

text \<open>Which findings there are, and which of them widening cannot repair.\<close>

lemma findings_spec:
  assumes req: "request_ok e n_occ n_val n_cond"
    and lo: "lo_new \<le> n_occ - n_val" "clean e tol lo_new" "0 \<le> lo_new" "\<forall>c. lo_new < c \<and> c \<le> n_occ - n_val \<longrightarrow> \<not> clean e tol c"
    and hi: "n_occ + n_cond \<le> hi_new" "hi_new \<le> int (fst e)" "clean e tol hi_new" "\<forall>c. n_occ + n_cond \<le> c \<and> c < hi_new \<longrightarrow> \<not> clean e tol c"
  shows "\<exists>fs. window_findings e tol n_occ (interior_gaps e) (n_occ - n_val) (n_occ + n_cond) lo_new hi_new =
      Inr (fs, \<not> clean e tol n_occ \<or> (hi_new = int (fst e) \<and> hi_new \<noteq> n_occ + n_cond)) \<and>
    (fs = [] \<longleftrightarrow> clean e tol n_occ \<and> lo_new = n_occ - n_val \<and> hi_new = n_occ + n_cond)"
proof -
  have ok: "spectrum_ok e" and r: "0 \<le> n_val" "n_val \<le> n_occ" "0 \<le> n_cond" "n_occ + n_cond \<le> int (fst e)" using req by (simp_all add: request_ok_def)
  have split: "(0 < n_occ \<and> n_occ < int (fst e) \<and> xf_le (interior_gaps e ! nat n_occ) (Num tol)) = (\<not> clean e tol n_occ)"
    using interior_gap(2) [OF ok, of n_occ tol] r by (auto simp: clean_def)
  have dirty: "0 < b \<and> b < int (fst e)" if "\<not> clean e tol b" for b using that by (auto simp: clean_def)
  have lod: "lo_new \<noteq> n_occ - n_val \<Longrightarrow> \<not> clean e tol (n_occ - n_val)" using lo by auto
  have hid: "hi_new \<noteq> n_occ + n_cond \<Longrightarrow> \<not> clean e tol (n_occ + n_cond)" using hi by auto
  have top: "(hi_new = int (fst e) \<and> hi_new \<noteq> n_occ + n_cond \<and> 2 \<le> int (fst e) \<and> xf_le (interior_gaps e ! nat (int (fst e) - 1)) (Num tol)) =
      (hi_new = int (fst e) \<and> hi_new \<noteq> n_occ + n_cond)"
  proof -
    have "2 \<le> int (fst e) \<and> xf_le (interior_gaps e ! nat (int (fst e) - 1)) (Num tol)" if t: "hi_new = int (fst e)" "hi_new \<noteq> n_occ + n_cond"
    proof -
      have "\<not> clean e tol (int (fst e) - 1)" using hi t by simp
      then show ?thesis using dirty interior_gap(2) [OF ok, of "int (fst e) - 1" tol] by force
    qed
    then show ?thesis by blast
  qed
  obtain k1 g1 where t1: "\<not> clean e tol n_occ \<Longrightarrow> tightest_k e n_occ = Inr (k1, g1)" using tightest_k_returns [OF ok] dirty by metis
  obtain k2 g2 where t2: "lo_new \<noteq> n_occ - n_val \<Longrightarrow> tightest_k e (n_occ - n_val) = Inr (k2, g2)" using tightest_k_returns [OF ok] dirty lod by metis
  obtain k3 g3 where t3: "hi_new \<noteq> n_occ + n_cond \<Longrightarrow> tightest_k e (n_occ + n_cond) = Inr (k3, g3)" using tightest_k_returns [OF ok] dirty hid by metis
  show ?thesis
    unfolding window_findings_def Let_def split top
    using t1 t2 t3 by (auto split: if_splits)
qed

text \<open>The nearest clean boundaries around a request, and what the resolver does with them.\<close>

definition nearest_window :: "spectrum \<Rightarrow> real \<Rightarrow> int \<Rightarrow> int \<Rightarrow> int \<Rightarrow> int \<Rightarrow> bool" where
  "nearest_window e tol lo hi lo' hi' \<longleftrightarrow>
     0 \<le> lo' \<and> lo' \<le> lo \<and> clean e tol lo' \<and> (\<forall>c. lo' < c \<and> c \<le> lo \<longrightarrow> \<not> clean e tol c) \<and>
     hi \<le> hi' \<and> hi' \<le> int (fst e) \<and> clean e tol hi' \<and> (\<forall>c. hi \<le> c \<and> c < hi' \<longrightarrow> \<not> clean e tol c)"

lemma resolve_run:
  assumes "request_ok e n_occ n_val n_cond"
  shows "\<exists>lo' hi' fs. nearest_window e tol (n_occ - n_val) (n_occ + n_cond) lo' hi' \<and>
    (fs = [] \<longleftrightarrow> clean e tol n_occ \<and> lo' = n_occ - n_val \<and> hi' = n_occ + n_cond) \<and>
    resolve_band_window e n_occ n_val n_cond tol ''snap'' =
      (if fs = [] then Inr ((n_val, n_cond), None)
       else Inr ((n_occ - lo', hi' - n_occ), Some (if (n_occ - lo', hi' - n_occ) \<noteq> (n_val, n_cond) then Snapped fs else NotSnapped fs))) \<and>
    resolve_band_window e n_occ n_val n_cond tol ''strict'' =
      (if fs = [] then Inr ((n_val, n_cond), None)
       else Inl (WindowDegenerate fs
         (if clean e tol n_occ \<and> \<not> (hi' = int (fst e) \<and> hi' \<noteq> n_occ + n_cond) then SetCounts (n_occ - lo') (hi' - n_occ)
          else ChangeInput (if (n_occ - lo', hi' - n_occ) \<noteq> (n_val, n_cond) then Some (n_occ - lo', hi' - n_occ) else None))))"
proof -
  have ok: "spectrum_ok e" and r: "0 \<le> n_val" "n_val \<le> n_occ" "0 \<le> n_cond" "n_occ + n_cond \<le> int (fst e)" using assms by (simp_all add: request_ok_def)
  obtain lo' where lo: "widen_down (interior_gaps e) tol (n_occ - n_val) = Inr lo'" "lo' \<le> n_occ - n_val" "0 \<le> lo'" "clean e tol lo'"
      "\<forall>c. lo' < c \<and> c \<le> n_occ - n_val \<longrightarrow> \<not> clean e tol c"
  proof -
    have "n_occ - n_val \<le> int (fst e)" "min (n_occ - n_val) 0 = 0" using r by simp_all
    then show ?thesis using widen_down_spec [OF ok, of "n_occ - n_val" tol] that by metis
  qed
  obtain hi' where hi: "widen_up (interior_gaps e) tol (int (fst e)) (n_occ + n_cond) = Inr hi'" "n_occ + n_cond \<le> hi'" "hi' \<le> int (fst e)" "clean e tol hi'"
      "\<forall>c. n_occ + n_cond \<le> c \<and> c < hi' \<longrightarrow> \<not> clean e tol c"
    using widen_up_spec [OF ok, of "n_occ + n_cond" tol] r by auto
  obtain fs where fs: "window_findings e tol n_occ (interior_gaps e) (n_occ - n_val) (n_occ + n_cond) lo' hi' =
      Inr (fs, \<not> clean e tol n_occ \<or> (hi' = int (fst e) \<and> hi' \<noteq> n_occ + n_cond))"
    "fs = [] \<longleftrightarrow> clean e tol n_occ \<and> lo' = n_occ - n_val \<and> hi' = n_occ + n_cond"
    using findings_spec [OF assms lo(2,4,3,5) hi(2-5)] by blast
  have "nearest_window e tol (n_occ - n_val) (n_occ + n_cond) lo' hi'" using lo hi by (simp add: nearest_window_def)
  moreover have "resolve_band_window e n_occ n_val n_cond tol mode =
      (if fs = [] then Inr ((n_val, n_cond), None)
       else if mode = ''strict'' then Inl (WindowDegenerate fs
         (if clean e tol n_occ \<and> \<not> (hi' = int (fst e) \<and> hi' \<noteq> n_occ + n_cond) then SetCounts (n_occ - lo') (hi' - n_occ)
          else ChangeInput (if (n_occ - lo', hi' - n_occ) \<noteq> (n_val, n_cond) then Some (n_occ - lo', hi' - n_occ) else None)))
       else Inr ((n_occ - lo', hi' - n_occ), Some (if (n_occ - lo', hi' - n_occ) \<noteq> (n_val, n_cond) then Snapped fs else NotSnapped fs)))"
    if "mode \<in> {''strict'', ''snap''}" for mode
  proof -
    have "mode \<in> set MODES" "mode \<noteq> ''off''" using that by (auto simp: MODES_def)
    then show ?thesis using lo(1) hi(1) fs(1) by (auto simp: resolve_band_window_def gaps_ok [OF ok] Let_def)
  qed
  ultimately show ?thesis using fs(2) by (intro exI [of _ lo'] exI [of _ hi'] exI [of _ fs]) simp
qed

lemma check_clean:
  assumes "spectrum_ok e"
  shows "check_band_window e b_min b_max tol ''strict'' = Inr None \<longleftrightarrow> clean e tol b_min \<and> clean e tol b_max"
proof -
  have step: "(0 < b \<and> b < int (fst e) \<and> xf_le (interior_gaps e ! nat b) (Num tol)) = (\<not> clean e tol b)" for b
    using interior_gap(2) [OF assms, of b tol] by (auto simp: clean_def)
  have "\<exists>x. tightest_k e b = Inr x" if "\<not> clean e tol b" for b
  proof -
    have "0 < b" "b < int (fst e)" using that by (auto simp: clean_def)
    then show ?thesis using tightest_k_returns [OF assms] by metis
  qed
  then obtain t where t: "\<And>b. \<not> clean e tol b \<Longrightarrow> tightest_k e b = Inr (t b)" by metis
  show ?thesis
    by (auto simp: check_band_window_def MODES_def gaps_ok [OF assms] step t Let_def split: prod.splits if_splits)
qed




text \<open>One band above a doublet at the top of the input: strict names no counts for one conduction band.\<close>

lemma open_top_refused:
  "resolve_band_window (3, [[0, 1, 1 :: real]]) 1 1 1 (1/1000) ''strict'' =
     Inl (WindowDegenerate [ConductionCut 2 0 0 3 2, TopOpen 3] (ChangeInput (Some (1, 2))))"
proof -
  let ?e = "(3, [[0, 1, 1 :: real]])"
  have g: "boundary_min_gaps ?e False = Inr [NaN, Num 1, Num 0, NaN]"
    by (simp add: boundary_min_gaps_def boundary_gaps_at_def numeral_3_eq_3)
  have d: "widen_down [NaN, Num 1, Num 0, NaN] (1/1000) 0 = Inr 0" by (subst widen_down.simps) simp
  have u: "widen_up [NaN, Num 1, Num 0, NaN] (1/1000) 3 2 = Inr 3"
    by (subst widen_up.simps, simp add: py_index_def Let_def xf_le_def, subst widen_up.simps, simp)
  have t: "tightest_k ?e 2 = Inr (0, 0)" by (simp add: tightest_k_def py_index_def first_index_def numeral_2_eq_2)
  show ?thesis
    by (simp add: resolve_band_window_def MODES_def g d u t window_findings_def Let_def xf_le_def numeral_2_eq_2 [symmetric])
qed

text \<open>The same energies asked for two conduction bands, the window just called still cut: accepted.\<close>

lemma open_top_accepted: "resolve_band_window (3, [[0, 1, 1 :: real]]) 1 1 2 (1/1000) ''strict'' = Inr ((1, 2), None)"
proof -
  let ?e = "(3, [[0, 1, 1 :: real]])"
  have req: "request_ok ?e 1 1 2" by (simp add: request_ok_def spectrum_ok_def)
  have "clean ?e (1/1000) 0" "clean ?e (1/1000) 1" "clean ?e (1/1000) 3" by (simp_all add: clean_def)
  then show ?thesis using resolve_run [OF req, of "1/1000"] by (auto simp: nearest_window_def)
qed

text \<open>Doublets at both boundaries of a request for one and two bands.\<close>

lemma doublets_refused:
  "resolve_band_window (7, [[0, 1, 1, 5, 8, 8, 11 :: real]]) 3 1 2 (1/1000) ''strict'' =
     Inl (WindowDegenerate [ValenceCut 2 0 0 1 2, ConductionCut 5 0 0 6 3] (SetCounts 2 3))"
proof -
  let ?e = "(7, [[0, 1, 1, 5, 8, 8, 11 :: real]])" and ?g = "[NaN, Num 1, Num 0, Num 4, Num 3, Num 0, Num 3, NaN]"
  have g: "boundary_min_gaps ?e False = Inr ?g"
    by (simp add: boundary_min_gaps_def boundary_gaps_at_def eval_nat_numeral)
  have d: "widen_down ?g (1/1000) 2 = Inr 1"
    by (subst widen_down.simps, simp add: py_index_def Let_def xf_le_def, subst widen_down.simps, simp add: py_index_def Let_def xf_le_def)
  have u: "widen_up ?g (1/1000) 7 5 = Inr 6"
    by (subst widen_up.simps, simp add: py_index_def Let_def xf_le_def, subst widen_up.simps, simp add: py_index_def Let_def xf_le_def)
  have t: "tightest_k ?e 2 = Inr (0, 0)" "tightest_k ?e 5 = Inr (0, 0)" by (simp_all add: tightest_k_def py_index_def first_index_def)
  show ?thesis
    by (simp add: resolve_band_window_def MODES_def g d u t window_findings_def Let_def xf_le_def)
qed


end
