(* ===== verification/BandPartition.thy ===== *)
theory BandPartition
  imports BandWindow
begin

text \<open>
  \<open>src/gw/band_partition.py\<close>: the protected and in-range masks of the active bands (\<open>BandPartition\<close>),
  the report of multiplets cut by the protected boundary, and the promotion that closes the protected set
  under each k's reference multiplets. A mask is one row for all k, or one row per k. Energies are
  finite, in Rydberg; the progress messages are not modelled.
\<close>

section \<open>The code\<close>

definition RYD_TO_EV :: real where
  "RYD_TO_EV = 13.6056980659"

datatype band_mask = AllK "bool list" | PerK "bool list list"

record band_partition =
  bp_protected :: band_mask
  bp_in_range :: band_mask

datatype partition_error = BadTolerance | MaskShape | CrossesWindow nat "nat list"

definition all_protected :: "nat \<Rightarrow> band_partition" where
  "all_protected nb_active = \<lparr>bp_protected = AllK (replicate nb_active True), bp_in_range = AllK (replicate nb_active True)\<rparr>"

text \<open>\<open>mask.shape[-1]\<close> and \<open>np.broadcast_to(mask, (nk, nb))\<close>.\<close>

definition mask_width :: "band_mask \<Rightarrow> nat" where
  "mask_width m = (case m of AllK row \<Rightarrow> length row | PerK rows \<Rightarrow> length (hd rows))"

definition broadcast_mask :: "band_mask \<Rightarrow> nat \<Rightarrow> nat \<Rightarrow> (partition_error, bool list list) result" where
  "broadcast_mask m nk nb =
     (let expand = (\<lambda>row. if length row = nb then row else replicate nb (hd row)) in
      if mask_width m \<noteq> nb \<and> mask_width m \<noteq> 1 then Inl MaskShape
      else case m of
        AllK row \<Rightarrow> Inr (replicate nk (expand row))
      | PerK rows \<Rightarrow>
          if length rows = nk then Inr (map expand rows)
          else if length rows = 1 then Inr (replicate nk (expand (hd rows))) else Inl MaskShape)"

definition multiplet_tolerance :: "xfloat option \<Rightarrow> (partition_error, real) result" where
  "multiplet_tolerance degeneracy_tol_ev =
     (case degeneracy_tol_ev of
        None \<Rightarrow> Inr DEGENERACY_TOL_RY
      | Some (Num t) \<Rightarrow> if t / RYD_TO_EV < 0 then Inl BadTolerance else Inr (t / RYD_TO_EV)
      | Some _ \<Rightarrow> Inl BadTolerance)"

text \<open>\<open>np.split(np.arange(nb), np.flatnonzero(np.diff(e[k]) > tol) + 1)\<close>.\<close>

definition multiplets :: "real list \<Rightarrow> real \<Rightarrow> nat list list" where
  "multiplets row tol =
     np_split [0..<length row] (map Suc (np_flatnonzero (map (\<lambda>n. tol < row ! Suc n - row ! n) [0..<length row - 1])))"

definition set_true :: "bool list \<Rightarrow> nat list \<Rightarrow> bool list" where
  "set_true row sel = map (\<lambda>i. i \<in> set sel \<or> row ! i) [0..<length row]"

fun promote_groups :: "nat \<Rightarrow> nat \<Rightarrow> bool list \<Rightarrow> nat list list \<Rightarrow> bool list \<Rightarrow> (partition_error, bool list) result" where
  "promote_groups k band_offset prot [] out = Inr out"
| "promote_groups k band_offset prot (gs # groups) out =
     (let active = filter (\<lambda>g. band_offset \<le> g \<and> g < band_offset + length prot) gs;
          local = map (\<lambda>g. g - band_offset) active in
      if local \<noteq> [] \<and> list_ex (\<lambda>i. prot ! i) local then
        if length active \<noteq> length gs then Inl (CrossesWindow k gs)
        else promote_groups k band_offset prot groups (set_true out local)
      else promote_groups k band_offset prot groups out)"

definition promoted_to_multiplets ::
    "band_partition \<Rightarrow> real list list \<Rightarrow> nat \<Rightarrow> xfloat option \<Rightarrow> (partition_error, band_partition) result" where
  "promoted_to_multiplets p e band_offset degeneracy_tol_ev =
     andthen (multiplet_tolerance degeneracy_tol_ev) (\<lambda>tol.
     let nb = mask_width (bp_protected p) in
     andthen (broadcast_mask (bp_protected p) (length e) nb) (\<lambda>prot.
     andthen (mapE (\<lambda>(k, row). promote_groups k band_offset (prot ! k) (multiplets row tol) (prot ! k)) (enumerate 0 e)) (\<lambda>out.
     andthen (broadcast_mask (bp_in_range p) (length e) nb) (\<lambda>in_range.
       Inr \<lparr>bp_protected = PerK out, bp_in_range = PerK in_range\<rparr>))))"

definition report_multiplet_splits ::
    "band_partition \<Rightarrow> real list list \<Rightarrow> nat \<Rightarrow> xfloat option \<Rightarrow> (partition_error, nat \<times> real) result" where
  "report_multiplet_splits p e band_offset degeneracy_tol_ev =
     andthen (multiplet_tolerance degeneracy_tol_ev) (\<lambda>tol.
     let nb = mask_width (bp_protected p) in
     andthen (broadcast_mask (bp_protected p) (length e) nb) (\<lambda>prot.
       let active = map (\<lambda>r. take nb (drop band_offset r)) e in
       if \<exists>r\<in>set active. length r \<noteq> nb then Inl MaskShape
       else
         let splits = concat (map (\<lambda>k. map (\<lambda>n. (active ! k) ! Suc n - (active ! k) ! n)
               (filter (\<lambda>n. (prot ! k) ! Suc n \<noteq> (prot ! k) ! n \<and> (active ! k) ! Suc n - (active ! k) ! n \<le> tol) [0..<nb - 1])) [0..<length e])
         in Inr (length splits, if splits \<noteq> [] then Max (set splits) * RYD_TO_EV * 1000 else 0)))"

section \<open>Multiplets\<close>

text \<open>Two bands are in one multiplet when no gap between them is wider than the tolerance.\<close>

definition same_multiplet :: "real list \<Rightarrow> real \<Rightarrow> nat \<Rightarrow> nat \<Rightarrow> bool" where
  "same_multiplet row tol a b \<longleftrightarrow> (\<forall>n\<in>set [min a b..<max a b]. row ! Suc n - row ! n \<le> tol)"

lemma same_multiplet_refl [simp]: "same_multiplet row tol a a"
  by (simp add: same_multiplet_def)

lemma same_multiplet_sym: "same_multiplet row tol a b \<longleftrightarrow> same_multiplet row tol b a"
  by (simp add: same_multiplet_def min.commute max.commute)

lemma same_multiplet_trans: "same_multiplet row tol a b \<Longrightarrow> same_multiplet row tol b c \<Longrightarrow> same_multiplet row tol a c"
proof -
  assume h: "same_multiplet row tol a b" "same_multiplet row tol b c"
  have "n \<in> {min a b..<max a b} \<union> {min b c..<max b c}" if "n \<in> {min a c..<max a c}" for n using that by auto
  then show ?thesis using h unfolding same_multiplet_def set_upt by blast
qed

lemma split_intervals:
  "sorted_wrt (<) (p # stops) \<Longrightarrow> \<forall>s\<in>set stops. s < nb \<Longrightarrow> p < nb \<Longrightarrow>
   (\<forall>g\<in>set (np_split_from p [0..<nb] stops). \<exists>a b. g = [a..<b] \<and> p \<le> a \<and> a < b \<and> b \<le> nb \<and>
      (a = p \<or> a \<in> set stops) \<and> (b = nb \<or> b \<in> set stops) \<and> (\<forall>s\<in>set stops. \<not> (a < s \<and> s < b))) \<and>
   concat (np_split_from p [0..<nb] stops) = [p..<nb]"
proof (induction stops arbitrary: p)
  case Nil
  then show ?case by (auto simp: drop_upt)
next
  case (Cons s ss)
  have h: "p < s" "s < nb" "sorted_wrt (<) (s # ss)" "\<forall>t\<in>set ss. s < t \<and> t < nb" using Cons.prems by auto
  have piece: "take (s - p) (drop p [0..<nb]) = [p..<s]" using h(1,2) by (simp add: drop_upt take_upt)
  note IH = Cons.IH [OF h(3) _ h(2)]
  have rest: "(\<forall>g\<in>set (np_split_from s [0..<nb] ss). \<exists>a b. g = [a..<b] \<and> s \<le> a \<and> a < b \<and> b \<le> nb \<and>
      (a = s \<or> a \<in> set ss) \<and> (b = nb \<or> b \<in> set ss) \<and> (\<forall>t\<in>set ss. \<not> (a < t \<and> t < b)))"
    and cat: "concat (np_split_from s [0..<nb] ss) = [s..<nb]" using IH h(4) by auto
  have "\<exists>a b. g = [a..<b] \<and> p \<le> a \<and> a < b \<and> b \<le> nb \<and> (a = p \<or> a \<in> set (s # ss)) \<and> (b = nb \<or> b \<in> set (s # ss)) \<and> (\<forall>t\<in>set (s # ss). \<not> (a < t \<and> t < b))"
    if "g \<in> set (np_split_from p [0..<nb] (s # ss))" for g
  proof (cases "g = [p..<s]")
    case True
    then show ?thesis using h by (intro exI [of _ p] exI [of _ s]) auto
  next
    case False
    then have "g \<in> set (np_split_from s [0..<nb] ss)" using that piece by simp
    then obtain a b where "g = [a..<b]" "s \<le> a" "a < b" "b \<le> nb" "a = s \<or> a \<in> set ss" "b = nb \<or> b \<in> set ss" "\<forall>t\<in>set ss. \<not> (a < t \<and> t < b)"
      using rest by blast
    then show ?thesis using h(1) by (intro exI [of _ a] exI [of _ b]) auto
  qed
  then show ?case using piece cat h(1,2) upt_add_eq_append [of p s "nb - s"] by auto
qed

lemma multiplets_spec:
  assumes "0 < length row"
  shows "g \<in> set (multiplets row tol) \<Longrightarrow> a \<in> set g \<Longrightarrow> b < length row \<Longrightarrow> b \<in> set g \<longleftrightarrow> same_multiplet row tol a b"
    and "b < length row \<Longrightarrow> \<exists>g\<in>set (multiplets row tol). b \<in> set g"
    and "g \<in> set (multiplets row tol) \<Longrightarrow> distinct g \<and> (\<forall>x\<in>set g. x < length row)"
proof -
  let ?nb = "length row" and ?stops = "map Suc (np_flatnonzero (map (\<lambda>n. tol < row ! Suc n - row ! n) [0..<length row - 1]))"
  have stops: "s \<in> set ?stops \<longleftrightarrow> (\<exists>n. s = Suc n \<and> Suc n < ?nb \<and> tol < row ! Suc n - row ! n)" for s
  proof -
    have "n \<in> set (np_flatnonzero (map (\<lambda>n. tol < row ! Suc n - row ! n) [0..<?nb - 1])) \<longleftrightarrow> Suc n < ?nb \<and> tol < row ! Suc n - row ! n" for n
      by (cases "n < ?nb - 1") (auto simp: np_flatnonzero_def)
    then show ?thesis by auto
  qed
  have "sorted_wrt (<) ?stops" by (simp add: np_flatnonzero_def sorted_wrt_map sorted_wrt_filter)
  then have "sorted_wrt (<) (0 # ?stops)" "\<forall>s\<in>set ?stops. s < ?nb" using stops by auto
  from split_intervals [OF this assms] have split: "\<forall>g\<in>set (multiplets row tol). \<exists>a b. g = [a..<b] \<and> a < b \<and> b \<le> ?nb \<and>
      (a = 0 \<or> a \<in> set ?stops) \<and> (b = ?nb \<or> b \<in> set ?stops) \<and> (\<forall>s\<in>set ?stops. \<not> (a < s \<and> s < b))"
    and cat: "concat (multiplets row tol) = [0..<?nb]" unfolding multiplets_def np_split_def by blast+
  show "b < ?nb \<Longrightarrow> \<exists>g\<in>set (multiplets row tol). b \<in> set g"
    using arg_cong [OF cat, of set] by auto
  show "g \<in> set (multiplets row tol) \<Longrightarrow> distinct g \<and> (\<forall>x\<in>set g. x < ?nb)" using split by fastforce
  assume g: "g \<in> set (multiplets row tol)" "a \<in> set g" "b < ?nb"
  then obtain lo hi where i: "g = [lo..<hi]" "lo < hi" "hi \<le> ?nb" "lo = 0 \<or> lo \<in> set ?stops" "hi = ?nb \<or> hi \<in> set ?stops"
      "\<forall>s\<in>set ?stops. \<not> (lo < s \<and> s < hi)" using split by blast
  show "b \<in> set g \<longleftrightarrow> same_multiplet row tol a b"
  proof
    assume b: "b \<in> set g"
    have "row ! Suc n - row ! n \<le> tol" if "n \<in> set [min a b..<max a b]" for n
    proof (rule ccontr)
      assume "\<not> row ! Suc n - row ! n \<le> tol"
      then have "Suc n \<in> set ?stops" unfolding stops using that g(2) b i(1,3) by auto
      then show False using i(6) that g(2) b i(1) by auto
    qed
    then show "same_multiplet row tol a b" by (simp add: same_multiplet_def)
  next
    assume same: "same_multiplet row tol a b"
    show "b \<in> set g"
    proof (rule ccontr)
      assume "b \<notin> set g"
      then consider "b < lo" | "hi \<le> b" using i(1) by fastforce
      then show False
      proof cases
        case 1
        then obtain n where n: "lo = Suc n" "tol < row ! Suc n - row ! n" using i(4) unfolding stops by auto
        then have "n \<in> set [min a b..<max a b]" using 1 g(2) i(1) by auto
        then show False using same n(2) by (force simp: same_multiplet_def)
      next
        case 2
        then have "hi \<in> set ?stops" using i(5) g(3) by auto
        then obtain n where n: "hi = Suc n" "tol < row ! Suc n - row ! n" unfolding stops by blast
        then have "n \<in> set [min a b..<max a b]" using 2 g(2) i(1) by auto
        then show False using same n(2) by (force simp: same_multiplet_def)
      qed
    qed
  qed
qed

section \<open>Promotion\<close>

lemma length_filter_all: "length (filter P xs) = length xs \<longleftrightarrow> (\<forall>x\<in>set xs. P x)"
  by (metis filter_True length_filter_less less_irrefl_nat)

lemma set_true_nth: "i < length row \<Longrightarrow> set_true row sel ! i \<longleftrightarrow> i \<in> set sel \<or> row ! i"
  by (simp add: set_true_def)

lemma length_set_true [simp]: "length (set_true row sel) = length row"
  by (simp add: set_true_def)

text \<open>A multiplet is asked for when one of its active bands is protected; it fits when all its bands are active.\<close>

definition asked :: "nat \<Rightarrow> bool list \<Rightarrow> nat list \<Rightarrow> bool" where
  "asked off prot g \<longleftrightarrow> (\<exists>i<length prot. prot ! i \<and> off + i \<in> set g)"

definition fits_window :: "nat \<Rightarrow> nat \<Rightarrow> nat list \<Rightarrow> bool" where
  "fits_window off nb g \<longleftrightarrow> (\<forall>x\<in>set g. off \<le> x \<and> x < off + nb)"

lemma promote_groups_spec:
  "length out = length prot \<Longrightarrow> (case promote_groups k off prot gs out of
     Inr out' \<Rightarrow> length out' = length prot \<and> (\<forall>g\<in>set gs. asked off prot g \<longrightarrow> fits_window off (length prot) g) \<and>
       (\<forall>i<length prot. out' ! i \<longleftrightarrow> out ! i \<or> (\<exists>g\<in>set gs. asked off prot g \<and> off + i \<in> set g))
   | Inl err \<Rightarrow> \<exists>g\<in>set gs. err = CrossesWindow k g \<and> asked off prot g \<and> \<not> fits_window off (length prot) g)"
proof (induction gs arbitrary: out)
  case Nil
  then show ?case by simp
next
  case (Cons g gs)
  let ?active = "filter (\<lambda>x. off \<le> x \<and> x < off + length prot) g"
  let ?local = "map (\<lambda>x. x - off) ?active"
  have loc: "i \<in> set ?local \<longleftrightarrow> off + i \<in> set g" if "i < length prot" for i
    using that by (auto simp: image_iff)
  have "\<forall>i\<in>set ?local. i < length prot" by auto
  then have ask: "(?local \<noteq> [] \<and> list_ex (\<lambda>i. prot ! i) ?local) \<longleftrightarrow> asked off prot g"
  proof -
    have "(\<exists>i\<in>set ?local. prot ! i) \<longleftrightarrow> (\<exists>i<length prot. prot ! i \<and> off + i \<in> set g)" using loc \<open>\<forall>i\<in>set ?local. i < length prot\<close> by blast
    moreover have "(\<exists>i\<in>set ?local. prot ! i) \<Longrightarrow> ?local \<noteq> []" by (cases ?local) simp_all
    ultimately show ?thesis unfolding asked_def list_ex_iff by blast
  qed
  have fit: "length ?active \<noteq> length g \<longleftrightarrow> \<not> fits_window off (length prot) g" by (simp add: length_filter_all fits_window_def)
  have run: "promote_groups k off prot (g # gs) out =
      (if asked off prot g then if \<not> fits_window off (length prot) g then Inl (CrossesWindow k g)
         else promote_groups k off prot gs (set_true out ?local)
       else promote_groups k off prot gs out)"
    unfolding promote_groups.simps Let_def ask fit by (rule refl)
  show ?case
  proof (cases "asked off prot g")
    case False
    then show ?thesis using Cons.IH [OF Cons.prems] run by (auto split: sum.splits)
  next
    case True
    have "length (set_true out ?local) = length prot" using Cons.prems by simp
    note IH = Cons.IH [OF this]
    have at: "set_true out ?local ! i \<longleftrightarrow> off + i \<in> set g \<or> out ! i" if "i < length prot" for i
      using set_true_nth [of i out ?local] loc [OF that] that Cons.prems by simp
    show ?thesis
    proof (cases "fits_window off (length prot) g")
      case False
      then show ?thesis using True run by simp
    next
      case fits: True
      then show ?thesis using True run IH at by (auto split: sum.splits)
    qed
  qed
qed

lemma promote_row:
  assumes "0 < length row" "off + length prot \<le> length row"
  shows "case promote_groups k off prot (multiplets row tol) prot of
      Inr out \<Rightarrow> length out = length prot \<and>
        (\<forall>i<length prot. out ! i \<longleftrightarrow> (\<exists>i'<length prot. prot ! i' \<and> same_multiplet row tol (off + i) (off + i'))) \<and>
        (\<forall>i<length prot. \<forall>x<length row. prot ! i \<and> same_multiplet row tol (off + i) x \<longrightarrow> off \<le> x \<and> x < off + length prot)
    | Inl err \<Rightarrow> \<exists>g i x. err = CrossesWindow k g \<and> i < length prot \<and> prot ! i \<and> x \<in> set g \<and> x < length row \<and>
        same_multiplet row tol (off + i) x \<and> \<not> (off \<le> x \<and> x < off + length prot)"
proof (cases "promote_groups k off prot (multiplets row tol) prot")
  case (Inl err)
  then obtain g where g: "g \<in> set (multiplets row tol)" "err = CrossesWindow k g" "asked off prot g" "\<not> fits_window off (length prot) g"
    using promote_groups_spec [where out = prot and prot = prot and k = k and off = off and gs = "multiplets row tol"] by auto
  obtain i where i: "i < length prot" "prot ! i" "off + i \<in> set g" using g(3) by (auto simp: asked_def)
  obtain x where x: "x \<in> set g" "\<not> (off \<le> x \<and> x < off + length prot)" using g(4) by (auto simp: fits_window_def)
  have "x < length row" using multiplets_spec(3) [OF assms(1) g(1)] x(1) by blast
  moreover from this have "same_multiplet row tol (off + i) x" using multiplets_spec(1) [OF assms(1) g(1) i(3)] x(1) by blast
  ultimately show ?thesis using Inl g(2) i x by auto
next
  case (Inr out)
  note spec = promote_groups_spec [where out = prot and prot = prot and k = k and off = off and gs = "multiplets row tol", unfolded Inr sum.case, OF refl]
  have same: "(\<exists>g\<in>set (multiplets row tol). asked off prot g \<and> x \<in> set g) \<longleftrightarrow> (\<exists>i'<length prot. prot ! i' \<and> same_multiplet row tol x (off + i'))"
    if xr: "x < length row" for x
  proof
    assume "\<exists>g\<in>set (multiplets row tol). asked off prot g \<and> x \<in> set g"
    then obtain g i' where "g \<in> set (multiplets row tol)" "x \<in> set g" "i' < length prot" "prot ! i'" "off + i' \<in> set g" by (auto simp: asked_def)
    then show "\<exists>i'<length prot. prot ! i' \<and> same_multiplet row tol x (off + i')" using multiplets_spec(1) [OF assms(1), of g tol x "off + i'"] assms(2) by auto
  next
    assume "\<exists>i'<length prot. prot ! i' \<and> same_multiplet row tol x (off + i')"
    then obtain i' where i': "i' < length prot" "prot ! i'" "same_multiplet row tol x (off + i')" by blast
    obtain g where g: "g \<in> set (multiplets row tol)" "x \<in> set g" using multiplets_spec(2) [OF assms(1) xr] by blast
    then have "off + i' \<in> set g" using multiplets_spec(1) [OF assms(1) g] i' assms(2) by auto
    then show "\<exists>g\<in>set (multiplets row tol). asked off prot g \<and> x \<in> set g" using g i' by (auto simp: asked_def)
  qed
  have "out ! i \<longleftrightarrow> (\<exists>i'<length prot. prot ! i' \<and> same_multiplet row tol (off + i) (off + i'))" if "i < length prot" for i
    using spec same [of "off + i"] that assms(2) same_multiplet_refl by (metis add_less_cancel_left order_less_le_trans)
  moreover have "off \<le> x \<and> x < off + length prot" if "i < length prot" "x < length row" "prot ! i" "same_multiplet row tol (off + i) x" for i x
    using spec same [OF that(2)] that same_multiplet_sym unfolding fits_window_def by blast
  ultimately show ?thesis using Inr spec by auto
qed

lemma mapE_rows:
  "case mapE f xs of Inr ys \<Rightarrow> length ys = length xs \<and> (\<forall>i<length xs. f (xs ! i) = Inr (ys ! i)) | Inl err \<Rightarrow> \<exists>i<length xs. f (xs ! i) = Inl err"
proof (induction xs)
  case (Cons x xs)
  show ?case
  proof (cases "f x")
    case (Inl err)
    then show ?thesis by (auto intro: exI [of _ 0])
  next
    case (Inr y)
    then show ?thesis using Cons by (cases "mapE f xs") (auto simp: nth_Cons split: nat.splits intro: exI [of _ "Suc _"])
  qed
qed simp

text \<open>A partition as the loop holds it: masks of the active width, the active bands inside the ladder.\<close>

definition partition_ok :: "band_partition \<Rightarrow> real list list \<Rightarrow> nat \<Rightarrow> nat \<Rightarrow> bool list list \<Rightarrow> bool list list \<Rightarrow> bool" where
  "partition_ok p e off nb prot inr \<longleftrightarrow>
     e \<noteq> [] \<and> 0 < nb \<and> (\<forall>row\<in>set e. off + nb \<le> length row) \<and>
     mask_width (bp_protected p) = nb \<and> broadcast_mask (bp_protected p) (length e) nb = Inr prot \<and> broadcast_mask (bp_in_range p) (length e) nb = Inr inr \<and>
     length prot = length e \<and> length inr = length e \<and> (\<forall>r\<in>set prot. length r = nb) \<and> (\<forall>r\<in>set inr. length r = nb)"

lemma broadcast_rows:
  "rows \<noteq> [] \<Longrightarrow> \<forall>r\<in>set rows. length r = nb \<Longrightarrow> broadcast_mask (PerK rows) (length rows) nb = Inr rows \<and> mask_width (PerK rows) = nb"
  by (cases rows) (auto simp: broadcast_mask_def mask_width_def intro!: map_idI)

lemma promoted_run:
  assumes "partition_ok p e off nb prot inr" "multiplet_tolerance ev = Inr tol"
  shows "case promoted_to_multiplets p e off ev of
      Inr p' \<Rightarrow> \<exists>out. p' = \<lparr>bp_protected = PerK out, bp_in_range = PerK inr\<rparr> \<and> length out = length e \<and> (\<forall>r\<in>set out. length r = nb) \<and>
        (\<forall>k<length e. \<forall>i<nb. out ! k ! i \<longleftrightarrow> (\<exists>i'<nb. prot ! k ! i' \<and> same_multiplet (e ! k) tol (off + i) (off + i'))) \<and>
        (\<forall>k<length e. \<forall>i<nb. \<forall>x<length (e ! k). prot ! k ! i \<and> same_multiplet (e ! k) tol (off + i) x \<longrightarrow> off \<le> x \<and> x < off + nb)
    | Inl err \<Rightarrow> \<exists>k g i x. k < length e \<and> err = CrossesWindow k g \<and> i < nb \<and> prot ! k ! i \<and> x \<in> set g \<and> x < length (e ! k) \<and>
        same_multiplet (e ! k) tol (off + i) x \<and> \<not> (off \<le> x \<and> x < off + nb)"
proof -
  have ok: "mask_width (bp_protected p) = nb" "broadcast_mask (bp_protected p) (length e) nb = Inr prot" "broadcast_mask (bp_in_range p) (length e) nb = Inr inr"
    "length prot = length e" "\<forall>row\<in>set e. off + nb \<le> length row" "0 < nb" "\<forall>r\<in>set prot. length r = nb" using assms(1) by (simp_all add: partition_ok_def)
  let ?f = "\<lambda>(k, row). promote_groups k off (prot ! k) (multiplets row tol) (prot ! k)"
  have at: "enumerate 0 e ! k = (k, e ! k)" if "k < length e" for k using that by (simp add: nth_enumerate_eq)
  have row: "0 < length (e ! k)" "off + length (prot ! k) \<le> length (e ! k)" "length (prot ! k) = nb" if "k < length e" for k
    using that ok by (force simp: all_set_conv_all_nth)+
  have run: "promoted_to_multiplets p e off ev = andthen (mapE ?f (enumerate 0 e)) (\<lambda>out. Inr \<lparr>bp_protected = PerK out, bp_in_range = PerK inr\<rparr>)"
    using ok(1-3) assms(2) by (simp add: promoted_to_multiplets_def Let_def)
  show ?thesis
  proof (cases "mapE ?f (enumerate 0 e)")
    case (Inl err)
    then obtain k where k: "k < length e" "promote_groups k off (prot ! k) (multiplets (e ! k) tol) (prot ! k) = Inl err"
      using mapE_rows [where f = ?f and xs = "enumerate 0 e"] at by auto
    have "\<exists>g i x. err = CrossesWindow k g \<and> i < nb \<and> prot ! k ! i \<and> x \<in> set g \<and> x < length (e ! k) \<and>
        same_multiplet (e ! k) tol (off + i) x \<and> \<not> (off \<le> x \<and> x < off + nb)"
      using promote_row [OF row(1,2) [OF k(1)], of k tol] unfolding k(2) row(3) [OF k(1)] by simp
    then show ?thesis using run Inl k(1) by auto
  next
    case (Inr out)
    then have out: "length out = length e" "\<And>k. k < length e \<Longrightarrow> promote_groups k off (prot ! k) (multiplets (e ! k) tol) (prot ! k) = Inr (out ! k)"
      using mapE_rows [where f = ?f and xs = "enumerate 0 e"] at by auto
    have each: "length (out ! k) = nb \<and>
        (\<forall>i<nb. out ! k ! i \<longleftrightarrow> (\<exists>i'<nb. prot ! k ! i' \<and> same_multiplet (e ! k) tol (off + i) (off + i'))) \<and>
        (\<forall>i<nb. \<forall>x<length (e ! k). prot ! k ! i \<and> same_multiplet (e ! k) tol (off + i) x \<longrightarrow> off \<le> x \<and> x < off + nb)" if "k < length e" for k
      using promote_row [OF row(1,2) [OF that], of k tol] unfolding out(2) [OF that] row(3) [OF that] by simp
    then have "\<forall>r\<in>set out. length r = nb" using out(1) by (auto simp: all_set_conv_all_nth)
    then show ?thesis using run Inr out(1) each by simp
  qed
qed

text \<open>A protected set that holds each active multiplet whole or not at all.\<close>

definition closed_masks :: "real list list \<Rightarrow> real \<Rightarrow> nat \<Rightarrow> nat \<Rightarrow> bool list list \<Rightarrow> bool" where
  "closed_masks e tol off nb out \<longleftrightarrow>
     (\<forall>k<length e. \<forall>i<nb. \<forall>i'<nb. same_multiplet (e ! k) tol (off + i) (off + i') \<longrightarrow> out ! k ! i = out ! k ! i')"

lemma closed_report:
  assumes ok: "partition_ok p e off nb out inr" and tol: "multiplet_tolerance ev = Inr tol" and closed: "closed_masks e tol off nb out"
  shows "report_multiplet_splits p e off ev = Inr (0, 0)"
proof -
  let ?active = "map (\<lambda>r. take nb (drop off r)) e"
  have len: "\<forall>row\<in>set e. off + nb \<le> length row" and bc: "mask_width (bp_protected p) = nb" "broadcast_mask (bp_protected p) (length e) nb = Inr out"
    using ok by (simp_all add: partition_ok_def)
  have wide: "\<not> (\<exists>r\<in>set ?active. length r \<noteq> nb)" using len by fastforce
  have "\<not> (out ! k ! Suc n \<noteq> out ! k ! n \<and> (?active ! k) ! Suc n - (?active ! k) ! n \<le> tol)" if "k < length e" "n < nb - 1" for k n
  proof -
    have l: "off + nb \<le> length (e ! k)" using len that(1) by simp
    have "same_multiplet (e ! k) tol (off + Suc n) (off + n) \<longleftrightarrow> e ! k ! (off + Suc n) - e ! k ! (off + n) \<le> tol"
      by (simp add: same_multiplet_def)
    then show ?thesis using closed [unfolded closed_masks_def, rule_format, of k "Suc n" n] that l by auto
  qed
  then have "filter (\<lambda>n. out ! k ! Suc n \<noteq> out ! k ! n \<and> (?active ! k) ! Suc n - (?active ! k) ! n \<le> tol) [0..<nb - 1] = []"
    if "k < length e" for k using that by (auto simp: filter_empty_conv)
  then have none: "map (\<lambda>k. map (\<lambda>n. (?active ! k) ! Suc n - (?active ! k) ! n)
      (filter (\<lambda>n. out ! k ! Suc n \<noteq> out ! k ! n \<and> (?active ! k) ! Suc n - (?active ! k) ! n \<le> tol) [0..<nb - 1]))
      [0..<length e] = map (\<lambda>_. []) [0..<length e]"
    by (intro map_cong) simp_all
  show ?thesis
    unfolding report_multiplet_splits_def Let_def tol andthen_simps bc if_not_P [OF wide] none
    by (simp add: map_replicate_const)
qed

lemma closed_promoted:
  assumes ok: "partition_ok p e off nb out inr" and p: "p = \<lparr>bp_protected = PerK out, bp_in_range = PerK inr\<rparr>"
    and tol: "multiplet_tolerance ev = Inr tol" and closed: "closed_masks e tol off nb out"
    and inside: "\<forall>k<length e. \<forall>i<nb. \<forall>x<length (e ! k). out ! k ! i \<and> same_multiplet (e ! k) tol (off + i) x \<longrightarrow> off \<le> x \<and> x < off + nb"
  shows "promoted_to_multiplets p e off ev = Inr p"
proof (cases "promoted_to_multiplets p e off ev")
  case (Inl err)
  then show ?thesis using promoted_run [OF ok tol] inside by auto
next
  case (Inr p2)
  then obtain out2 where o2: "p2 = \<lparr>bp_protected = PerK out2, bp_in_range = PerK inr\<rparr>" "length out2 = length e" "\<forall>r\<in>set out2. length r = nb"
    "\<forall>k<length e. \<forall>i<nb. out2 ! k ! i \<longleftrightarrow> (\<exists>i'<nb. out ! k ! i' \<and> same_multiplet (e ! k) tol (off + i) (off + i'))"
    using promoted_run [OF ok tol] by auto
  have "out2 ! k ! i = out ! k ! i" if "k < length e" "i < nb" for k i
    using o2(4) that closed same_multiplet_refl unfolding closed_masks_def by metis
  then have "out2 = out" using o2(2,3) ok by (intro nth_equalityI) (simp_all add: all_set_conv_all_nth partition_ok_def)
  then show ?thesis using Inr o2(1) p by simp
qed

text \<open>
  C29: promotion closes the protected set under multiplets and adds nothing else. At each k an active band
  is protected afterwards exactly when it lies in one multiplet with a band protected before at that k, so
  the report finds no multiplet cut by the protected boundary, promoting again changes nothing, and the
  in-range masks are kept. It refuses exactly a protected multiplet that reaches outside the active
  window, naming the k and a band of it outside.
\<close>

theorem promotion_closes_multiplets:
  assumes "partition_ok p e off nb prot inr" "multiplet_tolerance ev = Inr tol"
  shows "case promoted_to_multiplets p e off ev of
      Inr p' \<Rightarrow> (\<exists>out. p' = \<lparr>bp_protected = PerK out, bp_in_range = PerK inr\<rparr> \<and>
          (\<forall>k<length e. \<forall>i<nb. out ! k ! i \<longleftrightarrow> (\<exists>i'<nb. prot ! k ! i' \<and> same_multiplet (e ! k) tol (off + i) (off + i')))) \<and>
        (\<forall>k<length e. \<forall>i<nb. \<forall>x<length (e ! k). prot ! k ! i \<and> same_multiplet (e ! k) tol (off + i) x \<longrightarrow> off \<le> x \<and> x < off + nb) \<and>
        report_multiplet_splits p' e off ev = Inr (0, 0) \<and> promoted_to_multiplets p' e off ev = Inr p'
    | Inl err \<Rightarrow> \<exists>k g i x. k < length e \<and> err = CrossesWindow k g \<and> i < nb \<and> prot ! k ! i \<and> x \<in> set g \<and> x < length (e ! k) \<and>
        same_multiplet (e ! k) tol (off + i) x \<and> \<not> (off \<le> x \<and> x < off + nb)"
proof (cases "promoted_to_multiplets p e off ev")
  case (Inl err)
  then show ?thesis using promoted_run [OF assms] by simp
next
  case (Inr p')
  then obtain out where out: "p' = \<lparr>bp_protected = PerK out, bp_in_range = PerK inr\<rparr>" "length out = length e" "\<forall>r\<in>set out. length r = nb"
      and mem: "\<forall>k<length e. \<forall>i<nb. out ! k ! i \<longleftrightarrow> (\<exists>i'<nb. prot ! k ! i' \<and> same_multiplet (e ! k) tol (off + i) (off + i'))"
      and inside: "\<forall>k<length e. \<forall>i<nb. \<forall>x<length (e ! k). prot ! k ! i \<and> same_multiplet (e ! k) tol (off + i) x \<longrightarrow> off \<le> x \<and> x < off + nb"
    using promoted_run [OF assms] by auto
  have ok: "e \<noteq> []" "0 < nb" "\<forall>row\<in>set e. off + nb \<le> length row" "length inr = length e" "\<forall>r\<in>set inr. length r = nb"
    using assms(1) by (simp_all add: partition_ok_def)
  have bc: "mask_width (PerK out) = nb" "broadcast_mask (PerK out) (length e) nb = Inr out" "broadcast_mask (PerK inr) (length e) nb = Inr inr"
    using broadcast_rows [of out nb] broadcast_rows [of inr nb] out(2,3) ok by force+
  have ok': "partition_ok p' e off nb out inr" using ok out bc by (simp add: partition_ok_def)
  have closed: "closed_masks e tol off nb out"
    using mem same_multiplet_trans same_multiplet_sym unfolding closed_masks_def by meson
  have inside': "\<forall>k<length e. \<forall>i<nb. \<forall>x<length (e ! k). out ! k ! i \<and> same_multiplet (e ! k) tol (off + i) x \<longrightarrow> off \<le> x \<and> x < off + nb"
    using mem inside same_multiplet_trans same_multiplet_sym by meson
  show ?thesis
    using Inr out(1) mem inside closed_report [OF ok' assms(2) closed] closed_promoted [OF ok' out(1) assms(2) closed inside'] by auto
qed

theorem promotion_closes_multiplets_witness:
  "case promoted_to_multiplets \<lparr>bp_protected = AllK [True, False, False], bp_in_range = AllK [True, True, False]\<rparr> [[0, 5, 5, 9 :: real], [0, 5, 6, 9]] 1 (Some (Num 1)) of
     Inr p' \<Rightarrow> report_multiplet_splits p' [[0, 5, 5, 9], [0, 5, 6, 9]] 1 (Some (Num 1)) = Inr (0, 0) | Inl err \<Rightarrow> err \<noteq> BadTolerance"
proof -
  let ?p = "\<lparr>bp_protected = AllK [True, False, False], bp_in_range = AllK [True, True, False]\<rparr>" and ?e = "[[0, 5, 5, 9 :: real], [0, 5, 6, 9]]"
  have ok: "partition_ok ?p ?e 1 3 [[True, False, False], [True, False, False]] [[True, True, False], [True, True, False]]"
    by (simp add: partition_ok_def broadcast_mask_def mask_width_def numeral_2_eq_2)
  have tol: "multiplet_tolerance (Some (Num 1)) = Inr (1 / RYD_TO_EV)" by (simp add: multiplet_tolerance_def RYD_TO_EV_def)
  show ?thesis
    using promotion_closes_multiplets [OF ok tol]
    by (cases "promoted_to_multiplets ?p ?e 1 (Some (Num 1))") auto
qed

end
