(* ===== verification/OrbitLabels.thy ===== *)
theory OrbitLabels
  imports NumPyOps
begin

text \<open>
  \<open>permutation_orbit_labels\<close> of \<open>services/symmetry_maps/src/symmetry_maps/orbit_syms.py\<close>: dense labels
  of the connected components of a stack of permutations, by union-find with path halving over one mutable
  \<open>parent\<close> array. The search is a loop over that array, so it is a partial function here; the parent of a
  point never exceeds it, which is why every search returns and the root of a component is its least member.

  The table is its number of points and its rows. The check that it is a two-dimensional integer array is
  carried by the type.
\<close>

section \<open>The code\<close>

datatype label_error = NoPoints | NotPermutation nat

partial_function (option) uf_find :: "nat list \<Rightarrow> nat \<Rightarrow> (nat list \<times> nat) option" where
  "uf_find parent point =
     (if parent ! point \<noteq> point then
        (let parent' = parent[point := parent ! (parent ! point)] in uf_find parent' (parent' ! point))
      else Some (parent, point))"

definition join_roots :: "nat \<Rightarrow> int \<Rightarrow> nat list \<Rightarrow> nat list option" where
  "join_roots target source parent =
     Option.bind (uf_find parent target) (\<lambda>(p, root_target).
     Option.bind (uf_find p (nat source)) (\<lambda>(p', root_source).
       Some (if root_target \<noteq> root_source then p'[max root_target root_source := min root_target root_source] else p')))"

fun join_all :: "(nat \<times> int) list \<Rightarrow> nat list \<Rightarrow> nat list option" where
  "join_all [] parent = Some parent"
| "join_all ((target, source) # es) parent = Option.bind (join_roots target source parent) (join_all es)"

fun find_each :: "nat list \<Rightarrow> nat list \<Rightarrow> (nat list \<times> nat list) option" where
  "find_each [] parent = Some (parent, [])"
| "find_each (i # is) parent =
     Option.bind (uf_find parent i) (\<lambda>(p, r). Option.bind (find_each is p) (\<lambda>(p', rs). Some (p', r # rs)))"

definition row_is_perm :: "nat \<Rightarrow> int list \<Rightarrow> bool" where
  "row_is_perm n row \<longleftrightarrow> \<not> (Min (set row) < 0 \<or> int n \<le> Max (set row) \<or> sort row \<noteq> map int [0..<n])"

definition permutation_orbit_labels :: "nat \<Rightarrow> int list list \<Rightarrow> (label_error, int list) result option" where
  "permutation_orbit_labels n rows =
     (if n < 1 then Some (Inl NoPoints)
      else case find (\<lambda>(op, row). \<not> row_is_perm n row) (enumerate 0 rows) of
        Some (op, row) \<Rightarrow> Some (Inl (NotPermutation op))
      | None \<Rightarrow>
          Option.bind (join_all (concat (map (enumerate 0) rows)) [0..<n]) (\<lambda>parent.
          Option.bind (find_each [0..<n] parent) (\<lambda>(parent', roots).
            Some (Inr (map (to_i32 \<circ> int) (snd (snd (np_unique roots))))))))"

declare uf_find.simps [code]

section \<open>Roots\<close>

text \<open>The array stays below the diagonal, so the root of a point is reached by walking down.\<close>

definition forest :: "nat \<Rightarrow> nat list \<Rightarrow> bool" where
  "forest n p \<longleftrightarrow> length p = n \<and> (\<forall>i<n. p ! i \<le> i)"

function rep :: "nat list \<Rightarrow> nat \<Rightarrow> nat" where
  "rep p i = (if p ! i < i then rep p (p ! i) else i)"
  by pat_completeness auto
termination by (relation "measure snd") auto

declare rep.simps [simp del]

lemma rep_le: "rep p i \<le> i"
proof (induction p i rule: rep.induct)
  case (1 p i)
  then show ?case by (subst rep.simps) auto
qed

lemma rep_step: "forest n p \<Longrightarrow> i < n \<Longrightarrow> rep p (p ! i) = rep p i"
  using rep.simps [of p i] by (cases "p ! i < i") (auto simp: forest_def order_less_le)

lemma rep_root: "forest n p \<Longrightarrow> i < n \<Longrightarrow> p ! rep p i = rep p i"
proof (induction p i rule: rep.induct)
  case (1 p i)
  then show ?case by (subst (1 2) rep.simps) (auto simp: forest_def order_less_le)
qed

lemma rep_fixed: "p ! i = i \<Longrightarrow> rep p i = i"
  by (subst rep.simps) simp

lemma rep_rep [simp]: "forest n p \<Longrightarrow> i < n \<Longrightarrow> rep p (rep p i) = rep p i"
  by (rule rep_fixed) (rule rep_root)

lemma forest_init: "forest n [0..<n]"
  by (simp add: forest_def)

lemma rep_init: "i < n \<Longrightarrow> rep [0..<n] i = i"
  by (rule rep_fixed) simp

text \<open>Redirecting a point below itself, within its own tree, moves no root; redirecting a root merges its tree.\<close>

lemma forest_update: "forest n p \<Longrightarrow> v \<le> i \<Longrightarrow> forest n (p[i := v])"
  unfolding forest_def length_list_update by (metis nth_list_update_eq nth_list_update_neq)

lemma rep_redirect:
  assumes "forest n p" "i < n" "v < i" "rep p v = rep p i" "j < n"
  shows "rep (p[i := v]) j = rep p j"
  using assms(5)
proof (induction j rule: less_induct)
  case (less j)
  have len: "length p = n" and below: "p ! j \<le> j" using assms(1) less.prems by (auto simp: forest_def)
  show ?case
  proof (cases "j = i")
    case True
    then have "rep (p[i := v]) j = rep (p[i := v]) v" using len assms(2,3) by (subst rep.simps) simp
    also have "\<dots> = rep p v" using less.IH [of v] True assms(3) less.prems by simp
    finally show ?thesis using True assms(4) by simp
  next
    case False
    then show ?thesis using less.IH [of "p ! j"] less.prems below by (subst (1 2) rep.simps) (simp add: len)
  qed
qed

lemma rep_merge:
  assumes "forest n p" "hi < n" "lo < hi" "rep p lo = lo" "rep p hi = hi" "j < n"
  shows "rep (p[hi := lo]) j = (if rep p j = hi then lo else rep p j)"
  using assms(6)
proof (induction j rule: less_induct)
  case (less j)
  have len: "length p = n" and below: "p ! j \<le> j" using assms(1) less.prems by (auto simp: forest_def)
  show ?case
  proof (cases "j = hi")
    case True
    then have "rep (p[hi := lo]) j = rep (p[hi := lo]) lo" using len assms(2,3) by (subst rep.simps) simp
    also have "\<dots> = lo" using less.IH [of lo] True assms(2,3,4) less.prems by simp
    finally show ?thesis using True assms(5) by simp
  next
    case False
    show ?thesis
    proof (cases "p ! j < j")
      case True
      then show ?thesis using False less.IH [of "p ! j"] less.prems by (subst (1 2 3) rep.simps) (simp add: len)
    next
      case no: False
      then have "rep p j = j" "rep (p[hi := lo]) j = j" using False by (subst rep.simps; simp)+
      then show ?thesis using False by simp
    qed
  qed
qed

section \<open>The searches return\<close>

lemma find_returns:
  assumes "forest n p" "i < n"
  shows "\<exists>p'. uf_find p i = Some (p', rep p i) \<and> forest n p' \<and> (\<forall>j<n. rep p' j = rep p j)"
  using assms
proof (induction i arbitrary: p rule: less_induct)
  case (less i)
  show ?case
  proof (cases "p ! i = i")
    case True
    then show ?thesis using less.prems by (subst uf_find.simps) (simp add: rep_fixed)
  next
    case False
    let ?v = "p ! (p ! i)" and ?p = "p[i := p ! (p ! i)]"
    have pi: "p ! i < i" "p ! i < n" using less.prems False by (auto simp: forest_def order_less_le)
    have v: "?v \<le> p ! i" "?v < i" "?v < n" using less.prems(1) pi by (auto simp: forest_def)
    have root: "rep p ?v = rep p i"
      using rep_step [OF less.prems(1) pi(2)] rep_step [OF less.prems] by simp
    have f: "forest n ?p" using less.prems(1) v(2) by (simp add: forest_update)
    have same: "\<forall>j<n. rep ?p j = rep p j"
      using rep_redirect [OF less.prems v(2) root] by blast
    obtain p' where p': "uf_find ?p ?v = Some (p', rep ?p ?v)" "forest n p'" "\<forall>j<n. rep p' j = rep ?p j"
      using less.IH [OF v(2) f v(3)] by blast
    have "uf_find p i = uf_find ?p ?v"
      using False less.prems by (subst uf_find.simps) (simp add: Let_def forest_def)
    then show ?thesis using p' same root v(3) by simp
  qed
qed

lemma join_returns:
  assumes "forest n p" "t < n" "0 \<le> s" "s < int n"
  shows "\<exists>p'. join_roots t s p = Some p' \<and> forest n p' \<and>
    (\<forall>j<n. rep p' j = (if rep p j \<in> {rep p t, rep p (nat s)} then min (rep p t) (rep p (nat s)) else rep p j))"
proof -
  have s: "nat s < n" using assms by simp
  obtain p1 where p1: "uf_find p t = Some (p1, rep p t)" "forest n p1" "\<forall>j<n. rep p1 j = rep p j"
    using find_returns [OF assms(1,2)] by blast
  obtain p2 where p2: "uf_find p1 (nat s) = Some (p2, rep p (nat s))" "forest n p2" "\<forall>j<n. rep p2 j = rep p j"
    using find_returns [OF p1(2) s] p1(3) s by fastforce
  let ?a = "rep p t" and ?b = "rep p (nat s)"
  have ab: "?a < n" "?b < n" using rep_le [of p t] rep_le [of p "nat s"] assms(2) s by simp_all
  have roots: "rep p2 ?a = ?a" "rep p2 ?b = ?b" using p2(3) ab assms(1,2) s by simp_all
  show ?thesis
  proof (cases "?a = ?b")
    case True
    then have "join_roots t s p = Some p2" using p1(1) p2(1) by (simp add: join_roots_def)
    then show ?thesis using True p2 by auto
  next
    case False
    let ?hi = "max ?a ?b" and ?lo = "min ?a ?b"
    have "join_roots t s p = Some (p2[?hi := ?lo])" using False p1(1) p2(1) by (simp add: join_roots_def)
    moreover have "forest n (p2[?hi := ?lo])" using p2(2) by (rule forest_update) simp
    moreover have "rep (p2[?hi := ?lo]) j = (if rep p j \<in> {?a, ?b} then ?lo else rep p j)" if "j < n" for j
    proof -
      have "rep (p2[?hi := ?lo]) j = (if rep p2 j = ?hi then ?lo else rep p2 j)"
        by (rule rep_merge [OF p2(2)]) (use False ab roots that in \<open>auto simp: max_def min_def\<close>)
      then show ?thesis using p2(3) that by (auto simp: max_def min_def)
    qed
    ultimately show ?thesis by blast
  qed
qed

lemma find_each_returns:
  assumes "forest n p" "\<forall>i\<in>set is. i < n"
  shows "\<exists>p'. find_each is p = Some (p', map (rep p) is)"
  using assms
proof (induction "is" arbitrary: p)
  case (Cons i "is")
  obtain p1 where p1: "uf_find p i = Some (p1, rep p i)" "forest n p1" "\<forall>j<n. rep p1 j = rep p j"
    using find_returns [OF Cons.prems(1)] Cons.prems(2) by force
  obtain p2 where "find_each is p1 = Some (p2, map (rep p1) is)" using Cons.IH [OF p1(2)] Cons.prems(2) by auto
  moreover have "map (rep p1) is = map (rep p) is" using p1(3) Cons.prems(2) by simp
  ultimately show ?case using p1(1) by simp
qed simp

section \<open>Components\<close>

text \<open>The pairs a row relates, and the equivalence the rows generate.\<close>

definition moves :: "int list list \<Rightarrow> (nat \<times> nat) set" where
  "moves rows = {(t, nat (row ! t)) | t row. row \<in> set rows \<and> t < length row}"

definition linked :: "int list list \<Rightarrow> (nat \<times> nat) set" where
  "linked rows = (moves rows \<union> (moves rows)\<inverse>)\<^sup>*"

lemma linked_sym: "(a, b) \<in> linked rows \<longleftrightarrow> (b, a) \<in> linked rows"
proof -
  have "sym (moves rows \<union> (moves rows)\<inverse>)" by (auto simp: sym_def)
  then show ?thesis unfolding linked_def by (meson sym_rtrancl symE)
qed

lemma linked_flip: "(a, b) \<in> linked rows \<Longrightarrow> (b, a) \<in> linked rows"
  by (simp add: linked_sym [of b])

lemma linked_refl [simp]: "(a, a) \<in> linked rows"
  by (simp add: linked_def)

lemma linked_trans: "(a, b) \<in> linked rows \<Longrightarrow> (b, c) \<in> linked rows \<Longrightarrow> (a, c) \<in> linked rows"
  unfolding linked_def by (rule rtrancl_trans)

text \<open>Joining along edges keeps every root inside its component and equates the ends of each edge.\<close>

definition inside :: "nat \<Rightarrow> int list list \<Rightarrow> nat list \<Rightarrow> bool" where
  "inside n rows p \<longleftrightarrow> forest n p \<and> (\<forall>j<n. (j, rep p j) \<in> linked rows)"

lemma join_all_returns:
  assumes "inside n rows p" "\<forall>(t, s)\<in>set es. t < n \<and> 0 \<le> s \<and> s < int n \<and> (t, nat s) \<in> moves rows"
  shows "\<exists>p'. join_all es p = Some p' \<and> inside n rows p' \<and> (\<forall>(t, s)\<in>set es. rep p' t = rep p' (nat s)) \<and>
    (\<forall>i<n. \<forall>j<n. rep p i = rep p j \<longrightarrow> rep p' i = rep p' j)"
  using assms
proof (induction es arbitrary: p)
  case (Cons e es)
  obtain t s where e: "e = (t, s)" by (cases e)
  have ts: "t < n" "0 \<le> s" "s < int n" "nat s < n" "(t, nat s) \<in> linked rows"
    using Cons.prems(2) e by (auto simp: linked_def)
  have f: "forest n p" and ins: "\<forall>j<n. (j, rep p j) \<in> linked rows" using Cons.prems(1) by (auto simp: inside_def)
  obtain p1 where p1: "join_roots t s p = Some p1" "forest n p1"
    and r1: "\<forall>j<n. rep p1 j = (if rep p j \<in> {rep p t, rep p (nat s)} then min (rep p t) (rep p (nat s)) else rep p j)"
    using join_returns [OF f ts(1-3)] by blast
  have "(j, rep p1 j) \<in> linked rows" if "j < n" for j
  proof -
    let ?a = "rep p t" and ?b = "rep p (nat s)"
    have lj: "(j, rep p j) \<in> linked rows" and la: "(t, ?a) \<in> linked rows" and lb: "(nat s, ?b) \<in> linked rows"
      using ins ts that by auto
    have ab: "(?a, ?b) \<in> linked rows" by (rule linked_trans [OF linked_flip [OF la] linked_trans [OF ts(5) lb]])
    have "(rep p j, min ?a ?b) \<in> linked rows" if "rep p j \<in> {?a, ?b}"
      using that ab linked_flip [OF ab] by (cases "?a \<le> ?b") auto
    then show ?thesis using r1 that lj linked_trans [OF lj] by auto
  qed
  then have in1: "inside n rows p1" using p1(2) by (simp add: inside_def)
  obtain p2 where p2: "join_all es p1 = Some p2" "inside n rows p2" "\<forall>(t, s)\<in>set es. rep p2 t = rep p2 (nat s)"
      "\<forall>i<n. \<forall>j<n. rep p1 i = rep p1 j \<longrightarrow> rep p2 i = rep p2 j"
    using Cons.IH [OF in1] Cons.prems(2) by auto
  have "rep p1 t = rep p1 (nat s)" using r1 ts by simp
  then have "rep p2 t = rep p2 (nat s)" using p2(4) ts by blast
  then have "\<forall>(t, s)\<in>set (e # es). rep p2 t = rep p2 (nat s)" using p2(3) e by auto
  moreover have "rep p2 i = rep p2 j" if "i < n" "j < n" "rep p i = rep p j" for i j
  proof -
    have "rep p1 i = rep p1 j" using r1 [rule_format, OF that(1)] r1 [rule_format, OF that(2)] that(3) by simp
    then show ?thesis using p2(4) that(1,2) by blast
  qed
  moreover have "join_all (e # es) p = Some p2" using p1(1) p2(1) e by simp
  ultimately show ?case using p2(2) by blast
qed simp

section \<open>The labels\<close>

text \<open>A table of permutations, and the least point of each component.\<close>

definition perm_table :: "nat \<Rightarrow> int list list \<Rightarrow> bool" where
  "perm_table n rows \<longleftrightarrow> (\<forall>row\<in>set rows. distinct row \<and> set row = {0..<int n})"

definition least_linked :: "int list list \<Rightarrow> nat \<Rightarrow> nat" where
  "least_linked rows i = (LEAST m. (i, m) \<in> linked rows)"

lemma row_is_perm_iff: "1 \<le> n \<Longrightarrow> row_is_perm n row \<longleftrightarrow> distinct row \<and> set row = {0..<int n}"
proof
  assume "row_is_perm n row"
  then have m: "mset row = mset (map int [0..<n])"
    unfolding row_is_perm_def by (metis mset_sort)
  then have "distinct row" by (metis distinct_map distinct_upt inj_on_of_nat mset_eq_imp_distinct_iff)
  moreover have "set row = int ` {0..<n}" using mset_eq_setD [OF m] by simp
  ultimately show "distinct row \<and> set row = {0..<int n}" by (simp add: image_int_atLeastLessThan)
next
  assume n: "1 \<le> n" and r: "distinct row \<and> set row = {0..<int n}"
  have "sort row = map int [0..<n]"
  proof (rule sorted_distinct_set_unique)
    show "sorted (map int [0..<n])" by (simp add: sorted_map)
    show "distinct (map int [0..<n])" by (simp add: distinct_map)
    show "set (sort row) = set (map int [0..<n])" using r by (simp add: image_int_atLeastLessThan)
  qed (use r in simp_all)
  moreover have "Min {0..<int n} = 0" using n by (intro Min_eqI) auto
  moreover have "Max {0..<int n} = int n - 1" using n by (intro Max_eqI) auto
  ultimately show "row_is_perm n row" using r by (simp add: row_is_perm_def)
qed

lemma perm_row: "perm_table n rows \<Longrightarrow> row \<in> set rows \<Longrightarrow> length row = n \<and> set row = {0..<int n}"
proof -
  assume "perm_table n rows" "row \<in> set rows"
  then have row: "distinct row" "set row = {0..<int n}" by (auto simp: perm_table_def)
  then show ?thesis using distinct_card [OF row(1)] by simp
qed

lemma first_index_sorted:
  assumes "sorted xs" "distinct xs" "x \<in> set xs"
  shows "first_index x xs = card {y \<in> set xs. y < x}"
  using assms
proof (induction xs)
  case (Cons a xs)
  show ?case
  proof (cases "a = x")
    case True
    then have "{y \<in> set (a # xs). y < x} = {}" using Cons.prems by auto
    then show ?thesis using True by (simp add: first_index_def)
  next
    case False
    then have ax: "a < x" using Cons.prems by auto
    have "{y \<in> set (a # xs). y < x} = insert a {y \<in> set xs. y < x}" using ax by auto
    then have "card {y \<in> set (a # xs). y < x} = Suc (card {y \<in> set xs. y < x})" using Cons.prems by simp
    moreover have "first_index x (a # xs) = Suc (first_index x xs)" using False by (simp add: first_index_def)
    ultimately show ?thesis using Cons False by simp
  qed
qed simp

lemma moves_bound: "perm_table n rows \<Longrightarrow> (a, b) \<in> moves rows \<Longrightarrow> a < n \<and> b < n"
proof -
  assume t: "perm_table n rows" and ab: "(a, b) \<in> moves rows"
  then obtain row where row: "row \<in> set rows" "a < length row" "b = nat (row ! a)" by (auto simp: moves_def)
  have len: "length row = n" using perm_row [OF t row(1)] by simp
  have "row ! a \<in> {0..<int n}" using perm_row [OF t row(1)] nth_mem [OF row(2)] by simp
  then show "a < n \<and> b < n" using row len by auto
qed

lemma linked_bound: "perm_table n rows \<Longrightarrow> (a, b) \<in> linked rows \<Longrightarrow> a < n \<Longrightarrow> b < n"
  unfolding linked_def by (erule rtrancl_induct) (auto dest: moves_bound)

lemma roots_run:
  assumes "1 \<le> n" "perm_table n rows"
  shows "\<exists>p. inside n rows p \<and> (\<forall>i<n. \<forall>j<n. rep p i = rep p j \<longleftrightarrow> (i, j) \<in> linked rows) \<and>
    permutation_orbit_labels n rows = Some (Inr (map (\<lambda>i. to_i32 (int (card {r \<in> rep p ` {0..<n}. r < rep p i}))) [0..<n]))"
proof -
  let ?es = "concat (map (enumerate 0) rows)"
  have es: "\<forall>(t, s)\<in>set ?es. t < n \<and> 0 \<le> s \<and> s < int n \<and> (t, nat s) \<in> moves rows"
  proof clarify
    fix t s assume "(t, s) \<in> set ?es"
    then obtain row where row: "row \<in> set rows" "t < length row" "s = row ! t"
      by (auto simp: in_set_enumerate_eq)
    have len: "length row = n" using perm_row [OF assms(2) row(1)] by simp
    have "row ! t \<in> {0..<int n}" using perm_row [OF assms(2) row(1)] nth_mem [OF row(2)] by simp
    then show "t < n \<and> 0 \<le> s \<and> s < int n \<and> (t, nat s) \<in> moves rows"
      using row len by (auto simp: moves_def)
  qed
  have "inside n rows [0..<n]" by (simp add: inside_def forest_init rep_init)
  from join_all_returns [OF this es] obtain p where p: "join_all ?es [0..<n] = Some p" "inside n rows p"
      "\<forall>(t, s)\<in>set ?es. rep p t = rep p (nat s)" by blast
  have f: "forest n p" using p(2) by (simp add: inside_def)
  have edge: "rep p a = rep p b" if ab: "(a, b) \<in> moves rows" for a b
  proof -
    from ab obtain row where row: "row \<in> set rows" "a < length row" "b = nat (row ! a)" by (auto simp: moves_def)
    then have "(a, row ! a) \<in> set ?es" by (auto simp: in_set_enumerate_eq)
    then show ?thesis using p(3) row(3) by auto
  qed
  have up: "rep p i = rep p j" if "(i, j) \<in> linked rows" for i j
    using that unfolding linked_def by (induction rule: rtrancl_induct) (auto dest: edge)
  have down: "(i, j) \<in> linked rows" if "i < n" "j < n" "rep p i = rep p j" for i j
  proof -
    have i: "(i, rep p i) \<in> linked rows" and j: "(j, rep p j) \<in> linked rows" using p(2) that(1,2) by (auto simp: inside_def)
    show ?thesis using linked_trans [OF i] linked_flip [OF j] that(3) by simp
  qed
  obtain p' where fe: "find_each [0..<n] p = Some (p', map (rep p) [0..<n])"
    using find_each_returns [OF f, of "[0..<n]"] by auto
  have ok: "find (\<lambda>(op, row). \<not> row_is_perm n row) (enumerate 0 rows) = None"
    using assms by (auto simp: find_None_iff in_set_enumerate_eq perm_table_def row_is_perm_iff)
  let ?u = "sort (remdups (map (rep p) [0..<n]))"
  have "first_index (rep p i) ?u = card {r \<in> rep p ` {0..<n}. r < rep p i}" if "i < n" for i
    using first_index_sorted [of ?u "rep p i"] that by simp
  then have "snd (snd (np_unique (map (rep p) [0..<n]))) = map (\<lambda>i. card {r \<in> rep p ` {0..<n}. r < rep p i}) [0..<n]"
    by (simp add: np_unique_def Let_def)
  then have "permutation_orbit_labels n rows = Some (Inr (map (\<lambda>i. to_i32 (int (card {r \<in> rep p ` {0..<n}. r < rep p i}))) [0..<n]))"
    using assms(1) ok p(1) fe by (simp add: permutation_orbit_labels_def)
  then show ?thesis using p(2) up down by blast
qed

text \<open>The root of a point is the least point of its component.\<close>

lemma root_least:
  assumes "inside n rows p" "\<forall>i<n. \<forall>j<n. rep p i = rep p j \<longleftrightarrow> (i, j) \<in> linked rows" "perm_table n rows" "i < n"
  shows "rep p i = least_linked rows i"
  unfolding least_linked_def
proof (rule Least_equality [symmetric])
  show "(i, rep p i) \<in> linked rows" using assms(1,4) by (simp add: inside_def)
  fix m assume m: "(i, m) \<in> linked rows"
  then have "m < n" using linked_bound assms(3,4) by blast
  then show "rep p i \<le> m" using assms(2,4) m rep_le [of p m] by metis
qed

abbreviation started_before :: "nat \<Rightarrow> int list list \<Rightarrow> nat \<Rightarrow> nat" where
  "started_before n rows i \<equiv> card {m \<in> least_linked rows ` {0..<n}. m < least_linked rows i}"

lemma labels_of_table:
  assumes "1 \<le> n" "n \<le> 2 ^ 31" "perm_table n rs"
  shows "permutation_orbit_labels n rs = Some (Inr (map (\<lambda>i. int (started_before n rs i)) [0..<n]))"
proof -
  obtain p where p: "inside n rs p" "\<forall>i<n. \<forall>j<n. rep p i = rep p j \<longleftrightarrow> (i, j) \<in> linked rs"
    and ret: "permutation_orbit_labels n rs = Some (Inr (map (\<lambda>i. to_i32 (int (card {r \<in> rep p ` {0..<n}. r < rep p i}))) [0..<n]))"
    using roots_run [OF assms(1,3)] by blast
  have root: "rep p i = least_linked rs i" if "i < n" for i using root_least [OF p assms(3) that] .
  have "{r \<in> rep p ` {0..<n}. r < rep p i} = {m \<in> least_linked rs ` {0..<n}. m < least_linked rs i}" if "i < n" for i
    using root that by (auto simp: image_iff)
  moreover have "to_i32 (int (started_before n rs i)) = int (started_before n rs i)" if "i < n" for i
  proof -
    have "{m \<in> least_linked rs ` {0..<n}. m < least_linked rs i} \<subseteq> {0..<i}"
      using root [OF that] rep_le [of p i] by auto
    then have "started_before n rs i \<le> i" using card_mono [of "{0..<i}"] by fastforce
    then show ?thesis using that assms(2) by (intro to_i32_id) auto
  qed
  ultimately show ?thesis using ret by simp
qed

lemma started_before_eq:
  assumes "1 \<le> n" "perm_table n rows" "i < n" "j < n"
  shows "started_before n rows i = started_before n rows j \<longleftrightarrow> (i, j) \<in> linked rows"
proof -
  have mono: "started_before n rows a < started_before n rows b" if "least_linked rows a < least_linked rows b" "a < n" for a b
    using that by (intro psubset_card_mono) auto
  obtain p where p: "inside n rows p" "\<forall>i<n. \<forall>j<n. rep p i = rep p j \<longleftrightarrow> (i, j) \<in> linked rows"
    using roots_run [OF assms(1,2)] by blast
  have "(i, j) \<in> linked rows \<longleftrightarrow> least_linked rows i = least_linked rows j"
    using p(2) root_least [OF p assms(2)] assms(3,4) by simp
  moreover have "started_before n rows i = started_before n rows j \<longleftrightarrow> least_linked rows i = least_linked rows j"
  proof (cases "least_linked rows i" "least_linked rows j" rule: linorder_cases)
    case less
    show ?thesis using mono [OF less assms(3)] less by linarith
  next
    case greater
    show ?thesis using mono [OF greater assms(4)] greater by linarith
  qed simp
  ultimately show ?thesis by simp
qed

lemma labels_refused:
  assumes "1 \<le> n" "\<not> perm_table n rows"
  shows "\<exists>op<length rows. permutation_orbit_labels n rows = Some (Inl (NotPermutation op)) \<and> \<not> perm_table n [rows ! op]"
proof -
  let ?bad = "\<lambda>(op, row). \<not> row_is_perm n row"
  obtain row where row: "row \<in> set rows" "\<not> row_is_perm n row"
    using assms by (auto simp: perm_table_def row_is_perm_iff)
  then obtain i where "i < length rows" "rows ! i = row" by (auto simp: in_set_conv_nth)
  then have "(i, row) \<in> set (enumerate 0 rows)" by (auto simp: in_set_enumerate_eq)
  then have "find ?bad (enumerate 0 rows) \<noteq> None" using row(2) by (auto simp: find_None_iff)
  then obtain op r where f: "find ?bad (enumerate 0 rows) = Some (op, r)" by auto
  then obtain k where "k < length rows" "(op, r) = enumerate 0 rows ! k" "\<not> row_is_perm n r"
    by (auto simp: find_Some_iff)
  then have "op < length rows" "r = rows ! op" "\<not> row_is_perm n r" by (auto simp: nth_enumerate_eq)
  then show ?thesis using f assms(1) by (auto simp: permutation_orbit_labels_def perm_table_def row_is_perm_iff)
qed

text \<open>
  C11: On every stack of permutations \<open>permutation_orbit_labels\<close> returns: two points get the same label
  exactly when the rows connect them, and the label of a point is the number of components that start before
  its own, so labels are dense and numbered in the order components first appear. Only the components matter:
  another stack that connects the same points (the rows reordered, or each replaced by its inverse) gets
  the same labels. Anything that is not a stack of permutations is refused.
\<close>

theorem orbit_labels_exact:
  assumes "1 \<le> n" "n \<le> 2 ^ 31"
  shows "if perm_table n rows
    then \<exists>labels. permutation_orbit_labels n rows = Some (Inr labels) \<and> length labels = n \<and>
      (\<forall>i<n. \<forall>j<n. labels ! i = labels ! j \<longleftrightarrow> (i, j) \<in> linked rows) \<and>
      (\<forall>i<n. labels ! i = int (started_before n rows i)) \<and>
      (\<forall>rows'. perm_table n rows' \<and> linked rows' = linked rows \<longrightarrow> permutation_orbit_labels n rows' = Some (Inr labels))
    else \<exists>op<length rows. permutation_orbit_labels n rows = Some (Inl (NotPermutation op)) \<and> \<not> perm_table n [rows ! op]"
proof (cases "perm_table n rows")
  case True
  show ?thesis
    unfolding if_P [OF True]
  proof (intro exI conjI)
    show "permutation_orbit_labels n rows = Some (Inr (map (\<lambda>i. int (started_before n rows i)) [0..<n]))"
      by (rule labels_of_table [OF assms True])
    show "\<forall>rows'. perm_table n rows' \<and> linked rows' = linked rows \<longrightarrow>
        permutation_orbit_labels n rows' = Some (Inr (map (\<lambda>i. int (started_before n rows i)) [0..<n]))"
      using labels_of_table [OF assms] by (simp add: least_linked_def)
  qed (use started_before_eq [OF assms(1) True] in simp_all)
next
  case False
  then show ?thesis using labels_refused [OF assms(1) False] by simp
qed

theorem orbit_labels_exact_witness:
  "\<exists>labels. permutation_orbit_labels 4 [[2, 1, 0, 3], [0, 3, 2, 1]] = Some (Inr labels) \<and> labels ! 0 = labels ! 2"
proof -
  let ?rows = "[[2, 1, 0, 3], [0, 3, 2, 1]] :: int list list"
  have t: "perm_table 4 ?rows" by (auto simp: perm_table_def)
  have "(0, 2) \<in> moves ?rows" by (force simp: moves_def)
  then have "(0, 2) \<in> linked ?rows" by (auto simp: linked_def)
  then show ?thesis using orbit_labels_exact [of 4 ?rows] t by fastforce
qed

end
