(* ===== verification/KGrid.thy ===== *)
theory KGrid
  imports NumPyOps
begin

text \<open>
  The integer side of a uniform k mesh, as \<open>services/symmetry_maps/src/symmetry_maps/maps.py\<close> writes it:
  rows in C order and their flat ids, the shift of a mesh by one of its vectors (\<open>kgrid_shift_map\<close>), the
  row of \<open>-q\<close> (\<open>q_negation_index\<close>), and the rows two meshes share (\<open>common_uniform_grid_indices\<close>).

  A mesh is its three extents, a point three integers, an operation three integer rows. The shape checks on
  NumPy arrays are carried by the types. Arithmetic that the code does in int32 arrays wraps here too.
\<close>

section \<open>Vectors and the mesh\<close>

type_synonym ivec = "int \<times> int \<times> int"
type_synonym imat = "ivec \<times> ivec \<times> ivec"

fun vadd :: "ivec \<Rightarrow> ivec \<Rightarrow> ivec" where
  "vadd (a, b, c) (x, y, z) = (a + x, b + y, c + z)"

fun vneg :: "ivec \<Rightarrow> ivec" where
  "vneg (a, b, c) = (- a, - b, - c)"

fun vmul :: "ivec \<Rightarrow> ivec \<Rightarrow> ivec" where
  "vmul (a, b, c) (x, y, z) = (a * x, b * y, c * z)"

fun vmod :: "ivec \<Rightarrow> ivec \<Rightarrow> ivec" where
  "vmod (a, b, c) (x, y, z) = (a mod x, b mod y, c mod z)"

fun vdiv :: "ivec \<Rightarrow> ivec \<Rightarrow> ivec" where
  "vdiv (a, b, c) (x, y, z) = (a div x, b div y, c div z)"

fun vdot :: "ivec \<Rightarrow> ivec \<Rightarrow> int" where
  "vdot (a, b, c) (x, y, z) = a * x + b * y + c * z"

fun mat_vec :: "imat \<Rightarrow> ivec \<Rightarrow> ivec" where
  "mat_vec (r1, r2, r3) v = (vdot r1 v, vdot r2 v, vdot r3 v)"

fun mat_neg :: "imat \<Rightarrow> imat" where
  "mat_neg (r1, r2, r3) = (vneg r1, vneg r2, vneg r3)"

fun grid_ok :: "ivec \<Rightarrow> bool" where
  "grid_ok (nx, ny, nz) \<longleftrightarrow> 0 < nx \<and> 0 < ny \<and> 0 < nz"

fun grid_size :: "ivec \<Rightarrow> int" where
  "grid_size (nx, ny, nz) = nx * ny * nz"

fun in_grid :: "ivec \<Rightarrow> ivec \<Rightarrow> bool" where
  "in_grid (nx, ny, nz) (x, y, z) \<longleftrightarrow> 0 \<le> x \<and> x < nx \<and> 0 \<le> y \<and> y < ny \<and> 0 \<le> z \<and> z < nz"

text \<open>\<open>np.meshgrid(..., indexing="ij")\<close> over three ranges, one row per point.\<close>

definition mesh_rows :: "int list \<Rightarrow> int list \<Rightarrow> int list \<Rightarrow> ivec list" where
  "mesh_rows xs ys zs = concat (map (\<lambda>x. concat (map (\<lambda>y. map (\<lambda>z. (x, y, z)) zs) ys)) xs)"

fun grid_rows :: "ivec \<Rightarrow> ivec list" where
  "grid_rows (nx, ny, nz) = mesh_rows [0..nx - 1] [0..ny - 1] [0..nz - 1]"

text \<open>The C-order key of a point, \<open>np.ravel_multi_index\<close> and \<open>np.unravel_index\<close>.\<close>

fun flat_key :: "ivec \<Rightarrow> ivec \<Rightarrow> int" where
  "flat_key (nx, ny, nz) (x, y, z) = (x * ny + y) * nz + z"

fun unravel :: "ivec \<Rightarrow> int \<Rightarrow> ivec" where
  "unravel (nx, ny, nz) i = (i div (ny * nz), i div nz mod ny, i mod nz)"

definition flat_ids :: "ivec \<Rightarrow> ivec list \<Rightarrow> int list" where
  "flat_ids kg rows = map (\<lambda>v. flat_key kg (vmod v kg)) rows"

section \<open>The code\<close>

fun kgrid_shift_map :: "ivec \<Rightarrow> ivec \<Rightarrow> int list \<times> ivec list" where
  "kgrid_shift_map (nx, ny, nz) q_off =
     (let j = map (\<lambda>v. vadd v q_off) (grid_rows (nx, ny, nz));
          kp = map (\<lambda>v. vmod v (nx, ny, nz)) j;
          G = map (\<lambda>v. vdiv v (nx, ny, nz)) j
      in (map (\<lambda>(x, y, z). to_i32 (x * ny * nz + y * nz + z)) kp, map (\<lambda>(x, y, z). (to_i32 x, to_i32 y, to_i32 z)) G))"

datatype grid_error = BadKgrid ivec | LabelOverflow

definition q_negation_index :: "ivec \<Rightarrow> (grid_error, int list) result" where
  "q_negation_index kg =
     (if \<not> grid_ok kg then Inl (BadKgrid kg)
      else Inr (map (\<lambda>i. to_i32 (flat_key kg (vmod (vneg (unravel kg i)) kg))) [0..grid_size kg - 1]))"

text \<open>\<open>np.arange(g) * s\<close>.\<close>

definition strided :: "int \<Rightarrow> int \<Rightarrow> int list" where
  "strided g s = map (\<lambda>i. i * s) [0..g - 1]"

definition common_uniform_grid_indices :: "ivec \<Rightarrow> ivec \<Rightarrow> (grid_error, int list \<times> int list) result" where
  "common_uniform_grid_indices a b =
     (if \<not> grid_ok a then Inl (BadKgrid a)
      else if \<not> grid_ok b then Inl (BadKgrid b)
      else (case (a, b) of ((a1, a2, a3), (b1, b2, b3)) \<Rightarrow>
        let g1 = gcd a1 b1; g2 = gcd a2 b2; g3 = gcd a3 b3;
            rows_a = mesh_rows (strided g1 (a1 div g1)) (strided g2 (a2 div g2)) (strided g3 (a3 div g3));
            rows_b = mesh_rows (strided g1 (b1 div g1)) (strided g2 (b2 div g2)) (strided g3 (b3 div g3))
        in Inr (map (\<lambda>v. to_i32 (flat_key a v)) rows_a, map (\<lambda>v. to_i32 (flat_key b v)) rows_b)))"

section \<open>Rows and keys\<close>

lemma concat_ranges:
  assumes "0 \<le> a" "0 < (b :: int)"
  shows "concat (map (\<lambda>x. map (f x) [0..b - 1]) [0..a - 1]) = map (\<lambda>i. f (i div b) (i mod b)) [0..a * b - 1]"
proof -
  have "concat (map (\<lambda>x. map (f x) [0..b - 1]) [0..int n - 1]) = map (\<lambda>i. f (i div b) (i mod b)) [0..int n * b - 1]" for n
  proof (induction n)
    case (Suc n)
    let ?c = "int n * b"
    have split: "[0..int (Suc n) * b - 1] = [0..?c - 1] @ [?c..?c + b - 1]"
      using upto_split1 [of 0 "?c" "?c + b - 1"] assms(2) by (simp add: algebra_simps)
    have shift: "[?c..?c + b - 1] = map (\<lambda>i. ?c + i) [0..b - 1]"
      by (rule nth_equalityI) auto
    have "map (\<lambda>i. f (i div b) (i mod b)) [?c..?c + b - 1] = map (f (int n)) [0..b - 1]"
      unfolding shift using assms(2) by (simp add: comp_def)
    moreover have "[0..int (Suc n) - 1] = [0..int n - 1] @ [int n]" by (simp add: upto_rec2)
    ultimately show ?case using Suc split by simp
  qed simp
  from this [of "nat a"] assms(1) show ?thesis by simp
qed

lemma grid_rows_unravel: "grid_ok kg \<Longrightarrow> grid_rows kg = map (unravel kg) [0..grid_size kg - 1]"
proof (cases kg)
  case (fields nx ny nz)
  assume "grid_ok kg"
  then have pos: "0 < nx" "0 < ny" "0 < nz" using fields by simp_all
  have div_of_mod: "i mod (ny * nz) div nz = i div nz mod ny" for i
    using pos zmod_zmult2_eq [of ny i nz] by (simp add: mult.commute)
  have inner: "concat (map (\<lambda>y. map (\<lambda>z. (x, y, z)) [0..nz - 1]) [0..ny - 1]) = map (\<lambda>i. (x, i div nz, i mod nz)) [0..ny * nz - 1]" for x
    using concat_ranges [of ny nz "\<lambda>y z. (x, y, z)"] pos by simp
  have "grid_rows kg = concat (map (\<lambda>x. map (\<lambda>i. (x, i div nz, i mod nz)) [0..ny * nz - 1]) [0..nx - 1])"
    by (simp add: fields mesh_rows_def inner)
  also have "\<dots> = map (\<lambda>i. (i div (ny * nz), i mod (ny * nz) div nz, i mod (ny * nz) mod nz)) [0..nx * (ny * nz) - 1]"
    using concat_ranges [of nx "ny * nz" "\<lambda>x i. (x, i div nz, i mod nz)"] pos by simp
  also have "\<dots> = map (unravel kg) [0..grid_size kg - 1]"
    using pos div_of_mod by (simp add: fields mult.assoc mod_mod_cancel)
  finally show ?thesis .
qed

lemma unravel_in: "grid_ok kg \<Longrightarrow> 0 \<le> i \<Longrightarrow> i < grid_size kg \<Longrightarrow> in_grid kg (unravel kg i)"
proof (cases kg)
  case (fields nx ny nz)
  assume "grid_ok kg" "0 \<le> i" "i < grid_size kg"
  then have pos: "0 < nx" "0 < ny" "0 < nz" "0 \<le> i" "i < nx * (ny * nz)" using fields by (simp_all add: ac_simps)
  have "i div (ny * nz) * (ny * nz) \<le> i" using pos by (simp add: div_mult_mod_eq [symmetric] le_diff_eq minus_mod_eq_div_mult [symmetric])
  then have "i div (ny * nz) < nx" using pos by (meson mult_less_cancel_right_pos mult_pos_pos order_le_less_trans)
  then show ?thesis using pos by (simp add: fields pos_imp_zdiv_nonneg_iff)
qed

lemma unravel_key: "in_grid kg v \<Longrightarrow> unravel kg (flat_key kg v) = v"
proof (cases kg, cases v)
  fix nx ny nz x y z assume f: "kg = (nx, ny, nz)" "v = (x, y, z)" and "in_grid kg v"
  then have r: "0 \<le> x" "x < nx" "0 \<le> y" "y < ny" "0 \<le> z" "z < nz" by simp_all
  have yz: "0 \<le> y * nz + z" "y * nz + z < ny * nz"
  proof -
    have "y * nz + z < (y + 1) * nz" using r by (simp add: algebra_simps)
    also have "\<dots> \<le> ny * nz" using r by (intro mult_right_mono) auto
    finally show "y * nz + z < ny * nz" .
  qed (use r in simp)
  have e: "(x * ny + y) * nz + z = (y * nz + z) + x * (ny * nz)" by (simp add: algebra_simps)
  have "((x * ny + y) * nz + z) div (ny * nz) = x" unfolding e using yz r by simp
  moreover have "((x * ny + y) * nz + z) div nz = x * ny + y" "((x * ny + y) * nz + z) mod nz = z" using r by simp_all
  ultimately show ?thesis using r by (simp only: f flat_key.simps unravel.simps) simp
qed

lemma key_unravel: "grid_ok kg \<Longrightarrow> 0 \<le> i \<Longrightarrow> i < grid_size kg \<Longrightarrow> flat_key kg (unravel kg i) = i"
proof (cases kg)
  case (fields nx ny nz)
  assume "grid_ok kg" "0 \<le> i" "i < grid_size kg"
  then have pos: "0 < nx" "0 < ny" "0 < nz" using fields by simp_all
  have "i div (ny * nz) = i div nz div ny" using pos by (metis mult.commute order_less_imp_le zdiv_zmult2_eq)
  then show ?thesis by (simp add: fields)
qed

lemma key_range: "in_grid kg v \<Longrightarrow> 0 \<le> flat_key kg v \<and> flat_key kg v < grid_size kg"
proof (cases kg, cases v)
  fix nx ny nz x y z assume f: "kg = (nx, ny, nz)" "v = (x, y, z)" and "in_grid kg v"
  then have r: "0 \<le> x" "x < nx" "0 \<le> y" "y < ny" "0 \<le> z" "z < nz" by simp_all
  have "x * ny + y < (x + 1) * ny" using r by (simp add: algebra_simps)
  also have "\<dots> \<le> nx * ny" using r by (intro mult_right_mono) auto
  finally have "x * ny + y \<le> nx * ny - 1" by simp
  then have "(x * ny + y) * nz \<le> (nx * ny - 1) * nz" using r by (intro mult_right_mono) auto
  then show ?thesis using r by (simp add: f algebra_simps)
qed

lemma key_inj: "in_grid kg v \<Longrightarrow> in_grid kg w \<Longrightarrow> flat_key kg v = flat_key kg w \<longleftrightarrow> v = w"
  by (metis unravel_key)

lemma in_grid_ok: "in_grid kg v \<Longrightarrow> grid_ok kg"
  by (cases kg; cases v) auto

lemma vmod_in [simp]: "grid_ok kg \<Longrightarrow> in_grid kg (vmod v kg)"
  by (cases kg; cases v) simp

lemma vmod_id [simp]: "in_grid kg v \<Longrightarrow> vmod v kg = v"
  by (cases kg; cases v) simp

lemma vmod_vmod [simp]: "vmod (vmod v kg) kg = vmod v kg"
  by (cases kg; cases v) simp

lemma grid_size_pos: "grid_ok kg \<Longrightarrow> 0 < grid_size kg"
  by (cases kg) simp

lemma grid_rows_length: "grid_ok kg \<Longrightarrow> length (grid_rows kg) = nat (grid_size kg)"
  by (simp add: grid_rows_unravel)

lemma grid_rows_nth: "grid_ok kg \<Longrightarrow> 0 \<le> i \<Longrightarrow> i < grid_size kg \<Longrightarrow> grid_rows kg ! nat i = unravel kg i"
  by (simp add: grid_rows_unravel)

lemma grid_rows_set: "grid_ok kg \<Longrightarrow> v \<in> set (grid_rows kg) \<longleftrightarrow> in_grid kg v"
proof
  assume ok: "grid_ok kg" and "in_grid kg v"
  then show "v \<in> set (grid_rows kg)"
    using key_range [of kg v] unravel_key [of kg v]
    by (auto simp: grid_rows_unravel image_iff intro!: bexI [of _ "flat_key kg v"])
qed (auto simp: grid_rows_unravel unravel_in)

lemma grid_rows_distinct: "grid_ok kg \<Longrightarrow> distinct (grid_rows kg)"
proof -
  assume ok: "grid_ok kg"
  have "inj_on (unravel kg) {0..grid_size kg - 1}"
    by (rule inj_onI) (metis atLeastAtMost_iff key_unravel ok zle_diff1_eq)
  then show ?thesis using ok by (simp add: grid_rows_unravel distinct_map)
qed

lemma vmod_vadd [simp]: "vmod (vadd (vmod a kg) b) kg = vmod (vadd a b) kg" "vmod (vadd a (vmod b kg)) kg = vmod (vadd a b) kg"
  by (cases kg; cases a; cases b; simp add: mod_simps)+

lemma vmod_vneg [simp]: "vmod (vneg (vmod a kg)) kg = vmod (vneg a) kg"
  by (cases kg; cases a) (simp add: mod_minus_eq)

lemma vneg_vneg [simp]: "vneg (vneg v) = v"
  by (cases v) simp

lemma vadd_vneg [simp]: "vadd (vadd v q) (vneg q) = v"
  by (cases v; cases q) simp

lemma vdiv_vmod: "vadd (vmod v kg) (vmul (vdiv v kg) kg) = v"
  by (cases v; cases kg) simp

section \<open>Shifts of the mesh\<close>

fun i32_vec :: "ivec \<Rightarrow> bool" where
  "i32_vec (x, y, z) \<longleftrightarrow> - (2 ^ 31) \<le> x \<and> x < 2 ^ 31 \<and> - (2 ^ 31) \<le> y \<and> y < 2 ^ 31 \<and> - (2 ^ 31) \<le> z \<and> z < 2 ^ 31"

lemma shift_div_bound:
  assumes "0 \<le> x" "x < n" "- (2 ^ 31) \<le> q" "q < (2 ^ 31 :: int)"
  shows "- (2 ^ 31) \<le> (x + q) div n" "(x + q) div n < 2 ^ 31"
proof -
  have n: "1 \<le> n" using assms by simp
  have "- (2 ^ 31) * n \<le> - (2 ^ 31) * 1" using n by (intro mult_left_mono_neg) auto
  then have "- (2 ^ 31) * n \<le> x + q" using assms by simp
  then have "(- (2 ^ 31) * n) div n \<le> (x + q) div n" by (rule zdiv_mono1) (use n in simp)
  then show "- (2 ^ 31) \<le> (x + q) div n" using n nonzero_mult_div_cancel_right [of n "- (2 ^ 31)"] by simp
  have "(2 ^ 31 - 1) * 1 \<le> (2 ^ 31 - 1) * n" using n by (intro mult_left_mono) auto
  then have up: "x + q < 2 ^ 31 * n" using assms by (simp add: algebra_simps)
  have "(x + q) div n * n \<le> x + q" using n pos_mod_sign [of n "x + q"] div_mult_mod_eq [of "x + q" n] by linarith
  then have "(x + q) div n * n < 2 ^ 31 * n" using up by linarith
  then show "(x + q) div n < 2 ^ 31" using n by simp
qed

lemma to_i32_key: "in_grid kg v \<Longrightarrow> grid_size kg \<le> 2 ^ 31 \<Longrightarrow> to_i32 (flat_key kg v) = flat_key kg v"
  using key_range [of kg v] by (intro to_i32_id) auto

lemma shift_inj:
  assumes "in_grid kg v" "in_grid kg w" "vmod (vadd v q) kg = vmod (vadd w q) kg"
  shows "v = w"
proof -
  have "vmod (vadd (vmod (vadd v q) kg) (vneg q)) kg = vmod (vadd (vmod (vadd w q) kg) (vneg q)) kg" using assms(3) by simp
  then show ?thesis using assms(1,2) by simp
qed

lemma shift_row:
  assumes "grid_ok (nx, ny, nz)" "nx * ny * nz \<le> 2 ^ 31" "i32_vec q" "0 \<le> i" "i < nx * ny * nz"
  defines "kg \<equiv> (nx, ny, nz)"
  shows "fst (kgrid_shift_map kg q) ! nat i = flat_key kg (vmod (vadd (unravel kg i) q) kg)"
    and "snd (kgrid_shift_map kg q) ! nat i = vdiv (vadd (unravel kg i) q) kg"
proof -
  have i: "i < grid_size kg" "grid_ok kg" using assms by (simp_all add: kg_def)
  have len: "nat i < length (grid_rows kg)" using grid_rows_length [OF i(2)] assms(4) i(1) by simp
  have row: "grid_rows kg ! nat i = unravel kg i" by (rule grid_rows_nth [OF i(2) assms(4) i(1)])
  let ?v = "vadd (unravel kg i) q"
  have "fst (kgrid_shift_map kg q) ! nat i = to_i32 (flat_key kg (vmod ?v kg))"
    using len row by (simp add: kg_def Let_def split: prod.splits) (simp add: algebra_simps split_def)
  then show "fst (kgrid_shift_map kg q) ! nat i = flat_key kg (vmod ?v kg)"
    using to_i32_key [of kg "vmod ?v kg"] i(2) assms(2) by (simp add: kg_def)
  obtain x y z where u: "unravel kg i = (x, y, z)" by (cases "unravel kg i")
  obtain a b c where q: "q = (a, b, c)" by (cases q)
  have in_g: "in_grid kg (x, y, z)" using unravel_in [OF i(2) assms(4) i(1)] u by simp
  have "snd (kgrid_shift_map kg q) ! nat i = (to_i32 ((x + a) div nx), to_i32 ((y + b) div ny), to_i32 ((z + c) div nz))"
    using len row u q by (simp add: kg_def Let_def)
  also have "\<dots> = vdiv ?v kg"
    using in_g assms(3) shift_div_bound [of x nx a] shift_div_bound [of y ny b] shift_div_bound [of z nz c]
    by (simp add: u [unfolded kg_def] q kg_def to_i32_id del: unravel.simps)
  finally show "snd (kgrid_shift_map kg q) ! nat i = vdiv ?v kg" .
qed

text \<open>
  \<open>kgrid_shift_map\<close> splits the shift of every mesh row exactly: row \<open>i\<close> moved by \<open>q\<close> is the row it
  names plus its umklapp vector times the mesh. The row indices are a permutation of the mesh.
\<close>

theorem shift_map_exact:
  assumes "grid_ok kg" "grid_size kg \<le> 2 ^ 31" "i32_vec q"
  shows "\<exists>idx G. kgrid_shift_map kg q = (idx, G) \<and> length idx = nat (grid_size kg) \<and> length G = nat (grid_size kg) \<and>
    distinct idx \<and> set idx = {0..<grid_size kg} \<and>
    (\<forall>i. 0 \<le> i \<and> i < grid_size kg \<longrightarrow>
       vadd (unravel kg i) q = vadd (unravel kg (idx ! nat i)) (vmul (G ! nat i) kg))"
proof -
  obtain nx ny nz where kg: "kg = (nx, ny, nz)" by (cases kg)
  let ?idx = "fst (kgrid_shift_map kg q)" and ?G = "snd (kgrid_shift_map kg q)"
  have row: "?idx ! nat i = flat_key kg (vmod (vadd (unravel kg i) q) kg)" "?G ! nat i = vdiv (vadd (unravel kg i) q) kg"
    if "0 \<le> i" "i < grid_size kg" for i
    using shift_row [of nx ny nz q i] assms that by (simp_all add: kg)
  have len: "length ?idx = nat (grid_size kg)" "length ?G = nat (grid_size kg)"
    using grid_rows_length [OF assms(1)] by (simp_all add: kg Let_def)
  let ?f = "\<lambda>i. flat_key kg (vmod (vadd (unravel kg i) q) kg)"
  have idx: "?idx = map ?f [0..grid_size kg - 1]"
  proof (rule nth_equalityI)
    fix k assume "k < length ?idx"
    then show "?idx ! k = map ?f [0..grid_size kg - 1] ! k" using row(1) [of "int k"] len by simp
  qed (simp add: len)
  have "inj_on ?f {0..grid_size kg - 1}"
  proof (rule inj_onI)
    fix i j assume ij: "i \<in> {0..grid_size kg - 1}" "j \<in> {0..grid_size kg - 1}" "?f i = ?f j"
    then have "unravel kg i = unravel kg j"
      using shift_inj [of kg "unravel kg i" "unravel kg j" q] unravel_in [OF assms(1)] key_inj [OF vmod_in vmod_in] assms(1) by simp
    then show "i = j" using ij key_unravel [OF assms(1)] by (metis atLeastAtMost_iff zle_diff1_eq)
  qed
  then have dist: "distinct ?idx" unfolding idx by (simp add: distinct_map)
  have range: "0 \<le> ?f i \<and> ?f i < grid_size kg" for i using key_range [OF vmod_in [OF assms(1)]] .
  have "set ?idx \<subseteq> {0..<grid_size kg}" using range unfolding idx by auto
  moreover have "card (set ?idx) = card {0..<grid_size kg}" using dist len by (simp add: distinct_card)
  ultimately have set: "set ?idx = {0..<grid_size kg}" by (intro card_subset_eq) auto
  have "vadd (unravel kg i) q = vadd (unravel kg (?idx ! nat i)) (vmul (?G ! nat i) kg)" if "0 \<le> i" "i < grid_size kg" for i
    using row [OF that] vdiv_vmod [of "vadd (unravel kg i) q" kg] unravel_key [OF vmod_in [OF assms(1)]] by simp
  then show ?thesis using len dist set by (intro exI [of _ ?idx] exI [of _ ?G]) simp
qed

theorem shift_map_exact_witness:
  "\<exists>idx G. kgrid_shift_map (4, 2, 1) (3, -1, 0) = (idx, G) \<and> distinct idx"
  using shift_map_exact [of "(4, 2, 1)" "(3, -1, 0)"] by auto

section \<open>Rows two meshes share\<close>

lemma mesh_rows_map:
  "mesh_rows (map f xs) (map g ys) (map h zs) = map (\<lambda>(x, y, z). (f x, g y, h z)) (mesh_rows xs ys zs)"
  by (simp add: mesh_rows_def map_concat comp_def)

lemma mesh_rows_set: "set (mesh_rows xs ys zs) = {(x, y, z). x \<in> set xs \<and> y \<in> set ys \<and> z \<in> set zs}"
  by (auto simp: mesh_rows_def)

text \<open>On one axis: equal fractions of the two meshes are the multiples of their common spacing.\<close>

lemma common_fraction:
  assumes "0 < (a :: int)" "0 < b" "0 \<le> x" "x < a" "0 \<le> y" "y < b"
  shows "x * b = y * a \<longleftrightarrow> (\<exists>t. 0 \<le> t \<and> t < gcd a b \<and> x = t * (a div gcd a b) \<and> y = t * (b div gcd a b))"
proof -
  let ?g = "gcd a b" and ?a = "a div gcd a b" and ?b = "b div gcd a b"
  have g: "0 < ?g" "?a * ?g = a" "?b * ?g = b" using assms by simp_all
  have pos: "0 < ?a" "0 < ?b" using g assms by (metis mult_pos_neg not_less_iff_gr_or_eq zero_less_mult_pos2)+
  show ?thesis
  proof
    assume e: "x * b = y * a"
    then have "(x * ?b) * ?g = (y * ?a) * ?g" using g by (simp add: mult.assoc)
    then have e': "x * ?b = y * ?a" using g(1) assms(1) by simp
    have "coprime ?a ?b" using assms by (intro div_gcd_coprime) simp
    then have "?a dvd x" using e' by (metis coprime_dvd_mult_left_iff dvd_triv_right)
    then obtain t where t: "x = t * ?a" by (metis dvd_def mult.commute)
    then have "y = t * ?b" using e' pos(1) by (simp add: ac_simps)
    moreover have "0 \<le> t" using t assms(3) pos(1) by (simp add: zero_le_mult_iff)
    moreover have "t * ?a < ?g * ?a" using t assms(4) g(2) by (simp add: mult.commute)
    then have "t < ?g" using pos(1) by (rule mult_right_less_imp_less [OF _ order_less_imp_le])
    ultimately show "\<exists>t. 0 \<le> t \<and> t < ?g \<and> x = t * ?a \<and> y = t * ?b" using t by blast
  next
    assume "\<exists>t. 0 \<le> t \<and> t < ?g \<and> x = t * ?a \<and> y = t * ?b"
    then obtain t where "x = t * ?a" "y = t * ?b" by blast
    then have "x * (?b * ?g) = y * (?a * ?g)" by (simp only: ac_simps)
    then show "x * b = y * a" unfolding g(2,3) .
  qed
qed

lemma stride_in: "0 < (a :: int) \<Longrightarrow> 0 < b \<Longrightarrow> 0 \<le> t \<Longrightarrow> t < gcd a b \<Longrightarrow> 0 \<le> t * (a div gcd a b) \<and> t * (a div gcd a b) < a"
proof -
  assume r: "0 < a" "0 < b" "0 \<le> t" "t < gcd a b"
  have "a div gcd a b * gcd a b = a" by simp
  moreover have "0 < gcd a b" using r by simp
  ultimately have "0 < a div gcd a b" using r by (metis zero_less_mult_pos2)
  moreover from this have "t * (a div gcd a b) < gcd a b * (a div gcd a b)" using r by (intro mult_strict_right_mono)
  ultimately show ?thesis using r by simp
qed

text \<open>The spacing of the common points inside each mesh, and the pairs of points it gives.\<close>

fun vgcd :: "ivec \<Rightarrow> ivec \<Rightarrow> ivec" where
  "vgcd (a, b, c) (x, y, z) = (gcd a x, gcd b y, gcd c z)"

abbreviation common_point :: "ivec \<Rightarrow> ivec \<Rightarrow> ivec \<Rightarrow> ivec" where
  "common_point a b t \<equiv> vmul t (vdiv a (vgcd a b))"

lemma vgcd_commute: "vgcd a b = vgcd b a"
  by (cases a; cases b) (simp add: gcd.commute)

lemma vgcd_ok: "grid_ok a \<Longrightarrow> grid_ok (vgcd a b)"
  by (cases a; cases b) simp

lemma common_point_in: "grid_ok a \<Longrightarrow> grid_ok b \<Longrightarrow> in_grid (vgcd a b) t \<Longrightarrow> in_grid a (common_point a b t)"
  by (cases a; cases b; cases t) (simp add: stride_in)

lemma common_point_inj: "grid_ok a \<Longrightarrow> common_point a b t = common_point a b s \<Longrightarrow> t = s"
  by (cases a; cases b; cases t; cases s) (auto simp: dvd_div_eq_0_iff)

lemma common_points:
  assumes "grid_ok a" "grid_ok b" "in_grid a v" "in_grid b w"
  shows "vmul v b = vmul w a \<longleftrightarrow> (\<exists>t. in_grid (vgcd a b) t \<and> v = common_point a b t \<and> w = common_point b a t)"
proof -
  obtain a1 a2 a3 b1 b2 b3 where ab: "a = (a1, a2, a3)" "b = (b1, b2, b3)" by (cases a; cases b)
  obtain v1 v2 v3 w1 w2 w3 where vw: "v = (v1, v2, v3)" "w = (w1, w2, w3)" by (cases v; cases w)
  have "v1 * b1 = w1 * a1 \<longleftrightarrow> (\<exists>t. 0 \<le> t \<and> t < gcd a1 b1 \<and> v1 = t * (a1 div gcd a1 b1) \<and> w1 = t * (b1 div gcd a1 b1))"
    "v2 * b2 = w2 * a2 \<longleftrightarrow> (\<exists>t. 0 \<le> t \<and> t < gcd a2 b2 \<and> v2 = t * (a2 div gcd a2 b2) \<and> w2 = t * (b2 div gcd a2 b2))"
    "v3 * b3 = w3 * a3 \<longleftrightarrow> (\<exists>t. 0 \<le> t \<and> t < gcd a3 b3 \<and> v3 = t * (a3 div gcd a3 b3) \<and> w3 = t * (b3 div gcd a3 b3))"
    using assms by (intro common_fraction; simp add: ab vw)+
  then show ?thesis by (simp add: ab vw gcd.commute split_paired_Ex) blast
qed

lemma common_run:
  assumes "grid_ok a" "grid_ok b" "grid_size a \<le> 2 ^ 31" "grid_size b \<le> 2 ^ 31"
  shows "common_uniform_grid_indices a b = Inr (map (\<lambda>t. flat_key a (common_point a b t)) (grid_rows (vgcd a b)),
    map (\<lambda>t. flat_key b (common_point b a t)) (grid_rows (vgcd a b)))"
proof -
  obtain a1 a2 a3 b1 b2 b3 where ab: "a = (a1, a2, a3)" "b = (b1, b2, b3)" by (cases a; cases b)
  have "common_uniform_grid_indices a b = Inr (map (\<lambda>t. to_i32 (flat_key a (common_point a b t))) (grid_rows (vgcd a b)),
      map (\<lambda>t. to_i32 (flat_key b (common_point b a t))) (grid_rows (vgcd a b)))"
    using assms(1,2) by (simp add: common_uniform_grid_indices_def ab Let_def strided_def mesh_rows_map gcd.commute split: prod.splits)
  moreover have "in_grid (vgcd a b) t" if "t \<in> set (grid_rows (vgcd a b))" for t
    using grid_rows_set [OF vgcd_ok [OF assms(1)]] that by simp
  ultimately show ?thesis
    using assms common_point_in [of a b] common_point_in [of b a] by (simp add: to_i32_key vgcd_commute [of b a])
qed

text \<open>
  \<open>common_uniform_grid_indices\<close> returns, aligned, exactly the pairs of rows at which the two meshes
  have the same fractional point, each once and in C order; it refuses exactly the meshes with a
  nonpositive extent.
\<close>

theorem common_rows_exact:
  assumes "grid_size a \<le> 2 ^ 31" "grid_size b \<le> 2 ^ 31"
  shows "(case common_uniform_grid_indices a b of
      Inl e \<Rightarrow> \<not> (grid_ok a \<and> grid_ok b)
    | Inr (ia, ib) \<Rightarrow> grid_ok a \<and> grid_ok b \<and> length ia = length ib \<and> distinct (zip ia ib) \<and>
        set (zip ia ib) = {(i, j). 0 \<le> i \<and> i < grid_size a \<and> 0 \<le> j \<and> j < grid_size b \<and>
          vmul (unravel a i) b = vmul (unravel b j) a})"
proof (cases "grid_ok a \<and> grid_ok b")
  case True
  then have ok: "grid_ok a" "grid_ok b" by simp_all
  let ?g = "vgcd a b" and ?key = "\<lambda>t. (flat_key a (common_point a b t), flat_key b (common_point b a t))"
  note gok = vgcd_ok [OF ok(1), of b]
  have ina: "in_grid a (common_point a b t)" and inb: "in_grid b (common_point b a t)" if "in_grid ?g t" for t
    using common_point_in [of a b] common_point_in [of b a] ok that by (simp_all add: vgcd_commute [of b a])
  have zip_eq: "zip (map (fst \<circ> ?key) ts) (map (snd \<circ> ?key) ts) = map ?key ts" for ts by (simp add: zip_map_map zip_same_conv_map)
  have "inj_on ?key {t. in_grid ?g t}"
  proof (rule inj_onI)
    fix s t assume st: "s \<in> {t. in_grid ?g t}" "t \<in> {t. in_grid ?g t}" "?key s = ?key t"
    then have "common_point a b s = common_point a b t" using key_inj [OF ina ina] by simp
    then show "s = t" by (rule common_point_inj [OF ok(1)])
  qed
  then have dist: "distinct (map ?key (grid_rows ?g))"
    using grid_rows_distinct [OF gok] grid_rows_set [OF gok] by (auto simp: distinct_map intro: inj_on_subset)
  have "(i, j) \<in> ?key ` {t. in_grid ?g t} \<longleftrightarrow> 0 \<le> i \<and> i < grid_size a \<and> 0 \<le> j \<and> j < grid_size b \<and>
      vmul (unravel a i) b = vmul (unravel b j) a" (is "?l \<longleftrightarrow> ?r") for i j
  proof
    assume ?l
    then obtain t where t: "in_grid ?g t" "i = flat_key a (common_point a b t)" "j = flat_key b (common_point b a t)" by blast
    have "vmul (common_point a b t) b = vmul (common_point b a t) a"
      using common_points [OF ok ina [OF t(1)] inb [OF t(1)]] t(1) by blast
    then show ?r
      using key_range [OF ina [OF t(1)]] key_range [OF inb [OF t(1)]] unravel_key [OF ina [OF t(1)]] unravel_key [OF inb [OF t(1)]] t
      by simp
  next
    assume r: ?r
    then obtain t where "in_grid ?g t" "unravel a i = common_point a b t" "unravel b j = common_point b a t"
      using common_points [OF ok unravel_in [OF ok(1)] unravel_in [OF ok(2)]] by blast
    then show ?l using key_unravel [OF ok(1)] key_unravel [OF ok(2)] r by (metis (mono_tags, lifting) imageI mem_Collect_eq)
  qed
  then have "?key ` {t. in_grid ?g t} = {(i, j). 0 \<le> i \<and> i < grid_size a \<and> 0 \<le> j \<and> j < grid_size b \<and>
      vmul (unravel a i) b = vmul (unravel b j) a}"
    by (simp add: set_eq_iff split_paired_All)
  moreover have "set (map ?key (grid_rows ?g)) = ?key ` {t. in_grid ?g t}"
  proof -
    have "set (grid_rows ?g) = {t. in_grid ?g t}" using grid_rows_set [OF gok] by blast
    then show ?thesis by simp
  qed
  ultimately show ?thesis using ok dist zip_eq [of "grid_rows ?g"] common_run [OF ok assms] by (simp add: comp_def)
next
  case False
  then show ?thesis by (auto simp: common_uniform_grid_indices_def)
qed

theorem common_rows_exact_witness:
  "\<exists>ia ib. common_uniform_grid_indices (6, 4, 1) (4, 2, 1) = Inr (ia, ib) \<and> distinct (zip ia ib)"
proof -
  obtain ia ib where "common_uniform_grid_indices (6, 4, 1) (4, 2, 1) = Inr (ia, ib)"
    by (simp add: common_uniform_grid_indices_def Let_def)
  then show ?thesis using common_rows_exact [of "(6, 4, 1)" "(4, 2, 1)"] by simp
qed

end
