(* ===== verification/RowTables.thy ===== *)
theory RowTables
  imports KGrid
begin

text \<open>
  Integer operations on a mesh, and the small table idioms the symmetry service is written in: the position
  a Python dict gives a key, \<open>np.argmin\<close>, the first hit of \<open>np.where\<close>. Whoever reduces a mesh by a group of
  operations needs one interface, \<open>point_action\<close>: operations on a set of points, closed under composition
  and inverse. Integer matrices that form a group and respect the mesh provide it.
\<close>

section \<open>Table idioms\<close>

text \<open>\<open>{k: i for i, k in enumerate(ks)}[k]\<close>: the last position, or a \<open>KeyError\<close>.\<close>

definition dict_pos :: "'a list \<Rightarrow> 'a \<Rightarrow> nat option" where
  "dict_pos ks k = (if k \<in> set ks then Some (length ks - 1 - first_index k (rev ks)) else None)"

definition np_argmin :: "'a::linorder list \<Rightarrow> nat" where
  "np_argmin xs = first_index (min_list xs) xs"

text \<open>The first entry of \<open>np.where(mask)[0]\<close>, if the mask has one.\<close>

fun first_hit :: "('a \<Rightarrow> bool) \<Rightarrow> 'a list \<Rightarrow> nat option" where
  "first_hit P [] = None"
| "first_hit P (x # xs) = (if P x then Some 0 else map_option Suc (first_hit P xs))"

lemma dict_pos_distinct: "distinct ks \<Longrightarrow> i < length ks \<Longrightarrow> dict_pos ks (ks ! i) = Some i"
proof -
  assume d: "distinct ks" and i: "i < length ks"
  have "rev ks ! (length ks - 1 - i) = ks ! i" using i by (simp add: rev_nth)
  then have "first_index (ks ! i) (rev ks) = length ks - 1 - i"
    using first_index_distinct [of "rev ks" "length ks - 1 - i"] d i by simp
  then show ?thesis using i by (simp add: dict_pos_def)
qed

lemma dict_pos_None [simp]: "dict_pos ks k = None \<longleftrightarrow> k \<notin> set ks"
  by (simp add: dict_pos_def)

lemma dict_pos_nth: "dict_pos ks k = Some i \<Longrightarrow> i < length ks \<and> ks ! i = k"
proof -
  assume "dict_pos ks k = Some i"
  then have k: "k \<in> set (rev ks)" and i: "i = length ks - 1 - first_index k (rev ks)"
    by (auto simp: dict_pos_def split: if_splits)
  have "first_index k (rev ks) < length ks" using first_index_lt [OF k] by simp
  then show ?thesis using first_index_nth [OF k] i by (simp add: rev_nth)
qed

lemma argmin_least: "xs \<noteq> [] \<Longrightarrow> np_argmin xs < length xs \<and> xs ! np_argmin xs = Min (set xs)"
proof -
  assume "xs \<noteq> []"
  then have "Min (set xs) \<in> set xs" by (intro Min_in) auto
  then show ?thesis using \<open>xs \<noteq> []\<close> first_index_lt [of "Min (set xs)" xs] first_index_nth [of "Min (set xs)" xs]
    by (simp add: np_argmin_def min_list_Min)
qed

lemma first_hit_None [simp]: "first_hit P xs = None \<longleftrightarrow> (\<forall>x\<in>set xs. \<not> P x)"
  by (induction xs) auto

lemma first_hit_Some: "first_hit P xs = Some i \<longleftrightarrow> i < length xs \<and> P (xs ! i) \<and> (\<forall>j<i. \<not> P (xs ! j))"
proof (induction xs arbitrary: i)
  case (Cons x xs)
  show ?case
  proof (cases i)
    case (Suc k)
    have "(\<forall>j<Suc k. \<not> P ((x # xs) ! j)) \<longleftrightarrow> \<not> P x \<and> (\<forall>j<k. \<not> P (xs ! j))" by (auto simp: less_Suc_eq_0_disj)
    then show ?thesis using Suc Cons by auto
  qed auto
qed simp

lemma first_hit_ex: "x \<in> set xs \<Longrightarrow> P x \<Longrightarrow> \<exists>i. first_hit P xs = Some i"
  using first_hit_None [of P xs] by (metis not_None_eq)

text \<open>The first rows of \<open>np.unique\<close>, in row order.\<close>

lemma unique_first_rows:
  "sort (fst (snd (np_unique xs))) = filter (\<lambda>i. first_index (xs ! i) xs = i) [0..<length xs]"
proof (rule sorted_distinct_set_unique)
  have inj: "inj_on (\<lambda>x. first_index x xs) (set xs)" by (rule inj_onI) (rule first_index_inj)
  show "distinct (sort (fst (snd (np_unique xs))))"
    using inj by (simp add: np_unique_def Let_def distinct_map)
  show "sorted (filter (\<lambda>i. first_index (xs ! i) xs = i) [0..<length xs])" by (simp add: sorted_wrt_filter)
  have "first_index (xs ! first_index x xs) xs = first_index x xs \<and> first_index x xs < length xs" if "x \<in> set xs" for x
    using that by (simp add: first_index_nth first_index_lt)
  moreover have "i \<in> (\<lambda>x. first_index x xs) ` set xs" if "first_index (xs ! i) xs = i" "i < length xs" for i
    using that by (metis imageI nth_mem)
  ultimately show "set (sort (fst (snd (np_unique xs)))) = set (filter (\<lambda>i. first_index (xs ! i) xs = i) [0..<length xs])"
    by (auto simp: np_unique_def Let_def)
qed simp_all

text \<open>Keeping the first row of each value, and the position every value has among them.\<close>

lemma first_rows_table:
  fixes xs :: "'a::linorder list"
  defines "rows \<equiv> sort (fst (snd (np_unique xs)))"
  shows "distinct (np_take xs rows)" and "set (np_take xs rows) = set xs" and "\<forall>i\<in>set rows. i < length xs"
    and "k < length rows \<Longrightarrow> j < rows ! k \<Longrightarrow> \<exists>m<k. xs ! (rows ! m) = xs ! j"
proof -
  have rows: "rows = filter (\<lambda>i. first_index (xs ! i) xs = i) [0..<length xs]"
    unfolding rows_def by (rule unique_first_rows)
  show lt: "\<forall>i\<in>set rows. i < length xs" by (simp add: rows)
  have inj: "inj_on ((!) xs) (set rows)" by (rule inj_onI) (auto simp: rows)
  then show "distinct (np_take xs rows)" by (simp add: np_take_def distinct_map) (simp add: rows)
  show "set (np_take xs rows) = set xs"
  proof
    show "set xs \<subseteq> set (np_take xs rows)"
    proof
      fix x assume x: "x \<in> set xs"
      then have "first_index x xs \<in> set rows" by (simp add: rows first_index_nth first_index_lt)
      then have "xs ! first_index x xs \<in> set (np_take xs rows)" by (auto simp: np_take_def)
      then show "x \<in> set (np_take xs rows)" using x by (simp add: first_index_nth)
    qed
  qed (use lt in \<open>auto simp: np_take_def\<close>)
  show "\<exists>m<k. xs ! (rows ! m) = xs ! j" if k: "k < length rows" "j < rows ! k"
  proof -
    have j: "j < length xs" using lt k by (meson nth_mem order_less_trans)
    let ?i = "first_index (xs ! j) xs"
    have i: "?i \<in> set rows" "?i \<le> j" "xs ! ?i = xs ! j"
      using j by (simp_all add: rows first_index_nth first_index_lt first_index_le)
    then obtain m where m: "m < length rows" "rows ! m = ?i" by (auto simp: in_set_conv_nth)
    have "m < k"
    proof (rule ccontr)
      assume "\<not> m < k"
      then have "rows ! k \<le> rows ! m" using m(1) by (intro sorted_nth_mono) (simp_all add: rows sorted_wrt_filter)
      then show False using m(2) i(2) k(2) by simp
    qed
    then show ?thesis using m i(3) by auto
  qed
qed

section \<open>Operations on points\<close>

locale point_action =
  fixes legal :: "'c \<Rightarrow> bool"
    and ops :: "'c \<Rightarrow> 's set"
    and act :: "'c \<Rightarrow> 's \<Rightarrow> 'p \<Rightarrow> 'p"
    and points :: "'c \<Rightarrow> 'p set"
  assumes act_in: "legal c \<Longrightarrow> s \<in> ops c \<Longrightarrow> p \<in> points c \<Longrightarrow> act c s p \<in> points c"
    and act_id: "legal c \<Longrightarrow> \<exists>e\<in>ops c. \<forall>p\<in>points c. act c e p = p"
    and act_comp: "legal c \<Longrightarrow> s \<in> ops c \<Longrightarrow> t \<in> ops c \<Longrightarrow> \<exists>u\<in>ops c. \<forall>p\<in>points c. act c u p = act c s (act c t p)"
    and act_inv: "legal c \<Longrightarrow> s \<in> ops c \<Longrightarrow> \<exists>t\<in>ops c. \<forall>p\<in>points c. act c t (act c s p) = p"
begin

definition star :: "'c \<Rightarrow> 'p \<Rightarrow> 'p set" where
  "star c p = (\<lambda>s. act c s p) ` ops c"

lemma star_self: "legal c \<Longrightarrow> p \<in> points c \<Longrightarrow> p \<in> star c p"
  using act_id [of c] by (force simp: star_def)

lemma star_in: "legal c \<Longrightarrow> p \<in> points c \<Longrightarrow> q \<in> star c p \<Longrightarrow> q \<in> points c"
  using act_in by (auto simp: star_def)

lemma star_sym: "legal c \<Longrightarrow> p \<in> points c \<Longrightarrow> q \<in> star c p \<Longrightarrow> p \<in> star c q"
proof -
  assume c: "legal c" and p: "p \<in> points c" and "q \<in> star c p"
  then obtain s where s: "s \<in> ops c" "q = act c s p" by (auto simp: star_def)
  from act_inv [OF c s(1)] obtain t where "t \<in> ops c" "\<forall>p\<in>points c. act c t (act c s p) = p" by blast
  then show "p \<in> star c q" using s p by (force simp: star_def)
qed

lemma star_trans: "legal c \<Longrightarrow> p \<in> points c \<Longrightarrow> q \<in> star c p \<Longrightarrow> r \<in> star c q \<Longrightarrow> r \<in> star c p"
proof -
  assume c: "legal c" and p: "p \<in> points c" and "q \<in> star c p" "r \<in> star c q"
  then obtain s t where s: "s \<in> ops c" "q = act c s p" and t: "t \<in> ops c" "r = act c t q" by (auto simp: star_def)
  from act_comp [OF c t(1) s(1)] obtain u where "u \<in> ops c" "\<forall>p\<in>points c. act c u p = act c t (act c s p)" by blast
  then show "r \<in> star c p" using s t p by (force simp: star_def)
qed

lemma star_eq: "legal c \<Longrightarrow> p \<in> points c \<Longrightarrow> q \<in> points c \<Longrightarrow> star c p = star c q \<longleftrightarrow> q \<in> star c p"
  using star_self star_sym star_trans star_in by (metis subsetI subset_antisym)

end

section \<open>Matrices that act on a mesh\<close>

fun mat_mul :: "imat \<Rightarrow> imat \<Rightarrow> imat" where
  "mat_mul (r1, r2, r3) ((a, b, c), (d, e, f), (g, h, i)) =
     (let row = (\<lambda>r. (vdot r (a, d, g), vdot r (b, e, h), vdot r (c, f, i))) in (row r1, row r2, row r3))"

definition mat_id :: imat where
  "mat_id = ((1, 0, 0), (0, 1, 0), (0, 0, 1))"

text \<open>A matrix keeps the mesh when it maps mesh periods to mesh periods.\<close>

fun keeps_mesh :: "ivec \<Rightarrow> imat \<Rightarrow> bool" where
  "keeps_mesh (nx, ny, nz) ((a, b, c), (d, e, f), (g, h, i)) \<longleftrightarrow>
     nx dvd b * ny \<and> nx dvd c * nz \<and> ny dvd d * nx \<and> ny dvd f * nz \<and> nz dvd g * nx \<and> nz dvd h * ny"

definition mesh_act :: "ivec \<Rightarrow> imat \<Rightarrow> ivec \<Rightarrow> ivec" where
  "mesh_act kg s v = vmod (mat_vec s v) kg"

definition sym_group :: "ivec \<times> imat list \<Rightarrow> bool" where
  "sym_group c \<longleftrightarrow> (case c of (kg, syms) \<Rightarrow> grid_ok kg \<and> (\<forall>s\<in>set syms. keeps_mesh kg s) \<and> mat_id \<in> set syms \<and>
     (\<forall>s\<in>set syms. (\<forall>t\<in>set syms. mat_mul s t \<in> set syms) \<and> (\<exists>t\<in>set syms. mat_mul t s = mat_id)))"

lemma mat_vec_mul: "mat_vec (mat_mul s t) v = mat_vec s (mat_vec t v)"
  by (cases s; cases t; cases v) (auto simp: Let_def algebra_simps split: prod.splits)

lemma mat_vec_id [simp]: "mat_vec mat_id v = v"
  by (cases v) (simp add: mat_id_def)

lemma mod_dot: "n dvd b * m \<Longrightarrow> (x + b * (y mod m)) mod n = (x + b * y) mod (n :: int)"
proof -
  assume "n dvd b * m"
  then obtain k where k: "b * m = n * k" by (metis dvdE)
  have "b * y = b * (y mod m) + (b * m) * (y div m)" by (metis distrib_left mod_mult_div_eq mult.assoc)
  then have "x + b * y = (x + b * (y mod m)) + (k * (y div m)) * n" using k by (simp add: algebra_simps)
  then show ?thesis by (metis mod_mult_self1)
qed

lemma mat_vec_mod:
  assumes "keeps_mesh kg s"
  shows "vmod (mat_vec s (vmod v kg)) kg = vmod (mat_vec s v) kg"
proof -
  have row: "(a * (x mod m1) + b * (y mod m2) + c * (z mod m3)) mod n = (a * x + b * y + c * z) mod n"
    if "n dvd a * m1" "n dvd b * m2" "n dvd c * m3" for a b c x y z m1 m2 m3 n :: int
  proof -
    have "(a * (x mod m1) + b * (y mod m2) + c * (z mod m3)) mod n = ((b * (y mod m2) + c * (z mod m3)) + a * (x mod m1)) mod n"
      by (simp only: ac_simps)
    also have "\<dots> = ((a * x + c * (z mod m3)) + b * (y mod m2)) mod n"
      unfolding mod_dot [OF that(1)] by (simp only: ac_simps)
    also have "\<dots> = ((a * x + b * y) + c * (z mod m3)) mod n"
      unfolding mod_dot [OF that(2)] by (simp only: ac_simps)
    finally show ?thesis unfolding mod_dot [OF that(3)] .
  qed
  obtain nx ny nz where kg: "kg = (nx, ny, nz)" by (cases kg)
  obtain a b c d e f g h i where s: "s = ((a, b, c), (d, e, f), (g, h, i))" by (cases s) auto
  obtain x y z where v: "v = (x, y, z)" by (cases v)
  show ?thesis using assms by (simp add: kg s v row)
qed

interpretation mesh: point_action sym_group "\<lambda>c. set (snd c)" "\<lambda>c. mesh_act (fst c)" "\<lambda>c. {v. in_grid (fst c) v}"
proof unfold_locales
  fix c s t p
  show "sym_group c \<Longrightarrow> s \<in> set (snd c) \<Longrightarrow> p \<in> {v. in_grid (fst c) v} \<Longrightarrow> mesh_act (fst c) s p \<in> {v. in_grid (fst c) v}"
    by (auto simp: sym_group_def mesh_act_def)
  show "sym_group c \<Longrightarrow> \<exists>e\<in>set (snd c). \<forall>p\<in>{v. in_grid (fst c) v}. mesh_act (fst c) e p = p"
    by (rule bexI [of _ mat_id]) (auto simp: sym_group_def mesh_act_def)
  show "\<exists>u\<in>set (snd c). \<forall>p\<in>{v. in_grid (fst c) v}. mesh_act (fst c) u p = mesh_act (fst c) s (mesh_act (fst c) t p)"
    if "sym_group c" "s \<in> set (snd c)" "t \<in> set (snd c)"
    using that by (intro bexI [of _ "mat_mul s t"]) (auto simp: sym_group_def mesh_act_def mat_vec_mul mat_vec_mod)
  show "\<exists>t\<in>set (snd c). \<forall>p\<in>{v. in_grid (fst c) v}. mesh_act (fst c) t (mesh_act (fst c) s p) = p"
    if c: "sym_group c" and s: "s \<in> set (snd c)"
  proof -
    have "\<exists>t\<in>set (snd c). mat_mul t s = mat_id" using c s by (simp add: sym_group_def case_prod_unfold)
    then obtain t where t: "t \<in> set (snd c)" "mat_mul t s = mat_id" by blast
    have "keeps_mesh (fst c) t" using c t by (auto simp: sym_group_def)
    then have "mesh_act (fst c) t (mesh_act (fst c) s p) = vmod (mat_vec (mat_mul t s) p) (fst c)" for p
      by (simp add: mesh_act_def mat_vec_mul mat_vec_mod)
    then show ?thesis using t by (intro bexI [of _ t]) auto
  qed
qed

end
