(* ===== verification/Irreducible.thy ===== *)
theory Irreducible
  imports RowTables
begin

text \<open>
  \<open>find_irreducible_bz_points\<close> of \<open>services/symmetry_maps/src/symmetry_maps/maps.py\<close>: which irreducible point and
  which operation row map onto each row of the full mesh. Without given irreducible points they are
  derived, one per star; with them, each full row is matched against their images.

  Points and matrices are integers, index arrays are positions. An empty mesh or an empty operation table
  makes NumPy's \<open>max\<close> and \<open>argmin\<close> raise, which are the first two errors.
\<close>

section \<open>The code\<close>

datatype irr_error = NoRows | NoOperations | NoOperationFor ivec ivec | NoPreimage nat ivec

definition max_extents :: "ivec list \<Rightarrow> ivec" where
  "max_extents full = (Max (fst ` set full) + 1, Max ((fst \<circ> snd) ` set full) + 1, Max ((snd \<circ> snd) ` set full) + 1)"

definition image_key :: "ivec \<Rightarrow> ivec \<Rightarrow> imat \<Rightarrow> int" where
  "image_key kg v s = flat_key kg (vmod (mat_vec s v) kg)"

text \<open>The branch that derives the irreducible points, and the operation each full row is given.\<close>

definition canon_keys :: "ivec \<Rightarrow> imat list \<Rightarrow> ivec list \<Rightarrow> int list" where
  "canon_keys kg syms full = map (\<lambda>q. let keys = map (image_key kg q) syms in keys ! np_argmin keys) full"

definition row_operation :: "ivec \<Rightarrow> imat list \<Rightarrow> ivec \<Rightarrow> ivec \<Rightarrow> (irr_error, nat) result" where
  "row_operation kg syms rep q =
     (case first_hit (\<lambda>s. image_key kg rep s = flat_key kg q) syms of
        None \<Rightarrow> Inl (NoOperationFor rep q)
      | Some s \<Rightarrow> Inr s)"

definition derive_irreducible ::
    "ivec \<Rightarrow> imat list \<Rightarrow> ivec list \<Rightarrow> (irr_error, nat list \<times> nat list \<times> ivec list) result" where
  "derive_irreducible kg syms full =
     (if syms = [] then Inl NoOperations
      else
        let canon = canon_keys kg syms full;
            first_idx = sort (fst (snd (np_unique canon)));
            irr_keys = np_take canon first_idx;
            irr_out = np_take full first_idx;
            irr_idx = map (\<lambda>k. the (dict_pos irr_keys k)) canon
        in andthen (mapE (\<lambda>(iq, ihit). row_operation kg syms (irr_out ! ihit) (full ! iq)) (enumerate 0 irr_idx))
             (\<lambda>sym_idx. Inr (irr_idx, sym_idx, irr_out)))"

text \<open>The branch with given points: the last one with a match wins, and its first operation.\<close>

definition anchor_row :: "ivec \<Rightarrow> imat list \<Rightarrow> ivec list \<Rightarrow> ivec \<Rightarrow> (nat \<times> nat) option" where
  "anchor_row kg syms irr q =
     fold (\<lambda>ikbar acc. case first_hit (\<lambda>s. image_key kg (irr ! ikbar) s = flat_key kg q) syms of
             None \<Rightarrow> acc | Some s \<Rightarrow> Some (ikbar, s)) [0..<length irr] None"

definition anchored_irreducible ::
    "ivec \<Rightarrow> imat list \<Rightarrow> ivec list \<Rightarrow> ivec list \<Rightarrow> (irr_error, nat list \<times> nat list \<times> ivec list) result" where
  "anchored_irreducible kg syms full irr_kgrid_int =
     (let irr = map (\<lambda>v. vmod v kg) irr_kgrid_int; rows = map (anchor_row kg syms irr) full
      in case first_hit (\<lambda>r. r = None) rows of
           Some bad \<Rightarrow> Inl (NoPreimage bad (full ! bad))
         | None \<Rightarrow> Inr (map (fst \<circ> the) rows, map (snd \<circ> the) rows, irr))"

definition find_irreducible_bz_points ::
    "ivec list \<Rightarrow> imat list \<Rightarrow> ivec list option \<Rightarrow> (irr_error, nat list \<times> nat list \<times> ivec list) result" where
  "find_irreducible_bz_points full syms irr_kgrid_int =
     (if full = [] then Inl NoRows
      else let kg = max_extents full
        in case irr_kgrid_int of
             None \<Rightarrow> derive_irreducible kg syms full
           | Some irr \<Rightarrow> anchored_irreducible kg syms full irr)"

section \<open>Full meshes\<close>

text \<open>The rows of a whole mesh, in any order.\<close>

definition full_mesh :: "ivec \<Rightarrow> ivec list \<Rightarrow> bool" where
  "full_mesh kg full \<longleftrightarrow> grid_ok kg \<and> distinct full \<and> set full = {v. in_grid kg v}"

lemma max_extents_mesh: "full_mesh kg full \<Longrightarrow> max_extents full = kg"
proof -
  assume "full_mesh kg full"
  moreover obtain nx ny nz where kg: "kg = (nx, ny, nz)" by (cases kg)
  ultimately have pos: "0 < nx" "0 < ny" "0 < nz" and s: "set full = {0..<nx} \<times> {0..<ny} \<times> {0..<nz}"
    by (auto simp: full_mesh_def set_eq_iff)
  have m: "Max {0..<n} = n - 1" if "0 < n" for n :: int
    using that by (intro Max_eqI) auto
  have "fst ` set full = {0..<nx}" "(fst \<circ> snd) ` set full = {0..<ny}" "(snd \<circ> snd) ` set full = {0..<nz}"
    using pos by (force simp: s image_iff)+
  then show ?thesis using pos by (simp add: max_extents_def kg m)
qed

lemma full_mesh_nonempty: "full_mesh kg full \<Longrightarrow> full \<noteq> []"
  by (cases kg) (auto simp: full_mesh_def dest: arg_cong [of _ _ set])

lemma image_key_act: "image_key kg v s = flat_key kg (mesh_act kg s v)"
  by (simp add: image_key_def mesh_act_def)

lemma image_key_eq: "grid_ok kg \<Longrightarrow> in_grid kg q \<Longrightarrow> image_key kg v s = flat_key kg q \<longleftrightarrow> mesh_act kg s v = q"
  by (simp add: image_key_act key_inj mesh_act_def)

section \<open>Derived points\<close>

text \<open>The canonical key of a row is the least key on its star.\<close>

lemma canon_nth:
  assumes "syms \<noteq> []" "i < length full"
  shows "canon_keys kg syms full ! i = Min (flat_key kg ` mesh.star (kg, syms) (full ! i))"
proof -
  have "map (image_key kg (full ! i)) syms ! np_argmin (map (image_key kg (full ! i)) syms) = Min (set (map (image_key kg (full ! i)) syms))"
    using argmin_least [of "map (image_key kg (full ! i)) syms"] assms(1) by simp
  moreover have "set (map (image_key kg (full ! i)) syms) = flat_key kg ` mesh.star (kg, syms) (full ! i)"
    by (auto simp: mesh.star_def image_key_act image_image)
  ultimately show ?thesis using assms(2) by (simp add: canon_keys_def Let_def)
qed

lemma canon_eq:
  assumes "sym_group (kg, syms)" "in_grid kg v" "in_grid kg w"
  shows "Min (flat_key kg ` mesh.star (kg, syms) v) = Min (flat_key kg ` mesh.star (kg, syms) w) \<longleftrightarrow>
    mesh.star (kg, syms) v = mesh.star (kg, syms) w"
proof
  let ?S = "mesh.star (kg, syms)"
  have fin: "finite (?S x)" for x by (simp add: mesh.star_def)
  have in_star: "in_grid kg y" if "in_grid kg x" "y \<in> ?S x" for x y
    using mesh.star_in [OF assms(1), of x y] that by simp
  have least: "Min (flat_key kg ` ?S x) \<in> flat_key kg ` ?S x" if "in_grid kg x" for x
    using mesh.star_self [OF assms(1), of x] that by (intro Min_in) (auto simp: fin)
  assume e: "Min (flat_key kg ` ?S v) = Min (flat_key kg ` ?S w)"
  obtain x where x: "x \<in> ?S v" "flat_key kg x = Min (flat_key kg ` ?S v)" using least [OF assms(2)] by force
  obtain y where y: "y \<in> ?S w" "flat_key kg y = Min (flat_key kg ` ?S w)" using least [OF assms(3)] by force
  have "x = y" using key_inj [OF in_star [OF assms(2) x(1)] in_star [OF assms(3) y(1)]] x(2) y(2) e by simp
  then show "?S v = ?S w"
    using mesh.star_eq [OF assms(1)] assms(2,3) x(1) y(1) in_star by (metis (mono_tags) fst_conv mem_Collect_eq)
qed simp

lemma row_operation_Inr:
  "row_operation kg syms rep q = Inr s \<longleftrightarrow>
     s < length syms \<and> image_key kg rep (syms ! s) = flat_key kg q \<and> (\<forall>t<s. image_key kg rep (syms ! t) \<noteq> flat_key kg q)"
proof -
  have "row_operation kg syms rep q = Inr s \<longleftrightarrow> first_hit (\<lambda>s. image_key kg rep s = flat_key kg q) syms = Some s"
    by (cases "first_hit (\<lambda>s. image_key kg rep s = flat_key kg q) syms") (simp_all add: row_operation_def del: first_hit_None)
  then show ?thesis by (simp add: first_hit_Some)
qed

text \<open>The parts of a derivation on a full mesh.\<close>

lemma derive_run:
  assumes "sym_group (kg, syms)" "full_mesh kg full"
  defines "canon \<equiv> canon_keys kg syms full"
  defines "rows \<equiv> sort (fst (snd (np_unique canon)))"
  shows "\<exists>irr sym. derive_irreducible kg syms full = Inr (irr, sym, np_take full rows) \<and>
    length irr = length full \<and> length sym = length full \<and>
    (\<forall>i<length full. irr ! i < length rows \<and> canon ! (rows ! (irr ! i)) = canon ! i \<and>
       row_operation kg syms (full ! (rows ! (irr ! i))) (full ! i) = Inr (sym ! i))"
proof -
  let ?S = "mesh.star (kg, syms)" and ?keys = "np_take canon rows"
  have ok: "grid_ok kg" and ne: "syms \<noteq> []" using assms(1) by (auto simp: sym_group_def)
  have len: "length canon = length full" by (simp add: canon_def canon_keys_def)
  have in_g: "in_grid kg (full ! i)" if "i < length full" for i
    using that assms(2) nth_mem by (fastforce simp: full_mesh_def)
  note tab = first_rows_table [where xs = canon, folded rows_def]
  let ?irr = "map (\<lambda>k. the (dict_pos ?keys k)) canon"
  have irr: "?irr ! i < length rows \<and> canon ! (rows ! (?irr ! i)) = canon ! i" if i: "i < length full" for i
  proof -
    have "canon ! i \<in> set ?keys" using tab(2) i len by simp
    then obtain k where k: "dict_pos ?keys (canon ! i) = Some k" using dict_pos_None by fastforce
    then show ?thesis using dict_pos_nth [OF k] i len by (auto simp: np_take_def)
  qed
  have op: "\<exists>s. row_operation kg syms (full ! (rows ! (?irr ! i))) (full ! i) = Inr s" if i: "i < length full" for i
  proof -
    let ?r = "rows ! (?irr ! i)"
    have r: "?r < length full" using irr [OF i] tab(3) len by simp
    have "?S (full ! ?r) = ?S (full ! i)"
      using canon_eq [OF assms(1) in_g [OF r] in_g [OF i]] canon_nth [OF ne r, of kg] canon_nth [OF ne i, of kg] irr [OF i]
      by (simp add: canon_def)
    then have "full ! i \<in> ?S (full ! ?r)" using mesh.star_self [OF assms(1)] in_g [OF i] by auto
    then obtain s where "s \<in> set syms" "image_key kg (full ! ?r) s = flat_key kg (full ! i)"
      using image_key_eq [OF ok in_g [OF i]] by (auto simp: mesh.star_def)
    then show ?thesis using first_hit_ex [of s syms "\<lambda>s. image_key kg (full ! ?r) s = flat_key kg (full ! i)"]
      by (auto simp: row_operation_def)
  qed
  define sym where "sym = map (\<lambda>i. projr (row_operation kg syms (full ! (rows ! (?irr ! i))) (full ! i))) [0..<length full]"
  have sym: "row_operation kg syms (full ! (rows ! (?irr ! i))) (full ! i) = Inr (sym ! i)" if "i < length full" for i
    using op [OF that] that by (auto simp: sym_def)
  have "mapE (\<lambda>(iq, ihit). row_operation kg syms (np_take full rows ! ihit) (full ! iq)) (enumerate 0 ?irr) = Inr sym"
    unfolding mapE_Inr_iff list_all2_conv_all_nth
    using irr sym len by (auto simp: sym_def nth_enumerate_eq np_take_def)
  then have "derive_irreducible kg syms full = Inr (?irr, sym, np_take full rows)"
    using ne by (simp add: derive_irreducible_def Let_def canon_def rows_def)
  then show ?thesis using irr sym len by (intro exI [of _ ?irr] exI [of _ sym]) (simp add: sym_def)
qed

text \<open>Which rows share a point, and which row each point is.\<close>

lemma derived_stars:
  assumes "sym_group (kg, syms)" "full_mesh kg full" "i < length full" "j < length full"
  shows "canon_keys kg syms full ! i = canon_keys kg syms full ! j \<longleftrightarrow> (\<exists>s\<in>set syms. mesh_act kg s (full ! i) = full ! j)"
proof -
  let ?S = "mesh.star (kg, syms)"
  have ne: "syms \<noteq> []" using assms(1) by (auto simp: sym_group_def)
  have g: "in_grid kg (full ! i)" "in_grid kg (full ! j)"
    using assms(2-4) nth_mem by (fastforce simp: full_mesh_def)+
  have "canon_keys kg syms full ! i = canon_keys kg syms full ! j \<longleftrightarrow> ?S (full ! i) = ?S (full ! j)"
    using canon_eq [OF assms(1) g] canon_nth [OF ne assms(3), of kg] canon_nth [OF ne assms(4), of kg] by simp
  also have "\<dots> \<longleftrightarrow> full ! j \<in> ?S (full ! i)" using mesh.star_eq [OF assms(1)] g by simp
  finally show ?thesis by (simp add: mesh.star_def image_iff eq_commute)
qed

lemma first_row_of_star:
  fixes xs :: "'a::linorder list"
  defines "rows \<equiv> sort (fst (snd (np_unique xs)))"
  assumes "\<forall>i<length xs. irr ! i < length rows \<and> xs ! (rows ! (irr ! i)) = xs ! i" "k < length rows"
  shows "rows ! k < length xs" "irr ! (rows ! k) = k" "\<forall>j<rows ! k. irr ! j < k"
    and "i < length xs \<Longrightarrow> j < length xs \<Longrightarrow> irr ! i = irr ! j \<longleftrightarrow> xs ! i = xs ! j"
proof -
  note tab = first_rows_table [where xs = xs, folded rows_def]
  have inj: "a = b" if "a < length rows" "b < length rows" "xs ! (rows ! a) = xs ! (rows ! b)" for a b
    using tab(1) that by (simp add: np_take_def distinct_conv_nth) blast
  show i: "rows ! k < length xs" using tab(3) nth_mem [OF assms(3)] by blast
  show "irr ! (rows ! k) = k" using assms(2,3) i inj by blast
  show "\<forall>j<rows ! k. irr ! j < k"
  proof (intro allI impI)
    fix j assume j: "j < rows ! k"
    then obtain m where m: "m < k" "xs ! (rows ! m) = xs ! j" using tab(4) [OF assms(3)] by blast
    have "irr ! j = m" using assms(2,3) i j m inj [of "irr ! j" m] by simp
    then show "irr ! j < k" using m by simp
  qed
  show "irr ! i = irr ! j \<longleftrightarrow> xs ! i = xs ! j" if "i < length xs" "j < length xs"
    using assms(2) inj that by metis
qed

text \<open>The derived tables of a whole mesh.\<close>

lemma derived_points:
  assumes "sym_group (kg, syms)" "full_mesh kg full"
  shows "\<exists>irr sym reps. derive_irreducible kg syms full = Inr (irr, sym, reps) \<and>
    length irr = length full \<and> length sym = length full \<and>
    (\<forall>i<length full. irr ! i < length reps \<and> sym ! i < length syms \<and>
       mesh_act kg (syms ! (sym ! i)) (reps ! (irr ! i)) = full ! i \<and>
       (\<forall>s<sym ! i. mesh_act kg (syms ! s) (reps ! (irr ! i)) \<noteq> full ! i)) \<and>
    (\<forall>i<length full. \<forall>j<length full. irr ! i = irr ! j \<longleftrightarrow> (\<exists>s\<in>set syms. mesh_act kg s (full ! i) = full ! j)) \<and>
    (\<forall>k<length reps. \<exists>i<length full. reps ! k = full ! i \<and> irr ! i = k \<and> (\<forall>j<i. irr ! j < k))"
proof -
  let ?canon = "canon_keys kg syms full"
  let ?rows = "sort (fst (snd (np_unique ?canon)))"
  have ok: "grid_ok kg" using assms(1) by (simp add: sym_group_def)
  have in_g: "in_grid kg (full ! i)" if "i < length full" for i
    using that assms(2) nth_mem by (fastforce simp: full_mesh_def)
  have len: "length ?canon = length full" by (simp add: canon_keys_def)
  obtain irr sym where run: "derive_irreducible kg syms full = Inr (irr, sym, np_take full ?rows)"
      "length irr = length full" "length sym = length full"
    and row: "\<forall>i<length full. irr ! i < length ?rows \<and> ?canon ! (?rows ! (irr ! i)) = ?canon ! i \<and>
       row_operation kg syms (full ! (?rows ! (irr ! i))) (full ! i) = Inr (sym ! i)"
    using derive_run [OF assms] by blast
  then have table: "\<forall>i<length ?canon. irr ! i < length ?rows \<and> ?canon ! (?rows ! (irr ! i)) = ?canon ! i" using len by simp
  have pos: "0 < length ?rows" using row full_mesh_nonempty [OF assms(2)] by (metis length_greater_0_conv not_less_zero gr0I)
  have same: "irr ! i = irr ! j \<longleftrightarrow> (\<exists>s\<in>set syms. mesh_act kg s (full ! i) = full ! j)" if "i < length full" "j < length full" for i j
    using first_row_of_star(4) [OF table pos, of i j] derived_stars [OF assms that] that len by simp
  have first: "\<exists>i<length full. np_take full ?rows ! k = full ! i \<and> irr ! i = k \<and> (\<forall>j<i. irr ! j < k)" if k: "k < length ?rows" for k
    using first_row_of_star(1-3) [OF table k] k len by (intro exI [of _ "?rows ! k"]) (simp add: np_take_def)
  have op: "sym ! i < length syms \<and> mesh_act kg (syms ! (sym ! i)) (np_take full ?rows ! (irr ! i)) = full ! i \<and>
      (\<forall>s<sym ! i. mesh_act kg (syms ! s) (np_take full ?rows ! (irr ! i)) \<noteq> full ! i)" if i: "i < length full" for i
  proof -
    note r = row [rule_format, OF i, unfolded row_operation_Inr image_key_eq [OF ok in_g [OF i]]]
    then have "np_take full ?rows ! (irr ! i) = full ! (?rows ! (irr ! i))" by (simp add: np_take_def)
    then show ?thesis using r by (simp only:) blast
  qed
  show ?thesis
    using run row op same first
    by (intro exI [of _ irr] exI [of _ sym] exI [of _ "np_take full ?rows"]) (simp add: np_take_def)
qed


lemma grid_rows_mesh: "grid_ok kg \<Longrightarrow> full_mesh kg (grid_rows kg)"
  using grid_rows_set [of kg] grid_rows_distinct [of kg] by (auto simp: full_mesh_def)

lemma inversion_group: "grid_ok kg \<Longrightarrow> sym_group (kg, [mat_id, mat_neg mat_id])"
  by (cases kg) (simp add: sym_group_def mat_id_def Let_def)


section \<open>Given points\<close>

text \<open>The loop without a break keeps the last point with a match.\<close>

lemma anchor_fold:
  "fold (\<lambda>k acc. case f k of None \<Rightarrow> acc | Some s \<Rightarrow> Some (k, s)) [0..<n] None = Some (k, s) \<longleftrightarrow>
     k < n \<and> f k = Some s \<and> (\<forall>m<n. k < m \<longrightarrow> f m = None)"
proof (induction n)
  case (Suc n)
  show ?case
  proof (cases "f n")
    case None
    then show ?thesis using Suc by (auto simp: less_Suc_eq)
  next
    case (Some t)
    then have "k < Suc n \<and> f k = Some s \<and> (\<forall>m<Suc n. k < m \<longrightarrow> f m = None) \<longleftrightarrow> k = n \<and> s = t"
      by (metis less_Suc_eq lessI linorder_neqE_nat not_less_eq option.distinct(1) option.inject)
    then show ?thesis using Some by auto
  qed
qed simp

lemma anchor_fold_None:
  "fold (\<lambda>k acc. case f k of None \<Rightarrow> acc | Some s \<Rightarrow> Some (k, s)) [0..<n] None = None \<longleftrightarrow> (\<forall>m<n. f m = None)"
proof (induction n)
  case (Suc n)
  then show ?case by (cases "f n") (auto simp: less_Suc_eq)
qed simp

lemma anchor_row_Some:
  assumes "grid_ok kg" "in_grid kg q"
  shows "anchor_row kg syms reps q = Some (k, s) \<longleftrightarrow> k < length reps \<and> s < length syms \<and>
    mesh_act kg (syms ! s) (reps ! k) = q \<and> (\<forall>t<s. mesh_act kg (syms ! t) (reps ! k) \<noteq> q) \<and>
    (\<forall>m<length reps. k < m \<longrightarrow> (\<forall>s\<in>set syms. mesh_act kg s (reps ! m) \<noteq> q))"
  unfolding anchor_row_def anchor_fold first_hit_Some first_hit_None image_key_eq [OF assms] by (simp only: conj_assoc)

lemma anchor_row_None:
  assumes "grid_ok kg" "in_grid kg q"
  shows "anchor_row kg syms reps q = None \<longleftrightarrow> (\<forall>v\<in>set reps. \<forall>s\<in>set syms. mesh_act kg s v \<noteq> q)"
  unfolding anchor_row_def anchor_fold_None first_hit_None image_key_eq [OF assms] by (rule all_set_conv_all_nth [symmetric])

text \<open>
  With given irreducible points the reduction succeeds exactly when every full row is an image of one;
  it then names the last such point and the first operation that maps it onto the row, and returns the
  points wrapped into the mesh. Otherwise it refuses, naming the first row without a preimage.
\<close>

theorem anchored_points_exact:
  assumes "full_mesh kg full"
  shows "(case find_irreducible_bz_points full syms (Some irr_int) of
      Inr (irr, ops, reps) \<Rightarrow> reps = map (\<lambda>v. vmod v kg) irr_int \<and> length irr = length full \<and> length ops = length full \<and>
        (\<forall>i<length full. irr ! i < length reps \<and> ops ! i < length syms \<and>
           mesh_act kg (syms ! (ops ! i)) (reps ! (irr ! i)) = full ! i \<and>
           (\<forall>s<ops ! i. mesh_act kg (syms ! s) (reps ! (irr ! i)) \<noteq> full ! i) \<and>
           (\<forall>k<length reps. irr ! i < k \<longrightarrow> (\<forall>s\<in>set syms. mesh_act kg s (reps ! k) \<noteq> full ! i)))
    | Inl e \<Rightarrow> \<exists>bad<length full. e = NoPreimage bad (full ! bad) \<and>
        (\<forall>v\<in>set irr_int. \<forall>s\<in>set syms. mesh_act kg s (vmod v kg) \<noteq> full ! bad) \<and>
        (\<forall>i<bad. \<exists>v\<in>set irr_int. \<exists>s\<in>set syms. mesh_act kg s (vmod v kg) = full ! i))"
proof -
  let ?reps = "map (\<lambda>v. vmod v kg) irr_int"
  let ?rows = "map (anchor_row kg syms ?reps) full"
  have ok: "grid_ok kg" using assms by (simp add: full_mesh_def)
  have in_g: "in_grid kg (full ! i)" if "i < length full" for i
    using that assms nth_mem by (fastforce simp: full_mesh_def)
  have run: "find_irreducible_bz_points full syms (Some irr_int) = (case first_hit (\<lambda>r. r = None) ?rows of
      Some bad \<Rightarrow> Inl (NoPreimage bad (full ! bad)) | None \<Rightarrow> Inr (map (fst \<circ> the) ?rows, map (snd \<circ> the) ?rows, ?reps))"
    using full_mesh_nonempty [OF assms] max_extents_mesh [OF assms]
    by (simp add: find_irreducible_bz_points_def anchored_irreducible_def Let_def cong: option.case_cong)
  show ?thesis
  proof (cases "first_hit (\<lambda>r. r = None) ?rows")
    case None
    define irr ops where "irr = map (fst \<circ> the) ?rows" and "ops = map (snd \<circ> the) ?rows"
    have "anchor_row kg syms ?reps (full ! i) = Some (irr ! i, ops ! i)" if "i < length full" for i
      using None that nth_mem [OF that] by (fastforce simp: irr_def ops_def)
    then have "\<forall>i<length full. irr ! i < length ?reps \<and> ops ! i < length syms \<and>
        mesh_act kg (syms ! (ops ! i)) (?reps ! (irr ! i)) = full ! i \<and>
        (\<forall>s<ops ! i. mesh_act kg (syms ! s) (?reps ! (irr ! i)) \<noteq> full ! i) \<and>
        (\<forall>k<length ?reps. irr ! i < k \<longrightarrow> (\<forall>s\<in>set syms. mesh_act kg s (?reps ! k) \<noteq> full ! i))"
      using anchor_row_Some [OF ok in_g] by blast
    moreover have "length irr = length full" "length ops = length full" by (simp_all add: irr_def ops_def)
    moreover have "find_irreducible_bz_points full syms (Some irr_int) = Inr (irr, ops, ?reps)"
      unfolding run None by (simp only: option.case irr_def ops_def)
    ultimately show ?thesis by (simp only: sum.case prod.case)
  next
    case (Some bad)
    then have "bad < length full \<and> anchor_row kg syms ?reps (full ! bad) = None \<and>
        (\<forall>i<bad. anchor_row kg syms ?reps (full ! i) \<noteq> None)"
      by (auto simp: first_hit_Some)
    moreover have "anchor_row kg syms ?reps (full ! i) = None \<longleftrightarrow> (\<forall>v\<in>set irr_int. \<forall>s\<in>set syms. mesh_act kg s (vmod v kg) \<noteq> full ! i)"
      if "i < length full" for i
      using anchor_row_None [OF ok in_g [OF that], of syms ?reps] by simp
    ultimately have "bad < length full" "\<forall>v\<in>set irr_int. \<forall>s\<in>set syms. mesh_act kg s (vmod v kg) \<noteq> full ! bad"
        "\<forall>i<bad. \<exists>v\<in>set irr_int. \<exists>s\<in>set syms. mesh_act kg s (vmod v kg) = full ! i"
      by (blast, blast, meson order_less_trans)
    then show ?thesis using run Some by simp
  qed
qed

theorem anchored_points_exact_witness:
  "\<exists>irr ops reps. find_irreducible_bz_points (grid_rows (3, 1, 1)) [mat_id, mat_neg mat_id] (Some [(0, 0, 0), (4, 0, 0)]) = Inr (irr, ops, reps) \<and>
     reps = [(0, 0, 0), (1, 0, 0)]"
proof -
  let ?kg = "(3, 1, 1) :: ivec"
  have "full_mesh ?kg (grid_rows ?kg)" by (rule grid_rows_mesh) simp
  note a = anchored_points_exact [OF this, where syms = "[mat_id, mat_neg mat_id]" and irr_int = "[(0, 0, 0), (4, 0, 0)]"]
  have hit: "mesh_act ?kg (mat_neg mat_id) (1, 0, 0) = (2, 0, 0)" "mesh_act ?kg mat_id v = vmod v ?kg" for v
    by (simp add: mesh_act_def mat_id_def, simp add: mesh_act_def)
  have cover: "\<exists>v\<in>set [(0, 0, 0), (4, 0, 0)]. \<exists>s\<in>set [mat_id, mat_neg mat_id]. mesh_act ?kg s (vmod v ?kg) = grid_rows ?kg ! i"
    if "i < length (grid_rows ?kg)" for i
    using that hit by (auto simp: mesh_rows_def upto.simps less_Suc_eq numeral_3_eq_3)
  show ?thesis
  proof (cases "find_irreducible_bz_points (grid_rows ?kg) [mat_id, mat_neg mat_id] (Some [(0, 0, 0), (4, 0, 0)])")
    case (Inl e)
    then show ?thesis using a cover by auto
  next
    case (Inr r)
    then show ?thesis using a by (cases r) auto
  qed
qed

end
