(* ===== verification/BandAction.thy ===== *)
theory BandAction
  imports LxPrelude
begin

text \<open>
  \<open>apply_band_matrix_symmetry\<close> of \<open>services/symmetry_maps/src/symmetry_maps/directed_edges.py\<close>: the unitary or
  antiunitary action of an operation on band matrices, with endpoint sewing, reversal of a link and mixing
  of Cartesian components.

  An operand has one batch axis and one component axis before its two band axes (an operand without them
  has extents of one), all matrices of one shape; the component axis is the default one. A flag is one
  boolean or one per batch row. Complex numbers are exact: the order in which a product is summed does not
  matter here.
\<close>

section \<open>Complex matrices\<close>

record cmat =
  cm_rows :: nat
  cm_cols :: nat
  cm_at :: "nat \<Rightarrow> nat \<Rightarrow> complex"

definition cm_make :: "nat \<Rightarrow> nat \<Rightarrow> (nat \<Rightarrow> nat \<Rightarrow> complex) \<Rightarrow> cmat" where
  "cm_make n m f = \<lparr>cm_rows = n, cm_cols = m, cm_at = (\<lambda>i j. if i < n \<and> j < m then f i j else 0)\<rparr>"

definition cm_wf :: "cmat \<Rightarrow> bool" where
  "cm_wf A \<longleftrightarrow> A = cm_make (cm_rows A) (cm_cols A) (cm_at A)"

definition cm_conj :: "cmat \<Rightarrow> cmat" where
  "cm_conj A = cm_make (cm_rows A) (cm_cols A) (\<lambda>i j. cnj (cm_at A i j))"

definition cm_adjoint :: "cmat \<Rightarrow> cmat" where
  "cm_adjoint A = cm_make (cm_cols A) (cm_rows A) (\<lambda>i j. cnj (cm_at A j i))"

definition cm_mul :: "cmat \<Rightarrow> cmat \<Rightarrow> cmat" where
  "cm_mul A B = cm_make (cm_rows A) (cm_cols B) (\<lambda>i j. \<Sum>l<cm_cols A. cm_at A i l * cm_at B l j)"

definition cm_one :: "nat \<Rightarrow> cmat" where
  "cm_one n = cm_make n n (\<lambda>i j. if i = j then 1 else 0)"

lemma cm_make_simps [simp]:
  "cm_rows (cm_make n m f) = n" "cm_cols (cm_make n m f) = m" "i < n \<Longrightarrow> j < m \<Longrightarrow> cm_at (cm_make n m f) i j = f i j"
  by (simp_all add: cm_make_def)

lemma cm_eqI:
  assumes "cm_wf A" "cm_wf B" "cm_rows A = cm_rows B" "cm_cols A = cm_cols B"
    and "\<And>i j. i < cm_rows A \<Longrightarrow> j < cm_cols A \<Longrightarrow> cm_at A i j = cm_at B i j"
  shows "A = B"
proof -
  have "cm_make (cm_rows A) (cm_cols A) (cm_at A) = cm_make (cm_rows B) (cm_cols B) (cm_at B)"
    using assms(3-5) by (auto simp: cm_make_def fun_eq_iff)
  then show ?thesis using assms(1,2) by (simp add: cm_wf_def)
qed

lemma cm_wf_make [simp]: "cm_wf (cm_make n m f)"
  by (simp add: cm_wf_def cm_make_def fun_eq_iff)

lemma cm_wf_ops [simp]: "cm_wf (cm_conj A)" "cm_wf (cm_adjoint A)" "cm_wf (cm_mul A B)" "cm_wf (cm_one n)"
  by (simp_all add: cm_conj_def cm_adjoint_def cm_mul_def cm_one_def)

lemma cm_shape [simp]:
  "cm_rows (cm_conj A) = cm_rows A" "cm_cols (cm_conj A) = cm_cols A"
  "cm_rows (cm_adjoint A) = cm_cols A" "cm_cols (cm_adjoint A) = cm_rows A"
  "cm_rows (cm_mul A B) = cm_rows A" "cm_cols (cm_mul A B) = cm_cols B" "cm_rows (cm_one n) = n" "cm_cols (cm_one n) = n"
  by (simp_all add: cm_conj_def cm_adjoint_def cm_mul_def cm_one_def)

lemma cm_conj_conj [simp]: "cm_wf A \<Longrightarrow> cm_conj (cm_conj A) = A"
  by (rule cm_eqI) (simp_all, simp_all add: cm_conj_def)

lemma cm_adjoint_adjoint [simp]: "cm_wf A \<Longrightarrow> cm_adjoint (cm_adjoint A) = A"
  by (rule cm_eqI) (simp_all, simp_all add: cm_adjoint_def)

lemma cm_conj_adjoint: "cm_conj (cm_adjoint A) = cm_adjoint (cm_conj A)"
  by (rule cm_eqI) (simp_all, simp_all add: cm_adjoint_def cm_conj_def)

lemma cm_conj_mul: "cm_cols A = cm_rows B \<Longrightarrow> cm_conj (cm_mul A B) = cm_mul (cm_conj A) (cm_conj B)"
  by (rule cm_eqI) (simp_all, simp_all add: cm_mul_def cm_conj_def)

lemma cm_adjoint_mul: "cm_cols A = cm_rows B \<Longrightarrow> cm_adjoint (cm_mul A B) = cm_mul (cm_adjoint B) (cm_adjoint A)"
  by (rule cm_eqI) (simp_all, simp_all add: cm_mul_def cm_adjoint_def mult.commute)

lemma cm_mul_assoc:
  "cm_cols A = cm_rows B \<Longrightarrow> cm_cols B = cm_rows C \<Longrightarrow> cm_mul (cm_mul A B) C = cm_mul A (cm_mul B C)"
proof (rule cm_eqI)
  fix i j
  assume e: "cm_cols A = cm_rows B" "cm_cols B = cm_rows C" and "i < cm_rows (cm_mul (cm_mul A B) C)" "j < cm_cols (cm_mul (cm_mul A B) C)"
  then have "cm_at (cm_mul (cm_mul A B) C) i j = (\<Sum>l<cm_cols B. (\<Sum>k<cm_cols A. cm_at A i k * cm_at B k l) * cm_at C l j)"
    by (simp add: cm_mul_def)
  also have "\<dots> = (\<Sum>k<cm_cols A. cm_at A i k * (\<Sum>l<cm_cols B. cm_at B k l * cm_at C l j))"
    unfolding sum_distrib_left sum_distrib_right by (subst sum.swap) (simp add: mult.assoc)
  also have "\<dots> = cm_at (cm_mul A (cm_mul B C)) i j"
    using e \<open>i < _\<close> \<open>j < _\<close> by (simp add: cm_mul_def)
  finally show "cm_at (cm_mul (cm_mul A B) C) i j = cm_at (cm_mul A (cm_mul B C)) i j" .
qed simp_all

lemma cm_one_mul [simp]: "cm_wf A \<Longrightarrow> cm_mul (cm_one (cm_rows A)) A = A"
proof (rule cm_eqI)
  fix i j assume "i < cm_rows (cm_mul (cm_one (cm_rows A)) A)" "j < cm_cols (cm_mul (cm_one (cm_rows A)) A)"
  then show "cm_at (cm_mul (cm_one (cm_rows A)) A) i j = cm_at A i j"
    by (simp add: cm_mul_def cm_one_def if_distrib [of "\<lambda>x. x * _"] sum.delta cong: if_cong)
qed simp_all

lemma cm_mul_one [simp]: "cm_wf A \<Longrightarrow> cm_mul A (cm_one (cm_cols A)) = A"
proof (rule cm_eqI)
  fix i j assume "i < cm_rows (cm_mul A (cm_one (cm_cols A)))" "j < cm_cols (cm_mul A (cm_one (cm_cols A)))"
  then show "cm_at (cm_mul A (cm_one (cm_cols A))) i j = cm_at A i j"
    by (simp add: cm_mul_def cm_one_def if_distrib [of "\<lambda>x. _ * x"] sum.delta cong: if_cong)
qed simp_all

lemma cm_adjoint_one [simp]: "cm_adjoint (cm_one n) = cm_one n" and cm_conj_one [simp]: "cm_conj (cm_one n) = cm_one n"
  by (rule cm_eqI; simp; simp add: cm_one_def cm_adjoint_def cm_conj_def)+

section \<open>The code\<close>

datatype flag = Flag bool | Flags "bool list"

datatype mixing = NoMix | Mix cmat | Mixes "cmat list"

datatype action_error = MixedNotSquare | OneSewing | SewingShapes | ProductShapes | MixShape | FlagLength

text \<open>NumPy broadcasts a flag array of extent one; other extents must be the batch extent.\<close>

definition flag_at :: "flag \<Rightarrow> nat \<Rightarrow> bool" where
  "flag_at f k = (case f of Flag b \<Rightarrow> b | Flags bs \<Rightarrow> bs ! (if length bs = 1 then 0 else k))"

definition flag_any :: "flag \<Rightarrow> bool" where
  "flag_any f = (case f of Flag b \<Rightarrow> b | Flags bs \<Rightarrow> list_ex (\<lambda>b. b) bs)"

definition is_array :: "flag \<Rightarrow> bool" where
  "is_array f = (case f of Flag _ \<Rightarrow> False | Flags _ \<Rightarrow> True)"

definition where_flag :: "flag \<Rightarrow> 'a list \<Rightarrow> 'a list \<Rightarrow> (action_error, 'a list) result" where
  "where_flag f if_true if_false =
     (case f of Flags bs \<Rightarrow>
        if length bs \<noteq> 1 \<and> length bs \<noteq> length if_true then Inl FlagLength
        else Inr (map (\<lambda>k. if flag_at f k then if_true ! k else if_false ! k) [0..<length if_true])
      | Flag b \<Rightarrow> Inr (if b then if_true else if_false))"

type_synonym band_array = "cmat list list"

definition reverse_step :: "flag \<Rightarrow> band_array \<Rightarrow> (action_error, band_array) result" where
  "reverse_step reverse out =
     (if is_array reverse \<and> flag_any reverse then
        (if \<exists>row\<in>set out. \<exists>A\<in>set row. cm_rows A \<noteq> cm_cols A then Inl MixedNotSquare
         else where_flag reverse (map (map cm_adjoint) out) out)
      else if flag_any reverse then Inr (map (map cm_adjoint) out)
      else Inr out)"

definition anti_step :: "flag \<Rightarrow> band_array \<Rightarrow> (action_error, band_array) result" where
  "anti_step antiunitary out =
     (if is_array antiunitary \<and> flag_any antiunitary then where_flag antiunitary (map (map cm_conj) out) out
      else if flag_any antiunitary then Inr (map (map cm_conj) out)
      else Inr out)"

text \<open>\<open>start @ out @ end.conj().T\<close> on each batch row.\<close>

definition sew_row :: "cmat \<Rightarrow> cmat \<Rightarrow> cmat \<Rightarrow> (action_error, cmat) result" where
  "sew_row S E A =
     (if cm_cols S \<noteq> cm_rows A \<or> cm_cols A \<noteq> cm_cols E then Inl ProductShapes
      else Inr (cm_mul (cm_mul S A) (cm_adjoint E)))"

definition same_shapes :: "cmat list \<Rightarrow> cmat list \<Rightarrow> bool" where
  "same_shapes xs ys \<longleftrightarrow> map cm_rows xs = map cm_rows ys \<and> map cm_cols xs = map cm_cols ys"

definition swap_ends :: "flag \<Rightarrow> cmat list \<Rightarrow> cmat list \<Rightarrow> (action_error, cmat list \<times> cmat list) result" where
  "swap_ends reverse start end' =
     (if is_array reverse \<and> flag_any reverse then
        (if \<not> same_shapes start end' then Inl SewingShapes
         else andthen (where_flag reverse end' start) (\<lambda>s. andthen (where_flag reverse start end') (\<lambda>e. Inr (s, e))))
      else if flag_any reverse then Inr (end', start)
      else Inr (start, end'))"

definition sew_step :: "flag \<Rightarrow> cmat list option \<Rightarrow> cmat list option \<Rightarrow> band_array \<Rightarrow> (action_error, band_array) result" where
  "sew_step reverse sewing_start sewing_end out =
     (case (sewing_start, sewing_end) of
        (None, None) \<Rightarrow> Inr out
      | (Some start, Some end') \<Rightarrow>
          andthen (swap_ends reverse start end') (\<lambda>(s, e).
            if length s \<noteq> length out \<or> length e \<noteq> length out then Inl ProductShapes
            else mapE (\<lambda>k. mapE (sew_row (s ! k) (e ! k)) (out ! k)) [0..<length out])
      | _ \<Rightarrow> Inl OneSewing)"

text \<open>\<open>einsum("...oi,...iab->...oab", mix, moved)\<close>.\<close>

definition mix_row :: "cmat \<Rightarrow> cmat list \<Rightarrow> (action_error, cmat list) result" where
  "mix_row M comps =
     (if cm_cols M \<noteq> length comps then Inl MixShape
      else Inr (map (\<lambda>out. cm_make (cm_rows (comps ! 0)) (cm_cols (comps ! 0))
        (\<lambda>a b. \<Sum>i<length comps. cm_at M out i * cm_at (comps ! i) a b)) [0..<cm_rows M]))"

definition mix_step :: "mixing \<Rightarrow> band_array \<Rightarrow> (action_error, band_array) result" where
  "mix_step mix out =
     (case mix of
        NoMix \<Rightarrow> Inr out
      | Mix M \<Rightarrow> mapE (mix_row M) out
      | Mixes Ms \<Rightarrow> if length Ms \<noteq> length out then Inl MixShape else mapE (\<lambda>(M, row). mix_row M row) (zip Ms out))"

definition apply_band_matrix_symmetry ::
    "band_array \<Rightarrow> flag \<Rightarrow> flag \<Rightarrow> cmat list option \<Rightarrow> cmat list option \<Rightarrow> mixing \<Rightarrow> (action_error, band_array) result" where
  "apply_band_matrix_symmetry matrix antiunitary reverse sewing_start sewing_end component_mix =
     andthen (reverse_step reverse matrix) (\<lambda>out.
     andthen (anti_step antiunitary out) (\<lambda>out.
     andthen (sew_step reverse sewing_start sewing_end out) (mix_step component_mix)))"

section \<open>One matrix at a time\<close>

text \<open>What the array function does to one matrix, for square bands.\<close>

definition band_act :: "bool \<Rightarrow> bool \<Rightarrow> (cmat \<times> cmat) option \<Rightarrow> cmat \<Rightarrow> cmat" where
  "band_act anti back sewing A =
     (let X = (if back then cm_adjoint A else A); Y = (if anti then cm_conj X else X)
      in case sewing of
           None \<Rightarrow> Y
         | Some (S, E) \<Rightarrow> if back then cm_mul (cm_mul E Y) (cm_adjoint S) else cm_mul (cm_mul S Y) (cm_adjoint E))"

definition square_array :: "nat \<Rightarrow> band_array \<Rightarrow> bool" where
  "square_array n out \<longleftrightarrow> (\<forall>row\<in>set out. \<forall>A\<in>set row. cm_wf A \<and> cm_rows A = n \<and> cm_cols A = n)"

lemma flags_off: "\<not> flag_any (Flags bs) \<Longrightarrow> k < length bs \<Longrightarrow> \<not> bs ! k"
  unfolding flag_any_def flag.case list_ex_iff using nth_mem by blast

lemma where_run:
  assumes "length bs = length xs"
  shows "where_flag (Flags bs) xs ys = Inr (map (\<lambda>k. if bs ! k then xs ! k else ys ! k) [0..<length xs])"
proof -
  have "flag_at (Flags bs) k = bs ! k" if "k < length xs" for k using that assms by (auto simp: flag_at_def)
  then show ?thesis using assms by (simp add: where_flag_def)
qed

lemma reverse_run:
  assumes "square_array n out" "length bs = length out"
  shows "reverse_step (Flags bs) out = Inr (map (\<lambda>k. map (\<lambda>A. if bs ! k then cm_adjoint A else A) (out ! k)) [0..<length out])"
proof (cases "flag_any (Flags bs)")
  case True
  have "\<not> (\<exists>row\<in>set out. \<exists>A\<in>set row. cm_rows A \<noteq> cm_cols A)" using assms(1) by (auto simp: square_array_def)
  then have "reverse_step (Flags bs) out = where_flag (Flags bs) (map (map cm_adjoint) out) out"
    using True by (simp add: reverse_step_def is_array_def)
  then show ?thesis using assms(2) by (simp add: where_run)
next
  case False
  then show ?thesis using assms(2) flags_off [OF False]
    by (auto simp: reverse_step_def intro!: nth_equalityI)
qed

lemma anti_run:
  assumes "length bs = length out"
  shows "anti_step (Flags bs) out = Inr (map (\<lambda>k. map (\<lambda>A. if bs ! k then cm_conj A else A) (out ! k)) [0..<length out])"
proof (cases "flag_any (Flags bs)")
  case True
  then show ?thesis
    using assms by (simp add: anti_step_def is_array_def where_run)
next
  case False
  then show ?thesis using assms flags_off [OF False] by (auto simp: anti_step_def intro!: nth_equalityI)
qed

lemma swap_run:
  assumes "length bs = m" "length S = m" "length E = m" "\<forall>X\<in>set S \<union> set E. cm_rows X = n \<and> cm_cols X = n"
  shows "swap_ends (Flags bs) S E = Inr (map (\<lambda>k. if bs ! k then E ! k else S ! k) [0..<m], map (\<lambda>k. if bs ! k then S ! k else E ! k) [0..<m])"
proof (cases "flag_any (Flags bs)")
  case True
  have "same_shapes S E" unfolding same_shapes_def
    using assms by (auto simp: list_eq_iff_nth_eq)
  then show ?thesis
    using True assms(1-3) by (simp add: swap_ends_def is_array_def where_run)
next
  case False
  then show ?thesis using assms(1-3) flags_off [OF False] by (auto simp: swap_ends_def intro!: nth_equalityI)
qed

text \<open>Each matrix of the array is transformed by the flags and the sewing of its batch row.\<close>

definition sewing_ok :: "nat \<Rightarrow> nat \<Rightarrow> cmat list option \<Rightarrow> cmat list option \<Rightarrow> bool" where
  "sewing_ok n m S E \<longleftrightarrow> (case (S, E) of
      (None, None) \<Rightarrow> True
    | (Some S, Some E) \<Rightarrow> length S = m \<and> length E = m \<and> (\<forall>X\<in>set S \<union> set E. cm_rows X = n \<and> cm_cols X = n)
    | _ \<Rightarrow> False)"

definition sewing_at :: "cmat list option \<Rightarrow> cmat list option \<Rightarrow> nat \<Rightarrow> (cmat \<times> cmat) option" where
  "sewing_at S E k = (case (S, E) of (Some S, Some E) \<Rightarrow> Some (S ! k, E ! k) | _ \<Rightarrow> None)"

lemma band_act_square:
  "cm_wf A \<Longrightarrow> cm_rows A = n \<Longrightarrow> cm_cols A = n \<Longrightarrow> sew = None \<or> (\<exists>S E. sew = Some (S, E) \<and> cm_rows S = n \<and> cm_rows E = n) \<Longrightarrow>
   cm_wf (band_act anti back sew A) \<and> cm_rows (band_act anti back sew A) = n \<and> cm_cols (band_act anti back sew A) = n"
  by (auto simp: band_act_def Let_def)

lemma apply_rows:
  assumes "square_array n out" "length anti = length out" "length back = length out" "sewing_ok n (length out) S E"
  shows "apply_band_matrix_symmetry out (Flags anti) (Flags back) S E NoMix =
    Inr (map (\<lambda>k. map (band_act (anti ! k) (back ! k) (sewing_at S E k)) (out ! k)) [0..<length out])"
proof -
  let ?Y = "\<lambda>k A. if anti ! k then cm_conj (if back ! k then cm_adjoint A else A) else (if back ! k then cm_adjoint A else A)"
  let ?out = "map (\<lambda>k. map (?Y k) (out ! k)) [0..<length out]"
  let ?X = "map (\<lambda>k. map (\<lambda>A. if back ! k then cm_adjoint A else A) (out ! k)) [0..<length out]"
  have rev_out: "reverse_step (Flags back) out = Inr ?X" by (rule reverse_run [OF assms(1,3)])
  have anti_out: "anti_step (Flags anti) ?X = Inr ?out"
    using anti_run [of anti ?X] assms(2) by (simp add: comp_def)
  have sq: "cm_rows A = n \<and> cm_cols A = n" if "k < length out" "A \<in> set (out ! k)" for k A
    using assms(1) that nth_mem by (fastforce simp: square_array_def)
  have sew: "sew_step (Flags back) S E ?out = Inr (map (\<lambda>k. map (band_act (anti ! k) (back ! k) (sewing_at S E k)) (out ! k)) [0..<length out])"
  proof (cases S)
    case None
    then have "E = None" using assms(4) by (cases E) (simp_all add: sewing_ok_def)
    then show ?thesis using None by (simp add: sew_step_def sewing_at_def band_act_def Let_def)
  next
    case (Some s)
    then obtain e where E: "E = Some e" using assms(4) by (cases E) (simp_all add: sewing_ok_def)
    then have se: "length s = length out" "length e = length out" "\<forall>X\<in>set s \<union> set e. cm_rows X = n \<and> cm_cols X = n"
      using assms(4) Some by (simp_all add: sewing_ok_def)
    have shape: "cm_cols (s ! k) = n" "cm_cols (e ! k) = n" if "k < length out" for k using se that by auto
    let ?act = "\<lambda>k. band_act (anti ! k) (back ! k) (sewing_at S E k)"
    have one: "sew_row (if back ! k then e ! k else s ! k) (if back ! k then s ! k else e ! k) (?Y k A) = Inr (?act k A)"
      if "k < length out" "A \<in> set (out ! k)" for k A
      using sq [OF that] shape [OF that(1)] by (simp add: sew_row_def band_act_def sewing_at_def Some E Let_def)
    have row: "mapE (sew_row (if back ! k then e ! k else s ! k) (if back ! k then s ! k else e ! k)) (map (?Y k) (out ! k)) = Inr (map (?act k) (out ! k))"
      if "k < length out" for k
      using mapE_total [of "map (?Y k) (out ! k)"] one [OF that] by (simp add: mapE_Inr_iff list_all2_conv_all_nth)
    have "mapE (\<lambda>k. mapE (sew_row (map (\<lambda>k. if back ! k then e ! k else s ! k) [0..<length out] ! k)
        (map (\<lambda>k. if back ! k then s ! k else e ! k) [0..<length out] ! k)) (?out ! k)) [0..<length out] =
        Inr (map (\<lambda>k. map (?act k) (out ! k)) [0..<length out])"
    proof (rule mapE_total, rule ballI)
      fix k assume "k \<in> set [0..<length out]"
      then have k: "k < length out" by simp
      show "mapE (sew_row (map (\<lambda>k. if back ! k then e ! k else s ! k) [0..<length out] ! k)
          (map (\<lambda>k. if back ! k then s ! k else e ! k) [0..<length out] ! k)) (?out ! k) = Inr (map (?act k) (out ! k))"
        using row [OF k] k by (simp only: nth_map length_upt minus_nat.diff_0 nth_upt add_0)
    qed
    then show ?thesis
      using swap_run [OF assms(3) se] by (simp add: sew_step_def Some E)
  qed
  show ?thesis
    unfolding apply_band_matrix_symmetry_def rev_out andthen_simps anti_out sew by (simp add: mix_step_def)
qed

section \<open>The action composes\<close>

text \<open>The sewing of a composite operation: an antiunitary second factor conjugates the first.\<close>

definition conj_if :: "bool \<Rightarrow> cmat \<Rightarrow> cmat" where
  "conj_if b A = (if b then cm_conj A else A)"

definition sewing_product :: "bool list \<Rightarrow> cmat list \<Rightarrow> cmat list \<Rightarrow> cmat list" where
  "sewing_product h H G = map (\<lambda>k. cm_mul (H ! k) (conj_if (h ! k) (G ! k))) [0..<length H]"

lemma conj_if_simps [simp]:
  "cm_rows (conj_if b A) = cm_rows A" "cm_cols (conj_if b A) = cm_cols A" "cm_wf A \<Longrightarrow> cm_wf (conj_if b A)"
  "cm_wf A \<Longrightarrow> conj_if b (conj_if c A) = conj_if (b \<noteq> c) A"
  by (auto simp: conj_if_def)

lemma conj_if_mul: "cm_cols A = cm_rows B \<Longrightarrow> conj_if b (cm_mul A B) = cm_mul (conj_if b A) (conj_if b B)"
  by (simp add: conj_if_def cm_conj_mul)

lemma conj_if_adjoint: "conj_if b (cm_adjoint A) = cm_adjoint (conj_if b A)"
  by (simp add: conj_if_def cm_conj_adjoint)

lemma band_act_forward: "band_act anti False (Some (S, E)) A = cm_mul (cm_mul S (conj_if anti A)) (cm_adjoint E)"
  by (simp add: band_act_def conj_if_def)

lemma band_act_back:
  assumes "cm_wf A" "cm_cols S = cm_rows A" "cm_cols E = cm_cols A"
  shows "band_act anti True (Some (S, E)) A = cm_adjoint (band_act anti False (Some (S, E)) A)"
proof -
  have "cm_adjoint (cm_mul (cm_mul S (conj_if anti A)) (cm_adjoint E)) =
      cm_mul (cm_adjoint (cm_adjoint E)) (cm_mul (cm_adjoint (conj_if anti A)) (cm_adjoint S))"
    using assms by (simp add: cm_adjoint_mul)
  also have "cm_adjoint (cm_adjoint E) = cm_make (cm_rows E) (cm_cols E) (cm_at E)"
    by (rule cm_eqI) (simp_all, simp_all add: cm_adjoint_def)
  also have "cm_mul (cm_make (cm_rows E) (cm_cols E) (cm_at E)) (cm_mul (cm_adjoint (conj_if anti A)) (cm_adjoint S)) =
      cm_mul E (cm_mul (cm_adjoint (conj_if anti A)) (cm_adjoint S))"
    by (rule cm_eqI) (simp_all, simp_all add: cm_mul_def)
  also have "\<dots> = cm_mul (cm_mul E (cm_adjoint (conj_if anti A))) (cm_adjoint S)"
    using assms by (simp add: cm_mul_assoc)
  finally show ?thesis
    by (simp add: band_act_forward) (simp add: band_act_def conj_if_def cm_conj_adjoint)
qed

lemma band_act_compose:
  assumes "cm_cols G0 = cm_rows A" "cm_cols G1 = cm_cols A" "cm_cols H0 = cm_rows G0" "cm_cols H1 = cm_rows G1" "cm_wf A"
  shows "band_act h False (Some (H0, H1)) (band_act g False (Some (G0, G1)) A) =
    band_act (h \<noteq> g) False (Some (cm_mul H0 (conj_if h G0), cm_mul H1 (conj_if h G1))) A"
  using assms by (simp add: band_act_forward conj_if_mul conj_if_adjoint cm_adjoint_mul cm_mul_assoc)

text \<open>
  C15: On square bands the array function is a group action, row by row: one operation after another is the
  composite operation, whose sewings are the products (the first conjugated when the second is
  antiunitary) and which is antiunitary exactly when one of the two is; and a reversed row is the adjoint
  of the row transformed forward.
\<close>

theorem band_action_composes:
  assumes "square_array n out" "length g = length out" "length h = length out" "length back = length out"
    and "length G0 = length out" "length G1 = length out" "length H0 = length out" "length H1 = length out"
    and "\<forall>X\<in>set G0 \<union> set G1 \<union> set H0 \<union> set H1. cm_rows X = n \<and> cm_cols X = n"
  defines "fwd \<equiv> Flags (replicate (length out) False)"
  shows "\<exists>once twice turned. apply_band_matrix_symmetry out (Flags g) fwd (Some G0) (Some G1) NoMix = Inr once \<and>
    apply_band_matrix_symmetry once (Flags h) fwd (Some H0) (Some H1) NoMix = Inr twice \<and>
    apply_band_matrix_symmetry out (Flags (map2 (\<noteq>) h g)) fwd
      (Some (sewing_product h H0 G0)) (Some (sewing_product h H1 G1)) NoMix = Inr twice \<and>
    apply_band_matrix_symmetry out (Flags g) (Flags back) (Some G0) (Some G1) NoMix = Inr turned \<and>
    turned = map (\<lambda>k. if back ! k then map cm_adjoint (once ! k) else once ! k) [0..<length out]"
proof -
  let ?no = "replicate (length out) False"
  have mem: "cm_rows (X ! k) = n \<and> cm_cols (X ! k) = n" if "X \<in> {G0, G1, H0, H1}" "k < length out" for X k
    using assms(5-9) that by (metis (no_types, lifting) Un_iff insertE nth_mem singletonD)
  have elem: "cm_wf A \<and> cm_rows A = n \<and> cm_cols A = n" if "k < length out" "A \<in> set (out ! k)" for k A
    using assms(1) that nth_mem by (fastforce simp: square_array_def)
  have okG: "sewing_ok n (length out) (Some G0) (Some G1)" and okH: "sewing_ok n (length out) (Some H0) (Some H1)"
    using assms(5-9) by (simp_all add: sewing_ok_def)
  let ?f = "\<lambda>k. band_act (g ! k) False (Some (G0 ! k, G1 ! k))" and ?h = "\<lambda>k. band_act (h ! k) False (Some (H0 ! k, H1 ! k))"
  let ?once = "map (\<lambda>k. map (?f k) (out ! k)) [0..<length out]"
  have once: "apply_band_matrix_symmetry out (Flags g) fwd (Some G0) (Some G1) NoMix = Inr ?once"
    unfolding fwd_def using apply_rows [OF assms(1,2) _ okG, of ?no] by (simp add: sewing_at_def cong: map_cong)
  have sq: "square_array n ?once"
    using elem mem [of G0] mem [of G1] by (auto simp: square_array_def band_act_forward)
  have twice: "apply_band_matrix_symmetry ?once (Flags h) fwd (Some H0) (Some H1) NoMix =
      Inr (map (\<lambda>k. map (?h k \<circ> ?f k) (out ! k)) [0..<length out])"
    unfolding fwd_def using apply_rows [OF sq, of h ?no "Some H0" "Some H1"] assms(3) okH by (simp add: sewing_at_def cong: map_cong)
  let ?hg = "map2 (\<noteq>) h g" and ?P0 = "sewing_product h H0 G0" and ?P1 = "sewing_product h H1 G1"
  have okP: "sewing_ok n (length out) (Some ?P0) (Some ?P1)"
    using assms(5-8) mem by (auto simp: sewing_ok_def sewing_product_def)
  have "?h k (?f k A) = band_act (?hg ! k) False (sewing_at (Some ?P0) (Some ?P1) k) A" if k: "k < length out" and A: "A \<in> set (out ! k)" for k A
    using band_act_compose [of "G0 ! k" A "G1 ! k" "H0 ! k" "H1 ! k" "h ! k" "g ! k"] elem [OF k A] mem [OF _ k] k assms(2-8)
    by (simp add: sewing_at_def sewing_product_def)
  then have "apply_band_matrix_symmetry out (Flags ?hg) fwd (Some ?P0) (Some ?P1) NoMix =
      Inr (map (\<lambda>k. map (?h k \<circ> ?f k) (out ! k)) [0..<length out])"
    unfolding fwd_def using apply_rows [OF assms(1) _ _ okP, of ?hg ?no] assms(2,3) by (simp cong: map_cong)
  moreover have "map (band_act (g ! k) (back ! k) (sewing_at (Some G0) (Some G1) k)) (out ! k) =
      (if back ! k then map cm_adjoint (?once ! k) else ?once ! k)" if k: "k < length out" for k
    using band_act_back elem [OF k] mem [OF _ k] k by (simp add: sewing_at_def)
  then have "apply_band_matrix_symmetry out (Flags g) (Flags back) (Some G0) (Some G1) NoMix =
      Inr (map (\<lambda>k. if back ! k then map cm_adjoint (?once ! k) else ?once ! k) [0..<length out])"
    using apply_rows [OF assms(1,2,4) okG] by (simp cong: map_cong)
  ultimately show ?thesis using once twice by blast
qed

theorem band_action_composes_witness:
  "\<exists>once. apply_band_matrix_symmetry [[cm_one 2]] (Flags [True]) (Flags [False]) (Some [cm_one 2]) (Some [cm_one 2]) NoMix = Inr once"
  using band_action_composes [of 2 "[[cm_one 2]]" "[True]" "[True]" "[True]" "[cm_one 2]" "[cm_one 2]" "[cm_one 2]" "[cm_one 2]"]
  by (auto simp: square_array_def)

end
