(* ===== verification/StarMaps.thy ===== *)
theory StarMaps
  imports RowTables BandAction
begin

text \<open>
  The star tables of \<open>services/symmetry_maps/src/symmetry_maps/maps.py\<close>: \<open>star_select\<close> keeps one row per star of a
  full-zone quantity, \<open>star_broadcast\<close> spreads such rows over the zone again, conjugating where the
  operation is antiunitary, \<open>star_spread\<close> measures how far a quantity is from being spread that way;
  \<open>KStarMap\<close> holds the tables, and the two wedges (file and star) have an unfold each.

  A quantity is one row of band matrices per k. The irreducible index and the operation of each k are
  integer arrays; a row at or above \<open>n_sym_spatial\<close> is antiunitary. The arrays of a JAX operand give the
  same rows; its placement and compile cache are not modelled. Tables of different lengths are an error here,
  where NumPy refuses to broadcast them.
\<close>

section \<open>The code\<close>

datatype star_error =
    TableShapes nat nat
  | UnknownLabel
  | BadReference string
  | BadRule string
  | RowOutside
  | EmptyOperand
  | WedgeRows nat nat
  | StarAction action_error

definition lift_action :: "(action_error, 'a) result \<Rightarrow> (star_error, 'a) result" where
  "lift_action r = (case r of Inl e \<Rightarrow> Inl (StarAction e) | Inr a \<Rightarrow> Inr a)"

definition star_row_order :: "int list \<Rightarrow> nat list \<times> int list" where
  "star_row_order irr = (let rows = sort (fst (snd (np_unique irr))) in (rows, np_take irr rows))"

definition take_rows :: "'a list \<Rightarrow> nat list \<Rightarrow> (star_error, 'a list) result" where
  "take_rows A rows = (if \<exists>r\<in>set rows. length A \<le> r then Inl RowOutside else Inr (np_take A rows))"

definition broadcast_rows :: "band_array \<Rightarrow> nat list \<Rightarrow> bool list \<Rightarrow> bool \<Rightarrow> (star_error, band_array) result" where
  "broadcast_rows A_irr gather trs transposed =
     andthen (take_rows A_irr gather) (\<lambda>out. lift_action
       (apply_band_matrix_symmetry out (Flags trs) (if transposed then Flags trs else Flag False) None None NoMix))"

definition star_conj_flags :: "int list \<Rightarrow> int list \<Rightarrow> int \<Rightarrow> nat list \<times> bool list" where
  "star_conj_flags irr sym_idx nss =
     (let trs = map (\<lambda>s. nss \<le> s) sym_idx; (rows, labels) = star_row_order irr;
          ref_rows = map (\<lambda>v. rows ! the (dict_pos labels v)) irr
      in (ref_rows, map2 (\<lambda>t r. t \<noteq> trs ! r) trs ref_rows))"

definition spread_tables :: "int list \<Rightarrow> int list \<Rightarrow> int \<Rightarrow> nat list \<times> nat list \<times> bool list" where
  "spread_tables irr sym_idx nss =
     (let (ref_all, conj_all) = star_conj_flags irr sym_idx nss;
          members = filter (\<lambda>k. ref_all ! k \<noteq> k) [0..<length ref_all]
      in (members, np_take ref_all members, np_take conj_all members))"

text \<open>\<open>np.abs(x).max()\<close> over every entry; an array without entries raises.\<close>

definition entries :: "band_array \<Rightarrow> complex list" where
  "entries A = concat (map (\<lambda>row. concat (map (\<lambda>X.
     concat (map (\<lambda>i. map (\<lambda>j. cm_at X i j) [0..<cm_cols X]) [0..<cm_rows X])) row)) A)"

definition abs_max :: "complex list \<Rightarrow> (star_error, real) result" where
  "abs_max xs = (if xs = [] then Inl EmptyOperand else Inr (Max (cmod ` set xs)))"

definition star_stats :: "band_array \<Rightarrow> nat list \<Rightarrow> nat list \<Rightarrow> bool list \<Rightarrow> (star_error, real \<times> real) result" where
  "star_stats A members refs flip =
     andthen (abs_max (entries A)) (\<lambda>scale.
       if members = [] then Inr (0, scale)
       else andthen (take_rows A refs) (\<lambda>gathered.
         andthen (lift_action (apply_band_matrix_symmetry gathered (Flags flip) (Flag False) None None NoMix)) (\<lambda>ref_v.
         andthen (take_rows A members) (\<lambda>mem.
         andthen (abs_max (map2 (-) (entries mem) (entries ref_v))) (\<lambda>worst. Inr (worst, scale))))))"

definition star_select :: "band_array \<Rightarrow> int list \<Rightarrow> (star_error, band_array \<times> int list) result" where
  "star_select A irr =
     (let (rows, labels) = star_row_order irr in andthen (take_rows A rows) (\<lambda>out. Inr (out, labels)))"

text \<open>The gather positions: the position of each k's label, as the dict gives it.\<close>

definition label_positions :: "int list \<Rightarrow> int list \<Rightarrow> (star_error, nat list) result" where
  "label_positions labels irr =
     (if \<exists>v\<in>set irr. dict_pos labels v = None then Inl UnknownLabel else Inr (map (\<lambda>v. the (dict_pos labels v)) irr))"

definition star_broadcast ::
    "band_array \<Rightarrow> int list \<Rightarrow> int list \<Rightarrow> int \<Rightarrow> int list option \<Rightarrow> string \<Rightarrow> string \<Rightarrow> nat list option \<Rightarrow>
     (star_error, band_array) result" where
  "star_broadcast A_irr irr sym_idx nss irr_labels trs_reference trs_rule rows =
     andthen (label_positions (case irr_labels of None \<Rightarrow> snd (star_row_order irr) | Some ls \<Rightarrow> ls) irr) (\<lambda>gather.
       if trs_reference \<noteq> ''star_row'' \<and> trs_reference \<noteq> ''ibz_slab'' then Inl (BadReference trs_reference)
       else if trs_reference = ''star_row'' \<and> length sym_idx \<noteq> length irr then Inl (TableShapes (length irr) (length sym_idx))
       else
         let flips = (if trs_reference = ''star_row'' then snd (star_conj_flags irr sym_idx nss) else map (\<lambda>s. nss \<le> s) sym_idx)
         in if trs_rule \<noteq> ''conj'' \<and> trs_rule \<noteq> ''transpose'' then Inl (BadRule trs_rule)
            else case rows of
              None \<Rightarrow> broadcast_rows A_irr gather flips (trs_rule = ''transpose'')
            | Some rs \<Rightarrow> andthen (take_rows gather rs) (\<lambda>gather'. andthen (take_rows flips rs) (\<lambda>flips'.
                broadcast_rows A_irr gather' flips' (trs_rule = ''transpose''))))"

definition star_spread :: "band_array \<Rightarrow> int list \<Rightarrow> int list \<Rightarrow> int \<Rightarrow> (star_error, real) result" where
  "star_spread A irr sym_idx nss =
     (case spread_tables irr sym_idx nss of (members, refs, flip) \<Rightarrow>
        andthen (star_stats A members refs flip) (\<lambda>(worst, scale). Inr worst))"

subsection \<open>The two wedges\<close>

text \<open>What the unfolds read of a \<open>SymMaps\<close>.\<close>

record sym_tables =
  st_irr_idx_k :: "int list"
  st_sym_idx_k :: "int list"
  st_n_operations :: nat
  st_kirr_fullids :: "nat list"
  st_nk_red :: nat

definition star_tables_of :: "sym_tables \<Rightarrow> int list \<times> int list \<times> int" where
  "star_tables_of st = (st_irr_idx_k st, st_sym_idx_k st, int (st_n_operations st) div 2)"

definition unfold_file_wedge_to_full_bz :: "sym_tables \<Rightarrow> band_array \<Rightarrow> nat list option \<Rightarrow> (star_error, band_array) result" where
  "unfold_file_wedge_to_full_bz st data rows =
     (case star_tables_of st of (irr, sidx, nss) \<Rightarrow>
        if length data \<noteq> st_nk_red st then Inl (WedgeRows (length data) (st_nk_red st))
        else star_broadcast data irr sidx nss (Some (map int [0..<length data])) ''ibz_slab'' ''conj'' rows)"

definition unfold_file_wedge_band_operator :: "sym_tables \<Rightarrow> band_array \<Rightarrow> string \<Rightarrow> (star_error, band_array) result" where
  "unfold_file_wedge_band_operator st data trs_rule =
     (case star_tables_of st of (irr, sidx, nss) \<Rightarrow>
        if length data \<noteq> st_nk_red st then Inl (WedgeRows (length data) (st_nk_red st))
        else star_broadcast data irr sidx nss (Some (map int [0..<length data])) ''ibz_slab'' trs_rule None)"

definition reduce_full_bz_to_file_wedge :: "sym_tables \<Rightarrow> band_array \<Rightarrow> (star_error, band_array) result" where
  "reduce_full_bz_to_file_wedge st data = take_rows data (st_kirr_fullids st)"

definition unfold_star_wedge_to_full_bz :: "sym_tables \<Rightarrow> band_array \<Rightarrow> (star_error, band_array) result" where
  "unfold_star_wedge_to_full_bz st data =
     (case star_tables_of st of (irr, sidx, nss) \<Rightarrow> star_broadcast data irr sidx nss None ''star_row'' ''conj'' None)"

subsection \<open>The class\<close>

record kstar_map =
  ks_irr_idx :: "int list"
  ks_sym_idx :: "int list"
  ks_n_sym_spatial :: int
  ks_labels :: "int list"
  ks_rows :: "nat list"
  ks_take :: "nat list"
  ks_conj_bcast :: "bool list"
  ks_members :: "nat list"
  ks_refs :: "nat list"
  ks_conj :: "bool list"

definition kstar_init :: "int list \<Rightarrow> int list \<Rightarrow> int \<Rightarrow> int list option \<Rightarrow> (star_error, kstar_map) result" where
  "kstar_init irr sym_idx nss labels =
     (if length sym_idx \<noteq> length irr then Inl (TableShapes (length irr) (length sym_idx))
      else
        let (rows, row_labels) = star_row_order irr; ls = (case labels of None \<Rightarrow> row_labels | Some ls \<Rightarrow> ls)
        in andthen (label_positions ls irr) (\<lambda>gather.
             case spread_tables irr sym_idx nss of (members, refs, flip) \<Rightarrow>
               Inr \<lparr>ks_irr_idx = irr, ks_sym_idx = sym_idx, ks_n_sym_spatial = nss, ks_labels = ls, ks_rows = rows,
                    ks_take = gather, ks_conj_bcast = snd (star_conj_flags irr sym_idx nss), ks_members = members,
                    ks_refs = refs, ks_conj = flip\<rparr>))"

definition kstar_identity :: "nat \<Rightarrow> (star_error, kstar_map) result" where
  "kstar_identity n_k = kstar_init (map int [0..<n_k]) (replicate n_k 0) 1 (Some (map int [0..<n_k]))"

definition kstar_select :: "kstar_map \<Rightarrow> band_array \<Rightarrow> (star_error, band_array) result" where
  "kstar_select ks A = take_rows A (ks_rows ks)"

definition kstar_broadcast :: "kstar_map \<Rightarrow> band_array \<Rightarrow> (star_error, band_array) result" where
  "kstar_broadcast ks A_irr = broadcast_rows A_irr (ks_take ks) (ks_conj_bcast ks) False"

definition kstar_spread :: "kstar_map \<Rightarrow> band_array \<Rightarrow> (star_error, real) result" where
  "kstar_spread ks A = andthen (star_stats A (ks_members ks) (ks_refs ks) (ks_conj ks)) (\<lambda>(worst, scale). Inr worst)"

definition kstar_is_identity :: "kstar_map \<Rightarrow> bool" where
  "kstar_is_identity ks \<longleftrightarrow> length (ks_labels ks) = length (ks_irr_idx ks)"

definition star_wedge_rows :: "sym_tables \<Rightarrow> (star_error, int list \<times> nat list) result" where
  "star_wedge_rows st =
     (case star_tables_of st of (irr, sidx, nss) \<Rightarrow>
        andthen (kstar_init irr sidx nss None) (\<lambda>ks. Inr (ks_labels ks, ks_take ks)))"

definition star_wedge_tables :: "sym_tables \<Rightarrow> (star_error, nat list \<times> int list \<times> int) result" where
  "star_wedge_tables st =
     (case star_tables_of st of (irr, sidx, nss) \<Rightarrow>
        andthen (kstar_init irr sidx nss None) (\<lambda>ks. Inr (ks_take ks, sidx, nss)))"

section \<open>Tables of a star\<close>

text \<open>The first row of each star, and the position of each k's star among them.\<close>

lemma star_tables:
  fixes irr :: "int list"
  defines "rows \<equiv> fst (star_row_order irr)" and "labels \<equiv> snd (star_row_order irr)"
  shows "distinct labels" "set labels = set irr" "length labels = length rows" "\<forall>r\<in>set rows. r < length irr"
    and "k < length rows \<Longrightarrow> labels ! k = irr ! (rows ! k)" and "distinct rows"
proof -
  have rows: "rows = sort (fst (snd (np_unique irr)))" and labels: "labels = np_take irr rows"
    by (simp_all add: rows_def labels_def star_row_order_def Let_def)
  note tab = first_rows_table [where xs = irr, folded rows, folded labels]
  show "distinct labels" "set labels = set irr" "\<forall>r\<in>set rows. r < length irr" using tab by simp_all
  show "length labels = length rows" "k < length rows \<Longrightarrow> labels ! k = irr ! (rows ! k)" by (simp_all add: labels np_take_def)
  show "distinct rows" using \<open>distinct labels\<close> by (simp add: labels np_take_def distinct_map)
qed

lemma star_position:
  assumes "k < length irr"
  shows "\<exists>p. dict_pos (snd (star_row_order irr)) (irr ! k) = Some p \<and> p < length (fst (star_row_order irr)) \<and>
    irr ! (fst (star_row_order irr) ! p) = irr ! k"
proof -
  note t = star_tables [where irr = irr]
  have "irr ! k \<in> set (snd (star_row_order irr))" using assms t(2) by simp
  then obtain p where p: "dict_pos (snd (star_row_order irr)) (irr ! k) = Some p" using dict_pos_None by fastforce
  have lt: "p < length (fst (star_row_order irr))" using dict_pos_nth [OF p] t(3) by simp
  show ?thesis using dict_pos_nth [OF p] t(5) [OF lt] p lt by auto
qed

text \<open>The position of a kept row is its own.\<close>

lemma star_position_row:
  assumes "p < length (fst (star_row_order irr))"
  shows "dict_pos (snd (star_row_order irr)) (irr ! (fst (star_row_order irr) ! p)) = Some p"
  using dict_pos_distinct [of "snd (star_row_order irr)" p] star_tables [where irr = irr] assms by simp

text \<open>The reference row of each k, and whether its value there is conjugated.\<close>

definition star_ref :: "int list \<Rightarrow> nat \<Rightarrow> nat" where
  "star_ref irr k = fst (star_row_order irr) ! the (dict_pos (snd (star_row_order irr)) (irr ! k))"

definition star_flip :: "int list \<Rightarrow> int list \<Rightarrow> int \<Rightarrow> nat \<Rightarrow> bool" where
  "star_flip irr sym_idx nss k \<longleftrightarrow> (nss \<le> sym_idx ! k) \<noteq> (nss \<le> sym_idx ! star_ref irr k)"

lemma star_ref_props:
  assumes "k < length irr"
  shows "star_ref irr k < length irr" "irr ! star_ref irr k = irr ! k" "star_ref irr k \<in> set (fst (star_row_order irr))"
  using star_position [OF assms] star_tables(4) [where irr = irr] by (auto simp: star_ref_def)

lemma star_ref_row: "p < length (fst (star_row_order irr)) \<Longrightarrow> star_ref irr (fst (star_row_order irr) ! p) = fst (star_row_order irr) ! p"
  by (simp add: star_ref_def star_position_row)

lemma conj_flags_run:
  assumes "length sym_idx = length irr"
  shows "star_conj_flags irr sym_idx nss = (map (star_ref irr) [0..<length irr], map (star_flip irr sym_idx nss) [0..<length irr])"
proof -
  have "map2 (\<lambda>t r. t \<noteq> map (\<lambda>s. nss \<le> s) sym_idx ! r) (map (\<lambda>s. nss \<le> s) sym_idx) (map (star_ref irr) [0..<length irr]) =
      map (star_flip irr sym_idx nss) [0..<length irr]"
    using assms star_ref_props(1) by (intro nth_equalityI) (simp_all add: star_flip_def)
  moreover have "map (\<lambda>v. fst (star_row_order irr) ! the (dict_pos (snd (star_row_order irr)) v)) irr = map (star_ref irr) [0..<length irr]"
    by (rule nth_equalityI) (simp_all add: star_ref_def)
  ultimately show ?thesis by (simp add: star_conj_flags_def Let_def split_def)
qed

text \<open>A quantity follows its stars when every row is the row of its star, conjugated where the flag says.\<close>

definition follows_stars :: "band_array \<Rightarrow> int list \<Rightarrow> int list \<Rightarrow> int \<Rightarrow> bool" where
  "follows_stars A irr sym_idx nss \<longleftrightarrow>
     (\<forall>k<length irr. A ! k = map (conj_if (star_flip irr sym_idx nss k)) (A ! star_ref irr k))"

section \<open>Spreading and keeping rows\<close>

lemma take_rows_Inr: "take_rows A rows = Inr B \<longleftrightarrow> (\<forall>r\<in>set rows. r < length A) \<and> B = np_take A rows"
  by (auto simp: take_rows_def not_le [symmetric])

lemma conj_rows_run:
  assumes "\<forall>r\<in>set gather. r < length A" "length trs = length gather"
  shows "broadcast_rows A gather trs False = Inr (map (\<lambda>k. map (conj_if (trs ! k)) (A ! (gather ! k))) [0..<length gather])"
proof -
  let ?out = "np_take A gather"
  have "anti_step (Flags trs) ?out = Inr (map (\<lambda>k. map (\<lambda>X. if trs ! k then cm_conj X else X) (?out ! k)) [0..<length ?out])"
    by (rule anti_run) (simp add: assms(2) np_take_def)
  then have "apply_band_matrix_symmetry ?out (Flags trs) (Flag False) None None NoMix =
      Inr (map (\<lambda>k. map (conj_if (trs ! k)) (A ! (gather ! k))) [0..<length gather])"
    by (simp add: apply_band_matrix_symmetry_def reverse_step_def flag_any_def is_array_def sew_step_def mix_step_def np_take_def conj_if_def [abs_def])
  then show ?thesis using assms(1) by (simp add: broadcast_rows_def take_rows_def lift_action_def not_le)
qed

lemma positions_run:
  "label_positions (snd (star_row_order irr)) irr = Inr (map (\<lambda>v. the (dict_pos (snd (star_row_order irr)) v)) irr)"
  using star_tables(2) [where irr = irr] by (simp add: label_positions_def)

lemma select_run:
  "length A = length irr \<Longrightarrow> star_select A irr = Inr (np_take A (fst (star_row_order irr)), snd (star_row_order irr))"
  using star_tables(4) [where irr = irr] by (simp add: star_select_def split_def Let_def take_rows_def not_le)

lemma broadcast_star_run:
  assumes "length sym_idx = length irr" "length A = length (fst (star_row_order irr))"
  shows "star_broadcast A irr sym_idx nss None ''star_row'' ''conj'' None =
    Inr (map (\<lambda>k. map (conj_if (star_flip irr sym_idx nss k)) (A ! the (dict_pos (snd (star_row_order irr)) (irr ! k)))) [0..<length irr])"
proof -
  let ?g = "map (\<lambda>v. the (dict_pos (snd (star_row_order irr)) v)) irr"
  have "\<forall>r\<in>set ?g. r < length A"
    using star_position [of _ irr] assms(2) by (fastforce simp: in_set_conv_nth)
  from conj_rows_run [OF this, of "map (star_flip irr sym_idx nss) [0..<length irr]"]
  show ?thesis
    using assms(1) by (simp add: star_broadcast_def positions_run conj_flags_run Let_def cong: map_cong)
qed

lemma map_upt_eq: "length A = n \<Longrightarrow> map f [0..<n] = A \<longleftrightarrow> (\<forall>k<n. A ! k = f k)"
proof -
  assume n: "length A = n"
  have "map f [0..<n] = A" if "\<forall>k<n. A ! k = f k" by (rule nth_equalityI) (use n that in simp_all)
  moreover have "A ! k = f k" if "map f [0..<n] = A" "k < n" for k
    using nth_map_upt [of k n 0 f] that by auto
  ultimately show ?thesis by blast
qed

lemma conj_if_False [simp]: "conj_if False = (\<lambda>A. A)"
  by (simp add: conj_if_def fun_eq_iff)

lemma follows_iff:
  assumes "length A = length irr"
  shows "follows_stars A irr sym_idx nss \<longleftrightarrow>
    map (\<lambda>k. map (conj_if (star_flip irr sym_idx nss k)) (A ! star_ref irr k)) [0..<length irr] = A"
  unfolding follows_stars_def by (rule map_upt_eq [OF assms, symmetric])

text \<open>A row taken by itself is that row of the whole spread.\<close>

lemma conj_rows_subset:
  assumes "\<forall>r\<in>set gather. r < length A" "length trs = length gather" "\<forall>r\<in>set rows. r < length gather"
  shows "broadcast_rows A (np_take gather rows) (np_take trs rows) False =
    Inr (np_take (map (\<lambda>k. map (conj_if (trs ! k)) (A ! (gather ! k))) [0..<length gather]) rows)"
proof -
  have "\<forall>r\<in>set (np_take gather rows). r < length A" using assms(1,3) by (auto simp: np_take_def)
  from conj_rows_run [OF this, of "np_take trs rows"]
  have "broadcast_rows A (np_take gather rows) (np_take trs rows) False =
      Inr (map (\<lambda>k. map (conj_if (np_take trs rows ! k)) (A ! (np_take gather rows ! k))) [0..<length rows])"
    by (simp add: np_take_def)
  also have "map (\<lambda>k. map (conj_if (np_take trs rows ! k)) (A ! (np_take gather rows ! k))) [0..<length rows] =
      np_take (map (\<lambda>k. map (conj_if (trs ! k)) (A ! (gather ! k))) [0..<length gather]) rows"
  proof (rule nth_equalityI)
    fix i assume "i < length (map (\<lambda>k. map (conj_if (np_take trs rows ! k)) (A ! (np_take gather rows ! k))) [0..<length rows])"
    then have i: "i < length rows" "rows ! i < length gather" using assms(3) by simp_all
    then show "map (\<lambda>k. map (conj_if (np_take trs rows ! k)) (A ! (np_take gather rows ! k))) [0..<length rows] ! i =
        np_take (map (\<lambda>k. map (conj_if (trs ! k)) (A ! (gather ! k))) [0..<length gather]) rows ! i"
      by (simp add: np_take_def)
  qed (simp add: np_take_def)
  finally show ?thesis .
qed

text \<open>
  C14: Keeping one row per star and spreading it back gives the whole quantity exactly when every row is the
  row of its star, conjugated where just one of the two operations is antiunitary. Spreading any rows and
  keeping one per star gives them back. Asking the spread for some rows only gives those rows of it.
\<close>

theorem star_select_broadcast:
  assumes "length sym_idx = length irr" "length A = length irr" "length B = length (fst (star_row_order irr))"
    and "\<forall>row\<in>set B. \<forall>X\<in>set row. cm_wf X" "\<forall>r\<in>set rows. r < length irr"
  shows "\<exists>kept labels whole wide. star_select A irr = Inr (kept, labels) \<and> distinct labels \<and> set labels = set irr \<and>
    star_broadcast kept irr sym_idx nss None ''star_row'' ''conj'' None = Inr whole \<and>
    (whole = A \<longleftrightarrow> follows_stars A irr sym_idx nss) \<and>
    star_broadcast B irr sym_idx nss None ''star_row'' ''conj'' None = Inr wide \<and>
    follows_stars wide irr sym_idx nss \<and> star_select wide irr = Inr (B, labels) \<and>
    star_broadcast B irr sym_idx nss None ''star_row'' ''conj'' (Some rows) = Inr (np_take wide rows)"
proof -
  let ?rows = "fst (star_row_order irr)" and ?labels = "snd (star_row_order irr)"
  let ?pos = "\<lambda>k. the (dict_pos ?labels (irr ! k))" and ?flip = "star_flip irr sym_idx nss"
  let ?wide = "map (\<lambda>k. map (conj_if (?flip k)) (B ! ?pos k)) [0..<length irr]"
  note t = star_tables [where irr = irr]
  have pos: "?pos k < length ?rows" "?rows ! ?pos k = star_ref irr k" if "k < length irr" for k
    using star_position [OF that] by (auto simp: star_ref_def)
  have sel: "star_select A irr = Inr (np_take A ?rows, ?labels)" by (rule select_run [OF assms(2)])
  have whole: "star_broadcast (np_take A ?rows) irr sym_idx nss None ''star_row'' ''conj'' None =
      Inr (map (\<lambda>k. map (conj_if (?flip k)) (A ! star_ref irr k)) [0..<length irr])"
    using broadcast_star_run [OF assms(1), of "np_take A ?rows" nss] pos by (simp add: np_take_def cong: map_cong)
  have wide: "star_broadcast B irr sym_idx nss None ''star_row'' ''conj'' None = Inr ?wide"
    by (rule broadcast_star_run [OF assms(1,3)])
  have flip_row: "\<not> ?flip (?rows ! p)" if "p < length ?rows" for p
    using star_ref_row [OF that] by (simp add: star_flip_def)
  have wide_row: "?wide ! (?rows ! p) = B ! p" if p: "p < length ?rows" for p
  proof -
    have lt: "?rows ! p < length irr" using t(4) p by simp
    have "?pos (?rows ! p) = p" using star_position_row [OF p] by simp
    then show ?thesis using lt flip_row [OF p] by simp
  qed
  have again: "np_take ?wide ?rows = B"
    by (rule nth_equalityI) (use wide_row assms(3) in \<open>simp_all add: np_take_def\<close>)
  have follow: "follows_stars ?wide irr sym_idx nss"
    unfolding follows_stars_def
  proof (intro allI impI)
    fix k assume k: "k < length irr"
    have "?wide ! star_ref irr k = B ! ?pos k" using wide_row [OF pos(1) [OF k]] pos(2) [OF k] by simp
    then show "?wide ! k = map (conj_if (?flip k)) (?wide ! star_ref irr k)" using k by simp
  qed
  have some: "star_broadcast B irr sym_idx nss None ''star_row'' ''conj'' (Some rows) = Inr (np_take ?wide rows)"
  proof -
    let ?g = "map (\<lambda>v. the (dict_pos ?labels v)) irr"
    have g: "\<forall>r\<in>set ?g. r < length B" using pos(1) assms(3) by (fastforce simp: in_set_conv_nth)
    have "broadcast_rows B (np_take ?g rows) (np_take (map ?flip [0..<length irr]) rows) False = Inr (np_take ?wide rows)"
      using conj_rows_subset [OF g, of "map ?flip [0..<length irr]" rows] assms(5) by (simp add: np_take_def)
    moreover have "take_rows ?g rows = Inr (np_take ?g rows)" "take_rows (map ?flip [0..<length irr]) rows = Inr (np_take (map ?flip [0..<length irr]) rows)"
      using assms(5) by (simp_all add: take_rows_Inr)
    ultimately show ?thesis using assms(1) by (simp add: star_broadcast_def positions_run conj_flags_run Let_def)
  qed
  have keep: "star_select ?wide irr = Inr (B, ?labels)" using select_run [of ?wide irr] again by simp
  show ?thesis
  proof (intro exI conjI)
    show "star_select A irr = Inr (np_take A ?rows, ?labels)" by (rule sel)
    show "star_broadcast B irr sym_idx nss None ''star_row'' ''conj'' None = Inr ?wide" by (rule wide)
    show "star_broadcast B irr sym_idx nss None ''star_row'' ''conj'' (Some rows) = Inr (np_take ?wide rows)" by (rule some)
  qed (use whole follow keep t(1,2) follows_iff [OF assms(2)] in \<open>simp_all only:\<close>)
qed

theorem star_select_broadcast_witness:
  "\<exists>kept labels whole. star_select [[cm_one 1], [cm_one 1]] [5, 5] = Inr (kept, labels) \<and>
     star_broadcast kept [5, 5] [0, 2] 2 None ''star_row'' ''conj'' None = Inr whole \<and> whole = [[cm_one 1], [cm_one 1]]"
proof -
  let ?A = "[[cm_one 1], [cm_one 1]]"
  have rows: "fst (star_row_order [5, 5]) = [0]"
    by (simp add: star_row_order_def np_unique_def first_index_def Let_def)
  have ref: "star_ref [5, 5] k = 0 \<or> star_ref [5, 5] k = 1" if "k < 2" for k
    using star_ref_props(1) [of k "[5, 5]"] that by (simp add: less_Suc_eq numeral_2_eq_2)
  have "follows_stars ?A [5, 5] [0, 2] 2"
    unfolding follows_stars_def
  proof (intro allI impI)
    fix k assume "k < length [5, 5 :: int]"
    then have k: "k < 2" by simp
    then have "?A ! k = [cm_one 1]" by (auto simp: less_Suc_eq numeral_2_eq_2)
    moreover have "?A ! star_ref [5, 5] k = [cm_one 1]" using ref [OF k] by (elim disjE) simp_all
    ultimately show "?A ! k = map (conj_if (star_flip [5, 5] [0, 2] 2 k)) (?A ! star_ref [5, 5] k)" by (simp add: conj_if_def)
  qed
  moreover have "length [0, 2 :: int] = length [5, 5 :: int]" "length ?A = length [5, 5 :: int]"
    "length [[cm_one 1]] = length (fst (star_row_order [5, 5]))" "\<forall>row\<in>set [[cm_one 1]]. \<forall>X\<in>set row. cm_wf X"
    "\<forall>r\<in>set []. r < length [5, 5 :: int]"
    by (simp_all add: rows)
  note this and star_select_broadcast [OF this(1-5), of 2]
  ultimately show ?thesis by blast
qed

section \<open>The file wedge\<close>

text \<open>The labels of a file wedge are its own row numbers.\<close>

lemma file_positions:
  assumes "\<forall>v\<in>set irr. 0 \<le> v \<and> v < int n"
  shows "label_positions (map int [0..<n]) irr = Inr (map nat irr)"
proof -
  have "dict_pos (map int [0..<n]) v = Some (nat v)" if "v \<in> set irr" for v
  proof -
    have v: "0 \<le> v" "nat v < n" using assms that by auto
    have "distinct (map int [0..<n])" by (simp add: distinct_map)
    then show ?thesis using dict_pos_distinct [of "map int [0..<n]" "nat v"] v by simp
  qed
  then show ?thesis by (simp add: label_positions_def)
qed

lemma file_wedge_run:
  assumes "length data = st_nk_red st" "\<forall>v\<in>set (st_irr_idx_k st). 0 \<le> v \<and> v < int (st_nk_red st)"
    and "length (st_sym_idx_k st) = length (st_irr_idx_k st)"
  shows "unfold_file_wedge_to_full_bz st data None =
    Inr (map (\<lambda>k. map (conj_if (int (st_n_operations st) div 2 \<le> st_sym_idx_k st ! k)) (data ! nat (st_irr_idx_k st ! k)))
      [0..<length (st_irr_idx_k st)])"
proof -
  let ?irr = "st_irr_idx_k st" and ?flags = "map (\<lambda>s. int (st_n_operations st) div 2 \<le> s) (st_sym_idx_k st)"
  have "\<forall>r\<in>set (map nat ?irr). r < length data" using assms(1,2) by auto
  from conj_rows_run [OF this, of ?flags]
  have "broadcast_rows data (map nat ?irr) ?flags False =
      Inr (map (\<lambda>k. map (conj_if (?flags ! k)) (data ! nat (?irr ! k))) [0..<length ?irr])"
    using assms(3) by (simp cong: map_cong)
  also have "map (\<lambda>k. map (conj_if (?flags ! k)) (data ! nat (?irr ! k))) [0..<length ?irr] =
      map (\<lambda>k. map (conj_if (int (st_n_operations st) div 2 \<le> st_sym_idx_k st ! k)) (data ! nat (?irr ! k))) [0..<length ?irr]"
    using assms(3) by simp
  finally show ?thesis
    using assms by (simp add: unfold_file_wedge_to_full_bz_def star_tables_of_def star_broadcast_def file_positions Let_def)
qed

text \<open>
  Unfolding a file wedge gives every k the row of the file it descends from, conjugated where its
  operation is antiunitary; reducing it to the wedge again gives the file's rows back. A file with another
  number of rows is refused.
\<close>

theorem file_wedge_roundtrip:
  assumes "\<forall>v\<in>set (st_irr_idx_k st). 0 \<le> v \<and> v < int (st_nk_red st)" "length (st_sym_idx_k st) = length (st_irr_idx_k st)"
    and "length (st_kirr_fullids st) = st_nk_red st" "\<forall>r\<in>set (st_kirr_fullids st). r < length (st_irr_idx_k st)"
    and "\<forall>i<st_nk_red st. st_irr_idx_k st ! (st_kirr_fullids st ! i) = int i \<and>
      st_sym_idx_k st ! (st_kirr_fullids st ! i) < int (st_n_operations st) div 2"
  shows "if length data = st_nk_red st
    then \<exists>whole. unfold_file_wedge_to_full_bz st data None = Inr whole \<and> length whole = length (st_irr_idx_k st) \<and>
      (\<forall>k<length whole. whole ! k =
        map (conj_if (int (st_n_operations st) div 2 \<le> st_sym_idx_k st ! k)) (data ! nat (st_irr_idx_k st ! k))) \<and>
      reduce_full_bz_to_file_wedge st whole = Inr data
    else unfold_file_wedge_to_full_bz st data None = Inl (WedgeRows (length data) (st_nk_red st))"
proof (cases "length data = st_nk_red st")
  case False
  then show ?thesis by (simp add: unfold_file_wedge_to_full_bz_def star_tables_of_def)
next
  case True
  let ?row = "\<lambda>k. map (conj_if (int (st_n_operations st) div 2 \<le> st_sym_idx_k st ! k)) (data ! nat (st_irr_idx_k st ! k))"
  let ?whole = "map ?row [0..<length (st_irr_idx_k st)]"
  have "np_take ?whole (st_kirr_fullids st) = data"
  proof (rule nth_equalityI)
    show "length (np_take ?whole (st_kirr_fullids st)) = length data" using True assms(3) by (simp add: np_take_def)
    fix i assume "i < length (np_take ?whole (st_kirr_fullids st))"
    then have i: "i < st_nk_red st" using assms(3) by (simp add: np_take_def)
    then have "st_kirr_fullids st ! i < length (st_irr_idx_k st)" using assms(3,4) by simp
    moreover have "?row (st_kirr_fullids st ! i) = data ! i" using assms(5) i by (simp add: not_le [symmetric])
    ultimately show "np_take ?whole (st_kirr_fullids st) ! i = data ! i" using i assms(3) by (simp add: np_take_def)
  qed
  then have "reduce_full_bz_to_file_wedge st ?whole = Inr data"
    using assms(4) by (simp add: reduce_full_bz_to_file_wedge_def take_rows_Inr)
  then show ?thesis using True file_wedge_run [OF True assms(1,2)] by simp
qed

theorem file_wedge_roundtrip_witness:
  "\<exists>whole. unfold_file_wedge_to_full_bz \<lparr>st_irr_idx_k = [0, 1, 0], st_sym_idx_k = [0, 0, 1], st_n_operations = 2,
      st_kirr_fullids = [0, 1], st_nk_red = 2\<rparr> [[cm_one 1], [cm_one 2]] None = Inr whole \<and> length whole = 3"
  using file_wedge_roundtrip [of "\<lparr>st_irr_idx_k = [0, 1, 0], st_sym_idx_k = [0, 0, 1], st_n_operations = 2,
      st_kirr_fullids = [0, 1], st_nk_red = 2\<rparr>" "[[cm_one 1], [cm_one 2]]"]
  by (auto simp: less_Suc_eq numeral_2_eq_2)

section \<open>The class keeps the same tables\<close>

lemma kstar_init_run:
  assumes "length sym_idx = length irr"
  shows "\<exists>ks. kstar_init irr sym_idx nss None = Inr ks \<and> kstar_select ks A = take_rows A (fst (star_row_order irr)) \<and>
    kstar_broadcast ks B = star_broadcast B irr sym_idx nss None ''star_row'' ''conj'' None \<and>
    kstar_spread ks A = star_spread A irr sym_idx nss"
  using assms
  by (simp add: kstar_init_def split_def Let_def positions_run kstar_select_def kstar_broadcast_def kstar_spread_def
      star_broadcast_def star_spread_def)

end
