(* ===== verification/GridSteps.thy ===== *)
theory GridSteps
  imports RowTables
begin

text \<open>
  The step arithmetic the two tables of \<open>services/symmetry_maps/src/symmetry_maps/directed_edges.py\<close> share: the
  images of mesh steps and of the points of a shifted mesh under reciprocal operations, computed in
  fractional coordinates and rounded back to integers under a tolerance of 1e-10.

  Fractions are exact reals; a residual is compared with the tolerance as the code does, so an image that
  misses the mesh is refused. Operations, steps and extents are integers by their types. Ids stay below the
  number of mesh points, so the casts to int32 are left out.
\<close>

section \<open>The code\<close>

type_synonym rvec = "real \<times> real \<times> real"

fun radd :: "rvec \<Rightarrow> rvec \<Rightarrow> rvec" where
  "radd (a, b, c) (x, y, z) = (a + x, b + y, c + z)"

fun rsub :: "rvec \<Rightarrow> rvec \<Rightarrow> rvec" where
  "rsub (a, b, c) (x, y, z) = (a - x, b - y, c - z)"

fun of_ivec :: "ivec \<Rightarrow> rvec" where
  "of_ivec (x, y, z) = (of_int x, of_int y, of_int z)"

fun rdot :: "ivec \<Rightarrow> rvec \<Rightarrow> real" where
  "rdot (a, b, c) (x, y, z) = of_int a * x + of_int b * y + of_int c * z"

fun rmat_vec :: "imat \<Rightarrow> rvec \<Rightarrow> rvec" where
  "rmat_vec (r1, r2, r3) v = (rdot r1 v, rdot r2 v, rdot r3 v)"

fun times_grid :: "rvec \<Rightarrow> ivec \<Rightarrow> rvec" where
  "times_grid (x, y, z) (nx, ny, nz) = (x * of_int nx, y * of_int ny, z * of_int nz)"

fun over_grid :: "rvec \<Rightarrow> ivec \<Rightarrow> rvec" where
  "over_grid (x, y, z) (nx, ny, nz) = (x / of_int nx, y / of_int ny, z / of_int nz)"

text \<open>
  \<open>np.rint\<close> (ties go to an even neighbour there; a tie is half a step off and refused) and the distance to it.
\<close>

fun rint :: "rvec \<Rightarrow> ivec" where
  "rint (x, y, z) = (round x, round y, round z)"

fun off_grid :: "rvec \<Rightarrow> real" where
  "off_grid (x, y, z) = max \<bar>x - of_int (round x)\<bar> (max \<bar>y - of_int (round y)\<bar> \<bar>z - of_int (round z)\<bar>)"

definition mesh_tol :: real where
  "mesh_tol = 1 / 10 ^ 10"

fun elementary :: "ivec \<Rightarrow> bool" where
  "elementary (x, y, z) \<longleftrightarrow> \<bar>x\<bar> + \<bar>y\<bar> + \<bar>z\<bar> = 1"

datatype edge_error =
    EdgeGrid ivec
  | NoOperationRows
  | TrsLayout nat int
  | TrsRows
  | NoSteps
  | NotElementary nat ivec
  | DuplicateSteps
  | StepOffGrid nat ivec rvec
  | StepLeaves nat ivec ivec
  | MissesGrid nat real
  | NotBijective nat nat nat
  | PointTableShape nat nat nat
  | SourceIds "int list"
  | SourceDuplicates "int list"
  | SourceRow nat int
  | SymmetryRow nat int
  | WrongImage nat nat
  | StartConflict nat nat nat ivec
  | EndConflict nat nat nat ivec
  | NoImage nat nat ivec

definition validate_steps :: "ivec list \<Rightarrow> (edge_error, ivec list) result" where
  "validate_steps steps =
     (if steps = [] then Inl NoSteps
      else case first_hit (\<lambda>v. \<not> elementary v) steps of
        Some bad \<Rightarrow> Inl (NotElementary bad (steps ! bad))
      | None \<Rightarrow> if \<not> distinct steps then Inl DuplicateSteps else Inr steps)"

definition signed_closure :: "ivec list \<Rightarrow> ivec list" where
  "signed_closure steps = fold (\<lambda>v rows. if v \<in> set rows then rows else rows @ [v]) (steps @ map vneg steps) []"

definition shifted_image :: "ivec \<Rightarrow> rvec \<Rightarrow> imat \<Rightarrow> ivec \<Rightarrow> rvec" where
  "shifted_image kg shift s v = rsub (times_grid (rmat_vec s (over_grid (radd (of_ivec v) shift) kg)) kg) shift"

definition grid_permutation :: "ivec \<Rightarrow> rvec \<Rightarrow> nat \<Rightarrow> imat \<Rightarrow> (edge_error, nat list) result" where
  "grid_permutation kg shift isym s =
     (let raw = map (shifted_image kg shift s) (grid_rows kg); residual = Max (off_grid ` set raw)
      in if mesh_tol < residual then Inl (MissesGrid isym residual)
         else
           let ids = map nat (flat_ids kg (map rint raw))
           in if card (set ids) \<noteq> length raw then Inl (NotBijective isym (card (set ids)) (length raw))
              else Inr ids)"

definition shifted_grid_permutations :: "ivec \<Rightarrow> rvec \<Rightarrow> imat list \<Rightarrow> (edge_error, nat list list) result" where
  "shifted_grid_permutations kg shift syms = mapE (\<lambda>(isym, s). grid_permutation kg shift isym s) (enumerate 0 syms)"

definition raw_step :: "ivec \<Rightarrow> imat \<Rightarrow> ivec \<Rightarrow> rvec" where
  "raw_step kg s step = times_grid (rmat_vec s (over_grid (of_ivec step) kg)) kg"

definition mapped_step :: "ivec \<Rightarrow> nat \<Rightarrow> imat \<Rightarrow> ivec \<Rightarrow> (edge_error, ivec) result" where
  "mapped_step kg isym s step =
     (let raw = raw_step kg s step
      in if mesh_tol < off_grid raw then Inl (StepOffGrid isym step raw) else Inr (rint raw))"

text \<open>The row each mesh point reaches by one step.\<close>

definition shifted_rows :: "ivec \<Rightarrow> ivec \<Rightarrow> nat list" where
  "shifted_rows kg step = map nat (flat_ids kg (map (\<lambda>v. vadd v step) (grid_rows kg)))"

section \<open>Steps\<close>

lemma signed_closure_set: "set (signed_closure steps) = set steps \<union> vneg ` set steps"
  and signed_closure_distinct: "distinct (signed_closure steps)"
proof -
  have "set (fold (\<lambda>v rows. if v \<in> set rows then rows else rows @ [v]) vs acc) = set acc \<union> set vs \<and>
      (distinct acc \<longrightarrow> distinct (fold (\<lambda>v rows. if v \<in> set rows then rows else rows @ [v]) vs acc))" for vs acc :: "ivec list"
    by (induction vs arbitrary: acc) auto
  from this [of "steps @ map vneg steps" "[]"]
  show "set (signed_closure steps) = set steps \<union> vneg ` set steps" "distinct (signed_closure steps)"
    by (auto simp: signed_closure_def)
qed

lemma validate_steps_Inr: "validate_steps steps = Inr out \<longleftrightarrow>
    out = steps \<and> steps \<noteq> [] \<and> distinct steps \<and> (\<forall>v\<in>set steps. elementary v)"
  by (auto simp: validate_steps_def first_hit_Some split: option.splits)

section \<open>Rounding under the tolerance\<close>

definition near :: "rvec \<Rightarrow> ivec \<Rightarrow> bool" where
  "near x v = (case (x, v) of ((a, b, c), (i, j, k)) \<Rightarrow>
     \<bar>a - of_int i\<bar> \<le> mesh_tol \<and> \<bar>b - of_int j\<bar> \<le> mesh_tol \<and> \<bar>c - of_int k\<bar> \<le> mesh_tol)"

lemma near_rint: "\<not> mesh_tol < off_grid x \<Longrightarrow> near x (rint x)"
  by (cases x) (simp add: near_def not_less)

text \<open>Sums of rounded vectors round to the sum: three tolerances are still below one step.\<close>

lemma near_add:
  assumes "near x u" "near y v" "near (radd x y) w"
  shows "w = vadd u v"
proof -
  have one: "k = i + j" if "\<bar>a - of_int i\<bar> \<le> mesh_tol" "\<bar>b - of_int j\<bar> \<le> mesh_tol" "\<bar>(a + b) - of_int k\<bar> \<le> mesh_tol"
    for a b :: real and i j k :: int
  proof -
    have "\<bar>of_int (k - (i + j))\<bar> \<le> 3 * mesh_tol" using that by simp
    also have "\<dots> < 1" by (simp add: mesh_tol_def)
    finally have "\<bar>of_int (k - (i + j))\<bar> < (1 :: real)" .
    then have "\<bar>k - (i + j)\<bar> < 1" by (metis of_int_abs of_int_less_1_iff)
    then show ?thesis by simp
  qed
  obtain a b c where x: "x = (a, b, c)" by (cases x)
  obtain d e f where y: "y = (d, e, f)" by (cases y)
  obtain u1 u2 u3 where u: "u = (u1, u2, u3)" by (cases u)
  obtain v1 v2 v3 where v: "v = (v1, v2, v3)" by (cases v)
  obtain w1 w2 w3 where w: "w = (w1, w2, w3)" by (cases w)
  note cs = assms [unfolded near_def x y u v w, simplified]
  show ?thesis using one [of a u1 d v1 w1] one [of b u2 e v2 w2] one [of c u3 f v3 w3] cs by (simp add: u v w)
qed

lemma near_shift: "near x u \<Longrightarrow> near (radd x (of_ivec z)) (vadd u z)"
  by (cases x; cases u; cases z) (simp add: near_def)

section \<open>Images move along with a step\<close>

lemma raw_step_add: "grid_ok kg \<Longrightarrow> vadd v d = vadd w (vmul q kg) \<Longrightarrow>
  radd (shifted_image kg shift s v) (raw_step kg s d) = radd (shifted_image kg shift s w) (of_ivec (vmul kg (mat_vec s q)))"
proof -
  assume ok: "grid_ok kg" and e: "vadd v d = vadd w (vmul q kg)"
  obtain nx ny nz where kg: "kg = (nx, ny, nz)" by (cases kg)
  obtain s1 s2 s3 s4 s5 s6 s7 s8 s9 where s: "s = ((s1, s2, s3), (s4, s5, s6), (s7, s8, s9))" by (cases s) auto
  obtain a b c where sh: "shift = (a, b, c)" by (cases shift)
  obtain v1 v2 v3 where v: "v = (v1, v2, v3)" by (cases v)
  obtain d1 d2 d3 where d: "d = (d1, d2, d3)" by (cases d)
  obtain w1 w2 w3 where w: "w = (w1, w2, w3)" by (cases w)
  obtain q1 q2 q3 where q: "q = (q1, q2, q3)" by (cases q)
  have n: "real_of_int nx \<noteq> 0" "real_of_int ny \<noteq> 0" "real_of_int nz \<noteq> 0" using ok by (simp_all add: kg)
  have "real_of_int (v1 + d1) = of_int (w1 + q1 * nx)" "real_of_int (v2 + d2) = of_int (w2 + q2 * ny)"
    "real_of_int (v3 + d3) = of_int (w3 + q3 * nz)" using e by (simp_all only: v d w q kg vadd.simps vmul.simps prod.inject)
  then have r: "(of_int v1 + a) / of_int nx + of_int d1 / of_int nx = (of_int w1 + a) / of_int nx + of_int q1"
    "(of_int v2 + b) / of_int ny + of_int d2 / of_int ny = (of_int w2 + b) / of_int ny + of_int q2"
    "(of_int v3 + c) / of_int nz + of_int d3 / of_int nz = (of_int w3 + c) / of_int nz + of_int q3"
    using n by (simp_all add: field_simps)
  have row: "(of_int i * x + of_int j * y + of_int k * z) * n - t + (of_int i * x' + of_int j * y' + of_int k * z') * n =
      (of_int i * x'' + of_int j * y'' + of_int k * z'') * n - t + n * (of_int i * of_int q1 + of_int j * of_int q2 + of_int k * of_int q3)"
    if "x + x' = x'' + of_int q1" "y + y' = y'' + of_int q2" "z + z' = z'' + of_int q3"
    for i j k :: int and x y z x' y' z' x'' y'' z'' n t :: real
  proof -
    have "(of_int i * x + of_int j * y + of_int k * z) * n - t + (of_int i * x' + of_int j * y' + of_int k * z') * n =
        (of_int i * (x + x') + of_int j * (y + y') + of_int k * (z + z')) * n - t" by (simp add: algebra_simps)
    then show ?thesis unfolding that by (simp add: algebra_simps)
  qed
  show ?thesis
    by (simp only: kg s sh v d w q shifted_image_def raw_step_def radd.simps rsub.simps of_ivec.simps rmat_vec.simps rdot.simps
        times_grid.simps over_grid.simps vmul.simps mat_vec.simps vdot.simps of_int_add of_int_mult row [OF r])
qed

lemma grid_permutation_Inr:
  assumes "grid_permutation kg shift isym s = Inr ids" "grid_ok kg" "i < nat (grid_size kg)"
  shows "ids ! i = nat (flat_key kg (vmod (rint (shifted_image kg shift s (unravel kg (int i)))) kg))"
    and "near (shifted_image kg shift s (unravel kg (int i))) (rint (shifted_image kg shift s (unravel kg (int i))))"
    and "ids ! i < nat (grid_size kg)" "length ids = nat (grid_size kg)" "distinct ids"
proof -
  let ?raw = "map (shifted_image kg shift s) (grid_rows kg)"
  have len: "length (grid_rows kg) = nat (grid_size kg)" by (rule grid_rows_length [OF assms(2)])
  have row: "grid_rows kg ! i = unravel kg (int i)" using grid_rows_nth [OF assms(2), of "int i"] assms(3) by simp
  have res: "\<not> mesh_tol < Max (off_grid ` set ?raw)" and ids: "ids = map nat (flat_ids kg (map rint ?raw))" and card: "card (set ids) = length ?raw"
    using assms(1) by (auto simp: grid_permutation_def Let_def split: if_splits)
  show i: "ids ! i = nat (flat_key kg (vmod (rint (shifted_image kg shift s (unravel kg (int i)))) kg))"
    using assms(3) len row by (simp add: ids flat_ids_def)
  show "length ids = nat (grid_size kg)" using len by (simp add: ids flat_ids_def)
  then show "distinct ids" using card len by (simp add: card_distinct)
  have "shifted_image kg shift s (unravel kg (int i)) \<in> set ?raw" using assms(3) len row by (metis length_map nth_map nth_mem)
  then have "off_grid (shifted_image kg shift s (unravel kg (int i))) \<le> Max (off_grid ` set ?raw)" by (intro Max_ge) auto
  then show "near (shifted_image kg shift s (unravel kg (int i))) (rint (shifted_image kg shift s (unravel kg (int i))))"
    using res by (intro near_rint) simp
  show "ids ! i < nat (grid_size kg)" using key_range [OF vmod_in [OF assms(2)]] grid_size_pos [OF assms(2)] by (simp add: i nat_less_iff)
qed

lemma shifted_rows_nth:
  assumes "grid_ok kg" "i < nat (grid_size kg)"
  shows "shifted_rows kg d ! i = nat (flat_key kg (vmod (vadd (unravel kg (int i)) d) kg))" "shifted_rows kg d ! i < nat (grid_size kg)"
    "unravel kg (int (shifted_rows kg d ! i)) = vmod (vadd (unravel kg (int i)) d) kg" "length (shifted_rows kg d) = nat (grid_size kg)"
proof -
  have row: "grid_rows kg ! i = unravel kg (int i)" using grid_rows_nth [OF assms(1), of "int i"] assms(2) by simp
  show n: "shifted_rows kg d ! i = nat (flat_key kg (vmod (vadd (unravel kg (int i)) d) kg))"
    using assms(2) grid_rows_length [OF assms(1)] row by (simp add: shifted_rows_def flat_ids_def)
  have r: "0 \<le> flat_key kg (vmod (vadd (unravel kg (int i)) d) kg)" using key_range [OF vmod_in [OF assms(1)]] by simp
  show "shifted_rows kg d ! i < nat (grid_size kg)" using key_range [OF vmod_in [OF assms(1)]] grid_size_pos [OF assms(1)] by (simp add: n nat_less_iff)
  show "unravel kg (int (shifted_rows kg d ! i)) = vmod (vadd (unravel kg (int i)) d) kg"
    using r unravel_key [OF vmod_in [OF assms(1)]] by (simp add: n)
  show "length (shifted_rows kg d) = nat (grid_size kg)" using grid_rows_length [OF assms(1)] by (simp add: shifted_rows_def flat_ids_def)
qed

text \<open>Stepping back undoes a step.\<close>

lemma shifted_rows_back:
  assumes "grid_ok kg" "i < nat (grid_size kg)"
  shows "shifted_rows kg (vneg d) ! (shifted_rows kg d ! i) = i"
proof -
  note a = shifted_rows_nth [OF assms, of d]
  have i: "0 \<le> int i" "int i < grid_size kg" using assms(2) by simp_all
  have "vmod (vadd (vmod (vadd (unravel kg (int i)) d) kg) (vneg d)) kg = unravel kg (int i)"
    using unravel_in [OF assms(1) i] by simp
  then show ?thesis
    using shifted_rows_nth(1) [OF assms(1) a(2), of "vneg d"] a(3) key_unravel [OF assms(1) i] by simp
qed

lemma permutation_step:
  assumes "grid_permutation kg shift isym s = Inr ids" "mapped_step kg isym' s d = Inr m" "grid_ok kg" "i < nat (grid_size kg)"
  shows "ids ! (shifted_rows kg d ! i) = shifted_rows kg m ! (ids ! i)"
proof -
  note p = grid_permutation_Inr [OF assms(1,3)]
  note sh = shifted_rows_nth [OF assms(3,4), of d]
  let ?v = "unravel kg (int i)"
  let ?w = "vmod (vadd ?v d) kg" and ?q = "vdiv (vadd ?v d) kg"
  let ?R = "\<lambda>v. rint (shifted_image kg shift s v)"
  have m: "near (raw_step kg s d) m"
    using assms(2) near_rint [of "raw_step kg s d"] by (auto simp: mapped_step_def Let_def simp del: rint.simps off_grid.simps split: if_splits)
  have w: "near (shifted_image kg shift s ?w) (?R ?w)" using p(2) [OF sh(2)] by (simp only: sh(3))
  have "radd (shifted_image kg shift s ?v) (raw_step kg s d) = radd (shifted_image kg shift s ?w) (of_ivec (vmul kg (mat_vec s ?q)))"
    by (rule raw_step_add [OF assms(3)]) (simp add: vdiv_vmod)
  then have "near (radd (shifted_image kg shift s ?v) (raw_step kg s d)) (vadd (?R ?w) (vmul kg (mat_vec s ?q)))"
    using near_shift [OF w] by simp
  from near_add [OF p(2) [OF assms(4)] m this]
  have e: "vadd (?R ?w) (vmul kg (mat_vec s ?q)) = vadd (?R ?v) m" .
  have drop: "vmod (vadd a (vmul kg b)) kg = vmod a kg" for a b by (cases a; cases b; cases kg) simp
  have img: "vmod (?R ?w) kg = vmod (vadd (vmod (?R ?v) kg) m) kg" using drop e by (metis vmod_vadd(1))
  have at: "unravel kg (int (ids ! i)) = vmod (?R ?v) kg"
    using p(1) [OF assms(4)] unravel_key [OF vmod_in [OF assms(3)]] key_range [OF vmod_in [OF assms(3)]] by simp
  show ?thesis
    using p(1) [OF sh(2)] shifted_rows_nth(1) [OF assms(3) p(3) [OF assms(4)], of m] img by (simp only: sh(3) at)
qed

section \<open>Reversed and exact steps\<close>

lemma near_rint_iff: "near x v \<longleftrightarrow> rint x = v \<and> \<not> mesh_tol < off_grid x"
proof
  assume n: "near x v"
  have half: "mesh_tol < 1 / 2" by (simp add: mesh_tol_def)
  obtain a b c i j k where x: "x = (a, b, c)" "v = (i, j, k)" by (cases x; cases v)
  have "\<bar>a - of_int i\<bar> < 1 / 2" "\<bar>b - of_int j\<bar> < 1 / 2" "\<bar>c - of_int k\<bar> < 1 / 2"
    using n half by (simp_all add: near_def x)
  then have "round a = i" "round b = j" "round c = k" using round_unique' by blast+
  then show "rint x = v \<and> \<not> mesh_tol < off_grid x" using n by (simp add: near_def x not_less)
qed (use near_rint [of x] in blast)

lemma mapped_step_Inr: "mapped_step kg isym s d = Inr m \<longleftrightarrow> near (raw_step kg s d) m"
  by (auto simp: mapped_step_def Let_def near_rint_iff)

lemma near_vneg: "near x v \<Longrightarrow> near (rsub (0, 0, 0) x) (vneg v)"
  by (cases x; cases v) (auto simp: near_def abs_le_iff)

lemma raw_step_vneg: "raw_step kg s (vneg d) = rsub (0, 0, 0) (raw_step kg s d)"
proof -
  obtain nx ny nz where kg: "kg = (nx, ny, nz)" by (cases kg)
  obtain s1 s2 s3 s4 s5 s6 s7 s8 s9 where s: "s = ((s1, s2, s3), (s4, s5, s6), (s7, s8, s9))" by (cases s) auto
  obtain d1 d2 d3 where d: "d = (d1, d2, d3)" by (cases d)
  show ?thesis by (simp add: kg s d raw_step_def algebra_simps)
qed

lemma mapped_step_vneg: "mapped_step kg isym s d = Inr m \<Longrightarrow> mapped_step kg isym s (vneg d) = Inr (vneg m)"
  using near_vneg by (simp add: mapped_step_Inr raw_step_vneg)

text \<open>
  On a mesh of at most \<open>2 ^ 31\<close> points the image of an elementary step that passes the tolerance is exact: it is
  a fraction over one extent, and the tolerance is smaller than the least such fraction.
\<close>

lemma elementary_cases:
  assumes "elementary d"
  shows "d = (1, 0, 0) \<or> d = (- 1, 0, 0) \<or> d = (0, 1, 0) \<or> d = (0, - 1, 0) \<or> d = (0, 0, 1) \<or> d = (0, 0, - 1)"
proof -
  obtain a b c where d: "d = (a, b, c)" by (cases d)
  then have one: "\<bar>a\<bar> + \<bar>b\<bar> + \<bar>c\<bar> = 1" using assms by simp
  then have "a = 0 \<or> a = 1 \<or> a = - 1" "b = 0 \<or> b = 1 \<or> b = - 1" "c = 0 \<or> c = 1 \<or> c = - 1" by linarith+
  then show ?thesis using one by (elim disjE) (simp_all add: d)
qed

lemma near_fraction:
  assumes "0 < n" "n \<le> 2 ^ 31" "\<bar>real_of_int p / of_int n - of_int i\<bar> \<le> mesh_tol"
  shows "real_of_int p / of_int n = of_int i"
proof -
  have n: "0 < real_of_int n" using assms(1) by simp
  have "\<bar>real_of_int p / of_int n - of_int i\<bar> * of_int n = \<bar>(real_of_int p / of_int n - of_int i) * of_int n\<bar>"
    unfolding abs_mult using n by simp
  also have "(real_of_int p / of_int n - of_int i) * of_int n = of_int (p - i * n)" using n by (simp add: field_simps)
  finally have "\<bar>real_of_int (p - i * n)\<bar> \<le> mesh_tol * of_int n" using assms(3) n by (metis mult_right_mono order_less_imp_le)
  also have "\<dots> \<le> mesh_tol * 2 ^ 31" using assms(2) by (intro mult_left_mono) (auto simp: mesh_tol_def)
  also have "\<dots> < 1" by (simp add: mesh_tol_def)
  finally have "\<bar>p - i * n\<bar> < 1" by (metis of_int_abs of_int_less_1_iff)
  then have "p = i * n" by simp
  then show ?thesis using n by simp
qed

lemma near_exact:
  assumes "grid_ok kg" "grid_size kg \<le> 2 ^ 31" "elementary d" "near (raw_step kg s d) m"
  shows "raw_step kg s d = of_ivec m"
proof -
  obtain nx ny nz where kg: "kg = (nx, ny, nz)" by (cases kg)
  obtain s1 s2 s3 s4 s5 s6 s7 s8 s9 where s: "s = ((s1, s2, s3), (s4, s5, s6), (s7, s8, s9))" by (cases s) auto
  obtain i j k where m: "m = (i, j, k)" by (cases m)
  have pos: "1 \<le> nx" "1 \<le> ny" "1 \<le> nz" using assms(1) by (simp_all add: kg)
  have ge: "1 \<le> a * b" if "1 \<le> a" "1 \<le> b" for a b :: int using mult_mono [OF that] that by simp
  have "nx * 1 \<le> nx * (ny * nz)" "ny * 1 \<le> ny * (nx * nz)" "nz * 1 \<le> nz * (nx * ny)"
    using pos ge by (auto intro!: mult_left_mono simp del: mult_1_right)
  then have le: "nx \<le> 2 ^ 31" "ny \<le> 2 ^ 31" "nz \<le> 2 ^ 31" using assms(2) by (simp_all add: kg ac_simps)
  note x = near_fraction [of nx] and y = near_fraction [of ny] and z = near_fraction [of nz]
  consider "d = (1, 0, 0)" | "d = (- 1, 0, 0)" | "d = (0, 1, 0)" | "d = (0, - 1, 0)" | "d = (0, 0, 1)" | "d = (0, 0, - 1)"
    using elementary_cases [OF assms(3)] by blast
  then show ?thesis
  proof cases
    case 1
    then show ?thesis using assms(4) pos le x [of "s1 * nx" i] x [of "s4 * ny" j] x [of "s7 * nz" k]
      by (simp add: kg s m raw_step_def near_def)
  next
    case 2
    then show ?thesis using assms(4) pos le x [of "- s1 * nx" i] x [of "- s4 * ny" j] x [of "- s7 * nz" k]
      by (simp add: kg s m raw_step_def near_def)
  next
    case 3
    then show ?thesis using assms(4) pos le y [of "s2 * nx" i] y [of "s5 * ny" j] y [of "s8 * nz" k]
      by (simp add: kg s m raw_step_def near_def)
  next
    case 4
    then show ?thesis using assms(4) pos le y [of "- s2 * nx" i] y [of "- s5 * ny" j] y [of "- s8 * nz" k]
      by (simp add: kg s m raw_step_def near_def)
  next
    case 5
    then show ?thesis using assms(4) pos le z [of "s3 * nx" i] z [of "s6 * ny" j] z [of "s9 * nz" k]
      by (simp add: kg s m raw_step_def near_def)
  next
    case 6
    then show ?thesis using assms(4) pos le z [of "- s3 * nx" i] z [of "- s6 * ny" j] z [of "- s9 * nz" k]
      by (simp add: kg s m raw_step_def near_def)
  qed
qed

text \<open>An operation with an inverse gives different steps different images.\<close>

lemma raw_step_inverse:
  assumes "grid_ok kg" "mat_mul t s = mat_id" "raw_step kg s d = raw_step kg s e"
  shows "d = e"
proof -
  obtain nx ny nz where kg: "kg = (nx, ny, nz)" by (cases kg)
  have n: "real_of_int nx \<noteq> 0" "real_of_int ny \<noteq> 0" "real_of_int nz \<noteq> 0" using assms(1) by (simp_all add: kg)
  have cancel: "x = y" if "times_grid x kg = times_grid y kg" for x y
    using that n by (cases x; cases y) (simp add: kg)
  have over: "a = b" if "over_grid (of_ivec a) kg = over_grid (of_ivec b) kg" for a b
    using that n by (cases a; cases b) (simp add: kg)
  have mul: "rmat_vec t (rmat_vec s x) = rmat_vec (mat_mul t s) x" for x
  proof -
    obtain s1 s2 s3 s4 s5 s6 s7 s8 s9 where s: "s = ((s1, s2, s3), (s4, s5, s6), (s7, s8, s9))" by (cases s) auto
    obtain t1 t2 t3 t4 t5 t6 t7 t8 t9 where t: "t = ((t1, t2, t3), (t4, t5, t6), (t7, t8, t9))" by (cases t) auto
    obtain x1 x2 x3 where x: "x = (x1, x2, x3)" by (cases x)
    show ?thesis by (simp add: s t x Let_def algebra_simps)
  qed
  have "rmat_vec mat_id x = x" for x by (cases x) (simp add: mat_id_def)
  then show ?thesis
    using assms(3) cancel [of "rmat_vec s (over_grid (of_ivec d) kg)" "rmat_vec s (over_grid (of_ivec e) kg)"] mul assms(2) over
    by (metis raw_step_def)
qed

lemma mapped_step_inj:
  assumes "grid_ok kg" "grid_size kg \<le> 2 ^ 31" "mat_mul t s = mat_id" "elementary d" "elementary e"
    and "mapped_step kg i s d = Inr m" "mapped_step kg i s e = Inr m"
  shows "d = e"
  using raw_step_inverse [OF assms(1,3)] near_exact [OF assms(1,2)] assms(4-7) by (metis mapped_step_Inr)

end
