(* ===== verification/DirectedEdges.thy ===== *)
theory DirectedEdges
  imports GridSteps BandAction
begin

text \<open>
  \<open>directed_edge_orbit_table\<close> of \<open>services/symmetry_maps/src/symmetry_maps/directed_edges.py\<close>, and its use in
  \<open>src/file_io/parallel_transport.py\<close>: links between neighbouring k points are stored for the irreducible
  points and a few directions only; the table says, for every point and direction of the full mesh, which
  stored link is its image, under which operation, and whether it runs backwards.

  The dictionary of arrays is a table of records, one per point and direction, with the arrays derived from
  it. Point tables are integer lists as they are passed; the checks turn them into positions.
\<close>

section \<open>The code\<close>

record edge =
  ed_source_row :: nat
  ed_source_direction :: nat
  ed_sym_idx :: nat
  ed_reverse :: bool
  ed_stored_start :: nat
  ed_stored_end :: nat
  ed_target_start :: nat
  ed_target_end :: nat
  ed_source_step :: ivec

record edge_table =
  et_rows :: "edge list list"
  et_source_steps :: "ivec list"
  et_target_steps :: "ivec list"
  et_n_spatial :: nat

definition ed_antiunitary :: "edge_table \<Rightarrow> edge \<Rightarrow> bool" where
  "ed_antiunitary T e \<longleftrightarrow> et_n_spatial T \<le> ed_sym_idx e"

definition ed_source_start :: "edge \<Rightarrow> nat" where
  "ed_source_start e = (if ed_reverse e then ed_stored_end e else ed_stored_start e)"

definition ed_source_end :: "edge \<Rightarrow> nat" where
  "ed_source_end e = (if ed_reverse e then ed_stored_start e else ed_stored_end e)"

text \<open>What the loops over points and directions read.\<close>

record edge_maps =
  em_irr :: "nat list"
  em_sym :: "nat list"
  em_source :: "nat list"
  em_perms :: "nat list list"
  em_mapped :: "ivec list list"
  em_steps :: "ivec list"
  em_shifted :: "nat list list"

text \<open>The stored links whose image leaves \<open>start\<close> by the step \<open>want\<close> and arrives at \<open>hit\<close>.\<close>

definition edge_images :: "edge_maps \<Rightarrow> nat \<Rightarrow> ivec \<Rightarrow> nat \<Rightarrow> (nat \<times> nat \<times> nat \<times> nat \<times> nat) list" where
  "edge_images M start want hit =
     (let row = em_irr M ! start; isym = em_sym M ! start; src = em_source M ! row
      in map (\<lambda>j. (row, j, isym, src, em_shifted M ! j ! src))
           (filter (\<lambda>j. em_mapped M ! isym ! j = want \<and> em_perms M ! isym ! (em_shifted M ! j ! src) = hit) [0..<length (em_steps M)]))"

definition make_edge :: "edge_maps \<Rightarrow> nat \<Rightarrow> nat \<Rightarrow> bool \<Rightarrow> nat \<times> nat \<times> nat \<times> nat \<times> nat \<Rightarrow> edge" where
  "make_edge M target end_row back' c = (case c of (row, j, isym, src_start, src_end) \<Rightarrow>
     \<lparr>ed_source_row = row, ed_source_direction = j, ed_sym_idx = isym, ed_reverse = back', ed_stored_start = src_start,
      ed_stored_end = src_end, ed_target_start = target, ed_target_end = end_row,
      ed_source_step = (if back' then vneg (em_steps M ! j) else em_steps M ! j)\<rparr>)"

definition target_edge :: "edge_maps \<Rightarrow> nat \<Rightarrow> ivec \<Rightarrow> nat \<Rightarrow> (edge_error, edge) result" where
  "target_edge M target target_step end_row =
     (let forward = edge_images M target target_step end_row
      in if 1 < length forward then Inl (StartConflict (length forward) target end_row target_step)
         else if forward \<noteq> [] then Inr (make_edge M target end_row False (hd forward))
         else
           let backward = edge_images M end_row (vneg target_step) target
           in if 1 < length backward then Inl (EndConflict (length backward) target end_row target_step)
              else if backward = [] then Inl (NoImage target end_row target_step)
              else Inr (make_edge M target end_row True (hd backward)))"

text \<open>The images of the stored steps, which must stay among the stored steps up to a sign.\<close>

definition source_images :: "ivec \<Rightarrow> imat list \<Rightarrow> ivec list \<Rightarrow> (edge_error, ivec list list) result" where
  "source_images kg syms steps =
     mapE (\<lambda>(isym, s). mapE (\<lambda>step. andthen (mapped_step kg isym s step) (\<lambda>m.
         if m \<in> set (signed_closure steps) then Inr m else Inl (StepLeaves isym step m))) steps) (enumerate 0 syms)"

text \<open>The checks on the point tables.\<close>

definition check_points :: "nat \<Rightarrow> nat \<Rightarrow> nat list list \<Rightarrow> int list \<Rightarrow> int list \<Rightarrow> int list \<Rightarrow> (edge_error, unit) result" where
  "check_points nk n_sym perms irr sidx src =
     (if length irr \<noteq> nk \<or> length sidx \<noteq> nk then Inl (PointTableShape (length irr) (length sidx) nk)
      else if src = [] \<or> (\<exists>i\<in>set src. i < 0 \<or> int nk \<le> i) then Inl (SourceIds src)
      else if \<not> distinct src then Inl (SourceDuplicates src)
      else case first_hit (\<lambda>r. r < 0 \<or> int (length src) \<le> r) irr of
        Some bad \<Rightarrow> Inl (SourceRow bad (irr ! bad))
      | None \<Rightarrow> (case first_hit (\<lambda>s. s < 0 \<or> int n_sym \<le> s) sidx of
          Some bad \<Rightarrow> Inl (SymmetryRow bad (sidx ! bad))
        | None \<Rightarrow>
            let images = map (\<lambda>k. perms ! nat (sidx ! k) ! nat (src ! nat (irr ! k))) [0..<nk]
            in case first_hit (\<lambda>k. images ! k \<noteq> k) [0..<nk] of
                 Some bad \<Rightarrow> Inl (WrongImage bad (images ! bad))
               | None \<Rightarrow> Inr ()))"

definition directed_edge_orbit_table ::
    "ivec \<Rightarrow> rvec \<Rightarrow> imat list \<Rightarrow> int list \<Rightarrow> int list \<Rightarrow> int list \<Rightarrow> ivec list \<Rightarrow> int \<Rightarrow> ivec list option \<Rightarrow>
     (edge_error, edge_table) result" where
  "directed_edge_orbit_table kg shift syms irr sidx src source_steps nss target_steps =
     (if \<not> grid_ok kg then Inl (EdgeGrid kg)
      else if syms = [] then Inl NoOperationRows
      else if nss \<le> 0 \<or> int (length syms) \<noteq> nss \<and> int (length syms) \<noteq> 2 * nss then Inl (TrsLayout (length syms) nss)
      else if int (length syms) = 2 * nss \<and> drop (nat nss) syms \<noteq> map mat_neg (take (nat nss) syms) then Inl TrsRows
      else
        andthen (validate_steps source_steps) (\<lambda>steps.
        andthen (case target_steps of None \<Rightarrow> Inr (signed_closure steps) | Some ts \<Rightarrow> validate_steps ts) (\<lambda>targets.
        andthen (source_images kg syms steps) (\<lambda>mapped.
        andthen (shifted_grid_permutations kg shift syms) (\<lambda>perms.
          let nk = nat (grid_size kg)
          in andthen (check_points nk (length syms) perms irr sidx src) (\<lambda>_.
               let M = \<lparr>em_irr = map nat irr, em_sym = map nat sidx, em_source = map nat src, em_perms = perms,
                        em_mapped = mapped, em_steps = steps, em_shifted = map (shifted_rows kg) steps\<rparr>;
                   shifted_by_target = map (shifted_rows kg) targets
               in andthen (mapE (\<lambda>target. mapE (\<lambda>d. target_edge M target (targets ! d) (shifted_by_target ! d ! target))
                      [0..<length targets]) [0..<nk]) (\<lambda>rows.
                    Inr \<lparr>et_rows = rows, et_source_steps = steps, et_target_steps = targets, et_n_spatial = nat nss\<rparr>)))))))"

text \<open>
  The unfold of \<open>parallel_transport.py\<close>: gather the stored links and act on them, points and directions read
  as one batch axis.
\<close>

definition unfold_links :: "cmat list list \<Rightarrow> edge_table \<Rightarrow> (action_error, band_array) result" where
  "unfold_links links T =
     (let es = concat (et_rows T)
      in apply_band_matrix_symmetry (map (\<lambda>e. [links ! ed_source_row e ! ed_source_direction e]) es)
           (Flags (map (ed_antiunitary T) es)) (Flags (map ed_reverse es)) None None NoMix)"

section \<open>What a built table rests on\<close>

text \<open>The facts the checks leave behind, and one lookup per point and direction.\<close>

definition edge_maps_ok :: "ivec \<Rightarrow> rvec \<Rightarrow> imat list \<Rightarrow> edge_maps \<Rightarrow> bool" where
  "edge_maps_ok kg shift syms M \<longleftrightarrow> grid_ok kg \<and> (\<forall>v\<in>set (em_steps M). elementary v) \<and> distinct (em_steps M) \<and>
     length (em_perms M) = length syms \<and> (\<forall>s<length syms. grid_permutation kg shift s (syms ! s) = Inr (em_perms M ! s)) \<and>
     (\<forall>s<length syms. \<forall>j<length (em_steps M). mapped_step kg s (syms ! s) (em_steps M ! j) = Inr (em_mapped M ! s ! j) \<and>
        em_mapped M ! s ! j \<in> set (signed_closure (em_steps M))) \<and>
     em_shifted M = map (shifted_rows kg) (em_steps M) \<and>
     (\<forall>k<nat (grid_size kg). em_irr M ! k < length (em_source M) \<and> em_sym M ! k < length syms \<and>
        em_perms M ! (em_sym M ! k) ! (em_source M ! (em_irr M ! k)) = k) \<and>
     (\<forall>i\<in>set (em_source M). i < nat (grid_size kg))"

lemma source_images_Inr:
  assumes "source_images kg syms steps = Inr mapped" "s < length syms" "j < length steps"
  shows "mapped_step kg s (syms ! s) (steps ! j) = Inr (mapped ! s ! j)" "mapped ! s ! j \<in> set (signed_closure steps)"
proof -
  let ?f = "\<lambda>s step. andthen (mapped_step kg s (syms ! s) step) (\<lambda>m. if m \<in> set (signed_closure steps) then Inr m else Inl (StepLeaves s step m))"
  have "mapE (?f s) steps = Inr (mapped ! s)"
    using mapE_nth [OF assms(1) [unfolded source_images_def]] assms(2) by (simp add: nth_enumerate_eq)
  then have "?f s (steps ! j) = Inr (mapped ! s ! j)" using mapE_nth assms(3) by blast
  then show "mapped_step kg s (syms ! s) (steps ! j) = Inr (mapped ! s ! j)" "mapped ! s ! j \<in> set (signed_closure steps)"
    by (auto split: if_splits)
qed

lemma check_points_Inr:
  assumes "check_points nk n_sym perms irr sidx src = Inr u"
  shows "length irr = nk" "length sidx = nk" "\<forall>i\<in>set (map nat src). i < nk"
    and "k < nk \<Longrightarrow> map nat irr ! k < length src \<and> map nat sidx ! k < n_sym \<and>
      perms ! (map nat sidx ! k) ! (map nat src ! (map nat irr ! k)) = k"
proof -
  show len: "length irr = nk" "length sidx = nk" and "\<forall>i\<in>set (map nat src). i < nk"
    using assms by (auto simp: check_points_def nat_less_iff not_le not_less split: if_splits)
  have irr: "\<forall>r\<in>set irr. \<not> (r < 0 \<or> int (length src) \<le> r)" and sidx: "\<forall>s\<in>set sidx. \<not> (s < 0 \<or> int n_sym \<le> s)"
    and img: "\<forall>k\<in>set [0..<nk]. map (\<lambda>k. perms ! nat (sidx ! k) ! nat (src ! nat (irr ! k))) [0..<nk] ! k = k"
    using assms by (simp_all add: check_points_def Let_def first_hit_None [symmetric] split: if_splits option.splits)
  show "map nat irr ! k < length src \<and> map nat sidx ! k < n_sym \<and> perms ! (map nat sidx ! k) ! (map nat src ! (map nat irr ! k)) = k"
    if k: "k < nk"
  proof -
    have "irr ! k \<in> set irr" "sidx ! k \<in> set sidx" using k len by simp_all
    then have r: "0 \<le> irr ! k" "irr ! k < int (length src)" "0 \<le> sidx ! k" "sidx ! k < int n_sym" using irr sidx by (auto simp: not_le not_less)
    then show ?thesis using img k len by (simp add: nat_less_iff)
  qed
qed

lemma checked_maps_ok:
  assumes "grid_ok kg" "validate_steps source_steps = Inr steps" "source_images kg syms steps = Inr mapped"
    and "shifted_grid_permutations kg shift syms = Inr perms" "check_points (nat (grid_size kg)) (length syms) perms irr sidx src = Inr u"
  shows "edge_maps_ok kg shift syms \<lparr>em_irr = map nat irr, em_sym = map nat sidx, em_source = map nat src, em_perms = perms,
    em_mapped = mapped, em_steps = steps, em_shifted = map (shifted_rows kg) steps\<rparr>"
proof -
  have steps: "distinct steps" "\<forall>v\<in>set steps. elementary v" using assms(2) by (simp_all add: validate_steps_Inr)
  have perms: "length perms = length syms" "\<forall>s<length syms. grid_permutation kg shift s (syms ! s) = Inr (perms ! s)"
    using mapE_nth [OF assms(4) [unfolded shifted_grid_permutations_def]] by (simp_all add: nth_enumerate_eq)
  have points: "\<forall>k<nat (grid_size kg). map nat irr ! k < length src \<and> map nat sidx ! k < length syms \<and>
      perms ! (map nat sidx ! k) ! (map nat src ! (map nat irr ! k)) = k"
    using check_points_Inr(4) [OF assms(5)] by blast
  show ?thesis
    unfolding edge_maps_ok_def
    using assms(1) steps perms source_images_Inr [OF assms(3)] points check_points_Inr(3) [OF assms(5)] by (simp del: nth_map)
qed

lemma edge_table_run:
  assumes "directed_edge_orbit_table kg shift syms irr sidx src source_steps nss target_steps = Inr T"
  shows "\<exists>M. edge_maps_ok kg shift syms M \<and> em_steps M = source_steps \<and> em_source M = map nat src \<and>
    shifted_grid_permutations kg shift syms = Inr (em_perms M) \<and> et_source_steps T = source_steps \<and> et_n_spatial T = nat nss \<and>
    et_target_steps T = (case target_steps of None \<Rightarrow> signed_closure source_steps | Some ts \<Rightarrow> ts) \<and>
    length (et_rows T) = nat (grid_size kg) \<and>
    (\<forall>k<nat (grid_size kg). length (et_rows T ! k) = length (et_target_steps T) \<and>
      (\<forall>d<length (et_target_steps T).
        target_edge M k (et_target_steps T ! d) (shifted_rows kg (et_target_steps T ! d) ! k) = Inr (et_rows T ! k ! d)))"
proof -
  let ?nk = "nat (grid_size kg)"
  have ok: "grid_ok kg" using assms by (simp add: directed_edge_orbit_table_def split: if_splits)
  obtain steps targets mapped perms u rows where v: "validate_steps source_steps = Inr steps"
    and t: "(case target_steps of None \<Rightarrow> Inr (signed_closure steps) | Some ts \<Rightarrow> validate_steps ts) = Inr targets"
    and m: "source_images kg syms steps = Inr mapped" and p: "shifted_grid_permutations kg shift syms = Inr perms"
    and c: "check_points ?nk (length syms) perms irr sidx src = Inr u"
    and r: "mapE (\<lambda>target. mapE (\<lambda>d. target_edge
        \<lparr>em_irr = map nat irr, em_sym = map nat sidx, em_source = map nat src, em_perms = perms,
         em_mapped = mapped, em_steps = steps, em_shifted = map (shifted_rows kg) steps\<rparr> target (targets ! d)
        (map (shifted_rows kg) targets ! d ! target)) [0..<length targets]) [0..<?nk] = Inr rows"
    and T: "T = \<lparr>et_rows = rows, et_source_steps = steps, et_target_steps = targets, et_n_spatial = nat nss\<rparr>"
    using assms by (auto simp: directed_edge_orbit_table_def Let_def split: if_splits)
  let ?M = "\<lparr>em_irr = map nat irr, em_sym = map nat sidx, em_source = map nat src, em_perms = perms,
         em_mapped = mapped, em_steps = steps, em_shifted = map (shifted_rows kg) steps\<rparr>"
  have steps: "steps = source_steps" using v by (simp add: validate_steps_Inr)
  have targets: "targets = (case target_steps of None \<Rightarrow> signed_closure source_steps | Some ts \<Rightarrow> ts)"
    using t steps by (auto simp: validate_steps_Inr split: option.splits)
  have M: "edge_maps_ok kg shift syms ?M" by (rule checked_maps_ok [OF ok v m p c])
  have "\<forall>k<?nk. length (rows ! k) = length targets \<and> (\<forall>d<length targets.
      target_edge ?M k (targets ! d) (shifted_rows kg (targets ! d) ! k) = Inr (rows ! k ! d))" "length rows = ?nk"
    using mapE_nth [OF r] by (auto dest!: mapE_nth)
  then show ?thesis using M steps targets p by (intro exI [of _ ?M]) (simp add: T)
qed

lemma edge_images_set:
  "(row, j, isym, s, e) \<in> set (edge_images M start want hit) \<longleftrightarrow>
    row = em_irr M ! start \<and> isym = em_sym M ! start \<and> s = em_source M ! row \<and> e = em_shifted M ! j ! s \<and>
    j < length (em_steps M) \<and> em_mapped M ! isym ! j = want \<and> em_perms M ! isym ! e = hit"
  by (auto simp: edge_images_def Let_def)

lemma target_edge_Inr:
  assumes "target_edge M k t e = Inr d"
  obtains c where "c \<in> set (edge_images M k t e)" "d = make_edge M k e False c"
  | c where "edge_images M k t e = []" "c \<in> set (edge_images M e (vneg t) k)" "d = make_edge M k e True c"
  using assms unfolding target_edge_def Let_def by (metis Inl_Inr_False hd_in_set old.sum.inject(2))

section \<open>Every entry is the image it claims to be\<close>

text \<open>The meaning of an entry for the point \<open>k\<close> and the step \<open>t\<close>.\<close>

definition edge_exact :: "ivec \<Rightarrow> imat list \<Rightarrow> nat list list \<Rightarrow> ivec list \<Rightarrow> nat list \<Rightarrow> nat \<Rightarrow> ivec \<Rightarrow> edge \<Rightarrow> bool" where
  "edge_exact kg syms perms steps src k t e \<longleftrightarrow>
     ed_target_start e = k \<and> ed_target_end e = shifted_rows kg t ! k \<and>
     ed_source_row e < length src \<and> ed_source_direction e < length steps \<and> ed_sym_idx e < length syms \<and>
     ed_stored_start e = src ! ed_source_row e \<and>
     ed_stored_end e = shifted_rows kg (steps ! ed_source_direction e) ! ed_stored_start e \<and>
     ed_source_step e = (if ed_reverse e then vneg (steps ! ed_source_direction e) else steps ! ed_source_direction e) \<and>
     perms ! ed_sym_idx e ! ed_source_start e = k \<and> perms ! ed_sym_idx e ! ed_source_end e = ed_target_end e \<and>
     mapped_step kg (ed_sym_idx e) (syms ! ed_sym_idx e) (ed_source_step e) = Inr t"

lemma target_edge_exact:
  assumes "edge_maps_ok kg shift syms M" "k < nat (grid_size kg)" "target_edge M k t (shifted_rows kg t ! k) = Inr e"
  shows "edge_exact kg syms (em_perms M) (em_steps M) (em_source M) k t e"
proof -
  let ?e = "shifted_rows kg t ! k"
  have ok: "grid_ok kg" and sh: "em_shifted M = map (shifted_rows kg) (em_steps M)"
    and pts: "\<And>k. k < nat (grid_size kg) \<Longrightarrow> em_irr M ! k < length (em_source M) \<and> em_sym M ! k < length syms \<and>
        em_perms M ! (em_sym M ! k) ! (em_source M ! (em_irr M ! k)) = k"
    and mp: "\<And>s j. s < length syms \<Longrightarrow> j < length (em_steps M) \<Longrightarrow> mapped_step kg s (syms ! s) (em_steps M ! j) = Inr (em_mapped M ! s ! j)"
    using assms(1) by (simp_all add: edge_maps_ok_def)
  have e_lt: "?e < nat (grid_size kg)" by (rule shifted_rows_nth(2) [OF ok assms(2)])
  from assms(3) show ?thesis
  proof (cases rule: target_edge_Inr)
    case (1 c)
    obtain row j isym s x where c: "c = (row, j, isym, s, x)" by (cases c)
    have f: "row = em_irr M ! k" "isym = em_sym M ! k" "s = em_source M ! row" "x = em_shifted M ! j ! s"
        "j < length (em_steps M)" "em_mapped M ! isym ! j = t" "em_perms M ! isym ! x = ?e"
      using 1(1) unfolding c edge_images_set by blast+
    show ?thesis
      using f pts [OF assms(2)] mp [of isym j] sh
      by (simp add: edge_exact_def 1(2) c make_edge_def ed_source_start_def ed_source_end_def)
  next
    case (2 c)
    obtain row j isym s x where c: "c = (row, j, isym, s, x)" by (cases c)
    have f: "row = em_irr M ! ?e" "isym = em_sym M ! ?e" "s = em_source M ! row" "x = em_shifted M ! j ! s"
        "j < length (em_steps M)" "em_mapped M ! isym ! j = vneg t" "em_perms M ! isym ! x = k"
      using 2(2) unfolding c edge_images_set by blast+
    have "mapped_step kg isym (syms ! isym) (vneg (em_steps M ! j)) = Inr t"
      using mapped_step_vneg [OF mp [of isym j]] f pts [OF e_lt] by simp
    then show ?thesis
      using f pts [OF e_lt] sh
      by (simp add: edge_exact_def 2(3) c make_edge_def ed_source_start_def ed_source_end_def)
  qed
qed

section \<open>Unfolding a covariant link function\<close>

lemma exact_edge_link:
  assumes "edge_maps_ok kg shift syms M" "k < nat (grid_size kg)" "edge_exact kg syms (em_perms M) (em_steps M) (em_source M) k t e"
    and "\<forall>k d. cm_wf (L k d)"
    and cov: "\<forall>s<length syms. \<forall>k<nat (grid_size kg). \<forall>d\<in>set (em_steps M). \<forall>m. mapped_step kg s (syms ! s) d = Inr m \<longrightarrow>
      L (em_perms M ! s ! k) m = conj_if (ns \<le> s) (L k d)"
    and adj: "\<forall>k<nat (grid_size kg). \<forall>d. L (shifted_rows kg d ! k) (vneg d) = cm_adjoint (L k d)"
  shows "band_act (ns \<le> ed_sym_idx e) (ed_reverse e) None (L (em_source M ! ed_source_row e) (em_steps M ! ed_source_direction e)) = L k t"
proof -
  let ?s = "ed_sym_idx e" and ?d = "em_steps M ! ed_source_direction e" and ?i = "em_source M ! ed_source_row e"
  note e = assms(3) [unfolded edge_exact_def]
  have s: "?s < length syms" and d: "?d \<in> set (em_steps M)" using e by simp_all
  have i: "?i < nat (grid_size kg)" using assms(1) e by (simp add: edge_maps_ok_def)
  show ?thesis
  proof (cases "ed_reverse e")
    case False
    then have "mapped_step kg ?s (syms ! ?s) ?d = Inr t" "em_perms M ! ?s ! ?i = k" using e by (auto simp: ed_source_start_def)
    then show ?thesis using cov [rule_format, OF s i d] False by (simp add: band_act_def conj_if_def)
  next
    case True
    then have rev_step: "mapped_step kg ?s (syms ! ?s) (vneg ?d) = Inr t" and at: "em_perms M ! ?s ! ?i = shifted_rows kg t ! k"
      using e by (auto simp: ed_source_end_def)
    have "mapped_step kg ?s (syms ! ?s) ?d = Inr (vneg t)" using mapped_step_vneg [OF rev_step] by simp
    from cov [rule_format, OF s i d this] have "cm_adjoint (L k t) = conj_if (ns \<le> ?s) (L ?i ?d)"
      unfolding at adj [rule_format, OF assms(2)] .
    then have "L k t = cm_adjoint (conj_if (ns \<le> ?s) (L ?i ?d))"
      using cm_adjoint_adjoint [OF assms(4) [rule_format, of k t]] by simp
    then show ?thesis using True by (simp add: band_act_def conj_if_adjoint [symmetric]) (simp add: conj_if_def)
  qed
qed

text \<open>
  C13: Take any link function on the directed edges of the mesh that is covariant (an operation carries the link
  of an edge to the link of its image, conjugated when it is antiunitary) and whose reversed links are adjoints.
  From the links of the stored points and directions, the table and the action restore every link of the
  mesh.
\<close>

theorem edge_table_unfolds:
  assumes "directed_edge_orbit_table kg shift syms irr sidx src source_steps nss target_steps = Inr T"
    and "shifted_grid_permutations kg shift syms = Inr perms" and "\<forall>k d. cm_wf (L k d) \<and> cm_rows (L k d) = n \<and> cm_cols (L k d) = n"
    and "\<forall>s<length syms. \<forall>k<nat (grid_size kg). \<forall>d\<in>set source_steps. \<forall>m. mapped_step kg s (syms ! s) d = Inr m \<longrightarrow>
      L (perms ! s ! k) m = conj_if (nat nss \<le> s) (L k d)"
    and "\<forall>k<nat (grid_size kg). \<forall>d. L (shifted_rows kg d ! k) (vneg d) = cm_adjoint (L k d)"
  shows "unfold_links (map (\<lambda>i. map (L (nat i)) source_steps) src) T =
    Inr (concat (map (\<lambda>k. map (\<lambda>t. [L k t]) (et_target_steps T)) [0..<nat (grid_size kg)]))"
proof -
  let ?nk = "nat (grid_size kg)" and ?links = "map (\<lambda>i. map (L (nat i)) source_steps) src" and ?ts = "et_target_steps T"
  obtain M where M: "edge_maps_ok kg shift syms M" "em_steps M = source_steps" "em_source M = map nat src" "em_perms M = perms"
      "et_n_spatial T = nat nss" "length (et_rows T) = ?nk"
    and rows: "\<And>k. k < ?nk \<Longrightarrow> length (et_rows T ! k) = length ?ts \<and> (\<forall>d<length ?ts.
        target_edge M k (?ts ! d) (shifted_rows kg (?ts ! d) ! k) = Inr (et_rows T ! k ! d))"
    using edge_table_run [OF assms(1)] assms(2) by auto
  have exact: "edge_exact kg syms perms source_steps (map nat src) k (?ts ! d) (et_rows T ! k ! d)" if "k < ?nk" "d < length ?ts" for k d
    using target_edge_exact [OF M(1) that(1)] rows [OF that(1)] that(2) M(2-4) by simp
  let ?es = "concat (et_rows T)" and ?pick = "\<lambda>e. ?links ! ed_source_row e ! ed_source_direction e"
  have member: "\<exists>k d. k < ?nk \<and> d < length ?ts \<and> e = et_rows T ! k ! d" if "e \<in> set ?es" for e
    using that rows M(6) by (fastforce simp: in_set_conv_nth)
  have pick: "?pick e = L (map nat src ! ed_source_row e) (source_steps ! ed_source_direction e)" if "e \<in> set ?es" for e
    using member [OF that] exact by (auto simp: edge_exact_def)
  have sq: "square_array n (map (\<lambda>e. [?pick e]) ?es)" using pick assms(3) by (simp add: square_array_def del: set_concat split_paired_All)
  have "unfold_links ?links T = Inr (map (\<lambda>i. map (band_act (ed_antiunitary T (?es ! i)) (ed_reverse (?es ! i)) None) [?pick (?es ! i)]) [0..<length ?es])"
    using apply_rows [OF sq, of "map (ed_antiunitary T) ?es" "map ed_reverse ?es" None None]
    by (simp add: unfold_links_def Let_def sewing_ok_def sewing_at_def cong: map_cong)
  also have "map (\<lambda>i. map (band_act (ed_antiunitary T (?es ! i)) (ed_reverse (?es ! i)) None) [?pick (?es ! i)]) [0..<length ?es] =
      map (\<lambda>e. [band_act (ed_antiunitary T e) (ed_reverse e) None (?pick e)]) ?es"
    by (rule nth_equalityI) simp_all
  also have "\<dots> = concat (map (map (\<lambda>e. [band_act (ed_antiunitary T e) (ed_reverse e) None (?pick e)])) (et_rows T))"
    by (simp add: map_concat)
  also have "map (map (\<lambda>e. [band_act (ed_antiunitary T e) (ed_reverse e) None (?pick e)])) (et_rows T) =
      map (\<lambda>k. map (\<lambda>t. [L k t]) ?ts) [0..<?nk]"
  proof (rule nth_equalityI)
    show "length (map (map (\<lambda>e. [band_act (ed_antiunitary T e) (ed_reverse e) None (?pick e)])) (et_rows T)) =
        length (map (\<lambda>k. map (\<lambda>t. [L k t]) ?ts) [0..<?nk])" using M(6) by simp
    fix k assume "k < length (map (map (\<lambda>e. [band_act (ed_antiunitary T e) (ed_reverse e) None (?pick e)])) (et_rows T))"
    then have k: "k < ?nk" using M(6) by simp
    have "band_act (ed_antiunitary T e) (ed_reverse e) None (?pick e) = L k (?ts ! d)" if d: "d < length ?ts" and e: "e = et_rows T ! k ! d" for d e
    proof -
      have "e \<in> set ?es" using rows [OF k] d e k M(6) by (auto simp: set_concat intro!: bexI [of _ "et_rows T ! k"])
      then show ?thesis
        using exact_edge_link [OF M(1) k, of "?ts ! d" e L "nat nss"] exact [OF k d] assms(3-5) pick M(2-5) e
        by (simp add: ed_antiunitary_def)
    qed
    then show "map (map (\<lambda>e. [band_act (ed_antiunitary T e) (ed_reverse e) None (?pick e)])) (et_rows T) ! k =
        map (\<lambda>k. map (\<lambda>t. [L k t]) ?ts) [0..<?nk] ! k"
      using rows [OF k] k M(6) by (intro nth_equalityI) simp_all
  qed
  finally show ?thesis .
qed

text \<open>A mesh of three points with time reversal: two stored points give the links of all three.\<close>

abbreviation three_points :: "(edge_error, edge_table) result" where
  "three_points \<equiv> directed_edge_orbit_table (3, 1, 1) (0, 0, 0) [mat_id, mat_neg mat_id] [0, 1, 1] [0, 0, 1] [0, 1]
     [(1, 0, 0), (- 1, 0, 0)] 1 None"

lemma three_points_run: "case three_points of Inl _ \<Rightarrow> False | Inr T \<Rightarrow> et_target_steps T = [(1, 0, 0), (- 1, 0, 0)]"
  and three_points_perms: "shifted_grid_permutations (3, 1, 1) (0, 0, 0) [mat_id, mat_neg mat_id] = Inr [[0, 1, 2], [0, 2, 1]]"
  by code_simp+

theorem edge_table_unfolds_witness:
  "\<exists>T. three_points = Inr T \<and> unfold_links [[cm_one 1, cm_one 1], [cm_one 1, cm_one 1]] T = Inr (replicate 6 [cm_one 1])"
proof -
  obtain T where T: "three_points = Inr T" "et_target_steps T = [(1, 0, 0), (- 1, 0, 0)]"
    using three_points_run by (auto split: sum.splits)
  have three: "[0..<3] = [0, 1, 2 :: nat]" by (simp add: upt_rec)
  have six: "replicate 6 [cm_one 1] = [[cm_one 1], [cm_one 1], [cm_one 1], [cm_one 1], [cm_one 1], [cm_one 1]]"
    by (simp add: numeral_eq_Suc)
  let ?L = "[[cm_one 1, cm_one 1], [cm_one 1, cm_one 1]]"
  have "unfold_links (map (\<lambda>i. map ((\<lambda>_ _. cm_one 1) (nat i)) ([(1, 0, 0), (- 1, 0, 0)] :: ivec list)) [0, 1]) T =
      Inr (concat (map (\<lambda>k. map (\<lambda>t. [cm_one 1]) (et_target_steps T)) [0..<nat (grid_size (3, 1, 1))]))"
    by (rule edge_table_unfolds [where L = "\<lambda>_ _. cm_one 1" and n = 1, OF T(1) three_points_perms]) (simp_all add: conj_if_def)
  then have "unfold_links ?L T = Inr (replicate 6 [cm_one 1])" unfolding six by (simp add: T(2) three)
  then show ?thesis using T(1) by blast
qed

section \<open>When every edge has an image\<close>

text \<open>The refusals of the lookup itself.\<close>

fun lookup_refused :: "edge_error \<Rightarrow> bool" where
  "lookup_refused (StartConflict _ _ _ _) = True"
| "lookup_refused (EndConflict _ _ _ _) = True"
| "lookup_refused (NoImage _ _ _) = True"
| "lookup_refused _ = False"

lemma checks_not_refused:
  "validate_steps steps = Inl e \<Longrightarrow> \<not> lookup_refused e"
  "source_images kg syms steps = Inl e \<Longrightarrow> \<not> lookup_refused e"
  "shifted_grid_permutations kg shift syms = Inl e \<Longrightarrow> \<not> lookup_refused e"
  "check_points nk n_sym perms irr sidx src = Inl e \<Longrightarrow> \<not> lookup_refused e"
  by (auto simp: validate_steps_def source_images_def shifted_grid_permutations_def check_points_def grid_permutation_def
      mapped_step_def Let_def andthen_eq_Inl dest!: mapE_refused split: if_splits option.splits)

text \<open>One operation permutes a set of steps that is closed under signs.\<close>

lemma images_of_steps:
  assumes "edge_maps_ok kg shift syms M" "grid_size kg \<le> 2 ^ 31" "s < length syms" "\<exists>t. mat_mul t (syms ! s) = mat_id"
    and "\<forall>v\<in>set (em_steps M). vneg v \<in> set (em_steps M)" "v \<in> set (em_steps M)"
  shows "\<exists>j<length (em_steps M). \<forall>i<length (em_steps M). em_mapped M ! s ! i = v \<longleftrightarrow> i = j"
proof -
  let ?n = "length (em_steps M)" and ?f = "\<lambda>j. em_mapped M ! s ! j"
  have ok: "grid_ok kg" "\<forall>v\<in>set (em_steps M). elementary v" "distinct (em_steps M)"
    and m: "\<And>j. j < ?n \<Longrightarrow> mapped_step kg s (syms ! s) (em_steps M ! j) = Inr (?f j) \<and> ?f j \<in> set (signed_closure (em_steps M))"
    using assms(1,3) by (simp_all add: edge_maps_ok_def)
  obtain t where t: "mat_mul t (syms ! s) = mat_id" using assms(4) by blast
  have inj: "inj_on ?f {..<?n}"
  proof (rule inj_onI)
    fix i j assume "i \<in> {..<?n}" "j \<in> {..<?n}" "?f i = ?f j"
    then have "em_steps M ! i = em_steps M ! j"
      using mapped_step_inj [OF ok(1) assms(2) t] m ok(2) by (metis lessThan_iff nth_mem)
    then show "i = j" using \<open>i \<in> {..<?n}\<close> \<open>j \<in> {..<?n}\<close> ok(3) nth_eq_iff_index_eq by blast
  qed
  have "set (signed_closure (em_steps M)) = set (em_steps M)" using assms(5) by (auto simp: signed_closure_set)
  then have "?f ` {..<?n} \<subseteq> set (em_steps M)" using m by auto
  moreover have "card (?f ` {..<?n}) = card (set (em_steps M))" using inj ok(3) by (simp add: card_image distinct_card)
  ultimately have "?f ` {..<?n} = set (em_steps M)" by (simp add: card_subset_eq)
  then obtain j where "j < ?n" "?f j = v" using assms(6) by (metis imageE lessThan_iff)
  then show ?thesis using inj by (intro exI [of _ j]) (auto simp: inj_on_def)
qed

lemma filter_single: "j < n \<Longrightarrow> filter (\<lambda>i. i = j) [0..<n] = [j]"
  by (induction n) (auto simp: filter_empty_conv less_Suc_eq)

lemma target_edge_found:
  assumes "edge_maps_ok kg shift syms M" "grid_size kg \<le> 2 ^ 31" "\<forall>s\<in>set syms. \<exists>t. mat_mul t s = mat_id"
    and "\<forall>v\<in>set (em_steps M). vneg v \<in> set (em_steps M)" "v \<in> set (em_steps M)" "k < nat (grid_size kg)"
  shows "\<exists>e. target_edge M k v (shifted_rows kg v ! k) = Inr e \<and> \<not> ed_reverse e"
proof -
  let ?n = "length (em_steps M)" and ?s = "em_sym M ! k" and ?i = "em_source M ! (em_irr M ! k)"
  have ok: "grid_ok kg" and sh: "em_shifted M = map (shifted_rows kg) (em_steps M)"
    and at: "em_irr M ! k < length (em_source M)" "?s < length syms" "em_perms M ! ?s ! ?i = k" and src: "?i < nat (grid_size kg)"
    and perm: "grid_permutation kg shift ?s (syms ! ?s) = Inr (em_perms M ! ?s)"
    using assms(1,6) by (simp_all add: edge_maps_ok_def)
  have inv: "\<exists>t. mat_mul t (syms ! ?s) = mat_id" using assms(3) at(2) by simp
  obtain j where j: "j < ?n" "\<And>i. i < ?n \<Longrightarrow> em_mapped M ! ?s ! i = v \<longleftrightarrow> i = j"
    using images_of_steps [OF assms(1,2) at(2) inv assms(4,5)] by blast
  have "mapped_step kg ?s (syms ! ?s) (em_steps M ! j) = Inr v" using assms(1) at(2) j by (auto simp: edge_maps_ok_def)
  from permutation_step [OF perm this ok src]
  have hit: "em_perms M ! ?s ! (em_shifted M ! j ! ?i) = shifted_rows kg v ! k" using j(1) at(3) sh by simp
  have "filter (\<lambda>i. em_mapped M ! ?s ! i = v \<and> em_perms M ! ?s ! (em_shifted M ! i ! ?i) = shifted_rows kg v ! k) [0..<?n] =
      filter (\<lambda>i. i = j) [0..<?n]" using j hit by (intro filter_cong) auto
  also have "\<dots> = [j]" by (rule filter_single [OF j(1)])
  finally have "edge_images M k v (shifted_rows kg v ! k) = [(em_irr M ! k, j, ?s, ?i, em_shifted M ! j ! ?i)]"
    by (simp add: edge_images_def Let_def)
  then show ?thesis by (simp add: target_edge_def make_edge_def)
qed

text \<open>
  C38: When the stored steps are closed under signs, the requested steps are among them and every operation has
  an inverse, no lookup fails: whatever the other checks let through, every point and direction has exactly
  one stored link that maps onto it forwards, and the table holds no reversed entry.
\<close>

theorem edge_table_complete:
  assumes "grid_size kg \<le> 2 ^ 31" "\<forall>s\<in>set syms. \<exists>t. mat_mul t s = mat_id" "\<forall>v\<in>set source_steps. vneg v \<in> set source_steps"
    and "\<forall>ts. target_steps = Some ts \<longrightarrow> set ts \<subseteq> set source_steps"
  shows "case directed_edge_orbit_table kg shift syms irr sidx src source_steps nss target_steps of
    Inl err \<Rightarrow> \<not> lookup_refused err
  | Inr T \<Rightarrow> length (et_rows T) = nat (grid_size kg) \<and>
      (\<forall>row\<in>set (et_rows T). length row = length (et_target_steps T) \<and> (\<forall>e\<in>set row. \<not> ed_reverse e))"
proof (cases "directed_edge_orbit_table kg shift syms irr sidx src source_steps nss target_steps")
  case (Inr T)
  obtain M where M: "edge_maps_ok kg shift syms M" "em_steps M = source_steps" "length (et_rows T) = nat (grid_size kg)"
    and t: "et_target_steps T = (case target_steps of None \<Rightarrow> signed_closure source_steps | Some ts \<Rightarrow> ts)"
    and rows: "\<And>k. k < nat (grid_size kg) \<Longrightarrow> length (et_rows T ! k) = length (et_target_steps T) \<and> (\<forall>d<length (et_target_steps T).
        target_edge M k (et_target_steps T ! d) (shifted_rows kg (et_target_steps T ! d) ! k) = Inr (et_rows T ! k ! d))"
    using edge_table_run [OF Inr] by auto
  have in_steps: "set (et_target_steps T) \<subseteq> set (em_steps M)"
    using assms(3,4) t M(2) by (auto simp: signed_closure_set split: option.splits)
  have "\<not> ed_reverse (et_rows T ! k ! d)" if "k < nat (grid_size kg)" "d < length (et_target_steps T)" for k d
  proof -
    have "et_target_steps T ! d \<in> set (em_steps M)" using in_steps that(2) by auto
    then show ?thesis using target_edge_found [OF M(1) assms(1,2) _ _ that(1)] rows [OF that(1)] that(2) assms(3) M(2) by fastforce
  qed
  then show ?thesis using Inr M(3) rows by (auto simp: in_set_conv_nth)
next
  case (Inl err)
  have "\<not> lookup_refused err"
  proof
    assume bad: "lookup_refused err"
    let ?nk = "nat (grid_size kg)"
    note run = Inl [unfolded directed_edge_orbit_table_def]
    have ok: "grid_ok kg" using run bad by (auto split: if_splits)
    obtain steps where v: "validate_steps source_steps = Inr steps"
      using run bad checks_not_refused(1) by (cases "validate_steps source_steps") (auto split: if_splits)
    obtain targets where t: "(case target_steps of None \<Rightarrow> Inr (signed_closure steps) | Some ts \<Rightarrow> validate_steps ts) = Inr targets"
      using run bad checks_not_refused(1) v
      by (cases "case target_steps of None \<Rightarrow> Inr (signed_closure steps) | Some ts \<Rightarrow> validate_steps ts") (auto split: if_splits option.splits)
    obtain mapped where m: "source_images kg syms steps = Inr mapped"
      using run bad checks_not_refused(2) [of kg syms steps] by (cases "source_images kg syms steps") (auto simp: v t split: if_splits)
    obtain perms where p: "shifted_grid_permutations kg shift syms = Inr perms"
      using run bad checks_not_refused(3) [of kg shift syms] by (cases "shifted_grid_permutations kg shift syms") (auto simp: v t m split: if_splits)
    obtain u where c: "check_points ?nk (length syms) perms irr sidx src = Inr u"
      using run bad checks_not_refused(4) [of ?nk "length syms" perms irr sidx src]
      by (cases "check_points ?nk (length syms) perms irr sidx src") (auto simp: v t m p split: if_splits)
    have r: "mapE (\<lambda>target. mapE (\<lambda>d. target_edge
          \<lparr>em_irr = map nat irr, em_sym = map nat sidx, em_source = map nat src, em_perms = perms,
           em_mapped = mapped, em_steps = steps, em_shifted = map (shifted_rows kg) steps\<rparr> target (targets ! d)
          (map (shifted_rows kg) targets ! d ! target)) [0..<length targets]) [0..<?nk] = Inl err"
      using run bad by (auto simp: v t m p c Let_def andthen_eq_Inl split: if_splits)
    let ?M = "\<lparr>em_irr = map nat irr, em_sym = map nat sidx, em_source = map nat src, em_perms = perms,
           em_mapped = mapped, em_steps = steps, em_shifted = map (shifted_rows kg) steps\<rparr>"
    have M: "edge_maps_ok kg shift syms ?M" by (rule checked_maps_ok [OF ok v m p c])
    have steps: "em_steps ?M = source_steps" using v by (simp add: validate_steps_Inr)
    have in_steps: "set targets \<subseteq> set (em_steps ?M)"
    proof -
      have "vneg ` set source_steps \<subseteq> set source_steps" using assms(3) by blast
      then have "set (signed_closure source_steps) = set source_steps" unfolding signed_closure_set by (rule Un_absorb2)
      then show ?thesis using t assms(4) steps by (auto simp: validate_steps_Inr split: option.splits)
    qed
    obtain k d where kd: "k < ?nk" "d < length targets" and no: "target_edge ?M k (targets ! d) (shifted_rows kg (targets ! d) ! k) = Inl err"
      using mapE_refused [OF r] by (auto dest!: mapE_refused)
    have "targets ! d \<in> set (em_steps ?M)" using in_steps kd(2) by auto
    then show False using target_edge_found [OF M assms(1,2) _ _ kd(1)] no assms(3) steps by fastforce
  qed
  then show ?thesis using Inl by simp
qed

theorem edge_table_complete_witness:
  "\<exists>T. three_points = Inr T \<and> length (et_rows T) = 3 \<and> (\<forall>row\<in>set (et_rows T). \<forall>e\<in>set row. \<not> ed_reverse e)"
proof -
  have "mat_mul mat_id mat_id = mat_id" "mat_mul (mat_neg mat_id) (mat_neg mat_id) = mat_id" by code_simp+
  then have inv: "\<forall>s\<in>set [mat_id, mat_neg mat_id]. \<exists>t. mat_mul t s = mat_id" by (metis empty_iff insert_iff list.set)
  show ?thesis
    using edge_table_complete [where kg = "(3, 1, 1)" and syms = "[mat_id, mat_neg mat_id]" and source_steps = "[(1, 0, 0), (- 1, 0, 0)]"
        and target_steps = None and shift = "(0, 0, 0)" and irr = "[0, 1, 1]" and sidx = "[0, 0, 1]" and src = "[0, 1]" and nss = 1, OF _ inv]
      three_points_run by (auto split: sum.splits)
qed

end
