(* ===== verification/QStencil.thy ===== *)
theory QStencil
  imports GridSteps BandAction Irreducible
begin

text \<open>
  \<open>q_stencil_orbit_table\<close> of \<open>services/symmetry_maps/src/symmetry_maps/directed_edges.py\<close>: a few seed directions
  are closed under the active operations, and each point of the closed stencil is assigned the irreducible q
  and the operation that the point tables of the mesh give it, so that a response is computed at the sources
  only and unfolded to the rest.
\<close>

section \<open>The code\<close>

datatype stencil_error =
    StencilGrid ivec
  | StencilLayout nat int
  | StencilTrsRows
  | StencilActive "int list"
  | NoSeeds
  | ZeroSeed
  | DuplicateSeeds
  | StencilStep edge_error
  | StencilAlias "(nat \<times> ivec list) list"
  | StencilTables nat nat nat
  | InactiveRow nat int
  | MissingSources "nat list"
  | WrongAction ivec ivec nat

definition lift_step :: "(edge_error, 'a) result \<Rightarrow> (stencil_error, 'a) result" where
  "lift_step r = (case r of Inl e \<Rightarrow> Inl (StencilStep e) | Inr a \<Rightarrow> Inr a)"

record stencil =
  qs_source_steps :: "ivec list"
  qs_source_full_ids :: "nat list"
  qs_source_target_row :: "nat list"
  qs_target_steps :: "ivec list"
  qs_target_full_ids :: "nat list"
  qs_source_irr_idx :: "int list"
  qs_target_source_row :: "nat list"
  qs_target_sym_idx :: "nat list"
  qs_target_antiunitary :: "bool list"
  qs_target_seed_mask :: "bool list list"

text \<open>The images of every seed under every active operation, seed by seed.\<close>

definition seed_images :: "ivec \<Rightarrow> imat list \<Rightarrow> nat list \<Rightarrow> ivec list \<Rightarrow> (stencil_error, ivec list list) result" where
  "seed_images kg syms active seeds =
     mapE (\<lambda>seed. mapE (\<lambda>isym. lift_step (mapped_step kg isym (syms ! isym) seed)) active) seeds"

text \<open>The order in which Python meets new labels.\<close>

definition first_seen :: "'a list \<Rightarrow> 'a list" where
  "first_seen xs = fold (\<lambda>x acc. if x \<in> set acc then acc else acc @ [x]) xs []"

definition collisions :: "nat list \<Rightarrow> ivec list \<Rightarrow> (nat \<times> ivec list) list" where
  "collisions ids targets =
     filter (\<lambda>(i, rows). 1 < length rows)
       (map (\<lambda>i. (i, map fst (filter (\<lambda>(v, j). j = i) (zip targets ids)))) (first_seen ids))"

text \<open>The sources of a closed stencil: one per irreducible index, at the first row of the mesh that has it.\<close>

definition assign_sources ::
    "ivec \<Rightarrow> imat list \<Rightarrow> int list \<Rightarrow> int list \<Rightarrow> int \<Rightarrow> ivec list list \<Rightarrow> ivec list \<Rightarrow> nat list \<Rightarrow> (stencil_error, stencil) result" where
  "assign_sources kg syms irr sidx nss images targets target_ids =
     (let groups = map (\<lambda>i. irr ! i) target_ids;
          unique_groups = first_seen groups;
          source_ids = map (\<lambda>g. first_index g irr) unique_groups;
          missing = filter (\<lambda>i. i \<notin> set target_ids) source_ids
      in if missing \<noteq> [] then Inl (MissingSources missing)
         else
           let source_target_row = map (\<lambda>i. the (dict_pos target_ids i)) source_ids;
               source_steps = np_take targets source_target_row;
               target_source_row = map (\<lambda>g. the (dict_pos unique_groups g)) groups;
               target_sym = map (\<lambda>i. nat (sidx ! i)) target_ids
           in andthen (mapE (\<lambda>t. andthen (lift_step (mapped_step kg (target_sym ! t) (syms ! (target_sym ! t))
                     (source_steps ! (target_source_row ! t)))) (\<lambda>m.
                   if vmod m kg = vmod (targets ! t) kg then Inr ()
                   else Inl (WrongAction (source_steps ! (target_source_row ! t)) (targets ! t) (target_sym ! t))))
                 [0..<length targets]) (\<lambda>_.
                Inr \<lparr>qs_source_steps = source_steps, qs_source_full_ids = source_ids, qs_source_target_row = source_target_row,
                     qs_target_steps = targets, qs_target_full_ids = target_ids, qs_source_irr_idx = unique_groups,
                     qs_target_source_row = target_source_row, qs_target_sym_idx = target_sym,
                     qs_target_antiunitary = map (\<lambda>s. nat nss \<le> s) target_sym,
                     qs_target_seed_mask = map (\<lambda>v. map (\<lambda>row. v \<in> set row) images) targets\<rparr>))"

definition q_stencil_orbit_table ::
    "ivec \<Rightarrow> imat list \<Rightarrow> int list \<Rightarrow> int list \<Rightarrow> ivec list \<Rightarrow> int \<Rightarrow> int list \<Rightarrow> (stencil_error, stencil) result" where
  "q_stencil_orbit_table kg syms irr sidx seeds nss active =
     (if \<not> grid_ok kg then Inl (StencilGrid kg)
      else if nss \<le> 0 \<or> int (length syms) \<noteq> nss \<and> int (length syms) \<noteq> 2 * nss then Inl (StencilLayout (length syms) nss)
      else if int (length syms) = 2 * nss \<and> drop (nat nss) syms \<noteq> map mat_neg (take (nat nss) syms) then Inl StencilTrsRows
      else if active = [] \<or> \<not> distinct active \<or> (\<exists>i\<in>set active. i < 0 \<or> int (length syms) \<le> i) then Inl (StencilActive active)
      else if seeds = [] then Inl NoSeeds
      else if (0, 0, 0) \<in> set seeds then Inl ZeroSeed
      else if \<not> distinct seeds then Inl DuplicateSeeds
      else
        andthen (seed_images kg syms (map nat active) seeds) (\<lambda>images.
          let targets = sort (remdups (concat images)); target_ids = map nat (flat_ids kg targets); nk = nat (grid_size kg)
          in if \<not> distinct target_ids then Inl (StencilAlias (collisions target_ids targets))
             else if length irr \<noteq> nk \<or> length sidx \<noteq> nk then Inl (StencilTables (length irr) (length sidx) nk)
             else case first_hit (\<lambda>s. s \<notin> set active) sidx of
               Some bad \<Rightarrow> Inl (InactiveRow bad (sidx ! bad))
             | None \<Rightarrow> assign_sources kg syms irr sidx nss images targets target_ids))"

section \<open>What a table holds\<close>

lemma lift_step_Inr [simp]: "lift_step r = Inr a \<longleftrightarrow> r = Inr a"
  by (cases r) (simp_all add: lift_step_def)

lemma first_seen_props: "set (first_seen xs) = set xs" "distinct (first_seen xs)"
proof -
  have "set (fold (\<lambda>x acc. if x \<in> set acc then acc else acc @ [x]) xs acc) = set acc \<union> set xs \<and>
      (distinct acc \<longrightarrow> distinct (fold (\<lambda>x acc. if x \<in> set acc then acc else acc @ [x]) xs acc))" for acc :: "'a list"
    by (induction xs arbitrary: acc) auto
  from this [of "[]"] show "set (first_seen xs) = set xs" "distinct (first_seen xs)" by (simp_all add: first_seen_def)
qed

lemma seed_images_Inr:
  assumes "seed_images kg syms active seeds = Inr images"
  shows "length images = length seeds" "i < length seeds \<Longrightarrow> length (images ! i) = length active"
    and "i < length seeds \<Longrightarrow> j < length active \<Longrightarrow> mapped_step kg (active ! j) (syms ! (active ! j)) (seeds ! i) = Inr (images ! i ! j)"
    and "i < length seeds \<Longrightarrow> v \<in> set (images ! i) \<longleftrightarrow> (\<exists>s\<in>set active. mapped_step kg s (syms ! s) (seeds ! i) = Inr v)"
proof -
  note r = mapE_nth [OF assms [unfolded seed_images_def]]
  show "length images = length seeds" using r by simp
  have row: "length (images ! i) = length active \<and> (\<forall>j<length active. lift_step (mapped_step kg (active ! j) (syms ! (active ! j)) (seeds ! i)) = Inr (images ! i ! j))"
    if "i < length seeds" for i using r that mapE_nth by blast
  show len: "i < length seeds \<Longrightarrow> length (images ! i) = length active" using row by blast
  show at: "i < length seeds \<Longrightarrow> j < length active \<Longrightarrow> mapped_step kg (active ! j) (syms ! (active ! j)) (seeds ! i) = Inr (images ! i ! j)"
    using row by simp
  show "v \<in> set (images ! i) \<longleftrightarrow> (\<exists>s\<in>set active. mapped_step kg s (syms ! s) (seeds ! i) = Inr v)" if "i < length seeds"
  proof -
    have "v \<in> set (images ! i) \<longleftrightarrow> (\<exists>j<length active. mapped_step kg (active ! j) (syms ! (active ! j)) (seeds ! i) = Inr v)"
      using row [OF that] by (auto simp: in_set_conv_nth)
    then show ?thesis by (metis in_set_conv_nth)
  qed
qed

text \<open>Everything the builder leaves behind, by field.\<close>

lemma assign_sources_Inr:
  assumes "assign_sources kg syms irr sidx nss images targets ids = Inr T"
  shows "qs_target_steps T = targets \<and> qs_target_full_ids T = ids \<and>
    qs_source_irr_idx T = first_seen (map (\<lambda>i. irr ! i) ids) \<and>
    qs_source_full_ids T = map (\<lambda>g. first_index g irr) (qs_source_irr_idx T) \<and> set (qs_source_full_ids T) \<subseteq> set ids \<and>
    qs_source_target_row T = map (\<lambda>i. the (dict_pos ids i)) (qs_source_full_ids T) \<and>
    qs_source_steps T = np_take targets (qs_source_target_row T) \<and>
    qs_target_source_row T = map (\<lambda>i. the (dict_pos (qs_source_irr_idx T) (irr ! i))) ids \<and>
    qs_target_sym_idx T = map (\<lambda>i. nat (sidx ! i)) ids \<and> qs_target_antiunitary T = map (\<lambda>s. nat nss \<le> s) (qs_target_sym_idx T) \<and>
    qs_target_seed_mask T = map (\<lambda>v. map (\<lambda>row. v \<in> set row) images) targets \<and>
    (\<forall>t<length targets. \<exists>m. mapped_step kg (qs_target_sym_idx T ! t) (syms ! (qs_target_sym_idx T ! t))
        (qs_source_steps T ! (qs_target_source_row T ! t)) = Inr m \<and> vmod m kg = vmod (targets ! t) kg)"
proof -
  note run = assms [unfolded assign_sources_def Let_def]
  have miss: "filter (\<lambda>i. i \<notin> set ids) (map (\<lambda>g. first_index g irr) (first_seen (map (\<lambda>i. irr ! i) ids))) = []"
    using run by (auto split: if_splits)
  then have sub: "set (map (\<lambda>g. first_index g irr) (first_seen (map (\<lambda>i. irr ! i) ids))) \<subseteq> set ids"
    by (auto simp: filter_empty_conv)
  note rest = run [unfolded miss, simplified]
  then show ?thesis using sub by (auto simp: comp_def dest!: mapE_nth split: if_splits)
qed

text \<open>Everything the builder leaves behind, by field.\<close>

lemma stencil_run:
  assumes "q_stencil_orbit_table kg syms irr sidx seeds nss active = Inr T"
  shows "\<exists>images. grid_ok kg \<and> seed_images kg syms (map nat active) seeds = Inr images \<and>
    length irr = nat (grid_size kg) \<and> length sidx = nat (grid_size kg) \<and>
    (\<forall>s\<in>set sidx. s \<in> set active \<and> 0 \<le> s \<and> s < int (length syms)) \<and>
    distinct (map nat (flat_ids kg (sort (remdups (concat images))))) \<and>
    assign_sources kg syms irr sidx nss images (sort (remdups (concat images))) (map nat (flat_ids kg (sort (remdups (concat images))))) = Inr T"
proof -
  note run = assms [unfolded q_stencil_orbit_table_def]
  have ok: "grid_ok kg" and act: "\<forall>i\<in>set active. 0 \<le> i \<and> i < int (length syms)" using run by (auto split: if_splits)
  obtain images where im: "seed_images kg syms (map nat active) seeds = Inr images" using run by (auto split: if_splits)
  have d: "distinct (map nat (flat_ids kg (sort (remdups (concat images)))))"
    and len: "length irr = nat (grid_size kg)" "length sidx = nat (grid_size kg)"
    using run by (auto simp: im Let_def split: if_splits)
  have none: "first_hit (\<lambda>s. s \<notin> set active) sidx = None"
    using run by (cases "first_hit (\<lambda>s. s \<notin> set active) sidx") (auto simp: im d len Let_def split: if_splits)
  then have "\<forall>s\<in>set sidx. s \<in> set active \<and> 0 \<le> s \<and> s < int (length syms)" using act by auto
  then show ?thesis
    using run im d len ok by (intro exI [of _ images]) (auto simp: none Let_def simp del: first_hit_None split: if_splits)
qed

lemma target_id_range: "grid_ok kg \<Longrightarrow> i \<in> set (map nat (flat_ids kg vs)) \<Longrightarrow> i < nat (grid_size kg)"
proof -
  assume ok: "grid_ok kg" and "i \<in> set (map nat (flat_ids kg vs))"
  then obtain v where "i = nat (flat_key kg (vmod v kg))" unfolding flat_ids_def set_map by blast
  then show "i < nat (grid_size kg)" using key_range [OF vmod_in [OF ok, of v]] by simp
qed

text \<open>The sources: their ids, their steps, and the rows the targets name.\<close>

lemma stencil_sources:
  assumes "grid_ok kg" "assign_sources kg syms irr sidx nss images targets (map nat (flat_ids kg targets)) = Inr T"
    and "length irr = nat (grid_size kg)"
  shows "r < length (qs_source_full_ids T) \<Longrightarrow> r < length (qs_source_steps T) \<and> qs_source_full_ids T ! r < nat (grid_size kg) \<and>
      irr ! (qs_source_full_ids T ! r) = qs_source_irr_idx T ! r \<and> (\<forall>i<qs_source_full_ids T ! r. irr ! i \<noteq> qs_source_irr_idx T ! r) \<and>
      qs_source_steps T ! r \<in> set targets \<and>
      nat (flat_key kg (vmod (qs_source_steps T ! r) kg)) = qs_source_full_ids T ! r"
    and "t < length targets \<Longrightarrow> qs_target_source_row T ! t < length (qs_source_full_ids T) \<and>
      qs_source_irr_idx T ! (qs_target_source_row T ! t) = irr ! (qs_target_full_ids T ! t)"
    and "length (qs_source_steps T) = length (qs_source_full_ids T)" "length (qs_source_irr_idx T) = length (qs_source_full_ids T)"
proof -
  let ?ids = "map nat (flat_ids kg targets)" and ?gs = "qs_source_irr_idx T" and ?src = "qs_source_full_ids T"
  note a = assign_sources_Inr [OF assms(2)]
  have gs: "?gs = first_seen (map (\<lambda>i. irr ! i) ?ids)" "?src = map (\<lambda>g. first_index g irr) ?gs" "set ?src \<subseteq> set ?ids"
    and steps: "qs_source_steps T = np_take targets (map (\<lambda>i. the (dict_pos ?ids i)) ?src)"
    and rows: "qs_target_source_row T = map (\<lambda>i. the (dict_pos ?gs (irr ! i))) ?ids" and full: "qs_target_full_ids T = ?ids"
    using a by auto
  show "length (qs_source_steps T) = length ?src" "length ?gs = length ?src" by (simp_all add: steps gs(2) np_take_def)
  show "r < length (qs_source_steps T) \<and> ?src ! r < nat (grid_size kg) \<and> irr ! (?src ! r) = ?gs ! r \<and> (\<forall>i<?src ! r. irr ! i \<noteq> ?gs ! r) \<and>
      qs_source_steps T ! r \<in> set targets \<and> nat (flat_key kg (vmod (qs_source_steps T ! r) kg)) = ?src ! r" if r: "r < length ?src"
  proof -
    have rg: "r < length ?gs" using r gs(2) by simp
    have "?gs ! r \<in> set (map (\<lambda>i. irr ! i) ?ids)" using nth_mem [OF rg] first_seen_props(1) gs(1) by metis
    then obtain i where "i \<in> set ?ids" "?gs ! r = irr ! i" unfolding set_map by blast
    then have g: "?gs ! r \<in> set irr" using target_id_range [OF assms(1)] assms(3) by (metis nth_mem)
    have at: "?src ! r = first_index (?gs ! r) irr" using rg gs(2) by simp
    have first: "irr ! i \<noteq> ?gs ! r" if "i < ?src ! r" for i
      using first_index_le [of i irr] that first_index_lt [OF g] at by (metis dual_order.strict_trans leD)
    have "?src ! r \<in> set ?ids" using gs(3) nth_mem [OF r] by blast
    then obtain p where p: "dict_pos ?ids (?src ! r) = Some p" using dict_pos_None by fastforce
    have pl: "p < length targets" "?ids ! p = ?src ! r" using dict_pos_nth [OF p] by (simp_all add: flat_ids_def)
    have step: "qs_source_steps T ! r = targets ! p" using r p by (simp add: steps np_take_def)
    have "nat (flat_key kg (vmod (targets ! p) kg)) = ?src ! r" using pl by (simp add: flat_ids_def)
    then show ?thesis
      using r step pl(1) first first_index_lt [OF g] first_index_nth [OF g] at assms(3)
      by (simp add: steps np_take_def [abs_def])
  qed
  show "qs_target_source_row T ! t < length ?src \<and> ?gs ! (qs_target_source_row T ! t) = irr ! (qs_target_full_ids T ! t)" if t: "t < length targets"
  proof -
    have tl: "t < length ?ids" using t by (simp add: flat_ids_def)
    then have "irr ! (?ids ! t) \<in> set ?gs" unfolding gs(1) first_seen_props(1) by (metis length_map nth_map nth_mem)
    then obtain p where p: "dict_pos ?gs (irr ! (?ids ! t)) = Some p" using dict_pos_None by fastforce
    have "qs_target_source_row T ! t = p" using tl p by (simp add: rows)
    then show ?thesis using dict_pos_nth [OF p] full by (simp add: gs(2))
  qed
qed

text \<open>
  C36: The stencil is exactly the images of the seeds under the active operations, each once and no two equal
  modulo the mesh; its mask tells which seed reaches which point. Each point is the image of its source under
  its operation, modulo the mesh, and has the irreducible index of its source. There is one source per index,
  itself a point of the stencil, at the first row of the mesh that has the index.
\<close>

theorem stencil_orbits_exact:
  assumes "q_stencil_orbit_table kg syms irr sidx seeds nss active = Inr T"
  shows "set (qs_target_steps T) = {v. \<exists>d\<in>set seeds. \<exists>s\<in>set active. mapped_step kg (nat s) (syms ! nat s) d = Inr v} \<and>
    sorted (qs_target_steps T) \<and> inj_on (\<lambda>v. vmod v kg) (set (qs_target_steps T)) \<and>
    (\<forall>t<length (qs_target_steps T). \<forall>i<length seeds. qs_target_seed_mask T ! t ! i \<longleftrightarrow>
      (\<exists>s\<in>set active. mapped_step kg (nat s) (syms ! nat s) (seeds ! i) = Inr (qs_target_steps T ! t))) \<and>
    (\<forall>t<length (qs_target_steps T). let r = qs_target_source_row T ! t; s = qs_target_sym_idx T ! t in
      r < length (qs_source_steps T) \<and> int s \<in> set active \<and> qs_source_irr_idx T ! r = irr ! (qs_target_full_ids T ! t) \<and>
      (qs_target_antiunitary T ! t \<longleftrightarrow> nat nss \<le> s) \<and>
      (\<exists>m. mapped_step kg s (syms ! s) (qs_source_steps T ! r) = Inr m \<and> vmod m kg = vmod (qs_target_steps T ! t) kg)) \<and>
    distinct (qs_source_irr_idx T) \<and>
    (\<forall>r<length (qs_source_steps T). qs_source_steps T ! r \<in> set (qs_target_steps T) \<and>
      nat (flat_key kg (vmod (qs_source_steps T ! r) kg)) = qs_source_full_ids T ! r \<and>
      irr ! (qs_source_full_ids T ! r) = qs_source_irr_idx T ! r \<and> (\<forall>i<qs_source_full_ids T ! r. irr ! i \<noteq> qs_source_irr_idx T ! r))"
proof -
  obtain images where ok: "grid_ok kg" and im: "seed_images kg syms (map nat active) seeds = Inr images"
    and len: "length irr = nat (grid_size kg)" "length sidx = nat (grid_size kg)"
    and sx: "\<forall>s\<in>set sidx. s \<in> set active \<and> 0 \<le> s \<and> s < int (length syms)"
    and d: "distinct (map nat (flat_ids kg (sort (remdups (concat images)))))"
    and run: "assign_sources kg syms irr sidx nss images (sort (remdups (concat images))) (map nat (flat_ids kg (sort (remdups (concat images))))) = Inr T"
    using stencil_run [OF assms] by blast
  let ?ts = "sort (remdups (concat images))"
  note a = assign_sources_Inr [OF run] and src = stencil_sources [OF ok run len(1)] and si = seed_images_Inr [OF im]
  have ts: "qs_target_steps T = ?ts" and ids: "qs_target_full_ids T = map nat (flat_ids kg ?ts)" using a by auto
  have row: "v \<in> set (images ! i) \<longleftrightarrow> (\<exists>s\<in>set active. mapped_step kg (nat s) (syms ! nat s) (seeds ! i) = Inr v)" if "i < length seeds" for v i
    using si(4) [OF that] by simp
  have "set ?ts = (\<Union>i<length seeds. set (images ! i))" by (simp add: set_conv_nth [of images] si(1) [symmetric] image_Collect) blast
  also have "\<dots> = {v. \<exists>d\<in>set seeds. \<exists>s\<in>set active. mapped_step kg (nat s) (syms ! nat s) d = Inr v}"
  proof (rule set_eqI)
    fix v
    have bex: "(\<exists>d\<in>set seeds. P d) \<longleftrightarrow> (\<exists>i<length seeds. P (seeds ! i))" for P by (metis in_set_conv_nth)
    show "v \<in> (\<Union>i<length seeds. set (images ! i)) \<longleftrightarrow> v \<in> {v. \<exists>d\<in>set seeds. \<exists>s\<in>set active. mapped_step kg (nat s) (syms ! nat s) d = Inr v}"
      using row unfolding UN_iff mem_Collect_eq bex by blast
  qed
  finally have set_ts: "set ?ts = \<dots>" .
  have inj: "inj_on (\<lambda>v. vmod v kg) (set ?ts)"
    using d by (auto simp: flat_ids_def distinct_map comp_def inj_on_def)
  have mask: "qs_target_seed_mask T ! t ! i \<longleftrightarrow> (\<exists>s\<in>set active. mapped_step kg (nat s) (syms ! nat s) (seeds ! i) = Inr (?ts ! t))"
    if "t < length ?ts" "i < length seeds" for t i
    using a row [OF that(2)] that si(1) by simp
  have target: "let r = qs_target_source_row T ! t; s = qs_target_sym_idx T ! t in
      r < length (qs_source_steps T) \<and> int s \<in> set active \<and> qs_source_irr_idx T ! r = irr ! (qs_target_full_ids T ! t) \<and>
      (qs_target_antiunitary T ! t \<longleftrightarrow> nat nss \<le> s) \<and>
      (\<exists>m. mapped_step kg s (syms ! s) (qs_source_steps T ! r) = Inr m \<and> vmod m kg = vmod (?ts ! t) kg)" if t: "t < length ?ts" for t
  proof -
    have tl: "t < length (map nat (flat_ids kg ?ts))" using t by (simp add: flat_ids_def)
    have "map nat (flat_ids kg ?ts) ! t < length sidx" using target_id_range [OF ok] nth_mem [OF tl] len(2) by metis
    then have "sidx ! (map nat (flat_ids kg ?ts) ! t) \<in> set sidx" by simp
    then have "int (qs_target_sym_idx T ! t) \<in> set active" using sx tl a by auto
    moreover have "qs_target_antiunitary T ! t \<longleftrightarrow> nat nss \<le> qs_target_sym_idx T ! t" using tl a by auto
    moreover have "\<exists>m. mapped_step kg (qs_target_sym_idx T ! t) (syms ! (qs_target_sym_idx T ! t))
        (qs_source_steps T ! (qs_target_source_row T ! t)) = Inr m \<and> vmod m kg = vmod (?ts ! t) kg" using a t by blast
    ultimately show ?thesis using src(2) [OF t] src(3) unfolding Let_def by simp
  qed
  have "distinct (qs_source_irr_idx T)" using a first_seen_props(2) by metis
  then show ?thesis
    using set_ts inj mask target src(1,3) by (intro conjI) (simp_all only: ts sorted_sort, blast+)
qed

section \<open>Stencils on derived tables\<close>

text \<open>An operation that couples only axes of equal extent acts on mesh steps as it acts on mesh points.\<close>

fun couples_equal :: "ivec \<Rightarrow> imat \<Rightarrow> bool" where
  "couples_equal (nx, ny, nz) ((a, b, c), (d, e, f), (g, h, i)) \<longleftrightarrow>
     (nx = ny \<or> b = 0 \<and> d = 0) \<and> (nx = nz \<or> c = 0 \<and> g = 0) \<and> (ny = nz \<or> f = 0 \<and> h = 0)"

lemma couples_equal_raw:
  assumes "grid_ok kg" "couples_equal kg s"
  shows "raw_step kg s d = of_ivec (mat_vec s d)"
proof -
  obtain nx ny nz where kg: "kg = (nx, ny, nz)" by (cases kg)
  obtain s1 s2 s3 s4 s5 s6 s7 s8 s9 where s: "s = ((s1, s2, s3), (s4, s5, s6), (s7, s8, s9))" by (cases s) auto
  obtain d1 d2 d3 where d: "d = (d1, d2, d3)" by (cases d)
  have n: "real_of_int nx \<noteq> 0" "real_of_int ny \<noteq> 0" "real_of_int nz \<noteq> 0" using assms(1) by (simp_all add: kg)
  have c: "real_of_int a * (of_int x / of_int m) * of_int n = of_int a * of_int x" if "n = m \<or> a = 0" "real_of_int m \<noteq> 0" for a x m n :: int
    using that by auto
  have e: "nx = ny \<or> s2 = 0" "nx = nz \<or> s3 = 0" "ny = nx \<or> s4 = 0" "ny = nz \<or> s6 = 0" "nz = nx \<or> s7 = 0" "nz = ny \<or> s8 = 0"
    using assms(2) by (auto simp: kg s)
  show ?thesis
    using n by (simp only: kg s d raw_step_def rmat_vec.simps rdot.simps times_grid.simps over_grid.simps of_ivec.simps mat_vec.simps vdot.simps
        distrib_right of_int_add of_int_mult c [OF e(1) n(2)] c [OF e(2) n(3)] c [OF e(3) n(1)] c [OF e(4) n(3)] c [OF e(5) n(1)] c [OF e(6) n(2)]
        c [OF disjI1 [OF refl] n(1)] c [OF disjI1 [OF refl] n(2)] c [OF disjI1 [OF refl] n(3)])
qed

lemma couples_equal_step: "grid_ok kg \<Longrightarrow> couples_equal kg s \<Longrightarrow> mapped_step kg i s d = Inr (mat_vec s d)"
proof -
  assume "grid_ok kg" "couples_equal kg s"
  moreover have "near (of_ivec v) v" for v by (cases v) (simp add: near_def mesh_tol_def)
  ultimately show ?thesis by (simp add: mapped_step_Inr couples_equal_raw)
qed

lemma assign_sources_total:
  assumes "length ids = length targets" "\<forall>i\<in>set ids. first_index (irr ! i) irr \<in> set ids"
    and "\<forall>t<length ids. \<forall>p<length ids. ids ! p = first_index (irr ! (ids ! t)) irr \<longrightarrow>
      (\<exists>m. mapped_step kg (nat (sidx ! (ids ! t))) (syms ! nat (sidx ! (ids ! t))) (targets ! p) = Inr m \<and> vmod m kg = vmod (targets ! t) kg)"
  shows "\<exists>T. assign_sources kg syms irr sidx nss images targets ids = Inr T"
proof -
  let ?gs = "first_seen (map (\<lambda>i. irr ! i) ids)"
  let ?src = "map (\<lambda>g. first_index g irr) ?gs"
  let ?row = "map (\<lambda>g. the (dict_pos ?gs g)) (map (\<lambda>i. irr ! i) ids)"
  let ?steps = "np_take targets (map (\<lambda>i. the (dict_pos ids i)) ?src)"
  have miss: "filter (\<lambda>i. i \<notin> set ids) ?src = []"
    using assms(2) by (auto simp: filter_empty_conv first_seen_props)
  have step: "\<exists>m. mapped_step kg (nat (sidx ! (ids ! t))) (syms ! nat (sidx ! (ids ! t))) (?steps ! (?row ! t)) = Inr m \<and>
      vmod m kg = vmod (targets ! t) kg" if t: "t < length ids" for t
  proof -
    have "irr ! (ids ! t) \<in> set ?gs" using t by (simp add: first_seen_props)
    then obtain r where r: "dict_pos ?gs (irr ! (ids ! t)) = Some r" using dict_pos_None by fastforce
    then have rl: "r < length ?gs" "?gs ! r = irr ! (ids ! t)" using dict_pos_nth by fast+
    have "?src ! r \<in> set ids" using assms(2) t rl by simp
    then obtain p where p: "dict_pos ids (?src ! r) = Some p" using dict_pos_None by fastforce
    then have pl: "p < length ids" "ids ! p = first_index (irr ! (ids ! t)) irr" using dict_pos_nth [OF p] rl by simp_all
    have "?steps ! (?row ! t) = targets ! p" using t r rl p by (simp add: np_take_def)
    then show ?thesis using assms(3) t pl by simp
  qed
  let ?sym = "map (\<lambda>i. nat (sidx ! i)) ids"
  have "mapE (\<lambda>t. andthen (lift_step (mapped_step kg (?sym ! t) (syms ! (?sym ! t)) (?steps ! (?row ! t)))) (\<lambda>m.
      if vmod m kg = vmod (targets ! t) kg then Inr () else Inl (WrongAction (?steps ! (?row ! t)) (targets ! t) (?sym ! t))))
      [0..<length targets] = Inr (map (\<lambda>_. ()) [0..<length targets])"
  proof (rule mapE_total, rule ballI)
    fix t assume "t \<in> set [0..<length targets]"
    then have t: "t < length ids" using assms(1) by simp
    then show "andthen (lift_step (mapped_step kg (?sym ! t) (syms ! (?sym ! t)) (?steps ! (?row ! t)))) (\<lambda>m.
      if vmod m kg = vmod (targets ! t) kg then Inr () else Inl (WrongAction (?steps ! (?row ! t)) (targets ! t) (?sym ! t))) = Inr ()"
      using step [OF t] by (auto simp: nth_map [OF t] simp del: nth_map)
  qed
  then show ?thesis unfolding assign_sources_def Let_def miss by simp
qed

lemma seed_images_run:
  assumes "grid_ok kg" "\<forall>s\<in>set syms. couples_equal kg s" "\<forall>i\<in>set active. i < length syms"
  shows "seed_images kg syms active seeds = Inr (map (\<lambda>d. map (\<lambda>i. mat_vec (syms ! i) d) active) seeds)"
  unfolding seed_images_def
proof (rule mapE_total, rule ballI, rule mapE_total, rule ballI)
  fix d i assume "d \<in> set seeds" "i \<in> set active"
  then show "lift_step (mapped_step kg i (syms ! i) d) = Inr (mat_vec (syms ! i) d)"
    using couples_equal_step [OF assms(1)] assms(2,3) by simp
qed

text \<open>The last check of the builder holds on tables derived from the same mesh and group.\<close>

lemma derived_sources:
  assumes "sym_group (kg, syms)" "\<forall>s\<in>set syms. couples_equal kg s" "derive_irreducible kg syms (grid_rows kg) = Inr (irr, symk, reps)"
    and "set targets = {mat_vec s d |s d. s \<in> set syms \<and> d \<in> set seeds}"
  shows "\<exists>T. assign_sources kg syms (map int irr) (map int symk) nss images targets (map nat (flat_ids kg targets)) = Inr T"
proof -
  let ?full = "grid_rows kg" and ?ids = "map nat (flat_ids kg targets)" and ?irr = "map int irr" and ?sidx = "map int symk"
  have ok: "grid_ok kg" and keeps: "\<And>s. s \<in> set syms \<Longrightarrow> keeps_mesh kg s"
    and mul: "\<And>s t. s \<in> set syms \<Longrightarrow> t \<in> set syms \<Longrightarrow> mat_mul s t \<in> set syms"
    using assms(1) by (auto simp: sym_group_def)
  have full: "?full ! i = unravel kg (int i)" if "i < nat (grid_size kg)" for i using grid_rows_nth [OF ok, of "int i"] that by simp
  have key: "nat (flat_key kg (?full ! i)) = i" if "i < nat (grid_size kg)" for i using key_unravel [OF ok, of "int i"] that full by simp
  have at_key: "?full ! nat (flat_key kg v) = v" if "in_grid kg v" for v
    using full key_range [OF that] unravel_key [OF that] by simp
  note len_full = grid_rows_length [OF ok]
  have len: "length irr = nat (grid_size kg)" "length symk = nat (grid_size kg)"
    and op: "\<And>i. i < nat (grid_size kg) \<Longrightarrow> irr ! i < length reps \<and> symk ! i < length syms \<and> mesh_act kg (syms ! (symk ! i)) (reps ! (irr ! i)) = ?full ! i"
    and same: "\<And>i j. i < nat (grid_size kg) \<Longrightarrow> j < nat (grid_size kg) \<Longrightarrow> irr ! i = irr ! j \<longleftrightarrow> (\<exists>s\<in>set syms. mesh_act kg s (?full ! i) = ?full ! j)"
    and first: "\<And>k. k < length reps \<Longrightarrow> \<exists>i<nat (grid_size kg). reps ! k = ?full ! i \<and> irr ! i = k \<and> (\<forall>j<i. irr ! j < k)"
    using derived_points [OF assms(1) grid_rows_mesh [OF ok]] assms(3) len_full by auto
  have lt: "i < nat (grid_size kg)" if "i \<in> set ?ids" for i using target_id_range [OF ok that] .
  have row: "?full ! (?ids ! t) = vmod (targets ! t) kg" if "t < length targets" for t
    using at_key [OF vmod_in [OF ok]] that by (simp add: flat_ids_def)
  have src: "first_index (?irr ! i) ?irr < nat (grid_size kg) \<and> irr ! first_index (?irr ! i) ?irr = irr ! i \<and>
      reps ! (irr ! i) = ?full ! first_index (?irr ! i) ?irr" if i: "i < nat (grid_size kg)" for i
  proof -
    let ?j = "first_index (?irr ! i) ?irr"
    have m: "?irr ! i \<in> set ?irr" using i len(1) by simp
    have j: "?j < nat (grid_size kg)" "irr ! ?j = irr ! i" using first_index_lt [OF m] first_index_nth [OF m] i len(1) by simp_all
    obtain r where r: "r < nat (grid_size kg)" "reps ! (irr ! i) = ?full ! r" "irr ! r = irr ! i" "\<forall>k<r. irr ! k < irr ! i"
      using first [of "irr ! i"] op [OF i] by auto
    have "?irr ! r = ?irr ! i" using r(1,3) i len(1) by simp
    then have "?j \<le> r" using first_index_le [of r ?irr] r(1) len(1) by simp
    moreover have "\<not> ?j < r" using r(4) j(2) by auto
    ultimately show ?thesis using j r(2) by simp
  qed
  have in_ids: "first_index (?irr ! i) ?irr \<in> set ?ids" if in_i: "i \<in> set ?ids" for i
  proof -
    let ?j = "first_index (?irr ! i) ?irr"
    obtain t where t: "t < length targets" "i = ?ids ! t" using in_i by (auto simp: in_set_conv_nth flat_ids_def)
    obtain s d where v: "s \<in> set syms" "d \<in> set seeds" "targets ! t = mat_vec s d" using assms(4) nth_mem [OF t(1)] by blast
    obtain u where u: "u \<in> set syms" "mesh_act kg u (?full ! i) = ?full ! ?j" using src [OF lt [OF in_i]] same [OF lt [OF in_i], of ?j] by auto
    have "?full ! ?j = vmod (mat_vec (mat_mul u s) d) kg"
      using u(2) row [OF t(1)] v(3) t(2) mat_vec_mod [OF keeps [OF u(1)]] by (simp add: mesh_act_def mat_vec_mul)
    then have "?j = nat (flat_key kg (vmod (mat_vec (mat_mul u s) d) kg))" using key src [OF lt [OF in_i]] by metis
    moreover have "mat_vec (mat_mul u s) d \<in> set targets" using mul [OF u(1) v(1)] v(2) assms(4) by blast
    ultimately show ?thesis by (auto simp: flat_ids_def)
  qed
  have step: "\<exists>m. mapped_step kg (nat (?sidx ! (?ids ! t))) (syms ! nat (?sidx ! (?ids ! t))) (targets ! p) = Inr m \<and> vmod m kg = vmod (targets ! t) kg"
    if t: "t < length ?ids" and p: "p < length ?ids" "?ids ! p = first_index (?irr ! (?ids ! t)) ?irr" for t p
  proof -
    let ?i = "?ids ! t"
    have i: "?i < nat (grid_size kg)" using lt nth_mem [OF t] by blast
    have tp: "t < length targets" "p < length targets" using t p(1) by (simp_all add: flat_ids_def)
    let ?s = "syms ! (symk ! ?i)"
    have s: "?s \<in> set syms" using op [OF i] by simp
    have "vmod (mat_vec ?s (targets ! p)) kg = mesh_act kg ?s (vmod (targets ! p) kg)"
      using mat_vec_mod [OF keeps [OF s]] by (simp add: mesh_act_def)
    also have "\<dots> = mesh_act kg ?s (reps ! (irr ! ?i))" using src [OF i] row [OF tp(2)] p(2) by simp
    also have "\<dots> = vmod (targets ! t) kg" using op [OF i] row [OF tp(1)] by simp
    finally show ?thesis using couples_equal_step [OF ok] assms(2) s i len(2) by simp
  qed
  show ?thesis
    by (rule assign_sources_total) (use in_ids step in \<open>auto simp: flat_ids_def simp del: split_paired_Ex\<close>)
qed

text \<open>
  On the tables that the reduction of the whole mesh derives from a group, with every operation active, the
  stencil is built for all seeds: it is refused only when two of its points fall on one mesh point.
\<close>

theorem stencil_of_derived_tables:
  assumes "sym_group (kg, syms)" "\<forall>s\<in>set syms. couples_equal kg s"
    and "0 < nss" "int (length syms) = nss \<or> int (length syms) = 2 * nss \<and> drop (nat nss) syms = map mat_neg (take (nat nss) syms)"
    and "seeds \<noteq> []" "distinct seeds" "(0, 0, 0) \<notin> set seeds"
    and "find_irreducible_bz_points (grid_rows kg) syms None = Inr (irr, symk, reps)"
  shows "let points = {mat_vec s d |s d. s \<in> set syms \<and> d \<in> set seeds};
      result = q_stencil_orbit_table kg syms (map int irr) (map int symk) seeds nss (map int [0..<length syms])
    in if inj_on (\<lambda>v. vmod v kg) points then \<exists>T. result = Inr T \<and> set (qs_target_steps T) = points
       else \<exists>c. result = Inl (StencilAlias c)"
proof -
  let ?points = "{mat_vec s d |s d. s \<in> set syms \<and> d \<in> set seeds}" and ?active = "map int [0..<length syms]"
  let ?images = "map (\<lambda>d. map (\<lambda>i. mat_vec (syms ! i) d) [0..<length syms]) seeds"
  let ?ts = "sort (remdups (concat ?images))"
  let ?ids = "map nat (flat_ids kg ?ts)"
  have ok: "grid_ok kg" and ne: "syms \<noteq> []" using assms(1) by (auto simp: sym_group_def)
  have run: "derive_irreducible kg syms (grid_rows kg) = Inr (irr, symk, reps)"
    using assms(8) max_extents_mesh [OF grid_rows_mesh [OF ok]] full_mesh_nonempty [OF grid_rows_mesh [OF ok]]
    by (simp add: find_irreducible_bz_points_def Let_def)
  have im: "seed_images kg syms (map nat ?active) seeds = Inr ?images"
    using seed_images_run [OF ok assms(2), of "[0..<length syms]"] by (simp add: comp_def)
  have pts: "set ?ts = ?points"
  proof (rule set_eqI)
    fix v
    have "v \<in> set ?ts \<longleftrightarrow> (\<exists>d\<in>set seeds. \<exists>i<length syms. v = mat_vec (syms ! i) d)" by force
    also have "\<dots> \<longleftrightarrow> v \<in> ?points" unfolding mem_Collect_eq by (metis in_set_conv_nth)
    finally show "v \<in> set ?ts \<longleftrightarrow> v \<in> ?points" .
  qed
  have len: "length irr = nat (grid_size kg)" "length symk = nat (grid_size kg)" "\<forall>s\<in>set symk. s < length syms"
    using derived_points [OF assms(1) grid_rows_mesh [OF ok]] run grid_rows_length [OF ok] by (auto simp: in_set_conv_nth)
  have none: "first_hit (\<lambda>s. s \<notin> set ?active) (map int symk) = None" using len(3) by auto
  have dist: "distinct ?ids \<longleftrightarrow> inj_on (\<lambda>v. vmod v kg) ?points"
  proof -
    have "distinct ?ids \<longleftrightarrow> inj_on (\<lambda>v. nat (flat_key kg (vmod v kg))) (set ?ts)"
      unfolding flat_ids_def map_map comp_def distinct_map distinct_sort by simp
    also have "\<dots> \<longleftrightarrow> inj_on (\<lambda>v. nat (flat_key kg (vmod v kg))) ?points" unfolding pts ..
    also have "\<dots> \<longleftrightarrow> inj_on (\<lambda>v. vmod v kg) ?points"
    proof -
      have "nat (flat_key kg (vmod v kg)) = nat (flat_key kg (vmod w kg)) \<longleftrightarrow> vmod v kg = vmod w kg" for v w
        using key_range [OF vmod_in [OF ok, of v]] key_range [OF vmod_in [OF ok, of w]] key_inj [OF vmod_in [OF ok] vmod_in [OF ok], of v w]
        by (simp add: eq_nat_nat_iff)
      then show ?thesis unfolding inj_on_def by (simp only:)
    qed
    finally show ?thesis .
  qed
  obtain T where T: "assign_sources kg syms (map int irr) (map int symk) nss ?images ?ts ?ids = Inr T"
    using derived_sources [OF assms(1,2) run pts] by blast
  have "q_stencil_orbit_table kg syms (map int irr) (map int symk) seeds nss ?active =
      (if \<not> distinct ?ids then Inl (StencilAlias (collisions ?ids ?ts)) else Inr T)"
  proof -
    have g1: "\<not> (nss \<le> 0 \<or> int (length syms) \<noteq> nss \<and> int (length syms) \<noteq> 2 * nss)" using assms(3,4) by auto
    have g2: "\<not> (int (length syms) = 2 * nss \<and> drop (nat nss) syms \<noteq> map mat_neg (take (nat nss) syms))" using assms(3,4) by auto
    have g3: "\<not> (?active = [] \<or> \<not> distinct ?active \<or> (\<exists>i\<in>set ?active. i < 0 \<or> int (length syms) \<le> i))"
      using ne by (auto simp: distinct_map)
    have g4: "\<not> (length (map int irr) \<noteq> nat (grid_size kg) \<or> length (map int symk) \<noteq> nat (grid_size kg))" using len by simp
    show ?thesis
      unfolding q_stencil_orbit_table_def im andthen_simps Let_def if_not_P [OF g1] if_not_P [OF g2] if_not_P [OF g3] if_not_P [OF g4]
        if_not_P [OF assms(5)] if_not_P [OF assms(7)] none option.case T
      using ok assms(6) by simp
  qed
  moreover have "qs_target_steps T = ?ts" using assign_sources_Inr [OF T] by blast
  ultimately show ?thesis unfolding Let_def dist using pts by auto
qed

text \<open>A square mesh with inversion: two seeds make a stencil of four points with two sources.\<close>

abbreviation square_irr :: "nat list" where
  "square_irr \<equiv> [0, 1, 2, 1, 3, 4, 5, 6, 7, 8, 9, 8, 3, 6, 5, 4]"

abbreviation square_ops :: "nat list" where
  "square_ops \<equiv> [0, 0, 0, 1, 0, 0, 0, 0, 0, 0, 0, 1, 1, 1, 1, 1]"

lemma square_reduced:
  "find_irreducible_bz_points (grid_rows (4, 4, 1)) [mat_id, mat_neg mat_id] None = Inr (square_irr, square_ops,
      [(0, 0, 0), (0, 1, 0), (0, 2, 0), (1, 0, 0), (1, 1, 0), (1, 2, 0), (1, 3, 0), (2, 0, 0), (2, 1, 0), (2, 2, 0)])"
  by code_simp

lemma square_stencil:
  "case q_stencil_orbit_table (4, 4, 1) [mat_id, mat_neg mat_id] (map int square_irr) (map int square_ops) [(1, 0, 0), (0, 1, 0)] 1 [0, 1] of
     Inl _ \<Rightarrow> False | Inr T \<Rightarrow> qs_target_steps T = [(- 1, 0, 0), (0, - 1, 0), (0, 1, 0), (1, 0, 0)] \<and> qs_source_steps T = [(1, 0, 0), (0, 1, 0)]"
  by code_simp

theorem stencil_orbits_exact_witness:
  "\<exists>T. q_stencil_orbit_table (4, 4, 1) [mat_id, mat_neg mat_id] (map int square_irr) (map int square_ops) [(1, 0, 0), (0, 1, 0)] 1 [0, 1] = Inr T \<and>
     sorted (qs_target_steps T) \<and> distinct (qs_source_irr_idx T) \<and> length (qs_target_steps T) = 4"
proof -
  obtain T where T: "q_stencil_orbit_table (4, 4, 1) [mat_id, mat_neg mat_id] (map int square_irr) (map int square_ops) [(1, 0, 0), (0, 1, 0)] 1 [0, 1] = Inr T"
      "length (qs_target_steps T) = 4" using square_stencil by (auto split: sum.splits)
  then show ?thesis using stencil_orbits_exact [OF T(1)] by blast
qed

theorem stencil_of_derived_tables_witness:
  "\<exists>T. q_stencil_orbit_table (4, 4, 1) [mat_id, mat_neg mat_id] (map int square_irr) (map int square_ops) [(1, 0, 0), (0, 1, 0)] 1
       (map int [0..<length [mat_id, mat_neg mat_id]]) = Inr T"
proof -
  let ?syms = "[mat_id, mat_neg mat_id]" and ?seeds = "[(1, 0, 0), (0, 1, 0)] :: ivec list"
  let ?P = "{mat_vec s d |s d. s \<in> set ?syms \<and> d \<in> set ?seeds}" and ?four = "{(1, 0, 0), (0, 1, 0), (- 1, 0, 0), (0, - 1, 0)} :: ivec set"
  have sub: "?P \<subseteq> ?four" by (auto simp: mat_id_def)
  have "inj_on (\<lambda>v. vmod v (4, 4, 1)) ?four" by (simp add: inj_on_def)
  from inj_on_subset [OF this sub] have inj: "inj_on (\<lambda>v. vmod v (4, 4, 1)) ?P" .
  have "sym_group ((4, 4, 1), ?syms)" "\<forall>s\<in>set ?syms. couples_equal (4, 4, 1) s" "(0 :: int) < 1"
    "int (length ?syms) = 1 \<or> int (length ?syms) = 2 * 1 \<and> drop (nat 1) ?syms = map mat_neg (take (nat 1) ?syms)"
    "?seeds \<noteq> []" "distinct ?seeds" "(0, 0, 0) \<notin> set ?seeds"
    using inversion_group [of "(4, 4, 1)"] by (simp_all add: mat_id_def)
  from stencil_of_derived_tables [OF this square_reduced, unfolded Let_def if_P [OF inj]] show ?thesis by blast
qed

end
