(* ===== verification/QgridTrs.thy ===== *)
theory QgridTrs
  imports RowTables
begin

text \<open>
  The pairing of q and -q of \<open>services/symmetry_maps/src/symmetry_maps/qgrid_trs.py\<close>:
  \<open>minus_q_parent_partners\<close> finds the parent and unitary operation that carry -q of each parent,
  \<open>self_negative_q_mask\<close> the points that are their own negatives, and
  \<open>trs_pair_coherent_unfold_sym_idx\<close> rewrites an unfold table so that one point of each pair uses the
  operation of the other composed with time reversal.

  Points are rows of the mesh in C order; operations act on their integer coordinates modulo the mesh. The
  shape checks on NumPy arrays are carried by the types, the others are the first error.
\<close>

section \<open>The code\<close>

datatype trs_error =
    PartnerTables
  | PartnerConvention nat nat
  | IndexOutside
  | OnlyAntiunitary nat nat int
  | MaskRange "int list"
  | PairTableShapes nat nat
  | PairSymRange int int
  | PairParents nat int nat int
  | TrsGrid grid_error

definition lift_grid :: "(grid_error, 'a) result \<Rightarrow> (trs_error, 'a) result" where
  "lift_grid r = (case r of Inl e \<Rightarrow> Inl (TrsGrid e) | Inr a \<Rightarrow> Inr a)"

definition point_row :: "ivec \<Rightarrow> nat \<Rightarrow> ivec" where
  "point_row kg i = unravel kg (int i)"

text \<open>Indexing with a signed index: NumPy counts a negative one from the end.\<close>

definition py_at :: "'a list \<Rightarrow> int \<Rightarrow> 'a" where
  "py_at xs i = the (py_index xs i)"

definition py_index_ok :: "'a list \<Rightarrow> int \<Rightarrow> bool" where
  "py_index_ok xs i \<longleftrightarrow> py_index xs i \<noteq> None"

text \<open>One parent: the row of the table if it may be used, else the first allowed unitary one.\<close>

definition partner_of ::
    "ivec \<Rightarrow> imat list \<Rightarrow> bool list \<Rightarrow> bool list \<Rightarrow> nat list \<Rightarrow> int list \<Rightarrow> nat list \<Rightarrow> nat list \<Rightarrow> nat \<Rightarrow> nat \<Rightarrow>
     (trs_error, int \<times> nat) result" where
  "partner_of kg mats anti allowed full irr symk neg p q =
     (let target = neg ! q; parent = irr ! target; row = symk ! target
      in if \<not> allowed ! row \<or> anti ! row
         then case first_hit (\<lambda>s. allowed ! s \<and> \<not> anti ! s \<and> mesh_act kg (mats ! s) (point_row kg (py_at full parent)) = point_row kg target)
                [0..<length mats] of
              None \<Rightarrow> Inl (OnlyAntiunitary p row parent)
            | Some s \<Rightarrow> Inr (parent, s)
         else Inr (parent, row))"

definition minus_q_parent_partners ::
    "int list \<Rightarrow> int list \<Rightarrow> int list \<Rightarrow> ivec \<Rightarrow> imat list \<Rightarrow> bool list \<Rightarrow> int list \<Rightarrow> (trs_error, (int \<times> nat) list) result" where
  "minus_q_parent_partners full irr symk kg mats anti rows =
     (let n_full = nat (grid_size kg); n_sym = int (length mats)
      in if length irr \<noteq> n_full \<or> length symk \<noteq> n_full \<or> length anti \<noteq> length mats \<or>
           (\<exists>s\<in>set rows. s < 0 \<or> n_sym \<le> s) \<or> (\<exists>s\<in>set symk. s < 0 \<or> n_sym \<le> s) \<or>
           (\<exists>q\<in>set full. q < 0 \<or> int n_full \<le> q) \<or> map (\<lambda>q. irr ! nat q) full \<noteq> map int [0..<length full]
         then Inl PartnerTables
         else if \<exists>i\<in>set irr. \<not> py_index_ok full i then Inl IndexOutside
         else
           let allowed = map (\<lambda>s. int s \<in> set rows) [0..<length mats]; rows_full = map nat full
           in case first_hit (\<lambda>q. mesh_act kg (mats ! nat (symk ! q)) (point_row kg (py_at rows_full (irr ! q))) \<noteq> point_row kg q) [0..<n_full] of
                Some bad \<Rightarrow> Inl (PartnerConvention bad (nat (symk ! bad)))
              | None \<Rightarrow>
                  andthen (lift_grid (q_negation_index kg)) (\<lambda>neg.
                    mapE (\<lambda>(p, q). partner_of kg mats anti allowed rows_full irr (map nat symk) (map nat neg) p q) (enumerate 0 rows_full)))"

definition self_negative_q_mask :: "int list \<Rightarrow> ivec \<Rightarrow> (trs_error, bool list) result" where
  "self_negative_q_mask qidx kg =
     (if \<exists>q\<in>set qidx. q < 0 \<or> grid_size kg \<le> q then Inl (MaskRange qidx)
      else Inr (map (\<lambda>q. let v = unravel kg q in vmod (vadd v v) kg = (0, 0, 0)) qidx))"

text \<open>One step of the loop over pairs, on the rows chosen so far.\<close>

definition pair_step ::
    "int list \<Rightarrow> int list \<Rightarrow> int \<Rightarrow> nat set \<Rightarrow> nat \<Rightarrow> nat \<Rightarrow> int list \<Rightarrow> (trs_error, int list) result" where
  "pair_step irr original nss reps iq jq out =
     (if jq \<le> iq then Inr out
      else if irr ! iq \<noteq> irr ! jq then Inl (PairParents iq (irr ! iq) jq (irr ! jq))
      else
        let source = (if iq \<in> reps then iq else if jq \<in> reps then jq
                      else if (original ! iq < nss) \<noteq> (original ! jq < nss) then (if original ! iq < nss then iq else jq)
                      else iq);
            partner = (if source = iq then jq else iq);
            row = original ! source
        in Inr (out [partner := (if row < nss then row + nss else row - nss)]))"

definition trs_pair_coherent_unfold_sym_idx ::
    "int list \<Rightarrow> int list \<Rightarrow> ivec \<Rightarrow> int list \<Rightarrow> int \<Rightarrow> (trs_error, int list) result" where
  "trs_pair_coherent_unfold_sym_idx irr original kg q_irr_full_idx nss =
     (let n_full = nat (grid_size kg)
      in if length irr \<noteq> n_full \<or> length original \<noteq> n_full then Inl (PairTableShapes (length irr) (length original))
         else if nss \<le> 0 \<or> (\<exists>s\<in>set original. s < 0 \<or> 2 * nss \<le> s)
           then Inl (if original = [] then PairSymRange 0 (- 1) else PairSymRange (Min (set original)) (Max (set original)))
         else
           let reps = set q_irr_full_idx
           in if card reps = n_full then Inr original
              else andthen (lift_grid (q_negation_index kg)) (\<lambda>neg.
                fold (\<lambda>(iq, jq) r. andthen r (pair_step irr original nss (nat ` {q \<in> reps. 0 \<le> q}) iq (nat jq)))
                  (enumerate 0 neg) (Inr original)))"

section \<open>Negation\<close>

lemma q_negation_run:
  assumes "grid_ok kg" "grid_size kg \<le> 2 ^ 31"
  shows "\<exists>neg. q_negation_index kg = Inr neg \<and> length neg = nat (grid_size kg) \<and>
    (\<forall>i<nat (grid_size kg). nat (neg ! i) < nat (grid_size kg) \<and> 0 \<le> neg ! i \<and>
      point_row kg (nat (neg ! i)) = vmod (vneg (point_row kg i)) kg \<and> nat (neg ! nat (neg ! i)) = i)"
proof -
  let ?f = "\<lambda>i. flat_key kg (vmod (vneg (unravel kg i)) kg)"
  let ?neg = "map (\<lambda>i. to_i32 (?f i)) [0..grid_size kg - 1]"
  have r: "0 \<le> ?f i" "?f i < grid_size kg" for i using key_range [OF vmod_in [OF assms(1)]] by auto
  have at: "?neg ! i = ?f (int i)" if "i < nat (grid_size kg)" for i
    using that to_i32_key [OF vmod_in [OF assms(1)] assms(2)] by simp
  have row: "point_row kg (nat (?f i)) = vmod (vneg (unravel kg i)) kg" for i
    using r unravel_key [OF vmod_in [OF assms(1)]] by (simp add: point_row_def)
  have two: "nat (?neg ! nat (?neg ! i)) = i" if "i < nat (grid_size kg)" for i
  proof -
    have i: "0 \<le> int i" "int i < grid_size kg" using that by simp_all
    have "nat (?f (int i)) < nat (grid_size kg)" using r [of "int i"] by simp
    then have "?neg ! nat (?neg ! i) = ?f (?f (int i))"
      using at [OF that] at [of "nat (?f (int i))"] r [of "int i"] by (simp del: nth_map)
    also have "\<dots> = flat_key kg (vmod (vneg (vmod (vneg (unravel kg (int i))) kg)) kg)"
      using unravel_key [OF vmod_in [OF assms(1)]] by simp
    also have "\<dots> = int i" using unravel_in [OF assms(1) i] key_unravel [OF assms(1) i] by simp
    finally show ?thesis by simp
  qed
  show ?thesis
  proof (intro exI conjI allI impI)
    show "q_negation_index kg = Inr ?neg" using assms(1) by (simp add: q_negation_index_def)
    show "length ?neg = nat (grid_size kg)" by simp
    fix i assume i: "i < nat (grid_size kg)"
    note e = at [OF i] and ri = r [of "int i"]
    show "nat (?neg ! i) < nat (grid_size kg)" "0 \<le> ?neg ! i" unfolding e using ri by simp_all
    show "point_row kg (nat (?neg ! i)) = vmod (vneg (point_row kg i)) kg" unfolding e using row [of "int i"] by (simp only: point_row_def)
    show "nat (?neg ! nat (?neg ! i)) = i" by (rule two [OF i])
  qed
qed

section \<open>Partners of parents\<close>

lemma point_row_inj:
  assumes "grid_ok kg" "i < nat (grid_size kg)" "j < nat (grid_size kg)" "point_row kg i = point_row kg j"
  shows "i = j"
proof -
  have "flat_key kg (unravel kg (int i)) = flat_key kg (unravel kg (int j))" using assms(4) by (simp only: point_row_def)
  then show ?thesis using key_unravel [OF assms(1), of "int i"] key_unravel [OF assms(1), of "int j"] assms(2,3) by simp
qed

lemma partner_of_cases:
  assumes "symk ! (neg ! q) < length mats"
    and "mesh_act kg (mats ! (symk ! (neg ! q))) (point_row kg (py_at full (irr ! (neg ! q)))) = point_row kg (neg ! q)"
  shows "case partner_of kg mats anti allowed full irr symk neg p q of
    Inr (parent, s) \<Rightarrow> parent = irr ! (neg ! q) \<and> s < length mats \<and> allowed ! s \<and> \<not> anti ! s \<and>
      mesh_act kg (mats ! s) (point_row kg (py_at full parent)) = point_row kg (neg ! q)
  | Inl e \<Rightarrow> e = OnlyAntiunitary p (symk ! (neg ! q)) (irr ! (neg ! q)) \<and>
      (\<forall>s<length mats. allowed ! s \<and> \<not> anti ! s \<longrightarrow> mesh_act kg (mats ! s) (point_row kg (py_at full (irr ! (neg ! q)))) \<noteq> point_row kg (neg ! q))"
proof (cases "\<not> allowed ! (symk ! (neg ! q)) \<or> anti ! (symk ! (neg ! q))")
  case True
  let ?hit = "first_hit (\<lambda>s. allowed ! s \<and> \<not> anti ! s \<and>
    mesh_act kg (mats ! s) (point_row kg (py_at full (irr ! (neg ! q)))) = point_row kg (neg ! q)) [0..<length mats]"
  show ?thesis
  proof (cases ?hit)
    case None
    then have "\<forall>s<length mats. allowed ! s \<and> \<not> anti ! s \<longrightarrow>
        mesh_act kg (mats ! s) (point_row kg (py_at full (irr ! (neg ! q)))) \<noteq> point_row kg (neg ! q)"
      unfolding first_hit_None by (metis atLeastLessThan_upt atLeast0LessThan lessThan_iff)
    then show ?thesis unfolding partner_of_def Let_def if_P [OF True] None by simp
  next
    case (Some s)
    then have "s < length mats \<and> allowed ! s \<and> \<not> anti ! s \<and>
        mesh_act kg (mats ! s) (point_row kg (py_at full (irr ! (neg ! q)))) = point_row kg (neg ! q)"
      unfolding first_hit_Some by auto
    then show ?thesis unfolding partner_of_def Let_def if_P [OF True] Some by simp
  qed
next
  case False
  then show ?thesis unfolding partner_of_def Let_def if_not_P [OF False] using assms by simp
qed

text \<open>The checks, and the loop they leave.\<close>

lemma minus_q_checks:
  fixes full rows irr symk :: "int list" and mats :: "imat list" and kg :: ivec and anti :: "bool list"
  assumes "q_negation_index kg = Inr neg"
  defines "rf \<equiv> map nat full" and "allowed \<equiv> map (\<lambda>s. int s \<in> set rows) [0..<length mats]" and "n \<equiv> nat (grid_size kg)"
  obtains e where "minus_q_parent_partners full irr symk kg mats anti rows = Inl e" "e = PartnerTables \<or> e = IndexOutside \<or> (\<exists>a b. e = PartnerConvention a b)"
  | "minus_q_parent_partners full irr symk kg mats anti rows =
      mapE (\<lambda>(p, q). partner_of kg mats anti allowed rf irr (map nat symk) (map nat neg) p q) (enumerate 0 rf)"
    "length irr = n" "length symk = n" "\<forall>s\<in>set symk. 0 \<le> s \<and> s < int (length mats)" "\<forall>q\<in>set full. 0 \<le> q \<and> q < int n"
    "map (\<lambda>q. irr ! nat q) full = map int [0..<length full]" "\<forall>i\<in>set irr. py_index_ok full i"
    "\<forall>q<n. mesh_act kg (mats ! nat (symk ! q)) (point_row kg (py_at rf (irr ! q))) = point_row kg q"
proof -
  note run = minus_q_parent_partners_def [of full irr symk kg mats anti rows, folded rf_def allowed_def n_def, unfolded Let_def, folded rf_def allowed_def n_def]
  let ?P = "length irr \<noteq> n \<or> length symk \<noteq> n \<or> length anti \<noteq> length mats \<or>
           (\<exists>s\<in>set rows. s < 0 \<or> int (length mats) \<le> s) \<or> (\<exists>s\<in>set symk. s < 0 \<or> int (length mats) \<le> s) \<or>
           (\<exists>q\<in>set full. q < 0 \<or> int n \<le> q) \<or> map (\<lambda>q. irr ! nat q) full \<noteq> map int [0..<length full]"
  let ?hit = "first_hit (\<lambda>q. mesh_act kg (mats ! nat (symk ! q)) (point_row kg (py_at rf (irr ! q))) \<noteq> point_row kg q) [0..<n]"
  consider ?P | "\<not> ?P" "\<exists>i\<in>set irr. \<not> py_index_ok full i" | bad where "\<not> ?P" "\<not> (\<exists>i\<in>set irr. \<not> py_index_ok full i)" "?hit = Some bad"
    | "\<not> ?P" "\<not> (\<exists>i\<in>set irr. \<not> py_index_ok full i)" "?hit = None"
    by (cases ?hit) blast+
  then show thesis
  proof cases
    case 1
    then have "minus_q_parent_partners full irr symk kg mats anti rows = Inl PartnerTables" unfolding run by (rule if_P)
    then show thesis using that(1) by blast
  next
    case 2
    have "minus_q_parent_partners full irr symk kg mats anti rows = Inl IndexOutside"
      unfolding run if_not_P [OF 2(1)] using 2(2) by (rule if_P)
    then show thesis using that(1) by blast
  next
    case 3
    have "minus_q_parent_partners full irr symk kg mats anti rows = Inl (PartnerConvention bad (nat (symk ! bad)))"
      unfolding run if_not_P [OF 3(1)] if_not_P [OF 3(2)] 3(3) by simp
    then show thesis using that(1) by blast
  next
    case 4
    have r: "minus_q_parent_partners full irr symk kg mats anti rows =
        mapE (\<lambda>(p, q). partner_of kg mats anti allowed rf irr (map nat symk) (map nat neg) p q) (enumerate 0 rf)"
      unfolding run if_not_P [OF 4(1)] if_not_P [OF 4(2)] 4(3) assms(1) by (simp add: lift_grid_def)
    have "\<forall>q<n. mesh_act kg (mats ! nat (symk ! q)) (point_row kg (py_at rf (irr ! q))) = point_row kg q"
      using 4(3) unfolding first_hit_None by simp
    with r show thesis using that(2) 4(1,2) by (simp add: not_le not_less)
  qed
qed

text \<open>
  C37: On tables that pass the checks, every parent \<open>p\<close> is given the representative of \<open>-q(p)\<close> and an authorized
  unitary operation that carries its point to \<open>-q(p)\<close>; a parent that is its own negative is its own partner.
  When a parent is refused, no authorized unitary operation reaches its negative.
\<close>

theorem minus_q_partners_exact:
  assumes "grid_ok kg" "grid_size kg \<le> 2 ^ 31"
  shows "case minus_q_parent_partners full irr symk kg mats anti rows of
    Inr ps \<Rightarrow> length ps = length full \<and> (\<forall>p<length full.
      let q = point_row kg (nat (full ! p)); (parent, s) = ps ! p in
        int s \<in> set rows \<and> s < length mats \<and> \<not> anti ! s \<and> py_index_ok full parent \<and>
        mesh_act kg (mats ! s) (point_row kg (nat (py_at full parent))) = vmod (vneg q) kg \<and>
        (vmod (vneg q) kg = q \<longrightarrow> parent = int p))
  | Inl (OnlyAntiunitary p row parent) \<Rightarrow> p < length full \<and> py_index_ok full parent \<and> (\<forall>s<length mats. int s \<in> set rows \<and> \<not> anti ! s \<longrightarrow>
      mesh_act kg (mats ! s) (point_row kg (nat (py_at full parent))) \<noteq> vmod (vneg (point_row kg (nat (full ! p)))) kg)
  | Inl _ \<Rightarrow> True"
proof -
  let ?n = "nat (grid_size kg)" and ?rf = "map nat full" and ?allowed = "map (\<lambda>s. int s \<in> set rows) [0..<length mats]"
  obtain neg where neg: "q_negation_index kg = Inr neg" "length neg = ?n"
    and neg_row: "\<And>i. i < ?n \<Longrightarrow> nat (neg ! i) < ?n \<and> point_row kg (nat (neg ! i)) = vmod (vneg (point_row kg i)) kg"
    using q_negation_run [OF assms] by blast
  have at: "py_at ?rf i = nat (py_at full i)" if "py_index_ok full i" for i
    using that by (auto simp: py_at_def py_index_ok_def py_index_def Let_def nat_less_iff split: if_splits)
  show ?thesis
  proof (cases rule: minus_q_checks [OF neg(1), of full irr symk mats anti rows])
    case (1 e)
    then show ?thesis by auto
  next
    case 2
    let ?f = "\<lambda>(p, q). partner_of kg mats anti ?allowed ?rf irr (map nat symk) (map nat neg) p q"
    have parent: "case ?f (p, ?rf ! p) of
        Inr (parent, s) \<Rightarrow> parent = irr ! nat (neg ! (?rf ! p)) \<and> s < length mats \<and> ?allowed ! s \<and> \<not> anti ! s \<and>
          mesh_act kg (mats ! s) (point_row kg (py_at ?rf parent)) = point_row kg (nat (neg ! (?rf ! p)))
      | Inl e \<Rightarrow> e = OnlyAntiunitary p (map nat symk ! nat (neg ! (?rf ! p))) (irr ! nat (neg ! (?rf ! p))) \<and>
          (\<forall>s<length mats. ?allowed ! s \<and> \<not> anti ! s \<longrightarrow>
            mesh_act kg (mats ! s) (point_row kg (py_at ?rf (irr ! nat (neg ! (?rf ! p))))) \<noteq> point_row kg (nat (neg ! (?rf ! p))))"
      and range: "py_index_ok full (irr ! nat (neg ! (?rf ! p)))" "?rf ! p < ?n" "nat (neg ! (?rf ! p)) < ?n"
      and negative: "point_row kg (nat (neg ! (?rf ! p))) = vmod (vneg (point_row kg (nat (full ! p)))) kg"
      if p: "p < length full" for p
    proof -
      have "full ! p \<in> set full" using p by simp
      then have "0 \<le> full ! p" "full ! p < grid_size kg" using 2(5) grid_size_pos [OF assms(1)] by auto
      then show q: "?rf ! p < ?n" using p by simp
      note n = neg_row [OF q]
      show "point_row kg (nat (neg ! (?rf ! p))) = vmod (vneg (point_row kg (nat (full ! p)))) kg" using n p by simp
      show t: "nat (neg ! (?rf ! p)) < ?n" using n by simp
      then have "irr ! nat (neg ! (?rf ! p)) \<in> set irr" "symk ! nat (neg ! (?rf ! p)) \<in> set symk" using 2(2,3) by simp_all
      then show "py_index_ok full (irr ! nat (neg ! (?rf ! p)))" using 2(7) by blast
      have s: "nat (symk ! nat (neg ! (?rf ! p))) < length mats"
        using 2(4) \<open>symk ! nat (neg ! (?rf ! p)) \<in> set symk\<close> by (auto simp: nat_less_iff)
      have m: "map nat neg ! (?rf ! p) = nat (neg ! (?rf ! p))" using q neg(2) by simp
      show "case ?f (p, ?rf ! p) of
        Inr (parent, s) \<Rightarrow> parent = irr ! nat (neg ! (?rf ! p)) \<and> s < length mats \<and> ?allowed ! s \<and> \<not> anti ! s \<and>
          mesh_act kg (mats ! s) (point_row kg (py_at ?rf parent)) = point_row kg (nat (neg ! (?rf ! p)))
      | Inl e \<Rightarrow> e = OnlyAntiunitary p (map nat symk ! nat (neg ! (?rf ! p))) (irr ! nat (neg ! (?rf ! p))) \<and>
          (\<forall>s<length mats. ?allowed ! s \<and> \<not> anti ! s \<longrightarrow>
            mesh_act kg (mats ! s) (point_row kg (py_at ?rf (irr ! nat (neg ! (?rf ! p))))) \<noteq> point_row kg (nat (neg ! (?rf ! p))))"
        unfolding prod.case
        using partner_of_cases [where symk = "map nat symk" and neg = "map nat neg" and q = "?rf ! p" and mats = mats and kg = kg and full = ?rf
          and irr = irr and anti = anti and allowed = ?allowed and p = p, unfolded m] s t 2(3,8) by (simp only: nth_map)
    qed
    show ?thesis
    proof (cases "mapE ?f (enumerate 0 ?rf)")
      case (Inl e)
      then obtain p where p: "p < length full" "?f (p, ?rf ! p) = Inl e"
        using mapE_refused [OF Inl] by (auto simp: in_set_enumerate_eq)
      have "e = OnlyAntiunitary p (map nat symk ! nat (neg ! (?rf ! p))) (irr ! nat (neg ! (?rf ! p)))"
        and none: "\<And>s. s < length mats \<Longrightarrow> int s \<in> set rows \<Longrightarrow> \<not> anti ! s \<Longrightarrow>
          mesh_act kg (mats ! s) (point_row kg (py_at ?rf (irr ! nat (neg ! (?rf ! p))))) \<noteq> vmod (vneg (point_row kg (nat (full ! p)))) kg"
        using parent [OF p(1), unfolded p(2)] negative [OF p(1)] by (simp_all del: map_upt_Suc)
      then show ?thesis
        unfolding 2(1) Inl using p(1) none range(1) [OF p(1)] at [OF range(1) [OF p(1)]] by simp
    next
      case (Inr ps)
      have len: "length ps = length full" and run: "\<And>p. p < length full \<Longrightarrow> ?f (p, ?rf ! p) = Inr (ps ! p)"
        using mapE_nth [OF Inr] by (simp_all add: nth_enumerate_eq)
      have "let q = point_row kg (nat (full ! p)); (parent, s) = ps ! p in
        int s \<in> set rows \<and> s < length mats \<and> \<not> anti ! s \<and> py_index_ok full parent \<and>
        mesh_act kg (mats ! s) (point_row kg (nat (py_at full parent))) = vmod (vneg q) kg \<and>
        (vmod (vneg q) kg = q \<longrightarrow> parent = int p)" if p: "p < length full" for p
      proof -
        obtain r s where rs: "ps ! p = (r, s)" by (cases "ps ! p")
        have f: "r = irr ! nat (neg ! (?rf ! p))" "s < length mats" "int s \<in> set rows" "\<not> anti ! s"
            "mesh_act kg (mats ! s) (point_row kg (py_at ?rf r)) = vmod (vneg (point_row kg (nat (full ! p)))) kg"
          using parent [OF p, unfolded run [OF p] rs] negative [OF p] by auto
        have ok: "py_index_ok full r" using range(1) [OF p] f(1) by simp
        have "r = int p" if self: "vmod (vneg (point_row kg (nat (full ! p)))) kg = point_row kg (nat (full ! p))"
        proof -
          have "point_row kg (nat (neg ! (?rf ! p))) = point_row kg (?rf ! p)" using negative [OF p] self p by simp
          then have "nat (neg ! (?rf ! p)) = ?rf ! p" using point_row_inj [OF assms(1)] range(2,3) [OF p] by blast
          then have "r = map (\<lambda>q. irr ! nat q) full ! p" using f(1) p by simp
          then show ?thesis using 2(6) p by simp
        qed
        then show ?thesis using f at [OF ok] ok by (simp add: rs Let_def)
      qed
      then show ?thesis unfolding 2(1) Inr using len by simp
    qed
  qed
qed

theorem minus_q_partners_exact_witness:
  "\<exists>ps. minus_q_parent_partners [0, 1] [0, 1, 1] [0, 0, 1] (3, 1, 1) [mat_id, mat_neg mat_id] [False, False] [0, 1] = Inr ps \<and>
     length ps = 2 \<and> snd (ps ! 1) = 1"
proof -
  have run: "minus_q_parent_partners [0, 1] [0, 1, 1] [0, 0, 1] (3, 1, 1) [mat_id, mat_neg mat_id] [False, False] [0, 1] = Inr [(0, 0), (1, 1)]"
    by code_simp
  then show ?thesis
    using minus_q_partners_exact [where kg = "(3, 1, 1)" and full = "[0, 1]" and irr = "[0, 1, 1]" and symk = "[0, 0, 1]"
        and mats = "[mat_id, mat_neg mat_id]" and anti = "[False, False]" and rows = "[0, 1]"] by simp
qed

section \<open>Pairs that share an operation\<close>

text \<open>The mask of self-negative rows marks the fixed points of negation.\<close>

lemma self_negative_iff:
  assumes "grid_ok kg" "i < nat (grid_size kg)"
  shows "vmod (vadd (point_row kg i) (point_row kg i)) kg = (0, 0, 0) \<longleftrightarrow> vmod (vneg (point_row kg i)) kg = point_row kg i"
proof -
  have g: "in_grid kg (point_row kg i)" using unravel_in [OF assms(1), of "int i"] assms(2) by (simp add: point_row_def)
  obtain nx ny nz x y z where v: "kg = (nx, ny, nz)" "point_row kg i = (x, y, z)" by (cases kg; cases "point_row kg i")
  have one: "(a + a) mod n = 0 \<longleftrightarrow> (- a) mod n = a" if "0 \<le> a" "a < n" for a n :: int
  proof -
    have "(- a) mod n = a mod n \<longleftrightarrow> n dvd - a - a" by (rule mod_eq_dvd_iff)
    also have "- a - a = - (a + a)" by simp
    finally show ?thesis using that by (simp add: dvd_eq_mod_eq_0 [symmetric])
  qed
  show ?thesis using g one by (simp only: v(2)) (simp add: v(1))
qed

text \<open>What one pair leaves: the source keeps its row, its partner takes the time-reversed one.\<close>

definition pair_source :: "int list \<Rightarrow> int \<Rightarrow> nat set \<Rightarrow> nat \<Rightarrow> nat \<Rightarrow> nat" where
  "pair_source original nss reps iq jq =
     (if iq \<in> reps then iq else if jq \<in> reps then jq
      else if (original ! iq < nss) \<noteq> (original ! jq < nss) then (if original ! iq < nss then iq else jq) else iq)"

definition reversed_row :: "int \<Rightarrow> int \<Rightarrow> int" where
  "reversed_row nss row = (if row < nss then row + nss else row - nss)"

definition paired_row :: "int list \<Rightarrow> int \<Rightarrow> nat set \<Rightarrow> nat \<Rightarrow> nat \<Rightarrow> int" where
  "paired_row original nss reps q r =
     (let source = pair_source original nss reps (min q r) (max q r)
      in if q = r \<or> q = source then original ! q else reversed_row nss (original ! r))"

lemma pair_step_run:
  "iq < jq \<Longrightarrow> irr ! iq = irr ! jq \<Longrightarrow> jq < length out \<Longrightarrow> out ! iq = original ! iq \<Longrightarrow> out ! jq = original ! jq \<Longrightarrow>
   \<exists>out'. pair_step irr original nss reps iq jq out = Inr out' \<and> length out' = length out \<and> out' ! iq = paired_row original nss reps iq jq \<and>
     out' ! jq = paired_row original nss reps jq iq \<and> (\<forall>q. q \<noteq> iq \<and> q \<noteq> jq \<longrightarrow> out' ! q = out ! q)"
  by (auto simp: pair_step_def paired_row_def pair_source_def reversed_row_def Let_def)

lemma pair_loop:
  assumes "\<forall>q<n. nat (neg ! q) < n \<and> nat (neg ! nat (neg ! q)) = q" "length neg = n" "length original = n" "k \<le> n"
  shows "case fold (\<lambda>(iq, jq) r. andthen r (pair_step irr original nss reps iq (nat jq))) (enumerate 0 (take k neg)) (Inr original) of
    Inr out \<Rightarrow> length out = n \<and> (\<forall>q<n. out ! q =
        (if q < k \<or> nat (neg ! q) < k then paired_row original nss reps q (nat (neg ! q)) else original ! q)) \<and>
      (\<forall>q<k. irr ! q = irr ! nat (neg ! q) \<or> nat (neg ! q) < q)
  | Inl e \<Rightarrow> \<exists>q<n. e = PairParents q (irr ! q) (nat (neg ! q)) (irr ! nat (neg ! q)) \<and> irr ! q \<noteq> irr ! nat (neg ! q)"
  using assms(4)
proof (induction k)
  case 0
  then show ?case using assms(3) by simp
next
  case (Suc k)
  let ?f = "\<lambda>(iq, jq) r. andthen r (pair_step irr original nss reps iq (nat jq))"
  let ?r = "fold ?f (enumerate 0 (take k neg)) (Inr original)" and ?j = "nat (neg ! k)"
  have k: "k < n" using Suc.prems by simp
  have split: "fold ?f (enumerate 0 (take (Suc k) neg)) (Inr original) = andthen ?r (pair_step irr original nss reps k ?j)"
    using k assms(2) by (simp add: take_Suc_conv_app_nth enumerate_append_eq)
  have j: "?j < n" "nat (neg ! ?j) = k" using assms(1) k by auto
  show ?case
  proof (cases ?r)
    case (Inl e)
    then show ?thesis unfolding split using Suc by simp
  next
    case (Inr out)
    have out: "length out = n" "\<And>q. q < n \<Longrightarrow> out ! q =
        (if q < k \<or> nat (neg ! q) < k then paired_row original nss reps q (nat (neg ! q)) else original ! q)"
        "\<And>q. q < k \<Longrightarrow> irr ! q = irr ! nat (neg ! q) \<or> nat (neg ! q) < q"
      using Suc Inr by auto
    consider "?j \<le> k" | "k < ?j" "irr ! k \<noteq> irr ! ?j" | "k < ?j" "irr ! k = irr ! ?j" by linarith
    then show ?thesis
    proof cases
      case 1
      have same: "(if q < Suc k \<or> nat (neg ! q) < Suc k then paired_row original nss reps q (nat (neg ! q)) else original ! q) =
          (if q < k \<or> nat (neg ! q) < k then paired_row original nss reps q (nat (neg ! q)) else original ! q)" if q: "q < n" for q
      proof (cases "q = k \<and> ?j = k")
        case True
        then show ?thesis by (simp add: paired_row_def)
      next
        case False
        have "nat (neg ! q) = k \<Longrightarrow> q = ?j" using assms(1) q by metis
        then have "q < Suc k \<or> nat (neg ! q) < Suc k \<longleftrightarrow> q < k \<or> nat (neg ! q) < k" using 1 False by (auto simp: less_Suc_eq)
        then show ?thesis by simp
      qed
      have "pair_step irr original nss reps k ?j out = Inr out" using 1 by (simp add: pair_step_def)
      moreover have "irr ! q = irr ! nat (neg ! q) \<or> nat (neg ! q) < q" if "q < Suc k" for q
        using that out(3) [of q] 1 by (cases "q = k") (auto simp: less_Suc_eq le_less)
      ultimately show ?thesis unfolding split Inr andthen_simps using out(1,2) same by simp
    next
      case 2
      then show ?thesis unfolding split Inr using k by (auto simp: pair_step_def)
    next
      case 3
      have same: "out ! k = original ! k" "out ! ?j = original ! ?j" using out(2) [OF k] out(2) [OF j(1)] 3(1) j(2) by auto
      obtain out' where o: "pair_step irr original nss reps k ?j out = Inr out'" "length out' = length out"
          "out' ! k = paired_row original nss reps k ?j" "out' ! ?j = paired_row original nss reps ?j k"
          "\<forall>q. q \<noteq> k \<and> q \<noteq> ?j \<longrightarrow> out' ! q = out ! q"
        using pair_step_run [OF 3, of out original nss reps] same j(1) out(1) by auto
      have onto: "nat (neg ! q) = k \<Longrightarrow> q = ?j" if "q < n" for q using assms(1) that by metis
      have "out' ! q = (if q < Suc k \<or> nat (neg ! q) < Suc k then paired_row original nss reps q (nat (neg ! q)) else original ! q)"
        if q: "q < n" for q
      proof -
        consider "q = k" | "q = ?j" | "q \<noteq> k" "q \<noteq> ?j" by blast
        then show ?thesis
        proof cases
          case 1
          then show ?thesis using o(3) by simp
        next
          case 2
          then show ?thesis using o(4) j(2) by simp
        next
          case 3
          then have "q < Suc k \<or> nat (neg ! q) < Suc k \<longleftrightarrow> q < k \<or> nat (neg ! q) < k" using onto [OF q] by (auto simp: less_Suc_eq)
          then show ?thesis using o(5) out(2) [OF q] 3 by simp
        qed
      qed
      then show ?thesis unfolding split Inr andthen_simps o(1) using o(2) out(1,3) 3 by (simp add: less_Suc_eq)
    qed
  qed
qed

text \<open>A table names, for every row, a representative and an operation of \<open>[S, -S]\<close> that carries it there.\<close>

definition unfolds_mesh :: "ivec \<Rightarrow> imat list \<Rightarrow> nat list \<Rightarrow> int list \<Rightarrow> int list \<Rightarrow> bool" where
  "unfolds_mesh kg syms reps irr symk \<longleftrightarrow> length irr = nat (grid_size kg) \<and> length symk = nat (grid_size kg) \<and>
     (\<forall>q<nat (grid_size kg). 0 \<le> irr ! q \<and> irr ! q < int (length reps) \<and> 0 \<le> symk ! q \<and> symk ! q < 2 * int (length syms) \<and>
       mesh_act kg ((syms @ map mat_neg syms) ! nat (symk ! q)) (point_row kg (reps ! nat (irr ! q))) = point_row kg q)"

lemma mat_vec_neg: "mat_vec (mat_neg s) v = vneg (mat_vec s v)"
  by (cases s; cases v) (auto split: prod.splits)

lemma reversed_row_acts:
  assumes "0 \<le> row" "row < 2 * int (length syms)"
  shows "0 \<le> reversed_row (int (length syms)) row \<and> reversed_row (int (length syms)) row < 2 * int (length syms) \<and>
    mesh_act kg ((syms @ map mat_neg syms) ! nat (reversed_row (int (length syms)) row)) v =
    vmod (vneg (mesh_act kg ((syms @ map mat_neg syms) ! nat row) v)) kg"
proof (cases "row < int (length syms)")
  case True
  then have "nat (row + int (length syms)) = length syms + nat row" "nat row < length syms" using assms by simp_all
  then show ?thesis using True assms by (simp add: reversed_row_def nth_append mesh_act_def mat_vec_neg)
next
  case False
  then have "nat row = length syms + nat (row - int (length syms))" "nat (row - int (length syms)) < length syms" using assms by simp_all
  then show ?thesis using False assms by (simp add: reversed_row_def nth_append mesh_act_def mat_vec_neg)
qed

lemma paired_row_acts:
  assumes "0 \<le> original ! q" "original ! q < 2 * int (length syms)" "0 \<le> original ! r" "original ! r < 2 * int (length syms)"
    and "mesh_act kg ((syms @ map mat_neg syms) ! nat (original ! q)) v = x" "mesh_act kg ((syms @ map mat_neg syms) ! nat (original ! r)) v = y"
    and "vmod (vneg y) kg = x"
  shows "0 \<le> paired_row original (int (length syms)) reps q r \<and> paired_row original (int (length syms)) reps q r < 2 * int (length syms) \<and>
    mesh_act kg ((syms @ map mat_neg syms) ! nat (paired_row original (int (length syms)) reps q r)) v = x"
  using reversed_row_acts [OF assms(3,4), of kg v] assms(1,2,5-7) by (auto simp: paired_row_def Let_def)

lemma paired_rows_differ:
  assumes "q \<noteq> r"
  shows "\<bar>paired_row original nss reps r q - paired_row original nss reps q r\<bar> = \<bar>nss\<bar>"
proof -
  have "pair_source original nss reps (min q r) (max q r) = q \<or> pair_source original nss reps (min q r) (max q r) = r"
    by (auto simp: pair_source_def min_def max_def)
  then show ?thesis using assms by (auto simp: paired_row_def Let_def min.commute max.commute reversed_row_def)
qed

text \<open>
  C16: Take a table that unfolds the mesh from its representatives. Unless every row is a representative, the
  rewriting either refuses, naming a point whose negative has another representative, or gives a table that
  still unfolds the mesh, in which the two points of each pair use one operation with and without time
  reversal; representatives and self-negative points keep their rows.
\<close>

theorem trs_pairs_coherent:
  assumes "grid_ok kg" "grid_size kg \<le> 2 ^ 31" "syms \<noteq> []" "unfolds_mesh kg syms reps irr original"
    and "\<forall>i<length reps. reps ! i < nat (grid_size kg) \<and> irr ! (reps ! i) = int i" "length reps \<noteq> nat (grid_size kg)"
  shows "case trs_pair_coherent_unfold_sym_idx irr original kg (map int reps) (int (length syms)) of
    Inr out \<Rightarrow> unfolds_mesh kg syms reps irr out \<and> (\<forall>i<length reps. out ! (reps ! i) = original ! (reps ! i)) \<and>
      (\<forall>q<nat (grid_size kg). \<forall>r<nat (grid_size kg). point_row kg r = vmod (vneg (point_row kg q)) kg \<longrightarrow>
        (if q = r then out ! q = original ! q else \<bar>out ! r - out ! q\<bar> = int (length syms)))
  | Inl e \<Rightarrow> \<exists>q r. e = PairParents q (irr ! q) r (irr ! r) \<and> q < nat (grid_size kg) \<and> r < nat (grid_size kg) \<and>
      point_row kg r = vmod (vneg (point_row kg q)) kg \<and> irr ! q \<noteq> irr ! r"
proof -
  let ?n = "nat (grid_size kg)" and ?nss = "int (length syms)" and ?rows = "syms @ map mat_neg syms"
  obtain neg where neg: "q_negation_index kg = Inr neg" "length neg = ?n"
    and g: "\<And>q. q < ?n \<Longrightarrow> nat (neg ! q) < ?n \<and> 0 \<le> neg ! q \<and> point_row kg (nat (neg ! q)) = vmod (vneg (point_row kg q)) kg \<and> nat (neg ! nat (neg ! q)) = q"
    using q_negation_run [OF assms(1,2)] by blast
  have len: "length irr = ?n" "length original = ?n"
    and tab: "\<And>q. q < ?n \<Longrightarrow> 0 \<le> irr ! q \<and> irr ! q < int (length reps) \<and> 0 \<le> original ! q \<and> original ! q < 2 * ?nss \<and>
      mesh_act kg (?rows ! nat (original ! q)) (point_row kg (reps ! nat (irr ! q))) = point_row kg q"
    using assms(4) by (simp_all add: unfolds_mesh_def)
  have g1: "\<not> (length irr \<noteq> ?n \<or> length original \<noteq> ?n)" using len by simp
  have g2: "\<not> (?nss \<le> 0 \<or> (\<exists>s\<in>set original. s < 0 \<or> 2 * ?nss \<le> s))"
    using assms(3) tab len(2) by (auto simp: in_set_conv_nth not_le not_less)
  have inj: "distinct reps" using assms(5) by (auto simp: distinct_conv_nth) (metis int_int_eq)
  then have "card (set (map int reps)) = length reps" using distinct_card [of "map int reps"] by (simp add: distinct_map)
  then have g3: "\<not> card (set (map int reps)) = ?n" using assms(6) by simp
  have reps: "nat ` {q \<in> set (map int reps). 0 \<le> q} = set reps" by force
  let ?r = "fold (\<lambda>(iq, jq) r. andthen r (pair_step irr original ?nss (set reps) iq (nat jq))) (enumerate 0 neg) (Inr original)"
  have run: "trs_pair_coherent_unfold_sym_idx irr original kg (map int reps) ?nss = ?r"
    unfolding trs_pair_coherent_unfold_sym_idx_def Let_def if_not_P [OF g1] if_not_P [OF g2] if_not_P [OF g3] neg(1) reps
    by (simp add: lift_grid_def)
  note loop = pair_loop [of ?n neg original ?n irr ?nss "set reps", unfolded take_all [OF eq_refl [OF neg(2)]]]
  have loop: "case ?r of
      Inr out \<Rightarrow> length out = ?n \<and> (\<forall>q<?n. out ! q =
          (if q < ?n \<or> nat (neg ! q) < ?n then paired_row original ?nss (set reps) q (nat (neg ! q)) else original ! q)) \<and>
        (\<forall>q<?n. irr ! q = irr ! nat (neg ! q) \<or> nat (neg ! q) < q)
    | Inl e \<Rightarrow> \<exists>q<?n. e = PairParents q (irr ! q) (nat (neg ! q)) (irr ! nat (neg ! q)) \<and> irr ! q \<noteq> irr ! nat (neg ! q)"
    using loop g neg(2) len(2) by blast
  have unique: "r = nat (neg ! q)" if "q < ?n" "r < ?n" "point_row kg r = vmod (vneg (point_row kg q)) kg" for q r
    using point_row_inj [OF assms(1) that(2), of "nat (neg ! q)"] g [OF that(1)] that(3) by simp
  show ?thesis
  proof (cases ?r)
    case (Inl e)
    then show ?thesis unfolding run using loop g by auto
  next
    case (Inr out)
    have out: "length out = ?n" "\<And>q. q < ?n \<Longrightarrow> out ! q = paired_row original ?nss (set reps) q (nat (neg ! q))"
      and same: "\<And>q. q < ?n \<Longrightarrow> irr ! q = irr ! nat (neg ! q)"
    proof -
      show "length out = ?n" "\<And>q. q < ?n \<Longrightarrow> out ! q = paired_row original ?nss (set reps) q (nat (neg ! q))"
        using loop unfolding Inr by simp_all
      show "irr ! q = irr ! nat (neg ! q)" if q: "q < ?n" for q
        using loop q g [OF q] g [of "nat (neg ! q)"] unfolding Inr by (metis (mono_tags, lifting) less_asym sum.case(2))
    qed
    have acts: "0 \<le> out ! q \<and> out ! q < 2 * ?nss \<and> mesh_act kg (?rows ! nat (out ! q)) (point_row kg (reps ! nat (irr ! q))) = point_row kg q"
      if q: "q < ?n" for q
    proof -
      have r: "nat (neg ! q) < ?n" "point_row kg q = vmod (vneg (point_row kg (nat (neg ! q)))) kg"
        using g [OF q] g [of "nat (neg ! q)"] by simp_all
      show ?thesis
        unfolding out(2) [OF q]
        by (rule paired_row_acts [where v = "point_row kg (reps ! nat (irr ! q))" and x = "point_row kg q" and y = "point_row kg (nat (neg ! q))"])
          (use tab [OF q] tab [OF r(1)] same [OF q] r(2) in simp_all)
    qed
    have keep: "out ! (reps ! i) = original ! (reps ! i)" if i: "i < length reps" for i
    proof -
      let ?q = "reps ! i"
      have q: "?q < ?n" "irr ! ?q = int i" using assms(5) i by simp_all
      have "nat (neg ! ?q) = ?q" if "nat (neg ! ?q) \<in> set reps"
      proof -
        from that [unfolded in_set_conv_nth] obtain j where j: "j < length reps" "reps ! j = nat (neg ! ?q)" by blast
        have "int i = irr ! ?q" by (rule q(2) [symmetric])
        also have "\<dots> = irr ! nat (neg ! ?q)" by (rule same [OF q(1)])
        also have "\<dots> = int j" using assms(5) j(1) unfolding j(2) [symmetric] by blast
        finally show ?thesis using j(2) by simp
      qed
      moreover have "?q \<in> set reps" using i by simp
      ultimately have "pair_source original ?nss (set reps) (min ?q (nat (neg ! ?q))) (max ?q (nat (neg ! ?q))) = ?q"
        by (auto simp: pair_source_def min_def max_def)
      then show ?thesis unfolding out(2) [OF q(1)] paired_row_def Let_def by simp
    qed
    have "if q = r then out ! q = original ! q else \<bar>out ! r - out ! q\<bar> = ?nss"
      if qr: "q < ?n" "r < ?n" "point_row kg r = vmod (vneg (point_row kg q)) kg" for q r
    proof (cases "q = r")
      case True
      then have "nat (neg ! q) = q" using unique [OF qr] by simp
      then show ?thesis using True out(2) [OF qr(1)] by (simp add: paired_row_def)
    next
      case False
      have "nat (neg ! q) = r" "nat (neg ! r) = q" using unique [OF qr] g [OF qr(1)] by simp_all
      then show ?thesis using False out(2) [OF qr(1)] out(2) [OF qr(2)] paired_rows_differ [OF False, of original ?nss "set reps"] by simp
    qed
    then show ?thesis unfolding run Inr using out(1) acts keep len(1) tab by (simp add: unfolds_mesh_def)
  qed
qed

theorem trs_pairs_coherent_witness:
  "\<exists>out. trs_pair_coherent_unfold_sym_idx [0, 1, 1] [0, 0, 1] (3, 1, 1) (map int [0, 1]) (int (length [mat_id, mat_neg mat_id])) = Inr out \<and>
     unfolds_mesh (3, 1, 1) [mat_id, mat_neg mat_id] [0, 1] [0, 1, 1] out"
proof -
  let ?syms = "[mat_id, mat_neg mat_id]"
  have run: "trs_pair_coherent_unfold_sym_idx [0, 1, 1] [0, 0, 1] (3, 1, 1) (map int [0, 1]) (int (length ?syms)) = Inr [0, 0, 2]"
    by code_simp
  have ok: "grid_ok (3, 1, 1)" "grid_size (3, 1, 1) \<le> 2 ^ 31" "?syms \<noteq> []" by simp_all
  have tab: "unfolds_mesh (3, 1, 1) ?syms [0, 1] [0, 1, 1] [0, 0, 1]" by code_simp
  have reps: "\<forall>i<length [0, 1 :: nat]. [0, 1] ! i < nat (grid_size (3, 1, 1)) \<and> [0, 1, 1] ! ([0, 1] ! i) = int i"
    by (auto simp: less_Suc_eq)
  have "length [0, 1 :: nat] \<noteq> nat (grid_size (3, 1, 1))" by simp
  from trs_pairs_coherent [OF ok tab reps this] show ?thesis unfolding run by simp
qed

end
