(* ===== verification/LittleGroup.thy ===== *)
theory LittleGroup
  imports GridSteps
begin

text \<open>
  The little groups of \<open>services/symmetry_maps/src/symmetry_maps/qgrid_trs.py\<close>: \<open>_little_group_operations\<close> lists,
  for each q of a mesh, the operations that leave it in place, and \<open>_little_group_segments\<close> splits the loop
  over those operations into segments, so that each q takes part only in as many steps as its group has.

  Byte counts and costs are exact reals. Orders are natural numbers; the tables of the dynamic programme are a
  function on the boundary points, as the dictionary is.
\<close>

section \<open>The code\<close>

datatype little_error = LittleGrid ivec | LittleRows "int list" | LittleActive "int list"

fun grid_lcm :: "ivec \<Rightarrow> int" where
  "grid_lcm (nx, ny, nz) = lcm (lcm nx ny) nz"

definition scaled_point :: "ivec \<Rightarrow> ivec \<Rightarrow> ivec" where
  "scaled_point kg v = (case kg of (nx, ny, nz) \<Rightarrow> vmul v (grid_lcm kg div nx, grid_lcm kg div ny, grid_lcm kg div nz))"

definition little_group_operations :: "int list \<Rightarrow> ivec \<Rightarrow> imat list \<Rightarrow> int list \<Rightarrow> (little_error, int list list) result" where
  "little_group_operations q_full_idx kg mats active =
     (if \<not> grid_ok kg then Inl (LittleGrid kg)
      else if q_full_idx = [] \<or> (\<exists>q\<in>set q_full_idx. q < 0 \<or> grid_size kg \<le> q) \<or> \<not> distinct q_full_idx then Inl (LittleRows q_full_idx)
      else if active = [] \<or> \<not> distinct active \<or> (\<exists>s\<in>set active. s < 0 \<or> int (length mats) \<le> s) then Inl (LittleActive active)
      else
        let d = grid_lcm kg
        in Inr (map (\<lambda>q. let p = scaled_point kg (unravel kg q)
             in filter (\<lambda>s. vmod (vadd (mat_vec (mats ! nat s) p) (vneg p)) (d, d, d) = (0, 0, 0)) active) q_full_idx))"

definition segment_overhead :: "int \<Rightarrow> real" where
  "segment_overhead tile_bytes = 64 * 2 ^ 20 / of_int (max tile_bytes 1)"

definition members :: "nat list \<Rightarrow> nat \<Rightarrow> nat list" where
  "members counts lo = filter (\<lambda>p. lo < counts ! p) [0..<length counts]"

definition segment_cost :: "nat list \<Rightarrow> real \<Rightarrow> nat \<Rightarrow> nat \<Rightarrow> real" where
  "segment_cost counts overhead lo hi =
     (let m = length (members counts lo)
      in 4 * (real hi - real lo) * real m + (if m = length counts then 0 else 2 * real m + overhead))"

text \<open>\<open>best\<close>: the cheapest way to reach a boundary and the boundary before it; Python's \<open>min\<close> of pairs.\<close>

definition best_step :: "nat list \<Rightarrow> real \<Rightarrow> nat list \<Rightarrow> (nat \<Rightarrow> (real \<times> nat) option) \<Rightarrow> nat \<Rightarrow> (nat \<Rightarrow> (real \<times> nat) option)" where
  "best_step counts overhead points best j =
     best(points ! j \<mapsto> min_list (map (\<lambda>i. (fst (the (best (points ! i))) + segment_cost counts overhead (points ! i) (points ! j), points ! i)) [0..<j]))"

definition best_table :: "nat list \<Rightarrow> real \<Rightarrow> nat list \<Rightarrow> nat \<Rightarrow> (real \<times> nat) option" where
  "best_table counts overhead points =
     fold (\<lambda>j best. best_step counts overhead points best j) [1..<length points] (Map.empty(0 \<mapsto> (0, 0)))"

text \<open>The walk back from the last boundary to zero.\<close>

partial_function (option) walk_back :: "(nat \<Rightarrow> (real \<times> nat) option) \<Rightarrow> nat \<Rightarrow> nat list option" where
  "walk_back best point =
     (if point = 0 then Some []
      else Option.bind (best point) (\<lambda>e. Option.bind (walk_back best (snd e)) (\<lambda>cuts. Some (point # cuts))))"

definition bound_pairs :: "nat list \<Rightarrow> (nat \<times> nat) list" where
  "bound_pairs bounds = zip (butlast bounds) (tl bounds)"

definition little_group_segments :: "nat list \<Rightarrow> int \<Rightarrow> (nat \<times> nat \<times> nat list) list option" where
  "little_group_segments counts tile_bytes =
     (let points = 0 # sort (remdups counts); best = best_table counts (segment_overhead tile_bytes) points
      in case walk_back best (last points) of
           None \<Rightarrow> None
         | Some cuts \<Rightarrow>
             let bounds = 0 # rev cuts
             in Some (map (\<lambda>(lo, hi). (lo, hi, members counts lo)) (bound_pairs bounds)))"

section \<open>Stabilizers\<close>

lemma scaled_point_real:
  assumes "grid_ok kg"
  shows "of_ivec (scaled_point kg v) = times_grid (over_grid (of_ivec v) kg) (grid_lcm kg, grid_lcm kg, grid_lcm kg)" "0 < grid_lcm kg"
proof -
  obtain nx ny nz x y z where kg: "kg = (nx, ny, nz)" "v = (x, y, z)" by (cases kg; cases v)
  have n: "0 < nx" "0 < ny" "0 < nz" using assms by (simp_all add: kg)
  then show pos: "0 < grid_lcm kg" by (simp add: kg lcm_pos_int)
  have dv: "nx dvd grid_lcm kg" "ny dvd grid_lcm kg" "nz dvd grid_lcm kg"
    by (simp_all add: kg)
  have one: "real_of_int (a * (d div n)) = of_int a / of_int n * of_int d" if "n dvd d" "0 < n" for a d n :: int
    using that by (simp add: real_of_int_div)
  show "of_ivec (scaled_point kg v) = times_grid (over_grid (of_ivec v) kg) (grid_lcm kg, grid_lcm kg, grid_lcm kg)"
    using one [OF dv(1) n(1)] one [OF dv(2) n(2)] one [OF dv(3) n(3)] by (simp add: scaled_point_def kg del: grid_lcm.simps of_int_mult)
qed

lemma stabilizes_iff:
  fixes v :: ivec
  assumes "grid_ok kg"
  defines "d \<equiv> grid_lcm kg" and "p \<equiv> scaled_point kg v" and "f \<equiv> over_grid (of_ivec v) kg"
  shows "vmod (vadd (mat_vec s p) (vneg p)) (d, d, d) = (0, 0, 0) \<longleftrightarrow> (\<exists>m. rmat_vec s f = radd f (of_ivec m))"
proof -
  obtain s1 s2 s3 s4 s5 s6 s7 s8 s9 where s: "s = ((s1, s2, s3), (s4, s5, s6), (s7, s8, s9))" by (cases s) auto
  obtain p1 p2 p3 where p: "p = (p1, p2, p3)" by (cases p)
  obtain f1 f2 f3 where f: "f = (f1, f2, f3)" by (cases f)
  have d: "0 < d" using scaled_point_real [OF assms(1)] by (simp add: d_def)
  have "of_ivec p = times_grid f (d, d, d)" using scaled_point_real(1) [OF assms(1), of v] by (simp add: p_def f_def d_def)
  then have pf: "real_of_int p1 = f1 * d" "real_of_int p2 = f2 * d" "real_of_int p3 = f3 * d" by (simp_all add: p f)
  have row: "(a * p1 + b * p2 + c * p3 + - q) mod d = 0 \<longleftrightarrow> (\<exists>m. of_int a * f1 + of_int b * f2 + of_int c * f3 = g + of_int m)"
    if "real_of_int q = g * d" for a b c q :: int and g :: real
  proof -
    have e: "real_of_int (a * p1 + b * p2 + c * p3 + - q) = (of_int a * f1 + of_int b * f2 + of_int c * f3 - g) * d"
      using pf that by (simp add: algebra_simps)
    have "(a * p1 + b * p2 + c * p3 + - q) mod d = 0 \<longleftrightarrow> (\<exists>m. a * p1 + b * p2 + c * p3 + - q = d * m)"
      by (simp add: dvd_eq_mod_eq_0 [symmetric] dvd_def)
    also have "\<dots> \<longleftrightarrow> (\<exists>m. real_of_int (a * p1 + b * p2 + c * p3 + - q) = of_int (d * m))" by (simp only: of_int_eq_iff)
    also have "\<dots> \<longleftrightarrow> (\<exists>m. of_int a * f1 + of_int b * f2 + of_int c * f3 = g + of_int m)"
      unfolding e using d by (simp add: mult.commute [of _ "real_of_int d"] diff_eq_eq add.commute)
    finally show ?thesis .
  qed
  have "(\<exists>m. rmat_vec s f = radd f (of_ivec m)) \<longleftrightarrow>
      (\<exists>m. of_int s1 * f1 + of_int s2 * f2 + of_int s3 * f3 = f1 + of_int m) \<and>
      (\<exists>m. of_int s4 * f1 + of_int s5 * f2 + of_int s6 * f3 = f2 + of_int m) \<and>
      (\<exists>m. of_int s7 * f1 + of_int s8 * f2 + of_int s9 * f3 = f3 + of_int m)"
    by (simp add: s f)
  then show ?thesis using row [OF pf(1), of s1 s2 s3] row [OF pf(2), of s4 s5 s6] row [OF pf(3), of s7 s8 s9] by (simp add: s p)
qed

text \<open>
  On legal arguments the operations listed for a point are exactly the active ones, in their order, that
  move its fractional coordinates by a reciprocal lattice vector, on meshes of unequal extents as well.
\<close>

theorem little_group_exact:
  "if grid_ok kg \<and> q_full_idx \<noteq> [] \<and> (\<forall>q\<in>set q_full_idx. 0 \<le> q \<and> q < grid_size kg) \<and> distinct q_full_idx \<and>
      active \<noteq> [] \<and> distinct active \<and> (\<forall>s\<in>set active. 0 \<le> s \<and> s < int (length mats))
   then \<exists>rows. little_group_operations q_full_idx kg mats active = Inr rows \<and> length rows = length q_full_idx \<and>
     (\<forall>i<length rows. let f = over_grid (of_ivec (unravel kg (q_full_idx ! i))) kg
       in rows ! i = filter (\<lambda>s. \<exists>m. rmat_vec (mats ! nat s) f = radd f (of_ivec m)) active)
   else \<exists>e. little_group_operations q_full_idx kg mats active = Inl e"
proof (cases "grid_ok kg \<and> q_full_idx \<noteq> [] \<and> (\<forall>q\<in>set q_full_idx. 0 \<le> q \<and> q < grid_size kg) \<and> distinct q_full_idx \<and>
      active \<noteq> [] \<and> distinct active \<and> (\<forall>s\<in>set active. 0 \<le> s \<and> s < int (length mats))")
  case True
  have "little_group_operations q_full_idx kg mats active = Inr (map (\<lambda>q. filter (\<lambda>s. vmod (vadd (mat_vec (mats ! nat s)
      (scaled_point kg (unravel kg q))) (vneg (scaled_point kg (unravel kg q)))) (grid_lcm kg, grid_lcm kg, grid_lcm kg) = (0, 0, 0)) active) q_full_idx)"
    using True by (auto simp: little_group_operations_def Let_def not_le not_less)
  then show ?thesis using True stabilizes_iff [of kg] by (simp add: Let_def del: split_paired_Ex)
next
  case False
  then show ?thesis by (auto simp: little_group_operations_def Let_def not_le not_less)
qed

theorem little_group_exact_witness:
  "case little_group_operations [0, 1, 3] (2, 2, 1)
      [((1, 0, 0), (0, 1, 0), (0, 0, 1)), ((0, 1, 0), (1, 0, 0), (0, 0, 1))] [0, 1] of Inl _ \<Rightarrow> False | Inr rows \<Rightarrow>
     rows = [[0, 1], [0], [0, 1]] \<and>
     filter (\<lambda>s. \<exists>m. rmat_vec ([((1, 0, 0), (0, 1, 0), (0, 0, 1)), ((0, 1, 0), (1, 0, 0), (0, 0, 1))] ! nat s)
       (over_grid (of_ivec (unravel (2, 2, 1) 1)) (2, 2, 1)) = radd (over_grid (of_ivec (unravel (2, 2, 1) 1)) (2, 2, 1)) (of_ivec m)) [0, 1] = [0]"
proof -
  let ?ms = "[((1, 0, 0), (0, 1, 0), (0, 0, 1)), ((0, 1, 0), (1, 0, 0), (0, 0, 1))] :: imat list"
  have run: "little_group_operations [0, 1, 3] (2, 2, 1) ?ms [0, 1] = Inr [[0, 1], [0], [0, 1]]" by code_simp
  have "grid_ok (2, 2, 1) \<and> [0, 1, 3 :: int] \<noteq> [] \<and> (\<forall>q\<in>set [0, 1, 3]. 0 \<le> q \<and> q < grid_size (2, 2, 1)) \<and> distinct [0, 1, 3 :: int] \<and>
      [0, 1 :: int] \<noteq> [] \<and> distinct [0, 1 :: int] \<and> (\<forall>s\<in>set [0, 1]. 0 \<le> s \<and> s < int (length ?ms))" by simp
  from little_group_exact [where kg = "(2, 2, 1)" and q_full_idx = "[0, 1, 3]" and active = "[0, 1]" and mats = ?ms,
    unfolded if_P [OF this] run Let_def]
  have "[0] = filter (\<lambda>s. \<exists>m. rmat_vec (?ms ! nat s) (over_grid (of_ivec (unravel (2, 2, 1) 1)) (2, 2, 1)) =
      radd (over_grid (of_ivec (unravel (2, 2, 1) 1)) (2, 2, 1)) (of_ivec m)) [0, 1]"
    by (elim exE conjE) (drule spec [of _ 1], simp del: split_paired_Ex filter.simps)
  then show ?thesis unfolding run by (simp del: split_paired_Ex filter.simps)
qed

section \<open>Segments\<close>

definition is_split :: "nat list \<Rightarrow> nat list \<Rightarrow> bool" where
  "is_split counts bounds \<longleftrightarrow> bounds \<noteq> [] \<and> hd bounds = 0 \<and> last bounds = Max (set counts) \<and> sorted_wrt (<) bounds"

definition split_cost :: "nat list \<Rightarrow> real \<Rightarrow> nat list \<Rightarrow> real" where
  "split_cost counts overhead bounds = (\<Sum>(lo, hi)\<leftarrow>bound_pairs bounds. segment_cost counts overhead lo hi)"

lemma bound_pairs_simps [simp]: "bound_pairs [] = []" "bound_pairs [x] = []"
  by (simp_all add: bound_pairs_def)

lemma bound_pairs_snoc [simp]: "bs \<noteq> [] \<Longrightarrow> bound_pairs (bs @ [x]) = bound_pairs bs @ [(last bs, x)]"
proof (induction bs)
  case (Cons a bs)
  then show ?case by (cases bs) (simp_all add: bound_pairs_def)
qed simp

lemma split_cost_simps [simp]: "split_cost counts overhead [x] = 0"
  "bs \<noteq> [] \<Longrightarrow> split_cost counts overhead (bs @ [x]) = split_cost counts overhead bs + segment_cost counts overhead (last bs) x"
  by (simp_all add: split_cost_def)

lemma strict_last: "sorted_wrt (<) xs \<Longrightarrow> x \<in> set xs \<Longrightarrow> x \<le> last xs" for xs :: "nat list"
  by (cases xs rule: rev_cases) (auto simp: sorted_wrt_append less_imp_le)

text \<open>Consecutive bounds cover each step once.\<close>

lemma bounds_cover:
  assumes "bs \<noteq> []" "hd bs = 0" "sorted_wrt (<) bs"
  shows "t < last bs \<longleftrightarrow> (\<exists>!e. e \<in> set (bound_pairs bs) \<and> fst e \<le> t \<and> t < snd e)"
    and "(lo, hi) \<in> set (bound_pairs bs) \<Longrightarrow> lo < hi \<and> hi \<le> last bs"
proof -
  have "(lo, hi) \<in> set (bound_pairs bs) \<longrightarrow> lo < hi \<and> hi \<le> last bs" for lo hi
    using assms
  proof (induction bs rule: rev_induct)
    case (snoc x bs)
    then show ?case by (cases "bs = []") (auto simp: sorted_wrt_append dest: bspec [of _ _ "last bs"])
  qed simp
  then show in_range: "(lo, hi) \<in> set (bound_pairs bs) \<Longrightarrow> lo < hi \<and> hi \<le> last bs" for lo hi by blast
  show "t < last bs \<longleftrightarrow> (\<exists>!e. e \<in> set (bound_pairs bs) \<and> fst e \<le> t \<and> t < snd e)"
    using assms in_range
  proof (induction bs rule: rev_induct)
    case (snoc x bs)
    show ?case
    proof (cases "bs = []")
      case False
      then have s: "hd bs = 0" "sorted_wrt (<) bs" "last bs < x" using snoc.prems by (simp_all add: sorted_wrt_append)
      have up: "snd e \<le> last bs" if "e \<in> set (bound_pairs bs)" for e
        using that s False
      proof (induction bs rule: rev_induct)
        case (snoc y ys)
        then show ?case by (cases "ys = []") (auto simp: sorted_wrt_append dest: bspec [of _ _ "last ys"])
      qed simp
      have r: "(lo, hi) \<in> set (bound_pairs bs) \<Longrightarrow> lo < hi \<and> hi \<le> last bs" for lo hi
        using snoc.prems(4) [of lo hi] up [of "(lo, hi)"] False by simp
      have IH: "t < last bs \<longleftrightarrow> (\<exists>!e. e \<in> set (bound_pairs bs) \<and> fst e \<le> t \<and> t < snd e)"
        using snoc.IH [OF False s(1,2) r] .
      show ?thesis
      proof (cases "t < last bs")
        case True
        then have "(e \<in> set (bound_pairs (bs @ [x])) \<and> fst e \<le> t \<and> t < snd e) \<longleftrightarrow> (e \<in> set (bound_pairs bs) \<and> fst e \<le> t \<and> t < snd e)" for e
          using False by auto
        then show ?thesis using IH True s by simp
      next
        case below: False
        then have "(e \<in> set (bound_pairs (bs @ [x])) \<and> fst e \<le> t \<and> t < snd e) \<longleftrightarrow> e = (last bs, x) \<and> t < x" for e
          using False up [of e] by auto
        then show ?thesis by auto
      qed
    qed (use snoc.prems in auto)
  qed simp
qed

text \<open>The table: each boundary holds the least cost over the boundaries before it, and one that attains it.\<close>

definition table_upto :: "nat list \<Rightarrow> real \<Rightarrow> nat list \<Rightarrow> (nat \<Rightarrow> (real \<times> nat) option) \<Rightarrow> nat \<Rightarrow> bool" where
  "table_upto counts overhead points best k \<longleftrightarrow> best 0 = Some (0, 0) \<and>
     (\<forall>j. 0 < j \<longrightarrow> j < k \<longrightarrow> (\<exists>c i. best (points ! j) = Some (c, points ! i) \<and> i < j \<and>
        c = fst (the (best (points ! i))) + segment_cost counts overhead (points ! i) (points ! j) \<and>
        (\<forall>i<j. c \<le> fst (the (best (points ! i))) + segment_cost counts overhead (points ! i) (points ! j))))"

lemma best_table_exact:
  assumes s: "sorted_wrt (<) points" and z: "points ! 0 = 0" and k: "1 \<le> k" "k \<le> length points"
  shows "table_upto counts overhead points
     (fold (\<lambda>j best. best_step counts overhead points best j) [1..<k] (Map.empty(0 \<mapsto> (0, 0)))) k"
  using k
proof (induction k rule: dec_induct)
  case base
  then show ?case by (simp add: table_upto_def)
next
  case (step k)
  let ?B = "fold (\<lambda>j best. best_step counts overhead points best j) [1..<k] (Map.empty(0 \<mapsto> (0, 0)))"
  let ?C = "best_step counts overhead points ?B k"
  let ?w = "\<lambda>i. (fst (the (?B (points ! i))) + segment_cost counts overhead (points ! i) (points ! k), points ! i)"
  have k: "0 < k" "k < length points" using step.hyps step.prems by simp_all
  have IH: "table_upto counts overhead points ?B k" using step.IH step.prems by (simp only: Suc_leD)
  have ne: "points ! i \<noteq> points ! k" if "i < k" for i using sorted_wrt_nth_less [OF s that] k by simp
  have C: "?C = ?B(points ! k \<mapsto> min_list (map ?w [0..<k]))" by (simp add: best_step_def)
  have m: "min_list (map ?w [0..<k]) = Min (?w ` {0..<k})" using k by (simp add: min_list_Min)
  have "min_list (map ?w [0..<k]) \<in> ?w ` {0..<k}" unfolding m using k by (intro Min_in) auto
  then obtain i where i: "i < k" "min_list (map ?w [0..<k]) = ?w i" by auto
  have least: "fst (?w i) \<le> fst (?w j)" if "j < k" for j
  proof -
    have "?w i \<le> ?w j" unfolding i(2) [symmetric] m using that by (intro Min_le) auto
    then show ?thesis by auto
  qed
  have old: "?C (points ! j) = ?B (points ! j)" if "j < k" for j using ne [OF that] C by simp
  have zero: "?C 0 = Some (0, 0)" using old [of 0] k IH z by (simp add: table_upto_def)
  have new: "?C (points ! k) = Some (?w i)" using C i(2) by simp
  have "table_upto counts overhead points ?C (Suc k)"
    unfolding table_upto_def
  proof (intro conjI allI impI zero)
    fix j assume j: "0 < j" "j < Suc k"
    show "\<exists>c i. ?C (points ! j) = Some (c, points ! i) \<and> i < j \<and>
        c = fst (the (?C (points ! i))) + segment_cost counts overhead (points ! i) (points ! j) \<and>
        (\<forall>i<j. c \<le> fst (the (?C (points ! i))) + segment_cost counts overhead (points ! i) (points ! j))"
    proof (cases "j = k")
      case True
      then show ?thesis using new i(1) least old by auto
    next
      case False
      then have "j < k" using j by simp
      moreover obtain c i where "?B (points ! j) = Some (c, points ! i)" "i < j"
          "c = fst (the (?B (points ! i))) + segment_cost counts overhead (points ! i) (points ! j)"
          "\<forall>i<j. c \<le> fst (the (?B (points ! i))) + segment_cost counts overhead (points ! i) (points ! j)"
        using IH j \<open>j < k\<close> unfolding table_upto_def by blast
      ultimately show ?thesis using old [of j] old [of i] old by (intro exI [of _ c] exI [of _ i]) simp
    qed
  qed
  moreover have "[1..<Suc k] = [1..<k] @ [k]" using k by simp
  ultimately show ?case by (simp only: fold_append fold_simps comp_apply)
qed

text \<open>The walk back finds a split along the boundaries whose cost is the table's.\<close>

lemma walk_back_split:
  assumes t: "table_upto counts overhead points best (length points)" and s: "sorted_wrt (<) points" and z: "points ! 0 = 0"
  shows "j < length points \<Longrightarrow> \<exists>cuts. walk_back best (points ! j) = Some cuts \<and> sorted_wrt (<) (0 # rev cuts) \<and>
    last (0 # rev cuts) = points ! j \<and> split_cost counts overhead (0 # rev cuts) = fst (the (best (points ! j)))"
proof (induction j rule: less_induct)
  case (less j)
  show ?case
  proof (cases "j = 0")
    case True
    then show ?thesis using t z by (simp add: table_upto_def walk_back.simps)
  next
    case False
    then obtain c i where b: "best (points ! j) = Some (c, points ! i)" "i < j"
        "c = fst (the (best (points ! i))) + segment_cost counts overhead (points ! i) (points ! j)"
      using t less.prems unfolding table_upto_def by blast
    have lt: "points ! i < points ! j" using sorted_wrt_nth_less [OF s b(2) less.prems] .
    have i: "i < length points" using b(2) less.prems by simp
    obtain cuts where c: "walk_back best (points ! i) = Some cuts" "sorted_wrt (<) (0 # rev cuts)"
        "last (0 # rev cuts) = points ! i" "split_cost counts overhead (0 # rev cuts) = fst (the (best (points ! i)))"
      using less.IH [OF b(2) i] by blast
    let ?bs = "0 # rev cuts"
    have w: "walk_back best (points ! j) = Some (points ! j # cuts)"
      using b(1) c(1) lt by (subst walk_back.simps) simp
    have e: "0 # rev (points ! j # cuts) = ?bs @ [points ! j]" by simp
    have below: "x < points ! j" if "x \<in> set ?bs" for x
      using strict_last [OF c(2) that] c(3) lt by simp
    have "sorted_wrt (<) (?bs @ [points ! j])" using c(2) below by (simp only: sorted_wrt_append) simp
    moreover have "split_cost counts overhead (?bs @ [points ! j]) = fst (the (best (points ! j)))"
      using c(3,4) b(1,3) by (subst split_cost_simps(2)) simp_all
    ultimately show ?thesis using w e by (intro exI [of _ "points ! j # cuts"]) simp
  qed
qed

text \<open>
  No split is cheaper, on the boundaries or off them: a bound between two orders can move down to the order
  below it, where the larger segment has fewer steps and the members of the smaller stay the same.
\<close>

definition order_below :: "nat list \<Rightarrow> nat \<Rightarrow> nat" where
  "order_below points b = Max {p \<in> set points. p \<le> b}"

lemma order_below:
  assumes "0 \<in> set points"
  shows "order_below points b \<in> set points" "order_below points b \<le> b"
    "p \<in> set points \<Longrightarrow> p \<le> b \<Longrightarrow> p \<le> order_below points b"
proof -
  have "finite {p \<in> set points. p \<le> b}" "{p \<in> set points. p \<le> b} \<noteq> {}" using assms by auto
  from Max_in [OF this] Max_ge [OF this(1)]
  show "order_below points b \<in> set points" "order_below points b \<le> b"
    "p \<in> set points \<Longrightarrow> p \<le> b \<Longrightarrow> p \<le> order_below points b" by (auto simp: order_below_def)
qed

lemma members_order_below:
  assumes "set points = insert 0 (set counts)"
  shows "members counts (order_below points b) = members counts b"
proof -
  have "order_below points b < counts ! p \<longleftrightarrow> b < counts ! p" if "p < length counts" for p
    using order_below [of points b] order_below(3) [of points "counts ! p" b] that assms by fastforce
  then show ?thesis by (auto simp: members_def intro!: filter_cong)
qed

lemma members_antimono: "lo \<le> hi \<Longrightarrow> length (members counts hi) \<le> length (members counts lo)"
  unfolding members_def by (auto simp: length_filter_conv_card intro!: card_mono)

lemma split_cost_bound:
  assumes t: "table_upto counts overhead points best (length points)" and s: "sorted_wrt (<) points"
    and p: "set points = insert 0 (set counts)" "points ! 0 = 0" and o: "0 \<le> overhead"
  shows "bs \<noteq> [] \<Longrightarrow> hd bs = 0 \<Longrightarrow> sorted_wrt (<) bs \<Longrightarrow>
    fst (the (best (order_below points (last bs)))) +
      4 * (real (last bs) - real (order_below points (last bs))) * real (length (members counts (last bs)))
    \<le> split_cost counts overhead bs"
proof (induction bs rule: rev_induct)
  case (snoc x bs)
  have z: "0 \<in> set points" using p by simp
  show ?case
  proof (cases "bs = []")
    case True
    then have "order_below points x = 0" using snoc.prems order_below(2) [OF z, of 0] by simp
    then show ?thesis using True t snoc.prems by (simp add: table_upto_def)
  next
    case False
    let ?b = "last bs" and ?q = "order_below points (last bs)" and ?r = "order_below points x"
    let ?m = "\<lambda>b. real (length (members counts b))"
    have sb: "hd bs = 0" "sorted_wrt (<) bs" "?b < x" using False snoc.prems by (simp_all add: sorted_wrt_append)
    have IH: "fst (the (best ?q)) + 4 * (real ?b - real ?q) * ?m ?b \<le> split_cost counts overhead bs"
      using snoc.IH False sb by simp
    have cost: "segment_cost counts overhead ?b x = 4 * (real x - real ?b) * ?m ?b + (segment_cost counts overhead ?q ?r - 4 * (real ?r - real ?q) * ?m ?b)"
      using members_order_below [OF p(1), of ?b] by (simp add: segment_cost_def Let_def)
    have extra: "0 \<le> segment_cost counts overhead ?q ?r - 4 * (real ?r - real ?q) * ?m ?b"
      using o members_order_below [OF p(1), of ?b] by (simp add: segment_cost_def Let_def)
    have qr: "?q \<le> ?r" using order_below [OF z, of ?b] order_below(3) [OF z, of ?q x] sb(3) by simp
    have fewer: "?m x \<le> ?m ?b" using members_antimono [of ?b x counts] sb(3) by simp
    have "4 * (real x - real ?r) * ?m x \<le> 4 * (real x - real ?r) * ?m ?b"
      using fewer order_below(2) [OF z, of x] by (intro mult_left_mono) simp_all
    then have shift: "4 * (real ?b - real ?q) * ?m ?b + 4 * (real x - real ?b) * ?m ?b \<ge> 4 * (real ?r - real ?q) * ?m ?b + 4 * (real x - real ?r) * ?m x"
      by (simp add: algebra_simps)
    have best: "fst (the (best ?r)) \<le> fst (the (best ?q)) + segment_cost counts overhead ?q ?r" if "?q \<noteq> ?r"
    proof -
      obtain i j where ij: "i < length points" "points ! i = ?q" "j < length points" "points ! j = ?r"
        using order_below(1) [OF z] by (metis in_set_conv_nth)
      have "i < j"
      proof (rule ccontr)
        assume "\<not> i < j"
        then have "points ! j \<le> points ! i" using sorted_wrt_nth_less [OF s, of j i] ij by (cases "i = j") auto
        then show False using ij qr that by simp
      qed
      then show ?thesis using t ij unfolding table_upto_def
        by (metis fst_conv gr_implies_not0 neq0_conv option.sel)
    qed
    show ?thesis
    proof (cases "?q = ?r")
      case True
      then show ?thesis using IH cost extra shift False by simp
    next
      case apart: False
      then show ?thesis using IH cost shift best [OF apart] False by simp
    qed
  qed
qed simp

lemma order_points:
  assumes "counts \<noteq> []" "0 \<notin> set counts"
  defines "ps \<equiv> 0 # sort (remdups counts)"
  shows "sorted_wrt (<) ps" "set ps = insert 0 (set counts)" "last ps = Max (set counts)"
    "table_upto counts overhead ps (best_table counts overhead ps) (length ps)"
proof -
  show s: "sorted_wrt (<) ps" using assms(2) by (auto simp: ps_def strict_sorted_iff intro!: gr0I)
  show "set ps = insert 0 (set counts)" by (simp add: ps_def)
  show "table_upto counts overhead ps (best_table counts overhead ps) (length ps)"
    unfolding best_table_def using best_table_exact [OF s, of "length ps"] by (simp add: ps_def)
  have "sort (remdups counts) \<noteq> []" using assms(1) by (metis set_empty set_remdups set_sort)
  then have "last ps \<in> set counts" using last_in_set [of "sort (remdups counts)"] by (simp add: ps_def)
  moreover have "x \<le> last ps" if "x \<in> set counts" for x
    using strict_last [OF s, of x] that by (simp add: ps_def)
  ultimately show "last ps = Max (set counts)" by (intro Max_eqI [symmetric]) auto
qed

lemma segments_split:
  fixes tile_bytes :: int
  assumes "counts \<noteq> []" "0 \<notin> set counts"
  defines "ps \<equiv> 0 # sort (remdups counts)" and "overhead \<equiv> segment_overhead tile_bytes"
  shows "\<exists>bounds. little_group_segments counts tile_bytes = Some (map (\<lambda>(lo, hi). (lo, hi, members counts lo)) (bound_pairs bounds)) \<and>
    is_split counts bounds \<and> split_cost counts overhead bounds = fst (the (best_table counts overhead ps (last ps)))"
proof -
  note ps = order_points [OF assms(1,2), folded ps_def]
  obtain cuts where "walk_back (best_table counts overhead ps) (last ps) = Some cuts" "sorted_wrt (<) (0 # rev cuts)"
      "last (0 # rev cuts) = last ps" "split_cost counts overhead (0 # rev cuts) = fst (the (best_table counts overhead ps (last ps)))"
    using walk_back_split [OF ps(4) ps(1), of "length ps - 1"] by (metis One_nat_def diff_Suc_1 last_conv_nth length_Cons lessI list.simps(3) nth_Cons_0 ps_def)
  then show ?thesis using ps(3)
    by (intro exI [of _ "0 # rev cuts"]) (simp add: little_group_segments_def Let_def is_split_def overhead_def ps_def)
qed

text \<open>
  C17: For parents with nonempty groups the planner returns a split of the steps up to the largest order, and no
  split, with boundaries at the orders or anywhere else, costs less.
\<close>

theorem segments_cheapest:
  assumes "counts \<noteq> []" "0 \<notin> set counts"
  shows "\<exists>bounds. little_group_segments counts tile_bytes = Some (map (\<lambda>(lo, hi). (lo, hi, members counts lo)) (bound_pairs bounds)) \<and>
    is_split counts bounds \<and>
    (\<forall>other. is_split counts other \<longrightarrow>
      split_cost counts (segment_overhead tile_bytes) bounds \<le> split_cost counts (segment_overhead tile_bytes) other)"
proof -
  let ?o = "segment_overhead tile_bytes"
  define ps where "ps = 0 # sort (remdups counts)"
  note ps = order_points [OF assms, folded ps_def]
  have z: "ps ! 0 = 0" "0 \<in> set ps" "0 \<le> ?o" by (simp_all add: ps_def segment_overhead_def)
  have last_mem: "last ps \<in> set ps" by (rule last_in_set) (simp add: ps_def)
  have top: "order_below ps (last ps) = last ps"
    using order_below(2) [OF z(2), of "last ps"] order_below(3) [OF z(2) last_mem order_refl] by (rule antisym)
  have least: "fst (the (best_table counts ?o ps (last ps))) \<le> split_cost counts ?o other" if "is_split counts other" for other
  proof -
    have o: "other \<noteq> []" "hd other = 0" "sorted_wrt (<) other" "last other = last ps"
      using that ps(3) by (simp_all add: is_split_def)
    show ?thesis using split_cost_bound [OF ps(4,1,2) z(1,3) o(1-3), unfolded o(4) top] by simp
  qed
  obtain bounds where "little_group_segments counts tile_bytes = Some (map (\<lambda>(lo, hi). (lo, hi, members counts lo)) (bound_pairs bounds))"
      "is_split counts bounds" "split_cost counts ?o bounds = fst (the (best_table counts ?o ps (last ps)))"
    using segments_split [OF assms, of tile_bytes, folded ps_def] by blast
  then show ?thesis using least by (intro exI [of _ bounds]) simp
qed

theorem segments_cheapest_witness:
  "\<exists>bounds. little_group_segments [1, 4, 2] 1024 = Some (map (\<lambda>(lo, hi). (lo, hi, members [1, 4, 2] lo)) (bound_pairs bounds)) \<and>
    is_split [1, 4, 2] bounds \<and>
    (\<forall>other. is_split [1, 4, 2] other \<longrightarrow>
      split_cost [1, 4, 2] (segment_overhead 1024) bounds \<le> split_cost [1, 4, 2] (segment_overhead 1024) other)"
  by (rule segments_cheapest) simp_all

text \<open>
  The segments run every step of every parent: whatever step below its order a parent has, exactly one
  returned segment has that step, and the parent is one of its members.
\<close>

theorem segments_run_every_step:
  assumes "counts \<noteq> []" "0 \<notin> set counts"
  shows "\<exists>segs. little_group_segments counts tile_bytes = Some segs \<and>
    (\<forall>p<length counts. \<forall>t<counts ! p. \<exists>lo hi ms. (lo, hi, ms) \<in> set segs \<and> lo \<le> t \<and> t < hi \<and> p \<in> set ms \<and>
       (\<forall>lo' hi' ms'. (lo', hi', ms') \<in> set segs \<longrightarrow> lo' \<le> t \<longrightarrow> t < hi' \<longrightarrow> (lo', hi', ms') = (lo, hi, ms)))"
proof -
  obtain bounds where b: "little_group_segments counts tile_bytes = Some (map (\<lambda>(lo, hi). (lo, hi, members counts lo)) (bound_pairs bounds))"
      "is_split counts bounds"
    using segments_split [OF assms, of tile_bytes] by blast
  have "\<exists>lo hi ms. (lo, hi, ms) \<in> (\<lambda>(lo, hi). (lo, hi, members counts lo)) ` set (bound_pairs bounds) \<and> lo \<le> t \<and> t < hi \<and> p \<in> set ms \<and>
       (\<forall>lo' hi' ms'. (lo', hi', ms') \<in> (\<lambda>(lo, hi). (lo, hi, members counts lo)) ` set (bound_pairs bounds) \<longrightarrow> lo' \<le> t \<longrightarrow> t < hi' \<longrightarrow>
          (lo', hi', ms') = (lo, hi, ms))"
    if "p < length counts" "t < counts ! p" for p t
  proof -
    have "t < last bounds" using that b(2) by (auto simp: is_split_def intro: less_le_trans Max_ge)
    then obtain lo hi where e: "(lo, hi) \<in> set (bound_pairs bounds)" "lo \<le> t" "t < hi"
        "\<And>lo' hi'. (lo', hi') \<in> set (bound_pairs bounds) \<Longrightarrow> lo' \<le> t \<Longrightarrow> t < hi' \<Longrightarrow> (lo', hi') = (lo, hi)"
      using bounds_cover(1) [of bounds t] b(2) unfolding is_split_def by fastforce
    have "p \<in> set (members counts lo)" using that e(2) by (simp add: members_def)
    moreover have "(lo, hi, members counts lo) \<in> (\<lambda>(lo, hi). (lo, hi, members counts lo)) ` set (bound_pairs bounds)"
      using e(1) by force
    moreover have "(lo', hi', ms') = (lo, hi, members counts lo)"
      if "(lo', hi', ms') \<in> (\<lambda>(lo, hi). (lo, hi, members counts lo)) ` set (bound_pairs bounds)" "lo' \<le> t" "t < hi'" for lo' hi' ms'
    proof -
      have m: "(lo', hi') \<in> set (bound_pairs bounds)" "ms' = members counts lo'" using that(1) by (auto simp del: split_paired_Ex)
      show ?thesis using e(4) [OF m(1) that(2,3)] m(2) by simp
    qed
    ultimately show ?thesis using e(2,3) by blast
  qed
  then have "\<forall>p<length counts. \<forall>t<counts ! p. \<exists>lo hi ms. (lo, hi, ms) \<in> set (map (\<lambda>(lo, hi). (lo, hi, members counts lo)) (bound_pairs bounds)) \<and>
       lo \<le> t \<and> t < hi \<and> p \<in> set ms \<and>
       (\<forall>lo' hi' ms'. (lo', hi', ms') \<in> set (map (\<lambda>(lo, hi). (lo, hi, members counts lo)) (bound_pairs bounds)) \<longrightarrow> lo' \<le> t \<longrightarrow> t < hi' \<longrightarrow>
          (lo', hi', ms') = (lo, hi, ms))"
    unfolding set_map by blast
  with b(1) show ?thesis by blast
qed

theorem segments_run_every_step_witness:
  "\<exists>segs. little_group_segments [1, 4, 2] 1024 = Some segs \<and>
    (\<forall>p<length [1, 4, 2 :: nat]. \<forall>t<[1, 4, 2] ! p. \<exists>lo hi ms. (lo, hi, ms) \<in> set segs \<and> lo \<le> t \<and> t < hi \<and> p \<in> set ms \<and>
       (\<forall>lo' hi' ms'. (lo', hi', ms') \<in> set segs \<longrightarrow> lo' \<le> t \<longrightarrow> t < hi' \<longrightarrow> (lo', hi', ms') = (lo, hi, ms)))"
  by (rule segments_run_every_step) simp_all

end
