(* ===== verification/PyText.thy ===== *)
theory PyText
  imports LxPrelude
begin

text \<open>
  The text functions of Python's standard library the file layer is written with: \<open>str.split\<close>, \<open>str.join\<close>,
  decimal and hexadecimal integers, and \<open>os.path.abspath\<close> on POSIX paths. Characters are code points below 256.
\<close>

section \<open>The functions\<close>

definition py_printable :: "char \<Rightarrow> bool" where
  "py_printable c = (let n = (of_char c :: nat) in 32 \<le> n \<and> n \<le> 126 \<or> 161 \<le> n \<and> n \<noteq> 173)"

text \<open>\<open>s.split()\<close> with the word being read, and \<open>s.split(c)\<close>.\<close>

fun split_from :: "string \<Rightarrow> string \<Rightarrow> string list" where
  "split_from w [] = (if w = [] then [] else [w])"
| "split_from w (c # s) =
     (if py_isspace c then (if w = [] then split_from [] s else w # split_from [] s) else split_from (w @ [c]) s)"

definition py_split :: "string \<Rightarrow> string list" where
  "py_split s = split_from [] s"

fun split_at_char :: "char \<Rightarrow> string \<Rightarrow> string list" where
  "split_at_char d [] = [[]]"
| "split_at_char d (c # s) =
     (if c = d then [] # split_at_char d s
      else (c # hd (split_at_char d s)) # tl (split_at_char d s))"

fun join_with :: "string \<Rightarrow> string list \<Rightarrow> string" where
  "join_with d [] = []"
| "join_with d [w] = w"
| "join_with d (w # v # ws) = w @ d @ join_with d (v # ws)"

definition digit :: "nat \<Rightarrow> char" where
  "digit n = ''0123456789abcdef'' ! n"

fun nat_text :: "nat \<Rightarrow> nat \<Rightarrow> string" where
  "nat_text b n =
     (if n < b \<or> b < 2 then [digit (n mod 16)] else nat_text b (n div b) @ [digit (n mod b)])"

declare nat_text.simps [simp del]

definition int_text :: "int \<Rightarrow> string" where
  "int_text i = (if i < 0 then ''-'' else []) @ nat_text 10 (nat \<bar>i\<bar>)"

definition hex_text :: "int \<Rightarrow> string" where
  "hex_text i = (if i < 0 then ''-'' else []) @ ''0x'' @ nat_text 16 (nat \<bar>i\<bar>)"

text \<open>\<open>posixpath.normpath\<close>: one leading slash, or exactly two, survive.\<close>

definition path_step :: "bool \<Rightarrow> string \<Rightarrow> string list \<Rightarrow> string list" where
  "path_step rooted w comps =
     (if w = [] \<or> w = ''.'' then comps
      else if w \<noteq> ''..'' \<or> (\<not> rooted \<and> comps = []) \<or> (comps \<noteq> [] \<and> last comps = ''..'') then comps @ [w]
      else butlast comps)"

definition root_slashes :: "string \<Rightarrow> string" where
  "root_slashes p =
     (if take 1 p \<noteq> ''/'' then [] else if take 2 p = ''//'' \<and> take 3 p \<noteq> ''///'' then ''//'' else ''/'')"

definition normpath :: "string \<Rightarrow> string" where
  "normpath p =
     (if p = [] then ''.''
      else
        let rt = root_slashes p;
            comps = fold (path_step (rt \<noteq> [])) (split_at_char CHR ''/'' p) [];
            q = rt @ join_with ''/'' comps
        in if q = [] then ''.'' else q)"

definition path_join :: "string \<Rightarrow> string \<Rightarrow> string" where
  "path_join d p =
     (if take 1 p = ''/'' then p
      else if d = [] \<or> last d = CHR ''/'' then d @ p
      else d @ ''/'' @ p)"

definition abspath :: "string \<Rightarrow> string \<Rightarrow> string" where
  "abspath cwd p = normpath (if take 1 p = ''/'' then p else path_join cwd p)"

section \<open>Words\<close>

definition one_word :: "string \<Rightarrow> bool" where
  "one_word w \<longleftrightarrow> w \<noteq> [] \<and> (\<forall>c\<in>set w. \<not> py_isspace c)"

lemma blank_space: "py_isspace CHR '' ''"
  by (simp add: py_isspace_def)

lemma one_word_no_blank: "one_word w \<Longrightarrow> CHR '' '' \<notin> set w"
  unfolding one_word_def using blank_space by blast

lemma split_from_words: "\<forall>c\<in>set w. \<not> py_isspace c \<Longrightarrow> v \<in> set (split_from w s) \<Longrightarrow> one_word v"
proof (induction w s rule: split_from.induct)
  case (1 w)
  then show ?case by (cases "w = []") (simp_all add: one_word_def)
next
  case (2 w c s)
  show ?case
  proof (cases "py_isspace c")
    case True
    then show ?thesis using 2(1,2) 2(4,5) by (cases "w = []") (auto simp: one_word_def)
  next
    case False
    then show ?thesis using 2(3,4,5) by simp
  qed
qed

lemma py_split_words: "v \<in> set (py_split s) \<Longrightarrow> one_word v"
  using split_from_words [of "[]"] by (simp add: py_split_def)

lemma join_word: "ws \<noteq> [] \<Longrightarrow> \<forall>w\<in>set ws. one_word w \<Longrightarrow> \<forall>c\<in>set d. \<not> py_isspace c \<Longrightarrow> one_word (join_with d ws)"
  by (induction d ws rule: join_with.induct) (auto simp: one_word_def)

lemma join_no_space: "\<forall>w\<in>set ws. \<forall>c\<in>set w. \<not> py_isspace c \<Longrightarrow> \<forall>c\<in>set d. \<not> py_isspace c \<Longrightarrow> c \<in> set (join_with d ws) \<Longrightarrow> \<not> py_isspace c"
  by (induction d ws rule: join_with.induct) auto

lemma printable_word: "w \<noteq> [] \<Longrightarrow> \<forall>c\<in>set w. py_printable c \<Longrightarrow> CHR '' '' \<notin> set w \<Longrightarrow> one_word w"
proof -
  have "\<not> py_isspace c" if "py_printable c" "c \<noteq> CHR '' ''" for c
  proof
    assume "py_isspace c"
    then have "of_char c = (32 :: nat)" using that(1) by (auto simp: py_isspace_def py_printable_def Let_def)
    moreover have "of_char CHR '' '' = (32 :: nat)" by simp
    ultimately show False using that(2) of_char_eq_iff by metis
  qed
  then show "w \<noteq> [] \<Longrightarrow> \<forall>c\<in>set w. py_printable c \<Longrightarrow> CHR '' '' \<notin> set w \<Longrightarrow> one_word w"
    unfolding one_word_def by blast
qed

lemma digit_word: "n < 16 \<Longrightarrow> \<not> py_isspace (digit n)"
proof -
  have "\<forall>n\<in>set [0..<16]. \<not> py_isspace (digit n)" by code_simp
  then show "n < 16 \<Longrightarrow> \<not> py_isspace (digit n)" by simp
qed

lemma nat_text_word: "b \<le> 16 \<Longrightarrow> one_word (nat_text b n)"
proof (induction b n rule: nat_text.induct)
  case (1 b n)
  show ?case
  proof (cases "n < b \<or> b < 2")
    case True
    then show ?thesis using digit_word [of "n mod 16"] by (subst nat_text.simps) (simp add: one_word_def)
  next
    case False
    have "n mod b < 16" using False 1(2) mod_less_divisor [of b n] by linarith
    then show ?thesis using 1 False digit_word [of "n mod b"] by (subst nat_text.simps) (simp add: one_word_def)
  qed
qed

lemma int_text_word: "one_word (int_text i)" and hex_text_word: "one_word (hex_text i)"
  using nat_text_word [of 10 "nat \<bar>i\<bar>"] nat_text_word [of 16 "nat \<bar>i\<bar>"]
  by (simp_all add: int_text_def hex_text_def one_word_def) (auto simp: py_isspace_def)

section \<open>Paths\<close>

lemma split_at_char_ne [simp]: "split_at_char d s \<noteq> []"
  by (induction d s rule: split_at_char.induct) auto

lemma split_at_char_free: "w \<in> set (split_at_char d s) \<Longrightarrow> d \<notin> set w"
proof (induction d s arbitrary: w rule: split_at_char.induct)
  case (2 d c s)
  have "hd (split_at_char d s) \<in> set (split_at_char d s)" by simp
  moreover have "v \<in> set (split_at_char d s)" if "v \<in> set (tl (split_at_char d s))" for v
    using that by (meson list.set_sel(2) split_at_char_ne)
  ultimately show ?case using 2 by (auto split: if_splits)
qed simp

lemma split_word: "d \<notin> set w \<Longrightarrow> split_at_char d w = [w]"
  by (induction w) auto

lemma split_word_append: "d \<notin> set w \<Longrightarrow> split_at_char d (w @ d # s) = w # split_at_char d s"
  by (induction w) auto

lemma split_join: "ws \<noteq> [] \<Longrightarrow> \<forall>w\<in>set ws. d \<notin> set w \<Longrightarrow> split_at_char d (join_with [d] ws) = ws"
  by (induction "[d]" ws rule: join_with.induct) (auto simp: split_word split_word_append)

text \<open>The components of a normalized absolute path: no empty ones, no dots, no slashes.\<close>

definition plain_comps :: "string list \<Rightarrow> bool" where
  "plain_comps ws \<longleftrightarrow> (\<forall>w\<in>set ws. w \<noteq> [] \<and> w \<noteq> ''.'' \<and> w \<noteq> ''..'' \<and> CHR ''/'' \<notin> set w)"

lemma fold_path_plain: "\<forall>w\<in>set ws. CHR ''/'' \<notin> set w \<Longrightarrow> plain_comps comps \<Longrightarrow> plain_comps (fold (path_step True) ws comps)"
proof (induction ws arbitrary: comps)
  case (Cons w ws)
  have "last comps \<noteq> ''..''" if "comps \<noteq> []" using Cons.prems(2) that last_in_set by (fastforce simp: plain_comps_def)
  then have "plain_comps (path_step True w comps)"
    using Cons.prems by (auto simp: path_step_def plain_comps_def dest: in_set_butlastD)
  then show ?case using Cons by simp
qed simp

lemma fold_path_id: "plain_comps ws \<Longrightarrow> fold (path_step True) ws comps = comps @ ws"
  by (induction ws arbitrary: comps) (auto simp: path_step_def plain_comps_def)

text \<open>An absolute path is a fixed point: reading it again changes nothing, from whatever directory.\<close>

lemma normpath_fixed:
  assumes "plain_comps ws" "rt = ''/'' \<or> rt = ''//''"
  shows "normpath (rt @ join_with ''/'' ws) = rt @ join_with ''/'' ws"
proof -
  have first: "take 1 (join_with ''/'' ws) \<noteq> ''/''"
  proof (cases ws)
    case (Cons w vs)
    then obtain c w' where "w = c # w'" "c \<noteq> CHR ''/''" using assms(1) by (cases w) (auto simp: plain_comps_def)
    then show ?thesis using Cons by (cases vs) simp_all
  qed simp
  have rt: "root_slashes (rt @ join_with ''/'' ws) = rt"
    using assms(2) first by (cases "join_with ''/'' ws") (auto simp: root_slashes_def numeral_eq_Suc)
  have comps: "fold (path_step True) (split_at_char CHR ''/'' (join_with ''/'' ws)) [] = ws"
  proof (cases "ws = []")
    case True
    then show ?thesis by (simp add: path_step_def)
  next
    case False
    then show ?thesis using assms(1) split_join [of ws "CHR ''/''"] fold_path_id [of ws "[]"] by (simp add: plain_comps_def)
  qed
  have "split_at_char CHR ''/'' (rt @ s) = (if rt = ''/'' then [[]] else [[], []]) @ split_at_char CHR ''/'' s" for s
    using assms(2) by auto
  then have "fold (path_step True) (split_at_char CHR ''/'' (rt @ join_with ''/'' ws)) [] = ws"
    using comps by (simp add: path_step_def)
  then show ?thesis using rt assms(2) by (auto simp: normpath_def Let_def)
qed

lemma abspath_shape:
  assumes "take 1 cwd = ''/''"
  obtains ws rt where "plain_comps ws" "rt = ''/'' \<or> rt = ''//''" "abspath cwd p = rt @ join_with ''/'' ws"
proof -
  let ?q = "if take 1 p = ''/'' then p else path_join cwd p"
  have q: "take 1 ?q = ''/''" using assms by (cases cwd) (auto simp: path_join_def)
  then have rt: "root_slashes ?q = ''/'' \<or> root_slashes ?q = ''//''" by (auto simp: root_slashes_def)
  have "plain_comps (fold (path_step True) (split_at_char CHR ''/'' ?q) [])"
    using fold_path_plain [of "split_at_char CHR ''/'' ?q" "[]"] split_at_char_free by (simp add: plain_comps_def)
  moreover have "abspath cwd p = root_slashes ?q @ join_with ''/'' (fold (path_step True) (split_at_char CHR ''/'' ?q) [])"
    using q rt by (auto simp: abspath_def normpath_def Let_def simp del: fold_simps)
  ultimately show thesis using rt that by blast
qed

lemma abspath_idem:
  assumes "take 1 cwd = ''/''"
  shows "abspath cwd' (abspath cwd p) = abspath cwd p"
proof -
  obtain ws rt where a: "plain_comps ws" "rt = ''/'' \<or> rt = ''//''" "abspath cwd p = rt @ join_with ''/'' ws"
    using abspath_shape [OF assms] .
  then show ?thesis using normpath_fixed [OF a(1,2)] by (auto simp: abspath_def)
qed

end
