(* ===== verification/HdfJournal.thy ===== *)
theory HdfJournal
  imports PyText
begin

text \<open>
  \<open>src/file_io/h5_journal.py\<close>: the journal of HDF5 operations. One line per operation is appended to a file of
  the rank, the last 256 lines are kept in a ring, and a refusal dumps the ring into a crash file.

  A call sees an environment: the toggle variable, the working directory, what the process rank and count are
  asked for, the clock as it is printed, the owner registry, and whether each disk access works. Files map a
  path to its text. Locks are left out: a call holds them over every change it makes. So is the flag against
  reentry, which no call below \<open>record\<close> sees set, and the warning \<open>_break\<close> prints.
\<close>

section \<open>The code\<close>

datatype jerror = BadOp string | BadStack string | BadToggle string

datatype jmode = JOff | JOn | JSync

definition jmode_of :: "string option \<Rightarrow> (jerror, jmode) result" where
  "jmode_of var =
     (let got = py_lower (py_strip (case var of None \<Rightarrow> ''0'' | Some s \<Rightarrow> s))
      in if got \<in> set [''0'', ''false'', ''no'', ''off''] then Inr JOff
         else if got \<in> set [''sync'', ''fsync''] then Inr JSync
         else if got \<in> set [''1'', ''true'', ''yes'', ''on'', ''''] then Inr JOn
         else Inl (BadToggle got))"

definition journal_ops :: "string list" where
  "journal_ops = [''open'', ''close'', ''create'', ''read'', ''write'', ''attr_r'', ''attr_w'']"

definition journal_stacks :: "string list" where
  "journal_stacks = [''h5py'', ''ffi'']"

definition ring_lines :: nat where
  "ring_lines = 256"

definition refusal_chars :: nat where
  "refusal_chars = 40"

definition rank_resolve_tries :: nat where
  "rank_resolve_tries = 256"

definition nl :: string where
  "nl = [CHR 0x0A]"

text \<open>The values a field may hold; \<open>POther\<close> is any other object, by its \<open>str\<close>.\<close>

datatype pyval = PNone | PText string | PSeq "pyval list" | PBool bool | PInt int | POther string

definition squeezed :: "string \<Rightarrow> string" where
  "squeezed s = (let w = join_with ''_'' (py_split s) in if w = [] then ''-'' else w)"

fun tok :: "pyval \<Rightarrow> string" where
  "tok PNone = ''-''"
| "tok (PText v) = (if v = [] then ''-'' else if list_all py_printable v \<and> CHR '' '' \<notin> set v then v else squeezed v)"
| "tok (PSeq vs) = ''('' @ join_with '','' (map tok vs) @ '')''"
| "tok (PBool b) = (if b then ''1'' else ''0'')"
| "tok (PInt i) = int_text i"
| "tok (POther s) = squeezed s"

fun handle_tok :: "pyval \<Rightarrow> string" where
  "handle_tok PNone = ''-''"
| "handle_tok (PBool b) = tok (PBool b)"
| "handle_tok (PInt i) = hex_text i"
| "handle_tok (PSeq vs) = ''('' @ join_with '','' (map handle_tok vs) @ '')''"
| "handle_tok (PText v) = tok (PText v)"
| "handle_tok (POther s) = tok (POther s)"

text \<open>The outcome of an operation: nothing, a text, or an exception with its message and type name.\<close>

datatype rc = RcNone | RcText string | RcExc string string

definition rc_tok :: "rc \<Rightarrow> string" where
  "rc_tok r =
     (case r of
        RcNone \<Rightarrow> ''ok''
      | RcText s \<Rightarrow>
          if s = ''ok'' then ''ok''
          else
            let msg = join_with '' '' (py_split s);
                rest = (if take 8 msg = ''refused:'' then drop 8 msg else msg)
            in ''refused:'' @ take refusal_chars rest
      | RcExc message name \<Rightarrow>
          let msg = join_with '' '' (py_split message)
          in ''refused:'' @ take refusal_chars (if msg = [] then name else msg))"

definition format_line ::
    "string \<Rightarrow> nat \<Rightarrow> string \<Rightarrow> string \<Rightarrow> string \<Rightarrow> string \<Rightarrow> string \<Rightarrow> string \<Rightarrow> string \<Rightarrow> string \<Rightarrow> string \<Rightarrow> string \<Rightarrow> string" where
  "format_line t rank stack op path handle ds off cnt mode owner rct =
     ''t='' @ t @ '' rank='' @ nat_text 10 rank @ '' stack='' @ stack @ '' op='' @ op @ '' path='' @ path @
     '' handle='' @ handle @ '' ds='' @ ds @ '' off='' @ off @ '' cnt='' @ cnt @ '' mode='' @ mode @
     '' owner='' @ owner @ '' rc='' @ rct"

record jcall =
  jc_op :: string
  jc_path :: string
  jc_stack :: string
  jc_handle :: pyval
  jc_ds :: pyval
  jc_off :: pyval
  jc_cnt :: pyval
  jc_mode :: pyval
  jc_owner :: pyval
  jc_rc :: rc

text \<open>A disk access works, fails with nothing written, or fails after the bytes have landed.\<close>

datatype disk = DiskOk | DiskLost | DiskLate

record jenv =
  je_toggle :: "string option"
  je_cwd :: string
  je_world :: "(nat \<times> nat) option"
  je_clock :: string
  je_verdict :: "string \<Rightarrow> string"
  je_open :: bool
  je_write :: disk
  je_dump :: disk

record journal =
  jr_ring :: "string list"
  jr_stream :: "string option"
  jr_log_path :: "string option"
  jr_rank_of_file :: "nat option"
  jr_rank :: "nat option"
  jr_world :: nat
  jr_tries :: nat
  jr_abnormal :: bool
  jr_dumped :: nat
  jr_broken :: bool
  jr_atexit :: bool
  jr_files :: "string \<Rightarrow> string"

definition fresh_journal :: "(string \<Rightarrow> string) \<Rightarrow> journal" where
  "fresh_journal files = \<lparr>jr_ring = [], jr_stream = None, jr_log_path = None, jr_rank_of_file = None, jr_rank = None,
     jr_world = 1, jr_tries = 0, jr_abnormal = False, jr_dumped = 0, jr_broken = False, jr_atexit = False, jr_files = files\<rparr>"

definition journal_enabled :: "jenv \<Rightarrow> journal \<Rightarrow> (jerror, bool) result" where
  "journal_enabled e st =
     (if jr_broken st then Inr False else andthen (jmode_of (je_toggle e)) (\<lambda>m. Inr (m \<noteq> JOff)))"

definition journal_rank :: "jenv \<Rightarrow> journal \<Rightarrow> nat \<times> journal" where
  "journal_rank e st =
     (case jr_rank st of
        Some r \<Rightarrow>
          if 1 < jr_world st \<or> rank_resolve_tries \<le> jr_tries st then (r, st)
          else
            (case je_world e of
               Some (rank, world) \<Rightarrow> (rank, st\<lparr>jr_rank := Some rank, jr_world := world, jr_tries := jr_tries st + 1\<rparr>)
             | None \<Rightarrow> (r, st\<lparr>jr_world := 1, jr_tries := jr_tries st + 1\<rparr>))
      | None \<Rightarrow>
          (case je_world e of
             Some (rank, world) \<Rightarrow> (rank, st\<lparr>jr_rank := Some rank, jr_world := world, jr_tries := jr_tries st + 1\<rparr>)
           | None \<Rightarrow> (0, st\<lparr>jr_rank := Some 0, jr_world := 1, jr_tries := jr_tries st + 1\<rparr>)))"

definition journal_file :: "jenv \<Rightarrow> nat \<Rightarrow> string" where
  "journal_file e r = path_join (je_cwd e) (''h5_journal.rank'' @ nat_text 10 r @ ''.log'')"

definition crash_file :: "jenv \<Rightarrow> nat \<Rightarrow> string" where
  "crash_file e r = path_join (je_cwd e) (''h5_journal_crash.rank'' @ nat_text 10 r @ ''.txt'')"

definition journal_path :: "jenv \<Rightarrow> journal \<Rightarrow> string \<times> journal" where
  "journal_path e st = (case journal_rank e st of (r, st) \<Rightarrow> (journal_file e r, st))"

definition crash_path :: "jenv \<Rightarrow> journal \<Rightarrow> string \<times> journal" where
  "crash_path e st = (case journal_rank e st of (r, st) \<Rightarrow> (crash_file e r, st))"

definition journal_break :: "journal \<Rightarrow> journal" where
  "journal_break st = st\<lparr>jr_broken := True, jr_stream := None, jr_log_path := None\<rparr>"

text \<open>\<open>_stream\<close>: the open file, or None when it cannot be opened. Opening creates the file if there is none.\<close>

definition open_stream :: "jenv \<Rightarrow> journal \<Rightarrow> string option \<times> journal" where
  "open_stream e st =
     (case journal_path e st of (want, st) \<Rightarrow>
        if je_open e then
          (case journal_rank e (st\<lparr>jr_stream := Some want, jr_log_path := Some want\<rparr>) of (r, st) \<Rightarrow>
             (Some want, st\<lparr>jr_rank_of_file := Some r, jr_atexit := True\<rparr>))
        else (None, journal_break st))"

definition journal_stream :: "jenv \<Rightarrow> journal \<Rightarrow> string option \<times> journal" where
  "journal_stream e st =
     (case jr_stream st of
        None \<Rightarrow> open_stream e st
      | Some path \<Rightarrow>
          (case journal_rank e st of (r, st) \<Rightarrow>
             if jr_rank_of_file st = Some r then (Some path, st) else open_stream e st))"

definition keep_last :: "nat \<Rightarrow> 'a list \<Rightarrow> 'a list" where
  "keep_last n xs = drop (length xs - n) xs"

definition ends_ok :: "string \<Rightarrow> bool" where
  "ends_ok line \<longleftrightarrow> keep_last 5 line = ''rc=ok''"

definition append_file :: "string \<Rightarrow> string \<Rightarrow> journal \<Rightarrow> journal" where
  "append_file path s st = st\<lparr>jr_files := (jr_files st)(path := jr_files st path @ s)\<rparr>"

definition record_line :: "jenv \<Rightarrow> jcall \<Rightarrow> journal \<Rightarrow> string \<times> journal" where
  "record_line e c st =
     (let abs_path = (if jc_path c = [] then None else Some (abspath (je_cwd e) (jc_path c)))
      in case journal_rank e st of (r, st) \<Rightarrow>
        (format_line (je_clock e) r (jc_stack c) (jc_op c) (tok (case abs_path of None \<Rightarrow> PNone | Some p \<Rightarrow> PText p))
           (handle_tok (jc_handle c)) (tok (jc_ds c)) (tok (jc_off c)) (tok (jc_cnt c)) (tok (jc_mode c))
           (if jc_owner c \<noteq> PNone then tok (jc_owner c)
            else case abs_path of None \<Rightarrow> ''-'' | Some p \<Rightarrow> tok (PText (je_verdict e p)))
           (rc_tok (jc_rc c)), st))"

definition journal_record :: "jenv \<Rightarrow> jcall \<Rightarrow> journal \<Rightarrow> (jerror, string option) result \<times> journal" where
  "journal_record e c st =
     (if jc_op c \<notin> set journal_ops then (Inl (BadOp (jc_op c)), st)
      else if jc_stack c \<notin> set journal_stacks then (Inl (BadStack (jc_stack c)), st)
      else if jr_broken st then (Inr None, st)
      else case jmode_of (je_toggle e) of
        Inl err \<Rightarrow> (Inl err, st)
      | Inr live \<Rightarrow>
          if live = JOff then (Inr None, st)
          else
            case record_line e c st of (line, st) \<Rightarrow>
              let st = st\<lparr>jr_ring := keep_last ring_lines (jr_ring st @ [line]), jr_abnormal := jr_abnormal st \<or> \<not> ends_ok line\<rparr>
              in case journal_stream e st of
                (None, st) \<Rightarrow> (Inr (Some line), st)
              | (Some path, st) \<Rightarrow>
                  (Inr (Some line),
                   case je_write e of
                     DiskOk \<Rightarrow> append_file path (line @ nl) st
                   | DiskLost \<Rightarrow> journal_break st
                   | DiskLate \<Rightarrow> journal_break (append_file path (line @ nl) st)))"

text \<open>The header of a dump, up to the dash before its reason: the rank, the number of the dump, the clock, the lines, the path.\<close>

definition crash_head :: "string \<Rightarrow> (string \<times> string) option \<Rightarrow> jenv \<Rightarrow> string list \<Rightarrow> journal \<Rightarrow> string \<times> journal" where
  "crash_head reason exc e lines st =
     (case journal_rank e st of (r, st1) \<Rightarrow>
        let (log, st2) = (case jr_log_path st1 of Some p \<Rightarrow> (p, st1) | None \<Rightarrow> journal_path e st1)
        in (''# LORRAX HDF5 journal crash ring '' @ reason @ nl @
            ''#   rank='' @ nat_text 10 r @ '' dumped='' @ nat_text 10 (jr_dumped st1 + 1) @ '' t='' @ je_clock e @
            '' lines='' @ nat_text 10 (length lines) @ '' (ring depth '' @ nat_text 10 ring_lines @ '')'' @ nl @
            ''#   journal: '' @ log @ nl @
            (case exc of None \<Rightarrow> [] | Some (message, name) \<Rightarrow>
               ''#   exception: '' @ name @ '': '' @ join_with '' '' (py_split message) @ nl), st2))"

definition crash_dump :: "string \<Rightarrow> (string \<times> string) option \<Rightarrow> jenv \<Rightarrow> journal \<Rightarrow> (jerror, string option) result \<times> journal" where
  "crash_dump reason exc e st =
     (case journal_enabled e st of
        Inl err \<Rightarrow> (Inl err, st)
      | Inr False \<Rightarrow> (Inr None, st)
      | Inr True \<Rightarrow>
          (case crash_path e st of (path, st) \<Rightarrow>
             let lines = jr_ring st in
             case crash_head reason exc e lines st of (head, st) \<Rightarrow>
               let body = head @ join_with nl lines @ nl @ nl
               in case je_dump e of
                    DiskOk \<Rightarrow> (Inr (Some path), (append_file path body st)\<lparr>jr_dumped := jr_dumped st + 1\<rparr>)
                  | DiskLost \<Rightarrow> (Inr None, journal_break st)
                  | DiskLate \<Rightarrow> (Inr None, journal_break (append_file path body st))))"

text \<open>\<open>contextlib.suppress(Exception)\<close> around two calls: the second is skipped when the first raises.\<close>

definition journal_fail :: "jenv \<Rightarrow> string \<times> string \<Rightarrow> jcall \<Rightarrow> journal \<Rightarrow> journal" where
  "journal_fail e exc c st =
     (case journal_record e (c\<lparr>jc_rc := RcExc (fst exc) (snd exc)\<rparr>) st of
        (Inl _, st) \<Rightarrow> st
      | (Inr _, st) \<Rightarrow>
          snd (crash_dump (snd exc @ '' crossing '' @ jc_stack c @ '' '' @ jc_op c @ '' '' @ last (split_at_char CHR ''/'' (jc_path c)))
                 (Some exc) e st))"

definition atexit_dump :: "jenv \<Rightarrow> journal \<Rightarrow> journal" where
  "atexit_dump e st =
     (let dumped = (if jr_abnormal st \<and> jr_dumped st = 0
                    then crash_dump ''atexit: a refusal or exception was journaled during this run'' None e st
                    else (Inr None, st))
      in case dumped of
           (Inl _, st) \<Rightarrow> st
         | (Inr _, st) \<Rightarrow> st\<lparr>jr_stream := None\<rparr>)"

definition op_scope :: "jenv \<Rightarrow> jcall \<Rightarrow> (journal \<Rightarrow> (string \<times> string, 'a) result \<times> journal) \<Rightarrow> journal \<Rightarrow>
    (jerror + string \<times> string, 'a) result \<times> journal" where
  "op_scope e c body st =
     (case journal_record e c st of
        (Inl err, st) \<Rightarrow> (Inl (Inl err), st)
      | (Inr _, st) \<Rightarrow>
          (case body st of
             (Inr a, st) \<Rightarrow> (Inr a, st)
           | (Inl exc, st) \<Rightarrow> (Inl (Inr exc), journal_fail e exc c st)))"

section \<open>Reading a line back\<close>

definition line_keys :: "string list" where
  "line_keys = [''t'', ''rank'', ''stack'', ''op'', ''path'', ''handle'', ''ds'', ''off'', ''cnt'', ''mode'', ''owner'', ''rc'']"

text \<open>Each value ends at the next blank, the last one at the end of the line.\<close>

fun read_fields :: "string list \<Rightarrow> string \<Rightarrow> string list option" where
  "read_fields [] s = None"
| "read_fields [k] s = (if take (length k + 1) s = k @ ''='' then Some [drop (length k + 1) s] else None)"
| "read_fields (k # j # ks) s =
     (let f = takeWhile (\<lambda>c. c \<noteq> CHR '' '') s
      in if take (length k + 1) f = k @ ''='' then map_option (\<lambda>vs. drop (length k + 1) f # vs) (read_fields (j # ks) (drop (length f + 1) s))
         else None)"

lemma read_fields_step:
  assumes "CHR '' '' \<notin> set k" "CHR '' '' \<notin> set v"
  shows "read_fields (k # j # ks) (k @ CHR ''='' # v @ CHR '' '' # s) = map_option (\<lambda>vs. v # vs) (read_fields (j # ks) s)"
proof -
  have "takeWhile (\<lambda>c. c \<noteq> CHR '' '') ((k @ CHR ''='' # v) @ CHR '' '' # s) = k @ CHR ''='' # v"
    using assms by (subst takeWhile_append2) auto
  then have "takeWhile (\<lambda>c. c \<noteq> CHR '' '') (k @ CHR ''='' # v @ CHR '' '' # s) = k @ CHR ''='' # v" by simp
  then show ?thesis by (simp add: Let_def)
qed

lemma squeezed_word: "one_word (squeezed s)"
proof (cases "py_split s = []")
  case True
  then show ?thesis by (simp add: squeezed_def one_word_def py_isspace_def)
next
  case False
  then have "one_word (join_with ''_'' (py_split s))" using py_split_words by (intro join_word) (auto simp: py_isspace_def)
  then show ?thesis by (simp add: squeezed_def one_word_def Let_def)
qed

lemma mark_words: "one_word ''-''" "one_word ''0''" "one_word ''1''"
  by (simp_all add: one_word_def py_isspace_def)

lemma paren_word: "\<forall>w\<in>set ws. one_word w \<Longrightarrow> one_word (''('' @ join_with '','' ws @ '')'')"
  using join_no_space [of ws "'',''"] by (auto simp: one_word_def py_isspace_def)

lemma tok_word: "one_word (tok v)"
proof (induction v rule: tok.induct)
  case (2 v)
  then show ?case using squeezed_word [of v] printable_word [of v] by (simp add: mark_words list_all_iff)
next
  case (3 vs)
  then show ?case using paren_word [of "map tok vs"] by simp
qed (simp_all add: mark_words squeezed_word int_text_word)

lemma handle_tok_word: "one_word (handle_tok v)"
proof (induction v rule: handle_tok.induct)
  case (4 vs)
  then show ?case using paren_word [of "map handle_tok vs"] by simp
qed (use tok_word [of "PBool _"] tok_word [of "PText _"] tok_word [of "POther _"] in \<open>simp_all add: mark_words hex_text_word del: tok.simps\<close>)

lemma vocabulary_words: "w \<in> set journal_ops \<or> w \<in> set journal_stacks \<Longrightarrow> CHR '' '' \<notin> set w"
  by (auto simp: journal_ops_def journal_stacks_def)

text \<open>The tokens of a call, as \<open>journal_record\<close> puts them on the line.\<close>

definition call_path :: "jenv \<Rightarrow> jcall \<Rightarrow> string option" where
  "call_path e c = (if jc_path c = [] then None else Some (abspath (je_cwd e) (jc_path c)))"

definition call_tokens :: "jenv \<Rightarrow> nat \<Rightarrow> jcall \<Rightarrow> string list" where
  "call_tokens e r c =
     [je_clock e, nat_text 10 r, jc_stack c, jc_op c, tok (case call_path e c of None \<Rightarrow> PNone | Some p \<Rightarrow> PText p),
      handle_tok (jc_handle c), tok (jc_ds c), tok (jc_off c), tok (jc_cnt c), tok (jc_mode c),
      if jc_owner c \<noteq> PNone then tok (jc_owner c) else case call_path e c of None \<Rightarrow> ''-'' | Some p \<Rightarrow> tok (PText (je_verdict e p)),
      rc_tok (jc_rc c)]"

lemma read_record_line:
  assumes "jc_op c \<in> set journal_ops" "jc_stack c \<in> set journal_stacks" "CHR '' '' \<notin> set (je_clock e)"
  shows "read_fields line_keys (fst (record_line e c st)) = Some (call_tokens e (fst (journal_rank e st)) c)"
proof -
  note words = tok_word [THEN one_word_no_blank] handle_tok_word [THEN one_word_no_blank] nat_text_word [of 10, THEN one_word_no_blank]
    mark_words(1) [THEN one_word_no_blank]
  have owner: "CHR '' '' \<notin> set (if jc_owner c \<noteq> PNone then tok (jc_owner c)
      else case call_path e c of None \<Rightarrow> ''-'' | Some p \<Rightarrow> tok (PText (je_verdict e p)))"
    using words by (auto split: option.split simp del: tok.simps)
  have step: "read_fields (k # j # ks) (k @ ''='' @ v @ '' '' @ s) = map_option (\<lambda>vs. v # vs) (read_fields (j # ks) s)"
    if "CHR '' '' \<notin> set k" "CHR '' '' \<notin> set v" for k j ks v s
    using read_fields_step [OF that] by simp
  have line: "fst (record_line e c st) =
     ''t'' @ ''='' @ je_clock e @ '' '' @ ''rank'' @ ''='' @ nat_text 10 (fst (journal_rank e st)) @ '' '' @ ''stack'' @ ''='' @ jc_stack c @ '' '' @
     ''op'' @ ''='' @ jc_op c @ '' '' @ ''path'' @ ''='' @ tok (case call_path e c of None \<Rightarrow> PNone | Some p \<Rightarrow> PText p) @ '' '' @
     ''handle'' @ ''='' @ handle_tok (jc_handle c) @ '' '' @ ''ds'' @ ''='' @ tok (jc_ds c) @ '' '' @ ''off'' @ ''='' @ tok (jc_off c) @ '' '' @
     ''cnt'' @ ''='' @ tok (jc_cnt c) @ '' '' @ ''mode'' @ ''='' @ tok (jc_mode c) @ '' '' @
     ''owner'' @ ''='' @ (if jc_owner c \<noteq> PNone then tok (jc_owner c)
      else case call_path e c of None \<Rightarrow> ''-'' | Some p \<Rightarrow> tok (PText (je_verdict e p))) @ '' '' @
     ''rc'' @ ''='' @ rc_tok (jc_rc c)"
    by (simp add: record_line_def format_line_def call_path_def split_beta Let_def del: tok.simps handle_tok.simps)
  have last: "read_fields [''rc''] (''rc'' @ ''='' @ s) = Some [s]" for s by simp
  show ?thesis
    unfolding line line_keys_def call_tokens_def
    by (simp only: step words owner vocabulary_words assms disjI1 disjI2 last option.map list.set insert_iff empty_iff char.inject simp_thms)
qed

lemma record_returns:
  assumes "jc_op c \<in> set journal_ops" "jc_stack c \<in> set journal_stacks" "\<not> jr_broken st" "jmode_of (je_toggle e) = Inr m" "m \<noteq> JOff"
  shows "fst (journal_record e c st) = Inr (Some (fst (record_line e c st)))"
  using assms by (simp add: journal_record_def Let_def split: prod.split option.split)

text \<open>
  C39: A line of the journal reads back: cut at its blanks, keys stripped, it gives the tokens of the call it
  records, whatever blanks the values had, with the message of a refusal last.
\<close>

theorem line_reads_back:
  assumes "journal_record e c st = (Inr (Some line), st')" "CHR '' '' \<notin> set (je_clock e)"
  shows "read_fields line_keys line = Some (call_tokens e (fst (journal_rank e st)) c)"
proof -
  have ok: "jc_op c \<in> set journal_ops" "jc_stack c \<in> set journal_stacks"
    using assms(1) by (auto simp: journal_record_def split: if_splits)
  have "line = fst (record_line e c st)"
    using assms(1) by (auto simp: journal_record_def Let_def split: if_splits sum.splits prod.splits option.splits)
  then show ?thesis using read_record_line [OF ok assms(2)] by simp
qed

theorem line_reads_back_witness:
  "let e = \<lparr>je_toggle = Some '' ON'', je_cwd = ''/run'', je_world = Some (3, 4), je_clock = ''1.5'', je_verdict = (\<lambda>_. ''free''),
         je_open = True, je_write = DiskOk, je_dump = DiskOk\<rparr>;
       c = \<lparr>jc_op = ''write'', jc_path = ''out/../my file.h5'', jc_stack = ''ffi'', jc_handle = PInt 255, jc_ds = PText ''W q'',
         jc_off = PSeq [PInt 0, PInt (- 2)], jc_cnt = PNone, jc_mode = PNone, jc_owner = PNone, jc_rc = RcExc ''no  space left'' ''OSError''\<rparr>
   in \<exists>line st. journal_record e c (fresh_journal (\<lambda>_. [])) = (Inr (Some line), st) \<and>
     read_fields line_keys line = Some [''1.5'', ''3'', ''ffi'', ''write'', ''/run/my_file.h5'', ''0xff'', ''W_q'', ''(0,-2)'', ''-'', ''-'', ''free'',
       ''refused:no space left'']"
proof -
  let ?e = "\<lparr>je_toggle = Some '' ON'', je_cwd = ''/run'', je_world = Some (3, 4), je_clock = ''1.5'', je_verdict = (\<lambda>_. ''free''),
         je_open = True, je_write = DiskOk, je_dump = DiskOk\<rparr>"
  let ?c = "\<lparr>jc_op = ''write'', jc_path = ''out/../my file.h5'', jc_stack = ''ffi'', jc_handle = PInt 255, jc_ds = PText ''W q'',
         jc_off = PSeq [PInt 0, PInt (- 2)], jc_cnt = PNone, jc_mode = PNone, jc_owner = PNone, jc_rc = RcExc ''no  space left'' ''OSError''\<rparr>"
  let ?st = "fresh_journal (\<lambda>_. [])"
  have on: "jmode_of (Some '' ON'') = Inr JOn" by code_simp
  have run: "fst (journal_record ?e ?c ?st) = Inr (Some (fst (record_line ?e ?c ?st)))"
    by (rule record_returns [where m = JOn]) (simp_all add: on journal_ops_def journal_stacks_def fresh_journal_def)
  have toks: "call_tokens ?e (fst (journal_rank ?e ?st)) ?c = [''1.5'', ''3'', ''ffi'', ''write'', ''/run/my_file.h5'', ''0xff'', ''W_q'',
      ''(0,-2)'', ''-'', ''-'', ''free'', ''refused:no space left'']"
  proof -
    have "tok (PText (abspath ''/run'' ''out/../my file.h5'')) = ''/run/my_file.h5''" "handle_tok (PInt 255) = ''0xff''" "tok (PText ''W q'') = ''W_q''"
      "tok (PSeq [PInt 0, PInt (- 2)]) = ''(0,-2)''" "tok (PText ''free'') = ''free''" "nat_text 10 3 = ''3''" "tok PNone = ''-''"
      "rc_tok (RcExc ''no  space left'' ''OSError'') = ''refused:no space left''"
      by code_simp+
    then show ?thesis by (simp add: call_tokens_def call_path_def journal_rank_def fresh_journal_def del: tok.simps handle_tok.simps)
  qed
  have r: "journal_record ?e ?c ?st = (Inr (Some (fst (record_line ?e ?c ?st))), snd (journal_record ?e ?c ?st))"
    by (rule prod_eqI, simp only: run fst_conv, simp only: snd_conv)
  have "CHR '' '' \<notin> set (je_clock ?e)" by simp
  from line_reads_back [OF r this, unfolded toks] r show ?thesis unfolding Let_def by blast
qed

section \<open>What is on disk\<close>

fun journal_run :: "(jenv \<times> jcall) list \<Rightarrow> journal \<Rightarrow> string list \<times> journal" where
  "journal_run [] st = ([], st)"
| "journal_run ((e, c) # rest) st =
     (case journal_record e c st of (r, st) \<Rightarrow>
        case journal_run rest st of (lines, st) \<Rightarrow>
          ((case r of Inr (Some line) \<Rightarrow> line # lines | _ \<Rightarrow> lines), st))"

lemma keep_last_again: "keep_last n (keep_last n xs @ ys) = keep_last n (xs @ ys)"
  by (cases "length xs \<le> n") (simp_all add: keep_last_def, simp add: add.commute)

definition steady :: "string \<Rightarrow> nat \<Rightarrow> nat \<Rightarrow> jenv \<Rightarrow> bool" where
  "steady cwd r n e \<longleftrightarrow> je_cwd e = cwd \<and> je_world e = Some (r, n) \<and> je_open e \<and> je_write e = DiskOk"

text \<open>What holds between calls of a steady process: rank and stream are unset or settled.\<close>

definition settled :: "string \<Rightarrow> nat \<Rightarrow> nat \<Rightarrow> journal \<Rightarrow> bool" where
  "settled file r n st \<longleftrightarrow> \<not> jr_broken st \<and> (jr_rank st = None \<or> jr_rank st = Some r \<and> jr_world st = n) \<and>
     (jr_stream st = None \<or> jr_stream st = Some file \<and> jr_rank_of_file st = Some r \<and> jr_rank st = Some r)"

lemma record_settled:
  assumes e: "steady cwd r n e" "1 < n" and st: "settled (path_join cwd (''h5_journal.rank'' @ nat_text 10 r @ ''.log'')) r n st"
  defines "file \<equiv> path_join cwd (''h5_journal.rank'' @ nat_text 10 r @ ''.log'')"
  shows "case journal_record e c st of (res, st') \<Rightarrow> settled file r n st' \<and> jr_dumped st' = jr_dumped st \<and>
    (case res of
       Inr (Some line) \<Rightarrow> jr_ring st' = keep_last ring_lines (jr_ring st @ [line]) \<and>
         jr_files st' = (jr_files st)(file := jr_files st file @ line @ nl) \<and> (jr_abnormal st' \<longleftrightarrow> jr_abnormal st \<or> \<not> ends_ok line)
     | _ \<Rightarrow> st' = st)"
proof -
  have env: "je_cwd e = cwd" "je_world e = Some (r, n)" "je_open e" "je_write e = DiskOk" using e by (simp_all add: steady_def)
  have rank: "journal_rank e s = (r, s\<lparr>jr_rank := Some r, jr_world := n, jr_tries := jr_tries (snd (journal_rank e s))\<rparr>)"
    if "jr_rank s = None \<or> jr_rank s = Some r \<and> jr_world s = n" for s
    using that e(2) env by (auto simp: journal_rank_def)
  have path: "journal_file e r = file" by (simp add: journal_file_def file_def env)
  obtain line s1 where l: "record_line e c st = (line, s1)" by (cases "record_line e c st")
  then have s1: "s1 = st\<lparr>jr_rank := Some r, jr_world := n, jr_tries := jr_tries (snd (journal_rank e st))\<rparr>"
    using rank [of st] st by (auto simp: record_line_def settled_def Let_def split: prod.splits)
  show ?thesis
  proof (cases "jc_op c \<notin> set journal_ops \<or> jc_stack c \<notin> set journal_stacks \<or> (\<exists>err. jmode_of (je_toggle e) = Inl err) \<or> jmode_of (je_toggle e) = Inr JOff")
    case True
    then show ?thesis using st by (auto simp: journal_record_def file_def settled_def)
  next
    case False
    then obtain m where m: "jmode_of (je_toggle e) = Inr m" "m \<noteq> JOff" by (cases "jmode_of (je_toggle e)") auto
    let ?s2 = "s1\<lparr>jr_ring := keep_last ring_lines (jr_ring s1 @ [line]), jr_abnormal := jr_abnormal s1 \<or> \<not> ends_ok line\<rparr>"
    have stream: "\<exists>t. journal_stream e ?s2 = (Some file, ?s2\<lparr>jr_stream := Some file, jr_log_path := fst t, jr_rank_of_file := Some r,
        jr_atexit := snd t\<rparr>)"
    proof (cases "jr_stream st")
      case None
      then show ?thesis using rank s1 e(2) env path
        by (auto simp: journal_stream_def open_stream_def journal_path_def journal_rank_def)
    next
      case (Some f)
      then show ?thesis using rank s1 e(2) env path st
        by (intro exI [of _ "(jr_log_path st, jr_atexit st)"]) (auto simp: journal_stream_def journal_rank_def settled_def file_def)
    qed
    then show ?thesis using False m l s1 st env
      by (auto simp: journal_record_def Let_def append_file_def settled_def file_def split: prod.splits)
  qed
qed

lemma run_settled:
  assumes "\<forall>(e, c)\<in>set calls. steady cwd r n e" "1 < n" and at: "file = path_join cwd (''h5_journal.rank'' @ nat_text 10 r @ ''.log'')"
    and st: "settled file r n st" "jr_ring st = keep_last ring_lines old"
  shows "case journal_run calls st of (lines, st') \<Rightarrow>
    jr_files st' = (jr_files st)(file := jr_files st file @ concat (map (\<lambda>line. line @ nl) lines)) \<and>
    jr_ring st' = keep_last ring_lines (old @ lines) \<and>
    (jr_abnormal st' \<longleftrightarrow> jr_abnormal st \<or> (\<exists>line\<in>set lines. \<not> ends_ok line))"
  using assms(1) st
proof (induction calls arbitrary: st old)
  case (Cons ec calls)
  obtain e c where ec: "ec = (e, c)" by (cases ec)
  obtain res st1 where r1: "journal_record e c st = (res, st1)" by (cases "journal_record e c st")
  have e: "steady cwd r n e" and rest: "\<forall>(e, c)\<in>set calls. steady cwd r n e" using Cons.prems(1) ec by auto
  have one: "settled file r n st1 \<and> jr_dumped st1 = jr_dumped st \<and> (case res of
     Inr (Some line) \<Rightarrow> jr_ring st1 = keep_last ring_lines (jr_ring st @ [line]) \<and>
       jr_files st1 = (jr_files st)(file := jr_files st file @ line @ nl) \<and> (jr_abnormal st1 \<longleftrightarrow> jr_abnormal st \<or> \<not> ends_ok line)
   | _ \<Rightarrow> st1 = st)"
    using record_settled [OF e assms(2), folded at, OF Cons.prems(2), of c] r1 by simp
  obtain lines st2 where r2: "journal_run calls st1 = (lines, st2)" by (cases "journal_run calls st1")
  show ?case
  proof (cases "\<exists>line. res = Inr (Some line)")
    case True
    then obtain line where line: "res = Inr (Some line)" by blast
    then have ring: "jr_ring st1 = keep_last ring_lines (old @ [line])"
      using one Cons.prems(3) keep_last_again [of ring_lines old "[line]"] by simp
    show ?thesis using Cons.IH [OF rest conjunct1 [OF one] ring] one r1 r2 line ec by (simp add: fun_eq_iff)
  next
    case False
    then have same: "st1 = st" "journal_run (ec # calls) st = (lines, st2)"
      using one r1 r2 ec by (auto split: sum.splits option.splits)
    show ?thesis using Cons.IH [OF rest Cons.prems(2,3)] same r2 by simp
  qed
qed simp

text \<open>
  C40: In a process of a settled rank whose disk works, every line returned is in the rank's file, whole and in
  order, after what was there before; the ring holds the last 256 of them, and the journal knows whether one of
  them was not ok.
\<close>

theorem journal_keeps_lines:
  assumes "\<forall>(e, c)\<in>set calls. steady cwd r n e" "1 < n"
  shows "case journal_run calls (fresh_journal files) of (lines, st) \<Rightarrow>
    let file = path_join cwd (''h5_journal.rank'' @ nat_text 10 r @ ''.log'')
    in jr_files st = files(file := files file @ concat (map (\<lambda>line. line @ nl) lines)) \<and>
       jr_ring st = keep_last ring_lines lines \<and> (jr_abnormal st \<longleftrightarrow> (\<exists>line\<in>set lines. \<not> ends_ok line))"
proof -
  have "settled (path_join cwd (''h5_journal.rank'' @ nat_text 10 r @ ''.log'')) r n (fresh_journal files)"
    and "jr_ring (fresh_journal files) = keep_last ring_lines []" by (simp_all add: settled_def fresh_journal_def keep_last_def)
  from run_settled [OF assms refl this] show ?thesis by (simp add: Let_def split_beta fresh_journal_def)
qed

theorem journal_keeps_lines_witness:
  "let e = \<lparr>je_toggle = Some ''1'', je_cwd = ''/run'', je_world = Some (0, 2), je_clock = ''0.5'', je_verdict = (\<lambda>_. ''free''),
         je_open = True, je_write = DiskOk, je_dump = DiskOk\<rparr>;
       c = \<lparr>jc_op = ''open'', jc_path = ''/a.h5'', jc_stack = ''h5py'', jc_handle = PNone, jc_ds = PNone,
         jc_off = PNone, jc_cnt = PNone, jc_mode = PText ''r'', jc_owner = PNone, jc_rc = RcNone\<rparr>
   in case journal_run [(e, c), (e\<lparr>je_toggle := None\<rparr>, c), (e, c)] (fresh_journal (\<lambda>_. ''old'')) of (lines, st) \<Rightarrow>
     let f = ''/run/h5_journal.rank0.log''
     in jr_files st = (\<lambda>_. ''old'')(f := ''old'' @ concat (map (\<lambda>line. line @ nl) lines)) \<and>
        jr_ring st = keep_last ring_lines lines \<and> (jr_abnormal st \<longleftrightarrow> (\<exists>line\<in>set lines. \<not> ends_ok line))"
proof -
  let ?e = "\<lparr>je_toggle = Some ''1'', je_cwd = ''/run'', je_world = Some (0, 2), je_clock = ''0.5'', je_verdict = (\<lambda>_. ''free''),
         je_open = True, je_write = DiskOk, je_dump = DiskOk\<rparr>"
  let ?c = "\<lparr>jc_op = ''open'', jc_path = ''/a.h5'', jc_stack = ''h5py'', jc_handle = PNone, jc_ds = PNone,
         jc_off = PNone, jc_cnt = PNone, jc_mode = PText ''r'', jc_owner = PNone, jc_rc = RcNone\<rparr>"
  have f: "path_join ''/run'' (''h5_journal.rank'' @ nat_text 10 0 @ ''.log'') = ''/run/h5_journal.rank0.log''" by code_simp
  have "\<forall>(e, c)\<in>set [(?e, ?c), (?e\<lparr>je_toggle := None\<rparr>, ?c), (?e, ?c)]. steady ''/run'' 0 2 e" by (simp add: steady_def)
  from journal_keeps_lines [OF this, of "\<lambda>_. ''old''", unfolded f] show ?thesis unfolding Let_def by simp
qed

lemma rank_keeps [simp]:
  "jr_files (snd (journal_rank e st)) = jr_files st" "jr_ring (snd (journal_rank e st)) = jr_ring st"
  "jr_dumped (snd (journal_rank e st)) = jr_dumped st" "jr_log_path (snd (journal_rank e st)) = jr_log_path st"
  by (simp_all add: journal_rank_def split: option.split)

lemma crash_head_keeps:
  "jr_files (snd (crash_head reason exc e lines st)) = jr_files st" "jr_ring (snd (crash_head reason exc e lines st)) = jr_ring st"
  "jr_dumped (snd (crash_head reason exc e lines st)) = jr_dumped st"
  by (simp_all add: crash_head_def journal_path_def split_beta Let_def split: option.split)

lemma path_join_inject: "take 1 p \<noteq> ''/'' \<Longrightarrow> take 1 q \<noteq> ''/'' \<Longrightarrow> path_join d p = path_join d q \<longleftrightarrow> p = q"
  by (simp add: path_join_def)

lemma crash_apart: "path_join cwd (''h5_journal_crash.rank'' @ nat_text 10 r @ ''.txt'') \<noteq> path_join cwd (''h5_journal.rank'' @ nat_text 10 q @ ''.log'')"
  by (simp add: path_join_inject)

text \<open>
  While the journal is on and the disk works, a refused operation ends in the crash file: the dump holds the
  last 256 lines, the line of the refusal last, and that line reads back to the operation and its message.
\<close>

theorem fail_dumps_refusal:
  assumes "steady cwd r n e" "1 < n" "je_dump e = DiskOk" "jmode_of (je_toggle e) = Inr m" "m \<noteq> JOff"
    and "jc_op c \<in> set journal_ops" "jc_stack c \<in> set journal_stacks" "CHR '' '' \<notin> set (je_clock e)"
    and "settled (path_join cwd (''h5_journal.rank'' @ nat_text 10 r @ ''.log'')) r n st"
  shows "\<exists>line head. read_fields line_keys line = Some (call_tokens e r (c\<lparr>jc_rc := RcExc (fst exc) (snd exc)\<rparr>)) \<and>
    (let st' = journal_fail e exc c st; crash = path_join cwd (''h5_journal_crash.rank'' @ nat_text 10 r @ ''.txt'')
     in jr_ring st' = keep_last ring_lines (jr_ring st @ [line]) \<and> jr_dumped st' = jr_dumped st + 1 \<and>
        jr_files st' crash = jr_files st crash @ head @ join_with nl (jr_ring st') @ nl @ nl)"
proof -
  let ?c = "c\<lparr>jc_rc := RcExc (fst exc) (snd exc)\<rparr>" and ?file = "path_join cwd (''h5_journal.rank'' @ nat_text 10 r @ ''.log'')"
  let ?line = "fst (record_line e ?c st)" and ?crash = "path_join cwd (''h5_journal_crash.rank'' @ nat_text 10 r @ ''.txt'')"
  have env: "je_cwd e = cwd" "je_world e = Some (r, n)" using assms(1) by (simp_all add: steady_def)
  have rank: "fst (journal_rank e s) = r" if "settled ?file r n s" for s
    using that assms(2) env by (auto simp: journal_rank_def settled_def)
  have line: "read_fields line_keys ?line = Some (call_tokens e r ?c)"
    using read_record_line [of ?c e st] assms(6-8) rank [OF assms(9)] by simp
  have on: "fst (journal_record e ?c st) = Inr (Some ?line)"
    using assms(9) by (intro record_returns [OF _ _ _ assms(4,5)]) (simp_all add: assms(6,7) settled_def)
  obtain s1 where s1: "journal_record e ?c st = (Inr (Some ?line), s1)" using on by (metis prod.collapse)
  have st1: "settled ?file r n s1" "jr_dumped s1 = jr_dumped st" "jr_ring s1 = keep_last ring_lines (jr_ring st @ [?line])"
    "jr_files s1 ?crash = jr_files st ?crash"
    using record_settled [OF assms(1,2,9), of ?c] s1 crash_apart [of cwd r r] by simp_all
  define reason where "reason = snd exc @ '' crossing '' @ jc_stack ?c @ '' '' @ jc_op ?c @ '' '' @ last (split_at_char CHR ''/'' (jc_path ?c))"
  have enabled: "journal_enabled e s1 = Inr True" using st1(1) assms(4,5) by (simp add: journal_enabled_def settled_def)
  obtain head s2 where head: "crash_head reason (Some exc) e (jr_ring s1) (snd (journal_rank e s1)) = (head, s2)"
    by (cases "crash_head reason (Some exc) e (jr_ring s1) (snd (journal_rank e s1))")
  have dump: "crash_dump reason (Some exc) e s1 =
      (Inr (Some ?crash), (append_file ?crash (head @ join_with nl (jr_ring s1) @ nl @ nl) s2)\<lparr>jr_dumped := jr_dumped s2 + 1\<rparr>)"
    using head enabled assms(3) rank [OF st1(1)] env
    by (simp add: crash_dump_def crash_path_def crash_file_def split_beta Let_def)
  have kept: "jr_files s2 = jr_files s1" "jr_ring s2 = jr_ring s1" "jr_dumped s2 = jr_dumped s1"
    using crash_head_keeps [of reason "Some exc" e "jr_ring s1" "snd (journal_rank e s1)"] head by simp_all
  have "journal_fail e exc c st = (append_file ?crash (head @ join_with nl (jr_ring s1) @ nl @ nl) s2)\<lparr>jr_dumped := jr_dumped s2 + 1\<rparr>"
    using s1 dump by (simp add: journal_fail_def reason_def)
  then have "jr_ring (journal_fail e exc c st) = jr_ring s1" "jr_dumped (journal_fail e exc c st) = jr_dumped st + 1"
    "jr_files (journal_fail e exc c st) ?crash = jr_files st ?crash @ head @ join_with nl (jr_ring s1) @ nl @ nl"
    using kept st1 by (simp_all add: append_file_def)
  then show ?thesis using line st1(3) unfolding Let_def by (intro exI [of _ ?line] exI [of _ head]) simp
qed

theorem fail_dumps_refusal_witness:
  "let e = \<lparr>je_toggle = Some ''sync'', je_cwd = ''/run'', je_world = Some (0, 2), je_clock = ''0.5'', je_verdict = (\<lambda>_. ''ffi:1w''),
         je_open = True, je_write = DiskOk, je_dump = DiskOk\<rparr>;
       c = \<lparr>jc_op = ''open'', jc_path = ''/a.h5'', jc_stack = ''h5py'', jc_handle = PNone, jc_ds = PNone,
         jc_off = PNone, jc_cnt = PNone, jc_mode = PText ''r'', jc_owner = PNone, jc_rc = RcNone\<rparr>
   in \<exists>line head. read_fields line_keys line = Some (call_tokens e 0 (c\<lparr>jc_rc := RcExc ''held'' ''RuntimeError''\<rparr>)) \<and>
    (let st' = journal_fail e (''held'', ''RuntimeError'') c (fresh_journal (\<lambda>_. []));
         crash = path_join ''/run'' (''h5_journal_crash.rank'' @ nat_text 10 0 @ ''.txt'')
     in jr_ring st' = keep_last ring_lines (jr_ring (fresh_journal (\<lambda>_. [])) @ [line]) \<and> jr_dumped st' = jr_dumped (fresh_journal (\<lambda>_. [])) + 1 \<and>
        jr_files st' crash = jr_files (fresh_journal (\<lambda>_. [])) crash @ head @ join_with nl (jr_ring st') @ nl @ nl)"
proof -
  let ?e = "\<lparr>je_toggle = Some ''sync'', je_cwd = ''/run'', je_world = Some (0, 2), je_clock = ''0.5'', je_verdict = (\<lambda>_. ''ffi:1w''),
         je_open = True, je_write = DiskOk, je_dump = DiskOk\<rparr>"
  let ?c = "\<lparr>jc_op = ''open'', jc_path = ''/a.h5'', jc_stack = ''h5py'', jc_handle = PNone, jc_ds = PNone,
         jc_off = PNone, jc_cnt = PNone, jc_mode = PText ''r'', jc_owner = PNone, jc_rc = RcNone\<rparr>"
  have on: "jmode_of (Some ''sync'') = Inr JSync" by code_simp
  have "steady ''/run'' 0 2 ?e" "(1 :: nat) < 2" "je_dump ?e = DiskOk" "jmode_of (je_toggle ?e) = Inr JSync" "JSync \<noteq> JOff"
    "jc_op ?c \<in> set journal_ops" "jc_stack ?c \<in> set journal_stacks" "CHR '' '' \<notin> set (je_clock ?e)"
    by (simp_all add: steady_def on journal_ops_def journal_stacks_def)
  moreover have "settled (path_join ''/run'' (''h5_journal.rank'' @ nat_text 10 0 @ ''.log'')) 0 2 (fresh_journal (\<lambda>_. []))"
    by (simp add: settled_def fresh_journal_def)
  ultimately show ?thesis unfolding Let_def by (rule fail_dumps_refusal [where exc = "(''held'', ''RuntimeError'')", unfolded Let_def fst_conv snd_conv])
qed

text \<open>
  A broken journal is silent: it never touches a file again, and \<open>op_scope\<close> gives the body's own outcome
  whether the disk works or not, so an I/O error of the journal is never an error of the run.
\<close>

theorem journal_stays_out:
  assumes "jc_op c \<in> set journal_ops" "jc_stack c \<in> set journal_stacks" "jr_broken st \<or> (\<exists>m. jmode_of (je_toggle e) = Inr m)"
  shows "\<exists>st'. fst (op_scope e c body st) = (case fst (body st') of Inl exc \<Rightarrow> Inl (Inr exc) | Inr a \<Rightarrow> Inr a) \<and>
    (jr_broken st \<longrightarrow> st' = st \<and> jr_files (snd (op_scope e c (\<lambda>st. (x, st)) st)) = jr_files st)"
proof -
  have "\<exists>res. fst (journal_record e c st) = Inr res"
    using assms record_returns [of c st e] by (cases "jr_broken st"; cases "jmode_of (je_toggle e) = Inr JOff") (auto simp: journal_record_def)
  then obtain res st' where r: "journal_record e c st = (Inr res, st')" by (metis prod.collapse)
  have quiet: "journal_record e c' st = (Inr None, st)" if "jr_broken st" "jc_op c' = jc_op c" "jc_stack c' = jc_stack c" for c'
    using that assms(1,2) by (simp add: journal_record_def)
  have "jr_files (snd (op_scope e c (\<lambda>st. (x, st)) st)) = jr_files st" if "jr_broken st"
    using quiet [OF that, of c] quiet [OF that, of "c\<lparr>jc_rc := RcExc _ _\<rparr>"] that
    by (simp add: op_scope_def journal_fail_def crash_dump_def journal_enabled_def split: sum.split)
  then show ?thesis using r quiet [of c]
    by (intro exI [of _ st']) (auto simp: op_scope_def split: prod.split sum.split)
qed

theorem journal_stays_out_witness:
  "let e = \<lparr>je_toggle = Some ''1'', je_cwd = ''/run'', je_world = None, je_clock = ''0.5'', je_verdict = (\<lambda>_. ''free''),
         je_open = False, je_write = DiskLost, je_dump = DiskLost\<rparr>;
       c = \<lparr>jc_op = ''read'', jc_path = ''/a.h5'', jc_stack = ''ffi'', jc_handle = PNone, jc_ds = PNone,
         jc_off = PNone, jc_cnt = PNone, jc_mode = PNone, jc_owner = PNone, jc_rc = RcNone\<rparr>
   in fst (op_scope e c (\<lambda>st. (Inr (42 :: nat), st)) (fresh_journal (\<lambda>_. []))) = Inr 42"
proof -
  let ?e = "\<lparr>je_toggle = Some ''1'', je_cwd = ''/run'', je_world = None, je_clock = ''0.5'', je_verdict = (\<lambda>_. ''free''),
         je_open = False, je_write = DiskLost, je_dump = DiskLost\<rparr>"
  let ?c = "\<lparr>jc_op = ''read'', jc_path = ''/a.h5'', jc_stack = ''ffi'', jc_handle = PNone, jc_ds = PNone,
         jc_off = PNone, jc_cnt = PNone, jc_mode = PNone, jc_owner = PNone, jc_rc = RcNone\<rparr>"
  have "jmode_of (Some ''1'') = Inr JOn" by code_simp
  then have "jc_op ?c \<in> set journal_ops" "jc_stack ?c \<in> set journal_stacks"
    "jr_broken (fresh_journal (\<lambda>_. [])) \<or> (\<exists>m. jmode_of (je_toggle ?e) = Inr m)"
    by (simp_all add: journal_ops_def journal_stacks_def)
  from journal_stays_out [OF this, of "\<lambda>st. (Inr (42 :: nat), st)"] show ?thesis unfolding Let_def by auto
qed

end
