(* ===== verification/HdfOwner.thy ===== *)
theory HdfOwner
  imports HdfJournal "HOL-Library.AList"
begin

text \<open>
  \<open>src/file_io/hdf5_owner.py\<close>: the registry of open HDF5 files. Two HDF5 libraries live in one process; the
  registry refuses an open through one while the other holds the file and either side can write, counts the
  opens that alternate between them, and journals every open and close.

  A call holds the registry's lock over everything it does to it, so calls of several threads are one sequence.
  Tokens are natural numbers, paths are keyed by their absolute form. Of the text of a refusal only the first
  line and the path are kept.
\<close>

section \<open>The code\<close>

datatype hdf_stack = H5py | Ffi

definition stack_name :: "hdf_stack \<Rightarrow> string" where
  "stack_name s = (case s of H5py \<Rightarrow> ''h5py'' | Ffi \<Rightarrow> ''ffi'')"

definition stack_of :: "string \<Rightarrow> hdf_stack option" where
  "stack_of s = (if s = ''h5py'' then Some H5py else if s = ''ffi'' then Some Ffi else None)"

definition is_write_mode :: "string \<Rightarrow> bool" where
  "is_write_mode mode \<longleftrightarrow> py_strip mode \<noteq> ''r''"

record handle =
  h_stack :: hdf_stack
  h_mode :: string
  h_where :: string
  h_token :: nat

record open_record =
  hi_opens :: "hdf_stack \<Rightarrow> nat"
  hi_writes :: "hdf_stack \<Rightarrow> nat"
  hi_last :: "hdf_stack option"
  hi_alternations :: nat
  hi_alternations_with_write :: nat

definition fresh_history :: open_record where
  "fresh_history = \<lparr>hi_opens = (\<lambda>_. 0), hi_writes = (\<lambda>_. 0), hi_last = None, hi_alternations = 0, hi_alternations_with_write = 0\<rparr>"

text \<open>\<open>_LIVE\<close>, \<open>_HISTORY\<close> (in insertion order) and \<open>_TOKEN\<close>.\<close>

record owners =
  ow_live :: "string \<rightharpoonup> handle list"
  ow_history :: "(string \<times> open_record) list"
  ow_token :: nat

definition fresh_owners :: owners where
  "fresh_owners = \<lparr>ow_live = Map.empty, ow_history = [], ow_token = 0\<rparr>"

datatype owner_error =
    UnknownStack string
  | Overlap string hdf_stack string string "handle list"
  | JournalRefused jerror

definition live_at :: "owners \<Rightarrow> string \<Rightarrow> handle list" where
  "live_at reg key = (case ow_live reg key of None \<Rightarrow> [] | Some hs \<Rightarrow> hs)"

definition live_verdict :: "owners \<Rightarrow> string \<Rightarrow> string" where
  "live_verdict reg key =
     (let live = live_at reg key in
      if live = [] then ''free''
      else
        let stacks = (if \<exists>h\<in>set live. h_stack h = Ffi then [''ffi''] else []) @ (if \<exists>h\<in>set live. h_stack h = H5py then [''h5py''] else [])
        in join_with ''+'' stacks @ '':'' @ nat_text 10 (length live) @ (if \<exists>h\<in>set live. is_write_mode (h_mode h) then ''w'' else ''r''))"

definition foreign :: "hdf_stack \<Rightarrow> handle list \<Rightarrow> handle list" where
  "foreign stack live = filter (\<lambda>h. h_stack h \<noteq> stack) live"

text \<open>The counters of one accepted open.\<close>

definition count_open :: "hdf_stack \<Rightarrow> string \<Rightarrow> open_record \<Rightarrow> open_record" where
  "count_open stack mode rec =
     (let turned = hi_last rec \<notin> {None, Some stack};
          wrote = hi_writes rec H5py \<noteq> 0 \<or> hi_writes rec Ffi \<noteq> 0 \<or> is_write_mode mode
      in \<lparr>hi_opens = (hi_opens rec)(stack := hi_opens rec stack + 1),
          hi_writes = (if is_write_mode mode then (hi_writes rec)(stack := hi_writes rec stack + 1) else hi_writes rec),
          hi_last = Some stack,
          hi_alternations = hi_alternations rec + (if turned then 1 else 0),
          hi_alternations_with_write = hi_alternations_with_write rec + (if turned \<and> wrote then 1 else 0)\<rparr>)"

definition history_at :: "owners \<Rightarrow> string \<Rightarrow> open_record" where
  "history_at reg key = (case map_of (ow_history reg) key of None \<Rightarrow> fresh_history | Some rec \<Rightarrow> rec)"

definition claim :: "string \<Rightarrow> hdf_stack \<Rightarrow> string \<Rightarrow> string \<Rightarrow> owners \<Rightarrow> (owner_error, nat) result \<times> owners" where
  "claim key stack mode wher reg =
     (let live = live_at reg key; others = foreign stack live in
      if others \<noteq> [] \<and> (is_write_mode mode \<or> (\<exists>h\<in>set others. is_write_mode (h_mode h)))
      then (Inl (Overlap key stack mode wher others), reg)
      else
        let token = ow_token reg + 1
        in (Inr token,
            \<lparr>ow_live = (ow_live reg)(key \<mapsto> live @ [\<lparr>h_stack = stack, h_mode = mode, h_where = wher, h_token = token\<rparr>]),
             ow_history = AList.update key (count_open stack mode (history_at reg key)) (ow_history reg),
             ow_token = token\<rparr>))"

text \<open>The registry's own lines of the journal.\<close>

definition registry_call :: "string \<Rightarrow> string \<Rightarrow> hdf_stack \<Rightarrow> string \<Rightarrow> pyval \<Rightarrow> string \<Rightarrow> jcall" where
  "registry_call op key stack mode tk verdict =
     \<lparr>jc_op = op, jc_path = key, jc_stack = stack_name stack, jc_handle = tk, jc_ds = PNone, jc_off = PNone, jc_cnt = PNone,
      jc_mode = PText mode, jc_owner = PText verdict, jc_rc = RcText ''ok''\<rparr>"

definition token_text :: "nat \<Rightarrow> pyval" where
  "token_text token = PText (''tok'' @ nat_text 10 token)"

definition overlap_text :: "string \<Rightarrow> string" where
  "overlap_text key = ''LORRAX HDF5 one-owner-per-file refusal (audit A1; sandbox claims/0110)'' @ nl @ ''  file  : '' @ key"

definition note_open ::
    "jenv \<Rightarrow> string \<Rightarrow> string \<Rightarrow> string \<Rightarrow> string \<Rightarrow> owners \<times> journal \<Rightarrow> (owner_error, nat) result \<times> owners \<times> journal" where
  "note_open e path stack mode wher st =
     (case st of (reg, jr) \<Rightarrow>
       case stack_of stack of
         None \<Rightarrow> (Inl (UnknownStack stack), reg, jr)
       | Some stk \<Rightarrow>
           let key = abspath (je_cwd e) path; verdict = live_verdict reg key
           in case claim key stk mode wher reg of
                (Inl err, reg) \<Rightarrow>
                  (Inl err, reg, journal_fail e (overlap_text key, ''RuntimeError'') (registry_call ''open'' key stk mode PNone verdict) jr)
              | (Inr token, reg) \<Rightarrow>
                  (case journal_record e (registry_call ''open'' key stk mode (token_text token) verdict) jr of
                     (Inl err, jr) \<Rightarrow> (Inl (JournalRefused err), reg, jr)
                   | (Inr _, jr) \<Rightarrow> (Inr token, reg, jr)))"

definition drop_token :: "string \<Rightarrow> nat \<Rightarrow> owners \<Rightarrow> owners" where
  "drop_token key token reg =
     (let rest = filter (\<lambda>h. h_token h \<noteq> token) (live_at reg key)
      in reg\<lparr>ow_live := (ow_live reg)(key := if rest = [] then None else Some rest)\<rparr>)"

definition note_close :: "jenv \<Rightarrow> string \<Rightarrow> nat \<Rightarrow> owners \<times> journal \<Rightarrow> (owner_error, unit) result \<times> owners \<times> journal" where
  "note_close e path token st =
     (case st of (reg, jr) \<Rightarrow>
       let key = abspath (je_cwd e) path; live = live_at reg key in
       if live = [] then (Inr (), reg, jr)
       else case filter (\<lambda>h. h_token h = token) live of
         [] \<Rightarrow> (Inr (), drop_token key token reg, jr)
       | held # _ \<Rightarrow>
           (case journal_record e (registry_call ''close'' key (h_stack held) (h_mode held) (token_text token) (live_verdict reg key)) jr of
              (Inl err, jr) \<Rightarrow> (Inl (JournalRefused err), reg, jr)
            | (Inr _, jr) \<Rightarrow> (Inr (), drop_token key token reg, jr)))"

text \<open>\<open>with open_scope(...)\<close>: the close runs whether the body returns or raises, and its own error wins.\<close>

definition open_scope ::
    "jenv \<Rightarrow> string \<Rightarrow> string \<Rightarrow> string \<Rightarrow> string \<Rightarrow> (owners \<times> journal \<Rightarrow> (owner_error, 'a) result \<times> owners \<times> journal) \<Rightarrow>
     owners \<times> journal \<Rightarrow> (owner_error, 'a) result \<times> owners \<times> journal" where
  "open_scope e path stack mode wher body st =
     (case note_open e path stack mode wher st of
        (Inl err, st) \<Rightarrow> (Inl err, st)
      | (Inr token, st) \<Rightarrow>
          (case body st of (r, st) \<Rightarrow>
            case note_close e path token st of
              (Inl err, st) \<Rightarrow> (Inl err, st)
            | (Inr _, st) \<Rightarrow> (r, st)))"

definition shared_paths :: "owners \<Rightarrow> string list" where
  "shared_paths reg =
     map fst (sort_key (\<lambda>pr. - int (hi_alternations (snd pr)))
       (filter (\<lambda>(p, r). hi_opens r H5py \<noteq> 0 \<and> hi_opens r Ffi \<noteq> 0) (ow_history reg)))"

type_synonym alternation_row = "string \<times> nat \<times> nat \<times> nat \<times> nat \<times> nat"

definition alternation_rows :: "owners \<Rightarrow> alternation_row list" where
  "alternation_rows reg =
     sort_key (\<lambda>(p, h, f, a, aw, w). - int a)
       (map (\<lambda>(p, r). (p, hi_opens r H5py, hi_opens r Ffi, hi_alternations r, hi_alternations_with_write r,
                       hi_writes r H5py + hi_writes r Ffi)) (ow_history reg))"

text \<open>The two lists of paths \<open>probe\<close> returns.\<close>

definition probe_shared :: "owners \<Rightarrow> string list" where
  "probe_shared reg = map fst (filter (\<lambda>(p, h, f, a, aw, w). h \<noteq> 0 \<and> f \<noteq> 0) (alternation_rows reg))"

definition probe_unsafe :: "owners \<Rightarrow> string list" where
  "probe_unsafe reg = map fst (filter (\<lambda>(p, h, f, a, aw, w). aw \<noteq> 0) (filter (\<lambda>(p, h, f, a, aw, w). h \<noteq> 0 \<and> f \<noteq> 0) (alternation_rows reg)))"

text \<open>\<open>reset_for_test\<close> keeps the token counter.\<close>

definition reset_owners :: "owners \<Rightarrow> owners" where
  "reset_owners reg = reg\<lparr>ow_live := Map.empty, ow_history := []\<rparr>"

text \<open>What a process does to the registry, one locked call per step. Tokens are whatever the caller passes.\<close>

inductive owner_step :: "owners \<times> journal \<Rightarrow> owners \<times> journal \<Rightarrow> bool" where
  open_call: "note_open e path stack mode wher st = (r, st') \<Longrightarrow> owner_step st st'"
| close_call: "note_close e path token st = (r, st') \<Longrightarrow> owner_step st st'"
| journal_call: "journal_record e c jr = (r, jr') \<Longrightarrow> owner_step (reg, jr) (reg, jr')"
| reset: "owner_step (reg, jr) (reset_owners reg, jr)"

inductive owner_reach :: "owners \<times> journal \<Rightarrow> bool" where
  start: "owner_reach (fresh_owners, fresh_journal files)"
| step: "owner_reach st \<Longrightarrow> owner_step st st' \<Longrightarrow> owner_reach st'"

inductive_cases owner_stepE: "owner_step st st'"

section \<open>Well-formed registries\<close>

definition compatible :: "handle list \<Rightarrow> bool" where
  "compatible hs \<longleftrightarrow> (\<forall>h\<in>set hs. \<forall>k\<in>set hs. h_stack h \<noteq> h_stack k \<longrightarrow> \<not> is_write_mode (h_mode h) \<and> \<not> is_write_mode (h_mode k))"

definition wf_owners :: "owners \<Rightarrow> bool" where
  "wf_owners reg \<longleftrightarrow> (\<forall>key hs. ow_live reg key = Some hs \<longrightarrow> hs \<noteq> [] \<and> compatible hs \<and> distinct (map h_token hs) \<and>
     (\<forall>h\<in>set hs. h_token h \<le> ow_token reg))"

lemma wf_live_at: "wf_owners reg \<Longrightarrow> compatible (live_at reg key) \<and> distinct (map h_token (live_at reg key)) \<and> (\<forall>h\<in>set (live_at reg key). h_token h \<le> ow_token reg)"
  by (auto simp: wf_owners_def live_at_def compatible_def split: option.split)

lemma live_at_claimed:
  "claim key stack mode wher reg = (Inr token, reg') \<Longrightarrow> token = ow_token reg + 1 \<and> ow_token reg' = token \<and>
    ow_live reg' = (ow_live reg)(key \<mapsto> live_at reg key @ [\<lparr>h_stack = stack, h_mode = mode, h_where = wher, h_token = token\<rparr>]) \<and>
    ow_history reg' = AList.update key (count_open stack mode (history_at reg key)) (ow_history reg)"
  by (auto simp: claim_def Let_def split: if_splits)

lemma claim_granted:
  assumes "\<forall>h\<in>set (live_at reg key). h_stack h \<noteq> stack \<longrightarrow> \<not> is_write_mode mode \<and> \<not> is_write_mode (h_mode h)"
  obtains reg' where "claim key stack mode wher reg = (Inr (ow_token reg + 1), reg')"
    "live_at reg' key = live_at reg key @ [\<lparr>h_stack = stack, h_mode = mode, h_where = wher, h_token = ow_token reg + 1\<rparr>]"
    "ow_token reg' = ow_token reg + 1"
proof -
  have "\<exists>reg'. claim key stack mode wher reg = (Inr (ow_token reg + 1), reg')"
    using assms by (auto simp: claim_def Let_def foreign_def filter_empty_conv)
  then show thesis using that live_at_claimed by (fastforce simp: live_at_def)
qed

lemma claim_refused: "claim key stack mode wher reg = (Inl err, reg') \<Longrightarrow> reg' = reg"
  by (auto simp: claim_def Let_def split: if_splits)

lemma claim_wf:
  assumes wf: "wf_owners reg" and c: "claim key stack mode wher reg = (r, reg')"
  shows "wf_owners reg'"
proof (cases r)
  case (Inl err)
  then show ?thesis using claim_refused c wf by metis
next
  case (Inr token)
  note reg' = live_at_claimed [OF c [unfolded Inr]]
  let ?h = "\<lparr>h_stack = stack, h_mode = mode, h_where = wher, h_token = token\<rparr>"
  have ok: "foreign stack (live_at reg key) = [] \<or> (\<not> is_write_mode mode \<and> (\<forall>h\<in>set (foreign stack (live_at reg key)). \<not> is_write_mode (h_mode h)))"
    using c Inr by (auto simp: claim_def Let_def split: if_splits)
  note live = wf_live_at [OF wf, of key]
  have "compatible (live_at reg key @ [?h])"
    using ok live by (auto simp: compatible_def foreign_def filter_empty_conv)
  moreover have "distinct (map h_token (live_at reg key @ [?h]))" using live reg' by fastforce
  moreover have "\<forall>h\<in>set (live_at reg key @ [?h]). h_token h \<le> ow_token reg'" using live reg' by fastforce
  ultimately show ?thesis using wf reg' unfolding wf_owners_def by (auto intro: le_SucI)
qed

lemma drop_token_wf: "wf_owners reg \<Longrightarrow> wf_owners (drop_token key token reg)"
proof -
  assume wf: "wf_owners reg"
  note live = wf_live_at [OF wf, of key]
  have "compatible (filter (\<lambda>h. h_token h \<noteq> token) (live_at reg key))" using live by (auto simp: compatible_def)
  moreover have "distinct (map h_token (filter (\<lambda>h. h_token h \<noteq> token) (live_at reg key)))" using live by (simp add: distinct_map_filter)
  ultimately show ?thesis using wf live unfolding wf_owners_def drop_token_def Let_def by auto
qed

lemma note_open_registry:
  "note_open e path stack mode wher (reg, jr) = (r, reg', jr') \<Longrightarrow>
    (case stack_of stack of None \<Rightarrow> reg' = reg | Some stk \<Rightarrow> reg' = snd (claim (abspath (je_cwd e) path) stk mode wher reg))"
  by (auto simp: note_open_def Let_def split: option.splits prod.splits sum.splits)

lemma note_close_registry:
  "note_close e path token (reg, jr) = (r, reg', jr') \<Longrightarrow> reg' = reg \<or> reg' = drop_token (abspath (je_cwd e) path) token reg"
  by (auto simp: note_close_def Let_def split: if_splits list.splits prod.splits sum.splits)

lemma owner_step_wf: "owner_step st st' \<Longrightarrow> wf_owners (fst st) \<Longrightarrow> wf_owners (fst st')"
proof (induction rule: owner_step.induct)
  case (open_call e path stack mode wher st r st')
  obtain reg jr reg' jr' where s: "st = (reg, jr)" "st' = (reg', jr')" by (cases st; cases st')
  have wf: "wf_owners reg" using open_call.prems s by simp
  have new: "case stack_of stack of None \<Rightarrow> reg' = reg | Some stk \<Rightarrow> reg' = snd (claim (abspath (je_cwd e) path) stk mode wher reg)"
    using note_open_registry [OF open_call.hyps [unfolded s]] .
  show ?case
  proof (cases "stack_of stack")
    case (Some stk)
    have "wf_owners (snd (claim (abspath (je_cwd e) path) stk mode wher reg))"
      using claim_wf [OF wf, of _ stk mode wher] by (metis prod.collapse)
    then show ?thesis using new Some s by simp
  qed (use new wf s in simp)
next
  case (close_call e path token st r st')
  obtain reg jr reg' jr' where s: "st = (reg, jr)" "st' = (reg', jr')" by (cases st; cases st')
  then show ?case using note_close_registry [OF close_call.hyps [unfolded s]] close_call.prems drop_token_wf by auto
qed (simp_all add: reset_owners_def wf_owners_def)

text \<open>
  C21: Whatever calls a process makes, in any order and with any tokens, paths and modes, no file is ever held
  through both libraries while one of the handles can write.
\<close>

theorem one_owner_per_file:
  assumes "owner_reach (reg, jr)" "h \<in> set (live_at reg key)" "k \<in> set (live_at reg key)" "h_stack h \<noteq> h_stack k"
  shows "\<not> is_write_mode (h_mode h) \<and> \<not> is_write_mode (h_mode k)"
proof -
  have "wf_owners (fst st)" if "owner_reach st" for st
    using that
  proof (induction rule: owner_reach.induct)
    case start
    then show ?case by (simp add: fresh_owners_def wf_owners_def)
  qed (rule owner_step_wf)
  from this [OF assms(1)] wf_live_at [of reg key] assms(2-4) show ?thesis by (auto simp: compatible_def)
qed

text \<open>A quiet environment for the examples: the journal is off and the directory is the root.\<close>

definition quiet_env :: jenv where
  "quiet_env = \<lparr>je_toggle = None, je_cwd = ''/'', je_world = Some (0, 1), je_clock = ''0.0'', je_verdict = (\<lambda>_. ''free''),
     je_open = True, je_write = DiskOk, je_dump = DiskOk\<rparr>"

lemma quiet_toggle: "jmode_of (je_toggle quiet_env) = Inr JOff" "je_cwd quiet_env = ''/''"
  by (simp add: quiet_env_def, code_simp) (simp add: quiet_env_def)

lemma vocabulary [simp]: "stack_name s \<in> set journal_stacks" "''open'' \<in> set journal_ops" "''close'' \<in> set journal_ops"
  by (simp_all add: stack_name_def journal_stacks_def journal_ops_def split: hdf_stack.split)

lemma quiet_record: "op = ''open'' \<or> op = ''close'' \<Longrightarrow> journal_record quiet_env (registry_call op key stack mode tk verdict) jr = (Inr None, jr)"
  using quiet_toggle by (auto simp: journal_record_def registry_call_def)

lemma quiet_open:
  assumes "abspath ''/'' path = path"
  shows "note_open quiet_env path (stack_name stk) mode wher (reg, jr) = (case claim path stk mode wher reg of
     (Inl err, reg') \<Rightarrow> (Inl err, reg', journal_fail quiet_env (overlap_text path, ''RuntimeError'') (registry_call ''open'' path stk mode PNone (live_verdict reg path)) jr)
   | (Inr token, reg') \<Rightarrow> (Inr token, reg', jr))"
  using assms by (cases stk) (simp_all add: note_open_def stack_of_def stack_name_def quiet_toggle quiet_record split: prod.split sum.split)

lemma example_path: "abspath ''/'' ''/a'' = ''/a''"
  by code_simp

theorem one_owner_per_file_witness:
  "let h = \<lparr>h_stack = H5py, h_mode = ''r'', h_where = ''x'', h_token = 1\<rparr>; k = \<lparr>h_stack = Ffi, h_mode = '' r'', h_where = ''y'', h_token = 2\<rparr>
   in \<exists>reg jr. owner_reach (reg, jr) \<and> live_at reg ''/a'' = [h, k] \<and> \<not> is_write_mode (h_mode h) \<and> \<not> is_write_mode (h_mode k)"
proof -
  let ?h = "\<lparr>h_stack = H5py, h_mode = ''r'', h_where = ''x'', h_token = 1\<rparr>" and ?k = "\<lparr>h_stack = Ffi, h_mode = '' r'', h_where = ''y'', h_token = 2\<rparr>"
  let ?jr = "fresh_journal (\<lambda>_. [])"
  have reads: "\<not> is_write_mode ''r''" "\<not> is_write_mode '' r''" by code_simp+
  have new: "live_at fresh_owners ''/a'' = []" "ow_token fresh_owners = 0" by (simp_all add: fresh_owners_def live_at_def)
  obtain reg1 where c1: "claim ''/a'' H5py ''r'' ''x'' fresh_owners = (Inr 1, reg1)" "live_at reg1 ''/a'' = [?h]" "ow_token reg1 = 1"
    by (rule claim_granted [of fresh_owners "''/a''" H5py "''r''" "''x''"]) (simp_all add: new)
  obtain reg2 where c2: "claim ''/a'' Ffi '' r'' ''y'' reg1 = (Inr 2, reg2)" "live_at reg2 ''/a'' = [?h, ?k]"
    by (rule claim_granted [of reg1 "''/a''" Ffi "'' r''" "''y''"]) (use reads in \<open>simp_all add: c1 numeral_2_eq_2\<close>)
  have "owner_reach (reg1, ?jr)"
    using owner_reach.step [OF owner_reach.start owner_step.open_call] quiet_open [OF example_path, of H5py "''r''" "''x''" fresh_owners ?jr] c1(1) by simp
  then have r: "owner_reach (reg2, ?jr)"
    using owner_reach.step [OF _ owner_step.open_call] quiet_open [OF example_path, of Ffi "'' r''" "''y''" reg1 ?jr] c2(1) by simp
  have "?h \<in> set (live_at reg2 ''/a'')" "?k \<in> set (live_at reg2 ''/a'')" "h_stack ?h \<noteq> h_stack ?k" using c2(2) by simp_all
  from one_owner_per_file [OF r this] r c2(2) show ?thesis unfolding Let_def by blast
qed

section \<open>Scopes\<close>

text \<open>Programs of nested \<open>with\<close> blocks that may raise anywhere.\<close>

datatype hdf_prog = Work | Raise owner_error | Then hdf_prog hdf_prog | Scope string string string string hdf_prog

fun run_prog :: "jenv \<Rightarrow> hdf_prog \<Rightarrow> owners \<times> journal \<Rightarrow> (owner_error, unit) result \<times> owners \<times> journal" where
  "run_prog e Work st = (Inr (), st)"
| "run_prog e (Raise err) st = (Inl err, st)"
| "run_prog e (Then p q) st = (case run_prog e p st of (Inl err, st) \<Rightarrow> (Inl err, st) | (Inr _, st) \<Rightarrow> run_prog e q st)"
| "run_prog e (Scope path stack mode wher p) st = open_scope e path stack mode wher (run_prog e p) st"

text \<open>A toggle the journal understands never makes it raise.\<close>

lemma registry_recorded:
  assumes "jmode_of (je_toggle e) = Inr m" "op = ''open'' \<or> op = ''close''"
  shows "\<exists>x. fst (journal_record e (registry_call op key stack mode tk verdict) jr) = Inr x"
  using assms record_returns [of "registry_call op key stack mode tk verdict" jr e m]
  by (cases "jr_broken jr"; cases "m = JOff") (auto simp: journal_record_def registry_call_def)

lemma note_open_outcome:
  assumes "jmode_of (je_toggle e) = Inr m" "note_open e path stack mode wher (reg, jr) = (r, reg1, jr1)"
  shows "(\<exists>err. r = Inl err \<and> reg1 = reg) \<or>
    (\<exists>stk token. r = Inr token \<and> stack_of stack = Some stk \<and> claim (abspath (je_cwd e) path) stk mode wher reg = (Inr token, reg1))"
proof (cases "stack_of stack")
  case None
  then show ?thesis using assms(2) by (auto simp: note_open_def)
next
  case (Some stk)
  let ?key = "abspath (je_cwd e) path"
  obtain rc reg' where c: "claim ?key stk mode wher reg = (rc, reg')" by (cases "claim ?key stk mode wher reg")
  show ?thesis
  proof (cases rc)
    case (Inl err)
    then show ?thesis using assms(2) Some c claim_refused [of ?key stk mode wher reg err reg'] by (auto simp: note_open_def Let_def)
  next
    case (Inr token)
    obtain x where "fst (journal_record e (registry_call ''open'' ?key stk mode (token_text token) (live_verdict reg ?key)) jr) = Inr x"
      using registry_recorded [OF assms(1)] by blast
    then show ?thesis using assms(2) Some c Inr by (auto simp: note_open_def Let_def split: prod.splits)
  qed
qed

lemma drop_claimed:
  assumes "wf_owners reg" "claim key stack mode wher reg = (Inr token, reg1)" "ow_live reg2 = ow_live reg1"
  shows "ow_live (drop_token key token reg2) = ow_live reg"
proof -
  note c = live_at_claimed [OF assms(2)]
  have "live_at reg2 key = live_at reg key @ [\<lparr>h_stack = stack, h_mode = mode, h_where = wher, h_token = token\<rparr>]"
    using c assms(3) by (simp add: live_at_def)
  moreover have "filter (\<lambda>h. h_token h \<noteq> token) (live_at reg key) = live_at reg key"
    using wf_live_at [OF assms(1), of key] c by (intro filter_True) fastforce
  ultimately have "filter (\<lambda>h. h_token h \<noteq> token) (live_at reg2 key) = live_at reg key" by simp
  moreover have "(ow_live reg2)(key := if live_at reg key = [] then None else Some (live_at reg key)) = ow_live reg"
    using assms(1,3) c by (auto simp: live_at_def wf_owners_def fun_eq_iff split: option.split)
  ultimately show ?thesis by (simp add: drop_token_def Let_def)
qed

lemma close_claimed:
  assumes "jmode_of (je_toggle e) = Inr m" "claim (abspath (je_cwd e) path) stack mode wher reg = (Inr token, reg1)" "ow_live reg2 = ow_live reg1"
  shows "\<exists>jr'. note_close e path token (reg2, jr) = (Inr (), drop_token (abspath (je_cwd e) path) token reg2, jr')"
proof -
  let ?key = "abspath (je_cwd e) path"
  have "\<exists>h\<in>set (live_at reg2 ?key). h_token h = token"
    using live_at_claimed [OF assms(2)] assms(3) by (auto simp: live_at_def)
  then have "filter (\<lambda>h. h_token h = token) (live_at reg2 ?key) \<noteq> []" "live_at reg2 ?key \<noteq> []" by (auto simp: filter_empty_conv)
  then obtain held rest where f: "filter (\<lambda>h. h_token h = token) (live_at reg2 ?key) = held # rest" "live_at reg2 ?key \<noteq> []"
    by (meson neq_Nil_conv)
  have "\<exists>x. fst (journal_record e (registry_call ''close'' ?key (h_stack held) (h_mode held) (token_text token) (live_verdict reg2 ?key)) jr) = Inr x"
    by (rule registry_recorded [OF assms(1)]) simp
  then obtain x jr' where "journal_record e (registry_call ''close'' ?key (h_stack held) (h_mode held) (token_text token) (live_verdict reg2 ?key)) jr = (Inr x, jr')"
    by (metis prod.collapse)
  then show ?thesis using f by (simp add: note_close_def Let_def)
qed

lemma run_prog_wf: "wf_owners (fst st) \<Longrightarrow> wf_owners (fst (snd (run_prog e p st)))"
proof (induction p arbitrary: st)
  case (Then p q)
  obtain r1 st1 where 1: "run_prog e p st = (r1, st1)" by (cases "run_prog e p st")
  then have "wf_owners (fst st1)" using Then.IH(1) [OF Then.prems] by simp
  then show ?case using 1 Then.IH(2) [of st1] by (cases r1) simp_all
next
  case (Scope path stack mode wher p)
  obtain r1 st1 where 1: "note_open e path stack mode wher st = (r1, st1)" by (cases "note_open e path stack mode wher st")
  then have wf1: "wf_owners (fst st1)" using owner_step_wf owner_step.open_call Scope.prems by metis
  show ?case
  proof (cases r1)
    case (Inr token)
    obtain r2 st2 where 2: "run_prog e p st1 = (r2, st2)" by (cases "run_prog e p st1")
    then have wf2: "wf_owners (fst st2)" using Scope.IH [OF wf1] by simp
    obtain r3 st3 where 3: "note_close e path token st2 = (r3, st3)" by (cases "note_close e path token st2")
    then have "wf_owners (fst st3)" using owner_step_wf owner_step.close_call wf2 by metis
    then show ?thesis using 1 2 3 Inr by (simp add: open_scope_def split: sum.split)
  qed (use 1 wf1 in \<open>simp add: open_scope_def\<close>)
qed simp_all

text \<open>
  C22: When the journal's toggle is legal, a program of nested scopes leaves the table of live handles as it found
  it, wherever it raises and whatever opens were refused on the way: no scope leaks a handle.
\<close>

theorem scopes_release:
  assumes "jmode_of (je_toggle e) = Inr m" "wf_owners (fst st)"
  shows "ow_live (fst (snd (run_prog e p st))) = ow_live (fst st)"
  using assms(2)
proof (induction p arbitrary: st)
  case (Then p q)
  obtain r1 st1 where 1: "run_prog e p st = (r1, st1)" by (cases "run_prog e p st")
  then have "wf_owners (fst st1)" "ow_live (fst st1) = ow_live (fst st)"
    using run_prog_wf [OF Then.prems, of e p] Then.IH(1) [OF Then.prems] by simp_all
  then show ?case using 1 Then.IH(2) [of st1] by (cases r1) simp_all
next
  case (Scope path stack mode wher p)
  obtain reg jr where st: "st = (reg, jr)" by (cases st)
  obtain r1 reg1 jr1 where 1: "note_open e path stack mode wher st = (r1, reg1, jr1)" by (metis prod.collapse)
  have wf: "wf_owners reg" using Scope.prems st by simp
  from note_open_outcome [OF assms(1) 1 [unfolded st]] show ?case
  proof (elim disjE exE conjE)
    fix err assume "r1 = Inl err" "reg1 = reg"
    then show ?case using 1 st by (simp add: open_scope_def)
  next
    fix stk token assume t: "r1 = Inr token" and c: "claim (abspath (je_cwd e) path) stk mode wher reg = (Inr token, reg1)"
    obtain r2 reg2 jr2 where 2: "run_prog e p (reg1, jr1) = (r2, reg2, jr2)" by (metis prod.collapse)
    have live: "ow_live reg2 = ow_live reg1" using Scope.IH [of "(reg1, jr1)"] claim_wf [OF wf c] 2 by simp
    obtain jr3 where 3: "note_close e path token (reg2, jr2) = (Inr (), drop_token (abspath (je_cwd e) path) token reg2, jr3)"
      using close_claimed [OF assms(1) c live] by blast
    show ?case using 1 2 3 t st drop_claimed [OF wf c live] by (simp add: open_scope_def)
  qed
qed simp_all



theorem scopes_release_witness:
  "let p = Scope ''/a'' ''h5py'' ''r'' ''x'' (Then (Scope ''/a'' ''ffi'' ''w'' ''y'' Work) (Raise (UnknownStack ''z'')))
   in ow_live (fst (snd (run_prog quiet_env p (fresh_owners, fresh_journal (\<lambda>_. []))))) = ow_live fresh_owners"
proof -
  have "wf_owners (fst (fresh_owners, fresh_journal (\<lambda>_. [])))" by (simp add: wf_owners_def fresh_owners_def)
  from scopes_release [OF quiet_toggle(1) this] show ?thesis unfolding Let_def fst_conv .
qed

section \<open>The counters\<close>

datatype owner_op = OpenOp string string string string | CloseOp string nat

text \<open>The opens a sequence of calls was granted, with the registry it leaves.\<close>

fun owner_run :: "jenv \<Rightarrow> owner_op list \<Rightarrow> owners \<times> journal \<Rightarrow> (string \<times> hdf_stack \<times> string) list \<times> owners \<times> journal" where
  "owner_run e [] st = ([], st)"
| "owner_run e (OpenOp path stack mode wher # ops) st =
     (case note_open e path stack mode wher st of (r, st) \<Rightarrow>
        case owner_run e ops st of (granted, st) \<Rightarrow>
          (case r of Inr _ \<Rightarrow> (abspath (je_cwd e) path, the (stack_of stack), mode) # granted | Inl _ \<Rightarrow> granted, st))"
| "owner_run e (CloseOp path token # ops) st = owner_run e ops (snd (note_close e path token st))"

definition opens_of :: "string \<Rightarrow> (string \<times> hdf_stack \<times> string) list \<Rightarrow> (hdf_stack \<times> string) list" where
  "opens_of key granted = map snd (filter (\<lambda>g. fst g = key) granted)"

text \<open>Reference: an open alternates when it goes through the other library than the one before it.\<close>

definition alternates :: "(hdf_stack \<times> string) list \<Rightarrow> nat \<Rightarrow> bool" where
  "alternates opens i \<longleftrightarrow> 0 < i \<and> i < length opens \<and> fst (opens ! i) \<noteq> fst (opens ! (i - 1))"

definition written_by :: "(hdf_stack \<times> string) list \<Rightarrow> nat \<Rightarrow> bool" where
  "written_by opens i \<longleftrightarrow> (\<exists>j\<le>i. j < length opens \<and> is_write_mode (snd (opens ! j)))"

definition count_all :: "(hdf_stack \<times> string) list \<Rightarrow> open_record" where
  "count_all opens = fold (\<lambda>(stack, mode). count_open stack mode) opens fresh_history"

lemma count_all_snoc: "count_all (opens @ [(s, m)]) = count_open s m (count_all opens)"
  by (simp add: count_all_def)

lemma count_all_sums:
  "hi_last (count_all opens) = (if opens = [] then None else Some (fst (last opens))) \<and>
   hi_opens (count_all opens) s = length (filter (\<lambda>u. fst u = s) opens) \<and>
   hi_writes (count_all opens) s = length (filter (\<lambda>u. fst u = s \<and> is_write_mode (snd u)) opens)"
proof (induction opens arbitrary: s rule: rev_induct)
  case (snoc x opens)
  obtain t m where x: "x = (t, m)" by (cases x)
  show ?case using snoc [of s] snoc [of t] unfolding x count_all_snoc by (simp add: count_open_def Let_def)
qed (simp add: count_all_def fresh_history_def)

lemma bex_nth: "(\<exists>u\<in>set us. P u) \<longleftrightarrow> (\<exists>j<length us. P (us ! j))"
  by (metis in_set_conv_nth)

lemma count_all_alternations:
  "hi_alternations (count_all opens) = card {i. alternates opens i} \<and>
   hi_alternations_with_write (count_all opens) = card {i. alternates opens i \<and> written_by opens i}"
proof (induction opens rule: rev_induct)
  case Nil
  then show ?case by (simp add: count_all_def fresh_history_def alternates_def)
next
  case (snoc x opens)
  obtain t m where x: "x = (t, m)" by (cases x)
  let ?n = "length opens"
  let ?turned = "opens \<noteq> [] \<and> fst (last opens) \<noteq> t" and ?wrote = "(\<exists>u\<in>set opens. is_write_mode (snd u)) \<or> is_write_mode m"
  have alt: "alternates (opens @ [x]) i \<longleftrightarrow> alternates opens i \<or> i = ?n \<and> ?turned" for i
    by (cases "opens = []") (auto simp: alternates_def nth_append x last_conv_nth less_Suc_eq)
  have below: "alternates opens i \<Longrightarrow> i < ?n" for i by (simp add: alternates_def)
  have wr_old: "written_by (opens @ [x]) i = written_by opens i" if "i < ?n" for i
    using that by (auto simp: written_by_def nth_append)
  have wr_new: "written_by (opens @ [x]) ?n \<longleftrightarrow> ?wrote"
  proof -
    have "written_by (opens @ [x]) ?n \<longleftrightarrow> (\<exists>u\<in>set (opens @ [x]). is_write_mode (snd u))"
      unfolding written_by_def bex_nth by (auto simp: less_Suc_eq_le)
    then show ?thesis by (auto simp: x)
  qed
  have fin: "finite {i. alternates opens i}" "finite {i. alternates opens i \<and> written_by opens i}"
    using below by (auto intro: finite_subset [of _ "{..<?n}"])
  have sets: "{i. alternates (opens @ [x]) i} = {i. alternates opens i} \<union> (if ?turned then {?n} else {})"
    "{i. alternates (opens @ [x]) i \<and> written_by (opens @ [x]) i} =
       {i. alternates opens i \<and> written_by opens i} \<union> (if ?turned \<and> ?wrote then {?n} else {})"
  proof -
    have "alternates (opens @ [x]) i \<and> written_by (opens @ [x]) i \<longleftrightarrow> alternates opens i \<and> written_by opens i \<or> i = ?n \<and> ?turned \<and> ?wrote" for i
      using alt [of i] below [of i] wr_old [of i] wr_new by blast
    then show "{i. alternates (opens @ [x]) i \<and> written_by (opens @ [x]) i} =
       {i. alternates opens i \<and> written_by opens i} \<union> (if ?turned \<and> ?wrote then {?n} else {})" by (simp only:) auto
  qed (auto simp: alt)
  have "?n \<notin> {i. alternates opens i}" "?n \<notin> {i. alternates opens i \<and> written_by opens i}" using below by blast+
  then have cards: "card {i. alternates (opens @ [x]) i} = card {i. alternates opens i} + (if ?turned then 1 else 0)"
    "card {i. alternates (opens @ [x]) i \<and> written_by (opens @ [x]) i} =
       card {i. alternates opens i \<and> written_by opens i} + (if ?turned \<and> ?wrote then 1 else 0)"
    unfolding sets using fin by (simp_all add: card_insert_if)
  have turned: "hi_last (count_all opens) \<notin> {None, Some t} \<longleftrightarrow> ?turned" using count_all_sums [of opens] by auto
  have wrote: "(hi_writes (count_all opens) H5py \<noteq> 0 \<or> hi_writes (count_all opens) Ffi \<noteq> 0 \<or> is_write_mode m) \<longleftrightarrow> ?wrote"
  proof -
    have "fst u = H5py \<or> fst u = Ffi" for u :: "hdf_stack \<times> string" by (cases "fst u") simp_all
    then have "(\<exists>u\<in>set opens. is_write_mode (snd u)) \<longleftrightarrow> (\<exists>u\<in>set opens. fst u = H5py \<and> is_write_mode (snd u)) \<or> (\<exists>u\<in>set opens. fst u = Ffi \<and> is_write_mode (snd u))"
      by blast
    then show ?thesis using count_all_sums [of opens H5py] count_all_sums [of opens Ffi] by (simp add: filter_empty_conv)
  qed
  show ?case unfolding x count_all_snoc [of opens t m] cards [unfolded x] using snoc
    by (simp only: count_open_def Let_def turned wrote open_record.simps)
qed

definition history_of :: "(hdf_stack \<times> string) list \<Rightarrow> open_record option" where
  "history_of opens = (if opens = [] then None else Some (count_all opens))"

definition history_exact :: "(string \<times> hdf_stack \<times> string) list \<Rightarrow> owners \<Rightarrow> bool" where
  "history_exact granted reg \<longleftrightarrow> distinct (map fst (ow_history reg)) \<and> (\<forall>key. map_of (ow_history reg) key = history_of (opens_of key granted))"

lemma claim_history:
  assumes "history_exact granted reg" "claim key stack mode wher reg = (Inr token, reg')"
  shows "history_exact (granted @ [(key, stack, mode)]) reg'"
proof -
  note c = live_at_claimed [OF assms(2)]
  have at: "history_at reg key = count_all (opens_of key granted)"
    using assms(1) by (simp add: history_exact_def history_at_def history_of_def count_all_def)
  have "map_of (ow_history reg') k = history_of (opens_of k (granted @ [(key, stack, mode)]))" for k
    using c at assms(1) by (simp add: update_conv' opens_of_def history_exact_def history_of_def count_all_snoc)
  then show ?thesis using c assms(1) by (simp add: history_exact_def distinct_update)
qed

lemma owner_run_history:
  assumes "jmode_of (je_toggle e) = Inr m"
  shows "history_exact before (fst st) \<Longrightarrow> owner_run e ops st = (granted, st') \<Longrightarrow> history_exact (before @ granted) (fst st')"
proof (induction ops arbitrary: before st granted)
  case (Cons op ops)
  obtain reg jr where st: "st = (reg, jr)" by (cases st)
  show ?case
  proof (cases op)
    case (CloseOp path token)
    obtain r reg1 jr1 where 1: "note_close e path token (reg, jr) = (r, reg1, jr1)" by (metis prod.collapse)
    have "ow_history reg1 = ow_history reg" using note_close_registry [OF 1] by (auto simp: drop_token_def Let_def)
    then have "history_exact before (fst (reg1, jr1))" using Cons.prems(1) st by (simp add: history_exact_def)
    then show ?thesis using Cons.IH [of before "(reg1, jr1)" granted] Cons.prems(2) CloseOp 1 st by simp
  next
    case (OpenOp path stack mode wher)
    obtain r reg1 jr1 where 1: "note_open e path stack mode wher (reg, jr) = (r, reg1, jr1)" by (metis prod.collapse)
    obtain rest st2 where 2: "owner_run e ops (reg1, jr1) = (rest, st2)" by (cases "owner_run e ops (reg1, jr1)")
    from note_open_outcome [OF assms 1] show ?thesis
    proof (elim disjE exE conjE)
      fix err assume "r = Inl err" "reg1 = reg"
      then show ?thesis using Cons.IH [of before "(reg1, jr1)"] Cons.prems OpenOp 1 2 st by simp
    next
      fix stk token
      assume r: "r = Inr token" "stack_of stack = Some stk" and c: "claim (abspath (je_cwd e) path) stk mode wher reg = (Inr token, reg1)"
      have "history_exact (before @ [(abspath (je_cwd e) path, stk, mode)]) (fst (reg1, jr1))"
        using claim_history [OF _ c] Cons.prems(1) st by simp
      moreover have "st2 = st'" "granted = (abspath (je_cwd e) path, stk, mode) # rest" using Cons.prems(2) OpenOp 1 2 r st by simp_all
      ultimately show ?thesis using Cons.IH [of "before @ [(abspath (je_cwd e) path, stk, mode)]" "(reg1, jr1)" rest] 2 by simp
    qed
  qed
qed simp

lemma both_stacks: "alternates opens i \<Longrightarrow> filter (\<lambda>u. fst u = s) opens \<noteq> []"
proof -
  assume "alternates opens i"
  then have "opens ! i \<in> set opens" "opens ! (i - 1) \<in> set opens" "fst (opens ! i) \<noteq> fst (opens ! (i - 1))" by (auto simp: alternates_def intro!: nth_mem)
  then show ?thesis by (cases s) (metis (mono_tags, lifting) filter_empty_conv hdf_stack.exhaust)+
qed

text \<open>
  C24: After any sequence of opens and closes, the paths \<open>probe\<close> calls unsafe are exactly those on which a granted
  open went through the other library than the one before it when, up to then, some open of either library could
  write; one writer is enough.
\<close>

theorem probe_unsafe_exact:
  assumes "jmode_of (je_toggle e) = Inr m" "owner_run e ops (fresh_owners, jr) = (granted, reg, jr')"
  shows "key \<in> set (probe_unsafe reg) \<longleftrightarrow> (\<exists>i. alternates (opens_of key granted) i \<and> written_by (opens_of key granted) i)"
proof -
  let ?os = "opens_of key granted"
  have "history_exact [] (fst (fresh_owners, jr))" by (simp add: history_exact_def fresh_owners_def opens_of_def history_of_def)
  from owner_run_history [OF assms(1) this assms(2)] have h: "distinct (map fst (ow_history reg))" "map_of (ow_history reg) key = history_of ?os"
    by (simp_all add: history_exact_def)
  have "key \<in> set (probe_unsafe reg) \<longleftrightarrow> (\<exists>r. (key, r) \<in> set (ow_history reg) \<and> hi_opens r H5py \<noteq> 0 \<and> hi_opens r Ffi \<noteq> 0 \<and> hi_alternations_with_write r \<noteq> 0)"
    by (force simp: probe_unsafe_def alternation_rows_def)
  also have "\<dots> \<longleftrightarrow> (\<exists>r. history_of ?os = Some r \<and> hi_opens r H5py \<noteq> 0 \<and> hi_opens r Ffi \<noteq> 0 \<and> hi_alternations_with_write r \<noteq> 0)"
    unfolding h(2) [symmetric] map_of_eq_Some_iff [OF h(1)] ..
  also have "\<dots> \<longleftrightarrow> filter (\<lambda>u. fst u = H5py) ?os \<noteq> [] \<and> filter (\<lambda>u. fst u = Ffi) ?os \<noteq> [] \<and> {i. alternates ?os i \<and> written_by ?os i} \<noteq> {}"
  proof -
    have "finite {i. alternates ?os i \<and> written_by ?os i}" by (rule finite_subset [of _ "{..<length ?os}"]) (auto simp: alternates_def)
    then show ?thesis using count_all_sums [of ?os H5py] count_all_sums [of ?os Ffi] count_all_alternations [of ?os]
      by (auto simp: history_of_def card_gt_0_iff)
  qed
  also have "\<dots> \<longleftrightarrow> (\<exists>i. alternates ?os i \<and> written_by ?os i)" using both_stacks by blast
  finally show ?thesis .
qed

theorem probe_unsafe_exact_witness:
  "let ops = [OpenOp ''/a'' ''h5py'' ''r'' ''x'', CloseOp ''/a'' 1, OpenOp ''/a'' ''ffi'' ''w'' ''y'']
   in case owner_run quiet_env ops (fresh_owners, fresh_journal (\<lambda>_. [])) of (granted, reg, jr) \<Rightarrow>
     granted = [(''/a'', H5py, ''r''), (''/a'', Ffi, ''w'')] \<and> ''/a'' \<in> set (probe_unsafe reg)"
proof -
  let ?ops = "[OpenOp ''/a'' ''h5py'' ''r'' ''x'', CloseOp ''/a'' 1, OpenOp ''/a'' ''ffi'' ''w'' ''y'']" and ?jr = "fresh_journal (\<lambda>_. [])"
  have names: "stack_name H5py = ''h5py''" "stack_name Ffi = ''ffi''" "stack_of ''h5py'' = Some H5py" "stack_of ''ffi'' = Some Ffi"
    by (simp_all add: stack_name_def stack_of_def)
  have new: "live_at fresh_owners ''/a'' = []" "ow_token fresh_owners = 0" by (simp_all add: fresh_owners_def live_at_def)
  obtain reg1 where c1: "claim ''/a'' H5py ''r'' ''x'' fresh_owners = (Inr 1, reg1)" "map h_token (live_at reg1 ''/a'') = [1]" "ow_token reg1 = 1"
    by (rule claim_granted [of fresh_owners "''/a''" H5py "''r''" "''x''"]) (simp_all add: new)
  then obtain held where live: "live_at reg1 ''/a'' = [held]" "h_token held = 1" by (auto simp: map_eq_Cons_conv)
  define reg2 where "reg2 = drop_token ''/a'' 1 reg1"
  have close: "note_close quiet_env ''/a'' 1 (reg1, ?jr) = (Inr (), reg2, ?jr)"
    using live example_path by (simp add: note_close_def quiet_toggle quiet_record reg2_def)
  have "live_at reg2 ''/a'' = []" using live by (simp add: reg2_def drop_token_def live_at_def)
  then obtain reg3 where c3: "claim ''/a'' Ffi ''w'' ''y'' reg2 = (Inr (ow_token reg2 + 1), reg3)"
    using claim_granted [of reg2 "''/a''" Ffi "''w''" "''y''"] by auto
  have run: "owner_run quiet_env ?ops (fresh_owners, ?jr) = ([(''/a'', H5py, ''r''), (''/a'', Ffi, ''w'')], reg3, ?jr)"
    using quiet_open [OF example_path, of H5py "''r''" "''x''" fresh_owners ?jr] quiet_open [OF example_path, of Ffi "''w''" "''y''" reg2 ?jr]
      c1(1) c3 close example_path by (simp add: names quiet_toggle)
  have "alternates (opens_of ''/a'' [(''/a'', H5py, ''r''), (''/a'', Ffi, ''w'')]) 1"
    "written_by (opens_of ''/a'' [(''/a'', H5py, ''r''), (''/a'', Ffi, ''w'')]) 1"
  proof -
    have "is_write_mode ''w''" by code_simp
    then show "written_by (opens_of ''/a'' [(''/a'', H5py, ''r''), (''/a'', Ffi, ''w'')]) 1"
      unfolding written_by_def by (intro exI [of _ 1]) (simp add: opens_of_def)
  qed (simp add: alternates_def opens_of_def)
  then show ?thesis using probe_unsafe_exact [OF quiet_toggle(1) run] run unfolding Let_def by auto
qed

end
