(* ===== verification/OrbitBins.thy ===== *)
theory OrbitBins
  imports GroupedPacking OrbitLabels
begin

text \<open>
  The packing of centroid orbits of \<open>src/gw/centroid_k_unfold.py\<close>: \<open>unfold_orbits\<close> cuts the active centroids
  into orbits, \<open>_partition_orbit_bins\<close> places the orbits whole, largest first, onto the least loaded of as few
  batches as fit under a cap. The search over the number of batches is a \<open>partial_function\<close>; it is shown to return.
\<close>

section \<open>The code\<close>

text \<open>What the functions read of a \<open>CentroidKUnfoldPlan\<close>; the centroid tables are rows over the packed extent.\<close>

record unfold_plan =
  up_sym_idx :: "int list"
  up_sym_perm :: "int list list"
  up_wraps :: "(int \<times> int \<times> int) list list"
  up_active :: "bool list"
  up_packed :: nat

definition plan_rows :: "unfold_plan \<Rightarrow> int list" where
  "plan_rows plan = sort (remdups (up_sym_idx plan))"

definition unfold_orbits :: "unfold_plan \<Rightarrow> (label_error, nat list list \<times> int list) result option" where
  "unfold_orbits plan =
     Option.bind (permutation_orbit_labels (up_packed plan) (map (\<lambda>r. up_sym_perm plan ! nat r) (plan_rows plan))) (\<lambda>res.
       Some (andthen (res) (\<lambda>labels.
         let act = np_flatnonzero (up_active plan);
             lab = np_take labels act;
             order = np_argsort lab;
             (uniq, start, _) = np_unique (np_take lab order);
             sizes = map (\<lambda>k. int (count_list (np_take lab order) k)) uniq
         in Inr (np_split (np_take act order) (tl start), sizes))))"

definition orbit_packing :: "nat list list \<Rightarrow> int list \<Rightarrow> nat list" where
  "orbit_packing members sizes = sort_key (\<lambda>g. (- (sizes ! g), int (hd (members ! g)))) [0..<length members]"

definition round_ranks :: "int \<Rightarrow> int \<Rightarrow> int" where
  "round_ranks ranks v = - ((- v) div ranks) * ranks"

record bin_state =
  bn_heap :: "(int \<times> nat) list"
  bn_owner :: "nat list"
  bn_loads :: "int list"

definition bin_init :: "nat \<Rightarrow> nat \<Rightarrow> bin_state" where
  "bin_init n_batch n_groups =
     \<lparr>bn_heap = map (\<lambda>beta. (0, beta)) [0..<n_batch], bn_owner = replicate n_groups 0, bn_loads = replicate n_batch 0\<rparr>"

definition bin_step :: "int list \<Rightarrow> int \<Rightarrow> nat \<Rightarrow> bin_state \<Rightarrow> bin_state option" where
  "bin_step sizes cap g st =
     (case heappop (bn_heap st) of ((load, beta), h) \<Rightarrow>
        if cap < load + sizes ! g then None
        else Some \<lparr>bn_heap = heappush (load + sizes ! g, beta) h, bn_owner = (bn_owner st)[g := beta],
                   bn_loads = (bn_loads st)[beta := load + sizes ! g]\<rparr>)"

definition bin_attempt :: "int list \<Rightarrow> nat list \<Rightarrow> int \<Rightarrow> nat \<Rightarrow> bin_state option" where
  "bin_attempt sizes by_size cap n_batch =
     fold (\<lambda>g st. Option.bind st (bin_step sizes cap g)) by_size (Some (bin_init n_batch (length sizes)))"

partial_function (option) search_bins :: "int list \<Rightarrow> nat list \<Rightarrow> int \<Rightarrow> nat \<Rightarrow> bin_state option" where
  "search_bins sizes by_size cap n_batch =
     (case bin_attempt sizes by_size cap n_batch of
        Some st \<Rightarrow> Some st
      | None \<Rightarrow> search_bins sizes by_size cap (n_batch + 1))"

declare search_bins.simps [code]

definition batch_cap :: "int list \<Rightarrow> int \<Rightarrow> int \<Rightarrow> int" where
  "batch_cap sizes ranks b_target = max (round_ranks ranks (Max (set sizes))) (b_target div ranks * ranks)"

text \<open>Owners, loads and the batch width; \<open>sizes.max()\<close> of no orbits raises, which is the inner None.\<close>

definition partition_orbit_bins :: "int list \<Rightarrow> nat list \<Rightarrow> int \<Rightarrow> int \<Rightarrow> (nat list \<times> int list \<times> int) option option" where
  "partition_orbit_bins sizes by_size ranks b_target =
     (if sizes = [] then Some None
      else
        let cap = batch_cap sizes ranks b_target
        in Option.bind (search_bins sizes by_size cap (nat (max 1 (ceil_div (sum_list sizes) cap)))) (\<lambda>st.
             Some (Some (bn_owner st, bn_loads st, round_ranks ranks (Max (set (bn_loads st)))))))"

section \<open>The search\<close>

lemma round_ranks_bounds:
  assumes "1 \<le> ranks"
  shows "v \<le> round_ranks ranks v" "round_ranks ranks v < v + ranks" "ranks dvd round_ranks ranks v"
    "ranks dvd w \<Longrightarrow> v \<le> w \<Longrightarrow> round_ranks ranks v \<le> w"
proof -
  have c: "round_ranks ranks v = ceil_div v ranks * ranks" by (simp add: round_ranks_def ceil_div_def)
  show "v \<le> round_ranks ranks v" "round_ranks ranks v < v + ranks"
    using ceil_div_upper [of ranks v] ceil_div_lower [of ranks v] assms c by simp_all
  show "ranks dvd round_ranks ranks v" by (simp add: c)
  show "round_ranks ranks v \<le> w" if w: "ranks dvd w" "v \<le> w"
  proof -
    obtain k where k: "w = k * ranks" using w(1) by (metis dvdE mult.commute)
    have "round_ranks ranks v < k * ranks + ranks" using \<open>round_ranks ranks v < v + ranks\<close> w(2) k by linarith
    then have "ceil_div v ranks * ranks < (k + 1) * ranks" using c by (simp add: algebra_simps)
    then have "ceil_div v ranks < k + 1" using assms by (simp add: mult_less_cancel_right)
    then show ?thesis using c k assms by (simp add: mult_right_mono)
  qed
qed

definition bins_of :: "lpt_state \<Rightarrow> bin_state" where
  "bins_of st = \<lparr>bn_heap = lpt_heap st, bn_owner = lpt_owner st, bn_loads = lpt_loads st\<rparr>"

lemma loads_within:
  fixes z :: int
  assumes "length xs = n" "s < n" "0 < z"
  shows "(\<forall>t<n. xs[s := xs ! s + z] ! t \<le> cap) \<longleftrightarrow> (\<forall>t<n. xs ! t \<le> cap) \<and> xs ! s + z \<le> cap"
proof
  assume all: "\<forall>t<n. xs[s := xs ! s + z] ! t \<le> cap"
  have "xs ! t \<le> cap" if "t < n" for t using all [rule_format, OF that] assms that by (cases "t = s") simp_all
  moreover have "xs ! s + z \<le> cap" using all [rule_format, OF assms(2)] assms by simp
  ultimately show "(\<forall>t<n. xs ! t \<le> cap) \<and> xs ! s + z \<le> cap" by blast
next
  assume all: "(\<forall>t<n. xs ! t \<le> cap) \<and> xs ! s + z \<le> cap"
  have "xs[s := xs ! s + z] ! t \<le> cap" if "t < n" for t using all that assms by (cases "t = s") simp_all
  then show "\<forall>t<n. xs[s := xs ! s + z] ! t \<le> cap" by blast
qed

text \<open>The attempt is the packing loop of the grouped layout, stopped when a load would pass the cap.\<close>

lemma bin_attempt_lpt:
  assumes "0 < n" "distinct gs" "set gs \<subseteq> {0..<length sizes}" "\<forall>z\<in>set sizes. 0 < z" "0 \<le> cap"
  defines "st \<equiv> fold (lpt_step sizes) gs (lpt_init n (length sizes))"
  shows "fold (\<lambda>g st. Option.bind st (bin_step sizes cap g)) gs (Some (bin_init n (length sizes))) =
    (if \<forall>t<n. lpt_loads st ! t \<le> cap then Some (bins_of st) else None)"
proof -
  let ?att = "\<lambda>gs. fold (\<lambda>g st. Option.bind st (bin_step sizes cap g)) gs (Some (bin_init n (length sizes)))"
  let ?lpt = "\<lambda>gs. fold (lpt_step sizes) gs (lpt_init n (length sizes))"
  have "distinct gs \<Longrightarrow> set gs \<subseteq> {0..<length sizes} \<Longrightarrow> lpt_inv sizes n gs (?lpt gs) \<and>
      ?att gs = (if \<forall>t<n. lpt_loads (?lpt gs) ! t \<le> cap then Some (bins_of (?lpt gs)) else None)" for gs
  proof (induction gs rule: rev_induct)
    case Nil
    then show ?case using lpt_init_inv [of sizes n] assms(5) by (simp add: lpt_init_def bin_init_def bins_of_def)
  next
    case (snoc g gs)
    have g: "g < length sizes" "g \<notin> set gs" and z: "0 < sizes ! g" using snoc.prems assms(4) by auto
    have IH: "lpt_inv sizes n gs (?lpt gs)" "?att gs = (if \<forall>t<n. lpt_loads (?lpt gs) ! t \<le> cap then Some (bins_of (?lpt gs)) else None)"
      using snoc by simp_all
    obtain s where s: "s < n" "\<forall>t<n. lpt_loads (?lpt gs) ! s \<le> lpt_loads (?lpt gs) ! t"
        "lpt_loads (lpt_step sizes g (?lpt gs)) = (lpt_loads (?lpt gs))[s := lpt_loads (?lpt gs) ! s + sizes ! g]"
        "lpt_owner (lpt_step sizes g (?lpt gs)) = (lpt_owner (?lpt gs))[g := s]"
        "lpt_heap (lpt_step sizes g (?lpt gs)) = heappush (lpt_loads (?lpt gs) ! s + sizes ! g, s) (snd (heappop (lpt_heap (?lpt gs))))"
        "fst (heappop (lpt_heap (?lpt gs))) = (lpt_loads (?lpt gs) ! s, s)"
      using lpt_step_spec [OF IH(1) assms(1), of g] by blast
    have len: "length (lpt_loads (?lpt gs)) = n" using IH(1) by (simp add: lpt_inv_def)
    have step: "bin_step sizes cap g (bins_of (?lpt gs)) =
        (if lpt_loads (?lpt gs) ! s + sizes ! g \<le> cap then Some (bins_of (lpt_step sizes g (?lpt gs))) else None)"
      using s by (simp add: bin_step_def bins_of_def split_beta)
    define A where "A = ?lpt gs"
    have more: "(\<forall>t<n. lpt_loads (lpt_step sizes g A) ! t \<le> cap) \<longleftrightarrow> (\<forall>t<n. lpt_loads A ! t \<le> cap) \<and> lpt_loads A ! s + sizes ! g \<le> cap"
      unfolding A_def s(3) using loads_within [OF len s(1) z] .
    have try_next: "?att (gs @ [g]) = Option.bind (?att gs) (bin_step sizes cap g)" and lpt_next: "?lpt (gs @ [g]) = lpt_step sizes g A"
      by (simp_all add: A_def)
    have "?att (gs @ [g]) = (if \<forall>t<n. lpt_loads (lpt_step sizes g A) ! t \<le> cap then Some (bins_of (lpt_step sizes g A)) else None)"
    proof (cases "\<forall>t<n. lpt_loads A ! t \<le> cap")
      case True
      have now: "?att (gs @ [g]) = bin_step sizes cap g (bins_of A)"
        unfolding try_next IH(2) A_def [symmetric] if_P [OF True] by simp
      have room: "(\<forall>t<n. lpt_loads (lpt_step sizes g A) ! t \<le> cap) \<longleftrightarrow> lpt_loads A ! s + sizes ! g \<le> cap" using more True by blast
      show ?thesis unfolding now room step [folded A_def] ..
    next
      case False
      have now: "?att (gs @ [g]) = None" unfolding try_next IH(2) A_def [symmetric] if_not_P [OF False] by simp
      have full: "\<not> (\<forall>t<n. lpt_loads (lpt_step sizes g A) ! t \<le> cap)" using more False by blast
      show ?thesis unfolding now if_not_P [OF full] ..
    qed
    then show ?case using lpt_step_inv [OF IH(1) assms(1) g] unfolding lpt_next A_def [symmetric] by blast
  qed
  then show ?thesis using assms(2,3) by (simp add: st_def)
qed

text \<open>With at least as many orbits as batches every batch gets one.\<close>

lemma lpt_none_empty:
  assumes "0 < n" "distinct gs" "set gs \<subseteq> {0..<length sizes}" "\<forall>z\<in>set sizes. 0 < z" "n \<le> length gs"
  defines "st \<equiv> fold (lpt_step sizes) gs (lpt_init n (length sizes))"
  shows "\<forall>t<n. lpt_groups st ! t \<noteq> []"
proof -
  let ?empty = "\<lambda>st. {t. t < n \<and> lpt_groups st ! t = []}"
  let ?P = "\<lambda>ready st. card (?empty st) = n - length ready"
  have "lpt_inv sizes n gs st \<and> ?P gs st"
    unfolding st_def
  proof (rule lpt_fold [OF assms(1-3)])
    fix ready st g s
    assume inv: "lpt_inv sizes n ready st" and P: "?P ready st" and s: "s < n" "\<forall>t<n. lpt_loads st ! s \<le> lpt_loads st ! t"
      and gr: "lpt_groups (lpt_step sizes g st) = (lpt_groups st)[s := lpt_groups st ! s @ [g]]"
      and rest: "\<exists>rest. gs = ready @ g # rest"
    have len: "length (lpt_groups st) = n" using inv by (simp add: lpt_inv_def)
    have mem: "set (lpt_groups st ! t) \<subseteq> set ready" if "t < n" for t
    proof -
      have "lpt_groups st ! t \<in> set (lpt_groups st)" using that len by simp
      then have "set (lpt_groups st ! t) \<subseteq> set (concat (lpt_groups st))" by auto
      moreover have "set (concat (lpt_groups st)) = set ready" using inv by (metis lpt_inv_def set_mset_mset)
      ultimately show ?thesis by simp
    qed
    have loads: "lpt_loads st ! t = 0 \<longleftrightarrow> lpt_groups st ! t = []" "0 \<le> lpt_loads st ! t" if "t < n" for t
    proof -
      have pos: "\<forall>g\<in>set (lpt_groups st ! t). 0 < sizes ! g" using mem [OF that] rest assms(3,4) by fastforce
      have sum: "lpt_loads st ! t = (\<Sum>g\<leftarrow>lpt_groups st ! t. sizes ! g)" using inv that by (simp add: lpt_inv_def)
      have nonneg: "0 \<le> (\<Sum>g\<leftarrow>xs. sizes ! g) \<and> ((\<Sum>g\<leftarrow>xs. sizes ! g) = 0 \<longleftrightarrow> xs = [])" if "\<forall>g\<in>set xs. 0 < sizes ! g" for xs
        using that by (induction xs) auto
      show "lpt_loads st ! t = 0 \<longleftrightarrow> lpt_groups st ! t = []" "0 \<le> lpt_loads st ! t" using nonneg [OF pos] sum by simp_all
    qed
    have after: "?empty (lpt_step sizes g st) = ?empty st - {s}" using len s(1) by (auto simp: gr nth_list_update)
    show "?P (ready @ [g]) (lpt_step sizes g st)"
    proof (cases "?empty st = {}")
      case True
      have "card ({} :: nat set) = n - length ready" using P unfolding True .
      then have "n \<le> length ready" by simp
      then show ?thesis using True after by simp
    next
      case False
      then obtain t where t: "t < n" "lpt_groups st ! t = []" by auto
      then have "lpt_loads st ! s = 0" using s loads [OF t(1)] loads [OF s(1)] by (metis order_antisym)
      then have "s \<in> ?empty st" using loads [OF s(1)] s(1) by simp
      then show ?thesis using P unfolding after by simp
    qed
  next
    show "?P [] (lpt_init n (length sizes))" by (simp add: lpt_init_def conj_commute cong: conj_cong)
  qed
  then have "card (?empty st) = 0" using assms(5) by simp
  then show ?thesis by simp
qed

definition lpt_order :: "int list \<Rightarrow> nat list \<Rightarrow> nat \<Rightarrow> lpt_state" where
  "lpt_order sizes gs n = fold (lpt_step sizes) gs (lpt_init n (length sizes))"

definition bins_fit :: "int list \<Rightarrow> nat list \<Rightarrow> int \<Rightarrow> nat \<Rightarrow> bool" where
  "bins_fit sizes gs cap n \<longleftrightarrow> (\<forall>t<n. lpt_loads (lpt_order sizes gs n) ! t \<le> cap)"

lemma lpt_order_inv:
  "0 < n \<Longrightarrow> distinct gs \<Longrightarrow> set gs \<subseteq> {0..<length sizes} \<Longrightarrow> lpt_inv sizes n gs (lpt_order sizes gs n)"
  using lpt_fold [of n gs sizes "\<lambda>_ _. True"] by (simp add: lpt_order_def)

lemma fits_total:
  assumes "0 < n" "distinct gs" "set gs = {0..<length sizes}" "bins_fit sizes gs cap n"
  shows "sum_list sizes \<le> int n * cap"
proof -
  have inv: "lpt_inv sizes n gs (lpt_order sizes gs n)" using lpt_order_inv assms by simp
  have "mset gs = mset [0..<length sizes]" by (metis assms(2,3) distinct_upt mset_set_set set_upt)
  then have "mset (map ((!) sizes) gs) = mset sizes" by (metis map_nth mset_map)
  then have "(\<Sum>g\<leftarrow>gs. sizes ! g) = sum_list sizes" by (metis sum_mset_sum_list)
  then have "sum_list (lpt_loads (lpt_order sizes gs n)) = sum_list sizes" using lpt_loads_sum [OF inv] by simp
  moreover have "sum_list xs \<le> int (length xs) * cap" if "\<forall>x\<in>set xs. x \<le> cap" for xs
    using that by (induction xs) (auto simp: algebra_simps)
  moreover have "length (lpt_loads (lpt_order sizes gs n)) = n" using inv by (simp add: lpt_inv_def)
  moreover have "\<forall>x\<in>set (lpt_loads (lpt_order sizes gs n)). x \<le> cap"
    using assms(4) calculation(3) by (auto simp: bins_fit_def in_set_conv_nth)
  ultimately show ?thesis by metis
qed

text \<open>One batch per orbit always fits.\<close>

lemma fits_all_apart:
  assumes "sizes \<noteq> []" "distinct gs" "set gs = {0..<length sizes}" "\<forall>z\<in>set sizes. 0 < z \<and> z \<le> cap"
  shows "bins_fit sizes gs cap (length sizes)"
  unfolding bins_fit_def
proof (intro allI impI)
  fix t assume t: "t < length sizes"
  let ?N = "length sizes" and ?st = "lpt_order sizes gs (length sizes)"
  have N: "0 < ?N" using assms(1) by simp
  have N2: "length gs = ?N" using assms(2,3) distinct_card [of gs] by simp
  note N = N N2
  have inv: "lpt_inv sizes ?N gs ?st" using lpt_order_inv N assms by simp
  have busy: "\<forall>t<?N. lpt_groups ?st ! t \<noteq> []"
    using lpt_none_empty [of ?N gs sizes] N assms unfolding lpt_order_def by auto
  have len: "length (lpt_groups ?st) = ?N" using inv by (simp add: lpt_inv_def)
  have "(\<Sum>t<?N. length (lpt_groups ?st ! t)) = length (concat (lpt_groups ?st))"
    using len by (simp add: length_concat sum_list_sum_nth atLeast0LessThan)
  also have "\<dots> = ?N" using inv N(2) by (metis lpt_inv_def size_mset)
  finally have total: "(\<Sum>t<?N. length (lpt_groups ?st ! t)) = ?N" .
  have one: "length (lpt_groups ?st ! t) \<le> 1"
  proof (rule ccontr)
    assume "\<not> length (lpt_groups ?st ! t) \<le> 1"
    moreover have "\<forall>t\<in>{..<?N}. 1 \<le> length (lpt_groups ?st ! t)" using busy by (auto simp: Suc_le_eq)
    ultimately have "(\<Sum>t<?N. 1) < (\<Sum>t<?N. length (lpt_groups ?st ! t))"
      using t by (intro sum_strict_mono_ex1) (auto simp: not_le)
    then show False using total by simp
  qed
  have "lpt_groups ?st ! t \<noteq> []" using busy t by blast
  with one obtain g where g: "lpt_groups ?st ! t = [g]" by (cases "lpt_groups ?st ! t") auto
  have "g \<in> set (concat (lpt_groups ?st))" using g t len by (metis UN_I list.set_intros(1) nth_mem set_concat)
  moreover have "set (concat (lpt_groups ?st)) = set gs" using inv by (metis lpt_inv_def set_mset_mset)
  ultimately have "g \<in> {0..<?N}" using assms(3) by metis
  then have "g < ?N" by simp
  then have "sizes ! g \<le> cap" using assms(4) by simp
  then show "lpt_loads ?st ! t \<le> cap" using inv g t by (simp add: lpt_inv_def)
qed

lemma search_bins_finds:
  assumes "distinct gs" "set gs = {0..<length sizes}" "\<forall>z\<in>set sizes. 0 < z \<and> z \<le> cap" "sizes \<noteq> []"
  shows "0 < n \<Longrightarrow> n \<le> length sizes \<Longrightarrow> \<exists>k\<ge>n. k \<le> length sizes \<and> search_bins sizes gs cap n = Some (bins_of (lpt_order sizes gs k)) \<and>
    bins_fit sizes gs cap k \<and> (\<forall>m. n \<le> m \<and> m < k \<longrightarrow> \<not> bins_fit sizes gs cap m)"
proof (induction "length sizes - n" arbitrary: n rule: less_induct)
  case less
  have "0 \<le> cap" using assms(3,4) by (cases sizes) auto
  then have att: "bin_attempt sizes gs cap n = (if bins_fit sizes gs cap n then Some (bins_of (lpt_order sizes gs n)) else None)"
    using bin_attempt_lpt [of n gs sizes cap] assms less.prems by (simp add: bin_attempt_def bins_fit_def lpt_order_def)
  show ?case
  proof (cases "bins_fit sizes gs cap n")
    case True
    then have "search_bins sizes gs cap n = Some (bins_of (lpt_order sizes gs n))" using att by (subst search_bins.simps) simp
    then show ?thesis using True less.prems by (intro exI [of _ n]) auto
  next
    case False
    then have more: "n \<noteq> length sizes" using fits_all_apart [OF assms(4,1,2,3)] by metis
    have on: "search_bins sizes gs cap n = search_bins sizes gs cap (n + 1)" using att False by (subst search_bins.simps) simp
    obtain k where k: "n + 1 \<le> k" "k \<le> length sizes" "search_bins sizes gs cap (n + 1) = Some (bins_of (lpt_order sizes gs k))"
        "bins_fit sizes gs cap k" "\<forall>m. n + 1 \<le> m \<and> m < k \<longrightarrow> \<not> bins_fit sizes gs cap m"
    proof -
      have "length sizes - (n + 1) < length sizes - n" "0 < n + 1" "n + 1 \<le> length sizes" using less.prems more by auto
      from less.hyps [OF this] that show ?thesis by blast
    qed
    have "\<not> bins_fit sizes gs cap m" if "n \<le> m" "m < k" for m using that False k(5) by (cases "m = n") auto
    then show ?thesis using k on by (intro exI [of _ k]) auto
  qed
qed

lemma batch_cap_props:
  assumes "1 \<le> ranks" "sizes \<noteq> []" "\<forall>z\<in>set sizes. 0 < z"
  shows "\<forall>z\<in>set sizes. 0 < z \<and> z \<le> batch_cap sizes ranks b_target" "ranks dvd batch_cap sizes ranks b_target" "0 < batch_cap sizes ranks b_target"
proof -
  have "z \<le> batch_cap sizes ranks b_target" if "z \<in> set sizes" for z
  proof -
    have "z \<le> Max (set sizes)" using that by simp
    also have "\<dots> \<le> round_ranks ranks (Max (set sizes))" by (rule round_ranks_bounds(1) [OF assms(1)])
    also have "\<dots> \<le> batch_cap sizes ranks b_target" by (simp add: batch_cap_def)
    finally show ?thesis .
  qed
  then show all: "\<forall>z\<in>set sizes. 0 < z \<and> z \<le> batch_cap sizes ranks b_target" using assms(3) by blast
  show "0 < batch_cap sizes ranks b_target" using all assms(2) by (cases sizes) force+
  show "ranks dvd batch_cap sizes ranks b_target"
    using round_ranks_bounds(3) [OF assms(1)] by (simp add: batch_cap_def max_def)
qed

text \<open>What a packing of the orbits into \<open>k\<close> batches of width \<open>b\<close> is.\<close>

definition bins_ok :: "int list \<Rightarrow> int \<Rightarrow> nat list \<Rightarrow> int list \<Rightarrow> int \<Rightarrow> bool" where
  "bins_ok sizes ranks owner loads b \<longleftrightarrow> length owner = length sizes \<and> (\<forall>g<length sizes. owner ! g < length loads) \<and>
     (\<forall>t<length loads. loads ! t = (\<Sum>g\<leftarrow>filter (\<lambda>g. owner ! g = t) [0..<length sizes]. sizes ! g) \<and>
        (\<exists>g<length sizes. owner ! g = t) \<and> loads ! t \<le> b) \<and>
     ranks dvd b \<and> loads \<noteq> []"

lemma lpt_assignment:
  assumes "0 < n" "distinct gs" "set gs = {0..<length sizes}"
  defines "st \<equiv> lpt_order sizes gs n"
  shows "length (lpt_owner st) = length sizes" "\<forall>g<length sizes. lpt_owner st ! g < n" "length (lpt_loads st) = n"
    "\<forall>t<n. lpt_loads st ! t = (\<Sum>g\<leftarrow>filter (\<lambda>g. lpt_owner st ! g = t) [0..<length sizes]. sizes ! g)"
    "\<forall>t<n. lpt_groups st ! t \<noteq> [] \<longrightarrow> (\<exists>g<length sizes. lpt_owner st ! g = t)"
proof -
  have inv: "lpt_inv sizes n gs st" using lpt_order_inv [of n gs sizes] assms by simp
  then show len: "length (lpt_owner st) = length sizes" "length (lpt_loads st) = n" by (simp_all add: lpt_inv_def)
  have perm: "mset (concat (lpt_groups st)) = mset gs" and glen: "length (lpt_groups st) = n" using inv by (simp_all only: lpt_inv_def)
  have "set (concat (lpt_groups st)) = {0..<length sizes}" using mset_eq_setD [OF perm] assms(3) by simp
  note groups = glen this perm
  have dist: "distinct (concat (lpt_groups st))" using groups(3) assms(2) by (metis mset_eq_imp_distinct_iff)
  have own: "g \<in> set (lpt_groups st ! t) \<Longrightarrow> t < n \<Longrightarrow> lpt_owner st ! g = t" for g t using inv by (simp add: lpt_inv_def)
  have where_g: "\<exists>t<n. g \<in> set (lpt_groups st ! t)" if "g < length sizes" for g
  proof -
    have "g \<in> set (concat (lpt_groups st))" using groups(2) that by simp
    then obtain xs where "xs \<in> set (lpt_groups st)" "g \<in> set xs" by auto
    then show ?thesis using groups(1) by (metis in_set_conv_nth)
  qed
  then show "\<forall>g<length sizes. lpt_owner st ! g < n" using own by blast
  have same: "mset (lpt_groups st ! t) = mset (filter (\<lambda>g. lpt_owner st ! g = t) [0..<length sizes])" if t: "t < n" for t
  proof -
    have "distinct (lpt_groups st ! t)" using dist groups(1) t by (simp add: distinct_concat_iff)
    moreover have "set (lpt_groups st ! t) = {g. g < length sizes \<and> lpt_owner st ! g = t}"
    proof
      have "set (lpt_groups st ! t) \<subseteq> set (concat (lpt_groups st))" using groups(1) t by fastforce
      then show "set (lpt_groups st ! t) \<subseteq> {g. g < length sizes \<and> lpt_owner st ! g = t}" using groups(2) own [OF _ t] by auto
      show "{g. g < length sizes \<and> lpt_owner st ! g = t} \<subseteq> set (lpt_groups st ! t)" using where_g own by blast
    qed
    ultimately show ?thesis by (intro set_eq_iff_mset_eq_distinct [THEN iffD1]) auto
  qed
  show "\<forall>t<n. lpt_loads st ! t = (\<Sum>g\<leftarrow>filter (\<lambda>g. lpt_owner st ! g = t) [0..<length sizes]. sizes ! g)"
  proof (intro allI impI)
    fix t assume t: "t < n"
    have "mset (map ((!) sizes) (lpt_groups st ! t)) = mset (map ((!) sizes) (filter (\<lambda>g. lpt_owner st ! g = t) [0..<length sizes]))"
      using same [OF t] by (simp only: mset_map)
    then have "(\<Sum>g\<leftarrow>lpt_groups st ! t. sizes ! g) = (\<Sum>g\<leftarrow>filter (\<lambda>g. lpt_owner st ! g = t) [0..<length sizes]. sizes ! g)"
      by (metis sum_mset_sum_list)
    then show "lpt_loads st ! t = (\<Sum>g\<leftarrow>filter (\<lambda>g. lpt_owner st ! g = t) [0..<length sizes]. sizes ! g)"
      using inv t by (simp add: lpt_inv_def)
  qed
  show "\<forall>t<n. lpt_groups st ! t \<noteq> [] \<longrightarrow> (\<exists>g<length sizes. lpt_owner st ! g = t)"
  proof (intro allI impI)
    fix t assume t: "t < n" "lpt_groups st ! t \<noteq> []"
    then obtain g where "g \<in> set (lpt_groups st ! t)" by (meson last_in_set)
    then show "\<exists>g<length sizes. lpt_owner st ! g = t"
      using own t(1) groups by (metis atLeastLessThan_iff UN_I nth_mem set_concat)
  qed
qed

lemma partition_found:
  fixes b_target :: int
  assumes "1 \<le> ranks" "sizes \<noteq> []" "\<forall>z\<in>set sizes. 0 < z" "distinct gs" "set gs = {0..<length sizes}"
  defines "cap \<equiv> batch_cap sizes ranks b_target"
  shows "\<exists>owner loads b. partition_orbit_bins sizes gs ranks b_target = Some (Some (owner, loads, b)) \<and>
    bins_ok sizes ranks owner loads b \<and> b \<le> cap \<and> b < Max (set loads) + ranks \<and>
    (\<forall>m. 0 < m \<and> m < length loads \<longrightarrow> \<not> bins_fit sizes gs cap m)"
proof -
  note cap = batch_cap_props [OF assms(1-3), of b_target, folded cap_def]
  let ?n0 = "nat (max 1 (ceil_div (sum_list sizes) cap))"
  have N: "0 < length sizes" using assms(2) by simp
  have upper: "ceil_div (sum_list sizes) cap \<le> int m" if "sum_list sizes \<le> int m * cap" for m
  proof -
    have "ceil_div (sum_list sizes) cap * cap < (int m + 1) * cap"
      using ceil_div_lower [OF cap(3), of "sum_list sizes"] that by (simp add: algebra_simps)
    then show ?thesis using cap(3) by (simp add: mult_less_cancel_right)
  qed
  have "sum_list sizes \<le> int (length sizes) * cap"
    using fits_total [OF N assms(4,5) fits_all_apart [OF assms(2,4,5) cap(1)]] .
  from upper [OF this] N have n0: "0 < ?n0" "?n0 \<le> length sizes" by (simp_all add: nat_le_iff Suc_le_eq)
  obtain k where k: "?n0 \<le> k" "k \<le> length sizes" "search_bins sizes gs cap ?n0 = Some (bins_of (lpt_order sizes gs k))"
      "bins_fit sizes gs cap k" "\<forall>m. ?n0 \<le> m \<and> m < k \<longrightarrow> \<not> bins_fit sizes gs cap m"
    using search_bins_finds [OF assms(4,5) cap(1) assms(2) n0] by blast
  have k0: "0 < k" using k(1) n0(1) by simp
  note st = lpt_assignment [OF k0 assms(4,5)]
  let ?st = "lpt_order sizes gs k" and ?b = "round_ranks ranks (Max (set (lpt_loads (lpt_order sizes gs k))))"
  have ne: "lpt_loads ?st \<noteq> []" using st(3) k0 by auto
  have Max_cap: "Max (set (lpt_loads ?st)) \<le> cap" using k(4) st(3) ne by (auto simp: bins_fit_def in_set_conv_nth)
  have le_b: "lpt_loads ?st ! t \<le> ?b" if "t < k" for t
  proof -
    have "lpt_loads ?st ! t \<le> Max (set (lpt_loads ?st))" using that st(3) by simp
    then show ?thesis using round_ranks_bounds(1) [OF assms(1)] by (rule order_trans)
  qed
  have "length gs = length sizes" using assms(4,5) distinct_card [of gs] by simp
  then have busy: "\<forall>t<k. lpt_groups ?st ! t \<noteq> []"
    using lpt_none_empty [of k gs sizes] k0 k(2) assms(3-5) unfolding lpt_order_def by auto
  have "bins_ok sizes ranks (lpt_owner ?st) (lpt_loads ?st) ?b"
    unfolding bins_ok_def using st le_b busy ne round_ranks_bounds(3) [OF assms(1)] by auto
  moreover have "\<not> bins_fit sizes gs cap m" if "0 < m" "m < k" for m
  proof (cases "?n0 \<le> m")
    case False
    show ?thesis
    proof
      assume "bins_fit sizes gs cap m"
      then have "ceil_div (sum_list sizes) cap \<le> int m" using upper fits_total [OF that(1) assms(4,5)] by blast
      then show False using False that(1) by simp
    qed
  qed (use k(5) that in blast)
  moreover have "partition_orbit_bins sizes gs ranks b_target = Some (Some (lpt_owner ?st, lpt_loads ?st, ?b))"
    using assms(2) k(3) by (simp add: partition_orbit_bins_def Let_def cap_def [symmetric] bins_of_def)
  moreover have "?b \<le> cap" using round_ranks_bounds(4) [OF assms(1) cap(2) Max_cap] .
  moreover have "?b < Max (set (lpt_loads ?st)) + ranks" using round_ranks_bounds(2) [OF assms(1)] .
  ultimately show ?thesis using st(3)
    by (intro exI [of _ "lpt_owner ?st"] exI [of _ "lpt_loads ?st"] exI [of _ ?b]) simp
qed

section \<open>The orbits\<close>

text \<open>Rows sorted stably by a key are the classes of the keys that occur, and splitting at the first row of each key gives them back.\<close>

definition key_classes :: "('a \<Rightarrow> 'k::linorder) \<Rightarrow> 'a list \<Rightarrow> 'a list list" where
  "key_classes f xs = map (\<lambda>k. filter (\<lambda>x. f x = k) xs) (sort (remdups (map f xs)))"

lemma concat_classes_mset:
  "distinct ks \<Longrightarrow> \<forall>x\<in>set xs. f x \<in> set ks \<Longrightarrow> mset (concat (map (\<lambda>k. filter (\<lambda>x. f x = k) xs) ks)) = mset xs"
proof (induction ks arbitrary: xs)
  case (Cons k ks)
  have "filter (\<lambda>x. f x = j) (filter (\<lambda>x. f x \<noteq> k) xs) = filter (\<lambda>x. f x = j) xs" if "j \<in> set ks" for j
    using that Cons.prems(1) by (auto intro!: filter_cong)
  then have "map (\<lambda>j. filter (\<lambda>x. f x = j) xs) ks = map (\<lambda>j. filter (\<lambda>x. f x = j) (filter (\<lambda>x. f x \<noteq> k) xs)) ks" by simp
  moreover have "mset (concat (map (\<lambda>j. filter (\<lambda>x. f x = j) (filter (\<lambda>x. f x \<noteq> k) xs)) ks)) = mset (filter (\<lambda>x. f x \<noteq> k) xs)"
    using Cons.prems by (intro Cons.IH) auto
  moreover have "mset (filter (\<lambda>x. f x = k) xs) + mset (filter (\<lambda>x. f x \<noteq> k) xs) = mset xs"
    using multiset_partition [of "mset xs" "\<lambda>x. f x = k"] by simp
  moreover have "mset (concat (map (\<lambda>k. filter (\<lambda>x. f x = k) xs) (k # ks))) =
      mset (filter (\<lambda>x. f x = k) xs) + mset (concat (map (\<lambda>k. filter (\<lambda>x. f x = k) xs) ks))" by simp
  ultimately show ?case by (simp only:)
qed simp

lemma sort_key_classes_of:
  "sort_key f xs = concat (key_classes f xs)"
proof (rule properties_for_sort_key)
  let ?u = "sort (remdups (map f xs))"
  show "mset (concat (key_classes f xs)) = mset xs"
    unfolding key_classes_def by (rule concat_classes_mset) auto
  have filt: "filter (\<lambda>x. c = f x) (concat (map (\<lambda>k. filter (\<lambda>x. f x = k) xs) ks)) = (if c \<in> set ks then filter (\<lambda>x. c = f x) xs else [])"
    if "distinct ks" for ks c
    using that
  proof (induction ks)
    case (Cons k ks)
    have "filter (\<lambda>x. c = f x) (filter (\<lambda>x. f x = k) xs) = (if c = k then filter (\<lambda>x. c = f x) xs else [])"
      by (auto simp: filter_empty_conv intro!: filter_cong)
    then show ?case using Cons by auto
  qed simp
  show "filter (\<lambda>x. f k = f x) (concat (key_classes f xs)) = filter (\<lambda>x. f k = f x) xs" if "k \<in> set (concat (key_classes f xs))" for k
    using that filt [of ?u "f k"] by (auto simp: key_classes_def)
  have "sorted (map f (concat (map (\<lambda>k. filter (\<lambda>x. f x = k) xs) ks)))" if "sorted ks" for ks
    using that
  proof (induction ks)
    case (Cons k ks)
    have "map f (filter (\<lambda>x. f x = k) xs) = replicate (length (filter (\<lambda>x. f x = k) xs)) k" by (induction xs) auto
    then show ?case using Cons by (auto simp: sorted_append)
  qed simp
  then show "sorted (map f (concat (key_classes f xs)))" by (simp add: key_classes_def)
qed

lemma take_argsort: "np_take xs (np_argsort (map f xs)) = sort_key f xs"
proof (rule properties_for_sort_key [symmetric])
  let ?key = "\<lambda>i. map f xs ! i"
  have "mset (np_take xs (np_argsort (map f xs))) = image_mset ((!) xs) (mset [0..<length xs])"
    using np_argsort_mset [of "map f xs"] by (simp add: np_take_def)
  then show "mset (np_take xs (np_argsort (map f xs))) = mset xs" by (metis map_nth mset_map)
  have idx: "i < length xs" if "i \<in> set (np_argsort (map f xs))" for i using that by simp
  have "map f (np_take xs (np_argsort (map f xs))) = map ?key (np_argsort (map f xs))" using idx by (auto simp: np_take_def)
  then show "sorted (map f (np_take xs (np_argsort (map f xs))))" using np_argsort_sorted [of "map f xs"] by simp
  have same: "filter (\<lambda>i. c = f (xs ! i)) is = filter (\<lambda>i. ?key i = c) is" if "\<forall>i\<in>set is. i < length xs" for c "is"
    using that by (intro filter_cong) auto
  show "filter (\<lambda>x. f k = f x) (np_take xs (np_argsort (map f xs))) = filter (\<lambda>x. f k = f x) xs" for k
  proof -
    have "filter (\<lambda>x. f k = f x) (np_take xs (np_argsort (map f xs))) = map ((!) xs) (filter (\<lambda>i. ?key i = f k) (np_argsort (map f xs)))"
      using same [of "np_argsort (map f xs)" "f k"] idx by (simp add: np_take_def filter_map comp_def)
    also have "filter (\<lambda>i. ?key i = f k) (np_argsort (map f xs)) = filter (\<lambda>i. ?key i = f k) [0..<length xs]"
      by (simp add: np_argsort_def sort_key_stable)
    also have "map ((!) xs) \<dots> = filter (\<lambda>x. f k = f x) (map ((!) xs) [0..<length xs])"
      using same [of "[0..<length xs]" "f k"] by (simp add: filter_map comp_def)
    finally show ?thesis by (simp add: map_nth)
  qed
qed

fun starts_from :: "nat \<Rightarrow> 'a list list \<Rightarrow> nat list" where
  "starts_from p [] = []"
| "starts_from p (x # xs) = p # starts_from (p + length x) xs"

lemma starts_cumsum:
  "xs \<noteq> [] \<Longrightarrow> tl (starts_from p xs) = map nat (butlast (np_cumsum_from (int p) (map (\<lambda>x. int (length x)) xs)))"
proof (induction xs arbitrary: p)
  case (Cons x xs)
  have ge: "np_cumsum_from a zs \<noteq> [] \<longleftrightarrow> zs \<noteq> []" for a zs by (cases zs) simp_all
  show ?case
  proof (cases xs)
    case (Cons y ys)
    then show ?thesis using Cons.IH [of "p + length x"] ge by (simp add: nat_add_distrib)
  qed simp
qed simp

lemma split_starts: "xs \<noteq> [] \<Longrightarrow> np_split (concat xs) (tl (starts_from 0 xs)) = xs"
  using np_split_pieces [of xs] starts_cumsum [of xs 0] by (simp add: np_cumsum_def)

lemma first_in_blocks:
  assumes "distinct ks" "\<forall>k\<in>set ks. blk k \<noteq> [] \<and> (\<forall>y\<in>set (blk k). y = k)" "k \<in> set pre \<Longrightarrow> k \<notin> set ks" "\<forall>k\<in>set ks. k \<notin> set pre"
  shows "map (\<lambda>k. first_index k (pre @ concat (map blk ks))) ks = starts_from (length pre) (map blk ks)"
  using assms
proof (induction ks arbitrary: pre)
  case (Cons k ks)
  have b: "blk k \<noteq> []" "\<forall>y\<in>set (blk k). y = k" using Cons.prems(2) by auto
  have "first_index k (blk k @ zs) = 0" for zs using b by (cases "blk k") (simp_all add: first_index_def)
  then have "first_index k (pre @ concat (map blk (k # ks))) = length pre"
    using Cons.prems(4) by (simp add: first_index_append)
  moreover have "map (\<lambda>j. first_index j ((pre @ blk k) @ concat (map blk ks))) ks = starts_from (length (pre @ blk k)) (map blk ks)"
    using Cons.prems b by (intro Cons.IH) auto
  ultimately show ?case by simp
qed simp

lemma split_classes:
  assumes "xs \<noteq> []"
  shows "np_split (sort_key f xs) (tl (map (\<lambda>k. first_index k (map f (sort_key f xs))) (sort (remdups (map f xs))))) = key_classes f xs"
proof -
  let ?u = "sort (remdups (map f xs))"
  have keys: "map f (concat (key_classes f xs)) = concat (map (\<lambda>k. map f (filter (\<lambda>x. f x = k) xs)) ?u)"
    by (simp add: key_classes_def map_concat comp_def)
  have "map (\<lambda>k. first_index k ([] @ concat (map (\<lambda>k. map f (filter (\<lambda>x. f x = k) xs)) ?u))) ?u =
      starts_from (length ([] :: 'b list)) (map (\<lambda>k. map f (filter (\<lambda>x. f x = k) xs)) ?u)"
    by (rule first_in_blocks) (auto simp: filter_empty_conv)
  moreover have "starts_from p (map (map f) zs) = starts_from p zs" for p and zs :: "'a list list"
    by (induction zs arbitrary: p) auto
  from this [of 0 "key_classes f xs"]
  have "starts_from 0 (map (\<lambda>k. map f (filter (\<lambda>x. f x = k) xs)) ?u) = starts_from 0 (key_classes f xs)"
    by (simp add: key_classes_def comp_def)
  ultimately have starts: "map (\<lambda>k. first_index k (map f (concat (key_classes f xs)))) ?u = starts_from 0 (key_classes f xs)"
    unfolding keys by simp
  have "set ?u \<noteq> {}" using assms by simp
  then have "key_classes f xs \<noteq> []" unfolding key_classes_def by (metis list.map_disc_iff set_empty)
  then show ?thesis unfolding sort_key_classes_of [of f xs] starts by (rule split_starts)
qed

text \<open>A plan whose selected rows are permutations that keep the active centroids.\<close>

definition legal_plan :: "unfold_plan \<Rightarrow> bool" where
  "legal_plan plan \<longleftrightarrow> 1 \<le> up_packed plan \<and> up_packed plan \<le> 2 ^ 31 \<and> length (up_active plan) = up_packed plan \<and>
     (\<forall>s\<in>set (up_sym_idx plan). 0 \<le> s \<and> s < int (length (up_sym_perm plan))) \<and>
     perm_table (up_packed plan) (map (\<lambda>r. up_sym_perm plan ! nat r) (plan_rows plan)) \<and>
     (\<forall>s\<in>set (up_sym_idx plan). \<forall>m<up_packed plan. up_active plan ! m \<longrightarrow> up_active plan ! nat (up_sym_perm plan ! nat s ! m))"

abbreviation plan_table :: "unfold_plan \<Rightarrow> int list list" where
  "plan_table plan \<equiv> map (\<lambda>r. up_sym_perm plan ! nat r) (plan_rows plan)"

lemma unfold_orbits_run:
  assumes "legal_plan plan" "\<exists>i<up_packed plan. up_active plan ! i"
  defines "act \<equiv> np_flatnonzero (up_active plan)" and "label \<equiv> \<lambda>i. int (started_before (up_packed plan) (plan_table plan) i)"
  shows "unfold_orbits plan = Some (Inr (key_classes label act, map (\<lambda>xs. int (length xs)) (key_classes label act)))"
proof -
  let ?n = "up_packed plan"
  have n: "1 \<le> ?n" "?n \<le> 2 ^ 31" and t: "perm_table ?n (plan_table plan)" and len: "length (up_active plan) = ?n"
    using assms(1) by (simp_all add: legal_plan_def)
  have act: "set act = {i. i < ?n \<and> up_active plan ! i}" "act \<noteq> []"
    using assms(2) len by (auto simp: act_def np_flatnonzero_def filter_empty_conv)
  have lab: "np_take (map label [0..<?n]) act = map label act" using act(1) by (auto simp: np_take_def)
  have order: "np_take xs (np_argsort (map f xs)) = sort_key f xs" for f :: "nat \<Rightarrow> int" and xs
    by (rule take_argsort)
  have sorted_labels: "np_take (map label act) (np_argsort (map label act)) = map label (sort_key label act)"
    unfolding order [symmetric] by (auto simp: np_take_def)
  have u: "sort (remdups (map label (sort_key label act))) = sort (remdups (map label act))"
    by (intro sorted_distinct_set_unique) auto
  have count: "count_list (map label (sort_key label act)) k = length (filter (\<lambda>x. label x = k) act)" for k
  proof -
    have "count_list (map label ys) k = length (filter (\<lambda>x. label x = k) ys)" for ys by (induction ys) auto
    then show ?thesis by (simp add: sort_key_stable)
  qed
  have run: "permutation_orbit_labels ?n (plan_table plan) = Some (Inr (map label [0..<?n]))"
    unfolding label_def by (rule labels_of_table [OF n t])
  show ?thesis
    using split_classes [OF act(2), of label]
    by (simp add: unfold_orbits_def run act_def [symmetric] lab np_unique_def Let_def sorted_labels order u count key_classes_def comp_def)
qed

end
