(* ===== verification/OrbitBatches.thy ===== *)
theory OrbitBatches
  imports OrbitBins RowTables
begin

text \<open>
  \<open>orbit_mu_batches\<close> and \<open>mu_batch_tables\<close> of \<open>src/gw/centroid_k_unfold.py\<close>: whole-orbit batches of centroids, the
  slots of each rank, and the tables that restrict the symmetry action to a batch. The composition of orbit
  labels, packing and tables is shown never to refuse and to give each batch its own action.
\<close>

section \<open>The code\<close>

datatype batch_error =
    PlanLabels label_error
  | PadExtent int nat
  | BatchArguments int int
  | NoOrbits
  | EmptyBatch nat
  | NoCentroidAction
  | CentroidOutside nat
  | SourceOutside nat int nat
  | SplitOrbit nat int nat nat int
  | SlotCounts

type_synonym wrap = "int \<times> int \<times> int"

text \<open>The occupied slots of a batch row, and what sits in them.\<close>

definition batch_slots :: "int list \<Rightarrow> nat list" where
  "batch_slots mu = filter (\<lambda>j. 0 \<le> mu ! j) [0..<length mu]"

definition batch_members :: "int list \<Rightarrow> nat list" where
  "batch_members mu = map (\<lambda>j. nat (mu ! j)) (batch_slots mu)"

text \<open>One action row of one batch.\<close>

definition batch_row :: "unfold_plan \<Rightarrow> nat \<Rightarrow> int list \<Rightarrow> int \<Rightarrow> (batch_error, int list \<times> wrap list) result" where
  "batch_row plan beta mu row =
     (let slots = batch_slots mu; members = batch_members mu;
          slot_of = np_put members (map int slots) (replicate (up_packed plan) (- 1));
          perm = up_sym_perm plan ! nat row;
          src = map (\<lambda>m. slot_of ! nat (perm ! m)) members
      in case first_hit (\<lambda>m. int (up_packed plan) \<le> perm ! m) members of
           Some bad \<Rightarrow> Inl (SourceOutside beta row (members ! bad))
         | None \<Rightarrow> case first_hit (\<lambda>s. s < 0) src of
           Some bad \<Rightarrow> Inl (SplitOrbit beta row (members ! bad) (slots ! bad) (perm ! (members ! bad)))
         | None \<Rightarrow> Inr (np_put slots src (map int [0..<length mu]),
                        np_put slots (map (\<lambda>m. up_wraps plan ! nat row ! m) members) (replicate (length mu) (0, 0, 0))))"

definition batch_tables :: "unfold_plan \<Rightarrow> int list \<Rightarrow> nat \<Rightarrow> int list \<Rightarrow> (batch_error, int list list \<times> wrap list list) result" where
  "batch_tables plan rows beta mu =
     (let n_all = length (up_sym_perm plan); b = length mu in
      case first_hit (\<lambda>m. up_packed plan \<le> m) (batch_members mu) of
        Some bad \<Rightarrow> Inl (CentroidOutside (batch_members mu ! bad))
      | None \<Rightarrow>
          andthen (mapE (batch_row plan beta mu) rows) (\<lambda>out.
            Inr (np_put (map nat rows) (map fst out) (replicate n_all (replicate b (- 1))),
                 np_put (map nat rows) (map snd out) (replicate n_all (replicate b (0, 0, 0))))))"

definition times_seen :: "int list list \<Rightarrow> nat \<Rightarrow> nat" where
  "times_seen mus m = length (filter (\<lambda>mu. m \<in> set (batch_members mu)) mus)"

definition mu_batch_tables ::
    "unfold_plan \<Rightarrow> int list list \<Rightarrow> (batch_error, int list list list \<times> wrap list list list \<times> int list) result" where
  "mu_batch_tables plan mus =
     (let rows = plan_rows plan
      in if \<exists>r\<in>set rows. \<exists>m\<in>set (up_sym_perm plan ! nat r). m < 0 then Inl NoCentroidAction
         else andthen (mapE (\<lambda>(beta, mu). batch_tables plan rows beta mu) (enumerate 0 mus)) (\<lambda>out.
           if \<exists>m<up_packed plan. times_seen mus m \<noteq> (if up_active plan ! m then 1 else 0) then Inl SlotCounts
           else Inr (map fst out, map snd out, rows)))"

text \<open>The members of a batch dealt to the ranks: the first ranks get one more, pads trail.\<close>

definition deal_row :: "nat list \<Rightarrow> nat \<Rightarrow> nat \<Rightarrow> int list" where
  "deal_row mem ranks c =
     snd (fold (\<lambda>p (cursor, row).
       let share = length mem div ranks + (if p < length mem mod ranks then 1 else 0)
       in (cursor + share, np_set_slice (p * c) (map int (take share (drop cursor mem))) row))
       [0..<ranks] (0, replicate (ranks * c) (- 1)))"

definition batch_mem :: "nat list list \<Rightarrow> nat list \<Rightarrow> nat \<Rightarrow> nat list" where
  "batch_mem members owner beta = sort (concat (map (\<lambda>g. members ! g) (filter (\<lambda>g. owner ! g = beta) [0..<length owner])))"

definition orbit_mu_batches ::
    "unfold_plan \<Rightarrow> int \<Rightarrow> int \<Rightarrow> int \<Rightarrow>
     (batch_error, int list list \<times> int list list list \<times> wrap list list list \<times> int list) result option" where
  "orbit_mu_batches plan mu_pad ranks b_target =
     (if mu_pad \<noteq> int (up_packed plan) then Some (Inl (PadExtent mu_pad (up_packed plan)))
      else if ranks < 1 \<or> b_target < 1 then Some (Inl (BatchArguments ranks b_target))
      else Option.bind (unfold_orbits plan) (\<lambda>orbits. case orbits of
        Inl e \<Rightarrow> Some (Inl (PlanLabels e))
      | Inr (members, sizes) \<Rightarrow>
          Option.bind (partition_orbit_bins sizes (orbit_packing members sizes) ranks b_target) (\<lambda>packed. case packed of
            None \<Rightarrow> Some (Inl NoOrbits)
          | Some (owner, loads, b) \<Rightarrow>
              Some (case first_hit (\<lambda>beta. beta \<notin> set owner) [0..<length loads] of
                Some beta \<Rightarrow> Inl (EmptyBatch beta)
              | None \<Rightarrow>
                  let mus = map (\<lambda>beta. deal_row (batch_mem members owner beta) (nat ranks) (nat (b div ranks))) [0..<length loads]
                  in andthen (mu_batch_tables plan mus) (\<lambda>tables. Inr (mus, tables))))))"

text \<open>\<open>packed_to_slot\<close>: the flat slot of every packed centroid.\<close>

definition packed_to_slot :: "int list list \<Rightarrow> nat \<Rightarrow> int list" where
  "packed_to_slot mus mu_pad =
     (let flat = concat mus; hit = filter (\<lambda>i. 0 \<le> flat ! i) [0..<length flat]
      in np_put (map (\<lambda>i. nat (flat ! i)) hit) (map int hit) (replicate mu_pad (- 1)))"

section \<open>Dealing\<close>

text \<open>A row of pads and, in order, the members: what dealing writes.\<close>

lemma deal_row_blocks:
  assumes "0 < ranks" "length mem \<le> ranks * c"
  defines "share \<equiv> \<lambda>p. length mem div ranks + (if p < length mem mod ranks then 1 else 0)"
  shows "\<exists>parts. length parts = ranks \<and> concat parts = mem \<and> (\<forall>p<ranks. length (parts ! p) = share p \<and> length (parts ! p) \<le> c) \<and>
    deal_row mem ranks c = concat (map (\<lambda>xs. map int xs @ replicate (c - length xs) (- 1)) parts)"
proof -
  let ?q = "length mem div ranks" and ?r = "length mem mod ranks"
  have len: "length mem = ranks * ?q + ?r" and r: "?r < ranks" using assms(1) by simp_all
  have share_c: "share p \<le> c" if "p < ranks" for p
  proof (cases "?q < c")
    case False
    then have "ranks * c \<le> ranks * ?q" by simp
    then have "?r = 0" "ranks * ?q \<le> ranks * c" using len assms(2) by linarith+
    then show ?thesis using assms(1) by (simp add: share_def)
  qed (simp add: share_def)
  let ?cur = "\<lambda>p. p * ?q + min p ?r"
  let ?part = "\<lambda>p. take (share p) (drop (?cur p) mem)"
  have next_cur: "?cur p + share p = ?cur (Suc p)" for p by (simp add: share_def min_def)
  have cur_end: "?cur ranks = length mem" using len r by (simp add: min_def)
  have mono: "?cur p \<le> ?cur ranks" if "p \<le> ranks" for p using that by (intro add_mono mult_le_mono1) auto
  have part_len: "length (?part p) = share p" if "p < ranks" for p
    using mono [of "Suc p"] that next_cur [of p] cur_end by simp
  have loop: "k \<le> ranks \<Longrightarrow> fold (\<lambda>p (cursor, row). let s = share p in (cursor + s, np_set_slice (p * c) (map int (take s (drop cursor mem))) row))
       [0..<k] (0, replicate (ranks * c) (- 1)) =
     (?cur k, concat (map (\<lambda>p. map int (?part p) @ replicate (c - share p) (- 1)) [0..<k]) @ replicate ((ranks - k) * c) (- 1))" for k
  proof (induction k)
    case (Suc k)
    let ?done = "concat (map (\<lambda>p. map int (?part p) @ replicate (c - share p) (- 1 :: int)) [0..<k])"
    have done_len: "length ?done = k * c"
    proof -
      have block: "length (map int (?part p) @ replicate (c - share p) (- 1 :: int)) = c" if "p < ranks" for p
        using part_len [OF that] share_c [OF that] by (simp only: length_append length_map length_replicate)
      have "length (concat (map (\<lambda>p. map int (?part p) @ replicate (c - share p) (- 1 :: int)) ps)) = length ps * c" if "\<forall>p\<in>set ps. p < ranks" for ps
        using that
      proof (induction ps)
        case (Cons p ps)
        then show ?case using block [of p] by (simp only: list.map concat.simps length_append list.size) simp
      qed simp
      from this [of "[0..<k]"] show ?thesis using Suc.prems by simp
    qed
    have rest: "replicate ((ranks - k) * c) (- 1 :: int) = replicate (share k) (- 1) @ replicate (c - share k) (- 1) @ replicate ((ranks - Suc k) * c) (- 1)"
    proof -
      have "(ranks - k) * c = share k + ((c - share k) + (ranks - Suc k) * c)"
        using Suc.prems share_c [of k] by (simp add: Suc_diff_Suc [symmetric])
      then show ?thesis by (simp add: replicate_add)
    qed
    have "np_set_slice (k * c) (map int (?part k)) (?done @ replicate ((ranks - k) * c) (- 1)) =
        ?done @ map int (?part k) @ replicate (c - share k) (- 1) @ replicate ((ranks - Suc k) * c) (- 1)"
      using done_len part_len [of k] Suc.prems unfolding rest by (simp add: np_set_slice_def)
    then show ?case using Suc next_cur [of k] by (simp add: Let_def)
  qed simp
  let ?parts = "map ?part [0..<ranks]"
  have "concat (map ?part [0..<k]) = take (?cur k) mem" if "k \<le> ranks" for k
    using that
  proof (induction k)
    case (Suc k)
    then have "concat (map ?part [0..<Suc k]) = take (?cur k) mem @ take (share k) (drop (?cur k) mem)" by simp
    also have "\<dots> = take (?cur k + share k) mem" by (rule take_add [symmetric])
    finally show ?case unfolding next_cur .
  qed simp
  then have all: "concat ?parts = mem" using cur_end by simp
  have "deal_row mem ranks c = concat (map (\<lambda>p. map int (?part p) @ replicate (c - share p) (- 1)) [0..<ranks])"
    using loop [of ranks] unfolding deal_row_def share_def Let_def by simp
  also have "\<dots> = concat (map (\<lambda>xs. map int xs @ replicate (c - length xs) (- 1)) ?parts)"
    using part_len by (intro arg_cong [of _ _ concat]) (auto simp del: length_take length_drop)
  finally have "deal_row mem ranks c = concat (map (\<lambda>xs. map int xs @ replicate (c - length xs) (- 1)) ?parts)" .
  then show ?thesis using all part_len share_c by (intro exI [of _ ?parts]) auto
qed

lemma batch_members_filter: "batch_members mu = map nat (filter (\<lambda>m. 0 \<le> m) mu)"
proof -
  have "map ((!) mu) (filter (\<lambda>j. 0 \<le> mu ! j) [0..<length mu]) = filter (\<lambda>m. 0 \<le> m) (map ((!) mu) [0..<length mu])"
    by (simp add: filter_map comp_def)
  then have "map ((!) mu) (batch_slots mu) = filter (\<lambda>m. 0 \<le> m) mu" by (simp add: batch_slots_def map_nth)
  from arg_cong [OF this, of "map nat"] show ?thesis by (simp add: batch_members_def comp_def)
qed

lemma deal_row_facts:
  assumes "0 < ranks" "length mem \<le> ranks * c"
  shows "length (deal_row mem ranks c) = ranks * c" "batch_members (deal_row mem ranks c) = mem"
    "\<forall>m\<in>set (deal_row mem ranks c). m = - 1 \<or> m \<in> int ` set mem"
proof -
  obtain parts where parts: "length parts = ranks" "concat parts = mem" "\<forall>p<ranks. length (parts ! p) \<le> c"
      "deal_row mem ranks c = concat (map (\<lambda>xs. map int xs @ replicate (c - length xs) (- 1)) parts)"
    using deal_row_blocks [OF assms] by blast
  have short: "\<forall>xs\<in>set parts. length xs \<le> c" using parts(1,3) by (metis in_set_conv_nth)
  have "length (concat (map (\<lambda>xs. map int xs @ replicate (c - length xs) (- 1)) ps)) = length ps * c" if "\<forall>xs\<in>set ps. length xs \<le> c" for ps
    using that by (induction ps) simp_all
  then show "length (deal_row mem ranks c) = ranks * c" using parts short by simp
  have "filter (\<lambda>m. 0 \<le> m) (concat (map (\<lambda>xs. map int xs @ replicate (c - length xs) (- 1)) ps)) = map int (concat ps)" for ps
    by (induction ps) (simp_all add: filter_map comp_def)
  then show "batch_members (deal_row mem ranks c) = mem" using parts(2,4) by (simp add: batch_members_filter comp_def)
  show "\<forall>m\<in>set (deal_row mem ranks c). m = - 1 \<or> m \<in> int ` set mem"
    using parts(4) by (auto simp: parts(2) [symmetric])
qed

section \<open>The tables of a batch\<close>

text \<open>What the action row of a batch is: each filled slot points at the slot of its source and carries its wrap.\<close>

definition row_ok :: "int list \<Rightarrow> int list \<Rightarrow> wrap list \<Rightarrow> int list \<Rightarrow> wrap list \<Rightarrow> bool" where
  "row_ok mu perm wraps lp lw \<longleftrightarrow> length lp = length mu \<and> length lw = length mu \<and>
     (\<forall>j<length mu. if mu ! j < 0 then lp ! j = int j \<and> lw ! j = (0, 0, 0)
        else 0 \<le> lp ! j \<and> nat (lp ! j) < length mu \<and> mu ! nat (lp ! j) = perm ! nat (mu ! j) \<and> lw ! j = wraps ! nat (mu ! j))"

lemma batch_slots_members:
  shows "length (batch_members mu) = length (batch_slots mu)" "distinct (batch_slots mu)"
    "set (batch_slots mu) = {j. j < length mu \<and> 0 \<le> mu ! j}"
    "k < length (batch_slots mu) \<Longrightarrow> int (batch_members mu ! k) = mu ! (batch_slots mu ! k)"
proof -
  show set: "set (batch_slots mu) = {j. j < length mu \<and> 0 \<le> mu ! j}" by (auto simp: batch_slots_def)
  show "int (batch_members mu ! k) = mu ! (batch_slots mu ! k)" if "k < length (batch_slots mu)"
    using nth_mem [OF that] set that by (simp add: batch_members_def)
qed (simp_all add: batch_members_def batch_slots_def)

lemma batch_row_closed:
  assumes "distinct (batch_members mu)" "\<forall>m\<in>set (batch_members mu). m < up_packed plan"
    and "\<forall>m\<in>set (batch_members mu). 0 \<le> up_sym_perm plan ! nat row ! m \<and> nat (up_sym_perm plan ! nat row ! m) \<in> set (batch_members mu)"
  shows "\<exists>lp lw. batch_row plan beta mu row = Inr (lp, lw) \<and> row_ok mu (up_sym_perm plan ! nat row) (up_wraps plan ! nat row) lp lw"
proof -
  let ?slots = "batch_slots mu" and ?mem = "batch_members mu" and ?perm = "up_sym_perm plan ! nat row"
  define slot_of where "slot_of = np_put ?mem (map int ?slots) (replicate (up_packed plan) (- 1))"
  define src where "src = map (\<lambda>m. slot_of ! nat (?perm ! m)) ?mem"
  note sl = batch_slots_members [where mu = mu]
  have slot: "slot_of ! (?mem ! k) = int (?slots ! k)" if "k < length ?slots" for k
    using that assms(1,2) sl(1) np_put_nth [of ?mem k "map int ?slots" "replicate (up_packed plan) (- 1)"] by (simp add: slot_of_def)
  have src_k: "\<exists>j. src ! k = int j \<and> j < length mu \<and> mu ! j = ?perm ! (?mem ! k)" if k: "k < length ?slots" for k
  proof -
    have m: "?mem ! k \<in> set ?mem" using k sl(1) by simp
    then obtain i where i: "i < length ?mem" "?mem ! i = nat (?perm ! (?mem ! k))" using assms(3) by (metis in_set_conv_nth)
    have "src ! k = int (?slots ! i)" using k i sl(1) slot [of i] by (simp add: src_def)
    moreover have "?slots ! i \<in> set ?slots" using i sl(1) by simp
    moreover have "mu ! (?slots ! i) = ?perm ! (?mem ! k)" using sl(4) [of i] i sl(1) assms(3) m by simp
    ultimately show ?thesis using sl(3) by auto
  qed
  have len: "length src = length ?slots" using sl(1) by (simp add: src_def)
  have "0 \<le> s" if "s \<in> set src" for s
  proof -
    from that obtain k where k: "k < length src" "src ! k = s" by (auto simp: in_set_conv_nth)
    from src_k [of k] k(1) len obtain j where "src ! k = int j" by auto
    then show ?thesis using k(2) by simp
  qed
  then have "first_hit (\<lambda>s. s < 0) src = None" by (auto simp: not_less)
  moreover have "?perm ! m < int (up_packed plan)" if "m \<in> set ?mem" for m
    using assms(2) [rule_format, of "nat (?perm ! m)"] assms(3) [rule_format, OF that] by linarith
  then have "first_hit (\<lambda>m. int (up_packed plan) \<le> ?perm ! m) ?mem = None" by (auto simp: not_le)
  ultimately have none: "first_hit (\<lambda>s. s < 0) src = None" "first_hit (\<lambda>m. int (up_packed plan) \<le> ?perm ! m) ?mem = None" by simp_all
  let ?lp = "np_put ?slots src (map int [0..<length mu])"
  let ?lw = "np_put ?slots (map (\<lambda>m. up_wraps plan ! nat row ! m) ?mem) (replicate (length mu) (0, 0, 0))"
  have run: "batch_row plan beta mu row = Inr (?lp, ?lw)"
    unfolding batch_row_def Let_def slot_of_def [symmetric] src_def [symmetric] none by simp
  have at: "if mu ! j < 0 then ?lp ! j = int j \<and> ?lw ! j = (0, 0, 0)
        else 0 \<le> ?lp ! j \<and> nat (?lp ! j) < length mu \<and> mu ! nat (?lp ! j) = ?perm ! nat (mu ! j) \<and> ?lw ! j = up_wraps plan ! nat row ! nat (mu ! j)"
    if j: "j < length mu" for j
  proof (cases "mu ! j < 0")
    case True
    then have "j \<notin> set ?slots" by (simp add: sl(3))
    then show ?thesis using True j by (simp add: np_put_other)
  next
    case False
    then have "j \<in> set ?slots" using j by (simp add: sl(3))
    then obtain k where k: "k < length ?slots" "?slots ! k = j" by (metis in_set_conv_nth)
    have m: "?mem ! k = nat (mu ! j)" using sl(4) [OF k(1)] k(2) by simp
    have "?lp ! j = src ! k" "?lw ! j = up_wraps plan ! nat row ! nat (mu ! j)"
      using k j sl(1,2) len m np_put_nth [of ?slots k src "map int [0..<length mu]"]
        np_put_nth [of ?slots k "map (\<lambda>m. up_wraps plan ! nat row ! m) ?mem" "replicate (length mu) (0, 0, 0)"] by simp_all
    then show ?thesis using False src_k [OF k(1)] m by auto
  qed
  show ?thesis using run at by (auto simp: row_ok_def)
qed

lemma np_put_rows:
  assumes "distinct idx" "length vals = length idx" "\<forall>i\<in>set idx. i < length base" "k < length idx"
  shows "np_put idx vals base ! (idx ! k) = vals ! k"
  using assms by (intro np_put_nth) auto

lemma plan_rows_facts:
  assumes "legal_plan plan"
  shows "distinct (map nat (plan_rows plan))" "set (plan_rows plan) = set (up_sym_idx plan)"
    "\<forall>r\<in>set (plan_rows plan). 0 \<le> r \<and> nat r < length (up_sym_perm plan)"
proof -
  show set: "set (plan_rows plan) = set (up_sym_idx plan)" by (simp add: plan_rows_def)
  have range: "\<forall>s\<in>set (up_sym_idx plan). 0 \<le> s \<and> s < int (length (up_sym_perm plan))"
    using assms by (simp add: legal_plan_def)
  then show "\<forall>r\<in>set (plan_rows plan). 0 \<le> r \<and> nat r < length (up_sym_perm plan)" unfolding set by auto
  have "distinct (plan_rows plan)" by (simp add: plan_rows_def)
  then show "distinct (map nat (plan_rows plan))" using range unfolding distinct_map set by (auto intro!: inj_onI simp: eq_nat_nat_iff)
qed

definition batch_closed :: "unfold_plan \<Rightarrow> int list \<Rightarrow> bool" where
  "batch_closed plan mu \<longleftrightarrow> distinct (batch_members mu) \<and> (\<forall>m\<in>set (batch_members mu). m < up_packed plan) \<and>
     (\<forall>r\<in>set (plan_rows plan). \<forall>m\<in>set (batch_members mu).
        0 \<le> up_sym_perm plan ! nat r ! m \<and> nat (up_sym_perm plan ! nat r ! m) \<in> set (batch_members mu))"

definition tables_ok :: "unfold_plan \<Rightarrow> int list \<Rightarrow> int list list \<Rightarrow> wrap list list \<Rightarrow> bool" where
  "tables_ok plan mu lps lws \<longleftrightarrow> length lps = length (up_sym_perm plan) \<and> length lws = length (up_sym_perm plan) \<and>
     (\<forall>r<length (up_sym_perm plan). if int r \<in> set (up_sym_idx plan)
        then row_ok mu (up_sym_perm plan ! r) (up_wraps plan ! r) (lps ! r) (lws ! r)
        else lps ! r = replicate (length mu) (- 1))"

lemma batch_tables_closed:
  assumes "legal_plan plan" "batch_closed plan mu"
  shows "\<exists>lps lws. batch_tables plan (plan_rows plan) beta mu = Inr (lps, lws) \<and> tables_ok plan mu lps lws"
proof -
  let ?rows = "plan_rows plan" and ?n = "length (up_sym_perm plan)" and ?b = "length mu"
  note rows = plan_rows_facts [OF assms(1)]
  have closed: "distinct (batch_members mu)" "\<forall>m\<in>set (batch_members mu). m < up_packed plan"
    using assms(2) by (simp_all add: batch_closed_def)
  have each: "\<exists>out. batch_row plan beta mu r = Inr out \<and> row_ok mu (up_sym_perm plan ! nat r) (up_wraps plan ! nat r) (fst out) (snd out)"
    if "r \<in> set ?rows" for r
    using batch_row_closed [OF closed, of r beta] assms(2) that unfolding batch_closed_def by fastforce
  then obtain g where g: "\<And>r. r \<in> set ?rows \<Longrightarrow> batch_row plan beta mu r = Inr (g r) \<and>
      row_ok mu (up_sym_perm plan ! nat r) (up_wraps plan ! nat r) (fst (g r)) (snd (g r))" by metis
  let ?lps = "np_put (map nat ?rows) (map fst (map g ?rows)) (replicate ?n (replicate ?b (- 1)))"
  let ?lws = "np_put (map nat ?rows) (map snd (map g ?rows)) (replicate ?n (replicate ?b (0, 0, 0)))"
  have "first_hit (\<lambda>m. up_packed plan \<le> m) (batch_members mu) = None" using closed(2) by (auto simp: not_le)
  moreover have "mapE (batch_row plan beta mu) ?rows = Inr (map g ?rows)" using g by (intro mapE_total) blast
  ultimately have run: "batch_tables plan ?rows beta mu = Inr (?lps, ?lws)"
    unfolding batch_tables_def Let_def by (simp del: first_hit_None)
  have "row_ok mu (up_sym_perm plan ! r) (up_wraps plan ! r) (?lps ! r) (?lws ! r)" if r: "r < ?n" "int r \<in> set (up_sym_idx plan)" for r
  proof -
    obtain k where k: "k < length ?rows" "?rows ! k = int r" using r(2) rows(2) by (metis in_set_conv_nth)
    have put: "np_put (map nat ?rows) (map h ?rows) (replicate ?n z) ! (map nat ?rows ! k) = map h ?rows ! k" for h :: "int \<Rightarrow> 'z" and z
      by (rule np_put_rows) (use k(1) rows(1,3) in auto)
    have "?lps ! (map nat ?rows ! k) = map fst (map g ?rows) ! k" "?lws ! (map nat ?rows ! k) = map snd (map g ?rows) ! k"
      using put [of "\<lambda>r. fst (g r)"] put [of "\<lambda>r. snd (g r)"] by (simp_all add: comp_def)
    then have "?lps ! r = fst (g (int r))" "?lws ! r = snd (g (int r))" using k by simp_all
    then show ?thesis using g [of "int r"] r(2) rows(2) by simp
  qed
  moreover have "?lps ! r = replicate ?b (- 1)" if r: "r < ?n" "int r \<notin> set (up_sym_idx plan)" for r
  proof -
    have "r \<notin> set (map nat ?rows)" using r(2) rows(2,3) by auto
    then show ?thesis using r(1) by (simp add: np_put_other)
  qed
  ultimately have "tables_ok plan mu ?lps ?lws" by (simp add: tables_ok_def)
  then show ?thesis using run by blast
qed

lemma mu_batch_tables_closed:
  assumes "legal_plan plan" "\<forall>mu\<in>set mus. batch_closed plan mu"
    and "\<forall>m<up_packed plan. times_seen mus m = (if up_active plan ! m then 1 else 0)"
  shows "\<exists>lps lws. mu_batch_tables plan mus = Inr (lps, lws, plan_rows plan) \<and> length lps = length mus \<and> length lws = length mus \<and>
    (\<forall>beta<length mus. tables_ok plan (mus ! beta) (lps ! beta) (lws ! beta))"
proof -
  have each: "\<exists>out. batch_tables plan (plan_rows plan) beta mu = Inr out \<and> tables_ok plan mu (fst out) (snd out)" if "mu \<in> set mus" for beta mu
    using batch_tables_closed [OF assms(1), of mu beta] assms(2) that by force
  define g where "g beta mu = projr (batch_tables plan (plan_rows plan) beta mu)" for beta mu
  have g: "batch_tables plan (plan_rows plan) beta mu = Inr (g beta mu) \<and> tables_ok plan mu (fst (g beta mu)) (snd (g beta mu))"
    if "mu \<in> set mus" for beta mu
    using each [OF that, of beta] by (auto simp: g_def)
  let ?out = "map (\<lambda>(beta, mu). g beta mu) (enumerate 0 mus)"
  have "mapE (\<lambda>(beta, mu). batch_tables plan (plan_rows plan) beta mu) (enumerate 0 mus) = Inr ?out"
    using g by (intro mapE_total) (auto simp: in_set_enumerate_eq)
  moreover have "\<not> (\<exists>r\<in>set (plan_rows plan). \<exists>m\<in>set (up_sym_perm plan ! nat r). m < 0)"
  proof -
    have "set (up_sym_perm plan ! nat r) = {0..<int (up_packed plan)}" if "r \<in> set (plan_rows plan)" for r
      using assms(1) that perm_row [of "up_packed plan" "plan_table plan" "up_sym_perm plan ! nat r"] by (auto simp: legal_plan_def)
    then show ?thesis by auto
  qed
  moreover have "\<not> (\<exists>m<up_packed plan. times_seen mus m \<noteq> (if up_active plan ! m then 1 else 0))" using assms(3) by blast
  ultimately have "mu_batch_tables plan mus = Inr (map fst ?out, map snd ?out, plan_rows plan)"
    unfolding mu_batch_tables_def Let_def by (simp only: if_False andthen_simps)
  moreover have "tables_ok plan (mus ! beta) (map fst ?out ! beta) (map snd ?out ! beta)" if "beta < length mus" for beta
    using g [of "mus ! beta" beta] that by (simp add: nth_enumerate_eq)
  ultimately show ?thesis by (intro exI [of _ "map fst ?out"] exI [of _ "map snd ?out"]) simp
qed

section \<open>The batches\<close>

lemma class_nth:
  assumes "g < length (key_classes f xs)"
  shows "\<exists>k. key_classes f xs ! g = filter (\<lambda>x. f x = k) xs \<and> k \<in> f ` set xs"
proof -
  have "sort (remdups (map f xs)) ! g \<in> set (sort (remdups (map f xs)))" using assms unfolding key_classes_def by (intro nth_mem) simp
  then show ?thesis using assms by (auto simp: key_classes_def)
qed

lemma class_of:
  assumes "x \<in> set xs"
  shows "\<exists>!g. g < length (key_classes f xs) \<and> x \<in> set (key_classes f xs ! g)"
proof -
  let ?u = "sort (remdups (map f xs))"
  have at: "g < length (key_classes f xs) \<and> x \<in> set (key_classes f xs ! g) \<longleftrightarrow> g < length ?u \<and> ?u ! g = f x" for g
    using assms by (auto simp: key_classes_def)
  have "f x \<in> set ?u" using assms by simp
  then obtain g where g: "g < length ?u" "?u ! g = f x" by (meson in_set_conv_nth)
  have "distinct ?u" by simp
  then show ?thesis unfolding at using g by (metis nth_eq_iff_index_eq)
qed

lemma class_same:
  assumes "g < length (key_classes f xs)" "x \<in> set (key_classes f xs ! g)" "y \<in> set xs" "f y = f x"
  shows "y \<in> set (key_classes f xs ! g)"
  using class_nth [OF assms(1)] assms(2-) by auto

lemma concat_apart:
  "distinct (concat ms) \<Longrightarrow> g < length ms \<Longrightarrow> h < length ms \<Longrightarrow> x \<in> set (ms ! g) \<Longrightarrow> x \<in> set (ms ! h) \<Longrightarrow> g = h"
proof (induction ms arbitrary: g h)
  case (Cons m ms)
  have "x \<in> set (concat ms)" if "x \<in> set (ms ! i)" "i < length ms" for i using that by auto
  then show ?case using Cons by (cases g; cases h) auto
qed simp

lemma concat_picked:
  assumes "distinct (concat ms)" "distinct gs" "\<forall>g\<in>set gs. g < length ms"
  shows "distinct (concat (map ((!) ms) gs))"
  using assms(2,3)
proof (induction gs)
  case (Cons g gs)
  have "x \<notin> set (ms ! h)" if "h \<in> set gs" "x \<in> set (ms ! g)" for h x
    using concat_apart [OF assms(1), of g h x] that Cons.prems by auto
  then have "set (ms ! g) \<inter> set (concat (map ((!) ms) gs)) = {}" by auto
  moreover have "distinct (ms ! g)" using assms(1) Cons.prems by (simp add: distinct_concat_iff)
  ultimately show ?case using Cons by (simp only: list.map concat.simps distinct_append) simp
qed simp

lemma classes_distinct: "distinct xs \<Longrightarrow> distinct (concat (key_classes f xs))"
  using sort_key_classes_of [of f xs] by (metis distinct_sort)

lemma batch_mem_facts:
  assumes "distinct (concat ms)" "length owner = length ms"
  shows "set (batch_mem ms owner beta) = {m. \<exists>g<length owner. owner ! g = beta \<and> m \<in> set (ms ! g)}"
    "distinct (batch_mem ms owner beta)"
    "int (length (batch_mem ms owner beta)) = (\<Sum>g\<leftarrow>filter (\<lambda>g. owner ! g = beta) [0..<length owner]. int (length (ms ! g)))"
proof -
  show "set (batch_mem ms owner beta) = {m. \<exists>g<length owner. owner ! g = beta \<and> m \<in> set (ms ! g)}"
    by (auto simp: batch_mem_def)
  show "distinct (batch_mem ms owner beta)" unfolding batch_mem_def distinct_sort
    using concat_picked [OF assms(1)] assms(2) by simp
  have "int (length (concat (map (\<lambda>g. zs ! g) gs))) = (\<Sum>g\<leftarrow>gs. int (length (zs ! g)))" for zs :: "'z list list" and gs
    by (induction gs) simp_all
  then show "int (length (batch_mem ms owner beta)) = (\<Sum>g\<leftarrow>filter (\<lambda>g. owner ! g = beta) [0..<length owner]. int (length (ms ! g)))"
    by (simp add: batch_mem_def)
qed

lemma linked_image:
  assumes "legal_plan plan" "r \<in> set (plan_rows plan)" "m < up_packed plan"
  defines "s \<equiv> up_sym_perm plan ! nat r ! m"
  shows "0 \<le> s" "nat s < up_packed plan" "(m, nat s) \<in> linked (plan_table plan)"
proof -
  have row: "up_sym_perm plan ! nat r \<in> set (plan_table plan)" using assms(2) by simp
  have t: "perm_table (up_packed plan) (plan_table plan)" using assms(1) by (simp add: legal_plan_def)
  note p = perm_row [OF t row]
  have "s \<in> set (up_sym_perm plan ! nat r)" unfolding s_def using p assms(3) by (metis nth_mem)
  then show "0 \<le> s" "nat s < up_packed plan" using p by auto
  have "(m, nat s) \<in> moves (plan_table plan)" unfolding moves_def s_def using row p assms(3)
    by (intro CollectI exI [of _ m] exI [of _ "up_sym_perm plan ! nat r"]) simp
  then show "(m, nat s) \<in> linked (plan_table plan)" unfolding linked_def by (intro r_into_rtrancl) simp
qed

text \<open>The orbits of a plan: disjoint, not empty, together the active centroids, each closed under the selected rows.\<close>

definition plan_groups :: "unfold_plan \<Rightarrow> nat list list" where
  "plan_groups plan = key_classes (\<lambda>i. int (started_before (up_packed plan) (plan_table plan) i)) (np_flatnonzero (up_active plan))"

lemma plan_orbits:
  assumes "legal_plan plan"
  shows "distinct (concat (plan_groups plan))"
    "g < length (plan_groups plan) \<Longrightarrow> m \<in> set (plan_groups plan ! g) \<Longrightarrow> m < up_packed plan \<and> up_active plan ! m"
    "m < up_packed plan \<Longrightarrow> up_active plan ! m \<Longrightarrow> \<exists>g<length (plan_groups plan). m \<in> set (plan_groups plan ! g)"
    "g < length (plan_groups plan) \<Longrightarrow> m \<in> set (plan_groups plan ! g) \<Longrightarrow> r \<in> set (plan_rows plan) \<Longrightarrow>
       0 \<le> up_sym_perm plan ! nat r ! m \<and> nat (up_sym_perm plan ! nat r ! m) \<in> set (plan_groups plan ! g)"
    "g < length (plan_groups plan) \<Longrightarrow> plan_groups plan ! g \<noteq> []"
proof -
  let ?act = "np_flatnonzero (up_active plan)"
  define label where "label i = int (started_before (up_packed plan) (plan_table plan) i)" for i
  have groups: "plan_groups plan = key_classes label ?act" by (simp add: plan_groups_def label_def [abs_def])
  have len: "length (up_active plan) = up_packed plan" using assms by (simp add: legal_plan_def)
  have act: "set ?act = {i. i < up_packed plan \<and> up_active plan ! i}" "distinct ?act"
    using len by (auto simp: np_flatnonzero_def)
  have cls: "\<exists>k. plan_groups plan ! g = filter (\<lambda>x. label x = k) ?act \<and> k \<in> label ` set ?act" if "g < length (plan_groups plan)" for g
    using class_nth that unfolding groups by blast
  show "distinct (concat (plan_groups plan))" unfolding groups by (rule classes_distinct [OF act(2)])
  show inside: "m < up_packed plan \<and> up_active plan ! m" if "g < length (plan_groups plan)" "m \<in> set (plan_groups plan ! g)" for g m
  proof -
    from cls [OF that(1)] obtain k where k: "plan_groups plan ! g = filter (\<lambda>x. label x = k) ?act" by blast
    have "m \<in> set ?act" using that(2) unfolding k by simp
    then show ?thesis using act(1) by simp
  qed
  show "\<exists>g<length (plan_groups plan). m \<in> set (plan_groups plan ! g)" if "m < up_packed plan" "up_active plan ! m"
    using class_of [of m ?act label] that act(1) unfolding groups by blast
  show "plan_groups plan ! g \<noteq> []" if "g < length (plan_groups plan)"
  proof -
    from cls [OF that] obtain k where k: "plan_groups plan ! g = filter (\<lambda>x. label x = k) ?act" "k \<in> label ` set ?act" by blast
    then show ?thesis unfolding k(1) filter_empty_conv by blast
  qed
  have n: "1 \<le> up_packed plan" and t: "perm_table (up_packed plan) (plan_table plan)"
    and stay: "\<forall>s\<in>set (up_sym_idx plan). \<forall>m<up_packed plan. up_active plan ! m \<longrightarrow> up_active plan ! nat (up_sym_perm plan ! nat s ! m)"
    using assms unfolding legal_plan_def by blast+
  show "0 \<le> up_sym_perm plan ! nat r ! m \<and> nat (up_sym_perm plan ! nat r ! m) \<in> set (plan_groups plan ! g)"
    if g: "g < length (plan_groups plan)" "m \<in> set (plan_groups plan ! g)" and r: "r \<in> set (plan_rows plan)"
  proof -
    note ma = inside [OF g]
    note s = linked_image [OF assms r conjunct1 [OF ma]]
    have "r \<in> set (up_sym_idx plan)" using r plan_rows_facts(2) [OF assms] by simp
    then have "nat (up_sym_perm plan ! nat r ! m) \<in> set ?act" using stay ma s(2) act(1) by simp
    moreover have "label (nat (up_sym_perm plan ! nat r ! m)) = label m"
      using started_before_eq [OF n t conjunct1 [OF ma] s(2)] s(3) by (simp add: label_def)
    ultimately show ?thesis using class_same [of g label ?act m] g s(1) by (simp add: groups)
  qed
qed

text \<open>Any placement of the orbits: the batches are closed, and hold each active centroid once.\<close>

lemma placed_batches:
  assumes "legal_plan plan" "length owner = length (plan_groups plan)" "\<forall>g<length (plan_groups plan). owner ! g < k"
    and "\<And>beta. beta < k \<Longrightarrow> batch_members (mu beta) = batch_mem (plan_groups plan) owner beta"
  shows "\<forall>beta<k. batch_closed plan (mu beta)"
    "\<forall>m<up_packed plan. times_seen (map mu [0..<k]) m = (if up_active plan ! m then 1 else 0)"
proof -
  let ?groups = "plan_groups plan"
  note orbits = plan_orbits [OF assms(1)]
  note mem = batch_mem_facts [OF orbits(1) assms(2)]
  show "\<forall>beta<k. batch_closed plan (mu beta)"
  proof (intro allI impI)
    fix beta assume beta: "beta < k"
    have "0 \<le> up_sym_perm plan ! nat r ! m \<and> nat (up_sym_perm plan ! nat r ! m) \<in> set (batch_mem ?groups owner beta)"
      if r: "r \<in> set (plan_rows plan)" and m: "m \<in> set (batch_mem ?groups owner beta)" for r m
    proof -
      obtain g where g: "g < length owner" "owner ! g = beta" "m \<in> set (?groups ! g)" using m mem(1) by auto
      then show ?thesis using orbits(4) [of g m r] r assms(2) mem(1) by auto
    qed
    moreover have "\<forall>m\<in>set (batch_mem ?groups owner beta). m < up_packed plan"
      using mem(1) orbits(2) assms(2) by fastforce
    ultimately show "batch_closed plan (mu beta)" using mem(2) beta assms(4) by (simp add: batch_closed_def)
  qed
  show "\<forall>m<up_packed plan. times_seen (map mu [0..<k]) m = (if up_active plan ! m then 1 else 0)"
  proof (intro allI impI)
    fix m assume m: "m < up_packed plan"
    have seen: "times_seen (map mu [0..<k]) m = card {beta. beta < k \<and> m \<in> set (batch_mem ?groups owner beta)}"
      unfolding times_seen_def length_filter_conv_card using assms(4) by (intro arg_cong [of _ _ card]) auto
    show "times_seen (map mu [0..<k]) m = (if up_active plan ! m then 1 else 0)"
    proof (cases "up_active plan ! m")
      case True
      then obtain g where g: "g < length ?groups" "m \<in> set (?groups ! g)" using orbits(3) m by blast
      have "beta < k \<and> m \<in> set (batch_mem ?groups owner beta) \<longleftrightarrow> beta = owner ! g" for beta
      proof
        assume "beta < k \<and> m \<in> set (batch_mem ?groups owner beta)"
        then obtain h where "h < length owner" "owner ! h = beta" "m \<in> set (?groups ! h)" unfolding mem(1) by blast
        then show "beta = owner ! g" using concat_apart [OF orbits(1), of g h m] g assms(2) by auto
      next
        assume "beta = owner ! g"
        then show "beta < k \<and> m \<in> set (batch_mem ?groups owner beta)" unfolding mem(1) using g assms(2,3) by auto
      qed
      then have "{beta. beta < k \<and> m \<in> set (batch_mem ?groups owner beta)} = {owner ! g}" by simp
      then show ?thesis using True by (simp add: seen)
    next
      case False
      then have "{beta. beta < k \<and> m \<in> set (batch_mem ?groups owner beta)} = {}"
        using orbits(2) assms(2) unfolding mem(1) by auto
      then show ?thesis using False by (simp add: seen)
    qed
  qed
qed

text \<open>A batch as dealt: each rank's block holds its share of the members in packed order, pads trailing.\<close>

definition dealt :: "nat \<Rightarrow> int list \<Rightarrow> bool" where
  "dealt ranks mu \<longleftrightarrow> (\<exists>parts c. length parts = ranks \<and> sorted (concat parts) \<and>
     (\<forall>p<ranks. length (parts ! p) \<le> c \<and>
        length (parts ! p) = length (concat parts) div ranks + (if p < length (concat parts) mod ranks then 1 else 0)) \<and>
     mu = concat (map (\<lambda>xs. map int xs @ replicate (c - length xs) (- 1)) parts))"

lemma deal_row_dealt:
  assumes "0 < ranks" "length mem \<le> ranks * c" "sorted mem"
  shows "dealt ranks (deal_row mem ranks c)"
proof -
  obtain parts where parts: "length parts = ranks" "concat parts = mem"
      "\<forall>p<ranks. length (parts ! p) = length mem div ranks + (if p < length mem mod ranks then 1 else 0) \<and> length (parts ! p) \<le> c"
      "deal_row mem ranks c = concat (map (\<lambda>xs. map int xs @ replicate (c - length xs) (- 1)) parts)"
    using deal_row_blocks [OF assms(1,2)] by blast
  then have "\<forall>p<ranks. length (parts ! p) \<le> c \<and>
      length (parts ! p) = length (concat parts) div ranks + (if p < length (concat parts) mod ranks then 1 else 0)" by blast
  then show ?thesis unfolding dealt_def using parts(1,2,4) assms(3) by blast
qed

lemma orbit_packing_order: "distinct (orbit_packing members sizes)" "set (orbit_packing members sizes) = {0..<length members}"
  by (simp_all add: orbit_packing_def)

lemma plan_sizes:
  assumes "legal_plan plan" "\<exists>m<up_packed plan. up_active plan ! m"
  defines "sizes \<equiv> map (\<lambda>xs. int (length xs)) (plan_groups plan)"
  shows "unfold_orbits plan = Some (Inr (plan_groups plan, sizes))" "plan_groups plan \<noteq> []" "\<forall>z\<in>set sizes. 0 < z"
proof -
  show "unfold_orbits plan = Some (Inr (plan_groups plan, sizes))"
    using unfold_orbits_run [OF assms(1,2)] by (simp add: plan_groups_def sizes_def)
  show "plan_groups plan \<noteq> []" using plan_orbits(3) [OF assms(1)] assms(2) by auto
  show "\<forall>z\<in>set sizes. 0 < z"
    using plan_orbits(5) [OF assms(1)] by (auto simp: sizes_def in_set_conv_nth)
qed

text \<open>Orbits packed into batches: no batch is empty, and its members fit the width.\<close>

lemma batch_loads:
  assumes "bins_ok (map (\<lambda>xs. int (length xs)) ms) ranks owner loads b" "distinct (concat ms)" "beta < length loads"
  shows "\<exists>g<length ms. owner ! g = beta" "int (length (batch_mem ms owner beta)) \<le> b"
proof -
  let ?sizes = "map (\<lambda>xs. int (length xs)) ms"
  have own: "length owner = length ms" using assms(1) by (simp add: bins_ok_def)
  show "\<exists>g<length ms. owner ! g = beta" using assms by (simp add: bins_ok_def)
  have "(\<Sum>g\<leftarrow>filter (\<lambda>g. owner ! g = beta) [0..<length owner]. int (length (ms ! g))) =
      (\<Sum>g\<leftarrow>filter (\<lambda>g. owner ! g = beta) [0..<length ?sizes]. ?sizes ! g)"
    using own by (intro arg_cong [of _ _ sum_list] map_cong) auto
  moreover have "loads ! beta = (\<Sum>g\<leftarrow>filter (\<lambda>g. owner ! g = beta) [0..<length ?sizes]. ?sizes ! g)" "loads ! beta \<le> b"
    using assms unfolding bins_ok_def by blast+
  ultimately show "int (length (batch_mem ms owner beta)) \<le> b" using batch_mem_facts(3) [OF assms(2) own] by simp
qed

lemma packed_orbits:
  assumes "1 \<le> ranks" "ms \<noteq> []" "\<forall>xs\<in>set ms. xs \<noteq> []"
  defines "sizes \<equiv> map (\<lambda>xs. int (length xs)) ms"
  shows "\<exists>owner loads b. partition_orbit_bins sizes (orbit_packing ms sizes) ranks b_target = Some (Some (owner, loads, b)) \<and>
    bins_ok sizes ranks owner loads b"
proof -
  have order: "set (orbit_packing ms sizes) = {0..<length sizes}" using orbit_packing_order(2) by (simp add: sizes_def)
  have "sizes \<noteq> []" "\<forall>z\<in>set sizes. 0 < z" using assms(2,3) by (auto simp: sizes_def)
  from partition_found [OF assms(1) this orbit_packing_order(1) order, of b_target] show ?thesis by blast
qed

text \<open>Where a packed centroid sits in the flattened batches, and back.\<close>

lemma packed_to_slot_inverts:
  assumes "distinct (batch_members (concat mus))" "\<forall>m\<in>set (batch_members (concat mus)). m < mu_pad"
  shows "i < length (concat mus) \<Longrightarrow> 0 \<le> concat mus ! i \<Longrightarrow> packed_to_slot mus mu_pad ! nat (concat mus ! i) = int i"
    "m < mu_pad \<Longrightarrow> int m \<notin> set (concat mus) \<Longrightarrow> packed_to_slot mus mu_pad ! m = - 1"
    "length (packed_to_slot mus mu_pad) = mu_pad"
proof -
  let ?flat = "concat mus"
  have run: "packed_to_slot mus mu_pad = np_put (batch_members ?flat) (map int (batch_slots ?flat)) (replicate mu_pad (- 1))"
    by (simp add: packed_to_slot_def batch_members_def batch_slots_def Let_def)
  note sl = batch_slots_members [where mu = ?flat]
  show "packed_to_slot mus mu_pad ! nat (?flat ! i) = int i" if "i < length ?flat" "0 \<le> ?flat ! i"
  proof -
    have "i \<in> set (batch_slots ?flat)" using that sl(3) by simp
    then obtain k where k: "k < length (batch_slots ?flat)" "batch_slots ?flat ! k = i" by (meson in_set_conv_nth)
    have "nat (?flat ! i) = batch_members ?flat ! k" using sl(4) [OF k(1)] k(2) by simp
    then show ?thesis using k sl(1) assms np_put_nth [of "batch_members ?flat" k "map int (batch_slots ?flat)" "replicate mu_pad (- 1)"]
      unfolding run by simp
  qed
  show "packed_to_slot mus mu_pad ! m = - 1" if "m < mu_pad" "int m \<notin> set ?flat"
  proof -
    have "m \<notin> set (batch_members ?flat)" using that(2) by (auto simp: batch_members_filter)
    then show ?thesis using that(1) unfolding run by (simp add: np_put_other)
  qed
  show "length (packed_to_slot mus mu_pad) = mu_pad" by (simp add: run)
qed

text \<open>The stages composed: labels, packing, dealing and tables.\<close>

lemma orbit_mu_batches_run:
  assumes "legal_plan plan" "\<exists>m<up_packed plan. up_active plan ! m" "1 \<le> ranks" "1 \<le> b_target"
  shows "\<exists>mus lps lws b. orbit_mu_batches plan (int (up_packed plan)) ranks b_target = Some (Inr (mus, lps, lws, plan_rows plan)) \<and>
    mus \<noteq> [] \<and> ranks dvd int b \<and>
    (\<forall>mu\<in>set mus. length mu = b \<and> dealt (nat ranks) mu \<and> batch_members mu \<noteq> [] \<and> batch_closed plan mu) \<and>
    (\<forall>m<up_packed plan. times_seen mus m = (if up_active plan ! m then 1 else 0)) \<and>
    length lps = length mus \<and> length lws = length mus \<and>
    (\<forall>beta<length mus. tables_ok plan (mus ! beta) (lps ! beta) (lws ! beta))"
proof -
  let ?groups = "plan_groups plan"
  let ?sizes = "map (\<lambda>xs. int (length xs)) ?groups"
  note sizes = plan_sizes [OF assms(1,2)] and orbits = plan_orbits [OF assms(1)]
  have "\<forall>xs\<in>set ?groups. xs \<noteq> []" using orbits(5) by (auto simp: in_set_conv_nth)
  from packed_orbits [OF assms(3) sizes(2) this, of b_target]
  obtain owner loads b where p: "partition_orbit_bins ?sizes (orbit_packing ?groups ?sizes) ranks b_target = Some (Some (owner, loads, b))"
      "bins_ok ?sizes ranks owner loads b" by blast
  let ?k = "length loads" and ?mem = "batch_mem ?groups owner" and ?c = "nat (b div ranks)"
  let ?mu = "\<lambda>beta. deal_row (?mem beta) (nat ranks) ?c" and ?mus = "map (\<lambda>beta. deal_row (batch_mem (plan_groups plan) owner beta) (nat ranks) (nat (b div ranks))) [0..<length loads]"
  have own: "length owner = length ?groups" "\<forall>g<length ?groups. owner ! g < ?k" and ld: "loads \<noteq> []" "ranks dvd b"
    using p(2) by (simp_all add: bins_ok_def)
  note busy = batch_loads [OF p(2) orbits(1)]
  have b: "0 \<le> b" using busy(2) [of 0] ld(1) by (cases loads) auto
  then have width: "nat ranks * ?c = nat b" using ld(2) assms(3) by (metis dvd_mult_div_cancel nat_mult_distrib zero_le_one order_trans)
  have fit: "0 < nat ranks" "length (?mem beta) \<le> nat ranks * ?c" if "beta < ?k" for beta
    using busy(2) [OF that] assms(3) by (simp_all add: width nat_le_iff le_nat_iff)
  note deal = deal_row_facts [OF fit] and placed = placed_batches [OF assms(1) own]
  have closed: "\<forall>beta<?k. batch_closed plan (?mu beta)"
    and seen: "\<forall>m<up_packed plan. times_seen ?mus m = (if up_active plan ! m then 1 else 0)"
    using placed [of ?mu] deal(2) by simp_all
  obtain lps lws where t: "mu_batch_tables plan ?mus = Inr (lps, lws, plan_rows plan)" "length lps = ?k" "length lws = ?k"
      "\<forall>beta<?k. tables_ok plan (?mus ! beta) (lps ! beta) (lws ! beta)"
    using mu_batch_tables_closed [OF assms(1) _ seen] closed by auto
  have "first_hit (\<lambda>beta. beta \<notin> set owner) [0..<?k] = None"
    using busy(1) own(1) by (auto simp: in_set_conv_nth)
  then have run: "orbit_mu_batches plan (int (up_packed plan)) ranks b_target = Some (Inr (?mus, lps, lws, plan_rows plan))"
    using assms(3,4) sizes(1) p(1) t(1) unfolding orbit_mu_batches_def by (simp del: first_hit_None)
  have "length (?mu beta) = nat b \<and> dealt (nat ranks) (?mu beta) \<and> batch_members (?mu beta) \<noteq> [] \<and> batch_closed plan (?mu beta)"
    if beta: "beta < ?k" for beta
  proof -
    obtain g where g: "g < length ?groups" "owner ! g = beta" using busy(1) [OF beta] by blast
    have "set (?groups ! g) \<subseteq> set (?mem beta)" using g own(1) by (auto simp: batch_mem_def)
    then have "?mem beta \<noteq> []" using orbits(5) [OF g(1)] by (cases "?groups ! g") auto
    then show ?thesis using deal(1,2) [OF beta beta] closed beta width fit [OF beta] by (simp add: deal_row_dealt batch_mem_def)
  qed
  then have "\<forall>mu\<in>set ?mus. length mu = nat b \<and> dealt (nat ranks) mu \<and> batch_members mu \<noteq> [] \<and> batch_closed plan mu" by auto
  then show ?thesis using run ld b seen t(2-4)
    by (intro exI [of _ ?mus] exI [of _ lps] exI [of _ lws] exI [of _ "nat b"]) simp
qed

section \<open>Properties\<close>

text \<open>
  C10: the search for the batches returns. For positive orbit sizes placed in any order it finds an assignment of every
  orbit to one batch: the loads are the sums of their orbits, no batch is empty, the width is a multiple of the ranks
  that holds every load, stays under the cap and is less than one rank's round above the largest load; with fewer
  batches the same attempt fails.
\<close>

theorem partition_bins_exact:
  assumes "1 \<le> ranks" "sizes \<noteq> []" "\<forall>z\<in>set sizes. 0 < z" "distinct gs" "set gs = {0..<length sizes}"
  shows "\<exists>owner loads b. partition_orbit_bins sizes gs ranks b_target = Some (Some (owner, loads, b)) \<and>
    bins_ok sizes ranks owner loads b \<and> b \<le> batch_cap sizes ranks b_target \<and> b < Max (set loads) + ranks \<and>
    (\<forall>n. 0 < n \<and> n < length loads \<longrightarrow> bin_attempt sizes gs (batch_cap sizes ranks b_target) n = None)"
proof -
  note cap = batch_cap_props [OF assms(1-3), of b_target]
  have "bin_attempt sizes gs (batch_cap sizes ranks b_target) n = None" if "0 < n" "\<not> bins_fit sizes gs (batch_cap sizes ranks b_target) n" for n
    using bin_attempt_lpt [of n gs sizes "batch_cap sizes ranks b_target"] that assms(3-5) cap(3)
    unfolding bin_attempt_def bins_fit_def lpt_order_def by auto
  then show ?thesis using partition_found [OF assms, of b_target] by blast
qed

text \<open>
  C7: the whole-orbit batches of a legal plan with an active centroid. The composition of orbit labels, packing, dealing and
  tables never refuses and returns: every batch has the same width, a multiple of the ranks, and is dealt to the ranks
  in packed order with shares that differ by at most one; every active centroid sits in exactly one slot and no pad does; and for
  each selected action row the local table points each filled slot at the slot of its source in the same batch, with
  that centroid's wrap, each pad at itself, while rows not selected stay at minus one.
\<close>

theorem orbit_mu_batches_exact:
  assumes "legal_plan plan" "\<exists>m<up_packed plan. up_active plan ! m" "1 \<le> ranks" "1 \<le> b_target"
  shows "\<exists>mus lps lws b. orbit_mu_batches plan (int (up_packed plan)) ranks b_target = Some (Inr (mus, lps, lws, plan_rows plan)) \<and>
    mus \<noteq> [] \<and> ranks dvd int b \<and>
    (\<forall>mu\<in>set mus. length mu = b \<and> dealt (nat ranks) mu \<and> batch_members mu \<noteq> [] \<and> batch_closed plan mu) \<and>
    (\<forall>m<up_packed plan. times_seen mus m = (if up_active plan ! m then 1 else 0)) \<and>
    length lps = length mus \<and> length lws = length mus \<and>
    (\<forall>beta<length mus. tables_ok plan (mus ! beta) (lps ! beta) (lws ! beta))"
  by (rule orbit_mu_batches_run [OF assms])


definition sample_plan :: unfold_plan where
  "sample_plan = \<lparr>up_sym_idx = [1, 0, 1], up_sym_perm = [[0, 1, 2, 3, 4, 5], [1, 0, 3, 2, 4, 5], [- 1, - 1, - 1, - 1, - 1, - 1]],
     up_wraps = [replicate 6 (0, 0, 0), [(1, 0, 0), (- 1, 0, 0), (0, 0, 0), (0, 0, 0), (0, 1, 0), (0, 0, 0)], replicate 6 (0, 0, 0)],
     up_active = [True, True, True, True, True, False], up_packed = 6\<rparr>"

lemma sample_plan_legal: "legal_plan sample_plan" "\<exists>m<up_packed sample_plan. up_active sample_plan ! m"
proof -
  have rows: "plan_rows sample_plan = [0, 1]" by code_simp
  have m: "m < 6 \<longleftrightarrow> m \<in> {0, 1, 2, 3, 4, 5}" for m :: nat by auto
  have "{0..<6 :: int} = {0, 1, 2, 3, 4, 5}" by auto
  then show "legal_plan sample_plan" unfolding legal_plan_def perm_table_def rows by (auto simp: sample_plan_def m)
  show "\<exists>m<up_packed sample_plan. up_active sample_plan ! m" by (intro exI [of _ 0]) (simp add: sample_plan_def)
qed

theorem partition_bins_exact_witness:
  "\<exists>owner loads b. partition_orbit_bins [2, 2, 1] [0, 1, 2] 2 3 = Some (Some (owner, loads, b)) \<and>
    bins_ok [2, 2, 1] 2 owner loads b \<and> b \<le> 2 \<and> b < Max (set loads) + 2"
proof -
  have cap: "batch_cap [2, 2, 1] 2 3 = 2" by (simp add: batch_cap_def round_ranks_def)
  have order: "set [0, 1, 2] = {0..<length [2 :: int, 2, 1]}" by auto
  show ?thesis using partition_bins_exact [of 2 "[2, 2, 1]" "[0, 1, 2]" 3, OF _ _ _ _ order] unfolding cap by fastforce
qed

theorem orbit_mu_batches_exact_witness:
  "\<exists>mus lps lws b. orbit_mu_batches sample_plan 6 2 3 = Some (Inr (mus, lps, lws, [0, 1])) \<and>
    mus \<noteq> [] \<and> 2 dvd int b \<and> (\<forall>m<5. times_seen mus m = 1) \<and> times_seen mus 5 = 0 \<and>
    (\<forall>beta<length mus. tables_ok sample_plan (mus ! beta) (lps ! beta) (lws ! beta))"
proof -
  have rows: "plan_rows sample_plan = [0, 1]" by code_simp
  have packed: "up_packed sample_plan = 6" by (simp add: sample_plan_def)
  have "\<forall>m<5. up_active sample_plan ! m" by (auto simp: sample_plan_def less_Suc_eq numeral_eq_Suc)
  moreover have "\<not> up_active sample_plan ! 5" by (simp add: sample_plan_def)
  ultimately show ?thesis
    using orbit_mu_batches_exact [OF sample_plan_legal, of 2 3] unfolding rows packed by fastforce
qed

end
