(* ===== verification/OrbitColumns.thy ===== *)
theory OrbitColumns
  imports OrbitBatches
begin

text \<open>
  \<open>_cct_column_bins\<close> and \<open>widest_unfold_orbit\<close> of \<open>src/gw/centroid_k_unfold.py\<close>: the orbits of each Y owner packed
  into column tiles, all tiles padded to one width; an orbit that spans two owners is refused.
\<close>

section \<open>The code\<close>

datatype column_bin_error =
    ColumnLabels label_error
  | NoColumns
  | EmptyOrbit
  | CrossesOwner nat
  | NoMembers

definition widest_unfold_orbit :: "unfold_plan \<Rightarrow> (label_error, int) result option" where
  "widest_unfold_orbit plan =
     Option.bind (unfold_orbits plan) (\<lambda>res. Some (andthen res (\<lambda>(_, sizes). Inr (if sizes = [] then 1 else Max (set sizes)))))"

text \<open>The tiles of one Y owner.\<close>

definition owner_tiles :: "nat list list \<Rightarrow> nat \<Rightarrow> int \<Rightarrow> nat \<Rightarrow> (column_bin_error, nat list list) result option" where
  "owner_tiles members extent width y =
     (let groups = filter (\<lambda>m. hd m div extent = y) members
      in if \<exists>m\<in>set groups. \<exists>x\<in>set m. x div extent \<noteq> y then Some (Inl (CrossesOwner y))
         else if groups = [] then Some (Inr [])
         else
           let sizes = map (\<lambda>m. int (length m)) groups
           in Option.bind (partition_orbit_bins sizes (orbit_packing groups sizes) 1 width) (\<lambda>packed. case packed of
                None \<Rightarrow> Some (Inl NoMembers)
              | Some (owner, loads, _) \<Rightarrow> Some (Inr (map (batch_mem groups owner) [0..<length loads]))))"

fun all_owners :: "(nat \<Rightarrow> (column_bin_error, nat list list) result option) \<Rightarrow> nat list \<Rightarrow> (column_bin_error, nat list list list) result option" where
  "all_owners f [] = Some (Inr [])"
| "all_owners f (y # ys) =
     Option.bind (f y) (\<lambda>res. case res of
       Inl e \<Rightarrow> Some (Inl e)
     | Inr tiles \<Rightarrow> Option.bind (all_owners f ys) (\<lambda>rest. Some (andthen rest (\<lambda>ts. Inr (tiles # ts)))))"

text \<open>The array of all tiles: tile, owner, slot.\<close>

definition tile_array :: "nat list list list \<Rightarrow> int list list list" where
  "tile_array bins =
     (let n_tile = Max (set (map length bins)); width = Max (length ` set (concat bins))
      in map (\<lambda>b. map (\<lambda>by_owner. np_set_slice 0 (if b < length by_owner then map int (by_owner ! b) else []) (replicate width (- 1))) bins)
           [0..<n_tile])"

definition cct_column_bins :: "unfold_plan \<Rightarrow> nat \<Rightarrow> int \<Rightarrow> (column_bin_error, int list list list) result option" where
  "cct_column_bins plan py width =
     (if py = 0 then Some (Inl NoColumns)
      else Option.bind (unfold_orbits plan) (\<lambda>orbits. case orbits of
        Inl e \<Rightarrow> Some (Inl (ColumnLabels e))
      | Inr (members, _) \<Rightarrow>
          let extent = up_packed plan div py
          in if extent = 0 then Some (Inl NoColumns)
             else if [] \<in> set members then Some (Inl EmptyOrbit)
             else Option.bind (all_owners (owner_tiles members extent width) [0..<py]) (\<lambda>res. Some (andthen res (\<lambda>bins.
               if concat bins = [] then Inl NoMembers else Inr (tile_array bins))))))"

section \<open>One owner\<close>

text \<open>A selected row carries an active centroid from one owner's columns to another's.\<close>

definition crosses :: "unfold_plan \<Rightarrow> nat \<Rightarrow> bool" where
  "crosses plan extent \<longleftrightarrow> (\<exists>r\<in>set (plan_rows plan). \<exists>m<up_packed plan. up_active plan ! m \<and>
     nat (up_sym_perm plan ! nat r ! m) div extent \<noteq> m div extent)"

text \<open>A permutation of finitely many points that keeps the active ones keeps the others out.\<close>

lemma active_back:
  assumes "legal_plan plan" "r \<in> set (plan_rows plan)" "c < up_packed plan" "up_active plan ! nat (up_sym_perm plan ! nat r ! c)"
  shows "up_active plan ! c"
proof -
  let ?n = "up_packed plan" and ?f = "\<lambda>m. nat (up_sym_perm plan ! nat r ! m)"
  let ?A = "{m. m < ?n \<and> up_active plan ! m}"
  have t: "perm_table ?n (plan_table plan)" using assms(1) by (simp add: legal_plan_def)
  have row: "up_sym_perm plan ! nat r \<in> set (plan_table plan)" using assms(2) by simp
  have d: "distinct (up_sym_perm plan ! nat r)" "length (up_sym_perm plan ! nat r) = ?n"
    using t row perm_row [OF t row] unfolding perm_table_def by blast+
  have inj: "a = b" if "a < ?n" "b < ?n" "?f a = ?f b" for a b
  proof -
    have "up_sym_perm plan ! nat r ! a = up_sym_perm plan ! nat r ! b"
      using that linked_image(1) [OF assms(1,2)] by (simp add: eq_nat_nat_iff)
    then show ?thesis using d that(1,2) by (simp add: nth_eq_iff_index_eq)
  qed
  have "r \<in> set (up_sym_idx plan)" using assms(2) plan_rows_facts(2) [OF assms(1)] by simp
  then have "?f ` ?A \<subseteq> ?A" using assms(1) linked_image(2) [OF assms(1,2)] by (auto simp: legal_plan_def)
  then have "?f ` ?A = ?A" using inj by (intro endo_inj_surj) (auto intro!: inj_onI)
  moreover have "?f c \<in> ?A" using assms(4) linked_image(2) [OF assms(1-3)] by simp
  ultimately obtain a where "a \<in> ?A" "?f c = ?f a" by (metis (no_types, lifting) imageE)
  then show ?thesis using inj [of c a] assms(3) by simp
qed

lemma linked_column:
  assumes "legal_plan plan" "\<not> crosses plan extent" "(a, b) \<in> linked (plan_table plan)" "a < up_packed plan" "up_active plan ! a"
  shows "b < up_packed plan \<and> up_active plan ! b \<and> b div extent = a div extent"
  using assms(3) unfolding linked_def
proof (induction rule: rtrancl_induct)
  case (step b c)
  let ?n = "up_packed plan"
  have t: "perm_table ?n (plan_table plan)" using assms(1) by (simp add: legal_plan_def)
  have stay: "up_active plan ! nat (up_sym_perm plan ! nat r ! m)" if "r \<in> set (plan_rows plan)" "m < ?n" "up_active plan ! m" for r m
    using assms(1) that plan_rows_facts(2) [OF assms(1)] by (simp add: legal_plan_def)
  have same: "nat (up_sym_perm plan ! nat r ! m) div extent = m div extent" if "r \<in> set (plan_rows plan)" "m < ?n" "up_active plan ! m" for r m
    using assms(2) that by (auto simp: crosses_def)
  show ?case
  proof (cases "(b, c) \<in> moves (plan_table plan)")
    case True
    then obtain r where r: "r \<in> set (plan_rows plan)" "c = nat (up_sym_perm plan ! nat r ! b)" by (auto simp: moves_def)
    show ?thesis using linked_image(2) [OF assms(1) r(1), of b] stay [OF r(1)] same [OF r(1)] step.IH r(2) by simp
  next
    case False
    then have "(c, b) \<in> moves (plan_table plan)" using step.hyps(2) by simp
    then obtain r where r: "r \<in> set (plan_rows plan)" "c < ?n" "b = nat (up_sym_perm plan ! nat r ! c)"
      using moves_bound [OF t, of c b] by (auto simp: moves_def)
    have "up_active plan ! c" using step.IH r(3) active_back [OF assms(1) r(1,2)] by simp
    then show ?thesis using same [OF r(1,2)] step.IH r by simp
  qed
qed (use assms(4,5) in simp)

lemma group_linked:
  assumes "legal_plan plan" "g < length (plan_groups plan)" "a \<in> set (plan_groups plan ! g)" "b \<in> set (plan_groups plan ! g)"
  shows "(a, b) \<in> linked (plan_table plan)"
proof -
  define label where "label i = int (started_before (up_packed plan) (plan_table plan) i)" for i
  have groups: "plan_groups plan = key_classes label (np_flatnonzero (up_active plan))" by (simp add: plan_groups_def label_def [abs_def])
  obtain k where "plan_groups plan ! g = filter (\<lambda>x. label x = k) (np_flatnonzero (up_active plan))"
    using class_nth [of g label] assms(2) unfolding groups by blast
  then have "label a = label b" using assms(3,4) by simp
  then show ?thesis
    using started_before_eq [of "up_packed plan" "plan_table plan" a b] plan_orbits(2) [OF assms(1,2,3)] plan_orbits(2) [OF assms(1,2,4)] assms(1)
    by (simp add: label_def legal_plan_def)
qed

text \<open>An owner whose orbits stay with it gets tiles that hold each of its orbits once, whole.\<close>

definition tiles_ok :: "nat list list \<Rightarrow> nat list list \<Rightarrow> bool" where
  "tiles_ok groups tiles \<longleftrightarrow> set (concat tiles) = set (concat groups) \<and>
     (\<forall>t\<in>set tiles. t \<noteq> [] \<and> sorted t \<and> distinct t \<and> (\<forall>g\<in>set groups. \<forall>x\<in>set g. x \<in> set t \<longrightarrow> set g \<subseteq> set t)) \<and>
     (\<forall>x\<in>set (concat groups). \<exists>!b. b < length tiles \<and> x \<in> set (tiles ! b))"

lemma packed_tiles:
  assumes "distinct (concat ms)" "[] \<notin> set ms" "bins_ok (map (\<lambda>m. int (length m)) ms) ranks owner loads b"
  shows "tiles_ok ms (map (batch_mem ms owner) [0..<length loads])"
proof -
  have own: "length owner = length ms" "\<forall>g<length ms. owner ! g < length loads" using assms(3) by (simp_all add: bins_ok_def)
  note mem = batch_mem_facts [OF assms(1) own(1)]
  let ?in = "\<lambda>x t. t < length loads \<and> x \<in> set (batch_mem ms owner t)"
  have at: "?in x t \<longleftrightarrow> t = owner ! g" if g: "g < length ms" "x \<in> set (ms ! g)" for x t g
  proof
    assume "?in x t"
    then obtain h where h: "h < length owner" "owner ! h = t" "x \<in> set (ms ! h)" unfolding mem(1) by blast
    then have "g = h" using concat_apart [OF assms(1), of g h x] g own(1) by simp
    then show "t = owner ! g" using h(2) by simp
  next
    assume "t = owner ! g"
    then show "?in x t" unfolding mem(1) using g own by auto
  qed
  have whole: "set g \<subseteq> set (batch_mem ms owner t)" if t: "t < length loads" and g: "g \<in> set ms" "x \<in> set g" "x \<in> set (batch_mem ms owner t)" for g x t
  proof
    obtain i where i: "i < length ms" "ms ! i = g" using g(1) by (meson in_set_conv_nth)
    have "t = owner ! i" using at [of i x t] i g(2,3) t by simp
    then show "y \<in> set (batch_mem ms owner t)" if "y \<in> set g" for y using at [of i y t] i that by simp
  qed
  have busy: "batch_mem ms owner t \<noteq> []" if t: "t < length loads" for t
  proof -
    obtain g where g: "g < length ms" "owner ! g = t" using batch_loads(1) [OF assms(3,1) t] by blast
    have "ms ! g \<noteq> []" using assms(2) g(1) by (metis nth_mem)
    then obtain x where "x \<in> set (ms ! g)" by (cases "ms ! g") auto
    then have "x \<in> set (batch_mem ms owner t)" using at [of g x t] g by simp
    then show ?thesis by auto
  qed
  have ex1: "\<exists>!t. t < length loads \<and> x \<in> set (batch_mem ms owner t)" if "x \<in> set (concat ms)" for x
  proof -
    obtain m where m: "m \<in> set ms" "x \<in> set m" using \<open>x \<in> set (concat ms)\<close> by auto
    then obtain g where g: "g < length ms" "x \<in> set (ms ! g)" by (metis in_set_conv_nth)
    show ?thesis unfolding at [OF g] by simp
  qed
  have "set (concat (map (batch_mem ms owner) [0..<length loads])) = set (concat ms)"
  proof
    show "set (concat ms) \<subseteq> set (concat (map (batch_mem ms owner) [0..<length loads]))" using ex1 by fastforce
    show "set (concat (map (batch_mem ms owner) [0..<length loads])) \<subseteq> set (concat ms)" using mem(1) own(1) by fastforce
  qed
  moreover have "sorted (batch_mem ms owner t)" for t by (simp add: batch_mem_def)
  moreover have "t \<noteq> [] \<and> sorted t \<and> distinct t \<and> (\<forall>g\<in>set ms. \<forall>x\<in>set g. x \<in> set t \<longrightarrow> set g \<subseteq> set t)"
    if t: "t \<in> set (map (batch_mem ms owner) [0..<length loads])" for t
  proof -
    from t obtain i where i: "i < length loads" "t = batch_mem ms owner i" by auto
    show ?thesis unfolding i(2) using busy [OF i(1)] mem(2) whole [OF i(1)] \<open>\<And>t. sorted (batch_mem ms owner t)\<close> by blast
  qed
  moreover have "\<exists>!b. b < length (map (batch_mem ms owner) [0..<length loads]) \<and> x \<in> set (map (batch_mem ms owner) [0..<length loads] ! b)"
    if "x \<in> set (concat ms)" for x
    using ex1 [OF that] by (simp cong: conj_cong)
  ultimately show ?thesis unfolding tiles_ok_def by blast
qed

lemma owner_tiles_cases:
  fixes extent :: nat
  assumes "distinct (concat ms)" "[] \<notin> set ms"
  defines "groups \<equiv> \<lambda>y. filter (\<lambda>m. hd m div extent = y) ms"
  shows "if \<exists>m\<in>set (groups y). \<exists>x\<in>set m. x div extent \<noteq> y then owner_tiles ms extent width y = Some (Inl (CrossesOwner y))
    else \<exists>tiles. owner_tiles ms extent width y = Some (Inr tiles) \<and> tiles_ok (groups y) tiles"
proof (cases "\<exists>m\<in>set (groups y). \<exists>x\<in>set m. x div extent \<noteq> y")
  case True
  then show ?thesis unfolding owner_tiles_def Let_def groups_def by (simp only: if_True)
next
  case False
  have start: "owner_tiles ms extent width y = (if groups y = [] then Some (Inr []) else
      Option.bind (partition_orbit_bins (map (\<lambda>m. int (length m)) (groups y)) (orbit_packing (groups y) (map (\<lambda>m. int (length m)) (groups y))) 1 width)
        (\<lambda>packed. case packed of None \<Rightarrow> Some (Inl NoMembers)
          | Some (owner, loads, _) \<Rightarrow> Some (Inr (map (batch_mem (groups y) owner) [0..<length loads]))))"
    using False unfolding owner_tiles_def Let_def groups_def by (simp only: if_False)
  show ?thesis
  proof (cases "groups y = []")
    case True
    then show ?thesis using False start by (simp add: tiles_ok_def)
  next
    case ne: False
    have d: "distinct (concat (groups y))"
    proof -
      have "distinct (concat (filter P zs))" if "distinct (concat zs)" for P and zs :: "nat list list"
        using that by (induction zs) auto
      then show ?thesis using assms(1) by (simp add: groups_def)
    qed
    have full: "\<forall>xs\<in>set (groups y). xs \<noteq> []" using assms(2) by (auto simp: groups_def)
    obtain owner loads b where p: "partition_orbit_bins (map (\<lambda>m. int (length m)) (groups y))
          (orbit_packing (groups y) (map (\<lambda>m. int (length m)) (groups y))) 1 width = Some (Some (owner, loads, b))"
        "bins_ok (map (\<lambda>m. int (length m)) (groups y)) 1 owner loads b"
      using packed_orbits [of 1 "groups y" width] ne full by auto
    have "owner_tiles ms extent width y = Some (Inr (map (batch_mem (groups y) owner) [0..<length loads]))"
      unfolding start p(1) using ne by simp
    moreover have "[] \<notin> set (groups y)" using full by blast
    ultimately show ?thesis using False packed_tiles [OF d _ p(2)] by auto
  qed
qed

lemma all_owners_run: "\<forall>y\<in>set ys. f y \<noteq> None \<Longrightarrow> all_owners f ys = Some (mapE (\<lambda>y. the (f y)) ys)"
proof (induction ys)
  case (Cons y ys)
  then obtain r where r: "f y = Some r" by auto
  show ?case using Cons r by (cases r) simp_all
qed simp

section \<open>The array\<close>

text \<open>Every cell is one tile of its owner padded to the common width, or pads alone.\<close>

lemma tile_array_cells:
  assumes "concat bins \<noteq> []"
  shows "\<exists>w. tile_array bins \<noteq> [] \<and> (\<forall>y<length bins. length (bins ! y) \<le> length (tile_array bins)) \<and>
    (\<forall>b<length (tile_array bins). length (tile_array bins ! b) = length bins \<and> (\<forall>y<length bins. \<exists>xs.
       xs = (if b < length (bins ! y) then bins ! y ! b else []) \<and> length xs \<le> w \<and>
       tile_array bins ! b ! y = map int xs @ replicate (w - length xs) (- 1)))"
proof -
  let ?n = "Max (set (map length bins))" and ?w = "Max (length ` set (concat bins))"
  have n: "length (bins ! y) \<le> ?n" if "y < length bins" for y using that by (intro Max_ge) auto
  have w: "length t \<le> ?w" if "y < length bins" "t \<in> set (bins ! y)" for y t
  proof -
    have "t \<in> set (concat bins)" using that nth_mem [OF that(1)] by auto
    then show ?thesis by (intro Max_ge) auto
  qed
  obtain y where y: "y < length bins" "bins ! y \<noteq> []" using assms by (auto simp: in_set_conv_nth)
  have "0 < ?n" using n [OF y(1)] y(2) by (metis gr0I le_zero_eq length_0_conv)
  moreover have len: "length (tile_array bins) = ?n" by (simp add: tile_array_def Let_def)
  moreover have "np_set_slice 0 xs (replicate ?w (- 1 :: int)) = xs @ replicate (?w - length xs) (- 1)" for xs
    by (simp add: np_set_slice_def)
  then have "\<exists>xs. xs = (if b < length (bins ! y) then bins ! y ! b else []) \<and> length xs \<le> ?w \<and>
      tile_array bins ! b ! y = map int xs @ replicate (?w - length xs) (- 1)" if "b < ?n" "y < length bins" for b y
    using that w [OF that(2)] by (auto simp: tile_array_def Let_def)
  moreover have "length (tile_array bins ! b) = length bins" if "b < ?n" for b using that by (simp add: tile_array_def Let_def)
  ultimately show ?thesis using n by (intro exI [of _ ?w]) auto
qed

lemma cell_members: "batch_members (map int xs @ replicate k (- 1)) = xs"
  by (simp add: batch_members_filter filter_map comp_def)

text \<open>The orbits of the plan by their first member's owner.\<close>

definition column_orbits :: "unfold_plan \<Rightarrow> nat \<Rightarrow> nat \<Rightarrow> nat list list" where
  "column_orbits plan extent y = filter (\<lambda>m. hd m div extent = y) (plan_groups plan)"

lemma column_of:
  fixes py n m :: nat
  assumes "py dvd n" "0 < py" "m < n"
  shows "m div (n div py) < py"
proof -
  have "m < py * (n div py)" using assms(1,3) by (metis dvd_mult_div_cancel)
  then show ?thesis by (simp add: less_mult_imp_div_less)
qed

lemma crossing_orbit:
  assumes "legal_plan plan" "0 < py" "py dvd up_packed plan"
  defines "extent \<equiv> up_packed plan div py"
  shows "crosses plan extent \<longleftrightarrow> (\<exists>y<py. \<exists>m\<in>set (column_orbits plan extent y). \<exists>x\<in>set m. x div extent \<noteq> y)"
proof
  note orbits = plan_orbits [OF assms(1)]
  have hd: "hd (plan_groups plan ! g) \<in> set (plan_groups plan ! g)" if "g < length (plan_groups plan)" for g using orbits(5) that by simp
  assume "crosses plan extent"
  then obtain r m where rm: "r \<in> set (plan_rows plan)" "m < up_packed plan" "up_active plan ! m"
      "nat (up_sym_perm plan ! nat r ! m) div extent \<noteq> m div extent" by (auto simp: crosses_def)
  obtain g where g: "g < length (plan_groups plan)" "m \<in> set (plan_groups plan ! g)" using orbits(3) [OF rm(2,3)] by blast
  let ?y = "hd (plan_groups plan ! g) div extent"
  have "?y < py" using column_of [OF assms(3,2)] orbits(2) [OF g(1) hd [OF g(1)]] by (simp add: extent_def)
  moreover have "plan_groups plan ! g \<in> set (column_orbits plan extent ?y)" using g(1) by (simp add: column_orbits_def)
  moreover have "nat (up_sym_perm plan ! nat r ! m) \<in> set (plan_groups plan ! g)" using orbits(4) [OF g rm(1)] by blast
  then have "\<exists>x\<in>set (plan_groups plan ! g). x div extent \<noteq> ?y" using rm(4) g(2) by metis
  ultimately show "\<exists>y<py. \<exists>m\<in>set (column_orbits plan extent y). \<exists>x\<in>set m. x div extent \<noteq> y" by blast
next
  note orbits = plan_orbits [OF assms(1)]
  assume "\<exists>y<py. \<exists>m\<in>set (column_orbits plan extent y). \<exists>x\<in>set m. x div extent \<noteq> y"
  then obtain g x where g: "g < length (plan_groups plan)" "x \<in> set (plan_groups plan ! g)" "x div extent \<noteq> hd (plan_groups plan ! g) div extent"
    by (auto simp: column_orbits_def in_set_conv_nth [of _ "plan_groups plan"])
  have h: "hd (plan_groups plan ! g) \<in> set (plan_groups plan ! g)" using orbits(5) g(1) by simp
  show "crosses plan extent"
    using linked_column [OF assms(1) _ group_linked [OF assms(1) g(1) h g(2)]] orbits(2) [OF g(1) h] g(3) by blast
qed

text \<open>A tile of whole orbits is closed under the selected rows.\<close>

lemma tile_closed:
  assumes "legal_plan plan" "tiles_ok (column_orbits plan extent y) tiles" "t \<in> set tiles"
  shows "distinct t" "\<forall>x\<in>set t. x < up_packed plan \<and> up_active plan ! x"
    "\<forall>r\<in>set (plan_rows plan). \<forall>x\<in>set t. 0 \<le> up_sym_perm plan ! nat r ! x \<and> nat (up_sym_perm plan ! nat r ! x) \<in> set t"
proof -
  note orbits = plan_orbits [OF assms(1)]
  have t: "distinct t" "\<And>g x. g \<in> set (column_orbits plan extent y) \<Longrightarrow> x \<in> set g \<Longrightarrow> x \<in> set t \<Longrightarrow> set g \<subseteq> set t"
    using assms(2,3) unfolding tiles_ok_def by blast+
  show "distinct t" by (rule t(1))
  have orbit: "\<exists>g<length (plan_groups plan). x \<in> set (plan_groups plan ! g) \<and> set (plan_groups plan ! g) \<subseteq> set t" if x: "x \<in> set t" for x
  proof -
    have "x \<in> set (concat tiles)" using x assms(3) by auto
    then have "x \<in> set (concat (column_orbits plan extent y))" using assms(2) by (simp only: tiles_ok_def)
    then obtain g where g: "g \<in> set (column_orbits plan extent y)" "x \<in> set g" by auto
    then have "g \<in> set (plan_groups plan)" by (simp add: column_orbits_def)
    then show ?thesis using t(2) [OF g x] g(2) by (metis in_set_conv_nth)
  qed
  then show "\<forall>x\<in>set t. x < up_packed plan \<and> up_active plan ! x" using orbits(2) by blast
  show "\<forall>r\<in>set (plan_rows plan). \<forall>x\<in>set t. 0 \<le> up_sym_perm plan ! nat r ! x \<and> nat (up_sym_perm plan ! nat r ! x) \<in> set t"
    using orbit orbits(4) by blast
qed

text \<open>The bins of all owners, or the refusal of one.\<close>

lemma column_bins_run:
  assumes "legal_plan plan" "\<exists>m<up_packed plan. up_active plan ! m" "0 < py" "py dvd up_packed plan"
  defines "extent \<equiv> up_packed plan div py"
  shows "if crosses plan extent
    then \<exists>y<py. cct_column_bins plan py width = Some (Inl (CrossesOwner y)) \<and>
      (\<exists>m\<in>set (column_orbits plan extent y). \<exists>x\<in>set m. x div extent \<noteq> y)
    else \<exists>bins. cct_column_bins plan py width = Some (if concat bins = [] then Inl NoMembers else Inr (tile_array bins)) \<and>
      length bins = py \<and> (\<forall>y<py. tiles_ok (column_orbits plan extent y) (bins ! y))"
proof -
  let ?ms = "plan_groups plan" and ?bad = "\<lambda>y. \<exists>m\<in>set (column_orbits plan extent y). \<exists>x\<in>set m. x div extent \<noteq> y"
  note orbits = plan_orbits [OF assms(1)]
  have ne: "[] \<notin> set ?ms" using orbits(5) by (auto simp: in_set_conv_nth)
  have each: "if ?bad y then owner_tiles ?ms extent width y = Some (Inl (CrossesOwner y))
      else \<exists>tiles. owner_tiles ?ms extent width y = Some (Inr tiles) \<and> tiles_ok (column_orbits plan extent y) tiles" for y
    using owner_tiles_cases [OF orbits(1) ne, of extent y width] unfolding column_orbits_def .
  have total: "owner_tiles ?ms extent width y \<noteq> None" for y
  proof (cases "?bad y")
    case True
    then show ?thesis using each [of y] unfolding if_P [OF True] by simp
  next
    case False
    then show ?thesis using each [of y] unfolding if_not_P [OF False] by auto
  qed
  have "up_packed plan \<noteq> 0" using assms(1) by (simp add: legal_plan_def)
  then have "extent \<noteq> 0" using assms(3,4) by (auto simp: extent_def elim!: dvdE)
  moreover have "all_owners (owner_tiles ?ms extent width) [0..<py] = Some (mapE (\<lambda>y. the (owner_tiles ?ms extent width y)) [0..<py])"
    using total by (intro all_owners_run) blast
  ultimately have run: "cct_column_bins plan py width = Some (andthen (mapE (\<lambda>y. the (owner_tiles ?ms extent width y)) [0..<py])
      (\<lambda>bins. if concat bins = [] then Inl NoMembers else Inr (tile_array bins)))"
    using assms(3) ne plan_sizes(1) [OF assms(1,2)] by (simp add: cct_column_bins_def Let_def extent_def [symmetric])
  show ?thesis
  proof (cases "crosses plan extent")
    case True
    then obtain y0 where y0: "y0 < py" "?bad y0" using crossing_orbit [OF assms(1,3,4)] unfolding extent_def by blast
    have y0_run: "owner_tiles ?ms extent width y0 = Some (Inl (CrossesOwner y0))" using each [of y0] unfolding if_P [OF y0(2)] .
    have "\<exists>e. mapE (\<lambda>y. the (owner_tiles ?ms extent width y)) [0..<py] = Inl e"
    proof (cases "mapE (\<lambda>y. the (owner_tiles ?ms extent width y)) [0..<py]")
      case (Inr ts)
      from mapE_nth [OF this] y0(1) have "the (owner_tiles ?ms extent width y0) = Inr (ts ! y0)" by simp
      then show ?thesis using y0_run by simp
    qed blast
    then obtain e where e: "mapE (\<lambda>y. the (owner_tiles ?ms extent width y)) [0..<py] = Inl e" by blast
    from mapE_refused [OF e] obtain y where y: "y < py" "the (owner_tiles ?ms extent width y) = Inl e" by auto
    have "?bad y"
    proof (rule ccontr)
      assume "\<not> ?bad y"
      then show False using each [of y] y(2) by auto
    qed
    moreover from each [of y] this have "e = CrossesOwner y" using y(2) unfolding if_P [OF \<open>?bad y\<close>] by simp
    ultimately show ?thesis using True run e y(1) by auto
  next
    case False
    then have good: "\<not> ?bad y" if "y < py" for y using crossing_orbit [OF assms(1,3,4)] that unfolding extent_def by blast
    define tiles where "tiles y = projr (the (owner_tiles ?ms extent width y))" for y
    have t: "the (owner_tiles ?ms extent width y) = Inr (tiles y) \<and> tiles_ok (column_orbits plan extent y) (tiles y)" if "y < py" for y
      using each [of y] unfolding if_not_P [OF good [OF that]] by (auto simp: tiles_def)
    then have "mapE (\<lambda>y. the (owner_tiles ?ms extent width y)) [0..<py] = Inr (map tiles [0..<py])" by (intro mapE_total) simp
    then show ?thesis using False run t by (intro if_not_P [THEN iffD2] exI [of _ "map tiles [0..<py]"]) simp_all
  qed
qed

lemma widest_orbit_exact:
  assumes "legal_plan plan" "\<exists>m<up_packed plan. up_active plan ! m"
  shows "\<exists>w. widest_unfold_orbit plan = Some (Inr (int w)) \<and> (\<forall>g\<in>set (plan_groups plan). length g \<le> w) \<and> w \<in> length ` set (plan_groups plan)"
proof -
  let ?sizes = "map (\<lambda>xs. int (length xs)) (plan_groups plan)"
  have ne: "?sizes \<noteq> []" using plan_sizes(2) [OF assms] by simp
  then have "Max (set ?sizes) \<in> set ?sizes" by (intro Max_in) (simp_all only: set_empty finite_set not_False_eq_True)
  then obtain g where g: "g \<in> set (plan_groups plan)" "Max (set ?sizes) = int (length g)" by auto
  have "int (length h) \<le> Max (set ?sizes)" if "h \<in> set (plan_groups plan)" for h using that by (intro Max_ge) auto
  then have "\<forall>h\<in>set (plan_groups plan). length h \<le> length g" unfolding g(2) by simp
  moreover have "widest_unfold_orbit plan = Some (Inr (int (length g)))"
    using ne unfolding widest_unfold_orbit_def plan_sizes(1) [OF assms] by (simp add: g(2) [symmetric])
  ultimately show ?thesis using g(1) by blast
qed

text \<open>Without crossing, every active centroid is in an orbit of its own owner.\<close>

lemma column_cover:
  assumes "legal_plan plan" "0 < py" "py dvd up_packed plan" "\<not> crosses plan (up_packed plan div py)"
    and "m < up_packed plan" "up_active plan ! m"
  defines "y \<equiv> m div (up_packed plan div py)"
  shows "y < py" "m \<in> set (concat (column_orbits plan (up_packed plan div py) y))"
proof -
  let ?e = "up_packed plan div py"
  note orbits = plan_orbits [OF assms(1)]
  show "y < py" using column_of [OF assms(3,2,5)] by (simp add: y_def)
  obtain g where g: "g < length (plan_groups plan)" "m \<in> set (plan_groups plan ! g)" using orbits(3) [OF assms(5,6)] by blast
  have h: "hd (plan_groups plan ! g) \<in> set (plan_groups plan ! g)" using orbits(5) [OF g(1)] by simp
  have "hd (plan_groups plan ! g) div ?e < py" using column_of [OF assms(3,2)] orbits(2) [OF g(1) h] by blast
  moreover have "plan_groups plan ! g \<in> set (column_orbits plan ?e (hd (plan_groups plan ! g) div ?e))"
    using g(1) by (simp add: column_orbits_def)
  ultimately have "y = hd (plan_groups plan ! g) div ?e"
    using crossing_orbit [OF assms(1-3)] assms(4) g(2) unfolding y_def by blast
  then have "plan_groups plan ! g \<in> set (column_orbits plan ?e y)" using g(1) by (simp add: column_orbits_def)
  then show "m \<in> set (concat (column_orbits plan ?e y))" using g(2) by auto
qed

lemma closed_cell:
  assumes "legal_plan plan" "tiles_ok (column_orbits plan extent y) tiles" "xs \<in> set tiles \<or> xs = []"
  shows "batch_closed plan (map int xs @ replicate k (- 1))" "sorted xs" "\<forall>x\<in>set xs. up_active plan ! x \<and> x \<in> set (concat (column_orbits plan extent y))"
proof -
  have facts: "distinct xs \<and> sorted xs \<and> (\<forall>x\<in>set xs. x < up_packed plan \<and> up_active plan ! x) \<and> (\<forall>r\<in>set (plan_rows plan). \<forall>x\<in>set xs.
      0 \<le> up_sym_perm plan ! nat r ! x \<and> nat (up_sym_perm plan ! nat r ! x) \<in> set xs)" if "xs \<noteq> []"
  proof -
    have t: "xs \<in> set tiles" using assms(3) that by blast
    then have "sorted xs" using assms(2) unfolding tiles_ok_def by blast
    then show ?thesis using tile_closed [OF assms(1,2) t] by blast
  qed
  show "batch_closed plan (map int xs @ replicate k (- 1))"
    unfolding batch_closed_def cell_members using facts by (cases "xs = []") simp_all
  show "sorted xs" using facts by (cases "xs = []") simp_all
  have "x \<in> set (concat (column_orbits plan extent y))" if "x \<in> set xs" for x
  proof -
    have "x \<in> set (concat tiles)" using assms(3) that by auto
    then show ?thesis using assms(2) by (simp only: tiles_ok_def)
  qed
  then show "\<forall>x\<in>set xs. up_active plan ! x \<and> x \<in> set (concat (column_orbits plan extent y))"
    using facts by (cases "xs = []") auto
qed

lemma seen_once:
  assumes "tiles_ok groups tiles" "length tiles \<le> length arr" "m \<in> set (concat groups)"
    and "\<And>b. b < length arr \<Longrightarrow> batch_members (arr ! b ! y) = (if b < length tiles then tiles ! b else [])"
  shows "times_seen (map (\<lambda>tile. tile ! y) arr) m = 1"
proof -
  obtain b where b: "b < length tiles" "m \<in> set (tiles ! b)" "\<And>c. c < length tiles \<Longrightarrow> m \<in> set (tiles ! c) \<Longrightarrow> c = b"
    using assms(1,3) unfolding tiles_ok_def by (metis (no_types, lifting))
  have "c < length arr \<and> m \<in> set (batch_members (arr ! c ! y)) \<longleftrightarrow> c = b" for c
  proof
    assume "c < length arr \<and> m \<in> set (batch_members (arr ! c ! y))"
    then show "c = b" using assms(4) [of c] b(3) [of c] by (auto split: if_splits)
  next
    assume "c = b"
    then show "c < length arr \<and> m \<in> set (batch_members (arr ! c ! y))" using assms(2) assms(4) [of c] b(1,2) by simp
  qed
  then have "{c. c < length arr \<and> m \<in> set (batch_members (arr ! c ! y))} = {b}" by simp
  moreover have "times_seen (map (\<lambda>tile. tile ! y) arr) m = card {c. c < length arr \<and> m \<in> set (batch_members (arr ! c ! y))}"
    unfolding times_seen_def length_filter_conv_card by (intro arg_cong [of _ _ card]) auto
  ultimately show ?thesis by simp
qed

lemma some_tile:
  assumes "legal_plan plan" "\<exists>m<up_packed plan. up_active plan ! m" "0 < py" "py dvd up_packed plan" "\<not> crosses plan (up_packed plan div py)"
    and "\<forall>y<py. tiles_ok (column_orbits plan (up_packed plan div py) y) (bins ! y)" "length bins = py"
  shows "concat bins \<noteq> []"
proof -
  let ?e = "up_packed plan div py"
  obtain m where m: "m < up_packed plan" "up_active plan ! m" using assms(2) by blast
  note cover = column_cover [OF assms(1,3,4,5) m]
  have "m \<in> set (concat (bins ! (m div ?e)))" using cover assms(6) by (simp only: tiles_ok_def)
  then have "bins ! (m div ?e) \<noteq> []" by auto
  moreover have "bins ! (m div ?e) \<in> set bins" using cover(1) assms(7) by simp
  ultimately show ?thesis by auto
qed

lemma columns_return:
  assumes "legal_plan plan" "\<exists>m<up_packed plan. up_active plan ! m" "0 < py" "py dvd up_packed plan" "\<not> crosses plan (up_packed plan div py)"
  shows "\<exists>mu. cct_column_bins plan py width = Some (Inr mu)"
proof -
  obtain bins where bins: "cct_column_bins plan py width = Some (if concat bins = [] then Inl NoMembers else Inr (tile_array bins))"
      "length bins = py" "\<forall>y<py. tiles_ok (column_orbits plan (up_packed plan div py) y) (bins ! y)"
    using column_bins_run [OF assms(1-4), of width] unfolding if_not_P [OF assms(5)] by blast
  then show ?thesis using some_tile [OF assms bins(3,2)] by simp
qed

section \<open>Property\<close>

text \<open>
  C9: the column tiles of a legal plan whose packed extent splits evenly over the Y owners. If a selected row carries
  an active centroid to another owner's columns, the search refuses and names an owner that such an orbit starts in.
  Otherwise it returns tiles of one width: a cell holds its tile's members in packed order with pads trailing, is a
  union of whole orbits of active centroids of that owner, and every active centroid sits in exactly one cell of its
  owner.
\<close>

theorem column_bins_exact:
  assumes "legal_plan plan" "\<exists>m<up_packed plan. up_active plan ! m" "0 < py" "py dvd up_packed plan"
  shows "if crosses plan (up_packed plan div py)
    then \<exists>y<py. cct_column_bins plan py width = Some (Inl (CrossesOwner y)) \<and>
      (\<exists>m\<in>set (column_orbits plan (up_packed plan div py) y). \<exists>x\<in>set m. x div (up_packed plan div py) \<noteq> y)
    else \<exists>mu w. cct_column_bins plan py width = Some (Inr mu) \<and> mu \<noteq> [] \<and>
      (\<forall>tile\<in>set mu. length tile = py \<and> (\<forall>y<py. length (tile ! y) = w \<and> batch_closed plan (tile ! y) \<and>
         (\<exists>xs. sorted xs \<and> tile ! y = map int xs @ replicate (w - length xs) (- 1) \<and>
            (\<forall>x\<in>set xs. up_active plan ! x \<and> x div (up_packed plan div py) = y)))) \<and>
      (\<forall>m<up_packed plan. up_active plan ! m \<longrightarrow> times_seen (map (\<lambda>tile. tile ! (m div (up_packed plan div py))) mu) m = 1)"
proof (cases "crosses plan (up_packed plan div py)")
  case True
  then show ?thesis using column_bins_run [OF assms, of width] unfolding if_P [OF True] by blast
next
  case False
  let ?e = "up_packed plan div py"
  note orbits = plan_orbits [OF assms(1)]
  obtain bins where bins: "cct_column_bins plan py width = Some (if concat bins = [] then Inl NoMembers else Inr (tile_array bins))"
      "length bins = py" "\<And>y. y < py \<Longrightarrow> tiles_ok (column_orbits plan ?e y) (bins ! y)"
    using column_bins_run [OF assms, of width] unfolding if_not_P [OF False] by blast
  have stays: "x div ?e = y" if "y < py" "g \<in> set (column_orbits plan ?e y)" "x \<in> set g" for x y g
    using crossing_orbit [OF assms(1,3,4)] False that by blast
  note cover = column_cover [OF assms(1,3,4) False]
  have "concat bins \<noteq> []" using some_tile [OF assms False _ bins(2)] bins(3) by blast
  then have run: "cct_column_bins plan py width = Some (Inr (tile_array bins))" using bins(1) by simp
  obtain w where arr: "tile_array bins \<noteq> []" "\<forall>y<py. length (bins ! y) \<le> length (tile_array bins)"
      "\<forall>b<length (tile_array bins). length (tile_array bins ! b) = py \<and> (\<forall>y<py. \<exists>xs.
         xs = (if b < length (bins ! y) then bins ! y ! b else []) \<and> length xs \<le> w \<and>
         tile_array bins ! b ! y = map int xs @ replicate (w - length xs) (- 1))"
    using tile_array_cells [OF \<open>concat bins \<noteq> []\<close>] unfolding bins(2) by blast
  have cell: "length (tile_array bins ! b ! y) = w \<and> batch_closed plan (tile_array bins ! b ! y) \<and>
      (\<exists>xs. sorted xs \<and> tile_array bins ! b ! y = map int xs @ replicate (w - length xs) (- 1) \<and> (\<forall>x\<in>set xs. up_active plan ! x \<and> x div ?e = y))"
    if at: "b < length (tile_array bins)" "y < py" for b y
  proof -
    obtain xs where xs: "xs = (if b < length (bins ! y) then bins ! y ! b else [])" "length xs \<le> w"
        "tile_array bins ! b ! y = map int xs @ replicate (w - length xs) (- 1)" using arr(3) at by blast
    have "xs \<in> set (bins ! y) \<or> xs = []" using xs(1) by simp
    note c = closed_cell [OF assms(1) bins(3) [OF at(2)] this]
    have "x div ?e = y" if "x \<in> set xs" for x using c(3) that stays [OF at(2)] by auto
    then show ?thesis using c xs(2,3) by auto
  qed
  have once: "times_seen (map (\<lambda>tile. tile ! (m div ?e)) (tile_array bins)) m = 1" if m: "m < up_packed plan" "up_active plan ! m" for m
  proof -
    have y: "m div ?e < py" using cover(1) [OF m] .
    have "batch_members (tile_array bins ! b ! (m div ?e)) = (if b < length (bins ! (m div ?e)) then bins ! (m div ?e) ! b else [])"
      if "b < length (tile_array bins)" for b using arr(3) that y by (auto simp: cell_members)
    then show ?thesis using seen_once [OF bins(3) [OF y]] arr(2) y cover(2) [OF m] by blast
  qed
  have tiles: "length tile = py \<and> (\<forall>y<py. length (tile ! y) = w \<and> batch_closed plan (tile ! y) \<and>
      (\<exists>xs. sorted xs \<and> tile ! y = map int xs @ replicate (w - length xs) (- 1) \<and> (\<forall>x\<in>set xs. up_active plan ! x \<and> x div ?e = y)))"
    if tile: "tile \<in> set (tile_array bins)" for tile
  proof -
    obtain b where b: "b < length (tile_array bins)" "tile_array bins ! b = tile" using tile by (meson in_set_conv_nth)
    have "length tile = py" using arr(3) b by blast
    then show ?thesis using cell [OF b(1)] unfolding b(2) by blast
  qed
  show ?thesis unfolding if_not_P [OF False] using run arr(1) tiles once by blast
qed

text \<open>Three owners of two columns each, and the plan above: no crossing.\<close>

theorem column_bins_exact_witness:
  "\<not> crosses sample_plan 2 \<and> (\<exists>mu w. cct_column_bins sample_plan 3 1 = Some (Inr mu) \<and> mu \<noteq> [] \<and>
     (\<forall>tile\<in>set mu. length tile = 3 \<and> (\<forall>y<3. length (tile ! y) = w \<and> batch_closed sample_plan (tile ! y))) \<and>
     times_seen (map (\<lambda>tile. tile ! 2) mu) 4 = 1)"
proof -
  have rows: "plan_rows sample_plan = [0, 1]" by code_simp
  have packed: "up_packed sample_plan = 6" by (simp add: sample_plan_def)
  have eval: "crosses sample_plan 2 \<longleftrightarrow> list_ex (\<lambda>r. list_ex (\<lambda>m. up_active sample_plan ! m \<and>
      nat (up_sym_perm sample_plan ! nat r ! m) div 2 \<noteq> m div 2) [0..<6]) [0, 1]"
    unfolding crosses_def rows packed list_ex_iff by auto
  have no: "\<not> crosses sample_plan 2" unfolding eval by code_simp
  have e: "(6 :: nat) div 3 = 2" "(4 :: nat) div 2 = 2" by simp_all
  have act: "up_active sample_plan ! 4" by (simp add: sample_plan_def)
  have three: "(0 :: nat) < 3" "3 dvd up_packed sample_plan" by (simp_all add: packed)
  note all = column_bins_exact [OF sample_plan_legal three, of 1, unfolded packed e if_not_P [OF no]]
  then obtain mu w where mu: "cct_column_bins sample_plan 3 1 = Some (Inr mu)" "mu \<noteq> []"
      "\<forall>tile\<in>set mu. length tile = 3 \<and> (\<forall>y<3. length (tile ! y) = w \<and> batch_closed sample_plan (tile ! y))"
      "\<forall>m<6. up_active sample_plan ! m \<longrightarrow> times_seen (map (\<lambda>tile. tile ! (m div 2)) mu) m = 1" by blast
  have "times_seen (map (\<lambda>tile. tile ! (4 div 2)) mu) 4 = 1" using mu(4) [rule_format, of 4] act by simp
  then show ?thesis using no mu(1-3) unfolding e by blast
qed

end
