(* ===== verification/SourceMap.thy ===== *)
theory SourceMap
  imports GridSteps OrbitLabels
begin

text \<open>
  \<open>centroid_source_map_and_wrap\<close> and \<open>snap_to_grid_and_split_wrap\<close> of
  \<open>services/symmetry_maps/src/symmetry_maps/orbit_syms.py\<close>: for every operation and centroid, the source centroid and
  the lattice vector its image crossed, with the rows that have no action hidden. Coordinates are exact reals; the
  integer arithmetic after the snap is the code's, the int8 and int32 casts included.
\<close>

section \<open>The code\<close>

text \<open>\<open>np.rint\<close>: ties go to the even neighbour.\<close>

definition half_even :: "real \<Rightarrow> int" where
  "half_even x =
     (let d = \<lfloor>x\<rfloor>; f = x - of_int d
      in if f < 1 / 2 then d else if 1 / 2 < f then d + 1 else if even d then d else d + 1)"

fun snapped :: "rvec \<Rightarrow> ivec" where
  "snapped (x, y, z) = (half_even x, half_even y, half_even z)"

definition snap_to_grid_and_split_wrap :: "rvec \<Rightarrow> ivec \<Rightarrow> ivec \<times> ivec" where
  "snap_to_grid_and_split_wrap img g =
     (let n = snapped (times_grid img g); w = vdiv n g in (vadd n (vneg (vmul w g)), w))"

fun over_turn :: "rvec \<Rightarrow> rvec" where
  "over_turn (x, y, z) = (x / (2 * pi), y / (2 * pi), z / (2 * pi))"

definition source_image :: "ivec \<Rightarrow> imat \<Rightarrow> rvec \<Rightarrow> ivec \<Rightarrow> rvec" where
  "source_image g s t x = rmat_vec s (rsub (over_grid (of_ivec x) g) (over_turn t))"

definition to_i8 :: "int \<Rightarrow> int" where
  "to_i8 x = (x + 2 ^ 7) mod 2 ^ 8 - 2 ^ 7"

fun i8_vec :: "ivec \<Rightarrow> ivec" where
  "i8_vec (x, y, z) = (to_i8 x, to_i8 y, to_i8 z)"

datatype source_error =
    CentroidIndex nat
  | RequiredRows
  | OrbitOpen nat nat ivec
  | NotPermutationRow nat

text \<open>\<open>flat_to_mu\<close>; a negative flat index counts from the end.\<close>

definition flat_position :: "ivec \<Rightarrow> ivec \<Rightarrow> nat" where
  "flat_position g x = (let k = flat_key g x in nat (if k < 0 then k + grid_size g else k))"

definition centroid_lookup :: "ivec \<Rightarrow> ivec list \<Rightarrow> int list" where
  "centroid_lookup g idx = np_put (map (flat_position g) idx) (map int [0..<length idx]) (replicate (nat (grid_size g)) (- 1))"

definition required_ops :: "nat \<Rightarrow> bool \<Rightarrow> int list option \<Rightarrow> (source_error, nat list) result" where
  "required_ops n_sym extend rows =
     (case rows of
        None \<Rightarrow> Inr [0..<n_sym]
      | Some rs \<Rightarrow>
          if rs = [] \<or> (\<exists>r\<in>set rs. r < 0 \<or> int (n_sym * (if extend then 2 else 1)) \<le> r) then Inl RequiredRows
          else Inr (sort (remdups (map (\<lambda>r. nat (r mod int n_sym)) rs))))"

text \<open>The first missing image of a required row, then the first required row with a repeated source.\<close>

definition closure_check :: "ivec list list \<Rightarrow> int list list \<Rightarrow> nat list \<Rightarrow> (source_error, unit) result" where
  "closure_check images perm required =
     (case find (\<lambda>(s, m). s \<in> set required \<and> perm ! s ! m < 0)
             (concat (map (\<lambda>s. map (\<lambda>m. (s, m)) [0..<length (perm ! s)]) [0..<length perm])) of
        Some (s, m) \<Rightarrow> Inl (OrbitOpen s m (images ! s ! m))
      | None \<Rightarrow>
          (case find (\<lambda>s. \<exists>x\<in>set (perm ! s). 1 < count_list (perm ! s) x) required of
             Some s \<Rightarrow> Inl (NotPermutationRow s)
           | None \<Rightarrow> Inr ()))"

definition centroid_source_map_and_wrap ::
    "ivec list \<Rightarrow> imat list \<Rightarrow> rvec list \<Rightarrow> ivec \<Rightarrow> bool \<Rightarrow> bool \<Rightarrow> int list option \<Rightarrow>
     (source_error, int list list \<times> ivec list list) result" where
  "centroid_source_map_and_wrap idx syms taus g validate extend_trs required_rows =
     (let n = length idx;
          split = map (\<lambda>(s, t). map (\<lambda>x. snap_to_grid_and_split_wrap (source_image g s t x) g) idx) (zip syms taus);
          images = map (map fst) split;
          wraps = map (map (\<lambda>p. i8_vec (snd p))) split
      in case first_hit (\<lambda>x. flat_key g x < - grid_size g \<or> grid_size g \<le> flat_key g x) idx of
           Some i \<Rightarrow> Inl (CentroidIndex i)
         | None \<Rightarrow>
             let lookup = centroid_lookup g idx;
                 perm = map (map (\<lambda>v. lookup ! nat (flat_key g v))) images
             in andthen (required_ops (length syms) extend_trs required_rows) (\<lambda>required.
                andthen (if validate \<or> required_rows \<noteq> None then closure_check images perm required else Inr ()) (\<lambda>_.
                  let hidden = \<lambda>row. required_rows \<noteq> None \<and> sort row \<noteq> map int [0..<n];
                      wraps' = map2 (\<lambda>row w. if hidden row then replicate n (0, 0, 0) else w) perm wraps;
                      perm' = map (\<lambda>row. map to_i32 (if hidden row then replicate n (- 1) else row)) perm
                  in Inr (if extend_trs then (perm' @ perm', wraps' @ wraps') else (perm', wraps')))))"

section \<open>Images\<close>

text \<open>The grid point nearest to the image of a centroid, before it is brought back into the cell.\<close>

definition nearest :: "ivec \<Rightarrow> imat \<Rightarrow> rvec \<Rightarrow> ivec \<Rightarrow> ivec" where
  "nearest g s t x = snapped (times_grid (rmat_vec s (rsub (over_grid (of_ivec x) g) (over_turn t))) g)"

lemma half_even_near: "\<bar>x - of_int (half_even x)\<bar> \<le> 1 / 2"
  unfolding half_even_def Let_def by (auto simp: abs_le_iff)

definition row_closed :: "ivec \<Rightarrow> imat \<Rightarrow> rvec \<Rightarrow> ivec list \<Rightarrow> bool" where
  "row_closed g s t idx \<longleftrightarrow> distinct (map (\<lambda>x. vmod (nearest g s t x) g) idx) \<and> (\<forall>x\<in>set idx. vmod (nearest g s t x) g \<in> set idx)"

lemma snap_split: "snap_to_grid_and_split_wrap (source_image g s t x) g = (vmod (nearest g s t x) g, vdiv (nearest g s t x) g)"
proof -
  have "vadd n (vneg (vmul (vdiv n g) g)) = vmod n g" for n
    by (cases n; cases g) (simp add: minus_div_mult_eq_mod [symmetric])
  then show ?thesis by (simp add: snap_to_grid_and_split_wrap_def source_image_def nearest_def Let_def)
qed

lemma snap_parts: "n = vadd (vmod n g) (vmul (vdiv n g) g)"
  by (cases n; cases g) (simp add: mod_div_mult_eq)

lemma put_some:
  "length vals = length idx \<Longrightarrow> j \<in> set idx \<Longrightarrow> j < length base \<Longrightarrow> \<exists>k<length idx. idx ! k = j \<and> np_put idx vals base ! j = vals ! k"
proof (induction idx vals arbitrary: base rule: list_induct2')
  case (4 i js v vs)
  have step: "np_put (i # js) (v # vs) base = np_put js vs (base[i := v])" by (simp add: np_put_def)
  show ?case
  proof (cases "j \<in> set js")
    case True
    then obtain k where "k < length js" "js ! k = j" "np_put js vs (base[i := v]) ! j = vs ! k"
      using 4(1) [of "base[i := v]"] 4(2,4) by auto
    then show ?thesis unfolding step by (intro exI [of _ "Suc k"]) simp
  next
    case False
    then show ?thesis unfolding step using 4 by (intro exI [of _ 0]) (simp add: np_put_other)
  qed
qed simp_all

lemma lookup_at:
  assumes "\<forall>x\<in>set idx. in_grid g x" "in_grid g v"
  shows "if v \<in> set idx then \<exists>k<length idx. idx ! k = v \<and> centroid_lookup g idx ! nat (flat_key g v) = int k
    else centroid_lookup g idx ! nat (flat_key g v) = - 1"
proof -
  have pos: "flat_position g x = nat (flat_key g x)" if "in_grid g x" for x using key_range [OF that] by (simp add: flat_position_def Let_def)
  have size: "nat (flat_key g v) < nat (grid_size g)" using key_range [OF assms(2)] by linarith
  have inj: "nat (flat_key g x) = nat (flat_key g v) \<longleftrightarrow> x = v" if "in_grid g x" for x
    using key_range [OF that] key_range [OF assms(2)] key_inj [OF that assms(2)] by (simp add: eq_nat_nat_iff)
  have mem: "nat (flat_key g v) \<in> set (map (flat_position g) idx) \<longleftrightarrow> v \<in> set idx"
  proof
    assume "nat (flat_key g v) \<in> set (map (flat_position g) idx)"
    then obtain x where x: "x \<in> set idx" "flat_position g x = nat (flat_key g v)" by auto
    have "in_grid g x" using assms(1) x(1) by blast
    have "nat (flat_key g x) = nat (flat_key g v)" using x(2) unfolding pos [OF \<open>in_grid g x\<close>] .
    then have "x = v" unfolding inj [OF \<open>in_grid g x\<close>] .
    then show "v \<in> set idx" using x(1) by simp
  next
    assume "v \<in> set idx"
    then have "flat_position g v \<in> set (map (flat_position g) idx)" by simp
    then show "nat (flat_key g v) \<in> set (map (flat_position g) idx)" unfolding pos [OF assms(2)] .
  qed
  show ?thesis
  proof (cases "v \<in> set idx")
    case True
    then obtain k where k: "k < length idx" "map (flat_position g) idx ! k = nat (flat_key g v)"
        "centroid_lookup g idx ! nat (flat_key g v) = map int [0..<length idx] ! k"
      using put_some [of "map int [0..<length idx]" "map (flat_position g) idx" "nat (flat_key g v)" "replicate (nat (grid_size g)) (- 1)"] mem size
      by (auto simp: centroid_lookup_def)
    have "in_grid g (idx ! k)" using assms(1) k(1) by simp
    then have "idx ! k = v" using k(1,2) pos inj by simp
    then show ?thesis using True k(1,3) by auto
  next
    case False
    then show ?thesis using mem size by (simp add: centroid_lookup_def np_put_other)
  qed
qed

section \<open>One row\<close>

definition source_row :: "ivec \<Rightarrow> ivec list \<Rightarrow> imat \<Rightarrow> rvec \<Rightarrow> int list" where
  "source_row g idx s t = map (\<lambda>x. centroid_lookup g idx ! nat (flat_key g (vmod (nearest g s t x) g))) idx"

lemma source_entry:
  assumes "grid_ok g" "\<forall>x\<in>set idx. in_grid g x" "m < length idx"
  shows "if vmod (nearest g s t (idx ! m)) g \<in> set idx
    then \<exists>k<length idx. source_row g idx s t ! m = int k \<and> idx ! k = vmod (nearest g s t (idx ! m)) g
    else source_row g idx s t ! m = - 1"
  using lookup_at [OF assms(2), of "vmod (nearest g s t (idx ! m)) g"] assms(1,3) by (auto simp: source_row_def)

lemma source_row_length [simp]: "length (source_row g idx s t) = length idx"
  by (simp add: source_row_def)

lemma source_row_distinct:
  assumes "grid_ok g" "\<forall>x\<in>set idx. in_grid g x" "\<forall>x\<in>set idx. vmod (nearest g s t x) g \<in> set idx"
  shows "distinct (source_row g idx s t) \<longleftrightarrow> distinct (map (\<lambda>x. vmod (nearest g s t x) g) idx)"
proof -
  have at: "\<exists>k<length idx. source_row g idx s t ! m = int k \<and> idx ! k = vmod (nearest g s t (idx ! m)) g" if "m < length idx" for m
    using source_entry [OF assms(1,2) that, of s t] assms(3) that by simp
  have "source_row g idx s t ! a = source_row g idx s t ! b \<longleftrightarrow> vmod (nearest g s t (idx ! a)) g = vmod (nearest g s t (idx ! b)) g"
    if "a < length idx" "b < length idx" for a b
  proof
    assume "source_row g idx s t ! a = source_row g idx s t ! b"
    then show "vmod (nearest g s t (idx ! a)) g = vmod (nearest g s t (idx ! b)) g" using at [OF that(1)] at [OF that(2)] by auto
  next
    assume "vmod (nearest g s t (idx ! a)) g = vmod (nearest g s t (idx ! b)) g"
    then show "source_row g idx s t ! a = source_row g idx s t ! b" using that by (simp add: source_row_def)
  qed
  then show ?thesis by (simp add: distinct_conv_nth)
qed

lemma source_row_perm:
  assumes "grid_ok g" "\<forall>x\<in>set idx. in_grid g x"
  shows "sort (source_row g idx s t) = map int [0..<length idx] \<longleftrightarrow> row_closed g s t idx"
    "row_closed g s t idx \<Longrightarrow> distinct (source_row g idx s t) \<and> set (source_row g idx s t) = {0..<int (length idx)}"
proof -
  let ?row = "source_row g idx s t" and ?n = "length idx"
  note at = source_entry [OF assms, of _ s t]
  show closed: "distinct ?row \<and> set ?row = {0..<int ?n}" if rc: "row_closed g s t idx"
  proof -
    have inside: "\<forall>x\<in>set idx. vmod (nearest g s t x) g \<in> set idx" using rc by (simp add: row_closed_def)
    then have d: "distinct ?row" using source_row_distinct [OF assms inside] rc by (simp add: row_closed_def)
    have "set ?row \<subseteq> {0..<int ?n}"
    proof
      fix v assume "v \<in> set ?row"
      then obtain m where m: "m < ?n" "?row ! m = v" by (metis in_set_conv_nth source_row_length)
      then show "v \<in> {0..<int ?n}" using at [OF m(1)] inside by auto
    qed
    moreover have "card (set ?row) = card {0..<int ?n}" using distinct_card [OF d] by simp
    ultimately show ?thesis using d by (simp add: card_subset_eq)
  qed
  show "sort ?row = map int [0..<?n] \<longleftrightarrow> row_closed g s t idx"
  proof
    assume "row_closed g s t idx"
    from closed [OF this] show "sort ?row = map int [0..<?n]"
      by (intro sorted_distinct_set_unique) (auto simp: image_int_atLeastLessThan distinct_map sorted_map)
  next
    assume sorted: "sort ?row = map int [0..<?n]"
    have "distinct (sort ?row)" "set (sort ?row) = {0..<int ?n}" unfolding sorted by (auto simp: image_int_atLeastLessThan distinct_map)
    then have d: "distinct ?row" and r: "set ?row = {0..<int ?n}" by simp_all
    have inside: "vmod (nearest g s t x) g \<in> set idx" if "x \<in> set idx" for x
    proof (rule ccontr)
      assume no: "vmod (nearest g s t x) g \<notin> set idx"
      obtain m where m: "m < ?n" "idx ! m = x" using \<open>x \<in> set idx\<close> by (meson in_set_conv_nth)
      then have "?row ! m = - 1" using at [OF m(1)] no by simp
      moreover have "?row ! m \<in> set ?row" using m(1) by simp
      ultimately show False using r by simp
    qed
    then show "row_closed g s t idx" using d source_row_distinct [OF assms, of s t] by (simp add: row_closed_def)
  qed
qed

text \<open>What a row of the result says: the snapped image is the source centroid plus whole cells, which are the wrap.\<close>

definition source_row_ok :: "ivec \<Rightarrow> imat \<Rightarrow> rvec \<Rightarrow> ivec list \<Rightarrow> int list \<Rightarrow> ivec list \<Rightarrow> bool" where
  "source_row_ok g s t idx prow wrow \<longleftrightarrow>
     (if row_closed g s t idx
      then distinct prow \<and> set prow = {0..<int (length idx)} \<and> length wrow = length idx \<and>
        (\<forall>m<length idx. \<exists>w. nearest g s t (idx ! m) = vadd (idx ! nat (prow ! m)) (vmul w g) \<and> wrow ! m = i8_vec w)
      else prow = replicate (length idx) (- 1) \<and> wrow = replicate (length idx) (0, 0, 0))"

lemma source_row_right:
  fixes s :: imat and t :: rvec
  assumes "grid_ok g" "\<forall>x\<in>set idx. in_grid g x" "length idx \<le> 2 ^ 31"
  defines "row \<equiv> source_row g idx s t" and "wraps \<equiv> map (\<lambda>x. i8_vec (vdiv (nearest g s t x) g)) idx"
    and "hidden \<equiv> \<lambda>row. sort row \<noteq> map int [0..<length idx]"
  shows "source_row_ok g s t idx (map to_i32 (if hidden row then replicate (length idx) (- 1) else row))
    (if hidden row then replicate (length idx) (0, 0, 0) else wraps)"
proof (cases "row_closed g s t idx")
  case True
  have p: "distinct row" "set row = {0..<int (length idx)}" "\<not> hidden row"
    using source_row_perm [OF assms(1,2), of s t] True by (simp_all add: row_def hidden_def)
  have "map to_i32 row = row"
  proof (rule map_idI)
    fix x assume "x \<in> set row"
    then show "to_i32 x = x" using p(2) assms(3) by (intro to_i32_id) auto
  qed
  moreover have "\<exists>w. nearest g s t (idx ! m) = vadd (idx ! nat (row ! m)) (vmul w g) \<and> wraps ! m = i8_vec w" if m: "m < length idx" for m
  proof -
    have "vmod (nearest g s t (idx ! m)) g \<in> set idx" using True m by (simp add: row_closed_def)
    then have "idx ! nat (row ! m) = vmod (nearest g s t (idx ! m)) g" using source_entry [OF assms(1,2) m, of s t] by (auto simp: row_def)
    then show ?thesis using snap_parts [of "nearest g s t (idx ! m)" g] m
      by (intro exI [of _ "vdiv (nearest g s t (idx ! m)) g"]) (simp add: wraps_def)
  qed
  moreover have "length wraps = length idx" by (simp add: wraps_def)
  ultimately show ?thesis unfolding source_row_ok_def if_P [OF True] if_not_P [OF p(3)] using p(1,2) by simp
next
  case False
  then have "hidden row" using source_row_perm(1) [OF assms(1,2), of s t] by (simp add: row_def hidden_def)
  then show ?thesis using False by (simp add: source_row_ok_def to_i32_def)
qed

section \<open>The whole map\<close>

lemma source_row_legal:
  assumes "grid_ok g" "\<forall>x\<in>set idx. in_grid g x"
  shows "(\<forall>m<length idx. 0 \<le> source_row g idx s t ! m) \<and> distinct (source_row g idx s t) \<longleftrightarrow> row_closed g s t idx"
proof
  assume l: "(\<forall>m<length idx. 0 \<le> source_row g idx s t ! m) \<and> distinct (source_row g idx s t)"
  have "vmod (nearest g s t x) g \<in> set idx" if x: "x \<in> set idx" for x
  proof -
    obtain m where m: "m < length idx" "idx ! m = x" using x by (meson in_set_conv_nth)
    then have "source_row g idx s t ! m \<noteq> - 1" using l by (metis neg_0_le_iff_le not_one_le_zero)
    then show ?thesis using source_entry [OF assms m(1), of s t] unfolding m(2) by meson
  qed
  then show "row_closed g s t idx" using l source_row_distinct [OF assms, of s t] by (simp add: row_closed_def)
next
  assume rc: "row_closed g s t idx"
  have "0 \<le> source_row g idx s t ! m" if "m < length idx" for m
  proof -
    have "source_row g idx s t ! m \<in> set (source_row g idx s t)" using that by simp
    then show ?thesis using source_row_perm(2) [OF assms rc] by auto
  qed
  then show "(\<forall>m<length idx. 0 \<le> source_row g idx s t ! m) \<and> distinct (source_row g idx s t)"
    using source_row_perm(2) [OF assms rc] by blast
qed

lemma repeated_count: "(\<exists>x\<in>set xs. 1 < count_list xs x) \<longleftrightarrow> \<not> distinct xs"
proof (induction xs)
  case (Cons y xs)
  show ?case
  proof (cases "y \<in> set xs")
    case True
    then have "0 < count_list xs y" by (metis count_list_0_iff gr0I)
    then show ?thesis using True by auto
  next
    case False
    then have "count_list xs y = 0" by (simp add: count_list_0_iff)
    then show ?thesis using Cons False by auto
  qed
qed simp

lemma found: "find P xs = Some x \<Longrightarrow> P x \<and> x \<in> set xs"
  by (auto simp: find_Some_iff)

lemma closure_check_cases:
  assumes "\<forall>s\<in>set required. s < length perm"
  shows "if \<forall>s\<in>set required. (\<forall>m<length (perm ! s). 0 \<le> perm ! s ! m) \<and> distinct (perm ! s) then closure_check images perm required = Inr ()
    else \<exists>s\<in>set required. (\<exists>m<length (perm ! s). perm ! s ! m < 0 \<and> closure_check images perm required = Inl (OrbitOpen s m (images ! s ! m))) \<or>
      (\<not> distinct (perm ! s) \<and> closure_check images perm required = Inl (NotPermutationRow s))"
proof -
  let ?cells = "concat (map (\<lambda>s. map (\<lambda>m. (s, m)) [0..<length (perm ! s)]) [0..<length perm])"
  let ?P = "\<lambda>(s, m). s \<in> set required \<and> perm ! s ! m < 0"
  have cells: "(s, m) \<in> set ?cells \<longleftrightarrow> s < length perm \<and> m < length (perm ! s)" for s m by (auto simp: image_iff)
  show ?thesis
  proof (cases "find ?P ?cells")
    case (Some c)
    obtain s m where c: "c = (s, m)" by (cases c)
    have f: "?P c" "c \<in> set ?cells" using found [OF Some] by blast+
    then have bad: "s \<in> set required" "m < length (perm ! s)" "perm ! s ! m < 0" using cells [of s m] unfolding c by simp_all
    then have "\<not> (\<forall>s\<in>set required. (\<forall>m<length (perm ! s). 0 \<le> perm ! s ! m) \<and> distinct (perm ! s))" by (meson not_le)
    then show ?thesis using bad Some unfolding closure_check_def c by auto
  next
    case None
    then have none: "\<not> ?P c" if "c \<in> set ?cells" for c using that by (auto simp: find_None_iff)
    have ok: "0 \<le> perm ! s ! m" if "s \<in> set required" "m < length (perm ! s)" for s m
      using none [of "(s, m)"] cells [of s m] assms that by (auto simp: not_less)
    show ?thesis
    proof (cases "find (\<lambda>s. \<exists>x\<in>set (perm ! s). 1 < count_list (perm ! s) x) required")
      case None2: None
      then have "distinct (perm ! s)" if "s \<in> set required" for s using that repeated_count [of "perm ! s"] by (auto simp: find_None_iff)
      then show ?thesis using None None2 ok by (simp add: closure_check_def)
    next
      case (Some s)
      then have "s \<in> set required" "\<not> distinct (perm ! s)" using repeated_count [of "perm ! s"] found [OF Some] by auto
      then show ?thesis using None Some unfolding closure_check_def by auto
    qed
  qed
qed

lemma source_map_run:
  fixes extend :: bool
  assumes "grid_ok g" "\<forall>x\<in>set idx. in_grid g x" "length idx \<le> 2 ^ 31" "length taus = length syms"
    and "rs \<noteq> []" "\<forall>r\<in>set rs. 0 \<le> r \<and> r < int (length syms * (if extend then 2 else 1))"
  defines "op \<equiv> \<lambda>r. r mod length syms" and "whole \<equiv> \<lambda>s. row_closed g (syms ! s) (taus ! s) idx"
  shows "if \<forall>r\<in>set rs. whole (op (nat r))
    then \<exists>perm wraps. centroid_source_map_and_wrap idx syms taus g validate extend (Some rs) = Inr (perm, wraps) \<and>
      length perm = length syms * (if extend then 2 else 1) \<and> length wraps = length perm \<and>
      (\<forall>r<length perm. source_row_ok g (syms ! op r) (taus ! op r) idx (perm ! r) (wraps ! r))
    else \<exists>e. centroid_source_map_and_wrap idx syms taus g validate extend (Some rs) = Inl e \<and>
      (\<exists>r\<in>set rs. \<not> whole (op (nat r)) \<and> (e = NotPermutationRow (op (nat r)) \<or> (\<exists>m v. e = OrbitOpen (op (nat r)) m v \<and> v \<notin> set idx)))"
proof -
  let ?n = "length idx" and ?k = "length syms" and ?ops = "zip syms taus"
  let ?images = "map (\<lambda>(s, t). map (\<lambda>x. vmod (nearest g s t x) g) idx) ?ops"
  let ?wraps = "map (\<lambda>(s, t). map (\<lambda>x. i8_vec (vdiv (nearest g s t x) g)) idx) ?ops"
  let ?perm = "map (\<lambda>(s, t). source_row g idx s t) ?ops"
  let ?req = "sort (remdups (map (\<lambda>r. nat (r mod int ?k)) rs))"
  let ?hidden = "\<lambda>row. sort row \<noteq> map int [0..<?n]"
  have k: "0 < ?k" using assms(5,6) by (cases rs) (auto split: if_splits)
  have keys: "first_hit (\<lambda>x. flat_key g x < - grid_size g \<or> grid_size g \<le> flat_key g x) idx = None"
    using assms(2) key_range [of g] by (fastforce simp: not_le not_less)
  have req: "required_ops ?k extend (Some rs) = Inr ?req" using assms(5,6) by (auto simp: required_ops_def not_le)
  have in_req: "set ?req = (\<lambda>r. op (nat r)) ` set rs" using assms(6) by (auto simp: op_def nat_mod_distrib)
  have op_k: "op r < ?k" for r using k by (simp add: op_def)
  have row: "?perm ! s = source_row g idx (syms ! s) (taus ! s)" if "s < ?k" for s using that assms(4) by simp
  let ?P = "map (\<lambda>row. map to_i32 (if ?hidden row then replicate ?n (- 1) else row)) ?perm"
  let ?W = "map2 (\<lambda>row w. if ?hidden row then replicate ?n (0, 0, 0) else w) ?perm ?wraps"
  have run: "centroid_source_map_and_wrap idx syms taus g validate extend (Some rs) =
      andthen (closure_check ?images ?perm ?req) (\<lambda>_. Inr (if extend then (?P @ ?P, ?W @ ?W) else (?P, ?W)))"
  proof -
    have split: "map (\<lambda>(s, t). map (\<lambda>x. snap_to_grid_and_split_wrap (source_image g s t x) g) idx) ?ops =
        map (\<lambda>(s, t). map (\<lambda>x. (vmod (nearest g s t x) g, vdiv (nearest g s t x) g)) idx) ?ops" by (simp add: snap_split)
    have images: "map (map fst) (map (\<lambda>(s, t). map (\<lambda>x. (vmod (nearest g s t x) g, vdiv (nearest g s t x) g)) idx) ?ops) = ?images"
      and wraps: "map (map (\<lambda>p. i8_vec (snd p))) (map (\<lambda>(s, t). map (\<lambda>x. (vmod (nearest g s t x) g, vdiv (nearest g s t x) g)) idx) ?ops) = ?wraps"
      by (simp_all add: comp_def case_prod_beta)
    have perm: "map (map (\<lambda>v. centroid_lookup g idx ! nat (flat_key g v))) ?images = ?perm"
      by (simp add: comp_def case_prod_beta source_row_def)
    show ?thesis
      unfolding centroid_source_map_and_wrap_def Let_def split images wraps perm keys req option.case andthen_simps
      by (simp only: option.distinct simp_thms if_True)
  qed
  have ok: "source_row_ok g (syms ! s) (taus ! s) idx (?P ! s) (?W ! s)" if "s < ?k" for s
    using source_row_right [OF assms(1-3), of "syms ! s" "taus ! s"] that assms(4) by (simp split: if_splits)
  have twice: "source_row_ok g (syms ! op r) (taus ! op r) idx ((?P @ ?P) ! r) ((?W @ ?W) ! r)" if "r < 2 * ?k" for r
  proof (cases "r < ?k")
    case False
    then have "op r = r - ?k" using that by (simp add: op_def mod_if)
    then show ?thesis using ok [of "r - ?k"] False that assms(4) by (simp add: nth_append)
  qed (use ok [of r] assms(4) in \<open>simp add: op_def nth_append\<close>)
  have good: "(\<forall>m<length (?perm ! s). 0 \<le> ?perm ! s ! m) \<and> distinct (?perm ! s) \<longleftrightarrow> whole s" if s: "s < ?k" for s
    unfolding row [OF s] whole_def using source_row_legal [OF assms(1,2)] by simp
  have below: "\<forall>s\<in>set ?req. s < length ?perm" using in_req op_k assms(4) by auto
  note check = closure_check_cases [OF below, of ?images]
  show ?thesis
  proof (cases "\<forall>r\<in>set rs. whole (op (nat r))")
    case True
    then have "\<forall>s\<in>set ?req. (\<forall>m<length (?perm ! s). 0 \<le> ?perm ! s ! m) \<and> distinct (?perm ! s)" using good op_k unfolding in_req by blast
    then have c: "closure_check ?images ?perm ?req = Inr ()" using check by (simp only: if_True)
    show ?thesis
    proof (cases extend)
      case ext: True
      show ?thesis unfolding if_P [OF True] run c andthen_simps if_P [OF ext]
        using twice assms(4) by (intro exI [of _ "?P @ ?P"] exI [of _ "?W @ ?W"]) simp
    next
      case ext: False
      have "source_row_ok g (syms ! op r) (taus ! op r) idx (?P ! r) (?W ! r)" if "r < ?k" for r using ok [OF that] that by (simp add: op_def)
      then show ?thesis unfolding if_P [OF True] run c andthen_simps if_not_P [OF ext]
        using assms(4) by (intro exI [of _ ?P] exI [of _ ?W]) simp
    qed
  next
    case False
    then have "\<not> (\<forall>s\<in>set ?req. (\<forall>m<length (?perm ! s). 0 \<le> ?perm ! s ! m) \<and> distinct (?perm ! s))" using good op_k unfolding in_req by blast
    then obtain s where s: "s \<in> set ?req" "(\<exists>m<length (?perm ! s). ?perm ! s ! m < 0 \<and> closure_check ?images ?perm ?req = Inl (OrbitOpen s m (?images ! s ! m))) \<or>
        (\<not> distinct (?perm ! s) \<and> closure_check ?images ?perm ?req = Inl (NotPermutationRow s))"
      using check by (simp only: if_False) blast
    obtain r where r: "r \<in> set rs" "s = op (nat r)" using s(1) unfolding in_req by blast
    have sk: "s < ?k" using r(2) op_k by simp
    have "\<exists>e. closure_check ?images ?perm ?req = Inl e \<and> \<not> whole s \<and> (e = NotPermutationRow s \<or> (\<exists>m v. e = OrbitOpen s m v \<and> v \<notin> set idx))"
      using s(2)
    proof
      assume "\<exists>m<length (?perm ! s). ?perm ! s ! m < 0 \<and> closure_check ?images ?perm ?req = Inl (OrbitOpen s m (?images ! s ! m))"
      then obtain m where m: "m < ?n" "?perm ! s ! m < 0" "closure_check ?images ?perm ?req = Inl (OrbitOpen s m (?images ! s ! m))"
        unfolding row [OF sk] by auto
      have "?images ! s ! m = vmod (nearest g (syms ! s) (taus ! s) (idx ! m)) g" using sk m(1) assms(4) by simp
      then have "?images ! s ! m \<notin> set idx" using m(2) source_entry [OF assms(1,2) m(1), of "syms ! s" "taus ! s"] unfolding row [OF sk] by auto
      moreover have "\<not> whole s" using good [OF sk] m(1,2) unfolding row [OF sk] by auto
      ultimately show ?thesis using m(3) by blast
    next
      assume "\<not> distinct (?perm ! s) \<and> closure_check ?images ?perm ?req = Inl (NotPermutationRow s)"
      then show ?thesis using good [OF sk] by blast
    qed
    then show ?thesis unfolding if_not_P [OF False] run r(2) using r(1) by (auto simp: andthen_eq_Inl)
  qed
qed

section \<open>Property\<close>

text \<open>
  C8: the source map is exact. For centroids on the grid and legal required rows it returns when every required operation carries the
  snapped centroids onto the centroids one to one: then every row that does is a permutation, the snapped image of a centroid
  is its source plus whole cells, the stored wrap is those cells in int8, rows of other operations are minus one with zero
  wraps, and the time-reversed half repeats the spatial half. Otherwise it refuses, and names a required operation that does
  not, with an image that is no centroid if there is one.
\<close>

theorem source_map_exact:
  assumes "grid_ok g" "\<forall>x\<in>set idx. in_grid g x" "length idx \<le> 2 ^ 31" "length taus = length syms"
    and "rs \<noteq> []" "\<forall>r\<in>set rs. 0 \<le> r \<and> r < int (length syms * (if extend then 2 else 1))"
  shows "if \<forall>r\<in>set rs. row_closed g (syms ! (nat r mod length syms)) (taus ! (nat r mod length syms)) idx
    then \<exists>perm wraps. centroid_source_map_and_wrap idx syms taus g validate extend (Some rs) = Inr (perm, wraps) \<and>
      length perm = length syms * (if extend then 2 else 1) \<and> length wraps = length perm \<and>
      (\<forall>r<length perm. source_row_ok g (syms ! (r mod length syms)) (taus ! (r mod length syms)) idx (perm ! r) (wraps ! r))
    else \<exists>e. centroid_source_map_and_wrap idx syms taus g validate extend (Some rs) = Inl e \<and>
      (\<exists>r\<in>set rs. \<not> row_closed g (syms ! (nat r mod length syms)) (taus ! (nat r mod length syms)) idx \<and>
        (e = NotPermutationRow (nat r mod length syms) \<or> (\<exists>m v. e = OrbitOpen (nat r mod length syms) m v \<and> v \<notin> set idx)))"
  by (rule source_map_run [OF assms])

text \<open>Two centroids half a cell apart and the half translation: they trade places.\<close>

lemma half_even_int [simp]: "half_even (of_int k) = k"
  by (simp add: half_even_def)

lemma half_translation:
  "nearest (2, 1, 1) mat_id (pi, 0, 0) (0, 0, 0) = (- 1, 0, 0)" "nearest (2, 1, 1) mat_id (pi, 0, 0) (1, 0, 0) = (0, 0, 0)"
  using half_even_int [of "- 1"] half_even_int [of 0] by (simp_all add: nearest_def mat_id_def)

theorem source_map_exact_witness:
  "\<exists>perm wraps. centroid_source_map_and_wrap [(0, 0, 0), (1, 0, 0)] [mat_id] [(pi, 0, 0)] (2, 1, 1) True True (Some [1]) = Inr (perm, wraps) \<and>
     length perm = 2 \<and> length wraps = 2 \<and> set (perm ! 1) = {0, 1}"
proof -
  let ?idx = "[(0, 0, 0), (1, 0, 0)] :: ivec list"
  have closed: "row_closed (2, 1, 1) mat_id (pi, 0, 0) ?idx" by (simp add: row_closed_def half_translation)
  have hyp: "grid_ok (2, 1, 1)" "\<forall>x\<in>set ?idx. in_grid (2, 1, 1) x" "length ?idx \<le> 2 ^ 31" "length [(pi, 0, 0)] = length [mat_id]"
    "[1 :: int] \<noteq> []" "\<forall>r\<in>set [1 :: int]. 0 \<le> r \<and> r < int (length [mat_id] * (if True then 2 else 1))" by simp_all
  have all: "\<forall>r\<in>set [1 :: int]. row_closed (2, 1, 1) ([mat_id] ! (nat r mod length [mat_id])) ([(pi, 0, 0)] ! (nat r mod length [mat_id])) ?idx"
    using closed by simp
  obtain perm wraps where run: "centroid_source_map_and_wrap ?idx [mat_id] [(pi, 0, 0)] (2, 1, 1) True True (Some [1]) = Inr (perm, wraps)"
      "length perm = 2" "length wraps = length perm" "\<forall>r<length perm. source_row_ok (2, 1, 1) ([mat_id] ! (r mod length [mat_id])) ([(pi, 0, 0)] ! (r mod length [mat_id])) ?idx (perm ! r) (wraps ! r)"
    using source_map_exact [OF hyp, of True] unfolding if_P [OF all] by auto
  have "source_row_ok (2, 1, 1) mat_id (pi, 0, 0) ?idx (perm ! 1) (wraps ! 1)" using run(4) [rule_format, of 1] run(2) by simp
  then have "set (perm ! 1) = {0..<2}" using closed by (simp add: source_row_ok_def)
  moreover have "{0..<2 :: int} = {0, 1}" by auto
  ultimately show ?thesis using run(1-3) by auto
qed

end
