(* ===== verification/CentroidPlan.thy ===== *)
theory CentroidPlan
  imports OrbitColumns GroupedMaps SourceMap
begin

text \<open>
  \<open>build_centroid_k_unfold_plan\<close> of \<open>src/gw/centroid_k_unfold.py\<close>: the source map of the centroids, the orbits of its
  rows, the grouped layout that packs them, and the action and wrap tables carried into the packed order. The plan it
  builds is shown to be one on which the batches and the column tiles never refuse.
\<close>

section \<open>The code\<close>

datatype plan_error =
    PlanMesh int int
  | PlanSpinor int
  | PlanSource source_error
  | PlanOrbits label_error
  | PlanLayout layout_error
  | PlanRows int int
  | PlanShape nat nat
  | PlanParent

record centroid_plan =
  cp_unfold :: unfold_plan
  cp_irr_idx :: "int list"
  cp_layout :: square_layout
  cp_n_sym_spatial :: nat
  cp_nspinor :: int

text \<open>A table of rows as the two-dimensional array it is, and its rows back.\<close>

definition rows_array :: "nat \<Rightarrow> 'a list list \<Rightarrow> 'a ndarray" where
  "rows_array n rows = nd_make [int (length rows), int n] (\<lambda>ix. rows ! nat (ix ! 0) ! nat (ix ! 1))"

definition array_rows :: "'a ndarray \<Rightarrow> 'a list list" where
  "array_rows A = map (\<lambda>r. map (\<lambda>j. nd_at A [r, j]) [0..nd_shape A ! 1 - 1]) [0..nd_shape A ! 0 - 1]"

definition plan_layout :: "int list \<Rightarrow> int list \<Rightarrow> square_layout option \<Rightarrow> nat \<Rightarrow> (plan_error, square_layout) result" where
  "plan_layout groups shape layout n =
     (case layout of
        None \<Rightarrow> map_sum PlanLayout (\<lambda>x. x) (build_square_grouped_shard_layout groups shape)
      | Some sq \<Rightarrow> if gl_n_logical (sq_axis sq) \<noteq> int n then Inl (PlanRows (gl_n_logical (sq_axis sq)) (int n)) else Inr sq)"

definition build_centroid_k_unfold_plan ::
    "int \<times> int \<Rightarrow> int \<Rightarrow> imat list \<Rightarrow> rvec list \<Rightarrow> int list \<Rightarrow> int list \<Rightarrow> ivec list \<Rightarrow> ivec \<Rightarrow> nat \<Rightarrow> square_layout option \<Rightarrow>
     (plan_error, centroid_plan) result option" where
  "build_centroid_k_unfold_plan mesh nspinor syms taus irr_idx sym_idx idx g n_parent layout =
     (if fst mesh \<noteq> snd mesh then Some (Inl (PlanMesh (fst mesh) (snd mesh)))
      else if nspinor \<noteq> 1 \<and> nspinor \<noteq> 2 \<and> nspinor \<noteq> 4 then Some (Inl (PlanSpinor nspinor))
      else case centroid_source_map_and_wrap idx syms taus g True True (Some sym_idx) of
        Inl e \<Rightarrow> Some (Inl (PlanSource e))
      | Inr (sym_perm, wraps) \<Rightarrow>
          let available = np_flatnonzero (map (list_all (\<lambda>x. 0 \<le> x)) sym_perm); rows = np_take sym_perm available
          in Option.bind (permutation_orbit_labels (length idx) rows) (\<lambda>labels. Some (
               andthen (map_sum PlanOrbits (\<lambda>x. x) labels) (\<lambda>groups.
               andthen (plan_layout groups [fst mesh, snd mesh] layout (length idx)) (\<lambda>sq.
               andthen (map_sum PlanLayout (\<lambda>x. x) (pack_permutations_host (sq_axis sq) (int (length idx)) rows True)) (\<lambda>packed.
               andthen (map_sum PlanLayout (\<lambda>x. x) (pack_host (sq_axis sq) (rows_array (length idx) wraps) 1 (0, 0, 0))) (\<lambda>packed_wraps.
                 let n_padded = nat (gl_n_padded (sq_axis sq));
                     packed_perm = np_put available packed (replicate (length sym_perm) (replicate n_padded (- 1)))
                 in if length sym_idx \<noteq> length irr_idx then Inl (PlanShape (length irr_idx) (length sym_idx))
                    else if \<exists>p\<in>set irr_idx. p < 0 \<or> int n_parent \<le> p then Inl PlanParent
                    else Inr \<lparr>cp_unfold = \<lparr>up_sym_idx = sym_idx, up_sym_perm = packed_perm, up_wraps = array_rows packed_wraps,
                                up_active = gl_active_mask (sq_axis sq), up_packed = n_padded\<rparr>,
                              cp_irr_idx = irr_idx, cp_layout = sq, cp_n_sym_spatial = length syms, cp_nspinor = nspinor\<rparr>)))))))"

section \<open>Tables in the packed order\<close>

lemma packed_wrap_rows:
  assumes "authenticated l" "gl_n_logical l = int n" "\<forall>w\<in>set wraps. length w = n"
  shows "\<exists>B. pack_host l (rows_array n wraps) 1 fill = Inr B \<and> length (array_rows B) = length wraps \<and>
    (\<forall>r<length wraps. \<forall>m<n. array_rows B ! r ! nat (row_slot l (int m)) = wraps ! r ! m)"
proof -
  let ?A = "rows_array n wraps" and ?N = "gl_n_padded l"
  let ?B = "nd_make [int (length wraps), ?N] (\<lambda>ix. let c = gl_packed_to_canonical l ! nat (ix ! 1) in if 0 \<le> c then nd_at ?A (ix[1 := c]) else fill)"
  have ax: "norm_axis 1 ?A = Inr 1" by (simp add: norm_axis_def nd_dim_def rows_array_def)
  have sh: "nd_shape ?A = [int (length wraps), int n]" by (simp add: rows_array_def)
  have run: "pack_host l ?A 1 fill = Inr ?B"
    using ax assms(2) sh unfolding One_nat_def by (simp add: pack_host_def lift_layout_pad_def)
  have N: "0 \<le> ?N" using validate_facts(3,4,5) [OF assms(1)] by simp
  have "array_rows ?B ! r ! nat (row_slot l (int m)) = wraps ! r ! m" if r: "r < length wraps" and m: "m < n" for r m
  proof -
    note slot = view_facts(1) [OF assms(1), of "int m"]
    have s: "0 \<le> row_slot l (int m)" "row_slot l (int m) < ?N" "slot_row l (row_slot l (int m)) = int m" using slot m assms(2) by auto
    have "array_rows ?B ! r ! nat (row_slot l (int m)) = nd_at ?B [int r, row_slot l (int m)]"
      using r s(1,2) by (simp add: array_rows_def)
    also have "\<dots> = nd_at ?A [int r, int m]" using r s by (simp add: nd_make_at slot_row_def)
    also have "\<dots> = wraps ! r ! m" using r m by (simp add: rows_array_def nd_make_at)
    finally show ?thesis .
  qed
  then show ?thesis using run by (intro exI [of _ ?B]) (simp add: array_rows_def)
qed

lemma packed_perm_rows:
  assumes "r < length perm" "list_all (\<lambda>x. 0 \<le> x) (perm ! r)"
  defines "available \<equiv> np_flatnonzero (map (list_all (\<lambda>x. 0 \<le> x)) perm)"
  shows "np_put available (map f (np_take perm available)) (replicate (length perm) base) ! r = f (perm ! r)"
    "perm ! r \<in> set (np_take perm available)"
proof -
  have r: "r \<in> set available" using assms(1,2) by (simp add: available_def np_flatnonzero_def)
  then obtain k where k: "k < length available" "available ! k = r" by (meson in_set_conv_nth)
  have d: "distinct available" by (simp add: available_def np_flatnonzero_def)
  have "np_put available (map f (np_take perm available)) (replicate (length perm) base) ! (available ! k) = map f (np_take perm available) ! k"
    using k assms(1) d by (intro np_put_nth) (simp_all add: np_take_def)
  then show "np_put available (map f (np_take perm available)) (replicate (length perm) base) ! r = f (perm ! r)"
    using k by (simp add: np_take_def)
  show "perm ! r \<in> set (np_take perm available)" using r by (simp add: np_take_def)
qed

text \<open>A canonical permutation that keeps every row on its shard, seen through a layout.\<close>

definition shard_local :: "grouped_layout \<Rightarrow> int list \<Rightarrow> bool" where
  "shard_local l row \<longleftrightarrow> distinct row \<and> set row = {0..<gl_n_logical l} \<and>
     (\<forall>i. 0 \<le> i \<and> i < gl_n_logical l \<longrightarrow> row_slot l i div gl_shard_size l = row_slot l (row ! nat i) div gl_shard_size l)"

lemma shard_local_length: "authenticated l \<Longrightarrow> shard_local l row \<Longrightarrow> int (length row) = gl_n_logical l"
  using distinct_card [of row] validate_facts(1) [of l l] by (simp add: shard_local_def)

lemma packed_local_row:
  assumes "authenticated l" "shard_local l row"
  shows "distinct (packed_row l row)" "set (packed_row l row) = {0..<gl_n_padded l}"
    "\<forall>j<nat (gl_n_padded l). gl_active_mask l ! j \<longrightarrow> gl_active_mask l ! nat (packed_row l row ! j)"
    "\<forall>j<nat (gl_n_padded l). nat (packed_row l row ! j) div nat (gl_shard_size l) = j div nat (gl_shard_size l)"
    "\<forall>i. 0 \<le> i \<and> i < gl_n_logical l \<longrightarrow> packed_row l row ! nat (row_slot l i) = row_slot l (row ! nat i)"
proof -
  let ?N = "gl_n_padded l" and ?s = "gl_shard_size l"
  have len: "int (length row) = gl_n_logical l" using shard_local_length [OF assms] .
  have range: "\<forall>x\<in>set row. 0 \<le> x \<and> x < gl_n_logical l" and d: "distinct row" using assms(2) by (simp_all add: shard_local_def)
  have N: "0 \<le> ?N" using validate_facts(3,4,5) [OF assms(1)] by simp
  show dp: "distinct (packed_row l row)" using packed_row_distinct [OF assms(1) len range] d by simp
  have sub: "set (packed_row l row) \<subseteq> {0..<?N}" using packed_row_range [OF assms(1) len range] by auto
  moreover have "card (set (packed_row l row)) = card {0..<?N}" using distinct_card [OF dp] by simp
  ultimately show "set (packed_row l row) = {0..<?N}" by (simp add: card_subset_eq)
  have at: "0 \<le> packed_row l row ! j \<and> packed_row l row ! j < ?N" if "j < nat ?N" for j
  proof -
    have "packed_row l row ! j \<in> set (packed_row l row)" using that by simp
    then show ?thesis using sub by auto
  qed
  have mask: "gl_active_mask l ! nat j \<longleftrightarrow> 0 \<le> slot_row l j" if "0 \<le> j" "j < ?N" for j
    using validate_facts(7) [OF assms(1)] layout_lengths(1) [OF assms(1)] that by (simp add: slot_row_def)
  have conj: "packed_row l row ! j = conjugated (slot_row l) (row_slot l) (\<lambda>i. row ! nat i) (int j)" if "j < nat ?N" for j
    using packed_row_nth [of "int j" l row] that by simp
  show "\<forall>j<nat ?N. gl_active_mask l ! j \<longrightarrow> gl_active_mask l ! nat (packed_row l row ! j)"
  proof (intro allI impI)
    fix j assume j: "j < nat ?N" "gl_active_mask l ! j"
    then have src: "0 \<le> slot_row l (int j)" using mask [of "int j"] by simp
    then have "slot_row l (int j) < gl_n_logical l" using view_facts(2) [OF assms(1), of "int j"] j(1) by simp
    then have "0 \<le> row ! nat (slot_row l (int j))" "row ! nat (slot_row l (int j)) < gl_n_logical l"
      using src range row_in_range [OF len] by blast+
    then have "slot_row l (packed_row l row ! j) = row ! nat (slot_row l (int j))"
      using view_facts(1) [OF assms(1)] src conj [OF j(1)] by (simp add: conjugated_def)
    then show "gl_active_mask l ! nat (packed_row l row ! j)"
      using mask [of "packed_row l row ! j"] at [OF j(1)] \<open>0 \<le> row ! nat (slot_row l (int j))\<close> by simp
  qed
  have loc: "\<forall>j\<in>set [0..?N - 1]. j div ?s = packed_row l row ! nat j div ?s"
    using packed_row_local [OF assms(1) len range, of ?s] assms(2) unfolding shard_local_def by blast
  show "\<forall>j<nat ?N. nat (packed_row l row ! j) div nat ?s = j div nat ?s"
  proof (intro allI impI)
    fix j assume j: "j < nat ?N"
    have "int j \<in> set [0..?N - 1]" using j by auto
    then have "int j div ?s = packed_row l row ! j div ?s" using loc by fastforce
    then have "nat (int j div ?s) = nat (packed_row l row ! j div ?s)" by simp
    then show "nat (packed_row l row ! j) div nat ?s = j div nat ?s"
      using at [OF j] validate_facts(3) [OF assms(1)] by (simp add: nat_div_distrib)
  qed
  show "\<forall>i. 0 \<le> i \<and> i < gl_n_logical l \<longrightarrow> packed_row l row ! nat (row_slot l i) = row_slot l (row ! nat i)"
  proof (intro allI impI)
    fix i assume i: "0 \<le> i \<and> i < gl_n_logical l"
    then have s: "0 \<le> row_slot l i" "row_slot l i < ?N" "slot_row l (row_slot l i) = i" using view_facts(1) [OF assms(1)] by auto
    show "packed_row l row ! nat (row_slot l i) = row_slot l (row ! nat i)"
      using packed_row_nth [OF s(1,2)] s(3) i by (simp add: conjugated_def)
  qed
qed

lemma packed_plan_legal:
  assumes "authenticated l" "gl_n_padded l \<le> 2 ^ 31"
    and "up_sym_idx plan = sym_idx" "up_active plan = gl_active_mask l" "up_packed plan = nat (gl_n_padded l)"
    and "\<forall>r\<in>set sym_idx. 0 \<le> r \<and> nat r < length (up_sym_perm plan) \<and> (\<exists>row. up_sym_perm plan ! nat r = packed_row l row \<and> shard_local l row)"
  shows "legal_plan plan" "\<exists>m<up_packed plan. up_active plan ! m" "nat (gl_n_shards l) dvd up_packed plan"
    "\<not> crosses plan (up_packed plan div nat (gl_n_shards l))"
proof -
  let ?N = "gl_n_padded l"
  note v = validate_facts [OF assms(1)]
  have N: "1 \<le> ?N" using v(3,4,5) by (simp add: mult_le_cancel_left1 order_trans)
  have rows: "set (plan_rows plan) = set sym_idx" by (simp add: plan_rows_def assms(3))
  have local: "\<exists>row. up_sym_perm plan ! nat r = packed_row l row \<and> shard_local l row" if "r \<in> set sym_idx" for r using assms(6) that by blast
  have "perm_table (up_packed plan) (plan_table plan)"
    unfolding perm_table_def using packed_local_row(1,2) [OF assms(1)] local N by (fastforce simp: rows assms(5))
  moreover have "\<forall>s\<in>set (up_sym_idx plan). \<forall>m<up_packed plan. up_active plan ! m \<longrightarrow> up_active plan ! nat (up_sym_perm plan ! nat s ! m)"
    using packed_local_row(3) [OF assms(1)] local unfolding assms(3-5) by metis
  moreover have "length (up_active plan) = up_packed plan" using layout_lengths(1,5) [OF assms(1)] assms(4,5) by simp
  moreover have "1 \<le> up_packed plan" "up_packed plan \<le> 2 ^ 31" using N assms(2,5) by simp_all
  moreover have "\<forall>s\<in>set (up_sym_idx plan). 0 \<le> s \<and> s < int (length (up_sym_perm plan))" using assms(3,6) by auto
  ultimately show "legal_plan plan" unfolding legal_plan_def by blast
  have s0: "0 \<le> row_slot l 0 \<and> row_slot l 0 < ?N \<and> slot_row l (row_slot l 0) = 0" using view_facts(1) [OF assms(1), of 0] v(1) by simp
  moreover from this have "nat (row_slot l 0) < length (gl_packed_to_canonical l)" using layout_lengths(1) [OF assms(1)] by linarith
  ultimately have "gl_active_mask l ! nat (row_slot l 0)" using v(7) by (simp add: slot_row_def)
  then show "\<exists>m<up_packed plan. up_active plan ! m" using s0 by (intro exI [of _ "nat (row_slot l 0)"]) (simp add: assms(4,5))
  have e: "up_packed plan = nat (gl_n_shards l) * nat (gl_shard_size l)" using v(4,5) by (simp add: assms(5) nat_mult_distrib)
  then show "nat (gl_n_shards l) dvd up_packed plan" by simp
  have "up_packed plan div nat (gl_n_shards l) = nat (gl_shard_size l)" using v(4) by (simp add: e)
  then show "\<not> crosses plan (up_packed plan div nat (gl_n_shards l))"
    using packed_local_row(4) [OF assms(1)] local unfolding crosses_def rows assms(5) by metis
qed

section \<open>The layout of the orbits\<close>

lemma in_sum_le: "\<forall>x\<in>set xs. 0 \<le> x \<Longrightarrow> y \<in> set xs \<Longrightarrow> y \<le> sum_list xs" for y :: int
proof (induction xs)
  case (Cons x xs)
  have "0 \<le> sum_list xs" using Cons.prems(1) by (intro sum_list_nonneg) simp
  then show ?case using Cons by auto
qed simp

lemma sizes_sum:
  assumes "\<forall>x\<in>set dense. x < G"
  shows "sum_list (group_sizes dense G) = int (length dense)"
proof -
  let ?cls = "map (\<lambda>g. filter (\<lambda>i. dense ! i = g) [0..<length dense]) [0..<G]"
  have "\<forall>i<length dense. dense ! i < G" using assms by simp
  then have "mset (concat ?cls) = mset [0..<length dense]" by (intro concat_classes_mset) auto
  then have "length (concat ?cls) = length dense" by (metis length_upt minus_nat.diff_0 size_mset)
  moreover have "sum_list (map (\<lambda>xs. int (length xs)) css) = int (length (concat css))" for css :: "nat list list"
    by (induction css) simp_all
  from this [of ?cls] have "sum_list (group_sizes dense G) = int (length (concat ?cls))"
    using assms by (simp add: group_sizes_eq comp_def)
  ultimately show ?thesis by simp
qed

lemma layout_extent:
  assumes "build_grouped_shard_layout labels side side = Inr l"
  shows "gl_n_padded l \<le> side * (int (length labels) + side)"
proof -
  note p = build_parts [OF assms]
  note d = dense_ok [OF p(1)]
  let ?sizes = "group_sizes (fst (dense_labels labels)) (snd (dense_labels labels))"
  let ?loads = "lpt_loads (lpt_pack ?sizes (nat side))"
  have nsh: "0 < nat side" using p(2) by simp
  note inv = lpt_pack_inv [OF nsh, of ?sizes]
  have total: "sum_list ?loads = int (length labels)"
    using lpt_loads_sum [OF inv] packing_total [of ?sizes] sizes_sum [OF d(2)] d(4) by simp
  have nonneg: "\<forall>x\<in>set ?loads. 0 \<le> x"
  proof
    fix x assume "x \<in> set ?loads"
    then obtain t where "t < nat side" "x = ?loads ! t" using p(10) by (metis in_set_conv_nth)
    then show "0 \<le> x" using lpt_load_rows [OF inv _ d(1-3)] by simp
  qed
  have "fold max ?loads 0 \<le> int (length labels)"
    using in_sum_le [OF nonneg] total by (intro fold_max_le) auto
  moreover have "gl_shard_size l < fold max ?loads 0 + side"
    using p(2,11) ru.carrier_tight [of "fold max ?loads 0" side] by (simp add: max_def split: if_splits)
  ultimately have "gl_shard_size l \<le> int (length labels) + side" by simp
  then have "side * gl_shard_size l \<le> side * (int (length labels) + side)" using p(2) by (intro mult_left_mono) auto
  then show ?thesis using validate_facts(5) [OF p(12)] p(6) by simp
qed

text \<open>Rows with one label share a shard, so a permutation inside the orbits is local.\<close>

lemma orbit_rows_local:
  assumes "build_grouped_shard_layout (map (\<lambda>i. int (started_before n rows i)) [0..<n]) side side = Inr l"
    and "1 \<le> n" "perm_table n rows" "row \<in> set rows"
  shows "shard_local l row"
proof -
  let ?labels = "map (\<lambda>i. int (started_before n rows i)) [0..<n]"
  note p = build_parts [OF assms(1)] and r = perm_row [OF assms(3,4)]
  note d = dense_ok [OF p(1)]
  have n: "gl_n_logical l = int n" using p(4) by simp
  have "row_slot l i div gl_shard_size l = row_slot l (row ! nat i) div gl_shard_size l" if i: "0 \<le> i" "i < gl_n_logical l" for i
  proof -
    have k: "nat i < n" using i n by linarith
    have "row ! nat i \<in> set row" by (rule nth_mem) (use r k in linarith)
    then have j: "0 \<le> row ! nat i" "row ! nat i < gl_n_logical l" using r n by auto
    then have k': "nat (row ! nat i) < n" using n by linarith
    have "(nat i, nat (row ! nat i)) \<in> moves rows" unfolding moves_def using assms(4) r k
      by (intro CollectI exI [of _ "nat i"] exI [of _ row]) simp
    then have "(nat i, nat (row ! nat i)) \<in> linked rows" unfolding linked_def by (intro r_into_rtrancl) simp
    then have "?labels ! nat i = ?labels ! nat (row ! nat i)" using started_before_eq [OF assms(2,3) k k'] k k' by simp
    then have "gl_canonical_group_id l ! nat i = gl_canonical_group_id l ! nat (row ! nat i)"
      using d(4,5) k k' by (simp add: p(8))
    then show ?thesis using group_interval [OF p(12) i] group_interval [OF p(12) j] by simp
  qed
  moreover have "distinct row" using assms(3,4) by (simp add: perm_table_def)
  ultimately show ?thesis using r n by (simp add: shard_local_def)
qed

section \<open>What a plan promises\<close>

text \<open>In the packed order every selected row names the source of each centroid and the cells its image crossed.\<close>

definition carries_action :: "centroid_plan \<Rightarrow> imat list \<Rightarrow> rvec list \<Rightarrow> ivec list \<Rightarrow> ivec \<Rightarrow> bool" where
  "carries_action plan syms taus idx g \<longleftrightarrow>
     (let u = cp_unfold plan; slot = \<lambda>m. row_slot (sq_axis (cp_layout plan)) (int m) in
      \<forall>r\<in>set (up_sym_idx u). \<forall>m<length idx. \<exists>m'<length idx. \<exists>w.
        nearest g (syms ! (nat r mod length syms)) (taus ! (nat r mod length syms)) (idx ! m) = vadd (idx ! m') (vmul w g) \<and>
        up_sym_perm u ! nat r ! nat (slot m) = slot m' \<and> up_wraps u ! nat r ! nat (slot m) = i8_vec w)"

lemma source_rows_available:
  assumes "source_row_ok g s t idx prow wrow" "idx \<noteq> []"
  shows "list_all (\<lambda>x. 0 \<le> x) prow \<longleftrightarrow> row_closed g s t idx" "length prow = length idx" "length wrow = length idx"
    "row_closed g s t idx \<Longrightarrow> distinct prow \<and> set prow = {0..<int (length idx)}"
proof -
  show perm: "distinct prow \<and> set prow = {0..<int (length idx)}" if "row_closed g s t idx" using assms(1) that by (simp add: source_row_ok_def)
  have len: "length prow = length idx \<and> length wrow = length idx"
  proof (cases "row_closed g s t idx")
    case True
    then show ?thesis using assms(1) perm distinct_card [of prow] by (simp add: source_row_ok_def)
  qed (use assms(1) in \<open>simp add: source_row_ok_def\<close>)
  then show "length prow = length idx" "length wrow = length idx" by simp_all
  show "list_all (\<lambda>x. 0 \<le> x) prow \<longleftrightarrow> row_closed g s t idx"
  proof (cases "row_closed g s t idx")
    case True
    then show ?thesis using perm by (auto simp: list_all_iff)
  next
    case False
    then have "prow = replicate (length idx) (- 1)" using assms(1) by (simp add: source_row_ok_def)
    then show ?thesis using False assms(2) by (cases idx) auto
  qed
qed

lemma rows_int32: "1 \<le> side \<Longrightarrow> side * (int n + side) \<le> 2 ^ 31 \<Longrightarrow> n \<le> 2 ^ 31" for side :: int
proof -
  assume side: "1 \<le> side" "side * (int n + side) \<le> 2 ^ 31"
  have "int n \<le> 1 * (int n + side)" using side(1) by simp
  also have "\<dots> \<le> side * (int n + side)" using side(1) by (intro mult_right_mono) auto
  also note side(2)
  finally show "n \<le> 2 ^ 31" by simp
qed

text \<open>The plan built from tables that are right row by row.\<close>

lemma plan_of_tables:
  assumes "centroid_source_map_and_wrap idx syms taus g True True (Some sym_idx) = Inr (perm, wraps)"
    and "length wraps = length perm" "\<forall>r<length perm. source_row_ok g (syms ! (r mod length syms)) (taus ! (r mod length syms)) idx (perm ! r) (wraps ! r)"
    and "\<forall>r\<in>set sym_idx. 0 \<le> r \<and> nat r < length perm \<and> row_closed g (syms ! (nat r mod length syms)) (taus ! (nat r mod length syms)) idx"
    and "idx \<noteq> []" "length irr_idx = length sym_idx" "\<forall>p\<in>set irr_idx. 0 \<le> p \<and> p < int n_parent"
    and "1 \<le> side" "nspinor \<in> {1, 2, 4}" "side * (int (length idx) + side) \<le> 2 ^ 31"
  shows "\<exists>plan. build_centroid_k_unfold_plan (side, side) nspinor syms taus irr_idx sym_idx idx g n_parent None = Some (Inr plan) \<and>
    up_sym_idx (cp_unfold plan) = sym_idx \<and> legal_plan (cp_unfold plan) \<and> (\<exists>m<up_packed (cp_unfold plan). up_active (cp_unfold plan) ! m) \<and>
    nat side dvd up_packed (cp_unfold plan) \<and> \<not> crosses (cp_unfold plan) (up_packed (cp_unfold plan) div nat side) \<and>
    carries_action plan syms taus idx g"
proof -
  let ?n = "length idx" and ?avail = "np_flatnonzero (map (list_all (\<lambda>x. 0 \<le> x)) perm)"
  let ?rows = "np_take perm ?avail"
  note ok = assms(3) [rule_format]
  have n: "1 \<le> ?n" using assms(5) by (cases idx) simp_all
  have n31: "?n \<le> 2 ^ 31" using rows_int32 [OF assms(8,10)] .
  have table: "perm_table ?n ?rows"
    unfolding perm_table_def
  proof
    fix row assume "row \<in> set ?rows"
    then obtain r where r: "r < length perm" "perm ! r = row" "list_all (\<lambda>x. 0 \<le> x) row" by (auto simp: np_take_def np_flatnonzero_def)
    then show "distinct row \<and> set row = {0..<int ?n}" using source_rows_available(1,4) [OF ok [OF r(1)] assms(5)] by blast
  qed
  let ?labels = "map (\<lambda>i. int (started_before ?n ?rows i)) [0..<?n]"
  have labels: "permutation_orbit_labels ?n ?rows = Some (Inr ?labels)" by (rule labels_of_table [OF n n31 table])
  obtain l where l: "build_grouped_shard_layout ?labels side side = Inr l"
  proof -
    have "?labels \<noteq> []" using assms(5) by simp
    from build_layout_shape(1) [OF this assms(8,8)] that show ?thesis by blast
  qed
  note p = build_parts [OF l]
  have nl: "gl_n_logical l = int ?n" using p(4) by simp
  have N31: "gl_n_padded l \<le> 2 ^ 31" using layout_extent [OF l] assms(10) by simp
  have local: "shard_local l row" if "row \<in> set ?rows" for row using orbit_rows_local [OF l n table that] .
  have sq: "plan_layout ?labels [side, side] None ?n = Inr \<lparr>sq_side = side, sq_axis = l\<rparr>"
    using l assms(8) by (simp add: plan_layout_def build_square_grouped_shard_layout_def square_side_def)
  have packed: "pack_permutations_host l (int ?n) ?rows True = Inr (map (packed_row l) ?rows)"
    using pack_permutations_Inr [OF p(12) N31, of ?rows True "map (packed_row l) ?rows"] local shard_local_length [OF p(12)] nl
    by (auto simp: shard_local_def)
  have "\<forall>w\<in>set wraps. length w = ?n"
    using source_rows_available(3) [OF ok assms(5)] assms(2) by (metis in_set_conv_nth)
  from packed_wrap_rows [OF p(12) nl this, of "(0, 0, 0)"]
  obtain B where B: "pack_host l (rows_array ?n wraps) 1 (0, 0, 0) = Inr B" "length (array_rows B) = length wraps"
      "\<forall>r<length wraps. \<forall>m<?n. array_rows B ! r ! nat (row_slot l (int m)) = wraps ! r ! m"
    by blast
  let ?perm = "np_put ?avail (map (packed_row l) ?rows) (replicate (length perm) (replicate (nat (gl_n_padded l)) (- 1)))"
  let ?u = "\<lparr>up_sym_idx = sym_idx, up_sym_perm = ?perm, up_wraps = array_rows B, up_active = gl_active_mask l, up_packed = nat (gl_n_padded l)\<rparr>"
  let ?plan = "\<lparr>cp_unfold = ?u, cp_irr_idx = irr_idx, cp_layout = \<lparr>sq_side = side, sq_axis = l\<rparr>, cp_n_sym_spatial = length syms, cp_nspinor = nspinor\<rparr>"
  have run: "build_centroid_k_unfold_plan (side, side) nspinor syms taus irr_idx sym_idx idx g n_parent None = Some (Inr ?plan)"
  proof -
    have kinds: "\<not> (nspinor \<noteq> 1 \<and> nspinor \<noteq> 2 \<and> nspinor \<noteq> 4)" using assms(9) by blast
    have parents: "\<not> (\<exists>p\<in>set irr_idx. p < 0 \<or> int n_parent \<le> p)" using assms(7) by (auto simp: not_le not_less)
    show ?thesis
      unfolding build_centroid_k_unfold_plan_def Let_def fst_conv snd_conv if_not_P [OF kinds] if_not_P [OF parents] assms(1)
      by (simp add: labels sq packed B(1) assms(6))
  qed
  have row: "?perm ! nat r = packed_row l (perm ! nat r) \<and> shard_local l (perm ! nat r)" if r: "r \<in> set sym_idx" for r
  proof -
    have a: "nat r < length perm" and c: "row_closed g (syms ! (nat r mod length syms)) (taus ! (nat r mod length syms)) idx"
      using assms(4) r by blast+
    have "list_all (\<lambda>x. 0 \<le> x) (perm ! nat r)" using source_rows_available(1) [OF ok [OF a] assms(5)] c by (rule iffD2)
    note packed_perm_rows [OF a this]
    then show ?thesis using local by simp
  qed
  have "carries_action ?plan syms taus idx g"
    unfolding carries_action_def Let_def
  proof (intro ballI allI impI)
    fix r m assume "r \<in> set (up_sym_idx (cp_unfold ?plan))" and m: "m < ?n"
    then have r: "r \<in> set sym_idx" by simp
    let ?s = "syms ! (nat r mod length syms)" and ?t = "taus ! (nat r mod length syms)" and ?row = "perm ! nat r"
    have rl: "nat r < length perm" "row_closed g ?s ?t idx" using assms(4) r by blast+
    note src = ok [OF rl(1)] source_rows_available(2,4) [OF ok [OF rl(1)] assms(5)]
    obtain w where w: "nearest g ?s ?t (idx ! m) = vadd (idx ! nat (?row ! m)) (vmul w g)" "wraps ! nat r ! m = i8_vec w"
      using src(1) rl(2) m unfolding source_row_ok_def if_P [OF rl(2)] by blast
    have "?row ! m \<in> set ?row" using src(2) m by simp
    then have v: "0 \<le> ?row ! m" "nat (?row ! m) < ?n" using src(3) [OF rl(2)] by auto
    have "?perm ! nat r ! nat (row_slot l (int m)) = row_slot l (?row ! m)"
      using packed_local_row(5) [OF p(12) conjunct2 [OF row [OF r]]] row [OF r] m nl by simp
    moreover have "array_rows B ! nat r ! nat (row_slot l (int m)) = i8_vec w" using B(3) rl(1) m assms(2) w(2) by simp
    ultimately show "\<exists>m'<?n. \<exists>w. nearest g ?s ?t (idx ! m) = vadd (idx ! m') (vmul w g) \<and>
        up_sym_perm (cp_unfold ?plan) ! nat r ! nat (row_slot (sq_axis (cp_layout ?plan)) (int m)) = row_slot (sq_axis (cp_layout ?plan)) (int m') \<and>
        up_wraps (cp_unfold ?plan) ! nat r ! nat (row_slot (sq_axis (cp_layout ?plan)) (int m)) = i8_vec w"
      using v w(1) by (intro exI [of _ "nat (?row ! m)"] conjI exI [of _ w]) simp_all
  qed
  moreover have "\<forall>r\<in>set sym_idx. 0 \<le> r \<and> nat r < length (up_sym_perm ?u) \<and> (\<exists>row. up_sym_perm ?u ! nat r = packed_row l row \<and> shard_local l row)"
    using row assms(4) by auto
  note packed_plan_legal [OF p(12) N31 _ _ _ this]
  ultimately show ?thesis using run p(6) by (intro exI [of _ ?plan]) simp
qed

section \<open>Property\<close>

text \<open>
  C6: from the geometry to the batches. For centroids on the grid, legal k tables, and selected operations that carry the
  centroids onto themselves, the plan is built: labels, layout and packed tables compose without refusal. In the
  packed order every selected row names the source of each centroid and the cells its image crossed, orbits stay on
  one owner, and on this plan the whole-orbit batches and the column tiles return for every width asked for.
\<close>

theorem built_plan_serves:
  assumes "1 \<le> side" "nspinor \<in> {1, 2, 4}" "grid_ok g" "\<forall>x\<in>set idx. in_grid g x" "idx \<noteq> []" "length taus = length syms"
    and "sym_idx \<noteq> []" "\<forall>r\<in>set sym_idx. 0 \<le> r \<and> r < int (length syms * 2)"
    and "\<forall>r\<in>set sym_idx. row_closed g (syms ! (nat r mod length syms)) (taus ! (nat r mod length syms)) idx"
    and "length irr_idx = length sym_idx" "\<forall>p\<in>set irr_idx. 0 \<le> p \<and> p < int n_parent"
    and "side * (int (length idx) + side) \<le> 2 ^ 31"
  shows "\<exists>plan. build_centroid_k_unfold_plan (side, side) nspinor syms taus irr_idx sym_idx idx g n_parent None = Some (Inr plan) \<and>
    up_sym_idx (cp_unfold plan) = sym_idx \<and> carries_action plan syms taus idx g \<and> legal_plan (cp_unfold plan) \<and>
    \<not> crosses (cp_unfold plan) (up_packed (cp_unfold plan) div nat side) \<and>
    (\<forall>ranks b. 1 \<le> ranks \<and> 1 \<le> b \<longrightarrow> (\<exists>mus lps lws. orbit_mu_batches (cp_unfold plan) (int (up_packed (cp_unfold plan))) ranks b =
       Some (Inr (mus, lps, lws, plan_rows (cp_unfold plan))))) \<and>
    (\<forall>width. \<exists>mu. cct_column_bins (cp_unfold plan) (nat side) width = Some (Inr mu))"
proof -
  have range: "\<forall>r\<in>set sym_idx. 0 \<le> r \<and> r < int (length syms * (if True then 2 else 1))" using assms(8) by simp
  obtain perm wraps where src: "centroid_source_map_and_wrap idx syms taus g True True (Some sym_idx) = Inr (perm, wraps)"
      "length perm = length syms * 2" "length wraps = length perm"
      "\<forall>r<length perm. source_row_ok g (syms ! (r mod length syms)) (taus ! (r mod length syms)) idx (perm ! r) (wraps ! r)"
    using source_map_run [OF assms(3,4) rows_int32 [OF assms(1,12)] assms(6,7) range, of True] unfolding if_P [OF assms(9)] if_True by blast
  have selected: "\<forall>r\<in>set sym_idx. 0 \<le> r \<and> nat r < length perm \<and> row_closed g (syms ! (nat r mod length syms)) (taus ! (nat r mod length syms)) idx"
    using assms(8,9) src(2) by auto
  obtain plan where plan: "build_centroid_k_unfold_plan (side, side) nspinor syms taus irr_idx sym_idx idx g n_parent None = Some (Inr plan)"
      "up_sym_idx (cp_unfold plan) = sym_idx" "legal_plan (cp_unfold plan)" "\<exists>m<up_packed (cp_unfold plan). up_active (cp_unfold plan) ! m"
      "nat side dvd up_packed (cp_unfold plan)" "\<not> crosses (cp_unfold plan) (up_packed (cp_unfold plan) div nat side)"
      "carries_action plan syms taus idx g"
    using plan_of_tables [OF src(1,3,4) selected assms(5,10,11,1,2,12)] by blast
  have "\<exists>mus lps lws. orbit_mu_batches (cp_unfold plan) (int (up_packed (cp_unfold plan))) ranks b =
      Some (Inr (mus, lps, lws, plan_rows (cp_unfold plan)))" if "1 \<le> ranks \<and> 1 \<le> b" for ranks b
    using orbit_mu_batches_run [OF plan(3,4), of ranks b] that by blast
  moreover have "\<exists>mu. cct_column_bins (cp_unfold plan) (nat side) width = Some (Inr mu)" for width
    using columns_return [OF plan(3,4) _ plan(5,6)] assms(1) by simp
  ultimately show ?thesis using plan by blast
qed

theorem built_plan_serves_witness:
  "\<exists>plan. build_centroid_k_unfold_plan (2, 2) 1 [mat_id] [(pi, 0, 0)] [0] [0] [(0, 0, 0), (1, 0, 0)] (2, 1, 1) 1 None = Some (Inr plan) \<and>
     legal_plan (cp_unfold plan) \<and> (\<exists>mu. cct_column_bins (cp_unfold plan) 2 8 = Some (Inr mu)) \<and>
     (\<exists>mus lps lws rows. orbit_mu_batches (cp_unfold plan) (int (up_packed (cp_unfold plan))) 2 4 = Some (Inr (mus, lps, lws, rows)))"
proof -
  let ?idx = "[(0, 0, 0), (1, 0, 0)] :: ivec list"
  have closed: "row_closed (2, 1, 1) mat_id (pi, 0, 0) ?idx" by (simp add: row_closed_def half_translation)
  have "\<exists>plan. build_centroid_k_unfold_plan (2, 2) 1 [mat_id] [(pi, 0, 0)] [0] [0] ?idx (2, 1, 1) 1 None = Some (Inr plan) \<and>
      up_sym_idx (cp_unfold plan) = [0] \<and> carries_action plan [mat_id] [(pi, 0, 0)] ?idx (2, 1, 1) \<and> legal_plan (cp_unfold plan) \<and>
      \<not> crosses (cp_unfold plan) (up_packed (cp_unfold plan) div nat 2) \<and>
      (\<forall>ranks b. 1 \<le> ranks \<and> 1 \<le> b \<longrightarrow> (\<exists>mus lps lws. orbit_mu_batches (cp_unfold plan) (int (up_packed (cp_unfold plan))) ranks b =
         Some (Inr (mus, lps, lws, plan_rows (cp_unfold plan))))) \<and>
      (\<forall>width. \<exists>mu. cct_column_bins (cp_unfold plan) (nat 2) width = Some (Inr mu))"
    by (rule built_plan_serves) (simp_all add: closed)
  then obtain plan where plan: "build_centroid_k_unfold_plan (2, 2) 1 [mat_id] [(pi, 0, 0)] [0] [0] ?idx (2, 1, 1) 1 None = Some (Inr plan)"
      "legal_plan (cp_unfold plan)" "\<And>ranks b. 1 \<le> ranks \<Longrightarrow> 1 \<le> b \<Longrightarrow> \<exists>mus lps lws. orbit_mu_batches (cp_unfold plan) (int (up_packed (cp_unfold plan))) ranks b =
         Some (Inr (mus, lps, lws, plan_rows (cp_unfold plan)))" "\<And>width. \<exists>mu. cct_column_bins (cp_unfold plan) (nat 2) width = Some (Inr mu)"
    by (elim exE conjE) simp
  have "\<exists>mu. cct_column_bins (cp_unfold plan) 2 8 = Some (Inr mu)" using plan(4) [of 8] by simp
  moreover obtain mus lps lws where "orbit_mu_batches (cp_unfold plan) (int (up_packed (cp_unfold plan))) 2 4 = Some (Inr (mus, lps, lws, plan_rows (cp_unfold plan)))"
    using plan(3) [of 2 4] by auto
  ultimately show ?thesis using plan(1,2) by (intro exI [of _ plan]) simp
qed

end
