(* ===== verification/Spec2Isabelle.thy ===== *)
theory Spec2Isabelle
  imports FitDriver ShardingFit GroupedMaps AsyncDispatch StreamPasses BandPartition
    OrbitLabels Irreducible StarMaps DirectedEdges QStencil QgridTrs LittleGroup HdfOwner CentroidPlan
begin

text \<open>
  \<^bold>\<open>lorrax\<close>: GW and Bethe-Salpeter calculations on sharded JAX arrays. The physics is complex floating
  point; around it the program decides, in exact integers, what is cut where, what is stored, what is
  skipped after a crash, and which rows stand for which. This library models that part: the extents and
  layouts of arrays, the plans of the streamed loops, the staged store of the pole fit and the driver that
  fills it, the worker that overlaps I/O, the band windows and partitions that must cut no multiplet, and the
  tables by which crystal symmetry lets one row stand for others.

  \<^bold>\<open>How a component is written.\<close> A Python function is a definition of the same name. A function that raises
  returns \<open>error + 'a\<close> (\<open>result\<close>, in \<open>LxPrelude\<close>) with one constructor per \<open>raise\<close>, carrying the numbers the
  message quotes. Python ints are \<open>int\<close>, array indices \<open>nat\<close>; a dataclass is a record. A loop is structural
  recursion or a \<open>fold\<close>; a loop to a data-dependent end is a \<open>function\<close> with a measure or a
  \<open>partial_function (option)\<close> with a theorem that it returns.

  \<^bold>\<open>Shared.\<close> \<open>LxPrelude\<close> holds the result type, floor arithmetic, Python's \<open>range\<close> and slices, int32 casts and
  the walks of an interval by consecutive blocks (locale \<open>block_walk\<close>, interpreted in \<open>Tiles\<close>). \<open>NumPyOps\<close>
  and \<open>JaxOps\<close> hold the NumPy, \<open>heapq\<close> and \<open>jax.lax\<close> operations the code is written in; the heap is used through
  the locale \<open>least_heap\<close>, interpreted on the list heap.

  \<^bold>\<open>Padding\<close> (\<open>src/runtime/padding.py\<close>). \<open>Padding\<close>: \<open>round_up\<close>, the carrier ladder, the divisor of a partition
  spec, the \<open>PaddedAxis\<close> receipt, its producer and its reader; \<open>round_up\<close> interprets \<open>carrier_rule\<close>.
  \<open>PaddedArrays\<close>: pad, strip, authenticate, and the dense solve at the logical extent, whose solver is a
  parameter. The lemmas show that a carrier is the least legal extent, that a receipt is accepted exactly
  when the producer made it, and that padding never changes what is read back.

  \<^bold>\<open>Tiles and sharding.\<close> \<open>Tiles\<close> (\<open>src/runtime/tiles.py\<close>, \<open>src/gw/mpa/tiling.py\<close>, the budget half of
  \<open>src/file_io/mpa_store.py\<close>): the 1 GiB tile, the column budget and the (q, column) schedule of the fit.
  \<open>ShardingFit\<close> (\<open>src/common/sharding_fit.py\<close>): a partition spec degraded until every axis divides.

  \<^bold>\<open>The staged pole fit.\<close> \<open>FitStore\<close> (\<open>src/file_io/mpa_store.py\<close>, \<open>src/file_io/restart_bundle.py\<close>): the store, its
  completion ledger, the \<open>FitWriter\<close> session, finalization and the two validations. \<open>FitLedger\<close>: the ledger
  invariant and its preservation by every operation. \<open>FitDriver\<close> (\<open>src/gw/mpa/fit_driver.py\<close>): \<open>run_fit_driver\<close>
  over the store. One environment (which kernels raise, which transfers and closes fail) is one run, so the
  properties range over every crash: a crashed run leaves a store the restart accepts, an undisturbed run
  completes, and what it finalizes is exactly what the consumer accepts.

  \<^bold>\<open>Grouped layouts\<close> (\<open>src/common/grouped_layout.py\<close>). \<open>GroupedLayout\<close> has the code, \<open>GroupedPacking\<close> the
  packing loop and its load bounds, \<open>GroupedBuild\<close> the placement and the theorem that the builder's result
  passes the validator, \<open>GroupedMaps\<close> the host maps, through the locale \<open>axis_view\<close> interpreted on every layout
  the validator accepts.

  \<^bold>\<open>Centroids\<close> (\<open>src/gw/centroid_k_unfold.py\<close>, \<open>orbit_syms.py\<close> of the symmetry service). \<open>SourceMap\<close> has the
  source centroid and the lattice wrap of every operation and centroid, \<open>CentroidPlan\<close> the plan built from it: orbit
  labels, grouped layout, tables in the packed order. \<open>OrbitBins\<close> cuts the active centroids into orbits and searches for
  the least number of batches that largest-first packing fills, reusing the packing loop of \<open>GroupedPacking\<close>;
  \<open>OrbitBatches\<close> deals a batch to the ranks and restricts the action to it, \<open>OrbitColumns\<close> packs the orbits of each Y
  owner. On a legal plan (\<open>legal_plan\<close>: selected rows are permutations that keep the active centroids) the batches never
  refuse and carry exactly their own action; \<open>built_plan_serves\<close> shows that what the builder returns is such a plan.

  \<^bold>\<open>Overlapped I/O\<close> (\<open>src/common/async_io.py\<close>). \<open>AsyncDispatch\<close>: the caller and the worker of \<open>AsyncDispatcher\<close>
  as a step relation, refined to an abstract FIFO; every blocked call returns.

  \<^bold>\<open>HDF5 files\<close> (\<open>src/file_io/h5_journal.py\<close>, \<open>src/file_io/hdf5_owner.py\<close>). \<open>PyText\<close> has the text functions of
  Python they use, \<open>HdfJournal\<close> the journal: its lines, ring, file and crash dumps under disk failures, \<open>HdfOwner\<close>
  the registry of open files as a step relation, with the invariant that no file is held through two libraries
  while one can write, nested scopes that leave no handle behind, and the counters against a reference.

  \<^bold>\<open>Streamed passes\<close> (\<open>src/gw/subtile_stream.py\<close>, \<open>src/gw/contour_accumulator.py\<close>). \<open>RowWindows\<close>: orbit cuts, equal
  windows, the tables a window reads. \<open>StreamPasses\<close>: the block accumulator and the loops over chunks and
  windows. Addition and multiplication are any two functions, so the equations hold bit for bit; only where
  the code adds padded zero terms is \<open>x + 0 * y = x\<close> asked for, as the locale \<open>exact_zero\<close>, interpreted on
  the complex numbers.

  \<^bold>\<open>Bands\<close> (\<open>src/common/band_degeneracy.py\<close>, \<open>src/gw/band_partition.py\<close>). \<open>BandWindow\<close>: gaps, nearest clean cuts and
  the three modes of the window resolver. \<open>BandPartition\<close>: promotion of protected bands to whole multiplets.

  \<^bold>\<open>Symmetry\<close> (\<open>services/symmetry_maps/src/symmetry_maps/\<close>). Everything is exact integer work on a mesh of k or q
  points. \<open>KGrid\<close> has the mesh itself (C order, keys, negation, shifts; \<open>maps.py\<close>), \<open>RowTables\<close> the table
  idioms and the locale \<open>point_action\<close>, operations closed under composition and inverse that act on a set of
  points, interpreted as \<open>mesh\<close> on integer matrices that respect the mesh. \<open>Irreducible\<close> reduces a mesh to one
  point per orbit (\<open>find_irreducible_bz_points\<close>, \<open>anchored_irreducible_bz_points\<close>), \<open>OrbitLabels\<close> labels the orbits of
  a permutation table with a union-find (\<open>orbit_syms.py\<close>), \<open>BandAction\<close> and \<open>StarMaps\<close> apply an operation to band
  matrices and carry values between irreducible rows, stars and file order. \<open>GridSteps\<close>, \<open>DirectedEdges\<close> and
  \<open>QStencil\<close> (\<open>directed_edges.py\<close>) build the tables of symmetry-related links and of q stencils, \<open>QgridTrs\<close> and
  \<open>LittleGroup\<close> (\<open>qgrid_trs.py\<close>) the pairs of q and -q, the stabilizers and the plan of the projection loop. The
  lemmas state that each table says what its consumers rely on: orbits are orbits, every row is reached from its
  representative by the operation named, nothing is lost in a round trip, and a refusal has the named cause.

  \<^bold>\<open>Bounds and fuel.\<close> No definition takes fuel. \<open>span_loop\<close>, \<open>narrow\<close>, \<open>while_loop\<close>, \<open>uf_find\<close>, \<open>walk_back\<close> and
  \<open>search_bins\<close> are partial functions; \<open>plan_windows_returns\<close> shows that the planner's loops return for every input it is given,
  \<open>orbit_labels_exact\<close> that every find returns on the parents the unions leave, \<open>segments_cheapest\<close> that the walk
  back over the table of segments does, \<open>partition_bins_exact\<close> that the search for the number of batches does.

  \<^bold>\<open>Not modelled.\<close> Rounding: energies, byte counts and coordinates are exact reals. Device placement: a JAX program is the
  function it computes on the global array. HDF5, MPI and the native libraries: a transfer lands or fails
  (\<open>io_outcome\<close>, \<open>disk\<close>). Kernels (FFTs, contractions, eigensolvers, quadratures) are not modelled at all: their
  correctness is a statement on approximation. Messages keep their numbers, not their prose.
\<close>

end
